(* ===== verification/Prelude.thy ===== *)
theory Prelude
  imports
    "HOL-Library.Word"
    "HOL-Library.Multiset"
    "HOL-Library.Monad_Syntax"
begin

unbundle bit_operations_syntax

text \<open>
  Shared vocabulary of the development: the fixed-width integers of the C sources,
  array accesses that can leave their bounds, and the lemmas on words, lists and
  multisets that several components need.

  A value of type \<open>'a option\<close> is the outcome of a piece of code that may fault:
  \<open>None\<close> stands for an access the kernel would oops on (a NULL pointer, freed memory or
  an index outside the allocated array), \<open>Some\<close> for a normal return.
\<close>

section \<open>Integer types\<close>

type_synonym u8 = "8 word"
type_synonym u16 = "16 word"
type_synonym u32 = "32 word"
type_synonym u64 = "64 word"

section \<open>Shared constants\<close>

text \<open>The number of peer entries, and the modes of a virtual interface with their values.\<close>

definition MAX_LUT_NUM :: nat where "MAX_LUT_NUM = 32"

datatype sprdwl_mode = SPRDWL_MODE_NONE | SPRDWL_MODE_STATION | SPRDWL_MODE_AP
  | SPRDWL_MODE_P2P_DEVICE | SPRDWL_MODE_P2P_CLIENT | SPRDWL_MODE_P2P_GO | SPRDWL_MODE_IBSS
  | SPRDWL_MODE_MAX

fun mode_index :: "sprdwl_mode \<Rightarrow> nat" where
  "mode_index SPRDWL_MODE_NONE = 0"
| "mode_index SPRDWL_MODE_STATION = 1"
| "mode_index SPRDWL_MODE_AP = 2"
| "mode_index SPRDWL_MODE_P2P_DEVICE = 4"
| "mode_index SPRDWL_MODE_P2P_CLIENT = 5"
| "mode_index SPRDWL_MODE_P2P_GO = 6"
| "mode_index SPRDWL_MODE_IBSS = 7"
| "mode_index SPRDWL_MODE_MAX = 8"

section \<open>Collections of rewrite rules\<close>

named_theorems seqno_simps \<open>sequence number operations read as arithmetic on nat\<close>
named_theorems frame_simps \<open>fields that an operation leaves alone\<close>
named_theorems conserve_simps \<open>operations that keep every packet in exactly one place\<close>

section \<open>Arrays\<close>

text \<open>An array access of the C code: out of range is a fault, not a value.\<close>

definition aget :: "'a list \<Rightarrow> nat \<Rightarrow> 'a option" where
  "aget xs i = (if i < length xs then Some (xs ! i) else None)"

definition aset :: "'a list \<Rightarrow> nat \<Rightarrow> 'a \<Rightarrow> 'a list option" where
  "aset xs i v = (if i < length xs then Some (xs[i := v]) else None)"

lemma aget_Some [simp]: "i < length xs \<Longrightarrow> aget xs i = Some (xs ! i)"
  by (simp add: aget_def)

lemma aget_eq_Some_iff: "aget xs i = Some v \<longleftrightarrow> i < length xs \<and> v = xs ! i"
  by (auto simp: aget_def)

lemma aget_eq_None_iff [simp]: "aget xs i = None \<longleftrightarrow> length xs \<le> i"
  by (auto simp: aget_def)

lemma aset_Some [simp]: "i < length xs \<Longrightarrow> aset xs i v = Some (xs[i := v])"
  by (simp add: aset_def)

lemma aset_eq_Some_iff: "aset xs i v = Some ys \<longleftrightarrow> i < length xs \<and> ys = xs[i := v]"
  by (auto simp: aset_def)

text \<open>
  Copies between byte arrays: \<open>read_bytes\<close> is the source side of a \<open>memcpy\<close>, \<open>memcpy_at\<close> the
  destination side; both fault when they leave their array.
\<close>

definition read_bytes :: "'a list \<Rightarrow> nat \<Rightarrow> nat \<Rightarrow> 'a list option" where
  "read_bytes src off len = (if off + len \<le> length src then Some (take len (drop off src)) else None)"

definition memcpy_at :: "'a list \<Rightarrow> nat \<Rightarrow> 'a list \<Rightarrow> 'a list option" where
  "memcpy_at dst off src =
     (if off + length src \<le> length dst
      then Some (take off dst @ src @ drop (off + length src) dst) else None)"

lemma read_bytes_eq_Some_iff:
  "read_bytes src off len = Some bs \<longleftrightarrow> off + len \<le> length src \<and> bs = take len (drop off src)"
  by (auto simp: read_bytes_def)

lemma memcpy_at_eq_Some_iff:
  "memcpy_at dst off src = Some d \<longleftrightarrow>
     off + length src \<le> length dst \<and> d = take off dst @ src @ drop (off + length src) dst"
  by (auto simp: memcpy_at_def)

lemma length_memcpy_at: "memcpy_at dst off src = Some d \<Longrightarrow> length d = length dst"
  by (auto simp: memcpy_at_eq_Some_iff)

lemma memcpy_at_total:
  "off + length src \<le> length dst \<Longrightarrow> \<exists>d. memcpy_at dst off src = Some d \<and> length d = length dst"
  by (simp add: memcpy_at_def)

section \<open>Words\<close>

lemma or_push_bit:
  fixes x y :: nat
  assumes "x < 2 ^ m"
  shows "x OR push_bit m y = x + push_bit m y"
proof (rule disjunctive_add [symmetric])
  fix n
  have "x = take_bit m x" using assms by (simp add: take_bit_nat_eq_self)
  then have "bit x n \<Longrightarrow> n < m" by (metis bit_take_bit_iff)
  then show "\<not> bit x n \<or> \<not> bit (push_bit m y) n" by (auto simp: bit_push_bit_iff)
qed

lemma unat_and_mask:
  fixes x :: "'a::len word"
  shows "unat (x AND mask k) = unat x mod 2 ^ k"
proof -
  have "unat (take_bit k x) = take_bit k (unat x)"
    by (rule unsigned_take_bit_eq)
  then show ?thesis
    by (simp add: take_bit_eq_mask [symmetric] take_bit_eq_mod)
qed

lemma unat_ucast_up:
  fixes x :: "'a::len word"
  assumes "LENGTH('a) \<le> LENGTH('b::len)"
  shows "unat (ucast x :: 'b word) = unat x"
proof -
  have "unat x < 2 ^ LENGTH('a)" using unsigned_less [of x] by simp
  also have "\<dots> \<le> 2 ^ LENGTH('b)" using assms by (intro power_increasing) simp_all
  finally show ?thesis by (simp add: unsigned_ucast_eq take_bit_eq_mod)
qed

lemma unat_ucast_widths [simp]:
  "unat (ucast (x :: u8) :: u16) = unat x" "unat (ucast (x :: u8) :: u32) = unat x"
  "unat (ucast (y :: u16) :: u32) = unat y" "unat (ucast (x :: u8) :: u64) = unat x"
  "unat (ucast (y :: u16) :: u64) = unat y" "unat (ucast (z :: u32) :: u64) = unat z"
  by (simp_all add: unat_ucast_up)

lemma unat_pow2:
  assumes "k < LENGTH('a)"
  shows "unat (2 ^ k :: 'a::len word) = 2 ^ k"
proof -
  have "(2 ^ k :: 'a word) = of_nat (2 ^ k)" by simp
  then have "unat (2 ^ k :: 'a word) = 2 ^ k mod 2 ^ LENGTH('a)"
    by (simp only: unat_of_nat)
  also have "\<dots> = 2 ^ k" using assms by (intro mod_less) (simp add: power_strict_increasing)
  finally show ?thesis .
qed

lemma mask_4095: "(0xfff :: u16) = mask 12"
  by (simp add: mask_eq_exp_minus_1)

lemma word_nonzero_dec:
  fixes x :: "'a::len word"
  assumes "x \<noteq> 0"
  shows "unat (x - 1) = unat x - 1"
  using assms by (simp add: unat_minus_one)

lemma unat_inc:
  fixes x :: "'a::len word"
  assumes "unat x + 1 < 2 ^ LENGTH('a)"
  shows "unat (x + 1) = unat x + 1"
  using assms by (simp add: unat_word_ariths)

lemma u16_inc_nonzero: "x \<noteq> 0xffff \<Longrightarrow> x + 1 \<noteq> (0 :: u16)"
proof
  assume "x \<noteq> 0xffff" and "x + 1 = 0"
  then have "x = - 1" by (simp add: eq_neg_iff_add_eq_0)
  with \<open>x \<noteq> 0xffff\<close> show False by simp
qed

section \<open>Lists and multisets\<close>

lemma sum_list_map_update:
  fixes f :: "'a \<Rightarrow> 'b::comm_monoid_add"
  assumes "i < length xs"
  shows "sum_list (map f (xs[i := v])) + f (xs ! i) = sum_list (map f xs) + f v"
  using assms
proof (induction xs arbitrary: i)
  case Nil
  then show ?case by simp
next
  case (Cons x xs)
  show ?case
  proof (cases i)
    case 0
    then show ?thesis by (simp add: ac_simps)
  next
    case (Suc j)
    with Cons.prems have "j < length xs" by simp
    from Cons.IH [OF this] Suc show ?thesis by (simp add: ac_simps)
  qed
qed

lemma length_filter_update:
  assumes "i < length xs"
  shows "length (filter P (xs[i := v])) + (if P (xs ! i) then 1 else 0)
       = length (filter P xs) + (if P v then 1 else 0)"
  using assms
proof (induction xs arbitrary: i)
  case Nil
  then show ?case by simp
next
  case (Cons x xs)
  show ?case
  proof (cases i)
    case (Suc j)
    with Cons.prems have "j < length xs" by simp
    from Cons.IH [OF this] Suc show ?thesis by (simp split: if_splits)
  qed simp
qed

lemma length_filter_pos:
  assumes "i < length xs" and "P (xs ! i)"
  shows "0 < length (filter P xs)"
  using assms by (auto simp: length_greater_0_conv filter_empty_conv)

text \<open>Replacing the part \<open>A\<close> of a collection by \<open>A'\<close>.\<close>

lemma mset_exchange:
  fixes P :: "'a multiset"
  assumes "P' + A = P + A'" and "A + N = A' + D + R"
  shows "P + N = P' + D + R"
proof -
  have "(P + N) + A' = (P + A') + N" by (simp add: ac_simps)
  also have "\<dots> = P' + (A + N)" unfolding assms(1) [symmetric] by (simp add: ac_simps)
  also have "\<dots> = (P' + D + R) + A'" unfolding assms(2) by (simp add: ac_simps)
  finally show ?thesis by simp
qed

end
