(* ===== verification/Seqno.thy ===== *)
theory Seqno
  imports Prelude
begin

text \<open>
  The receive descriptor and the 12-bit sequence number arithmetic of
  \<open>WIFI/rx_msg.h\<close>, shared by block-ack reordering and by defragmentation.
\<close>

section \<open>The receive descriptor\<close>

text \<open>
  \<open>struct rx_msdu_desc\<close> is written by the hardware in front of every received MSDU. The
  record has the bit fields that the driver's receive path reads. One-bit fields are
  \<open>bool\<close>; wider ones keep their C type after promotion, and \<open>msdu_desc_wf\<close> states the
  widths of the bit fields.
\<close>

record rx_msdu_desc =
  msdu_offset :: u8
  msdu_len :: u16
  last_msdu_of_mpdu :: bool
  sta_lut_index :: u8
  bc_mc_flag :: bool
  snap_hdr_present :: bool
  qos_flag :: bool
  tid :: u8
  seq_num :: u16
  pn_l :: u32
  pn_h :: u16
  frag_num :: u8
  more_frag_bit :: bool
  cipher_type :: u8

definition msdu_desc_wf :: "rx_msdu_desc \<Rightarrow> bool" where
  "msdu_desc_wf d \<longleftrightarrow> seq_num d < 0x1000 \<and> tid d < 16 \<and> sta_lut_index d < 32
     \<and> frag_num d < 16 \<and> cipher_type d < 16"

definition msdu_total_len :: "rx_msdu_desc \<Rightarrow> nat" where
  "msdu_total_len d = unat (msdu_offset d) + unat (msdu_len d)"

text \<open>
  A socket buffer as the receive path sees it: the descriptor at the start of its data,
  read into a record, and the bytes of the data area.
\<close>

record sk_buff =
  skb_desc :: rx_msdu_desc
  skb_data :: "u8 list"

text \<open>Cipher types of \<open>enum cipher_type\<close> that carry a packet number.\<close>

definition SPRDWL_HW_TKIP :: u8 where "SPRDWL_HW_TKIP = 1"
definition SPRDWL_HW_CCMP :: u8 where "SPRDWL_HW_CCMP = 2"

section \<open>Sequence numbers\<close>

text \<open>
  The macros compute in \<open>int\<close> and the result is stored in an \<open>unsigned short\<close>; since
  the mask keeps 12 bits, computing at 16 bits gives the same value.
\<close>

definition SEQNO_MASK :: u16 where "SEQNO_MASK = 0xfff"

definition MAX_SEQNO_BY_TWO :: u16 where "MAX_SEQNO_BY_TWO = 2048"

definition SEQNO_ADD :: "u16 \<Rightarrow> u16 \<Rightarrow> u16" where
  "SEQNO_ADD seq1 seq2 = (seq1 + seq2) AND SEQNO_MASK"

definition SEQNO_SUB :: "u16 \<Rightarrow> u16 \<Rightarrow> u16" where
  "SEQNO_SUB seq1 seq2 = (seq1 - seq2) AND SEQNO_MASK"

definition seqno_leq :: "u16 \<Rightarrow> u16 \<Rightarrow> bool" where
  "seqno_leq seq1 seq2 \<longleftrightarrow>
     (seq1 \<le> seq2 \<and> seq2 - seq1 < MAX_SEQNO_BY_TWO) \<or>
     (seq1 > seq2 \<and> seq1 - seq2 \<ge> MAX_SEQNO_BY_TWO)"

definition seqno_geq :: "u16 \<Rightarrow> u16 \<Rightarrow> bool" where
  "seqno_geq seq1 seq2 = seqno_leq seq2 seq1"

text \<open>\<open>seqno n\<close> holds of the values a 12-bit field can have.\<close>

definition seqno :: "u16 \<Rightarrow> bool" where
  "seqno s \<longleftrightarrow> unat s < 4096"

lemma unat_SEQNO_ADD [seqno_simps]:
  "unat (SEQNO_ADD a b) = (unat a + unat b) mod 4096"
proof -
  have "unat (a + b) mod 4096 = (unat a + unat b) mod 4096"
    by (simp add: unat_word_ariths mod_mod_cancel)
  then show ?thesis
    by (simp add: SEQNO_ADD_def SEQNO_MASK_def mask_4095 unat_and_mask)
qed

lemma unat_SEQNO_SUB [seqno_simps]:
  "unat (SEQNO_SUB a b) = (unat a + (65536 - unat b)) mod 4096"
proof -
  have b: "unat b < 65536"
    using unsigned_less [of b] by simp
  have "a - b = of_nat (unat a + (65536 - unat b))"
    using b by (simp add: of_nat_diff)
  then have "unat (a - b) = (unat a + (65536 - unat b)) mod 65536"
    by (simp only: unat_of_nat) simp
  then have "unat (a - b) mod 4096 = (unat a + (65536 - unat b)) mod 4096"
    by (simp add: mod_mod_cancel)
  then show ?thesis
    by (simp add: SEQNO_SUB_def SEQNO_MASK_def mask_4095 unat_and_mask)
qed

lemma unat_SEQNO_SUB_12:
  assumes "seqno b"
  shows "unat (SEQNO_SUB a b) = (unat a + (4096 - unat b)) mod 4096"
proof -
  have "unat a + (65536 - unat b) = unat a + (4096 - unat b) + 15 * 4096"
    using assms by (simp add: seqno_def)
  then show ?thesis
    by (simp only: unat_SEQNO_SUB mod_mult_self1)
qed

lemma seqno_SEQNO_ADD [simp]: "seqno (SEQNO_ADD a b)"
  by (simp add: seqno_def unat_SEQNO_ADD)

lemma seqno_SEQNO_SUB [simp]: "seqno (SEQNO_SUB a b)"
  by (simp add: seqno_def unat_SEQNO_SUB)

lemma seqno_leq_nat:
  "seqno_leq a b \<longleftrightarrow>
     (unat a \<le> unat b \<and> unat b - unat a < 2048) \<or> (unat b < unat a \<and> 2048 \<le> unat a - unat b)"
  by (auto simp: seqno_leq_def MAX_SEQNO_BY_TWO_def word_le_nat_alt word_less_nat_alt
      unat_sub [unfolded word_le_nat_alt])

lemma seqno_leq_refl [simp]: "seqno_leq a a"
  by (simp add: seqno_leq_nat)

lemma seqno_leq_linear: "seqno_leq a b \<or> seqno_leq b a"
  by (auto simp: seqno_leq_nat)

section \<open>The cyclic space of sequence numbers\<close>

text \<open>
  What the reorder window relies on: addition and subtraction are those of the integers
  modulo the size of the space. Everything the window needs follows, in particular that
  numbers in a window no larger than the buffer have different slots.
\<close>

locale seq_space =
  fixes add :: "'a \<Rightarrow> 'a \<Rightarrow> 'a"
    and sub :: "'a \<Rightarrow> 'a \<Rightarrow> 'a"
    and valid :: "'a \<Rightarrow> bool"
    and val :: "'a \<Rightarrow> nat"
    and modulus :: nat
  assumes val_add: "val (add a b) = (val a + val b) mod modulus"
    and val_sub: "valid b \<Longrightarrow> val (sub a b) = (val a + (modulus - val b)) mod modulus"
    and valid_iff: "valid a \<longleftrightarrow> val a < modulus"
    and val_inject: "val a = val b \<Longrightarrow> a = b"
begin

lemma modulus_pos: "valid a \<Longrightarrow> 0 < modulus"
  by (auto simp: valid_iff)

lemma valid_add: "0 < modulus \<Longrightarrow> valid (add a b)"
  by (simp add: valid_iff val_add)

lemma valid_sub: "valid b \<Longrightarrow> valid (sub a b)"
  using modulus_pos [of b] by (simp add: valid_iff val_sub)

text \<open>The distance from \<open>b\<close> forward to \<open>a\<close>, added to \<open>b\<close>, is \<open>a\<close>.\<close>

lemma add_sub:
  assumes "valid a" and "valid b"
  shows "add b (sub a b) = a"
proof (rule val_inject)
  have b: "val b < modulus" and a: "val a < modulus"
    using assms by (simp_all add: valid_iff)
  have "val (add b (sub a b)) = (val b + (val a + (modulus - val b))) mod modulus"
    by (simp add: val_add val_sub [OF assms(2)] mod_simps)
  also have "val b + (val a + (modulus - val b)) = val a + modulus"
    using b by simp
  finally show "val (add b (sub a b)) = val a"
    using a by simp
qed

lemma sub_add:
  assumes "valid b"
  shows "val (sub (add b d) b) = val d mod modulus"
proof -
  have b: "val b < modulus"
    using assms by (simp add: valid_iff)
  have "val (sub (add b d) b) = (val b + val d + (modulus - val b)) mod modulus"
    by (simp add: val_add val_sub [OF assms] mod_simps)
  also have "val b + val d + (modulus - val b) = val d + modulus"
    using b by simp
  finally show ?thesis by simp
qed

lemma val_eq_base_plus:
  assumes "valid a" and "valid b"
  shows "val a = (val b + val (sub a b)) mod modulus"
  using add_sub [OF assms] val_add [of b "sub a b"] by simp

lemma val_sub_sub:
  assumes s: "valid s" and d: "valid d"
  shows "val (sub s (sub s d)) = val d"
proof -
  have "add (sub s d) d = s"
    by (rule val_inject) (metis val_add val_eq_base_plus [OF s d] add.commute)
  then show ?thesis
    using sub_add [OF valid_sub [OF d], of s d] d by (simp add: valid_iff)
qed

text \<open>Within a window of at most \<open>M\<close> numbers, the slot modulo \<open>M\<close> determines the number.\<close>

lemma slot_inject:
  assumes s: "valid s" and t: "valid t" and w: "valid w"
    and M: "M dvd modulus"
    and sw: "val (sub s w) < M" and tw: "val (sub t w) < M"
    and slot: "val s mod M = val t mod M"
  shows "s = t"
proof -
  have "(val w + val (sub s w)) mod M = (val w + val (sub t w)) mod M"
    using slot val_eq_base_plus [OF s w] val_eq_base_plus [OF t w] M
    by (simp add: mod_mod_cancel)
  then have "val (sub s w) mod M = val (sub t w) mod M"
    by (simp add: nat_mod_eq_iff)
  with sw tw have "val (sub s w) = val (sub t w)"
    by simp
  then have "sub s w = sub t w"
    by (rule val_inject)
  then show ?thesis
    by (metis add_sub [OF s w] add_sub [OF t w])
qed

text \<open>Moving the base of the window forward by \<open>k\<close> shortens distances by \<open>k\<close>.\<close>

lemma val_sub_add_base:
  assumes s: "valid s" and w: "valid w" and k: "val k \<le> val (sub s w)"
  shows "val (sub s (add w k)) = val (sub s w) - val k"
proof -
  let ?d = "val (sub s w)" and ?M = modulus
  have M: "0 < ?M" and d: "?d < ?M" and w': "val w < ?M"
    using w valid_sub [OF w, of s] by (auto simp: valid_iff)
  have v: "valid (add w k)"
    by (rule valid_add [OF M])
  have "(val (add w k) + (?d - val k)) mod ?M = (val w + val k + (?d - val k)) mod ?M"
    by (simp only: val_add mod_add_left_eq)
  also have "val w + val k + (?d - val k) = val w + ?d"
    using k by simp
  also have "(val w + ?d) mod ?M = val s"
    by (rule val_eq_base_plus [OF s w, symmetric])
  also have "val s = (val (add w k) + val (sub s (add w k))) mod ?M"
    by (rule val_eq_base_plus [OF s v])
  finally have "(?d - val k) mod ?M = val (sub s (add w k)) mod ?M"
    by (simp add: nat_mod_eq_iff)
  then show ?thesis
    using d valid_sub [OF v, of s] by (simp add: valid_iff)
qed

end

interpretation seq: seq_space SEQNO_ADD SEQNO_SUB seqno unat 4096
proof unfold_locales
  fix a b :: u16
  show "unat (SEQNO_ADD a b) = (unat a + unat b) mod 4096"
    by (rule unat_SEQNO_ADD)
  show "seqno b \<Longrightarrow> unat (SEQNO_SUB a b) = (unat a + (4096 - unat b)) mod 4096"
    by (rule unat_SEQNO_SUB_12)
  show "seqno a \<longleftrightarrow> unat a < 4096"
    by (rule seqno_def)
  show "unat a = unat b \<Longrightarrow> a = b"
    by (rule word_unat_eq_iff [THEN iffD2])
qed

end
