(* ===== verification/Reorder.thy ===== *)
theory Reorder
  imports Seqno
begin

text \<open>
  Block-ack reordering of one receive session, \<open>WIFI/reorder.c\<close>: the reorder buffer of a
  \<open>struct rx_ba_node\<close>, the delivery of MPDUs in order, the sliding of the window, replay
  detection, the reorder timer.

  A chain of buffers linked by \<open>skb->next\<close>, from \<open>skb\<close> to \<open>skb_last\<close>, is a list; the NULL
  pair is the empty list. Buffers handed to \<open>dev_kfree_skb\<close> or \<open>kfree_skb_list\<close> are
  recorded in \<open>freed\<close>, so that the place of every buffer is visible in the state. The
  timer of a node is the flag that \<open>timer_pending\<close> reads. A spin lock protects each
  operation, which therefore is one step.
\<close>

section \<open>State\<close>

definition EINVAL :: int where "EINVAL = 22"
definition ENOMEM :: int where "ENOMEM = 12"

record rx_ba_pkt_desc =
  pd_pn_l :: u32
  pd_pn_h :: u16
  pd_seq :: u16
  pd_cipher_type :: u8
  pd_last :: bool
  pd_msdu_num :: u16

record rx_ba_pkt =
  pkt_skbs :: "sk_buff list"
  pkt_desc :: rx_ba_pkt_desc

record rx_ba_node_desc =
  win_start_init :: u16
  win_start :: u16
  win_limit :: u16
  win_tail :: u16
  win_size :: u16
  buff_cnt :: u16
  nd_pn_h :: u16
  nd_pn_l :: u32
  nd_reset_pn :: bool
  index_mask :: u32
  reorder_buffer :: "rx_ba_pkt list"

record rx_ba_node =
  node_sta_lut_index :: u8
  node_tid :: u8
  active :: bool
  timeout_cnt :: u8
  rx_ba :: rx_ba_node_desc
  reorder_timer_pending :: bool

text \<open>The output queue of \<open>struct sprdwl_rx_ba_entry\<close> and the buffers freed so far.\<close>

record skb_io =
  skb_list :: "sk_buff list"
  freed :: "sk_buff list"

text \<open>What \<open>memset(pkt, 0, sizeof(struct rx_ba_pkt))\<close> leaves.\<close>

definition zero_pkt_desc :: rx_ba_pkt_desc where
  "zero_pkt_desc = \<lparr>pd_pn_l = 0, pd_pn_h = 0, pd_seq = 0, pd_cipher_type = 0,
     pd_last = False, pd_msdu_num = 0\<rparr>"

definition zero_pkt :: rx_ba_pkt where
  "zero_pkt = \<lparr>pkt_skbs = [], pkt_desc = zero_pkt_desc\<rparr>"

section \<open>Output queue\<close>

definition skb_chain :: "sk_buff option \<Rightarrow> sk_buff list" where
  "skb_chain skb = (case skb of None \<Rightarrow> [] | Some s \<Rightarrow> [s])"

text \<open>
  \<open>reorder_set_skb_list\<close> writes \<open>ba_entry->skb_last->next\<close> last; when it is called with
  NULL buffers, \<open>skb_last\<close> is NULL there.
\<close>

definition reorder_set_skb_list :: "skb_io \<Rightarrow> sk_buff list \<Rightarrow> skb_io option" where
  "reorder_set_skb_list e chain =
     (if chain = [] then None else Some (e\<lparr>skb_list := skb_list e @ chain\<rparr>))"

definition reorder_get_skb_list :: "skb_io \<Rightarrow> sk_buff list \<times> skb_io" where
  "reorder_get_skb_list e = (skb_list e, e\<lparr>skb_list := []\<rparr>)"

definition kfree_skbs :: "skb_io \<Rightarrow> sk_buff list \<Rightarrow> skb_io" where
  "kfree_skbs e chain = e\<lparr>freed := freed e @ chain\<rparr>"

section \<open>Session setup\<close>

definition MIN_INDEX_SIZE :: u32 where "MIN_INDEX_SIZE = 64"

text \<open>The loop \<open>while (size > index_size) index_size <<= 1\<close> at 32 bits.\<close>

partial_function (option) grow_index_size :: "u32 \<Rightarrow> u32 \<Rightarrow> u32 option" where
  "grow_index_size sz index_size =
     (if sz > index_size then grow_index_size sz (push_bit 1 index_size)
      else Some index_size)"

definition get_index_size :: "u32 \<Rightarrow> u32 option" where
  "get_index_size sz = grow_index_size sz MIN_INDEX_SIZE"

definition INDEX_SIZE_MASK :: "u32 \<Rightarrow> u32" where
  "INDEX_SIZE_MASK index_size = index_size - 1"

definition set_ba_node_desc ::
  "rx_ba_node_desc \<Rightarrow> u16 \<Rightarrow> u16 \<Rightarrow> u32 \<Rightarrow> rx_ba_node_desc" where
  "set_ba_node_desc nd start sz imask =
     nd\<lparr>win_size := sz,
        win_start := start,
        win_start_init := start,
        win_limit := SEQNO_ADD start (sz - 1),
        win_tail := SEQNO_SUB start 1,
        index_mask := imask,
        buff_cnt := 0\<rparr>"

definition set_ba_pkt_desc :: "rx_ba_pkt_desc \<Rightarrow> rx_msdu_desc \<Rightarrow> rx_ba_pkt_desc" where
  "set_ba_pkt_desc pd md =
     pd\<lparr>pd_seq := seq_num md, pd_pn_l := pn_l md, pd_pn_h := pn_h md,
        pd_cipher_type := cipher_type md\<rparr>"

definition mod_reorder_timer :: "rx_ba_node \<Rightarrow> rx_ba_node" where
  "mod_reorder_timer node =
     (if buff_cnt (rx_ba node) \<noteq> 0 then node\<lparr>reorder_timer_pending := True\<rparr>
      else node\<lparr>reorder_timer_pending := False, timeout_cnt := 0\<rparr>)"

section \<open>Packet numbers\<close>

definition has_pn :: "u8 \<Rightarrow> bool" where
  "has_pn c \<longleftrightarrow> c = SPRDWL_HW_TKIP \<or> c = SPRDWL_HW_CCMP"

definition is_same_pn :: "rx_ba_pkt_desc \<Rightarrow> rx_msdu_desc \<Rightarrow> bool" where
  "is_same_pn pd md =
     (if has_pn (pd_cipher_type pd) then
        \<not> (pd_pn_l pd \<noteq> pn_l md \<or> pd_pn_h pd \<noteq> pn_h md)
      else True)"

definition replay_detection ::
  "rx_ba_pkt_desc \<Rightarrow> rx_ba_node_desc \<Rightarrow> bool \<times> rx_ba_node_desc" where
  "replay_detection pd nd =
     (if has_pn (pd_cipher_type pd) then
        (let old_val_low = nd_pn_l nd; old_val_high = nd_pn_h nd;
             rx_val_low = pd_pn_l pd; rx_val_high = pd_pn_h pd
         in if nd_reset_pn nd \<and> old_val_low \<ge> rx_val_low \<and> old_val_high \<ge> rx_val_high
            then (True, nd\<lparr>nd_reset_pn := False, nd_pn_l := rx_val_low, nd_pn_h := rx_val_high\<rparr>)
            else if (old_val_high = rx_val_high \<and> old_val_low < rx_val_low)
                    \<or> old_val_high < rx_val_high
            then (True, nd\<lparr>nd_pn_l := rx_val_low, nd_pn_h := rx_val_high\<rparr>)
            else (False, nd))
      else (True, nd))"

section \<open>Delivery\<close>

definition send_order_msdu ::
  "skb_io \<Rightarrow> rx_msdu_desc \<Rightarrow> sk_buff option \<Rightarrow> rx_ba_node_desc
   \<Rightarrow> (skb_io \<times> rx_ba_node_desc) option" where
  "send_order_msdu e md skb nd =
     (let pd = set_ba_pkt_desc zero_pkt_desc md;
          nd1 = nd\<lparr>win_start := SEQNO_ADD (win_start nd) 1\<rparr>;
          nd2 = nd1\<lparr>win_limit := SEQNO_ADD (win_limit nd1) 1\<rparr>;
          nd3 = nd2\<lparr>win_tail := SEQNO_SUB (win_start nd2) 1\<rparr>
      in case skb of
           None \<Rightarrow> Some (e, nd3)
         | Some s \<Rightarrow>
             (case replay_detection pd nd3 of (ok, nd4) \<Rightarrow>
                if ok then do { e' \<leftarrow> reorder_set_skb_list e [s]; Some (e', nd4) }
                else Some (kfree_skbs e [s], nd4)))"

text \<open>\<open>send_reorder_skb\<close> on the slot \<open>i\<close> of the buffer.\<close>

definition send_reorder_skb ::
  "skb_io \<Rightarrow> rx_ba_node_desc \<Rightarrow> nat \<Rightarrow> (skb_io \<times> rx_ba_node_desc) option" where
  "send_reorder_skb e nd i =
     do { pkt \<leftarrow> aget (reorder_buffer nd) i;
          (e', nd') \<leftarrow>
            (if pkt_skbs pkt \<noteq> [] then
               (case replay_detection (pkt_desc pkt) nd of (ok, nd1) \<Rightarrow>
                  if ok then do { e1 \<leftarrow> reorder_set_skb_list e (pkt_skbs pkt); Some (e1, nd1) }
                  else Some (kfree_skbs e (pkt_skbs pkt), nd1))
             else Some (e, nd));
          Some (e', nd'\<lparr>reorder_buffer := (reorder_buffer nd')[i := zero_pkt]\<rparr>) }"

fun flush_loop :: "nat \<Rightarrow> nat \<Rightarrow> skb_io \<Rightarrow> rx_ba_pkt list \<Rightarrow> (skb_io \<times> rx_ba_pkt list) option" where
  "flush_loop 0 i e buf = Some (e, buf)"
| "flush_loop (Suc k) i e buf =
     do { pkt \<leftarrow> aget buf i;
          flush_loop k (Suc i) (kfree_skbs e (pkt_skbs pkt)) (buf[i := zero_pkt]) }"

definition flush_reorder_buffer ::
  "skb_io \<Rightarrow> rx_ba_node_desc \<Rightarrow> (skb_io \<times> rx_ba_node_desc) option" where
  "flush_reorder_buffer e nd =
     do { (e', buf) \<leftarrow> flush_loop (unat (index_mask nd + 1)) 0 e (reorder_buffer nd);
          Some (e', nd\<lparr>reorder_buffer := buf, buff_cnt := 0\<rparr>) }"

definition joint_msdu :: "rx_ba_pkt \<Rightarrow> sk_buff option \<Rightarrow> rx_ba_pkt" where
  "joint_msdu pkt newsk =
     (case newsk of None \<Rightarrow> pkt | Some s \<Rightarrow> pkt\<lparr>pkt_skbs := pkt_skbs pkt @ [s]\<rparr>)"

text \<open>The slot of a sequence number, \<open>seq_num & ba_node_desc->index_mask\<close>.\<close>

definition slot_index :: "rx_ba_node_desc \<Rightarrow> u16 \<Rightarrow> nat" where
  "slot_index nd s = unat ((ucast s :: u32) AND index_mask nd)"

lemma replay_detection_frame [frame_simps]:
  assumes "replay_detection pd nd = (ok, nd')"
  shows "reorder_buffer nd' = reorder_buffer nd" and "buff_cnt nd' = buff_cnt nd"
    and "index_mask nd' = index_mask nd" and "win_start nd' = win_start nd"
    and "win_limit nd' = win_limit nd" and "win_tail nd' = win_tail nd"
    and "win_size nd' = win_size nd" and "win_start_init nd' = win_start_init nd"
  using assms by (auto simp: replay_detection_def Let_def split: if_splits)

lemma send_reorder_skb_frame [frame_simps]:
  assumes "send_reorder_skb e nd i = Some (e', nd')"
  shows "reorder_buffer nd' = (reorder_buffer nd)[i := zero_pkt]"
    and "buff_cnt nd' = buff_cnt nd"
    and "index_mask nd' = index_mask nd" and "win_start nd' = win_start nd"
    and "win_limit nd' = win_limit nd" and "win_tail nd' = win_tail nd"
    and "win_size nd' = win_size nd" and "win_start_init nd' = win_start_init nd"
  using assms
  by (auto simp: send_reorder_skb_def bind_eq_Some_conv dest: replay_detection_frame
      split: if_splits prod.splits)

text \<open>
  The loop of \<open>send_msdu_in_order\<close>. The counter \<open>seqn\<close> is a plain \<open>unsigned short\<close>, masked
  only when the loop is left; every round takes one packet out of the buffer.
\<close>

function send_in_order_loop ::
  "skb_io \<Rightarrow> rx_ba_node_desc \<Rightarrow> u16 \<Rightarrow> (skb_io \<times> rx_ba_node_desc \<times> u16) option" where
  "send_in_order_loop e nd seqn =
     (if buff_cnt nd = 0 then Some (e, nd, seqn)
      else case aget (reorder_buffer nd) (slot_index nd seqn) of
             None \<Rightarrow> None
           | Some pkt \<Rightarrow>
               if \<not> pd_last (pkt_desc pkt) then Some (e, nd, seqn)
               else case send_reorder_skb e nd (slot_index nd seqn) of
                      None \<Rightarrow> None
                    | Some (e', nd') \<Rightarrow>
                        send_in_order_loop e' (nd'\<lparr>buff_cnt := buff_cnt nd' - 1\<rparr>) (seqn + 1))"
  by pat_completeness auto
termination
proof (relation "measure (\<lambda>(e, nd, seqn). unat (buff_cnt nd))")
  fix e nd seqn pkt p e' nd'
  assume nz: "buff_cnt nd \<noteq> 0"
    and "send_reorder_skb e nd (slot_index nd seqn) = Some p" and "(e', nd') = p"
  then have "buff_cnt nd' = buff_cnt nd"
    by (auto dest: send_reorder_skb_frame)
  with nz show "((e', nd'\<lparr>buff_cnt := buff_cnt nd' - 1\<rparr>, seqn + 1), (e, nd, seqn))
      \<in> measure (\<lambda>(e, nd, seqn). unat (buff_cnt nd))"
    by (simp add: word_nonzero_dec unat_gt_0)
qed simp

declare send_in_order_loop.simps [simp del]

definition send_msdu_in_order ::
  "skb_io \<Rightarrow> rx_ba_node_desc \<Rightarrow> (skb_io \<times> rx_ba_node_desc \<times> u16) option" where
  "send_msdu_in_order e nd =
     do { (e', nd', seqn) \<leftarrow> send_in_order_loop e nd (win_start nd);
          Some (e', nd', seqn AND SEQNO_MASK) }"

fun send_gap_loop ::
  "nat \<Rightarrow> skb_io \<Rightarrow> rx_ba_node_desc \<Rightarrow> u16 \<Rightarrow> u16 \<Rightarrow> (skb_io \<times> rx_ba_node_desc \<times> u16) option" where
  "send_gap_loop 0 e nd seqn num_frms = Some (e, nd, num_frms)"
| "send_gap_loop (Suc num) e nd seqn num_frms =
     (if buff_cnt nd = 0 then send_gap_loop num e nd (seqn + 1) num_frms
      else do { pkt \<leftarrow> aget (reorder_buffer nd) (slot_index nd seqn);
                if pd_msdu_num (pkt_desc pkt) \<noteq> 0 then
                  do { (e', nd') \<leftarrow> send_reorder_skb e nd (slot_index nd seqn);
                       send_gap_loop num e' (nd'\<lparr>buff_cnt := buff_cnt nd' - 1\<rparr>)
                         (seqn + 1) (num_frms + 1) }
                else send_gap_loop num e nd (seqn + 1) num_frms })"

definition send_msdu_with_gap ::
  "skb_io \<Rightarrow> rx_ba_node_desc \<Rightarrow> u16 \<Rightarrow> (skb_io \<times> rx_ba_node_desc \<times> u16) option" where
  "send_msdu_with_gap e nd last_seqno =
     send_gap_loop (unat (SEQNO_SUB last_seqno (win_start nd))) e nd (win_start nd) 0"

text \<open>
  The three lines that end every slide of the window: deliver in order from \<open>win_start\<close>,
  store the new start, recompute the limit.
\<close>

definition between_seqlo_seqhi ::
  "skb_io \<Rightarrow> rx_ba_node_desc \<Rightarrow> (skb_io \<times> rx_ba_node_desc) option" where
  "between_seqlo_seqhi e nd =
     do { (e', nd', start) \<leftarrow> send_msdu_in_order e nd;
          Some (e', nd'\<lparr>win_start := start, win_limit := SEQNO_ADD start (win_size nd' - 1)\<rparr>) }"

definition greater_than_seqhi ::
  "skb_io \<Rightarrow> rx_ba_node_desc \<Rightarrow> u16 \<Rightarrow> (skb_io \<times> rx_ba_node_desc) option" where
  "greater_than_seqhi e nd seqn =
     (let pos_win_end = seqn;
          pos_win_start = SEQNO_SUB pos_win_end (win_size nd - 1)
      in do { (e1, nd1, num) \<leftarrow> send_msdu_with_gap e nd pos_win_start;
              (e2, nd2, start) \<leftarrow> send_msdu_in_order e1 (nd1\<lparr>win_start := pos_win_start\<rparr>);
              Some (e2, nd2\<lparr>win_start := start,
                            win_limit := SEQNO_ADD start (win_size nd2 - 1)\<rparr>) })"

definition bar_send_ba_buffer ::
  "skb_io \<Rightarrow> rx_ba_node_desc \<Rightarrow> u16 \<Rightarrow> (skb_io \<times> rx_ba_node_desc) option" where
  "bar_send_ba_buffer e nd seqn =
     (if \<not> seqno_leq seqn (win_start nd) then
        do { (e1, nd1, num) \<leftarrow> send_msdu_with_gap e nd seqn;
             (e2, nd2, start) \<leftarrow> send_msdu_in_order e1 (nd1\<lparr>win_start := seqn\<rparr>);
             Some (e2, nd2\<lparr>win_start := start,
                           win_limit := SEQNO_ADD start (win_size nd2 - 1)\<rparr>) }
      else Some (e, nd))"

section \<open>Insertion\<close>

definition insert_msdu ::
  "rx_msdu_desc \<Rightarrow> sk_buff option \<Rightarrow> rx_ba_node_desc \<Rightarrow> (int \<times> rx_ba_node_desc) option" where
  "insert_msdu md skb nd =
     (let seqn = seq_num md; index = slot_index nd seqn; last_msdu_flag = last_msdu_of_mpdu md
      in do { ins \<leftarrow> aget (reorder_buffer nd) index;
              if pd_msdu_num (pkt_desc ins) \<noteq> 0 then
                if pd_seq (pkt_desc ins) = seqn \<and> \<not> pd_last (pkt_desc ins)
                   \<and> is_same_pn (pkt_desc ins) md then
                  (let ins1 = joint_msdu ins skb;
                       ins2 = ins1\<lparr>pkt_desc := (pkt_desc ins1)
                                \<lparr>pd_msdu_num := pd_msdu_num (pkt_desc ins1) + 1,
                                 pd_last := last_msdu_flag\<rparr>\<rparr>
                   in Some (0, nd\<lparr>reorder_buffer := (reorder_buffer nd)[index := ins2]\<rparr>))
                else Some (- EINVAL, nd)
              else
                (let ins1 = joint_msdu ins skb;
                     ins2 = ins1\<lparr>pkt_desc := (set_ba_pkt_desc (pkt_desc ins1) md)
                              \<lparr>pd_last := last_msdu_flag, pd_msdu_num := 1\<rparr>\<rparr>
                 in Some (0, nd\<lparr>reorder_buffer := (reorder_buffer nd)[index := ins2],
                                buff_cnt := buff_cnt nd + 1\<rparr>)) })"

definition reorder_msdu ::
  "skb_io \<Rightarrow> rx_msdu_desc \<Rightarrow> sk_buff option \<Rightarrow> rx_ba_node_desc
   \<Rightarrow> (int \<times> skb_io \<times> rx_ba_node_desc) option" where
  "reorder_msdu e md skb nd =
     do { (ret, e1, nd1) \<leftarrow>
            (if seqno_geq (seq_num md) (win_start nd) then
               (let nd0 = nd\<lparr>win_start_init := 0\<rparr>
                in do { (e1, nd1) \<leftarrow>
                          (if \<not> seqno_leq (seq_num md) (win_limit nd0)
                           then greater_than_seqhi e nd0 (seq_num md)
                           else Some (e, nd0));
                        (ret, nd2) \<leftarrow> insert_msdu md skb nd1;
                        Some (ret, e1,
                              if ret = 0 \<and> seqno_geq (seq_num md) (win_tail nd2)
                              then nd2\<lparr>win_tail := seq_num md\<rparr> else nd2) })
             else if \<not> seqno_geq (seq_num md) (win_start_init nd) then
               do { e1 \<leftarrow> reorder_set_skb_list e (skb_chain skb); Some (0, e1, nd) }
             else Some (- EINVAL, e, nd));
          Some (ret, if ret \<noteq> 0 \<and> skb \<noteq> None then kfree_skbs e1 (skb_chain skb) else e1, nd1) }"

definition reorder_msdu_process ::
  "skb_io \<Rightarrow> rx_msdu_desc \<Rightarrow> sk_buff option \<Rightarrow> rx_ba_node \<Rightarrow> (skb_io \<times> rx_ba_node) option" where
  "reorder_msdu_process e md skb node =
     (if active node then
        (let nd = rx_ba node; last_msdu_flag = last_msdu_of_mpdu md in
         if seq_num md = win_start nd \<and> buff_cnt nd = 0 \<and> last_msdu_flag then
           do { (e1, nd1) \<leftarrow> send_order_msdu e md skb (nd\<lparr>win_start_init := 0\<rparr>);
                Some (e1, node\<lparr>rx_ba := nd1\<rparr>) }
         else
           (let old_win_start = win_start nd in
            do { (ret, e1, nd1) \<leftarrow> reorder_msdu e md skb nd;
                 if ret = 0 then
                   if last_msdu_flag \<and> seq_num md = win_start nd1 then
                     do { (e2, nd2) \<leftarrow> between_seqlo_seqhi e1 nd1;
                          Some (e2, mod_reorder_timer (node\<lparr>rx_ba := nd2\<rparr>)) }
                   else if \<not> reorder_timer_pending node \<or> old_win_start \<noteq> win_start nd1 then
                     Some (e1, mod_reorder_timer (node\<lparr>rx_ba := nd1\<rparr>))
                   else Some (e1, node\<lparr>rx_ba := nd1\<rparr>)
                 else if buff_cnt nd1 = 0 then
                   Some (e1, node\<lparr>rx_ba := nd1, reorder_timer_pending := False,
                                  timeout_cnt := 0\<rparr>)
                 else Some (e1, node\<lparr>rx_ba := nd1\<rparr>) }))
      else do { e1 \<leftarrow> reorder_set_skb_list e (skb_chain skb); Some (e1, node) })"

section \<open>The reorder timer\<close>

text \<open>
  The loop of \<open>get_first_seqno_in_buff\<close> steps at most once around the sequence space:
  it stops one past \<open>win_tail\<close> at the latest.
\<close>

definition first_seqno_measure :: "rx_ba_node_desc \<Rightarrow> u16 \<Rightarrow> nat" where
  "first_seqno_measure nd s =
     (let t = unat (win_tail nd); k = unat s in
      if \<not> seqno_leq s (win_tail nd) then 0
      else if 4096 \<le> k then 6000
      else 1 + (if t < 4096 then (t + 4096 - k) mod 4096 else 4096 - k))"

lemma first_seqno_measure_step:
  assumes "seqno_leq s (win_tail nd)"
  shows "first_seqno_measure nd (SEQNO_ADD s 1) < first_seqno_measure nd s"
proof -
  let ?t = "unat (win_tail nd)" and ?k = "unat s"
  have k': "unat (SEQNO_ADD s 1) = (?k + 1) mod 4096"
    by (simp add: unat_SEQNO_ADD)
  consider "4096 \<le> ?k" | "?k < 4096" "4096 \<le> ?t" | "?k < 4096" "?t < 4096" by linarith
  then show ?thesis
  proof cases
    case 1
    have "(?t + 4096 - (?k + 1) mod 4096) mod 4096 < 4096" by simp
    with 1 assms show ?thesis by (auto simp: first_seqno_measure_def Let_def k')
  next
    case 2
    then show ?thesis
      using assms by (cases "?k = 4095") (auto simp: first_seqno_measure_def Let_def k' seqno_leq_nat)
  next
    case 3
    then show ?thesis
    proof (cases "?k = ?t")
      case True
      with 3 show ?thesis
        using assms by (cases "?k = 4095") (auto simp: first_seqno_measure_def Let_def k' seqno_leq_nat)
    next
      case False
      with 3 have "(?t + 4096 - (?k + 1) mod 4096) mod 4096 + 1 = (?t + 4096 - ?k) mod 4096"
        by (cases "?k < ?t"; cases "?k = 4095") (auto simp: mod_if)
      with 3 assms show ?thesis by (auto simp: first_seqno_measure_def Let_def k')
    qed
  qed
qed

function first_seqno_loop :: "rx_ba_node_desc \<Rightarrow> u16 \<Rightarrow> u16 option" where
  "first_seqno_loop nd s =
     (if seqno_leq s (win_tail nd) then
        case aget (reorder_buffer nd) (slot_index nd s) of
          None \<Rightarrow> None
        | Some pkt \<Rightarrow>
            if pd_last (pkt_desc pkt) then Some s
            else first_seqno_loop nd (SEQNO_ADD s 1)
      else Some s)"
  by pat_completeness auto
termination
  by (relation "measure (\<lambda>(nd, s). first_seqno_measure nd s)") (auto intro: first_seqno_measure_step)

declare first_seqno_loop.simps [simp del]

definition get_first_seqno_in_buff :: "rx_ba_node_desc \<Rightarrow> u16 option" where
  "get_first_seqno_in_buff nd = first_seqno_loop nd (win_start nd)"

definition MAX_TIMEOUT_CNT :: u8 where "MAX_TIMEOUT_CNT = 60"

text \<open>
  \<open>ba_reorder_timeout\<close> for one node. Beside the new state it returns whether a DELBA is
  sent for the session and whether the receive work is kicked because the output queue
  is not empty.
\<close>

definition ba_reorder_timeout ::
  "skb_io \<Rightarrow> rx_ba_node \<Rightarrow> (skb_io \<times> rx_ba_node \<times> bool \<times> bool) option" where
  "ba_reorder_timeout e node =
     do { (e', node', delba) \<leftarrow>
            (if active node \<and> buff_cnt (rx_ba node) \<noteq> 0 \<and> \<not> reorder_timer_pending node then
               (let nd = (rx_ba node)\<lparr>win_start_init := 0\<rparr>
                in do { pos_seqno \<leftarrow> get_first_seqno_in_buff nd;
                        (e1, nd1, num) \<leftarrow> send_msdu_with_gap e nd pos_seqno;
                        (e2, nd2, start) \<leftarrow> send_msdu_in_order e1 (nd1\<lparr>win_start := pos_seqno\<rparr>);
                        (let nd3 = nd2\<lparr>win_start := start,
                                      win_limit := SEQNO_ADD start (win_size nd2 - 1)\<rparr>;
                             node1 = node\<lparr>rx_ba := nd3, timeout_cnt := timeout_cnt node + 1\<rparr>
                         in if timeout_cnt node1 > MAX_TIMEOUT_CNT then
                              Some (e2, mod_reorder_timer
                                          (node1\<lparr>active := False, timeout_cnt := 0\<rparr>), True)
                            else Some (e2, mod_reorder_timer node1, False)) })
             else Some (e, node, False));
          Some (e', node', delba, skb_list e' \<noteq> []) }"

end
