(* ===== verification/Reorder_Conserve.thy ===== *)
theory Reorder_Conserve
  imports Reorder
begin

text \<open>
  Conservation for block-ack reordering: whatever an operation does, a buffer that was in
  the session is afterwards queued for delivery, freed, or still in the reorder buffer,
  exactly once.
\<close>

section \<open>Where buffers are\<close>

definition held :: "rx_ba_node_desc \<Rightarrow> sk_buff multiset" where
  "held nd = sum_list (map (\<lambda>pkt. mset (pkt_skbs pkt)) (reorder_buffer nd))"

definition bag :: "skb_io \<Rightarrow> rx_ba_node_desc \<Rightarrow> sk_buff multiset" where
  "bag e nd = mset (skb_list e) + mset (freed e) + held nd"

lemma pkt_skbs_zero_pkt [simp]: "pkt_skbs zero_pkt = []"
  by (simp add: zero_pkt_def)

lemma pkt_desc_zero_pkt [simp]: "pkt_desc zero_pkt = zero_pkt_desc"
  by (simp add: zero_pkt_def)

lemma zero_pkt_desc_simps [simp]:
  "pd_last zero_pkt_desc = False" "pd_msdu_num zero_pkt_desc = 0" "pd_seq zero_pkt_desc = 0"
  by (simp_all add: zero_pkt_desc_def)

lemma kfree_skbs_simps [simp]:
  "skb_list (kfree_skbs e c) = skb_list e" "freed (kfree_skbs e c) = freed e @ c"
  by (simp_all add: kfree_skbs_def)

lemma mset_skb_chain_Some [simp]: "mset (skb_chain (Some s)) = {#s#}" "mset (skb_chain None) = {#}"
  by (simp_all add: skb_chain_def)

lemma held_update:
  assumes "i < length (reorder_buffer nd)"
  shows "held (nd\<lparr>reorder_buffer := (reorder_buffer nd)[i := pkt]\<rparr>) + mset (pkt_skbs (reorder_buffer nd ! i))
       = held nd + mset (pkt_skbs pkt)"
  using sum_list_map_update [OF assms, of "\<lambda>pkt. mset (pkt_skbs pkt)" pkt]
  by (simp add: held_def)

lemma held_cong: "reorder_buffer nd' = reorder_buffer nd \<Longrightarrow> held nd' = held nd"
  by (simp add: held_def)

lemma held_simps [conserve_simps]:
  "held (nd\<lparr>win_start := a\<rparr>) = held nd" "held (nd\<lparr>win_limit := a\<rparr>) = held nd"
  "held (nd\<lparr>win_tail := a\<rparr>) = held nd" "held (nd\<lparr>buff_cnt := a\<rparr>) = held nd"
  "held (nd\<lparr>win_start_init := a\<rparr>) = held nd" "held (nd\<lparr>nd_reset_pn := r\<rparr>) = held nd"
  by (simp_all add: held_def)

lemma bag_simps [conserve_simps]:
  "bag e (nd\<lparr>win_start := a\<rparr>) = bag e nd" "bag e (nd\<lparr>win_limit := a\<rparr>) = bag e nd"
  "bag e (nd\<lparr>win_tail := a\<rparr>) = bag e nd" "bag e (nd\<lparr>buff_cnt := a\<rparr>) = bag e nd"
  "bag e (nd\<lparr>win_start_init := a\<rparr>) = bag e nd" "bag e (nd\<lparr>nd_reset_pn := r\<rparr>) = bag e nd"
  by (simp_all add: bag_def conserve_simps)

lemma held_set_ba_node_desc [conserve_simps]: "held (set_ba_node_desc nd s w m) = held nd"
  by (simp add: set_ba_node_desc_def held_def)

lemma held_replay:
  assumes "replay_detection pd nd = (ok, nd')"
  shows "held nd' = held nd"
  using assms by (intro held_cong) (rule replay_detection_frame)

lemma reorder_set_skb_list_Some:
  "reorder_set_skb_list e c = Some e' \<longleftrightarrow> c \<noteq> [] \<and> e' = e\<lparr>skb_list := skb_list e @ c\<rparr>"
  by (auto simp: reorder_set_skb_list_def)

section \<open>Delivery keeps every buffer\<close>

lemma send_reorder_skb_io:
  assumes "send_reorder_skb e nd i = Some (e', nd')"
  shows "i < length (reorder_buffer nd)"
    and "mset (skb_list e') + mset (freed e')
       = mset (skb_list e) + mset (freed e) + mset (pkt_skbs (reorder_buffer nd ! i))"
  using assms
  by (auto simp: send_reorder_skb_def bind_eq_Some_conv aget_eq_Some_iff reorder_set_skb_list_Some
      ac_simps split: if_splits prod.splits)

lemma bag_send_reorder_skb:
  assumes "send_reorder_skb e nd i = Some (e', nd')"
  shows "bag e' nd' = bag e nd"
proof -
  note io = send_reorder_skb_io [OF assms]
  have "held nd' = held (nd\<lparr>reorder_buffer := (reorder_buffer nd)[i := zero_pkt]\<rparr>)"
    by (intro held_cong) (simp add: send_reorder_skb_frame [OF assms])
  then have "held nd' + mset (pkt_skbs (reorder_buffer nd ! i)) = held nd"
    using held_update [OF io(1), of zero_pkt] by simp
  then show ?thesis
    using io(2) by (simp add: bag_def ac_simps)
qed

lemma bag_send_in_order_loop:
  "send_in_order_loop e nd seqn = Some (e', nd', seqn') \<Longrightarrow> bag e' nd' = bag e nd"
proof (induction e nd seqn rule: send_in_order_loop.induct)
  case (1 e nd seqn)
  from "1.prems" show ?case
    by (subst (asm) send_in_order_loop.simps)
      (auto split: if_splits option.splits prod.splits
        dest!: "1.IH" simp: conserve_simps bag_send_reorder_skb)
qed

lemma bag_send_msdu_in_order [conserve_simps]:
  "send_msdu_in_order e nd = Some (e', nd', s) \<Longrightarrow> bag e' nd' = bag e nd"
  by (auto simp: send_msdu_in_order_def bind_eq_Some_conv dest: bag_send_in_order_loop)

lemma bag_send_gap_loop:
  "send_gap_loop n e nd seqn c = Some (e', nd', c') \<Longrightarrow> bag e' nd' = bag e nd"
proof (induction n arbitrary: e nd seqn c)
  case 0
  then show ?case by simp
next
  case (Suc n)
  from Suc.prems show ?case
    by (auto split: if_splits simp: bind_eq_Some_conv conserve_simps bag_send_reorder_skb
        dest!: Suc.IH)
qed

lemma bag_send_msdu_with_gap [conserve_simps]:
  "send_msdu_with_gap e nd l = Some (e', nd', c) \<Longrightarrow> bag e' nd' = bag e nd"
  by (auto simp: send_msdu_with_gap_def dest: bag_send_gap_loop)

lemma bag_between_seqlo_seqhi:
  "between_seqlo_seqhi e nd = Some (e', nd') \<Longrightarrow> bag e' nd' = bag e nd"
  by (auto simp: between_seqlo_seqhi_def bind_eq_Some_conv conserve_simps)

lemma bag_greater_than_seqhi:
  "greater_than_seqhi e nd s = Some (e', nd') \<Longrightarrow> bag e' nd' = bag e nd"
  by (auto simp: greater_than_seqhi_def Let_def bind_eq_Some_conv conserve_simps
      dest!: bag_send_msdu_with_gap bag_send_msdu_in_order)

lemma bag_bar_send_ba_buffer:
  "bar_send_ba_buffer e nd s = Some (e', nd') \<Longrightarrow> bag e' nd' = bag e nd"
  by (auto simp: bar_send_ba_buffer_def bind_eq_Some_conv conserve_simps split: if_splits
      dest!: bag_send_msdu_with_gap bag_send_msdu_in_order)

lemma bag_send_order_msdu:
  "send_order_msdu e md skb nd = Some (e', nd') \<Longrightarrow> bag e' nd' = bag e nd + mset (skb_chain skb)"
  by (auto simp: send_order_msdu_def Let_def bag_def reorder_set_skb_list_Some bind_eq_Some_conv
      conserve_simps dest!: held_replay split: option.splits prod.splits if_splits)

section \<open>Flushing\<close>

lemma flush_loop_eq:
  assumes "i + k \<le> length buf"
  shows "flush_loop k i e buf =
    Some (kfree_skbs e (concat (map pkt_skbs (take k (drop i buf)))),
          take i buf @ replicate k zero_pkt @ drop (i + k) buf)"
  using assms
proof (induction k arbitrary: i e buf)
  case 0
  then show ?case by (simp add: kfree_skbs_def)
next
  case (Suc k)
  then have i: "i < length buf" by simp
  have "take (Suc k) (drop i buf) = buf ! i # take k (drop (Suc i) buf)"
    using i by (metis Cons_nth_drop_Suc take_Suc_Cons)
  moreover have "take (Suc i) (buf[i := zero_pkt]) = take i buf @ [zero_pkt]"
    using i by (simp add: take_Suc_conv_app_nth)
  moreover have "drop (Suc (i + k)) (buf[i := zero_pkt]) = drop (Suc (i + k)) buf"
    by (simp add: drop_update_cancel)
  ultimately show ?case
    using Suc.prems i
    by (simp add: Suc.IH kfree_skbs_def drop_update_cancel)
qed

lemma flush_reorder_buffer_spec:
  assumes "length (reorder_buffer nd) = unat (index_mask nd + 1)"
  shows "flush_reorder_buffer e nd =
    Some (kfree_skbs e (concat (map pkt_skbs (reorder_buffer nd))),
          nd\<lparr>reorder_buffer := replicate (length (reorder_buffer nd)) zero_pkt, buff_cnt := 0\<rparr>)"
  using flush_loop_eq [of 0 "unat (index_mask nd + 1)" "reorder_buffer nd" e] assms
  by (simp add: flush_reorder_buffer_def)

lemma bag_flush_loop:
  "flush_loop k i e buf = Some (e', buf') \<Longrightarrow>
     mset (freed e') + sum_list (map (\<lambda>p. mset (pkt_skbs p)) buf')
   = mset (freed e) + sum_list (map (\<lambda>p. mset (pkt_skbs p)) buf) \<and> skb_list e' = skb_list e"
proof (induction k arbitrary: i e buf)
  case 0
  then show ?case by simp
next
  case (Suc k)
  from Suc.prems have i: "i < length buf"
    by (auto simp: bind_eq_Some_conv aget_eq_Some_iff)
  with Suc.prems have "flush_loop k (Suc i) (kfree_skbs e (pkt_skbs (buf ! i))) (buf[i := zero_pkt])
      = Some (e', buf')"
    by simp
  from Suc.IH [OF this] sum_list_map_update [OF i, of "\<lambda>p. mset (pkt_skbs p)" zero_pkt]
  show ?case by (simp add: ac_simps)
qed

lemma bag_flush_reorder_buffer:
  "flush_reorder_buffer e nd = Some (e', nd') \<Longrightarrow> bag e' nd' = bag e nd"
  by (auto simp: flush_reorder_buffer_def bind_eq_Some_conv bag_def held_def ac_simps
      dest!: bag_flush_loop)

section \<open>Insertion and the whole receive step\<close>

definition occupied :: "rx_ba_pkt \<Rightarrow> bool" where
  "occupied pkt \<longleftrightarrow> pd_msdu_num (pkt_desc pkt) \<noteq> 0"

lemma insert_msdu_cases:
  assumes "insert_msdu md skb nd = Some (ret, nd')"
  obtains (reject) "ret = - EINVAL" "nd' = nd"
      "occupied (reorder_buffer nd ! slot_index nd (seq_num md))"
  | (join) pkt where "ret = 0"
      "slot_index nd (seq_num md) < length (reorder_buffer nd)"
      "occupied (reorder_buffer nd ! slot_index nd (seq_num md))"
      "pd_seq (pkt_desc (reorder_buffer nd ! slot_index nd (seq_num md))) = seq_num md"
      "pkt_skbs pkt = pkt_skbs (reorder_buffer nd ! slot_index nd (seq_num md)) @ skb_chain skb"
      "pkt_desc pkt = (pkt_desc (reorder_buffer nd ! slot_index nd (seq_num md)))
         \<lparr>pd_msdu_num := pd_msdu_num (pkt_desc (reorder_buffer nd ! slot_index nd (seq_num md))) + 1,
          pd_last := last_msdu_of_mpdu md\<rparr>"
      "nd' = nd\<lparr>reorder_buffer := (reorder_buffer nd)[slot_index nd (seq_num md) := pkt]\<rparr>"
  | (fresh) pkt where "ret = 0"
      "slot_index nd (seq_num md) < length (reorder_buffer nd)"
      "\<not> occupied (reorder_buffer nd ! slot_index nd (seq_num md))"
      "pkt_skbs pkt = pkt_skbs (reorder_buffer nd ! slot_index nd (seq_num md)) @ skb_chain skb"
      "pkt_desc pkt = (set_ba_pkt_desc (pkt_desc (reorder_buffer nd ! slot_index nd (seq_num md))) md)
         \<lparr>pd_last := last_msdu_of_mpdu md, pd_msdu_num := 1\<rparr>"
      "nd' = nd\<lparr>reorder_buffer := (reorder_buffer nd)[slot_index nd (seq_num md) := pkt],
                buff_cnt := buff_cnt nd + 1\<rparr>"
proof -
  let ?i = "slot_index nd (seq_num md)" and ?old = "reorder_buffer nd ! slot_index nd (seq_num md)"
  have joint: "pkt_skbs (joint_msdu ?old skb) = pkt_skbs ?old @ skb_chain skb"
    "pkt_desc (joint_msdu ?old skb) = pkt_desc ?old"
    by (simp_all add: joint_msdu_def skb_chain_def split: option.split)
  from assms have i: "?i < length (reorder_buffer nd)"
    by (auto simp: insert_msdu_def Let_def bind_eq_Some_conv aget_eq_Some_iff)
  note eq = assms [unfolded insert_msdu_def Let_def aget_Some [OF i] bind.bind_lunit joint]
  consider (free) "pd_msdu_num (pkt_desc ?old) = 0"
    | (same) "pd_msdu_num (pkt_desc ?old) \<noteq> 0"
        "pd_seq (pkt_desc ?old) = seq_num md \<and> \<not> pd_last (pkt_desc ?old) \<and> is_same_pn (pkt_desc ?old) md"
    | (used) "pd_msdu_num (pkt_desc ?old) \<noteq> 0"
        "\<not> (pd_seq (pkt_desc ?old) = seq_num md \<and> \<not> pd_last (pkt_desc ?old) \<and> is_same_pn (pkt_desc ?old) md)"
    by blast
  then show thesis
  proof cases
    case free
    with eq show thesis
      by (intro fresh [of "(joint_msdu ?old skb)\<lparr>pkt_desc := (set_ba_pkt_desc (pkt_desc ?old) md)
          \<lparr>pd_last := last_msdu_of_mpdu md, pd_msdu_num := 1\<rparr>\<rparr>"])
        (simp_all add: i occupied_def joint)
  next
    case same
    with eq show thesis
      by (intro join [of "(joint_msdu ?old skb)\<lparr>pkt_desc := (pkt_desc ?old)
          \<lparr>pd_msdu_num := pd_msdu_num (pkt_desc ?old) + 1, pd_last := last_msdu_of_mpdu md\<rparr>\<rparr>"])
        (simp_all add: i occupied_def joint)
  next
    case used
    with eq show thesis
      by (intro reject) (simp_all add: occupied_def split: if_splits)
  qed
qed

lemma held_insert_msdu:
  assumes "insert_msdu md skb nd = Some (ret, nd')"
  shows "held nd' = held nd + (if ret = 0 then mset (skb_chain skb) else {#})"
  using assms
proof (cases rule: insert_msdu_cases)
  case reject
  then show ?thesis by (simp add: EINVAL_def)
next
  case (join pkt)
  then show ?thesis using held_update [OF join(2), of pkt] by simp
next
  case (fresh pkt)
  then show ?thesis using held_update [OF fresh(2), of pkt] by (simp add: held_def)
qed

text \<open>The window is moved first when the number lies beyond its limit.\<close>

definition slide_for :: "skb_io \<Rightarrow> rx_ba_node_desc \<Rightarrow> u16 \<Rightarrow> (skb_io \<times> rx_ba_node_desc) option" where
  "slide_for e nd s =
     (if \<not> seqno_leq s (win_limit nd) then greater_than_seqhi e nd s else Some (e, nd))"

lemma bag_slide_for: "slide_for e nd s = Some (e', nd') \<Longrightarrow> bag e' nd' = bag e nd"
  by (auto simp: slide_for_def bag_greater_than_seqhi split: if_splits)

lemma reorder_msdu_cases:
  assumes "reorder_msdu e md skb nd = Some (ret, e', nd')"
  obtains (window) e1 nd1 nd2 where
      "seqno_geq (seq_num md) (win_start nd)"
      "slide_for e (nd\<lparr>win_start_init := 0\<rparr>) (seq_num md) = Some (e1, nd1)"
      "insert_msdu md skb nd1 = Some (ret, nd2)"
      "e' = (if ret = 0 then e1 else kfree_skbs e1 (skb_chain skb))"
      "nd' = (if ret = 0 \<and> seqno_geq (seq_num md) (win_tail nd2)
              then nd2\<lparr>win_tail := seq_num md\<rparr> else nd2)"
  | (early) s where "\<not> seqno_geq (seq_num md) (win_start nd)"
      "\<not> seqno_geq (seq_num md) (win_start_init nd)"
      "skb = Some s" "ret = 0" "nd' = nd" "e' = e\<lparr>skb_list := skb_list e @ [s]\<rparr>"
  | (stale) "\<not> seqno_geq (seq_num md) (win_start nd)"
      "seqno_geq (seq_num md) (win_start_init nd)"
      "ret = - EINVAL" "nd' = nd" "e' = kfree_skbs e (skb_chain skb)"
proof -
  have kf: "(if r \<noteq> 0 \<and> (\<exists>y. skb = Some y) then kfree_skbs e1 (skb_chain skb) else e1)
      = (if r = 0 then e1 else kfree_skbs e1 (skb_chain skb))" for e1 and r :: int
    by (auto simp: kfree_skbs_def skb_chain_def)
  show thesis
  proof (cases "seqno_geq (seq_num md) (win_start nd)")
    case True
    with assms show thesis
      by (auto simp: reorder_msdu_def Let_def bind_eq_Some_conv kf slide_for_def [symmetric]
          slide_for_def [of e "nd\<lparr>win_start_init := 0\<rparr>", simplified, symmetric]
          intro: window)
  next
    case False
    show thesis
    proof (cases "seqno_geq (seq_num md) (win_start_init nd)")
      case True
      with False assms have "ret = - EINVAL" "nd' = nd" "e' = kfree_skbs e (skb_chain skb)"
        by (simp_all add: reorder_msdu_def kf EINVAL_def)
      with False True show thesis by (rule stale)
    next
      case notinit: False
      with False assms obtain e1 where "reorder_set_skb_list e (skb_chain skb) = Some e1"
        "ret = 0" "nd' = nd" "e' = e1"
        by (auto simp: reorder_msdu_def bind_eq_Some_conv)
      with False notinit show thesis
        by (cases skb) (auto simp: reorder_set_skb_list_Some skb_chain_def intro: early)
    qed
  qed
qed

lemma bag_kfree_skbs: "bag (kfree_skbs e c) nd = bag e nd + mset c"
  by (simp add: bag_def ac_simps)

lemma bag_reorder_msdu:
  assumes "reorder_msdu e md skb nd = Some (ret, e', nd')"
  shows "bag e' nd' = bag e nd + mset (skb_chain skb)"
  using assms
proof (cases rule: reorder_msdu_cases)
  case (window e1 nd1 nd2)
  have "bag e1 nd1 = bag e nd"
    using bag_slide_for [OF window(2)] by (simp add: conserve_simps)
  then have "bag e1 nd2 = bag e nd + (if ret = 0 then mset (skb_chain skb) else {#})"
    using held_insert_msdu [OF window(3)] by (simp add: bag_def ac_simps)
  with window(4,5) show ?thesis
    by (auto simp: conserve_simps bag_kfree_skbs)
next
  case (early s)
  then show ?thesis by (simp add: bag_def)
next
  case stale
  then show ?thesis by (simp add: bag_kfree_skbs)
qed

lemma rx_ba_mod_reorder_timer [simp]: "rx_ba (mod_reorder_timer node) = rx_ba node"
  by (simp add: mod_reorder_timer_def)

text \<open>The four ways an MSDU can go through \<open>reorder_msdu_process\<close>.\<close>

lemma reorder_msdu_process_cases:
  assumes "reorder_msdu_process e md skb node = Some (e', node')"
  obtains (inactive) s where "\<not> active node" "skb = Some s" "node' = node"
      "e' = e\<lparr>skb_list := skb_list e @ [s]\<rparr>"
  | (fast) nd' where "active node" "seq_num md = win_start (rx_ba node)"
      "buff_cnt (rx_ba node) = 0" "last_msdu_of_mpdu md"
      "send_order_msdu e md skb ((rx_ba node)\<lparr>win_start_init := 0\<rparr>) = Some (e', nd')"
      "node' = node\<lparr>rx_ba := nd'\<rparr>"
  | (deliver) e1 nd1 nd2 where "active node"
      "reorder_msdu e md skb (rx_ba node) = Some (0, e1, nd1)"
      "last_msdu_of_mpdu md" "seq_num md = win_start nd1"
      "between_seqlo_seqhi e1 nd1 = Some (e', nd2)" "rx_ba node' = nd2"
  | (store) ret nd1 where "active node"
      "reorder_msdu e md skb (rx_ba node) = Some (ret, e', nd1)" "rx_ba node' = nd1"
proof (cases "active node")
  case False
  with assms show thesis
    by (cases skb)
      (auto simp: reorder_msdu_process_def bind_eq_Some_conv skb_chain_def reorder_set_skb_list_Some
        intro: inactive)
next
  case act: True
  show thesis
  proof (cases "seq_num md = win_start (rx_ba node) \<and> buff_cnt (rx_ba node) = 0 \<and> last_msdu_of_mpdu md")
    case True
    with act assms show thesis
      by (auto simp: reorder_msdu_process_def Let_def bind_eq_Some_conv intro: fast)
  next
    case False
    with act assms obtain ret e1 nd1 where r: "reorder_msdu e md skb (rx_ba node) = Some (ret, e1, nd1)"
      by (auto simp: reorder_msdu_process_def Let_def bind_eq_Some_conv split: if_splits)
    show thesis
    proof (cases "ret = 0 \<and> last_msdu_of_mpdu md \<and> seq_num md = win_start nd1")
      case True
      with act False assms r show thesis
        by (auto simp: reorder_msdu_process_def Let_def bind_eq_Some_conv intro!: deliver)
    next
      case notdel: False
      from act False assms r notdel show thesis
        by (intro store [of ret nd1])
          (auto simp: reorder_msdu_process_def Let_def split: if_splits)
    qed
  qed
qed

lemma bag_reorder_msdu_process:
  assumes "reorder_msdu_process e md skb node = Some (e', node')"
  shows "bag e' (rx_ba node') = bag e (rx_ba node) + mset (skb_chain skb)"
  using assms
proof (cases rule: reorder_msdu_process_cases)
  case (inactive s)
  then show ?thesis by (simp add: bag_def)
next
  case (fast nd')
  then show ?thesis using bag_send_order_msdu [OF fast(5)] by (simp add: conserve_simps)
next
  case (deliver e1 nd1 nd2)
  then show ?thesis
    using bag_reorder_msdu [OF deliver(2)] bag_between_seqlo_seqhi [OF deliver(5)] by simp
next
  case (store ret nd1)
  then show ?thesis using bag_reorder_msdu [OF store(2)] by simp
qed

lemma bag_ba_reorder_timeout:
  assumes "ba_reorder_timeout e node = Some (e', node', d, k)"
  shows "bag e' (rx_ba node') = bag e (rx_ba node)"
  using assms
  by (auto simp: ba_reorder_timeout_def Let_def bind_eq_Some_conv conserve_simps split: if_splits
      dest!: bag_send_msdu_with_gap bag_send_msdu_in_order)

end
