(* ===== verification/Reorder_Window.thy ===== *)
theory Reorder_Window
  imports Reorder_Conserve
begin

text \<open>
  The reorder window: the invariant of a session's buffer, the window read as a list of
  slots in sequence order, and delivery refined to that list. In-order delivery is the
  longest complete prefix of the window, delivery with a gap is everything buffered
  before the new start, both in sequence order.
\<close>

section \<open>Slots\<close>

text \<open>The buffer has a power of two of slots, at most one per sequence number.\<close>

definition buf_shape :: "rx_ba_node_desc \<Rightarrow> bool" where
  "buf_shape nd \<longleftrightarrow> (\<exists>k \<le> 12. index_mask nd = mask k \<and> length (reorder_buffer nd) = 2 ^ k)"

lemma buf_shape_cong:
  "index_mask nd' = index_mask nd \<Longrightarrow> length (reorder_buffer nd') = length (reorder_buffer nd) \<Longrightarrow>
   buf_shape nd' = buf_shape nd"
  by (simp add: buf_shape_def)

lemma buf_shape_dvd: "buf_shape nd \<Longrightarrow> length (reorder_buffer nd) dvd 4096"
proof -
  assume "buf_shape nd"
  then obtain k where "k \<le> 12" "length (reorder_buffer nd) = 2 ^ k"
    by (auto simp: buf_shape_def)
  then show ?thesis
    using le_imp_power_dvd [of k 12 "2 :: nat"] by simp
qed

lemma buf_shape_pos: "buf_shape nd \<Longrightarrow> 0 < length (reorder_buffer nd)"
  by (auto simp: buf_shape_def)

lemma slot_index_mod:
  assumes "buf_shape nd"
  shows "slot_index nd s = unat s mod length (reorder_buffer nd)"
  using assms by (auto simp: buf_shape_def slot_index_def unat_and_mask)

lemma slot_index_less:
  assumes "buf_shape nd"
  shows "slot_index nd s < length (reorder_buffer nd)"
  using buf_shape_pos [OF assms] by (simp add: slot_index_mod [OF assms])

abbreviation m12 :: "u16 \<Rightarrow> u16" where
  "m12 s \<equiv> s AND SEQNO_MASK"

lemma unat_m12: "unat (m12 s) = unat s mod 4096"
  by (simp add: SEQNO_MASK_def mask_4095 unat_and_mask)

lemma seqno_m12 [simp]: "seqno (m12 s)"
  by (simp add: seqno_def unat_m12)

lemma m12_id: "seqno s \<Longrightarrow> m12 s = s"
  by (simp add: word_unat_eq_iff unat_m12 seqno_def)

lemma m12_add: "m12 (s + d) = SEQNO_ADD (m12 s) d"
proof (rule seq.val_inject)
  have "unat (s + d) mod 4096 = (unat s + unat d) mod 4096"
    by (simp add: unat_word_ariths mod_mod_cancel)
  then show "unat (m12 (s + d)) = unat (SEQNO_ADD (m12 s) d)"
    by (simp add: unat_m12 unat_SEQNO_ADD mod_simps)
qed

lemma slot_index_m12: "buf_shape nd \<Longrightarrow> slot_index nd (m12 s) = slot_index nd s"
  using buf_shape_dvd [of nd] by (simp add: slot_index_mod unat_m12 mod_mod_cancel)

text \<open>Consecutive numbers, fewer than the buffer has slots, have different slots.\<close>

lemma slot_index_neq:
  assumes shape: "buf_shape nd" and d: "0 < d" "d < length (reorder_buffer nd)"
  shows "slot_index nd (s + of_nat d) \<noteq> slot_index nd s"
proof
  let ?L = "length (reorder_buffer nd)"
  assume "slot_index nd (s + of_nat d) = slot_index nd s"
  then have eq: "unat (s + of_nat d) mod ?L = unat s mod ?L"
    by (simp add: slot_index_mod [OF shape])
  have dvd: "?L dvd 65536"
    using buf_shape_dvd [OF shape] dvd_trans [of ?L 4096 65536] by simp
  have L: "?L \<le> 4096"
    using buf_shape_dvd [OF shape] by (simp add: dvd_imp_le)
  have "unat (s + of_nat d) = (unat s + d) mod 65536"
    using d L by (simp add: unat_word_ariths unat_of_nat take_bit_eq_mod)
  then have "unat (s + of_nat d) mod ?L = (unat s + d) mod ?L"
    using dvd by (simp add: mod_mod_cancel)
  with eq have "(unat s + d) mod ?L = (unat s + 0) mod ?L"
    by simp
  then have "d mod ?L = 0 mod ?L"
    by (simp only: nat_mod_eq_iff) auto
  with d show False by simp
qed

section \<open>The window invariant\<close>

definition slot_ok :: "rx_ba_node_desc \<Rightarrow> u16 \<Rightarrow> nat \<Rightarrow> nat \<Rightarrow> bool" where
  "slot_ok nd b w i \<longleftrightarrow>
     (let pkt = reorder_buffer nd ! i; q = pd_seq (pkt_desc pkt) in
      if occupied pkt
      then seqno q \<and> unat q mod length (reorder_buffer nd) = i \<and> unat (SEQNO_SUB q b) < w
      else pkt = zero_pkt)"

text \<open>
  \<open>wf_at nd b w\<close>: the buffer has its shape, \<open>buff_cnt\<close> counts the used slots, and every
  used slot holds a number of the \<open>w\<close> numbers from \<open>b\<close> on, in the slot of that number.
\<close>

definition wf_at :: "rx_ba_node_desc \<Rightarrow> u16 \<Rightarrow> nat \<Rightarrow> bool" where
  "wf_at nd b w \<longleftrightarrow> buf_shape nd \<and> w \<le> length (reorder_buffer nd) \<and> seqno b
     \<and> unat (buff_cnt nd) = length (filter occupied (reorder_buffer nd))
     \<and> (\<forall>i < length (reorder_buffer nd). slot_ok nd b w i)"

text \<open>The invariant of a session between operations.\<close>

definition ba_wf :: "rx_ba_node_desc \<Rightarrow> bool" where
  "ba_wf nd \<longleftrightarrow> wf_at nd (win_start nd) (unat (win_size nd))
     \<and> 0 < win_size nd \<and> 2 * unat (win_size nd) \<le> length (reorder_buffer nd)
     \<and> win_limit nd = SEQNO_ADD (win_start nd) (win_size nd - 1)
     \<and> seqno (win_tail nd)"

lemma occupied_zero_pkt [simp]: "\<not> occupied zero_pkt"
  by (simp add: occupied_def)

lemma wf_at_shape: "wf_at nd b w \<Longrightarrow> buf_shape nd"
  by (simp add: wf_at_def)

lemma wf_at_free_slot:
  "wf_at nd b w \<Longrightarrow> i < length (reorder_buffer nd) \<Longrightarrow> \<not> occupied (reorder_buffer nd ! i) \<Longrightarrow>
   reorder_buffer nd ! i = zero_pkt"
  by (auto simp: wf_at_def slot_ok_def Let_def)

lemma wf_at_last_occupied:
  "wf_at nd b w \<Longrightarrow> i < length (reorder_buffer nd) \<Longrightarrow> pd_last (pkt_desc (reorder_buffer nd ! i)) \<Longrightarrow>
   occupied (reorder_buffer nd ! i)"
  using wf_at_free_slot [of nd b w i] by (cases "occupied (reorder_buffer nd ! i)") auto

lemma wf_at_empty:
  assumes "wf_at nd b w" and "buff_cnt nd = 0" and "i < length (reorder_buffer nd)"
  shows "\<not> occupied (reorder_buffer nd ! i)"
  using assms length_filter_pos [of i "reorder_buffer nd" occupied] by (auto simp: wf_at_def)

lemma wf_at_0:
  assumes "wf_at nd b 0"
  shows "buff_cnt nd = 0"
proof -
  have "\<forall>x \<in> set (reorder_buffer nd). \<not> occupied x"
    using assms by (auto simp: wf_at_def slot_ok_def Let_def in_set_conv_nth split: if_splits)
  then have "filter occupied (reorder_buffer nd) = []"
    by (simp add: filter_empty_conv)
  with assms have "unat (buff_cnt nd) = 0"
    by (simp add: wf_at_def)
  then show ?thesis
    by (simp add: unat_eq_0)
qed

lemma wf_at_mono: "wf_at nd b w \<Longrightarrow> w \<le> w' \<Longrightarrow> w' \<le> length (reorder_buffer nd) \<Longrightarrow> wf_at nd b w'"
  by (auto simp: wf_at_def slot_ok_def Let_def)

text \<open>A used slot at the base of the window holds the base.\<close>

lemma wf_at_base_slot:
  assumes wf: "wf_at nd b w" and occ: "occupied (reorder_buffer nd ! slot_index nd b)"
  shows "pd_seq (pkt_desc (reorder_buffer nd ! slot_index nd b)) = b"
proof (rule seq.slot_inject)
  let ?L = "length (reorder_buffer nd)" and ?i = "slot_index nd b"
  note shape = wf_at_shape [OF wf]
  have b: "seqno b" and w: "w \<le> ?L" using wf by (simp_all add: wf_at_def)
  have "slot_ok nd b w ?i"
    using wf slot_index_less [OF shape] by (simp add: wf_at_def)
  then have ok: "seqno (pd_seq (pkt_desc (reorder_buffer nd ! ?i)))"
    "unat (pd_seq (pkt_desc (reorder_buffer nd ! ?i))) mod ?L = ?i"
    "unat (SEQNO_SUB (pd_seq (pkt_desc (reorder_buffer nd ! ?i))) b) < w"
    using occ by (simp_all add: slot_ok_def Let_def)
  show "seqno (pd_seq (pkt_desc (reorder_buffer nd ! ?i)))" by (rule ok(1))
  show "seqno b" and "seqno b" by (rule b)+
  show "?L dvd 4096" by (rule buf_shape_dvd [OF shape])
  show "unat (SEQNO_SUB (pd_seq (pkt_desc (reorder_buffer nd ! ?i))) b) < ?L"
    using ok(3) w by simp
  show "unat (SEQNO_SUB b b) < ?L"
    using b buf_shape_pos [OF shape] by (simp add: unat_SEQNO_SUB_12 seqno_def)
  show "unat (pd_seq (pkt_desc (reorder_buffer nd ! ?i))) mod ?L = unat b mod ?L"
    using ok(2) by (simp add: slot_index_mod [OF shape])
qed

text \<open>Once the slot at the base is free, the window can start one later.\<close>

lemma wf_at_advance:
  assumes wf: "wf_at nd b w" and free: "\<not> occupied (reorder_buffer nd ! slot_index nd b)"
  shows "wf_at nd (SEQNO_ADD b 1) (w - 1)"
proof -
  let ?L = "length (reorder_buffer nd)"
  have b: "seqno b" using wf by (simp add: wf_at_def)
  have "slot_ok nd (SEQNO_ADD b 1) (w - 1) i" if i: "i < ?L" for i
  proof (cases "occupied (reorder_buffer nd ! i)")
    case False
    then show ?thesis using wf_at_free_slot [OF wf i] by (simp add: slot_ok_def)
  next
    case True
    let ?q = "pd_seq (pkt_desc (reorder_buffer nd ! i))"
    from True wf i have q: "seqno ?q" "unat ?q mod ?L = i" "unat (SEQNO_SUB ?q b) < w"
      by (simp_all add: wf_at_def slot_ok_def Let_def)
    have "?q \<noteq> b"
      using q(2) True free by (auto simp: slot_index_mod [OF wf_at_shape [OF wf]])
    then have pos: "unat (1 :: u16) \<le> unat (SEQNO_SUB ?q b)"
      using seq.add_sub [OF q(1) b] seq.val_eq_base_plus [OF q(1) b] b
      by (cases "unat (SEQNO_SUB ?q b)") (auto simp: word_unat_eq_iff seqno_def)
    from seq.val_sub_add_base [OF q(1) b pos]
    have "unat (SEQNO_SUB ?q (SEQNO_ADD b 1)) = unat (SEQNO_SUB ?q b) - 1" by simp
    with True q pos show ?thesis by (simp add: slot_ok_def Let_def)
  qed
  with wf show ?thesis by (auto simp: wf_at_def)
qed

text \<open>Taking the packet out of a used slot keeps the count and the window.\<close>

lemma wf_at_remove:
  assumes wf: "wf_at nd b w" and i: "i < length (reorder_buffer nd)"
    and occ: "occupied (reorder_buffer nd ! i)"
    and buf: "reorder_buffer nd' = (reorder_buffer nd)[i := zero_pkt]"
    and cnt: "buff_cnt nd' = buff_cnt nd - 1" and mask: "index_mask nd' = index_mask nd"
  shows "wf_at nd' b w"
proof -
  have pos: "0 < length (filter occupied (reorder_buffer nd))"
    by (rule length_filter_pos [OF i, of occupied, OF occ])
  then have nz: "buff_cnt nd \<noteq> 0"
    using wf by (auto simp: wf_at_def)
  have "length (filter occupied (reorder_buffer nd')) + 1 = length (filter occupied (reorder_buffer nd))"
    using length_filter_update [OF i, of occupied zero_pkt] occ buf by simp
  then have "unat (buff_cnt nd') = length (filter occupied (reorder_buffer nd'))"
    using wf nz by (simp add: cnt word_nonzero_dec wf_at_def)
  moreover have "slot_ok nd' b w j" if "j < length (reorder_buffer nd')" for j
    using wf that i by (cases "j = i") (auto simp: buf wf_at_def slot_ok_def Let_def)
  ultimately show ?thesis
    using wf by (simp add: wf_at_def buf buf_shape_cong [OF mask])
qed

section \<open>Delivery as a function of the window\<close>

definition complete :: "rx_ba_pkt \<Rightarrow> bool" where
  "complete pkt \<longleftrightarrow> pd_last (pkt_desc pkt)"

text \<open>The \<open>w\<close> slots from the number \<open>s\<close> on, in sequence order.\<close>

definition window_from :: "rx_ba_node_desc \<Rightarrow> u16 \<Rightarrow> nat \<Rightarrow> rx_ba_pkt list" where
  "window_from nd s w = map (\<lambda>i. reorder_buffer nd ! slot_index nd (s + of_nat i)) [0..<w]"

text \<open>
  The specification of delivery: each packet in turn passes replay detection and is
  queued, or is freed.
\<close>

fun deliver_pkts :: "skb_io \<Rightarrow> rx_ba_node_desc \<Rightarrow> rx_ba_pkt list \<Rightarrow> skb_io \<times> rx_ba_node_desc" where
  "deliver_pkts e nd [] = (e, nd)"
| "deliver_pkts e nd (p # ps) =
     (if pkt_skbs p = [] then deliver_pkts e nd ps
      else case replay_detection (pkt_desc p) nd of (ok, nd1) \<Rightarrow>
        deliver_pkts (if ok then e\<lparr>skb_list := skb_list e @ pkt_skbs p\<rparr> else kfree_skbs e (pkt_skbs p))
          nd1 ps)"

definition pn_of :: "rx_ba_node_desc \<Rightarrow> bool \<times> u16 \<times> u32" where
  "pn_of nd = (nd_reset_pn nd, nd_pn_h nd, nd_pn_l nd)"

text \<open>The fields of a session that delivery leaves alone.\<close>

definition same_window :: "rx_ba_node_desc \<Rightarrow> rx_ba_node_desc \<Rightarrow> bool" where
  "same_window nd nd' \<longleftrightarrow> index_mask nd' = index_mask nd \<and> win_start nd' = win_start nd
     \<and> win_size nd' = win_size nd \<and> win_tail nd' = win_tail nd \<and> win_limit nd' = win_limit nd
     \<and> win_start_init nd' = win_start_init nd
     \<and> length (reorder_buffer nd') = length (reorder_buffer nd)"

lemma same_window_refl [simp]: "same_window nd nd"
  by (simp add: same_window_def)

lemma same_window_trans: "same_window a b \<Longrightarrow> same_window b c \<Longrightarrow> same_window a c"
  by (simp add: same_window_def)

lemma same_window_buff_cnt [simp]:
  "same_window nd (nd'\<lparr>buff_cnt := c\<rparr>) = same_window nd nd'"
  "same_window (nd\<lparr>buff_cnt := c\<rparr>) nd' = same_window nd nd'"
  by (simp_all add: same_window_def)

lemma replay_detection_cong:
  assumes "pn_of nd = pn_of nd'"
  shows "fst (replay_detection pd nd) = fst (replay_detection pd nd')"
    and "pn_of (snd (replay_detection pd nd)) = pn_of (snd (replay_detection pd nd'))"
  using assms by (auto simp: pn_of_def replay_detection_def Let_def)

lemma deliver_pkts_cong:
  "pn_of nd = pn_of nd' \<Longrightarrow> fst (deliver_pkts e nd ps) = fst (deliver_pkts e nd' ps)
     \<and> pn_of (snd (deliver_pkts e nd ps)) = pn_of (snd (deliver_pkts e nd' ps))"
proof (induction ps arbitrary: e nd nd')
  case Nil
  then show ?case by simp
next
  case (Cons p ps)
  obtain ok nd1 ok' nd1' where
    r: "replay_detection (pkt_desc p) nd = (ok, nd1)" "replay_detection (pkt_desc p) nd' = (ok', nd1')"
    by fastforce
  with replay_detection_cong [OF Cons.prems, of "pkt_desc p"]
  have "ok' = ok" and pn: "pn_of nd1 = pn_of nd1'" by simp_all
  with r show ?case
    using Cons.IH [OF Cons.prems] Cons.IH [OF pn] by simp
qed

lemma deliver_pkts_append:
  "deliver_pkts e nd (ps @ qs) = (case deliver_pkts e nd ps of (e', nd') \<Rightarrow> deliver_pkts e' nd' qs)"
  by (induction e nd ps rule: deliver_pkts.induct) (auto split: prod.splits)

lemma send_reorder_skb_deliver:
  assumes "i < length (reorder_buffer nd)"
  obtains nd' where
    "send_reorder_skb e nd i = Some (fst (deliver_pkts e nd [reorder_buffer nd ! i]), nd')"
    "pn_of nd' = pn_of (snd (deliver_pkts e nd [reorder_buffer nd ! i]))"
    "reorder_buffer nd' = (reorder_buffer nd)[i := zero_pkt]" "buff_cnt nd' = buff_cnt nd"
    "same_window nd nd'"
proof -
  let ?d = "deliver_pkts e nd [reorder_buffer nd ! i]"
  have s: "send_reorder_skb e nd i
      = Some (fst ?d, (snd ?d)\<lparr>reorder_buffer := (reorder_buffer (snd ?d))[i := zero_pkt]\<rparr>)"
    using assms by (simp add: send_reorder_skb_def reorder_set_skb_list_def split: prod.split)
  then show thesis
    using send_reorder_skb_frame [OF s]
    by (intro that [OF s]) (simp_all add: same_window_def pn_of_def)
qed

lemma window_from_Suc:
  "window_from nd s (Suc w) = reorder_buffer nd ! slot_index nd s # window_from nd (s + 1) w"
  by (simp add: window_from_def upt_conv_Cons map_Suc_upt [symmetric] add.assoc del: upt_Suc)

lemma window_from_0 [simp]: "window_from nd s 0 = []"
  by (simp add: window_from_def)

lemma length_window_from [simp]: "length (window_from nd s w) = w"
  by (simp add: window_from_def)

lemma window_from_cong:
  "index_mask nd' = index_mask nd \<Longrightarrow> reorder_buffer nd' = reorder_buffer nd \<Longrightarrow>
   window_from nd' s w = window_from nd s w"
  by (simp add: window_from_def slot_index_def)

lemma window_from_remove:
  assumes shape: "buf_shape nd" and v: "v < length (reorder_buffer nd)"
    and "index_mask nd' = index_mask nd"
    and "reorder_buffer nd' = (reorder_buffer nd)[slot_index nd s := zero_pkt]"
  shows "window_from nd' (s + 1) v = window_from nd (s + 1) v"
proof -
  have "slot_index nd s \<noteq> slot_index nd (s + 1 + of_nat i)" if "i < v" for i
    using slot_index_neq [OF shape, of "Suc i" s] that v by (simp add: add.assoc)
  moreover have "slot_index nd' = slot_index nd"
    by (simp add: fun_eq_iff slot_index_def assms(3))
  ultimately show ?thesis
    by (simp add: window_from_def assms(4))
qed

text \<open>Without used slots nothing in the window is complete.\<close>

lemma window_from_empty:
  assumes wf: "wf_at nd b w" and "buff_cnt nd = 0"
  shows "\<forall>p \<in> set (window_from nd s v). p = zero_pkt"
  using wf_at_free_slot [OF wf] wf_at_empty [OF assms] slot_index_less [OF wf_at_shape [OF wf]]
  by (auto simp: window_from_def)

lemma takeWhile_complete_zero:
  "\<forall>p \<in> set ps. p = zero_pkt \<Longrightarrow> takeWhile complete ps = []"
  by (cases ps) (auto simp: complete_def)

text \<open>Taking the packet at the base of the window out of the buffer, one round of either loop.\<close>

lemma remove_base:
  assumes wf: "wf_at nd (m12 s) w" and occ: "occupied (reorder_buffer nd ! slot_index nd s)"
  obtains e1 nd1 nd2 where
    "send_reorder_skb e nd (slot_index nd s) = Some (e1, nd1)"
    "nd2 = nd1\<lparr>buff_cnt := buff_cnt nd1 - 1\<rparr>"
    "wf_at nd2 (m12 (s + 1)) (w - 1)" "same_window nd nd2"
    "\<forall>v < length (reorder_buffer nd). window_from nd2 (s + 1) v = window_from nd (s + 1) v"
    "\<forall>ps. fst (deliver_pkts e1 nd2 ps) = fst (deliver_pkts e nd (reorder_buffer nd ! slot_index nd s # ps))"
    "\<forall>ps. pn_of (snd (deliver_pkts e1 nd2 ps))
        = pn_of (snd (deliver_pkts e nd (reorder_buffer nd ! slot_index nd s # ps)))"
    "buff_cnt nd2 = buff_cnt nd - 1"
proof -
  let ?i = "slot_index nd s" and ?p = "reorder_buffer nd ! slot_index nd s"
  note shape = wf_at_shape [OF wf]
  have i: "?i < length (reorder_buffer nd)" by (rule slot_index_less [OF shape])
  obtain nd1 where s1: "send_reorder_skb e nd ?i = Some (fst (deliver_pkts e nd [?p]), nd1)"
    and pn1: "pn_of nd1 = pn_of (snd (deliver_pkts e nd [?p]))"
    and buf1: "reorder_buffer nd1 = (reorder_buffer nd)[?i := zero_pkt]"
    and cnt1: "buff_cnt nd1 = buff_cnt nd" and win1: "same_window nd nd1"
    by (rule send_reorder_skb_deliver [OF i])
  let ?nd2 = "nd1\<lparr>buff_cnt := buff_cnt nd1 - 1\<rparr>" and ?e1 = "fst (deliver_pkts e nd [?p])"
  have mask1: "index_mask nd1 = index_mask nd" using win1 by (simp add: same_window_def)
  have wf2: "wf_at ?nd2 (m12 s) w"
    by (rule wf_at_remove [OF wf i occ]) (simp_all add: buf1 cnt1 mask1)
  have slot2: "slot_index ?nd2 = slot_index nd"
    by (simp add: fun_eq_iff slot_index_def mask1)
  have "wf_at ?nd2 (SEQNO_ADD (m12 s) 1) (w - 1)"
    by (rule wf_at_advance [OF wf2]) (simp add: slot2 slot_index_m12 [OF shape] buf1 i)
  then have wf3: "wf_at ?nd2 (m12 (s + 1)) (w - 1)" by (simp add: m12_add)
  have win2: "window_from ?nd2 (s + 1) v = window_from nd (s + 1) v"
    if "v < length (reorder_buffer nd)" for v
    by (intro window_from_remove [OF shape]) (simp_all add: that mask1 buf1)
  have del: "fst (deliver_pkts ?e1 ?nd2 ps) = fst (deliver_pkts e nd (?p # ps))
      \<and> pn_of (snd (deliver_pkts ?e1 ?nd2 ps)) = pn_of (snd (deliver_pkts e nd (?p # ps)))" for ps
    using deliver_pkts_cong [of ?nd2 "snd (deliver_pkts e nd [?p])" ?e1 ps] pn1
      deliver_pkts_append [of e nd "[?p]" ps]
    by (simp add: pn_of_def split_def del: deliver_pkts.simps)
  show thesis
    by (rule that [OF s1 refl wf3]) (use del win1 win2 cnt1 in simp_all)
qed

section \<open>In-order delivery\<close>

lemma send_in_order_loop_spec:
  assumes "wf_at nd (m12 s) w"
  shows "\<exists>nd'. send_in_order_loop e nd s =
           Some (fst (deliver_pkts e nd (takeWhile complete (window_from nd s w))), nd',
                 s + of_nat (length (takeWhile complete (window_from nd s w))))
       \<and> wf_at nd' (m12 (s + of_nat (length (takeWhile complete (window_from nd s w)))))
                    (w - length (takeWhile complete (window_from nd s w)))
       \<and> pn_of nd' = pn_of (snd (deliver_pkts e nd (takeWhile complete (window_from nd s w))))
       \<and> same_window nd nd'
       \<and> window_from nd' (s + of_nat (length (takeWhile complete (window_from nd s w))))
                         (w - length (takeWhile complete (window_from nd s w)))
         = dropWhile complete (window_from nd s w)
       \<and> unat (buff_cnt nd') + length (takeWhile complete (window_from nd s w)) = unat (buff_cnt nd)"
  using assms
proof (induction w arbitrary: e nd s)
  case 0
  from wf_at_0 [OF 0] have "send_in_order_loop e nd s = Some (e, nd, s)"
    by (subst send_in_order_loop.simps) simp
  with 0 show ?case by simp
next
  case (Suc w)
  note wf = Suc.prems
  let ?i = "slot_index nd s"
  have i: "?i < length (reorder_buffer nd)" by (rule slot_index_less [OF wf_at_shape [OF wf]])
  show ?case
  proof (cases "buff_cnt nd \<noteq> 0 \<and> complete (reorder_buffer nd ! ?i)")
    case False
    then have nc: "\<not> complete (reorder_buffer nd ! ?i)"
      using wf_at_empty [OF wf _ i] wf_at_last_occupied [OF wf i] by (auto simp: complete_def)
    with i have "send_in_order_loop e nd s = Some (e, nd, s)"
      by (subst send_in_order_loop.simps) (simp add: complete_def)
    with nc wf show ?thesis by (simp add: window_from_Suc)
  next
    case True
    then have occ: "occupied (reorder_buffer nd ! ?i)"
      using wf_at_last_occupied [OF wf i] by (simp add: complete_def)
    obtain e1 nd1 nd2 where s1: "send_reorder_skb e nd ?i = Some (e1, nd1)"
      and nd2: "nd2 = nd1\<lparr>buff_cnt := buff_cnt nd1 - 1\<rparr>"
      and wf2: "wf_at nd2 (m12 (s + 1)) (Suc w - 1)" and win: "same_window nd nd2"
      and view: "\<forall>v < length (reorder_buffer nd). window_from nd2 (s + 1) v = window_from nd (s + 1) v"
      and del: "\<forall>ps. fst (deliver_pkts e1 nd2 ps) = fst (deliver_pkts e nd (reorder_buffer nd ! ?i # ps))"
        "\<forall>ps. pn_of (snd (deliver_pkts e1 nd2 ps)) = pn_of (snd (deliver_pkts e nd (reorder_buffer nd ! ?i # ps)))"
      and cnt: "buff_cnt nd2 = buff_cnt nd - 1"
      by (rule remove_base [OF wf occ, where e = e])
    have loop: "send_in_order_loop e nd s = send_in_order_loop e1 nd2 (s + 1)"
      using True i s1 nd2 by (subst send_in_order_loop.simps) (simp add: complete_def)
    have view': "window_from nd2 (s + 1) w = window_from nd (s + 1) w"
      using wf view by (simp add: wf_at_def)
    have "unat (buff_cnt nd2) + 1 = unat (buff_cnt nd)"
      using True by (simp add: cnt word_nonzero_dec unat_gt_0 Suc_leI)
    with Suc.IH [of nd2 "s + 1" e1] wf2 True win show ?thesis
      unfolding loop view' window_from_Suc
      by (auto simp: add.assoc view' del simp del: deliver_pkts.simps intro: same_window_trans)
  qed
qed

section \<open>Delivery up to a new start\<close>

lemma wf_at_advance_m12:
  assumes "wf_at nd (m12 s) w" and "\<not> occupied (reorder_buffer nd ! slot_index nd s)"
  shows "wf_at nd (m12 (s + 1)) (w - 1)"
  using wf_at_advance [OF assms(1)] assms(2) slot_index_m12 [OF wf_at_shape [OF assms(1)]]
  by (simp add: m12_add)

lemma send_gap_loop_spec:
  assumes "wf_at nd (m12 s) w"
  shows "\<exists>nd'. send_gap_loop n e nd s c =
           Some (fst (deliver_pkts e nd (filter occupied (take n (window_from nd s w)))), nd',
                 c + of_nat (length (filter occupied (take n (window_from nd s w)))))
       \<and> wf_at nd' (m12 (s + of_nat n)) (w - n)
       \<and> pn_of nd' = pn_of (snd (deliver_pkts e nd (filter occupied (take n (window_from nd s w)))))
       \<and> same_window nd nd'
       \<and> window_from nd' (s + of_nat n) (w - n) = drop n (window_from nd s w)
       \<and> unat (buff_cnt nd') + length (filter occupied (take n (window_from nd s w))) = unat (buff_cnt nd)"
  using assms
proof (induction n arbitrary: e nd s c w)
  case 0
  then show ?case by simp
next
  case (Suc n)
  note wf = Suc.prems
  let ?i = "slot_index nd s"
  have i: "?i < length (reorder_buffer nd)" by (rule slot_index_less [OF wf_at_shape [OF wf]])
  show ?case
  proof (cases "occupied (reorder_buffer nd ! ?i)")
    case False
    have loop: "send_gap_loop (Suc n) e nd s c = send_gap_loop n e nd (s + 1) c"
      using False i by (simp add: occupied_def)
    have tk: "filter occupied (take (Suc n) (window_from nd s w)) = filter occupied (take n (window_from nd (s + 1) (w - 1)))"
      and dr: "drop (Suc n) (window_from nd s w) = drop n (window_from nd (s + 1) (w - 1))"
      using False by (cases w; simp add: window_from_Suc)+
    from Suc.IH [OF wf_at_advance_m12 [OF wf False], of e c]
    show ?thesis unfolding loop tk dr by (simp add: add.assoc)
  next
    case True
    then have cnz: "buff_cnt nd \<noteq> 0" using wf_at_empty [OF wf _ i] by blast
    obtain v where w: "w = Suc v" using wf_at_0 wf cnz by (cases w) auto
    obtain e1 nd1 nd2 where s1: "send_reorder_skb e nd ?i = Some (e1, nd1)"
      and nd2: "nd2 = nd1\<lparr>buff_cnt := buff_cnt nd1 - 1\<rparr>"
      and wf2: "wf_at nd2 (m12 (s + 1)) (w - 1)" and win: "same_window nd nd2"
      and view: "\<forall>v < length (reorder_buffer nd). window_from nd2 (s + 1) v = window_from nd (s + 1) v"
      and del: "\<forall>ps. fst (deliver_pkts e1 nd2 ps) = fst (deliver_pkts e nd (reorder_buffer nd ! ?i # ps))"
        "\<forall>ps. pn_of (snd (deliver_pkts e1 nd2 ps)) = pn_of (snd (deliver_pkts e nd (reorder_buffer nd ! ?i # ps)))"
      and cnt: "buff_cnt nd2 = buff_cnt nd - 1"
      by (rule remove_base [OF wf True, where e = e])
    have loop: "send_gap_loop (Suc n) e nd s c = send_gap_loop n e1 nd2 (s + 1) (c + 1)"
      using True cnz i s1 nd2 by (simp add: occupied_def)
    have view': "window_from nd2 (s + 1) v = window_from nd (s + 1) v"
      using wf w view by (simp add: wf_at_def)
    have "unat (buff_cnt nd2) + 1 = unat (buff_cnt nd)"
      using cnz by (simp add: cnt word_nonzero_dec unat_gt_0 Suc_leI)
    with Suc.IH [OF wf2, of e1 "c + 1"] True win w show ?thesis
      unfolding loop w window_from_Suc
      by (auto simp: add.assoc view' del simp del: deliver_pkts.simps intro: same_window_trans)
  qed
qed

end
