(* ===== verification/Reorder_Session.thy ===== *)
theory Reorder_Session
  imports Reorder_Window
begin

text \<open>
  The receive step and the timer step of one session keep the window invariant and never
  fault on a real buffer; what they deliver is read off the window.
\<close>

section \<open>Slides of the window\<close>

lemma m12_win: "seqno b \<Longrightarrow> m12 (b + d) = SEQNO_ADD b d"
  by (simp add: m12_add m12_id)

lemma send_msdu_in_order_spec:
  assumes wf: "wf_at nd (win_start nd) w"
  defines "run \<equiv> takeWhile complete (window_from nd (win_start nd) w)"
  obtains nd' where
    "send_msdu_in_order e nd = Some (fst (deliver_pkts e nd run), nd',
       SEQNO_ADD (win_start nd) (of_nat (length run)))"
    "wf_at nd' (SEQNO_ADD (win_start nd) (of_nat (length run))) (w - length run)"
    "pn_of nd' = pn_of (snd (deliver_pkts e nd run))" "same_window nd nd'"
    "window_from nd' (win_start nd + of_nat (length run)) (w - length run)
       = dropWhile complete (window_from nd (win_start nd) w)"
    "unat (buff_cnt nd') + length run = unat (buff_cnt nd)"
proof -
  have b: "seqno (win_start nd)" using wf by (simp add: wf_at_def)
  then have "wf_at nd (m12 (win_start nd)) w" using wf by (simp add: m12_id)
  from send_in_order_loop_spec [OF this, of e] show thesis
    by (auto simp: send_msdu_in_order_def run_def [symmetric] m12_win [OF b] intro: that)
qed

lemma send_msdu_with_gap_spec:
  assumes wf: "wf_at nd (win_start nd) w" and pos: "seqno pos"
  defines "n \<equiv> unat (SEQNO_SUB pos (win_start nd))"
  defines "gone \<equiv> filter occupied (take n (window_from nd (win_start nd) w))"
  obtains nd' c where
    "send_msdu_with_gap e nd pos = Some (fst (deliver_pkts e nd gone), nd', c)"
    "wf_at nd' pos (w - n)" "pn_of nd' = pn_of (snd (deliver_pkts e nd gone))" "same_window nd nd'"
    "window_from nd' (win_start nd + of_nat n) (w - n) = drop n (window_from nd (win_start nd) w)"
    "unat (buff_cnt nd') + length gone = unat (buff_cnt nd)"
proof -
  have b: "seqno (win_start nd)" using wf by (simp add: wf_at_def)
  have eq: "m12 (win_start nd + of_nat n) = pos"
    using seq.add_sub [OF pos b] by (simp add: m12_win [OF b] n_def)
  have "wf_at nd (m12 (win_start nd)) w" using wf b by (simp add: m12_id)
  from send_gap_loop_spec [OF this, of n e 0, folded gone_def, unfolded eq] show thesis
    by (auto simp: send_msdu_with_gap_def n_def [symmetric] intro: that)
qed

text \<open>The part of the invariant that does not speak about the buffer.\<close>

definition ba_static :: "rx_ba_node_desc \<Rightarrow> bool" where
  "ba_static nd \<longleftrightarrow> 0 < win_size nd \<and> 2 * unat (win_size nd) \<le> length (reorder_buffer nd)
     \<and> seqno (win_tail nd)"

lemma ba_wf_static: "ba_wf nd \<Longrightarrow> ba_static nd"
  by (simp add: ba_wf_def ba_static_def)

lemma ba_static_same_window: "same_window nd nd' \<Longrightarrow> ba_static nd' = ba_static nd"
  by (simp add: same_window_def ba_static_def)

lemma wf_at_cong:
  "index_mask nd' = index_mask nd \<Longrightarrow> reorder_buffer nd' = reorder_buffer nd \<Longrightarrow>
   buff_cnt nd' = buff_cnt nd \<Longrightarrow> wf_at nd' b w = wf_at nd b w"
  by (simp add: wf_at_def buf_shape_def slot_ok_def)

lemma ba_wf_restart:
  assumes "wf_at nd s w" and "w \<le> unat (win_size nd)" and "ba_static nd"
  shows "ba_wf (nd\<lparr>win_start := s, win_limit := SEQNO_ADD s (win_size nd - 1)\<rparr>)"
proof -
  let ?nd = "nd\<lparr>win_start := s, win_limit := SEQNO_ADD s (win_size nd - 1)\<rparr>"
  have "wf_at nd s (unat (win_size nd))"
    using assms by (intro wf_at_mono [OF assms(1)]) (simp_all add: ba_static_def)
  then have "wf_at ?nd s (unat (win_size nd))"
    by (subst wf_at_cong [of ?nd nd]) simp_all
  with assms(3) show ?thesis by (simp add: ba_wf_def ba_static_def)
qed

text \<open>
  Deliver up to \<open>pos\<close>, then in order from there: the common tail of the slides in
  \<open>greater_than_seqhi\<close>, \<open>bar_send_ba_buffer\<close> and \<open>ba_reorder_timeout\<close>.
\<close>

lemma slide_spec:
  assumes wf: "ba_wf nd" and pos: "seqno pos"
  defines "n \<equiv> unat (SEQNO_SUB pos (win_start nd))"
  defines "view \<equiv> window_from nd (win_start nd) (unat (win_size nd))"
  defines "sent \<equiv> filter occupied (take n view) @ takeWhile complete (drop n view)"
  obtains e1 nd1 c e2 nd2 nd' where
    "send_msdu_with_gap e nd pos = Some (e1, nd1, c)"
    "send_msdu_in_order e1 (nd1\<lparr>win_start := pos\<rparr>)
       = Some (e2, nd2, SEQNO_ADD pos (of_nat (length (takeWhile complete (drop n view)))))"
    "win_size nd2 = win_size nd"
    "nd' = nd2\<lparr>win_start := SEQNO_ADD pos (of_nat (length (takeWhile complete (drop n view)))),
             win_limit := SEQNO_ADD (SEQNO_ADD pos (of_nat (length (takeWhile complete (drop n view)))))
               (win_size nd - 1)\<rparr>"
    "ba_wf nd'" "same_window (nd\<lparr>win_start := pos\<rparr>) nd2" "e2 = fst (deliver_pkts e nd sent)"
    "unat (buff_cnt nd2) + length sent = unat (buff_cnt nd)"
proof -
  let ?w = "unat (win_size nd)" and ?run = "takeWhile complete (drop n view)"
  have wf0: "wf_at nd (win_start nd) ?w" using wf by (simp add: ba_wf_def)
  have b: "seqno (win_start nd)" using wf0 by (simp add: wf_at_def)
  obtain nd1 c where gap: "send_msdu_with_gap e nd pos =
      Some (fst (deliver_pkts e nd (filter occupied (take n view))), nd1, c)"
    and wf1: "wf_at nd1 pos (?w - n)"
    and pn1: "pn_of nd1 = pn_of (snd (deliver_pkts e nd (filter occupied (take n view))))"
    and win1: "same_window nd nd1"
    and view1: "window_from nd1 (win_start nd + of_nat n) (?w - n) = drop n view"
    and cnt1: "unat (buff_cnt nd1) + length (filter occupied (take n view)) = unat (buff_cnt nd)"
    using send_msdu_with_gap_spec [OF wf0 pos, of e]
    unfolding n_def [symmetric] view_def [symmetric] by blast
  let ?nd1 = "nd1\<lparr>win_start := pos\<rparr>"
  have slot1: "slot_index ?nd1 (pos + of_nat i) = slot_index nd1 (win_start nd + of_nat n + of_nat i)" for i
  proof -
    have "m12 (win_start nd + of_nat n) = m12 pos"
      using seq.add_sub [OF pos b] pos by (simp add: m12_win [OF b] n_def m12_id)
    then have "m12 (win_start nd + of_nat n + of_nat i) = m12 (pos + of_nat i)"
      by (simp only: m12_add)
    then show ?thesis
      using slot_index_m12 [OF wf_at_shape [OF wf1]]
      by (simp add: slot_index_def) metis
  qed
  have view1': "window_from ?nd1 (win_start ?nd1) (?w - n) = drop n view"
    unfolding view1 [symmetric] by (simp add: window_from_def slot1)
  have wf1': "wf_at ?nd1 (win_start ?nd1) (?w - n)"
    using wf1 by (subst wf_at_cong [of ?nd1 nd1]) simp_all
  let ?e1 = "fst (deliver_pkts e nd (filter occupied (take n view)))"
  obtain nd2 where ord: "send_msdu_in_order ?e1 ?nd1 =
      Some (fst (deliver_pkts ?e1 ?nd1 ?run), nd2, SEQNO_ADD pos (of_nat (length ?run)))"
    and wf2: "wf_at nd2 (SEQNO_ADD pos (of_nat (length ?run))) (?w - n - length ?run)"
    and win2: "same_window ?nd1 nd2"
    and cnt2: "unat (buff_cnt nd2) + length ?run = unat (buff_cnt nd1)"
    using send_msdu_in_order_spec [OF wf1', of ?e1] view1' by auto
  have win12: "same_window (nd\<lparr>win_start := pos\<rparr>) nd2"
    using win1 win2 by (simp add: same_window_def)
  have size2: "win_size nd2 = win_size nd" using win12 by (simp add: same_window_def)
  have static2: "ba_static nd2"
    using ba_wf_static [OF wf] win12 by (simp add: ba_static_def same_window_def)
  have e2: "fst (deliver_pkts ?e1 ?nd1 ?run) = fst (deliver_pkts e nd sent)"
    using deliver_pkts_cong [of ?nd1 "snd (deliver_pkts e nd (filter occupied (take n view)))" ?e1 ?run] pn1
    by (simp add: sent_def deliver_pkts_append split_def pn_of_def)
  show thesis
  proof (rule that [OF gap ord size2 refl])
    show "ba_wf (nd2\<lparr>win_start := SEQNO_ADD pos (of_nat (length ?run)),
        win_limit := SEQNO_ADD (SEQNO_ADD pos (of_nat (length ?run))) (win_size nd - 1)\<rparr>)"
      using ba_wf_restart [OF wf2 _ static2] by (simp add: size2)
    show "same_window (nd\<lparr>win_start := pos\<rparr>) nd2" by (rule win12)
    show "fst (deliver_pkts ?e1 ?nd1 ?run) = fst (deliver_pkts e nd sent)" by (rule e2)
    show "unat (buff_cnt nd2) + length sent = unat (buff_cnt nd)"
      using cnt1 cnt2 by (simp add: sent_def)
  qed
qed

lemma slide_run_length:
  "length (takeWhile complete (drop n (window_from nd s w))) \<le> w - n"
  using length_takeWhile_le [of complete "drop n (window_from nd s w)"] by simp

section \<open>Receiving\<close>

lemma ba_wf_bounds:
  assumes wf: "ba_wf nd"
  shows "seqno (win_start nd)" and "0 < unat (win_size nd)" and "unat (win_size nd) \<le> 2048"
    and "unat (win_limit nd) = (unat (win_start nd) + (unat (win_size nd) - 1)) mod 4096"
proof -
  show b: "seqno (win_start nd)" and w: "0 < unat (win_size nd)" "unat (win_size nd) \<le> 2048"
    using wf buf_shape_dvd [of nd] dvd_imp_le [of "length (reorder_buffer nd)" 4096]
    by (auto simp: ba_wf_def wf_at_def unat_gt_0)
  have "unat (win_size nd - 1) = unat (win_size nd) - 1"
    using w by (intro word_nonzero_dec) auto
  then show "unat (win_limit nd) = (unat (win_start nd) + (unat (win_size nd) - 1)) mod 4096"
    using wf by (simp add: ba_wf_def unat_SEQNO_ADD)
qed

text \<open>A number at or after the start and not after the limit is in the window.\<close>

lemma in_window:
  assumes wf: "ba_wf nd" and s: "seqno s"
    and ge: "seqno_geq s (win_start nd)" and le: "seqno_leq s (win_limit nd)"
  shows "unat (SEQNO_SUB s (win_start nd)) < unat (win_size nd)"
proof -
  let ?b = "unat (win_start nd)" and ?w = "unat (win_size nd)" and ?s = "unat s"
  note b = ba_wf_bounds(1) [OF wf] and w = ba_wf_bounds(2,3) [OF wf] and lim = ba_wf_bounds(4) [OF wf]
  have d: "unat (SEQNO_SUB s (win_start nd)) = (?s + (4096 - ?b)) mod 4096"
    by (rule unat_SEQNO_SUB_12 [OF b])
  from ge le have "(?b \<le> ?s \<and> ?s - ?b < 2048) \<or> (?s < ?b \<and> 2048 \<le> ?b - ?s)"
    "(?s \<le> unat (win_limit nd) \<and> unat (win_limit nd) - ?s < 2048)
       \<or> (unat (win_limit nd) < ?s \<and> 2048 \<le> ?s - unat (win_limit nd))"
    by (auto simp: seqno_geq_def seqno_leq_nat)
  with b s w lim show ?thesis
    unfolding d seqno_def by (cases "?b + (?w - 1) < 4096") (auto simp: mod_if split: if_splits)
qed

lemma beyond_window:
  assumes wf: "ba_wf nd" and s: "seqno s"
    and ge: "seqno_geq s (win_start nd)" and gt: "\<not> seqno_leq s (win_limit nd)"
  shows "unat (win_size nd) \<le> unat (SEQNO_SUB s (win_start nd))"
proof -
  let ?b = "unat (win_start nd)" and ?w = "unat (win_size nd)" and ?s = "unat s"
  note b = ba_wf_bounds(1) [OF wf] and w = ba_wf_bounds(2,3) [OF wf] and lim = ba_wf_bounds(4) [OF wf]
  have d: "unat (SEQNO_SUB s (win_start nd)) = (?s + (4096 - ?b)) mod 4096"
    by (rule unat_SEQNO_SUB_12 [OF b])
  from ge gt have "(?b \<le> ?s \<and> ?s - ?b < 2048) \<or> (?s < ?b \<and> 2048 \<le> ?b - ?s)"
    "\<not> ((?s \<le> unat (win_limit nd) \<and> unat (win_limit nd) - ?s < 2048)
       \<or> (unat (win_limit nd) < ?s \<and> 2048 \<le> ?s - unat (win_limit nd)))"
    by (auto simp: seqno_geq_def seqno_leq_nat)
  with b s w lim show ?thesis
    unfolding d seqno_def by (cases "?b + (?w - 1) < 4096") (auto simp: mod_if split: if_splits)
qed

text \<open>Changing the initial start does not concern the window.\<close>

lemma ba_wf_win_start_init [simp]: "ba_wf (nd\<lparr>win_start_init := x\<rparr>) = ba_wf nd"
  using wf_at_cong [of "nd\<lparr>win_start_init := x\<rparr>" nd] by (simp add: ba_wf_def)

lemma ba_wf_win_tail: "ba_wf nd \<Longrightarrow> seqno x \<Longrightarrow> ba_wf (nd\<lparr>win_tail := x\<rparr>)"
  using wf_at_cong [of "nd\<lparr>win_tail := x\<rparr>" nd] by (simp add: ba_wf_def)

text \<open>Where a slide for the number \<open>s\<close> puts the start of the window.\<close>

lemma greater_than_seqhi_spec:
  assumes wf: "ba_wf nd" and s: "seqno s"
    and ge: "seqno_geq s (win_start nd)" and gt: "\<not> seqno_leq s (win_limit nd)"
  shows "\<exists>e' nd'. greater_than_seqhi e nd s = Some (e', nd') \<and> ba_wf nd'
      \<and> unat (SEQNO_SUB s (win_start nd')) < unat (win_size nd')
      \<and> win_tail nd' = win_tail nd \<and> win_size nd' = win_size nd
      \<and> win_start_init nd' = win_start_init nd"
proof -
  let ?w = "unat (win_size nd)" and ?pos = "SEQNO_SUB s (win_size nd - 1)"
  let ?view = "window_from nd (win_start nd) ?w" and ?n = "unat (SEQNO_SUB ?pos (win_start nd))"
  let ?run = "takeWhile complete (drop ?n ?view)"
  have pos: "seqno ?pos" by simp
  note b = ba_wf_bounds(1) [OF wf] and w = ba_wf_bounds(2,3) [OF wf]
  have w1: "unat (win_size nd - 1) = ?w - 1"
    using w by (intro word_nonzero_dec) auto
  have dist: "unat (SEQNO_SUB s ?pos) = ?w - 1"
    using seq.val_sub_sub [OF s, of "win_size nd - 1"] w w1 by (simp add: seqno_def)
  have n: "0 < ?n"
  proof (rule ccontr)
    assume "\<not> 0 < ?n"
    then have "?pos = win_start nd"
      using seq.val_eq_base_plus [OF pos b] b by (simp add: word_unat_eq_iff seqno_def)
    then show False using dist beyond_window [OF assms] w by simp
  qed
  obtain e1 nd1 c e2 nd2 nd' where
    g: "send_msdu_with_gap e nd ?pos = Some (e1, nd1, c)"
    "send_msdu_in_order e1 (nd1\<lparr>win_start := ?pos\<rparr>) = Some (e2, nd2, SEQNO_ADD ?pos (of_nat (length ?run)))"
    "win_size nd2 = win_size nd"
    "nd' = nd2\<lparr>win_start := SEQNO_ADD ?pos (of_nat (length ?run)),
       win_limit := SEQNO_ADD (SEQNO_ADD ?pos (of_nat (length ?run))) (win_size nd - 1)\<rparr>"
    "ba_wf nd'" "same_window (nd\<lparr>win_start := ?pos\<rparr>) nd2"
    by (rule slide_spec [OF wf pos, of e])
  have run: "length ?run \<le> ?w - 1"
    using slide_run_length [of ?n nd "win_start nd" ?w] n by linarith
  have k: "unat (of_nat (length ?run) :: u16) = length ?run"
    using run w by (simp add: unat_of_nat take_bit_eq_mod)
  have "unat (SEQNO_SUB s (SEQNO_ADD ?pos (of_nat (length ?run)))) = ?w - 1 - length ?run"
    using seq.val_sub_add_base [OF s pos, of "of_nat (length ?run)"] k run dist by simp
  then have "unat (SEQNO_SUB s (win_start nd')) < unat (win_size nd')"
    using g(3,4) w by simp
  with g show ?thesis
    by (auto simp: greater_than_seqhi_def Let_def same_window_def)
qed

lemma slide_for_spec:
  assumes wf: "ba_wf nd" and s: "seqno s" and ge: "seqno_geq s (win_start nd)"
  shows "\<exists>e' nd'. slide_for e nd s = Some (e', nd') \<and> ba_wf nd'
      \<and> unat (SEQNO_SUB s (win_start nd')) < unat (win_size nd')"
proof (cases "seqno_leq s (win_limit nd)")
  case True
  then show ?thesis
    using in_window [OF assms] wf by (simp add: slide_for_def)
next
  case False
  then show ?thesis
    using greater_than_seqhi_spec [OF assms, of e] by (auto simp: slide_for_def)
qed

text \<open>No MPDU has filled its 16-bit MSDU counter.\<close>

definition msdu_room :: "rx_ba_node_desc \<Rightarrow> bool" where
  "msdu_room nd \<longleftrightarrow> (\<forall>p \<in> set (reorder_buffer nd). pd_msdu_num (pkt_desc p) \<noteq> 0xffff)"

lemma insert_msdu_wf:
  assumes wf: "ba_wf nd" and s: "seqno (seq_num md)" and room: "msdu_room nd"
    and inw: "unat (SEQNO_SUB (seq_num md) (win_start nd)) < unat (win_size nd)"
    and ins: "insert_msdu md skb nd = Some (ret, nd')"
  shows "ba_wf nd'"
  using ins
proof (cases rule: insert_msdu_cases)
  case reject
  with wf show ?thesis by simp
next
  let ?i = "slot_index nd (seq_num md)" and ?L = "length (reorder_buffer nd)"
  have wf0: "wf_at nd (win_start nd) (unat (win_size nd))" using wf by (simp add: ba_wf_def)
  note shape = wf_at_shape [OF wf0]
  have i: "?i < ?L" by (rule slot_index_less [OF shape])
  {
    case (join pkt)
    have "pd_msdu_num (pkt_desc (reorder_buffer nd ! ?i)) \<noteq> 0xffff"
      using room i by (simp add: msdu_room_def)
    then have occ: "occupied pkt"
      using join(6) u16_inc_nonzero by (simp add: occupied_def)
    have "length (filter occupied (reorder_buffer nd')) = length (filter occupied (reorder_buffer nd))"
      using length_filter_update [OF i, of occupied pkt] join(3,7) occ by simp
    moreover have "slot_ok nd' (win_start nd) (unat (win_size nd)) j" if "j < ?L" for j
      using wf0 that i join occ by (cases "j = ?i") (auto simp: wf_at_def slot_ok_def Let_def)
    moreover have "buf_shape nd'" using shape join(7) by (simp add: buf_shape_def)
    ultimately show ?thesis using wf join(7) by (simp add: ba_wf_def wf_at_def)
  next
    case (fresh pkt)
    have occ: "occupied pkt" and sq: "pd_seq (pkt_desc pkt) = seq_num md"
      using fresh(5) by (simp_all add: occupied_def set_ba_pkt_desc_def)
    have cnt: "length (filter occupied (reorder_buffer nd')) = length (filter occupied (reorder_buffer nd)) + 1"
      using length_filter_update [OF i, of occupied pkt] fresh(3,6) occ by simp
    have "length (filter occupied (reorder_buffer nd)) \<le> ?L" by (rule length_filter_le)
    also have "?L \<le> 4096" using buf_shape_dvd [OF shape] by (simp add: dvd_imp_le)
    finally have "unat (buff_cnt nd + 1) = unat (buff_cnt nd) + 1"
      using wf0 by (intro unat_inc) (simp add: wf_at_def)
    then have "unat (buff_cnt nd') = length (filter occupied (reorder_buffer nd'))"
      using cnt wf0 fresh(6) by (simp add: wf_at_def)
    moreover have "slot_ok nd' (win_start nd) (unat (win_size nd)) j" if "j < ?L" for j
      using wf0 that i fresh occ sq inw s slot_index_mod [OF shape, of "seq_num md"]
      by (cases "j = ?i") (auto simp: wf_at_def slot_ok_def Let_def)
    moreover have "buf_shape nd'" using shape fresh(6) by (simp add: buf_shape_def)
    ultimately show ?thesis using wf fresh(6) by (simp add: ba_wf_def wf_at_def)
  }
qed

text \<open>Delivery only empties slots.\<close>

definition buf_sub :: "rx_ba_node_desc \<Rightarrow> rx_ba_node_desc \<Rightarrow> bool" where
  "buf_sub nd nd' \<longleftrightarrow> set (reorder_buffer nd') \<subseteq> insert zero_pkt (set (reorder_buffer nd))"

lemma buf_sub_trans: "buf_sub a b \<Longrightarrow> buf_sub b c \<Longrightarrow> buf_sub a c"
  by (auto simp: buf_sub_def)

lemma buf_sub_simps [simp]:
  "buf_sub nd nd"
  "buf_sub nd (nd'\<lparr>buff_cnt := c\<rparr>) = buf_sub nd nd'" "buf_sub (nd\<lparr>buff_cnt := c\<rparr>) nd' = buf_sub nd nd'"
  "buf_sub nd (nd'\<lparr>win_start := x\<rparr>) = buf_sub nd nd'" "buf_sub (nd\<lparr>win_start := x\<rparr>) nd' = buf_sub nd nd'"
  "buf_sub nd (nd'\<lparr>win_limit := x\<rparr>) = buf_sub nd nd'"
  "buf_sub (nd\<lparr>win_start_init := x\<rparr>) nd' = buf_sub nd nd'"
  by (auto simp: buf_sub_def)

lemma buf_sub_send_reorder_skb: "send_reorder_skb e nd i = Some (e', nd') \<Longrightarrow> buf_sub nd nd'"
  using set_update_subset_insert [of "reorder_buffer nd" i zero_pkt]
  by (auto simp: buf_sub_def dest!: send_reorder_skb_frame(1))

lemma buf_sub_send_in_order_loop:
  "send_in_order_loop e nd s = Some (e', nd', s') \<Longrightarrow> buf_sub nd nd'"
proof (induction e nd s rule: send_in_order_loop.induct)
  case (1 e nd s)
  from "1.prems" show ?case
    by (subst (asm) send_in_order_loop.simps)
      (auto split: if_splits option.splits dest!: "1.IH" dest: buf_sub_send_reorder_skb
        intro: buf_sub_trans)
qed

lemma buf_sub_send_gap_loop: "send_gap_loop n e nd s c = Some (e', nd', c') \<Longrightarrow> buf_sub nd nd'"
proof (induction n arbitrary: e nd s c)
  case (Suc n)
  from Suc.prems show ?case
    by (auto split: if_splits simp: bind_eq_Some_conv dest!: Suc.IH dest: buf_sub_send_reorder_skb
        intro: buf_sub_trans)
qed simp

lemma buf_sub_slide_for: "slide_for e nd s = Some (e', nd') \<Longrightarrow> buf_sub nd nd'"
  by (auto simp: slide_for_def greater_than_seqhi_def Let_def bind_eq_Some_conv send_msdu_with_gap_def
      send_msdu_in_order_def split: if_splits
      dest!: buf_sub_send_gap_loop buf_sub_send_in_order_loop intro: buf_sub_trans)

lemma msdu_room_sub: "buf_sub nd nd' \<Longrightarrow> msdu_room nd \<Longrightarrow> msdu_room nd'"
  by (auto simp: buf_sub_def msdu_room_def)

lemma insert_msdu_total:
  assumes "buf_shape nd"
  shows "\<exists>ret nd'. insert_msdu md skb nd = Some (ret, nd')"
  using slot_index_less [OF assms, of "seq_num md"] by (simp add: insert_msdu_def Let_def)

lemma ba_wf_shape: "ba_wf nd \<Longrightarrow> buf_shape nd"
  by (simp add: ba_wf_def wf_at_def)

text \<open>The two places of the receive step that hand a missing buffer to the output queue.\<close>

definition null_queued :: "rx_msdu_desc \<Rightarrow> rx_ba_node \<Rightarrow> bool" where
  "null_queued md node \<longleftrightarrow> \<not> active node \<or>
     (\<not> seqno_geq (seq_num md) (win_start (rx_ba node))
      \<and> \<not> seqno_geq (seq_num md) (win_start_init (rx_ba node)))"

lemma reorder_msdu_wf:
  assumes wf: "ba_wf nd" and s: "seqno (seq_num md)" and room: "msdu_room nd"
    and ok: "skb \<noteq> None \<or> seqno_geq (seq_num md) (win_start nd) \<or> seqno_geq (seq_num md) (win_start_init nd)"
  shows "\<exists>ret e' nd'. reorder_msdu e md skb nd = Some (ret, e', nd') \<and> ba_wf nd'"
proof (cases "seqno_geq (seq_num md) (win_start nd)")
  case True
  let ?nd = "nd\<lparr>win_start_init := 0\<rparr>"
  obtain e1 nd1 where sl: "slide_for e ?nd (seq_num md) = Some (e1, nd1)" and wf1: "ba_wf nd1"
    and inw: "unat (SEQNO_SUB (seq_num md) (win_start nd1)) < unat (win_size nd1)"
    using slide_for_spec [of ?nd "seq_num md" e] wf s True by auto
  obtain ret nd2 where ins: "insert_msdu md skb nd1 = Some (ret, nd2)"
    using insert_msdu_total [OF ba_wf_shape [OF wf1]] by blast
  have "msdu_room nd1"
    using msdu_room_sub [OF buf_sub_slide_for [OF sl]] room by (simp add: msdu_room_def)
  from insert_msdu_wf [OF wf1 s this inw ins] have wf2: "ba_wf nd2" .
  have "reorder_msdu e md skb nd = Some (ret,
      if ret \<noteq> 0 \<and> skb \<noteq> None then kfree_skbs e1 (skb_chain skb) else e1,
      if ret = 0 \<and> seqno_geq (seq_num md) (win_tail nd2) then nd2\<lparr>win_tail := seq_num md\<rparr> else nd2)"
    using True sl ins by (simp add: reorder_msdu_def Let_def slide_for_def)
  then show ?thesis using wf2 ba_wf_win_tail [OF wf2 s] by simp
next
  case False
  then show ?thesis
    using wf ok by (cases skb) (auto simp: reorder_msdu_def reorder_set_skb_list_def skb_chain_def)
qed

lemma between_seqlo_seqhi_wf:
  assumes wf: "ba_wf nd"
  shows "\<exists>e' nd'. between_seqlo_seqhi e nd = Some (e', nd') \<and> ba_wf nd'"
proof -
  have wf0: "wf_at nd (win_start nd) (unat (win_size nd))" using wf by (simp add: ba_wf_def)
  obtain e' nd' s k where r: "send_msdu_in_order e nd = Some (e', nd', s)"
    "wf_at nd' s (unat (win_size nd) - k)" "same_window nd nd'"
    using send_msdu_in_order_spec [OF wf0, of e] by metis
  have "win_size nd' = win_size nd" using r(3) by (simp add: same_window_def)
  then have "ba_wf (nd'\<lparr>win_start := s, win_limit := SEQNO_ADD s (win_size nd' - 1)\<rparr>)"
    using r ba_wf_static [OF wf] ba_static_same_window [OF r(3)]
    by (intro ba_wf_restart [of _ _ "unat (win_size nd) - k"]) simp_all
  with r(1) show ?thesis by (simp add: between_seqlo_seqhi_def)
qed

text \<open>An empty buffer is well formed for any window.\<close>

lemma wf_at_rebase:
  assumes wf: "wf_at nd b w" and "buff_cnt nd = 0" and "seqno b'"
  shows "wf_at nd b' w"
  using assms wf_at_empty [OF assms(1,2)] by (auto simp: wf_at_def slot_ok_def Let_def)

lemma SEQNO_ADD_swap: "SEQNO_ADD (SEQNO_ADD a b) c = SEQNO_ADD (SEQNO_ADD a c) b"
  by (rule seq.val_inject) (simp add: unat_SEQNO_ADD mod_simps ac_simps)

lemma send_order_msdu_wf:
  assumes wf: "ba_wf nd" and emp: "buff_cnt nd = 0"
  shows "\<exists>e' nd'. send_order_msdu e md skb nd = Some (e', nd') \<and> ba_wf nd'
    \<and> win_start nd' = SEQNO_ADD (win_start nd) 1 \<and> buff_cnt nd' = 0"
proof -
  let ?s = "SEQNO_ADD (win_start nd) 1"
  let ?nd3 = "nd\<lparr>win_start := ?s, win_limit := SEQNO_ADD (win_limit nd) 1, win_tail := SEQNO_SUB ?s 1\<rparr>"
  have good: "ba_wf nd'" if "reorder_buffer nd' = reorder_buffer nd" "buff_cnt nd' = 0"
    "index_mask nd' = index_mask nd" "win_start nd' = ?s" "win_limit nd' = SEQNO_ADD (win_limit nd) 1"
    "win_size nd' = win_size nd" "win_tail nd' = SEQNO_SUB ?s 1" for nd'
  proof -
    have "wf_at nd ?s (unat (win_size nd))"
      by (rule wf_at_rebase [of nd "win_start nd"]) (use wf emp in \<open>simp_all add: ba_wf_def\<close>)
    then have "wf_at nd' ?s (unat (win_size nd'))"
      using that emp by (subst wf_at_cong [of nd' nd]) simp_all
    moreover have "SEQNO_ADD (win_limit nd) 1 = SEQNO_ADD ?s (win_size nd - 1)"
      using wf SEQNO_ADD_swap [of "win_start nd" "win_size nd - 1" 1] by (simp add: ba_wf_def)
    ultimately show ?thesis
      using wf that by (simp add: ba_wf_def)
  qed
  show ?thesis
  proof (cases skb)
    case None
    then show ?thesis using emp by (auto simp: send_order_msdu_def Let_def intro!: good)
  next
    case (Some k)
    obtain ok nd4 where r: "replay_detection (set_ba_pkt_desc zero_pkt_desc md) ?nd3 = (ok, nd4)"
      by fastforce
    then have "ba_wf nd4" "win_start nd4 = ?s" "buff_cnt nd4 = 0"
      using emp by (auto simp: replay_detection_frame [OF r] intro!: good)
    then show ?thesis
      using Some r by (simp add: send_order_msdu_def Let_def reorder_set_skb_list_def)
  qed
qed

lemma reorder_msdu_process_wf:
  assumes wf: "ba_wf (rx_ba node)" and s: "seqno (seq_num md)" and room: "msdu_room (rx_ba node)"
    and ok: "skb \<noteq> None \<or> \<not> null_queued md node"
  shows "\<exists>e' node'. reorder_msdu_process e md skb node = Some (e', node') \<and> ba_wf (rx_ba node')"
proof (cases "active node")
  case False
  then show ?thesis
    using wf ok by (auto simp: null_queued_def reorder_msdu_process_def skb_chain_def reorder_set_skb_list_def)
next
  case act: True
  let ?nd = "rx_ba node"
  show ?thesis
  proof (cases "seq_num md = win_start ?nd \<and> buff_cnt ?nd = 0 \<and> last_msdu_of_mpdu md")
    case True
    then obtain e' nd' where "send_order_msdu e md skb (?nd\<lparr>win_start_init := 0\<rparr>) = Some (e', nd')" "ba_wf nd'"
      using send_order_msdu_wf [of "?nd\<lparr>win_start_init := 0\<rparr>" e md skb] wf by auto
    with True act show ?thesis by (simp add: reorder_msdu_process_def)
  next
    case False
    obtain ret e1 nd1 where r: "reorder_msdu e md skb ?nd = Some (ret, e1, nd1)" and wf1: "ba_wf nd1"
      using reorder_msdu_wf [OF wf s room, of skb e] ok act by (auto simp: null_queued_def)
    obtain e2 nd2 where "between_seqlo_seqhi e1 nd1 = Some (e2, nd2)" "ba_wf nd2"
      using between_seqlo_seqhi_wf [OF wf1] by blast
    with act False r wf1 show ?thesis
      by (auto simp: reorder_msdu_process_def Let_def)
  qed
qed

text \<open>Without a buffer the step faults exactly where the missing buffer is queued.\<close>

lemma reorder_msdu_process_null:
  assumes "null_queued md node" and "\<not> (active node \<and> seq_num md = win_start (rx_ba node))"
  shows "reorder_msdu_process e md None node = None"
  using assms
  by (auto simp: null_queued_def reorder_msdu_process_def reorder_msdu_def skb_chain_def
      reorder_set_skb_list_def)

lemma null_queued_not_start: "active node \<Longrightarrow> null_queued md node \<Longrightarrow> seq_num md \<noteq> win_start (rx_ba node)"
  by (auto simp: null_queued_def seqno_geq_def)

lemma reorder_msdu_process_None_iff:
  assumes "ba_wf (rx_ba node)" and "seqno (seq_num md)" and "msdu_room (rx_ba node)"
  shows "reorder_msdu_process e md skb node = None \<longleftrightarrow> skb = None \<and> null_queued md node"
proof (cases "skb = None \<and> null_queued md node")
  case True
  then show ?thesis
    using reorder_msdu_process_null [of md node e] null_queued_not_start [of node md] by auto
next
  case False
  then have "\<exists>e' node'. reorder_msdu_process e md skb node = Some (e', node')"
    using reorder_msdu_process_wf [OF assms, of skb e] by blast
  with False show ?thesis by auto
qed

section \<open>The timer\<close>

lemma first_seqno_loop_total:
  "buf_shape nd \<Longrightarrow> seqno s \<Longrightarrow> \<exists>p. first_seqno_loop nd s = Some p \<and> seqno p"
proof (induction nd s rule: first_seqno_loop.induct)
  case (1 nd s)
  have "slot_index nd s < length (reorder_buffer nd)"
    by (rule slot_index_less [OF "1.prems"(1)])
  with 1 show ?case
    by (subst first_seqno_loop.simps) auto
qed

text \<open>The search stops at the first complete MPDU, if it lies no later than \<open>win_tail\<close>.\<close>

lemma first_seqno_loop_finds:
  assumes shape: "buf_shape nd" and "seqno s"
    and "\<forall>j \<le> i. seqno_leq (SEQNO_ADD s (of_nat j)) (win_tail nd)"
    and "complete (reorder_buffer nd ! slot_index nd (SEQNO_ADD s (of_nat i)))"
  shows "\<exists>k \<le> i. first_seqno_loop nd s = Some (SEQNO_ADD s (of_nat k))
     \<and> complete (reorder_buffer nd ! slot_index nd (SEQNO_ADD s (of_nat k)))"
  using assms(2-)
proof (induction i arbitrary: s)
  case 0
  have s0: "SEQNO_ADD s 0 = s" using 0(1) by (simp add: SEQNO_ADD_def m12_id)
  with 0 slot_index_less [OF shape, of s] show ?case
    by (subst first_seqno_loop.simps) (simp add: complete_def)
next
  case (Suc i)
  have s0: "SEQNO_ADD s 0 = s" using Suc.prems(1) by (simp add: SEQNO_ADD_def m12_id)
  have le: "seqno_leq s (win_tail nd)" using Suc.prems(2) s0 by force
  have step: "SEQNO_ADD (SEQNO_ADD s 1) (of_nat j) = SEQNO_ADD s (of_nat (Suc j))" for j
    by (simp add: m12_win [symmetric] m12_add [symmetric] Suc.prems(1) add.assoc)
  show ?case
  proof (cases "complete (reorder_buffer nd ! slot_index nd s)")
    case True
    with le slot_index_less [OF shape, of s] have "first_seqno_loop nd s = Some s"
      by (subst first_seqno_loop.simps) (simp add: complete_def)
    with True s0 show ?thesis by (intro exI [of _ 0]) simp
  next
    case False
    with le slot_index_less [OF shape, of s]
    have loop: "first_seqno_loop nd s = first_seqno_loop nd (SEQNO_ADD s 1)"
      by (subst first_seqno_loop.simps) (simp add: complete_def)
    have "\<forall>j \<le> i. seqno_leq (SEQNO_ADD (SEQNO_ADD s 1) (of_nat j)) (win_tail nd)"
      unfolding step using Suc.prems(2) by (simp del: of_nat_Suc)
    then have "\<exists>k \<le> i. first_seqno_loop nd (SEQNO_ADD s 1) = Some (SEQNO_ADD (SEQNO_ADD s 1) (of_nat k))
        \<and> complete (reorder_buffer nd ! slot_index nd (SEQNO_ADD (SEQNO_ADD s 1) (of_nat k)))"
      using Suc.prems(3) unfolding step [symmetric] by (intro Suc.IH) simp_all
    then show ?thesis
      unfolding loop step by (auto intro: exI [of _ "Suc _"] simp del: of_nat_Suc)
  qed
qed

lemma ba_reorder_timeout_wf:
  assumes wf: "ba_wf (rx_ba node)"
  shows "\<exists>e' node' d k. ba_reorder_timeout e node = Some (e', node', d, k) \<and> ba_wf (rx_ba node')"
proof -
  let ?nd = "(rx_ba node)\<lparr>win_start_init := 0\<rparr>"
  have wf0: "ba_wf ?nd" using wf by simp
  obtain pos where pos: "get_first_seqno_in_buff ?nd = Some pos" "seqno pos"
    using first_seqno_loop_total [OF ba_wf_shape [OF wf0] ba_wf_bounds(1) [OF wf0]]
    by (auto simp: get_first_seqno_in_buff_def)
  obtain e1 nd1 c e2 nd2 s where
    "send_msdu_with_gap e ?nd pos = Some (e1, nd1, c)"
    "send_msdu_in_order e1 (nd1\<lparr>win_start := pos\<rparr>) = Some (e2, nd2, s)"
    "ba_wf (nd2\<lparr>win_start := s, win_limit := SEQNO_ADD s (win_size nd2 - 1)\<rparr>)"
    using slide_spec [OF wf0 pos(2), of e] by metis
  with pos(1) wf show ?thesis
    by (auto simp: ba_reorder_timeout_def Let_def)
qed

lemma ba_reorder_timeout_progress:
  assumes wf: "ba_wf (rx_ba node)" and act: "active node" "\<not> reorder_timer_pending node"
    and i: "i < unat (win_size (rx_ba node))"
    and tail: "\<forall>j \<le> i. seqno_leq (SEQNO_ADD (win_start (rx_ba node)) (of_nat j)) (win_tail (rx_ba node))"
    and comp: "complete (reorder_buffer (rx_ba node) ! slot_index (rx_ba node)
                 (SEQNO_ADD (win_start (rx_ba node)) (of_nat i)))"
  shows "\<exists>e' node' d k. ba_reorder_timeout e node = Some (e', node', d, k)
    \<and> unat (buff_cnt (rx_ba node')) < unat (buff_cnt (rx_ba node))"
proof -
  let ?nd = "(rx_ba node)\<lparr>win_start_init := 0\<rparr>" and ?s = "win_start (rx_ba node)"
  let ?w = "unat (win_size ?nd)" let ?view = "window_from ?nd (win_start ?nd) ?w"
  have wf0: "ba_wf ?nd" using wf by simp
  note shape = ba_wf_shape [OF wf0] and b = ba_wf_bounds(1) [OF wf]
  have slots: "slot_index ?nd = slot_index (rx_ba node)" by (simp add: fun_eq_iff slot_index_def)
  obtain k where k: "k \<le> i" and first: "get_first_seqno_in_buff ?nd = Some (SEQNO_ADD ?s (of_nat k))"
    and ck: "complete (reorder_buffer ?nd ! slot_index ?nd (SEQNO_ADD ?s (of_nat k)))"
    using first_seqno_loop_finds [OF shape, of ?s i] b tail comp
    by (auto simp: get_first_seqno_in_buff_def slots)
  have kw: "unat (of_nat k :: u16) = k"
    using k i ba_wf_bounds(3) [OF wf] by (simp add: unat_of_nat take_bit_eq_mod)
  let ?n = "unat (SEQNO_SUB (SEQNO_ADD ?s (of_nat k)) (win_start ?nd))"
  have n: "?n = k"
    using seq.sub_add [OF b, of "of_nat k"] k i ba_wf_bounds(3) [OF wf] by (simp add: kw)
  have "?view ! k = reorder_buffer ?nd ! slot_index ?nd (SEQNO_ADD ?s (of_nat k))"
    using k i slot_index_m12 [OF shape, of "?s + of_nat k"] by (simp add: window_from_def m12_win [OF b])
  then have "takeWhile complete (drop ?n ?view) \<noteq> []"
    unfolding n using ck k i by (simp add: Cons_nth_drop_Suc [symmetric])
  then have "0 < length (filter occupied (take ?n ?view) @ takeWhile complete (drop ?n ?view))"
    by simp
  moreover obtain e1 nd1 c e2 nd2 s2 where
    g: "send_msdu_with_gap e ?nd (SEQNO_ADD ?s (of_nat k)) = Some (e1, nd1, c)"
    and o: "send_msdu_in_order e1 (nd1\<lparr>win_start := SEQNO_ADD ?s (of_nat k)\<rparr>) = Some (e2, nd2, s2)"
    and "unat (buff_cnt nd2) + length (filter occupied (take ?n ?view) @ takeWhile complete (drop ?n ?view))
       = unat (buff_cnt ?nd)"
    using slide_spec [OF wf0, of "SEQNO_ADD ?s (of_nat k)" e] by (metis seqno_SEQNO_ADD)
  ultimately have "unat (buff_cnt nd2) < unat (buff_cnt ?nd)" by linarith
  then have less: "unat (buff_cnt nd2) < unat (buff_cnt (rx_ba node))" by simp
  then have "buff_cnt (rx_ba node) \<noteq> 0" by auto
  with act first g o less show ?thesis by (auto simp: ba_reorder_timeout_def Let_def)
qed

section \<open>Within bounds\<close>

text \<open>
  For absence of faults and for conservation the shape of the buffer is enough: it is kept
  by every operation, whatever the sequence numbers are.
\<close>

lemma buf_shape_upd [simp]:
  "buf_shape (nd\<lparr>win_start := x\<rparr>) = buf_shape nd" "buf_shape (nd\<lparr>win_limit := x\<rparr>) = buf_shape nd"
  "buf_shape (nd\<lparr>win_tail := x\<rparr>) = buf_shape nd" "buf_shape (nd\<lparr>buff_cnt := x\<rparr>) = buf_shape nd"
  "buf_shape (nd\<lparr>win_start_init := x\<rparr>) = buf_shape nd" "buf_shape (nd\<lparr>nd_reset_pn := r\<rparr>) = buf_shape nd"
  by (simp_all add: buf_shape_def)

lemma send_reorder_skb_shape:
  assumes "buf_shape nd"
  obtains e' nd' where "send_reorder_skb e nd (slot_index nd s) = Some (e', nd')" "buf_shape nd'"
proof -
  have i: "slot_index nd s < length (reorder_buffer nd)" by (rule slot_index_less [OF assms])
  obtain e' nd' where r: "send_reorder_skb e nd (slot_index nd s) = Some (e', nd')"
    by (rule send_reorder_skb_deliver [OF i, of e])
  have "buf_shape nd'"
    using buf_shape_cong [of nd' nd] assms send_reorder_skb_frame(1,3) [OF r] by simp
  with r show thesis by (rule that)
qed

lemma send_in_order_loop_shape:
  "buf_shape nd \<Longrightarrow> \<exists>e' nd' s'. send_in_order_loop e nd s = Some (e', nd', s') \<and> buf_shape nd'"
proof (induction e nd s rule: send_in_order_loop.induct)
  case (1 e nd s)
  obtain e' nd' where r: "send_reorder_skb e nd (slot_index nd s) = Some (e', nd')" "buf_shape nd'"
    by (rule send_reorder_skb_shape [OF "1.prems"])
  have i: "slot_index nd s < length (reorder_buffer nd)" by (rule slot_index_less [OF "1.prems"])
  show ?case
    using "1.IH" [OF _ aget_Some [OF i] _ r(1) refl] "1.prems" r i
    by (subst send_in_order_loop.simps) auto
qed

lemma send_gap_loop_shape:
  "buf_shape nd \<Longrightarrow> \<exists>e' nd' c'. send_gap_loop n e nd s c = Some (e', nd', c') \<and> buf_shape nd'"
proof (induction n arbitrary: e nd s c)
  case (Suc n)
  obtain e' nd' where r: "send_reorder_skb e nd (slot_index nd s) = Some (e', nd')" "buf_shape nd'"
    by (rule send_reorder_skb_shape [OF Suc.prems])
  with Suc slot_index_less [OF Suc.prems, of s] show ?case by simp
qed simp

lemma send_msdu_in_order_shape:
  "buf_shape nd \<Longrightarrow> \<exists>e' nd' s. send_msdu_in_order e nd = Some (e', nd', s) \<and> buf_shape nd'"
  using send_in_order_loop_shape [of nd e "win_start nd"] by (auto simp: send_msdu_in_order_def)

lemma slide_shape:
  assumes "buf_shape nd"
  obtains e1 nd1 c e2 nd2 s where "send_msdu_with_gap e nd pos = Some (e1, nd1, c)"
    "send_msdu_in_order e1 (nd1\<lparr>win_start := pos\<rparr>) = Some (e2, nd2, s)" "buf_shape nd2"
proof -
  obtain e1 nd1 c where g: "send_msdu_with_gap e nd pos = Some (e1, nd1, c)" "buf_shape nd1"
    using send_gap_loop_shape [OF assms] unfolding send_msdu_with_gap_def by blast
  then show thesis
    using send_msdu_in_order_shape [of "nd1\<lparr>win_start := pos\<rparr>" e1] by (auto intro: that)
qed

lemma between_seqlo_seqhi_shape:
  "buf_shape nd \<Longrightarrow> \<exists>e' nd'. between_seqlo_seqhi e nd = Some (e', nd') \<and> buf_shape nd'"
  using send_msdu_in_order_shape [of nd e] by (auto simp: between_seqlo_seqhi_def)

lemma slide_for_shape:
  assumes "buf_shape nd"
  shows "\<exists>e' nd'. slide_for e nd s = Some (e', nd') \<and> buf_shape nd'"
proof -
  obtain e1 nd1 c e2 nd2 t where
    "send_msdu_with_gap e nd (SEQNO_SUB s (win_size nd - 1)) = Some (e1, nd1, c)"
    "send_msdu_in_order e1 (nd1\<lparr>win_start := SEQNO_SUB s (win_size nd - 1)\<rparr>) = Some (e2, nd2, t)"
    "buf_shape nd2"
    by (rule slide_shape [OF assms])
  with assms show ?thesis by (simp add: slide_for_def greater_than_seqhi_def Let_def)
qed

lemma insert_msdu_shape: "insert_msdu md skb nd = Some (ret, nd') \<Longrightarrow> buf_shape nd \<Longrightarrow> buf_shape nd'"
  by (erule insert_msdu_cases) (simp_all add: buf_shape_def)

lemma reorder_msdu_shape:
  assumes "buf_shape nd"
  shows "\<exists>ret e' nd'. reorder_msdu e md (Some k) nd = Some (ret, e', nd') \<and> buf_shape nd'"
proof -
  obtain e1 nd1 where sl: "slide_for e (nd\<lparr>win_start_init := 0\<rparr>) (seq_num md) = Some (e1, nd1)" "buf_shape nd1"
    using slide_for_shape [of "nd\<lparr>win_start_init := 0\<rparr>" e "seq_num md"] assms by auto
  obtain ret nd2 where "insert_msdu md (Some k) nd1 = Some (ret, nd2)"
    using insert_msdu_total [OF sl(2)] by blast
  with sl assms show ?thesis
    by (auto simp: reorder_msdu_def Let_def slide_for_def reorder_set_skb_list_def skb_chain_def
        dest: insert_msdu_shape)
qed

lemma send_order_msdu_shape:
  assumes shape: "buf_shape nd"
  shows "\<exists>e' nd'. send_order_msdu e md (Some k) nd = Some (e', nd') \<and> buf_shape nd'"
proof -
  let ?s = "SEQNO_ADD (win_start nd) 1"
  let ?nd3 = "nd\<lparr>win_start := ?s, win_limit := SEQNO_ADD (win_limit nd) 1, win_tail := SEQNO_SUB ?s 1\<rparr>"
  obtain ok nd4 where r: "replay_detection (set_ba_pkt_desc zero_pkt_desc md) ?nd3 = (ok, nd4)"
    by fastforce
  have "buf_shape nd4"
    using buf_shape_cong [of nd4 nd] shape replay_detection_frame(1,3) [OF r] by simp
  with r show ?thesis by (auto simp: send_order_msdu_def Let_def reorder_set_skb_list_def)
qed

lemma reorder_msdu_process_shape:
  assumes shape: "buf_shape (rx_ba node)"
  shows "\<exists>e' node'. reorder_msdu_process e md (Some k) node = Some (e', node') \<and> buf_shape (rx_ba node')"
proof -
  obtain ret e1 nd1 where r: "reorder_msdu e md (Some k) (rx_ba node) = Some (ret, e1, nd1)" "buf_shape nd1"
    using reorder_msdu_shape [OF shape] by blast
  obtain e2 nd2 where "between_seqlo_seqhi e1 nd1 = Some (e2, nd2)" "buf_shape nd2"
    using between_seqlo_seqhi_shape [OF r(2)] by blast
  moreover have "\<exists>e' nd'. send_order_msdu e md (Some k) ((rx_ba node)\<lparr>win_start_init := 0\<rparr>) = Some (e', nd')
      \<and> buf_shape nd'"
    using shape by (simp add: send_order_msdu_shape)
  ultimately show ?thesis
    using r shape
    by (auto simp: reorder_msdu_process_def Let_def skb_chain_def reorder_set_skb_list_def)
qed

end
