(* ===== verification/Reorder_Entry.thy ===== *)
theory Reorder_Entry
  imports Reorder_Session
begin

text \<open>
  The table of block-ack sessions, \<open>struct sprdwl_rx_ba_entry\<close> of \<open>WIFI/reorder.h\<close>, and
  the entry points of \<open>WIFI/reorder.c\<close>: looking a session up, creating and deleting it,
  the receive path, the events of the firmware.

  Session nodes live in an explicit heap, from addresses to nodes, because the table
  reaches a node in two ways: through the hash list of its TID and through the cache
  \<open>current_ba_node\<close>. A step that follows a pointer to a freed node has no result. Memory
  that \<open>kzalloc\<close> returns is an argument of the operation that allocates: a fresh address
  or nothing.
\<close>

section \<open>State\<close>

definition NUM_TIDS :: nat where "NUM_TIDS = 8"

record sprdwl_rx_ba_entry =
  ba_heap :: "nat \<rightharpoonup> rx_ba_node"
  hlist :: "nat list list"
  current_ba_node :: "nat option"
  ba_io :: skb_io

text \<open>The fields of \<open>struct sprdwl_peer_entry\<close> that this file uses.\<close>

record sprdwl_peer_entry =
  peer_da :: "u8 list"
  peer_lut_index :: u8
  peer_ctx_id :: u8
  ba_tx_done_map :: u64

text \<open>The commands handed to \<open>sprdwl_rx_send_cmd\<close>: block-ack management and DELBA.\<close>

record sprdwl_cmd_ba =
  cmd_type :: u8
  cmd_tid :: u8
  cmd_da :: "u8 list"
  cmd_success :: u8

datatype rx_cmd =
  BaMgmt sprdwl_cmd_ba (mgmt_lut: u8) (mgmt_ctx: u8)
| BaMgmtDelba sprdwl_cmd_ba (delba_ctx: u8)

text \<open>
  A block-ack event. The union of \<open>win_param\<close> and \<open>msdu_param\<close> is read through its first
  half-word, which is \<open>win_start\<close> or \<open>seq_num\<close>.
\<close>

record sprdwl_event_ba =
  ev_type :: u8
  ev_tid :: u8
  ev_sta_lut_index :: u8
  ev_win_start :: u16
  ev_win_size :: u16

definition ev_seq_num :: "sprdwl_event_ba \<Rightarrow> u16" where
  "ev_seq_num ev = ev_win_start ev"

section \<open>Looking a session up\<close>

definition is_same_ba :: "rx_ba_node \<Rightarrow> u8 \<Rightarrow> u8 \<Rightarrow> bool" where
  "is_same_ba node lut t \<longleftrightarrow> node_sta_lut_index node = lut \<and> node_tid node = t"

text \<open>The test on \<open>current_ba_node\<close>, a pointer that may be NULL.\<close>

definition cached_is_same_ba :: "sprdwl_rx_ba_entry \<Rightarrow> u8 \<Rightarrow> u8 \<Rightarrow> bool option" where
  "cached_is_same_ba be lut t =
     (case current_ba_node be of
        None \<Rightarrow> Some False
      | Some a \<Rightarrow> do { node \<leftarrow> ba_heap be a; Some (is_same_ba node lut t) })"

fun hlist_find :: "(nat \<rightharpoonup> rx_ba_node) \<Rightarrow> nat list \<Rightarrow> u8 \<Rightarrow> nat option option" where
  "hlist_find hp [] lut = Some None"
| "hlist_find hp (a # as) lut =
     do { node \<leftarrow> hp a;
          if lut = node_sta_lut_index node then Some (Some a) else hlist_find hp as lut }"

definition find_ba_node ::
  "sprdwl_rx_ba_entry \<Rightarrow> u8 \<Rightarrow> u8 \<Rightarrow> (nat option \<times> sprdwl_rx_ba_entry) option" where
  "find_ba_node be lut t =
     (if unat t < NUM_TIDS then
        do { hit \<leftarrow> cached_is_same_ba be lut t;
             if hit then Some (current_ba_node be, be)
             else do { head \<leftarrow> aget (hlist be) (unat t);
                       found \<leftarrow> hlist_find (ba_heap be) head lut;
                       case found of
                         None \<Rightarrow> Some (None, be)
                       | Some a \<Rightarrow> Some (Some a, be\<lparr>current_ba_node := Some a\<rparr>) } }
      else Some (None, be))"

text \<open>Store a node back, and unlink and free one.\<close>

definition put_ba_node :: "nat \<Rightarrow> rx_ba_node \<Rightarrow> sprdwl_rx_ba_entry \<Rightarrow> sprdwl_rx_ba_entry" where
  "put_ba_node a node be = be\<lparr>ba_heap := (ba_heap be)(a \<mapsto> node)\<rparr>"

definition free_ba_node :: "nat \<Rightarrow> sprdwl_rx_ba_entry \<Rightarrow> sprdwl_rx_ba_entry" where
  "free_ba_node a be =
     be\<lparr>hlist := map (removeAll a) (hlist be), ba_heap := (ba_heap be)(a := None)\<rparr>"

section \<open>Creating a session\<close>

text \<open>What \<open>kzalloc(rx_ba_size)\<close> returns: a node description with \<open>n\<close> empty slots.\<close>

definition kzalloc_rx_ba :: "nat \<Rightarrow> rx_ba_node_desc" where
  "kzalloc_rx_ba n =
     \<lparr>win_start_init = 0, win_start = 0, win_limit = 0, win_tail = 0, win_size = 0, buff_cnt = 0,
      nd_pn_h = 0, nd_pn_l = 0, nd_reset_pn = False, index_mask = 0,
      reorder_buffer = replicate n zero_pkt\<rparr>"

definition init_ba_node :: "u8 \<Rightarrow> u8 \<Rightarrow> rx_ba_node_desc \<Rightarrow> rx_ba_node" where
  "init_ba_node lut t nd =
     \<lparr>node_sta_lut_index = lut, node_tid = t, active = False, timeout_cnt = 0, rx_ba = nd,
      reorder_timer_pending = False\<rparr>"

text \<open>
  \<open>create_ba_node\<close>; \<open>mem\<close> is the address of the first allocation and \<open>mem2\<close> tells whether
  the second one succeeds. The list head is indexed by the TID without a check.
\<close>

definition create_ba_node ::
  "nat option \<Rightarrow> bool \<Rightarrow> sprdwl_rx_ba_entry \<Rightarrow> u8 \<Rightarrow> u8 \<Rightarrow> u32
   \<Rightarrow> (nat option \<times> sprdwl_rx_ba_entry) option" where
  "create_ba_node mem mem2 be lut t sz =
     (case mem of
        None \<Rightarrow> Some (None, be)
      | Some a \<Rightarrow>
          if mem2 then
            (let node = init_ba_node lut t (kzalloc_rx_ba (unat sz))
             in do { head \<leftarrow> aget (hlist be) (unat t);
                     Some (Some a,
                       be\<lparr>ba_heap := (ba_heap be)(a \<mapsto> node),
                          hlist := (hlist be)[unat t := a # head],
                          current_ba_node := Some a\<rparr>) })
          else Some (None, be))"

section \<open>The receive path\<close>

definition queue_skb :: "sprdwl_rx_ba_entry \<Rightarrow> sk_buff \<Rightarrow> sprdwl_rx_ba_entry option" where
  "queue_skb be skb =
     do { e' \<leftarrow> reorder_set_skb_list (ba_io be) [skb]; Some (be\<lparr>ba_io := e'\<rparr>) }"

text \<open>\<open>reorder_msdu_process\<close> on the node at an address.\<close>

definition process_at ::
  "sprdwl_rx_ba_entry \<Rightarrow> rx_msdu_desc \<Rightarrow> sk_buff option \<Rightarrow> nat \<Rightarrow> sprdwl_rx_ba_entry option" where
  "process_at be md skb a =
     do { node \<leftarrow> ba_heap be a;
          (e', node') \<leftarrow> reorder_msdu_process (ba_io be) md skb node;
          Some (put_ba_node a node' (be\<lparr>ba_io := e'\<rparr>)) }"

definition reorder_data_process ::
  "sprdwl_rx_ba_entry \<Rightarrow> sk_buff option \<Rightarrow> sprdwl_rx_ba_entry option" where
  "reorder_data_process be pskb =
     (case pskb of
        None \<Rightarrow> Some be
      | Some skb \<Rightarrow>
          (let md = skb_desc skb in
           if \<not> bc_mc_flag md \<and> qos_flag md then
             do { (ba, be1) \<leftarrow> find_ba_node be (sta_lut_index md) (tid md);
                  case ba of
                    Some a \<Rightarrow> process_at be1 md (Some skb) a
                  | None \<Rightarrow> queue_skb be1 skb }
           else queue_skb be skb))"

section \<open>Events\<close>

text \<open>
  \<open>wlan_filter_event\<close> fills in part of a descriptor on its stack; the rest of it, \<open>stk\<close>,
  is whatever the stack held.
\<close>

definition wlan_filter_event ::
  "rx_msdu_desc \<Rightarrow> sprdwl_rx_ba_entry \<Rightarrow> sprdwl_event_ba \<Rightarrow> sprdwl_rx_ba_entry option" where
  "wlan_filter_event stk be ev =
     do { (ba, be1) \<leftarrow> find_ba_node be (ev_sta_lut_index ev) (ev_tid ev);
          case ba of
            None \<Rightarrow> Some be1
          | Some a \<Rightarrow>
              process_at be1
                (stk\<lparr>last_msdu_of_mpdu := True, seq_num := ev_seq_num ev, pn_l := 0, pn_h := 0,
                     cipher_type := 0, tid := ev_tid ev, sta_lut_index := ev_sta_lut_index ev\<rparr>)
                None a }"

text \<open>
  The body under the lock: an active session delivers what is in order, the rest of its
  buffer is freed. The description it leaves is freed with the node.
\<close>

definition delba_drain :: "skb_io \<Rightarrow> rx_ba_node \<Rightarrow> skb_io option" where
  "delba_drain e node =
     (if active node then
        do { (e1, nd1) \<leftarrow> between_seqlo_seqhi e (rx_ba node);
             (e2, nd2) \<leftarrow> flush_reorder_buffer e1 nd1;
             Some e2 }
      else Some e)"

definition wlan_delba_event ::
  "sprdwl_rx_ba_entry \<Rightarrow> sprdwl_event_ba \<Rightarrow> sprdwl_rx_ba_entry option" where
  "wlan_delba_event be ev =
     do { (ba, be1) \<leftarrow> find_ba_node be (ev_sta_lut_index ev) (ev_tid ev);
          case ba of
            None \<Rightarrow> Some be1
          | Some a \<Rightarrow>
              do { node \<leftarrow> ba_heap be1 a;
                   e' \<leftarrow> delba_drain (ba_io be1) node;
                   Some ((free_ba_node a (be1\<lparr>ba_io := e'\<rparr>))\<lparr>current_ba_node := None\<rparr>) } }"

definition sprdwl_find_peer_entry_using_lut_index ::
  "sprdwl_peer_entry list \<Rightarrow> u8 \<Rightarrow> sprdwl_peer_entry option" where
  "sprdwl_find_peer_entry_using_lut_index peers lut =
     find (\<lambda>p. lut = peer_lut_index p) (take MAX_LUT_NUM peers)"

definition SPRDWL_ADDBA_RSP_CMD :: u8 where "SPRDWL_ADDBA_RSP_CMD = 1"
definition SPRDWL_DELBA_CMD :: u8 where "SPRDWL_DELBA_CMD = 2"

definition send_addba_rsp :: "sprdwl_peer_entry list \<Rightarrow> u8 \<Rightarrow> u8 \<Rightarrow> int \<Rightarrow> rx_cmd list" where
  "send_addba_rsp peers t lut status =
     (case sprdwl_find_peer_entry_using_lut_index peers lut of
        None \<Rightarrow> []
      | Some p \<Rightarrow>
          [BaMgmt \<lparr>cmd_type = SPRDWL_ADDBA_RSP_CMD, cmd_tid = t, cmd_da = peer_da p,
                   cmd_success = (if status \<noteq> 0 then 0 else 1)\<rparr> lut (peer_ctx_id p)])"

definition send_delba :: "sprdwl_peer_entry list \<Rightarrow> u8 \<Rightarrow> u8 \<Rightarrow> rx_cmd list" where
  "send_delba peers t lut =
     (case sprdwl_find_peer_entry_using_lut_index peers lut of
        None \<Rightarrow> []
      | Some p \<Rightarrow>
          [BaMgmtDelba \<lparr>cmd_type = SPRDWL_DELBA_CMD, cmd_tid = t, cmd_da = peer_da p,
                        cmd_success = 1\<rparr> (peer_ctx_id p)])"

definition wlan_addba_event ::
  "nat option \<Rightarrow> bool \<Rightarrow> sprdwl_rx_ba_entry \<Rightarrow> sprdwl_event_ba
   \<Rightarrow> (int \<times> sprdwl_rx_ba_entry) option" where
  "wlan_addba_event mem mem2 be ev =
     do { index_size \<leftarrow> get_index_size (2 * ucast (ev_win_size ev));
          (ba, be1) \<leftarrow> find_ba_node be (ev_sta_lut_index ev) (ev_tid ev);
          (ba', be2) \<leftarrow>
            (case ba of
               Some a \<Rightarrow> Some (Some a, be1)
             | None \<Rightarrow> create_ba_node mem mem2 be1 (ev_sta_lut_index ev) (ev_tid ev) index_size);
          case ba' of
            None \<Rightarrow> Some (- ENOMEM, be2)
          | Some a \<Rightarrow>
              do { node \<leftarrow> ba_heap be2 a;
                   (let node1 = node\<lparr>active := False\<rparr>
                    in if \<not> active node1 then
                         Some (0, put_ba_node a
                           (node1\<lparr>rx_ba := set_ba_node_desc (rx_ba node1) (ev_win_start ev)
                                     (ev_win_size ev) (INDEX_SIZE_MASK index_size)\<rparr>) be2)
                       else Some (- EINVAL, put_ba_node a node1 be2)) } }"

definition SPRDWL_ADDBA_REQ_EVENT :: u8 where "SPRDWL_ADDBA_REQ_EVENT = 0"
definition SPRDWL_DELBA_EVENT :: u8 where "SPRDWL_DELBA_EVENT = 2"
definition SPRDWL_BAR_EVENT :: u8 where "SPRDWL_BAR_EVENT = 3"
definition SPRDWL_FILTER_EVENT :: u8 where "SPRDWL_FILTER_EVENT = 4"
definition SPRDWL_DELTXBA_EVENT :: u8 where "SPRDWL_DELTXBA_EVENT = 6"

text \<open>
  \<open>test_and_clear_bit\<close> on the 64-bit map of one peer. A TID of 64 or more would touch the
  words behind the map, a station index of 32 or more the memory behind the table.
\<close>

definition clear_ba_tx_done ::
  "sprdwl_peer_entry list \<Rightarrow> u8 \<Rightarrow> u8 \<Rightarrow> sprdwl_peer_entry list option" where
  "clear_ba_tx_done peers lut t =
     do { p \<leftarrow> aget peers (unat lut);
          if unat t < 64 then
            Some (peers[unat lut := p\<lparr>ba_tx_done_map := unset_bit (unat t) (ba_tx_done_map p)\<rparr>])
          else None }"

definition wlan_ba_session_event ::
  "nat option \<Rightarrow> bool \<Rightarrow> rx_msdu_desc \<Rightarrow> sprdwl_peer_entry list \<Rightarrow> sprdwl_rx_ba_entry
   \<Rightarrow> sprdwl_event_ba
   \<Rightarrow> (sprdwl_rx_ba_entry \<times> sprdwl_peer_entry list \<times> rx_cmd list) option" where
  "wlan_ba_session_event mem mem2 stk peers be ev =
     (if ev_type ev = SPRDWL_ADDBA_REQ_EVENT then
        do { (ret, be') \<leftarrow> wlan_addba_event mem mem2 be ev;
             Some (be', peers, send_addba_rsp peers (ev_tid ev) (ev_sta_lut_index ev) ret) }
      else if ev_type ev = SPRDWL_DELBA_EVENT then
        do { be' \<leftarrow> wlan_delba_event be ev; Some (be', peers, []) }
      else if ev_type ev = SPRDWL_BAR_EVENT then Some (be, peers, [])
      else if ev_type ev = SPRDWL_FILTER_EVENT then
        do { be' \<leftarrow> wlan_filter_event stk be ev; Some (be', peers, []) }
      else if ev_type ev = SPRDWL_DELTXBA_EVENT then
        do { peers' \<leftarrow> clear_ba_tx_done peers (ev_sta_lut_index ev) (ev_tid ev);
             Some (be, peers', []) }
      else Some (be, peers, []))"

section \<open>Other entry points\<close>

text \<open>The timer of the node at an address; the flag tells whether \<open>rx_up\<close> is called.\<close>

definition ba_reorder_timeout_at ::
  "sprdwl_peer_entry list \<Rightarrow> sprdwl_rx_ba_entry \<Rightarrow> nat
   \<Rightarrow> (sprdwl_rx_ba_entry \<times> rx_cmd list \<times> bool) option" where
  "ba_reorder_timeout_at peers be a =
     do { node \<leftarrow> ba_heap be a;
          (e', node', delba, kick) \<leftarrow> ba_reorder_timeout (ba_io be) node;
          Some (put_ba_node a node' (be\<lparr>ba_io := e'\<rparr>),
                if delba then send_delba peers (node_tid node) (node_sta_lut_index node) else [],
                kick) }"

fun reset_pn_loop :: "nat \<Rightarrow> u8 \<Rightarrow> sprdwl_rx_ba_entry \<Rightarrow> u8 \<Rightarrow> sprdwl_rx_ba_entry option" where
  "reset_pn_loop 0 t be lut = Some be"
| "reset_pn_loop (Suc n) t be lut =
     do { (ba, be1) \<leftarrow> find_ba_node be lut t;
          be2 \<leftarrow> (case ba of
                   None \<Rightarrow> Some be1
                 | Some a \<Rightarrow>
                     do { node \<leftarrow> ba_heap be1 a;
                          Some (put_ba_node a
                            (node\<lparr>rx_ba := (rx_ba node)\<lparr>nd_reset_pn := True\<rparr>\<rparr>) be1) });
          reset_pn_loop n (t + 1) be2 lut }"

definition reset_pn ::
  "sprdwl_peer_entry list \<Rightarrow> sprdwl_rx_ba_entry \<Rightarrow> u8 list option \<Rightarrow> sprdwl_rx_ba_entry option" where
  "reset_pn peers be mac_addr =
     (case mac_addr of
        None \<Rightarrow> Some be
      | Some mac \<Rightarrow>
          (let lut_id = (case find (\<lambda>p. peer_da p = mac) (take MAX_LUT_NUM peers) of
                           None \<Rightarrow> 0xff | Some p \<Rightarrow> peer_lut_index p)
           in if lut_id = 0xff then Some be else reset_pn_loop NUM_TIDS 0 be lut_id))"

definition sprdwl_reorder_init :: "sprdwl_rx_ba_entry \<Rightarrow> sprdwl_rx_ba_entry" where
  "sprdwl_reorder_init be = be\<lparr>hlist := replicate NUM_TIDS []\<rparr>"

fun deinit_nodes :: "nat list \<Rightarrow> sprdwl_rx_ba_entry \<Rightarrow> sprdwl_rx_ba_entry option" where
  "deinit_nodes [] be = Some be"
| "deinit_nodes (a # as) be =
     do { node \<leftarrow> ba_heap be a;
          (e', nd') \<leftarrow> flush_reorder_buffer (ba_io be) (rx_ba node);
          deinit_nodes as (free_ba_node a (be\<lparr>ba_io := e'\<rparr>)) }"

fun deinit_lists :: "nat \<Rightarrow> nat \<Rightarrow> sprdwl_rx_ba_entry \<Rightarrow> sprdwl_rx_ba_entry option" where
  "deinit_lists 0 i be = Some be"
| "deinit_lists (Suc n) i be =
     do { head \<leftarrow> aget (hlist be) i;
          be' \<leftarrow> deinit_nodes head be;
          deinit_lists n (Suc i) be' }"

definition sprdwl_reorder_deinit :: "sprdwl_rx_ba_entry \<Rightarrow> sprdwl_rx_ba_entry option" where
  "sprdwl_reorder_deinit be = deinit_lists NUM_TIDS 0 be"

text \<open>One round of the loop of \<open>peer_entry_delba\<close>: an active session is flushed.\<close>

definition peer_delba_drain :: "skb_io \<Rightarrow> rx_ba_node \<Rightarrow> skb_io option" where
  "peer_delba_drain e node =
     (if active node then
        do { (e1, nd1) \<leftarrow> flush_reorder_buffer e (rx_ba node); Some e1 }
      else Some e)"

definition peer_delba_tid :: "sprdwl_rx_ba_entry \<Rightarrow> u8 \<Rightarrow> u8 \<Rightarrow> sprdwl_rx_ba_entry option" where
  "peer_delba_tid be lut t =
     do { (ba, be1) \<leftarrow> find_ba_node be lut t;
          case ba of
            None \<Rightarrow> Some be1
          | Some a \<Rightarrow>
              do { node \<leftarrow> ba_heap be1 a;
                   e' \<leftarrow> peer_delba_drain (ba_io be1) node;
                   Some ((free_ba_node a (be1\<lparr>ba_io := e'\<rparr>))\<lparr>current_ba_node := None\<rparr>) } }"

fun peer_delba_loop :: "nat \<Rightarrow> u8 \<Rightarrow> sprdwl_rx_ba_entry \<Rightarrow> u8 \<Rightarrow> sprdwl_rx_ba_entry option" where
  "peer_delba_loop 0 t be lut = Some be"
| "peer_delba_loop (Suc n) t be lut =
     do { be' \<leftarrow> peer_delba_tid be lut t; peer_delba_loop n (t + 1) be' lut }"

definition peer_entry_delba :: "sprdwl_rx_ba_entry \<Rightarrow> u8 \<Rightarrow> sprdwl_rx_ba_entry option" where
  "peer_entry_delba be lut = peer_delba_loop NUM_TIDS 0 be lut"

definition sprdwl_active_ba_node ::
  "sprdwl_rx_ba_entry \<Rightarrow> u8 \<Rightarrow> u8 \<Rightarrow> sprdwl_rx_ba_entry option" where
  "sprdwl_active_ba_node be lut t =
     do { (ba, be1) \<leftarrow> find_ba_node be lut t;
          case ba of
            None \<Rightarrow> Some be1
          | Some a \<Rightarrow> do { node \<leftarrow> ba_heap be1 a;
                            Some (put_ba_node a (node\<lparr>active := True\<rparr>) be1) } }"

end
