(* ===== verification/Reorder_Table.thy ===== *)
theory Reorder_Table
  imports Reorder_Entry
begin

text \<open>
  The session table is sound: lists, heap and cache agree, a lookup finds the session of a
  station and TID exactly when there is one, no pointer dangles, and the entry points keep
  every buffer in exactly one place.
\<close>

section \<open>The table invariant\<close>

definition entry_wf :: "sprdwl_rx_ba_entry \<Rightarrow> bool" where
  "entry_wf be \<longleftrightarrow> length (hlist be) = NUM_TIDS
     \<and> (\<forall>t < NUM_TIDS. distinct (hlist be ! t)
          \<and> set (hlist be ! t) = {a. \<exists>n. ba_heap be a = Some n \<and> unat (node_tid n) = t})
     \<and> (\<forall>a n. ba_heap be a = Some n \<longrightarrow> unat (node_tid n) < NUM_TIDS)
     \<and> (\<forall>a b n m. ba_heap be a = Some n \<and> ba_heap be b = Some m
          \<and> is_same_ba n (node_sta_lut_index m) (node_tid m) \<longrightarrow> a = b)
     \<and> (\<forall>a. current_ba_node be = Some a \<longrightarrow> a \<in> dom (ba_heap be))"

definition entry_shape :: "sprdwl_rx_ba_entry \<Rightarrow> bool" where
  "entry_shape be \<longleftrightarrow> (\<forall>a n. ba_heap be a = Some n \<longrightarrow> buf_shape (rx_ba n))"

lemma entry_wfI:
  assumes "length (hlist be) = NUM_TIDS"
    and "\<And>t. t < NUM_TIDS \<Longrightarrow> distinct (hlist be ! t)"
    and "\<And>t a. t < NUM_TIDS \<Longrightarrow> a \<in> set (hlist be ! t)
          \<longleftrightarrow> (\<exists>n. ba_heap be a = Some n \<and> unat (node_tid n) = t)"
    and "\<And>a n. ba_heap be a = Some n \<Longrightarrow> unat (node_tid n) < NUM_TIDS"
    and "\<And>a b n m. ba_heap be a = Some n \<Longrightarrow> ba_heap be b = Some m
          \<Longrightarrow> is_same_ba n (node_sta_lut_index m) (node_tid m) \<Longrightarrow> a = b"
    and "\<And>a. current_ba_node be = Some a \<Longrightarrow> a \<in> dom (ba_heap be)"
  shows "entry_wf be"
  unfolding entry_wf_def using assms by (auto 0 4)

lemma entry_wfD:
  assumes "entry_wf be"
  shows "length (hlist be) = NUM_TIDS"
    and "t < NUM_TIDS \<Longrightarrow> distinct (hlist be ! t)"
    and "t < NUM_TIDS \<Longrightarrow> a \<in> set (hlist be ! t)
          \<longleftrightarrow> (\<exists>n. ba_heap be a = Some n \<and> unat (node_tid n) = t)"
    and "ba_heap be a = Some n \<Longrightarrow> unat (node_tid n) < NUM_TIDS"
    and "ba_heap be a = Some n \<Longrightarrow> ba_heap be b = Some m
          \<Longrightarrow> is_same_ba n (node_sta_lut_index m) (node_tid m) \<Longrightarrow> a = b"
    and "current_ba_node be = Some a \<Longrightarrow> a \<in> dom (ba_heap be)"
  using assms unfolding entry_wf_def by (blast | simp)+

lemma entry_wf_io [simp]: "entry_wf (be\<lparr>ba_io := e\<rparr>) = entry_wf be"
  by (simp add: entry_wf_def)

lemma entry_shape_io [simp]:
  "entry_shape (be\<lparr>ba_io := e\<rparr>) = entry_shape be"
  "entry_shape (be\<lparr>current_ba_node := c\<rparr>) = entry_shape be"
  by (simp_all add: entry_shape_def)

lemma entry_wf_current:
  "entry_wf be \<Longrightarrow> (\<And>a. c = Some a \<Longrightarrow> a \<in> dom (ba_heap be)) \<Longrightarrow> entry_wf (be\<lparr>current_ba_node := c\<rparr>)"
  by (simp add: entry_wf_def)

lemma finite_ba_heap:
  assumes "entry_wf be" shows "finite (dom (ba_heap be))"
proof -
  have "dom (ba_heap be) \<subseteq> (\<Union>t < NUM_TIDS. set (hlist be ! t))"
    using entry_wfD(3,4) [OF assms] by (auto 0 4)
  then show ?thesis by (rule finite_subset) simp
qed

section \<open>Lookup\<close>

lemma hlist_find_total:
  assumes "set as \<subseteq> dom hp"
  shows "hlist_find hp as lut = Some (find (\<lambda>a. lut = node_sta_lut_index (the (hp a))) as)"
  using assms by (induction as) auto

lemma hlist_find_spec:
  assumes wf: "entry_wf be" and t: "unat t < NUM_TIDS"
  obtains r where "hlist_find (ba_heap be) (hlist be ! unat t) lut = Some r"
    and "\<And>a. r = Some a \<longleftrightarrow> (\<exists>n. ba_heap be a = Some n \<and> is_same_ba n lut t)"
proof -
  let ?r = "find (\<lambda>a. lut = node_sta_lut_index (the (ba_heap be a))) (hlist be ! unat t)"
  note mem = entry_wfD(3) [OF wf t]
  have hit: "\<exists>n. ba_heap be a = Some n \<and> is_same_ba n lut t" if "?r = Some a" for a
  proof -
    from that have "a \<in> set (hlist be ! unat t)" "lut = node_sta_lut_index (the (ba_heap be a))"
      by (auto simp: find_Some_iff in_set_conv_nth)
    with mem show ?thesis by (auto simp: is_same_ba_def word_unat_eq_iff)
  qed
  have all: "?r = Some a" if n: "ba_heap be a = Some n" "is_same_ba n lut t" for a n
  proof -
    have "a \<in> set (hlist be ! unat t)" using mem n by (auto simp: is_same_ba_def)
    with n have "?r \<noteq> None" by (auto simp: find_None_iff is_same_ba_def)
    then obtain b m where "?r = Some b" "ba_heap be b = Some m" "is_same_ba m lut t"
      using hit by blast
    then show ?thesis using entry_wfD(5) [OF wf, of a n b m] n by (auto simp: is_same_ba_def)
  qed
  show thesis
  proof (rule that)
    show "hlist_find (ba_heap be) (hlist be ! unat t) lut = Some ?r"
      using mem by (intro hlist_find_total) auto
  qed (use hit all in blast)
qed

text \<open>\<open>has_session be lut t a\<close>: the session of a station and TID is the node at \<open>a\<close>.\<close>

definition has_session :: "sprdwl_rx_ba_entry \<Rightarrow> u8 \<Rightarrow> u8 \<Rightarrow> nat \<Rightarrow> bool" where
  "has_session be lut t a \<longleftrightarrow> (\<exists>n. ba_heap be a = Some n \<and> is_same_ba n lut t)"

lemma cached_is_same_ba_total:
  assumes "entry_wf be"
  shows "\<exists>hit. cached_is_same_ba be lut t = Some hit
     \<and> (hit \<longrightarrow> (\<exists>a. current_ba_node be = Some a \<and> has_session be lut t a))"
  using entry_wfD(6) [OF assms]
  by (cases "current_ba_node be") (auto simp: cached_is_same_ba_def has_session_def)

lemma has_session_unique:
  "entry_wf be \<Longrightarrow> has_session be lut t a \<Longrightarrow> has_session be lut t b \<Longrightarrow> a = b"
  using entry_wfD(5) [of be a _ b] by (auto simp: has_session_def is_same_ba_def)

lemma find_ba_node_spec:
  assumes wf: "entry_wf be"
  obtains r c where "find_ba_node be lut t = Some (r, be\<lparr>current_ba_node := c\<rparr>)"
    and "entry_wf (be\<lparr>current_ba_node := c\<rparr>)" and "\<And>a. r = Some a \<longleftrightarrow> has_session be lut t a"
proof (cases "unat t < NUM_TIDS")
  case False
  then have "\<not> has_session be lut t a" for a
    using entry_wfD(4) [OF wf] by (auto simp: has_session_def is_same_ba_def)
  with False wf show thesis
    by (intro that [of None "current_ba_node be"]) (simp_all add: find_ba_node_def)
next
  case True
  obtain hit where c: "cached_is_same_ba be lut t = Some hit"
    "hit \<Longrightarrow> \<exists>a. current_ba_node be = Some a \<and> has_session be lut t a"
    using cached_is_same_ba_total [OF wf, of lut t] by blast
  obtain r where r: "hlist_find (ba_heap be) (hlist be ! unat t) lut = Some r"
    "\<And>a. r = Some a \<longleftrightarrow> has_session be lut t a"
    using hlist_find_spec [OF wf True, of lut] by (auto simp: has_session_def)
  show thesis
  proof (cases hit)
    case hit: True
    then obtain a where a: "current_ba_node be = Some a" "has_session be lut t a" using c by blast
    have be: "be\<lparr>current_ba_node := Some a\<rparr> = be" using a(1) by (cases be) simp
    show thesis
    proof (rule that)
      show "find_ba_node be lut t = Some (Some a, be\<lparr>current_ba_node := Some a\<rparr>)"
        unfolding be using True c(1) hit a(1) by (simp add: find_ba_node_def)
      show "entry_wf (be\<lparr>current_ba_node := Some a\<rparr>)" unfolding be by (rule wf)
      show "Some a = Some b \<longleftrightarrow> has_session be lut t b" for b
        using a(2) has_session_unique [OF wf a(2), of b] by (metis option.inject)
    qed
  next
    case False
    let ?c = "case r of None \<Rightarrow> current_ba_node be | Some a \<Rightarrow> Some a"
    show thesis
    proof (rule that [OF _ _ r(2)])
      show "find_ba_node be lut t = Some (r, be\<lparr>current_ba_node := ?c\<rparr>)"
        using True False c(1) r(1) entry_wfD(1) [OF wf]
        by (simp add: find_ba_node_def split: option.split)
      show "entry_wf (be\<lparr>current_ba_node := ?c\<rparr>)"
        using wf r(2) entry_wfD(6) [OF wf]
        by (intro entry_wf_current) (auto simp: has_session_def split: option.splits)
    qed
  qed
qed

lemma find_ba_node_ok:
  assumes "entry_wf be"
  shows "\<exists>r c. find_ba_node be lut t = Some (r, be\<lparr>current_ba_node := c\<rparr>)
    \<and> entry_wf (be\<lparr>current_ba_node := c\<rparr>) \<and> (\<forall>a. r = Some a \<longleftrightarrow> has_session be lut t a)"
  by (rule find_ba_node_spec [OF assms, of lut t]) blast

section \<open>Updates of the table\<close>

definition same_key :: "rx_ba_node \<Rightarrow> rx_ba_node \<Rightarrow> bool" where
  "same_key n n' \<longleftrightarrow> node_sta_lut_index n' = node_sta_lut_index n \<and> node_tid n' = node_tid n"

lemma entry_wf_put:
  assumes wf: "entry_wf be" and n: "ba_heap be a = Some n" and key: "same_key n n'"
  shows "entry_wf (put_ba_node a n' be)"
proof (rule entry_wfI)
  have old: "\<exists>k'. ba_heap be b = Some k' \<and> same_key k' k" if "ba_heap (put_ba_node a n' be) b = Some k" for b k
    using that n key by (cases "b = a") (auto simp: put_ba_node_def same_key_def)
  show "length (hlist (put_ba_node a n' be)) = NUM_TIDS"
    using entry_wfD(1) [OF wf] by (simp add: put_ba_node_def)
  show "b = c" if "ba_heap (put_ba_node a n' be) b = Some k" "ba_heap (put_ba_node a n' be) c = Some m"
    "is_same_ba k (node_sta_lut_index m) (node_tid m)" for b c k m
  proof -
    note pre = that
    obtain k' m' where h: "ba_heap be b = Some k'" "ba_heap be c = Some m'"
      and k: "same_key k' k" "same_key m' m"
      using old [OF pre(1)] old [OF pre(2)] by blast
    have "is_same_ba k' (node_sta_lut_index m') (node_tid m')"
      using pre(3) k unfolding is_same_ba_def same_key_def by metis
    from entry_wfD(5) [OF wf h this] show ?thesis .
  qed
  show "distinct (hlist (put_ba_node a n' be) ! t)" if "t < NUM_TIDS" for t
    using entry_wfD(2) [OF wf that] by (simp add: put_ba_node_def)
  show "b \<in> set (hlist (put_ba_node a n' be) ! t)
      \<longleftrightarrow> (\<exists>k. ba_heap (put_ba_node a n' be) b = Some k \<and> unat (node_tid k) = t)" if "t < NUM_TIDS" for t b
    using entry_wfD(3) [OF wf that, of b] n key by (simp add: put_ba_node_def same_key_def)
  show "unat (node_tid k) < NUM_TIDS" if "ba_heap (put_ba_node a n' be) b = Some k" for b k
    using that entry_wfD(4) [OF wf, of b] n key
    by (auto simp: put_ba_node_def same_key_def split: if_splits)
  show "b \<in> dom (ba_heap (put_ba_node a n' be))" if "current_ba_node (put_ba_node a n' be) = Some b" for b
    using that entry_wfD(6) [OF wf, of b] by (auto simp: put_ba_node_def)
qed

lemma entry_shape_put:
  "entry_shape be \<Longrightarrow> buf_shape (rx_ba n') \<Longrightarrow> entry_shape (put_ba_node a n' be)"
  by (simp add: entry_shape_def put_ba_node_def)

lemma entry_wf_free:
  assumes wf: "entry_wf be"
  shows "entry_wf ((free_ba_node a be)\<lparr>current_ba_node := None\<rparr>)"
  by (rule entry_wfI)
    (use entry_wfD(1-5) [OF wf] in
      \<open>auto simp: free_ba_node_def distinct_removeAll split: if_splits\<close>)

lemma entry_shape_free: "entry_shape be \<Longrightarrow> entry_shape (free_ba_node a be)"
  by (simp add: entry_shape_def free_ba_node_def)

lemma entry_wf_create:
  assumes wf: "entry_wf be" and fresh: "ba_heap be a = None" and none: "\<And>b. \<not> has_session be lut t b"
    and t: "unat t < NUM_TIDS"
  shows "entry_wf (be\<lparr>ba_heap := (ba_heap be)(a \<mapsto> init_ba_node lut t nd),
      hlist := (hlist be)[unat t := a # hlist be ! unat t], current_ba_node := Some a\<rparr>)"
    (is "entry_wf ?be")
proof (rule entry_wfI)
  note wfD = entry_wfD [OF wf]
  show "length (hlist ?be) = NUM_TIDS" using wfD(1) by simp
  show "distinct (hlist ?be ! i)" if "i < NUM_TIDS" for i
    using that wfD(1,2,3) fresh by (cases "i = unat t") auto
  show "b \<in> set (hlist ?be ! i) \<longleftrightarrow> (\<exists>n. ba_heap ?be b = Some n \<and> unat (node_tid n) = i)"
    if "i < NUM_TIDS" for i b
    using that wfD(1,3) fresh by (cases "i = unat t") (auto simp: init_ba_node_def)
  show "unat (node_tid n) < NUM_TIDS" if "ba_heap ?be b = Some n" for b n
    using that wfD(4) t by (auto simp: init_ba_node_def split: if_splits)
  show "b = c" if "ba_heap ?be b = Some n" "ba_heap ?be c = Some m"
    "is_same_ba n (node_sta_lut_index m) (node_tid m)" for b c n m
  proof (rule ccontr)
    assume ne: "b \<noteq> c"
    consider "b = a" "c \<noteq> a" | "c = a" "b \<noteq> a" | "b \<noteq> a" "c \<noteq> a" using ne by blast
    then show False
    proof cases
      case 1
      then show False using that none [of c] by (auto simp: has_session_def init_ba_node_def is_same_ba_def)
    next
      case 2
      then show False using that none [of b] by (auto simp: has_session_def init_ba_node_def is_same_ba_def)
    next
      case 3
      then show False using that ne wfD(5) [of b n c m] by simp
    qed
  qed
qed simp

section \<open>Where the buffers of the table are\<close>

definition entry_held :: "sprdwl_rx_ba_entry \<Rightarrow> sk_buff multiset" where
  "entry_held be = (\<Sum>a \<in> dom (ba_heap be). held (rx_ba (the (ba_heap be a))))"

definition entry_bag :: "sprdwl_rx_ba_entry \<Rightarrow> sk_buff multiset" where
  "entry_bag be = mset (skb_list (ba_io be)) + mset (freed (ba_io be)) + entry_held be"

lemma entry_bag_current [simp]: "entry_bag (be\<lparr>current_ba_node := c\<rparr>) = entry_bag be"
  by (simp add: entry_bag_def entry_held_def)

lemma entry_held_split:
  assumes "entry_wf be" and "ba_heap be a = Some n"
  shows "entry_held be = held (rx_ba n)
    + (\<Sum>b \<in> dom (ba_heap be) - {a}. held (rx_ba (the (ba_heap be b))))"
  using sum.remove [OF finite_ba_heap [OF assms(1)], of a "\<lambda>b. held (rx_ba (the (ba_heap be b)))"] assms(2)
  by (simp add: entry_held_def domI)

lemma entry_held_put:
  assumes wf: "entry_wf be" and n: "ba_heap be a = Some n"
  shows "entry_held (put_ba_node a n' (be\<lparr>ba_io := e\<rparr>)) + held (rx_ba n) = entry_held be + held (rx_ba n')"
proof -
  have "entry_held (put_ba_node a n' (be\<lparr>ba_io := e\<rparr>)) = held (rx_ba n')
      + (\<Sum>b \<in> dom (ba_heap be) - {a}. held (rx_ba (the (ba_heap be b))))"
    using sum.insert_remove [OF finite_ba_heap [OF wf],
        of "\<lambda>b. held (rx_ba (the (((ba_heap be)(a \<mapsto> n')) b)))" a] n
    by (simp add: entry_held_def put_ba_node_def insert_absorb domI)
  then show ?thesis using entry_held_split [OF wf n] by (simp add: ac_simps)
qed

lemma entry_held_free:
  assumes wf: "entry_wf be" and n: "ba_heap be a = Some n"
  shows "entry_held (free_ba_node a (be\<lparr>ba_io := e\<rparr>)) + held (rx_ba n) = entry_held be"
proof -
  have "entry_held (free_ba_node a (be\<lparr>ba_io := e\<rparr>))
      = (\<Sum>b \<in> dom (ba_heap be) - {a}. held (rx_ba (the (ba_heap be b))))"
    by (auto simp: entry_held_def free_ba_node_def intro!: sum.cong)
  then show ?thesis using entry_held_split [OF wf n] by (simp add: ac_simps)
qed

text \<open>An operation on one node that keeps the node's buffers keeps those of the table.\<close>

lemma entry_bag_put:
  assumes "entry_wf be" and "ba_heap be a = Some n"
    and "bag e (rx_ba n') = bag (ba_io be) (rx_ba n) + m"
  shows "entry_bag (put_ba_node a n' (be\<lparr>ba_io := e\<rparr>)) = entry_bag be + m"
proof -
  let ?be = "put_ba_node a n' (be\<lparr>ba_io := e\<rparr>)"
  have "entry_bag ?be + held (rx_ba n) = mset (skb_list e) + mset (freed e) + (entry_held be + held (rx_ba n'))"
    using entry_held_put [OF assms(1,2), of n' e] by (simp add: entry_bag_def put_ba_node_def ac_simps)
  also have "\<dots> = entry_held be + bag e (rx_ba n')" by (simp add: bag_def ac_simps)
  also have "\<dots> = entry_bag be + m + held (rx_ba n)"
    unfolding assms(3) by (simp add: bag_def entry_bag_def ac_simps)
  finally show ?thesis by simp
qed

section \<open>Setting a session up\<close>

lemma grow_index_size_spec:
  assumes "unat sz \<le> 2 ^ 31" and "k \<le> 31"
  shows "\<exists>j. k \<le> j \<and> j \<le> 31 \<and> grow_index_size sz (2 ^ k) = Some (2 ^ j) \<and> unat sz \<le> 2 ^ j
     \<and> (k < j \<longrightarrow> 2 ^ (j - 1) < unat sz)"
  using assms
proof (induction "31 - k" arbitrary: k)
  case 0
  then have k: "k = 31" by simp
  have "sz \<le> 2 ^ 31" using 0(2) by (simp add: word_le_nat_alt)
  then have "grow_index_size sz (2 ^ k) = Some (2 ^ k)"
    unfolding k by (subst grow_index_size.simps) (auto simp: not_less)
  with 0(2) k show ?case by auto
next
  case (Suc n)
  have pow: "unat (2 ^ k :: u32) = 2 ^ k" using Suc.hyps(2) by (intro unat_pow2) simp
  show ?case
  proof (cases "sz > 2 ^ k")
    case False
    then have "grow_index_size sz (2 ^ k) = Some (2 ^ k)" by (subst grow_index_size.simps) simp
    moreover have "unat sz \<le> 2 ^ k" using False pow by (simp add: not_less word_le_nat_alt)
    ultimately show ?thesis using Suc.prems(2) by auto
  next
    case True
    then have step: "grow_index_size sz (2 ^ k) = grow_index_size sz (2 ^ Suc k)"
      by (subst grow_index_size.simps) (simp add: push_bit_eq_mult mult.commute)
    have lt: "2 ^ k < unat sz" using True pow by (simp add: word_less_nat_alt)
    have hyp: "n = 31 - Suc k" "Suc k \<le> 31" using Suc.hyps(2) by simp_all
    obtain j where "Suc k \<le> j" "j \<le> 31" "grow_index_size sz (2 ^ Suc k) = Some (2 ^ j)" "unat sz \<le> 2 ^ j"
      "Suc k < j \<longrightarrow> 2 ^ (j - 1) < unat sz"
      using Suc.hyps(1) [OF hyp(1) Suc.prems(1) hyp(2)] by blast
    with step lt show ?thesis by (intro exI [of _ j]) (cases "Suc k = j"; auto)
  qed
qed

lemma get_index_size_spec:
  assumes "unat sz \<le> 2 ^ 31"
  obtains j where "6 \<le> j" "j \<le> 31" "get_index_size sz = Some (2 ^ j)" "unat sz \<le> 2 ^ j"
    "6 < j \<Longrightarrow> 2 ^ (j - 1) < unat sz"
proof -
  have "get_index_size sz = grow_index_size sz (2 ^ 6)"
    by (simp add: get_index_size_def MIN_INDEX_SIZE_def)
  with grow_index_size_spec [OF assms, of 6] that show thesis by auto
qed

lemma mask_of_pow: "j \<le> 31 \<Longrightarrow> INDEX_SIZE_MASK (2 ^ j) = mask j"
  by (simp add: INDEX_SIZE_MASK_def mask_eq_exp_minus_1)

text \<open>A session set up on fresh memory starts in the invariant.\<close>

lemma fresh_session_wf:
  assumes sz: "get_index_size (2 * ucast w) = Some n" and w: "0 < unat w" "unat w \<le> 2048" and s: "seqno s"
  shows "ba_wf (set_ba_node_desc (kzalloc_rx_ba (unat n)) s w (INDEX_SIZE_MASK n))"
proof -
  have w2: "unat (2 * ucast w :: u32) = 2 * unat w"
    using w by (simp add: unat_word_ariths)
  obtain j where j: "6 \<le> j" "j \<le> 31" "n = 2 ^ j" "2 * unat w \<le> 2 ^ j" "6 < j \<Longrightarrow> 2 ^ (j - 1) < 2 * unat w"
    using get_index_size_spec [of "2 * ucast w"] w sz unfolding w2 by auto
  have j12: "j \<le> 12"
  proof (rule ccontr)
    assume "\<not> j \<le> 12"
    then have "(2::nat) ^ 12 \<le> 2 ^ (j - 1)" by (intro power_increasing) auto
    with j(5) w \<open>\<not> j \<le> 12\<close> show False by simp
  qed
  have n: "unat n = 2 ^ j" unfolding j(3) using j(2) by (intro unat_pow2) simp
  have shape: "buf_shape (set_ba_node_desc (kzalloc_rx_ba (unat n)) s w (INDEX_SIZE_MASK n))"
    unfolding buf_shape_def using j12 n mask_of_pow [OF j(2)] j(3)
    by (intro exI [of _ j]) (simp add: set_ba_node_desc_def kzalloc_rx_ba_def)
  moreover have "w > 0" using w by (simp add: word_less_nat_alt)
  ultimately show ?thesis
    using s w j(4) n
    by (simp add: ba_wf_def wf_at_def slot_ok_def set_ba_node_desc_def kzalloc_rx_ba_def)
qed

end
