(* ===== verification/Stage.thy ===== *)
theory Stage
  imports Prelude
begin

text \<open>
  The interface of a receive stage: it takes one packet at a time, never faults while its
  invariant holds, and keeps every packet it was given. Block-ack reordering and the
  delivery to the network queue are stages; what holds of a run over many packets is
  proved here once.
\<close>

fun run_stage :: "('s \<Rightarrow> 'p \<Rightarrow> 's option) \<Rightarrow> 's \<Rightarrow> 'p list \<Rightarrow> 's option" where
  "run_stage process s [] = Some s"
| "run_stage process s (p # ps) = do { s' \<leftarrow> process s p; run_stage process s' ps }"

lemma run_stage_append:
  "run_stage process s (ps @ qs) = do { s' \<leftarrow> run_stage process s ps; run_stage process s' qs }"
  by (induction ps arbitrary: s) (auto split: bind_splits)

text \<open>
  A component that never faults: every event it accepts is handled and keeps the invariant.
\<close>

locale safe_machine =
  fixes step :: "'s \<Rightarrow> 'e \<Rightarrow> 's option"
    and inv :: "'s \<Rightarrow> bool"
    and valid :: "'e \<Rightarrow> bool"
  assumes safe_step: "inv s \<Longrightarrow> valid e \<Longrightarrow> \<exists>s'. step s e = Some s' \<and> inv s'"
begin

lemma run_safe:
  "inv s \<Longrightarrow> \<forall>e \<in> set es. valid e \<Longrightarrow> \<exists>s'. run_stage step s es = Some s' \<and> inv s'"
proof (induction es arbitrary: s)
  case (Cons e es)
  then obtain s1 where "step s e = Some s1" "inv s1" using safe_step [of s e] by auto
  with Cons show ?case by auto
qed simp

end

locale packet_stage =
  fixes process :: "'s \<Rightarrow> 'p \<Rightarrow> 's option"
    and inv :: "'s \<Rightarrow> bool"
    and valid :: "'p \<Rightarrow> bool"
    and content :: "'s \<Rightarrow> 'p multiset"
  assumes step: "inv s \<Longrightarrow> valid p \<Longrightarrow> \<exists>s'. process s p = Some s' \<and> inv s' \<and> content s' = content s + {#p#}"
begin

lemma run_ok:
  "inv s \<Longrightarrow> \<forall>p \<in> set ps. valid p \<Longrightarrow>
     \<exists>s'. run_stage process s ps = Some s' \<and> inv s' \<and> content s' = content s + mset ps"
proof (induction ps arbitrary: s)
  case Nil
  then show ?case by simp
next
  case (Cons p ps)
  then obtain s1 where s1: "process s p = Some s1" "inv s1" "content s1 = content s + {#p#}"
    using step [of s p] by auto
  with Cons.IH [OF s1(2)] Cons.prems(2) show ?case by auto
qed

text \<open>Two orders of arrival leave the same packets in the stage.\<close>

lemma run_order_independent:
  assumes "inv s" and "mset ps = mset qs" and "\<forall>p \<in> set ps. valid p"
    and "run_stage process s ps = Some s1" and "run_stage process s qs = Some s2"
  shows "content s1 = content s2"
proof -
  have "set qs = set ps" using assms(2) mset_eq_setD by metis
  then show ?thesis
    using run_ok [OF assms(1), of ps] run_ok [OF assms(1), of qs] assms(2-5) by auto
qed

end

text \<open>
  A component that gives its caller what an abstract specification gives: the outputs of a run are
  those of the specification, and the abstraction of the state is its state.
\<close>

fun run_out :: "('s \<Rightarrow> 'e \<Rightarrow> ('o \<times> 's) option) \<Rightarrow> 's \<Rightarrow> 'e list \<Rightarrow> ('o list \<times> 's) option" where
  "run_out step s [] = Some ([], s)"
| "run_out step s (e # es) = do {
     (r, s') \<leftarrow> step s e; (rs, s'') \<leftarrow> run_out step s' es; Some (r # rs, s'') }"

fun run_spec :: "('a \<Rightarrow> 'e \<Rightarrow> 'o \<times> 'a) \<Rightarrow> 'a \<Rightarrow> 'e list \<Rightarrow> 'o list \<times> 'a" where
  "run_spec spec a [] = ([], a)"
| "run_spec spec a (e # es) =
     (let (r, a') = spec a e; (rs, a'') = run_spec spec a' es in (r # rs, a''))"

locale implements =
  fixes step :: "'s \<Rightarrow> 'e \<Rightarrow> ('o \<times> 's) option"
    and inv :: "'s \<Rightarrow> bool"
    and valid :: "'e \<Rightarrow> bool"
    and abs :: "'s \<Rightarrow> 'a"
    and spec :: "'a \<Rightarrow> 'e \<Rightarrow> 'o \<times> 'a"
  assumes simulates: "inv s \<Longrightarrow> valid e \<Longrightarrow>
    \<exists>r s'. step s e = Some (r, s') \<and> inv s' \<and> spec (abs s) e = (r, abs s')"
begin

lemma run_simulates:
  "inv s \<Longrightarrow> \<forall>e \<in> set es. valid e \<Longrightarrow>
     \<exists>rs s'. run_out step s es = Some (rs, s') \<and> inv s' \<and> run_spec spec (abs s) es = (rs, abs s')"
proof (induction es arbitrary: s)
  case (Cons e es)
  then obtain r s1 where s1: "step s e = Some (r, s1)" "inv s1" "spec (abs s) e = (r, abs s1)"
    using simulates [of s e] by auto
  with Cons.IH [OF s1(2)] Cons.prems(2) show ?case by auto
qed simp

end

sublocale implements \<subseteq> safe_machine "\<lambda>s e. map_option snd (step s e)" inv valid
proof unfold_locales
  fix s e
  assume "inv s" "valid e"
  then show "\<exists>s'. map_option snd (step s e) = Some s' \<and> inv s'" using simulates [of s e] by force
qed

sublocale packet_stage \<subseteq> safe_machine process inv valid
  by unfold_locales (use step in blast)

end
