(* ===== verification/Reorder_Ops.thy ===== *)
theory Reorder_Ops
  imports Reorder_Table Stage
begin

text \<open>
  The entry points of the session table: none of them faults on a sound table, each keeps
  the table sound, and every buffer that enters is delivered, freed or held by a session.
  What deleting a session that is not active loses is stated as such.
\<close>


section \<open>Sessions keep their key\<close>

lemma same_key_simps [simp]:
  "same_key n n" "same_key n (n\<lparr>rx_ba := x\<rparr>)" "same_key n (mod_reorder_timer (n\<lparr>rx_ba := x\<rparr>))"
  "same_key n (n\<lparr>active := b\<rparr>)" "same_key n (n\<lparr>active := b, rx_ba := x\<rparr>)"
  "same_key n (n\<lparr>rx_ba := x, reorder_timer_pending := b, timeout_cnt := c\<rparr>)"
  "same_key n (mod_reorder_timer (n\<lparr>rx_ba := x, timeout_cnt := c\<rparr>))"
  "same_key n (mod_reorder_timer (n\<lparr>rx_ba := x, timeout_cnt := c, active := b\<rparr>))"
  by (simp_all add: same_key_def mod_reorder_timer_def)

lemma reorder_msdu_process_key:
  "reorder_msdu_process e md skb n = Some (e', n') \<Longrightarrow> same_key n n'"
  by (auto simp: reorder_msdu_process_def Let_def bind_eq_Some_conv split: if_splits)

lemma ba_reorder_timeout_key:
  "ba_reorder_timeout e n = Some (e', n', d, k) \<Longrightarrow> same_key n n'"
  by (auto simp: ba_reorder_timeout_def Let_def bind_eq_Some_conv same_key_def mod_reorder_timer_def
      split: if_splits)

section \<open>The receive path\<close>

lemma process_at_ok:
  assumes wf: "entry_wf be" and sh: "entry_shape be" and n: "ba_heap be a = Some n"
  shows "\<exists>be'. process_at be md (Some k) a = Some be' \<and> entry_wf be' \<and> entry_shape be'
     \<and> entry_bag be' = entry_bag be + {#k#}"
proof -
  obtain e' n' where r: "reorder_msdu_process (ba_io be) md (Some k) n = Some (e', n')" "buf_shape (rx_ba n')"
    using reorder_msdu_process_shape [of n "ba_io be" md k] sh n by (auto simp: entry_shape_def)
  let ?be = "put_ba_node a n' (be\<lparr>ba_io := e'\<rparr>)"
  have "entry_wf ?be"
    using entry_wf_put [of "be\<lparr>ba_io := e'\<rparr>" a n n'] reorder_msdu_process_key [OF r(1)] wf n by simp
  moreover have "entry_shape ?be" using sh r(2) by (simp add: entry_shape_put)
  moreover have "entry_bag ?be = entry_bag be + {#k#}"
    using entry_bag_put [OF wf n] bag_reorder_msdu_process [OF r(1)] by simp
  ultimately show ?thesis using n r(1) by (auto simp: process_at_def)
qed

lemma queue_skb_ok:
  "\<exists>be'. queue_skb be k = Some be' \<and> ba_heap be' = ba_heap be \<and> hlist be' = hlist be
     \<and> current_ba_node be' = current_ba_node be
     \<and> skb_list (ba_io be') = skb_list (ba_io be) @ [k] \<and> freed (ba_io be') = freed (ba_io be)"
  by (simp add: queue_skb_def reorder_set_skb_list_def)

lemma queue_skb_wf:
  assumes "entry_wf be" and "entry_shape be"
  shows "\<exists>be'. queue_skb be k = Some be' \<and> entry_wf be' \<and> entry_shape be'
     \<and> entry_bag be' = entry_bag be + {#k#}"
  using assms by (simp add: queue_skb_def reorder_set_skb_list_def entry_bag_def entry_held_def)

lemma reorder_data_process_ok:
  assumes wf: "entry_wf be" and sh: "entry_shape be"
  shows "\<exists>be'. reorder_data_process be (Some k) = Some be' \<and> entry_wf be' \<and> entry_shape be'
     \<and> entry_bag be' = entry_bag be + {#k#}"
proof -
  obtain r c where f: "find_ba_node be (sta_lut_index (skb_desc k)) (tid (skb_desc k))
      = Some (r, be\<lparr>current_ba_node := c\<rparr>)" "entry_wf (be\<lparr>current_ba_node := c\<rparr>)"
    "\<forall>a. r = Some a \<longleftrightarrow> has_session be (sta_lut_index (skb_desc k)) (tid (skb_desc k)) a"
    using find_ba_node_ok [OF wf] by blast
  show ?thesis
  proof (cases "\<not> bc_mc_flag (skb_desc k) \<and> qos_flag (skb_desc k)")
    case False
    then show ?thesis using queue_skb_wf [OF wf sh, of k] by (auto simp: reorder_data_process_def Let_def)
  next
    case True
    show ?thesis
    proof (cases r)
      case None
      then show ?thesis
        using True f(1) queue_skb_wf [OF f(2), of k] sh by (simp add: reorder_data_process_def)
    next
      case (Some a)
      then obtain n where "ba_heap be a = Some n" using f(3) by (auto simp: has_session_def)
      then show ?thesis
        using True Some f(1) process_at_ok [OF f(2), of a n "skb_desc k" k] sh
        by (simp add: reorder_data_process_def)
    qed
  qed
qed

interpretation reorder: packet_stage "\<lambda>be k. reorder_data_process be (Some k)"
  "\<lambda>be. entry_wf be \<and> entry_shape be" "\<lambda>_. True" entry_bag
  by unfold_locales (use reorder_data_process_ok in blast)

section \<open>Deleting sessions\<close>

lemma flush_reorder_buffer_total:
  assumes "buf_shape nd"
  shows "flush_reorder_buffer e nd =
    Some (kfree_skbs e (concat (map pkt_skbs (reorder_buffer nd))),
          nd\<lparr>reorder_buffer := replicate (length (reorder_buffer nd)) zero_pkt, buff_cnt := 0\<rparr>)"
proof -
  obtain k where k: "k \<le> 12" "index_mask nd = mask k" "length (reorder_buffer nd) = 2 ^ k"
    using assms by (auto simp: buf_shape_def)
  have "unat (index_mask nd + 1) = 2 ^ k"
    using k unat_pow2 [of k, where 'a = 32] by (simp add: mask_eq_exp_minus_1)
  with k show ?thesis by (intro flush_reorder_buffer_spec) simp
qed

lemma entry_bag_free:
  assumes wf: "entry_wf be" and n: "ba_heap be a = Some n"
    and io: "mset (skb_list e) + mset (freed e) = mset (skb_list (ba_io be)) + mset (freed (ba_io be)) + m"
    and part: "held (rx_ba n) = m + lost"
  shows "entry_bag (free_ba_node a (be\<lparr>ba_io := e\<rparr>)) + lost = entry_bag be"
proof -
  let ?be = "free_ba_node a (be\<lparr>ba_io := e\<rparr>)"
  have "entry_held ?be + (m + lost) = entry_held be"
    using entry_held_free [OF wf n, of e] part by simp
  moreover have "ba_io ?be = e" by (simp add: free_ba_node_def)
  ultimately show ?thesis using io by (simp add: entry_bag_def ac_simps)
qed

text \<open>
  The end of a session: flushed when it is active, in which case DELBA first delivers
  what is in order; a session that is not active is freed with what it still holds.
\<close>

definition leaked :: "rx_ba_node \<Rightarrow> sk_buff multiset" where
  "leaked node = (if active node then {#} else held (rx_ba node))"

lemma held_flushed:
  "held (nd\<lparr>reorder_buffer := replicate k zero_pkt, buff_cnt := c\<rparr>) = {#}"
  by (induction k) (simp_all add: held_def)

lemma flush_all:
  assumes "buf_shape nd"
  shows "\<exists>e' nd'. flush_reorder_buffer e nd = Some (e', nd')
     \<and> mset (skb_list e') + mset (freed e') = mset (skb_list e) + mset (freed e) + held nd"
proof -
  let ?nd' = "nd\<lparr>reorder_buffer := replicate (length (reorder_buffer nd)) zero_pkt, buff_cnt := 0\<rparr>"
  let ?e' = "kfree_skbs e (concat (map pkt_skbs (reorder_buffer nd)))"
  have r: "flush_reorder_buffer e nd = Some (?e', ?nd')" by (rule flush_reorder_buffer_total [OF assms])
  from bag_flush_reorder_buffer [OF r] show ?thesis
    by (simp add: r bag_def held_flushed)
qed

lemma drain_all:
  assumes "buf_shape nd"
  shows "\<exists>e1 nd1 e2 nd2. between_seqlo_seqhi e nd = Some (e1, nd1) \<and> flush_reorder_buffer e1 nd1 = Some (e2, nd2)
     \<and> mset (skb_list e2) + mset (freed e2) = mset (skb_list e) + mset (freed e) + held nd"
proof -
  obtain e1 nd1 where b: "between_seqlo_seqhi e nd = Some (e1, nd1)" "buf_shape nd1"
    using between_seqlo_seqhi_shape [OF assms, of e] by blast
  from flush_all [OF b(2), of e1] obtain e2 nd2 where "flush_reorder_buffer e1 nd1 = Some (e2, nd2)"
    "mset (skb_list e2) + mset (freed e2) = bag e1 nd1" by (auto simp: bag_def)
  with b(1) bag_between_seqlo_seqhi [OF b(1)] show ?thesis by (auto simp: bag_def)
qed

lemma has_session_free:
  "has_session ((free_ba_node a be)\<lparr>current_ba_node := c\<rparr>) lut t b \<longleftrightarrow> b \<noteq> a \<and> has_session be lut t b"
  "has_session (free_ba_node a be) lut t b \<longleftrightarrow> b \<noteq> a \<and> has_session be lut t b"
  by (auto simp: has_session_def free_ba_node_def)

lemma has_session_simps [simp]:
  "has_session (be\<lparr>current_ba_node := c\<rparr>) lut t b = has_session be lut t b"
  "has_session (be\<lparr>ba_io := e\<rparr>) lut t b = has_session be lut t b"
  by (simp_all add: has_session_def)

lemma wlan_delba_event_ok:
  assumes wf: "entry_wf be" and sh: "entry_shape be"
  shows "\<exists>be' lost. wlan_delba_event be ev = Some be' \<and> entry_wf be' \<and> entry_shape be'
     \<and> (\<forall>b. \<not> has_session be' (ev_sta_lut_index ev) (ev_tid ev) b)
     \<and> entry_bag be' + lost = entry_bag be
     \<and> (lost = {#} \<or> (\<exists>a n. ba_heap be a = Some n \<and> is_same_ba n (ev_sta_lut_index ev) (ev_tid ev)
          \<and> lost = leaked n))"
proof -
  let ?lut = "ev_sta_lut_index ev" and ?t = "ev_tid ev"
  obtain r c where f: "find_ba_node be ?lut ?t = Some (r, be\<lparr>current_ba_node := c\<rparr>)"
    "entry_wf (be\<lparr>current_ba_node := c\<rparr>)" "\<forall>a. r = Some a \<longleftrightarrow> has_session be ?lut ?t a"
    using find_ba_node_ok [OF wf] by blast
  show ?thesis
  proof (cases r)
    case None
    with f sh show ?thesis
      by (intro exI [of _ "be\<lparr>current_ba_node := c\<rparr>"] exI [of _ "{#}"]) (simp add: wlan_delba_event_def)
  next
    case (Some a)
    let ?be = "be\<lparr>current_ba_node := c\<rparr>"
    obtain n where n: "ba_heap be a = Some n" "is_same_ba n ?lut ?t"
      using f(3) Some by (auto simp: has_session_def)
    have shape: "buf_shape (rx_ba n)" using sh n by (simp add: entry_shape_def)
    obtain e' m where e': "delba_drain (ba_io be) n = Some e'"
      "mset (skb_list e') + mset (freed e') = mset (skb_list (ba_io be)) + mset (freed (ba_io be)) + m"
      "held (rx_ba n) = m + leaked n"
      using drain_all [OF shape, of "ba_io be"]
      by (cases "active n") (auto simp: leaked_def delba_drain_def)
    have uniq: "b = a" if "has_session be ?lut ?t b" for b
      using has_session_unique [OF wf that] n by (auto simp: has_session_def)
    let ?be' = "(free_ba_node a (?be\<lparr>ba_io := e'\<rparr>))\<lparr>current_ba_node := None\<rparr>"
    have run: "wlan_delba_event be ev = Some ?be'"
      using f(1) Some n(1) e'(1) by (simp add: wlan_delba_event_def)
    moreover have "entry_wf ?be'" using f(2) by (intro entry_wf_free) simp
    moreover have "entry_shape ?be'" using sh by (simp add: entry_shape_free)
    moreover have "\<not> has_session ?be' ?lut ?t b" for b using uniq by (auto simp: has_session_free)
    moreover have "entry_bag ?be' + leaked n = entry_bag be"
      using entry_bag_free [OF f(2), of a n e' m "leaked n"] n e'(2,3) by simp
    ultimately show ?thesis using n by blast
  qed
qed

lemma peer_delba_drain_ok:
  assumes "buf_shape (rx_ba n)"
  shows "\<exists>e' m. peer_delba_drain e n = Some e'
    \<and> mset (skb_list e') + mset (freed e') = mset (skb_list e) + mset (freed e) + m
    \<and> held (rx_ba n) = m + leaked n \<and> skb_list e' = skb_list e"
proof (cases "active n")
  case True
  with flush_all [OF assms, of e] obtain e' nd' where "flush_reorder_buffer e (rx_ba n) = Some (e', nd')"
    "mset (skb_list e') + mset (freed e') = mset (skb_list e) + mset (freed e) + held (rx_ba n)" by blast
  with True flush_reorder_buffer_total [OF assms, of e] show ?thesis
    by (simp add: peer_delba_drain_def leaked_def)
next
  case False
  then show ?thesis
    by (intro exI [of _ e] exI [of _ "{#}"]) (simp add: peer_delba_drain_def leaked_def)
qed

text \<open>\<open>peer_entry_delba\<close> removes every session of one station.\<close>

lemma peer_delba_step:
  assumes wf: "entry_wf be" and sh: "entry_shape be"
  shows "\<exists>be2 lost. peer_delba_tid be lut t = Some be2
     \<and> entry_wf be2 \<and> entry_shape be2
     \<and> ba_heap be2 = (\<lambda>a. if has_session be lut t a then None else ba_heap be a)
     \<and> entry_bag be2 + lost = entry_bag be
     \<and> ((\<forall>a n. ba_heap be a = Some n \<longrightarrow> active n) \<longrightarrow> lost = {#})
     \<and> skb_list (ba_io be2) = skb_list (ba_io be)"
proof -
  obtain r c where f: "find_ba_node be lut t = Some (r, be\<lparr>current_ba_node := c\<rparr>)"
    "entry_wf (be\<lparr>current_ba_node := c\<rparr>)" "\<forall>a. r = Some a \<longleftrightarrow> has_session be lut t a"
    using find_ba_node_ok [OF wf] by blast
  show ?thesis
  proof (cases r)
    case None
    with f sh show ?thesis
      by (intro exI [of _ "be\<lparr>current_ba_node := c\<rparr>"] exI [of _ "{#}"]) (auto simp: peer_delba_tid_def)
  next
    case (Some a)
    let ?be = "be\<lparr>current_ba_node := c\<rparr>"
    obtain n where n: "ba_heap be a = Some n" "is_same_ba n lut t"
      using f(3) Some by (auto simp: has_session_def)
    have shape: "buf_shape (rx_ba n)" using sh n by (simp add: entry_shape_def)
    obtain e' m where e': "peer_delba_drain (ba_io be) n = Some e'"
      "mset (skb_list e') + mset (freed e') = mset (skb_list (ba_io be)) + mset (freed (ba_io be)) + m"
      "held (rx_ba n) = m + leaked n" "skb_list e' = skb_list (ba_io be)"
      using peer_delba_drain_ok [OF shape] by blast
    let ?be' = "(free_ba_node a (?be\<lparr>ba_io := e'\<rparr>))\<lparr>current_ba_node := None\<rparr>"
    have "entry_wf ?be'" using f(2) by (intro entry_wf_free) simp
    moreover have "entry_shape ?be'" using sh by (simp add: entry_shape_free)
    moreover have at_a: "has_session be lut t b \<longleftrightarrow> b = a" for b
      using f(3) Some by (metis option.inject)
    moreover have "ba_heap ?be' = (\<lambda>b. if has_session be lut t b then None else ba_heap be b)"
      by (simp add: free_ba_node_def fun_eq_iff at_a)
    moreover have "entry_bag ?be' + leaked n = entry_bag be"
      using entry_bag_free [OF f(2), of a n e' m "leaked n"] n e'(2,3) by simp
    moreover have "skb_list (ba_io ?be') = skb_list (ba_io be)" using e'(4) by (simp add: free_ba_node_def)
    moreover have "(\<forall>a n. ba_heap be a = Some n \<longrightarrow> active n) \<longrightarrow> leaked n = {#}"
      using n by (auto simp: leaked_def)
    ultimately show ?thesis
      using f(1) Some n(1) e'(1) by (intro exI [of _ ?be'] exI [of _ "leaked n"]) (simp add: peer_delba_tid_def)
  qed
qed

lemma peer_delba_loop_ok:
  assumes "entry_wf be" and "entry_shape be" and "unat t + k < 256"
  shows "\<exists>be' lost. peer_delba_loop k t be lut = Some be' \<and> entry_wf be' \<and> entry_shape be'
     \<and> (\<forall>a n. ba_heap be' a = Some n \<longleftrightarrow> ba_heap be a = Some n
          \<and> \<not> (node_sta_lut_index n = lut \<and> unat t \<le> unat (node_tid n) \<and> unat (node_tid n) < unat t + k))
     \<and> entry_bag be' + lost = entry_bag be
     \<and> ((\<forall>a n. ba_heap be a = Some n \<longrightarrow> active n) \<longrightarrow> lost = {#})
     \<and> skb_list (ba_io be') = skb_list (ba_io be)"
  using assms
proof (induction k arbitrary: t be)
  case 0
  then show ?case by auto
next
  case (Suc k)
  obtain be2 l1 where s: "peer_delba_tid be lut t = Some be2"
    "entry_wf be2" "entry_shape be2"
    "ba_heap be2 = (\<lambda>a. if has_session be lut t a then None else ba_heap be a)"
    "entry_bag be2 + l1 = entry_bag be" "(\<forall>a n. ba_heap be a = Some n \<longrightarrow> active n) \<longrightarrow> l1 = {#}"
    "skb_list (ba_io be2) = skb_list (ba_io be)"
    using peer_delba_step [OF Suc.prems(1,2), of lut t] by blast
  have t1: "unat (t + 1) = unat t + 1" using Suc.prems(3) by (intro unat_inc) simp
  obtain be' l2 where l: "peer_delba_loop k (t + 1) be2 lut = Some be'" "entry_wf be'" "entry_shape be'"
    "\<forall>a n. ba_heap be' a = Some n \<longleftrightarrow> ba_heap be2 a = Some n
       \<and> \<not> (node_sta_lut_index n = lut \<and> unat t + 1 \<le> unat (node_tid n) \<and> unat (node_tid n) < unat t + 1 + k)"
    "entry_bag be' + l2 = entry_bag be2" "(\<forall>a n. ba_heap be2 a = Some n \<longrightarrow> active n) \<longrightarrow> l2 = {#}"
    "skb_list (ba_io be') = skb_list (ba_io be2)"
    using Suc.IH [OF s(2,3), of "t + 1"] Suc.prems(3) unfolding t1 by auto
  have "ba_heap be' a = Some n \<longleftrightarrow> ba_heap be a = Some n
      \<and> \<not> (node_sta_lut_index n = lut \<and> unat t \<le> unat (node_tid n) \<and> unat (node_tid n) < unat t + Suc k)" for a n
    using l(4)
    by (auto simp: s(4) has_session_def is_same_ba_def word_unat_eq_iff split: if_splits)
  moreover have "entry_bag be' + (l2 + l1) = entry_bag be" using l(5) s(5) by (simp add: add.assoc [symmetric])
  moreover have "(\<forall>a n. ba_heap be a = Some n \<longrightarrow> active n) \<longrightarrow> l2 + l1 = {#}"
    using l(6) s(6) by (auto simp: s(4) split: if_splits)
  ultimately show ?case
    using s(1,7) l(1,2,3,7) by (intro exI [of _ be'] exI [of _ "l2 + l1"]) simp
qed

section \<open>Setting sessions up\<close>

lemma addba_index_size:
  obtains n where "get_index_size (2 * ucast (w :: u16)) = Some n"
proof -
  have "unat w < 65536" using unsigned_less [of w] by simp
  then have "unat (2 * ucast w :: u32) \<le> 2 ^ 31" by (simp add: unat_word_ariths)
  then show thesis using that by (rule get_index_size_spec) blast
qed

lemma entry_bag_new:
  assumes fresh: "ba_heap be a = None" and fin: "finite (dom (ba_heap be))" and emp: "held (rx_ba n) = {#}"
  shows "entry_bag (be\<lparr>ba_heap := (ba_heap be)(a \<mapsto> n), hlist := h, current_ba_node := c\<rparr>) = entry_bag be"
proof -
  have "(\<Sum>b \<in> dom (ba_heap be). held (rx_ba (the (((ba_heap be)(a \<mapsto> n)) b))))
      = (\<Sum>b \<in> dom (ba_heap be). held (rx_ba (the (ba_heap be b))))"
    using fresh by (intro sum.cong) auto
  moreover have "a \<notin> dom (ba_heap be)" using fresh by auto
  ultimately show ?thesis using fin emp by (simp add: entry_bag_def entry_held_def)
qed

lemma held_kzalloc: "held (set_ba_node_desc (kzalloc_rx_ba k) s w m) = {#}"
  unfolding held_set_ba_node_desc by (induction k) (simp_all add: held_def kzalloc_rx_ba_def)

lemma wlan_addba_event_new:
  assumes wf: "entry_wf be" and sh: "entry_shape be"
    and none: "\<And>b. \<not> has_session be (ev_sta_lut_index ev) (ev_tid ev) b"
    and t: "unat (ev_tid ev) < NUM_TIDS" and fresh: "ba_heap be a = None"
    and w: "0 < unat (ev_win_size ev)" "unat (ev_win_size ev) \<le> 2048" and s: "seqno (ev_win_start ev)"
  shows "\<exists>be' n. wlan_addba_event (Some a) True be ev = Some (0, be') \<and> entry_wf be' \<and> entry_shape be'
     \<and> ba_heap be' = (ba_heap be)(a \<mapsto> n) \<and> is_same_ba n (ev_sta_lut_index ev) (ev_tid ev)
     \<and> \<not> active n \<and> ba_wf (rx_ba n) \<and> win_start (rx_ba n) = ev_win_start ev
     \<and> win_size (rx_ba n) = ev_win_size ev \<and> entry_bag be' = entry_bag be"
proof -
  let ?lut = "ev_sta_lut_index ev" and ?t = "ev_tid ev"
  obtain sz where sz: "get_index_size (2 * ucast (ev_win_size ev)) = Some sz"
    by (rule addba_index_size)
  obtain r c where f: "find_ba_node be ?lut ?t = Some (r, be\<lparr>current_ba_node := c\<rparr>)"
    "\<forall>a. r = Some a \<longleftrightarrow> has_session be ?lut ?t a"
    using find_ba_node_ok [OF wf] by blast
  have r: "r = None" using f(2) none by (cases r) auto
  let ?nd = "set_ba_node_desc (kzalloc_rx_ba (unat sz)) (ev_win_start ev) (ev_win_size ev) (INDEX_SIZE_MASK sz)"
  let ?n = "init_ba_node ?lut ?t ?nd"
  let ?be = "be\<lparr>ba_heap := (ba_heap be)(a \<mapsto> ?n), hlist := (hlist be)[unat ?t := a # hlist be ! unat ?t],
      current_ba_node := Some a\<rparr>"
  have run: "wlan_addba_event (Some a) True be ev = Some (0, ?be)"
    using sz f(1) r t entry_wfD(1) [OF wf]
    by (simp add: wlan_addba_event_def create_ba_node_def Let_def put_ba_node_def init_ba_node_def)
  have nd: "ba_wf ?nd" by (rule fresh_session_wf [OF sz w s])
  have "entry_wf ?be" by (rule entry_wf_create [OF wf fresh none t])
  moreover have "entry_shape ?be"
    using sh ba_wf_shape [OF nd] by (simp add: entry_shape_def init_ba_node_def)
  moreover have "entry_bag ?be = entry_bag be"
    using fresh finite_ba_heap [OF wf] by (intro entry_bag_new) (simp_all add: held_kzalloc init_ba_node_def)
  ultimately show ?thesis
    using run nd by (intro exI [of _ ?be] exI [of _ ?n])
      (simp add: init_ba_node_def is_same_ba_def set_ba_node_desc_def)
qed

lemma wlan_addba_event_again:
  assumes wf: "entry_wf be" and n: "ba_heap be a = Some n" "is_same_ba n (ev_sta_lut_index ev) (ev_tid ev)"
    and sz: "get_index_size (2 * ucast (ev_win_size ev)) = Some sz"
  shows "\<exists>c. wlan_addba_event mem mem2 be ev = Some (0, put_ba_node a
      (n\<lparr>active := False, rx_ba := set_ba_node_desc (rx_ba n) (ev_win_start ev) (ev_win_size ev)
          (INDEX_SIZE_MASK sz)\<rparr>) (be\<lparr>current_ba_node := c\<rparr>))"
proof -
  obtain r c where f: "find_ba_node be (ev_sta_lut_index ev) (ev_tid ev) = Some (r, be\<lparr>current_ba_node := c\<rparr>)"
    "\<forall>a. r = Some a \<longleftrightarrow> has_session be (ev_sta_lut_index ev) (ev_tid ev) a"
    using find_ba_node_ok [OF wf] by blast
  have "r = Some a" using f(2) n by (auto simp: has_session_def)
  with f(1) n(1) sz show ?thesis by (auto simp: wlan_addba_event_def Let_def)
qed

text \<open>Without memory the session is not created and the request is refused.\<close>

lemma wlan_addba_event_nomem:
  assumes wf: "entry_wf be" and none: "\<And>b. \<not> has_session be (ev_sta_lut_index ev) (ev_tid ev) b"
    and mem: "mem = None \<or> \<not> mem2"
  shows "\<exists>c. wlan_addba_event mem mem2 be ev = Some (- ENOMEM, be\<lparr>current_ba_node := c\<rparr>)"
proof -
  obtain sz where sz: "get_index_size (2 * ucast (ev_win_size ev)) = Some sz"
    by (rule addba_index_size)
  obtain r c where f: "find_ba_node be (ev_sta_lut_index ev) (ev_tid ev) = Some (r, be\<lparr>current_ba_node := c\<rparr>)"
    "\<forall>a. r = Some a \<longleftrightarrow> has_session be (ev_sta_lut_index ev) (ev_tid ev) a"
    using find_ba_node_ok [OF wf] by blast
  have "r = None" using f(2) none by (cases r) auto
  with f(1) sz mem show ?thesis
    by (auto simp: wlan_addba_event_def create_ba_node_def split: option.split)
qed

section \<open>Deinitialisation\<close>

lemma deinit_nodes_ok:
  assumes "\<forall>a \<in> set as. \<exists>n. ba_heap be a = Some n \<and> buf_shape (rx_ba n)" and "distinct as"
    and "finite (dom (ba_heap be))"
  shows "\<exists>be'. deinit_nodes as be = Some be' \<and> ba_heap be' = ba_heap be |` (- set as)
     \<and> hlist be' = map (filter (\<lambda>a. a \<notin> set as)) (hlist be) \<and> current_ba_node be' = current_ba_node be
     \<and> entry_bag be' = entry_bag be"
  using assms
proof (induction as arbitrary: be)
  case Nil
  then show ?case by (simp add: restrict_map_def)
next
  case (Cons a as)
  obtain n where n: "ba_heap be a = Some n" "buf_shape (rx_ba n)" using Cons.prems(1) by auto
  obtain e' nd' where fl: "flush_reorder_buffer (ba_io be) (rx_ba n) = Some (e', nd')"
    "mset (skb_list e') + mset (freed e') = mset (skb_list (ba_io be)) + mset (freed (ba_io be)) + held (rx_ba n)"
    using flush_all [OF n(2)] by blast
  let ?be = "free_ba_node a (be\<lparr>ba_io := e'\<rparr>)"
  have "(\<Sum>b \<in> dom (ba_heap ?be). held (rx_ba (the (ba_heap ?be b))))
      = (\<Sum>b \<in> dom (ba_heap be) - {a}. held (rx_ba (the (ba_heap be b))))"
    by (auto simp: free_ba_node_def intro!: sum.cong)
  then have bag: "entry_bag ?be = entry_bag be"
    using fl(2) n(1) sum.remove [OF Cons.prems(3), of a "\<lambda>b. held (rx_ba (the (ba_heap be b)))"]
    by (simp add: entry_bag_def entry_held_def domI ac_simps) (simp add: free_ba_node_def)
  have pre: "\<forall>b \<in> set as. \<exists>n. ba_heap ?be b = Some n \<and> buf_shape (rx_ba n)" "distinct as"
    "finite (dom (ba_heap ?be))"
    using Cons.prems by (auto simp: free_ba_node_def)
  obtain be' where "deinit_nodes as ?be = Some be'" "ba_heap be' = ba_heap ?be |` (- set as)"
     "hlist be' = map (filter (\<lambda>a. a \<notin> set as)) (hlist ?be)"
     "current_ba_node be' = current_ba_node ?be" "entry_bag be' = entry_bag ?be"
    using Cons.IH [OF pre] by blast
  moreover have "ba_heap ?be |` (- set as) = ba_heap be |` (- set (a # as))"
    by (auto simp: free_ba_node_def restrict_map_def fun_eq_iff)
  moreover have "map (filter (\<lambda>a. a \<notin> set as)) (hlist ?be) = map (filter (\<lambda>b. b \<notin> set (a # as))) (hlist be)"
    by (auto simp: free_ba_node_def removeAll_filter_not_eq filter_filter conj_commute intro!: filter_cong)
  ultimately show ?case using n(1) fl(1) bag by (simp add: free_ba_node_def)
qed

text \<open>The lists from \<open>i\<close> on hold live, well-shaped nodes, each node once.\<close>

definition lists_ok :: "nat \<Rightarrow> sprdwl_rx_ba_entry \<Rightarrow> bool" where
  "lists_ok i be \<longleftrightarrow> finite (dom (ba_heap be)) \<and>
     (\<forall>t. i \<le> t \<and> t < length (hlist be) \<longrightarrow> distinct (hlist be ! t)
        \<and> (\<forall>a \<in> set (hlist be ! t). (\<exists>n. ba_heap be a = Some n \<and> buf_shape (rx_ba n)))
        \<and> (\<forall>u < length (hlist be). u \<noteq> t \<longrightarrow> set (hlist be ! u) \<inter> set (hlist be ! t) = {}))"

lemma lists_okD:
  assumes "lists_ok i be" and "i \<le> t" and "t < length (hlist be)"
  shows "distinct (hlist be ! t)" and "\<forall>a \<in> set (hlist be ! t). \<exists>n. ba_heap be a = Some n \<and> buf_shape (rx_ba n)"
    and "\<forall>u < length (hlist be). u \<noteq> t \<longrightarrow> set (hlist be ! u) \<inter> set (hlist be ! t) = {}"
  using assms unfolding lists_ok_def by blast+

lemma deinit_lists_ok:
  assumes "lists_ok i be" and "i + k = length (hlist be)"
  shows "\<exists>be'. deinit_lists k i be = Some be'
     \<and> ba_heap be' = ba_heap be |` (- (\<Union>t \<in> {i..<i + k}. set (hlist be ! t)))
     \<and> hlist be' = take i (hlist be) @ replicate k []
     \<and> current_ba_node be' = current_ba_node be \<and> entry_bag be' = entry_bag be"
  using assms
proof (induction k arbitrary: i be)
  case 0
  then show ?case by (simp add: restrict_map_def)
next
  case (Suc k)
  let ?h = "hlist be"
  have i: "i < length ?h" using Suc.prems(2) by simp
  have h: "distinct (?h ! i)" "\<forall>a \<in> set (?h ! i). \<exists>n. ba_heap be a = Some n \<and> buf_shape (rx_ba n)"
    "finite (dom (ba_heap be))"
    using Suc.prems(1) i by (auto simp: lists_ok_def)
  obtain be1 where s: "deinit_nodes (?h ! i) be = Some be1" "ba_heap be1 = ba_heap be |` (- set (?h ! i))"
    "hlist be1 = map (filter (\<lambda>a. a \<notin> set (?h ! i))) ?h" "current_ba_node be1 = current_ba_node be"
    "entry_bag be1 = entry_bag be"
    using deinit_nodes_ok [OF h(2,1,3)] by blast
  have h1: "hlist be1 = ?h[i := []]"
  proof (rule nth_equalityI)
    fix t assume "t < length (hlist be1)"
    then have t: "t < length ?h" by (simp add: s(3))
    show "hlist be1 ! t = ?h[i := []] ! t"
    proof (cases "t = i")
      case True
      then show ?thesis using i by (simp add: s(3) filter_empty_conv)
    next
      case False
      then have "set (?h ! t) \<inter> set (?h ! i) = {}"
        using Suc.prems(1) i t by (simp add: lists_ok_def)
      then have "filter (\<lambda>a. a \<notin> set (?h ! i)) (?h ! t) = ?h ! t"
        by (intro filter_True) auto
      then show ?thesis using False t by (simp add: s(3))
    qed
  qed (simp add: s(3))
  have "lists_ok (Suc i) be1"
    unfolding lists_ok_def
  proof (intro conjI allI impI)
    show "finite (dom (ba_heap be1))" using h(3) by (simp add: s(2))
    fix t assume "Suc i \<le> t \<and> t < length (hlist be1)"
    then have t: "Suc i \<le> t" "t < length ?h" by (simp_all add: h1)
    then have ok: "distinct (?h ! t)" "\<forall>a \<in> set (?h ! t). \<exists>n. ba_heap be a = Some n \<and> buf_shape (rx_ba n)"
      "\<forall>u < length ?h. u \<noteq> t \<longrightarrow> set (?h ! u) \<inter> set (?h ! t) = {}"
      using lists_okD [OF Suc.prems(1), of t] by simp_all
    show "distinct (hlist be1 ! t)" using ok(1) t by (simp add: h1)
    have dis: "set (?h ! i) \<inter> set (?h ! t) = {}" using ok(3) i t by simp
    show "\<forall>a \<in> set (hlist be1 ! t). \<exists>n. ba_heap be1 a = Some n \<and> buf_shape (rx_ba n)"
    proof
      fix a assume "a \<in> set (hlist be1 ! t)"
      then have "a \<in> set (?h ! t)" using t by (simp add: h1)
      then show "\<exists>n. ba_heap be1 a = Some n \<and> buf_shape (rx_ba n)"
        using ok(2) dis by (auto simp: s(2) restrict_map_def)
    qed
    show "set (hlist be1 ! u) \<inter> set (hlist be1 ! t) = {}" if "u < length (hlist be1)" "u \<noteq> t" for u
      using ok(3) that t by (cases "u = i") (simp_all add: h1)
  qed
  then obtain be' where l: "deinit_lists k (Suc i) be1 = Some be'"
    "ba_heap be' = ba_heap be1 |` (- (\<Union>t \<in> {Suc i..<Suc i + k}. set (hlist be1 ! t)))"
    "hlist be' = take (Suc i) (hlist be1) @ replicate k []"
    "current_ba_node be' = current_ba_node be1" "entry_bag be' = entry_bag be1"
    using Suc.IH [of "Suc i" be1] Suc.prems(2) by (auto simp: h1)
  have "(\<Union>t \<in> {Suc i..<Suc i + k}. set (hlist be1 ! t)) = (\<Union>t \<in> {Suc i..<Suc i + k}. set (?h ! t))"
    by (intro SUP_cong) (simp_all add: h1)
  moreover have "{i..<i + Suc k} = insert i {Suc i..<Suc i + k}" by auto
  ultimately have "ba_heap be' = ba_heap be |` (- (\<Union>t \<in> {i..<i + Suc k}. set (?h ! t)))"
    by (simp add: l(2) s(2) Compl_Un inf_commute Diff_eq)
  moreover have "hlist be' = take i ?h @ replicate (Suc k) []"
    using i by (simp add: l(3) h1 take_Suc_conv_app_nth)
  ultimately show ?case
    using i s(1,4,5) l(1,4,5) by simp
qed

lemma sprdwl_reorder_deinit_ok:
  assumes wf: "entry_wf be" and sh: "entry_shape be"
  shows "\<exists>be'. sprdwl_reorder_deinit be = Some be' \<and> ba_heap be' = Map.empty
     \<and> hlist be' = replicate NUM_TIDS [] \<and> current_ba_node be' = current_ba_node be
     \<and> entry_bag be' = entry_bag be"
proof -
  note mem = entry_wfD(3) [OF wf]
  have "lists_ok 0 be"
    unfolding lists_ok_def using finite_ba_heap [OF wf] entry_wfD(1,2) [OF wf] mem sh
    by (auto simp: entry_shape_def)
  from deinit_lists_ok [OF this, of NUM_TIDS] obtain be' where d:
    "sprdwl_reorder_deinit be = Some be'" "hlist be' = replicate NUM_TIDS []"
    "ba_heap be' = ba_heap be |` (- (\<Union>t \<in> {0..<NUM_TIDS}. set (hlist be ! t)))"
    "current_ba_node be' = current_ba_node be" "entry_bag be' = entry_bag be"
    using entry_wfD(1) [OF wf] by (auto simp: sprdwl_reorder_deinit_def)
  have "dom (ba_heap be) \<subseteq> (\<Union>t \<in> {0..<NUM_TIDS}. set (hlist be ! t))"
    using mem entry_wfD(4) [OF wf] by fastforce
  then have "ba_heap be' = Map.empty"
    unfolding d(3) by (auto simp: restrict_map_def fun_eq_iff)
  with d show ?thesis by blast
qed

end
