(* ===== verification/Reorder_Correct.thy ===== *)
theory Reorder_Correct
  imports Reorder_Ops
begin

text \<open>
  What block-ack reordering guarantees, from one received MSDU to the whole table of
  sessions, with a concrete session on which each statement is exercised.
\<close>

section \<open>Sequence and packet numbers of what is delivered\<close>

lemma window_seq:
  assumes wf: "wf_at nd b w" and i: "i < w" and occ: "occupied (window_from nd b w ! i)"
  shows "pd_seq (pkt_desc (window_from nd b w ! i)) = SEQNO_ADD b (of_nat i)"
proof -
  let ?L = "length (reorder_buffer nd)" and ?s = "b + of_nat i" and ?p = "window_from nd b w ! i"
  note shape = wf_at_shape [OF wf]
  have b: "seqno b" and wL: "w \<le> ?L" using wf by (auto simp: wf_at_def)
  have p: "?p = reorder_buffer nd ! slot_index nd ?s" using i by (simp add: window_from_def)
  have j: "slot_index nd ?s < ?L" by (rule slot_index_less [OF shape])
  with wf have "slot_ok nd b w (slot_index nd ?s)" by (simp add: wf_at_def)
  with occ have q: "seqno (pd_seq (pkt_desc ?p))" "unat (pd_seq (pkt_desc ?p)) mod ?L = slot_index nd ?s"
    "unat (SEQNO_SUB (pd_seq (pkt_desc ?p)) b) < w"
    by (simp_all add: slot_ok_def p Let_def)
  have i16: "unat (of_nat i :: u16) = i"
    using i wL buf_shape_dvd [OF shape] dvd_imp_le [of ?L 4096] by (simp add: unat_of_nat take_bit_eq_mod)
  let ?t = "SEQNO_ADD b (of_nat i)"
  have ti: "unat (SEQNO_SUB ?t b) = i"
    using seq.sub_add [OF b, of "of_nat i"] i i16 wL buf_shape_dvd [OF shape] dvd_imp_le [of ?L 4096] by simp
  have tm: "slot_index nd ?t = slot_index nd ?s"
    using slot_index_m12 [OF shape, of ?s] m12_win [OF b, of "of_nat i"] by simp
  show ?thesis
  proof (rule seq.slot_inject [OF q(1) seqno_SEQNO_ADD b buf_shape_dvd [OF shape]])
    show "unat (SEQNO_SUB (pd_seq (pkt_desc ?p)) b) < ?L" "unat (SEQNO_SUB ?t b) < ?L"
      using q(3) ti i wL by simp_all
    show "unat (pd_seq (pkt_desc ?p)) mod ?L = unat ?t mod ?L"
      using q(2) tm by (simp add: slot_index_mod [OF shape])
  qed
qed

lemma complete_occupied:
  assumes wf: "wf_at nd b w" and i: "i < w" and c: "complete (window_from nd b w ! i)"
  shows "occupied (window_from nd b w ! i)"
proof -
  have "window_from nd b w ! i = reorder_buffer nd ! slot_index nd (b + of_nat i)"
    using i by (simp add: window_from_def)
  with c show ?thesis
    using wf_at_last_occupied [OF wf slot_index_less [OF wf_at_shape [OF wf]]] by (simp add: complete_def)
qed

lemma run_seqs:
  assumes wf: "wf_at nd b w"
  shows "map (\<lambda>p. pd_seq (pkt_desc p)) (takeWhile complete (window_from nd b w))
    = map (\<lambda>i. SEQNO_ADD b (of_nat i)) [0..<length (takeWhile complete (window_from nd b w))]"
proof (rule nth_equalityI)
  let ?v = "window_from nd b w" let ?r = "takeWhile complete ?v"
  fix i assume "i < length (map (\<lambda>p. pd_seq (pkt_desc p)) ?r)"
  then have i: "i < length ?r" by simp
  then have iw: "i < w" using length_takeWhile_le [of complete ?v] by simp
  have v: "?r ! i = ?v ! i" using i by (rule takeWhile_nth)
  have "complete (?r ! i)" using i nth_mem set_takeWhileD by metis
  then show "map (\<lambda>p. pd_seq (pkt_desc p)) ?r ! i = map (\<lambda>i. SEQNO_ADD b (of_nat i)) [0..<length ?r] ! i"
    using window_seq [OF wf iw] complete_occupied [OF wf iw] i v by simp
qed simp

lemma between_seqlo_seqhi_spec:
  assumes wf: "ba_wf nd"
  defines "view \<equiv> window_from nd (win_start nd) (unat (win_size nd))"
  defines "run \<equiv> takeWhile complete view"
  shows "\<exists>nd'. between_seqlo_seqhi e nd = Some (fst (deliver_pkts e nd run), nd') \<and> ba_wf nd'
     \<and> win_start nd' = SEQNO_ADD (win_start nd) (of_nat (length run))
     \<and> unat (buff_cnt nd') + length run = unat (buff_cnt nd)"
proof -
  have wf0: "wf_at nd (win_start nd) (unat (win_size nd))" using wf by (simp add: ba_wf_def)
  obtain nd' where r: "send_msdu_in_order e nd = Some (fst (deliver_pkts e nd run), nd',
       SEQNO_ADD (win_start nd) (of_nat (length run)))"
    "wf_at nd' (SEQNO_ADD (win_start nd) (of_nat (length run))) (unat (win_size nd) - length run)"
    "same_window nd nd'" "unat (buff_cnt nd') + length run = unat (buff_cnt nd)"
    unfolding run_def view_def by (rule send_msdu_in_order_spec [OF wf0])
  have "ba_static nd'" using ba_static_same_window [OF r(3)] ba_wf_static [OF wf] by simp
  from ba_wf_restart [OF r(2) _ this] r(1,3,4) show ?thesis
    by (auto simp: between_seqlo_seqhi_def same_window_def)
qed

text \<open>Packet numbers as 48-bit values.\<close>

definition pn48 :: "u16 \<Rightarrow> u32 \<Rightarrow> nat" where
  "pn48 h l = unat h * 2 ^ 32 + unat l"

lemma pn48_less:
  "pn48 h l < pn48 h' l' \<longleftrightarrow> h < h' \<or> (h = h' \<and> l < l')"
proof -
  have l: "unat l < 2 ^ 32" "unat l' < 2 ^ 32" using unsigned_less [of l] unsigned_less [of l'] by simp_all
  show ?thesis
    using l by (cases "unat h" "unat h'" rule: linorder_cases)
      (auto simp: pn48_def word_less_nat_alt word_unat_eq_iff)
qed

lemma replay_detection_accepts:
  assumes "has_pn (pd_cipher_type pd)" and "\<not> nd_reset_pn nd"
  shows "fst (replay_detection pd nd) \<longleftrightarrow> pn48 (nd_pn_h nd) (nd_pn_l nd) < pn48 (pd_pn_h pd) (pd_pn_l pd)"
    and "fst (replay_detection pd nd) \<Longrightarrow>
      pn48 (nd_pn_h (snd (replay_detection pd nd))) (nd_pn_l (snd (replay_detection pd nd)))
        = pn48 (pd_pn_h pd) (pd_pn_l pd)"
  using assms by (auto simp: replay_detection_def pn48_less Let_def)

section \<open>A concrete session\<close>

text \<open>
  Station 3, TID 5, a window of 8 numbers from 100 on, hence 64 slots.
\<close>

definition ex_md :: "u16 \<Rightarrow> rx_msdu_desc" where
  "ex_md s = \<lparr>msdu_offset = 0, msdu_len = 0, last_msdu_of_mpdu = True, sta_lut_index = 3, bc_mc_flag = False,
     snap_hdr_present = False, qos_flag = True, tid = 5, seq_num = s, pn_l = 0, pn_h = 0, frag_num = 0,
     more_frag_bit = False, cipher_type = 0\<rparr>"

definition ex_skb :: "u16 \<Rightarrow> sk_buff" where
  "ex_skb s = \<lparr>skb_desc = ex_md s, skb_data = []\<rparr>"

definition ex_io :: skb_io where
  "ex_io = \<lparr>skb_list = [], freed = []\<rparr>"

definition ex_nd :: rx_ba_node_desc where
  "ex_nd = set_ba_node_desc (kzalloc_rx_ba 64) 100 8 63"

definition ex_node :: rx_ba_node where
  "ex_node = (init_ba_node 3 5 ex_nd)\<lparr>active := True\<rparr>"

definition ex_entry :: sprdwl_rx_ba_entry where
  "ex_entry = \<lparr>ba_heap = [7 \<mapsto> ex_node], hlist = (replicate 8 [])[5 := [7]], current_ba_node = None,
     ba_io = ex_io\<rparr>"

lemma get_index_size_16: "get_index_size 16 = Some 64"
  by (subst get_index_size_def, subst grow_index_size.simps) (simp add: MIN_INDEX_SIZE_def)

lemma ex_nd_wf: "ba_wf ex_nd"
  using fresh_session_wf [of 8 64 100] by (simp add: ex_nd_def get_index_size_16 seqno_def INDEX_SIZE_MASK_def)

lemma rx_ba_ex_node [simp]: "rx_ba ex_node = ex_nd"
  by (simp add: ex_node_def init_ba_node_def)

lemma ex_node_simps [simp]:
  "active ex_node" "\<not> reorder_timer_pending ex_node" "node_tid ex_node = 5" "node_sta_lut_index ex_node = 3"
  by (simp_all add: ex_node_def init_ba_node_def)

lemma ex_nd_room: "msdu_room ex_nd"
  by (simp add: msdu_room_def ex_nd_def set_ba_node_desc_def kzalloc_rx_ba_def)

lemma ex_md_simps [simp]:
  "seq_num (ex_md s) = s" "tid (ex_md s) = 5" "sta_lut_index (ex_md s) = 3" "last_msdu_of_mpdu (ex_md s)"
  by (simp_all add: ex_md_def)

lemma ex_entry_wf: "entry_wf ex_entry"
  by (rule entry_wfI)
    (auto simp: ex_entry_def NUM_TIDS_def nth_list_update split: if_splits)

lemma ex_entry_shape: "entry_shape ex_entry"
  using ba_wf_shape [OF ex_nd_wf] by (simp add: entry_shape_def ex_entry_def)

section \<open>Properties\<close>

text \<open>
  C1. On a sound session table the receive path of block-ack reordering never faults, for
  any sequence of received buffers: the table stays sound, and afterwards every buffer that
  was given to it is in the output queue, freed, or in the reorder buffer of a session,
  exactly once.
\<close>

theorem reorder_run_total_and_conserving:
  assumes "entry_wf be" and "entry_shape be"
  shows "\<exists>be'. run_stage (\<lambda>be k. reorder_data_process be (Some k)) be ps = Some be'
     \<and> entry_wf be' \<and> entry_shape be' \<and> entry_bag be' = entry_bag be + mset ps"
  using reorder.run_ok [of be ps] assms by blast

theorem reorder_run_total_and_conserving_witness:
  "\<exists>be'. run_stage (\<lambda>be k. reorder_data_process be (Some k)) ex_entry [ex_skb 102, ex_skb 100, ex_skb 101] = Some be'
     \<and> entry_wf be' \<and> entry_shape be'
     \<and> entry_bag be' = entry_bag ex_entry + mset [ex_skb 102, ex_skb 100, ex_skb 101]"
  by (rule reorder_run_total_and_conserving [OF ex_entry_wf ex_entry_shape])

text \<open>
  C3. The window invariant is kept by the receive step of a session, for a buffer or for the
  filter event without one, as long as the missing buffer is not queued and no MPDU has
  65535 MSDUs: used slots hold numbers of the window, in the slot of their number, and
  \<open>buff_cnt\<close> counts them.
\<close>

theorem reorder_window_invariant:
  assumes "ba_wf (rx_ba node)" and "seqno (seq_num md)" and "msdu_room (rx_ba node)"
    and "skb \<noteq> None \<or> \<not> null_queued md node"
  shows "\<exists>e' node'. reorder_msdu_process e md skb node = Some (e', node') \<and> ba_wf (rx_ba node')"
  by (rule reorder_msdu_process_wf [OF assms])

theorem reorder_window_invariant_witness:
  "\<exists>e' node'. reorder_msdu_process ex_io (ex_md 103) (Some (ex_skb 103)) ex_node = Some (e', node')
     \<and> ba_wf (rx_ba node')"
  by (rule reorder_window_invariant) (simp_all add: ex_nd_wf ex_nd_room seqno_def)

text \<open>
  The receive step of a session faults exactly when it is called without a buffer and
  queues that missing buffer: on a session that is not active, or for a number before both
  the window and its initial start.
\<close>

theorem reorder_fault_iff:
  assumes "ba_wf (rx_ba node)" and "seqno (seq_num md)" and "msdu_room (rx_ba node)"
  shows "reorder_msdu_process e md skb node = None \<longleftrightarrow> skb = None \<and> null_queued md node"
  by (rule reorder_msdu_process_None_iff [OF assms])

theorem reorder_fault_iff_witness:
  "reorder_msdu_process ex_io (ex_md 4000) None ex_node = None"
  using reorder_fault_iff [of ex_node "ex_md 4000" ex_io None] ex_nd_wf ex_nd_room
  by (simp add: seqno_def null_queued_def seqno_geq_def seqno_leq_def MAX_SEQNO_BY_TWO_def)
    (simp add: ex_nd_def set_ba_node_desc_def)

text \<open>
  C4. In-order delivery is the longest run of complete MPDUs from the start of the window:
  the slide delivers exactly that run, its numbers are consecutive from \<open>win_start\<close> on, and
  the window starts after it.
\<close>

theorem in_order_delivery:
  assumes wf: "ba_wf nd"
  shows "\<exists>run nd'. run = takeWhile complete (window_from nd (win_start nd) (unat (win_size nd)))
     \<and> between_seqlo_seqhi e nd = Some (fst (deliver_pkts e nd run), nd') \<and> ba_wf nd'
     \<and> win_start nd' = SEQNO_ADD (win_start nd) (of_nat (length run))
     \<and> map (\<lambda>p. pd_seq (pkt_desc p)) run = map (\<lambda>i. SEQNO_ADD (win_start nd) (of_nat i)) [0..<length run]
     \<and> unat (buff_cnt nd') + length run = unat (buff_cnt nd)"
  using between_seqlo_seqhi_spec [OF wf, of e] run_seqs [of nd "win_start nd" "unat (win_size nd)"] wf
  by (auto simp: ba_wf_def)

theorem in_order_delivery_witness:
  "\<exists>run nd'. run = takeWhile complete (window_from ex_nd (win_start ex_nd) (unat (win_size ex_nd)))
     \<and> between_seqlo_seqhi ex_io ex_nd = Some (fst (deliver_pkts ex_io ex_nd run), nd') \<and> ba_wf nd'
     \<and> win_start nd' = SEQNO_ADD (win_start ex_nd) (of_nat (length run))
     \<and> map (\<lambda>p. pd_seq (pkt_desc p)) run
         = map (\<lambda>i. SEQNO_ADD (win_start ex_nd) (of_nat i)) [0..<length run]
     \<and> unat (buff_cnt nd') + length run = unat (buff_cnt ex_nd)"
  by (rule in_order_delivery [OF ex_nd_wf])

text \<open>
  The reorder timer never faults and keeps the window invariant; when a complete MPDU is
  buffered no later than \<open>win_tail\<close>, it makes progress: fewer slots are used afterwards.
\<close>

theorem timer_progress:
  assumes "ba_wf (rx_ba node)" and "active node" and "\<not> reorder_timer_pending node"
    and "i < unat (win_size (rx_ba node))"
    and "\<forall>j \<le> i. seqno_leq (SEQNO_ADD (win_start (rx_ba node)) (of_nat j)) (win_tail (rx_ba node))"
    and "complete (reorder_buffer (rx_ba node) ! slot_index (rx_ba node)
          (SEQNO_ADD (win_start (rx_ba node)) (of_nat i)))"
  shows "\<exists>e' node' d k. ba_reorder_timeout e node = Some (e', node', d, k) \<and> ba_wf (rx_ba node')
    \<and> unat (buff_cnt (rx_ba node')) < unat (buff_cnt (rx_ba node))"
  using ba_reorder_timeout_progress [OF assms, of e] ba_reorder_timeout_wf [OF assms(1), of e] by fastforce

text \<open>The session after MPDU 101 arrived ahead of 100.\<close>

definition ex_pkt :: rx_ba_pkt where
  "ex_pkt = \<lparr>pkt_skbs = [ex_skb 101],
     pkt_desc = (set_ba_pkt_desc zero_pkt_desc (ex_md 101))\<lparr>pd_last := True, pd_msdu_num := 1\<rparr>\<rparr>"

definition ex_nd1 :: rx_ba_node_desc where
  "ex_nd1 = ex_nd\<lparr>reorder_buffer := (reorder_buffer ex_nd)[37 := ex_pkt], buff_cnt := 1\<rparr>"

definition ex_node1 :: rx_ba_node where
  "ex_node1 = ex_node\<lparr>rx_ba := ex_nd1\<lparr>win_tail := 101\<rparr>\<rparr>"

lemma ex_nd_simps:
  "win_start ex_nd = 100" "win_size ex_nd = 8" "win_limit ex_nd = 107" "win_start_init ex_nd = 100"
  "index_mask ex_nd = 63" "buff_cnt ex_nd = 0" "reorder_buffer ex_nd = replicate 64 zero_pkt"
  by (simp_all add: ex_nd_def set_ba_node_desc_def kzalloc_rx_ba_def SEQNO_ADD_def SEQNO_MASK_def)

lemma ex_insert: "insert_msdu (ex_md 101) (Some (ex_skb 101)) ex_nd = Some (0, ex_nd1)"
  by (simp add: insert_msdu_def Let_def slot_index_def ex_nd_simps joint_msdu_def ex_nd1_def ex_pkt_def)
    (simp add: zero_pkt_def)

lemma ex_nd1_wf: "ba_wf (ex_nd1\<lparr>win_tail := 101\<rparr>)"
  by (rule ba_wf_win_tail, rule insert_msdu_wf [OF ex_nd_wf _ ex_nd_room _ ex_insert])
    (simp_all add: seqno_def ex_nd_simps SEQNO_SUB_def SEQNO_MASK_def)

theorem timer_progress_witness:
  "\<exists>e' node' d k. ba_reorder_timeout ex_io ex_node1 = Some (e', node', d, k) \<and> ba_wf (rx_ba node')
    \<and> unat (buff_cnt (rx_ba node')) < unat (buff_cnt (rx_ba ex_node1))"
proof (rule timer_progress [of ex_node1 1])
  show "\<forall>j\<le>1. seqno_leq (SEQNO_ADD (win_start (rx_ba ex_node1)) (of_nat j)) (win_tail (rx_ba ex_node1))"
    by (auto simp: ex_node1_def ex_nd1_def ex_nd_simps SEQNO_ADD_def SEQNO_MASK_def seqno_leq_def
        MAX_SEQNO_BY_TWO_def le_Suc_eq)
  show "complete (reorder_buffer (rx_ba ex_node1) ! slot_index (rx_ba ex_node1)
      (SEQNO_ADD (win_start (rx_ba ex_node1)) (of_nat 1)))"
    by (simp add: ex_node1_def ex_nd1_def ex_nd_simps SEQNO_ADD_def SEQNO_MASK_def slot_index_def
        complete_def ex_pkt_def)
qed (simp_all add: ex_node1_def ex_nd1_wf, simp add: ex_nd1_def ex_nd_simps)

text \<open>
  For a cipher with packet numbers and without a pending reset, replay detection accepts
  a packet exactly when its 48-bit number is larger than the last accepted one, which it
  then becomes.
\<close>

theorem replay_detection_increasing:
  assumes pn: "has_pn (pd_cipher_type pd)" and rst: "\<not> nd_reset_pn nd" and r: "replay_detection pd nd = (ok, nd')"
  shows "(ok \<longleftrightarrow> pn48 (nd_pn_h nd) (nd_pn_l nd) < pn48 (pd_pn_h pd) (pd_pn_l pd))
    \<and> pn48 (nd_pn_h nd') (nd_pn_l nd')
        = (if ok then pn48 (pd_pn_h pd) (pd_pn_l pd) else pn48 (nd_pn_h nd) (nd_pn_l nd))"
proof (cases ok)
  case True
  then show ?thesis using replay_detection_accepts [OF pn rst] r by simp
next
  case False
  then have "nd' = nd" using r pn rst by (auto simp: replay_detection_def Let_def split: if_splits)
  then show ?thesis using replay_detection_accepts(1) [OF pn rst] r False by simp
qed

definition ex_pd :: rx_ba_pkt_desc where
  "ex_pd = zero_pkt_desc\<lparr>pd_pn_l := 0, pd_pn_h := 1, pd_cipher_type := SPRDWL_HW_CCMP\<rparr>"

theorem replay_detection_increasing_witness:
  "fst (replay_detection ex_pd (ex_nd\<lparr>nd_pn_l := 0xffffffff\<rparr>))"
proof -
  obtain ok nd' where r: "replay_detection ex_pd (ex_nd\<lparr>nd_pn_l := 0xffffffff\<rparr>) = (ok, nd')" by fastforce
  from replay_detection_increasing [OF _ _ r] have ok
    by (simp add: ex_pd_def has_pn_def ex_nd_def set_ba_node_desc_def kzalloc_rx_ba_def pn48_def)
  then show ?thesis by (simp add: r)
qed

text \<open>
  For every window size a firmware can ask for, the computation of the buffer size ends,
  with the smallest power of two that is at least 64 and at least twice the window.
\<close>

theorem index_size_of_window:
  "\<exists>j. 6 \<le> j \<and> j \<le> 17 \<and> get_index_size (2 * ucast (w :: u16)) = Some (2 ^ j) \<and> 2 * unat w \<le> 2 ^ j
     \<and> (6 < j \<longrightarrow> 2 ^ (j - 1) < 2 * unat w)"
proof -
  have w: "unat w < 65536" using unsigned_less [of w] by simp
  then have w2: "unat (2 * ucast w :: u32) = 2 * unat w" by (simp add: unat_word_ariths)
  obtain j where j: "6 \<le> j" "get_index_size (2 * ucast w) = Some (2 ^ j)" "2 * unat w \<le> 2 ^ j"
    "6 < j \<Longrightarrow> 2 ^ (j - 1) < 2 * unat w"
    using get_index_size_spec [of "2 * ucast w"] w unfolding w2 by auto
  have "j \<le> 17"
  proof (rule ccontr)
    assume "\<not> j \<le> 17"
    then have "(2::nat) ^ 17 \<le> 2 ^ (j - 1)" by (intro power_increasing) auto
    with j(4) w \<open>\<not> j \<le> 17\<close> show False by simp
  qed
  with j show ?thesis by blast
qed

theorem index_size_of_window_witness:
  "\<exists>j. 6 \<le> j \<and> j \<le> 17 \<and> get_index_size (2 * ucast (100 :: u16)) = Some (2 ^ j)
     \<and> 2 * unat (100 :: u16) \<le> 2 ^ j \<and> (6 < j \<longrightarrow> 2 ^ (j - 1) < 2 * unat (100 :: u16))"
  by (rule index_size_of_window)

text \<open>
  On a sound table a lookup returns the session of the station and TID exactly when there
  is one, follows no stale pointer, and changes nothing but the cache, which stays sound.
\<close>

theorem find_ba_node_correct:
  assumes "entry_wf be"
  shows "\<exists>r c. find_ba_node be lut t = Some (r, be\<lparr>current_ba_node := c\<rparr>)
    \<and> entry_wf (be\<lparr>current_ba_node := c\<rparr>)
    \<and> (\<forall>a. r = Some a \<longleftrightarrow> (\<exists>n. ba_heap be a = Some n \<and> is_same_ba n lut t))"
  using find_ba_node_ok [OF assms] unfolding has_session_def by blast

theorem find_ba_node_correct_witness:
  "\<exists>c. find_ba_node ex_entry 3 5 = Some (Some 7, ex_entry\<lparr>current_ba_node := c\<rparr>)"
proof -
  have "ba_heap ex_entry 7 = Some ex_node" "is_same_ba ex_node 3 5"
    by (simp_all add: ex_entry_def is_same_ba_def)
  with find_ba_node_correct [OF ex_entry_wf, of 3 5] show ?thesis by metis
qed

text \<open>
  An ADDBA request for a new session, with memory available, a TID below 8, a window of 1
  to 2048 numbers and a 12-bit start, adds one inactive session with an empty window at
  that start; the table stays sound and no buffer moves.
\<close>

theorem addba_creates_session:
  assumes "entry_wf be" and "entry_shape be"
    and "\<forall>b n. ba_heap be b = Some n \<longrightarrow> \<not> is_same_ba n (ev_sta_lut_index ev) (ev_tid ev)"
    and "unat (ev_tid ev) < NUM_TIDS" and "ba_heap be a = None"
    and "0 < unat (ev_win_size ev)" and "unat (ev_win_size ev) \<le> 2048" and "seqno (ev_win_start ev)"
  shows "\<exists>be' n. wlan_addba_event (Some a) True be ev = Some (0, be') \<and> entry_wf be' \<and> entry_shape be'
     \<and> ba_heap be' = (ba_heap be)(a \<mapsto> n) \<and> is_same_ba n (ev_sta_lut_index ev) (ev_tid ev)
     \<and> \<not> active n \<and> ba_wf (rx_ba n) \<and> win_start (rx_ba n) = ev_win_start ev
     \<and> win_size (rx_ba n) = ev_win_size ev \<and> entry_bag be' = entry_bag be"
  using assms by (intro wlan_addba_event_new) (auto simp: has_session_def)

definition ex_event :: sprdwl_event_ba where
  "ex_event = \<lparr>ev_type = SPRDWL_ADDBA_REQ_EVENT, ev_tid = 6, ev_sta_lut_index = 3, ev_win_start = 20,
     ev_win_size = 64\<rparr>"

theorem addba_creates_session_witness:
  "\<exists>be' n. wlan_addba_event (Some 8) True ex_entry ex_event = Some (0, be') \<and> entry_wf be' \<and> entry_shape be'
     \<and> ba_heap be' = (ba_heap ex_entry)(8 \<mapsto> n)
     \<and> is_same_ba n (ev_sta_lut_index ex_event) (ev_tid ex_event)
     \<and> \<not> active n \<and> ba_wf (rx_ba n) \<and> win_start (rx_ba n) = ev_win_start ex_event
     \<and> win_size (rx_ba n) = ev_win_size ex_event \<and> entry_bag be' = entry_bag ex_entry"
  by (rule addba_creates_session [OF ex_entry_wf ex_entry_shape])
    (simp_all add: ex_entry_def ex_event_def is_same_ba_def NUM_TIDS_def seqno_def)

text \<open>
  A repeated ADDBA does not reallocate: the session keeps its buffer and its packets, while
  the mask follows the new window. When the new size exceeds the allocated one, a number of
  the new window whose slot lies behind the buffer makes the receive step of the activated
  session fault.
\<close>

theorem readdba_overruns_buffer:
  assumes "entry_wf be" and "ba_heap be a = Some n" and "is_same_ba n (ev_sta_lut_index ev) (ev_tid ev)"
    and "get_index_size (2 * ucast (ev_win_size ev)) = Some sz"
    and "ev_win_start ev \<noteq> seq_num md" and "seqno_geq (seq_num md) (ev_win_start ev)"
    and "seqno_leq (seq_num md) (SEQNO_ADD (ev_win_start ev) (ev_win_size ev - 1))"
    and "length (reorder_buffer (rx_ba n)) \<le> unat (ucast (seq_num md) AND INDEX_SIZE_MASK sz)"
  shows "\<exists>be' n'. wlan_addba_event mem mem2 be ev = Some (0, be') \<and> ba_heap be' a = Some n'
     \<and> reorder_buffer (rx_ba n') = reorder_buffer (rx_ba n) \<and> buff_cnt (rx_ba n') = 0
     \<and> reorder_msdu_process e md skb (n'\<lparr>active := True\<rparr>) = None"
proof -
  obtain c where "wlan_addba_event mem mem2 be ev = Some (0, put_ba_node a
      (n\<lparr>active := False, rx_ba := set_ba_node_desc (rx_ba n) (ev_win_start ev) (ev_win_size ev)
          (INDEX_SIZE_MASK sz)\<rparr>) (be\<lparr>current_ba_node := c\<rparr>))"
    using wlan_addba_event_again [OF assms(1-4)] by blast
  with assms(5-8) show ?thesis
    by (simp add: put_ba_node_def reorder_msdu_process_def reorder_msdu_def insert_msdu_def Let_def
        set_ba_node_desc_def slot_index_def aget_def)
qed

definition ex_event2 :: sprdwl_event_ba where
  "ex_event2 = \<lparr>ev_type = SPRDWL_ADDBA_REQ_EVENT, ev_tid = 5, ev_sta_lut_index = 3, ev_win_start = 100,
     ev_win_size = 64\<rparr>"

lemma get_index_size_128: "get_index_size 128 = Some 128"
  by (subst get_index_size_def, subst grow_index_size.simps, subst grow_index_size.simps)
    (simp add: MIN_INDEX_SIZE_def push_bit_eq_mult)

theorem readdba_overruns_buffer_witness:
  "\<exists>be' n'. wlan_addba_event None False ex_entry ex_event2 = Some (0, be') \<and> ba_heap be' 7 = Some n'
     \<and> reorder_buffer (rx_ba n') = reorder_buffer (rx_ba ex_node) \<and> buff_cnt (rx_ba n') = 0
     \<and> reorder_msdu_process ex_io (ex_md 120) (Some (ex_skb 120)) (n'\<lparr>active := True\<rparr>) = None"
  by (rule readdba_overruns_buffer [where sz = 128, OF ex_entry_wf])
    (simp_all add: ex_entry_def ex_event2_def is_same_ba_def get_index_size_128 seqno_geq_def seqno_leq_def
      SEQNO_ADD_def SEQNO_MASK_def MAX_SEQNO_BY_TWO_def INDEX_SIZE_MASK_def ex_nd_simps)

text \<open>
  DELBA ends the session of a station and TID: afterwards there is none, the table is
  sound, and of the buffers only those of a session that was not active are lost.
\<close>

theorem delba_removes_session:
  assumes "entry_wf be" and "entry_shape be"
  shows "\<exists>be' lost. wlan_delba_event be ev = Some be' \<and> entry_wf be' \<and> entry_shape be'
     \<and> (\<forall>b n. ba_heap be' b = Some n \<longrightarrow> \<not> is_same_ba n (ev_sta_lut_index ev) (ev_tid ev))
     \<and> entry_bag be' + lost = entry_bag be
     \<and> (lost = {#} \<or> (\<exists>a n. ba_heap be a = Some n \<and> is_same_ba n (ev_sta_lut_index ev) (ev_tid ev)
          \<and> lost = leaked n))"
  using wlan_delba_event_ok [OF assms, of ev] unfolding has_session_def by blast

theorem delba_removes_session_witness:
  "\<exists>be' lost. wlan_delba_event ex_entry ex_event2 = Some be' \<and> entry_wf be' \<and> entry_shape be'
     \<and> (\<forall>b n. ba_heap be' b = Some n \<longrightarrow> \<not> is_same_ba n (ev_sta_lut_index ex_event2) (ev_tid ex_event2))
     \<and> entry_bag be' + lost = entry_bag ex_entry
     \<and> (lost = {#} \<or> (\<exists>a n. ba_heap ex_entry a = Some n
          \<and> is_same_ba n (ev_sta_lut_index ex_event2) (ev_tid ex_event2) \<and> lost = leaked n))"
  by (rule delba_removes_session [OF ex_entry_wf ex_entry_shape])

text \<open>
  When a station leaves, \<open>peer_entry_delba\<close> removes exactly its sessions, delivers nothing
  more, and loses no buffer if its sessions are active.
\<close>

theorem peer_delba_removes_station:
  assumes wf: "entry_wf be" and sh: "entry_shape be"
  shows "\<exists>be' lost. peer_entry_delba be lut = Some be' \<and> entry_wf be' \<and> entry_shape be'
     \<and> (\<forall>a n. ba_heap be' a = Some n \<longleftrightarrow> ba_heap be a = Some n \<and> node_sta_lut_index n \<noteq> lut)
     \<and> entry_bag be' + lost = entry_bag be \<and> skb_list (ba_io be') = skb_list (ba_io be)
     \<and> ((\<forall>a n. ba_heap be a = Some n \<longrightarrow> active n) \<longrightarrow> lost = {#})"
  using peer_delba_loop_ok [OF wf sh, of 0 NUM_TIDS lut] entry_wfD(4) [OF wf]
  by (simp add: peer_entry_delba_def NUM_TIDS_def) blast

theorem peer_delba_removes_station_witness:
  "\<exists>be' lost. peer_entry_delba ex_entry 3 = Some be' \<and> entry_wf be' \<and> entry_shape be'
     \<and> (\<forall>a n. ba_heap be' a = Some n \<longleftrightarrow> ba_heap ex_entry a = Some n \<and> node_sta_lut_index n \<noteq> 3)
     \<and> entry_bag be' + lost = entry_bag ex_entry \<and> skb_list (ba_io be') = skb_list (ba_io ex_entry)
     \<and> ((\<forall>a n. ba_heap ex_entry a = Some n \<longrightarrow> active n) \<longrightarrow> lost = {#})"
  by (rule peer_delba_removes_station [OF ex_entry_wf ex_entry_shape])

text \<open>
  Deinitialisation frees every session and every buffered packet, but keeps the cache: if
  it pointed to a session, the next lookup of any TID follows a pointer to freed memory.
\<close>

theorem deinit_frees_all_leaves_cache:
  assumes wf: "entry_wf be" and sh: "entry_shape be" and cur: "current_ba_node be = Some a" and t: "unat t < NUM_TIDS"
  shows "\<exists>be'. sprdwl_reorder_deinit be = Some be' \<and> ba_heap be' = Map.empty
     \<and> mset (skb_list (ba_io be')) + mset (freed (ba_io be')) = entry_bag be
     \<and> find_ba_node be' lut t = None"
proof -
  obtain be' where d: "sprdwl_reorder_deinit be = Some be'" "ba_heap be' = Map.empty"
    "current_ba_node be' = current_ba_node be" "entry_bag be' = entry_bag be"
    using sprdwl_reorder_deinit_ok [OF wf sh] by blast
  from d(2,4) have "mset (skb_list (ba_io be')) + mset (freed (ba_io be')) = entry_bag be"
    by (simp add: entry_bag_def entry_held_def)
  moreover have "find_ba_node be' lut t = None"
    using t cur d(2,3) by (simp add: find_ba_node_def cached_is_same_ba_def)
  ultimately show ?thesis using d by blast
qed

theorem deinit_frees_all_leaves_cache_witness:
  "\<exists>be'. sprdwl_reorder_deinit (ex_entry\<lparr>current_ba_node := Some 7\<rparr>) = Some be' \<and> ba_heap be' = Map.empty
     \<and> mset (skb_list (ba_io be')) + mset (freed (ba_io be')) = entry_bag (ex_entry\<lparr>current_ba_node := Some 7\<rparr>)
     \<and> find_ba_node be' 3 5 = None"
proof (rule deinit_frees_all_leaves_cache)
  show "entry_wf (ex_entry\<lparr>current_ba_node := Some 7\<rparr>)"
    by (rule entry_wf_current [OF ex_entry_wf]) (simp add: ex_entry_def)
qed (simp_all add: ex_entry_shape NUM_TIDS_def)

text \<open>
  A buffer with a number before the window is a late duplicate. It is freed when its number
  is not before the initial start either; since a session that has moved keeps 0 as initial
  start, the late numbers from 2048 on are not freed but delivered again, without replay
  detection.
\<close>

theorem late_buffer_outcome:
  assumes "active node" and "\<not> seqno_geq (seq_num md) (win_start (rx_ba node))"
    and "win_start_init (rx_ba node) = 0" and "seqno (seq_num md)"
  shows "\<exists>e' node'. reorder_msdu_process e md (Some k) node = Some (e', node')
     \<and> e' = (if unat (seq_num md) < 2048 then kfree_skbs e [k] else e\<lparr>skb_list := skb_list e @ [k]\<rparr>)
     \<and> rx_ba node' = rx_ba node"
proof -
  have ne: "seq_num md \<noteq> win_start (rx_ba node)" using assms(2) by (auto simp: seqno_geq_def)
  have z: "seqno_geq (seq_num md) 0 \<longleftrightarrow> unat (seq_num md) < 2048"
    using assms(4) by (auto simp: seqno_geq_def seqno_leq_nat seqno_def)
  show ?thesis
    using assms(1-3) ne z
    by (auto simp: reorder_msdu_process_def reorder_msdu_def Let_def reorder_set_skb_list_def skb_chain_def
        EINVAL_def)
qed

theorem late_buffer_outcome_witness:
  "\<exists>e' node'. reorder_msdu_process ex_io (ex_md 3000) (Some (ex_skb 3000))
       (ex_node\<lparr>rx_ba := ex_nd\<lparr>win_start_init := 0\<rparr>\<rparr>) = Some (e', node')
     \<and> skb_list e' = [ex_skb 3000]"
  using late_buffer_outcome [of "ex_node\<lparr>rx_ba := ex_nd\<lparr>win_start_init := 0\<rparr>\<rparr>" "ex_md 3000" ex_io "ex_skb 3000"]
  by (auto simp: ex_nd_simps seqno_geq_def seqno_leq_def MAX_SEQNO_BY_TWO_def seqno_def ex_io_def)

end
