(* ===== verification/Defrag.thy ===== *)
theory Defrag
  imports Reorder_Entry
begin

text \<open>
  Reassembly of fragmented MSDUs, \<open>WIFI/defrag.c\<close>. The list of the entry is a list of nodes,
  its first element the head of the C list. Buffers given to \<open>dev_kfree_skb\<close> or
  \<open>skb_queue_purge\<close> are recorded in \<open>d_freed\<close>.

  \<open>dev_alloc_skb\<close> is a parameter: it maps a size to the bytes of fresh memory, whose content is
  not initialised, or to nothing. The bytes \<open>skb_data\<close> of a buffer start with the descriptor,
  which is kept as a record beside them; the frame starts at \<open>msdu_offset\<close>.
\<close>

section \<open>State\<close>

record rx_defrag_node =
  df_sta_lut_index :: u8
  df_tid :: u8
  df_frag_num :: u8
  df_seq_num :: u16
  df_skb_list :: "sk_buff list"
  df_msdu_len :: u32
  last_frag_num :: u8

record sprdwl_rx_defrag_entry =
  df_list :: "rx_defrag_node list"
  df_freed :: "sk_buff list"

definition MAX_DEFRAG_NUM :: nat where "MAX_DEFRAG_NUM = 3"
definition ETH_ALEN :: u16 where "ETH_ALEN = 6"
definition ETH_HLEN :: u16 where "ETH_HLEN = 14"

definition kzalloc_defrag_node :: rx_defrag_node where
  "kzalloc_defrag_node = \<lparr>df_sta_lut_index = 0, df_tid = 0, df_frag_num = 0, df_seq_num = 0,
     df_skb_list = [], df_msdu_len = 0, last_frag_num = 0\<rparr>"

section \<open>Finding the node of a fragment\<close>

definition same_frag_key :: "rx_defrag_node \<Rightarrow> rx_msdu_desc \<Rightarrow> bool" where
  "same_frag_key nd md \<longleftrightarrow> df_sta_lut_index nd = sta_lut_index md \<and> df_tid nd = tid md"

text \<open>The first node of a station and TID, by its position.\<close>

fun key_pos :: "rx_defrag_node list \<Rightarrow> rx_msdu_desc \<Rightarrow> nat option" where
  "key_pos [] md = None"
| "key_pos (nd # nds) md =
     (if same_frag_key nd md then Some 0 else map_option Suc (key_pos nds md))"

definition find_defrag_node ::
  "rx_defrag_node list \<Rightarrow> rx_msdu_desc \<Rightarrow> nat option \<times> rx_defrag_node list" where
  "find_defrag_node nds md =
     (case key_pos nds md of
        None \<Rightarrow> (None, nds)
      | Some i \<Rightarrow>
          (let nd = nds ! i in
           if df_seq_num nd = seq_num md \<and> unat (last_frag_num nd) + 1 = unat (frag_num md)
           then (Some i, nds[i := nd\<lparr>last_frag_num := frag_num md\<rparr>])
           else (None, nds)))"

text \<open>Length of the header that every fragment repeats.\<close>

definition frag_hdr :: "rx_msdu_desc \<Rightarrow> u16" where
  "frag_hdr md = (if snap_hdr_present md then ETH_HLEN else 2 * ETH_ALEN)"

text \<open>\<open>__init_first_frag_node\<close> returns the node and the buffers it purges.\<close>

definition init_first_frag_node ::
  "rx_defrag_node \<Rightarrow> rx_msdu_desc \<Rightarrow> rx_defrag_node \<times> sk_buff list" where
  "init_first_frag_node nd md =
     (nd\<lparr>df_sta_lut_index := sta_lut_index md, df_tid := tid md, df_frag_num := frag_num md,
         df_seq_num := seq_num md, df_skb_list := [],
         df_msdu_len := ucast (frag_hdr md) + ucast (msdu_offset md),
         last_frag_num := frag_num md\<rparr>,
      df_skb_list nd)"

definition list_remove :: "nat \<Rightarrow> 'a list \<Rightarrow> 'a list" where
  "list_remove i xs = take i xs @ drop (Suc i) xs"

text \<open>
  \<open>init_first_defrag_node\<close>: the chosen node is set up for the fragment and goes to the head,
  position 0. With an empty list \<open>list_entry(list.prev)\<close> is not a node.
\<close>

definition take_defrag_node ::
  "sprdwl_rx_defrag_entry \<Rightarrow> rx_msdu_desc \<Rightarrow> nat \<Rightarrow> (nat option \<times> sprdwl_rx_defrag_entry) option" where
  "take_defrag_node de md i =
     do { nd \<leftarrow> aget (df_list de) i;
          (let (nd', purged) = init_first_frag_node nd md
           in Some (Some 0, de\<lparr>df_list := nd' # list_remove i (df_list de),
                               df_freed := df_freed de @ purged\<rparr>)) }"

definition init_first_defrag_node ::
  "sprdwl_rx_defrag_entry \<Rightarrow> rx_msdu_desc \<Rightarrow> (nat option \<times> sprdwl_rx_defrag_entry) option" where
  "init_first_defrag_node de md =
     (case key_pos (df_list de) md of
        Some i \<Rightarrow>
          if \<not> seqno_leq (seq_num md) (df_seq_num (df_list de ! i)) then take_defrag_node de md i
          else Some (None, de)
      | None \<Rightarrow> if df_list de = [] then None else take_defrag_node de md (length (df_list de) - 1))"

definition get_defrag_node ::
  "sprdwl_rx_defrag_entry \<Rightarrow> rx_msdu_desc \<Rightarrow> (nat option \<times> sprdwl_rx_defrag_entry) option" where
  "get_defrag_node de md =
     (if frag_num md \<noteq> 0 then
        (let (r, nds) = find_defrag_node (df_list de) md in Some (r, de\<lparr>df_list := nds\<rparr>))
      else init_first_defrag_node de md)"

section \<open>Reassembly\<close>

definition frag_len :: "rx_msdu_desc \<Rightarrow> u16" where
  "frag_len md = msdu_len md - frag_hdr md"

definition frag_offset :: "rx_msdu_desc \<Rightarrow> u16" where
  "frag_offset md = ucast (msdu_offset md) + frag_hdr md"

text \<open>The loop that copies the payload of the other fragments.\<close>

fun copy_frags :: "u8 list \<Rightarrow> u16 \<Rightarrow> sk_buff list \<Rightarrow> u8 list option" where
  "copy_frags buf offset [] = Some buf"
| "copy_frags buf offset (p # ps) =
     do { bs \<leftarrow> read_bytes (skb_data p) (unat (frag_offset (skb_desc p))) (unat (frag_len (skb_desc p)));
          buf' \<leftarrow> memcpy_at buf (unat offset) bs;
          copy_frags buf' (offset + frag_len (skb_desc p)) ps }"

text \<open>
  All fragments are there: the first buffer of the queue is copied into a new one of the
  length of the MSDU, its descriptor with the length of the whole. A buffer is its descriptor and
  the frame behind it; what the copy leaves of the old descriptor bytes is not modelled.
\<close>

definition join_frags ::
  "(nat \<Rightarrow> u8 list option) \<Rightarrow> rx_defrag_node \<Rightarrow> sk_buff option option" where
  "join_frags dev_alloc_skb nd =
     (case df_skb_list nd of
        [] \<Rightarrow> Some None
      | skb # rest \<Rightarrow>
          (let md = skb_desc skb;
               offset = of_nat (msdu_total_len md) :: u16;
               md' = md\<lparr>msdu_len := ucast (df_msdu_len nd - ucast (msdu_offset md))\<rparr>
           in case dev_alloc_skb (unat (df_msdu_len nd)) of
                None \<Rightarrow> Some None
              | Some mem \<Rightarrow>
                  do { bs \<leftarrow> read_bytes (skb_data skb) 0 (unat offset);
                       buf \<leftarrow> memcpy_at mem 0 bs;
                       buf' \<leftarrow> copy_frags buf offset rest;
                       Some (Some \<lparr>skb_desc = md', skb_data = buf'\<rparr>) }))"

definition defrag_single_data_process ::
  "(nat \<Rightarrow> u8 list option) \<Rightarrow> sprdwl_rx_defrag_entry \<Rightarrow> sk_buff
   \<Rightarrow> (sk_buff option \<times> sprdwl_rx_defrag_entry) option" where
  "defrag_single_data_process dev_alloc_skb de pskb =
     (let md = skb_desc pskb in
      do { (r, de1) \<leftarrow> get_defrag_node de md;
           case r of
             None \<Rightarrow> Some (None, de1\<lparr>df_freed := df_freed de1 @ [pskb]\<rparr>)
           | Some i \<Rightarrow>
               do { nd \<leftarrow> aget (df_list de1) i;
                    (let nd1 = nd\<lparr>df_skb_list := df_skb_list nd @ [pskb],
                                  df_msdu_len := df_msdu_len nd + ucast (frag_len md)\<rparr>
                     in if more_frag_bit md then
                          Some (None, de1\<lparr>df_list := (df_list de1)[i := nd1]\<rparr>)
                        else
                          do { skb \<leftarrow> join_frags dev_alloc_skb nd1;
                               Some (skb,
                                 de1\<lparr>df_list := list_remove i (df_list de1)
                                                @ [nd1\<lparr>df_skb_list := []\<rparr>],
                                     df_freed := df_freed de1 @ df_skb_list nd1\<rparr>) }) } })"

definition defrag_data_process ::
  "(nat \<Rightarrow> u8 list option) \<Rightarrow> sprdwl_rx_defrag_entry \<Rightarrow> sk_buff
   \<Rightarrow> (sk_buff option \<times> sprdwl_rx_defrag_entry) option" where
  "defrag_data_process dev_alloc_skb de pskb =
     (if frag_num (skb_desc pskb) = 0 \<and> \<not> more_frag_bit (skb_desc pskb) then Some (Some pskb, de)
      else defrag_single_data_process dev_alloc_skb de pskb)"

section \<open>Setup and recovery\<close>

definition purge_node :: "u8 \<Rightarrow> rx_defrag_node \<Rightarrow> rx_defrag_node" where
  "purge_node lut nd = (if lut = df_sta_lut_index nd then nd\<lparr>df_skb_list := []\<rparr> else nd)"

definition sprdwl_defrag_recover ::
  "sprdwl_peer_entry list \<Rightarrow> sprdwl_mode \<Rightarrow> u8 \<Rightarrow> sprdwl_rx_defrag_entry \<Rightarrow> sprdwl_rx_defrag_entry" where
  "sprdwl_defrag_recover peers mode ctx de =
     (if mode = SPRDWL_MODE_STATION \<or> mode = SPRDWL_MODE_P2P_CLIENT then
        (case find (\<lambda>p. peer_ctx_id p = ctx) (take MAX_LUT_NUM peers) of
           None \<Rightarrow> de
         | Some p \<Rightarrow>
             de\<lparr>df_list := map (purge_node (peer_lut_index p)) (df_list de),
                df_freed := df_freed de @ concat (map df_skb_list
                  (filter (\<lambda>nd. peer_lut_index p = df_sta_lut_index nd) (df_list de)))\<rparr>)
      else de)"

text \<open>\<open>mem\<close> tells for each of the three allocations whether it succeeds.\<close>

fun defrag_init_loop :: "bool list \<Rightarrow> rx_defrag_node list \<Rightarrow> int \<times> rx_defrag_node list" where
  "defrag_init_loop [] nds = (0, nds)"
| "defrag_init_loop (ok # mem) nds =
     (if ok then defrag_init_loop mem (kzalloc_defrag_node # nds) else (- ENOMEM, nds))"

definition sprdwl_defrag_init ::
  "bool list \<Rightarrow> sprdwl_rx_defrag_entry \<Rightarrow> int \<times> sprdwl_rx_defrag_entry" where
  "sprdwl_defrag_init mem de =
     (let (ret, nds) = defrag_init_loop (take MAX_DEFRAG_NUM mem) [] in (ret, de\<lparr>df_list := nds\<rparr>))"

definition sprdwl_defrag_deinit :: "sprdwl_rx_defrag_entry \<Rightarrow> sprdwl_rx_defrag_entry" where
  "sprdwl_defrag_deinit de =
     de\<lparr>df_list := [], df_freed := df_freed de @ concat (map df_skb_list (df_list de))\<rparr>"

end
