(* ===== verification/Defrag_Correct.thy ===== *)
theory Defrag_Correct
  imports Defrag
begin

text \<open>
  Reassembly is safe and exact: fragments of a well-formed MSDU are joined to the header of the
  first one and the payloads in order; every buffer is passed on, freed or queued in a node.
\<close>

section \<open>Well-formed fragments\<close>

definition payload_len :: "sk_buff \<Rightarrow> nat" where
  "payload_len k = unat (msdu_len (skb_desc k)) - unat (frag_hdr (skb_desc k))"

definition payload :: "nat \<Rightarrow> sk_buff \<Rightarrow> u8 list" where
  "payload H k = take (payload_len k) (drop H (skb_data k))"

text \<open>
  A buffer as the hardware delivers it: the frame lies inside the data, is at least as long as
  its header, and descriptor and header take \<open>H\<close> bytes, the same for every buffer.
\<close>

definition frag_ok :: "nat \<Rightarrow> sk_buff \<Rightarrow> bool" where
  "frag_ok H k \<longleftrightarrow> unat (msdu_offset (skb_desc k)) + unat (frag_hdr (skb_desc k)) = H
     \<and> unat (frag_hdr (skb_desc k)) \<le> unat (msdu_len (skb_desc k))
     \<and> unat (msdu_offset (skb_desc k)) + unat (msdu_len (skb_desc k)) \<le> length (skb_data k)
     \<and> unat (msdu_offset (skb_desc k)) + unat (msdu_len (skb_desc k)) < 65536
     \<and> unat (frag_num (skb_desc k)) < 16"

lemma unat_frag_hdr: "unat (frag_hdr md) = (if snap_hdr_present md then 14 else 12)"
  by (simp add: frag_hdr_def ETH_HLEN_def ETH_ALEN_def)

lemma frag_ok_simps:
  assumes "frag_ok H k"
  shows "unat (frag_len (skb_desc k)) = payload_len k" and "unat (frag_offset (skb_desc k)) = H"
    and "H + payload_len k = msdu_total_len (skb_desc k)" and "H + payload_len k \<le> length (skb_data k)"
    and "H + payload_len k < 65536" and "length (payload H k) = payload_len k"
  using assms
  by (auto simp: frag_ok_def frag_len_def frag_offset_def payload_len_def payload_def msdu_total_len_def
      unat_sub word_le_nat_alt unat_word_ariths)

definition sum_payload :: "sk_buff list \<Rightarrow> nat" where
  "sum_payload ks = sum_list (map payload_len ks)"

lemma sum_payload_simps [simp]:
  "sum_payload [] = 0" "sum_payload (k # ks) = payload_len k + sum_payload ks"
  "sum_payload (ks @ ls) = sum_payload ks + sum_payload ls"
  by (simp_all add: sum_payload_def)

section \<open>Copying\<close>

lemma copy_frags_total:
  assumes "\<forall>k \<in> set ks. frag_ok H k" and "unat offset + sum_payload ks \<le> length buf"
  shows "\<exists>buf'. copy_frags buf offset ks = Some buf' \<and> length buf' = length buf"
  using assms
proof (induction ks arbitrary: buf offset)
  case Nil
  then show ?case by simp
next
  case (Cons k ks)
  have k: "frag_ok H k" using Cons.prems(1) by simp
  note f = frag_ok_simps [OF k]
  have r: "read_bytes (skb_data k) (unat (frag_offset (skb_desc k))) (unat (frag_len (skb_desc k)))
      = Some (payload H k)"
    using f by (simp add: read_bytes_def payload_def)
  have fit: "unat offset + length (payload H k) \<le> length buf" using Cons.prems(2) f(6) by simp
  obtain buf1 where b: "memcpy_at buf (unat offset) (payload H k) = Some buf1" "length buf1 = length buf"
    using memcpy_at_total [OF fit] by blast
  have "unat (offset + frag_len (skb_desc k)) \<le> unat offset + payload_len k"
    by (simp add: unat_word_ariths f(1))
  then have "unat (offset + frag_len (skb_desc k)) + sum_payload ks \<le> length buf1"
    using Cons.prems(2) b(2) by simp
  with Cons.IH [of "offset + frag_len (skb_desc k)" buf1] Cons.prems(1) r b show ?case by simp
qed

lemma copy_frags_exact:
  assumes "\<forall>k \<in> set ks. frag_ok H k" and "unat offset + sum_payload ks \<le> length buf"
    and "unat offset + sum_payload ks < 65536"
  shows "copy_frags buf offset ks = Some (take (unat offset) buf @ concat (map (payload H) ks)
     @ drop (unat offset + sum_payload ks) buf)"
  using assms
proof (induction ks arbitrary: buf offset)
  case Nil
  then show ?case by simp
next
  case (Cons k ks)
  have k: "frag_ok H k" using Cons.prems(1) by simp
  note f = frag_ok_simps [OF k]
  let ?b = "take (unat offset) buf @ payload H k @ drop (unat offset + payload_len k) buf"
  have "read_bytes (skb_data k) (unat (frag_offset (skb_desc k))) (unat (frag_len (skb_desc k)))
      = Some (payload H k)"
    using f by (simp add: read_bytes_def payload_def)
  moreover have "memcpy_at buf (unat offset) (payload H k) = Some ?b"
    using Cons.prems(2) f(6) by (simp add: memcpy_at_def)
  ultimately have step: "copy_frags buf offset (k # ks) = copy_frags ?b (offset + frag_len (skb_desc k)) ks"
    by simp
  have off: "unat (offset + frag_len (skb_desc k)) = unat offset + payload_len k"
    using Cons.prems(3) by (simp add: unat_word_ariths f(1))
  have "copy_frags ?b (offset + frag_len (skb_desc k)) ks
      = Some (take (unat offset + payload_len k) ?b @ concat (map (payload H) ks)
         @ drop (unat offset + payload_len k + sum_payload ks) ?b)"
    using Cons.IH [of "offset + frag_len (skb_desc k)" ?b] Cons.prems f(6) unfolding off by simp
  moreover have "take (unat offset + payload_len k) ?b = take (unat offset) buf @ payload H k"
    using Cons.prems(2) f(6) by simp
  moreover have "drop (unat offset + payload_len k + sum_payload ks) ?b
      = drop (unat offset + (payload_len k + sum_payload ks)) buf"
    using Cons.prems(2) f(6) by (simp add: ac_simps)
  ultimately show ?case unfolding step by simp
qed

section \<open>Nodes\<close>

text \<open>
  A node that has been used: its length covers the header and everything it queues. A node
  fresh from \<open>kzalloc\<close> is not in this state.
\<close>

definition node_ok :: "nat \<Rightarrow> rx_defrag_node \<Rightarrow> bool" where
  "node_ok H nd \<longleftrightarrow> (\<forall>k \<in> set (df_skb_list nd). frag_ok H k)
     \<and> H + sum_payload (df_skb_list nd) \<le> unat (df_msdu_len nd)
     \<and> unat (df_msdu_len nd) \<le> 65536 * (unat (last_frag_num nd) + 2) \<and> unat (last_frag_num nd) < 16"

definition defrag_ok :: "nat \<Rightarrow> sprdwl_rx_defrag_entry \<Rightarrow> bool" where
  "defrag_ok H de \<longleftrightarrow> df_list de \<noteq> []
     \<and> (\<forall>nd \<in> set (df_list de). nd = kzalloc_defrag_node \<or> node_ok H nd)"

definition defrag_held :: "sprdwl_rx_defrag_entry \<Rightarrow> sk_buff multiset" where
  "defrag_held de = sum_list (map (\<lambda>nd. mset (df_skb_list nd)) (df_list de))"

definition defrag_bag :: "sprdwl_rx_defrag_entry \<Rightarrow> sk_buff multiset" where
  "defrag_bag de = mset (df_freed de) + defrag_held de"

definition alloc_ok :: "(nat \<Rightarrow> u8 list option) \<Rightarrow> bool" where
  "alloc_ok dev_alloc_skb \<longleftrightarrow> (\<forall>n mem. dev_alloc_skb n = Some mem \<longrightarrow> length mem = n)"

lemma join_frags_total:
  assumes ok: "node_ok H nd" and al: "alloc_ok alloc"
  shows "\<exists>r. join_frags alloc nd = Some r"
proof (cases "df_skb_list nd")
  case Nil
  then show ?thesis by (simp add: join_frags_def)
next
  case (Cons k ks)
  note f = frag_ok_simps [of H k]
  have k: "frag_ok H k" "\<forall>k \<in> set ks. frag_ok H k" using ok Cons by (auto simp: node_ok_def)
  have len: "H + payload_len k + sum_payload ks \<le> unat (df_msdu_len nd)" using ok Cons by (simp add: node_ok_def)
  have off: "unat (of_nat (msdu_total_len (skb_desc k)) :: u16) = H + payload_len k"
    using f(3,5) k(1) by (simp add: unat_of_nat take_bit_eq_mod)
  show ?thesis
  proof (cases "alloc (unat (df_msdu_len nd))")
    case None
    with Cons show ?thesis by (simp add: join_frags_def Let_def)
  next
    case (Some mem)
    then have mem: "length mem = unat (df_msdu_len nd)" using al by (simp add: alloc_ok_def)
    let ?bs = "take (H + payload_len k) (skb_data k)"
    have r: "read_bytes (skb_data k) 0 (H + payload_len k) = Some ?bs"
      using f(4) k(1) by (simp add: read_bytes_def)
    have fit: "0 + length ?bs \<le> length mem" using len mem f(4) [OF k(1)] by simp
    obtain buf where b: "memcpy_at mem 0 ?bs = Some buf" "length buf = length mem"
      using memcpy_at_total [OF fit] by blast
    have "\<exists>buf'. copy_frags buf (of_nat (msdu_total_len (skb_desc k))) ks = Some buf'"
      using copy_frags_total [OF k(2), of "of_nat (msdu_total_len (skb_desc k))" buf] len mem b(2) off
      by auto
    with Cons Some r b(1) off show ?thesis by (auto simp: join_frags_def Let_def)
  qed
qed

text \<open>A completed queue: the header and frame of the first fragment, then the other payloads.\<close>

lemma join_frags_exact:
  assumes q: "df_skb_list nd = k # ks" and oks: "frag_ok H k" "\<forall>k \<in> set ks. frag_ok H k"
    and len: "unat (df_msdu_len nd) = H + sum_payload (k # ks)" "H + sum_payload (k # ks) < 65536"
    and mem: "alloc (unat (df_msdu_len nd)) = Some mem" "length mem = unat (df_msdu_len nd)"
  shows "join_frags alloc nd = Some (Some
     \<lparr>skb_desc = (skb_desc k)\<lparr>msdu_len := ucast (df_msdu_len nd - ucast (msdu_offset (skb_desc k)))\<rparr>,
      skb_data = take H (skb_data k) @ concat (map (payload H) (k # ks))\<rparr>)"
proof -
  note f = frag_ok_simps [OF oks(1)]
  let ?off = "of_nat (msdu_total_len (skb_desc k)) :: u16"
  have off: "unat ?off = H + payload_len k"
    using f(3,5) by (simp add: unat_of_nat take_bit_eq_mod)
  let ?bs = "take (H + payload_len k) (skb_data k)"
  have bs: "?bs = take H (skb_data k) @ payload H k"
    by (simp add: payload_def take_add)
  have lbs: "length ?bs = H + payload_len k" using f(4) by simp
  let ?buf = "?bs @ drop (H + payload_len k) mem"
  have "read_bytes (skb_data k) 0 (unat ?off) = Some ?bs"
    using f(4) off by (simp add: read_bytes_def)
  moreover have "memcpy_at mem 0 ?bs = Some ?buf"
    using len(1) mem(2) lbs by (simp add: memcpy_at_def)
  moreover have "copy_frags ?buf ?off ks = Some (?bs @ concat (map (payload H) ks))"
    using copy_frags_exact [OF oks(2), of ?off ?buf] len mem(2) lbs off by simp
  ultimately show ?thesis
    using q mem(1) bs by (simp add: join_frags_def Let_def)
qed

section \<open>One fragment\<close>

lemma key_pos_Some: "key_pos nds md = Some i \<Longrightarrow> i < length nds \<and> same_frag_key (nds ! i) md"
  by (induction nds arbitrary: i) (auto split: if_splits)

lemma frag_ok_H: "frag_ok H k \<Longrightarrow> H \<le> 269"
proof -
  have "unat (msdu_offset (skb_desc k)) < 256" using unsigned_less [of "msdu_offset (skb_desc k)"] by simp
  then show "frag_ok H k \<Longrightarrow> H \<le> 269" by (auto simp: frag_ok_def unat_frag_hdr split: if_splits)
qed

lemma list_remove_set: "i < length xs \<Longrightarrow> set (list_remove i xs) \<subseteq> set xs"
  by (auto simp: list_remove_def dest: in_set_takeD in_set_dropD)

lemma sum_list_remove:
  fixes f :: "'a \<Rightarrow> 'b::comm_monoid_add"
  assumes "i < length xs"
  shows "sum_list (map f (list_remove i xs)) + f (xs ! i) = sum_list (map f xs)"
proof -
  have "sum_list (map f xs) = sum_list (map f (take i xs @ xs ! i # drop (Suc i) xs))"
    using id_take_nth_drop [OF assms] by simp
  then show ?thesis by (simp add: list_remove_def ac_simps)
qed

text \<open>The packets for which a node fresh from \<open>kzalloc\<close> looks like the node of their MSDU.\<close>

definition hits_zero_node :: "rx_msdu_desc \<Rightarrow> bool" where
  "hits_zero_node md \<longleftrightarrow> frag_num md = 1 \<and> sta_lut_index md = 0 \<and> tid md = 0 \<and> seq_num md = 0"

text \<open>The case that goes wrong: such a packet while a node is still unused.\<close>

definition meets_fresh_node :: "sprdwl_rx_defrag_entry \<Rightarrow> rx_msdu_desc \<Rightarrow> bool" where
  "meets_fresh_node de md \<longleftrightarrow> hits_zero_node md \<and> kzalloc_defrag_node \<in> set (df_list de)"

lemma find_defrag_node_cases:
  assumes "find_defrag_node nds md = (r, nds')"
  obtains (miss) "r = None" "nds' = nds"
  | (hit) i where "r = Some i" "i < length nds" "same_frag_key (nds ! i) md" "df_seq_num (nds ! i) = seq_num md"
      "unat (last_frag_num (nds ! i)) + 1 = unat (frag_num md)"
      "nds' = nds[i := (nds ! i)\<lparr>last_frag_num := frag_num md\<rparr>]"
proof (cases "key_pos nds md")
  case None
  with assms show thesis by (intro miss) (simp_all add: find_defrag_node_def)
next
  case (Some i)
  note k = key_pos_Some [OF Some]
  show thesis
  proof (cases "df_seq_num (nds ! i) = seq_num md \<and> unat (last_frag_num (nds ! i)) + 1 = unat (frag_num md)")
    case True
    with assms Some k show thesis by (intro hit [of i]) (simp_all add: find_defrag_node_def Let_def)
  next
    case False
    with assms Some have "r = None" "nds' = nds" by (simp_all only: find_defrag_node_def Let_def option.case if_False prod.inject)
    then show thesis by (rule miss)
  qed
qed

text \<open>What the search for the node of a fragment leaves, node \<open>i\<close> being ready for one more.\<close>

definition ready :: "nat \<Rightarrow> sprdwl_rx_defrag_entry \<Rightarrow> nat \<Rightarrow> bool" where
  "ready H de i \<longleftrightarrow> i < length (df_list de) \<and> node_ok H (df_list de ! i)
     \<and> unat (df_msdu_len (df_list de ! i)) \<le> 65536 * (unat (last_frag_num (df_list de ! i)) + 1)"

lemma find_ready:
  assumes ok: "defrag_ok H de" and k: "unat (frag_num md) < 16" and nz: "\<not> meets_fresh_node de md"
    and i: "i < length (df_list de)" "same_frag_key (df_list de ! i) md" "df_seq_num (df_list de ! i) = seq_num md"
      "unat (last_frag_num (df_list de ! i)) + 1 = unat (frag_num md)"
  defines "de1 \<equiv> de\<lparr>df_list := (df_list de)[i := (df_list de ! i)\<lparr>last_frag_num := frag_num md\<rparr>]\<rparr>"
  shows "defrag_ok H de1 \<and> defrag_bag de1 = defrag_bag de \<and> ready H de1 i"
proof -
  let ?nd = "df_list de ! i"
  have "?nd \<noteq> kzalloc_defrag_node"
  proof
    assume "?nd = kzalloc_defrag_node"
    with i nz show False
      using nth_mem [OF i(1)]
      by (auto simp: meets_fresh_node_def kzalloc_defrag_node_def same_frag_key_def hits_zero_node_def word_unat_eq_iff)
  qed
  then have nd: "node_ok H ?nd" using ok i(1) by (auto simp: defrag_ok_def)
  then have len: "unat (df_msdu_len ?nd) \<le> 65536 * (unat (frag_num md) + 1)"
    using i(4) by (simp add: node_ok_def)
  with nd k have nd1: "node_ok H (?nd\<lparr>last_frag_num := frag_num md\<rparr>)" by (simp add: node_ok_def)
  have "defrag_ok H de1"
    using ok nd1 set_update_subset_insert [of "df_list de" i "?nd\<lparr>last_frag_num := frag_num md\<rparr>"]
    by (auto simp: defrag_ok_def de1_def)
  moreover have "defrag_bag de1 = defrag_bag de"
    using sum_list_map_update [OF i(1), of "\<lambda>nd. mset (df_skb_list nd)" "?nd\<lparr>last_frag_num := frag_num md\<rparr>"]
    by (simp add: defrag_bag_def defrag_held_def de1_def)
  ultimately show ?thesis using i(1) nd1 len by (simp add: ready_def de1_def)
qed

lemma init_ready:
  assumes ok: "defrag_ok H de" and k: "frag_ok H k" and i: "i < length (df_list de)"
    and nd: "init_first_frag_node (df_list de ! i) (skb_desc k) = (nd', purged)"
  defines "de1 \<equiv> de\<lparr>df_list := nd' # list_remove i (df_list de), df_freed := df_freed de @ purged\<rparr>"
  shows "defrag_ok H de1 \<and> defrag_bag de1 = defrag_bag de \<and> ready H de1 0"
proof -
  have len: "unat (df_msdu_len nd') = H" and q: "df_skb_list nd' = []" "purged = df_skb_list (df_list de ! i)"
    and l: "last_frag_num nd' = frag_num (skb_desc k)"
    using nd k frag_ok_H [OF k] by (auto simp: init_first_frag_node_def frag_ok_def unat_word_ariths)
  have nd1: "node_ok H nd'"
    using len q l k frag_ok_H [OF k] by (simp add: node_ok_def frag_ok_def)
  have "defrag_ok H de1"
    using ok nd1 list_remove_set [OF i] by (auto simp: defrag_ok_def de1_def)
  moreover have "defrag_bag de1 = defrag_bag de"
    using sum_list_remove [OF i, of "\<lambda>nd. mset (df_skb_list nd)"] q
    by (simp add: defrag_bag_def defrag_held_def de1_def ac_simps)
  moreover have "ready H de1 0"
    using nd1 len frag_ok_H [OF k] by (simp add: ready_def de1_def)
  ultimately show ?thesis by blast
qed

lemma get_defrag_node_ok:
  assumes ok: "defrag_ok H de" and k: "frag_ok H k" and nz: "\<not> meets_fresh_node de (skb_desc k)"
  shows "\<exists>r de1. get_defrag_node de (skb_desc k) = Some (r, de1) \<and> defrag_ok H de1
     \<and> defrag_bag de1 = defrag_bag de \<and> (\<forall>i. r = Some i \<longrightarrow> ready H de1 i)"
proof (cases "frag_num (skb_desc k) = 0")
  case False
  obtain r nds where f: "find_defrag_node (df_list de) (skb_desc k) = (r, nds)" by fastforce
  have fr: "unat (frag_num (skb_desc k)) < 16" using k by (simp add: frag_ok_def)
  from f show ?thesis
  proof (cases rule: find_defrag_node_cases)
    case miss
    with False f ok show ?thesis by (simp add: get_defrag_node_def)
  next
    case (hit i)
    with False f find_ready [OF ok fr nz hit(2-5)] show ?thesis by (simp add: get_defrag_node_def)
  qed
next
  case True
  have pos: "\<exists>r de1. take_defrag_node de (skb_desc k) i = Some (r, de1) \<and> defrag_ok H de1
      \<and> defrag_bag de1 = defrag_bag de \<and> (\<forall>i. r = Some i \<longrightarrow> ready H de1 i)"
    if i: "i < length (df_list de)" for i
  proof -
    obtain nd' purged where nd: "init_first_frag_node (df_list de ! i) (skb_desc k) = (nd', purged)" by fastforce
    show ?thesis using init_ready [OF ok k i nd] i nd by (simp add: take_defrag_node_def)
  qed
  have ne: "df_list de \<noteq> []" using ok by (simp add: defrag_ok_def)
  show ?thesis
  proof (cases "key_pos (df_list de) (skb_desc k)")
    case None
    with True ne pos [of "length (df_list de) - 1"] show ?thesis
      by (simp add: get_defrag_node_def init_first_defrag_node_def Let_def)
  next
    case (Some i)
    with True ok pos [of i] key_pos_Some [OF Some] show ?thesis
      by (auto simp: get_defrag_node_def init_first_defrag_node_def Let_def)
  qed
qed

lemma defrag_data_process_ok:
  assumes ok: "defrag_ok H de" and k: "frag_ok H k" and nz: "\<not> meets_fresh_node de (skb_desc k)" and al: "alloc_ok alloc"
  shows "\<exists>r de'. defrag_data_process alloc de k = Some (r, de') \<and> defrag_ok H de'
     \<and> (if frag_num (skb_desc k) = 0 \<and> \<not> more_frag_bit (skb_desc k) then r = Some k \<and> de' = de
        else defrag_bag de' = defrag_bag de + {#k#})"
proof (cases "frag_num (skb_desc k) = 0 \<and> \<not> more_frag_bit (skb_desc k)")
  case True
  with ok show ?thesis by (simp add: defrag_data_process_def)
next
  case False
  obtain r de1 where g: "get_defrag_node de (skb_desc k) = Some (r, de1)" "defrag_ok H de1"
    "defrag_bag de1 = defrag_bag de" "\<forall>i. r = Some i \<longrightarrow> ready H de1 i"
    using get_defrag_node_ok [OF ok k nz] by blast
  show ?thesis
  proof (cases r)
    case None
    have "defrag_ok H (de1\<lparr>df_freed := df_freed de1 @ [k]\<rparr>)" using g(2) by (simp add: defrag_ok_def)
    moreover have "defrag_bag (de1\<lparr>df_freed := df_freed de1 @ [k]\<rparr>) = defrag_bag de + {#k#}"
      using g(3) [symmetric] by (simp add: defrag_bag_def defrag_held_def)
    ultimately show ?thesis
      using False g(1) None by (auto simp: defrag_data_process_def defrag_single_data_process_def Let_def)
  next
    case (Some i)
    let ?nd = "df_list de1 ! i"
    let ?nd1 = "?nd\<lparr>df_skb_list := df_skb_list ?nd @ [k], df_msdu_len := df_msdu_len ?nd + ucast (frag_len (skb_desc k))\<rparr>"
    have i: "i < length (df_list de1)" and nd: "node_ok H ?nd"
      and len: "unat (df_msdu_len ?nd) \<le> 65536 * (unat (last_frag_num ?nd) + 1)"
      using g(4) Some by (auto simp: ready_def)
    note f = frag_ok_simps [OF k]
    have plen: "payload_len k < 65536" using f(5) by simp
    have len1: "unat (df_msdu_len ?nd1) = unat (df_msdu_len ?nd) + payload_len k"
      using len nd f(1) plen by (simp add: unat_word_ariths node_ok_def)
    have nd1: "node_ok H ?nd1" "node_ok H (?nd1\<lparr>df_skb_list := []\<rparr>)"
      using nd k len len1 plen by (simp_all add: node_ok_def)
    note rest = list_remove_set [OF i]
    show ?thesis
    proof (cases "more_frag_bit (skb_desc k)")
      case True
      let ?de' = "de1\<lparr>df_list := (df_list de1)[i := ?nd1]\<rparr>"
      have "defrag_ok H ?de'"
        using g(2) nd1(1) set_update_subset_insert [of "df_list de1" i ?nd1] by (auto simp: defrag_ok_def)
      moreover have "defrag_bag ?de' = defrag_bag de + {#k#}"
        using sum_list_map_update [OF i, of "\<lambda>nd. mset (df_skb_list nd)" ?nd1] g(3) [symmetric]
        by (simp add: defrag_bag_def defrag_held_def)
      ultimately show ?thesis
        using True False g(1) Some i by (simp add: defrag_data_process_def defrag_single_data_process_def Let_def)
    next
      case last: False
      obtain out where j: "join_frags alloc ?nd1 = Some out" using join_frags_total [OF nd1(1) al] by blast
      let ?de' = "de1\<lparr>df_list := list_remove i (df_list de1) @ [?nd1\<lparr>df_skb_list := []\<rparr>],
          df_freed := df_freed de1 @ df_skb_list ?nd1\<rparr>"
      have "defrag_ok H ?de'" using g(2) nd1(2) rest by (auto simp: defrag_ok_def)
      moreover have "defrag_bag ?de' = defrag_bag de + {#k#}"
        using sum_list_remove [OF i, of "\<lambda>nd. mset (df_skb_list nd)"] g(3) [symmetric]
        by (simp add: defrag_bag_def defrag_held_def ac_simps)
      ultimately show ?thesis
        using last False g(1) Some i j by (simp add: defrag_data_process_def defrag_single_data_process_def Let_def)
    qed
  qed
qed

section \<open>A whole MSDU\<close>

fun defrag_run ::
  "(nat \<Rightarrow> u8 list option) \<Rightarrow> sprdwl_rx_defrag_entry \<Rightarrow> sk_buff list
   \<Rightarrow> (sk_buff option list \<times> sprdwl_rx_defrag_entry) option" where
  "defrag_run alloc de [] = Some ([], de)"
| "defrag_run alloc de (k # ks) =
     do { (r, de1) \<leftarrow> defrag_data_process alloc de k;
          (rs, de2) \<leftarrow> defrag_run alloc de1 ks;
          Some (r # rs, de2) }"

text \<open>Fragment number \<open>i\<close> of MSDU \<open>s\<close> of a station and TID.\<close>

definition is_frag :: "nat \<Rightarrow> u8 \<Rightarrow> u8 \<Rightarrow> u16 \<Rightarrow> nat \<Rightarrow> bool \<Rightarrow> sk_buff \<Rightarrow> bool" where
  "is_frag H lut t s i mf k \<longleftrightarrow> frag_ok H k \<and> sta_lut_index (skb_desc k) = lut \<and> tid (skb_desc k) = t
     \<and> seq_num (skb_desc k) = s \<and> unat (frag_num (skb_desc k)) = i \<and> more_frag_bit (skb_desc k) = mf"

text \<open>The node at the head collects that MSDU and has the fragments \<open>pre\<close>.\<close>

definition collecting :: "nat \<Rightarrow> u8 \<Rightarrow> u8 \<Rightarrow> u16 \<Rightarrow> sk_buff list \<Rightarrow> sprdwl_rx_defrag_entry \<Rightarrow> bool" where
  "collecting H lut t s pre de \<longleftrightarrow> (\<exists>nd rest. df_list de = nd # rest \<and> df_sta_lut_index nd = lut \<and> df_tid nd = t
     \<and> df_seq_num nd = s \<and> df_skb_list nd = pre \<and> pre \<noteq> [] \<and> (\<forall>k \<in> set pre. frag_ok H k)
     \<and> unat (last_frag_num nd) + 1 = length pre \<and> unat (df_msdu_len nd) = H + sum_payload pre)"

lemma unat_add_frag:
  assumes "frag_ok H k" and "unat (n :: u32) + payload_len k < 2 ^ 32"
  shows "unat (n + ucast (frag_len (skb_desc k))) = unat n + payload_len k"
  using assms(2) frag_ok_simps(1) [OF assms(1)] by (simp add: unat_word_ariths)

lemma collect_more:
  assumes c: "collecting H lut t s pre de" and k: "is_frag H lut t s (length pre) True k"
    and len: "H + sum_payload pre + payload_len k < 65536"
  shows "\<exists>de'. defrag_data_process alloc de k = Some (None, de') \<and> collecting H lut t s (pre @ [k]) de'"
proof -
  obtain nd rest where nd: "df_list de = nd # rest" "df_sta_lut_index nd = lut" "df_tid nd = t" "df_seq_num nd = s"
    "df_skb_list nd = pre" "pre \<noteq> []" "\<forall>k \<in> set pre. frag_ok H k" "unat (last_frag_num nd) + 1 = length pre"
    "unat (df_msdu_len nd) = H + sum_payload pre"
    using c by (auto simp: collecting_def)
  have ok: "frag_ok H k" and fn: "frag_num (skb_desc k) \<noteq> 0" using k nd(6) by (auto simp: is_frag_def)
  let ?nd1 = "nd\<lparr>last_frag_num := frag_num (skb_desc k), df_skb_list := pre @ [k],
      df_msdu_len := df_msdu_len nd + ucast (frag_len (skb_desc k))\<rparr>"
  have "defrag_data_process alloc de k = Some (None, de\<lparr>df_list := ?nd1 # rest\<rparr>)"
    using k nd fn
    by (simp add: defrag_data_process_def defrag_single_data_process_def get_defrag_node_def find_defrag_node_def
        same_frag_key_def is_frag_def Let_def)
  moreover have "unat (df_msdu_len ?nd1) = H + sum_payload (pre @ [k])"
    using unat_add_frag [OF ok, of "df_msdu_len nd"] nd(9) len by simp
  ultimately show ?thesis
    using nd k ok by (auto simp: collecting_def is_frag_def)
qed

text \<open>What the joined buffer is.\<close>

definition joined :: "nat \<Rightarrow> sk_buff list \<Rightarrow> sk_buff" where
  "joined H ks = \<lparr>skb_desc = (skb_desc (hd ks))
       \<lparr>msdu_len := of_nat (H + sum_payload ks - unat (msdu_offset (skb_desc (hd ks))))\<rparr>,
     skb_data = take H (skb_data (hd ks)) @ concat (map (payload H) ks)\<rparr>"

lemma collect_last:
  assumes c: "collecting H lut t s pre de" and k: "is_frag H lut t s (length pre) False k"
    and len: "H + sum_payload pre + payload_len k < 65536"
    and mem: "\<forall>n. \<exists>m. alloc n = Some m \<and> length m = n"
  shows "\<exists>de'. defrag_data_process alloc de k = Some (Some (joined H (pre @ [k])), de')"
proof -
  obtain nd rest where nd: "df_list de = nd # rest" "df_sta_lut_index nd = lut" "df_tid nd = t" "df_seq_num nd = s"
    "df_skb_list nd = pre" "pre \<noteq> []" "\<forall>k \<in> set pre. frag_ok H k" "unat (last_frag_num nd) + 1 = length pre"
    "unat (df_msdu_len nd) = H + sum_payload pre"
    using c by (auto simp: collecting_def)
  have ok: "frag_ok H k" and fn: "frag_num (skb_desc k) \<noteq> 0" using k nd(6) by (auto simp: is_frag_def)
  let ?nd1 = "nd\<lparr>last_frag_num := frag_num (skb_desc k), df_skb_list := pre @ [k],
      df_msdu_len := df_msdu_len nd + ucast (frag_len (skb_desc k))\<rparr>"
  obtain k0 ks where q: "pre @ [k] = k0 # ks" "k0 = hd pre" using nd(6) by (cases pre) auto
  have "\<forall>x \<in> set (k0 # ks). frag_ok H x" unfolding q(1) [symmetric] using nd(7) ok by auto
  then have oks: "frag_ok H k0" "\<forall>k \<in> set ks. frag_ok H k" by simp_all
  have len1: "unat (df_msdu_len ?nd1) = H + sum_payload (k0 # ks)"
    using unat_add_frag [OF ok, of "df_msdu_len nd"] nd(9) len q(1) [symmetric] by simp
  obtain m where m: "alloc (unat (df_msdu_len ?nd1)) = Some m" "length m = unat (df_msdu_len ?nd1)"
    using mem by blast
  have tot: "H + sum_payload (k0 # ks) < 65536" using len q(1) [symmetric] by simp
  have j: "join_frags alloc ?nd1 = Some (Some
     \<lparr>skb_desc = (skb_desc k0)\<lparr>msdu_len := ucast (df_msdu_len ?nd1 - ucast (msdu_offset (skb_desc k0)))\<rparr>,
      skb_data = take H (skb_data k0) @ concat (map (payload H) (k0 # ks))\<rparr>)"
    by (rule join_frags_exact [where alloc = alloc and nd = ?nd1, OF _ oks len1 tot m]) (simp add: q(1))
  have off: "unat (msdu_offset (skb_desc k0)) \<le> H" using oks(1) by (auto simp: frag_ok_def)
  have "unat (df_msdu_len ?nd1 - ucast (msdu_offset (skb_desc k0)))
      = H + sum_payload (k0 # ks) - unat (msdu_offset (skb_desc k0))"
    using len1 off by (subst unat_sub) (auto simp: word_le_nat_alt)
  then have md: "(ucast (df_msdu_len ?nd1 - ucast (msdu_offset (skb_desc k0))) :: u16)
      = of_nat (H + sum_payload (k0 # ks) - unat (msdu_offset (skb_desc k0)))"
    by (metis of_nat_unat)
  have "join_frags alloc ?nd1 = Some (Some (joined H (pre @ [k])))"
    using j [unfolded md] by (simp add: joined_def q)
  then show ?thesis
    using k nd fn
    by (simp add: defrag_data_process_def defrag_single_data_process_def get_defrag_node_def find_defrag_node_def
        same_frag_key_def is_frag_def Let_def)
qed

lemma collect_rest:
  assumes "collecting H lut t s pre de" and "ks \<noteq> []"
    and "\<forall>i < length ks. is_frag H lut t s (length pre + i) (Suc i < length ks) (ks ! i)"
    and "H + sum_payload (pre @ ks) < 65536" and mem: "\<forall>n. \<exists>m. alloc n = Some m \<and> length m = n"
  shows "\<exists>de'. defrag_run alloc de ks = Some (replicate (length ks - 1) None @ [Some (joined H (pre @ ks))], de')"
  using assms(1-4)
proof (induction ks arbitrary: pre de)
  case Nil
  then show ?case by simp
next
  case (Cons k ks)
  have k: "is_frag H lut t s (length pre) (ks \<noteq> []) k" using Cons.prems(3) by force
  show ?case
  proof (cases ks)
    case Nil
    with k Cons.prems(4) collect_last [OF Cons.prems(1) _ _ mem, of k] show ?thesis by auto
  next
    case (Cons k1 ks1)
    with k Cons.prems(4) collect_more [OF Cons.prems(1), of k alloc] obtain de1 where
      d: "defrag_data_process alloc de k = Some (None, de1)" "collecting H lut t s (pre @ [k]) de1"
      by auto
    have "\<forall>i < length ks. is_frag H lut t s (length (pre @ [k]) + i) (Suc i < length ks) (ks ! i)"
      using Cons.prems(3) by auto
    from Cons.IH [OF d(2) _ this] Cons.prems(4) Cons obtain de' where
      "defrag_run alloc de1 ks = Some (replicate (length ks - 1) None @ [Some (joined H (pre @ k # ks))], de')"
      by auto
    moreover have "replicate (length ks) None = None # replicate (length ks - 1) (None :: sk_buff option)"
      using Cons by simp
    ultimately show ?thesis using d(1) by simp
  qed
qed

text \<open>The first fragment is accepted when no node of its station and TID has a later number.\<close>

definition accepts_first :: "sprdwl_rx_defrag_entry \<Rightarrow> rx_msdu_desc \<Rightarrow> bool" where
  "accepts_first de md \<longleftrightarrow> df_list de \<noteq> []
     \<and> (\<forall>i. key_pos (df_list de) md = Some i \<longrightarrow> \<not> seqno_leq (seq_num md) (df_seq_num (df_list de ! i)))"

lemma collect_first:
  assumes a: "accepts_first de (skb_desc k)" and k: "is_frag H lut t s 0 True k"
  shows "\<exists>de'. defrag_data_process alloc de k = Some (None, de') \<and> collecting H lut t s [k] de'"
proof -
  have fn: "frag_num (skb_desc k) = 0" and ok: "frag_ok H k"
    using k by (simp_all add: is_frag_def word_unat_eq_iff)
  let ?i = "case key_pos (df_list de) (skb_desc k) of None \<Rightarrow> length (df_list de) - 1 | Some i \<Rightarrow> i"
  have i: "?i < length (df_list de)"
    using a key_pos_Some by (auto simp: accepts_first_def split: option.split)
  obtain nd' purged where nd: "init_first_frag_node (df_list de ! ?i) (skb_desc k) = (nd', purged)" by fastforce
  let ?de1 = "de\<lparr>df_list := nd' # list_remove ?i (df_list de), df_freed := df_freed de @ purged\<rparr>"
  have g: "get_defrag_node de (skb_desc k) = Some (Some 0, ?de1)"
    using a fn i nd
    by (auto simp: get_defrag_node_def init_first_defrag_node_def take_defrag_node_def accepts_first_def
        split: option.splits)
  let ?nd1 = "nd'\<lparr>df_skb_list := df_skb_list nd' @ [k], df_msdu_len := df_msdu_len nd' + ucast (frag_len (skb_desc k))\<rparr>"
  have run: "defrag_data_process alloc de k = Some (None, ?de1\<lparr>df_list := ?nd1 # list_remove ?i (df_list de)\<rparr>)"
    using g k by (simp add: defrag_data_process_def defrag_single_data_process_def Let_def is_frag_def)
  have l: "unat (df_msdu_len nd') = H"
    using nd ok frag_ok_H [OF ok] by (auto simp: init_first_frag_node_def frag_ok_def unat_word_ariths)
  have "unat (df_msdu_len ?nd1) = H + payload_len k"
    using unat_add_frag [OF ok, of "df_msdu_len nd'"] frag_ok_simps(5) [OF ok] l by simp
  with run nd k ok show ?thesis
    by (auto simp: collecting_def init_first_frag_node_def is_frag_def)
qed

lemma defrag_run_joins:
  assumes a: "accepts_first de (skb_desc k)" and ks: "ks \<noteq> []"
    and frags: "\<forall>i < length (k # ks). is_frag H lut t s i (i < length ks) ((k # ks) ! i)"
    and len: "H + sum_payload (k # ks) < 65536" and mem: "\<forall>n. \<exists>m. alloc n = Some m \<and> length m = n"
  shows "\<exists>de'. defrag_run alloc de (k # ks) = Some (replicate (length ks) None @ [Some (joined H (k # ks))], de')"
proof -
  have "is_frag H lut t s 0 True k" using frags ks by force
  from collect_first [OF a this, of alloc] obtain de1 where
    d: "defrag_data_process alloc de k = Some (None, de1)" "collecting H lut t s [k] de1" by blast
  have "\<forall>i < length ks. is_frag H lut t s (length [k] + i) (Suc i < length ks) (ks ! i)" using frags by auto
  from collect_rest [OF d(2) ks this _ mem] len obtain de' where
    "defrag_run alloc de1 ks = Some (replicate (length ks - 1) None @ [Some (joined H (k # ks))], de')" by auto
  moreover have "replicate (length ks) None = None # replicate (length ks - 1) (None :: sk_buff option)"
    using ks by (cases ks) simp_all
  ultimately show ?thesis using d(1) by simp
qed

section \<open>Concrete fragments\<close>

definition ex_frag :: "u16 \<Rightarrow> u8 \<Rightarrow> bool \<Rightarrow> u8 list \<Rightarrow> sk_buff" where
  "ex_frag s n mf body =
     \<lparr>skb_desc = \<lparr>msdu_offset = 2, msdu_len = 14 + of_nat (length body), last_msdu_of_mpdu = True, sta_lut_index = 0,
        bc_mc_flag = False, snap_hdr_present = True, qos_flag = False, tid = 0, seq_num = s, pn_l = 0, pn_h = 0,
        frag_num = n, more_frag_bit = mf, cipher_type = 0\<rparr>,
      skb_data = replicate 16 0 @ body\<rparr>"

definition ex_alloc :: "nat \<Rightarrow> u8 list option" where
  "ex_alloc n = Some (replicate n 0xaa)"

definition ex_de :: sprdwl_rx_defrag_entry where
  "ex_de = \<lparr>df_list = replicate 3 kzalloc_defrag_node, df_freed = []\<rparr>"

lemma ex_frag_ok: "length body < 100 \<Longrightarrow> unat n < 16 \<Longrightarrow> frag_ok 16 (ex_frag s n mf body)"
  by (simp add: frag_ok_def ex_frag_def frag_hdr_def ETH_HLEN_def unat_word_ariths unat_of_nat take_bit_eq_mod)

lemma ex_frag_payload_len: "length body < 100 \<Longrightarrow> payload_len (ex_frag s n mf body) = length body"
  by (simp add: payload_len_def ex_frag_def frag_hdr_def ETH_HLEN_def unat_word_ariths unat_of_nat take_bit_eq_mod)

lemma ex_alloc_ok: "alloc_ok ex_alloc" "\<exists>m. ex_alloc n = Some m \<and> length m = n"
  by (auto simp: alloc_ok_def ex_alloc_def)

lemma ex_de_ok: "defrag_ok H ex_de"
  by (simp add: defrag_ok_def ex_de_def)

section \<open>Properties\<close>

text \<open>
  C34. The fragments of one MSDU, given in order, are joined exactly: nothing is returned until
  the last one, which returns the descriptor and header of the first fragment, with the length
  of the whole, followed by the payloads in order.
\<close>

theorem defrag_joins_msdu:
  assumes "accepts_first de (skb_desc k)" and "ks \<noteq> []"
    and "\<forall>i < length (k # ks). is_frag H lut t s i (i < length ks) ((k # ks) ! i)"
    and "H + sum_payload (k # ks) < 65536" and "\<forall>n. \<exists>m. dev_alloc_skb n = Some m \<and> length m = n"
  shows "\<exists>de'. defrag_run dev_alloc_skb de (k # ks)
    = Some (replicate (length ks) None @ [Some (joined H (k # ks))], de')"
  by (rule defrag_run_joins [OF assms])

theorem defrag_joins_msdu_witness:
  "\<exists>de'. defrag_run ex_alloc ex_de [ex_frag 7 0 True [1, 2], ex_frag 7 1 False [3]]
    = Some ([None, Some (joined 16 [ex_frag 7 0 True [1, 2], ex_frag 7 1 False [3]])], de')"
proof -
  have "\<forall>i < 2. is_frag 16 0 0 7 i (i < 1) ([ex_frag 7 0 True [1, 2], ex_frag 7 1 False [3]] ! i)"
    by (auto simp: less_2_cases_iff is_frag_def ex_frag_ok) (auto simp: ex_frag_def)
  moreover have "accepts_first ex_de (skb_desc (ex_frag 7 0 True [1, 2]))"
    by (simp add: accepts_first_def ex_de_def numeral_3_eq_3 same_frag_key_def kzalloc_defrag_node_def ex_frag_def
        seqno_leq_def MAX_SEQNO_BY_TWO_def)
  ultimately show ?thesis
    using defrag_joins_msdu [of ex_de "ex_frag 7 0 True [1, 2]" "[ex_frag 7 1 False [3]]" 16 0 0 7 ex_alloc] ex_alloc_ok(2)
    by (simp add: ex_frag_payload_len)
qed

text \<open>
  C32. On used or fresh nodes, a well-formed buffer never makes reassembly read or write outside a
  buffer, unless it is fragment 1 of MSDU 0 of station 0 and TID 0 while a node has never been
  used (then it may write behind a buffer, \<open>defrag_zero_node_overflow\<close>); an unfragmented buffer
  is passed on unchanged, a fragment ends up queued in a node or freed.
\<close>

theorem defrag_safe_and_conserving:
  assumes "defrag_ok H de" and "frag_ok H k" and "\<not> meets_fresh_node de (skb_desc k)" and "alloc_ok dev_alloc_skb"
  shows "\<exists>r de'. defrag_data_process dev_alloc_skb de k = Some (r, de') \<and> defrag_ok H de'
     \<and> (if frag_num (skb_desc k) = 0 \<and> \<not> more_frag_bit (skb_desc k) then r = Some k \<and> de' = de
        else defrag_bag de' = defrag_bag de + {#k#})"
  by (rule defrag_data_process_ok [OF assms])

theorem defrag_safe_and_conserving_witness:
  "\<exists>r de'. defrag_data_process ex_alloc ex_de (ex_frag 7 0 True [1, 2]) = Some (r, de') \<and> defrag_ok 16 de'
     \<and> defrag_bag de' = defrag_bag ex_de + {#ex_frag 7 0 True [1, 2]#}"
proof -
  have "frag_num (skb_desc (ex_frag 7 0 True [1, 2])) = 0" "more_frag_bit (skb_desc (ex_frag 7 0 True [1, 2]))"
    by (simp_all add: ex_frag_def)
  with defrag_safe_and_conserving [OF ex_de_ok ex_frag_ok [of "[1, 2]" 0 7 True] _ ex_alloc_ok(1)] show ?thesis
    by (simp add: meets_fresh_node_def hits_zero_node_def)
qed

text \<open>
  A node fresh from \<open>kzalloc\<close> looks like MSDU 0 of station 0 and TID 0 after its first
  fragment. The last fragment 1 of such an MSDU is taken for its continuation: the new buffer
  has the length of the payload alone, and copying descriptor, header and payload writes
  behind it.
\<close>

theorem defrag_zero_node_overflow:
  assumes "frag_ok H k" and "0 < H" and "hits_zero_node (skb_desc k)" and "\<not> more_frag_bit (skb_desc k)"
    and "dev_alloc_skb (payload_len k) = Some mem" and "length mem = payload_len k"
    and "df_list de = kzalloc_defrag_node # nds"
  shows "defrag_data_process dev_alloc_skb de k = None"
proof -
  note f = frag_ok_simps [OF assms(1)]
  have len: "unat (ucast (frag_len (skb_desc k)) :: u32) = payload_len k" by (simp add: f(1))
  have off: "unat (of_nat (msdu_total_len (skb_desc k)) :: u16) = H + payload_len k"
    using f(3,5) by (simp add: unat_of_nat take_bit_eq_mod)
  have "\<not> H + payload_len k \<le> length mem" using assms(2,6) by simp
  then show ?thesis
    using assms(3-7) len off f(4)
    by (simp add: defrag_data_process_def defrag_single_data_process_def get_defrag_node_def find_defrag_node_def
        same_frag_key_def hits_zero_node_def kzalloc_defrag_node_def Let_def join_frags_def read_bytes_def memcpy_at_def)
qed

theorem defrag_zero_node_overflow_witness:
  "defrag_data_process ex_alloc ex_de (ex_frag 0 1 False [1, 2]) = None"
  by (rule defrag_zero_node_overflow [where H = 16 and nds = "replicate 2 kzalloc_defrag_node", OF ex_frag_ok])
    (simp_all add: hits_zero_node_def ex_frag_payload_len ex_alloc_def, simp_all add: ex_frag_def ex_de_def numeral_3_eq_3 numeral_2_eq_2)

text \<open>
  \<open>sprdwl_defrag_recover\<close> empties the queue of a node but keeps its length and fragment
  counter. The next last fragment of that MSDU is then delivered as the whole MSDU: behind the
  bytes of this fragment it has as many uninitialised bytes as the lost fragments had payload.
\<close>

theorem recover_then_fragment_uninitialised:
  assumes c: "collecting H lut t s pre de" and k: "is_frag H lut t s (length pre) False k"
    and len: "H + sum_payload pre + payload_len k < 65536"
    and p: "find (\<lambda>p. peer_ctx_id p = ctx) (take MAX_LUT_NUM peers) = Some p" "peer_lut_index p = lut"
    and mem: "dev_alloc_skb (H + sum_payload pre + payload_len k) = Some mem"
      "length mem = H + sum_payload pre + payload_len k"
  shows "\<exists>out de'. defrag_data_process dev_alloc_skb (sprdwl_defrag_recover peers SPRDWL_MODE_STATION ctx de) k
      = Some (Some out, de')
    \<and> skb_data out = take (H + payload_len k) (skb_data k) @ drop (H + payload_len k) mem"
proof -
  obtain nd rest where nd: "df_list de = nd # rest" "df_sta_lut_index nd = lut" "df_tid nd = t" "df_seq_num nd = s"
    "pre \<noteq> []" "unat (last_frag_num nd) + 1 = length pre"
    "unat (df_msdu_len nd) = H + sum_payload pre"
    using c by (auto simp: collecting_def)
  have ok: "frag_ok H k" and fn: "frag_num (skb_desc k) \<noteq> 0" using k nd(5) by (auto simp: is_frag_def)
  note f = frag_ok_simps [OF ok]
  have len1: "unat (df_msdu_len nd + ucast (frag_len (skb_desc k))) = H + sum_payload pre + payload_len k"
    using unat_add_frag [OF ok, of "df_msdu_len nd"] nd(7) len by simp
  have off: "unat (of_nat (msdu_total_len (skb_desc k)) :: u16) = H + payload_len k"
    using f(3,5) by (simp add: unat_of_nat take_bit_eq_mod)
  show ?thesis
    using k nd fn p mem len1 off f(4)
    by (simp add: sprdwl_defrag_recover_def purge_node_def defrag_data_process_def defrag_single_data_process_def
        get_defrag_node_def find_defrag_node_def same_frag_key_def is_frag_def Let_def join_frags_def
        read_bytes_def memcpy_at_def)
qed

definition ex_de1 :: sprdwl_rx_defrag_entry where
  "ex_de1 = \<lparr>df_list = [\<lparr>df_sta_lut_index = 0, df_tid = 0, df_frag_num = 0, df_seq_num = 7,
      df_skb_list = [ex_frag 7 0 True [1, 2]], df_msdu_len = 18, last_frag_num = 0\<rparr>], df_freed = []\<rparr>"

definition ex_peer :: sprdwl_peer_entry where
  "ex_peer = \<lparr>peer_da = [], peer_lut_index = 0, peer_ctx_id = 4, ba_tx_done_map = 0\<rparr>"

theorem recover_then_fragment_uninitialised_witness:
  "\<exists>out de'. defrag_data_process ex_alloc (sprdwl_defrag_recover [ex_peer] SPRDWL_MODE_STATION 4 ex_de1)
      (ex_frag 7 1 False [3]) = Some (Some out, de')
    \<and> skb_data out = take 17 (skb_data (ex_frag 7 1 False [3])) @ [0xaa, 0xaa]"
proof -
  have c: "collecting 16 0 0 7 [ex_frag 7 0 True [1, 2]] ex_de1"
    by (simp add: collecting_def ex_de1_def ex_frag_ok ex_frag_payload_len)
  have k: "is_frag 16 0 0 7 (length [ex_frag 7 0 True [1, 2]]) False (ex_frag 7 1 False [3])"
    by (simp add: is_frag_def ex_frag_ok) (simp add: ex_frag_def)
  show ?thesis
    using recover_then_fragment_uninitialised [OF c k, of 4 "[ex_peer]" ex_peer ex_alloc "replicate 19 0xaa"]
    by (simp add: ex_frag_payload_len ex_alloc_def ex_peer_def MAX_LUT_NUM_def numeral_2_eq_2)
qed

end
