(* ===== verification/Rx_Path.thy ===== *)
theory Rx_Path
  imports Reorder_Correct Defrag_Correct
begin

text \<open>
  The receive path of \<open>WIFI/rx_msg.c\<close>: \<open>sprdwl_rx_process\<close> puts a buffer through block-ack
  reordering, takes everything that is in order from it, puts each buffer through reassembly
  and queues the result for the network stack. It is a receive stage itself.
\<close>

section \<open>Model\<close>

record sprdwl_rx_if =
  rx_ba_entry :: sprdwl_rx_ba_entry
  rx_defrag_entry :: sprdwl_rx_defrag_entry
  net_rx_list :: "sk_buff list"
  napi_rx_enable :: bool

fun rx_defrag_loop ::
  "(nat \<Rightarrow> u8 list option) \<Rightarrow> sprdwl_rx_defrag_entry \<Rightarrow> sk_buff list \<Rightarrow> sk_buff list
   \<Rightarrow> (sprdwl_rx_defrag_entry \<times> sk_buff list) option" where
  "rx_defrag_loop dev_alloc_skb de net [] = Some (de, net)"
| "rx_defrag_loop dev_alloc_skb de net (k # ks) =
     do { (r, de1) \<leftarrow> defrag_data_process dev_alloc_skb de k;
          rx_defrag_loop dev_alloc_skb de1 (case r of None \<Rightarrow> net | Some skb \<Rightarrow> net @ [skb]) ks }"

text \<open>The flag tells whether the poll routine of the network queue is scheduled.\<close>

definition sprdwl_rx_process ::
  "(nat \<Rightarrow> u8 list option) \<Rightarrow> sprdwl_rx_if \<Rightarrow> sk_buff option \<Rightarrow> (sprdwl_rx_if \<times> bool) option" where
  "sprdwl_rx_process dev_alloc_skb rx pskb =
     do { be1 \<leftarrow> reorder_data_process (rx_ba_entry rx) pskb;
          (let (ks, io) = reorder_get_skb_list (ba_io be1)
           in do { (de', net) \<leftarrow> rx_defrag_loop dev_alloc_skb (rx_defrag_entry rx) (net_rx_list rx) ks;
                   Some (rx\<lparr>rx_ba_entry := be1\<lparr>ba_io := io\<rparr>, rx_defrag_entry := de', net_rx_list := net\<rparr>,
                         net \<noteq> [] \<and> napi_rx_enable rx) }) }"

section \<open>Fragments and whole buffers\<close>

definition unfrag :: "sk_buff \<Rightarrow> bool" where
  "unfrag k \<longleftrightarrow> frag_num (skb_desc k) = 0 \<and> \<not> more_frag_bit (skb_desc k)"

lemma join_frags_out:
  assumes "join_frags alloc nd = Some (Some out)"
  shows "\<exists>k \<in> set (df_skb_list nd). \<exists>l. skb_desc out = (skb_desc k)\<lparr>msdu_len := l\<rparr>"
  using assms
  by (auto simp: join_frags_def Let_def bind_eq_Some_conv split: list.splits option.splits)

lemma held_node: "i < length (df_list de) \<Longrightarrow> mset (df_skb_list (df_list de ! i)) \<subseteq># defrag_held de"
  using sum_list_remove [of i "df_list de" "\<lambda>nd. mset (df_skb_list nd)"]
  by (metis defrag_held_def mset_subset_eq_add_right)

text \<open>A joined MSDU keeps the fragment bits of its first fragment, so it is told from a whole one.\<close>

lemma get_defrag_node_held:
  assumes "get_defrag_node de md = Some (r, de1)"
  shows "defrag_held de1 \<subseteq># defrag_held de" and "r = Some i \<Longrightarrow> i < length (df_list de1)"
proof -
  have find: "defrag_held de1 \<subseteq># defrag_held de \<and> (r = Some i \<longrightarrow> i < length (df_list de1))"
    if f: "find_defrag_node (df_list de) md = (r, nds)" and d: "de1 = de\<lparr>df_list := nds\<rparr>" for nds
    using f
  proof (cases rule: find_defrag_node_cases)
    case miss
    with d show ?thesis by (simp add: defrag_held_def)
  next
    case (hit j)
    then show ?thesis
      using sum_list_map_update [OF hit(2), of "\<lambda>nd. mset (df_skb_list nd)"
          "(df_list de ! j)\<lparr>last_frag_num := frag_num md\<rparr>"] d
      by (auto simp: defrag_held_def)
  qed
  have init: "defrag_held de1 \<subseteq># defrag_held de \<and> (r = Some i \<longrightarrow> i < length (df_list de1))"
    if t: "take_defrag_node de md j = Some (r, de1)" for j
  proof -
    obtain nd' purged where n: "init_first_frag_node (df_list de ! j) md = (nd', purged)" by fastforce
    with t have j: "j < length (df_list de)" and d: "r = Some 0"
      "de1 = de\<lparr>df_list := nd' # list_remove j (df_list de), df_freed := df_freed de @ purged\<rparr>"
      by (auto simp: take_defrag_node_def bind_eq_Some_conv aget_eq_Some_iff)
    have "df_skb_list nd' = []" using n by (auto simp: init_first_frag_node_def)
    then have "defrag_held de1 + mset (df_skb_list (df_list de ! j)) = defrag_held de"
      using sum_list_remove [OF j, of "\<lambda>nd. mset (df_skb_list nd)"] d(2) by (simp add: defrag_held_def)
    then have "defrag_held de1 \<subseteq># defrag_held de" by (metis mset_subset_eq_add_left)
    then show ?thesis using d by simp
  qed
  have "defrag_held de1 \<subseteq># defrag_held de \<and> (r = Some i \<longrightarrow> i < length (df_list de1))"
  proof (cases "frag_num md = 0")
    case False
    obtain r' nds where f: "find_defrag_node (df_list de) md = (r', nds)" by fastforce
    then show ?thesis using assms False find [of nds] by (simp add: get_defrag_node_def)
  next
    case True
    then have "init_first_defrag_node de md = Some (r, de1)" using assms by (simp add: get_defrag_node_def)
    then show ?thesis
      using init unfolding init_first_defrag_node_def by (auto split: option.splits if_splits)
  qed
  then show "defrag_held de1 \<subseteq># defrag_held de" and "r = Some i \<Longrightarrow> i < length (df_list de1)" by blast+
qed

lemma defrag_out:
  assumes frags: "\<forall>x \<in># defrag_held de. \<not> unfrag x" and k: "\<not> unfrag k"
    and r: "defrag_data_process alloc de k = Some (r, de')"
  shows "(\<forall>x \<in># defrag_held de'. \<not> unfrag x) \<and> (\<forall>out. r = Some out \<longrightarrow> \<not> unfrag out)"
proof -
  have r': "defrag_single_data_process alloc de k = Some (r, de')"
    using r k by (simp add: defrag_data_process_def unfrag_def split: if_splits)
  then obtain q de1 where g: "get_defrag_node de (skb_desc k) = Some (q, de1)"
    by (auto simp: defrag_single_data_process_def Let_def bind_eq_Some_conv)
  note held = get_defrag_node_held [OF g]
  have frags1: "\<forall>x \<in># defrag_held de1. \<not> unfrag x" using frags held(1) by (meson mset_subset_eqD)
  show ?thesis
  proof (cases q)
    case None
    with r' g frags1 show ?thesis
      by (auto simp: defrag_single_data_process_def Let_def defrag_held_def)
  next
    case (Some i)
    then have i: "i < length (df_list de1)" using held(2) by blast
    let ?nd = "df_list de1 ! i"
    let ?nd1 = "?nd\<lparr>df_skb_list := df_skb_list ?nd @ [k], df_msdu_len := df_msdu_len ?nd + ucast (frag_len (skb_desc k))\<rparr>"
    have nd: "\<forall>x \<in> set (df_skb_list ?nd1). \<not> unfrag x"
      using frags1 held_node [OF i] k by (auto dest: mset_subset_eqD)
    show ?thesis
    proof (cases "more_frag_bit (skb_desc k)")
      case True
      have "mset (df_skb_list ?nd1) = mset (df_skb_list ?nd) + {#k#}" by simp
      with sum_list_map_update [OF i, of "\<lambda>nd. mset (df_skb_list nd)" ?nd1]
      have "defrag_held (de1\<lparr>df_list := (df_list de1)[i := ?nd1]\<rparr>) = defrag_held de1 + {#k#}"
        by (simp add: defrag_held_def)
      with True r' g Some i frags1 k show ?thesis
        by (auto simp: defrag_single_data_process_def Let_def)
    next
      case False
      have sub: "sum_list (map (\<lambda>nd. mset (df_skb_list nd)) (list_remove i (df_list de1))) \<subseteq># defrag_held de1"
        using sum_list_remove [OF i, of "\<lambda>nd. mset (df_skb_list nd)"]
        unfolding defrag_held_def by (metis mset_subset_eq_add_left)
      have j: "join_frags alloc ?nd1 = Some r"
        and d: "defrag_held de' = sum_list (map (\<lambda>nd. mset (df_skb_list nd)) (list_remove i (df_list de1)))"
        using False r' g Some i by (auto simp: defrag_single_data_process_def Let_def bind_eq_Some_conv defrag_held_def)
      have "\<not> unfrag out" if out: "r = Some out" for out
      proof -
        obtain x l where "x \<in> set (df_skb_list ?nd1)" "skb_desc out = (skb_desc x)\<lparr>msdu_len := l\<rparr>"
          using join_frags_out [of alloc ?nd1 out] j out by auto
        with nd show ?thesis by (auto simp: unfrag_def)
      qed
      moreover have "\<forall>x \<in># defrag_held de'. \<not> unfrag x"
        unfolding d using sub frags1 by (meson mset_subset_eqD)
      ultimately show ?thesis by blast
    qed
  qed
qed

section \<open>The receive path as a stage\<close>

definition rx_valid :: "nat \<Rightarrow> sk_buff \<Rightarrow> bool" where
  "rx_valid H k \<longleftrightarrow> frag_ok H k \<and> \<not> hits_zero_node (skb_desc k)"

definition rx_inv :: "nat \<Rightarrow> sprdwl_rx_if \<Rightarrow> bool" where
  "rx_inv H rx \<longleftrightarrow> entry_wf (rx_ba_entry rx) \<and> entry_shape (rx_ba_entry rx)
     \<and> (\<forall>k \<in># entry_bag (rx_ba_entry rx). rx_valid H k)
     \<and> defrag_ok H (rx_defrag_entry rx) \<and> (\<forall>k \<in># defrag_held (rx_defrag_entry rx). \<not> unfrag k)"

text \<open>Where the buffers are: a joined MSDU is a new buffer and does not count.\<close>

definition rx_content :: "sprdwl_rx_if \<Rightarrow> sk_buff multiset" where
  "rx_content rx = entry_bag (rx_ba_entry rx) + defrag_bag (rx_defrag_entry rx)
     + mset (filter unfrag (net_rx_list rx))"

lemma rx_defrag_loop_ok:
  assumes "defrag_ok H de" and "\<forall>k \<in># defrag_held de. \<not> unfrag k" and "\<forall>k \<in> set ks. rx_valid H k" and al: "alloc_ok alloc"
  shows "\<exists>de' net'. rx_defrag_loop alloc de net ks = Some (de', net') \<and> defrag_ok H de'
     \<and> (\<forall>k \<in># defrag_held de'. \<not> unfrag k)
     \<and> defrag_bag de' + mset (filter unfrag net') = defrag_bag de + mset (filter unfrag net) + mset ks"
  using assms(1-3)
proof (induction ks arbitrary: de net)
  case Nil
  then show ?case by simp
next
  case (Cons k ks)
  have k: "frag_ok H k" "\<not> hits_zero_node (skb_desc k)" using Cons.prems(3) by (auto simp: rx_valid_def)
  obtain r de1 where d: "defrag_data_process alloc de k = Some (r, de1)" "defrag_ok H de1"
    "if unfrag k then r = Some k \<and> de1 = de else defrag_bag de1 = defrag_bag de + {#k#}"
    using defrag_data_process_ok [OF Cons.prems(1) k(1) _ al] k(2) unfolding unfrag_def meets_fresh_node_def by blast
  let ?net = "case r of None \<Rightarrow> net | Some skb \<Rightarrow> net @ [skb]"
  have "defrag_bag de1 + mset (filter unfrag ?net) = defrag_bag de + mset (filter unfrag net) + {#k#}
    \<and> (\<forall>k \<in># defrag_held de1. \<not> unfrag k)"
  proof (cases "unfrag k")
    case True
    with d(3) Cons.prems(2) show ?thesis by simp
  next
    case False
    note out = defrag_out [OF Cons.prems(2) False d(1)]
    have net: "filter unfrag ?net = filter unfrag net"
    proof (cases r)
      case (Some x)
      with out have "\<not> unfrag x" by blast
      with Some show ?thesis by simp
    qed simp
    have b1: "defrag_bag de1 = defrag_bag de + {#k#}" using False d(3) by (simp only: if_False)
    have "defrag_bag de1 + mset (filter unfrag ?net) = defrag_bag de + mset (filter unfrag net) + {#k#}"
      unfolding net b1 by simp
    with out show ?thesis by blast
  qed
  then have bag: "defrag_bag de1 + mset (filter unfrag ?net) = defrag_bag de + mset (filter unfrag net) + {#k#}"
    and frags: "\<forall>k \<in># defrag_held de1. \<not> unfrag k" by blast+
  from Cons.IH [OF d(2) frags, of ?net] Cons.prems(3) bag d(1) show ?case by auto
qed

lemma rx_process_step:
  assumes inv: "rx_inv H rx" and k: "rx_valid H k" and al: "alloc_ok alloc"
  shows "\<exists>rx' b. sprdwl_rx_process alloc rx (Some k) = Some (rx', b) \<and> rx_inv H rx'
     \<and> rx_content rx' = rx_content rx + {#k#}"
proof -
  obtain be1 where b: "reorder_data_process (rx_ba_entry rx) (Some k) = Some be1" "entry_wf be1" "entry_shape be1"
    "entry_bag be1 = entry_bag (rx_ba_entry rx) + {#k#}"
    using reorder_data_process_ok [of "rx_ba_entry rx" k] inv by (auto simp: rx_inv_def)
  let ?ks = "skb_list (ba_io be1)" and ?be = "be1\<lparr>ba_io := (ba_io be1)\<lparr>skb_list := []\<rparr>\<rparr>"
  have split: "entry_bag be1 = entry_bag ?be + mset ?ks" by (simp add: entry_bag_def entry_held_def)
  have all: "\<forall>x \<in># entry_bag be1. rx_valid H x" using inv k b(4) by (auto simp: rx_inv_def)
  then have ks: "\<forall>x \<in> set ?ks. rx_valid H x" and be: "\<forall>x \<in># entry_bag ?be. rx_valid H x"
    unfolding split by auto
  obtain de' net' where l: "rx_defrag_loop alloc (rx_defrag_entry rx) (net_rx_list rx) ?ks = Some (de', net')"
    "defrag_ok H de'" "\<forall>k \<in># defrag_held de'. \<not> unfrag k"
    "defrag_bag de' + mset (filter unfrag net')
       = defrag_bag (rx_defrag_entry rx) + mset (filter unfrag (net_rx_list rx)) + mset ?ks"
    using rx_defrag_loop_ok [OF _ _ ks al, of "rx_defrag_entry rx" "net_rx_list rx"] inv by (auto simp: rx_inv_def)
  let ?rx = "rx\<lparr>rx_ba_entry := ?be, rx_defrag_entry := de', net_rx_list := net'\<rparr>"
  have "sprdwl_rx_process alloc rx (Some k) = Some (?rx, net' \<noteq> [] \<and> napi_rx_enable rx)"
    using b(1) l(1) by (simp add: sprdwl_rx_process_def reorder_get_skb_list_def)
  moreover have "rx_inv H ?rx" using b(2,3) be l(2,3) by (simp add: rx_inv_def)
  moreover have "rx_content ?rx = rx_content rx + {#k#}"
  proof -
    have "rx_content ?rx = entry_bag ?be + (defrag_bag de' + mset (filter unfrag net'))"
      by (simp add: rx_content_def)
    also have "\<dots> = entry_bag ?be + mset ?ks + defrag_bag (rx_defrag_entry rx) + mset (filter unfrag (net_rx_list rx))"
      unfolding l(4) by (simp add: ac_simps)
    also have "\<dots> = rx_content rx + {#k#}"
      unfolding split [symmetric] b(4) by (simp add: rx_content_def)
    finally show ?thesis .
  qed
  ultimately show ?thesis by blast
qed

definition rx_step :: "(nat \<Rightarrow> u8 list option) \<Rightarrow> sprdwl_rx_if \<Rightarrow> sk_buff \<Rightarrow> sprdwl_rx_if option" where
  "rx_step alloc rx k = map_option fst (sprdwl_rx_process alloc rx (Some k))"

lemma rx_stage:
  assumes "alloc_ok alloc"
  shows "packet_stage (rx_step alloc) (rx_inv H) (rx_valid H) rx_content"
  by unfold_locales (use rx_process_step [OF _ _ assms] in \<open>fastforce simp: rx_step_def\<close>)

text \<open>
  C2. The whole receive path, for any sequence of well-formed buffers of which none is fragment 1
  of MSDU 0 of station 0 and TID 0 (\<open>hits_zero_node\<close>; on a node that has never been used that one
  may write behind a buffer, \<open>defrag_zero_node_overflow\<close>): it never faults, keeps its invariant,
  and every buffer is afterwards in the network queue, in a reorder or reassembly buffer, or
  freed, exactly once.
\<close>

theorem rx_path_total_and_conserving:
  assumes "alloc_ok dev_alloc_skb" and "rx_inv H rx" and "\<forall>k \<in> set ks. rx_valid H k"
  shows "\<exists>rx'. run_stage (rx_step dev_alloc_skb) rx ks = Some rx' \<and> rx_inv H rx'
     \<and> rx_content rx' = rx_content rx + mset ks"
  by (rule packet_stage.run_ok [OF rx_stage [OF assms(1)] assms(2,3)])

definition ex_rx :: sprdwl_rx_if where
  "ex_rx = \<lparr>rx_ba_entry = ex_entry, rx_defrag_entry = ex_de, net_rx_list = [], napi_rx_enable = True\<rparr>"

theorem rx_path_total_and_conserving_witness:
  "\<exists>rx'. run_stage (rx_step ex_alloc) ex_rx [ex_frag 7 0 True [1, 2], ex_frag 7 1 False [3], ex_frag 8 0 False [4]] = Some rx'
     \<and> rx_inv 16 rx' \<and> rx_content rx' = rx_content ex_rx
       + mset [ex_frag 7 0 True [1, 2], ex_frag 7 1 False [3], ex_frag 8 0 False [4]]"
proof (rule rx_path_total_and_conserving [OF ex_alloc_ok(1)])
  have "entry_bag ex_entry = {#}"
    by (simp add: entry_bag_def entry_held_def ex_entry_def ex_io_def ex_nd_def held_kzalloc)
  then show "rx_inv 16 ex_rx"
    by (simp add: rx_inv_def ex_rx_def ex_entry_wf ex_entry_shape ex_de_ok)
      (simp add: defrag_held_def ex_de_def kzalloc_defrag_node_def numeral_3_eq_3)
  show "\<forall>k \<in> set [ex_frag 7 0 True [1, 2], ex_frag 7 1 False [3], ex_frag 8 0 False [4]]. rx_valid 16 k"
    by (simp add: rx_valid_def ex_frag_ok) (simp add: hits_zero_node_def ex_frag_def)
qed

end
