(* ===== verification/Tcp_Ack.thy ===== *)
theory Tcp_Ack
  imports Prelude
begin

text \<open>
  Delaying and dropping of pure TCP ACKs on the transmit side, \<open>WIFI/tcp_ack.c\<close>. A message
  buffer is its identity, a number. What the file does with one is an action: hand it to
  \<open>sprdwl_intf_tx\<close> or to \<open>sprdwl_intf_tcp_drop_msg\<close>. The sequence locks make each operation on
  a slot one step; \<open>jiffies\<close> is an argument. A timer is the flag \<open>timer_pending\<close> reads.
\<close>

section \<open>State\<close>

definition SPRDWL_TCP_ACK_NUM :: nat where "SPRDWL_TCP_ACK_NUM = 32"
definition SPRDWL_TCP_ACK_DROP_CNT :: int where "SPRDWL_TCP_ACK_DROP_CNT = 24"
definition MAX_TCP_ACK :: nat where "MAX_TCP_ACK = 200"
definition MIN_WIN :: u32 where "MIN_WIN = 256"
definition SIZE_KB :: u32 where "SIZE_KB = 1024"

text \<open>\<open>((__s32)((__u32)a - (__u32)b) <= 0)\<close>\<close>

definition SPRDWL_U32_BEFORE :: "u32 \<Rightarrow> u32 \<Rightarrow> bool" where
  "SPRDWL_U32_BEFORE a b \<longleftrightarrow> sint (a - b) \<le> 0"

record sprdwl_tcp_ack_msg =
  am_source :: u16
  am_dest :: u16
  am_saddr :: u32
  am_daddr :: u32
  am_seq :: u32
  am_win :: u16

record sprdwl_tcp_ack_info =
  busy :: bool
  drop_cnt :: int
  psh_flag :: bool
  psh_seq :: u32
  win_scale :: u16
  ai_last_time :: u64
  ai_timeout :: u64
  ai_timer :: bool
  msgbuf :: "nat option"
  in_send_msg :: "nat option"
  ack_msg :: sprdwl_tcp_ack_msg

record sprdwl_tcp_ack_manage =
  am_enable :: bool
  max_num :: int
  free_index :: int
  mg_last_time :: u64
  mg_timeout :: u64
  max_drop_cnt :: int
  ack_info :: "sprdwl_tcp_ack_info list"
  ack_winsize :: u32

datatype ack_action = TxMsg nat | DropMsg nat

text \<open>\<open>time_after(a, b)\<close> of the kernel on 64-bit \<open>unsigned long\<close>.\<close>

definition time_after :: "u64 \<Rightarrow> u64 \<Rightarrow> bool" where
  "time_after a b \<longleftrightarrow> sint (b - a) < 0"

section \<open>Setup and timer\<close>

definition zero_ack_msg :: sprdwl_tcp_ack_msg where
  "zero_ack_msg = \<lparr>am_source = 0, am_dest = 0, am_saddr = 0, am_daddr = 0, am_seq = 0, am_win = 0\<rparr>"

definition init_ack_info :: "u64 \<Rightarrow> u64 \<Rightarrow> sprdwl_tcp_ack_info" where
  "init_ack_info jiffies old =
     \<lparr>busy = False, drop_cnt = 0, psh_flag = False, psh_seq = 0, win_scale = 0, ai_last_time = jiffies,
      ai_timeout = old, ai_timer = False, msgbuf = None, in_send_msg = None, ack_msg = zero_ack_msg\<rparr>"

text \<open>\<open>old\<close> is \<open>msecs_to_jiffies(SPRDWL_ACK_OLD_TIME)\<close>.\<close>

definition sprdwl_tcp_ack_init :: "u64 \<Rightarrow> u64 \<Rightarrow> sprdwl_tcp_ack_manage" where
  "sprdwl_tcp_ack_init jiffies old =
     \<lparr>am_enable = True, max_num = 0, free_index = 0, mg_last_time = jiffies, mg_timeout = old,
      max_drop_cnt = SPRDWL_TCP_ACK_DROP_CNT,
      ack_info = replicate SPRDWL_TCP_ACK_NUM (init_ack_info jiffies old), ack_winsize = MIN_WIN\<rparr>"

text \<open>The timer of slot \<open>i\<close> has run out; it is no longer pending.\<close>

definition sprdwl_tcp_ack_timeout ::
  "sprdwl_tcp_ack_manage \<Rightarrow> nat \<Rightarrow> (sprdwl_tcp_ack_manage \<times> ack_action list) option" where
  "sprdwl_tcp_ack_timeout m i =
     do { a \<leftarrow> aget (ack_info m) i;
          (let a1 = a\<lparr>ai_timer := False\<rparr>
           in case msgbuf a1 of
                Some msg \<Rightarrow>
                  if busy a1 \<and> in_send_msg a1 = None then
                    Some (m\<lparr>ack_info := (ack_info m)[i := a1\<lparr>msgbuf := None, drop_cnt := 0,
                              in_send_msg := Some msg\<rparr>]\<rparr>, [TxMsg msg])
                  else Some (m\<lparr>ack_info := (ack_info m)[i := a1]\<rparr>, [])
              | None \<Rightarrow> Some (m\<lparr>ack_info := (ack_info m)[i := a1]\<rparr>, [])) }"

definition drop_of :: "nat option \<Rightarrow> ack_action list" where
  "drop_of d = (case d of None \<Rightarrow> [] | Some msg \<Rightarrow> [DropMsg msg])"

text \<open>What deinitialisation and switching off do with the slots.\<close>

definition release_slots :: "sprdwl_tcp_ack_manage \<Rightarrow> sprdwl_tcp_ack_manage \<times> ack_action list" where
  "release_slots m =
     (m\<lparr>ack_info := map (\<lambda>a. a\<lparr>ai_timer := False, msgbuf := None\<rparr>) (ack_info m)\<rparr>,
      concat (map (\<lambda>a. drop_of (msgbuf a)) (ack_info m)))"

definition sprdwl_tcp_ack_deinit :: "sprdwl_tcp_ack_manage \<Rightarrow> sprdwl_tcp_ack_manage \<times> ack_action list" where
  "sprdwl_tcp_ack_deinit m = release_slots (m\<lparr>am_enable := False\<rparr>)"

section \<open>Reading a frame\<close>

definition le16 :: "u8 list \<Rightarrow> nat \<Rightarrow> u16 option" where
  "le16 buf i = do { a \<leftarrow> aget buf i; b \<leftarrow> aget buf (i + 1); Some (ucast a + 256 * ucast b) }"

definition be16 :: "u8 list \<Rightarrow> nat \<Rightarrow> u16 option" where
  "be16 buf i = do { a \<leftarrow> aget buf i; b \<leftarrow> aget buf (i + 1); Some (256 * ucast a + ucast b) }"

definition le32 :: "u8 list \<Rightarrow> nat \<Rightarrow> u32 option" where
  "le32 buf i = do { a \<leftarrow> le16 buf i; b \<leftarrow> le16 buf (i + 2); Some (ucast a + 65536 * ucast b) }"

definition be32 :: "u8 list \<Rightarrow> nat \<Rightarrow> u32 option" where
  "be32 buf i = do { a \<leftarrow> be16 buf i; b \<leftarrow> be16 buf (i + 2); Some (65536 * ucast a + ucast b) }"

text \<open>
  The common start of \<open>sprdwl_tcp_check_quick_ack\<close> and \<open>sprdwl_tcp_check_ack\<close>: the offset of
  the TCP header and its flags when the frame is TCP over IPv4 with the ACK flag.
\<close>

definition ETH_HDR :: nat where "ETH_HDR = 14"

definition tcp_ack_header :: "u8 list \<Rightarrow> (nat \<times> u8) option option" where
  "tcp_ack_header buf =
     do { proto \<leftarrow> be16 buf 12;
          if proto \<noteq> 0x0800 then Some None
          else do { vihl \<leftarrow> aget buf ETH_HDR;
                    p \<leftarrow> aget buf (ETH_HDR + 9);
                    if drop_bit 4 vihl \<noteq> 4 \<or> p \<noteq> 6 then Some None
                    else (let off = ETH_HDR + unat (vihl AND 0xf) * 4
                          in do { flags \<leftarrow> aget buf (off + 13);
                                  if flags AND 0x10 = 0 then Some None else Some (Some (off, flags)) }) } }"

definition sprdwl_tcp_check_quick_ack :: "u8 list \<Rightarrow> sprdwl_tcp_ack_msg option option" where
  "sprdwl_tcp_check_quick_ack buf =
     do { h \<leftarrow> tcp_ack_header buf;
          case h of
            None \<Rightarrow> Some None
          | Some (off, flags) \<Rightarrow>
              if flags AND 0x8 \<noteq> 0 then
                do { daddr \<leftarrow> le32 buf (ETH_HDR + 16); saddr \<leftarrow> le32 buf (ETH_HDR + 12);
                     dest \<leftarrow> le16 buf (off + 2); source \<leftarrow> le16 buf off; s \<leftarrow> be32 buf (off + 4);
                     Some (Some (zero_ack_msg\<lparr>am_saddr := daddr, am_daddr := saddr, am_source := dest,
                       am_dest := source, am_seq := s\<rparr>)) }
              else Some None }"

definition TCPOPT_EOL :: u8 where "TCPOPT_EOL = 0"
definition TCPOPT_NOP :: u8 where "TCPOPT_NOP = 1"
definition TCPOPT_WINDOW :: u8 where "TCPOPT_WINDOW = 3"
definition TCPOPT_TIMESTAMP :: u8 where "TCPOPT_TIMESTAMP = 8"

text \<open>
  The loop over the TCP options. \<open>break\<close> in the cases of EOL and of a bad size only leaves the
  \<open>switch\<close>: the loop goes on with the same \<open>len\<close>.
\<close>

function is_drop_loop :: "u8 list \<Rightarrow> nat \<Rightarrow> int \<Rightarrow> int \<Rightarrow> u16 \<Rightarrow> (int \<times> u16) option" where
  "is_drop_loop buf ptr len dp ws =
     (if len > 0 \<and> dp \<noteq> 0 then
        (case aget buf ptr of
          None \<Rightarrow> None
        | Some opcode \<Rightarrow>
            if opcode = TCPOPT_EOL then is_drop_loop buf (ptr + 1) len dp ws
            else if opcode = TCPOPT_NOP then is_drop_loop buf (ptr + 1) (len - 1) dp ws
            else case aget buf (ptr + 1) of
                   None \<Rightarrow> None
                 | Some opsize \<Rightarrow>
                     if opsize < 2 \<or> uint opsize > len then is_drop_loop buf (ptr + 2) len dp ws
                     else if opcode = TCPOPT_TIMESTAMP then
                       is_drop_loop buf (ptr + unat opsize) (len - uint opsize) dp ws
                     else if opcode = TCPOPT_WINDOW then
                       (case aget buf (ptr + 2) of
                          None \<Rightarrow> None
                        | Some sh \<Rightarrow>
                            is_drop_loop buf (ptr + unat opsize) (len - uint opsize) dp
                              (if sh < 15 then push_bit (unat sh) 1 else ws))
                     else is_drop_loop buf (ptr + unat opsize) (len - uint opsize) 2 ws)
      else Some (dp, ws))"
  by pat_completeness auto
termination
  by (relation "measure (\<lambda>(buf, ptr, len, dp, ws). length buf - ptr)")
    (auto simp: aget_eq_Some_iff word_less_nat_alt not_less)

declare is_drop_loop.simps [simp del]

definition is_drop_tcp_ack :: "u8 list \<Rightarrow> nat \<Rightarrow> int \<Rightarrow> u16 \<Rightarrow> (int \<times> u16) option" where
  "is_drop_tcp_ack buf off tcp_tot_len ws =
     do { doff \<leftarrow> aget buf (off + 12);
          (let len = uint (drop_bit 4 doff) * 4
           in if tcp_tot_len > len then Some (0, ws)
              else is_drop_loop buf (off + 20) (len - 20) 1 ws) }"

text \<open>0: not an ACK to look at; 1: it can be dropped; 2: it has more to say.\<close>

definition sprdwl_tcp_check_ack ::
  "u8 list \<Rightarrow> u16 \<Rightarrow> (int \<times> sprdwl_tcp_ack_msg \<times> u16) option" where
  "sprdwl_tcp_check_ack buf ws =
     do { h \<leftarrow> tcp_ack_header buf;
          case h of
            None \<Rightarrow> Some (0, zero_ack_msg, ws)
          | Some (off, flags) \<Rightarrow>
              do { tot \<leftarrow> be16 buf (ETH_HDR + 2);
                   (ret, ws') \<leftarrow> is_drop_tcp_ack buf off (uint tot - int (off - ETH_HDR)) ws;
                   if ret > 0 then
                     do { saddr \<leftarrow> le32 buf (ETH_HDR + 12); daddr \<leftarrow> le32 buf (ETH_HDR + 16);
                          source \<leftarrow> le16 buf off; dest \<leftarrow> le16 buf (off + 2);
                          s \<leftarrow> be32 buf (off + 8); w \<leftarrow> be16 buf (off + 14);
                          Some (ret, \<lparr>am_source = source, am_dest = dest, am_saddr = saddr,
                                      am_daddr = daddr, am_seq = s, am_win = w\<rparr>, ws') }
                   else Some (ret, zero_ack_msg, ws') } }"

section \<open>Slots\<close>

definition same_flow :: "sprdwl_tcp_ack_msg \<Rightarrow> sprdwl_tcp_ack_msg \<Rightarrow> bool" where
  "same_flow a b \<longleftrightarrow> am_dest a = am_dest b \<and> am_source a = am_source b \<and> am_saddr a = am_saddr b
     \<and> am_daddr a = am_daddr b"

fun match_from :: "sprdwl_tcp_ack_info list \<Rightarrow> sprdwl_tcp_ack_msg \<Rightarrow> int \<Rightarrow> int" where
  "match_from [] am i = -1"
| "match_from (a # as) am i = (if busy a \<and> same_flow (ack_msg a) am then i else match_from as am (i + 1))"

definition sprdwl_tcp_ack_match :: "sprdwl_tcp_ack_manage \<Rightarrow> sprdwl_tcp_ack_msg \<Rightarrow> int" where
  "sprdwl_tcp_ack_match m am = match_from (ack_info m) am 0"

text \<open>The loop of \<open>sprdwl_tcp_ack_update\<close>, from the last slot down to the first.\<close>

fun update_slots :: "u64 \<Rightarrow> nat \<Rightarrow> sprdwl_tcp_ack_manage \<Rightarrow> sprdwl_tcp_ack_manage option" where
  "update_slots jiffies 0 m = Some m"
| "update_slots jiffies (Suc i) m =
     do { a \<leftarrow> aget (ack_info m) i;
          update_slots jiffies i
            (if busy a \<and> time_after jiffies (ai_last_time a + ai_timeout a) then
               m\<lparr>free_index := int i, max_num := max_num m - 1,
                 ack_info := (ack_info m)[i := a\<lparr>busy := False\<rparr>]\<rparr>
             else m) }"

definition sprdwl_tcp_ack_update :: "u64 \<Rightarrow> sprdwl_tcp_ack_manage \<Rightarrow> sprdwl_tcp_ack_manage option" where
  "sprdwl_tcp_ack_update jiffies m =
     (if time_after jiffies (mg_last_time m + mg_timeout m)
      then update_slots jiffies SPRDWL_TCP_ACK_NUM (m\<lparr>mg_last_time := jiffies\<rparr>)
      else Some m)"

fun first_free :: "sprdwl_tcp_ack_info list \<Rightarrow> int \<Rightarrow> int" where
  "first_free [] i = -1"
| "first_free (a # as) i = (if \<not> busy a then i else first_free as (i + 1))"

definition sprdwl_tcp_ack_alloc_index :: "sprdwl_tcp_ack_manage \<Rightarrow> int \<times> sprdwl_tcp_ack_manage" where
  "sprdwl_tcp_ack_alloc_index m =
     (if max_num m = int SPRDWL_TCP_ACK_NUM then (-1, m)
      else if free_index m \<ge> 0 then
        (free_index m, m\<lparr>free_index := -1, max_num := max_num m + 1\<rparr>)
      else (let i = first_free (ack_info m) 0
            in if i \<ge> 0 then (i, m\<lparr>free_index := -1, max_num := max_num m + 1\<rparr>) else (-1, m)))"

section \<open>Deciding about an ACK\<close>

text \<open>
  \<open>sprdwl_tcp_ack_handle\<close> on a slot: the new slot, the message to drop and whether the new
  message is kept back (1) or goes on to the driver (0).
\<close>

definition sprdwl_tcp_ack_handle ::
  "u64 \<Rightarrow> int \<Rightarrow> sprdwl_tcp_ack_info \<Rightarrow> nat \<Rightarrow> sprdwl_tcp_ack_msg \<Rightarrow> int
   \<Rightarrow> sprdwl_tcp_ack_info \<times> nat option \<times> int" where
  "sprdwl_tcp_ack_handle jiffies maxdrop a0 new am type =
     (let a = a0\<lparr>ai_last_time := jiffies\<rparr>;
          before = SPRDWL_U32_BEFORE (am_seq (ack_msg a)) (am_seq am);
          reached = psh_flag a \<and> \<not> SPRDWL_U32_BEFORE (am_seq am) (psh_seq a)
      in if type = 2 then
           if before then
             (let a1 = a\<lparr>ack_msg := (ack_msg a)\<lparr>am_seq := am_seq am\<rparr>,
                         psh_flag := (psh_flag a \<and> \<not> reached)\<rparr>;
                  dropped = msgbuf a1;
                  a2 = (if msgbuf a1 \<noteq> None then a1\<lparr>msgbuf := None, ai_timer := False\<rparr> else a1)
              in (a2\<lparr>in_send_msg := None, drop_cnt := maxdrop\<rparr>, dropped, 0))
           else (a, Some new, 1)
         else if before then
           (let dropped = msgbuf a;
                a1 = a\<lparr>msgbuf := None\<rparr>;
                quick_ack = reached;
                a2 = (if reached then a1\<lparr>psh_flag := False\<rparr> else a1\<lparr>drop_cnt := drop_cnt a1 + 1\<rparr>);
                a3 = a2\<lparr>ack_msg := (ack_msg a2)\<lparr>am_seq := am_seq am\<rparr>\<rparr>
            in if quick_ack \<or> (in_send_msg a3 = None \<and> drop_cnt a3 \<ge> maxdrop) then
                 (a3\<lparr>drop_cnt := 0, in_send_msg := Some new, ai_timer := False\<rparr>, dropped, 0)
               else (a3\<lparr>msgbuf := Some new, ai_timer := True\<rparr>, dropped, 1))
         else (a, Some new, 1))"

definition sprdwl_filter_rx_tcp_ack ::
  "sprdwl_tcp_ack_manage \<Rightarrow> u8 list \<Rightarrow> nat \<Rightarrow> sprdwl_tcp_ack_manage option" where
  "sprdwl_filter_rx_tcp_ack m buf plen =
     (if \<not> am_enable m then Some m
      else if plen > MAX_TCP_ACK then Some m
      else do { q \<leftarrow> sprdwl_tcp_check_quick_ack buf;
                case q of
                  None \<Rightarrow> Some m
                | Some am \<Rightarrow>
                    (let index = sprdwl_tcp_ack_match m am in
                     if index \<ge> 0 then
                       do { a \<leftarrow> aget (ack_info m) (nat index);
                            Some (m\<lparr>ack_info := (ack_info m)[nat index :=
                                     a\<lparr>psh_flag := True, psh_seq := am_seq am\<rparr>]\<rparr>) }
                     else Some m) })"

text \<open>The new slot of a flow that is seen for the first time.\<close>

definition open_slot ::
  "u64 \<Rightarrow> int \<Rightarrow> u16 \<Rightarrow> sprdwl_tcp_ack_msg \<Rightarrow> sprdwl_tcp_ack_info \<Rightarrow> sprdwl_tcp_ack_info" where
  "open_slot jiffies maxdrop ws am a =
     a\<lparr>busy := True, psh_flag := False, ai_last_time := jiffies, drop_cnt := maxdrop,
       win_scale := (if ws \<noteq> 0 then ws else 1),
       ack_msg := (ack_msg a)\<lparr>am_dest := am_dest am, am_source := am_source am, am_saddr := am_saddr am,
         am_daddr := am_daddr am, am_seq := am_seq am\<rparr>\<rparr>"

text \<open>Returns 1 when the message is kept back or dropped, 0 when the driver sends it.\<close>

definition sprdwl_filter_send_tcp_ack ::
  "u64 \<Rightarrow> sprdwl_tcp_ack_manage \<Rightarrow> nat \<Rightarrow> u8 list \<Rightarrow> nat
   \<Rightarrow> (int \<times> sprdwl_tcp_ack_manage \<times> ack_action list) option" where
  "sprdwl_filter_send_tcp_ack jiffies m0 new buf plen =
     (if plen > MAX_TCP_ACK then Some (0, m0, [])
      else do {
        m \<leftarrow> sprdwl_tcp_ack_update jiffies m0;
        (dp, am, ws) \<leftarrow> sprdwl_tcp_check_ack buf 0;
        if dp = 0 \<and> ws = 0 then Some (0, m, [])
        else
          (let index = sprdwl_tcp_ack_match m am in
           if index \<ge> 0 then
             do { a0 \<leftarrow> aget (ack_info m) (nat index);
                  (let a = (if ws \<noteq> 0 \<and> win_scale a0 \<noteq> ws then a0\<lparr>win_scale := ws\<rparr> else a0)
                   in if dp > 0 \<and> am_enable m then
                        (let win = ucast (win_scale a) * ucast (am_win am) :: u32;
                             type = (if win < ack_winsize m * SIZE_KB then 2 else dp);
                             (a', dropped, ret) = sprdwl_tcp_ack_handle jiffies (max_drop_cnt m) a new am type
                         in Some (ret, m\<lparr>ack_info := (ack_info m)[nat index := a']\<rparr>, drop_of dropped))
                      else Some (0, m\<lparr>ack_info := (ack_info m)[nat index := a]\<rparr>, [])) }
           else
             (let (free, m1) = sprdwl_tcp_ack_alloc_index m in
              if free \<ge> 0 then
                do { a \<leftarrow> aget (ack_info m1) (nat free);
                     Some (0, m1\<lparr>ack_info := (ack_info m1)[nat free :=
                             open_slot jiffies (max_drop_cnt m1) ws am a]\<rparr>, []) }
              else Some (0, m1, []))) })"

definition sprdwl_move_tcpack_msg ::
  "sprdwl_tcp_ack_manage \<Rightarrow> nat \<Rightarrow> nat \<Rightarrow> sprdwl_tcp_ack_manage" where
  "sprdwl_move_tcpack_msg m msg len =
     (if \<not> am_enable m \<or> len > MAX_TCP_ACK then m
      else m\<lparr>ack_info := map (\<lambda>a. if busy a \<and> in_send_msg a = Some msg then a\<lparr>in_send_msg := None\<rparr> else a)
               (ack_info m)\<rparr>)"

section \<open>Configuration\<close>

definition enable_tcp_ack_delay ::
  "sprdwl_tcp_ack_manage \<Rightarrow> u8 list \<Rightarrow> nat \<Rightarrow> (sprdwl_tcp_ack_manage \<times> ack_action list) option" where
  "enable_tcp_ack_delay m buf offset =
     do { c \<leftarrow> aget buf offset;
          (let enable = uint c - 48 in
           if enable = 0 \<and> am_enable m then Some (release_slots (m\<lparr>am_enable := False\<rparr>))
           else if enable = 1 \<and> \<not> am_enable m then Some (m\<lparr>am_enable := True\<rparr>, [])
           else Some (m, [])) }"

text \<open>
  The loop \<open>for (i = 0; i < n; (cnt *= 10), i++)\<close> that reads a decimal number: it multiplies
  after each digit, also after the last one.
\<close>

fun read_decimal :: "nat \<Rightarrow> u8 list \<Rightarrow> nat \<Rightarrow> u32 \<Rightarrow> u32 option" where
  "read_decimal 0 buf i cnt = Some cnt"
| "read_decimal (Suc n) buf i cnt =
     do { c \<leftarrow> aget buf i;
          if 48 \<le> c \<and> c \<le> 57 then read_decimal n buf (i + 1) ((cnt + ucast (c - 48)) * 10)
          else Some (cnt div 10) }"

definition adjust_tcp_ack_delay ::
  "sprdwl_tcp_ack_manage \<Rightarrow> u8 list \<Rightarrow> nat \<Rightarrow> sprdwl_tcp_ack_manage option" where
  "adjust_tcp_ack_delay m buf offset =
     do { cnt \<leftarrow> read_decimal 2 buf offset 0;
          Some (m\<lparr>max_drop_cnt := (if cnt \<ge> 100 then SPRDWL_TCP_ACK_DROP_CNT else uint cnt)\<rparr>) }"

text \<open>\<open>slen\<close> is \<open>strlen(buf)\<close>; the name in front of the number has 17 characters.\<close>

definition adjust_tcp_ack_delay_win ::
  "sprdwl_tcp_ack_manage \<Rightarrow> u8 list \<Rightarrow> nat \<Rightarrow> nat \<Rightarrow> sprdwl_tcp_ack_manage option" where
  "adjust_tcp_ack_delay_win m buf offset slen =
     do { v \<leftarrow> read_decimal (slen - 17) buf offset 0; Some (m\<lparr>ack_winsize := v\<rparr>) }"

end
