(* ===== verification/Tcp_Ack_Correct.thy ===== *)
theory Tcp_Ack_Correct
  imports Tcp_Ack
begin

text \<open>
  What the ACK filter guarantees: frames are read back as they were built, the slots stay
  consistent in every reachable state, every message is accounted for; and where the code
  leaves the buffer, strands a message or reads a number wrongly.
\<close>

section \<open>TCP options\<close>

text \<open>Options as they are encoded in a header without EOL.\<close>

datatype tcp_opt = Nop | Opt u8 "u8 list"

fun enc_opt :: "tcp_opt \<Rightarrow> u8 list" where
  "enc_opt Nop = [TCPOPT_NOP]"
| "enc_opt (Opt kd body) = kd # of_nat (length body + 2) # body"

fun opt_ok :: "tcp_opt \<Rightarrow> bool" where
  "opt_ok Nop = True"
| "opt_ok (Opt kd body) \<longleftrightarrow> kd \<noteq> TCPOPT_EOL \<and> kd \<noteq> TCPOPT_NOP \<and> length body < 254
     \<and> (kd = TCPOPT_WINDOW \<longrightarrow> body \<noteq> [])"

text \<open>What an option says: time stamps are ignored, a window scale is taken, others matter.\<close>

fun opt_effect :: "tcp_opt \<Rightarrow> int \<times> u16 \<Rightarrow> int \<times> u16" where
  "opt_effect Nop (dp, ws) = (dp, ws)"
| "opt_effect (Opt kd body) (dp, ws) =
     (if kd = TCPOPT_TIMESTAMP then (dp, ws)
      else if kd = TCPOPT_WINDOW then (dp, if hd body < 15 then push_bit (unat (hd body)) 1 else ws)
      else (2, ws))"

definition opts_effect :: "tcp_opt list \<Rightarrow> int \<times> u16 \<Rightarrow> int \<times> u16" where
  "opts_effect os = fold opt_effect os"

lemma aget_prefix: "aget (pre @ x # xs) (length pre) = Some x"
  by (simp add: aget_def)

lemma aget_prefix1: "aget (pre @ x # y # xs) (Suc (length pre)) = Some y"
  using aget_prefix [of "pre @ [x]" y xs] by simp

lemma aget_prefix2: "aget (pre @ x # y # z # xs) (Suc (Suc (length pre))) = Some z"
  using aget_prefix [of "pre @ [x, y]" z xs] by simp

lemma opt_effect_drop: "dp \<noteq> 0 \<Longrightarrow> fst (opt_effect o1 (dp, ws)) \<noteq> 0"
  by (cases o1) auto

lemma is_drop_step:
  assumes "opt_ok o1" and "dp \<noteq> 0" and rest: "length (enc_opt o1) \<le> len"
  shows "is_drop_loop (pre @ enc_opt o1 @ xs) (length pre) (int len) dp ws
    = is_drop_loop (pre @ enc_opt o1 @ xs) (length pre + length (enc_opt o1)) (int len - int (length (enc_opt o1)))
        (fst (opt_effect o1 (dp, ws))) (snd (opt_effect o1 (dp, ws)))"
proof (cases o1)
  case Nop
  with assms show ?thesis
    by (subst is_drop_loop.simps) (simp add: aget_prefix TCPOPT_NOP_def TCPOPT_EOL_def)
next
  case (Opt kd body)
  let ?n = "of_nat (length body + 2) :: u8"
  have b: "length body + 2 < 256" using assms(1) Opt by simp
  have n1: "unat ?n = length body + 2" unfolding unat_of_nat using b by simp
  have n2: "uint ?n = int (length body + 2)" unfolding uint_nat n1 ..
  note n = n1 n2
  have ge: "\<not> ?n < 2" using n(1) by (simp add: word_less_nat_alt)
  have len: "int (length body + 2) \<le> int len" using rest Opt by simp
  obtain b bs where body: "kd = TCPOPT_WINDOW \<Longrightarrow> body = b # bs" using assms(1) Opt by (cases body) auto
  show ?thesis
    using assms(1,2) Opt len n ge body
    by (subst is_drop_loop.simps)
      (auto simp: aget_prefix aget_prefix1 aget_prefix2 TCPOPT_TIMESTAMP_def TCPOPT_WINDOW_def add.assoc)
qed

lemma is_drop_options:
  assumes "\<forall>p \<in> set os. opt_ok p" and "dp \<noteq> 0"
  shows "is_drop_loop (pre @ concat (map enc_opt os) @ xs) (length pre) (int (length (concat (map enc_opt os)))) dp ws
    = Some (opts_effect os (dp, ws))"
  using assms
proof (induction os arbitrary: pre dp ws)
  case Nil
  then show ?case by (subst is_drop_loop.simps) (simp add: opts_effect_def)
next
  case (Cons p os)
  let ?rest = "concat (map enc_opt os)"
  obtain dp' ws' where e: "opt_effect p (dp, ws) = (dp', ws')" by fastforce
  have dp': "dp' \<noteq> 0" using opt_effect_drop [of dp p ws] Cons.prems(2) e by simp
  have "is_drop_loop (pre @ enc_opt p @ ?rest @ xs) (length pre) (int (length (enc_opt p @ ?rest))) dp ws
      = is_drop_loop (pre @ enc_opt p @ ?rest @ xs) (length pre + length (enc_opt p)) (int (length ?rest)) dp' ws'"
    using is_drop_step [of p dp "length (enc_opt p @ ?rest)" pre "?rest @ xs" ws] Cons.prems e by simp
  also have "\<dots> = Some (opts_effect os (dp', ws'))"
    using Cons.IH [of dp' "pre @ enc_opt p" ws'] Cons.prems(1) dp' by simp
  finally show ?case using e by (simp add: opts_effect_def)
qed

text \<open>A header whose options end with EOL: the loop does not stop there.\<close>

lemma is_drop_eol:
  assumes "0 < len" and "dp \<noteq> 0"
  shows "is_drop_loop (pre @ replicate n TCPOPT_EOL) (length pre) len dp ws = None"
proof (induction n arbitrary: pre)
  case 0
  show ?case using assms by (subst is_drop_loop.simps) (simp add: aget_def)
next
  case (Suc n)
  have "is_drop_loop (pre @ replicate (Suc n) TCPOPT_EOL) (length pre) len dp ws
      = is_drop_loop ((pre @ [TCPOPT_EOL]) @ replicate n TCPOPT_EOL) (length (pre @ [TCPOPT_EOL])) len dp ws"
    using assms by (subst is_drop_loop.simps) (simp add: aget_prefix)
  also have "\<dots> = None" by (rule Suc)
  finally show ?case .
qed

section \<open>Frames\<close>

definition bytes16 :: "u16 \<Rightarrow> u8 list" where
  "bytes16 x = [ucast (drop_bit 8 x), ucast x]"

definition bytes32 :: "u32 \<Rightarrow> u8 list" where
  "bytes32 x = bytes16 (ucast (drop_bit 16 x)) @ bytes16 (ucast x)"

lemma join_bytes: "256 * (ucast (ucast (drop_bit 8 x) :: u8) :: u16) + ucast (ucast x :: u8) = x"
proof -
  have x: "unat x < 65536" using unsigned_less [of x] by simp
  have a: "unat (ucast (drop_bit 8 x) :: u8) = unat x div 256"
    using x by (simp add: unsigned_ucast_eq take_bit_eq_mod drop_bit_eq_div unat_div)
  have b: "unat (ucast x :: u8) = unat x mod 256"
    by (simp add: unsigned_ucast_eq take_bit_eq_mod)
  have "unat (256 * (ucast (ucast (drop_bit 8 x) :: u8) :: u16) + ucast (ucast x :: u8))
      = (256 * (unat x div 256) + unat x mod 256) mod 65536"
    by (simp add: unat_word_ariths a b mod_simps)
  then show ?thesis using x by (simp add: word_unat_eq_iff)
qed

lemma join_halves: "65536 * (ucast (ucast (drop_bit 16 x) :: u16) :: u32) + ucast (ucast x :: u16) = x"
proof -
  have x: "unat x < 4294967296" using unsigned_less [of x] by simp
  have a: "unat (ucast (drop_bit 16 x) :: u16) = unat x div 65536"
    using x by (simp add: unsigned_ucast_eq take_bit_eq_mod drop_bit_eq_div unat_div)
  have b: "unat (ucast x :: u16) = unat x mod 65536"
    by (simp add: unsigned_ucast_eq take_bit_eq_mod)
  have "unat (65536 * (ucast (ucast (drop_bit 16 x) :: u16) :: u32) + ucast (ucast x :: u16))
      = (65536 * (unat x div 65536) + unat x mod 65536) mod 4294967296"
    by (simp add: unat_word_ariths a b mod_simps)
  then show ?thesis using x by (simp add: word_unat_eq_iff)
qed

lemma be16_bytes16:
  assumes "i + 2 \<le> length buf" and "take 2 (drop i buf) = bytes16 x"
  shows "be16 buf i = Some x"
proof -
  have "buf ! i = ucast (drop_bit 8 x)" "buf ! (i + 1) = ucast x"
    using arg_cong [OF assms(2), of "\<lambda>l. l ! 0"] arg_cong [OF assms(2), of "\<lambda>l. l ! 1"] assms(1)
    by (simp_all add: bytes16_def)
  with assms(1) show ?thesis by (simp add: be16_def join_bytes)
qed

lemma le16_bytes16:
  assumes "i + 2 \<le> length buf" and "take 2 (drop i buf) = rev (bytes16 x)"
  shows "le16 buf i = Some x"
proof -
  have "buf ! i = ucast x" "buf ! (i + 1) = ucast (drop_bit 8 x)"
    using arg_cong [OF assms(2), of "\<lambda>l. l ! 0"] arg_cong [OF assms(2), of "\<lambda>l. l ! 1"] assms(1)
    by (simp_all add: bytes16_def)
  with assms(1) show ?thesis using join_bytes [of x] by (simp add: le16_def add.commute)
qed

lemma be32_bytes32:
  assumes "i + 4 \<le> length buf" and "take 4 (drop i buf) = bytes32 x"
  shows "be32 buf i = Some x"
proof -
  have "take 2 (drop i buf) = bytes16 (ucast (drop_bit 16 x))" "take 2 (drop (i + 2) buf) = bytes16 (ucast x)"
    using arg_cong [OF assms(2), of "take 2"] arg_cong [OF assms(2), of "drop 2"] assms(1)
    by (simp_all add: bytes32_def bytes16_def drop_take)
  then show ?thesis using assms(1) by (simp add: be32_def be16_bytes16 join_halves)
qed

lemma le32_bytes32:
  assumes "i + 4 \<le> length buf" and "take 4 (drop i buf) = rev (bytes32 x)"
  shows "le32 buf i = Some x"
proof -
  have "take 2 (drop i buf) = rev (bytes16 (ucast x))" "take 2 (drop (i + 2) buf) = rev (bytes16 (ucast (drop_bit 16 x)))"
    using arg_cong [OF assms(2), of "take 2"] arg_cong [OF assms(2), of "drop 2"] assms(1)
    by (simp_all add: bytes32_def bytes16_def drop_take)
  then show ?thesis using assms(1) join_halves [of x] by (simp add: le32_def le16_bytes16 add.commute)
qed

text \<open>
  An ACK without data, as a station sends it: Ethernet, IPv4 without options, TCP with the
  given options. Ports and addresses are kept in the byte order of the wire.
\<close>

definition ack_frame :: "sprdwl_tcp_ack_msg \<Rightarrow> tcp_opt list \<Rightarrow> u8 list" where
  "ack_frame am os =
     (let opts = concat (map enc_opt os) in
      replicate 12 0 @ [8, 0]
      @ [0x45, 0] @ bytes16 (of_nat (40 + length opts)) @ [0, 0, 0, 0, 64, 6, 0, 0]
      @ rev (bytes32 (am_saddr am)) @ rev (bytes32 (am_daddr am))
      @ rev (bytes16 (am_source am)) @ rev (bytes16 (am_dest am)) @ [0, 0, 0, 0] @ bytes32 (am_seq am)
      @ [of_nat (16 * (5 + length opts div 4)), 0x10] @ bytes16 (am_win am) @ [0, 0, 0, 0] @ opts)"

lemma length_bytes [simp]: "length (bytes16 x) = 2" "length (bytes32 y) = 4"
  by (simp_all add: bytes16_def bytes32_def)

lemma numeral_bytes: "bytes16 x ! 0 = ucast (drop_bit 8 x)" "bytes16 x ! Suc 0 = ucast x"
  by (simp_all add: bytes16_def)

lemma ack_frame_fields:
  fixes am os
  defines "buf \<equiv> ack_frame am os" and "opts \<equiv> concat (map enc_opt os)"
  assumes l4: "4 dvd length opts" and l40: "length opts \<le> 40"
  shows "tcp_ack_header buf = Some (Some (34, 0x10))"
    and "be16 buf 16 = Some (of_nat (40 + length opts))"
    and "le32 buf 26 = Some (am_saddr am)" and "le32 buf 30 = Some (am_daddr am)"
    and "le16 buf 34 = Some (am_source am)" and "le16 buf 36 = Some (am_dest am)"
    and "be32 buf 42 = Some (am_seq am)" and "be16 buf 48 = Some (am_win am)"
    and "aget buf 46 = Some (of_nat (16 * (5 + length opts div 4)))"
proof -
  let ?ip = "[0x45, 0] @ bytes16 (of_nat (40 + length opts)) @ [0, 0, 0, 0, 64, 6, 0, 0] :: u8 list"
  let ?addr = "rev (bytes32 (am_saddr am)) @ rev (bytes32 (am_daddr am))"
  let ?port = "rev (bytes16 (am_source am)) @ rev (bytes16 (am_dest am))"
  let ?fl = "[of_nat (16 * (5 + length opts div 4)), 0x10] :: u8 list"
  have buf: "buf = replicate 12 0 @ [8, 0] @ ?ip @ ?addr @ ?port @ [0, 0, 0, 0] @ bytes32 (am_seq am) @ ?fl
      @ bytes16 (am_win am) @ [0, 0, 0, 0] @ opts"
    by (simp add: buf_def ack_frame_def opts_def Let_def)
  have len: "54 \<le> length buf" by (simp add: buf)
  show "be16 buf 16 = Some (of_nat (40 + length opts))"
    by (rule be16_bytes16) (use len in \<open>simp_all add: buf\<close>)
  show "le32 buf 26 = Some (am_saddr am)" "le32 buf 30 = Some (am_daddr am)"
    by (rule le32_bytes32; use len in \<open>simp add: buf\<close>)+
  show "le16 buf 34 = Some (am_source am)" "le16 buf 36 = Some (am_dest am)"
    by (rule le16_bytes16; use len in \<open>simp add: buf\<close>)+
  show "be32 buf 42 = Some (am_seq am)"
    by (rule be32_bytes32) (use len in \<open>simp_all add: buf\<close>)
  show "be16 buf 48 = Some (am_win am)"
    by (rule be16_bytes16) (use len in \<open>simp_all add: buf\<close>)
  show "aget buf 46 = Some (of_nat (16 * (5 + length opts div 4)))"
    using len by (simp add: aget_def) (simp add: buf nth_append)
  have "be16 buf 12 = Some 0x0800"
    by (rule be16_bytes16) (use len in \<open>simp_all add: buf bytes16_def\<close>)
  moreover have "aget buf 14 = Some 0x45" "aget buf 23 = Some 6" "aget buf 47 = Some 0x10"
    using len by (simp add: aget_def, simp add: buf nth_append)+
  ultimately show "tcp_ack_header buf = Some (Some (34, 0x10))"
    by (simp add: tcp_ack_header_def ETH_HDR_def)
qed

lemma check_ack_frame:
  assumes ok: "\<forall>p \<in> set os. opt_ok p" and l4: "4 dvd length (concat (map enc_opt os))"
    and l40: "length (concat (map enc_opt os)) \<le> 40"
    and e: "opts_effect os (1, 0) = (dp, ws)"
  shows "sprdwl_tcp_check_ack (ack_frame am os) 0 = Some (dp, am, ws)"
proof -
  let ?buf = "ack_frame am os" and ?opts = "concat (map enc_opt os)"
  note f = ack_frame_fields [OF l4 l40, of am]
  obtain m where m: "length ?opts = 4 * m" "m \<le> 10" using l4 l40 by (auto elim!: dvdE)
  have doff: "uint (drop_bit 4 (of_nat (16 * (5 + length ?opts div 4)) :: u8)) = int (5 + m)"
  proof -
    have "16 * (5 + m) < 256" using m(2) by simp
    then have "unat (of_nat (16 * (5 + m)) :: u8) = 16 * (5 + m)" unfolding unat_of_nat by simp
    then have "unat (drop_bit 4 (of_nat (16 * (5 + m)) :: u8)) = 5 + m"
      by (simp add: drop_bit_eq_div unat_div)
    then show ?thesis using m(1) by (simp add: uint_nat)
  qed
  have tot: "uint (of_nat (40 + length ?opts) :: u16) = int (40 + 4 * m)"
  proof -
    have "unat (of_nat (40 + 4 * m) :: u16) = 40 + 4 * m" unfolding unat_of_nat using m(2) by simp
    then show ?thesis using m(1) by (simp add: uint_nat)
  qed
  have buf: "?buf = take 54 ?buf @ ?opts" "length (take 54 ?buf) = 54"
    by (simp_all add: ack_frame_def Let_def)
  have "is_drop_loop ?buf 54 (int (length ?opts)) 1 0 = Some (dp, ws)"
    using is_drop_options [OF ok, of 1 "take 54 ?buf" "[]" 0] buf e by simp
  then have "is_drop_tcp_ack ?buf 34 (uint (of_nat (40 + length ?opts) :: u16) - 20) 0 = Some (dp, ws)"
    using f(9) doff tot m(1) by (simp add: is_drop_tcp_ack_def Let_def mult.commute)
  moreover have "dp > 0"
  proof -
    have step: "0 < fst (opt_effect x st)" if "0 < fst st" for x st
      using that by (cases st; cases x) auto
    have "fst (fold opt_effect os (1 :: int, 0)) > 0"
      by (rule fold_invariant [where Q = "\<lambda>_. True" and P = "\<lambda>x. fst x > 0"]) (simp_all add: step)
    then show ?thesis using e by (simp add: opts_effect_def)
  qed
  ultimately show ?thesis
    using f(1-8) by (simp add: sprdwl_tcp_check_ack_def ETH_HDR_def)
qed

section \<open>Slots\<close>

definition busy_count :: "sprdwl_tcp_ack_info list \<Rightarrow> nat" where
  "busy_count as = length (filter busy as)"

definition flow_of :: "sprdwl_tcp_ack_info \<Rightarrow> u16 \<times> u16 \<times> u32 \<times> u32" where
  "flow_of a = (am_dest (ack_msg a), am_source (ack_msg a), am_saddr (ack_msg a), am_daddr (ack_msg a))"

text \<open>
  The slots agree with the counters: \<open>max_num\<close> counts the busy ones, a remembered free index is
  one of a slot that is not busy, and no flow has two slots.
\<close>

definition slots_distinct :: "sprdwl_tcp_ack_info list \<Rightarrow> bool" where
  "slots_distinct as \<longleftrightarrow> (\<forall>i < length as. \<forall>j < length as.
     busy (as ! i) \<and> busy (as ! j) \<and> flow_of (as ! i) = flow_of (as ! j) \<longrightarrow> i = j)"

definition ack_wf :: "sprdwl_tcp_ack_manage \<Rightarrow> bool" where
  "ack_wf m \<longleftrightarrow> length (ack_info m) = SPRDWL_TCP_ACK_NUM \<and> max_num m = int (busy_count (ack_info m))
     \<and> free_index m < int SPRDWL_TCP_ACK_NUM
     \<and> (0 \<le> free_index m \<longrightarrow> \<not> busy (ack_info m ! nat (free_index m)))
     \<and> slots_distinct (ack_info m)"

lemma ack_wf_init: "ack_wf (sprdwl_tcp_ack_init j old)"
  by (simp add: ack_wf_def sprdwl_tcp_ack_init_def busy_count_def slots_distinct_def init_ack_info_def
      SPRDWL_TCP_ACK_NUM_def)

lemma busy_count_update:
  "i < length as \<Longrightarrow> busy_count (as[i := a]) + (if busy (as ! i) then 1 else 0)
     = busy_count as + (if busy a then 1 else 0)"
  unfolding busy_count_def by (rule length_filter_update)

lemma slots_distinct_update:
  assumes d: "slots_distinct as" and i: "i < length as"
    and new: "\<And>j. j < length as \<Longrightarrow> j \<noteq> i \<Longrightarrow> busy (as ! j) \<Longrightarrow> busy a \<Longrightarrow> flow_of (as ! j) \<noteq> flow_of a"
  shows "slots_distinct (as[i := a])"
  unfolding slots_distinct_def
proof (intro allI impI, elim conjE)
  fix x y
  assume xy: "x < length (as[i := a])" "y < length (as[i := a])" "busy (as[i := a] ! x)" "busy (as[i := a] ! y)"
    "flow_of (as[i := a] ! x) = flow_of (as[i := a] ! y)"
  show "x = y"
  proof (cases "x = i"; cases "y = i")
    assume "x \<noteq> i" "y \<noteq> i"
    then show ?thesis using xy d by (simp add: slots_distinct_def)
  next
    assume "x = i" "y \<noteq> i"
    then show ?thesis using xy i new [of y] by simp
  next
    assume "x \<noteq> i" "y = i"
    then show ?thesis using xy i new [of x] by simp
  qed simp
qed

lemma slots_distinct_same:
  assumes d: "slots_distinct as" and "i < length as" and "busy a \<longrightarrow> busy (as ! i) \<and> flow_of a = flow_of (as ! i)"
  shows "slots_distinct (as[i := a])"
  by (rule slots_distinct_update [OF d assms(2)]) (use assms in \<open>auto simp: slots_distinct_def\<close>)

text \<open>Changing a slot without opening or closing it.\<close>

lemma ack_wf_slot:
  assumes wf: "ack_wf m" and i: "i < length (ack_info m)" and b: "busy a = busy (ack_info m ! i)"
    and f: "flow_of a = flow_of (ack_info m ! i)"
  shows "ack_wf (m\<lparr>ack_info := (ack_info m)[i := a]\<rparr>)"
proof -
  have "busy_count ((ack_info m)[i := a]) = busy_count (ack_info m)"
    using busy_count_update [OF i, of a] b by (simp split: if_splits)
  moreover have "slots_distinct ((ack_info m)[i := a])"
    using wf i b f by (intro slots_distinct_same) (auto simp: ack_wf_def)
  moreover have "busy ((ack_info m)[i := a] ! j) = busy (ack_info m ! j)" for j
    using i b by (cases "j = i") auto
  ultimately show ?thesis using wf by (simp add: ack_wf_def)
qed

text \<open>Both searches return the index of the first slot with a property, or -1.\<close>

lemma index_search:
  fixes f :: "'a list \<Rightarrow> int \<Rightarrow> int"
  assumes nil: "\<And>k. f [] k = -1" and cons: "\<And>a as k. f (a # as) k = (if P a then k else f as (k + 1))"
  shows "(f as k = -1 \<and> (\<forall>i < length as. \<not> P (as ! i))) \<or> (\<exists>i < length as. f as k = k + int i \<and> P (as ! i))"
proof (induction as arbitrary: k)
  case Nil
  then show ?case by (simp add: nil)
next
  case (Cons a as)
  consider "P a" | "\<not> P a" "f as (k + 1) = -1" "\<forall>i < length as. \<not> P (as ! i)"
    | i where "\<not> P a" "i < length as" "f as (k + 1) = k + 1 + int i" "P (as ! i)"
    using Cons.IH [of "k + 1"] by blast
  then show ?case
  proof cases
    case 1
    then show ?thesis by (intro disjI2 exI [of _ 0]) (simp add: cons)
  next
    case 2
    then have "\<not> P ((a # as) ! i)" if "i < length (a # as)" for i
      using that by (cases i) auto
    then show ?thesis using 2 by (simp add: cons)
  next
    case (3 i)
    then show ?thesis by (intro disjI2 exI [of _ "Suc i"]) (simp add: cons)
  qed
qed

lemma match_cases:
  obtains (miss) "sprdwl_tcp_ack_match m am = -1"
      "\<forall>i < length (ack_info m). \<not> (busy (ack_info m ! i) \<and> same_flow (ack_msg (ack_info m ! i)) am)"
  | (hit) i where "i < length (ack_info m)" "sprdwl_tcp_ack_match m am = int i" "busy (ack_info m ! i)"
      "same_flow (ack_msg (ack_info m ! i)) am"
  using index_search [of "\<lambda>as. match_from as am" "\<lambda>a. busy a \<and> same_flow (ack_msg a) am" "ack_info m" 0]
  unfolding sprdwl_tcp_ack_match_def by auto

lemma first_free_cases:
  obtains (full) "first_free as 0 = -1" "\<forall>i < length as. busy (as ! i)"
  | (free) i where "i < length as" "first_free as 0 = int i" "\<not> busy (as ! i)"
  using index_search [of first_free "\<lambda>a. \<not> busy a" as 0] by auto

lemma busy_count_full: "busy_count as < length as \<Longrightarrow> \<exists>i < length as. \<not> busy (as ! i)"
  unfolding busy_count_def by (metis filter_True in_set_conv_nth less_irrefl)

lemma alloc_index_ok:
  assumes wf: "ack_wf m"
  obtains (full) "sprdwl_tcp_ack_alloc_index m = (-1, m)" "busy_count (ack_info m) = SPRDWL_TCP_ACK_NUM"
  | (free) i where "i < length (ack_info m)" "\<not> busy (ack_info m ! i)"
      "sprdwl_tcp_ack_alloc_index m = (int i, m\<lparr>free_index := -1, max_num := max_num m + 1\<rparr>)"
proof (cases "max_num m = int SPRDWL_TCP_ACK_NUM")
  case True
  then show thesis using wf by (intro full) (simp_all add: sprdwl_tcp_ack_alloc_index_def ack_wf_def)
next
  case False
  show thesis
  proof (cases "0 \<le> free_index m")
    case idx: True
    with False wf show thesis
      by (intro free [of "nat (free_index m)"]) (auto simp: sprdwl_tcp_ack_alloc_index_def ack_wf_def)
  next
    case noidx: False
    have "busy_count (ack_info m) \<le> length (ack_info m)" by (simp add: busy_count_def)
    then have "busy_count (ack_info m) < length (ack_info m)" using False wf by (simp add: ack_wf_def)
    then have some: "\<exists>i < length (ack_info m). \<not> busy (ack_info m ! i)" by (rule busy_count_full)
    show thesis
    proof (cases "ack_info m" rule: first_free_cases)
      case full
      with some show thesis by blast
    next
      case (free i)
      then show thesis
        using False noidx by (intro that(2) [of i]) (simp_all add: sprdwl_tcp_ack_alloc_index_def Let_def)
    qed
  qed
qed

lemma ack_wf_open:
  assumes wf: "ack_wf m" and i: "i < length (ack_info m)" "\<not> busy (ack_info m ! i)"
    and new: "\<forall>j < length (ack_info m). \<not> (busy (ack_info m ! j) \<and> same_flow (ack_msg (ack_info m ! j)) am)"
  shows "ack_wf (m\<lparr>free_index := -1, max_num := max_num m + 1,
      ack_info := (ack_info m)[i := open_slot j d ws am (ack_info m ! i)]\<rparr>)"
proof -
  let ?a = "open_slot j d ws am (ack_info m ! i)"
  have "busy_count ((ack_info m)[i := ?a]) = busy_count (ack_info m) + 1"
    using busy_count_update [OF i(1), of ?a] i(2) by (simp add: open_slot_def)
  moreover have "slots_distinct ((ack_info m)[i := ?a])"
    by (rule slots_distinct_update [OF _ i(1)])
      (use wf new in \<open>auto simp: ack_wf_def open_slot_def flow_of_def same_flow_def\<close>)
  ultimately show ?thesis using wf by (simp add: ack_wf_def SPRDWL_TCP_ACK_NUM_def)
qed

lemma update_slots_ok:
  assumes "ack_wf m" and "n \<le> length (ack_info m)"
  shows "\<exists>m'. update_slots j n m = Some m' \<and> ack_wf m'
     \<and> map msgbuf (ack_info m') = map msgbuf (ack_info m)
     \<and> am_enable m' = am_enable m \<and> max_drop_cnt m' = max_drop_cnt m"
  using assms
proof (induction n arbitrary: m)
  case 0
  then show ?case by simp
next
  case (Suc n)
  then have n: "n < length (ack_info m)" by simp
  let ?a = "ack_info m ! n"
  let ?m = "m\<lparr>free_index := int n, max_num := max_num m - 1, ack_info := (ack_info m)[n := ?a\<lparr>busy := False\<rparr>]\<rparr>"
  have close: "ack_wf ?m" if b: "busy ?a"
  proof -
    have "busy_count ((ack_info m)[n := ?a\<lparr>busy := False\<rparr>]) + 1 = busy_count (ack_info m)"
      using busy_count_update [OF n, of "?a\<lparr>busy := False\<rparr>"] b by simp
    moreover have "slots_distinct ((ack_info m)[n := ?a\<lparr>busy := False\<rparr>])"
      using Suc.prems(1) n by (intro slots_distinct_same) (auto simp: ack_wf_def)
    ultimately show ?thesis using Suc.prems(1) n by (simp add: ack_wf_def)
  qed
  have buf: "map msgbuf ((ack_info m)[n := ?a\<lparr>busy := False\<rparr>]) = map msgbuf (ack_info m)"
    using n by (simp add: map_update list_update_same_conv)
  show ?case
  proof (cases "busy ?a \<and> time_after j (ai_last_time ?a + ai_timeout ?a)")
    case True
    then obtain m' where "update_slots j n ?m = Some m'" "ack_wf m'" "map msgbuf (ack_info m') = map msgbuf (ack_info ?m)"
      "am_enable m' = am_enable ?m" "max_drop_cnt m' = max_drop_cnt ?m"
      using Suc.IH [OF close] n by auto
    then show ?thesis using True n buf by simp
  next
    case False
    with Suc.IH [OF Suc.prems(1)] n show ?thesis by auto
  qed
qed

lemma sprdwl_tcp_ack_update_ok:
  assumes "ack_wf m"
  shows "\<exists>m'. sprdwl_tcp_ack_update j m = Some m' \<and> ack_wf m' \<and> map msgbuf (ack_info m') = map msgbuf (ack_info m)
     \<and> am_enable m' = am_enable m \<and> max_drop_cnt m' = max_drop_cnt m"
proof -
  have "ack_wf (m\<lparr>mg_last_time := j\<rparr>)" "SPRDWL_TCP_ACK_NUM \<le> length (ack_info (m\<lparr>mg_last_time := j\<rparr>))"
    using assms by (simp_all add: ack_wf_def)
  from update_slots_ok [OF this, of j] assms show ?thesis
    by (auto simp: sprdwl_tcp_ack_update_def)
qed

section \<open>What happens to messages\<close>

definition opt_mset :: "nat option \<Rightarrow> nat multiset" where
  "opt_mset x = (case x of None \<Rightarrow> {#} | Some msg \<Rightarrow> {#msg#})"

definition pending :: "sprdwl_tcp_ack_manage \<Rightarrow> nat multiset" where
  "pending m = sum_list (map (\<lambda>a. opt_mset (msgbuf a)) (ack_info m))"

fun acted_on :: "ack_action \<Rightarrow> nat" where
  "acted_on (TxMsg msg) = msg"
| "acted_on (DropMsg msg) = msg"

definition acted :: "ack_action list \<Rightarrow> nat multiset" where
  "acted acts = mset (map acted_on acts)"

lemma opt_mset_simps [simp]: "opt_mset None = {#}" "opt_mset (Some x) = {#x#}"
  by (simp_all add: opt_mset_def)

lemma acted_drop_of [simp]: "acted (drop_of d) = opt_mset d"
  by (cases d) (simp_all add: acted_def drop_of_def)

lemma acted_simps [simp]: "acted [] = {#}" "acted [TxMsg x] = {#x#}"
  by (simp_all add: acted_def)

lemma pending_update:
  "i < length (ack_info m) \<Longrightarrow>
     pending (m\<lparr>ack_info := (ack_info m)[i := a]\<rparr>) + opt_mset (msgbuf (ack_info m ! i)) = pending m + opt_mset (msgbuf a)"
  unfolding pending_def using sum_list_map_update [of i "ack_info m" "\<lambda>a. opt_mset (msgbuf a)" a] by simp

lemma pending_cong: "map msgbuf (ack_info m') = map msgbuf (ack_info m) \<Longrightarrow> pending m' = pending m"
  by (drule arg_cong [where f = "\<lambda>l. sum_list (map opt_mset l)"]) (simp add: pending_def comp_def)

lemma U32_BEFORE_refl [simp]: "SPRDWL_U32_BEFORE x x"
  by (simp add: SPRDWL_U32_BEFORE_def)

lemma handle_ok:
  assumes "sprdwl_tcp_ack_handle j d a new am type = (a', dropped, ret)"
  shows "busy a' = busy a" and "flow_of a' = flow_of a" and "ret = 0 \<or> ret = 1"
    and "opt_mset (msgbuf a) + {#new#} = opt_mset (msgbuf a') + opt_mset dropped + (if ret = 0 then {#new#} else {#})"
    and "SPRDWL_U32_BEFORE (am_seq (ack_msg a)) (am_seq (ack_msg a'))"
    and "msgbuf a' \<noteq> None \<Longrightarrow> (msgbuf a \<noteq> None \<longrightarrow> ai_timer a) \<Longrightarrow> ai_timer a'"
  using assms
  by (auto simp: sprdwl_tcp_ack_handle_def Let_def flow_of_def split: if_splits)

lemma flow_of_win [simp]: "flow_of (a\<lparr>win_scale := w\<rparr>) = flow_of a"
  by (simp add: flow_of_def)

lemma filter_send_ok:
  assumes wf: "ack_wf m0" and chk: "plen \<le> MAX_TCP_ACK \<Longrightarrow> sprdwl_tcp_check_ack buf 0 \<noteq> None"
  shows "\<exists>ret m' acts. sprdwl_filter_send_tcp_ack j m0 new buf plen = Some (ret, m', acts) \<and> ack_wf m'
     \<and> (ret = 0 \<or> ret = 1)
     \<and> pending m0 + {#new#} = pending m' + acted acts + (if ret = 0 then {#new#} else {#})"
proof (cases "plen > MAX_TCP_ACK")
  case True
  with wf show ?thesis by (simp add: sprdwl_filter_send_tcp_ack_def)
next
  case False
  obtain m where m: "sprdwl_tcp_ack_update j m0 = Some m" "ack_wf m" "pending m = pending m0"
    using sprdwl_tcp_ack_update_ok [OF wf, of j] pending_cong by blast
  obtain dp am ws where c: "sprdwl_tcp_check_ack buf 0 = Some (dp, am, ws)" using chk False by (cases "sprdwl_tcp_check_ack buf 0") auto
  show ?thesis
  proof (cases "dp = 0 \<and> ws = 0")
    case True
    with False m c show ?thesis by (simp add: sprdwl_filter_send_tcp_ack_def)
  next
    case look: False
    show ?thesis
    proof (cases m am rule: match_cases)
      case (hit i)
      let ?a0 = "ack_info m ! i"
      define a where "a = (if ws \<noteq> 0 \<and> win_scale ?a0 \<noteq> ws then ?a0\<lparr>win_scale := ws\<rparr> else ?a0)"
      have a: "busy a = busy ?a0" "flow_of a = flow_of ?a0" "msgbuf a = msgbuf ?a0" by (simp_all add: a_def)
      define type where "type = (if (ucast (win_scale a) * ucast (am_win am) :: u32) < ack_winsize m * SIZE_KB then 2 else dp)"
      obtain a' dropped ret where h: "sprdwl_tcp_ack_handle j (max_drop_cnt m) a new am type = (a', dropped, ret)"
        by (metis prod_cases3)
      note ok = handle_ok [OF h]
      have wf1: "ack_wf (m\<lparr>ack_info := (ack_info m)[i := a']\<rparr>)" "ack_wf (m\<lparr>ack_info := (ack_info m)[i := a]\<rparr>)"
        using ok(1,2) a hit(1) m(2) by (simp_all add: ack_wf_slot)
      have p: "pending m + {#new#} = pending (m\<lparr>ack_info := (ack_info m)[i := a']\<rparr>) + opt_mset dropped + (if ret = 0 then {#new#} else {#})"
        by (rule mset_exchange [OF pending_update [OF hit(1), of a']]) (use ok(4) a(3) in simp)
      have p0: "pending (m\<lparr>ack_info := (ack_info m)[i := a]\<rparr>) = pending m"
        using pending_update [OF hit(1), of a] a(3) by simp
      have run: "sprdwl_filter_send_tcp_ack j m0 new buf plen =
          (if dp > 0 \<and> am_enable m then Some (ret, m\<lparr>ack_info := (ack_info m)[i := a']\<rparr>, drop_of dropped)
           else Some (0, m\<lparr>ack_info := (ack_info m)[i := a]\<rparr>, []))"
        using False m(1) c look hit(1,2) h unfolding a_def type_def
        by (simp add: sprdwl_filter_send_tcp_ack_def Let_def)
      show ?thesis
      proof (cases "dp > 0 \<and> am_enable m")
        case True
        with run wf1(1) ok(3) p m(3) show ?thesis by simp
      next
        case False
        with run wf1(2) p0 m(3) show ?thesis by simp
      qed
    next
      case miss
      from m(2) show ?thesis
      proof (cases rule: alloc_index_ok)
        case full
        with False m c look miss(1) show ?thesis by (simp add: sprdwl_filter_send_tcp_ack_def Let_def)
      next
        case (free i)
        let ?a = "open_slot j (max_drop_cnt m) ws am (ack_info m ! i)"
        let ?m = "m\<lparr>free_index := -1, max_num := max_num m + 1, ack_info := (ack_info m)[i := ?a]\<rparr>"
        have "pending ?m = pending m"
          using pending_update [OF free(1), of ?a] by (simp add: open_slot_def pending_def)
        moreover have "ack_wf ?m" by (rule ack_wf_open [OF m(2) free(1,2) miss(2)])
        ultimately show ?thesis
          using False m c look miss(1) free(1,3) by (simp add: sprdwl_filter_send_tcp_ack_def Let_def)
      qed
    qed
  qed
qed

section \<open>Reachable states\<close>

text \<open>Every state the entry points of the file can produce, in any order of calls.\<close>

inductive ack_reach :: "sprdwl_tcp_ack_manage \<Rightarrow> bool" where
  init: "ack_reach (sprdwl_tcp_ack_init jiffies old)"
| send: "ack_reach m \<Longrightarrow> sprdwl_filter_send_tcp_ack jiffies m new buf plen = Some (ret, m', acts) \<Longrightarrow> ack_reach m'"
| recv: "ack_reach m \<Longrightarrow> sprdwl_filter_rx_tcp_ack m buf plen = Some m' \<Longrightarrow> ack_reach m'"
| timer: "ack_reach m \<Longrightarrow> sprdwl_tcp_ack_timeout m i = Some (m', acts) \<Longrightarrow> ack_reach m'"
| sent: "ack_reach m \<Longrightarrow> ack_reach (sprdwl_move_tcpack_msg m msg len)"
| switch: "ack_reach m \<Longrightarrow> enable_tcp_ack_delay m cbuf offset = Some (m', acts) \<Longrightarrow> ack_reach m'"
| delay: "ack_reach m \<Longrightarrow> adjust_tcp_ack_delay m cbuf offset = Some m' \<Longrightarrow> ack_reach m'"
| window: "ack_reach m \<Longrightarrow> adjust_tcp_ack_delay_win m cbuf offset slen = Some m' \<Longrightarrow> ack_reach m'"

lemma ack_wf_map:
  assumes wf: "ack_wf m" and f: "\<And>a. busy (f a) = busy a" "\<And>a. flow_of (f a) = flow_of a"
  shows "ack_wf (m\<lparr>ack_info := map f (ack_info m)\<rparr>)"
proof -
  have "filter busy (map f as) = map f (filter busy as)" for as by (induction as) (simp_all add: f)
  then have "busy_count (map f (ack_info m)) = busy_count (ack_info m)" by (simp add: busy_count_def)
  moreover have "slots_distinct (map f (ack_info m))" using wf by (simp add: ack_wf_def slots_distinct_def f)
  ultimately show ?thesis using wf by (auto simp: ack_wf_def f)
qed

lemma filter_send_wf:
  assumes wf: "ack_wf m" and r: "sprdwl_filter_send_tcp_ack j m new buf plen = Some (ret, m', acts)"
  shows "ack_wf m'"
proof -
  have "plen \<le> MAX_TCP_ACK \<Longrightarrow> sprdwl_tcp_check_ack buf 0 \<noteq> None"
    using r by (auto simp: sprdwl_filter_send_tcp_ack_def bind_eq_Some_conv split: if_splits)
  from filter_send_ok [OF wf this, where j = j and new = new and plen = plen] r show ?thesis by auto
qed

lemma filter_rx_wf:
  assumes wf: "ack_wf m" and r: "sprdwl_filter_rx_tcp_ack m buf plen = Some m'"
  shows "ack_wf m'"
  using r wf
  by (auto simp: sprdwl_filter_rx_tcp_ack_def Let_def bind_eq_Some_conv aget_eq_Some_iff flow_of_def
      intro!: ack_wf_slot split: if_splits option.splits)

lemma timeout_wf:
  assumes wf: "ack_wf m" and r: "sprdwl_tcp_ack_timeout m i = Some (m', acts)"
  shows "ack_wf m'"
  using r wf
  by (auto simp: sprdwl_tcp_ack_timeout_def Let_def bind_eq_Some_conv aget_eq_Some_iff flow_of_def
      intro!: ack_wf_slot split: if_splits option.splits)

lemma move_wf: "ack_wf m \<Longrightarrow> ack_wf (sprdwl_move_tcpack_msg m msg len)"
  unfolding sprdwl_move_tcpack_msg_def by (auto intro!: ack_wf_map simp: flow_of_def split: if_splits)

lemma config_wf [simp]:
  "ack_wf (m\<lparr>am_enable := b\<rparr>) = ack_wf m" "ack_wf (m\<lparr>max_drop_cnt := d\<rparr>) = ack_wf m"
  "ack_wf (m\<lparr>ack_winsize := w\<rparr>) = ack_wf m"
  by (simp_all add: ack_wf_def)

lemma switch_wf:
  assumes wf: "ack_wf m" and r: "enable_tcp_ack_delay m buf offset = Some (m', acts)"
  shows "ack_wf m'"
proof -
  have "ack_wf ((m\<lparr>am_enable := False\<rparr>)\<lparr>ack_info := map (\<lambda>a. a\<lparr>ai_timer := False, msgbuf := None\<rparr>) (ack_info m)\<rparr>)"
    using ack_wf_map [of "m\<lparr>am_enable := False\<rparr>" "\<lambda>a. a\<lparr>ai_timer := False, msgbuf := None\<rparr>"] wf
    by (simp add: flow_of_def)
  with r wf show ?thesis
    by (auto simp: enable_tcp_ack_delay_def release_slots_def Let_def bind_eq_Some_conv split: if_splits)
qed

lemma ack_reach_wf: "ack_reach m \<Longrightarrow> ack_wf m"
proof (induction rule: ack_reach.induct)
  case (init jiffies old)
  then show ?case by (rule ack_wf_init)
next
  case (send m jiffies new buf plen ret m' acts)
  then show ?case by (blast intro: filter_send_wf)
next
  case (recv m buf plen m')
  then show ?case by (blast intro: filter_rx_wf)
next
  case (timer m i m' acts)
  then show ?case by (blast intro: timeout_wf)
next
  case (sent m msg len)
  then show ?case by (blast intro: move_wf)
next
  case (switch m cbuf offset m' acts)
  then show ?case by (blast intro: switch_wf)
next
  case (delay m cbuf offset m')
  then show ?case by (auto simp: adjust_tcp_ack_delay_def bind_eq_Some_conv)
next
  case (window m cbuf offset slen m')
  then show ?case by (auto simp: adjust_tcp_ack_delay_win_def bind_eq_Some_conv)
qed

section \<open>Properties\<close>

text \<open>A flow and an ACK of it with time stamps.\<close>

definition ex_am :: sprdwl_tcp_ack_msg where
  "ex_am = \<lparr>am_source = 80, am_dest = 5000, am_saddr = 1, am_daddr = 2, am_seq = 1000, am_win = 4096\<rparr>"

definition ex_opts :: "tcp_opt list" where
  "ex_opts = [Nop, Nop, Opt TCPOPT_TIMESTAMP [0, 0, 0, 1, 0, 0, 0, 2]]"

lemma ex_opts_len: "length (concat (map enc_opt ex_opts)) = 12"
  by (simp add: ex_opts_def)

lemma ex_opts_ok:
  "\<forall>p \<in> set ex_opts. opt_ok p" "4 dvd length (concat (map enc_opt ex_opts))"
  "length (concat (map enc_opt ex_opts)) \<le> 40" "opts_effect ex_opts (1, 0) = (1, 0)"
  unfolding ex_opts_len
  by (simp_all add: ex_opts_def opts_effect_def TCPOPT_TIMESTAMP_def TCPOPT_EOL_def TCPOPT_NOP_def TCPOPT_WINDOW_def)

text \<open>
  Parsing an ACK frame gives back what it was built from: the flow, the acknowledged number
  and the window, with the drop class 1 or 2 and the window scale that its options say, for
  any options other than EOL.
\<close>

theorem check_ack_roundtrip:
  assumes "\<forall>p \<in> set os. opt_ok p" and "4 dvd length (concat (map enc_opt os))"
    and "length (concat (map enc_opt os)) \<le> 40"
  shows "sprdwl_tcp_check_ack (ack_frame am os) 0 =
    Some (fst (opts_effect os (1, 0)), am, snd (opts_effect os (1, 0)))"
  by (rule check_ack_frame [OF assms]) simp

theorem check_ack_roundtrip_witness:
  "sprdwl_tcp_check_ack (ack_frame ex_am ex_opts) 0 = Some (1, ex_am, 0)"
  using check_ack_roundtrip [OF ex_opts_ok(1-3), of ex_am] by (simp add: ex_opts_ok(4))

text \<open>
  The option loop does not stop at EOL: with any number of zero bytes behind the fixed header,
  however long the buffer, it runs out of the buffer.
\<close>

theorem eol_option_overread:
  assumes "length hdr = off + 20" and "aget hdr (off + 12) = Some doff" and "20 < uint (drop_bit 4 doff) * 4"
    and "tcp_tot_len \<le> uint (drop_bit 4 doff) * 4"
  shows "is_drop_tcp_ack (hdr @ replicate n TCPOPT_EOL) off tcp_tot_len ws = None"
proof -
  have "aget (hdr @ replicate n TCPOPT_EOL) (off + 12) = Some doff"
    using assms(1,2) by (auto simp: aget_eq_Some_iff nth_append)
  moreover have "is_drop_loop (hdr @ replicate n TCPOPT_EOL) (off + 20) (uint (drop_bit 4 doff) * 4 - 20) 1 ws = None"
    using is_drop_eol [of "uint (drop_bit 4 doff) * 4 - 20" 1 hdr n ws] assms(1,3) by simp
  ultimately show ?thesis using assms(4) by (simp add: is_drop_tcp_ack_def Let_def)
qed

theorem eol_option_overread_witness:
  "is_drop_tcp_ack ((replicate 20 0)[12 := 0x60] @ replicate 4 TCPOPT_EOL) 0 24 0 = None"
  using eol_option_overread [of "(replicate 20 0)[12 := 0x60]" 0 "0x60" 24 4 0] by (simp add: aget_def)

text \<open>
  In every reachable state the slots are consistent: \<open>max_num\<close> counts the busy slots, a
  remembered free index belongs to a free slot, and no flow has two slots.
\<close>

theorem ack_slots_invariant:
  assumes "ack_reach m"
  shows "length (ack_info m) = SPRDWL_TCP_ACK_NUM \<and> max_num m = int (length (filter busy (ack_info m)))
     \<and> (0 \<le> free_index m \<longrightarrow> nat (free_index m) < SPRDWL_TCP_ACK_NUM \<and> \<not> busy (ack_info m ! nat (free_index m)))
     \<and> (\<forall>i < SPRDWL_TCP_ACK_NUM. \<forall>j < SPRDWL_TCP_ACK_NUM. busy (ack_info m ! i) \<and> busy (ack_info m ! j)
          \<and> same_flow (ack_msg (ack_info m ! i)) (ack_msg (ack_info m ! j)) \<longrightarrow> i = j)"
  using ack_reach_wf [OF assms] by (auto simp: ack_wf_def busy_count_def slots_distinct_def flow_of_def same_flow_def)

theorem ack_slots_invariant_witness:
  "max_num (sprdwl_tcp_ack_init 0 100) = int (length (filter busy (ack_info (sprdwl_tcp_ack_init 0 100))))"
  using ack_slots_invariant [OF ack_reach.init [of 0 100]] by blast

text \<open>
  C31. No ACK is lost or sent twice by the filter: of the messages waiting in slots and the new one,
  each is afterwards waiting, dropped, or the new one and sent on by the caller (result 0).
\<close>

theorem ack_message_accounting:
  assumes "ack_reach m0" and "plen \<le> MAX_TCP_ACK \<Longrightarrow> sprdwl_tcp_check_ack buf 0 \<noteq> None"
  shows "\<exists>ret m' acts. sprdwl_filter_send_tcp_ack jiffies m0 new buf plen = Some (ret, m', acts)
     \<and> (ret = 0 \<or> ret = 1)
     \<and> pending m0 + {#new#} = pending m' + acted acts + (if ret = 0 then {#new#} else {#})"
  using filter_send_ok [OF ack_reach_wf [OF assms(1)] assms(2), where j = jiffies and new = new] by blast

theorem ack_message_accounting_witness:
  "\<exists>ret m' acts. sprdwl_filter_send_tcp_ack 5 (sprdwl_tcp_ack_init 0 100) 9 (ack_frame ex_am ex_opts) 66
       = Some (ret, m', acts) \<and> (ret = 0 \<or> ret = 1)
     \<and> pending (sprdwl_tcp_ack_init 0 100) + {#9#} = pending m' + acted acts + (if ret = 0 then {#9#} else {#})"
  by (rule ack_message_accounting [OF ack_reach.init])
    (simp add: check_ack_frame [OF ex_opts_ok])

text \<open>
  The acknowledged number of a slot never goes back (in serial number order), and a message
  kept back in a slot has the timer running.
\<close>

theorem ack_handle_monotone:
  assumes "sprdwl_tcp_ack_handle jiffies maxdrop a new am type = (a', dropped, ret)"
    and "msgbuf a \<noteq> None \<longrightarrow> ai_timer a"
  shows "SPRDWL_U32_BEFORE (am_seq (ack_msg a)) (am_seq (ack_msg a')) \<and> (msgbuf a' \<noteq> None \<longrightarrow> ai_timer a')
    \<and> (ret = 1 \<longrightarrow> msgbuf a' = Some new \<or> dropped = Some new)"
  using handle_ok(5,6) [OF assms(1)] assms
  by (auto simp: sprdwl_tcp_ack_handle_def Let_def split: if_splits)

theorem ack_handle_monotone_witness:
  "SPRDWL_U32_BEFORE (am_seq (ack_msg (init_ack_info 0 100)))
     (am_seq (ack_msg (fst (sprdwl_tcp_ack_handle 5 24 (init_ack_info 0 100) 9 ex_am 1))))"
proof -
  obtain a' dropped ret where h: "sprdwl_tcp_ack_handle 5 24 (init_ack_info 0 100) 9 ex_am 1 = (a', dropped, ret)"
    by (metis prod_cases3)
  have "msgbuf (init_ack_info 0 100) = None" by (simp add: init_ack_info_def)
  with ack_handle_monotone [OF h] show ?thesis by (simp add: h)
qed

text \<open>
  When the timer of a slot runs out while an earlier ACK of the flow is still being sent, the
  waiting message stays in the slot and no timer runs for it; the notice that the earlier ACK
  has been sent does not send it either. Only another ACK of the flow moves it.
\<close>

theorem timeout_strands_message:
  assumes "i < length (ack_info m)" and "msgbuf (ack_info m ! i) = Some msg" and "in_send_msg (ack_info m ! i) = Some s"
  shows "\<exists>m'. sprdwl_tcp_ack_timeout m i = Some (m', [])
     \<and> msgbuf (ack_info (sprdwl_move_tcpack_msg m' s len) ! i) = Some msg
     \<and> \<not> ai_timer (ack_info (sprdwl_move_tcpack_msg m' s len) ! i)"
  using assms by (simp add: sprdwl_tcp_ack_timeout_def Let_def sprdwl_move_tcpack_msg_def)

theorem timeout_strands_message_witness:
  "\<exists>m'. sprdwl_tcp_ack_timeout ((sprdwl_tcp_ack_init 0 100)\<lparr>ack_info :=
         [(init_ack_info 0 100)\<lparr>busy := True, msgbuf := Some 4, in_send_msg := Some 3, ai_timer := True\<rparr>]\<rparr>) 0
       = Some (m', [])
     \<and> msgbuf (ack_info (sprdwl_move_tcpack_msg m' 3 66) ! 0) = Some 4
     \<and> \<not> ai_timer (ack_info (sprdwl_move_tcpack_msg m' 3 66) ! 0)"
  by (rule timeout_strands_message) simp_all

text \<open>
  The configured number of ACKs to drop is read wrongly: two digits set ten times their value,
  and the default when that is 100 or more, so that no value from 10 to 99 can be set.
\<close>

theorem two_digit_delay:
  assumes "aget buf offset = Some c0" and "aget buf (offset + 1) = Some c1"
    and "48 \<le> c0" and "c0 \<le> 57" and "48 \<le> c1" and "c1 \<le> 57"
  shows "\<exists>m'. adjust_tcp_ack_delay m buf offset = Some m'
    \<and> (let v = 10 * (unat c0 - 48) + (unat c1 - 48) in
       max_drop_cnt m' = (if 10 * v \<ge> 100 then SPRDWL_TCP_ACK_DROP_CNT else int (10 * v)))"
proof -
  let ?v = "10 * (unat c0 - 48) + (unat c1 - 48)"
  have c: "unat (c0 - 48) = unat c0 - 48" "unat (c1 - 48) = unat c1 - 48" "unat c0 \<le> 57" "unat c1 \<le> 57"
    using assms(3-6) by (simp_all add: unat_sub word_le_nat_alt)
  let ?w = "((0 + ucast (c0 - 48)) * 10 + ucast (c1 - 48)) * 10 :: u32"
  have w: "unat ?w = 10 * ?v" using c by (simp add: unat_word_ariths)
  have "adjust_tcp_ack_delay m buf offset
      = Some (m\<lparr>max_drop_cnt := (if ?w \<ge> 100 then SPRDWL_TCP_ACK_DROP_CNT else uint ?w)\<rparr>)"
    using assms by (simp add: adjust_tcp_ack_delay_def numeral_2_eq_2)
  moreover have "?w \<ge> 100 \<longleftrightarrow> 10 * ?v \<ge> 100" using w by (simp add: word_le_nat_alt)
  moreover have "uint ?w = int (10 * ?v)" unfolding uint_nat w ..
  ultimately show ?thesis by (simp add: Let_def)
qed

theorem two_digit_delay_witness:
  "\<exists>m'. adjust_tcp_ack_delay (sprdwl_tcp_ack_init 0 100) [49, 53] 0 = Some m'
    \<and> max_drop_cnt m' = SPRDWL_TCP_ACK_DROP_CNT"
  using two_digit_delay [of "[49, 53]" 0 49 53 "sprdwl_tcp_ack_init 0 100"] by (simp add: aget_def Let_def)

end
