(* ===== verification/Qos.thy ===== *)
theory Qos
  imports Prelude
begin

text \<open>
  Classification of transmitted packets and WMM admission control, WIFI/qos.c and WIFI/qos.h,
  with the commands of WIFI/cmdevt.c that change its state. The globals of qos.c and the
  timers of priv->wmmac are one record; ticks and the conversion of microseconds to ticks are
  arguments.
\<close>

section \<open>Enumerations and tables\<close>

datatype qos_head_type_t = SPRDWL_AC_VO | SPRDWL_AC_VI | SPRDWL_AC_BE | SPRDWL_AC_BK | SPRDWL_AC_MAX

definition prio_0 :: u8 where "prio_0 = 0"
definition prio_1 :: u8 where "prio_1 = 1"
definition prio_4 :: u8 where "prio_4 = 4"
definition prio_6 :: u8 where "prio_6 = 6"

definition AC_BK :: nat where "AC_BK = 0"
definition AC_BE :: nat where "AC_BE = 1"
definition AC_VI :: nat where "AC_VI = 2"
definition AC_VO :: nat where "AC_VO = 3"

definition NUM_AC :: nat where "NUM_AC = 4"
definition NUM_TID :: nat where "NUM_TID = 16"
definition WMMAC_EDCA_TIMEOUT_MS :: u64 where "WMMAC_EDCA_TIMEOUT_MS = 1000"
definition WMMAC_TIME_RATIO :: u32 where "WMMAC_TIME_RATIO = 12"
definition WMM_AC_ACM :: u8 where "WMM_AC_ACM = 0x10"
definition WMM_OUI_TYPE :: u8 where "WMM_OUI_TYPE = 2"
definition WLAN_EID_VENDOR_SPECIFIC :: u8 where "WLAN_EID_VENDOR_SPECIFIC = 221"
definition OUI_MICROSOFT :: u32 where "OUI_MICROSOFT = 0x0050f2"
definition QOS_MAP_MAX_DSCP_EXCEPTION :: nat where "QOS_MAP_MAX_DSCP_EXCEPTION = 21"

lemmas qos_consts = prio_0_def prio_1_def prio_4_def prio_6_def AC_BK_def AC_BE_def AC_VI_def
  AC_VO_def NUM_AC_def NUM_TID_def WMM_AC_ACM_def WMM_OUI_TYPE_def QOS_MAP_MAX_DSCP_EXCEPTION_def

definition up_to_ac :: "u8 list" where
  "up_to_ac = [0, 1, 1, 0, 4, 4, 6, 6]"

record dscp_exception =
  de_dscp :: u8
  de_up :: u8

record qos_map_range =
  qr_low :: u8
  qr_high :: u8
  qr_up :: u8

record qos_map_set =
  qos_exceptions :: "dscp_exception list"
  qos_ranges :: "qos_map_range list"

text \<open>Global memory is zero before the module is loaded.\<close>

definition zero_qos_map :: qos_map_set where
  "zero_qos_map =
     \<lparr>qos_exceptions = replicate QOS_MAP_MAX_DSCP_EXCEPTION \<lparr>de_dscp = 0, de_up = 0\<rparr>,
      qos_ranges = replicate 8 \<lparr>qr_low = 0, qr_high = 0, qr_up = 0\<rparr>\<rparr>"

text \<open>The loop over the exceptions, then five assignments to \<open>qos_ranges\<close>.\<close>

definition init_default_qos_map :: "qos_map_set \<Rightarrow> qos_map_set" where
  "init_default_qos_map m =
     m\<lparr>qos_exceptions := map (\<lambda>_. \<lparr>de_dscp = 0xFF, de_up = prio_0\<rparr>) (qos_exceptions m),
       qos_ranges := (qos_ranges m)
         [0 := \<lparr>qr_low = 0x0, qr_high = 0x0, qr_up = prio_0\<rparr>,
          1 := \<lparr>qr_low = 0x3, qr_high = 0x3, qr_up = prio_0\<rparr>,
          2 := \<lparr>qr_low = 0x1, qr_high = 0x2, qr_up = prio_1\<rparr>,
          3 := \<lparr>qr_low = 0x4, qr_high = 0x5, qr_up = prio_4\<rparr>,
          4 := \<lparr>qr_low = 0x6, qr_high = 0x7, qr_up = prio_6\<rparr>]\<rparr>"

section \<open>Priority of a packet\<close>

record tx_skb =
  tx_data :: "u8 list"
  tx_priority :: u32

text \<open>
  \<open>IP_TOS46\<close> of the bytes at \<open>ip_body\<close>: the type of service of IPv4, the traffic class of
  IPv6, 0 for any other version.
\<close>

definition IP_VER :: "u8 list \<Rightarrow> nat \<Rightarrow> u8 option" where
  "IP_VER d p = do { b \<leftarrow> aget d p; Some (drop_bit 4 (b AND 0xf0)) }"

definition IPV6_TRAFFIC_CLASS :: "u8 list \<Rightarrow> nat \<Rightarrow> u8 option" where
  "IPV6_TRAFFIC_CLASS d p = do {
     b0 \<leftarrow> aget d p; b1 \<leftarrow> aget d (p + 1);
     Some (push_bit 4 (b0 AND 0x0f) OR drop_bit 4 (b1 AND 0xf0)) }"

definition IP_TOS46 :: "u8 list \<Rightarrow> nat \<Rightarrow> u8 option" where
  "IP_TOS46 d p = do {
     v \<leftarrow> IP_VER d p;
     if v = 4 then aget d (p + 1)
     else if v = 6 then IPV6_TRAFFIC_CLASS d p
     else Some 0 }"

text \<open>The 802.1Q tag holds the priority in its upper three bits; its bytes are big endian.\<close>

definition be16_at :: "u8 list \<Rightarrow> nat \<Rightarrow> u16 option" where
  "be16_at d p = do {
     hi \<leftarrow> aget d p; lo \<leftarrow> aget d (p + 1);
     Some (push_bit 8 (ucast hi) OR ucast lo) }"

definition pkt_get_prio :: "tx_skb \<Rightarrow> nat \<Rightarrow> u8 \<Rightarrow> (tx_skb \<times> u8 \<times> u8) option" where
  "pkt_get_prio skb data_offset tos = do {
     ether_type \<leftarrow> be16_at (tx_data skb) (data_offset + 12);
     if ether_type = 0x8100 then do {
       vlan_tag \<leftarrow> be16_at (tx_data skb) (data_offset + 14);
       let priority = ucast (drop_bit 13 vlan_tag AND 7) in
       Some (skb\<lparr>tx_priority := ucast priority\<rparr>, priority, tos) }
     else do {
       tos' \<leftarrow> IP_TOS46 (tx_data skb) (data_offset + 14);
       let tos_tc = tos' AND 0xE0;
           priority = (if tos_tc = 0x00 \<or> tos_tc = 0x60 then prio_0
                       else if tos_tc = 0x20 \<or> tos_tc = 0x40 then prio_1
                       else if tos_tc = 0x80 \<or> tos_tc = 0xA0 then prio_4
                       else prio_6)
       in Some (skb\<lparr>tx_priority := ucast priority\<rparr>, priority, tos') } }"

definition tid_map_to_qosindex :: "u8 \<Rightarrow> qos_head_type_t" where
  "tid_map_to_qosindex tid =
     (if tid = prio_1 then SPRDWL_AC_BK
      else if tid = prio_4 then SPRDWL_AC_VI
      else if tid = prio_6 then SPRDWL_AC_VO
      else SPRDWL_AC_BE)"

fun qos_index_2_tid :: "qos_head_type_t \<Rightarrow> u8" where
  "qos_index_2_tid SPRDWL_AC_VO = 6"
| "qos_index_2_tid SPRDWL_AC_VI = 4"
| "qos_index_2_tid SPRDWL_AC_BK = 1"
| "qos_index_2_tid _ = 0"

definition priority_map_to_qos_index :: "nat \<Rightarrow> qos_head_type_t option" where
  "priority_map_to_qos_index priority = do {
     v \<leftarrow> aget up_to_ac priority;
     Some (if v = prio_1 then SPRDWL_AC_BK
           else if v = prio_4 then SPRDWL_AC_VI
           else if v = prio_6 then SPRDWL_AC_VO
           else SPRDWL_AC_BE) }"

definition map_priority_to_edca_ac :: "u8 \<Rightarrow> nat" where
  "map_priority_to_edca_ac priority =
     (if priority = 1 \<or> priority = 2 then AC_BK
      else if priority = 4 \<or> priority = 5 then AC_VI
      else if priority = 6 \<or> priority = 7 then AC_VO
      else AC_BE)"

definition map_edca_ac_to_priority :: "nat \<Rightarrow> u8" where
  "map_edca_ac_to_priority ac =
     (if ac = AC_BK then prio_1
      else if ac = AC_VI then prio_4
      else if ac = AC_VO then prio_6
      else prio_0)"

section \<open>Admission control state\<close>

record wmm_ac_ts_t =
  ts_exist :: bool
  ts_ac :: u8
  ts_up :: u8
  ts_direction :: u8
  ts_admitted_time :: u16

definition zero_ts :: wmm_ac_ts_t where
  "zero_ts = \<lparr>ts_exist = False, ts_ac = 0, ts_up = 0, ts_direction = 0, ts_admitted_time = 0\<rparr>"

record wmm_ac_params =
  aci_aifsn :: u8
  wp_cw :: u8
  txop_limit :: u16

definition zero_ac_params :: wmm_ac_params where
  "zero_ac_params = \<lparr>aci_aifsn = 0, wp_cw = 0, txop_limit = 0\<rparr>"

text \<open>
  The globals of \<open>qos.c\<close> together with \<open>priv->wmmac\<close>. A timer is the tick it expires at, \<open>None\<close>
  when it is not pending.
\<close>

record qos_state =
  g_qos_enable :: u32
  g_11u_qos_map :: qos_map_set
  g_wmmac_available :: "bool list"
  g_wmmac_admittedtime :: "u32 list"
  g_wmmac_usedtime :: "u32 list"
  g_sta_ts_info :: "wmm_ac_ts_t list"
  wmmac_ratio :: u32
  wmmac_ac :: "wmm_ac_params list"
  wmmac_edcaf_timer :: "u64 option"
  wmmac_vo_timer :: "u64 option"
  wmmac_vi_timer :: "u64 option"

text \<open>What the code uses of the kernel's time keeping.\<close>

record ktime =
  HZ :: u64
  usecs_to_jiffies :: "u32 \<Rightarrow> u64"

definition qos_enable :: "u32 \<Rightarrow> qos_state \<Rightarrow> qos_state" where
  "qos_enable flag s = s\<lparr>g_qos_enable := flag\<rparr>"

definition zero_ac_state :: "qos_state \<Rightarrow> qos_state" where
  "zero_ac_state s =
     s\<lparr>g_wmmac_usedtime := replicate NUM_AC 0, g_wmmac_available := replicate NUM_AC False,
       g_wmmac_admittedtime := replicate NUM_AC 0\<rparr>"

definition wmm_ac_init :: "qos_state \<Rightarrow> qos_state" where
  "wmm_ac_init s =
     (zero_ac_state s)\<lparr>wmmac_edcaf_timer := None, wmmac_vo_timer := None, wmmac_vi_timer := None,
        wmmac_ac := replicate 4 zero_ac_params\<rparr>"

definition reset_wmmac_parameters :: "qos_state \<Rightarrow> qos_state" where
  "reset_wmmac_parameters s =
     (zero_ac_state s)\<lparr>wmmac_edcaf_timer := None, wmmac_vo_timer := None, wmmac_vi_timer := None,
        wmmac_ac := replicate 4 zero_ac_params\<rparr>"

definition remove_wmmac_ts_info :: "u8 \<Rightarrow> qos_state \<Rightarrow> qos_state option" where
  "remove_wmmac_ts_info tsid s = do {
     ts \<leftarrow> aset (g_sta_ts_info s) (unat tsid) zero_ts;
     Some (s\<lparr>g_sta_ts_info := ts\<rparr>) }"

fun reset_ts_from :: "nat \<Rightarrow> u8 \<Rightarrow> qos_state \<Rightarrow> qos_state option" where
  "reset_ts_from 0 tsid s = Some s"
| "reset_ts_from (Suc n) tsid s = do {
     s' \<leftarrow> remove_wmmac_ts_info tsid s; reset_ts_from n (tsid + 1) s' }"

definition reset_wmmac_ts_info :: "qos_state \<Rightarrow> qos_state option" where
  "reset_wmmac_ts_info s = reset_ts_from NUM_TID 0 s"

definition update_wmmac_ts_info :: "u8 \<Rightarrow> u8 \<Rightarrow> u8 \<Rightarrow> bool \<Rightarrow> u16 \<Rightarrow> qos_state \<Rightarrow> qos_state option" where
  "update_wmmac_ts_info tsid up ac status admitted_time s = do {
     e \<leftarrow> aget (g_sta_ts_info s) (unat tsid);
     ts \<leftarrow> aset (g_sta_ts_info s) (unat tsid)
        (e\<lparr>ts_exist := status, ts_ac := ac, ts_up := up, ts_admitted_time := admitted_time\<rparr>);
     Some (s\<lparr>g_sta_ts_info := ts\<rparr>) }"

definition get_wmmac_admitted_time :: "u8 \<Rightarrow> qos_state \<Rightarrow> u16 option" where
  "get_wmmac_admitted_time tsid s = do {
     e \<leftarrow> aget (g_sta_ts_info s) (unat tsid);
     Some (if ts_exist e then ts_admitted_time e else 0) }"

text \<open>\<open>medium_time<<5\<close> is an \<open>int\<close>; a \<open>u16\<close> shifted by five fits into it.\<close>

definition medium_us :: "u16 \<Rightarrow> u32" where
  "medium_us t = push_bit 5 (ucast t)"

definition edca_period :: "ktime \<Rightarrow> u64" where
  "edca_period k = WMMAC_EDCA_TIMEOUT_MS * HZ k div 1000"

text \<open>The last statement of \<open>update_admitted_time\<close>.\<close>

definition set_available :: "nat \<Rightarrow> qos_state \<Rightarrow> qos_state option" where
  "set_available ac s = do {
     used \<leftarrow> aget (g_wmmac_usedtime s) ac; adm \<leftarrow> aget (g_wmmac_admittedtime s) ac;
     av \<leftarrow> aset (g_wmmac_available s) ac (used < adm);
     Some (s\<lparr>g_wmmac_available := av\<rparr>) }"

definition start_ac_timer :: "ktime \<Rightarrow> u64 \<Rightarrow> nat \<Rightarrow> u32 \<Rightarrow> qos_state \<Rightarrow> qos_state" where
  "start_ac_timer k now ac adm s =
     (let t = now + usecs_to_jiffies k (adm * WMMAC_TIME_RATIO) in
      if ac = AC_VO then s\<lparr>wmmac_vo_timer := Some t\<rparr>
      else if ac = AC_VI then s\<lparr>wmmac_vi_timer := Some t\<rparr>
      else s)"

definition update_admitted_time :: "ktime \<Rightarrow> u64 \<Rightarrow> u8 \<Rightarrow> u16 \<Rightarrow> bool \<Rightarrow> qos_state \<Rightarrow> qos_state option" where
  "update_admitted_time k now tsid medium_time increase s = do {
     e \<leftarrow> aget (g_sta_ts_info s) (unat tsid);
     let ac = unat (ts_ac e);
     adm \<leftarrow> aget (g_wmmac_admittedtime s) ac;
     s' \<leftarrow> (if increase then do {
              let adm' = adm + medium_us medium_time;
              l \<leftarrow> aset (g_wmmac_admittedtime s) ac adm';
              Some (start_ac_timer k now ac adm'
                (s\<lparr>g_wmmac_admittedtime := l, wmmac_edcaf_timer := Some (now + edca_period k)\<rparr>)) }
            else if medium_us medium_time < adm then do {
              l \<leftarrow> aset (g_wmmac_admittedtime s) ac (adm - medium_us medium_time);
              Some (s\<lparr>g_wmmac_admittedtime := l\<rparr>) }
            else do {
              l \<leftarrow> aset (g_wmmac_admittedtime s) ac 0;
              Some (s\<lparr>g_wmmac_admittedtime := l, wmmac_edcaf_timer := None,
                      wmmac_vo_timer := None, wmmac_vi_timer := None\<rparr>) });
     set_available ac s' }"

text \<open>One \<open>if\<close> of the timer: an admitted category gets its second again.\<close>

definition refill_ac :: "ktime \<Rightarrow> u64 \<Rightarrow> nat \<Rightarrow> qos_state \<Rightarrow> qos_state option" where
  "refill_ac k now ac s = do {
     adm \<leftarrow> aget (g_wmmac_admittedtime s) ac;
     if 0 < adm then do {
       u \<leftarrow> aset (g_wmmac_usedtime s) ac 0;
       av \<leftarrow> aset (g_wmmac_available s) ac True;
       Some (start_ac_timer k now ac adm (s\<lparr>g_wmmac_usedtime := u, g_wmmac_available := av\<rparr>)) }
     else Some s }"

definition update_wmmac_edcaftime_timeout :: "ktime \<Rightarrow> u64 \<Rightarrow> qos_state \<Rightarrow> qos_state option" where
  "update_wmmac_edcaftime_timeout k now s = do {
     let s1 = s\<lparr>wmmac_edcaf_timer := Some (now + edca_period k)\<rparr>;
     s2 \<leftarrow> refill_ac k now AC_VO s1;
     refill_ac k now AC_VI s2 }"

text \<open>The two timers do the same to their own category; an expired timer is no longer pending.\<close>

definition exhaust_ac :: "nat \<Rightarrow> qos_state \<Rightarrow> qos_state option" where
  "exhaust_ac ac s = do {
     adm \<leftarrow> aget (g_wmmac_admittedtime s) ac;
     u \<leftarrow> aset (g_wmmac_usedtime s) ac adm;
     av \<leftarrow> aset (g_wmmac_available s) ac False;
     Some (s\<lparr>g_wmmac_usedtime := u, g_wmmac_available := av\<rparr>) }"

definition update_wmmac_vo_timeout :: "qos_state \<Rightarrow> qos_state option" where
  "update_wmmac_vo_timeout s = exhaust_ac AC_VO (s\<lparr>wmmac_vo_timer := None\<rparr>)"

definition update_wmmac_vi_timeout :: "qos_state \<Rightarrow> qos_state option" where
  "update_wmmac_vi_timeout s = exhaust_ac AC_VI (s\<lparr>wmmac_vi_timer := None\<rparr>)"

section \<open>Classification with admission control\<close>

definition get_tid_qosindex ::
  "qos_state \<Rightarrow> tx_skb \<Rightarrow> nat \<Rightarrow> u8 \<Rightarrow> u8 \<Rightarrow> (tx_skb \<times> qos_head_type_t \<times> u8 \<times> u8) option" where
  "get_tid_qosindex s skb data_offset tid tos =
     (if g_qos_enable s = 0 then Some (skb, SPRDWL_AC_BE, tid, tos)
      else do {
        (skb', priority, tos') \<leftarrow> pkt_get_prio skb data_offset tos;
        Some (skb', tid_map_to_qosindex priority, priority, tos') })"

text \<open>The two searches through the QoS map; \<open>None\<close> of the inner option is no match.\<close>

fun match_exception :: "dscp_exception list \<Rightarrow> u8 \<Rightarrow> u8 option" where
  "match_exception [] p = None"
| "match_exception (e # es) p = (if p = de_dscp e then Some (de_up e) else match_exception es p)"

fun match_range :: "qos_map_range list \<Rightarrow> u8 \<Rightarrow> u8 option" where
  "match_range [] p = None"
| "match_range (r # rs) p =
     (if qr_low r \<le> p \<and> p \<le> qr_high r then Some (qr_up r) else match_range rs p)"

definition map_dscp :: "qos_map_set \<Rightarrow> u8 \<Rightarrow> u8 \<Rightarrow> u8" where
  "map_dscp m dscp tid =
     (case match_exception (qos_exceptions m) dscp of
        Some up \<Rightarrow> up
      | None \<Rightarrow> (case match_range (qos_ranges m) dscp of Some up \<Rightarrow> up | None \<Rightarrow> tid))"

text \<open>
  The loop \<open>while (ac != 0)\<close>: \<open>Some None\<close> is the early return of \<open>SPRDWL_AC_MAX\<close>, the inner value
  the category the loop ends with and the state with its used time.
\<close>

definition charge_ac :: "nat \<Rightarrow> u16 \<Rightarrow> qos_state \<Rightarrow> qos_state option" where
  "charge_ac ac len s = do {
     used \<leftarrow> aget (g_wmmac_usedtime s) ac;
     u \<leftarrow> aset (g_wmmac_usedtime s) ac
            (used + (ucast len + 4) * 8 * wmmac_ratio s div 10 div 54);
     set_available ac (s\<lparr>g_wmmac_usedtime := u\<rparr>) }"

fun admit_loop :: "nat \<Rightarrow> u16 \<Rightarrow> qos_state \<Rightarrow> (nat \<times> qos_state) option option" where
  "admit_loop 0 len s = Some (Some (0, s))"
| "admit_loop (Suc n) len s = do {
     par \<leftarrow> aget (wmmac_ac s) (Suc n);
     if aci_aifsn par AND WMM_AC_ACM \<noteq> 0 then do {
       av \<leftarrow> aget (g_wmmac_available s) (Suc n);
       if av then do { s' \<leftarrow> charge_ac (Suc n) len s; Some (Some (Suc n, s')) }
       else do {
         used \<leftarrow> aget (g_wmmac_usedtime s) (Suc n);
         if used \<noteq> 0 then Some None else admit_loop n len s } }
     else Some (Some (Suc n, s)) }"

definition change_priority_if ::
  "u8 \<Rightarrow> u8 \<Rightarrow> u16 \<Rightarrow> qos_state \<Rightarrow> (qos_head_type_t \<times> u8 \<times> qos_state) option" where
  "change_priority_if tid tos len s = (
     let tid1 = map_dscp (g_11u_qos_map s) (drop_bit 2 tos) tid in
     if g_qos_enable s = 1 then do {
       r \<leftarrow> admit_loop (map_priority_to_edca_ac tid1) len s;
       (case r of
          None \<Rightarrow> Some (SPRDWL_AC_MAX, tid1, s)
        | Some (ac, s') \<Rightarrow>
            let tid2 = map_edca_ac_to_priority ac in Some (tid_map_to_qosindex tid2, tid2, s')) }
     else Some (tid_map_to_qosindex tid1, tid1, s))"

section \<open>The WMM information element\<close>

text \<open>
  \<open>get_wmm_ie\<close> returns the position behind the header of the element. The buffer \<open>res\<close> may be
  longer than \<open>ie_len\<close>; reading behind the buffer is a fault.
\<close>

definition oui_at :: "u8 list \<Rightarrow> nat \<Rightarrow> u32 option" where
  "oui_at res pos = do {
     b2 \<leftarrow> aget res (pos + 2); b3 \<leftarrow> aget res (pos + 3); b4 \<leftarrow> aget res (pos + 4);
     Some (push_bit 16 (ucast b2) OR push_bit 8 (ucast b3) OR ucast b4) }"

function wmm_ie_loop :: "u8 list \<Rightarrow> nat \<Rightarrow> u8 \<Rightarrow> u32 \<Rightarrow> nat \<Rightarrow> nat option option" where
  "wmm_ie_loop res end_pos ie oui pos =
     (if pos + 1 < end_pos then do {
        len \<leftarrow> aget res (pos + 1);
        if end_pos < pos + 2 + unat len then Some None
        else do {
          id \<leftarrow> aget res pos;
          if id = ie then do {
            o' \<leftarrow> oui_at res pos;
            if o' = oui then do {
              ty \<leftarrow> aget res (pos + 5);
              Some (if ty = WMM_OUI_TYPE then Some (pos + 2) else None) }
            else Some None }
          else wmm_ie_loop res end_pos ie oui (pos + 2 + unat len) } }
      else Some None)"
  by pat_completeness auto
termination by (relation "measure (\<lambda>(res, end_pos, ie, oui, pos). end_pos - pos)") auto

declare wmm_ie_loop.simps [simp del]

definition get_wmm_ie :: "u8 list \<Rightarrow> u16 \<Rightarrow> u8 \<Rightarrow> u32 \<Rightarrow> nat option option" where
  "get_wmm_ie res ie_len ie oui = wmm_ie_loop res (unat ie_len) ie oui 0"

text \<open>
  After a connection \<open>sprdwl_report_connection\<close> copies \<open>aci_aifsn\<close> of the four categories, which
  start eight bytes behind the position found and are four bytes each.
\<close>

fun copy_aci :: "nat \<Rightarrow> nat \<Rightarrow> u8 list \<Rightarrow> nat \<Rightarrow> wmm_ac_params list \<Rightarrow> wmm_ac_params list option" where
  "copy_aci 0 i res wp l = Some l"
| "copy_aci (Suc n) i res wp l = do {
     b \<leftarrow> aget res (wp + 8 + 4 * i); e \<leftarrow> aget l i;
     l' \<leftarrow> aset l i (e\<lparr>aci_aifsn := b\<rparr>);
     copy_aci n (i + 1) res wp l' }"

definition report_connection_wmm :: "u8 list \<Rightarrow> u16 \<Rightarrow> qos_state \<Rightarrow> qos_state option" where
  "report_connection_wmm resp_ie resp_ie_len s = do {
     r \<leftarrow> get_wmm_ie resp_ie resp_ie_len WLAN_EID_VENDOR_SPECIFIC OUI_MICROSOFT;
     (case r of
        Some wp \<Rightarrow> do {
          l \<leftarrow> copy_aci NUM_AC 0 resp_ie wp (wmmac_ac s);
          Some (s\<lparr>wmmac_ac := l\<rparr>) }
      | None \<Rightarrow> Some s) }"

section \<open>Commands that change the state\<close>

record sprdwl_cmd_dscp_range =
  dr_low :: u8
  dr_high :: u8

record sprdwl_cmd_qos_map =
  num_des :: u8
  cq_exception :: "dscp_exception list"
  cq_up :: "sprdwl_cmd_dscp_range list"

text \<open>
  \<open>sprdwl_set_qos_map\<close>: the command is sent after the map is stored, and its outcome is what is
  returned. \<open>alloc\<close> says whether \<open>sprdwl_cmd_getbuf\<close> has a buffer, \<open>reply\<close> what
  \<open>sprdwl_cmd_send_recv\<close> returns. \<open>-ENOMEM\<close> is -12.
\<close>

definition store_qos_map :: "sprdwl_cmd_qos_map \<Rightarrow> qos_map_set" where
  "store_qos_map q =
     \<lparr>qos_exceptions = take QOS_MAP_MAX_DSCP_EXCEPTION (cq_exception q),
      qos_ranges = map (\<lambda>(r, i). \<lparr>qr_low = dr_low r, qr_high = dr_high r, qr_up = of_nat i\<rparr>)
                     (zip (cq_up q) [0..<8])\<rparr>"

definition sprdwl_set_qos_map ::
  "bool \<Rightarrow> int \<Rightarrow> sprdwl_cmd_qos_map option \<Rightarrow> qos_state \<Rightarrow> int \<times> qos_state" where
  "sprdwl_set_qos_map alloc reply qos_map s =
     (case qos_map of
        None \<Rightarrow> (0, s)
      | Some q \<Rightarrow> if \<not> alloc then (- 12, s) else (reply, s\<lparr>g_11u_qos_map := store_qos_map q\<rparr>))"

definition sprdwl_add_tx_ts ::
  "ktime \<Rightarrow> u64 \<Rightarrow> bool \<Rightarrow> int \<Rightarrow> u8 \<Rightarrow> u8 \<Rightarrow> u16 \<Rightarrow> qos_state \<Rightarrow> (int \<times> qos_state) option" where
  "sprdwl_add_tx_ts k now alloc reply tsid user_prio admitted_time s =
     (if \<not> alloc then Some (- 12, s)
      else do {
        let ac = map_priority_to_edca_ac user_prio;
        s1 \<leftarrow> update_wmmac_ts_info tsid user_prio (of_nat ac) True admitted_time s;
        s2 \<leftarrow> update_admitted_time k now tsid admitted_time True s1;
        Some (reply, s2) })"

text \<open>
  The command buffer of \<open>sprdwl_del_tx_ts\<close> is cleared and \<open>admitted_time\<close> is not filled in, so
  the time taken back is 0.
\<close>

definition sprdwl_del_tx_ts ::
  "ktime \<Rightarrow> u64 \<Rightarrow> bool \<Rightarrow> int \<Rightarrow> u8 \<Rightarrow> qos_state \<Rightarrow> (int \<times> qos_state) option" where
  "sprdwl_del_tx_ts k now alloc reply tsid s =
     (if \<not> alloc then Some (- 12, s)
      else do {
        s1 \<leftarrow> update_admitted_time k now tsid 0 False s;
        s2 \<leftarrow> remove_wmmac_ts_info tsid s1;
        Some (reply, s2) })"

section \<open>Queues per category and station\<close>

record peer_list =
  head_list :: "nat list"
  l_num :: int

record qos_list =
  p_list :: "peer_list list"

record tx_t =
  tx_ac_index :: int
  tx_lut_id :: u8
  mode_list_num :: int
  q_list :: "qos_list list"

definition qos_init :: "tx_t \<Rightarrow> tx_t" where
  "qos_init t = t\<lparr>q_list := replicate 4 \<lparr>p_list = replicate MAX_LUT_NUM \<lparr>head_list = [], l_num = 0\<rparr>\<rparr>\<rparr>"

definition get_list_num :: "'a list \<Rightarrow> int" where
  "get_list_num l = (if l = [] then 0 else foldl (\<lambda>num _. num + 1) 0 l)"

end
