(* ===== verification/Qos_Correct.thy ===== *)
theory Qos_Correct
  imports Qos Stage
begin

text \<open>
  Correctness of packet classification and WMM admission control: an invariant of the
  admission state kept by every operation, the admission decision against a reference
  definition, what the default map does to a packet, and the search for the WMM element.
\<close>

section \<open>Events of the component\<close>

datatype qos_event =
    AddTs bool int u8 u8 u16
  | DelTs bool int u8
  | Classify u8 u8 u16
  | EdcaTimer
  | VoTimer
  | ViTimer
  | SetQosMap bool int "sprdwl_cmd_qos_map option"
  | QosEnable u32
  | ResetParameters
  | ResetTs

fun qos_step :: "ktime \<Rightarrow> u64 \<Rightarrow> qos_state \<Rightarrow> qos_event \<Rightarrow> qos_state option" where
  "qos_step k now s (AddTs alloc reply tsid up t) =
     map_option snd (sprdwl_add_tx_ts k now alloc reply tsid up t s)"
| "qos_step k now s (DelTs alloc reply tsid) = map_option snd (sprdwl_del_tx_ts k now alloc reply tsid s)"
| "qos_step k now s (Classify tid tos len) = map_option (snd \<circ> snd) (change_priority_if tid tos len s)"
| "qos_step k now s EdcaTimer = update_wmmac_edcaftime_timeout k now s"
| "qos_step k now s VoTimer = update_wmmac_vo_timeout s"
| "qos_step k now s ViTimer = update_wmmac_vi_timeout s"
| "qos_step k now s (SetQosMap alloc reply m) = Some (snd (sprdwl_set_qos_map alloc reply m s))"
| "qos_step k now s (QosEnable f) = Some (qos_enable f s)"
| "qos_step k now s ResetParameters = Some (reset_wmmac_parameters s)"
| "qos_step k now s ResetTs = reset_wmmac_ts_info s"

fun qos_event_ok :: "qos_event \<Rightarrow> bool" where
  "qos_event_ok (AddTs alloc reply tsid up t) \<longleftrightarrow> unat tsid < NUM_TID"
| "qos_event_ok (DelTs alloc reply tsid) \<longleftrightarrow> unat tsid < NUM_TID"
| "qos_event_ok _ \<longleftrightarrow> True"

section \<open>Invariant\<close>

definition ac_consistent :: "bool list \<Rightarrow> u32 list \<Rightarrow> u32 list \<Rightarrow> bool" where
  "ac_consistent av used adm \<longleftrightarrow>
     length av = NUM_AC \<and> length used = NUM_AC \<and> length adm = NUM_AC \<and>
     (\<forall>i < NUM_AC. av ! i = (used ! i < adm ! i))"

definition ts_consistent :: "wmm_ac_ts_t list \<Rightarrow> bool" where
  "ts_consistent ts \<longleftrightarrow> length ts = NUM_TID \<and> (\<forall>e \<in> set ts. unat (ts_ac e) < NUM_AC)"

definition wmmac_inv :: "qos_state \<Rightarrow> bool" where
  "wmmac_inv s \<longleftrightarrow>
     ac_consistent (g_wmmac_available s) (g_wmmac_usedtime s) (g_wmmac_admittedtime s) \<and>
     ts_consistent (g_sta_ts_info s) \<and> length (wmmac_ac s) = NUM_AC"

lemma ac_consistent_update:
  assumes "ac_consistent av used adm"
  shows "ac_consistent (av[i := u < a]) (used[i := u]) (adm[i := a])"
proof (cases "i < NUM_AC")
  case True
  with assms show ?thesis by (auto simp: ac_consistent_def nth_list_update)
next
  case False
  with assms show ?thesis by (auto simp: ac_consistent_def)
qed

lemma ac_consistent_update_adm:
  assumes "ac_consistent av used adm"
  shows "ac_consistent (av[i := used ! i < a]) used (adm[i := a])"
  using ac_consistent_update [OF assms, of i "used ! i" a] by simp

lemma ac_consistent_update_used:
  assumes "ac_consistent av used adm"
  shows "ac_consistent (av[i := u < adm ! i]) (used[i := u]) adm"
  using ac_consistent_update [OF assms, of i u "adm ! i"] by simp

lemma ac_consistent_zero: "ac_consistent (replicate NUM_AC False) (replicate NUM_AC 0) (replicate NUM_AC 0)"
  by (simp add: ac_consistent_def)

lemma ac_consistent_lengths:
  assumes "ac_consistent av used adm"
  shows "length av = NUM_AC" "length used = NUM_AC" "length adm = NUM_AC"
  using assms by (auto simp: ac_consistent_def)

lemma ts_consistent_update:
  assumes "ts_consistent ts" and "unat (ts_ac e) < NUM_AC"
  shows "ts_consistent (ts[i := e])"
  using assms set_update_subset_insert [of ts i e] by (auto simp: ts_consistent_def)

lemma ts_consistent_nth: "ts_consistent ts \<Longrightarrow> i < NUM_TID \<Longrightarrow> unat (ts_ac (ts ! i)) < NUM_AC"
  by (simp add: ts_consistent_def)

lemma edca_ac_bound: "map_priority_to_edca_ac p < NUM_AC"
  by (simp add: map_priority_to_edca_ac_def qos_consts)

lemma unat_edca_ac: "unat (of_nat (map_priority_to_edca_ac p) :: u8) = map_priority_to_edca_ac p"
  using edca_ac_bound [of p] by (simp add: unat_of_nat take_bit_nat_eq_self NUM_AC_def)

text \<open>Every operation on one category succeeds and keeps the invariant.\<close>

lemma start_ac_timer_inv [simp]: "wmmac_inv (start_ac_timer k now ac a s) = wmmac_inv s"
  by (simp add: start_ac_timer_def wmmac_inv_def Let_def)

lemma start_ac_timer_frame [frame_simps]:
  "g_wmmac_available (start_ac_timer k now ac a s) = g_wmmac_available s"
  "g_wmmac_usedtime (start_ac_timer k now ac a s) = g_wmmac_usedtime s"
  "g_wmmac_admittedtime (start_ac_timer k now ac a s) = g_wmmac_admittedtime s"
  "g_sta_ts_info (start_ac_timer k now ac a s) = g_sta_ts_info s"
  "wmmac_ac (start_ac_timer k now ac a s) = wmmac_ac s"
  by (simp_all add: start_ac_timer_def Let_def)

lemma update_admitted_time_inv:
  assumes "wmmac_inv s" and "unat tsid < NUM_TID"
  shows "\<exists>s'. update_admitted_time k now tsid t inc s = Some s' \<and> wmmac_inv s'"
proof -
  define ac where "ac = unat (ts_ac (g_sta_ts_info s ! unat tsid))"
  have ts: "ts_consistent (g_sta_ts_info s)"
    and c: "ac_consistent (g_wmmac_available s) (g_wmmac_usedtime s) (g_wmmac_admittedtime s)"
    and l: "length (wmmac_ac s) = NUM_AC"
    using assms(1) by (auto simp: wmmac_inv_def)
  have ac: "ac < NUM_AC" unfolding ac_def using ts_consistent_nth [OF ts assms(2)] .
  have g: "aget (g_sta_ts_info s) (unat tsid) = Some (g_sta_ts_info s ! unat tsid)"
    using ts assms(2) by (simp add: ts_consistent_def)
  show ?thesis
    unfolding update_admitted_time_def g
    using ac c l ts ac_consistent_update_adm [OF c, of ac] ac_consistent_update_adm [OF c, of ac 0]
    by (simp add: ac_def [symmetric] Let_def ac_consistent_lengths [OF c] set_available_def
        frame_simps wmmac_inv_def)
qed

lemma refill_ac_inv:
  assumes "wmmac_inv s" and "ac < NUM_AC"
  shows "\<exists>s'. refill_ac k now ac s = Some s' \<and> wmmac_inv s'"
proof -
  have c: "ac_consistent (g_wmmac_available s) (g_wmmac_usedtime s) (g_wmmac_admittedtime s)"
    using assms(1) by (auto simp: wmmac_inv_def)
  show ?thesis
    using assms ac_consistent_update_used [OF c, of ac 0]
    by (auto simp: refill_ac_def ac_consistent_lengths [OF c] wmmac_inv_def frame_simps)
qed

lemma exhaust_ac_inv:
  assumes "wmmac_inv s" and "ac < NUM_AC"
  shows "\<exists>s'. exhaust_ac ac s = Some s' \<and> wmmac_inv s'"
proof -
  have c: "ac_consistent (g_wmmac_available s) (g_wmmac_usedtime s) (g_wmmac_admittedtime s)"
    using assms(1) by (auto simp: wmmac_inv_def)
  show ?thesis
    using assms ac_consistent_update_used [OF c, of ac "g_wmmac_admittedtime s ! ac"]
    by (auto simp: exhaust_ac_def ac_consistent_lengths [OF c] wmmac_inv_def)
qed

lemma charge_ac_inv:
  assumes "wmmac_inv s" and "ac < NUM_AC"
  shows "\<exists>s'. charge_ac ac len s = Some s' \<and> wmmac_inv s'"
proof -
  have c: "ac_consistent (g_wmmac_available s) (g_wmmac_usedtime s) (g_wmmac_admittedtime s)"
    using assms(1) by (auto simp: wmmac_inv_def)
  show ?thesis
    using assms ac_consistent_update_used [OF c, of ac]
    by (auto simp: charge_ac_def set_available_def ac_consistent_lengths [OF c] wmmac_inv_def)
qed

lemma admit_loop_inv:
  assumes "wmmac_inv s" and "ac < NUM_AC"
  shows "\<exists>r. admit_loop ac len s = Some r \<and> (\<forall>ac' s'. r = Some (ac', s') \<longrightarrow> wmmac_inv s' \<and> ac' \<le> ac)"
  using assms(2)
proof (induction ac)
  case (Suc n)
  have len: "Suc n < length (wmmac_ac s)" "Suc n < length (g_wmmac_available s)"
      "Suc n < length (g_wmmac_usedtime s)"
    using assms(1) Suc.prems by (auto simp: wmmac_inv_def ac_consistent_def)
  from charge_ac_inv [OF assms(1) Suc.prems, of len] obtain s' where
    "charge_ac (Suc n) len s = Some s'" "wmmac_inv s'" by blast
  with len Suc assms(1) show ?case by (auto simp: le_Suc_eq)
qed (use assms(1) in simp)

lemma change_priority_if_inv:
  assumes "wmmac_inv s"
  shows "\<exists>q tid' s'. change_priority_if tid tos len s = Some (q, tid', s') \<and> wmmac_inv s'"
proof -
  obtain r where "admit_loop (map_priority_to_edca_ac (map_dscp (g_11u_qos_map s) (drop_bit 2 tos) tid)) len s = Some r"
    "\<forall>ac' s'. r = Some (ac', s') \<longrightarrow> wmmac_inv s'"
    using admit_loop_inv [OF assms edca_ac_bound] by blast
  with assms show ?thesis
    by (cases r) (auto simp: change_priority_if_def Let_def)
qed

lemma update_ts_inv:
  assumes "wmmac_inv s" and "unat tsid < NUM_TID" and "unat ac < NUM_AC"
  shows "\<exists>s'. update_wmmac_ts_info tsid up ac st t s = Some s' \<and> wmmac_inv s'"
proof -
  have ts: "ts_consistent (g_sta_ts_info s)" using assms(1) by (simp add: wmmac_inv_def)
  then have len: "length (g_sta_ts_info s) = NUM_TID" by (simp add: ts_consistent_def)
  have "ts_consistent ((g_sta_ts_info s)[i := e\<lparr>ts_exist := st, ts_ac := ac, ts_up := up,
      ts_admitted_time := t\<rparr>])" for i e
    by (rule ts_consistent_update [OF ts]) (simp add: assms(3))
  with assms len show ?thesis by (simp add: update_wmmac_ts_info_def wmmac_inv_def)
qed

lemma remove_ts_inv:
  assumes "wmmac_inv s" and "unat tsid < NUM_TID"
  shows "\<exists>s'. remove_wmmac_ts_info tsid s = Some s' \<and> wmmac_inv s'"
proof -
  have "ts_consistent (g_sta_ts_info s)" using assms(1) by (simp add: wmmac_inv_def)
  from ts_consistent_update [OF this, of zero_ts] have
    "ts_consistent ((g_sta_ts_info s)[i := zero_ts])" for i by (simp add: zero_ts_def NUM_AC_def)
  with assms show ?thesis by (simp add: remove_wmmac_ts_info_def wmmac_inv_def ts_consistent_def)
qed

lemma reset_ts_inv:
  assumes "wmmac_inv s" and "unat tsid + n \<le> NUM_TID"
  shows "\<exists>s'. reset_ts_from n tsid s = Some s' \<and> wmmac_inv s'"
  using assms
proof (induction n arbitrary: tsid s)
  case (Suc n)
  then obtain s1 where s1: "remove_wmmac_ts_info tsid s = Some s1" "wmmac_inv s1"
    using remove_ts_inv [of s tsid] by auto
  have "unat (tsid + 1) + n \<le> NUM_TID"
    using Suc.prems(2) by (subst unat_inc) (auto simp: NUM_TID_def)
  from Suc.IH [OF s1(2) this] s1(1) show ?case by simp
qed simp


definition qos_loaded :: "qos_state \<Rightarrow> bool" where
  "qos_loaded s \<longleftrightarrow> (\<exists>s0. s = wmm_ac_init s0 \<and> g_sta_ts_info s0 = replicate NUM_TID zero_ts)"

lemma zero_params_inv:
  assumes "ts_consistent (g_sta_ts_info s)"
  shows "wmmac_inv (wmm_ac_init s)" and "wmmac_inv (reset_wmmac_parameters s)"
  using assms ac_consistent_zero
  by (simp_all add: wmm_ac_init_def reset_wmmac_parameters_def zero_ac_state_def wmmac_inv_def NUM_AC_def)

lemma add_tx_ts_inv:
  assumes "wmmac_inv s" and "unat tsid < NUM_TID"
  shows "\<exists>r s'. sprdwl_add_tx_ts k now alloc reply tsid up t s = Some (r, s') \<and> wmmac_inv s'"
proof (cases alloc)
  case True
  obtain s1 where "update_wmmac_ts_info tsid up (of_nat (map_priority_to_edca_ac up)) True t s = Some s1"
      "wmmac_inv s1"
    using update_ts_inv [OF assms] unat_edca_ac edca_ac_bound by metis
  moreover from this(2) obtain s2 where "update_admitted_time k now tsid t True s1 = Some s2" "wmmac_inv s2"
    using update_admitted_time_inv [OF _ assms(2)] by blast
  ultimately show ?thesis using True by (simp add: sprdwl_add_tx_ts_def Let_def)
qed (use assms in \<open>simp add: sprdwl_add_tx_ts_def\<close>)

lemma del_tx_ts_inv:
  assumes "wmmac_inv s" and "unat tsid < NUM_TID"
  shows "\<exists>r s'. sprdwl_del_tx_ts k now alloc reply tsid s = Some (r, s') \<and> wmmac_inv s'"
proof (cases alloc)
  case True
  obtain s1 where "update_admitted_time k now tsid 0 False s = Some s1" "wmmac_inv s1"
    using update_admitted_time_inv [OF assms] by blast
  moreover from this(2) obtain s2 where "remove_wmmac_ts_info tsid s1 = Some s2" "wmmac_inv s2"
    using remove_ts_inv [OF _ assms(2)] by blast
  ultimately show ?thesis using True by (simp add: sprdwl_del_tx_ts_def)
qed (use assms in \<open>simp add: sprdwl_del_tx_ts_def\<close>)

lemma edcaf_timeout_inv:
  assumes "wmmac_inv s"
  shows "\<exists>s'. update_wmmac_edcaftime_timeout k now s = Some s' \<and> wmmac_inv s'"
proof -
  have "wmmac_inv (s\<lparr>wmmac_edcaf_timer := t\<rparr>)" for t using assms by (simp add: wmmac_inv_def)
  then obtain s2 where "refill_ac k now AC_VO (s\<lparr>wmmac_edcaf_timer := Some (now + edca_period k)\<rparr>) = Some s2"
      "wmmac_inv s2"
    using refill_ac_inv [of _ AC_VO] by (fastforce simp: qos_consts)
  with refill_ac_inv [of s2 AC_VI] show ?thesis
    by (simp add: update_wmmac_edcaftime_timeout_def Let_def qos_consts)
qed

lemma wmmac_inv_irrelevant [simp]:
  "wmmac_inv (s\<lparr>wmmac_vo_timer := t\<rparr>) = wmmac_inv s" "wmmac_inv (s\<lparr>wmmac_vi_timer := t\<rparr>) = wmmac_inv s"
  "wmmac_inv (s\<lparr>g_11u_qos_map := m\<rparr>) = wmmac_inv s" "wmmac_inv (s\<lparr>g_qos_enable := f\<rparr>) = wmmac_inv s"
  by (simp_all add: wmmac_inv_def)

lemma qos_step_safe:
  assumes "wmmac_inv s" and "qos_event_ok e"
  shows "\<exists>s'. qos_step k now s e = Some s' \<and> wmmac_inv s'"
proof (cases e)
  case (AddTs alloc reply tsid up t)
  with assms add_tx_ts_inv [OF assms(1), of tsid k now alloc reply up t] show ?thesis by fastforce
next
  case (DelTs alloc reply tsid)
  with assms del_tx_ts_inv [OF assms(1), of tsid k now alloc reply] show ?thesis by fastforce
next
  case (Classify tid tos len)
  with change_priority_if_inv [OF assms(1), of tid tos len] show ?thesis by fastforce
next
  case EdcaTimer
  with edcaf_timeout_inv [OF assms(1)] show ?thesis by simp
next
  case VoTimer
  with exhaust_ac_inv [of _ AC_VO] assms(1) show ?thesis
    by (simp add: update_wmmac_vo_timeout_def qos_consts)
next
  case ViTimer
  with exhaust_ac_inv [of _ AC_VI] assms(1) show ?thesis
    by (simp add: update_wmmac_vi_timeout_def qos_consts)
next
  case (SetQosMap alloc reply m)
  with assms(1) show ?thesis by (simp add: sprdwl_set_qos_map_def split: option.splits)
next
  case (QosEnable f)
  with assms(1) show ?thesis by (simp add: qos_enable_def)
next
  case ResetParameters
  with assms(1) zero_params_inv(2) [of s] show ?thesis by (simp add: wmmac_inv_def [of s])
next
  case ResetTs
  with reset_ts_inv [OF assms(1), of 0 NUM_TID] show ?thesis by (simp add: reset_wmmac_ts_info_def)
qed

interpretation wmmac: safe_machine "qos_step k now" wmmac_inv qos_event_ok for k now
  by unfold_locales (rule qos_step_safe)

lemma qos_loaded_inv: "qos_loaded s \<Longrightarrow> wmmac_inv s"
  using zero_params_inv(1) by (auto simp: qos_loaded_def ts_consistent_def zero_ts_def NUM_AC_def)

section \<open>Invariant of the admission state\<close>

definition qos_timed_step :: "ktime \<Rightarrow> qos_state \<Rightarrow> u64 \<times> qos_event \<Rightarrow> qos_state option" where
  "qos_timed_step k s te = qos_step k (fst te) s (snd te)"

interpretation wmmac_run: safe_machine "qos_timed_step k" wmmac_inv "\<lambda>te. qos_event_ok (snd te)" for k
  by unfold_locales (simp add: qos_timed_step_def wmmac.safe_step)

text \<open>
  C23. After the admission state is initialised, any sequence of commands, classified packets and
  timer expiries on the streams 0 to 15 is handled without an access outside an array, and at
  its end each access category is marked available exactly when its used time is below its
  admitted time.
\<close>

theorem wmmac_safe_and_consistent:
  assumes "qos_loaded s" and "\<forall>te \<in> set tes. qos_event_ok (snd te)"
  shows "\<exists>s'. run_stage (qos_timed_step k) s tes = Some s' \<and>
     (\<forall>ac < NUM_AC. g_wmmac_available s' ! ac \<longleftrightarrow> g_wmmac_usedtime s' ! ac < g_wmmac_admittedtime s' ! ac)"
proof -
  obtain s' where "run_stage (qos_timed_step k) s tes = Some s'" "wmmac_inv s'"
    using wmmac_run.run_safe [OF qos_loaded_inv [OF assms(1)] assms(2)] by blast
  then show ?thesis by (auto simp: wmmac_inv_def ac_consistent_def)
qed

definition ex_qos :: qos_state where
  "ex_qos = \<lparr>g_qos_enable = 1, g_11u_qos_map = init_default_qos_map zero_qos_map,
     g_wmmac_available = replicate 4 False, g_wmmac_admittedtime = replicate 4 0,
     g_wmmac_usedtime = replicate 4 0, g_sta_ts_info = replicate NUM_TID zero_ts,
     wmmac_ratio = 10, wmmac_ac = replicate 4 zero_ac_params, wmmac_edcaf_timer = None,
     wmmac_vo_timer = None, wmmac_vi_timer = None\<rparr>"

lemma ex_qos_loaded: "qos_loaded ex_qos"
  unfolding qos_loaded_def
  by (rule exI [of _ ex_qos])
    (simp add: ex_qos_def wmm_ac_init_def zero_ac_state_def NUM_AC_def)

definition ex_ktime :: ktime where
  "ex_ktime = \<lparr>HZ = 250, usecs_to_jiffies = (\<lambda>u. ucast u div 4000)\<rparr>"

theorem wmmac_safe_and_consistent_witness:
  "\<exists>s'. run_stage (qos_timed_step ex_ktime) ex_qos
     [(0, AddTs True 0 3 6 100), (5, VoTimer), (9, EdcaTimer), (12, DelTs True 0 3)] = Some s' \<and>
     (\<forall>ac < NUM_AC. g_wmmac_available s' ! ac \<longleftrightarrow> g_wmmac_usedtime s' ! ac < g_wmmac_admittedtime s' ! ac)"
  by (rule wmmac_safe_and_consistent [OF ex_qos_loaded]) (simp add: NUM_TID_def)

section \<open>The admission decision\<close>

definition needs_admission :: "qos_state \<Rightarrow> nat \<Rightarrow> bool" where
  "needs_admission s ac \<longleftrightarrow> aci_aifsn (wmmac_ac s ! ac) AND WMM_AC_ACM \<noteq> 0"

definition passes :: "qos_state \<Rightarrow> nat \<Rightarrow> bool" where
  "passes s ac \<longleftrightarrow> \<not> needs_admission s ac \<or> g_wmmac_available s ! ac"

definition blocked :: "qos_state \<Rightarrow> nat \<Rightarrow> bool" where
  "blocked s ac \<longleftrightarrow> \<not> passes s ac \<and> g_wmmac_usedtime s ! ac \<noteq> 0"

text \<open>The highest category up to \<open>ac\<close> that may be used; background, 0, always may.\<close>

definition highest_admissible :: "qos_state \<Rightarrow> nat \<Rightarrow> nat" where
  "highest_admissible s ac = Max {i. i \<le> ac \<and> (i = 0 \<or> passes s i)}"

text \<open>What the loop does: the first category from \<open>ac\<close> down that passes or is exhausted decides.\<close>

definition admission :: "qos_state \<Rightarrow> nat \<Rightarrow> nat option" where
  "admission s ac =
     (case find (\<lambda>i. passes s i \<or> blocked s i) (rev [1..<Suc ac]) of
        None \<Rightarrow> Some 0
      | Some i \<Rightarrow> if passes s i then Some i else None)"

definition airtime :: "qos_state \<Rightarrow> u16 \<Rightarrow> u32" where
  "airtime s len = (ucast len + 4) * 8 * wmmac_ratio s div 10 div 54"

definition charged :: "nat \<Rightarrow> u16 \<Rightarrow> qos_state \<Rightarrow> qos_state" where
  "charged ac len s =
     (if 0 < ac \<and> needs_admission s ac then
        (let used = g_wmmac_usedtime s ! ac + airtime s len in
         s\<lparr>g_wmmac_usedtime := (g_wmmac_usedtime s)[ac := used],
           g_wmmac_available := (g_wmmac_available s)[ac := used < g_wmmac_admittedtime s ! ac]\<rparr>)
      else s)"

lemma admission_0: "admission s 0 = Some 0"
  by (simp add: admission_def)

lemma admission_Suc:
  "admission s (Suc n) =
     (if passes s (Suc n) then Some (Suc n) else if blocked s (Suc n) then None else admission s n)"
  by (simp add: admission_def)

lemma highest_admissible_bound: "highest_admissible s ac \<le> ac"
  unfolding highest_admissible_def by (rule Max.boundedI) auto

lemma highest_admissible_Suc:
  "highest_admissible s (Suc n) = (if passes s (Suc n) then Suc n else highest_admissible s n)"
proof (cases "passes s (Suc n)")
  case True
  then show ?thesis unfolding highest_admissible_def by (simp, intro Max_eqI) auto
next
  case False
  then have "{i. i \<le> Suc n \<and> (i = 0 \<or> passes s i)} = {i. i \<le> n \<and> (i = 0 \<or> passes s i)}"
    by (auto simp: le_Suc_eq)
  then show ?thesis using False by (simp add: highest_admissible_def)
qed

text \<open>The loop finds the highest admissible category unless it meets an exhausted one above it.\<close>

lemma admission_highest:
  "admission s ac = (if \<exists>i. highest_admissible s ac < i \<and> i \<le> ac \<and> blocked s i then None else Some (highest_admissible s ac))"
proof (induction ac)
  case 0
  then show ?case using highest_admissible_bound [of s 0] by (simp add: admission_0)
next
  case (Suc n)
  note b = highest_admissible_bound [of s n]
  have "(\<exists>i. highest_admissible s n < i \<and> i \<le> Suc n \<and> blocked s i) \<longleftrightarrow>
      blocked s (Suc n) \<or> (\<exists>i. highest_admissible s n < i \<and> i \<le> n \<and> blocked s i)"
    using b by (metis le_Suc_eq le_imp_less_Suc order.refl)
  then show ?case using Suc by (auto simp: admission_Suc highest_admissible_Suc)
qed

lemma charge_ac_eq:
  assumes "wmmac_inv s" and "ac < NUM_AC" and "0 < ac" and "needs_admission s ac"
  shows "charge_ac ac len s = Some (charged ac len s)"
proof -
  have "length (g_wmmac_usedtime s) = NUM_AC" "length (g_wmmac_admittedtime s) = NUM_AC"
      "length (g_wmmac_available s) = NUM_AC"
    using assms(1) by (auto simp: wmmac_inv_def ac_consistent_def)
  with assms(2-4) show ?thesis
    by (simp add: charge_ac_def set_available_def charged_def airtime_def Let_def)
qed

lemma admit_loop_eq:
  assumes "wmmac_inv s" and "ac < NUM_AC"
  shows "admit_loop ac len s = Some (map_option (\<lambda>i. (i, charged i len s)) (admission s ac))"
  using assms(2)
proof (induction ac)
  case 0
  then show ?case by (simp add: admission_0 charged_def)
next
  case (Suc n)
  have len: "Suc n < length (wmmac_ac s)" "Suc n < length (g_wmmac_available s)"
      "Suc n < length (g_wmmac_usedtime s)"
    using assms(1) Suc.prems by (auto simp: wmmac_inv_def ac_consistent_def)
  show ?case
  proof (cases "needs_admission s (Suc n)")
    case True
    have "charge_ac (Suc n) len s = Some (charged (Suc n) len s)"
      using charge_ac_eq [OF assms(1) Suc.prems _ True] by simp
    with True Suc len show ?thesis
      by (simp add: admission_Suc passes_def blocked_def needs_admission_def)
  next
    case False
    with len show ?thesis
      by (simp add: admission_Suc passes_def needs_admission_def charged_def)
  qed
qed

lemma match_exception_replicate:
  "match_exception (replicate n \<lparr>de_dscp = x, de_up = u\<rparr>) p = (if 0 < n \<and> p = x then Some u else None)"
  by (induction n) auto

definition default_ranges :: "qos_map_range list" where
  "default_ranges =
     [\<lparr>qr_low = 0, qr_high = 0, qr_up = prio_0\<rparr>, \<lparr>qr_low = 3, qr_high = 3, qr_up = prio_0\<rparr>,
      \<lparr>qr_low = 1, qr_high = 2, qr_up = prio_1\<rparr>, \<lparr>qr_low = 4, qr_high = 5, qr_up = prio_4\<rparr>,
      \<lparr>qr_low = 6, qr_high = 7, qr_up = prio_6\<rparr>] @ replicate 3 \<lparr>qr_low = 0, qr_high = 0, qr_up = 0\<rparr>"

lemma default_ranges: "qos_ranges (init_default_qos_map zero_qos_map) = default_ranges"
  by code_simp

lemma match_range_append:
  "match_range (rs @ qs) p = (case match_range rs p of Some u \<Rightarrow> Some u | None \<Rightarrow> match_range qs p)"
  by (induction rs) auto

lemma match_range_zeros: "p \<noteq> 0 \<Longrightarrow> match_range (replicate n \<lparr>qr_low = 0, qr_high = 0, qr_up = u\<rparr>) p = None"
  by (induction n) auto

lemma match_default_ranges:
  "match_range default_ranges d = (if unat d < 8 then Some (up_to_ac ! unat d) else None)"
proof (cases "unat d < 8")
  case False
  then have "d \<noteq> 0" by auto
  with False show ?thesis
    by (simp add: default_ranges_def match_range_append match_range_zeros word_le_nat_alt)
next
  case True
  then have "unat d = 0 \<or> unat d = 1 \<or> unat d = 2 \<or> unat d = 3 \<or> unat d = 4 \<or> unat d = 5 \<or>
      unat d = 6 \<or> unat d = 7"
    by linarith
  then show ?thesis
    by (elim disjE) (simp_all add: default_ranges_def word_le_nat_alt up_to_ac_def qos_consts unat_eq_zero)
qed

lemma default_map_dscp:
  assumes "d \<noteq> 0xFF"
  shows "map_dscp (init_default_qos_map zero_qos_map) d tid =
     (if unat d < 8 then up_to_ac ! unat d else tid)"
proof -
  have "qos_exceptions (init_default_qos_map zero_qos_map) =
      replicate QOS_MAP_MAX_DSCP_EXCEPTION \<lparr>de_dscp = 0xFF, de_up = prio_0\<rparr>"
    by (simp add: init_default_qos_map_def zero_qos_map_def)
  with assms show ?thesis
    by (simp add: map_dscp_def match_exception_replicate default_ranges match_default_ranges)
qed

lemma default_map_tos:
  "map_dscp (init_default_qos_map zero_qos_map) (drop_bit 2 tos) tid =
     (if unat tos < 32 then up_to_ac ! (unat tos div 4) else tid)"
proof -
  have d: "unat (drop_bit 2 tos) = unat tos div 4"
    by (simp add: drop_bit_eq_div unat_div_distrib)
  have "unat tos < 256" using unsigned_less [of tos] by simp
  then have "unat (drop_bit 2 tos) \<noteq> 255" unfolding d by simp
  then have "drop_bit 2 tos \<noteq> 0xFF" by auto
  then show ?thesis by (auto simp: default_map_dscp d)
qed

lemma change_priority_if_eq:
  assumes "wmmac_inv s" and "g_qos_enable s = 1"
  shows "change_priority_if tid tos len s = Some (
     let tid1 = map_dscp (g_11u_qos_map s) (drop_bit 2 tos) tid in
     case admission s (map_priority_to_edca_ac tid1) of
       None \<Rightarrow> (SPRDWL_AC_MAX, tid1, s)
     | Some ac \<Rightarrow> (tid_map_to_qosindex (map_edca_ac_to_priority ac), map_edca_ac_to_priority ac,
                   charged ac len s))"
  using assms admit_loop_eq [OF assms(1) edca_ac_bound]
  by (simp add: change_priority_if_def Let_def split: option.splits)

text \<open>
  C36. With QoS enabled, the category of a packet is the highest one, from the category of its
  mapped priority downwards, that needs no admission or is available (background always may be
  used), and its used time grows by the air time of the packet when it needs admission. The packet
  is refused instead, and nothing charged, exactly when a category above that one, and not above
  its own, is exhausted: it needs admission, has used time and is not available. (The comment in
  \<open>change_priority_if\<close> says to downgrade and try again in that case too.)
\<close>

theorem change_priority_admission:
  assumes "wmmac_inv s" and "g_qos_enable s = 1"
  shows "change_priority_if tid tos len s = Some (
     let tid1 = map_dscp (g_11u_qos_map s) (drop_bit 2 tos) tid;
         ac = map_priority_to_edca_ac tid1; best = highest_admissible s ac in
     if \<exists>i. best < i \<and> i \<le> ac \<and> blocked s i then (SPRDWL_AC_MAX, tid1, s)
     else (tid_map_to_qosindex (map_edca_ac_to_priority best), map_edca_ac_to_priority best, charged best len s))"
  unfolding change_priority_if_eq [OF assms] admission_highest Let_def if_distrib [of "case_option _ _"]
  by (simp only: option.case if_distrib [of Some])

lemma ex_qos_inv: "wmmac_inv ex_qos"
  by (rule qos_loaded_inv [OF ex_qos_loaded])

definition ex_qos_acm :: qos_state where
  "ex_qos_acm = ex_qos\<lparr>wmmac_ac := [zero_ac_params, zero_ac_params, zero_ac_params,
     zero_ac_params\<lparr>aci_aifsn := 0x10\<rparr>]\<rparr>"

theorem change_priority_admission_witness:
  "change_priority_if 6 0xC0 100 ex_qos_acm = Some (SPRDWL_AC_VI, 4, ex_qos_acm)"
proof -
  have inv: "wmmac_inv ex_qos_acm" "g_qos_enable ex_qos_acm = 1"
    using ex_qos_inv by (simp_all add: ex_qos_acm_def wmmac_inv_def NUM_AC_def ex_qos_def)
  have tid: "map_dscp (g_11u_qos_map ex_qos_acm) (drop_bit 2 0xC0) 6 = 6"
    by code_simp
  have adm: "admission ex_qos_acm (map_priority_to_edca_ac 6) = Some AC_VI" by code_simp
  have best: "highest_admissible ex_qos_acm (map_priority_to_edca_ac 6) = AC_VI"
    and none: "\<not> (\<exists>i. AC_VI < i \<and> i \<le> map_priority_to_edca_ac 6 \<and> blocked ex_qos_acm i)"
    using adm by (auto simp: admission_highest split: if_splits)
  have "\<not> needs_admission ex_qos_acm AC_VI" by code_simp
  with change_priority_admission [OF inv, of 6 "0xC0" 100] none show ?thesis
    unfolding Let_def tid best
    by (simp add: charged_def map_edca_ac_to_priority_def tid_map_to_qosindex_def qos_consts)
qed

section \<open>Classification with the default map\<close>

text \<open>
  \<open>sprdwl_tx_msg_func\<close> reads the priority of a packet from its header and then maps it:
\<close>

definition tx_classify ::
  "qos_state \<Rightarrow> tx_skb \<Rightarrow> nat \<Rightarrow> u16 \<Rightarrow> (tx_skb \<times> qos_head_type_t \<times> u8 \<times> qos_state) option" where
  "tx_classify s skb data_offset len = do {
     (skb', q, tid, tos) \<leftarrow> get_tid_qosindex s skb data_offset 0 0;
     (q', tid', s') \<leftarrow> change_priority_if tid tos len s;
     Some (skb', q', tid', s') }"

definition no_admission_control :: "qos_state \<Rightarrow> bool" where
  "no_admission_control s \<longleftrightarrow> (\<forall>ac < NUM_AC. \<not> needs_admission s ac)"

lemma admission_open:
  "no_admission_control s \<Longrightarrow> ac < NUM_AC \<Longrightarrow> admission s ac = Some ac"
  by (cases ac) (auto simp: admission_0 admission_Suc passes_def no_admission_control_def)

lemma edca_priority_round:
  "map_edca_ac_to_priority (map_priority_to_edca_ac p) = (if unat p < 8 then up_to_ac ! unat p else prio_0)"
proof (cases "unat p < 8")
  case True
  then have "unat p = 0 \<or> unat p = 1 \<or> unat p = 2 \<or> unat p = 3 \<or> unat p = 4 \<or> unat p = 5 \<or>
      unat p = 6 \<or> unat p = 7"
    by linarith
  then show ?thesis
    by (elim disjE)
      (simp_all add: up_to_ac_def qos_consts map_edca_ac_to_priority_def map_priority_to_edca_ac_def
        word_unat_eq_iff)
next
  case False
  then show ?thesis
    by (simp add: qos_consts map_edca_ac_to_priority_def map_priority_to_edca_ac_def word_unat_eq_iff)
qed

lemma up_to_ac_range: "i < 8 \<Longrightarrow> unat (up_to_ac ! i) < 8 \<and> up_to_ac ! unat (up_to_ac ! i) = up_to_ac ! i"
proof -
  assume "i < 8"
  then have "i = 0 \<or> i = 1 \<or> i = 2 \<or> i = 3 \<or> i = 4 \<or> i = 5 \<or> i = 6 \<or> i = 7" by linarith
  then show ?thesis by (elim disjE) (simp_all add: up_to_ac_def)
qed

lemma change_priority_default:
  assumes "wmmac_inv s" and "g_qos_enable s = 1" and "no_admission_control s"
    and "g_11u_qos_map s = init_default_qos_map zero_qos_map" and "i < 8"
    and t: "t = up_to_ac ! (if unat tos < 32 then unat tos div 4 else i)"
  shows "change_priority_if (up_to_ac ! i) tos len s = Some (tid_map_to_qosindex t, t, s)"
proof -
  define tid1 where "tid1 = map_dscp (g_11u_qos_map s) (drop_bit 2 tos) (up_to_ac ! i)"
  have "tid1 = t" unfolding tid1_def t assms(4) default_map_tos by simp
  moreover have "map_edca_ac_to_priority (map_priority_to_edca_ac t) = t"
    unfolding t edca_priority_round using assms(5) by (auto simp: up_to_ac_range)
  moreover have "charged (map_priority_to_edca_ac t) len s = s"
    using assms(3) edca_ac_bound [of t] by (simp add: charged_def no_admission_control_def)
  ultimately show ?thesis
    using change_priority_if_eq [OF assms(1,2), of "up_to_ac ! i" tos len]
      admission_open [OF assms(3) edca_ac_bound, of t]
    by (simp add: tid1_def [symmetric] Let_def)
qed

lemma tos_precedence_bits: "tos AND 0xE0 = push_bit 5 (drop_bit 5 (tos :: u8))"
proof -
  have m: "(0xE0 :: u8) = push_bit 5 (mask 3)" by code_simp
  show ?thesis unfolding m by (rule bit_word_eqI) (auto simp: bit_simps)
qed

lemma tos_precedence: "unat (tos AND 0xE0 :: u8) = unat tos div 32 * 32"
proof -
  have "unat tos < 256" using unsigned_less [of tos] by simp
  then have "unat tos div 32 * 32 < 256" by (simp add: le_less_trans [OF div_times_less_eq_dividend])
  then show ?thesis
    by (simp add: tos_precedence_bits push_bit_eq_mult drop_bit_eq_div unat_word_ariths unat_div_distrib)
qed

lemma pkt_get_prio_ip:
  assumes "be16_at (tx_data skb) (off + 12) = Some ty" and "ty \<noteq> 0x8100"
    and "IP_TOS46 (tx_data skb) (off + 14) = Some tos"
  shows "pkt_get_prio skb off t0 =
     Some (skb\<lparr>tx_priority := ucast (up_to_ac ! (unat tos div 32))\<rparr>, up_to_ac ! (unat tos div 32), tos)"
proof -
  define i where "i = unat tos div 32"
  have "unat tos < 256" using unsigned_less [of tos] by simp
  then have "i < 8" unfolding i_def by simp
  then have "i = 0 \<or> i = 1 \<or> i = 2 \<or> i = 3 \<or> i = 4 \<or> i = 5 \<or> i = 6 \<or> i = 7" by linarith
  moreover have "unat (tos AND 0xE0) = i * 32" unfolding i_def by (rule tos_precedence)
  ultimately have "(if tos AND 0xE0 = 0x00 \<or> tos AND 0xE0 = 0x60 then prio_0
                       else if tos AND 0xE0 = 0x20 \<or> tos AND 0xE0 = 0x40 then prio_1
                       else if tos AND 0xE0 = 0x80 \<or> tos AND 0xE0 = 0xA0 then prio_4
                       else prio_6) = up_to_ac ! i"
    by (elim disjE) (simp_all add: word_unat_eq_iff up_to_ac_def qos_consts)
  with assms show ?thesis by (simp add: pkt_get_prio_def Let_def i_def)
qed

text \<open>
  With the default map and no category under admission control, a packet that is not
  802.1Q tagged goes to the category of its IP precedence, the upper three bits of the type of
  service, unless its DSCP is below 8. Then the DSCP itself is read as a precedence, so that
  DSCP 6, of precedence 0, is sent as voice.
\<close>

theorem default_map_classification:
  assumes "wmmac_inv s" and "g_qos_enable s = 1" and "no_admission_control s"
    and "g_11u_qos_map s = init_default_qos_map zero_qos_map"
    and "be16_at (tx_data skb) (off + 12) = Some ty" and "ty \<noteq> 0x8100"
    and "IP_TOS46 (tx_data skb) (off + 14) = Some tos"
    and "t = up_to_ac ! (if unat tos div 4 < 8 then unat tos div 4 else unat tos div 32)"
  shows "tx_classify s skb off len =
     Some (skb\<lparr>tx_priority := ucast (up_to_ac ! (unat tos div 32))\<rparr>, tid_map_to_qosindex t, t, s)"
proof -
  have "unat tos < 256" using unsigned_less [of tos] by simp
  then have "unat tos div 32 < 8" by simp
  moreover have "unat tos div 4 < 8 \<longleftrightarrow> unat tos < 32" by auto
  ultimately have "change_priority_if (up_to_ac ! (unat tos div 32)) tos len s = Some (tid_map_to_qosindex t, t, s)"
    using change_priority_default [OF assms(1-4)] assms(8) by simp
  moreover have "g_qos_enable s \<noteq> 0" using assms(2) by simp
  ultimately show ?thesis
    by (simp add: tx_classify_def get_tid_qosindex_def pkt_get_prio_ip [OF assms(5-7)])
qed

definition ex_ipv4 :: "u8 \<Rightarrow> tx_skb" where
  "ex_ipv4 tos = \<lparr>tx_data = replicate 12 0 @ [0x08, 0x00, 0x45, tos], tx_priority = 0\<rparr>"

lemma ex_qos_open: "no_admission_control ex_qos"
  by (auto simp: no_admission_control_def needs_admission_def ex_qos_def zero_ac_params_def NUM_AC_def)

theorem default_map_classification_witness:
  "tx_classify ex_qos (ex_ipv4 0x18) 0 60 = Some (ex_ipv4 0x18, SPRDWL_AC_VO, 6, ex_qos)"
proof -
  have b: "be16_at (tx_data (ex_ipv4 0x18)) (0 + 12) = Some 0x0800" by code_simp
  have i: "IP_TOS46 (tx_data (ex_ipv4 0x18)) (0 + 14) = Some 0x18" by code_simp
  have "up_to_ac ! 0 = 0" "up_to_ac ! 6 = 6" by (simp_all add: up_to_ac_def)
  then show ?thesis
    using default_map_classification [OF ex_qos_inv _ ex_qos_open _ b _ i refl, of 60]
    by (simp add: ex_qos_def ex_ipv4_def tid_map_to_qosindex_def qos_consts)
qed

text \<open>
  With the default map a frame with an 802.1Q tag is sent as best effort, whatever priority
  its tag has: the tag is only written to the buffer, the type of service is left at 0 and its
  mapping replaces the priority that was read.
\<close>

theorem vlan_priority_overridden:
  assumes "wmmac_inv s" and "g_qos_enable s = 1" and "no_admission_control s"
    and "g_11u_qos_map s = init_default_qos_map zero_qos_map"
    and "be16_at (tx_data skb) (off + 12) = Some 0x8100"
    and "be16_at (tx_data skb) (off + 14) = Some tag"
  shows "tx_classify s skb off len =
     Some (skb\<lparr>tx_priority := ucast (ucast (drop_bit 13 tag AND 7) :: u8)\<rparr>, SPRDWL_AC_BE, 0, s)"
proof -
  define p :: u8 where "p = ucast (drop_bit 13 tag AND 7)"
  have "change_priority_if p 0 len s = change_priority_if (up_to_ac ! 0) 0 len s"
    using change_priority_if_eq [OF assms(1,2)] default_map_tos [of 0] assms(4) by simp
  also have "\<dots> = Some (SPRDWL_AC_BE, 0, s)"
    using change_priority_default [OF assms(1-4), of 0 0 0 len]
    by (simp add: up_to_ac_def tid_map_to_qosindex_def qos_consts)
  finally have "change_priority_if p 0 len s = Some (SPRDWL_AC_BE, 0, s)" .
  moreover have "g_qos_enable s \<noteq> 0" using assms(2) by simp
  ultimately show ?thesis
    using assms(5,6)
    by (simp add: tx_classify_def get_tid_qosindex_def pkt_get_prio_def Let_def p_def)
qed

definition ex_vlan :: tx_skb where
  "ex_vlan = \<lparr>tx_data = replicate 12 0 @ [0x81, 0x00, 0xE0, 0x01, 0x08, 0x00], tx_priority = 0\<rparr>"

theorem vlan_priority_overridden_witness:
  "tx_classify ex_qos ex_vlan 0 60 = Some (ex_vlan\<lparr>tx_priority := 7\<rparr>, SPRDWL_AC_BE, 0, ex_qos)"
proof -
  have b: "be16_at (tx_data ex_vlan) (0 + 12) = Some 0x8100" by code_simp
  have i: "be16_at (tx_data ex_vlan) (0 + 14) = Some 0xE001" by code_simp
  have p: "(ucast (ucast (drop_bit 13 (0xE001 :: u16) AND 7) :: u8) :: u32) = 7" by code_simp
  show ?thesis
    using vlan_priority_overridden [OF ex_qos_inv _ ex_qos_open _ b i, of 60] unfolding p
    by (simp add: ex_qos_def)
qed

text \<open>
  Deleting a traffic stream takes nothing back: the command buffer it reads the time from
  was just cleared. The admitted time of the stream's category stays, however much the stream
  had been given, and the entry of the stream is cleared, so that later deletions of the same
  stream act on category 0.
\<close>

theorem del_tx_ts_keeps_admitted_time:
  assumes "wmmac_inv s" and "unat tsid < NUM_TID"
    and "ac = unat (ts_ac (g_sta_ts_info s ! unat tsid))" and "0 < g_wmmac_admittedtime s ! ac"
  shows "sprdwl_del_tx_ts k now True reply tsid s =
     Some (reply, s\<lparr>g_sta_ts_info := (g_sta_ts_info s)[unat tsid := zero_ts]\<rparr>)"
proof -
  have ac: "ac < NUM_AC" using assms(1,2) ts_consistent_nth unfolding assms(3) wmmac_inv_def by blast
  have c: "ac_consistent (g_wmmac_available s) (g_wmmac_usedtime s) (g_wmmac_admittedtime s)"
    and l: "length (g_sta_ts_info s) = NUM_TID"
    using assms(1) by (auto simp: wmmac_inv_def ts_consistent_def)
  have av: "(g_wmmac_available s)[ac := g_wmmac_usedtime s ! ac < g_wmmac_admittedtime s ! ac] = g_wmmac_available s"
    using c ac by (simp add: ac_consistent_def list_update_same_conv)
  have "update_admitted_time k now tsid 0 False s = Some s"
    using ac assms(2,4) l
    by (simp add: update_admitted_time_def Let_def assms(3) [symmetric] medium_us_def
        ac_consistent_lengths [OF c] set_available_def av)
  with l assms(2) show ?thesis by (simp add: sprdwl_del_tx_ts_def remove_wmmac_ts_info_def)
qed

definition ex_qos_ts :: qos_state where
  "ex_qos_ts = ex_qos\<lparr>g_sta_ts_info := (replicate NUM_TID zero_ts)[3 := zero_ts\<lparr>ts_exist := True, ts_ac := 3\<rparr>],
     g_wmmac_admittedtime := [0, 0, 0, 3200], g_wmmac_available := [False, False, False, True]\<rparr>"

lemma ex_qos_ts_inv: "wmmac_inv ex_qos_ts"
proof -
  have "ac_consistent [False, False, False, True] (replicate 4 0) [0, 0, 0, 3200]"
    unfolding ac_consistent_def
  proof (intro conjI allI impI)
    fix i assume "i < NUM_AC"
    then have "i = 0 \<or> i = 1 \<or> i = 2 \<or> i = 3" unfolding NUM_AC_def by linarith
    then show "[False, False, False, True] ! i = (replicate 4 0 ! i < ([0, 0, 0, 3200] :: u32 list) ! i)"
      by (elim disjE) simp_all
  qed (simp_all add: NUM_AC_def)
  moreover have "ts_consistent ((replicate NUM_TID zero_ts)[3 := zero_ts\<lparr>ts_exist := True, ts_ac := 3\<rparr>])"
    by (rule ts_consistent_update) (simp_all add: ts_consistent_def zero_ts_def NUM_AC_def)
  ultimately show ?thesis by (simp add: wmmac_inv_def ex_qos_ts_def ex_qos_def NUM_AC_def)
qed

theorem del_tx_ts_keeps_admitted_time_witness:
  "\<exists>s'. sprdwl_del_tx_ts ex_ktime 7 True 0 3 ex_qos_ts = Some (0, s') \<and> g_wmmac_admittedtime s' ! AC_VO = 3200"
proof -
  have ac: "3 = unat (ts_ac (g_sta_ts_info ex_qos_ts ! unat (3 :: u8)))"
    by (simp add: ex_qos_ts_def NUM_TID_def)
  have adm: "g_wmmac_admittedtime ex_qos_ts ! 3 = 3200" by (simp add: ex_qos_ts_def)
  have "sprdwl_del_tx_ts ex_ktime 7 True 0 3 ex_qos_ts =
      Some (0, ex_qos_ts\<lparr>g_sta_ts_info := (g_sta_ts_info ex_qos_ts)[unat (3 :: u8) := zero_ts]\<rparr>)"
    by (rule del_tx_ts_keeps_admitted_time [OF ex_qos_ts_inv _ ac]) (simp_all add: NUM_TID_def adm)
  then show ?thesis by (simp add: adm AC_VO_def)
qed

section \<open>The WMM element\<close>

definition encode_ie :: "u8 \<times> u8 list \<Rightarrow> u8 list" where
  "encode_ie e = fst e # of_nat (length (snd e)) # snd e"

definition encode_ies :: "(u8 \<times> u8 list) list \<Rightarrow> u8 list" where
  "encode_ies es = concat (map encode_ie es)"

lemma encode_ies_simps [simp]:
  "encode_ies [] = []" "encode_ies (e # es) = encode_ie e @ encode_ies es"
  "encode_ies (es @ fs) = encode_ies es @ encode_ies fs"
  by (simp_all add: encode_ies_def)

lemma length_encode_ie [simp]: "length (encode_ie e) = length (snd e) + 2"
  by (simp add: encode_ie_def)

lemma ie_bytes:
  "aget (A @ encode_ie (eid, b) @ R) (length A) = Some eid"
  "aget (A @ encode_ie (eid, b) @ R) (length A + 1) = Some (of_nat (length b))"
  "i < length b \<Longrightarrow> aget (A @ encode_ie (eid, b) @ R) (length A + (2 + i)) = Some (b ! i)"
  by (simp_all add: aget_def encode_ie_def nth_append)

lemma unat_ie_len: "length b < 256 \<Longrightarrow> unat (of_nat (length b) :: u8) = length b"
  by (simp add: unat_of_nat take_bit_nat_eq_self)

text \<open>An element with another id is skipped.\<close>

lemma wmm_ie_loop_skip:
  assumes "eid \<noteq> ie" and "length b < 256" and "length A + length b + 2 \<le> e"
  shows "wmm_ie_loop (A @ encode_ie (eid, b) @ R) e ie oui (length A) =
     wmm_ie_loop ((A @ encode_ie (eid, b)) @ R) e ie oui (length (A @ encode_ie (eid, b)))"
  using assms unat_ie_len [of b] ie_bytes(1,2) [of A eid b R]
  by (subst wmm_ie_loop.simps) (simp del: aget_Some)

lemma wmm_ie_loop_skips:
  assumes "\<forall>x \<in> set pre. fst x \<noteq> ie \<and> length (snd x) < 256" and "length A + length (encode_ies pre) \<le> e"
  shows "wmm_ie_loop (A @ encode_ies pre @ R) e ie oui (length A) =
     wmm_ie_loop (A @ encode_ies pre @ R) e ie oui (length A + length (encode_ies pre))"
  using assms
proof (induction pre arbitrary: A)
  case (Cons x pre)
  obtain eid b where x: "x = (eid, b)" by force
  from Cons.prems x have "wmm_ie_loop (A @ encode_ie (eid, b) @ encode_ies pre @ R) e ie oui (length A) =
     wmm_ie_loop ((A @ encode_ie (eid, b)) @ encode_ies pre @ R) e ie oui (length (A @ encode_ie (eid, b)))"
    by (intro wmm_ie_loop_skip) auto
  also have "\<dots> = wmm_ie_loop ((A @ encode_ie (eid, b)) @ encode_ies pre @ R) e ie oui
      (length (A @ encode_ie (eid, b)) + length (encode_ies pre))"
    using Cons.prems x by (intro Cons.IH) auto
  finally show ?case by (simp add: x add.assoc)
qed simp

lemma oui_bytes:
  "(push_bit 16 (ucast (a :: u8)) OR push_bit 8 (ucast (b :: u8)) OR ucast (c :: u8) :: u32) = OUI_MICROSOFT
     \<longleftrightarrow> a = 0 \<and> b = 0x50 \<and> c = 0xf2"
proof -
  define w :: u32 where "w = push_bit 16 (ucast a) OR push_bit 8 (ucast b) OR ucast c"
  have "ucast w = c" "ucast (drop_bit 8 w) = b" "ucast (drop_bit 16 w) = a"
    unfolding w_def by (rule bit_word_eqI; auto simp: bit_simps dest: bit_imp_le_length)+
  moreover have "ucast OUI_MICROSOFT = (0xf2 :: u8)" "ucast (drop_bit 8 OUI_MICROSOFT) = (0x50 :: u8)"
      "ucast (drop_bit 16 OUI_MICROSOFT) = (0 :: u8)"
    by code_simp+
  moreover have "(push_bit 16 (ucast (0 :: u8)) OR push_bit 8 (ucast (0x50 :: u8)) OR ucast (0xf2 :: u8) :: u32) = OUI_MICROSOFT"
    by code_simp
  ultimately show ?thesis unfolding w_def [symmetric] by (metis w_def)
qed

lemma wmm_ie_loop_hit:
  assumes "length b < 256" and "4 \<le> length b" and "length A + length b + 2 \<le> e"
  shows "wmm_ie_loop (A @ encode_ie (ie, b) @ R) e ie OUI_MICROSOFT (length A) =
     Some (if take 4 b = [0, 0x50, 0xf2, WMM_OUI_TYPE] then Some (length A + 2) else None)"
proof -
  obtain b0 b1 b2 b3 r where b: "b = b0 # b1 # b2 # b3 # r"
    using assms(2) by (auto simp: Suc_le_length_iff numeral_eq_Suc)
  note bytes = ie_bytes(1,2) [of A ie b R] ie_bytes(3) [of 0 b A ie R] ie_bytes(3) [of 1 b A ie R]
    ie_bytes(3) [of 2 b A ie R] ie_bytes(3) [of 3 b A ie R]
  have u: "unat (of_nat (length b) :: u8) = length b" using assms(1) by (rule unat_ie_len)
  have "oui_at (A @ encode_ie (ie, b) @ R) (length A) =
      Some (push_bit 16 (ucast b0) OR push_bit 8 (ucast b1) OR ucast b2)"
    using bytes by (simp add: oui_at_def b del: aget_Some)
  then show ?thesis
    using assms(3) bytes u
    by (subst wmm_ie_loop.simps) (auto simp: oui_bytes b simp del: aget_Some)
qed

lemma wmm_ie_loop_end: "wmm_ie_loop res e ie oui e = Some None"
  by (subst wmm_ie_loop.simps) simp

text \<open>
  On a well-formed list of elements the search decides on the first vendor specific one
  alone: it returns the position of its body when this starts with the Microsoft identifier and
  the WMM type, and nothing otherwise, also when a WMM element follows it; without a vendor
  specific element it returns nothing.
\<close>

theorem get_wmm_ie_first_vendor_element:
  assumes "\<forall>x \<in> set pre. fst x \<noteq> WLAN_EID_VENDOR_SPECIFIC \<and> length (snd x) < 256"
    and "4 \<le> length body" and "length body < 256"
    and "ies = pre @ (WLAN_EID_VENDOR_SPECIFIC, body) # post" and "length (encode_ies ies) < 2 ^ 16"
  shows "get_wmm_ie (encode_ies ies @ R) (of_nat (length (encode_ies ies))) WLAN_EID_VENDOR_SPECIFIC OUI_MICROSOFT
      = Some (if take 4 body = [0x00, 0x50, 0xf2, WMM_OUI_TYPE] then Some (length (encode_ies pre) + 2) else None)
    \<and> get_wmm_ie (encode_ies pre @ R) (of_nat (length (encode_ies pre))) WLAN_EID_VENDOR_SPECIFIC OUI_MICROSOFT
      = Some None"
proof (rule conjI)
  have len: "length (encode_ies pre) + length body + 2 \<le> length (encode_ies ies)" using assms(4) by simp
  have n: "unat (of_nat (length (encode_ies ies)) :: u16) = length (encode_ies ies)"
      "unat (of_nat (length (encode_ies pre)) :: u16) = length (encode_ies pre)"
    using assms(5) len by (simp_all add: unat_of_nat take_bit_nat_eq_self)
  show "get_wmm_ie (encode_ies ies @ R) (of_nat (length (encode_ies ies))) WLAN_EID_VENDOR_SPECIFIC OUI_MICROSOFT
      = Some (if take 4 body = [0x00, 0x50, 0xf2, WMM_OUI_TYPE] then Some (length (encode_ies pre) + 2) else None)"
    unfolding get_wmm_ie_def n(1)
    using wmm_ie_loop_skips [OF assms(1), of "[]" "length (encode_ies ies)"
        "encode_ie (WLAN_EID_VENDOR_SPECIFIC, body) @ encode_ies post @ R" OUI_MICROSOFT]
      wmm_ie_loop_hit [OF assms(3,2) len, of WLAN_EID_VENDOR_SPECIFIC "encode_ies post @ R"] assms(4)
    by simp
  show "get_wmm_ie (encode_ies pre @ R) (of_nat (length (encode_ies pre))) WLAN_EID_VENDOR_SPECIFIC OUI_MICROSOFT
      = Some None"
    unfolding get_wmm_ie_def n(2)
    using wmm_ie_loop_skips [OF assms(1), of "[]" "length (encode_ies pre)" R OUI_MICROSOFT]
    by (simp add: wmm_ie_loop_end)
qed

text \<open>A WMM element behind the element of another vendor is not found.\<close>

theorem get_wmm_ie_first_vendor_element_witness:
  "get_wmm_ie (encode_ies [(1, [2, 4]), (221, [0, 0x10, 0x18, 2]), (221, [0, 0x50, 0xf2, 2, 1])])
     17 WLAN_EID_VENDOR_SPECIFIC OUI_MICROSOFT = Some None"
  using get_wmm_ie_first_vendor_element [of "[(1, [2, 4])]" "[0, 0x10, 0x18, 2]" _
      "[(221, [0, 0x50, 0xf2, 2, 1])]" "[]", OF _ _ _ refl]
  by (simp add: WLAN_EID_VENDOR_SPECIFIC_def)

lemma short_vendor_element_overread:
  "get_wmm_ie (encode_ies [(221, [])]) 2 WLAN_EID_VENDOR_SPECIFIC OUI_MICROSOFT = None"
  by code_simp

end
