(* ===== verification/Msg_List.thy ===== *)
theory Msg_List
  imports Prelude
begin

text \<open>
  The lists of message buffers of WIFI/msg.c and WIFI/msg.h: a pool of free buffers, a queue
  of busy ones and the reference count by which the pool is closed. A buffer is its identity,
  a number. Operations that take their locks more than once are given by their parts, so that
  steps of other threads can come between; the functions of the file compose them.
\<close>

section \<open>State and operations\<close>

definition SPRDWL_MSG_EXIT_VAL :: int where "SPRDWL_MSG_EXIT_VAL = 0x8000"

record sprdwl_msg_list =
  freelist :: "nat list"
  busylist :: "nat list"
  cmd_to_free :: "nat list"
  maxnum :: int
  ml_ref :: int
  ml_flow :: int

text \<open>
  The allocation loop of \<open>sprdwl_msg_init\<close>: \<open>allocs\<close> are the results of the \<open>num\<close> calls of
  \<open>kzalloc\<close>. The first failure frees what was allocated, the second component.
\<close>

fun msg_init_loop :: "nat option list \<Rightarrow> nat list \<Rightarrow> (nat list + nat list)" where
  "msg_init_loop [] fl = Inr fl"
| "msg_init_loop (None # as) fl = Inl fl"
| "msg_init_loop (Some m # as) fl = msg_init_loop as (fl @ [m])"

definition sprdwl_msg_init :: "nat option list \<Rightarrow> int \<times> sprdwl_msg_list \<times> nat list" where
  "sprdwl_msg_init allocs =
     (let l = \<lparr>freelist = [], busylist = [], cmd_to_free = [], maxnum = int (length allocs),
               ml_ref = 0, ml_flow = 0\<rparr>
      in case msg_init_loop allocs [] of
           Inr fl \<Rightarrow> (0, l\<lparr>freelist := fl\<rparr>, [])
         | Inl freed \<Rightarrow> (- 12, l, freed))"

text \<open>
  \<open>sprdwl_alloc_msg_buf\<close> has three parts that other threads can come between: the increment of
  the reference count, the removal from the free list under its lock, and, when there is no
  buffer, the decrement. \<open>alloc_enter\<close> says whether the thread may go on.
\<close>

definition alloc_enter :: "sprdwl_msg_list \<Rightarrow> bool \<times> sprdwl_msg_list" where
  "alloc_enter l = (ml_ref l + 1 < SPRDWL_MSG_EXIT_VAL, l\<lparr>ml_ref := ml_ref l + 1\<rparr>)"

definition alloc_pop :: "sprdwl_msg_list \<Rightarrow> nat option \<times> sprdwl_msg_list" where
  "alloc_pop l = (case freelist l of [] \<Rightarrow> (None, l) | m # ms \<Rightarrow> (Some m, l\<lparr>freelist := ms\<rparr>))"

definition ref_dec :: "sprdwl_msg_list \<Rightarrow> sprdwl_msg_list" where
  "ref_dec l = l\<lparr>ml_ref := ml_ref l - 1\<rparr>"

definition sprdwl_alloc_msg_buf :: "sprdwl_msg_list \<Rightarrow> nat option \<times> sprdwl_msg_list" where
  "sprdwl_alloc_msg_buf l =
     (let (ok, l1) = alloc_enter l in
      if \<not> ok then (None, ref_dec l1)
      else let (m, l2) = alloc_pop l1 in
           (m, if m = None then ref_dec l2 else l2))"

definition sprdwl_free_msg_buf :: "nat \<Rightarrow> sprdwl_msg_list \<Rightarrow> sprdwl_msg_list" where
  "sprdwl_free_msg_buf m l = l\<lparr>freelist := freelist l @ [m], ml_ref := ml_ref l - 1\<rparr>"

definition sprdwl_queue_msg_buf :: "nat \<Rightarrow> sprdwl_msg_list \<Rightarrow> sprdwl_msg_list" where
  "sprdwl_queue_msg_buf m l = l\<lparr>busylist := busylist l @ [m]\<rparr>"

definition sprdwl_peek_msg_buf :: "sprdwl_msg_list \<Rightarrow> nat option" where
  "sprdwl_peek_msg_buf l = (case busylist l of [] \<Rightarrow> None | m # _ \<Rightarrow> Some m)"

definition sprdwl_get_tail_msg_buf :: "sprdwl_msg_list \<Rightarrow> nat option" where
  "sprdwl_get_tail_msg_buf l = (if busylist l = [] then None else Some (last (busylist l)))"

text \<open>\<open>list_del\<close> of a buffer that is not on the list would write through poisoned pointers.\<close>

definition busy_del :: "nat \<Rightarrow> sprdwl_msg_list \<Rightarrow> sprdwl_msg_list option" where
  "busy_del m l = (if m \<in> set (busylist l) then Some (l\<lparr>busylist := remove1 m (busylist l)\<rparr>) else None)"

definition sprdwl_dequeue_msg_buf :: "nat \<Rightarrow> sprdwl_msg_list \<Rightarrow> sprdwl_msg_list option" where
  "sprdwl_dequeue_msg_buf m l = do { l' \<leftarrow> busy_del m l; Some (sprdwl_free_msg_buf m l') }"

text \<open>\<open>tran_data\<close> gives the data pointer of each buffer.\<close>

fun find_by_data :: "(nat \<Rightarrow> nat) \<Rightarrow> nat \<Rightarrow> nat list \<Rightarrow> nat option" where
  "find_by_data tran_data d [] = None"
| "find_by_data tran_data d (m # ms) = (if d = tran_data m then Some m else find_by_data tran_data d ms)"

definition sprdwl_get_msgbuf_by_data ::
  "(nat \<Rightarrow> nat) \<Rightarrow> nat \<Rightarrow> sprdwl_msg_list \<Rightarrow> nat option \<times> sprdwl_msg_list" where
  "sprdwl_get_msgbuf_by_data tran_data d l =
     (case find_by_data tran_data d (busylist l) of
        None \<Rightarrow> (None, l)
      | Some m \<Rightarrow> (Some m, l\<lparr>busylist := remove1 m (busylist l)\<rparr>))"

definition sprdwl_msg_ref :: "sprdwl_msg_list \<Rightarrow> int" where
  "sprdwl_msg_ref l = ml_ref l"

definition sprdwl_msg_tx_pended :: "sprdwl_msg_list \<Rightarrow> bool" where
  "sprdwl_msg_tx_pended l \<longleftrightarrow> busylist l \<noteq> []"

text \<open>
  The two moves of a command buffer: off the busy list when it is given to the bus, and from
  \<open>cmd_to_free\<close> back to the pool (\<open>tx_msg.c\<close>).
\<close>

definition sprdwl_dequeue_cmd_buf :: "nat \<Rightarrow> sprdwl_msg_list \<Rightarrow> sprdwl_msg_list option" where
  "sprdwl_dequeue_cmd_buf m l = do {
     l' \<leftarrow> busy_del m l; Some (l'\<lparr>cmd_to_free := cmd_to_free l' @ [m]\<rparr>) }"

definition sprdwl_free_cmd_buf :: "nat \<Rightarrow> sprdwl_msg_list \<Rightarrow> sprdwl_msg_list option" where
  "sprdwl_free_cmd_buf m l =
     (if m \<in> set (cmd_to_free l)
      then Some (sprdwl_free_msg_buf m (l\<lparr>cmd_to_free := remove1 m (cmd_to_free l)\<rparr>)) else None)"

text \<open>
  \<open>sprdwl_msg_deinit\<close>: the exit value is added, then the loop polls the count until it is no
  larger than that or three seconds have passed, then the free list is released.
\<close>

definition deinit_begin :: "sprdwl_msg_list \<Rightarrow> sprdwl_msg_list" where
  "deinit_begin l = l\<lparr>ml_ref := ml_ref l + SPRDWL_MSG_EXIT_VAL\<rparr>"

definition deinit_quiet :: "sprdwl_msg_list \<Rightarrow> bool" where
  "deinit_quiet l \<longleftrightarrow> \<not> SPRDWL_MSG_EXIT_VAL < ml_ref l"

definition deinit_release :: "sprdwl_msg_list \<Rightarrow> nat list \<times> sprdwl_msg_list" where
  "deinit_release l = (freelist l, l\<lparr>freelist := []\<rparr>)"

text \<open>
  The loop body is run by a thread while others change the list: \<open>env\<close> gives the list at each
  poll, with the milliseconds passed.
\<close>

fun deinit_wait :: "(sprdwl_msg_list \<times> nat) list \<Rightarrow> sprdwl_msg_list \<Rightarrow> sprdwl_msg_list" where
  "deinit_wait [] l = l"
| "deinit_wait ((l', ms) # env) l =
     (if deinit_quiet l then l else if 3000 < ms then l else deinit_wait env l')"

definition sprdwl_msg_deinit ::
  "(sprdwl_msg_list \<times> nat) list \<Rightarrow> sprdwl_msg_list \<Rightarrow> nat list \<times> sprdwl_msg_list" where
  "sprdwl_msg_deinit env l = deinit_release (deinit_wait env (deinit_begin l))"

section \<open>Threads using the list\<close>

text \<open>
  The list with the threads around it: those between the increment and the removal, those about
  to take their increment back, the buffers callers hold, and the buffers given back to the
  kernel.
\<close>

record msg_sys =
  ms_list :: sprdwl_msg_list
  allocating :: nat
  bouncing :: nat
  held :: "nat multiset"
  exiting :: bool
  released :: "nat multiset"

inductive msg_step :: "msg_sys \<Rightarrow> msg_sys \<Rightarrow> bool" where
  enter: "alloc_enter (ms_list s) = (ok, l) \<Longrightarrow>
    msg_step s (if ok then s\<lparr>ms_list := l, allocating := allocating s + 1\<rparr>
                else s\<lparr>ms_list := l, bouncing := bouncing s + 1\<rparr>)"
| pop: "0 < allocating s \<Longrightarrow> alloc_pop (ms_list s) = (Some m, l) \<Longrightarrow>
    msg_step s (s\<lparr>ms_list := l, allocating := allocating s - 1, held := held s + {#m#}\<rparr>)"
| pop_empty: "0 < allocating s \<Longrightarrow> alloc_pop (ms_list s) = (None, l) \<Longrightarrow>
    msg_step s (s\<lparr>ms_list := l, allocating := allocating s - 1, bouncing := bouncing s + 1\<rparr>)"
| bounce: "0 < bouncing s \<Longrightarrow>
    msg_step s (s\<lparr>ms_list := ref_dec (ms_list s), bouncing := bouncing s - 1\<rparr>)"
| queue: "m \<in># held s \<Longrightarrow>
    msg_step s (s\<lparr>ms_list := sprdwl_queue_msg_buf m (ms_list s), held := held s - {#m#}\<rparr>)"
| unqueue: "busy_del m (ms_list s) = Some l \<Longrightarrow>
    msg_step s (s\<lparr>ms_list := l, held := held s + {#m#}\<rparr>)"
| take_data: "sprdwl_get_msgbuf_by_data td d (ms_list s) = (Some m, l) \<Longrightarrow>
    msg_step s (s\<lparr>ms_list := l, held := held s + {#m#}\<rparr>)"
| to_bus: "sprdwl_dequeue_cmd_buf m (ms_list s) = Some l \<Longrightarrow> msg_step s (s\<lparr>ms_list := l\<rparr>)"
| from_bus: "sprdwl_free_cmd_buf m (ms_list s) = Some l \<Longrightarrow> msg_step s (s\<lparr>ms_list := l\<rparr>)"
| free: "m \<in># held s \<Longrightarrow>
    msg_step s (s\<lparr>ms_list := sprdwl_free_msg_buf m (ms_list s), held := held s - {#m#}\<rparr>)"
| exit: "\<not> exiting s \<Longrightarrow> msg_step s (s\<lparr>ms_list := deinit_begin (ms_list s), exiting := True\<rparr>)"
| release: "exiting s \<Longrightarrow> deinit_release (ms_list s) = (ms, l) \<Longrightarrow>
    msg_step s (s\<lparr>ms_list := l, released := released s + mset ms\<rparr>)"

end
