(* ===== verification/Msg_List_Correct.thy ===== *)
theory Msg_List_Correct
  imports Msg_List
begin

text \<open>
  The message pool under concurrent use: the reference count equals the buffers and threads
  outside the free list, and closing the pool releases every buffer.
\<close>

section \<open>Reference count and ownership\<close>

definition refs_out :: "msg_sys \<Rightarrow> nat" where
  "refs_out s = allocating s + bouncing s + size (held s) + length (busylist (ms_list s)) +
     length (cmd_to_free (ms_list s))"

definition all_bufs :: "msg_sys \<Rightarrow> nat multiset" where
  "all_bufs s = mset (freelist (ms_list s)) + mset (busylist (ms_list s)) +
     mset (cmd_to_free (ms_list s)) + held s + released s"

definition msg_inv :: "nat multiset \<Rightarrow> msg_sys \<Rightarrow> bool" where
  "msg_inv B s \<longleftrightarrow> all_bufs s = B \<and>
     ml_ref (ms_list s) = (if exiting s then SPRDWL_MSG_EXIT_VAL else 0) + int (refs_out s)"

lemma remove1_split:
  assumes "m \<in> set xs"
  shows "\<exists>A C. xs = A @ m # C \<and> remove1 m xs = A @ C"
proof -
  obtain A C where "xs = A @ m # C" "m \<notin> set A" using split_list_first [OF assms] by blast
  then show ?thesis by (auto simp: remove1_append)
qed

lemma find_by_data_mem: "find_by_data td d ms = Some m \<Longrightarrow> m \<in> set ms"
  by (induction ms) (auto split: if_splits)

lemmas msg_defs = refs_out_def all_bufs_def msg_inv_def

lemma msg_step_inv:
  assumes "msg_step s s'" and "msg_inv B s"
  shows "msg_inv B s'"
  using assms
proof (induction rule: msg_step.induct)
  case (enter s ok l)
  then show ?case by (auto simp: msg_defs alloc_enter_def)
next
  case (pop s m l)
  then show ?case by (auto simp: msg_defs alloc_pop_def split: list.splits)
next
  case (pop_empty s l)
  then show ?case by (auto simp: msg_defs alloc_pop_def split: list.splits)
next
  case (bounce s)
  then show ?case by (auto simp: msg_defs ref_dec_def)
next
  case (queue m s)
  then obtain H where "held s = add_mset m H" by (meson multi_member_split)
  with queue show ?case by (simp add: msg_defs sprdwl_queue_msg_buf_def)
next
  case (unqueue m s l)
  then have "m \<in> set (busylist (ms_list s))" by (simp add: busy_del_def split: if_splits)
  then obtain A C where "busylist (ms_list s) = A @ m # C" "remove1 m (busylist (ms_list s)) = A @ C"
    using remove1_split by metis
  with unqueue show ?case by (auto simp: msg_defs busy_del_def)
next
  case (take_data td d s m l)
  then have "m \<in> set (busylist (ms_list s))"
    by (auto simp: sprdwl_get_msgbuf_by_data_def dest: find_by_data_mem split: option.splits)
  then obtain A C where "busylist (ms_list s) = A @ m # C" "remove1 m (busylist (ms_list s)) = A @ C"
    using remove1_split by metis
  with take_data show ?case
    by (auto simp: msg_defs sprdwl_get_msgbuf_by_data_def split: option.splits)
next
  case (to_bus m s l)
  then have "m \<in> set (busylist (ms_list s))"
    by (simp add: sprdwl_dequeue_cmd_buf_def busy_del_def split: if_splits)
  then obtain A C where "busylist (ms_list s) = A @ m # C" "remove1 m (busylist (ms_list s)) = A @ C"
    using remove1_split by metis
  with to_bus show ?case
    by (auto simp: msg_defs sprdwl_dequeue_cmd_buf_def busy_del_def)
next
  case (from_bus m s l)
  then have "m \<in> set (cmd_to_free (ms_list s))" by (simp add: sprdwl_free_cmd_buf_def split: if_splits)
  then obtain A C where "cmd_to_free (ms_list s) = A @ m # C" "remove1 m (cmd_to_free (ms_list s)) = A @ C"
    using remove1_split by metis
  with from_bus show ?case
    by (auto simp: msg_defs sprdwl_free_cmd_buf_def sprdwl_free_msg_buf_def)
next
  case (free m s)
  then obtain H where "held s = add_mset m H" by (meson multi_member_split)
  with free show ?case by (simp add: msg_defs sprdwl_free_msg_buf_def)
next
  case (exit s)
  then show ?case by (auto simp: msg_defs deinit_begin_def)
next
  case (release s ms l)
  then show ?case by (auto simp: msg_defs deinit_release_def ac_simps)
qed


definition msg_start :: "sprdwl_msg_list \<Rightarrow> msg_sys" where
  "msg_start l = \<lparr>ms_list = l, allocating = 0, bouncing = 0, held = {#}, exiting = False, released = {#}\<rparr>"

lemma msg_init_loop_Some: "msg_init_loop (map Some ms) fl = Inr (fl @ ms)"
  by (induction ms arbitrary: fl) auto

lemma msg_init_ok:
  "sprdwl_msg_init (map Some ms) =
     (0, \<lparr>freelist = ms, busylist = [], cmd_to_free = [], maxnum = int (length ms), ml_ref = 0, ml_flow = 0\<rparr>, [])"
  by (simp add: sprdwl_msg_init_def msg_init_loop_Some)

lemma msg_start_inv:
  assumes "sprdwl_msg_init (map Some ms) = (r, l, fr)"
  shows "msg_inv (mset ms) (msg_start l)"
  using assms by (auto simp: msg_init_ok msg_start_def msg_defs)

lemma msg_steps_inv: "msg_step\<^sup>*\<^sup>* s s' \<Longrightarrow> msg_inv B s \<Longrightarrow> msg_inv B s'"
  by (induction rule: rtranclp_induct) (auto intro: msg_step_inv)

definition closed :: "msg_sys \<Rightarrow> bool" where
  "closed s \<longleftrightarrow> exiting s \<and> allocating s = 0 \<and> held s = {#} \<and>
     busylist (ms_list s) = [] \<and> cmd_to_free (ms_list s) = [] \<and> SPRDWL_MSG_EXIT_VAL \<le> ml_ref (ms_list s)"

lemma closed_step:
  assumes "msg_step s s'" and "closed s" and "msg_inv B s"
  shows "closed s'"
  using assms
proof (cases rule: msg_step.cases)
  case (bounce)
  then show ?thesis using assms(2,3) by (auto simp: closed_def ref_dec_def msg_defs)
qed (auto simp: closed_def alloc_enter_def busy_del_def sprdwl_get_msgbuf_by_data_def
    sprdwl_dequeue_cmd_buf_def sprdwl_free_cmd_buf_def deinit_release_def)

lemma closed_steps: "msg_step\<^sup>*\<^sup>* s s' \<Longrightarrow> closed s \<Longrightarrow> msg_inv B s \<Longrightarrow> closed s'"
proof (induction rule: rtranclp_induct)
  case (step t u)
  then show ?case using closed_step msg_steps_inv by blast
qed

lemma quiet_closed:
  assumes "msg_inv B s" and "exiting s" and "deinit_quiet (ms_list s)"
  shows "closed s"
proof -
  have "refs_out s = 0" using assms by (simp add: msg_inv_def deinit_quiet_def)
  with assms show ?thesis by (simp add: refs_out_def msg_inv_def closed_def)
qed

text \<open>
  C22. When the count seen by \<open>sprdwl_msg_deinit\<close> is down to the exit value, whatever other threads
  did before, no caller holds a buffer and none is queued: the free list it releases has every
  buffer of the pool that was not released yet, each once. From then on no thread gets a buffer.
\<close>

theorem msg_pool_closes_completely:
  assumes "sprdwl_msg_init (map Some ms) = (r, l, fr)" and "msg_step\<^sup>*\<^sup>* (msg_start l) s"
    and "exiting s" and "deinit_quiet (ms_list s)"
  shows "mset (fst (deinit_release (ms_list s))) + released s = mset ms \<and>
     (\<forall>s'. msg_step\<^sup>*\<^sup>* s s' \<longrightarrow> held s' = {#} \<and> busylist (ms_list s') = [])"
proof -
  have inv: "msg_inv (mset ms) s" using msg_steps_inv [OF assms(2) msg_start_inv [OF assms(1)]] .
  with assms(3,4) have c: "closed s" by (intro quiet_closed)
  with inv have "mset (fst (deinit_release (ms_list s))) + released s = mset ms"
    by (simp add: msg_defs closed_def deinit_release_def)
  with closed_steps [OF _ c inv] show ?thesis by (simp add: closed_def)
qed

theorem msg_pool_closes_completely_witness:
  "mset (fst (deinit_release (deinit_begin (fst (snd (sprdwl_msg_init (map Some [7, 8]))))))) = {#7, 8#}"
proof -
  define l where "l = fst (snd (sprdwl_msg_init (map Some [7, 8])))"
  have l: "sprdwl_msg_init (map Some [7, 8]) = (0, l, [])" unfolding l_def msg_init_ok by simp
  define s where "s = (msg_start l)\<lparr>ms_list := deinit_begin l, exiting := True\<rparr>"
  have "msg_step (msg_start l) s"
    using msg_step.exit [of "msg_start l"] by (simp add: msg_start_def s_def)
  then have reach: "msg_step\<^sup>*\<^sup>* (msg_start l) s" by (rule r_into_rtranclp)
  have q: "exiting s" "deinit_quiet (ms_list s)"
    using l [unfolded msg_init_ok] by (auto simp: s_def deinit_quiet_def deinit_begin_def)
  show ?thesis
    using msg_pool_closes_completely [OF l reach q] by (simp add: s_def msg_start_def l_def)
qed

end
