(* ===== verification/Tx_Credit.thy ===== *)
theory Tx_Credit
  imports Msg_List Qos
begin

text \<open>
  Transmit credits of WIFI/tx_msg.c: the firmware grants credits in four colours, a mode owns
  a colour or shares the unowned ones, and every packet given to the bus takes one. The
  message pools of the transmit side are here too. The counters that only feed the log are
  left out.
\<close>

section \<open>State\<close>

definition MAX_COLOR_BIT :: nat where "MAX_COLOR_BIT = 4"
definition SPRDWL_INTF_CLOSE :: u8 where "SPRDWL_INTF_CLOSE = 0"
definition SPRDWL_TX_QOS_POOL_SIZE :: int where "SPRDWL_TX_QOS_POOL_SIZE = 20000"
definition SPRDWL_TX_DATA_START_NUM :: int where
  "SPRDWL_TX_DATA_START_NUM = SPRDWL_TX_QOS_POOL_SIZE - 3"

datatype sprdwl_hw_type = SPRDWL_HW_SIPC | SPRDWL_HW_SDIO | SPRDWL_HW_PCIE | SPRDWL_HW_USB

record sprdwl_flow_control =
  fc_mode :: sprdwl_mode
  fc_color_bit :: u8
  fc_flow :: int

text \<open>
  The fields of \<open>struct sprdwl_tx_msg\<close> that belong to the credits and the pools. \<open>net_on\<close> is what
  the last call of \<open>sprdwl_net_flowcontrl\<close> told the network stack.
\<close>

record sprdwl_tx_msg =
  flow_ctrl :: "sprdwl_flow_control list"
  color_num :: "u8 list"
  ring_cp :: u64
  ring_ap :: u64
  net_stop_cnt :: u64
  net_start_cnt :: u64
  net_on :: bool
  tx_list_cmd :: sprdwl_msg_list
  tx_list_qos_pool :: sprdwl_msg_list

text \<open>What the functions read of \<open>struct sprdwl_priv\<close>.\<close>

record tx_priv =
  hw_type :: sprdwl_hw_type
  no_credit :: bool
  fw_stat :: "sprdwl_mode \<Rightarrow> u8"

text \<open>Reading an \<open>atomic_t\<close> into an \<open>unsigned int\<close>, and storing an \<open>unsigned int\<close> in an \<open>int\<close>.\<close>

definition as_unsigned :: "int \<Rightarrow> int" where
  "as_unsigned x = x mod 2 ^ 32"

definition as_int :: "int \<Rightarrow> int" where
  "as_int x = signed_take_bit 31 x"

section \<open>Message buffers for commands and data\<close>

definition grow_pool :: "nat \<Rightarrow> sprdwl_msg_list \<Rightarrow> sprdwl_msg_list" where
  "grow_pool m l = l\<lparr>freelist := freelist l @ [m], maxnum := maxnum l + 1\<rparr>"

definition sprdwl_get_msg_buf ::
  "bool \<Rightarrow> nat option \<Rightarrow> bool \<Rightarrow> sprdwl_tx_msg \<Rightarrow> nat option \<times> sprdwl_tx_msg" where
  "sprdwl_get_msg_buf dev_exit kzalloc is_data tx =
     (if dev_exit then (None, tx)
      else if \<not> is_data then
        (let (m, l) = sprdwl_alloc_msg_buf (tx_list_cmd tx) in (m, tx\<lparr>tx_list_cmd := l\<rparr>))
      else
        (let l0 = tx_list_qos_pool tx;
             (m, l) = (if SPRDWL_TX_QOS_POOL_SIZE * 8 div 10 < ml_ref l0 then
                         (case kzalloc of
                            Some b \<Rightarrow> sprdwl_alloc_msg_buf (grow_pool b l0)
                          | None \<Rightarrow> (None, l0))
                       else sprdwl_alloc_msg_buf l0)
         in case m of
              Some b \<Rightarrow> (Some b, tx\<lparr>tx_list_qos_pool := l\<rparr>)
            | None \<Rightarrow> (None, tx\<lparr>tx_list_qos_pool := l\<lparr>ml_flow := 1\<rparr>,
                                net_stop_cnt := net_stop_cnt tx + 1, net_on := False\<rparr>)))"

definition sprdwl_wake_net_ifneed :: "sprdwl_tx_msg \<Rightarrow> sprdwl_tx_msg" where
  "sprdwl_wake_net_ifneed tx =
     (let l = tx_list_qos_pool tx in
      if ml_flow l \<noteq> 0 \<and> ml_ref l \<le> SPRDWL_TX_DATA_START_NUM
      then tx\<lparr>tx_list_qos_pool := l\<lparr>ml_flow := 0\<rparr>, net_start_cnt := net_start_cnt tx + 1, net_on := True\<rparr>
      else tx)"

section \<open>Colours of credit\<close>

fun first_mode :: "sprdwl_flow_control list \<Rightarrow> sprdwl_mode \<Rightarrow> nat option" where
  "first_mode [] m = None"
| "first_mode (f # fs) m = (if fc_mode f = m then Some 0 else map_option Suc (first_mode fs m))"

definition clear_closed :: "tx_priv \<Rightarrow> sprdwl_flow_control \<Rightarrow> sprdwl_flow_control" where
  "clear_closed priv f =
     (if fc_mode f \<noteq> SPRDWL_MODE_NONE \<and> fw_stat priv (fc_mode f) = SPRDWL_INTF_CLOSE
      then f\<lparr>fc_mode := SPRDWL_MODE_NONE\<rparr> else f)"

definition sprdwl_fc_find_color_per_mode ::
  "tx_priv \<Rightarrow> sprdwl_mode \<Rightarrow> sprdwl_tx_msg \<Rightarrow> nat option \<times> sprdwl_tx_msg" where
  "sprdwl_fc_find_color_per_mode priv mode tx =
     (case first_mode (flow_ctrl tx) mode of
        Some i \<Rightarrow> (Some i, tx)
      | None \<Rightarrow>
          (let fs = map (clear_closed priv) (flow_ctrl tx) in
           case first_mode fs SPRDWL_MODE_NONE of
             Some i \<Rightarrow> (Some i, tx\<lparr>flow_ctrl := fs[i := (fs ! i)\<lparr>fc_mode := mode, fc_color_bit := of_nat i\<rparr>]\<rparr>)
           | None \<Rightarrow> (None, tx\<lparr>flow_ctrl := fs\<rparr>)))"

text \<open>
  The loop of \<open>sprdwl_fc_get_shared_num\<close> from colour \<open>i\<close> on: the comparison is of unsigned numbers.
\<close>

fun shared_loop :: "sprdwl_flow_control list \<Rightarrow> nat \<Rightarrow> int \<Rightarrow> int \<Rightarrow> u8 list \<Rightarrow> int \<times> u8 list" where
  "shared_loop [] i num shared cn = (shared, cn)"
| "shared_loop (f # fs) i num shared cn =
     (let color_flow = as_unsigned (fc_flow f) in
      if fc_mode f = SPRDWL_MODE_NONE \<and> color_flow \<noteq> 0 then
        (if as_unsigned (num - shared) \<le> color_flow
         then (shared + (num - shared), cn[i := of_int (num - shared)])
         else shared_loop fs (i + 1) num (as_int (shared + color_flow)) (cn[i := of_int color_flow]))
      else shared_loop fs (i + 1) num shared cn)"

definition sprdwl_fc_get_shared_num :: "u8 \<Rightarrow> sprdwl_tx_msg \<Rightarrow> int \<times> sprdwl_tx_msg" where
  "sprdwl_fc_get_shared_num num tx =
     (let (n, cn) = shared_loop (flow_ctrl tx) 0 (uint num) 0 (color_num tx)
      in (n, tx\<lparr>color_num := cn\<rparr>))"

text \<open>\<open>-ENOMEM\<close> is -12.\<close>

definition sprdwl_fc_get_send_num ::
  "tx_priv \<Rightarrow> sprdwl_mode \<Rightarrow> int \<Rightarrow> sprdwl_tx_msg \<Rightarrow> int \<times> sprdwl_tx_msg" where
  "sprdwl_fc_get_send_num priv mode data_num0 tx =
     (if data_num0 \<le> 0 \<or> mode = SPRDWL_MODE_NONE then (0, tx)
      else if hw_type priv = SPRDWL_HW_PCIE then (data_num0, tx)
      else let data_num = (if 100 < data_num0 then 100 else data_num0) in
      if no_credit priv then (data_num, tx)
      else let tx1 = tx\<lparr>color_num := replicate MAX_COLOR_BIT 0\<rparr> in
      case sprdwl_fc_find_color_per_mode priv mode tx1 of
        (None, tx2) \<Rightarrow> (- 12, tx2)
      | (Some i, tx2) \<Rightarrow>
          (let excusive = fc_flow (flow_ctrl tx2 ! i);
               (send_num, tx3) =
                 (if data_num \<le> excusive
                  then (data_num, tx2\<lparr>color_num := (color_num tx2)[i := of_int data_num]\<rparr>)
                  else let (shared, tx') = sprdwl_fc_get_shared_num (of_int (data_num - excusive)) tx2
                       in (excusive + shared, tx'\<lparr>color_num := (color_num tx')[i := of_int excusive]\<rparr>))
           in if send_num \<le> 0 then (- 12, tx3) else (send_num, tx3)))"

fun test_shared_loop :: "sprdwl_flow_control list \<Rightarrow> int \<Rightarrow> int" where
  "test_shared_loop [] shared = shared"
| "test_shared_loop (f # fs) shared =
     test_shared_loop fs
       (if fc_mode f = SPRDWL_MODE_NONE \<and> as_unsigned (fc_flow f) \<noteq> 0
        then as_int (shared + as_unsigned (fc_flow f)) else shared)"

definition sprdwl_fc_test_shared_num :: "sprdwl_tx_msg \<Rightarrow> int" where
  "sprdwl_fc_test_shared_num tx = test_shared_loop (flow_ctrl tx) 0"

definition sprdwl_fc_test_send_num ::
  "tx_priv \<Rightarrow> sprdwl_mode \<Rightarrow> int \<Rightarrow> sprdwl_tx_msg \<Rightarrow> int \<times> sprdwl_tx_msg" where
  "sprdwl_fc_test_send_num priv mode data_num0 tx =
     (if data_num0 \<le> 0 \<or> mode = SPRDWL_MODE_NONE then (0, tx)
      else if hw_type priv = SPRDWL_HW_PCIE then (data_num0, tx)
      else let data_num = (if 100 < data_num0 then 100 else data_num0) in
      if no_credit priv then (data_num, tx)
      else case sprdwl_fc_find_color_per_mode priv mode tx of
        (None, tx2) \<Rightarrow> (- 12, tx2)
      | (Some i, tx2) \<Rightarrow>
          (let send_num = as_int (fc_flow (flow_ctrl tx2 ! i) + sprdwl_fc_test_shared_num tx2)
           in if send_num \<le> 0 then (- 12, tx2) else (min send_num data_num, tx2)))"

text \<open>The colour of the \<open>num\<close>-th packet that is sent.\<close>

fun color_loop :: "u8 list \<Rightarrow> nat \<Rightarrow> int \<Rightarrow> int \<Rightarrow> nat" where
  "color_loop [] i num cnt = i"
| "color_loop (c # cs) i num cnt =
     (if num \<le> cnt + uint c then i else color_loop cs (i + 1) num (cnt + uint c))"

definition sprdwl_fc_set_clor_bit :: "tx_priv \<Rightarrow> int \<Rightarrow> sprdwl_tx_msg \<Rightarrow> nat" where
  "sprdwl_fc_set_clor_bit priv num tx = (if no_credit priv then 0 else color_loop (color_num tx) 0 num 0)"

text \<open>After the packets were given to the bus; \<open>ret\<close> is what \<open>sprdwl_intf_tx_list\<close> returned.\<close>

definition take_credit :: "sprdwl_flow_control \<Rightarrow> u8 \<Rightarrow> sprdwl_flow_control" where
  "take_credit f c = (if c = 0 then f else f\<lparr>fc_flow := fc_flow f - uint c\<rparr>)"

definition sprdwl_handle_tx_return :: "tx_priv \<Rightarrow> int \<Rightarrow> int \<Rightarrow> sprdwl_tx_msg \<Rightarrow> sprdwl_tx_msg" where
  "sprdwl_handle_tx_return priv send_num ret tx =
     (if ret \<noteq> 0 then tx\<lparr>color_num := replicate MAX_COLOR_BIT 0\<rparr>
      else
        let l = tx_list_qos_pool tx;
            tx1 = sprdwl_wake_net_ifneed (tx\<lparr>ring_ap := ring_ap tx + of_int send_num,
                    tx_list_qos_pool := l\<lparr>ml_ref := ml_ref l - send_num\<rparr>\<rparr>)
        in if no_credit priv then tx1
           else tx1\<lparr>flow_ctrl := map2 take_credit (flow_ctrl tx1) (color_num tx1)\<rparr>)"

section \<open>Credits from the firmware\<close>

definition SPRDWL_TYPE_EVENT :: u8 where "SPRDWL_TYPE_EVENT = 1"
definition SPRDWL_TYPE_DATA_SPECIAL :: u8 where "SPRDWL_TYPE_DATA_SPECIAL = 3"
definition WIFI_EVENT_SDIO_FLOWCON :: u8 where "WIFI_EVENT_SDIO_FLOWCON = 0xB3"

text \<open>
  Where the four credit bytes are: in the last word of a data descriptor, or in the payload of
  the flow control event, behind a header of twelve bytes. The result is their position and the
  value to return, \<open>Inr\<close>, or the value of an early return, \<open>Inl\<close>.
\<close>

definition credit_pos :: "tx_priv \<Rightarrow> u8 list \<Rightarrow> (int + nat \<times> int) option" where
  "credit_pos priv d = do {
     b \<leftarrow> aget d 0;
     let ty = b AND 7;
     if ty = SPRDWL_TYPE_DATA_SPECIAL then
       Some (if hw_type priv = SPRDWL_HW_USB then Inl (- 2) else Inr (24, 0))
     else if ty = SPRDWL_TYPE_EVENT then do {
       cmd_id \<leftarrow> aget d 1;
       Some (if cmd_id = WIFI_EVENT_SDIO_FLOWCON then Inr (12, - 1) else Inl 0) }
     else Some (Inl 0) }"

definition add_credit :: "u8 list \<Rightarrow> sprdwl_tx_msg \<Rightarrow> sprdwl_tx_msg" where
  "add_credit fl tx =
     tx\<lparr>flow_ctrl := map2 (\<lambda>f c. f\<lparr>fc_flow := fc_flow f + uint c\<rparr>) (flow_ctrl tx) fl,
        ring_cp := ring_cp tx + of_int (sum_list (map uint fl))\<rparr>"

fun reset_credit_loop :: "sprdwl_flow_control list \<Rightarrow> u64 \<Rightarrow> sprdwl_flow_control list \<times> u64" where
  "reset_credit_loop [] cp = ([], cp)"
| "reset_credit_loop (f # fs) cp =
     (let (fs', cp') = reset_credit_loop fs (if cp \<noteq> 0 then cp - of_int (fc_flow f) else cp)
      in (f\<lparr>fc_flow := 0\<rparr> # fs', cp'))"

definition reset_credit :: "sprdwl_tx_msg \<Rightarrow> sprdwl_tx_msg" where
  "reset_credit tx =
     (let (fs, cp) = reset_credit_loop (flow_ctrl tx) (ring_cp tx)
      in tx\<lparr>flow_ctrl := fs, ring_cp := cp, color_num := replicate MAX_COLOR_BIT 0\<rparr>)"

definition sprdwl_sdio_process_credit ::
  "tx_priv \<Rightarrow> u8 list \<Rightarrow> sprdwl_tx_msg \<Rightarrow> (int \<times> sprdwl_tx_msg) option" where
  "sprdwl_sdio_process_credit priv d tx = do {
     p \<leftarrow> credit_pos priv d;
     (case p of
        Inl r \<Rightarrow> Some (r, tx)
      | Inr (pos, ret) \<Rightarrow> do {
          fl \<leftarrow> read_bytes d pos 4;
          let tx' = add_credit fl tx;
          Some (ret, if sum_list (map uint fl) = 0 \<and> ret = - 1 then reset_credit tx' else tx') }) }"

text \<open>The first colour of a closed mode is given back.\<close>

definition sprdwl_fc_add_share_credit :: "sprdwl_mode \<Rightarrow> sprdwl_tx_msg \<Rightarrow> sprdwl_tx_msg" where
  "sprdwl_fc_add_share_credit mode tx =
     (case first_mode (flow_ctrl tx) mode of
        None \<Rightarrow> tx
      | Some i \<Rightarrow> tx\<lparr>flow_ctrl := (flow_ctrl tx)[i := (flow_ctrl tx ! i)\<lparr>fc_mode := SPRDWL_MODE_NONE\<rparr>]\<rparr>)"

end
