(* ===== verification/Tx_Credit_Correct.thy ===== *)
theory Tx_Credit_Correct
  imports Tx_Credit
begin

text \<open>
  Correctness of the transmit credits: a reservation never exceeds the credits of the colours
  it uses, the test before sending agrees with the reservation, packets are marked with the
  colour their credit came from, and no more packets are sent than credits were granted.
\<close>

section \<open>Well-formed credit state\<close>

definition flow_sum :: "sprdwl_flow_control list \<Rightarrow> int" where
  "flow_sum fs = sum_list (map fc_flow fs)"

definition shared_sum :: "sprdwl_flow_control list \<Rightarrow> int" where
  "shared_sum fs = sum_list (map (\<lambda>f. if fc_mode f = SPRDWL_MODE_NONE then fc_flow f else 0) fs)"

definition flows_ok :: "sprdwl_flow_control list \<Rightarrow> bool" where
  "flows_ok fs \<longleftrightarrow> (\<forall>f \<in> set fs. 0 \<le> fc_flow f) \<and> flow_sum fs < 2 ^ 31"

definition credit_inv :: "sprdwl_tx_msg \<Rightarrow> bool" where
  "credit_inv tx \<longleftrightarrow> length (flow_ctrl tx) = MAX_COLOR_BIT \<and> length (color_num tx) = MAX_COLOR_BIT \<and>
     flows_ok (flow_ctrl tx)"

lemma as_unsigned_id: "0 \<le> x \<Longrightarrow> x < 2 ^ 32 \<Longrightarrow> as_unsigned x = x"
  by (simp add: as_unsigned_def)

lemma as_int_id: "- (2 ^ 31) \<le> x \<Longrightarrow> x < 2 ^ 31 \<Longrightarrow> as_int x = x"
  by (simp add: as_int_def signed_take_bit_int_eq_self)

lemma flow_sum_nonneg: "\<forall>f \<in> set fs. 0 \<le> fc_flow f \<Longrightarrow> 0 \<le> flow_sum fs"
  by (induction fs) (auto simp: flow_sum_def)

lemma shared_sum_bounds:
  "\<forall>f \<in> set fs. 0 \<le> fc_flow f \<Longrightarrow> 0 \<le> shared_sum fs \<and> shared_sum fs \<le> flow_sum fs"
  by (induction fs) (auto simp: shared_sum_def flow_sum_def)

lemma flows_ok_Cons:
  assumes "flows_ok (f # fs)"
  shows "flows_ok fs" and "0 \<le> fc_flow f" and "fc_flow f + flow_sum fs < 2 ^ 31"
    and "fc_flow f < 2 ^ 31" and "as_unsigned (fc_flow f) = fc_flow f"
proof -
  have *: "\<forall>g \<in> set (f # fs). 0 \<le> fc_flow g" "fc_flow f + flow_sum fs < 2 ^ 31"
    using assms by (auto simp: flows_ok_def flow_sum_def)
  moreover have "0 \<le> flow_sum fs" using * by (intro flow_sum_nonneg) simp
  ultimately show "flows_ok fs" "0 \<le> fc_flow f" "fc_flow f + flow_sum fs < 2 ^ 31" "fc_flow f < 2 ^ 31"
    by (auto simp: flows_ok_def)
  then show "as_unsigned (fc_flow f) = fc_flow f" by (intro as_unsigned_id) simp_all
qed

section \<open>Granting shared credits\<close>

text \<open>What the loop over the colours grants, without the arithmetic of machine integers.\<close>

fun grants :: "sprdwl_flow_control list \<Rightarrow> int \<Rightarrow> int list" where
  "grants [] need = []"
| "grants (f # fs) need =
     (let g = (if fc_mode f = SPRDWL_MODE_NONE then min need (fc_flow f) else 0)
      in g # grants fs (need - g))"

lemma length_grants [simp]: "length (grants fs need) = length fs"
  by (induction fs arbitrary: need) (auto simp: Let_def)

lemma grants_sum:
  assumes "\<forall>f \<in> set fs. 0 \<le> fc_flow f" and "0 \<le> need"
  shows "sum_list (grants fs need) = min need (shared_sum fs)"
  using assms
proof (induction fs arbitrary: need)
  case Nil
  then show ?case by (simp add: shared_sum_def)
next
  case (Cons f fs)
  from Cons.prems have "0 \<le> shared_sum fs" using shared_sum_bounds by simp
  with Cons show ?case by (simp add: shared_sum_def Let_def min_def)
qed

lemma grants_bounds:
  assumes "\<forall>f \<in> set fs. 0 \<le> fc_flow f" and "0 \<le> need" and "i < length fs"
  shows "0 \<le> grants fs need ! i" and "grants fs need ! i \<le> need" and "grants fs need ! i \<le> fc_flow (fs ! i)"
    and "fc_mode (fs ! i) \<noteq> SPRDWL_MODE_NONE \<Longrightarrow> grants fs need ! i = 0"
proof -
  have "0 \<le> grants fs need ! i \<and> grants fs need ! i \<le> need \<and> grants fs need ! i \<le> fc_flow (fs ! i) \<and>
    (fc_mode (fs ! i) \<noteq> SPRDWL_MODE_NONE \<longrightarrow> grants fs need ! i = 0)"
    using assms
  proof (induction fs arbitrary: need i)
    case (Cons f fs)
    define g where "g = (if fc_mode f = SPRDWL_MODE_NONE then min need (fc_flow f) else 0)"
    have g: "0 \<le> g" "g \<le> need" "g \<le> fc_flow f" using Cons.prems by (auto simp: g_def)
    show ?case
    proof (cases i)
      case 0
      with g show ?thesis by (simp add: g_def Let_def)
    next
      case (Suc j)
      have "\<forall>f \<in> set fs. 0 \<le> fc_flow f" "0 \<le> need - g" "j < length fs" using Cons.prems g Suc by auto
      from Cons.IH [OF this] g(1) Suc show ?thesis by (simp add: g_def [symmetric] Let_def)
    qed
  qed simp
  then show "0 \<le> grants fs need ! i" "grants fs need ! i \<le> need" "grants fs need ! i \<le> fc_flow (fs ! i)"
    "fc_mode (fs ! i) \<noteq> SPRDWL_MODE_NONE \<Longrightarrow> grants fs need ! i = 0" by auto
qed

lemma grants_none: "\<forall>f \<in> set fs. 0 \<le> fc_flow f \<Longrightarrow> grants fs 0 = replicate (length fs) 0"
  by (induction fs) (auto simp: Let_def)

lemma shared_loop_eq:
  assumes "flows_ok fs" and "0 \<le> shared" and "shared < num" and "num \<le> 255"
    and "cn = pre @ replicate (length fs) 0"
  shows "shared_loop fs (length pre) num shared cn =
     (shared + sum_list (grants fs (num - shared)), pre @ map of_int (grants fs (num - shared)))"
  using assms
proof (induction fs arbitrary: shared cn pre)
  case Nil
  then show ?case by simp
next
  case (Cons f fs)
  note ok = flows_ok_Cons [OF Cons.prems(1)]
  have need: "as_unsigned (num - shared) = num - shared"
    using Cons.prems(2-4) by (intro as_unsigned_id) simp_all
  have upd: "cn[length pre := v] = (pre @ [v]) @ replicate (length fs) 0" for v
    using Cons.prems(5) by (simp add: list_update_append)
  show ?case
  proof (cases "fc_mode f = SPRDWL_MODE_NONE \<and> fc_flow f \<noteq> 0")
    case False
    have "shared_loop fs (length (pre @ [0])) num shared cn =
        (shared + sum_list (grants fs (num - shared)), (pre @ [0]) @ map of_int (grants fs (num - shared)))"
      using Cons.prems by (intro Cons.IH [OF ok(1)]) simp_all
    with False ok(2,5) Cons.prems(3) show ?thesis by (auto simp: Let_def)
  next
    case True
    show ?thesis
    proof (cases "num - shared \<le> fc_flow f")
      case enough: True
      have "\<forall>f \<in> set fs. 0 \<le> fc_flow f" using ok(1) by (simp add: flows_ok_def)
      with True enough ok(5) need upd show ?thesis
        by (simp add: Let_def grants_none sum_list_replicate map_replicate_const)
    next
      case False
      have "as_int (shared + fc_flow f) = shared + fc_flow f"
        using False Cons.prems(2-4) ok(2) by (intro as_int_id) simp_all
      moreover have "shared_loop fs (length (pre @ [of_int (fc_flow f)])) num (shared + fc_flow f)
          (cn[length pre := of_int (fc_flow f)]) =
        (shared + fc_flow f + sum_list (grants fs (num - (shared + fc_flow f))),
         (pre @ [of_int (fc_flow f)]) @ map of_int (grants fs (num - (shared + fc_flow f))))"
        using False Cons.prems(2-4) ok(2) by (intro Cons.IH [OF ok(1)] upd) simp_all
      ultimately show ?thesis
        using True False ok(5) need by (simp add: Let_def min_def algebra_simps)
    qed
  qed
qed

lemma test_shared_loop_eq:
  assumes "flows_ok fs" and "0 \<le> shared" and "shared + flow_sum fs < 2 ^ 31"
  shows "test_shared_loop fs shared = shared + shared_sum fs"
  using assms
proof (induction fs arbitrary: shared)
  case (Cons f fs)
  note ok = flows_ok_Cons [OF Cons.prems(1)]
  have "0 \<le> flow_sum fs" using ok(1) by (intro flow_sum_nonneg) (simp add: flows_ok_def)
  then have "as_int (shared + fc_flow f) = shared + fc_flow f"
    using Cons.prems(2,3) ok(2) by (intro as_int_id) (simp_all add: flow_sum_def)
  with Cons.IH [OF ok(1)] Cons.prems(2,3) ok(2,5) show ?case
    by (auto simp: shared_sum_def flow_sum_def)
qed (simp add: shared_sum_def)

section \<open>The colour of a mode\<close>

lemma first_mode_Some:
  "first_mode fs m = Some i \<Longrightarrow> i < length fs \<and> fc_mode (fs ! i) = m"
  by (induction fs arbitrary: i) (auto split: if_splits)

lemma clear_closed_flow [simp]: "fc_flow (clear_closed priv f) = fc_flow f"
  by (simp add: clear_closed_def)

lemma map_flow_update:
  "i < length fs \<Longrightarrow> map fc_flow (fs[i := (fs ! i)\<lparr>fc_mode := m, fc_color_bit := c\<rparr>]) = map fc_flow fs"
  by (simp add: map_update list_update_same_conv)

lemma flows_ok_flows: "map fc_flow fs = map fc_flow gs \<Longrightarrow> flows_ok fs = flows_ok gs"
proof -
  assume eq: "map fc_flow fs = map fc_flow gs"
  have "(\<forall>f \<in> set fs. 0 \<le> fc_flow f) \<longleftrightarrow> (\<forall>x \<in> set (map fc_flow fs). 0 \<le> x)" by simp
  also have "\<dots> \<longleftrightarrow> (\<forall>f \<in> set gs. 0 \<le> fc_flow f)" unfolding eq by simp
  finally show ?thesis unfolding flows_ok_def flow_sum_def eq by simp
qed

lemma find_color_ok:
  assumes "sprdwl_fc_find_color_per_mode priv mode tx = (r, tx')"
  shows "map fc_flow (flow_ctrl tx') = map fc_flow (flow_ctrl tx)"
    and "tx' = tx\<lparr>flow_ctrl := flow_ctrl tx'\<rparr>"
    and "r = Some i \<Longrightarrow> i < length (flow_ctrl tx') \<and> fc_mode (flow_ctrl tx' ! i) = mode"
proof -
  have "map fc_flow (flow_ctrl tx') = map fc_flow (flow_ctrl tx) \<and> tx' = tx\<lparr>flow_ctrl := flow_ctrl tx'\<rparr> \<and>
    (r = Some i \<longrightarrow> i < length (flow_ctrl tx') \<and> fc_mode (flow_ctrl tx' ! i) = mode)"
  proof (cases "first_mode (flow_ctrl tx) mode")
    case (Some j)
    with assms first_mode_Some [OF Some] show ?thesis by (auto simp: sprdwl_fc_find_color_per_mode_def)
  next
    case None
    define fs where "fs = map (clear_closed priv) (flow_ctrl tx)"
    have fl: "map fc_flow fs = map fc_flow (flow_ctrl tx)" by (simp add: fs_def)
    show ?thesis
    proof (cases "first_mode fs SPRDWL_MODE_NONE")
      case n: None
      with None assms fl show ?thesis
        by (auto simp: sprdwl_fc_find_color_per_mode_def fs_def [symmetric] Let_def)
    next
      case (Some j)
      with first_mode_Some [OF Some] None assms fl map_flow_update [of j fs] show ?thesis
        by (auto simp: sprdwl_fc_find_color_per_mode_def fs_def [symmetric] Let_def)
    qed
  qed
  then show "map fc_flow (flow_ctrl tx') = map fc_flow (flow_ctrl tx)" "tx' = tx\<lparr>flow_ctrl := flow_ctrl tx'\<rparr>"
    "r = Some i \<Longrightarrow> i < length (flow_ctrl tx') \<and> fc_mode (flow_ctrl tx' ! i) = mode" by auto
qed

lemma find_color_color_num:
  "sprdwl_fc_find_color_per_mode priv mode (tx\<lparr>color_num := cn\<rparr>) =
     (let (r, tx') = sprdwl_fc_find_color_per_mode priv mode tx in (r, tx'\<lparr>color_num := cn\<rparr>))"
  by (simp add: sprdwl_fc_find_color_per_mode_def Let_def split: option.splits)

text \<open>The credits a mode with colour \<open>i\<close> may use, and how a request for \<open>n\<close> of them is met.\<close>

definition usable :: "sprdwl_flow_control list \<Rightarrow> nat \<Rightarrow> int" where
  "usable fs i = fc_flow (fs ! i) + shared_sum fs"

definition reserve :: "sprdwl_flow_control list \<Rightarrow> nat \<Rightarrow> int \<Rightarrow> int list" where
  "reserve fs i n =
     (if n \<le> fc_flow (fs ! i) then (replicate (length fs) 0)[i := n]
      else (grants fs (n - fc_flow (fs ! i)))[i := fc_flow (fs ! i)])"

lemma sum_list_int_update:
  fixes xs :: "int list"
  shows "i < length xs \<Longrightarrow> sum_list (xs[i := v]) = sum_list xs - xs ! i + v"
  by (induction xs arbitrary: i) (auto split: nat.splits)

lemma reserve_sum:
  assumes "\<forall>f \<in> set fs. 0 \<le> fc_flow f" and "i < length fs" and "fc_mode (fs ! i) \<noteq> SPRDWL_MODE_NONE"
  shows "sum_list (reserve fs i n) = min n (usable fs i)"
proof -
  have s: "0 \<le> shared_sum fs" using shared_sum_bounds [OF assms(1)] by simp
  show ?thesis
  proof (cases "n \<le> fc_flow (fs ! i)")
    case True
    with s assms(2) show ?thesis
      by (simp add: reserve_def usable_def sum_list_int_update sum_list_replicate)
  next
    case False
    with assms show ?thesis
      by (simp add: reserve_def usable_def sum_list_int_update grants_sum grants_bounds(4) min_def)
  qed
qed

lemma reserve_bounds:
  assumes "\<forall>f \<in> set fs. 0 \<le> fc_flow f" and "i < length fs" and "fc_mode (fs ! i) \<noteq> SPRDWL_MODE_NONE"
    and "0 \<le> n" and "j < length fs"
  shows "0 \<le> reserve fs i n ! j" and "reserve fs i n ! j \<le> n" and "reserve fs i n ! j \<le> fc_flow (fs ! j)"
    and "reserve fs i n ! j \<noteq> 0 \<Longrightarrow> j = i \<or> fc_mode (fs ! j) = SPRDWL_MODE_NONE"
proof -
  have nn: "0 \<le> fc_flow (fs ! j)" "0 \<le> fc_flow (fs ! i)" using assms(1,2,5) by simp_all
  have g: "0 \<le> n - fc_flow (fs ! i) \<Longrightarrow> 0 \<le> grants fs (n - fc_flow (fs ! i)) ! j \<and>
    grants fs (n - fc_flow (fs ! i)) ! j \<le> n - fc_flow (fs ! i) \<and>
    grants fs (n - fc_flow (fs ! i)) ! j \<le> fc_flow (fs ! j) \<and>
    (fc_mode (fs ! j) \<noteq> SPRDWL_MODE_NONE \<longrightarrow> grants fs (n - fc_flow (fs ! i)) ! j = 0)"
    using grants_bounds [OF assms(1) _ assms(5)] by blast
  show "0 \<le> reserve fs i n ! j" "reserve fs i n ! j \<le> n" "reserve fs i n ! j \<le> fc_flow (fs ! j)"
    "reserve fs i n ! j \<noteq> 0 \<Longrightarrow> j = i \<or> fc_mode (fs ! j) = SPRDWL_MODE_NONE"
    using g nn assms(2,4,5) by (auto simp: reserve_def nth_list_update split: if_splits)
qed

lemma usable_bound:
  assumes "\<forall>f \<in> set fs. 0 \<le> fc_flow f" and "i < length fs" and "fc_mode (fs ! i) \<noteq> SPRDWL_MODE_NONE"
  shows "usable fs i \<le> flow_sum fs"
  using assms
proof (induction fs arbitrary: i)
  case (Cons f fs)
  have "shared_sum fs \<le> flow_sum fs" using Cons.prems(1) shared_sum_bounds by simp
  show ?case
  proof (cases i)
    case 0
    with Cons.prems \<open>shared_sum fs \<le> flow_sum fs\<close> show ?thesis
      by (simp add: usable_def shared_sum_def flow_sum_def)
  next
    case (Suc j)
    have "usable fs j \<le> flow_sum fs" using Cons Suc by simp
    with Suc Cons.prems(1) show ?thesis by (simp add: usable_def shared_sum_def flow_sum_def)
  qed
qed simp

lemma uint_of_int_u8: "0 \<le> x \<Longrightarrow> x < 256 \<Longrightarrow> uint (of_int x :: u8) = x"
  by (simp add: uint_word_of_int_eq take_bit_int_eq_self)

lemma get_send_num_eq:
  assumes inv: "credit_inv tx" and "0 < data_num" "mode \<noteq> SPRDWL_MODE_NONE"
    and "hw_type priv \<noteq> SPRDWL_HW_PCIE" "\<not> no_credit priv"
    and find: "sprdwl_fc_find_color_per_mode priv mode tx = (Some i, tx2)"
  shows "sprdwl_fc_get_send_num priv mode data_num tx =
    (if usable (flow_ctrl tx2) i \<le> 0 then - 12 else min (min data_num 100) (usable (flow_ctrl tx2) i),
     tx2\<lparr>color_num := map of_int (reserve (flow_ctrl tx2) i (min data_num 100))\<rparr>)"
proof -
  define fs where "fs = flow_ctrl tx2"
  define n where "n = min data_num 100"
  define exc where "exc = fc_flow (fs ! i)"
  have n: "0 < n" "n \<le> 100" "(if 100 < data_num then 100 else data_num) = n"
    using assms(2) by (auto simp: n_def)
  have "flows_ok fs" using find_color_ok(1) [OF find] inv flows_ok_flows
    by (metis credit_inv_def fs_def)
  then have nn: "\<forall>f \<in> set fs. 0 \<le> fc_flow f" by (simp add: flows_ok_def)
  have i: "i < length fs" "fc_mode (fs ! i) \<noteq> SPRDWL_MODE_NONE"
    using find_color_ok(3) [OF find, of i] assms(3) by (auto simp: fs_def)
  have len: "length fs = MAX_COLOR_BIT"
    using map_eq_imp_length_eq [OF find_color_ok(1) [OF find]] inv by (simp add: credit_inv_def fs_def)
  have find1: "sprdwl_fc_find_color_per_mode priv mode (tx\<lparr>color_num := replicate MAX_COLOR_BIT 0\<rparr>) =
      (Some i, tx2\<lparr>color_num := replicate MAX_COLOR_BIT 0\<rparr>)"
    by (simp add: find_color_color_num find)
  have exc: "0 \<le> exc" using nn i(1) by (simp add: exc_def)
  have sums: "0 \<le> shared_sum fs" using shared_sum_bounds [OF nn] by simp
  show ?thesis
  proof (cases "n \<le> exc")
    case True
    with n exc sums len show ?thesis
      unfolding sprdwl_fc_get_send_num_def n(3) Let_def find1 fs_def [symmetric] n_def [symmetric]
      using assms(2-5)
      by (simp add: fs_def [symmetric] exc_def [symmetric] reserve_def usable_def map_update min_def)
  next
    case False
    have u: "uint (of_int (n - exc) :: u8) = n - exc"
      using False n exc by (intro uint_of_int_u8) simp_all
    have sh: "shared_loop fs 0 (n - exc) 0 (replicate MAX_COLOR_BIT 0) =
        (sum_list (grants fs (n - exc)), map of_int (grants fs (n - exc)))"
      using shared_loop_eq [OF \<open>flows_ok fs\<close>, of 0 "n - exc" _ "[]"] False n exc len by simp
    have sum: "exc + sum_list (grants fs (n - exc)) = min n (usable fs i)"
      using grants_sum [OF nn, of "n - exc"] False by (simp add: usable_def exc_def min_def)
    have "min n (usable fs i) \<le> 0 \<longleftrightarrow> usable fs i \<le> 0" using n by auto
    with False sum show ?thesis
      unfolding sprdwl_fc_get_send_num_def n(3) Let_def find1 fs_def [symmetric] n_def [symmetric]
      using assms(2-5)
      by (simp add: fs_def [symmetric] exc_def [symmetric] reserve_def map_update
          sprdwl_fc_get_shared_num_def u sh del: of_int_diff)
  qed
qed

lemma test_send_num_eq:
  assumes inv: "credit_inv tx" and "0 < data_num" "mode \<noteq> SPRDWL_MODE_NONE"
    and "hw_type priv \<noteq> SPRDWL_HW_PCIE" "\<not> no_credit priv"
    and find: "sprdwl_fc_find_color_per_mode priv mode tx = (Some i, tx2)"
  shows "sprdwl_fc_test_send_num priv mode data_num tx =
    (if usable (flow_ctrl tx2) i \<le> 0 then - 12 else min (min data_num 100) (usable (flow_ctrl tx2) i), tx2)"
proof -
  define fs where "fs = flow_ctrl tx2"
  have ok: "flows_ok fs" using find_color_ok(1) [OF find] inv flows_ok_flows
    by (metis credit_inv_def fs_def)
  then have nn: "\<forall>f \<in> set fs. 0 \<le> fc_flow f" and b: "flow_sum fs < 2 ^ 31" by (simp_all add: flows_ok_def)
  have i: "i < length fs" "fc_mode (fs ! i) \<noteq> SPRDWL_MODE_NONE"
    using find_color_ok(3) [OF find, of i] assms(3) by (auto simp: fs_def)
  have t: "sprdwl_fc_test_shared_num tx2 = shared_sum fs"
    using test_shared_loop_eq [OF ok, of 0] b by (simp add: sprdwl_fc_test_shared_num_def fs_def)
  have "0 \<le> usable fs i" using shared_sum_bounds [OF nn] nn i(1) by (simp add: usable_def)
  then have u: "as_int (fc_flow (fs ! i) + shared_sum fs) = usable fs i"
    unfolding usable_def [symmetric] using usable_bound [OF nn i] b by (intro as_int_id) simp_all
  show ?thesis
    using assms(2-5)
    by (simp add: sprdwl_fc_test_send_num_def find t fs_def [symmetric] u Let_def min_def)
qed

section \<open>A reservation taken\<close>

definition uses_credits :: "tx_priv \<Rightarrow> bool" where
  "uses_credits priv \<longleftrightarrow> hw_type priv \<noteq> SPRDWL_HW_PCIE \<and> \<not> no_credit priv"

lemma wake_net_frame [frame_simps]:
  "flow_ctrl (sprdwl_wake_net_ifneed tx) = flow_ctrl tx"
  "color_num (sprdwl_wake_net_ifneed tx) = color_num tx"
  by (simp_all add: sprdwl_wake_net_ifneed_def Let_def)

lemma take_credit_flow: "fc_flow (take_credit f c) = fc_flow f - uint c"
  by (simp add: take_credit_def)

lemma take_credits_sum:
  "length fs = length cs \<Longrightarrow>
     flow_sum (map2 take_credit fs cs) = flow_sum fs - sum_list (map uint cs)"
  by (induction fs cs rule: list_induct2) (auto simp: flow_sum_def take_credit_flow)

lemma take_credits_ok:
  assumes "flows_ok fs" and "length fs = length cs"
    and "\<forall>j < length fs. uint (cs ! j) \<le> fc_flow (fs ! j)"
  shows "flows_ok (map2 take_credit fs cs)"
proof -
  have "0 \<le> sum_list (map uint cs)" by (induction cs) auto
  moreover have "\<forall>f \<in> set (map2 take_credit fs cs). 0 \<le> fc_flow f"
    using assms(2,3) by (auto simp: set_zip take_credit_flow)
  ultimately show ?thesis
    using assms(1) by (simp add: flows_ok_def take_credits_sum [OF assms(2)])
qed

lemma return_ok:
  assumes "credit_inv tx" and "\<not> no_credit priv"
    and "\<forall>j < MAX_COLOR_BIT. uint (color_num tx ! j) \<le> fc_flow (flow_ctrl tx ! j)"
  shows "credit_inv (sprdwl_handle_tx_return priv n 0 tx)"
    and "flow_sum (flow_ctrl (sprdwl_handle_tx_return priv n 0 tx)) =
         flow_sum (flow_ctrl tx) - sum_list (map uint (color_num tx))"
  using assms take_credits_ok [of "flow_ctrl tx" "color_num tx"]
    take_credits_sum [of "flow_ctrl tx" "color_num tx"]
  by (simp_all add: sprdwl_handle_tx_return_def Let_def frame_simps credit_inv_def)

lemma uint_reserve:
  assumes "\<forall>f \<in> set fs. 0 \<le> fc_flow f" and "i < length fs" and "fc_mode (fs ! i) \<noteq> SPRDWL_MODE_NONE"
    and "0 \<le> n" and "n \<le> 100"
  shows "map uint (map of_int (reserve fs i n) :: u8 list) = reserve fs i n"
proof (rule nth_equalityI)
  fix j assume "j < length (map uint (map of_int (reserve fs i n) :: u8 list))"
  then have j: "j < length fs" by (simp add: reserve_def split: if_splits)
  with reserve_bounds(1,2) [OF assms(1-4) j] assms(5)
  show "map uint (map of_int (reserve fs i n) :: u8 list) ! j = reserve fs i n ! j"
    by (simp add: uint_of_int_u8 reserve_def)
qed simp

text \<open>What a successful reservation guarantees.\<close>

definition reservation_ok :: "sprdwl_mode \<Rightarrow> int \<Rightarrow> int \<Rightarrow> sprdwl_tx_msg \<Rightarrow> bool" where
  "reservation_ok mode data_num n tx \<longleftrightarrow>
     n \<le> min data_num 100 \<and> sum_list (map uint (color_num tx)) = n \<and>
     (\<forall>j < MAX_COLOR_BIT. uint (color_num tx ! j) \<le> fc_flow (flow_ctrl tx ! j) \<and>
        (color_num tx ! j \<noteq> 0 \<longrightarrow> fc_mode (flow_ctrl tx ! j) = mode \<or> fc_mode (flow_ctrl tx ! j) = SPRDWL_MODE_NONE))"

lemma reservation:
  assumes inv: "credit_inv tx" and "uses_credits priv"
    and get: "sprdwl_fc_get_send_num priv mode data_num tx = (n, tx')"
  shows "credit_inv tx'" and "map fc_flow (flow_ctrl tx') = map fc_flow (flow_ctrl tx)"
    and "0 < n \<Longrightarrow> reservation_ok mode data_num n tx'"
proof -
  have "credit_inv tx' \<and> map fc_flow (flow_ctrl tx') = map fc_flow (flow_ctrl tx) \<and>
      (0 < n \<longrightarrow> reservation_ok mode data_num n tx')"
  proof (cases "data_num \<le> 0 \<or> mode = SPRDWL_MODE_NONE")
    case True
    with get inv show ?thesis by (auto simp: sprdwl_fc_get_send_num_def)
  next
    case False
    obtain r tx2 where find: "sprdwl_fc_find_color_per_mode priv mode tx = (r, tx2)" by force
    note flows = find_color_ok(1,2) [OF find]
    have tx2: "flows_ok (flow_ctrl tx2)" "length (flow_ctrl tx2) = MAX_COLOR_BIT"
      using inv flows_ok_flows [OF flows(1)] map_eq_imp_length_eq [OF flows(1)]
      by (simp_all add: credit_inv_def)
    show ?thesis
    proof (cases r)
      case None
      with get False assms(2) find have "n = - 12" "tx' = tx2\<lparr>color_num := replicate MAX_COLOR_BIT 0\<rparr>"
        by (auto simp: sprdwl_fc_get_send_num_def uses_credits_def find_color_color_num Let_def)
      with tx2 flows(1) show ?thesis by (simp add: credit_inv_def)
    next
      case (Some i)
      define fs m where "fs = flow_ctrl tx2" and "m = min data_num 100"
      have nn: "\<forall>f \<in> set fs. 0 \<le> fc_flow f" using tx2(1) by (simp add: fs_def flows_ok_def)
      have i: "i < length fs" "fc_mode (fs ! i) = mode"
        using find_color_ok(3) [OF find Some] by (simp_all add: fs_def)
      then have i': "fc_mode (fs ! i) \<noteq> SPRDWL_MODE_NONE" using False by simp
      have m: "0 \<le> m" "m \<le> 100" using False by (auto simp: m_def)
      have eq: "n = (if usable fs i \<le> 0 then - 12 else min m (usable fs i))"
          "tx' = tx2\<lparr>color_num := map of_int (reserve fs i m)\<rparr>"
        using get_send_num_eq [OF inv _ _ _ _ find [unfolded Some], of data_num] get False assms(2)
        by (auto simp: fs_def m_def uses_credits_def)
      have len: "length (reserve fs i m) = MAX_COLOR_BIT" using tx2(2) by (simp add: reserve_def fs_def)
      note u = uint_reserve [OF nn i(1) i' m]
      have uj: "uint (of_int (reserve fs i m ! j) :: u8) = reserve fs i m ! j" if "j < MAX_COLOR_BIT" for j
        using arg_cong [OF u, of "\<lambda>xs. xs ! j"] that len by simp
      have "reservation_ok mode data_num n tx'" if "0 < n"
        unfolding reservation_ok_def eq(2)
      proof (intro conjI allI impI)
        fix j assume j: "j < MAX_COLOR_BIT"
        then have jl: "j < length fs" using tx2(2) by (simp add: fs_def)
        note b = reserve_bounds [OF nn i(1) i' m(1) jl]
        show "uint (color_num (tx2\<lparr>color_num := map of_int (reserve fs i m)\<rparr>) ! j)
            \<le> fc_flow (flow_ctrl (tx2\<lparr>color_num := map of_int (reserve fs i m)\<rparr>) ! j)"
          using b(3) uj [OF j] j len by (simp add: fs_def)
        assume "color_num (tx2\<lparr>color_num := map of_int (reserve fs i m)\<rparr>) ! j \<noteq> 0"
        then have "reserve fs i m ! j \<noteq> 0" using j len by auto
        from b(4) [OF this] i(2) show "fc_mode (flow_ctrl (tx2\<lparr>color_num := map of_int (reserve fs i m)\<rparr>) ! j) = mode \<or>
            fc_mode (flow_ctrl (tx2\<lparr>color_num := map of_int (reserve fs i m)\<rparr>) ! j) = SPRDWL_MODE_NONE"
          by (auto simp: fs_def)
      qed (use that eq(1) u reserve_sum [OF nn i(1) i'] in \<open>auto simp: m_def split: if_splits\<close>)
      with eq(2) tx2 flows(1) len show ?thesis by (simp add: credit_inv_def)
    qed
  qed
  then show "credit_inv tx'" "map fc_flow (flow_ctrl tx') = map fc_flow (flow_ctrl tx)"
    "0 < n \<Longrightarrow> reservation_ok mode data_num n tx'" by auto
qed

section \<open>Sending within the credits granted\<close>

text \<open>
  The account between the firmware, which grants credits, and the driver, which spends them. A
  grant adds at most its amount, sending takes exactly what it reports.
\<close>

fun account_run :: "('s \<Rightarrow> 'r \<Rightarrow> int \<times> 's) \<Rightarrow> ('s \<Rightarrow> 'g \<Rightarrow> 's) \<Rightarrow> 's \<Rightarrow> ('r + 'g) list \<Rightarrow> int \<times> 's" where
  "account_run send grant s [] = (0, s)"
| "account_run send grant s (Inl r # ops) =
     (let (n, s1) = send s r; (k, s2) = account_run send grant s1 ops in (n + k, s2))"
| "account_run send grant s (Inr g # ops) = account_run send grant (grant s g) ops"

fun granted :: "('g \<Rightarrow> int) \<Rightarrow> ('r + 'g) list \<Rightarrow> int" where
  "granted amount [] = 0"
| "granted amount (Inl r # ops) = granted amount ops"
| "granted amount (Inr g # ops) = amount g + granted amount ops"

locale credit_account =
  fixes send :: "'s \<Rightarrow> 'r \<Rightarrow> int \<times> 's"
    and grant :: "'s \<Rightarrow> 'g \<Rightarrow> 's"
    and inv :: "'s \<Rightarrow> bool"
    and balance :: "'s \<Rightarrow> int"
    and amount :: "'g \<Rightarrow> int"
    and limit :: int
  assumes balance_nonneg: "inv s \<Longrightarrow> 0 \<le> balance s"
    and amount_nonneg: "0 \<le> amount g"
    and send_law: "inv s \<Longrightarrow> send s r = (n, s') \<Longrightarrow> inv s' \<and> 0 \<le> n \<and> balance s' + n = balance s"
    and grant_law: "inv s \<Longrightarrow> balance s + amount g < limit \<Longrightarrow>
      inv (grant s g) \<and> balance (grant s g) \<le> balance s + amount g"
begin

lemma granted_nonneg: "0 \<le> granted amount ops"
proof (induction ops)
  case (Cons op ops)
  then show ?case using amount_nonneg by (cases op) (auto intro: add_nonneg_nonneg)
qed simp

lemma run_within_credits:
  "inv s \<Longrightarrow> balance s + granted amount ops < limit \<Longrightarrow> account_run send grant s ops = (n, s') \<Longrightarrow>
     inv s' \<and> 0 \<le> n \<and> n + balance s' \<le> balance s + granted amount ops"
proof (induction ops arbitrary: s n)
  case (Cons op ops)
  show ?case
  proof (cases op)
    case (Inl r)
    obtain k s1 where s1: "send s r = (k, s1)" by force
    obtain j where j: "account_run send grant s1 ops = (j, s')" "n = k + j"
      using Cons.prems(3) Inl s1 by (auto split: prod.splits)
    have l: "inv s1 \<and> 0 \<le> k \<and> balance s1 + k = balance s" using send_law [OF Cons.prems(1) s1] .
    have "inv s' \<and> 0 \<le> j \<and> j + balance s' \<le> balance s1 + granted amount ops"
      using Cons.IH [OF _ _ j(1)] l Cons.prems(2) Inl by auto
    with l j(2) Inl show ?thesis by auto
  next
    case (Inr g)
    have "balance s + amount g < limit" using Cons.prems(2) Inr granted_nonneg [of ops] by simp
    from grant_law [OF Cons.prems(1) this] Cons.IH [of "grant s g" n] Cons.prems Inr
    show ?thesis by auto
  qed
qed simp

end

text \<open>
  \<open>sprdwl_handle_to_send_list\<close> reserves credits for the packets on the list and settles them with
  the result \<open>ret\<close> of the bus; without credit nothing is sent.
\<close>

definition send_list_credit ::
  "tx_priv \<Rightarrow> sprdwl_tx_msg \<Rightarrow> sprdwl_mode \<times> int \<times> int \<Rightarrow> int \<times> sprdwl_tx_msg" where
  "send_list_credit priv tx r =
     (case r of (mode, tosendnum, ret) \<Rightarrow>
       let (credit, tx1) = sprdwl_fc_get_send_num priv mode tosendnum tx in
       if credit \<le> 0 then (0, tx1)
       else (if ret = 0 then credit else 0, sprdwl_handle_tx_return priv credit ret tx1))"

definition credit_event :: "u8 list \<Rightarrow> u8 list" where
  "credit_event fl = [SPRDWL_TYPE_EVENT, WIFI_EVENT_SDIO_FLOWCON] @ replicate 10 0 @ fl"

fun flow_bytes :: "u8 \<times> u8 \<times> u8 \<times> u8 \<Rightarrow> u8 list" where
  "flow_bytes (a, b, c, d) = [a, b, c, d]"

definition flow_amount :: "u8 \<times> u8 \<times> u8 \<times> u8 \<Rightarrow> int" where
  "flow_amount fl = sum_list (map uint (flow_bytes fl))"

definition receive_credit :: "tx_priv \<Rightarrow> sprdwl_tx_msg \<Rightarrow> u8 \<times> u8 \<times> u8 \<times> u8 \<Rightarrow> sprdwl_tx_msg" where
  "receive_credit priv tx fl =
     (case sprdwl_sdio_process_credit priv (credit_event (flow_bytes fl)) tx of
        Some (_, tx') \<Rightarrow> tx' | None \<Rightarrow> tx)"

lemma process_credit_event:
  "sprdwl_sdio_process_credit priv (credit_event (flow_bytes fl)) tx =
     Some (- 1, if flow_amount fl = 0 then reset_credit (add_credit (flow_bytes fl) tx)
                else add_credit (flow_bytes fl) tx)"
proof -
  have "length (flow_bytes fl) = 4" by (cases fl) simp
  then have r: "read_bytes (credit_event (flow_bytes fl)) 12 4 = Some (flow_bytes fl)"
    by (simp add: read_bytes_def credit_event_def)
  have p: "credit_pos priv (credit_event (flow_bytes fl)) = Some (Inr (12, - 1))"
    by (simp add: credit_pos_def credit_event_def SPRDWL_TYPE_EVENT_def SPRDWL_TYPE_DATA_SPECIAL_def Let_def)
  show ?thesis by (simp add: sprdwl_sdio_process_credit_def r p Let_def flow_amount_def)
qed

lemma add_credit_ok:
  assumes "credit_inv tx" and "flow_sum (flow_ctrl tx) + flow_amount fl < 2 ^ 31"
  shows "credit_inv (add_credit (flow_bytes fl) tx)"
    and "flow_sum (flow_ctrl (add_credit (flow_bytes fl) tx)) = flow_sum (flow_ctrl tx) + flow_amount fl"
proof -
  obtain a b c d where fl: "fl = (a, b, c, d)" by (cases fl) auto
  obtain f0 f1 f2 f3 where fs: "flow_ctrl tx = [f0, f1, f2, f3]"
    using assms(1) by (auto simp: credit_inv_def MAX_COLOR_BIT_def length_Suc_conv numeral_eq_Suc)
  show "credit_inv (add_credit (flow_bytes fl) tx)"
      "flow_sum (flow_ctrl (add_credit (flow_bytes fl) tx)) = flow_sum (flow_ctrl tx) + flow_amount fl"
    using assms by (auto simp: credit_inv_def flows_ok_def flow_sum_def flow_amount_def add_credit_def fl fs)
qed

lemma reset_loop_flows:
  "reset_credit_loop fs cp = (fs', cp') \<Longrightarrow> fs' = map (\<lambda>f. f\<lparr>fc_flow := 0\<rparr>) fs"
  by (induction fs arbitrary: cp fs') (auto simp: Let_def split: prod.splits if_splits)

lemma reset_credit_ok:
  assumes "credit_inv tx"
  shows "credit_inv (reset_credit tx)" and "flow_sum (flow_ctrl (reset_credit tx)) = 0"
proof -
  obtain fs cp where r: "reset_credit_loop (flow_ctrl tx) (ring_cp tx) = (fs, cp)" by force
  have "flow_sum (map (\<lambda>f. f\<lparr>fc_flow := 0\<rparr>) xs) = 0" for xs by (induction xs) (simp_all add: flow_sum_def)
  with r assms reset_loop_flows [OF r] show "credit_inv (reset_credit tx)" "flow_sum (flow_ctrl (reset_credit tx)) = 0"
    by (auto simp: reset_credit_def credit_inv_def flows_ok_def)
qed

lemma flow_sum_flows: "map fc_flow fs = map fc_flow gs \<Longrightarrow> flow_sum fs = flow_sum gs"
  by (simp add: flow_sum_def)

lemma send_list_credit_law:
  assumes "credit_inv tx" and "uses_credits priv" and "send_list_credit priv tx r = (n, tx')"
  shows "credit_inv tx' \<and> 0 \<le> n \<and> flow_sum (flow_ctrl tx') + n = flow_sum (flow_ctrl tx)"
proof -
  obtain mode k ret where r: "r = (mode, k, ret)" by (cases r) auto
  obtain c tx1 where g: "sprdwl_fc_get_send_num priv mode k tx = (c, tx1)" by force
  note res = reservation [OF assms(1,2) g]
  have fs: "flow_sum (flow_ctrl tx1) = flow_sum (flow_ctrl tx)" by (rule flow_sum_flows [OF res(2)])
  show ?thesis
  proof (cases "c \<le> 0")
    case True
    with assms(3) r g res(1) fs show ?thesis by (auto simp: send_list_credit_def)
  next
    case False
    then have ok: "reservation_ok mode k c tx1" using res(3) by simp
    have eq: "n = (if ret = 0 then c else 0)" "tx' = sprdwl_handle_tx_return priv c ret tx1"
      using assms(3) r g False by (auto simp: send_list_credit_def)
    show ?thesis
    proof (cases "ret = 0")
      case True
      have "\<forall>j < MAX_COLOR_BIT. uint (color_num tx1 ! j) \<le> fc_flow (flow_ctrl tx1 ! j)"
          "sum_list (map uint (color_num tx1)) = c" "\<not> no_credit priv"
        using ok assms(2) by (auto simp: reservation_ok_def uses_credits_def)
      with return_ok [OF res(1), of priv c] eq True fs False show ?thesis by simp
    next
      case ret: False
      with eq fs res(1) show ?thesis by (simp add: sprdwl_handle_tx_return_def credit_inv_def)
    qed
  qed
qed

lemma flow_amount_nonneg: "0 \<le> flow_amount fl"
  by (cases fl) (simp add: flow_amount_def)

lemma receive_credit_law:
  assumes "credit_inv tx" and "flow_sum (flow_ctrl tx) + flow_amount fl < 2 ^ 31"
  shows "credit_inv (receive_credit priv tx fl) \<and>
     flow_sum (flow_ctrl (receive_credit priv tx fl)) \<le> flow_sum (flow_ctrl tx) + flow_amount fl"
proof -
  note a = add_credit_ok [OF assms]
  have "0 \<le> flow_sum (flow_ctrl tx)" using assms(1) by (simp add: credit_inv_def flows_ok_def flow_sum_nonneg)
  with a reset_credit_ok [OF a(1)] show ?thesis
    by (simp add: receive_credit_def process_credit_event)
qed

interpretation tx_account: credit_account "send_list_credit priv" "receive_credit priv"
  "\<lambda>tx. uses_credits priv \<and> credit_inv tx" "\<lambda>tx. flow_sum (flow_ctrl tx)" flow_amount "2 ^ 31" for priv
proof unfold_locales
  fix s assume "uses_credits priv \<and> credit_inv s"
  then show "0 \<le> flow_sum (flow_ctrl s)" by (simp add: credit_inv_def flows_ok_def flow_sum_nonneg)
next
  fix g show "0 \<le> flow_amount g" by (rule flow_amount_nonneg)
next
  fix s r n s' assume "uses_credits priv \<and> credit_inv s" "send_list_credit priv s r = (n, s')"
  then show "(uses_credits priv \<and> credit_inv s') \<and> 0 \<le> n \<and> flow_sum (flow_ctrl s') + n = flow_sum (flow_ctrl s)"
    using send_list_credit_law by blast
next
  fix s g assume "uses_credits priv \<and> credit_inv s" "flow_sum (flow_ctrl s) + flow_amount g < 2 ^ 31"
  then show "(uses_credits priv \<and> credit_inv (receive_credit priv s g)) \<and>
      flow_sum (flow_ctrl (receive_credit priv s g)) \<le> flow_sum (flow_ctrl s) + flow_amount g"
    using receive_credit_law by blast
qed

text \<open>
  C10. Over any sequence of transmissions and credit events, as long as the credits granted fit
  an \<open>int\<close>, the packets sent and the credits left together never exceed the credits granted,
  and no colour goes below zero. The event that resets the credits only lowers what is left.
\<close>

theorem sends_within_credits:
  assumes "credit_inv tx" and "uses_credits priv"
    and "flow_sum (flow_ctrl tx) + granted flow_amount ops < 2 ^ 31"
    and "account_run (send_list_credit priv) (receive_credit priv) tx ops = (sent, tx')"
  shows "0 \<le> sent \<and> sent + flow_sum (flow_ctrl tx') \<le> flow_sum (flow_ctrl tx) + granted flow_amount ops \<and>
     (\<forall>f \<in> set (flow_ctrl tx'). 0 \<le> fc_flow f)"
  using tx_account.run_within_credits [OF _ assms(3,4)] assms(1,2)
  by (simp add: credit_inv_def flows_ok_def)

definition ex_pool :: sprdwl_msg_list where
  "ex_pool = \<lparr>freelist = [], busylist = [], cmd_to_free = [], maxnum = 0, ml_ref = 0, ml_flow = 0\<rparr>"

definition ex_tx :: sprdwl_tx_msg where
  "ex_tx = \<lparr>flow_ctrl = map (\<lambda>i. \<lparr>fc_mode = SPRDWL_MODE_NONE, fc_color_bit = of_nat i, fc_flow = 0\<rparr>) [0..<4],
     color_num = replicate 4 0, ring_cp = 0, ring_ap = 0, net_stop_cnt = 0, net_start_cnt = 0,
     net_on = True, tx_list_cmd = ex_pool, tx_list_qos_pool = ex_pool\<rparr>"

definition ex_priv :: tx_priv where
  "ex_priv = \<lparr>hw_type = SPRDWL_HW_SDIO, no_credit = False, fw_stat = (\<lambda>m. 1)\<rparr>"

lemma ex_tx_inv: "credit_inv ex_tx"
  by (simp add: credit_inv_def ex_tx_def MAX_COLOR_BIT_def flows_ok_def flow_sum_def comp_def)

lemma ex_uses_credits: "uses_credits ex_priv"
  by (simp add: uses_credits_def ex_priv_def)

theorem sends_within_credits_witness:
  "\<exists>sent tx'. account_run (send_list_credit ex_priv) (receive_credit ex_priv) ex_tx
     [Inr (3, 2, 0, 1), Inl (SPRDWL_MODE_STATION, 9, 0)] = (sent, tx') \<and> sent + flow_sum (flow_ctrl tx') \<le> 6"
proof -
  obtain sent tx' where r: "account_run (send_list_credit ex_priv) (receive_credit ex_priv) ex_tx
     [Inr (3, 2, 0, 1), Inl (SPRDWL_MODE_STATION, 9, 0)] = (sent, tx')" by force
  have "flow_sum (flow_ctrl ex_tx) = 0" by (simp add: ex_tx_def flow_sum_def comp_def)
  with sends_within_credits [OF ex_tx_inv ex_uses_credits _ r] r show ?thesis
    by (simp add: flow_amount_def)
qed

text \<open>
  The test before a transmission agrees with the reservation: both give the same number of
  packets, or the same error, and leave the colours with the same owners.
\<close>

theorem test_agrees_with_reservation:
  assumes "credit_inv tx"
  shows "fst (sprdwl_fc_test_send_num priv mode n tx) = fst (sprdwl_fc_get_send_num priv mode n tx) \<and>
     flow_ctrl (snd (sprdwl_fc_test_send_num priv mode n tx)) = flow_ctrl (snd (sprdwl_fc_get_send_num priv mode n tx))"
proof (cases "n \<le> 0 \<or> mode = SPRDWL_MODE_NONE \<or> hw_type priv = SPRDWL_HW_PCIE \<or> no_credit priv")
  case True
  then show ?thesis by (auto simp: sprdwl_fc_test_send_num_def sprdwl_fc_get_send_num_def Let_def)
next
  case False
  obtain r tx2 where find: "sprdwl_fc_find_color_per_mode priv mode tx = (r, tx2)" by force
  show ?thesis
  proof (cases r)
    case None
    with False find show ?thesis
      by (simp add: sprdwl_fc_test_send_num_def sprdwl_fc_get_send_num_def find_color_color_num Let_def)
  next
    case (Some i)
    with False find get_send_num_eq [OF assms, of n mode priv i tx2]
      test_send_num_eq [OF assms, of n mode priv i tx2] show ?thesis
      by simp
  qed
qed

theorem test_agrees_with_reservation_witness:
  "fst (sprdwl_fc_get_send_num ex_priv SPRDWL_MODE_AP 5 ex_tx) =
   fst (sprdwl_fc_test_send_num ex_priv SPRDWL_MODE_AP 5 ex_tx)"
  using test_agrees_with_reservation [OF ex_tx_inv] by simp

section \<open>Colours of the packets\<close>

definition color_before :: "u8 list \<Rightarrow> nat \<Rightarrow> int" where
  "color_before cs i = sum_list (map uint (take i cs))"

lemma color_loop_shift: "color_loop cs i k c = i + color_loop cs 0 k c"
proof (induction cs arbitrary: i c)
  case (Cons x cs)
  show ?case using Cons.IH [of "Suc i" "c + uint x"] Cons.IH [of "Suc 0" "c + uint x"] by simp
qed simp

lemma sum_uint_nonneg: "0 \<le> sum_list (map uint (cs :: 'a::len word list))"
  by (induction cs) auto

lemma color_loop_iff:
  assumes "c < k" and "i < length cs"
  shows "color_loop cs 0 k c = i \<longleftrightarrow> c + color_before cs i < k \<and> k \<le> c + color_before cs (Suc i)"
  using assms
proof (induction cs arbitrary: c i)
  case (Cons x cs)
  show ?case
  proof (cases i)
    case 0
    then show ?thesis
      using Cons.prems(1) color_loop_shift [of cs 1 k] by (auto simp: color_before_def)
  next
    case (Suc j)
    have p: "0 \<le> color_before cs j" by (simp add: color_before_def sum_uint_nonneg)
    show ?thesis
    proof (cases "k \<le> c + uint x")
      case True
      then show ?thesis using Suc p by (auto simp: color_before_def)
    next
      case False
      then show ?thesis
        using Cons.IH [of "c + uint x" j] Cons.prems(2) Suc color_loop_shift [of cs 1 k "c + uint x"]
        by (auto simp: color_before_def)
    qed
  qed
qed simp

lemma color_before_Suc:
  "i < length cs \<Longrightarrow> color_before cs (Suc i) = color_before cs i + uint (cs ! i)"
  by (simp add: color_before_def take_Suc_conv_app_nth)

lemma color_before_le: "color_before cs i \<le> sum_list (map uint cs)"
proof -
  have "sum_list (map uint cs) = color_before cs i + sum_list (map uint (drop i cs))"
    unfolding color_before_def by (metis append_take_drop_id map_append sum_list_append)
  then show ?thesis using sum_uint_nonneg [of "drop i cs"] by linarith
qed

text \<open>
  Of the packets sent on one reservation, numbered from 1, exactly as many are marked with
  a colour as credits of that colour were reserved, and they are consecutive.
\<close>

theorem packet_colours_match_reservation:
  assumes "\<not> no_credit priv" and "i < length (color_num tx)"
  shows "{k. 1 \<le> k \<and> k \<le> sum_list (map uint (color_num tx)) \<and> sprdwl_fc_set_clor_bit priv k tx = i} =
      {color_before (color_num tx) i + 1 .. color_before (color_num tx) i + uint (color_num tx ! i)} \<and>
     card {k. 1 \<le> k \<and> k \<le> sum_list (map uint (color_num tx)) \<and> sprdwl_fc_set_clor_bit priv k tx = i} =
      unat (color_num tx ! i)"
proof -
  define cs where "cs = color_num tx"
  have i: "i < length cs" using assms(2) by (simp add: cs_def)
  have b: "0 \<le> color_before cs i" by (simp add: color_before_def sum_uint_nonneg)
  have e: "color_before cs i + uint (cs ! i) \<le> sum_list (map uint cs)"
    using color_before_le [of cs "Suc i"] color_before_Suc [OF i] by simp
  have iff: "sprdwl_fc_set_clor_bit priv k tx = i \<longleftrightarrow>
      color_before cs i < k \<and> k \<le> color_before cs i + uint (cs ! i)" if "1 \<le> k" for k
    using assms(1) that color_loop_iff [OF _ i, of 0 k] color_before_Suc [OF i]
    by (simp add: sprdwl_fc_set_clor_bit_def cs_def)
  have "{k. 1 \<le> k \<and> k \<le> sum_list (map uint cs) \<and> sprdwl_fc_set_clor_bit priv k tx = i} =
      {color_before cs i + 1 .. color_before cs i + uint (cs ! i)}"
  proof (rule set_eqI)
    fix k
    show "k \<in> {k. 1 \<le> k \<and> k \<le> sum_list (map uint cs) \<and> sprdwl_fc_set_clor_bit priv k tx = i} \<longleftrightarrow>
        k \<in> {color_before cs i + 1 .. color_before cs i + uint (cs ! i)}"
      unfolding mem_Collect_eq atLeastAtMost_iff using iff [of k] b e by linarith
  qed
  note set = this
  have "card {color_before cs i + 1 .. color_before cs i + uint (cs ! i)} = unat (cs ! i)" by simp
  then show ?thesis using set unfolding cs_def by metis
qed

theorem packet_colours_match_reservation_witness:
  "card {k. 1 \<le> k \<and> k \<le> (6 :: int) \<and> sprdwl_fc_set_clor_bit ex_priv k (ex_tx\<lparr>color_num := [3, 0, 2, 1]\<rparr>) = 2} = 2"
  using packet_colours_match_reservation [of ex_priv 2 "ex_tx\<lparr>color_num := [3, 0, 2, 1]\<rparr>"]
  by (simp add: ex_priv_def)

end
