(* ===== verification/Tx_Split.thy ===== *)
theory Tx_Split
  imports Qos
begin

text \<open>
  How the packets queued for one mode are chosen for transmission, WIFI/tx_msg.c: the credits
  are divided between the access categories by fixed ratios and within a category by the
  lengths of the peers' queues, and the chosen packets are moved to the send list. Divisions
  are of non-negative numbers.
\<close>

section \<open>Dividing the credits\<close>

definition vo_ratio :: int where "vo_ratio = 87"
definition vi_ratio :: int where "vi_ratio = 90"
definition be_ratio :: int where "be_ratio = 81"

text \<open>
  The inner loop over the peers of one category: \<open>ps\<close> are the packets queued per peer, \<open>q\<close> those
  of the peers not yet looked at, \<open>fp\<close> the credits left for the category. The result is the
  number of packets taken from each peer.
\<close>

definition peer_min :: "int \<Rightarrow> int \<Rightarrow> int \<Rightarrow> int" where
  "peer_min p q fp =
     (let round_num = p * fp div q in min (if 0 < fp \<and> round_num = 0 then 1 else round_num) fp)"

fun peer_split :: "int list \<Rightarrow> int \<Rightarrow> int \<Rightarrow> int list" where
  "peer_split [] q fp = []"
| "peer_split (p # ps) q fp =
     (if p = 0 then 0 # peer_split ps q fp
      else
        let min_num = peer_min p q fp
        in if min_num \<le> 0 then 0 # map (\<lambda>_. 0) ps
           else if fp - min_num \<le> 0 then min_num # map (\<lambda>_. 0) ps
           else min_num # peer_split ps (q - p) (fp - min_num))"

text \<open>The share of one category, and the outer loop; a category comes with its ratio.\<close>

definition category_share :: "int option \<Rightarrow> int \<Rightarrow> int \<Rightarrow> int \<Rightarrow> int" where
  "category_share ratio send_num tot q =
     (let fp0 = (case ratio of
                   Some r \<Rightarrow> if q < tot then min (send_num * r div 100) q else send_num * q div tot
                 | None \<Rightarrow> send_num * q div tot)
      in if tot - q < send_num - fp0 \<and> 0 < tot - q
         then fp0 + (send_num - fp0 - (tot - q)) else fp0)"

fun category_split :: "(int option \<times> int list) list \<Rightarrow> int \<Rightarrow> int \<Rightarrow> int list list" where
  "category_split [] send_num tot = []"
| "category_split ((ratio, ps) # cs) send_num tot =
     (let q = sum_list ps in
      if q \<le> 0 then map (\<lambda>_. 0) ps # category_split cs send_num tot
      else if send_num \<le> 0 then map (\<lambda>c. map (\<lambda>_. 0) (snd c)) ((ratio, ps) # cs)
      else let fp = category_share ratio send_num tot q
           in peer_split ps q fp # category_split cs (send_num - fp) (tot - q))"

definition qos_ratios :: "int option list" where
  "qos_ratios = [Some vo_ratio, Some vi_ratio, Some be_ratio, None]"

section \<open>Merging the queues into the send list\<close>

text \<open>
  When the list has fewer than \<open>add_num\<close> entries the loop ends at the list head, and cutting
  there moves nothing.
\<close>

definition add_xmit_list_tail :: "peer_list \<Rightarrow> int \<Rightarrow> nat list \<Rightarrow> nat list \<times> peer_list" where
  "add_xmit_list_tail p add_num to_send_list =
     (if add_num = 0 \<or> int (length (head_list p)) < add_num then (to_send_list, p)
      else (to_send_list @ take (nat add_num) (head_list p),
            p\<lparr>head_list := drop (nat add_num) (head_list p)\<rparr>))"

text \<open>One peer: packets are moved and the counters of the peer and of the mode lowered.\<close>

fun merge_peers :: "peer_list list \<Rightarrow> int list \<Rightarrow> nat list \<times> int \<Rightarrow> peer_list list \<times> (nat list \<times> int)" where
  "merge_peers (p # ps) (n # ns) (out, mode_num) =
     (let (out', p') = (if n = 0 then (out, p) else add_xmit_list_tail p n out);
          (ps', st) = merge_peers ps ns (out', mode_num - n)
      in (p'\<lparr>l_num := l_num p' - n\<rparr> # ps', st))"
| "merge_peers ps ns st = (ps, st)"

fun merge_qos :: "qos_list list \<Rightarrow> int list list \<Rightarrow> nat list \<times> int \<Rightarrow> qos_list list \<times> (nat list \<times> int)" where
  "merge_qos (q # qs) (ns # nss) st =
     (let (ps', st') = merge_peers (p_list q) ns st;
          (qs', st'') = merge_qos qs nss st'
      in (q\<lparr>p_list := ps'\<rparr> # qs', st''))"
| "merge_qos qs nss st = (qs, st)"

definition queue_nums :: "tx_t \<Rightarrow> int list list" where
  "queue_nums t = map (\<lambda>q. map l_num (p_list q)) (q_list t)"

text \<open>
  \<open>sprdwl_tx_eachmode_data\<close> from the count of the queues on: all packets when the credits
  suffice, else the split above. \<open>to_send_list\<close> is what waits to be given to the bus.
\<close>

definition sprdwl_tx_merge :: "int \<Rightarrow> tx_t \<Rightarrow> nat list \<Rightarrow> nat list \<times> tx_t" where
  "sprdwl_tx_merge send_num t to_send_list =
     (let tot = sum_list (map sum_list (queue_nums t));
          nums = (if tot \<le> send_num then queue_nums t
                  else category_split (zip qos_ratios (queue_nums t)) send_num tot);
          (qs, out, mode_num) = merge_qos (q_list t) nums (to_send_list, mode_list_num t)
      in (out, t\<lparr>q_list := qs, mode_list_num := mode_num\<rparr>))"

text \<open>Whether a mode has nothing queued: all peers of an access point, one peer otherwise.\<close>

definition queue_is_empty :: "sprdwl_mode \<Rightarrow> tx_t \<Rightarrow> bool option" where
  "queue_is_empty mode t =
     (if mode = SPRDWL_MODE_AP \<or> mode = SPRDWL_MODE_P2P_GO
      then Some (\<forall>q \<in> set (q_list t). \<forall>p \<in> set (p_list q). head_list p = [])
      else if \<forall>q \<in> set (q_list t). unat (tx_lut_id t) < length (p_list q)
      then Some (\<forall>q \<in> set (q_list t). head_list (p_list q ! unat (tx_lut_id t)) = [])
      else None)"

text \<open>Flushing a mode: every buffer goes back to the pool, in order, and the counters are cleared.\<close>

definition sprdwl_flush_mode_txlist :: "tx_t \<Rightarrow> nat list \<times> tx_t" where
  "sprdwl_flush_mode_txlist t =
     (concat (map (\<lambda>q. concat (map head_list (p_list q))) (q_list t)),
      t\<lparr>q_list := map (\<lambda>q. q\<lparr>p_list := map (\<lambda>p. if head_list p = [] then p else p\<lparr>head_list := [], l_num := 0\<rparr>) (p_list q)\<rparr>)
          (q_list t),
        mode_list_num := 0\<rparr>)"

text \<open>Queueing a packet; urgent ones (ARP, TDLS, preauthentication) go to the front.\<close>

definition sprdwl_queue_data_msg_buf :: "bool \<Rightarrow> nat \<Rightarrow> peer_list \<Rightarrow> peer_list" where
  "sprdwl_queue_data_msg_buf urgent m p =
     p\<lparr>head_list := (if urgent then m # head_list p else head_list p @ [m]), l_num := l_num p + 1\<rparr>"

end
