(* ===== verification/Tx_Split_Correct.thy ===== *)
theory Tx_Split_Correct
  imports Tx_Split
begin

text \<open>
  The split of the credits is exact: every credit is used while packets wait, no queue is
  asked for more than it holds, packets of one queue keep their order and the counters stay
  equal to the queue lengths.
\<close>

section \<open>The split is exact\<close>

lemma length_peer_split [simp]: "length (peer_split ps q fp) = length ps"
  by (induction ps q fp rule: peer_split.induct) (auto simp: Let_def)

lemma sum_list_nonneg_int: "\<forall>p \<in> set ps. 0 \<le> p \<Longrightarrow> 0 \<le> sum_list (ps :: int list)"
  by (induction ps) auto

text \<open>The share of one peer: at least one packet, at most its queue, and the rest still fits.\<close>

lemma peer_round:
  fixes p q fp :: int
  assumes "0 < p" and "p \<le> q" and "0 < fp" and "fp \<le> q"
  shows "0 < peer_min p q fp" and "peer_min p q fp \<le> p" and "peer_min p q fp \<le> fp"
    and "fp - peer_min p q fp \<le> q - p"
proof -
  define r where "r = p * fp div q"
  obtain m where pm: "m = peer_min p q fp" by simp
  then have m_def: "m = min (if 0 < fp \<and> r = 0 then 1 else r) fp" by (simp add: r_def peer_min_def Let_def)
  have q: "0 < q" using assms by simp
  have rp: "r \<le> p" "r \<le> fp" "0 \<le> r"
  proof -
    have "p * fp \<le> p * q" using assms by simp
    then show "r \<le> p" unfolding r_def using q by (metis mult.commute nonzero_mult_div_cancel_left order_less_irrefl zdiv_mono1)
    have "p * fp \<le> q * fp" using assms by simp
    then show "r \<le> fp" unfolding r_def using q by (metis nonzero_mult_div_cancel_left order_less_irrefl zdiv_mono1)
    show "0 \<le> r" unfolding r_def using assms q by (simp add: pos_imp_zdiv_nonneg_iff)
  qed
  have "0 < m" "m \<le> p" "m \<le> fp" using rp assms(1,3) by (auto simp: m_def)
  moreover have "fp - m \<le> q - p"
  proof (cases "r = 0")
    case True
    then have "p * fp < q" unfolding r_def using q mult_pos_pos [OF assms(1,3)] by (auto simp: zdiv_eq_0_iff)
    moreover have "p + fp \<le> p * fp + 1"
      using mult_nonneg_nonneg [of "p - 1" "fp - 1"] assms(1,3) by (simp add: algebra_simps)
    ultimately show ?thesis using True assms(3) by (simp add: m_def)
  next
    case False
    have "q * (fp - r) \<le> q * fp - p * fp + p * fp mod q"
      unfolding r_def by (simp add: algebra_simps)
    moreover have "p * fp mod q < q" using q by simp
    ultimately have "q * (fp - r) < q * fp - p * fp + q" by simp
    also have "q * fp - p * fp = (q - p) * fp" by (simp add: algebra_simps)
    also have "(q - p) * fp \<le> (q - p) * q" using assms by (intro mult_left_mono) simp_all
    finally have "q * (fp - r) < q * (q - p + 1)" by (simp add: algebra_simps)
    then have "fp - r < q - p + 1" using q by simp
    with False rp(2) show ?thesis by (simp add: m_def)
  qed
  ultimately show "0 < peer_min p q fp" "peer_min p q fp \<le> p" "peer_min p q fp \<le> fp"
      "fp - peer_min p q fp \<le> q - p"
    by (simp_all add: pm)
qed

lemma peer_split_exact:
  assumes "\<forall>p \<in> set ps. 0 \<le> p" and "q = sum_list ps" and "0 \<le> fp" and "fp \<le> q"
  shows "sum_list (peer_split ps q fp) = fp \<and> (\<forall>j < length ps. 0 \<le> peer_split ps q fp ! j \<and> peer_split ps q fp ! j \<le> ps ! j)"
  using assms
proof (induction ps q fp rule: peer_split.induct)
  case (1 q fp)
  then show ?case by simp
next
  case (2 p ps q fp)
  have nn: "\<forall>p \<in> set ps. 0 \<le> p" "0 \<le> p" and rest: "0 \<le> sum_list ps"
    using "2.prems"(1) sum_list_nonneg_int by auto
  have zeros: "\<forall>j < length ps. 0 \<le> ps ! j" using nn(1) by simp
  show ?case
  proof (cases "p = 0 \<or> fp = 0")
    case True
    then show ?thesis
    proof
      assume p0: "p = 0"
      with 2(1) [OF p0 nn(1)] "2.prems" show ?thesis
        by (auto simp: nth_Cons split: nat.splits)
    next
      assume "fp = 0"
      with "2.prems" 2(1) nn zeros show ?thesis
        by (cases "p = 0") (auto simp: nth_Cons Let_def sum_list_triv peer_min_def split: nat.splits)
    qed
  next
    case False
    define m where "m = peer_min p q fp"
    have m: "0 < m" "m \<le> p" "m \<le> fp" "fp - m \<le> q - p"
      using peer_round [of p q fp] False "2.prems" nn(2) rest by (auto simp: m_def)
    show ?thesis
    proof (cases "fp - m \<le> 0")
      case True
      then have eq: "peer_split (p # ps) q fp = m # map (\<lambda>_. 0) ps"
        using False m(1) by (simp add: m_def [symmetric] Let_def)
      have "m = fp" using True m(3) by simp
      with eq m zeros show ?thesis by (auto simp: nth_Cons sum_list_triv split: nat.splits)
    next
      case more: False
      then have eq: "peer_split (p # ps) q fp = m # peer_split ps (q - p) (fp - m)"
        using False m(1) by (simp add: m_def [symmetric] Let_def)
      have "sum_list (peer_split ps (q - p) (fp - m)) = fp - m \<and>
          (\<forall>j < length ps. 0 \<le> peer_split ps (q - p) (fp - m) ! j \<and> peer_split ps (q - p) (fp - m) ! j \<le> ps ! j)"
        using 2(2) [OF _ m_def] False more m nn(1) "2.prems"(2)
        by simp
      with eq m show ?thesis by (auto simp: nth_Cons split: nat.splits)
    qed
  qed
qed

lemma category_share_bounds:
  assumes "0 < send_num" and "send_num \<le> tot" and "0 < q" and "q \<le> tot"
    and "\<forall>r. ratio = Some r \<longrightarrow> 0 \<le> r \<and> r \<le> 100"
  shows "0 \<le> category_share ratio send_num tot q" and "category_share ratio send_num tot q \<le> send_num"
    and "category_share ratio send_num tot q \<le> q"
    and "send_num - category_share ratio send_num tot q \<le> tot - q"
proof -
  define s0 where "s0 = send_num * q div tot"
  have tot: "0 < tot" using assms by simp
  have s0: "0 \<le> s0" "s0 \<le> q" "s0 \<le> send_num"
  proof -
    show "0 \<le> s0" using assms tot by (simp add: s0_def pos_imp_zdiv_nonneg_iff)
    have "send_num * q \<le> tot * q" using assms by simp
    then show "s0 \<le> q" unfolding s0_def using tot
      by (metis nonzero_mult_div_cancel_left order_less_irrefl zdiv_mono1)
    have "send_num * q \<le> send_num * tot" using assms by simp
    then show "s0 \<le> send_num" unfolding s0_def using tot
      by (metis nonzero_mult_div_cancel_right order_less_irrefl zdiv_mono1)
  qed
  have full: "q = tot \<Longrightarrow> s0 = send_num" using tot by (simp add: s0_def)
  obtain fp0 where fp0: "0 \<le> fp0" "fp0 \<le> q" "fp0 \<le> send_num" "q = tot \<Longrightarrow> fp0 = send_num"
    and eq: "category_share ratio send_num tot q =
      (if tot - q < send_num - fp0 \<and> 0 < tot - q then fp0 + (send_num - fp0 - (tot - q)) else fp0)"
  proof (cases ratio)
    case None
    then show thesis using s0 full that [of s0] by (simp add: category_share_def s0_def Let_def)
  next
    case (Some r)
    define m where "m = min (send_num * r div 100) q"
    have r: "0 \<le> r" "r \<le> 100" using assms(5) Some by auto
    have "send_num * r \<le> send_num * 100" using r assms(1) by simp
    then have "send_num * r div 100 \<le> send_num" by (metis nonzero_mult_div_cancel_right zdiv_mono1 zero_less_numeral zero_neq_numeral)
    moreover have "0 \<le> send_num * r div 100" using r assms(1) by (simp add: pos_imp_zdiv_nonneg_iff)
    ultimately have m: "0 \<le> m" "m \<le> q" "m \<le> send_num" using assms(3) by (auto simp: m_def)
    show thesis
    proof (cases "q < tot")
      case True
      then show thesis using m that [of m] Some by (simp add: category_share_def m_def Let_def)
    next
      case False
      then show thesis using s0 full that [of s0] Some assms(4) by (simp add: category_share_def s0_def Let_def)
    qed
  qed
  from eq fp0 assms show "0 \<le> category_share ratio send_num tot q" "category_share ratio send_num tot q \<le> send_num"
    "category_share ratio send_num tot q \<le> q" "send_num - category_share ratio send_num tot q \<le> tot - q"
    by (auto split: if_splits)
qed

text \<open>How many packets a split takes from each queue, and that no queue gives more than it has.\<close>

definition split_fits :: "int list list \<Rightarrow> int list list \<Rightarrow> bool" where
  "split_fits nss qss \<longleftrightarrow> list_all2 (list_all2 (\<lambda>n q. 0 \<le> n \<and> n \<le> q)) nss qss"

lemma zeros_fit: "\<forall>p \<in> set (ps :: int list). 0 \<le> p \<Longrightarrow> list_all2 (\<lambda>n q. 0 \<le> n \<and> n \<le> q) (map (\<lambda>_. 0 :: int) ps) ps"
  by (induction ps) auto

lemma category_split_exact:
  assumes "\<forall>c \<in> set cs. (\<forall>p \<in> set (snd c). 0 \<le> p) \<and> (\<forall>r. fst c = Some r \<longrightarrow> 0 \<le> r \<and> r \<le> 100)"
    and "tot = sum_list (map (\<lambda>c. sum_list (snd c)) cs)" and "0 \<le> send_num" and "send_num \<le> tot"
  shows "sum_list (map sum_list (category_split cs send_num tot)) = send_num \<and>
     split_fits (category_split cs send_num tot) (map snd cs)"
  using assms
proof (induction cs send_num tot rule: category_split.induct)
  case (1 send_num tot)
  then show ?case by (simp add: split_fits_def)
next
  case (2 ratio ps cs send_num tot)
  define q where "q = sum_list ps"
  have nn: "\<forall>p \<in> set ps. 0 \<le> p" "0 \<le> q" using "2.prems"(1) sum_list_nonneg_int by (auto simp: q_def)
  have rest: "0 \<le> sum_list (map (\<lambda>c. sum_list (snd c)) cs)"
    using "2.prems"(1) by (intro sum_list_nonneg_int) (auto intro: sum_list_nonneg_int)
  have tot: "tot = q + sum_list (map (\<lambda>c. sum_list (snd c)) cs)" using "2.prems"(2) by (simp add: q_def)
  have zsum: "sum_list (map (\<lambda>_. 0 :: int) xs) = 0" for xs :: "int list" by (induction xs) auto
  show ?case
  proof (cases "q \<le> 0")
    case True
    with 2(1) [OF q_def] "2.prems" nn tot zeros_fit [OF nn(1)] show ?thesis
      by (simp add: q_def [symmetric] split_fits_def zsum Let_def)
  next
    case q: False
    show ?thesis
    proof (cases "send_num \<le> 0")
      case True
      have z: "sum_list (map (sum_list \<circ> (\<lambda>c. map (\<lambda>_. 0 :: int) (snd c))) xs) = 0" for xs :: "(int option \<times> int list) list"
        by (induction xs) (auto simp: zsum)
      have f: "list_all2 (list_all2 (\<lambda>n q. 0 \<le> n \<and> n \<le> q)) (map (\<lambda>c. map (\<lambda>_. 0) (snd c)) xs) (map snd xs)"
        if "\<forall>c \<in> set xs. \<forall>p \<in> set (snd c). 0 \<le> p" for xs :: "(int option \<times> int list) list"
        using that by (induction xs) (auto intro: zeros_fit)
      have "\<forall>c \<in> set cs. \<forall>p \<in> set (snd c). 0 \<le> p" using "2.prems"(1) by auto
      from f [OF this] q True "2.prems"(3) zeros_fit [OF nn(1)] show ?thesis
        by (simp add: q_def [symmetric] split_fits_def zsum z Let_def)
    next
      case False
      define fp where "fp = category_share ratio send_num tot q"
      have b: "0 \<le> fp" "fp \<le> send_num" "fp \<le> q" "send_num - fp \<le> tot - q"
        using category_share_bounds [of send_num tot q ratio] q False "2.prems" tot rest
        by (auto simp: fp_def)
      have p: "sum_list (peer_split ps q fp) = fp" "list_all2 (\<lambda>n q. 0 \<le> n \<and> n \<le> q) (peer_split ps q fp) ps"
        using peer_split_exact [OF nn(1) q_def b(1,3)] by (auto simp: list_all2_conv_all_nth)
      have "sum_list (map sum_list (category_split cs (send_num - fp) (tot - q))) = send_num - fp \<and>
          split_fits (category_split cs (send_num - fp) (tot - q)) (map snd cs)"
        using 2(2) [OF q_def q False fp_def] "2.prems"(1) tot b by simp
      with p q False show ?thesis
        by (simp add: q_def [symmetric] fp_def [symmetric] split_fits_def Let_def)
    qed
  qed
qed

section \<open>Moving the packets\<close>

definition rest_of :: "peer_list \<Rightarrow> int \<Rightarrow> peer_list" where
  "rest_of p n = p\<lparr>head_list := drop (nat n) (head_list p), l_num := l_num p - n\<rparr>"

definition taken_of :: "peer_list \<Rightarrow> int \<Rightarrow> nat list" where
  "taken_of p n = take (nat n) (head_list p)"

definition peer_ok :: "peer_list \<Rightarrow> bool" where
  "peer_ok p \<longleftrightarrow> l_num p = int (length (head_list p))"

definition fits :: "int list \<Rightarrow> peer_list list \<Rightarrow> bool" where
  "fits ns ps \<longleftrightarrow> list_all2 (\<lambda>n p. 0 \<le> n \<and> n \<le> l_num p) ns ps"

lemma merge_peers_eq:
  assumes "fits ns ps" and "\<forall>p \<in> set ps. peer_ok p"
  shows "merge_peers ps ns (out, k) =
     (map2 rest_of ps ns, (out @ concat (map2 taken_of ps ns), k - sum_list ns))"
  using assms
proof (induction ps arbitrary: ns out k)
  case Nil
  then show ?case by (simp add: fits_def)
next
  case (Cons p ps)
  then obtain n ns' where ns: "ns = n # ns'" "0 \<le> n" "n \<le> l_num p" "fits ns' ps"
    by (auto simp: fits_def list_all2_Cons2)
  have p: "l_num p = int (length (head_list p))" using Cons.prems(2) by (simp add: peer_ok_def)
  have "(if n = 0 then (out, p) else add_xmit_list_tail p n out) =
      (out @ taken_of p n, p\<lparr>head_list := drop (nat n) (head_list p)\<rparr>)"
    using ns(2,3) p by (auto simp: add_xmit_list_tail_def taken_of_def)
  with Cons.IH [OF ns(4), of "out @ taken_of p n" "k - n"] Cons.prems(2) ns(1) show ?case
    by (simp add: rest_of_def Let_def)
qed

definition queues_of :: "tx_t \<Rightarrow> peer_list list list" where
  "queues_of t = map p_list (q_list t)"

definition queued :: "tx_t \<Rightarrow> nat multiset" where
  "queued t = mset (concat (map head_list (concat (queues_of t))))"

definition queues_ok :: "tx_t \<Rightarrow> bool" where
  "queues_ok t \<longleftrightarrow> length (q_list t) = 4 \<and> (\<forall>p \<in> set (concat (queues_of t)). peer_ok p) \<and>
     mode_list_num t = sum_list (map l_num (concat (queues_of t)))"

lemma merge_qos_eq:
  assumes "list_all2 (\<lambda>ns q. fits ns (p_list q)) nss qs" and "\<forall>q \<in> set qs. \<forall>p \<in> set (p_list q). peer_ok p"
  shows "merge_qos qs nss (out, k) =
     (map2 (\<lambda>q ns. q\<lparr>p_list := map2 rest_of (p_list q) ns\<rparr>) qs nss,
      (out @ concat (map2 (\<lambda>q ns. concat (map2 taken_of (p_list q) ns)) qs nss), k - sum_list (map sum_list nss)))"
  using assms
proof (induction qs arbitrary: nss out k rule: list.induct)
  case (Cons q qs)
  then obtain ns nss' where "nss = ns # nss'" "fits ns (p_list q)" "list_all2 (\<lambda>ns q. fits ns (p_list q)) nss' qs"
    by (auto simp: list_all2_Cons2)
  with Cons.IH Cons.prems(2) merge_peers_eq [of ns "p_list q"] show ?case by simp
qed simp

text \<open>The packets of one category after and before the move.\<close>

lemma peers_conserve:
  assumes "fits ns ps"
  shows "mset (concat (map2 taken_of ps ns)) + mset (concat (map head_list (map2 rest_of ps ns)))
       = mset (concat (map head_list ps))"
    and "\<forall>p \<in> set ps. peer_ok p \<Longrightarrow> int (length (concat (map2 taken_of ps ns))) = sum_list ns \<and>
      (\<forall>p \<in> set (map2 rest_of ps ns). peer_ok p) \<and>
      sum_list (map l_num (map2 rest_of ps ns)) = sum_list (map l_num ps) - sum_list ns"
proof -
  show "mset (concat (map2 taken_of ps ns)) + mset (concat (map head_list (map2 rest_of ps ns)))
       = mset (concat (map head_list ps))"
    using assms unfolding fits_def
  proof (induction ns ps rule: list_all2_induct)
    case (Cons n ns p ps)
    have "mset (taken_of p n) + mset (head_list (rest_of p n)) = mset (head_list p)"
      by (simp add: taken_of_def rest_of_def mset_append [symmetric] del: mset_append)
    with Cons.IH show ?case by (simp add: ac_simps)
  qed simp
  show "\<forall>p \<in> set ps. peer_ok p \<Longrightarrow> int (length (concat (map2 taken_of ps ns))) = sum_list ns \<and>
      (\<forall>p \<in> set (map2 rest_of ps ns). peer_ok p) \<and>
      sum_list (map l_num (map2 rest_of ps ns)) = sum_list (map l_num ps) - sum_list ns"
    using assms unfolding fits_def
  proof (induction ns ps rule: list_all2_induct)
    case (Cons n ns p ps)
    then show ?case by (auto simp: taken_of_def rest_of_def peer_ok_def)
  qed simp
qed

lemma qos_conserve:
  assumes "list_all2 (\<lambda>ns q. fits ns (p_list q)) nss qs"
  defines "qs' \<equiv> map2 (\<lambda>q ns. q\<lparr>p_list := map2 rest_of (p_list q) ns\<rparr>) qs nss"
    and "sent \<equiv> concat (map2 (\<lambda>q ns. concat (map2 taken_of (p_list q) ns)) qs nss)"
  shows "mset sent + mset (concat (map head_list (concat (map p_list qs')))) =
       mset (concat (map head_list (concat (map p_list qs))))"
    and "\<forall>q \<in> set qs. \<forall>p \<in> set (p_list q). peer_ok p \<Longrightarrow>
      int (length sent) = sum_list (map sum_list nss) \<and> (\<forall>p \<in> set (concat (map p_list qs')). peer_ok p) \<and>
      sum_list (map l_num (concat (map p_list qs'))) =
        sum_list (map l_num (concat (map p_list qs))) - sum_list (map sum_list nss)"
proof -
  show "mset sent + mset (concat (map head_list (concat (map p_list qs')))) =
       mset (concat (map head_list (concat (map p_list qs))))"
    using assms(1) unfolding qs'_def sent_def
  proof (induction nss qs rule: list_all2_induct)
    case (Cons ns nss q qs)
    with peers_conserve(1) [OF Cons.hyps(1)] show ?case by (simp add: ac_simps)
  qed simp
  show "\<forall>q \<in> set qs. \<forall>p \<in> set (p_list q). peer_ok p \<Longrightarrow>
      int (length sent) = sum_list (map sum_list nss) \<and> (\<forall>p \<in> set (concat (map p_list qs')). peer_ok p) \<and>
      sum_list (map l_num (concat (map p_list qs'))) =
        sum_list (map l_num (concat (map p_list qs))) - sum_list (map sum_list nss)"
    using assms(1) unfolding qs'_def sent_def
  proof (induction nss qs rule: list_all2_induct)
    case (Cons ns nss q qs)
    with peers_conserve(2) [OF Cons.hyps(1)] show ?case by auto
  qed simp
qed

lemma split_fits_queues:
  assumes "split_fits nss (queue_nums t)"
  shows "list_all2 (\<lambda>ns q. fits ns (p_list q)) nss (q_list t)"
  using assms by (simp add: split_fits_def queue_nums_def fits_def list_all2_map2)

lemma split_fits_refl: "\<forall>ns \<in> set nss. \<forall>n \<in> set ns. 0 \<le> n \<Longrightarrow> split_fits nss nss"
  unfolding split_fits_def by (intro list.rel_refl_strong) auto

lemma chosen_nums:
  assumes "queues_ok t" and "0 \<le> send_num"
  defines "tot \<equiv> sum_list (map sum_list (queue_nums t))"
  defines "nums \<equiv> (if tot \<le> send_num then queue_nums t
                    else category_split (zip qos_ratios (queue_nums t)) send_num tot)"
  shows "split_fits nums (queue_nums t)" and "sum_list (map sum_list nums) = min send_num tot"
proof -
  have nn: "\<forall>ns \<in> set (queue_nums t). \<forall>n \<in> set ns. 0 \<le> n"
    using assms(1) by (auto simp: queues_ok_def queues_of_def queue_nums_def peer_ok_def)
  have "length (queue_nums t) = 4" using assms(1) by (simp add: queues_ok_def queue_nums_def)
  then have z: "map snd (zip qos_ratios (queue_nums t)) = queue_nums t" by (simp add: qos_ratios_def)
  have cs: "\<forall>c \<in> set (zip qos_ratios (queue_nums t)).
      (\<forall>p \<in> set (snd c). 0 \<le> p) \<and> (\<forall>r. fst c = Some r \<longrightarrow> 0 \<le> r \<and> r \<le> 100)"
  proof
    fix c assume "c \<in> set (zip qos_ratios (queue_nums t))"
    then have "fst c \<in> set qos_ratios" "snd c \<in> set (queue_nums t)"
      by (metis in_set_zipE prod.collapse)+
    with nn show "(\<forall>p \<in> set (snd c). 0 \<le> p) \<and> (\<forall>r. fst c = Some r \<longrightarrow> 0 \<le> r \<and> r \<le> 100)"
      by (auto simp: qos_ratios_def vo_ratio_def vi_ratio_def be_ratio_def)
  qed
  have sum: "tot = sum_list (map (\<lambda>c. sum_list (snd c)) (zip qos_ratios (queue_nums t)))"
    unfolding tot_def using arg_cong [OF z, of "\<lambda>x. sum_list (map sum_list x)"] by (simp add: comp_def)
  show "split_fits nums (queue_nums t)" "sum_list (map sum_list nums) = min send_num tot"
    using category_split_exact [OF cs sum assms(2)] split_fits_refl [OF nn] z
    by (auto simp: nums_def tot_def min_def)
qed

lemma queue_nums_sum: "sum_list (map sum_list (queue_nums t)) = sum_list (map l_num (concat (queues_of t)))"
proof -
  have "sum_list (map sum_list (map (\<lambda>q. map l_num (p_list q)) qs)) = sum_list (map l_num (concat (map p_list qs)))" for qs
    by (induction qs) auto
  then show ?thesis by (simp add: queue_nums_def queues_of_def)
qed

lemma rests_are_suffixes:
  assumes "list_all2 (\<lambda>ns q. fits ns (p_list q)) nss qs"
  shows "list_all2 (list_all2 (\<lambda>p' p. \<exists>k. head_list p' = drop k (head_list p)))
     (map p_list (map2 (\<lambda>q ns. q\<lparr>p_list := map2 rest_of (p_list q) ns\<rparr>) qs nss)) (map p_list qs)"
  using assms
proof (induction nss qs rule: list_all2_induct)
  case (Cons ns nss q qs)
  have "length ns = length (p_list q)" using Cons.hyps(1) by (simp add: fits_def list_all2_lengthD)
  then have "list_all2 (\<lambda>p' p. \<exists>k. head_list p' = drop k (head_list p)) (map2 rest_of (p_list q) ns) (p_list q)"
    by (auto simp: list_all2_conv_all_nth rest_of_def)
  with Cons.IH show ?case by simp
qed simp

text \<open>
  C18. From queues whose counters are right, choosing packets for \<open>send_num\<close> credits moves exactly
  as many packets to the send list as there are credits, or all when there are fewer packets.
  None is lost or doubled, each queue gives its oldest packets, and the counters stay right.
\<close>

theorem merge_uses_every_credit:
  assumes "queues_ok t" and "0 \<le> send_num" and "sprdwl_tx_merge send_num t out = (out', t')"
  shows "\<exists>sent. out' = out @ sent \<and> int (length sent) = min send_num (mode_list_num t) \<and>
     mset sent + queued t' = queued t \<and> queues_ok t' \<and>
     list_all2 (list_all2 (\<lambda>p' p. \<exists>k. head_list p' = drop k (head_list p))) (queues_of t') (queues_of t)"
proof -
  define tot where "tot = sum_list (map sum_list (queue_nums t))"
  define nums where "nums = (if tot \<le> send_num then queue_nums t
                    else category_split (zip qos_ratios (queue_nums t)) send_num tot)"
  define qs' where "qs' = map2 (\<lambda>q ns. q\<lparr>p_list := map2 rest_of (p_list q) ns\<rparr>) (q_list t) nums"
  define sent where "sent = concat (map2 (\<lambda>q ns. concat (map2 taken_of (p_list q) ns)) (q_list t) nums)"
  have n: "split_fits nums (queue_nums t)" "sum_list (map sum_list nums) = min send_num tot"
    unfolding nums_def tot_def using chosen_nums [OF assms(1,2)] by blast+
  note f = split_fits_queues [OF n(1)]
  have ok: "\<forall>q \<in> set (q_list t). \<forall>p \<in> set (p_list q). peer_ok p"
    using assms(1) by (auto simp: queues_ok_def queues_of_def)
  have tot: "tot = mode_list_num t" using assms(1) queue_nums_sum by (simp add: tot_def queues_ok_def)
  have t': "out' = out @ sent" "t' = t\<lparr>q_list := qs', mode_list_num := mode_list_num t - min send_num tot\<rparr>"
    using assms(3) merge_qos_eq [OF f ok, of out "mode_list_num t"] n(2)
    by (auto simp: sprdwl_tx_merge_def tot_def [symmetric] nums_def [symmetric] qs'_def sent_def)
  have len: "length nums = length (q_list t)" using f by (rule list_all2_lengthD)
  have c: "mset sent + queued t' = queued t" "int (length sent) = min send_num (mode_list_num t)"
      "\<forall>p \<in> set (concat (map p_list qs')). peer_ok p"
      "sum_list (map l_num (concat (map p_list qs'))) = mode_list_num t - min send_num tot"
    using qos_conserve [OF f] ok n(2) tot assms(1) t'(2)
    by (simp_all add: qs'_def sent_def queued_def queues_of_def queues_ok_def)
  moreover have "queues_ok t'"
    using c(3,4) t'(2) len assms(1) by (simp add: queues_ok_def queues_of_def qs'_def)
  moreover have "list_all2 (list_all2 (\<lambda>p' p. \<exists>k. head_list p' = drop k (head_list p))) (queues_of t') (queues_of t)"
    using rests_are_suffixes [OF f] t'(2) by (simp add: queues_of_def qs'_def)
  ultimately show ?thesis using t'(1) by blast
qed

definition ex_peer_q :: "nat list \<Rightarrow> peer_list" where
  "ex_peer_q ms = \<lparr>head_list = ms, l_num = int (length ms)\<rparr>"

definition ex_tx_t :: tx_t where
  "ex_tx_t = \<lparr>tx_ac_index = 0, tx_lut_id = 0, mode_list_num = 5,
     q_list = [\<lparr>p_list = [ex_peer_q [1, 2, 3], ex_peer_q []]\<rparr>, \<lparr>p_list = [ex_peer_q []]\<rparr>,
               \<lparr>p_list = []\<rparr>, \<lparr>p_list = [ex_peer_q [4], ex_peer_q [5]]\<rparr>]\<rparr>"

theorem merge_uses_every_credit_witness:
  "int (length (fst (sprdwl_tx_merge 2 ex_tx_t []))) = 2"
proof -
  have ok: "queues_ok ex_tx_t"
    by (simp add: queues_ok_def queues_of_def ex_tx_t_def ex_peer_q_def peer_ok_def)
  obtain out' t' where m: "sprdwl_tx_merge 2 ex_tx_t [] = (out', t')" by force
  have "mode_list_num ex_tx_t = 5" by (simp add: ex_tx_t_def)
  with merge_uses_every_credit [OF ok _ m] m show ?thesis by auto
qed

text \<open>
  With one credit and packets in several categories the ratios round down to nothing for the
  higher ones, so that the credit goes to the lowest.
\<close>

lemma single_credit_goes_to_background:
  "category_split [(Some vo_ratio, [3]), (Some vi_ratio, [0]), (Some be_ratio, [0]), (None, [2])] 1 5
     = [[0], [0], [0], [1]]"
  by (simp add: category_share_def vo_ratio_def peer_min_def)

end
