(* ===== verification/Cmd.thy ===== *)
theory Cmd
  imports Prelude
begin

text \<open>
  The command in flight of WIFI/cmdevt.c: a thread sends a command and waits, the receive
  thread matches responses against it by time stamp and command number. Also the checksum of
  the configuration. The clock, the results of the bus and the state of the interface are
  parameters; log output is left out.
\<close>

section \<open>Messages\<close>

text \<open>A message is its bytes. The header \<open>struct sprdwl_cmd_hdr\<close> is packed and little endian.\<close>

definition get_le16 :: "u8 list \<Rightarrow> nat \<Rightarrow> u16 option" where
  "get_le16 m i = do { lo \<leftarrow> aget m i; hi \<leftarrow> aget m (i + 1); Some (ucast lo OR push_bit 8 (ucast hi)) }"

definition get_le32 :: "u8 list \<Rightarrow> nat \<Rightarrow> u32 option" where
  "get_le32 m i = do {
     lo \<leftarrow> get_le16 m i; hi \<leftarrow> get_le16 m (i + 2); Some (ucast lo OR push_bit 16 (ucast hi)) }"

definition CMD_HDR_SIZE :: nat where "CMD_HDR_SIZE = 12"

definition hdr_ctx_id :: "u8 list \<Rightarrow> u8 option" where
  "hdr_ctx_id m = map_option (drop_bit 5) (aget m 0)"

definition hdr_cmd_id :: "u8 list \<Rightarrow> u8 option" where
  "hdr_cmd_id m = aget m 1"

definition hdr_plen :: "u8 list \<Rightarrow> u16 option" where
  "hdr_plen m = get_le16 m 2"

definition hdr_mstime :: "u8 list \<Rightarrow> u32 option" where
  "hdr_mstime m = get_le32 m 4"

definition hdr_status :: "u8 list \<Rightarrow> u8 option" where
  "hdr_status m = aget m 8"

section \<open>The state of the command in flight\<close>

definition SPRDWL_CMD_EXIT_VAL :: int where "SPRDWL_CMD_EXIT_VAL = 0x8000"
definition STAP_MODE_P2P_DEVICE :: u8 where "STAP_MODE_P2P_DEVICE = 2"
definition WIFI_CMD_GET_INFO :: u8 where "WIFI_CMD_GET_INFO = 1"
definition WIFI_CMD_SET_REGDOM :: u8 where "WIFI_CMD_SET_REGDOM = 2"
definition WIFI_CMD_OPEN :: u8 where "WIFI_CMD_OPEN = 3"
definition WIFI_CMD_CLOSE :: u8 where "WIFI_CMD_CLOSE = 4"
definition WIFI_CMD_SYNC_VERSION :: u8 where "WIFI_CMD_SYNC_VERSION = 9"
definition WIFI_CMD_DOWNLOAD_INI :: u8 where "WIFI_CMD_DOWNLOAD_INI = 76"
definition WIFI_CMD_HANG_RECEIVED :: u8 where "WIFI_CMD_HANG_RECEIVED = 78"

record sprdwl_cmd =
  c_cmd_id :: u8
  c_init_ok :: bool
  c_mstime :: u32
  c_data :: "u8 list option"
  c_refcnt :: int
  c_completed :: nat

definition sprdwl_cmd_init :: "bool \<Rightarrow> sprdwl_cmd \<Rightarrow> sprdwl_cmd \<times> int" where
  "sprdwl_cmd_init wake_lock c =
     (let c = c\<lparr>c_data := None\<rparr> in
      if \<not> wake_lock then (c, - 22) else (c\<lparr>c_completed := 0, c_init_ok := True\<rparr>, 0))"

definition sprdwl_cmd_wake_upall :: "sprdwl_cmd \<Rightarrow> sprdwl_cmd" where
  "sprdwl_cmd_wake_upall c = c\<lparr>c_completed := c_completed c + 1\<rparr>"

definition sprdwl_cmd_set :: "u8 \<Rightarrow> u32 \<Rightarrow> sprdwl_cmd \<Rightarrow> sprdwl_cmd" where
  "sprdwl_cmd_set cid msec c = c\<lparr>c_data := None, c_mstime := msec, c_cmd_id := cid\<rparr>"

definition sprdwl_cmd_clean :: "sprdwl_cmd \<Rightarrow> sprdwl_cmd" where
  "sprdwl_cmd_clean c = c\<lparr>c_data := None, c_mstime := 0, c_cmd_id := 0\<rparr>"

text \<open>Up to the loop that waits until nobody is inside.\<close>

definition sprdwl_cmd_deinit_start :: "sprdwl_cmd \<Rightarrow> sprdwl_cmd" where
  "sprdwl_cmd_deinit_start c = c\<lparr>c_refcnt := c_refcnt c + SPRDWL_CMD_EXIT_VAL, c_completed := c_completed c + 1\<rparr>"

text \<open>The count is raised before the mutex is taken; -1 without the mutex when the driver exits.\<close>

definition sprdwl_cmd_lock :: "sprdwl_cmd \<Rightarrow> sprdwl_cmd \<times> int" where
  "sprdwl_cmd_lock c = (if c_refcnt c + 1 \<ge> SPRDWL_CMD_EXIT_VAL then (c, - 1) else (c\<lparr>c_refcnt := c_refcnt c + 1\<rparr>, 0))"

definition sprdwl_cmd_unlock :: "sprdwl_cmd \<Rightarrow> sprdwl_cmd" where
  "sprdwl_cmd_unlock c = c\<lparr>c_refcnt := c_refcnt c - 1\<rparr>"

text \<open>Commands for which a buffer is given out; after a reset of the chip only those that set it up again.\<close>

definition cmd_getbuf_allowed :: "bool \<Rightarrow> bool \<Rightarrow> u8 \<Rightarrow> bool" where
  "cmd_getbuf_allowed cp_asserted cp2_reset_flag cmd_id \<longleftrightarrow>
     \<not> cp_asserted \<and>
     (cp2_reset_flag \<longrightarrow> cmd_id = WIFI_CMD_SYNC_VERSION \<or> cmd_id = WIFI_CMD_DOWNLOAD_INI \<or> cmd_id = WIFI_CMD_GET_INFO \<or>
        cmd_id = WIFI_CMD_OPEN \<or> cmd_id = WIFI_CMD_SET_REGDOM)"

section \<open>Responses\<close>

definition WIFI_CMD_MAX :: u8 where "WIFI_CMD_MAX = 85"
definition SPRDWL_CMD_STATUS_ARG_ERROR :: u8 where "SPRDWL_CMD_STATUS_ARG_ERROR = - 1"
definition SPRDWL_CMD_STATUS_CRC_ERROR :: u8 where "SPRDWL_CMD_STATUS_CRC_ERROR = - 9"
definition SPRDWL_CMD_STATUS_INI_INDEX_ERROR :: u8 where "SPRDWL_CMD_STATUS_INI_INDEX_ERROR = - 10"
definition SPRDWL_CMD_STATUS_LENGTH_ERROR :: u8 where "SPRDWL_CMD_STATUS_LENGTH_ERROR = - 11"

definition handle_rsp_status_err :: "u8 \<Rightarrow> u8 \<Rightarrow> int" where
  "handle_rsp_status_err cmd_id status =
     (if cmd_id = WIFI_CMD_DOWNLOAD_INI then
        (if status = SPRDWL_CMD_STATUS_CRC_ERROR \<or> status = SPRDWL_CMD_STATUS_INI_INDEX_ERROR \<or>
            status = SPRDWL_CMD_STATUS_LENGTH_ERROR then - 1 else 0)
      else if cmd_id = WIFI_CMD_OPEN then (if status = SPRDWL_CMD_STATUS_ARG_ERROR then - 1 else 0)
      else 0)"

text \<open>\<open>kmalloc_ok\<close> tells whether the copy can be allocated. The result has the return value and the flag of the status.\<close>

definition sprdwl_rx_rsp_process :: "bool \<Rightarrow> u8 list \<Rightarrow> sprdwl_cmd \<Rightarrow> (sprdwl_cmd \<times> u16 \<times> int) option" where
  "sprdwl_rx_rsp_process kmalloc_ok msg c =
     (if \<not> c_init_ok c then Some (c, 0, 0)
      else do {
        plen \<leftarrow> hdr_plen msg; ctx_id \<leftarrow> hdr_ctx_id msg; cmd_id \<leftarrow> hdr_cmd_id msg;
        if ctx_id > STAP_MODE_P2P_DEVICE \<or> cmd_id > WIFI_CMD_MAX \<or> plen > 2048 then Some (c, 0, 0)
        else if c_refcnt c + 1 \<ge> SPRDWL_CMD_EXIT_VAL then Some (c, 0, 0)
        else if \<not> kmalloc_ok then Some (c, plen, 0)
        else do {
          data \<leftarrow> read_bytes msg 0 (unat plen);
          mstime \<leftarrow> hdr_mstime msg; status \<leftarrow> hdr_status msg;
          if c_data c = None \<and> mstime = c_mstime c \<and> cmd_id = c_cmd_id c
          then Some (c\<lparr>c_data := Some data, c_completed := c_completed c + 1\<rparr>, plen,
                     if status \<noteq> 0 then handle_rsp_status_err cmd_id status else 0)
          else Some (c, plen, 0) } })"

section \<open>Sending and waiting\<close>

definition HANG_RECOVERY_END :: nat where "HANG_RECOVERY_END = 1"
definition HANG_RECOVERY_ACKED :: nat where "HANG_RECOVERY_ACKED = 2"

definition reinit_completion :: "sprdwl_cmd \<Rightarrow> sprdwl_cmd" where
  "reinit_completion c = c\<lparr>c_completed := 0\<rparr>"

text \<open>After the wait: \<open>exit\<close> and \<open>hang\<close> are the state of the interface.\<close>

definition cmd_wait_result :: "bool \<Rightarrow> nat \<Rightarrow> sprdwl_cmd \<Rightarrow> int" where
  "cmd_wait_result exit hang c =
     (if exit \<or> c_refcnt c \<ge> SPRDWL_CMD_EXIT_VAL then - 1
      else if hang = HANG_RECOVERY_ACKED \<and> c_cmd_id c \<noteq> WIFI_CMD_HANG_RECEIVED then - 1
      else if c_data c \<noteq> None then 0 else - 1)"

text \<open>The wait ends with a completion, which it takes, or with the timeout.\<close>

definition sprdwl_timeout_recv_rsp :: "bool \<Rightarrow> nat \<Rightarrow> sprdwl_cmd \<Rightarrow> sprdwl_cmd \<times> int" where
  "sprdwl_timeout_recv_rsp exit hang c =
     (if c_completed c = 0 then (c, - 1)
      else let c = c\<lparr>c_completed := c_completed c - 1\<rparr> in (c, cmd_wait_result exit hang c))"

text \<open>\<open>rbuf\<close> has as many bytes as \<open>*rlen\<close> says. The new contents, and the new \<open>*rlen\<close>.\<close>

definition rsp_copy :: "u8 \<Rightarrow> u8 list \<Rightarrow> u8 list \<Rightarrow> (u8 list \<times> nat) option" where
  "rsp_copy cmd_id rbuf data = do {
     len \<leftarrow> hdr_plen data;
     let plen = len - of_nat CMD_HDR_SIZE;
     let rlen = min (length rbuf) (unat plen);
     pay \<leftarrow> read_bytes data CMD_HDR_SIZE rlen;
     rbuf \<leftarrow> memcpy_at rbuf 0 pay;
     if cmd_id = WIFI_CMD_OPEN then do { ctx \<leftarrow> hdr_ctx_id data; rbuf \<leftarrow> aset rbuf 0 ctx; Some (rbuf, rlen) }
     else Some (rbuf, rlen) }"

text \<open>The assertion that a command without an answer asks for.\<close>

datatype cmd_assert = No_assert | Assert_now | Assert_work

definition timeout_assert :: "u8 \<Rightarrow> bool \<Rightarrow> bool \<Rightarrow> nat \<Rightarrow> cmd_assert" where
  "timeout_assert cmd_id vif exit hang =
     (if cmd_id = WIFI_CMD_CLOSE then Assert_now
      else if vif \<and> hang = HANG_RECOVERY_END \<and> \<not> exit then Assert_work
      else No_assert)"

text \<open>A command that wants an answer becomes the one in flight; what the bus says is a parameter below.\<close>

definition sprdwl_cmd_send_to_ic :: "bool \<Rightarrow> u8 \<Rightarrow> u32 \<Rightarrow> sprdwl_cmd \<Rightarrow> sprdwl_cmd" where
  "sprdwl_cmd_send_to_ic rsp cmd_id msec c = (if rsp then sprdwl_cmd_set cmd_id msec c else c)"

text \<open>
  \<open>rsp\<close> and \<open>cmd_id\<close> are the fields of the header of the command,
  \<open>api\<close> is the result of \<open>sprdwl_api_available_check\<close>, \<open>send\<close> the one of \<open>sprdwl_send_cmd\<close>, \<open>msec\<close> the clock, and
  \<open>late\<close> and \<open>others\<close> what other threads do to the state before the command is set and from then until the wait ends. An empty \<open>rbuf\<close> stands for a caller that wants no data.
  The result: the state, the return value, buffer and length, and the assertion.
\<close>

definition sprdwl_cmd_send_recv ::
  "int \<Rightarrow> bool \<Rightarrow> u8 \<Rightarrow> u32 \<Rightarrow> (sprdwl_cmd \<Rightarrow> sprdwl_cmd option) \<Rightarrow> int \<Rightarrow> (sprdwl_cmd \<Rightarrow> sprdwl_cmd option) \<Rightarrow>
     bool \<Rightarrow> nat \<Rightarrow> bool \<Rightarrow> bool \<Rightarrow> u8 list \<Rightarrow> sprdwl_cmd \<Rightarrow> (sprdwl_cmd \<times> int \<times> u8 list \<times> nat \<times> cmd_assert) option" where
  "sprdwl_cmd_send_recv api rsp cmd_id msec late send others exit hang cp_asserted vif rbuf c =
     (if api \<noteq> 0 then Some (c, api, rbuf, 0, No_assert)
      else let (c, l) = sprdwl_cmd_lock c in
      if l \<noteq> 0 then Some (c, 0, rbuf, 0, No_assert)
      else do {
        c \<leftarrow> late (reinit_completion c);
        let c = sprdwl_cmd_send_to_ic rsp cmd_id msec c;
        if send \<noteq> 0 then Some (sprdwl_cmd_unlock c, - 1, rbuf, length rbuf, No_assert)
        else do {
          c \<leftarrow> others c;
          let (c, ret) = sprdwl_timeout_recv_rsp exit hang c;
          if cp_asserted then Some (sprdwl_cmd_unlock c, ret, rbuf, length rbuf, No_assert)
          else if ret \<noteq> - 1 then
            (if rbuf \<noteq> [] then do {
               data \<leftarrow> c_data c; (rbuf, rlen) \<leftarrow> rsp_copy cmd_id rbuf data;
               Some (sprdwl_cmd_unlock c, ret, rbuf, rlen, No_assert) }
             else Some (sprdwl_cmd_unlock c, ret, rbuf, 0, No_assert))
          else Some (sprdwl_cmd_unlock c, ret, rbuf, length rbuf, timeout_assert cmd_id vif exit hang) } })"

definition sprdwl_cmd_send_recv_no_wait :: "bool \<Rightarrow> u8 \<Rightarrow> u32 \<Rightarrow> int \<Rightarrow> sprdwl_cmd \<Rightarrow> sprdwl_cmd \<times> int" where
  "sprdwl_cmd_send_recv_no_wait rsp cmd_id msec send c =
     (let (c, l) = sprdwl_cmd_lock c in
      if l \<noteq> 0 then (c, 0)
      else let c = sprdwl_cmd_unlock (sprdwl_cmd_send_to_ic rsp cmd_id msec c) in
        if send \<noteq> 0 then (c, - 1) else (c, send))"

section \<open>Checksum of the configuration\<close>

definition CRC_table :: "u16 list" where
  "CRC_table = [0x0000, 0xCC01, 0xD801, 0x1400, 0xF001, 0x3C00, 0x2800, 0xE401,
     0xA001, 0x6C00, 0x7800, 0xB401, 0x5000, 0x9C01, 0x8801, 0x4400]"

fun crc16_loop :: "u16 \<Rightarrow> u8 list \<Rightarrow> u16 option" where
  "crc16_loop crc [] = Some crc"
| "crc16_loop crc (ch # buf) = do {
     t1 \<leftarrow> aget CRC_table (unat ((ucast ch XOR crc) AND 15));
     let crc = t1 XOR drop_bit 4 crc;
     t2 \<leftarrow> aget CRC_table (unat ((drop_bit 4 (ucast ch) XOR crc) AND 15));
     crc16_loop (t2 XOR drop_bit 4 crc) buf }"

definition CRC16 :: "u8 list \<Rightarrow> u16 option" where
  "CRC16 buf = crc16_loop 0xFFFF buf"

end
