(* ===== verification/Cmd_Correct.thy ===== *)
theory Cmd_Correct
  imports Cmd
begin

text \<open>
  The command in flight: the checksum is the bitwise CRC-16; a caller gets the first response
  that carries the time stamp and number of its own command, whatever other threads do in
  between; and the cases the code does not handle.
\<close>

section \<open>The checksum\<close>

text \<open>The reference: the reflected CRC-16 with the polynomial 0xA001, one bit at a time.\<close>

definition crc_bit :: "u16 \<Rightarrow> u16" where
  "crc_bit c = (if bit c 0 then drop_bit 1 c XOR 0xA001 else drop_bit 1 c)"

definition crc_byte :: "u16 \<Rightarrow> u8 \<Rightarrow> u16" where
  "crc_byte c ch = (crc_bit ^^ 8) (c XOR ucast ch)"

lemma crc_bit_xor: "crc_bit (a XOR b) = crc_bit a XOR crc_bit b"
proof -
  have x: "bit (a XOR b) 0 \<longleftrightarrow> bit a 0 \<noteq> bit b 0" by (simp add: bit_xor_iff)
  have d: "drop_bit 1 (a XOR b) = drop_bit 1 a XOR drop_bit 1 b" by (rule drop_bit_xor)
  have "(k :: u16) XOR k = 0" for k by simp
  then show ?thesis unfolding crc_bit_def x d by (auto simp: xor.assoc xor.left_commute xor.commute)
qed

lemma crc_bits_xor: "(crc_bit ^^ n) (a XOR b) = (crc_bit ^^ n) a XOR (crc_bit ^^ n) b"
  by (induction n) (simp_all add: crc_bit_xor)

lemma crc_bits_shift:
  "(\<And>k. k < n \<Longrightarrow> \<not> bit z k) \<Longrightarrow> (crc_bit ^^ n) z = drop_bit n z"
proof (induction n)
  case (Suc n)
  have "\<not> bit (drop_bit n z) 0" using Suc.prems [of n] by (simp add: bit_drop_bit_eq)
  then have "crc_bit (drop_bit n z) = drop_bit 1 (drop_bit n z)" by (simp add: crc_bit_def)
  also have "\<dots> = drop_bit (Suc n) z" by (simp only: drop_bit_drop_bit) simp
  finally show ?case using Suc by simp
qed simp

lemma crc_table_nibbles: "\<forall>n \<in> set [0..<16]. (crc_bit ^^ 4) (of_nat n) = CRC_table ! n"
  by code_simp

lemma crc_nibble: "(crc_bit ^^ 4) c = CRC_table ! unat (c AND 15) XOR drop_bit 4 c"
proof -
  have m: "(15 :: u16) = mask 4" by (simp add: mask_eq_exp_minus_1)
  define lo where "lo = c AND mask 4"
  define hi where "hi = c AND NOT (mask 4)"
  have c: "c = lo XOR hi" unfolding lo_def hi_def by (rule bit_eqI) (auto simp: bit_xor_iff bit_and_iff bit_not_iff possible_bit_def dest: bit_imp_le_length)
  have u: "unat lo < 16"
    unfolding lo_def using unat_and_mask [of c 4] by simp
  then have "unat lo \<in> set [0..<16]" by simp
  then have t: "(crc_bit ^^ 4) lo = CRC_table ! unat lo" using crc_table_nibbles [THEN bspec, of "unat lo"] by simp
  have "(crc_bit ^^ 4) hi = drop_bit 4 hi"
    by (rule crc_bits_shift) (simp add: hi_def bit_and_iff bit_not_iff bit_mask_iff)
  moreover have "drop_bit 4 hi = drop_bit 4 c"
    unfolding hi_def by (rule bit_eqI) (auto simp: bit_drop_bit_eq bit_and_iff bit_not_iff bit_mask_iff possible_bit_def dest: bit_imp_le_length)
  ultimately have "(crc_bit ^^ 4) (lo XOR hi) = CRC_table ! unat lo XOR drop_bit 4 c"
    unfolding crc_bits_xor t by simp
  then show ?thesis unfolding c [symmetric] unfolding lo_def m .
qed

lemma crc_byte_table:
  fixes crc :: u16 and ch :: u8
  defines "t1 \<equiv> CRC_table ! unat ((ucast ch XOR crc) AND 15) XOR drop_bit 4 crc"
  shows "crc_byte crc ch = CRC_table ! unat ((drop_bit 4 (ucast ch) XOR t1) AND 15) XOR drop_bit 4 t1"
proof -
  define h where "h = (ucast ch :: u16)"
  have h: "drop_bit 8 h = 0"
    unfolding h_def by (rule bit_eqI) (auto simp: bit_drop_bit_eq bit_ucast_iff possible_bit_def dest: bit_imp_le_length)
  have x: "(crc_bit ^^ 4) (crc XOR h) = t1 XOR drop_bit 4 h"
    unfolding crc_nibble t1_def h_def
    by (simp only: drop_bit_xor xor.assoc xor.commute xor.left_commute)
  have "(crc_bit ^^ 8) y = (crc_bit ^^ 4) ((crc_bit ^^ 4) y)" for y
    using funpow_add [of 4 4 crc_bit] by simp
  then have "crc_byte crc ch = (crc_bit ^^ 4) (t1 XOR drop_bit 4 h)" by (simp only: crc_byte_def h_def [symmetric] x)
  also have "\<dots> = CRC_table ! unat ((drop_bit 4 h XOR t1) AND 15) XOR drop_bit 4 (t1 XOR drop_bit 4 h)"
    unfolding crc_nibble by (simp only: xor.commute)
  also have "drop_bit 4 (t1 XOR drop_bit 4 h) = drop_bit 4 t1"
    using h by (simp add: drop_bit_xor drop_bit_drop_bit)
  finally show ?thesis by (simp add: h_def)
qed

lemma crc_index: "unat ((x :: u16) AND 15) < length CRC_table"
proof -
  have "(15 :: u16) = mask 4" by (simp add: mask_eq_exp_minus_1)
  then show ?thesis using unat_and_mask [of x 4] by (simp add: CRC_table_def)
qed

lemma crc16_loop_ref: "crc16_loop crc buf = Some (foldl crc_byte crc buf)"
proof (induction buf arbitrary: crc)
  case (Cons ch buf)
  show ?case using Cons.IH crc_byte_table [of crc ch] by (simp add: crc_index)
qed simp

text \<open>
  C35. The checksum by table, four bits at a time, is the bitwise CRC-16 for every buffer, and never
  leaves the table.
\<close>

theorem crc16_bitwise: "CRC16 buf = Some (foldl crc_byte 0xFFFF buf)"
  by (simp add: CRC16_def crc16_loop_ref)


section \<open>One response\<close>

text \<open>What the receive thread demands of a response before it compares it, and the comparison.\<close>

definition is_answer :: "u8 \<Rightarrow> u32 \<Rightarrow> u8 list \<Rightarrow> bool" where
  "is_answer cmd_id msec msg \<longleftrightarrow> hdr_mstime msg = Some msec \<and> hdr_cmd_id msg = Some cmd_id"

definition rsp_bytes :: "u8 list \<Rightarrow> u8 list" where
  "rsp_bytes msg = take (case hdr_plen msg of Some n \<Rightarrow> unat n | None \<Rightarrow> 0) msg"

definition rsp_in_bounds :: "u8 list \<Rightarrow> bool" where
  "rsp_in_bounds msg \<longleftrightarrow>
     CMD_HDR_SIZE \<le> length msg \<and> (case hdr_plen msg of Some n \<Rightarrow> unat n \<le> length msg | None \<Rightarrow> False)"

definition rsp_checked :: "u8 list \<Rightarrow> bool" where
  "rsp_checked msg \<longleftrightarrow> (case (hdr_ctx_id msg, hdr_cmd_id msg, hdr_plen msg) of
     (Some x, Some i, Some n) \<Rightarrow> x \<le> STAP_MODE_P2P_DEVICE \<and> i \<le> WIFI_CMD_MAX \<and> n \<le> 2048 | _ \<Rightarrow> False)"

lemma rsp_process_change:
  assumes "sprdwl_rx_rsp_process k msg c = Some (c', n, f)" "c' \<noteq> c"
  shows "k" "c_init_ok c" "c_refcnt c + 1 < SPRDWL_CMD_EXIT_VAL" "c_data c = None" "rsp_checked msg"
    "is_answer (c_cmd_id c) (c_mstime c) msg"
    "c' = c\<lparr>c_data := Some (rsp_bytes msg), c_completed := c_completed c + 1\<rparr>"
  using assms
  by (auto simp: sprdwl_rx_rsp_process_def is_answer_def rsp_bytes_def rsp_checked_def read_bytes_eq_Some_iff not_less
    split: if_splits bind_splits)

lemma rsp_header_readable:
  assumes "CMD_HDR_SIZE \<le> length msg"
  obtains x i n t s where "hdr_ctx_id msg = Some x" "hdr_cmd_id msg = Some i" "hdr_plen msg = Some n"
    "hdr_mstime msg = Some t" "hdr_status msg = Some s"
proof -
  have "aget msg i = Some (msg ! i)" if "i < 12" for i using assms that by (simp add: CMD_HDR_SIZE_def)
  then show ?thesis using that
    unfolding hdr_ctx_id_def hdr_cmd_id_def hdr_plen_def hdr_mstime_def hdr_status_def get_le32_def get_le16_def
    by simp
qed

lemma rsp_process_total:
  assumes "rsp_in_bounds msg"
  shows "\<exists>c' n f. sprdwl_rx_rsp_process k msg c = Some (c', n, f)"
proof -
  from assms have l: "CMD_HDR_SIZE \<le> length msg" by (simp add: rsp_in_bounds_def)
  obtain x i n t s where "hdr_ctx_id msg = Some x" "hdr_cmd_id msg = Some i" and n: "hdr_plen msg = Some n"
    and "hdr_mstime msg = Some t" "hdr_status msg = Some s" by (rule rsp_header_readable [OF l])
  moreover have "read_bytes msg 0 (unat n) = Some (take (unat n) msg)"
    using assms n by (simp add: rsp_in_bounds_def read_bytes_def)
  ultimately show ?thesis by (simp add: sprdwl_rx_rsp_process_def)
qed

lemma rsp_process_answer:
  assumes "rsp_in_bounds msg" "rsp_checked msg" "c_init_ok c" "c_refcnt c + 1 < SPRDWL_CMD_EXIT_VAL"
    "c_data c = None" "is_answer (c_cmd_id c) (c_mstime c) msg"
  shows "\<exists>n f. sprdwl_rx_rsp_process True msg c =
    Some (c\<lparr>c_data := Some (rsp_bytes msg), c_completed := c_completed c + 1\<rparr>, n, f)"
proof -
  from assms have l: "CMD_HDR_SIZE \<le> length msg" by (simp add: rsp_in_bounds_def)
  obtain x i n t s where *: "hdr_ctx_id msg = Some x" "hdr_cmd_id msg = Some i" "hdr_plen msg = Some n"
    "hdr_mstime msg = Some t" "hdr_status msg = Some s" by (rule rsp_header_readable [OF l])
  moreover have "read_bytes msg 0 (unat n) = Some (rsp_bytes msg)"
    using assms * by (simp add: rsp_in_bounds_def read_bytes_def rsp_bytes_def)
  moreover have "\<not> STAP_MODE_P2P_DEVICE < x" "\<not> WIFI_CMD_MAX < i" "\<not> 2048 < n"
    using assms(2) by (simp_all add: rsp_checked_def * not_less)
  ultimately show ?thesis using assms(3-)
    by (simp add: sprdwl_rx_rsp_process_def is_answer_def)
qed

section \<open>Other threads\<close>

text \<open>
  What the other threads do while one waits: the receive thread handles a response, the interface
  wakes everybody, further commands arrive and wait for the mutex or give up, the driver exits.
  They cannot set a command, which needs the mutex.
\<close>

datatype other = Rx bool "u8 list" | Wake | Arrive | Leave | Deinit | Clean

fun other_step :: "other \<Rightarrow> sprdwl_cmd \<Rightarrow> sprdwl_cmd option" where
  "other_step (Rx k msg) c = map_option fst (sprdwl_rx_rsp_process k msg c)"
| "other_step Wake c = Some (sprdwl_cmd_wake_upall c)"
| "other_step Arrive c = Some (fst (sprdwl_cmd_lock c))"
| "other_step Leave c = Some (sprdwl_cmd_unlock c)"
| "other_step Deinit c = Some (sprdwl_cmd_deinit_start c)"
| "other_step Clean c = Some (sprdwl_cmd_clean c)"

fun run_others :: "other list \<Rightarrow> sprdwl_cmd \<Rightarrow> sprdwl_cmd option" where
  "run_others [] c = Some c"
| "run_others (a # as) c = do { c \<leftarrow> other_step a c; run_others as c }"

lemmas other_defs = sprdwl_cmd_wake_upall_def sprdwl_cmd_lock_def sprdwl_cmd_unlock_def
  sprdwl_cmd_deinit_start_def sprdwl_cmd_clean_def

text \<open>Data in the slot at the end of a run is a response of the run to what the slot asked for, or was there before.\<close>

lemma run_others_data:
  assumes "run_others as c = Some c'" "c_data c' = Some d"
  shows "c_data c = Some d \<or> (\<exists>msg. Rx True msg \<in> set as \<and> d = rsp_bytes msg \<and> rsp_checked msg \<and>
    (is_answer (c_cmd_id c) (c_mstime c) msg \<or> Clean \<in> set as))"
  using assms
proof (induction as arbitrary: c)
  case (Cons a as)
  then obtain c1 where s: "other_step a c = Some c1" and r: "run_others as c1 = Some c'" by (auto split: bind_splits)
  note IH = Cons.IH [OF r Cons.prems(2)]
  show ?case
  proof (cases a)
    case (Rx k msg)
    then obtain n f where p: "sprdwl_rx_rsp_process k msg c = Some (c1, n, f)" using s by auto
    show ?thesis
    proof (cases "c1 = c")
      case True
      then show ?thesis using IH by auto
    next
      case False
      note q = rsp_process_change [OF p False]
      show ?thesis using IH Rx q(1,5,6) unfolding q(7) by auto
    qed
  qed (use s IH in \<open>auto simp: other_defs split: if_splits\<close>)
qed simp


text \<open>
  Who is inside: \<open>n\<close> other threads, and whether the driver exits. Only a thread inside leaves, nobody
  comes in after the exit has begun, and the command is cleaned only then.
\<close>

fun inside_step :: "other \<Rightarrow> nat \<times> bool \<Rightarrow> (nat \<times> bool) option" where
  "inside_step Arrive (n, ex) = Some (if ex \<or> int n + 2 \<ge> SPRDWL_CMD_EXIT_VAL then n else n + 1, ex)"
| "inside_step Leave (n, ex) = (if n = 0 then None else Some (n - 1, ex))"
| "inside_step Deinit (n, ex) = (if ex then None else Some (n, True))"
| "inside_step Clean (n, ex) = (if ex then Some (n, True) else None)"
| "inside_step _ p = Some p"

fun inside :: "other list \<Rightarrow> nat \<times> bool \<Rightarrow> (nat \<times> bool) option" where
  "inside [] p = Some p"
| "inside (a # as) p = do { p \<leftarrow> inside_step a p; inside as p }"

definition counted :: "nat \<times> bool \<Rightarrow> sprdwl_cmd \<Rightarrow> bool" where
  "counted p c \<longleftrightarrow> c_refcnt c = 1 + int (fst p) + (if snd p then SPRDWL_CMD_EXIT_VAL else 0)"

lemma rsp_process_frame:
  assumes "sprdwl_rx_rsp_process k msg c = Some (c', n, f)"
  shows "c_refcnt c' = c_refcnt c \<and> c_cmd_id c' = c_cmd_id c \<and> c_mstime c' = c_mstime c \<and> c_init_ok c' = c_init_ok c \<and>
    c_completed c \<le> c_completed c'"
proof (cases "c' = c")
  case False
  show ?thesis unfolding rsp_process_change(7) [OF assms False] by simp
qed simp

lemma counted_step:
  assumes "inside_step a p = Some p'" "other_step a c = Some c'" "counted p c"
  shows "counted p' c'"
proof (cases a)
  case (Rx k msg)
  then obtain n f where "sprdwl_rx_rsp_process k msg c = Some (c', n, f)" using assms(2) by auto
  from rsp_process_frame [OF this] show ?thesis using assms Rx by (simp add: counted_def)
qed (use assms in \<open>cases p; auto simp: counted_def other_defs SPRDWL_CMD_EXIT_VAL_def split: if_splits\<close>)+

lemma counted_run:
  "inside as p = Some p' \<Longrightarrow> run_others as c = Some c' \<Longrightarrow> counted p c \<Longrightarrow> counted p' c'"
  by (induction as arbitrary: p c) (auto split: bind_splits dest: counted_step)

lemma exit_stays: "inside as p = Some p' \<Longrightarrow> snd p \<or> Clean \<in> set as \<Longrightarrow> snd p'"
proof (induction as arbitrary: p)
  case (Cons a as)
  then obtain q where q: "inside_step a p = Some q" "inside as q = Some p'" by (auto split: bind_splits)
  have "snd q \<or> Clean \<in> set as" using q(1) Cons.prems(2) by (cases a; cases p; auto split: if_splits)
  with Cons.IH q(2) show ?case by blast
qed simp

section \<open>Sending and waiting\<close>

lemma lock_open: "c_refcnt c + 1 < SPRDWL_CMD_EXIT_VAL \<Longrightarrow> sprdwl_cmd_lock c = (c\<lparr>c_refcnt := c_refcnt c + 1\<rparr>, 0)"
  by (simp add: sprdwl_cmd_lock_def)

lemma wait_zero:
  "sprdwl_timeout_recv_rsp exit hang c = (c', 0) \<Longrightarrow>
     c_refcnt c < SPRDWL_CMD_EXIT_VAL \<and> c_data c \<noteq> None \<and> c' = c\<lparr>c_completed := c_completed c - 1\<rparr>"
  by (auto simp: sprdwl_timeout_recv_rsp_def cmd_wait_result_def Let_def split: if_splits)

lemma wait_cases: "snd (sprdwl_timeout_recv_rsp exit hang c) \<in> {0, - 1}"
  by (simp add: sprdwl_timeout_recv_rsp_def cmd_wait_result_def Let_def)

text \<open>A call that returns 0 without an error of the chip has passed all these points.\<close>

lemma send_recv_zero:
  assumes "sprdwl_cmd_send_recv 0 rsp cid ms late send others ex hang ca vif rbuf c = Some (c', 0, rbuf', n, a)"
    and "c_refcnt c + 1 < SPRDWL_CMD_EXIT_VAL" "rbuf \<noteq> []" "\<not> ca"
  obtains c1 c2 d where "late (reinit_completion (c\<lparr>c_refcnt := c_refcnt c + 1\<rparr>)) = Some c1"
    "others (sprdwl_cmd_send_to_ic rsp cid ms c1) = Some c2" "c_data c2 = Some d"
    "c_refcnt c2 < SPRDWL_CMD_EXIT_VAL" "rsp_copy cid rbuf d = Some (rbuf', n)" "a = No_assert"
    "c' = sprdwl_cmd_unlock (c2\<lparr>c_completed := c_completed c2 - 1\<rparr>)"
proof -
  from assms obtain c1 where c1: "late (reinit_completion (c\<lparr>c_refcnt := c_refcnt c + 1\<rparr>)) = Some c1"
    unfolding sprdwl_cmd_send_recv_def lock_open [OF assms(2)] Let_def by (auto split: bind_splits)
  from assms obtain c2 where c2: "others (sprdwl_cmd_send_to_ic rsp cid ms c1) = Some c2"
    unfolding sprdwl_cmd_send_recv_def lock_open [OF assms(2)] Let_def by (auto simp: c1 split: bind_splits if_splits)
  obtain c3 ret where w: "sprdwl_timeout_recv_rsp ex hang c2 = (c3, ret)" by fastforce
  have z: "ret = 0" and r: "do { data \<leftarrow> c_data c3; (rbuf, rlen) \<leftarrow> rsp_copy cid rbuf data;
               Some (sprdwl_cmd_unlock c3, ret, rbuf, rlen, No_assert) } = Some (c', 0, rbuf', n, a)"
    using assms wait_cases [of ex hang c2] unfolding sprdwl_cmd_send_recv_def lock_open [OF assms(2)] Let_def
    by (auto simp: c1 c2 w split: if_splits)
  from wait_zero w z have w0: "c_refcnt c2 < SPRDWL_CMD_EXIT_VAL" "c_data c2 \<noteq> None" "c3 = c2\<lparr>c_completed := c_completed c2 - 1\<rparr>"
    by blast+
  from w0(2) obtain d where d: "c_data c2 = Some d" by blast
  with r w0(3) have "rsp_copy cid rbuf d = Some (rbuf', n)" "a = No_assert" "c' = sprdwl_cmd_unlock c3"
    by (auto split: bind_splits)
  with that [OF c1 c2 d w0(1)] w0(3) show ?thesis by blast
qed

text \<open>
  C5. Whatever the other threads do in between, the driver's exit included, a call that returns 0 with
  data has copied it from a response that the receive thread was given after the command was set and that
  carries its time stamp and its number.
\<close>

theorem answer_is_own:
  assumes "sprdwl_cmd_send_recv 0 True cid ms (run_others late) send (run_others acts) ex hang False vif rbuf c =
      Some (c', 0, rbuf', n, a)"
    and "rbuf \<noteq> []" "c_refcnt c = int m" "int m + 1 < SPRDWL_CMD_EXIT_VAL"
    and "inside late (m, False) = Some p" "inside acts p = Some q"
  shows "\<exists>msg. Rx True msg \<in> set acts \<and> is_answer cid ms msg \<and> rsp_checked msg \<and> rsp_copy cid rbuf (rsp_bytes msg) = Some (rbuf', n)"
proof -
  from assms(3,4) have "c_refcnt c + 1 < SPRDWL_CMD_EXIT_VAL" by simp
  from send_recv_zero [OF assms(1) this assms(2)] obtain c1 c2 d where
    l: "run_others late (reinit_completion (c\<lparr>c_refcnt := c_refcnt c + 1\<rparr>)) = Some c1" and
    r: "run_others acts (sprdwl_cmd_send_to_ic True cid ms c1) = Some c2" and d: "c_data c2 = Some d" and
    i: "c_refcnt c2 < SPRDWL_CMD_EXIT_VAL" and y: "rsp_copy cid rbuf d = Some (rbuf', n)" by blast
  have "counted (m, False) (reinit_completion (c\<lparr>c_refcnt := c_refcnt c + 1\<rparr>))"
    using assms(3) by (simp add: counted_def reinit_completion_def)
  from counted_run [OF assms(5) l this] have "counted p (sprdwl_cmd_send_to_ic True cid ms c1)"
    by (simp add: counted_def sprdwl_cmd_send_to_ic_def sprdwl_cmd_set_def)
  from counted_run [OF assms(6) r this] i have "\<not> snd q" by (auto simp: counted_def split: if_splits)
  with exit_stays [OF assms(6)] have "Clean \<notin> set acts" by blast
  with run_others_data [OF r d] y show ?thesis
    by (auto simp: sprdwl_cmd_send_to_ic_def sprdwl_cmd_set_def)
qed

text \<open>A run that answers a command: the hypotheses of the theorem hold.\<close>

definition sample_rsp :: "u8 list" where
  "sample_rsp = [16, 9, 14, 0, 5, 0, 0, 0, 0, 0, 0, 0, 7, 8]"

definition idle_cmd :: sprdwl_cmd where
  "idle_cmd = \<lparr>c_cmd_id = 0, c_init_ok = True, c_mstime = 0, c_data = None, c_refcnt = 0, c_completed = 0\<rparr>"

lemma answer_is_own_witness:
  "\<exists>msg. Rx True msg \<in> set [Rx True sample_rsp] \<and> is_answer 9 5 msg \<and> rsp_checked msg \<and>
     rsp_copy 9 [0, 0, 0] (rsp_bytes msg) = Some ([7, 8, 0], 2)"
proof (rule answer_is_own [where late = "[Wake]" and acts = "[Rx True sample_rsp]" and c = idle_cmd and m = 0 and
    ex = False and hang = 0 and vif = True and a = No_assert and p = "(0, False)" and q = "(0, False)" and send = 0 and
    c' = "\<lparr>c_cmd_id = 9, c_init_ok = True, c_mstime = 5, c_data = Some sample_rsp, c_refcnt = 0, c_completed = 1\<rparr>"])
  show "sprdwl_cmd_send_recv 0 True 9 5 (run_others [Wake]) 0 (run_others [Rx True sample_rsp]) False 0 False True [0, 0, 0] idle_cmd =
    Some (\<lparr>c_cmd_id = 9, c_init_ok = True, c_mstime = 5, c_data = Some sample_rsp, c_refcnt = 0, c_completed = 1\<rparr>,
      0, [7, 8, 0], 2, No_assert)" by code_simp
qed (simp_all add: idle_cmd_def SPRDWL_CMD_EXIT_VAL_def)

section \<open>The first response counts\<close>

fun first_answer :: "u8 \<Rightarrow> u32 \<Rightarrow> other list \<Rightarrow> u8 list option" where
  "first_answer cid ms [] = None"
| "first_answer cid ms (Rx k msg # as) =
     (if k \<and> rsp_checked msg \<and> is_answer cid ms msg then Some msg else first_answer cid ms as)"
| "first_answer cid ms (_ # as) = first_answer cid ms as"

lemma first_answer_received: "first_answer cid ms as = Some msg \<Longrightarrow> Rx True msg \<in> set as"
  by (induction as rule: first_answer.induct) (auto split: if_splits)

definition calm :: "other \<Rightarrow> bool" where
  "calm a \<longleftrightarrow> (case a of Rx _ msg \<Rightarrow> rsp_in_bounds msg \<and> CMD_HDR_SIZE \<le> length (rsp_bytes msg) |
     Deinit \<Rightarrow> False | Clean \<Rightarrow> False | _ \<Rightarrow> True)"

definition slot_after :: "other list \<Rightarrow> sprdwl_cmd \<Rightarrow> u8 list option" where
  "slot_after as c = (case c_data c of Some d \<Rightarrow> Some d |
     None \<Rightarrow> map_option rsp_bytes (first_answer (c_cmd_id c) (c_mstime c) as))"

lemma slot_after_frame [simp]:
  "slot_after as (c\<lparr>c_completed := x\<rparr>) = slot_after as c" "slot_after as (c\<lparr>c_refcnt := y\<rparr>) = slot_after as c"
  "slot_after (Wake # as) c = slot_after as c" "slot_after (Arrive # as) c = slot_after as c"
  "slot_after (Leave # as) c = slot_after as c"
  by (cases "c_data c"; simp add: slot_after_def)+

text \<open>One step keeps what the slot will hold at the end.\<close>

lemma calm_step:
  assumes "calm a" "c_init_ok c" "c_refcnt c + 1 < SPRDWL_CMD_EXIT_VAL"
  obtains c' where "other_step a c = Some c'" "slot_after as c' = slot_after (a # as) c" "c_init_ok c'"
    "c_refcnt c' \<le> c_refcnt c + 1" "c_completed c \<le> c_completed c'" "c_cmd_id c' = c_cmd_id c"
    "(c_data c \<noteq> None \<longrightarrow> 0 < c_completed c) \<Longrightarrow> (c_data c' \<noteq> None \<longrightarrow> 0 < c_completed c')"
proof (cases a)
  case (Rx k msg)
  with assms(1) have b: "rsp_in_bounds msg" by (simp add: calm_def)
  from rsp_process_total [OF b] obtain c' n f where p: "sprdwl_rx_rsp_process k msg c = Some (c', n, f)" by blast
  have s: "other_step a c = Some c'" using Rx p by simp
  show ?thesis
  proof (cases "c' = c")
    case True
    have "\<not> (k \<and> rsp_checked msg \<and> is_answer (c_cmd_id c) (c_mstime c) msg)" if "c_data c = None"
    proof
      assume "k \<and> rsp_checked msg \<and> is_answer (c_cmd_id c) (c_mstime c) msg"
      with rsp_process_answer [OF b _ assms(2,3) that] p
      have "c' = c\<lparr>c_data := Some (rsp_bytes msg), c_completed := c_completed c + 1\<rparr>" by auto
      then have "c_data c' = Some (rsp_bytes msg)" by simp
      with True that show False by simp
    qed
    then have "slot_after as c' = slot_after (a # as) c" using True Rx by (cases "c_data c") (auto simp: slot_after_def)
    with that [OF s] True assms show ?thesis by simp
  next
    case False
    note q = rsp_process_change [OF p False]
    have "slot_after as c' = slot_after (a # as) c" using q(1,4,5,6) unfolding q(7) Rx by (simp add: slot_after_def)
    moreover have "c_init_ok c'" "c_refcnt c' \<le> c_refcnt c + 1" "c_completed c \<le> c_completed c'" "c_cmd_id c' = c_cmd_id c"
      "0 < c_completed c'" using assms unfolding q(7) by simp_all
    ultimately show ?thesis using that [OF s] by blast
  qed
next
  case Wake
  then show ?thesis by (intro that [of "sprdwl_cmd_wake_upall c"]) (use assms in \<open>simp_all add: sprdwl_cmd_wake_upall_def\<close>)
next
  case Arrive
  have "other_step a c = Some (c\<lparr>c_refcnt := c_refcnt c + 1\<rparr>)" using Arrive lock_open [OF assms(3)] by simp
  then show ?thesis by (rule that) (use assms Arrive in simp_all)
next
  case Leave
  then show ?thesis by (intro that [of "sprdwl_cmd_unlock c"]) (use assms in \<open>simp_all add: sprdwl_cmd_unlock_def\<close>)
qed (use assms(1) in \<open>simp_all add: calm_def\<close>)

lemma calm_run:
  assumes "\<forall>a \<in> set as. calm a" "c_init_ok c" "c_refcnt c + 1 + int (length as) < SPRDWL_CMD_EXIT_VAL"
  shows "\<exists>c'. run_others as c = Some c' \<and> c_data c' = slot_after as c \<and> c_init_ok c' \<and>
    c_refcnt c' \<le> c_refcnt c + int (length as) \<and> c_cmd_id c' = c_cmd_id c \<and>
    ((c_data c \<noteq> None \<longrightarrow> 0 < c_completed c) \<longrightarrow> (c_data c' \<noteq> None \<longrightarrow> 0 < c_completed c'))"
  using assms
proof (induction as arbitrary: c)
  case Nil
  then show ?case by (auto simp: slot_after_def split: option.split)
next
  case (Cons a as)
  from Cons.prems have "calm a" "c_refcnt c + 1 < SPRDWL_CMD_EXIT_VAL" by simp_all
  from calm_step [OF this(1) Cons.prems(2) this(2), of as] obtain c1 where s: "other_step a c = Some c1"
    "slot_after as c1 = slot_after (a # as) c" "c_init_ok c1"
    "c_refcnt c1 \<le> c_refcnt c + 1" "c_cmd_id c1 = c_cmd_id c"
    "(c_data c \<noteq> None \<longrightarrow> 0 < c_completed c) \<Longrightarrow> (c_data c1 \<noteq> None \<longrightarrow> 0 < c_completed c1)" by blast
  have "c_refcnt c1 + 1 + int (length as) < SPRDWL_CMD_EXIT_VAL" using s(4) Cons.prems(3) by simp
  from Cons.IH [OF _ s(3) this] Cons.prems(1) obtain c' where "run_others as c1 = Some c'" "c_data c' = slot_after as c1"
    "c_init_ok c'" "c_refcnt c' \<le> c_refcnt c1 + int (length as)" "c_cmd_id c' = c_cmd_id c1"
    "(c_data c1 \<noteq> None \<longrightarrow> 0 < c_completed c1) \<longrightarrow> (c_data c' \<noteq> None \<longrightarrow> 0 < c_completed c')" by auto
  then show ?case using s by (intro exI [of _ c']) auto
qed

text \<open>What arrives in the buffer of the caller: as much of the payload as fits.\<close>

definition delivered :: "u8 \<Rightarrow> u8 list \<Rightarrow> u8 list \<Rightarrow> u8 list" where
  "delivered cid rbuf msg =
     (let pay = take (length rbuf) (drop CMD_HDR_SIZE (rsp_bytes msg)); r = pay @ drop (length pay) rbuf in
      if cid = WIFI_CMD_OPEN then r[0 := drop_bit 5 (msg ! 0)] else r)"

lemma rsp_bytes_header:
  assumes "CMD_HDR_SIZE \<le> length (rsp_bytes msg)" "rsp_in_bounds msg"
  shows "hdr_plen (rsp_bytes msg) = hdr_plen msg" "hdr_ctx_id (rsp_bytes msg) = Some (drop_bit 5 (msg ! 0))"
    "\<exists>n. hdr_plen msg = Some n \<and> unat n = length (rsp_bytes msg) \<and> 12 \<le> unat n"
proof -
  have a: "aget (rsp_bytes msg) i = aget msg i" if "i < 12" for i
    using assms(1) that unfolding rsp_bytes_def CMD_HDR_SIZE_def by (simp add: aget_def)
  show "hdr_plen (rsp_bytes msg) = hdr_plen msg" by (simp add: hdr_plen_def get_le16_def a)
  have "aget msg 0 = Some (msg ! 0)" using assms by (auto simp: rsp_in_bounds_def CMD_HDR_SIZE_def aget_def)
  moreover have "aget (rsp_bytes msg) 0 = aget msg 0" by (rule a) simp
  ultimately show "hdr_ctx_id (rsp_bytes msg) = Some (drop_bit 5 (msg ! 0))"
    by (simp only: hdr_ctx_id_def option.map)
  show "\<exists>n. hdr_plen msg = Some n \<and> unat n = length (rsp_bytes msg) \<and> 12 \<le> unat n"
    using assms by (auto simp: rsp_in_bounds_def rsp_bytes_def CMD_HDR_SIZE_def split: option.splits)
qed

lemma rsp_copy_delivers:
  assumes "CMD_HDR_SIZE \<le> length (rsp_bytes msg)" "rsp_in_bounds msg" "rbuf \<noteq> []"
  shows "rsp_copy cid rbuf (rsp_bytes msg) =
    Some (delivered cid rbuf msg, min (length rbuf) (length (rsp_bytes msg) - CMD_HDR_SIZE))"
proof -
  note h = rsp_bytes_header [OF assms(1,2)]
  from h(3) obtain n where n: "hdr_plen msg = Some n" "unat n = length (rsp_bytes msg)" "12 \<le> unat n" by blast
  have "(12 :: u16) \<le> n" using n(3) by (simp add: word_le_nat_alt)
  then have m: "unat (n - of_nat CMD_HDR_SIZE) = length (rsp_bytes msg) - CMD_HDR_SIZE"
    using n(2) by (simp add: CMD_HDR_SIZE_def unat_sub)
  let ?l = "min (length rbuf) (length (rsp_bytes msg) - CMD_HDR_SIZE)"
  have r: "read_bytes (rsp_bytes msg) CMD_HDR_SIZE ?l = Some (take ?l (drop CMD_HDR_SIZE (rsp_bytes msg)))"
    using assms(1) by (simp add: read_bytes_def)
  have "memcpy_at rbuf 0 (take ?l (drop CMD_HDR_SIZE (rsp_bytes msg))) =
    Some (take (length rbuf) (drop CMD_HDR_SIZE (rsp_bytes msg)) @ drop ?l rbuf)"
    by (simp add: memcpy_at_def min_def)
  moreover have "0 < length (take (length rbuf) (drop CMD_HDR_SIZE (rsp_bytes msg)) @ drop ?l rbuf)"
    using assms(3) by (auto simp: min_def)
  ultimately show ?thesis
    by (simp add: rsp_copy_def h(1,2) n(1) m r delivered_def min.commute Let_def)
qed




section \<open>Errors\<close>

text \<open>A command that finds the driver exiting is not sent, and the caller is told that it succeeded.\<close>

lemma not_sent_reported_as_sent:
  "SPRDWL_CMD_EXIT_VAL \<le> c_refcnt c + 1 \<Longrightarrow>
     sprdwl_cmd_send_recv 0 rsp cid ms late send others ex hang ca vif rbuf c = Some (c, 0, rbuf, 0, No_assert)"
  by (simp add: sprdwl_cmd_send_recv_def sprdwl_cmd_lock_def)

text \<open>
  A response whose length field is below the size of the header is accepted; the length of the
  payload wraps and the copy to the caller reads behind the response.
\<close>

theorem short_answer_overread:
  assumes "rsp_in_bounds msg" "rsp_checked msg" "is_answer cid ms msg" "length (rsp_bytes msg) < CMD_HDR_SIZE"
    and "c_init_ok c" "c_refcnt c + 2 < SPRDWL_CMD_EXIT_VAL" "rbuf \<noteq> []" "hang \<noteq> HANG_RECOVERY_ACKED"
  shows "sprdwl_cmd_send_recv 0 True cid ms Some 0 (run_others [Rx True msg]) False hang False vif rbuf c = None"
proof -
  have k: "c_refcnt c + 1 < SPRDWL_CMD_EXIT_VAL" using assms(6) by simp
  define c1 where "c1 = sprdwl_cmd_send_to_ic True cid ms (reinit_completion (c\<lparr>c_refcnt := c_refcnt c + 1\<rparr>))"
  have c1: "c_init_ok c1" "c_refcnt c1 + 1 < SPRDWL_CMD_EXIT_VAL" "c_data c1 = None" "is_answer (c_cmd_id c1) (c_mstime c1) msg"
    using assms by (simp_all add: c1_def sprdwl_cmd_send_to_ic_def sprdwl_cmd_set_def reinit_completion_def)
  define c2 where "c2 = c1\<lparr>c_data := Some (rsp_bytes msg), c_completed := c_completed c1 + 1\<rparr>"
  from rsp_process_answer [OF assms(1,2) c1] have r: "run_others [Rx True msg] c1 = Some c2" by (auto simp: c2_def)
  have d: "c_data c2 = Some (rsp_bytes msg)" "0 < c_completed c2" "c_refcnt c2 < SPRDWL_CMD_EXIT_VAL"
    using c1(2) by (simp_all add: c2_def)
  then have w: "sprdwl_timeout_recv_rsp False hang c2 = (c2\<lparr>c_completed := c_completed c2 - 1\<rparr>, 0)"
    using assms(8) by (simp add: sprdwl_timeout_recv_rsp_def cmd_wait_result_def)
  have "rsp_copy cid rbuf (rsp_bytes msg) = None"
  proof (cases "hdr_plen (rsp_bytes msg)")
    case (Some n)
    obtain m where m: "hdr_plen msg = Some m" "unat m = length (rsp_bytes msg)"
      using assms(1) by (auto simp: rsp_in_bounds_def rsp_bytes_def split: option.splits)
    have a: "aget (rsp_bytes msg) i = aget msg i" if "i < length (rsp_bytes msg)" for i
      using that by (simp add: rsp_bytes_def aget_def)
    have "3 < length (rsp_bytes msg)"
      using Some by (auto simp: hdr_plen_def get_le16_def aget_eq_Some_iff split: bind_splits)
    then have "hdr_plen (rsp_bytes msg) = hdr_plen msg" by (simp add: hdr_plen_def get_le16_def a del: aget_Some)
    with m Some have n: "unat n < 12" using assms(4) by (simp add: CMD_HDR_SIZE_def)
    have "unat (n - of_nat CMD_HDR_SIZE) \<noteq> 0" using n by (auto simp: CMD_HDR_SIZE_def unat_eq_0)
    then have "0 < min (length rbuf) (unat (n - of_nat CMD_HDR_SIZE))" using assms(7) by simp
    then have "read_bytes (rsp_bytes msg) CMD_HDR_SIZE (min (length rbuf) (unat (n - of_nat CMD_HDR_SIZE))) = None"
      using assms(4) unfolding read_bytes_def by (intro if_not_P) linarith
    then show ?thesis by (simp add: rsp_copy_def Some)
  qed (simp add: rsp_copy_def)
  then show ?thesis
    using assms(7) by (simp add: sprdwl_cmd_send_recv_def lock_open [OF k] c1_def [symmetric] r w d(1) del: run_others.simps)
qed

definition short_rsp :: "u8 list" where "short_rsp = [16, 9, 4, 0, 5, 0, 0, 0, 0, 0, 0, 0]"

lemma short_answer_overread_witness:
  "sprdwl_cmd_send_recv 0 True 9 5 Some 0 (run_others [Rx True short_rsp]) False 0 False True [0, 0, 0] idle_cmd = None"
proof (rule short_answer_overread)
  show "rsp_in_bounds short_rsp" by code_simp
  show "rsp_checked short_rsp" by code_simp
  show "is_answer 9 5 short_rsp" by code_simp
  show "length (rsp_bytes short_rsp) < CMD_HDR_SIZE" by code_simp
qed (simp_all add: idle_cmd_def SPRDWL_CMD_EXIT_VAL_def HANG_RECOVERY_ACKED_def)

text \<open>
  The response to a command that has timed out, when it comes after the completion of the next
  command is reset and before that command is set, ends the wait of the next command before it has begun:
  that command fails at once, and for the command that closes an interface the chip is reset.
\<close>

theorem late_answer_ends_next_wait:
  assumes "rsp_in_bounds msg" "rsp_checked msg" "is_answer (c_cmd_id c) (c_mstime c) msg" "c_data c = None"
    and "c_init_ok c" "c_refcnt c + 2 < SPRDWL_CMD_EXIT_VAL"
  shows "\<exists>c1 c'. run_others [Rx True msg] (reinit_completion (c\<lparr>c_refcnt := c_refcnt c + 1\<rparr>)) = Some c1 \<and>
    0 < c_completed (sprdwl_cmd_send_to_ic True cid ms c1) \<and>
    sprdwl_cmd_send_recv 0 True cid ms (run_others [Rx True msg]) 0 Some False hang False vif rbuf c =
      Some (c', - 1, rbuf, length rbuf, timeout_assert cid vif False hang) \<and>
    timeout_assert WIFI_CMD_CLOSE vif False hang = Assert_now"
proof -
  have k: "c_refcnt c + 1 < SPRDWL_CMD_EXIT_VAL" using assms(6) by simp
  define c0 where "c0 = reinit_completion (c\<lparr>c_refcnt := c_refcnt c + 1\<rparr>)"
  have c0: "c_init_ok c0" "c_refcnt c0 + 1 < SPRDWL_CMD_EXIT_VAL" "c_data c0 = None" "is_answer (c_cmd_id c0) (c_mstime c0) msg"
    using assms by (simp_all add: c0_def reinit_completion_def)
  define c1 where "c1 = c0\<lparr>c_data := Some (rsp_bytes msg), c_completed := c_completed c0 + 1\<rparr>"
  from rsp_process_answer [OF assms(1,2) c0] have r: "run_others [Rx True msg] c0 = Some c1" by (auto simp: c1_def)
  define c2 where "c2 = sprdwl_cmd_send_to_ic True cid ms c1"
  have s: "0 < c_completed c2" "c_data c2 = None" by (simp_all add: c1_def c2_def sprdwl_cmd_send_to_ic_def sprdwl_cmd_set_def)
  have "snd (sprdwl_timeout_recv_rsp False hang c2) = - 1"
    using s by (simp add: sprdwl_timeout_recv_rsp_def cmd_wait_result_def Let_def)
  then obtain c3 where w: "sprdwl_timeout_recv_rsp False hang c2 = (c3, - 1)" by (metis prod.collapse)
  have "sprdwl_cmd_send_recv 0 True cid ms (run_others [Rx True msg]) 0 Some False hang False vif rbuf c =
      Some (sprdwl_cmd_unlock c3, - 1, rbuf, length rbuf, timeout_assert cid vif False hang)"
    by (simp add: sprdwl_cmd_send_recv_def lock_open [OF k] c0_def [symmetric] r c2_def [symmetric] w del: run_others.simps)
  moreover have "timeout_assert WIFI_CMD_CLOSE vif False hang = Assert_now" by (simp add: timeout_assert_def)
  ultimately show ?thesis using s(1) r unfolding c0_def c2_def by blast
qed

lemma late_answer_ends_next_wait_witness:
  "\<exists>c1 c'. run_others [Rx True sample_rsp] (reinit_completion (idle_cmd\<lparr>c_cmd_id := 9, c_mstime := 5, c_refcnt := c_refcnt (idle_cmd\<lparr>c_cmd_id := 9, c_mstime := 5\<rparr>) + 1\<rparr>)) = Some c1 \<and>
    0 < c_completed (sprdwl_cmd_send_to_ic True WIFI_CMD_CLOSE 8000 c1) \<and>
    sprdwl_cmd_send_recv 0 True WIFI_CMD_CLOSE 8000 (run_others [Rx True sample_rsp]) 0 Some False 0 False True [] (idle_cmd\<lparr>c_cmd_id := 9, c_mstime := 5\<rparr>) =
      Some (c', - 1, [], length ([] :: u8 list), timeout_assert WIFI_CMD_CLOSE True False 0) \<and>
    timeout_assert WIFI_CMD_CLOSE True False 0 = Assert_now"
proof -
  have "rsp_in_bounds sample_rsp" "rsp_checked sample_rsp" "is_answer 9 5 sample_rsp" by code_simp+
  then show ?thesis
    using late_answer_ends_next_wait [of sample_rsp "idle_cmd\<lparr>c_cmd_id := 9, c_mstime := 5\<rparr>" WIFI_CMD_CLOSE 8000 0 True "[]"]
    by (simp add: idle_cmd_def SPRDWL_CMD_EXIT_VAL_def)
qed

end
