(* ===== verification/Mp.thy ===== *)
theory Mp
  imports Prelude
begin

text \<open>
  Multiple precision arithmetic for the Bluetooth pairing keys,
  BT/libbt/src/algorithms/p_256_multprecision.c. A number is the list of its 32-bit words,
  least significant first; keyLength is the length of the lists. A result array that aliases
  an argument makes no difference: every word is read before it is written.
\<close>

section \<open>Numbers\<close>

definition KEY_LENGTH_DWORDS_P192 :: nat where "KEY_LENGTH_DWORDS_P192 = 6"
definition KEY_LENGTH_DWORDS_P256 :: nat where "KEY_LENGTH_DWORDS_P256 = 8"

text \<open>\<open>curve.p\<close> and \<open>curve_p256.p\<close> as \<open>p_256_init_curve\<close> sets them, least significant word first.\<close>

definition curve_p :: "u32 list" where
  "curve_p = [0xFFFFFFFF, 0xFFFFFFFF, 0xFFFFFFFF, 0, 1, 0xFFFFFFFF]"

definition curve_p256_p :: "u32 list" where
  "curve_p256_p = [0xFFFFFFFF, 0xFFFFFFFF, 0xFFFFFFFF, 0, 0, 0, 1, 0xFFFFFFFF]"

definition multiprecision_init :: "nat \<Rightarrow> u32 list" where
  "multiprecision_init n = replicate n 0"

text \<open>Comparison from the most significant word on.\<close>

fun compare_loop :: "u32 list \<Rightarrow> u32 list \<Rightarrow> int" where
  "compare_loop (x # xs) (y # ys) = (if y < x then 1 else if x < y then - 1 else compare_loop xs ys)"
| "compare_loop _ _ = 0"

definition multiprecision_compare :: "u32 list \<Rightarrow> u32 list \<Rightarrow> int" where
  "multiprecision_compare a b = compare_loop (rev a) (rev b)"

fun multiprecision_iszero :: "u32 list \<Rightarrow> bool" where
  "multiprecision_iszero [] = True"
| "multiprecision_iszero (x # xs) = (if x \<noteq> 0 then False else multiprecision_iszero xs)"

text \<open>\<open>n\<close> steps of the loop are left, \<open>i\<close> were made.\<close>

fun dword_bits_loop :: "nat \<Rightarrow> nat \<Rightarrow> u32 \<Rightarrow> nat" where
  "dword_bits_loop 0 i a = i"
| "dword_bits_loop (Suc n) i a = (if a = 0 then i else dword_bits_loop n (i + 1) (drop_bit 1 a))"

definition multiprecision_dword_bits :: "u32 \<Rightarrow> nat" where
  "multiprecision_dword_bits a = dword_bits_loop 32 0 a"

definition multiprecision_most_signdwords :: "u32 list \<Rightarrow> nat" where
  "multiprecision_most_signdwords a = length (dropWhile (\<lambda>x. x = 0) (rev a))"

definition multiprecision_most_signbits :: "u32 list \<Rightarrow> nat" where
  "multiprecision_most_signbits a =
     (let n = multiprecision_most_signdwords a in
      if n = 0 then 0 else (n - 1) * 32 + multiprecision_dword_bits (a ! (n - 1)))"

section \<open>Addition, subtraction and shifts\<close>

text \<open>The loops run from the least significant word on and return the words and the last carry.\<close>

fun add_loop :: "u32 \<Rightarrow> u32 list \<Rightarrow> u32 list \<Rightarrow> u32 list \<times> u32" where
  "add_loop carrier (a # as) (b # bs) =
     (let temp = a + carrier;
          carrier1 = (if temp < carrier then 1 else 0);
          temp' = temp + b;
          carrier2 = carrier1 OR (if temp' < b then 1 else 0);
          (cs, r) = add_loop carrier2 as bs
      in (temp' # cs, r))"
| "add_loop carrier _ _ = ([], carrier)"

definition multiprecision_add :: "u32 list \<Rightarrow> u32 list \<Rightarrow> u32 list \<times> u32" where
  "multiprecision_add a b = add_loop 0 a b"

fun sub_loop :: "u32 \<Rightarrow> u32 list \<Rightarrow> u32 list \<Rightarrow> u32 list \<times> u32" where
  "sub_loop borrow (a # as) (b # bs) =
     (let temp = a - borrow;
          borrow1 = (if a < temp then 1 else 0);
          c = temp - b;
          borrow2 = borrow1 OR (if temp < c then 1 else 0);
          (cs, r) = sub_loop borrow2 as bs
      in (c # cs, r))"
| "sub_loop borrow _ _ = ([], borrow)"

definition multiprecision_sub :: "u32 list \<Rightarrow> u32 list \<Rightarrow> u32 list \<times> u32" where
  "multiprecision_sub a b = sub_loop 0 a b"

fun lshift_loop :: "u32 \<Rightarrow> u32 list \<Rightarrow> u32 list \<times> u32" where
  "lshift_loop carrier [] = ([], carrier)"
| "lshift_loop carrier (temp # as) =
     (let (cs, r) = lshift_loop (drop_bit 31 temp) as in ((push_bit 1 temp OR carrier) # cs, r))"

definition multiprecision_lshift :: "u32 list \<Rightarrow> u32 list \<times> u32" where
  "multiprecision_lshift a = lshift_loop 0 a"

text \<open>From the most significant word down: the argument is reversed.\<close>

fun rshift_loop :: "u32 \<Rightarrow> u32 list \<Rightarrow> u32 list" where
  "rshift_loop carrier [] = []"
| "rshift_loop carrier (temp # as) = (drop_bit 1 temp OR carrier) # rshift_loop (push_bit 31 temp) as"

definition multiprecision_rshift :: "u32 list \<Rightarrow> u32 list" where
  "multiprecision_rshift a = rev (rshift_loop 0 (rev a))"

section \<open>Arithmetic modulo the prime\<close>

text \<open>
  The modulus is chosen by the key length; for any other length the functions return without
  writing their result, \<open>None\<close>.
\<close>

definition modp_of :: "nat \<Rightarrow> u32 list option" where
  "modp_of keyLength =
     (if keyLength = KEY_LENGTH_DWORDS_P192 then Some curve_p
      else if keyLength = KEY_LENGTH_DWORDS_P256 then Some curve_p256_p
      else None)"

definition reduce_once :: "u32 list \<Rightarrow> u32 list \<times> u32 \<Rightarrow> u32 list" where
  "reduce_once modp r =
     (case r of (c, carrier) \<Rightarrow>
        if carrier \<noteq> 0 then fst (multiprecision_sub c modp)
        else if 0 \<le> multiprecision_compare c modp then fst (multiprecision_sub c modp)
        else c)"

definition multiprecision_lshift_mod :: "u32 list \<Rightarrow> nat \<Rightarrow> u32 list option" where
  "multiprecision_lshift_mod a keyLength = do {
     modp \<leftarrow> modp_of keyLength; Some (reduce_once modp (multiprecision_lshift a)) }"

definition multiprecision_add_mod :: "u32 list \<Rightarrow> u32 list \<Rightarrow> nat \<Rightarrow> u32 list option" where
  "multiprecision_add_mod a b keyLength = do {
     modp \<leftarrow> modp_of keyLength; Some (reduce_once modp (multiprecision_add a b)) }"

definition sub_mod :: "u32 list \<Rightarrow> u32 list \<Rightarrow> u32 list \<Rightarrow> u32 list" where
  "sub_mod modp a b =
     (let (c, borrow) = multiprecision_sub a b in
      if borrow \<noteq> 0 then fst (multiprecision_add c modp) else c)"

definition multiprecision_sub_mod :: "u32 list \<Rightarrow> u32 list \<Rightarrow> nat \<Rightarrow> u32 list option" where
  "multiprecision_sub_mod a b keyLength = do {
     modp \<leftarrow> modp_of keyLength; Some (sub_mod modp a b) }"

section \<open>Multiplication\<close>

text \<open>
  \<open>mult_row\<close> is the inner loop for one word \<open>a[i]\<close>: its third argument are the words
  \<open>c[i], c[i+1], \<dots>\<close> that it reads and overwrites, its last argument is \<open>U\<close>. The outer loop then
  writes \<open>U\<close> to \<open>c[i + keyLength]\<close>; \<open>c[i]\<close> is not touched again.
\<close>

fun mult_row :: "u32 \<Rightarrow> u32 list \<Rightarrow> u32 list \<Rightarrow> u32 \<Rightarrow> u32 list \<times> u32" where
  "mult_row x (b # bs) (c # cs) U =
     (let result = (ucast x * ucast b :: u64);
          W = ucast (drop_bit 32 result);
          V = x * b;
          V1 = V + U;
          U1 = (if V1 < U then 1 else 0) + W;
          V2 = V1 + c;
          U2 = U1 + (if V2 < c then 1 else 0);
          (vs, r) = mult_row x bs cs U2
      in (V2 # vs, r))"
| "mult_row x _ _ U = ([], U)"

fun mult_loop :: "u32 list \<Rightarrow> u32 list \<Rightarrow> u32 list \<Rightarrow> u32 list" where
  "mult_loop [] b c = c"
| "mult_loop (x # as) b c =
     (let (vs, U) = mult_row x b c 0 in hd (vs @ [U]) # mult_loop as b (tl (vs @ [U])))"

definition multiprecision_mult :: "u32 list \<Rightarrow> u32 list \<Rightarrow> nat \<Rightarrow> u32 list" where
  "multiprecision_mult a b keyLength = mult_loop a b (multiprecision_init keyLength)"

section \<open>Inversion\<close>

text \<open>
  One halving of \<open>A\<close> (or \<open>C\<close>) modulo the prime: an odd number gets the prime added first, the
  carry of the addition is shifted into the top word.
\<close>

definition half_mod :: "u32 list \<Rightarrow> u32 list \<Rightarrow> u32 list" where
  "half_mod modp A =
     (if hd A AND 1 = 0 then multiprecision_rshift A
      else let (s, carrier) = multiprecision_add A modp; h = multiprecision_rshift s
           in h[length h - 1 := last h OR push_bit 31 carrier])"

partial_function (option) even_loop ::
  "u32 list \<Rightarrow> u32 list \<Rightarrow> u32 list \<Rightarrow> (u32 list \<times> u32 list) option" where
  "even_loop modp u A =
     (if hd u AND 1 = 0 then even_loop modp (multiprecision_rshift u) (half_mod modp A)
      else Some (u, A))"

partial_function (option) inv_loop ::
  "u32 list \<Rightarrow> u32 list \<Rightarrow> u32 list \<Rightarrow> u32 list \<Rightarrow> u32 list \<Rightarrow> u32 list option" where
  "inv_loop modp u v A C =
     (if multiprecision_iszero u then Some C
      else do {
        (u1, A1) \<leftarrow> even_loop modp u A;
        (v1, C1) \<leftarrow> even_loop modp v C;
        if 0 \<le> multiprecision_compare u1 v1
        then inv_loop modp (fst (multiprecision_sub u1 v1)) v1 (sub_mod modp A1 C1) C1
        else inv_loop modp u1 (fst (multiprecision_sub v1 u1)) A1 (sub_mod modp C1 A1) })"

definition multiprecision_inv_mod :: "u32 list \<Rightarrow> nat \<Rightarrow> u32 list option" where
  "multiprecision_inv_mod u keyLength =
     (let modp = (if keyLength = KEY_LENGTH_DWORDS_P256 then curve_p256_p else curve_p) in do {
        C \<leftarrow> inv_loop modp u modp ((multiprecision_init keyLength)[0 := 1]) (multiprecision_init keyLength);
        Some (if 0 \<le> multiprecision_compare C modp then fst (multiprecision_sub C modp) else C) })"

end
