(* ===== verification/Mp_Val.thy ===== *)
theory Mp_Val
  imports Mp
begin

text \<open>
  The value of a multiple precision number, and what the loops on its words do to it:
  comparison, addition, subtraction and shifts are exact, with the carry that is returned.
\<close>

section \<open>Value of a number\<close>

fun mp_val :: "u32 list \<Rightarrow> nat" where
  "mp_val [] = 0"
| "mp_val (x # xs) = unat x + 2 ^ 32 * mp_val xs"

lemma u32_bound: "unat (x :: u32) < 2 ^ 32"
  using unsigned_less [of x] by simp

lemma mp_val_bound: "mp_val xs < 2 ^ (32 * length xs)"
proof (induction xs)
  case (Cons x xs)
  have "unat x + 2 ^ 32 * mp_val xs < 2 ^ 32 * (mp_val xs + 1)" using u32_bound [of x] by simp
  also have "\<dots> \<le> 2 ^ 32 * 2 ^ (32 * length xs)" using Cons by (intro mult_le_mono) simp_all
  finally show ?case by (simp add: power_add)
qed simp

lemma mp_val_append: "mp_val (xs @ ys) = mp_val xs + 2 ^ (32 * length xs) * mp_val ys"
  by (induction xs) (simp_all add: power_add algebra_simps)

lemma mp_val_replicate_0 [simp]: "mp_val (replicate n 0) = 0"
  by (induction n) auto

lemma mp_val_inject:
  "length xs = length ys \<Longrightarrow> mp_val xs = mp_val ys \<Longrightarrow> xs = ys"
proof (induction xs ys rule: list_induct2)
  case (Cons x xs y ys)
  have "mp_val (x # xs) mod 2 ^ 32 = unat x" "mp_val (y # ys) mod 2 ^ 32 = unat y"
    using u32_bound [of x] u32_bound [of y] by simp_all
  then have "x = y" using Cons.prems by (simp only: word_unat_eq_iff)
  with Cons show ?case by simp
qed simp

lemma iszero_iff: "multiprecision_iszero xs \<longleftrightarrow> mp_val xs = 0"
  by (induction xs) (auto simp: unat_eq_zero)

section \<open>Word arithmetic with carries\<close>

lemma u32_add: "unat (a + b :: u32) = (unat a + unat b) mod 2 ^ 32"
  by (simp add: unat_word_ariths)

lemma u32_add_carry:
  fixes a b :: u32
  shows "unat (a + b) + 2 ^ 32 * (if a + b < b then 1 else 0) = unat a + unat b"
proof -
  have "unat a < 2 ^ 32" "unat b < 2 ^ 32" by (rule u32_bound)+
  then show ?thesis by (auto simp: word_less_nat_alt u32_add mod_if split: if_splits)
qed

lemma u32_sub_borrow:
  fixes a b :: u32
  shows "unat (a - b) + unat b = unat a + 2 ^ 32 * (if a < a - b then 1 else 0)"
proof -
  have bd: "unat a < 2 ^ 32" "unat b < 2 ^ 32" by (rule u32_bound)+
  show ?thesis
  proof (cases "unat b \<le> unat a")
    case True
    then have "unat (a - b) = unat a - unat b" by (simp add: unat_sub_if')
    with True bd show ?thesis by (simp add: word_less_nat_alt)
  next
    case False
    then have "unat (a - b) = unat a + 2 ^ 32 - unat b" by (simp add: unat_sub_if')
    with False bd show ?thesis by (simp add: word_less_nat_alt)
  qed
qed

lemma or_bits: "(if P then 1 else 0) OR (if Q then 1 else 0) = (if P \<or> Q then 1 else 0 :: u32)"
  by simp

lemma add_loop_val:
  assumes "length as = length bs" and "carrier \<le> 1" and "add_loop carrier as bs = (cs, r)"
  shows "length cs = length as \<and> r \<le> 1 \<and>
     mp_val cs + 2 ^ (32 * length as) * unat r = mp_val as + mp_val bs + unat carrier"
  using assms
proof (induction as bs arbitrary: carrier cs r rule: list_induct2)
  case Nil
  then show ?case by auto
next
  case (Cons a as b bs)
  define t where "t = a + carrier"
  define d :: u32 where "d = (if t < carrier \<or> t + b < b then 1 else 0)"
  obtain cs' where cs: "add_loop d as bs = (cs', r)" "cs = (t + b) # cs'"
    using Cons.prems(2) by (auto simp: Let_def t_def d_def or_bits split: prod.splits)
  have IH: "length cs' = length as" "r \<le> 1"
      "mp_val cs' + 2 ^ (32 * length as) * unat r = mp_val as + mp_val bs + unat d"
    using Cons.IH [OF _ cs(1)] by (auto simp: d_def)
  have c1: "unat carrier \<le> 1" using Cons.prems(1) by (simp add: word_le_nat_alt)
  have e1: "unat t + 2 ^ 32 * (if t < carrier then 1 else 0) = unat a + unat carrier"
    unfolding t_def by (rule u32_add_carry)
  have e2: "unat (t + b) + 2 ^ 32 * (if t + b < b then 1 else 0) = unat t + unat b"
    by (rule u32_add_carry)
  have "\<not> (t < carrier \<and> t + b < b)"
  proof
    assume *: "t < carrier \<and> t + b < b"
    then have "unat t + 2 ^ 32 = unat a + unat carrier" using e1 by simp
    then have "unat t = 0" using u32_bound [of a] c1 by simp
    then have "t = 0" by (simp add: unat_eq_zero)
    with * show False by simp
  qed
  then have "2 ^ 32 * unat d = 2 ^ 32 * (if t < carrier then 1 else 0) + 2 ^ 32 * (if t + b < b then 1 else 0)"
    by (auto simp: d_def)
  with e1 e2 have w: "unat (t + b) + 2 ^ 32 * unat d = unat a + unat b + unat carrier" by linarith
  have "mp_val cs + 2 ^ (32 * length (a # as)) * unat r =
      unat (t + b) + 2 ^ 32 * (mp_val cs' + 2 ^ (32 * length as) * unat r)"
    by (simp add: cs(2) power_add algebra_simps)
  also have "\<dots> = (unat (t + b) + 2 ^ 32 * unat d) + 2 ^ 32 * (mp_val as + mp_val bs)"
    unfolding IH(3) by (simp add: algebra_simps)
  also have "\<dots> = mp_val (a # as) + mp_val (b # bs) + unat carrier"
    unfolding w by (simp add: algebra_simps)
  finally show ?case using IH(1,2) cs(2) by simp
qed

lemma sub_loop_val:
  assumes "length as = length bs" and "borrow \<le> 1" and "sub_loop borrow as bs = (cs, r)"
  shows "length cs = length as \<and> r \<le> 1 \<and>
     mp_val cs + mp_val bs + unat borrow = mp_val as + 2 ^ (32 * length as) * unat r"
  using assms
proof (induction as bs arbitrary: borrow cs r rule: list_induct2)
  case Nil
  then show ?case by auto
next
  case (Cons a as b bs)
  define t where "t = a - borrow"
  define d :: u32 where "d = (if a < t \<or> t < t - b then 1 else 0)"
  obtain cs' where cs: "sub_loop d as bs = (cs', r)" "cs = (t - b) # cs'"
    using Cons.prems(2) by (auto simp: Let_def t_def d_def or_bits split: prod.splits)
  have IH: "length cs' = length as" "r \<le> 1"
      "mp_val cs' + mp_val bs + unat d = mp_val as + 2 ^ (32 * length as) * unat r"
    using Cons.IH [OF _ cs(1)] by (auto simp: d_def)
  have c1: "unat borrow \<le> 1" using Cons.prems(1) by (simp add: word_le_nat_alt)
  have e1: "unat t + unat borrow = unat a + 2 ^ 32 * (if a < t then 1 else 0)"
    unfolding t_def by (rule u32_sub_borrow)
  have e2: "unat (t - b) + unat b = unat t + 2 ^ 32 * (if t < t - b then 1 else 0)"
    by (rule u32_sub_borrow)
  have "\<not> (a < t \<and> t < t - b)"
  proof
    assume *: "a < t \<and> t < t - b"
    then have "unat t + unat borrow = unat a + 2 ^ 32" using e1 by simp
    then have "unat t + 1 = 2 ^ 32" using u32_bound [of t] c1 by simp
    moreover have "unat t < unat (t - b)" using * by (simp add: word_less_nat_alt)
    ultimately show False using u32_bound [of "t - b"] by simp
  qed
  then have "2 ^ 32 * unat d = 2 ^ 32 * (if a < t then 1 else 0) + 2 ^ 32 * (if t < t - b then 1 else 0)"
    by (auto simp: d_def)
  with e1 e2 have w: "unat (t - b) + unat b + unat borrow = unat a + 2 ^ 32 * unat d" by linarith
  have "mp_val cs + mp_val (b # bs) + unat borrow =
      (unat (t - b) + unat b + unat borrow) + 2 ^ 32 * (mp_val cs' + mp_val bs)"
    by (simp add: cs(2) algebra_simps)
  also have "\<dots> = unat a + 2 ^ 32 * (mp_val cs' + mp_val bs + unat d)"
    unfolding w by (simp add: algebra_simps)
  also have "\<dots> = mp_val (a # as) + 2 ^ (32 * length (a # as)) * unat r"
    unfolding IH(3) by (simp add: power_add algebra_simps)
  finally show ?case using IH(1,2) cs(2) by simp
qed

lemma u32_bit: "unat (r :: u32) \<le> 1 \<Longrightarrow> r = 0 \<or> r = 1"
proof -
  assume "unat r \<le> 1"
  then have "unat r = unat (0 :: u32) \<or> unat r = unat (1 :: u32)" by auto
  then show ?thesis by (simp only: word_unat_eq_iff [symmetric])
qed

lemma add_val:
  assumes "length a = length b" and "multiprecision_add a b = (c, r)"
  shows "length c = length a" and "r = 0 \<or> r = 1"
    and "mp_val c + 2 ^ (32 * length a) * unat r = mp_val a + mp_val b"
proof -
  have "length c = length a \<and> r \<le> 1 \<and> mp_val c + 2 ^ (32 * length a) * unat r = mp_val a + mp_val b"
    using add_loop_val [OF assms(1), of 0 c r] assms(2) by (simp add: multiprecision_add_def)
  moreover from this have "r = 0 \<or> r = 1" by (intro u32_bit) (simp add: word_le_nat_alt)
  ultimately show "length c = length a" "r = 0 \<or> r = 1"
      "mp_val c + 2 ^ (32 * length a) * unat r = mp_val a + mp_val b"
    by blast+
qed

lemma sub_val:
  assumes "length a = length b" and "multiprecision_sub a b = (c, r)"
  shows "length c = length a" and "r = 0 \<or> r = 1"
    and "mp_val c + mp_val b = mp_val a + 2 ^ (32 * length a) * unat r"
proof -
  have "length c = length a \<and> r \<le> 1 \<and> mp_val c + mp_val b = mp_val a + 2 ^ (32 * length a) * unat r"
    using sub_loop_val [OF assms(1), of 0 c r] assms(2) by (simp add: multiprecision_sub_def)
  moreover from this have "r = 0 \<or> r = 1" by (intro u32_bit) (simp add: word_le_nat_alt)
  ultimately show "length c = length a" "r = 0 \<or> r = 1"
      "mp_val c + mp_val b = mp_val a + 2 ^ (32 * length a) * unat r"
    by blast+
qed

lemma sub_no_borrow:
  assumes "length a = length b" and "mp_val b \<le> mp_val a"
  shows "mp_val (fst (multiprecision_sub a b)) = mp_val a - mp_val b"
    and "length (fst (multiprecision_sub a b)) = length a"
proof -
  obtain c r where e: "multiprecision_sub a b = (c, r)" by force
  note v = sub_val [OF assms(1) e]
  have "r = 0"
  proof (rule ccontr)
    assume "r \<noteq> 0"
    then have "mp_val c + mp_val b = mp_val a + 2 ^ (32 * length a)" using v by auto
    with mp_val_bound [of c] v(1) assms(2) show False by simp
  qed
  with v assms(2) e show "mp_val (fst (multiprecision_sub a b)) = mp_val a - mp_val b"
    "length (fst (multiprecision_sub a b)) = length a" by simp_all
qed

lemma compare_loop_val:
  "length xs = length ys \<Longrightarrow> compare_loop xs ys =
     (if mp_val (rev ys) < mp_val (rev xs) then 1 else if mp_val (rev xs) < mp_val (rev ys) then - 1 else 0)"
proof (induction xs ys rule: list_induct2)
  case (Cons x xs y ys)
  define B where "B = (2 :: nat) ^ (32 * length xs)"
  have b: "mp_val (rev xs) < B" "mp_val (rev ys) < B"
    using mp_val_bound [of "rev xs"] mp_val_bound [of "rev ys"] Cons.hyps by (simp_all add: B_def)
  have v: "mp_val (rev (x # xs)) = mp_val (rev xs) + B * unat x" "mp_val (rev (y # ys)) = mp_val (rev ys) + B * unat y"
    using Cons.hyps by (simp_all add: mp_val_append B_def)
  have step: "m + B * k < m' + B * k'" if "k < k'" "m < B" for m m' k k'
  proof -
    have "m + B * k < B * (k + 1)" using that by simp
    also have "\<dots> \<le> B * k'" using that by (intro mult_le_mono) simp_all
    finally show ?thesis by simp
  qed
  consider "unat y < unat x" | "unat x < unat y" | "unat x = unat y" by linarith
  then show ?case
  proof cases
    case 1
    with step [OF 1 b(2), of "mp_val (rev xs)"] show ?thesis unfolding v by (simp add: word_less_nat_alt)
  next
    case 2
    with step [OF 2 b(1), of "mp_val (rev ys)"] show ?thesis unfolding v by (simp add: word_less_nat_alt)
  next
    case 3
    with Cons.IH show ?thesis unfolding v by (simp add: word_less_nat_alt)
  qed
qed simp

lemma compare_val:
  "length a = length b \<Longrightarrow> 0 \<le> multiprecision_compare a b \<longleftrightarrow> mp_val b \<le> mp_val a"
  using compare_loop_val [of "rev a" "rev b"] by (simp add: multiprecision_compare_def)

section \<open>Shifts\<close>

lemma lshift_word:
  fixes t c :: u32
  assumes "c = 0 \<or> c = 1"
  shows "unat (push_bit 1 t OR c) + 2 ^ 32 * unat (drop_bit 31 t) = 2 * unat t + unat c"
    and "drop_bit 31 t = 0 \<or> drop_bit 31 t = 1"
proof -
  have d: "unat (drop_bit 31 t) = unat t div 2 ^ 31" by (simp add: drop_bit_eq_div unat_div_distrib)
  have "unat t div 2 ^ 31 < 2" using u32_bound [of t] by (simp add: less_mult_imp_div_less)
  then show "drop_bit 31 t = 0 \<or> drop_bit 31 t = 1" by (intro u32_bit) (simp only: d)
  have p: "unat (push_bit 1 t) = (2 * unat t) mod 2 ^ 32"
    by (simp add: push_bit_eq_mult unat_word_ariths mult.commute)
  have e: "(2 * unat t) mod 2 ^ 32 + 2 ^ 32 * (unat t div 2 ^ 31) = 2 * unat t"
    using mult_div_mod_eq [of "2 ^ 32" "2 * unat t"] by simp
  have "push_bit 1 t OR 1 = push_bit 1 t + 1" by (simp add: or_one_eq)
  moreover have "unat (push_bit 1 t + 1) = unat (push_bit 1 t) + 1"
  proof (rule unat_inc)
    have "even ((2 * unat t) mod 2 ^ 32)" by (intro dvd_mod) simp_all
    moreover have "(2 * unat t) mod 2 ^ 32 < (2 :: nat) ^ 32" by simp
    moreover have "m + 1 < 4294967296" if "even m" "m < 4294967296" for m :: nat
      using that by presburger
    ultimately show "unat (push_bit 1 t) + 1 < 2 ^ LENGTH(32)" unfolding p by simp
  qed
  ultimately show "unat (push_bit 1 t OR c) + 2 ^ 32 * unat (drop_bit 31 t) = 2 * unat t + unat c"
    using assms e p d by auto
qed

lemma lshift_loop_val:
  assumes "c = 0 \<or> c = 1" and "lshift_loop c as = (cs, r)"
  shows "length cs = length as \<and> (r = 0 \<or> r = 1) \<and>
     mp_val cs + 2 ^ (32 * length as) * unat r = 2 * mp_val as + unat c"
  using assms
proof (induction as arbitrary: c cs)
  case (Cons t as)
  obtain cs' where cs: "lshift_loop (drop_bit 31 t) as = (cs', r)" "cs = (push_bit 1 t OR c) # cs'"
    using Cons.prems(2) by (auto split: prod.splits)
  note IH = Cons.IH [OF lshift_word(2) [OF Cons.prems(1)] cs(1)]
  have "mp_val cs + 2 ^ (32 * length (t # as)) * unat r =
      unat (push_bit 1 t OR c) + 2 ^ 32 * (mp_val cs' + 2 ^ (32 * length as) * unat r)"
    by (simp add: cs(2) power_add algebra_simps)
  also have "\<dots> = (unat (push_bit 1 t OR c) + 2 ^ 32 * unat (drop_bit 31 t)) + 2 ^ 32 * (2 * mp_val as)"
    using IH by (simp add: algebra_simps)
  also have "\<dots> = 2 * mp_val (t # as) + unat c"
    unfolding lshift_word(1) [OF Cons.prems(1)] by (simp add: algebra_simps)
  finally show ?case using IH cs(2) by simp
qed auto

lemma lshift_val:
  assumes "multiprecision_lshift a = (c, r)"
  shows "length c = length a" and "r = 0 \<or> r = 1"
    and "mp_val c + 2 ^ (32 * length a) * unat r = 2 * mp_val a"
  using lshift_loop_val [of 0 a c r] assms by (auto simp: multiprecision_lshift_def)

lemma rshift_word:
  fixes t k :: u32
  shows "unat (drop_bit 1 t OR push_bit 31 k) = unat t div 2 + 2 ^ 31 * (unat k mod 2)"
proof -
  have "drop_bit 1 t AND push_bit 31 k = 0" by (rule bit_word_eqI) (auto simp: bit_simps dest: bit_imp_le_length)
  then have "drop_bit 1 t OR push_bit 31 k = drop_bit 1 t + push_bit 31 k" by (simp add: disjunctive_add_eq_or)
  moreover have "unat (drop_bit 1 t) = unat t div 2" by (simp add: drop_bit_eq_div unat_div_distrib)
  moreover have "unat (push_bit 31 k) = 2 ^ 31 * (unat k mod 2)"
  proof -
    have "unat (push_bit 31 k) = (2 ^ 31 * unat k) mod (2 ^ 31 * 2)"
      by (simp add: push_bit_eq_mult unat_word_ariths mult.commute)
    then show ?thesis by (simp only: mult_mod_right)
  qed
  moreover have "unat t div 2 + 2 ^ 31 * (unat k mod 2) < 2 ^ 32"
  proof -
    have "unat t div 2 < 2 ^ 31" using u32_bound [of t] by simp
    moreover have "unat k mod 2 \<le> 1" by simp
    ultimately show ?thesis by (simp add: less_Suc_eq_le)
  qed
  ultimately show ?thesis by (simp add: u32_add)
qed

lemma rshift_loop_val:
  "length (rshift_loop (push_bit 31 k) as) = length as \<and>
   mp_val (rev (rshift_loop (push_bit 31 k) as)) =
     (mp_val (rev as) + 2 ^ (32 * length as) * (unat k mod 2)) div 2"
proof (induction as arbitrary: k)
  case Nil
  have "unat k mod 2 div 2 = 0" by simp
  then show ?case by simp
next
  case (Cons t as)
  define B where "B = (2 :: nat) ^ (32 * length as)"
  define M where "M = mp_val (rev as) + B * (unat t mod 2)"
  have IH: "length (rshift_loop (push_bit 31 t) as) = length as"
      "mp_val (rev (rshift_loop (push_bit 31 t) as)) = M div 2"
    using Cons.IH [of t] by (simp_all add: B_def M_def)
  have "mp_val (rev (t # as)) + 2 ^ (32 * length (t # as)) * (unat k mod 2) =
      mp_val (rev as) + B * (unat t + 2 ^ 32 * (unat k mod 2))"
    by (simp add: mp_val_append B_def power_add algebra_simps)
  also have "unat t + 2 ^ 32 * (unat k mod 2) = unat t mod 2 + 2 * (unat t div 2 + 2 ^ 31 * (unat k mod 2))"
    by simp
  also have "mp_val (rev as) + B * \<dots> = M + 2 * (B * (unat t div 2 + 2 ^ 31 * (unat k mod 2)))"
    unfolding M_def by (simp only: distrib_left add.assoc mult.left_commute [of B 2])
  finally have "(mp_val (rev (t # as)) + 2 ^ (32 * length (t # as)) * (unat k mod 2)) div 2 =
      M div 2 + B * unat (drop_bit 1 t OR push_bit 31 k)"
    unfolding rshift_word by simp
  with IH show ?case by (simp add: mp_val_append B_def)
qed

lemma rshift_val:
  "mp_val (multiprecision_rshift a) = mp_val a div 2" "length (multiprecision_rshift a) = length a"
  using rshift_loop_val [of 0 "rev a"] by (simp_all add: multiprecision_rshift_def)

end
