(* ===== verification/Mp_Correct.thy ===== *)
theory Mp_Correct
  imports Mp_Val
begin

text \<open>
  Exactness of the modular operations, of multiplication and of inversion: the loops of the
  inversion end for every number that is coprime to the prime and give its inverse.
\<close>

section \<open>Arithmetic modulo the prime\<close>

lemma reduce_once_val:
  assumes "length c = length p" and "r = 0 \<or> r = 1"
    and "mp_val c + 2 ^ (32 * length p) * unat r < 2 * mp_val p"
  shows "mp_val (reduce_once p (c, r)) = (mp_val c + 2 ^ (32 * length p) * unat r) mod mp_val p"
    and "length (reduce_once p (c, r)) = length p"
proof -
  have "mp_val (reduce_once p (c, r)) = (mp_val c + 2 ^ (32 * length p) * unat r) mod mp_val p \<and>
      length (reduce_once p (c, r)) = length p"
  proof (cases "r = 0")
    case True
    show ?thesis
    proof (cases "mp_val p \<le> mp_val c")
      case le: True
      with True assms sub_no_borrow [OF assms(1) le] compare_val [OF assms(1)] show ?thesis
        by (simp add: reduce_once_def le_mod_geq)
    next
      case False
      with True compare_val [OF assms(1)] assms(1) show ?thesis by (simp add: reduce_once_def)
    qed
  next
    case False
    then have r: "r = 1" using assms(2) by simp
    obtain d k where d: "multiprecision_sub c p = (d, k)" by force
    note v = sub_val [OF assms(1) d]
    have B: "mp_val p < 2 ^ (32 * length p)" by (rule mp_val_bound)
    have k: "k = 1"
    proof (rule ccontr)
      assume "k \<noteq> 1"
      then have "mp_val p \<le> mp_val c" using v by auto
      with assms(3) r B show False by simp
    qed
    then have "mp_val d = mp_val c + 2 ^ (32 * length p) - mp_val p" "mp_val d < mp_val p"
      using v assms(1,3) r by simp_all
    then show ?thesis using r d v(1) assms(1) B
      by (simp add: reduce_once_def le_mod_geq)
  qed
  then show "mp_val (reduce_once p (c, r)) = (mp_val c + 2 ^ (32 * length p) * unat r) mod mp_val p"
    "length (reduce_once p (c, r)) = length p" by auto
qed

lemma sub_mod_val:
  assumes "length a = length p" and "length b = length p" and "mp_val a < mp_val p" and "mp_val b < mp_val p"
  shows "mp_val (sub_mod p a b) = (mp_val a + mp_val p - mp_val b) mod mp_val p"
    and "length (sub_mod p a b) = length p"
proof -
  obtain c k where c: "multiprecision_sub a b = (c, k)" by force
  have lb: "length a = length b" using assms by simp
  note v = sub_val [OF lb c]
  have "mp_val (sub_mod p a b) = (mp_val a + mp_val p - mp_val b) mod mp_val p \<and> length (sub_mod p a b) = length p"
  proof (cases "k = 0")
    case True
    then have "mp_val c + mp_val b = mp_val a" using v(3) by simp
    then have "mp_val a + mp_val p - mp_val b = mp_val c + mp_val p" "mp_val c < mp_val p" using assms(3) by simp_all
    with True c v(1) assms(1) show ?thesis by (simp add: sub_mod_def)
  next
    case False
    then have k: "k = 1" using v(2) by simp
    obtain d r where d: "multiprecision_add c p = (d, r)" by force
    have lc: "length c = length p" using v(1) assms(1) by simp
    note w = add_val [OF lc d]
    have e: "mp_val c + mp_val b = mp_val a + 2 ^ (32 * length p)" using v(3) k assms(1) by simp
    have "r = 1"
    proof (rule ccontr)
      assume "r \<noteq> 1"
      then have "mp_val d = mp_val c + mp_val p" using w(2,3) by auto
      with e assms(4) mp_val_bound [of d] w(1) lc show False by simp
    qed
    then have "mp_val d + 2 ^ (32 * length p) = mp_val c + mp_val p" using w(3) lc by simp
    with e have "mp_val d = mp_val a + mp_val p - mp_val b" by simp
    moreover have "mp_val a < mp_val b" using e mp_val_bound [of c] lc by simp
    ultimately show ?thesis using k c d w(1) lc assms(4) by (simp add: sub_mod_def)
  qed
  then show "mp_val (sub_mod p a b) = (mp_val a + mp_val p - mp_val b) mod mp_val p"
    "length (sub_mod p a b) = length p" by auto
qed

section \<open>Multiplication\<close>

lemma mult_word:
  fixes x b c U :: u32
  defines "W \<equiv> ucast (drop_bit 32 (ucast x * ucast b :: u64)) :: u32"
  defines "V1 \<equiv> x * b + U"
  defines "V2 \<equiv> V1 + c"
  defines "U2 \<equiv> (if V1 < U then 1 else 0) + W + (if V2 < c then 1 else 0)"
  shows "unat V2 + 2 ^ 32 * unat U2 = unat x * unat b + unat U + unat c"
proof -
  define k1 k2 where "k1 = (if V1 < U then 1 else 0 :: nat)" and "k2 = (if V2 < c then 1 else 0 :: nat)"
  have bd: "unat x \<le> 2 ^ 32 - 1" "unat b \<le> 2 ^ 32 - 1" "unat U \<le> 2 ^ 32 - 1" "unat c \<le> 2 ^ 32 - 1"
    using u32_bound [of x] u32_bound [of b] u32_bound [of U] u32_bound [of c] by linarith+
  have "unat x * unat b \<le> (2 ^ 32 - 1) * (2 ^ 32 - 1)" using bd(1,2) by (rule mult_le_mono)
  then have P: "unat x * unat b \<le> 2 ^ 64 - 2 * 2 ^ 32 + 1" by simp
  have r: "unat (ucast x * ucast b :: u64) = unat x * unat b"
    using P by (simp add: unat_word_ariths)
  have "unat (drop_bit 32 (ucast x * ucast b :: u64)) = unat x * unat b div 2 ^ 32"
    using r by (simp add: drop_bit_eq_div unat_div_distrib)
  moreover have "unat x * unat b div 2 ^ 32 < 2 ^ 32" using P by simp
  ultimately have W: "unat W = unat x * unat b div 2 ^ 32"
    unfolding W_def by (simp add: unsigned_ucast_eq take_bit_nat_eq_self)
  have V: "unat (x * b) = unat x * unat b mod 2 ^ 32" by (simp add: unat_word_ariths)
  have e1: "unat V1 + 2 ^ 32 * k1 = unat (x * b) + unat U"
    unfolding V1_def k1_def by (rule u32_add_carry)
  have e2: "unat V2 + 2 ^ 32 * k2 = unat V1 + unat c"
    unfolding V2_def k2_def by (rule u32_add_carry)
  have tot: "unat V2 + 2 ^ 32 * (k1 + unat W + k2) = unat x * unat b + unat U + unat c"
  proof -
    have "2 ^ 32 * unat W + unat (x * b) = unat x * unat b" unfolding V W by (rule mult_div_mod_eq)
    moreover have "2 ^ 32 * (k1 + unat W + k2) = 2 ^ 32 * k1 + 2 ^ 32 * unat W + 2 ^ 32 * k2"
      by (simp only: distrib_left)
    ultimately show ?thesis using e1 e2 by linarith
  qed
  then have "2 ^ 32 * (k1 + unat W + k2) < 2 ^ 64" using P bd(3,4) by simp
  then have fit: "k1 + unat W + k2 < 2 ^ 32" by simp
  have "U2 = of_nat (k1 + unat W + k2)" unfolding U2_def k1_def k2_def by simp
  moreover have "unat (of_nat n :: u32) = n" if "n < 2 ^ 32" for n
    using that by (simp add: unat_of_nat take_bit_nat_eq_self)
  ultimately have "unat U2 = k1 + unat W + k2" using fit by metis
  with tot show ?thesis by simp
qed

lemma mult_row_val:
  assumes "length bs = length cs" and "mult_row x bs cs U = (vs, r)"
  shows "length vs = length bs \<and>
     mp_val vs + 2 ^ (32 * length bs) * unat r = unat x * mp_val bs + mp_val cs + unat U"
  using assms
proof (induction bs cs arbitrary: U vs rule: list_induct2)
  case (Cons b bs c cs)
  define W where "W = (ucast (drop_bit 32 (ucast x * ucast b :: u64)) :: u32)"
  define V2 where "V2 = x * b + U + c"
  define U2 where "U2 = (if x * b + U < U then 1 else 0) + W + (if V2 < c then 1 else 0)"
  obtain vs' where vs: "mult_row x bs cs U2 = (vs', r)" "vs = V2 # vs'"
    using Cons.prems by (auto simp: Let_def W_def V2_def U2_def split: prod.splits)
  note IH = Cons.IH [OF vs(1)]
  have w: "unat V2 + 2 ^ 32 * unat U2 = unat x * unat b + unat U + unat c"
    unfolding V2_def U2_def W_def by (rule mult_word)
  have "mp_val vs + 2 ^ (32 * length (b # bs)) * unat r =
      unat V2 + 2 ^ 32 * (mp_val vs' + 2 ^ (32 * length bs) * unat r)"
    by (simp add: vs(2) power_add algebra_simps)
  also have "\<dots> = (unat V2 + 2 ^ 32 * unat U2) + 2 ^ 32 * (unat x * mp_val bs + mp_val cs)"
    using IH by (simp add: algebra_simps)
  also have "\<dots> = unat x * mp_val (b # bs) + mp_val (c # cs) + unat U"
    unfolding w by (simp add: algebra_simps)
  finally show ?case using IH vs(2) by simp
qed simp

lemma mult_loop_val:
  assumes "length b = length c"
  shows "mp_val (mult_loop a b c) = mp_val a * mp_val b + mp_val c \<and> length (mult_loop a b c) = length a + length b"
  using assms
proof (induction a arbitrary: c)
  case (Cons x as)
  obtain vs U where r: "mult_row x b c 0 = (vs, U)" by force
  note v = mult_row_val [OF Cons.prems r]
  obtain h t where ht: "vs @ [U] = h # t" by (cases "vs @ [U]") auto
  have lt: "length b = length t" using v arg_cong [OF ht, of length] by simp
  have "mp_val (h # t) = unat x * mp_val b + mp_val c"
    unfolding ht [symmetric] using v by (simp add: mp_val_append)
  with Cons.IH [OF lt] r ht show ?case by (simp add: algebra_simps)
qed simp

section \<open>Inversion\<close>

lemma hd_parity:
  assumes "a \<noteq> []"
  shows "hd a AND 1 = 0 \<longleftrightarrow> even (mp_val a)"
proof -
  obtain x xs where a: "a = x # xs" using assms by (cases a) auto
  have "unat (x AND 1) = unat x mod 2" using unat_and_mask [of x 1] by (simp add: mask_eq_exp_minus_1)
  then have "x AND 1 = 0 \<longleftrightarrow> even (unat x)"
    by (metis even_iff_mod_2_eq_zero unat_0 unat_eq_zero)
  then show ?thesis by (simp add: a)
qed

lemma last_rshift:
  assumes "s \<noteq> []"
  shows "last (multiprecision_rshift s) = drop_bit 1 (last s)"
proof -
  obtain ys y where s: "s = ys @ [y]" using assms by (metis rev_exhaust)
  then show ?thesis by (simp add: multiprecision_rshift_def)
qed

lemma half_mod_val:
  assumes "length A = length p" and "A \<noteq> []" and "odd (mp_val p)" and "mp_val A < mp_val p"
  shows "mp_val (half_mod p A) = (if even (mp_val A) then mp_val A div 2 else (mp_val A + mp_val p) div 2)"
    and "length (half_mod p A) = length p" and "mp_val (half_mod p A) < mp_val p"
proof -
  have "mp_val (half_mod p A) = (if even (mp_val A) then mp_val A div 2 else (mp_val A + mp_val p) div 2) \<and>
      length (half_mod p A) = length p"
  proof (cases "even (mp_val A)")
    case True
    then show ?thesis using hd_parity [OF assms(2)] assms(1) by (simp add: half_mod_def rshift_val)
  next
    case False
    obtain s r where s: "multiprecision_add A p = (s, r)" by force
    note v = add_val [OF assms(1) s]
    define h where "h = multiprecision_rshift s"
    define n where "n = length p - 1"
    have "0 < length p" using assms(1,2) by (metis length_greater_0_conv)
    then have n: "length p = Suc n" "length s = Suc n" "length h = Suc n"
      using assms(1) v(1) by (simp_all add: n_def h_def rshift_val(2))
    have sn: "s \<noteq> []" "h \<noteq> []" using n by auto
    define B where "B = (2 :: nat) ^ (32 * n)"
    have bl: "h = butlast h @ [last h]" "length (butlast h) = n" using sn n by simp_all
    have upd: "h[length h - 1 := w] = butlast h @ [w]" for w
      using bl n by (metis diff_Suc_1 list_update_length)
    have hv: "mp_val (butlast h) + B * unat (last h) = mp_val s div 2"
      using arg_cong [OF bl(1), of mp_val] bl(2) rshift_val(1) [of s]
      by (simp add: mp_val_append B_def h_def)
    have lh: "unat (last h) = unat (last s) div 2"
      using last_rshift [OF sn(1)] by (simp add: h_def drop_bit_eq_div unat_div_distrib)
    have "unat (last h OR push_bit 31 r) = unat (last h) + 2 ^ 31 * unat r"
      using rshift_word [of "last s" r] last_rshift [OF sn(1)] lh v(2) by (auto simp: h_def)
    then have "mp_val (half_mod p A) = mp_val (butlast h) + B * (unat (last h) + 2 ^ 31 * unat r)"
      using False hd_parity [OF assms(2)] s upd bl(2)
      by (simp add: half_mod_def h_def [symmetric] mp_val_append B_def Let_def)
    also have "\<dots> = mp_val s div 2 + B * 2 ^ 31 * unat r" using hv by (simp add: algebra_simps)
    also have "\<dots> = (mp_val s + 2 * (B * 2 ^ 31 * unat r)) div 2" by simp
    also have "2 * (B * 2 ^ 31 * unat r) = 2 ^ (32 * length A) * unat r"
      using assms(1) n by (simp add: B_def power_add)
    also have "mp_val s + \<dots> = mp_val A + mp_val p" using v(3) .
    finally have "mp_val (half_mod p A) = (mp_val A + mp_val p) div 2" .
    moreover have "length (half_mod p A) = length p"
      using False hd_parity [OF assms(2)] s upd bl(2) n by (simp add: half_mod_def h_def [symmetric] Let_def)
    ultimately show ?thesis using False by simp
  qed
  then show "mp_val (half_mod p A) = (if even (mp_val A) then mp_val A div 2 else (mp_val A + mp_val p) div 2)"
    "length (half_mod p A) = length p" by auto
  then show "mp_val (half_mod p A) < mp_val p" using assms(4) by (auto split: if_splits)
qed

text \<open>\<open>A\<close> represents \<open>u\<close>: multiplied with the number to invert it is \<open>u\<close> modulo the prime.\<close>

definition represents :: "u32 list \<Rightarrow> nat \<Rightarrow> u32 list \<Rightarrow> u32 list \<Rightarrow> bool" where
  "represents p a A u \<longleftrightarrow> length A = length p \<and> length u = length p \<and> mp_val A < mp_val p \<and>
     int (mp_val p) dvd int (mp_val A) * int a - int (mp_val u)"

lemma represents_half:
  assumes "represents p a A u" and "odd (mp_val p)" and "p \<noteq> []" and "even (mp_val u)"
  shows "represents p a (half_mod p A) (multiprecision_rshift u)"
proof -
  define P where "P = int (mp_val p)"
  define h where "h = half_mod p A"
  have A: "length A = length p" "A \<noteq> []" "mp_val A < mp_val p" using assms(1,3) by (auto simp: represents_def)
  note hv = half_mod_val [OF A(1,2) assms(2) A(3), folded h_def]
  have "2 * int (mp_val h) = int (mp_val A) + (if even (mp_val A) then 0 else P)"
    using hv(1) assms(2) by (auto simp: P_def elim!: evenE oddE)
  moreover have "2 * int (mp_val u div 2) = int (mp_val u)" using assms(4) by auto
  ultimately have "2 * (int (mp_val h) * int a - int (mp_val u div 2)) =
      (int (mp_val A) * int a - int (mp_val u)) + (if even (mp_val A) then 0 else P) * int a"
    by (simp add: algebra_simps)
  moreover have "P dvd \<dots>" using assms(1) by (auto simp: represents_def P_def)
  ultimately have "P dvd 2 * (int (mp_val h) * int a - int (mp_val u div 2))" by simp
  moreover have "coprime P 2" using assms(2) by (simp add: P_def)
  ultimately have "P dvd int (mp_val h) * int a - int (mp_val u div 2)"
    using coprime_dvd_mult_right_iff by blast
  with hv assms(1) show ?thesis by (simp add: represents_def h_def P_def rshift_val)
qed

lemma even_loop_total:
  assumes "represents p a A u" and "odd (mp_val p)" and "p \<noteq> []" and "0 < mp_val u"
  shows "\<exists>u1 A1. even_loop p u A = Some (u1, A1) \<and> represents p a A1 u1 \<and> odd (mp_val u1) \<and> mp_val u1 dvd mp_val u"
  using assms(1,4)
proof (induction "mp_val u" arbitrary: u A rule: less_induct)
  case less
  have u: "u \<noteq> []" using less.prems(1) assms(3) by (auto simp: represents_def)
  show ?case
  proof (cases "even (mp_val u)")
    case False
    with hd_parity [OF u] less.prems(1) show ?thesis by (subst even_loop.simps) simp
  next
    case True
    have "mp_val (multiprecision_rshift u) < mp_val u" "0 < mp_val (multiprecision_rshift u)"
      using less.prems(2) True by (auto simp: rshift_val elim!: evenE)
    from less.hyps [OF this(1) represents_half [OF less.prems(1) assms(2,3) True] this(2)]
    obtain u1 A1 where r: "even_loop p (multiprecision_rshift u) (half_mod p A) = Some (u1, A1)"
        "represents p a A1 u1" "odd (mp_val u1)" "mp_val u1 dvd mp_val u div 2"
      by (auto simp: rshift_val)
    moreover have "mp_val u div 2 dvd mp_val u" using True by auto
    ultimately show ?thesis
      using True hd_parity [OF u] dvd_trans by (subst even_loop.simps) auto
  qed
qed

lemma represents_sub:
  assumes "represents p a A u" and "represents p a C v" and "mp_val v \<le> mp_val u"
  shows "represents p a (sub_mod p A C) (fst (multiprecision_sub u v))"
proof -
  have l: "length A = length p" "length C = length p" "mp_val A < mp_val p" "mp_val C < mp_val p"
      "length u = length v" "length u = length p"
    using assms(1,2) by (auto simp: represents_def)
  note s = sub_mod_val [OF l(1-4)] and d = sub_no_borrow [OF l(5) assms(3)]
  define P where "P = int (mp_val p)"
  have "int (mp_val (sub_mod p A C)) = (int (mp_val A) - int (mp_val C) + P) mod P"
    unfolding s(1) P_def using l(3,4) by (simp add: zmod_int of_nat_diff algebra_simps)
  then obtain k where k: "int (mp_val (sub_mod p A C)) = int (mp_val A) - int (mp_val C) + P * k"
    by (metis minus_mod_eq_mult_div add.commute diff_add_eq mult.commute mod_add_self2 minus_mult_div_eq_mod
        mult_minus_right diff_conv_add_uminus)
  have u: "int (mp_val (fst (multiprecision_sub u v))) = int (mp_val u) - int (mp_val v)"
    unfolding d(1) using assms(3) by (simp add: of_nat_diff)
  have "int (mp_val (sub_mod p A C)) * int a - int (mp_val (fst (multiprecision_sub u v))) =
      (int (mp_val A) * int a - int (mp_val u)) - (int (mp_val C) * int a - int (mp_val v)) + P * (k * int a)"
    unfolding k u by (simp add: algebra_simps)
  moreover have "P dvd \<dots>" using assms(1,2) by (auto simp: represents_def P_def)
  moreover have "mp_val (sub_mod p A C) < mp_val p" unfolding s(1) using l(3) by simp
  ultimately show ?thesis using s(2) d(2) l(6) by (simp add: represents_def P_def)
qed

lemma coprime_dvd_nat: "coprime (a :: nat) b \<Longrightarrow> c dvd a \<Longrightarrow> d dvd b \<Longrightarrow> coprime c d"
  by (meson coprime_divisors)

lemma inv_loop_total:
  assumes "represents p a A u" and "represents p a C v" and "odd (mp_val p)" and "p \<noteq> []"
    and "0 < mp_val v"
  shows "\<exists>R e. inv_loop p u v A C = Some R \<and> represents p a R e \<and>
    (coprime (mp_val u) (mp_val v) \<longrightarrow> mp_val e = 1)"
  using assms(1,2,5)
proof (induction "mp_val u + mp_val v" arbitrary: u v A C rule: less_induct)
  case less
  show ?case
  proof (cases "mp_val u = 0")
    case True
    then have "coprime (mp_val u) (mp_val v) \<longrightarrow> mp_val v = 1" by simp
    with True less.prems(2) show ?thesis by (subst inv_loop.simps) (auto simp: iszero_iff)
  next
    case False
    obtain u1 A1 where e1: "even_loop p u A = Some (u1, A1)" "represents p a A1 u1" "odd (mp_val u1)" "mp_val u1 dvd mp_val u"
      using even_loop_total [OF less.prems(1) assms(3,4)] False by auto
    obtain v1 C1 where e2: "even_loop p v C = Some (v1, C1)" "represents p a C1 v1" "odd (mp_val v1)" "mp_val v1 dvd mp_val v"
      using even_loop_total [OF less.prems(2) assms(3,4) less.prems(3)] by auto
    have le: "mp_val u1 \<le> mp_val u" "mp_val v1 \<le> mp_val v" and pos: "0 < mp_val u1" "0 < mp_val v1"
      using e1(3,4) e2(3,4) False less.prems(3) by (auto intro: dvd_imp_le odd_pos)
    have cop: "coprime (mp_val u) (mp_val v) \<Longrightarrow> coprime (mp_val u1) (mp_val v1)"
      using coprime_dvd_nat [OF _ e1(4) e2(4)] .
    have len: "length u1 = length v1" using e1(2) e2(2) by (simp add: represents_def)
    have unf: "inv_loop p u v A C =
        (if 0 \<le> multiprecision_compare u1 v1
         then inv_loop p (fst (multiprecision_sub u1 v1)) v1 (sub_mod p A1 C1) C1
         else inv_loop p u1 (fst (multiprecision_sub v1 u1)) A1 (sub_mod p C1 A1))"
      using False e1(1) e2(1) by (subst inv_loop.simps) (simp add: iszero_iff)
    show ?thesis
    proof (cases "mp_val v1 \<le> mp_val u1")
      case True
      note d = sub_no_borrow [OF len True]
      have "coprime (mp_val u) (mp_val v) \<Longrightarrow> coprime (mp_val u1 - mp_val v1) (mp_val v1)"
        using cop True by (metis coprime_iff_gcd_eq_1 gcd_diff1_nat)
      then show ?thesis
        using less.hyps [OF _ represents_sub [OF e1(2) e2(2) True] e2(2)] d(1) le pos True
          compare_val [OF len] unf by auto
    next
      case lt: False
      then have l: "mp_val u1 \<le> mp_val v1" by simp
      note d = sub_no_borrow [OF len [symmetric] l]
      have "coprime (mp_val u) (mp_val v) \<Longrightarrow> coprime (mp_val u1) (mp_val v1 - mp_val u1)"
        using cop l by (metis coprime_iff_gcd_eq_1 gcd_diff1_nat gcd.commute)
      then show ?thesis
        using less.hyps [OF _ e1(2) represents_sub [OF e2(2) e1(2) l]] d(1) le pos lt
          compare_val [OF len] unf by auto
    qed
  qed
qed

section \<open>The properties\<close>

lemma modp_facts:
  assumes "modp_of n = Some p"
  shows "length p = n" and "odd (mp_val p)" and "1 < mp_val p" and "p \<noteq> []"
    and "p = (if n = KEY_LENGTH_DWORDS_P256 then curve_p256_p else curve_p)"
  using assms
  by (auto simp: modp_of_def curve_p_def curve_p256_p_def KEY_LENGTH_DWORDS_P192_def
      KEY_LENGTH_DWORDS_P256_def split: if_splits)

text \<open>
  For both key lengths, addition, subtraction and doubling of numbers below the prime give
  the result modulo the prime, below it again.
\<close>

theorem modular_operations_exact:
  assumes "modp_of n = Some p" and "length a = n" and "length b = n"
    and "mp_val a < mp_val p" and "mp_val b < mp_val p"
  shows "(\<exists>c. multiprecision_add_mod a b n = Some c \<and> length c = n \<and> mp_val c = (mp_val a + mp_val b) mod mp_val p) \<and>
     (\<exists>c. multiprecision_sub_mod a b n = Some c \<and> length c = n \<and> int (mp_val c) = (int (mp_val a) - int (mp_val b)) mod int (mp_val p)) \<and>
     (\<exists>c. multiprecision_lshift_mod a n = Some c \<and> length c = n \<and> mp_val c = (2 * mp_val a) mod mp_val p)"
proof (intro conjI)
  have lp: "length p = n" using modp_facts(1) [OF assms(1)] .
  obtain c r where c: "multiprecision_add a b = (c, r)" by force
  have ab: "length a = length b" using assms(2,3) by simp
  note v = add_val [OF ab c]
  show "\<exists>c. multiprecision_add_mod a b n = Some c \<and> length c = n \<and> mp_val c = (mp_val a + mp_val b) mod mp_val p"
    using reduce_once_val [of c p r] v c assms lp by (simp add: multiprecision_add_mod_def)
  obtain d s where d: "multiprecision_lshift a = (d, s)" by force
  note w = lshift_val [OF d]
  show "\<exists>c. multiprecision_lshift_mod a n = Some c \<and> length c = n \<and> mp_val c = (2 * mp_val a) mod mp_val p"
    using reduce_once_val [of d p s] w d assms lp by (simp add: multiprecision_lshift_mod_def)
  have "int (mp_val (sub_mod p a b)) = (int (mp_val a) + int (mp_val p) - int (mp_val b)) mod int (mp_val p)"
    using sub_mod_val(1) [of a p b] assms lp by (simp add: zmod_int of_nat_diff)
  also have "\<dots> = (int (mp_val a) - int (mp_val b) + int (mp_val p)) mod int (mp_val p)"
    by (simp add: algebra_simps)
  also have "\<dots> = (int (mp_val a) - int (mp_val b)) mod int (mp_val p)" by (rule mod_add_self2)
  finally show "\<exists>c. multiprecision_sub_mod a b n = Some c \<and> length c = n \<and>
      int (mp_val c) = (int (mp_val a) - int (mp_val b)) mod int (mp_val p)"
    using sub_mod_val(2) [of a p b] assms lp by (simp add: multiprecision_sub_mod_def)
qed

theorem modular_operations_exact_witness:
  "\<exists>c. multiprecision_sub_mod [1, 0, 0, 0, 0, 0, 0, 0] [2, 0, 0, 0, 0, 0, 0, 0] 8 = Some c \<and>
     int (mp_val c) = - 1 mod int (mp_val curve_p256_p)"
  using modular_operations_exact [of 8 curve_p256_p "[1, 0, 0, 0, 0, 0, 0, 0]" "[2, 0, 0, 0, 0, 0, 0, 0]"]
  by (auto simp: modp_of_def KEY_LENGTH_DWORDS_P192_def KEY_LENGTH_DWORDS_P256_def curve_p256_p_def)

text \<open>
  \<open>multiprecision_mult\<close> gives the exact product, in twice the number of words; no carry is lost.
\<close>

theorem multiplication_exact:
  assumes "length a = n" and "length b = n"
  shows "mp_val (multiprecision_mult a b n) = mp_val a * mp_val b \<and> length (multiprecision_mult a b n) = 2 * n"
  using mult_loop_val [of b "multiprecision_init n" a] assms
  by (simp add: multiprecision_mult_def multiprecision_init_def)

theorem multiplication_exact_witness:
  "mp_val (multiprecision_mult [0xFFFFFFFF, 0xFFFFFFFF] [0xFFFFFFFF, 0xFFFFFFFF] 2) = (2 ^ 64 - 1) * (2 ^ 64 - 1)"
  using multiplication_exact [of "[0xFFFFFFFF, 0xFFFFFFFF]" 2 "[0xFFFFFFFF, 0xFFFFFFFF]"] by simp

lemma inv_mod_total:
  assumes "modp_of n = Some p" and "length u = n"
  shows "\<exists>r. multiprecision_inv_mod u n = Some r \<and> length r = n \<and> mp_val r < mp_val p \<and>
     (coprime (mp_val u) (mp_val p) \<longrightarrow> (mp_val r * mp_val u) mod mp_val p = 1)"
proof -
  note m = modp_facts [OF assms(1)]
  define z where "z = multiprecision_init n"
  have z: "length z = n" "mp_val z = 0" by (simp_all add: z_def multiprecision_init_def)
  then obtain k where n: "n = Suc k" using m(1,4) by (cases n) auto
  have one: "length (z[0 := 1]) = n" "mp_val (z[0 := 1]) = 1"
    by (simp_all add: z_def multiprecision_init_def n)
  have "represents p (mp_val u) (z[0 := 1]) u" "represents p (mp_val u) z p"
    using one z m(1,3) assms(2) by (simp_all add: represents_def)
  from inv_loop_total [OF this m(2,4)] m(3)
  obtain C e where C: "inv_loop p u p (z[0 := 1]) z = Some C" "represents p (mp_val u) C e"
      "coprime (mp_val u) (mp_val p) \<longrightarrow> mp_val e = 1"
    by auto
  have Cp: "length C = length p" "mp_val C < mp_val p" using C(2) by (simp_all add: represents_def)
  then have r: "multiprecision_inv_mod u n = Some C"
    using C(1) compare_val [OF Cp(1)] m(5)
    by (simp add: multiprecision_inv_mod_def z_def [symmetric] Let_def)
  have "mp_val C * mp_val u mod mp_val p = 1" if "coprime (mp_val u) (mp_val p)"
  proof -
    have "int (mp_val p) dvd int (mp_val C * mp_val u) - int 1" using C(2,3) that by (simp add: represents_def)
    then have "int (mp_val C * mp_val u) mod int (mp_val p) = int 1 mod int (mp_val p)"
      by (simp add: mod_eq_dvd_iff)
    then have "mp_val C * mp_val u mod mp_val p = 1 mod mp_val p"
      by (simp only: zmod_int [symmetric] of_nat_eq_iff)
    then show ?thesis using m(3) by simp
  qed
  with r Cp m(1) show ?thesis by auto
qed

text \<open>
  C24. \<open>multiprecision_inv_mod\<close> ends for every number, with a number below the prime, and when the
  argument is coprime to the prime it is its inverse: the product is 1 modulo the prime.
\<close>

theorem inversion_ends_and_inverts:
  assumes "modp_of n = Some p" and "length u = n"
  shows "\<exists>r. multiprecision_inv_mod u n = Some r \<and> length r = n \<and> mp_val r < mp_val p \<and>
     (coprime (mp_val u) (mp_val p) \<longrightarrow> (mp_val r * mp_val u) mod mp_val p = 1)"
  using assms by (rule inv_mod_total)

theorem inversion_ends_and_inverts_witness:
  "\<exists>r. multiprecision_inv_mod [2, 0, 0, 0, 0, 0, 0, 0] 8 = Some r \<and> mp_val r * 2 mod mp_val curve_p256_p = 1"
proof -
  have m: "modp_of 8 = Some curve_p256_p"
    by (simp add: modp_of_def KEY_LENGTH_DWORDS_P192_def KEY_LENGTH_DWORDS_P256_def)
  have "coprime (mp_val [2, 0, 0, 0, 0, 0, 0, 0]) (mp_val curve_p256_p)"
    using modp_facts(2) [OF m] by simp
  with inversion_ends_and_inverts [OF m, of "[2, 0, 0, 0, 0, 0, 0, 0]"] show ?thesis by auto
qed

end
