(* ===== verification/Mp_Fast.thy ===== *)
theory Mp_Fast
  imports Mp_Correct
begin

text \<open>
  Reduction of a product modulo the prime, BT/libbt/src/algorithms/p_256_multprecision.c: the
  routines that fold the upper words of a double length number into the lower ones, and the
  multiplication and squaring built on them.
\<close>

section \<open>Sums of words with a count of the carries\<close>

definition lt :: "u32 \<Rightarrow> u32 \<Rightarrow> u32" where
  "lt x y = (if x < y then 1 else 0)"

text \<open>
  \<open>c += x; U += (c < x); U += ux\<close> and \<open>U -= (c < x); U -= ux; c -= x\<close>, for a word \<open>x\<close> with the carries
  \<open>ux\<close> of its own.
\<close>

definition plus_word :: "u32 \<times> u32 \<Rightarrow> u32 \<times> u8 \<Rightarrow> u32 \<times> u32" where
  "plus_word s x = (case s of (c, U) \<Rightarrow> (c + fst x, U + lt (c + fst x) (fst x) + ucast (snd x)))"

definition minus_word :: "u32 \<times> u32 \<Rightarrow> u32 \<times> u8 \<Rightarrow> u32 \<times> u32" where
  "minus_word s x = (case s of (c, U) \<Rightarrow> (c - fst x, U - lt c (fst x) - ucast (snd x)))"

text \<open>The same for the sums \<open>A\<close> to \<open>G\<close>, whose carries are counted in a byte.\<close>

definition sum_word :: "u32 \<times> u8 \<Rightarrow> u32 \<Rightarrow> u32 \<times> u8" where
  "sum_word s x = (case s of (c, u) \<Rightarrow> (c + x, u + ucast (lt (c + x) x)))"

definition diff_word :: "u32 \<times> u8 \<Rightarrow> u32 \<Rightarrow> u32 \<times> u8" where
  "diff_word s x = (case s of (c, u) \<Rightarrow> (c - x, u - ucast (lt c x)))"

text \<open>The carry \<open>U\<close> of one word enters the next word \<open>ak\<close>; the result has the new \<open>U\<close>.\<close>

definition carry_in :: "u32 \<Rightarrow> u32 \<Rightarrow> u32 \<times> u32" where
  "carry_in U ak =
     (if U AND 0x80000000 \<noteq> 0 then let UU = 0 - U in (ak - UU, lt ak UU)
      else (ak + U, lt (ak + U) ak))"

section \<open>Reduction for the 256-bit key\<close>

definition P256_C :: "u32 list \<Rightarrow> u32 \<times> u8" where
  "P256_C a = sum_word (sum_word (a ! 13, 0) (a ! 14)) (a ! 15)"

definition P256_B :: "u32 list \<Rightarrow> u32 \<times> u8" where
  "P256_B a = sum_word (P256_C a) (a ! 12)"

definition P256_A :: "u32 list \<Rightarrow> u32 \<times> u8" where
  "P256_A a = diff_word (sum_word (P256_B a) (a ! 11)) (a ! 15)"

definition P256_D :: "u32 list \<Rightarrow> u32 \<times> u8" where
  "P256_D a = diff_word (sum_word (P256_A a) (a ! 10)) (a ! 14)"

definition P256_E :: "u32 list \<Rightarrow> u32 \<times> u8" where
  "P256_E a = sum_word (a ! 8, 0) (a ! 9)"

definition P256_F :: "u32 list \<Rightarrow> u32 \<times> u8" where
  "P256_F a = sum_word (a ! 9, 0) (a ! 10)"

definition P256_G :: "u32 list \<Rightarrow> u32 \<times> u8" where
  "P256_G a = sum_word (a ! 10, 0) (a ! 11)"

text \<open>The eight words and the last carry, before the prime is added or subtracted.\<close>

definition fast_mod_P256_words :: "u32 list \<Rightarrow> u32 list \<times> u32" where
  "fast_mod_P256_words a =
     (let w = (\<lambda>i. (a ! i, 0 :: u8));
          A = P256_A a; B = P256_B a; C = P256_C a; D = P256_D a; E = P256_E a; F = P256_F a; G = P256_G a;
          (c0, U) = minus_word (plus_word (a ! 0, 0) E) A;
          (c1, U) = minus_word (plus_word (carry_in U (a ! 1)) F) B;
          (c2, U) = minus_word (plus_word (carry_in U (a ! 2)) G) C;
          (c3, U) = minus_word (minus_word (minus_word (plus_word (plus_word (plus_word
                      (carry_in U (a ! 3)) A) (w 11)) (w 12)) (w 14)) (w 15)) E;
          (c4, U) = minus_word (plus_word (plus_word (minus_word (plus_word
                      (carry_in U (a ! 4)) B) (w 15)) (w 12)) (w 13)) F;
          (c5, U) = minus_word (plus_word (plus_word (plus_word
                      (carry_in U (a ! 5)) C) (w 13)) (w 14)) G;
          (c6, U) = minus_word (plus_word (plus_word (plus_word (plus_word
                      (carry_in U (a ! 6)) C) (w 14)) (w 14)) (w 15)) E;
          (c7, U) = minus_word (plus_word (plus_word (plus_word (plus_word
                      (carry_in U (a ! 7)) (w 15)) (w 15)) (w 15)) (w 8)) D
      in ([c0, c1, c2, c3, c4, c5, c6, c7], U))"

text \<open>The loops \<open>while (U)\<close> count \<open>U\<close> up or down to zero.\<close>

definition multiprecision_fast_mod_P256 :: "u32 list \<Rightarrow> u32 list" where
  "multiprecision_fast_mod_P256 a =
     (let (c, U) = fast_mod_P256_words a;
          c' = (if U AND 0x80000000 \<noteq> 0
                then ((\<lambda>x. fst (multiprecision_add x curve_p256_p)) ^^ unat (0 - U)) c
                else ((\<lambda>x. fst (multiprecision_sub x curve_p256_p)) ^^ unat U) c)
      in if 0 \<le> multiprecision_compare c' curve_p256_p
         then fst (multiprecision_sub c' curve_p256_p) else c')"

section \<open>Reduction for the 192-bit key\<close>

text \<open>\<open>c = a + U; U = c < a\<close>.\<close>

definition next_word :: "u32 \<Rightarrow> u32 \<Rightarrow> u32 \<times> u32" where
  "next_word U ak = (ak + U, lt (ak + U) ak)"

text \<open>\<open>c += V; V = c < V\<close>. The carry of the first addition to \<open>c[2]\<close> is overwritten by the second.\<close>

definition add_carry :: "u32 \<Rightarrow> u32 \<Rightarrow> u32 \<times> u32" where
  "add_carry c V = (c + V, lt (c + V) V)"

definition fast_mod_words :: "u32 list \<Rightarrow> u32 list \<times> u32" where
  "fast_mod_words a =
     (let w = (\<lambda>i. (a ! i, 0 :: u8));
          (c0, U) = plus_word (next_word (a ! 6) (a ! 0)) (w 10);
          (c1, U) = plus_word (plus_word (next_word U (a ! 1)) (w 7)) (w 11);
          (c2, U) = plus_word (plus_word (plus_word (next_word U (a ! 2)) (w 6)) (w 8)) (w 10);
          (c3, U) = plus_word (plus_word (plus_word (next_word U (a ! 3)) (w 7)) (w 9)) (w 11);
          (c4, U) = plus_word (plus_word (next_word U (a ! 4)) (w 8)) (w 10);
          (c5, U) = plus_word (plus_word (next_word U (a ! 5)) (w 9)) (w 11);
          (c0, V) = add_carry c0 U;
          (c1, V) = add_carry c1 V;
          (c2, V) = add_carry c2 V;
          (c2, V) = add_carry c2 U;
          (c3, V) = add_carry c3 V;
          (c4, V) = add_carry c4 V;
          (c5, V) = add_carry c5 V
      in ([c0, c1, c2, c3, c4, c5], V))"

definition multiprecision_fast_mod :: "u32 list \<Rightarrow> u32 list" where
  "multiprecision_fast_mod a = reduce_once curve_p (fast_mod_words a)"

section \<open>Multiplication modulo the prime\<close>

definition multiprecision_mersenns_mult_mod :: "u32 list \<Rightarrow> u32 list \<Rightarrow> nat \<Rightarrow> u32 list option" where
  "multiprecision_mersenns_mult_mod a b keyLength =
     (let cc = multiprecision_mult a b keyLength in
      if keyLength = 6 then Some (multiprecision_fast_mod cc)
      else if keyLength = 8 then Some (multiprecision_fast_mod_P256 cc)
      else None)"

definition multiprecision_mersenns_squa_mod :: "u32 list \<Rightarrow> nat \<Rightarrow> u32 list option" where
  "multiprecision_mersenns_squa_mod a keyLength = multiprecision_mersenns_mult_mod a a keyLength"

end
