(* ===== verification/Ecc.thy ===== *)
theory Ecc
  imports Mp_Fast
begin

text \<open>
  Points of the pairing curves and their multiplication by a number,
  BT/libbt/src/algorithms/p_256_ecc_pp.c, in Jacobian coordinates. The arrays of a point have
  keyLength words here; the words beyond are never used. A result array never aliases an
  argument that is still read, since the callers pass copies.
\<close>

section \<open>Points\<close>

record Point =
  pt_x :: "u32 list"
  pt_y :: "u32 list"
  pt_z :: "u32 list"

definition p_256_init_point :: "nat \<Rightarrow> Point" where
  "p_256_init_point n =
     \<lparr>pt_x = multiprecision_init n, pt_y = multiprecision_init n, pt_z = multiprecision_init n\<rparr>"

text \<open>\<open>q\<close> is what the result held before; only its \<open>z\<close> is written when \<open>p\<close> is the point at infinity.\<close>

definition ECC_Double :: "Point \<Rightarrow> Point \<Rightarrow> nat \<Rightarrow> Point option" where
  "ECC_Double q p n =
     (if multiprecision_iszero (pt_z p) then Some (q\<lparr>pt_z := multiprecision_init n\<rparr>)
      else do {
        t1 \<leftarrow> multiprecision_mersenns_squa_mod (pt_z p) n;
        t2 \<leftarrow> multiprecision_sub_mod (pt_x p) t1 n;
        t1 \<leftarrow> multiprecision_add_mod (pt_x p) t1 n;
        t2 \<leftarrow> multiprecision_mersenns_mult_mod t1 t2 n;
        t3 \<leftarrow> multiprecision_lshift_mod t2 n;
        t2 \<leftarrow> multiprecision_add_mod t3 t2 n;
        z3 \<leftarrow> multiprecision_mersenns_mult_mod (pt_y p) (pt_z p) n;
        z3 \<leftarrow> multiprecision_lshift_mod z3 n;
        y3 \<leftarrow> multiprecision_mersenns_squa_mod (pt_y p) n;
        y3 \<leftarrow> multiprecision_lshift_mod y3 n;
        t3 \<leftarrow> multiprecision_mersenns_mult_mod y3 (pt_x p) n;
        t3 \<leftarrow> multiprecision_lshift_mod t3 n;
        y3 \<leftarrow> multiprecision_mersenns_squa_mod y3 n;
        y3 \<leftarrow> multiprecision_lshift_mod y3 n;
        x3 \<leftarrow> multiprecision_mersenns_squa_mod t2 n;
        t1 \<leftarrow> multiprecision_lshift_mod t3 n;
        x3 \<leftarrow> multiprecision_sub_mod x3 t1 n;
        t1 \<leftarrow> multiprecision_sub_mod t3 x3 n;
        t1 \<leftarrow> multiprecision_mersenns_mult_mod t1 t2 n;
        y3 \<leftarrow> multiprecision_sub_mod t1 y3 n;
        Some \<lparr>pt_x = x3, pt_y = y3, pt_z = z3\<rparr> })"

text \<open>
  The result \<open>r\<close>, and \<open>p\<close>, whose \<open>z\<close> serves as scratch space. The intermediate results that the early
  returns leave in \<open>r\<close> are the fields it had.
\<close>

definition ECC_Add :: "Point \<Rightarrow> Point \<Rightarrow> Point \<Rightarrow> nat \<Rightarrow> (Point \<times> Point) option" where
  "ECC_Add r p q n =
     (if multiprecision_iszero (pt_z q) then Some (p, p)
      else if multiprecision_iszero (pt_z p) then Some (q, p)
      else do {
        t1 \<leftarrow> multiprecision_mersenns_squa_mod (pt_z p) n;
        t2 \<leftarrow> multiprecision_mersenns_mult_mod (pt_z p) t1 n;
        t1 \<leftarrow> multiprecision_mersenns_mult_mod (pt_x q) t1 n;
        t2 \<leftarrow> multiprecision_mersenns_mult_mod (pt_y q) t2 n;
        t1 \<leftarrow> multiprecision_sub_mod t1 (pt_x p) n;
        t2 \<leftarrow> multiprecision_sub_mod t2 (pt_y p) n;
        if multiprecision_iszero t1 then
          (if multiprecision_iszero t2 then do { r' \<leftarrow> ECC_Double r q n; Some (r', p) }
           else Some (r\<lparr>pt_z := multiprecision_init n\<rparr>, p))
        else do {
          z3 \<leftarrow> multiprecision_mersenns_mult_mod (pt_z p) t1 n;
          y3 \<leftarrow> multiprecision_mersenns_squa_mod t1 n;
          z1 \<leftarrow> multiprecision_mersenns_mult_mod y3 t1 n;
          y3 \<leftarrow> multiprecision_mersenns_mult_mod y3 (pt_x p) n;
          t1 \<leftarrow> multiprecision_lshift_mod y3 n;
          x3 \<leftarrow> multiprecision_mersenns_squa_mod t2 n;
          x3 \<leftarrow> multiprecision_sub_mod x3 t1 n;
          x3 \<leftarrow> multiprecision_sub_mod x3 z1 n;
          y3 \<leftarrow> multiprecision_sub_mod y3 x3 n;
          y3 \<leftarrow> multiprecision_mersenns_mult_mod y3 t2 n;
          z1 \<leftarrow> multiprecision_mersenns_mult_mod z1 (pt_y p) n;
          y3 \<leftarrow> multiprecision_sub_mod y3 z1 n;
          Some (\<lparr>pt_x = x3, pt_y = y3, pt_z = z3\<rparr>, p\<lparr>pt_z := z1\<rparr>) } })"

section \<open>The non-adjacent form\<close>

text \<open>
  \<open>k[0]++\<close> and, on overflow, \<open>do k[j]++ while (k[j++] == 0)\<close>: the loop does not stop at the end of
  the number.
\<close>

fun inc_words :: "u32 list \<Rightarrow> u32 list option" where
  "inc_words [] = None"
| "inc_words (x # xs) = (if x + 1 = 0 then do { ys \<leftarrow> inc_words xs; Some (0 # ys) } else Some ((x + 1) # xs))"

definition naf_sign :: "u32 list \<Rightarrow> u32" where
  "naf_sign k = (if hd k AND 1 \<noteq> 0 then hd k AND 3 else 0)"

definition naf_subtract :: "u32 \<Rightarrow> u32 list \<Rightarrow> u32 list option" where
  "naf_subtract sign k =
     (if sign = 0 then Some k
      else if sign = 1 then Some (k[0 := hd k AND 0xFFFFFFFE])
      else inc_words k)"

text \<open>Four digits to a byte: \<open>naf[i / 4] |= sign << ((i % 4) * 2)\<close>.\<close>

definition naf_store :: "u8 list \<Rightarrow> nat \<Rightarrow> u32 \<Rightarrow> u8 list option" where
  "naf_store naf i sign = do {
     b \<leftarrow> aget naf (i div 4);
     aset naf (i div 4) (b OR ucast (push_bit ((i mod 4) * 2) sign)) }"

definition naf_digit :: "u8 list \<Rightarrow> nat \<Rightarrow> u32 option" where
  "naf_digit naf i = do {
     b \<leftarrow> aget naf (i div 4);
     Some (ucast (drop_bit ((i mod 4) * 2) b) AND 3) }"

partial_function (option) naf_loop ::
  "u32 list \<Rightarrow> nat \<Rightarrow> u8 list \<Rightarrow> (u8 list \<times> nat \<times> u32 list) option" where
  "naf_loop k i naf =
     (if multiprecision_most_signbits k < 1 then Some (naf, i, k)
      else do {
        let sign = naf_sign k;
        k' \<leftarrow> naf_subtract sign k;
        naf' \<leftarrow> naf_store naf i sign;
        naf_loop (multiprecision_rshift k') (i + 1) naf' })"

text \<open>The digits, their number and what is left of \<open>k\<close>.\<close>

definition ECC_NAF :: "u8 list \<Rightarrow> u32 list \<Rightarrow> (u8 list \<times> nat \<times> u32 list) option" where
  "ECC_NAF naf k = naf_loop k 0 naf"

section \<open>Point multiplication\<close>

text \<open>The loop from the most significant digit down; \<open>i\<close> digits are left.\<close>

fun point_mult_loop :: "nat \<Rightarrow> u8 list \<Rightarrow> Point \<Rightarrow> Point \<Rightarrow> Point \<Rightarrow> nat \<Rightarrow> Point option" where
  "point_mult_loop 0 naf q p minus_p n = Some q"
| "point_mult_loop (Suc i) naf q p minus_p n = do {
     q1 \<leftarrow> ECC_Double q q n;
     sign \<leftarrow> naf_digit naf i;
     q2 \<leftarrow> (if sign = 1 then do { (r, _) \<leftarrow> ECC_Add q1 q1 p n; Some r }
           else if sign = 3 then do { (r, _) \<leftarrow> ECC_Add q1 q1 minus_p n; Some r }
           else Some q1);
     point_mult_loop i naf q2 p minus_p n }"

definition NAF_BYTES :: nat where "NAF_BYTES = 256 div 4 + 1"

text \<open>
  The result, the point \<open>p\<close> with its \<open>z\<close> set to 1, and the number, which is used up. The code reads
  the primes from globals that \<open>p_256_init_curve\<close> has to set; here they are set.
\<close>

definition ECC_PointMult_Bin_NAF :: "Point \<Rightarrow> u32 list \<Rightarrow> nat \<Rightarrow> (Point \<times> Point \<times> u32 list) option" where
  "ECC_PointMult_Bin_NAF p0 k n =
     (let modp = (if n = KEY_LENGTH_DWORDS_P256 then curve_p256_p else curve_p);
          one = (multiprecision_init n)[0 := 1];
          p = p0\<lparr>pt_z := one\<rparr>;
          minus_p = \<lparr>pt_x = pt_x p, pt_y = fst (multiprecision_sub modp (pt_y p)), pt_z = one\<rparr>
      in do {
        (naf, num, k') \<leftarrow> ECC_NAF (replicate NAF_BYTES 0) k;
        q \<leftarrow> point_mult_loop num naf (p_256_init_point n) p minus_p n;
        w \<leftarrow> multiprecision_inv_mod (pt_z q) n;
        z \<leftarrow> multiprecision_mersenns_squa_mod w n;
        x \<leftarrow> multiprecision_mersenns_mult_mod (pt_x q) z n;
        z \<leftarrow> multiprecision_mersenns_mult_mod z w n;
        y \<leftarrow> multiprecision_mersenns_mult_mod (pt_y q) z n;
        Some (\<lparr>pt_x = x, pt_y = y, pt_z = z\<rparr>, p, k') })"

end
