(* ===== verification/Keys.thy ===== *)
theory Keys
  imports Ecc
begin

text \<open>
  The helpers of src/algorithms/algo_utils.c, the curve constants of p_256_curvepara.c and the
  key operations of algo_api.c. The random device is a parameter: each read is a function on
  the bytes of the key.
\<close>

section \<open>The curves\<close>

record elliptic_curve_t =
  ec_a :: "u32 list"
  ec_b :: "u32 list"
  a_minus3 :: int
  ec_p :: "u32 list"
  omega :: "u32 list"
  ec_G :: Point

text \<open>\<open>memset(a, 0, 8)\<close> clears eight bytes, the first two words.\<close>

definition clear_8_bytes :: "u32 list \<Rightarrow> u32 list" where
  "clear_8_bytes a = [0, 0] @ drop 2 a"

text \<open>The first \<open>length src\<close> words are assigned.\<close>

definition set_words :: "u32 list \<Rightarrow> u32 list \<Rightarrow> u32 list" where
  "set_words a src = src @ drop (length src) a"

text \<open>The pair of global variables \<open>curve\<close> and \<open>curve_p256\<close>.\<close>

definition p_256_init_curve ::
  "nat \<Rightarrow> elliptic_curve_t \<times> elliptic_curve_t \<Rightarrow> elliptic_curve_t \<times> elliptic_curve_t" where
  "p_256_init_curve keyLength cs =
     (let (c192, c256) = cs in
      (if keyLength = KEY_LENGTH_DWORDS_P192 then c192\<lparr>
         ec_p := set_words (ec_p c192) curve_p,
         omega := clear_8_bytes (omega c192), ec_a := clear_8_bytes (ec_a c192), a_minus3 := 1,
         ec_b := set_words (ec_b c192) [0xc146b9b1, 0xfeb8deec, 0x72243049, 0x0fa7e9ab, 0xe59c80e7, 0x64210519],
         ec_G := (ec_G c192)\<lparr>
           pt_x := set_words (pt_x (ec_G c192)) [0x82ff1012, 0xf4ff0afd, 0x43a18800, 0x7cbf20eb, 0xb03090f6, 0x188da80e],
           pt_y := set_words (pt_y (ec_G c192)) [0x1e794811, 0x73f977a1, 0x631011ed, 0x631011ed, 0xffc8da78, 0x07192b95]\<rparr>\<rparr>
       else c192,
       if keyLength = KEY_LENGTH_DWORDS_P256 then c256\<lparr>
         ec_p := curve_p256_p,
         omega := clear_8_bytes (omega c256), ec_a := clear_8_bytes (ec_a c256), a_minus3 := 1,
         ec_b := [0x27d2604b, 0x3bce3c3e, 0xcc53b0f6, 0x651d06b0, 0x769886bc, 0xb3ebbd55, 0xaa3a93e7, 0x5ac635d8],
         ec_G := (ec_G c256)\<lparr>
           pt_x := [0xd898c296, 0xf4a13945, 0x2deb33a0, 0x77037d81, 0x63a440f2, 0xf8bce6e5, 0xe12c4247, 0x6b17d1f2],
           pt_y := [0x37bf51f5, 0xcbb64068, 0x6b315ece, 0x2bce3357, 0x7c0f9e16, 0x8ee7eb4a, 0xfe1a7f9b, 0x4fe342e2]\<rparr>\<rparr>
       else c256))"

section \<open>Bytes\<close>

definition swap_bytes :: "nat \<Rightarrow> u8 list \<Rightarrow> u8 list" where
  "swap_bytes i src =
     (let j = length src - 1 - i in src[i := src ! j, j := src ! i])"

definition big2nd :: "u8 list \<Rightarrow> u8 list" where
  "big2nd src = fold swap_bytes [0..<length src div 2] src"

definition hex_table :: string where "hex_table = ''0123456789abcdef''"

definition byte2hex :: "u8 \<Rightarrow> string" where
  "byte2hex b = [hex_table ! unat (drop_bit 4 b AND 0xf), hex_table ! unat (b AND 0xf)]"

text \<open>Characters are compared by their codes; arithmetic is on an \<open>unsigned char\<close>.\<close>

definition char2byte :: "char \<Rightarrow> u8" where
  "char2byte c =
     (let s = of_char c :: int in
      if of_char (CHR ''0'') - 1 < s \<and> s < of_char (CHR ''9'') + 1 then of_int (s - of_char (CHR ''0''))
      else if of_char (CHR ''A'') - 1 < s \<and> s < of_char (CHR ''F'') + 1 then of_int (s - of_char (CHR ''A'') + 10)
      else if of_char (CHR ''a'') - 1 < s \<and> s < of_char (CHR ''f'') + 1 then of_int (s - of_char (CHR ''a'') + 10)
      else 0xFF)"

text \<open>\<open>sz\<close> bytes are written; reading two characters for each may run past the string.\<close>

fun char2bytes :: "nat \<Rightarrow> string \<Rightarrow> u8 list option" where
  "char2bytes 0 src = Some []"
| "char2bytes (Suc n) (c # d # src) = do {
     bs \<leftarrow> char2bytes n src;
     Some ((push_bit 4 (char2byte c) OR char2byte d) # bs) }"
| "char2bytes (Suc n) src = None"

definition char2bytes_bg :: "nat \<Rightarrow> string \<Rightarrow> u8 list option" where
  "char2bytes_bg sz src = map_option big2nd (char2bytes sz src)"

text \<open>The text that the dump functions write, two characters for each byte.\<close>

definition dump_hex :: "u8 list \<Rightarrow> string" where
  "dump_hex dst = concat (map byte2hex dst)"

definition dump_hex_bg :: "u8 list \<Rightarrow> string" where
  "dump_hex_bg dst = concat (map byte2hex (big2nd dst))"

text \<open>A byte array read as words on a little endian machine, and back.\<close>

fun le_words :: "u8 list \<Rightarrow> u32 list" where
  "le_words (b0 # b1 # b2 # b3 # bs) =
     (ucast b0 OR push_bit 8 (ucast b1) OR push_bit 16 (ucast b2) OR push_bit 24 (ucast b3)) # le_words bs"
| "le_words _ = []"

definition le_bytes :: "u32 list \<Rightarrow> u8 list" where
  "le_bytes ws = concat (map (\<lambda>w. [ucast w, ucast (drop_bit 8 w), ucast (drop_bit 16 w), ucast (drop_bit 24 w)]) ws)"

section \<open>Keys\<close>

definition max_p192_secret_key :: "u8 list" where
  "max_p192_secret_key = [0x7f, 0xff, 0xff, 0xff, 0xff, 0xff, 0xff, 0xff, 0xff, 0xff, 0xff, 0xff,
     0xcc, 0xef, 0x7c, 0x1b, 0x0a, 0x35, 0xe4, 0xd8, 0xda, 0x69, 0x14, 0x18]"

definition max_p256_secret_key :: "u8 list" where
  "max_p256_secret_key = [0x0c, 0xcc, 0xcc, 0xcc, 0xc0, 0x00, 0x00, 0x00, 0x0c, 0xcc, 0xcc, 0xcc, 0xcc, 0xcc, 0xcc, 0xcc,
     0xc9, 0x71, 0xeb, 0x94, 0xaf, 0x5a, 0x6e, 0xf9, 0x4b, 0x97, 0xb1, 0xa5, 0x7e, 0x31, 0x92, 0xa8]"

text \<open>The inner loop, with whether it ran to the end of the key.\<close>

fun clamp_key :: "u8 list \<Rightarrow> u8 list \<Rightarrow> u8 list \<times> bool" where
  "clamp_key (k # ks) (m # ms) =
     (if k < m then (k # ks, False) else let (ks', e) = clamp_key ks ms in (m # ks', e))"
| "clamp_key ks _ = (ks, True)"

text \<open>
  \<open>reads\<close> are the calls of \<open>algo_generate_private_key\<close>: what the array holds after a read of the random
  device, given what it held before, since a read can fail or be short. The result is \<open>None\<close> when the
  reads do not lead out of the loop.
\<close>

fun generate_private_key :: "u8 list \<Rightarrow> (u8 list \<Rightarrow> u8 list) list \<Rightarrow> u8 list \<Rightarrow> u8 list option" where
  "generate_private_key max_key [] key = None"
| "generate_private_key max_key (rd # reads) key =
     (let (key', e) = clamp_key (rd key) max_key in
      if e then generate_private_key max_key reads key' else Some key')"

definition algo_p256_generate_private_key :: "(u8 list \<Rightarrow> u8 list) list \<Rightarrow> u8 list \<Rightarrow> u8 list option" where
  "algo_p256_generate_private_key = generate_private_key max_p256_secret_key"

definition algo_p192_generate_private_key :: "(u8 list \<Rightarrow> u8 list) list \<Rightarrow> u8 list \<Rightarrow> u8 list option" where
  "algo_p192_generate_private_key = generate_private_key max_p192_secret_key"

text \<open>The coordinates of the public key and the base point, whose \<open>z\<close> is set.\<close>

definition algo_p256_generate_public_key :: "Point \<Rightarrow> u8 list \<Rightarrow> ((u8 list \<times> u8 list) \<times> Point) option" where
  "algo_p256_generate_public_key G own_private_key = do {
     (q, G', _) \<leftarrow> ECC_PointMult_Bin_NAF G (le_words (big2nd own_private_key)) KEY_LENGTH_DWORDS_P256;
     Some ((big2nd (le_bytes (pt_x q)), big2nd (le_bytes (pt_y q))), G') }"

definition algo_p256_generate_dhkey :: "u8 list \<Rightarrow> u8 list \<Rightarrow> u8 list \<Rightarrow> u8 list option" where
  "algo_p256_generate_dhkey own_private_key peer_public_key_x peer_public_key_y = do {
     let peer = \<lparr>pt_x = le_words (big2nd peer_public_key_x), pt_y = le_words (big2nd peer_public_key_y),
                 pt_z = multiprecision_init KEY_LENGTH_DWORDS_P256\<rparr>;
     (q, _, _) \<leftarrow> ECC_PointMult_Bin_NAF peer (le_words (big2nd own_private_key)) KEY_LENGTH_DWORDS_P256;
     Some (big2nd (le_bytes (pt_x q))) }"

end
