(* ===== verification/Mp_Fast_Correct.thy ===== *)
theory Mp_Fast_Correct
  imports Mp_Fast
begin

text \<open>
  Correctness of the reduction modulo the 256-bit prime: the words and carries of the sums are
  read as one integer, the carries telescope, and the folded number is congruent to the
  argument. The conditions under which the code is right are explicit, and two lemmas evaluate
  it outside them.
\<close>

section \<open>Words and carries as one integer\<close>

definition rep :: "int \<Rightarrow> u32 \<times> u32" where
  "rep v = (word_of_int v, word_of_int (v div 2 ^ 32))"

definition rep8 :: "int \<Rightarrow> u32 \<times> u8" where
  "rep8 v = (word_of_int v, word_of_int (v div 2 ^ 32))"

lemma uint_word32: "uint (word_of_int v :: u32) = v mod 2 ^ 32"
  by (simp add: uint_word_of_int)

lemma div_plus_carry:
  fixes v y m :: int
  assumes "0 < m"
  shows "(v + y) div m = v div m + y div m + (if (v + y) mod m < y mod m then 1 else 0)"
proof -
  have e: "v = m * (v div m) + v mod m" "y = m * (y div m) + y mod m" by simp_all
  have b: "0 \<le> v mod m" "v mod m < m" "0 \<le> y mod m" "y mod m < m" using assms by simp_all
  show ?thesis
  proof (cases "v mod m + y mod m < m")
    case True
    have "v + y = m * (v div m + y div m) + (v mod m + y mod m)" using e by (simp add: algebra_simps)
    then have "(v + y) div m = v div m + y div m" "(v + y) mod m = v mod m + y mod m"
      using True b by (simp_all add: int_div_pos_eq int_mod_pos_eq)
    moreover have "\<not> (v + y) mod m < y mod m" using calculation(2) b by linarith
    ultimately show ?thesis by simp
  next
    case False
    have d: "v + y = m * (v div m + y div m + 1) + (v mod m + y mod m - m)" using e by (simp add: algebra_simps)
    have "(v + y) div m = v div m + y div m + 1" "(v + y) mod m = v mod m + y mod m - m"
      using int_div_pos_eq [OF d] int_mod_pos_eq [OF d] False b by linarith+
    moreover have "(v + y) mod m < y mod m" using calculation(2) b by linarith
    ultimately show ?thesis by simp
  qed
qed

lemma div_minus_borrow:
  fixes v y m :: int
  assumes "0 < m"
  shows "(v - y) div m = v div m - y div m - (if v mod m < y mod m then 1 else 0)"
  using div_plus_carry [OF assms, of "v - y" y] by simp

lemma lt_of_int: "lt (word_of_int x) (word_of_int y) = word_of_int (if x mod 2 ^ 32 < y mod 2 ^ 32 then 1 else 0)"
  by (simp add: lt_def word_less_def uint_word32)

lemma ucast_small: "0 \<le> n \<Longrightarrow> n < 256 \<Longrightarrow> ucast (word_of_int n :: u8) = (word_of_int n :: u32)"
  by (simp add: unsigned_of_int take_bit_int_eq_self)

lemma plus_word_rep: "0 \<le> y \<Longrightarrow> y < 2 ^ 40 \<Longrightarrow> plus_word (rep v) (rep8 y) = rep (v + y)"
proof -
  assume "0 \<le> y" "y < 2 ^ 40"
  then have "ucast (word_of_int (y div 2 ^ 32) :: u8) = (word_of_int (y div 2 ^ 32) :: u32)"
    by (intro ucast_small) auto
  moreover have "(v + y) div 2 ^ 32 = v div 2 ^ 32 + (if (v + y) mod 2 ^ 32 < y mod 2 ^ 32 then 1 else 0) + y div 2 ^ 32"
    using div_plus_carry [of "2 ^ 32" v y] by simp
  ultimately show ?thesis
    by (simp only: plus_word_def rep_def rep8_def prod.case fst_conv snd_conv wi_hom_add lt_of_int)
qed

lemma minus_word_rep: "0 \<le> y \<Longrightarrow> y < 2 ^ 40 \<Longrightarrow> minus_word (rep v) (rep8 y) = rep (v - y)"
proof -
  assume "0 \<le> y" "y < 2 ^ 40"
  then have "ucast (word_of_int (y div 2 ^ 32) :: u8) = (word_of_int (y div 2 ^ 32) :: u32)"
    by (intro ucast_small) auto
  moreover have "(v - y) div 2 ^ 32 = v div 2 ^ 32 - (if v mod 2 ^ 32 < y mod 2 ^ 32 then 1 else 0) - y div 2 ^ 32"
    using div_minus_borrow [of "2 ^ 32" v y] by simp
  ultimately show ?thesis
    by (simp only: minus_word_def rep_def rep8_def prod.case fst_conv snd_conv wi_hom_sub lt_of_int)
qed

lemma lt_of_int8:
  "ucast (lt (word_of_int x) (word_of_int y)) = (word_of_int (if x mod 2 ^ 32 < y mod 2 ^ 32 then 1 else 0) :: u8)"
  by (simp add: lt_of_int)

lemma word_of_uint: "x = (word_of_int (uint x) :: u32)"
  by simp

lemma sum_word_rep: "sum_word (rep8 v) x = rep8 (v + uint x)"
proof -
  have "(v + uint x) div 2 ^ 32 = v div 2 ^ 32 + (if (v + uint x) mod 2 ^ 32 < uint x mod 2 ^ 32 then 1 else 0)"
    using div_plus_carry [of "2 ^ 32" v "uint x"] uint_lt2p [of x] by simp
  moreover have "sum_word (rep8 v) (word_of_int (uint x)) = (word_of_int (v + uint x),
      word_of_int (v div 2 ^ 32 + (if (v + uint x) mod 2 ^ 32 < uint x mod 2 ^ 32 then 1 else 0)))"
    by (simp only: sum_word_def rep8_def prod.case wi_hom_add lt_of_int8)
  ultimately show ?thesis by (simp only: rep8_def word_of_uint [symmetric])
qed

lemma diff_word_rep: "diff_word (rep8 v) x = rep8 (v - uint x)"
proof -
  have "(v - uint x) div 2 ^ 32 = v div 2 ^ 32 - (if v mod 2 ^ 32 < uint x mod 2 ^ 32 then 1 else 0)"
    using div_minus_borrow [of "2 ^ 32" v "uint x"] uint_lt2p [of x] by simp
  moreover have "diff_word (rep8 v) (word_of_int (uint x)) = (word_of_int (v - uint x),
      word_of_int (v div 2 ^ 32 - (if v mod 2 ^ 32 < uint x mod 2 ^ 32 then 1 else 0)))"
    by (simp only: diff_word_def rep8_def prod.case wi_hom_sub lt_of_int8)
  ultimately show ?thesis by (simp only: rep8_def word_of_uint [symmetric])
qed

lemma word_rep8: "(x, 0) = rep8 (uint x)"
  using uint_lt2p [of x] by (simp add: rep8_def)

lemma word_rep: "(x, 0) = rep (uint x)"
  using uint_lt2p [of x] by (simp add: rep_def)

lemma sign_bit:
  assumes "- (2 ^ 31) \<le> u" and "u < 2 ^ 31"
  shows "(word_of_int u :: u32) AND 0x80000000 = 0 \<longleftrightarrow> 0 \<le> u"
proof -
  have "(word_of_int u :: u32) AND 2 ^ 31 = 0 \<longleftrightarrow> \<not> bit u 31"
    by (simp only: and_exp_eq_0_iff_not_bit) (simp add: bit_word_of_int_iff)
  moreover have "bit u 31 \<longleftrightarrow> u < 0"
  proof (cases "u < 0")
    case True
    then have "u div 2 ^ 31 = - 1" using assms by (intro int_div_pos_eq [where r = "u + 2 ^ 31"]) simp_all
    with True show ?thesis by (simp add: bit_iff_odd)
  next
    case False
    then have "u div 2 ^ 31 = 0" using assms by simp
    with False show ?thesis by (simp add: bit_iff_odd)
  qed
  ultimately show ?thesis by (simp add: not_less)
qed

lemma carry_in_rep:
  assumes "- (2 ^ 31) < u" and "u < 2 ^ 31" and "- u \<le> uint ak"
  shows "carry_in (word_of_int u) ak = rep (uint ak + u)"
proof (cases "0 \<le> u")
  case True
  then have s: "(word_of_int u :: u32) AND 0x80000000 = 0" using sign_bit [of u] assms by simp
  have "(uint ak + u) div 2 ^ 32 = (if (uint ak + u) mod 2 ^ 32 < uint ak mod 2 ^ 32 then 1 else 0)"
    using div_plus_carry [of "2 ^ 32" u "uint ak"] uint_lt2p [of ak] True assms by (simp add: add.commute)
  moreover have "carry_in (word_of_int u) (word_of_int (uint ak)) = (word_of_int (uint ak + u),
      word_of_int (if (uint ak + u) mod 2 ^ 32 < uint ak mod 2 ^ 32 then 1 else 0))"
    by (simp only: carry_in_def s if_False simp_thms wi_hom_add lt_of_int)
  ultimately show ?thesis by (simp only: rep_def word_of_uint [symmetric])
next
  case False
  then have s: "(word_of_int u :: u32) AND 0x80000000 \<noteq> 0" using sign_bit [of u] assms by simp
  have n: "0 - word_of_int u = (word_of_int (- u) :: u32)" by simp
  have "uint ak + u < 2 ^ 32" using uint_lt2p [of ak] False by simp
  then have z: "(uint ak + u) div 2 ^ 32 = 0" using assms by simp
  have l: "lt ak (word_of_int (- u)) = 0"
  proof -
    have "uint (word_of_int (- u) :: u32) = - u"
      by (simp only: uint_word32, rule mod_pos_pos_trivial) (use assms False in simp_all)
    then show ?thesis using assms(3) unfolding lt_def word_less_def by (simp only:) simp
  qed
  have "carry_in (word_of_int u) ak = (ak - word_of_int (- u), 0)"
    unfolding carry_in_def n Let_def using s l by simp
  also have "ak - word_of_int (- u) = word_of_int (uint ak + u)"
    by simp
  finally show ?thesis using z by (simp add: rep_def)
qed


section \<open>The sums of the 256-bit reduction\<close>

lemma P256_sums:
  "P256_C a = rep8 (uint (a ! 13) + uint (a ! 14) + uint (a ! 15))"
  "P256_B a = rep8 (uint (a ! 12) + uint (a ! 13) + uint (a ! 14) + uint (a ! 15))"
  "P256_A a = rep8 (uint (a ! 11) + uint (a ! 12) + uint (a ! 13) + uint (a ! 14))"
  "P256_D a = rep8 (uint (a ! 10) + uint (a ! 11) + uint (a ! 12) + uint (a ! 13))"
  "P256_E a = rep8 (uint (a ! 8) + uint (a ! 9))"
  "P256_F a = rep8 (uint (a ! 9) + uint (a ! 10))"
  "P256_G a = rep8 (uint (a ! 10) + uint (a ! 11))"
  by (simp_all add: P256_A_def P256_B_def P256_C_def P256_D_def P256_E_def P256_F_def P256_G_def
      word_rep8 sum_word_rep diff_word_rep algebra_simps)

text \<open>
  What each result word gets beside the word \<open>a[k]\<close> and the carry, and the value of the whole.
\<close>

definition P256_terms :: "(nat \<Rightarrow> int) \<Rightarrow> int list" where
  "P256_terms x =
     [x 8 + x 9 - (x 11 + x 12 + x 13 + x 14),
      x 9 + x 10 - (x 12 + x 13 + x 14 + x 15),
      x 10 + x 11 - (x 13 + x 14 + x 15),
      x 11 + x 12 + x 13 + x 14 + x 11 + x 12 - x 14 - x 15 - (x 8 + x 9),
      x 12 + x 13 + x 14 + x 15 - x 15 + x 12 + x 13 - (x 9 + x 10),
      x 13 + x 14 + x 15 + x 13 + x 14 - (x 10 + x 11),
      x 13 + x 14 + x 15 + x 14 + x 14 + x 15 - (x 8 + x 9),
      x 15 + x 15 + x 15 + x 8 - (x 10 + x 11 + x 12 + x 13)]"

lemma u32_range: "0 \<le> uint (x :: u32)" "uint x < 2 ^ 32"
  using uint_lt2p [of x] by simp_all

lemma div_range: 
  fixes v :: int
  assumes "- (4 * 2 ^ 32) \<le> v" and "v < 8 * 2 ^ 32"
  shows "- 4 \<le> v div 2 ^ 32" and "v div 2 ^ 32 < 8"
  using assms by (simp_all add: div_less_iff_less_mult)


text \<open>
  The words the reduction returns, for any sums: the carry of each word is the quotient of its sum.
\<close>

definition P256_sum :: "(nat \<Rightarrow> int) \<Rightarrow> nat \<Rightarrow> int" where
  "P256_sum x k = x k + P256_terms x ! k"

fun P256_word :: "(nat \<Rightarrow> int) \<Rightarrow> nat \<Rightarrow> int" where
  "P256_word x 0 = P256_sum x 0"
| "P256_word x (Suc k) = P256_sum x (Suc k) + P256_word x k div 2 ^ 32"

lemma P256_terms_range:
  assumes "\<And>i. 0 \<le> x i" and "\<And>i. x i < 2 ^ 32" and "k < 8"
  shows "- (4 * 2 ^ 32) < P256_terms x ! k" and "P256_terms x ! k < 6 * 2 ^ 32"
proof -
  have "k = 0 \<or> k = 1 \<or> k = 2 \<or> k = 3 \<or> k = 4 \<or> k = 5 \<or> k = 6 \<or> k = 7" using assms(3) by linarith
  moreover note assms(1,2) [of 8] assms(1,2) [of 9] assms(1,2) [of 10] assms(1,2) [of 11]
    assms(1,2) [of 12] assms(1,2) [of 13] assms(1,2) [of 14] assms(1,2) [of 15]
  ultimately show "- (4 * 2 ^ 32) < P256_terms x ! k" "P256_terms x ! k < 6 * 2 ^ 32"
    unfolding P256_terms_def by (elim disjE; simp)+
qed

lemma P256_word_range:
  assumes "\<And>i. 0 \<le> x i" and "\<And>i. x i < 2 ^ 32" and "\<And>k. 1 \<le> k \<Longrightarrow> k \<le> 7 \<Longrightarrow> 4 \<le> x k" and "k < 8"
  shows "- 4 \<le> P256_word x k div 2 ^ 32" and "P256_word x k div 2 ^ 32 < 8"
proof -
  have "- (4 * 2 ^ 32) \<le> P256_word x k \<and> P256_word x k < 8 * 2 ^ 32"
    using assms(4)
  proof (induction k)
    case 0
    show ?case
      using P256_terms_range [of x 0, OF assms(1,2)] assms(1,2) [of 0] unfolding P256_word.simps P256_sum_def
      by (intro conjI) linarith+
  next
    case (Suc k)
    then have "- 4 \<le> P256_word x k div 2 ^ 32" "P256_word x k div 2 ^ 32 < 8"
      using div_range [of "P256_word x k"] Suc_lessD by blast+
    moreover have "4 \<le> x (Suc k)" "(8 :: int) < 2 ^ 32" using assms(3) [of "Suc k"] Suc.prems by simp_all
    ultimately show ?case
      using P256_terms_range [of x "Suc k", OF assms(1,2) Suc.prems] assms(2) [of "Suc k"] unfolding P256_word.simps P256_sum_def
      by (intro conjI) linarith+
  qed
  then show "- 4 \<le> P256_word x k div 2 ^ 32" "P256_word x k div 2 ^ 32 < 8"
    using div_range [of "P256_word x k"] by blast+
qed

lemma P256_carry:
  fixes a :: "u32 list"
  defines "x \<equiv> \<lambda>i. uint (a ! i)"
  assumes "\<And>k. 1 \<le> k \<Longrightarrow> k \<le> 7 \<Longrightarrow> 4 \<le> a ! k" and "k < 7"
  shows "carry_in (word_of_int (P256_word x k div 2 ^ 32)) (a ! Suc k) = rep (x (Suc k) + P256_word x k div 2 ^ 32)"
proof -
  have x: "\<And>i. 0 \<le> x i" "\<And>i. x i < 2 ^ 32" unfolding x_def by (rule u32_range)+
  have four: "4 \<le> x k" if "1 \<le> k" "k \<le> 7" for k
    using assms(2) [OF that] by (simp add: x_def word_le_def)
  have "- 4 \<le> P256_word x k div 2 ^ 32" "P256_word x k div 2 ^ 32 < 8"
    using P256_word_range [of x k] x four assms(3) by simp_all
  then show ?thesis using four [of "Suc k"] assms(3) unfolding x_def
    by (intro carry_in_rep) simp_all
qed

lemma rep_let: "(case rep v of (c, U) \<Rightarrow> f c U) = f (word_of_int v) (word_of_int (v div 2 ^ 32))"
  by (simp add: rep_def)

lemma P256_word_step: "0 < k \<Longrightarrow> P256_word x k = P256_sum x k + P256_word x (k - 1) div 2 ^ 32"
  by (cases k) simp_all

lemma fast_mod_P256_words_chain:
  fixes a :: "u32 list"
  defines "x \<equiv> \<lambda>i. uint (a ! i)"
  assumes four: "\<And>k. 1 \<le> k \<Longrightarrow> k \<le> 7 \<Longrightarrow> 4 \<le> a ! k"
  shows "fast_mod_P256_words a =
     ([word_of_int (P256_word x 0), word_of_int (P256_word x 1), word_of_int (P256_word x 2), word_of_int (P256_word x 3),
       word_of_int (P256_word x 4), word_of_int (P256_word x 5), word_of_int (P256_word x 6), word_of_int (P256_word x 7)],
      word_of_int (P256_word x 7 div 2 ^ 32))"
proof -
  have x: "\<And>i. 0 \<le> x i" "\<And>i. x i < 2 ^ 32" unfolding x_def by (rule u32_range)+
  have w: "(a ! i, 0) = rep8 (x i)" for i unfolding x_def by (rule word_rep8)
  have xi: "uint (a ! i) = x i" for i by (simp add: x_def)
  note sums = P256_sums [of a, unfolded xi]
  have b: "0 \<le> x i" "x i < 2 ^ 40" "0 \<le> x i + x j" "x i + x j < 2 ^ 40"
      "0 \<le> x i + x j + x k" "x i + x j + x k < 2 ^ 40"
      "0 \<le> x i + x j + x k + x l" "x i + x j + x k + x l < 2 ^ 40" for i j k l
    using x [of i] x [of j] x [of k] x [of l] by simp_all
  note ops = sums w plus_word_rep minus_word_rep b
  define u where "u k = P256_word x k div 2 ^ 32" for k
  have c: "carry_in (word_of_int (u (k - 1))) (a ! k) = rep (x k + u (k - 1))" if "0 < k" "k < 8" for k
    using P256_carry [of a "k - 1"] four that by (simp add: x_def u_def)
  have c1: "carry_in (word_of_int (u 0)) (a ! 1) = rep (x 1 + u 0)"
    and c2: "carry_in (word_of_int (u 1)) (a ! 2) = rep (x 2 + u 1)"
    and c3: "carry_in (word_of_int (u 2)) (a ! 3) = rep (x 3 + u 2)"
    and c4: "carry_in (word_of_int (u 3)) (a ! 4) = rep (x 4 + u 3)"
    and c5: "carry_in (word_of_int (u 4)) (a ! 5) = rep (x 5 + u 4)"
    and c6: "carry_in (word_of_int (u 5)) (a ! 6) = rep (x 6 + u 5)"
    and c7: "carry_in (word_of_int (u 6)) (a ! 7) = rep (x 7 + u 6)"
    using c [of 1] c [of 2] c [of 3] c [of 4] c [of 5] c [of 6] c [of 7] by simp_all
  have st: "P256_word x k = x k + u (k - 1) + P256_terms x ! k" if "0 < k" for k
    using P256_word_step [OF that, of x] by (simp add: P256_sum_def u_def)
  have v0: "P256_word x 0 = x 0 + (x 8 + x 9) - (x 11 + x 12 + x 13 + x 14)"
    by (simp add: P256_sum_def P256_terms_def)
  have e0: "minus_word (plus_word (a ! 0, 0) (P256_E a)) (P256_A a) = rep (P256_word x 0)"
  proof -
    have "(a ! 0, 0) = rep (x 0)" unfolding x_def by (rule word_rep)
    then show ?thesis unfolding v0 by (simp only: ops)
  qed
  have v1: "P256_word x 1 = x 1 + u 0 + (x 9 + x 10) - (x 12 + x 13 + x 14 + x 15)"
    using st [of 1] by (simp add: P256_terms_def)
  have v2: "P256_word x 2 = x 2 + u 1 + (x 10 + x 11) - (x 13 + x 14 + x 15)"
    using st [of 2] by (simp add: P256_terms_def)
  have v3: "P256_word x 3 = x 3 + u 2 + (x 11 + x 12 + x 13 + x 14) + x 11 + x 12 - x 14 - x 15 - (x 8 + x 9)"
    using st [of 3] by (simp add: P256_terms_def)
  have v4: "P256_word x 4 = x 4 + u 3 + (x 12 + x 13 + x 14 + x 15) - x 15 + x 12 + x 13 - (x 9 + x 10)"
    using st [of 4] by (simp add: P256_terms_def)
  have v5: "P256_word x 5 = x 5 + u 4 + (x 13 + x 14 + x 15) + x 13 + x 14 - (x 10 + x 11)"
    using st [of 5] by (simp add: P256_terms_def)
  have v6: "P256_word x 6 = x 6 + u 5 + (x 13 + x 14 + x 15) + x 14 + x 14 + x 15 - (x 8 + x 9)"
    using st [of 6] by (simp add: P256_terms_def)
  have v7: "P256_word x 7 = x 7 + u 6 + x 15 + x 15 + x 15 + x 8 - (x 10 + x 11 + x 12 + x 13)"
    using st [of 7] by (simp add: P256_terms_def)
  have e1: "minus_word (plus_word (carry_in (word_of_int (u 0)) (a ! 1)) (P256_F a)) (P256_B a) = rep (P256_word x 1)"
    by (simp only: ops c1 v1)
  have e2: "minus_word (plus_word (carry_in (word_of_int (u 1)) (a ! 2)) (P256_G a)) (P256_C a) = rep (P256_word x 2)"
    by (simp only: ops c2 v2)
  have e3: "minus_word (minus_word (minus_word (plus_word (plus_word (plus_word (carry_in (word_of_int (u 2)) (a ! 3)) (P256_A a)) (a ! 11, 0)) (a ! 12, 0)) (a ! 14, 0)) (a ! 15, 0)) (P256_E a) = rep (P256_word x 3)"
    by (simp only: ops c3 v3)
  have e4: "minus_word (plus_word (plus_word (minus_word (plus_word (carry_in (word_of_int (u 3)) (a ! 4)) (P256_B a)) (a ! 15, 0)) (a ! 12, 0)) (a ! 13, 0)) (P256_F a) = rep (P256_word x 4)"
    by (simp only: ops c4 v4)
  have e5: "minus_word (plus_word (plus_word (plus_word (carry_in (word_of_int (u 4)) (a ! 5)) (P256_C a)) (a ! 13, 0)) (a ! 14, 0)) (P256_G a) = rep (P256_word x 5)"
    by (simp only: ops c5 v5)
  have e6: "minus_word (plus_word (plus_word (plus_word (plus_word (carry_in (word_of_int (u 5)) (a ! 6)) (P256_C a)) (a ! 14, 0)) (a ! 14, 0)) (a ! 15, 0)) (P256_E a) = rep (P256_word x 6)"
    by (simp only: ops c6 v6)
  have e7: "minus_word (plus_word (plus_word (plus_word (plus_word (carry_in (word_of_int (u 6)) (a ! 7)) (a ! 15, 0)) (a ! 15, 0)) (a ! 15, 0)) (a ! 8, 0)) (P256_D a) = rep (P256_word x 7)"
    by (simp only: ops c7 v7)
  have rl: "(case rep (P256_word x k) of (c, U) \<Rightarrow> f c U) = f (word_of_int (P256_word x k)) (word_of_int (u k))"
    for k and f :: "u32 \<Rightarrow> u32 \<Rightarrow> u32 list \<times> u32"
    by (simp only: rep_let u_def)
  show ?thesis
    unfolding fast_mod_P256_words_def Let_def by (simp only: e0 e1 e2 e3 e4 e5 e6 e7 rl) (simp only: u_def)
qed


section \<open>The value of the reduction\<close>

lemma p256_val: "int (mp_val curve_p256_p) = 2 ^ 256 - 2 ^ 224 + 2 ^ 192 + 2 ^ 96 - 1"
  by (simp add: curve_p256_p_def)

lemma list16:
  assumes "length (a :: 'a list) = 16"
  shows "a = [a ! 0, a ! 1, a ! 2, a ! 3, a ! 4, a ! 5, a ! 6, a ! 7,
    a ! 8, a ! 9, a ! 10, a ! 11, a ! 12, a ! 13, a ! 14, a ! 15]"
  using assms by (auto simp: list_eq_iff_nth_eq less_Suc_eq numeral_eq_Suc)

definition words8 :: "(nat \<Rightarrow> int) \<Rightarrow> int" where
  "words8 v = v 0 + 2 ^ 32 * v 1 + 2 ^ 64 * v 2 + 2 ^ 96 * v 3 + 2 ^ 128 * v 4 + 2 ^ 160 * v 5 + 2 ^ 192 * v 6 + 2 ^ 224 * v 7"

definition words16 :: "(nat \<Rightarrow> int) \<Rightarrow> int" where
  "words16 x = x 0 + 2 ^ 32 * x 1 + 2 ^ 64 * x 2 + 2 ^ 96 * x 3 + 2 ^ 128 * x 4 + 2 ^ 160 * x 5 + 2 ^ 192 * x 6 + 2 ^ 224 * x 7 + 2 ^ 256 * x 8 + 2 ^ 288 * x 9 + 2 ^ 320 * x 10 + 2 ^ 352 * x 11 + 2 ^ 384 * x 12 + 2 ^ 416 * x 13 + 2 ^ 448 * x 14 + 2 ^ 480 * x 15"

definition P256_quotient :: "(nat \<Rightarrow> int) \<Rightarrow> int" where
  "P256_quotient x = 1 * x 8 + 4294967297 * x 9 + 18446744078004518912 * x 10 + 79228162532711081667253501951 * x 11 + 340282367000166625977638945021017194495 * x 12 + 1461501637671185285124623296161210883009696235519 * x 13 + 6277101736848182401166692341332123086285927382448418586623 * x 14 + 26959946673427741530053695850515137729844644212646842236464328081408 * x 15"

lemma mp_val16:
  assumes "length a = 16"
  shows "int (mp_val a) = words16 (\<lambda>i. uint (a ! i))"
  by (subst list16 [OF assms]) (simp add: words16_def)

lemma P256_congruence:
  "words16 x = words8 (P256_sum x) + (2 ^ 256 - 2 ^ 224 + 2 ^ 192 + 2 ^ 96 - 1) * P256_quotient x"
  by (simp add: words8_def words16_def P256_quotient_def P256_sum_def P256_terms_def)

lemma words8_telescope:
  assumes "s 0 = v 0" and "\<And>k. 0 < k \<Longrightarrow> s k = v k - d (k - 1)"
  shows "words8 s = words8 (\<lambda>k. v k - 2 ^ 32 * d k) + 2 ^ 256 * d 7"
  by (simp add: words8_def assms algebra_simps)

lemma words8_chain:
  "words8 (P256_sum x) = words8 (\<lambda>k. P256_word x k mod 2 ^ 32) + 2 ^ 256 * (P256_word x 7 div 2 ^ 32)"
proof -
  have m: "P256_word x k mod 2 ^ 32 = P256_word x k - 2 ^ 32 * (P256_word x k div 2 ^ 32)" for k
    by (simp only: minus_mult_div_eq_mod)
  show ?thesis
    unfolding m using P256_word_step [of _ x] by (intro words8_telescope) simp_all
qed

lemma fast_mod_P256_words_val:
  assumes "length a = 16" and "\<And>k. 1 \<le> k \<Longrightarrow> k \<le> 7 \<Longrightarrow> 4 \<le> a ! k"
  obtains c U q where "fast_mod_P256_words a = (c, word_of_int U)" and "length c = 8"
    and "- 4 \<le> U" and "U < 8"
    and "int (mp_val a) = int (mp_val c) + 2 ^ 256 * U + int (mp_val curve_p256_p) * q"
proof -
  define x where "x = (\<lambda>i. uint (a ! i))"
  define c :: "u32 list" where "c = [word_of_int (P256_word x 0), word_of_int (P256_word x 1), word_of_int (P256_word x 2), word_of_int (P256_word x 3),
       word_of_int (P256_word x 4), word_of_int (P256_word x 5), word_of_int (P256_word x 6), word_of_int (P256_word x 7)]"
  have "int (mp_val c) = words8 (\<lambda>k. P256_word x k mod 2 ^ 32)"
    unfolding c_def words8_def by (simp del: P256_word.simps add: uint_word32)
  then have "int (mp_val a) = int (mp_val c) + 2 ^ 256 * (P256_word x 7 div 2 ^ 32) + int (mp_val curve_p256_p) * P256_quotient x"
    using mp_val16 [OF assms(1)] P256_congruence [of x] words8_chain [of x] unfolding x_def p256_val by linarith
  moreover have "4 \<le> x k" if "1 \<le> k" "k \<le> 7" for k
    using assms(2) [OF that] by (simp add: x_def word_le_def)
  then have "- 4 \<le> P256_word x 7 div 2 ^ 32" "P256_word x 7 div 2 ^ 32 < 8"
    using P256_word_range [of x 7] u32_range by (simp_all add: x_def)
  moreover have "fast_mod_P256_words a = (c, word_of_int (P256_word x 7 div 2 ^ 32))"
    unfolding c_def x_def by (rule fast_mod_P256_words_chain) (rule assms(2))
  moreover have "length c = 8" by (simp add: c_def)
  ultimately show thesis by (intro that)
qed


text \<open>Adding or subtracting the prime, with the last carry dropped, is exact modulo \<open>2 ^ 256\<close>.\<close>

lemma mod_uniqueI: "0 \<le> (r :: int) \<Longrightarrow> r < m \<Longrightarrow> v = r + m * k \<Longrightarrow> r = v mod m"
  by simp

lemma mp_val8: "length c = 8 \<Longrightarrow> int (mp_val c) < 2 ^ 256"
  using mp_val_bound [of c] by simp

lemma len_p256: "length curve_p256_p = 8"
  by (simp add: curve_p256_p_def)

lemma add_wrap:
  assumes "length x = 8"
  shows "length (fst (multiprecision_add x curve_p256_p)) = 8 \<and>
    int (mp_val (fst (multiprecision_add x curve_p256_p))) = (int (mp_val x) + int (mp_val curve_p256_p)) mod 2 ^ 256"
proof -
  obtain c r where e: "multiprecision_add x curve_p256_p = (c, r)" by force
  note v = add_val [OF _ e, unfolded assms len_p256, OF refl]
  have "int (mp_val c) + 2 ^ 256 * int (unat r) = int (mp_val x) + int (mp_val curve_p256_p)"
    using arg_cong [OF v(3), of int] by simp
  then have "int (mp_val c) = (int (mp_val x) + int (mp_val curve_p256_p)) mod 2 ^ 256"
    by (intro mod_uniqueI [where k = "int (unat r)"] mp_val8 v(1)) simp_all
  with e v(1) show ?thesis by simp
qed

lemma sub_wrap:
  assumes "length x = 8"
  shows "length (fst (multiprecision_sub x curve_p256_p)) = 8 \<and>
    int (mp_val (fst (multiprecision_sub x curve_p256_p))) = (int (mp_val x) - int (mp_val curve_p256_p)) mod 2 ^ 256"
proof -
  obtain c r where e: "multiprecision_sub x curve_p256_p = (c, r)" by force
  note v = sub_val [OF _ e, unfolded assms len_p256, OF refl]
  have "int (mp_val c) + int (mp_val curve_p256_p) = int (mp_val x) + 2 ^ 256 * int (unat r)"
    using arg_cong [OF v(3), of int] by simp
  then have "int (mp_val c) = (int (mp_val x) - int (mp_val curve_p256_p)) mod 2 ^ 256"
    by (intro mod_uniqueI [where k = "- int (unat r)"] mp_val8 v(1)) simp_all
  with e v(1) show ?thesis by simp
qed

lemma wrap_iterate:
  assumes "\<And>x. length x = 8 \<Longrightarrow> length (f x) = 8 \<and> int (mp_val (f x)) = (int (mp_val x) + d) mod 2 ^ 256"
    and "length c = 8"
  shows "length ((f ^^ n) c) = 8 \<and> int (mp_val ((f ^^ n) c)) = (int (mp_val c) + int n * d) mod 2 ^ 256"
proof (induction n)
  case 0
  then show ?case using assms(2) mp_val8 [OF assms(2)] by simp
next
  case (Suc n)
  have "((int (mp_val c) + int n * d) mod 2 ^ 256 + d) mod 2 ^ 256 = (int (mp_val c) + int n * d + d) mod 2 ^ 256"
    by (rule mod_add_left_eq)
  with Suc assms(1) [of "(f ^^ n) c"] show ?case by (simp add: algebra_simps)
qed

lemma reduction_loops:
  assumes "length c = 8" and "- 8 < U" and "U < 8"
  defines "c' \<equiv> (if (word_of_int U :: u32) AND 0x80000000 \<noteq> 0
     then ((\<lambda>x. fst (multiprecision_add x curve_p256_p)) ^^ unat (0 - word_of_int U :: u32)) c
     else ((\<lambda>x. fst (multiprecision_sub x curve_p256_p)) ^^ unat (word_of_int U :: u32)) c)"
  shows "length c' = 8" and "int (mp_val c') = (int (mp_val c) - U * int (mp_val curve_p256_p)) mod 2 ^ 256"
proof -
  have "length c' = 8 \<and> int (mp_val c') = (int (mp_val c) - U * int (mp_val curve_p256_p)) mod 2 ^ 256"
  proof (cases "0 \<le> U")
    case True
    then have "(word_of_int U :: u32) AND 0x80000000 = 0" using sign_bit [of U] assms by simp
    moreover have "unat (word_of_int U :: u32) = nat U" using True assms(3) uint_word32 [of U] by (simp only: unat_eq_nat_uint) simp
    ultimately show ?thesis
      using wrap_iterate [of "\<lambda>x. fst (multiprecision_sub x curve_p256_p)" "- int (mp_val curve_p256_p)" c "nat U"]
        sub_wrap assms(1) True by (simp add: c'_def)
  next
    case False
    then have "(word_of_int U :: u32) AND 0x80000000 \<noteq> 0" using sign_bit [of U] assms by simp
    moreover have "unat (0 - word_of_int U :: u32) = nat (- U)"
      using False assms(2) uint_word32 [of "- U"] by (simp only: unat_eq_nat_uint) simp
    ultimately show ?thesis
      using wrap_iterate [of "\<lambda>x. fst (multiprecision_add x curve_p256_p)" "int (mp_val curve_p256_p)" c "nat (- U)"]
        add_wrap assms(1) False by (simp add: c'_def)
  qed
  then show "length c' = 8" "int (mp_val c') = (int (mp_val c) - U * int (mp_val curve_p256_p)) mod 2 ^ 256" by blast+
qed


lemma top_word_range:
  assumes "length c = 8" and "8 \<le> uint (c ! 7)" and "uint (c ! 7) \<le> 0xFFFFFFF6"
  shows "8 * 2 ^ 224 \<le> int (mp_val c)" and "int (mp_val c) < 0xFFFFFFF7 * 2 ^ 224"
proof -
  have "c = take 7 c @ [c ! 7]"
    using assms(1) by (simp add: list_eq_iff_nth_eq nth_append less_Suc_eq numeral_eq_Suc)
  moreover have "mp_val (take 7 c @ [c ! 7]) = mp_val (take 7 c) + 2 ^ 224 * unat (c ! 7)"
    using assms(1) by (simp add: mp_val_append)
  ultimately have "int (mp_val c) = int (mp_val (take 7 c)) + 2 ^ 224 * uint (c ! 7)"
    by (metis of_nat_add of_nat_mult of_nat_numeral of_nat_power uint_nat)
  moreover have "int (mp_val (take 7 c)) < 2 ^ 224" using mp_val_bound [of "take 7 c"] assms(1) by simp
  ultimately show "8 * 2 ^ 224 \<le> int (mp_val c)" "int (mp_val c) < 0xFFFFFFF7 * 2 ^ 224"
    using assms(2,3) by simp_all
qed

text \<open>
  C38. The fast reduction for the 256-bit key returns the remainder of its argument modulo the prime
  whenever none of the words one to seven of the argument is below four, so that no carry makes one of them borrow, and
  the top word of the folded number is neither below eight nor within eight of the largest word.
\<close>

theorem fast_mod_P256_exact:
  assumes "length a = 16" and "\<forall>k\<in>{1..7}. 4 \<le> a ! k"
    and "8 \<le> fst (fast_mod_P256_words a) ! 7" and "fst (fast_mod_P256_words a) ! 7 \<le> 0xFFFFFFF6"
  shows "length (multiprecision_fast_mod_P256 a) = 8 \<and>
    mp_val (multiprecision_fast_mod_P256 a) = mp_val a mod mp_val curve_p256_p"
proof -
  from assms(2) have four: "\<And>k. 1 \<le> k \<Longrightarrow> k \<le> 7 \<Longrightarrow> 4 \<le> a ! k" by simp
  obtain c U q where w: "fast_mod_P256_words a = (c, word_of_int U)" "length c = 8" "- 4 \<le> U" "U < 8"
    and v: "int (mp_val a) = int (mp_val c) + 2 ^ 256 * U + int (mp_val curve_p256_p) * q"
    using fast_mod_P256_words_val [OF assms(1) four] by metis
  define p where "p = int (mp_val curve_p256_p)"
  define c' where "c' = (if (word_of_int U :: u32) AND 0x80000000 \<noteq> 0
     then ((\<lambda>x. fst (multiprecision_add x curve_p256_p)) ^^ unat (0 - word_of_int U :: u32)) c
     else ((\<lambda>x. fst (multiprecision_sub x curve_p256_p)) ^^ unat (word_of_int U :: u32)) c)"
  have c': "length c' = 8" "int (mp_val c') = (int (mp_val c) - U * p) mod 2 ^ 256"
    using reduction_loops [OF w(2), of U] w(3,4) by (simp_all add: c'_def p_def)
  have top: "8 \<le> uint (c ! 7)" "uint (c ! 7) \<le> 0xFFFFFFF6"
    using assms(3,4) w(1) by (simp_all add: word_le_def)
  note c = top_word_range [OF w(2) top]
  define N where "N = int (mp_val c) + U * (2 ^ 256 - p)"
  have p: "2 ^ 256 - p = 2 ^ 224 - 2 ^ 192 - 2 ^ 96 + 1" using p256_val by (simp add: p_def)
  have "- 4 * (2 ^ 256 - p) \<le> U * (2 ^ 256 - p)" "U * (2 ^ 256 - p) \<le> 8 * (2 ^ 256 - p)"
    using w(3,4) p by (intro mult_right_mono; simp)+
  then have N: "0 \<le> N" "N < 2 ^ 256" using c p by (simp_all add: N_def)
  have e: "int (mp_val c) - U * p = N + 2 ^ 256 * (- U)" by (simp add: N_def algebra_simps)
  have c'N: "int (mp_val c') = N" by (rule trans [OF c'(2) mod_uniqueI [OF N e, symmetric]])
  have a: "int (mp_val a) = N + p * (U + q)" using v by (simp add: N_def p_def algebra_simps)
  have "0 < p" "2 ^ 256 < 2 * p" using p256_val by (simp_all add: p_def)
  then have m: "int (mp_val a) mod p = (if p \<le> N then N - p else N)"
    unfolding a using N by (auto simp: int_mod_pos_eq)
  have "multiprecision_fast_mod_P256 a =
      (if 0 \<le> multiprecision_compare c' curve_p256_p then fst (multiprecision_sub c' curve_p256_p) else c')"
    by (simp add: multiprecision_fast_mod_P256_def w(1) c'_def)
  moreover have "0 \<le> multiprecision_compare c' curve_p256_p \<longleftrightarrow> p \<le> N"
    unfolding p_def c'N [symmetric] of_nat_le_iff using compare_val [of c' curve_p256_p] c'(1) len_p256 by simp
  ultimately have "length (multiprecision_fast_mod_P256 a) = 8 \<and> int (mp_val (multiprecision_fast_mod_P256 a)) = (if p \<le> N then N - p else N)"
    using sub_no_borrow [of c' curve_p256_p] c'(1) len_p256 c'N by (auto simp: p_def)
  with m show ?thesis by (simp add: p_def zmod_int [symmetric] del: of_nat_mod)
qed


lemmas fast_mod_defs = fast_mod_P256_words_def P256_A_def P256_B_def P256_C_def P256_D_def P256_E_def
  P256_F_def P256_G_def sum_word_def diff_word_def plus_word_def minus_word_def carry_in_def lt_def

theorem fast_mod_P256_exact_witness:
  "mp_val (multiprecision_fast_mod_P256 [0, 4, 4, 4, 4, 4, 4, 0x80000000, 0, 0, 0, 0, 0, 0, 0, 0]) =
     mp_val [0, 4, 4, 4, 4, 4, 4, 0x80000000]"
proof -
  let ?a = "[0, 4, 4, 4, 4, 4, 4, 0x80000000, 0, 0, 0, 0, 0, 0, 0, 0] :: u32 list"
  have w: "fast_mod_P256_words ?a = ([0, 4, 4, 4, 4, 4, 4, 0x80000000], 0)"
    by (simp add: fast_mod_defs)
  have four: "\<forall>k\<in>{1..7}. 4 \<le> ?a ! k"
  proof
    fix k :: nat
    assume "k \<in> {1..7}"
    then have "k = 1 \<or> k = 2 \<or> k = 3 \<or> k = 4 \<or> k = 5 \<or> k = 6 \<or> k = 7" by auto
    then show "4 \<le> ?a ! k" by (elim disjE) simp_all
  qed
  show ?thesis
    using fast_mod_P256_exact [of ?a] four by (simp add: w curve_p256_p_def)
qed

text \<open>
  Outside these conditions the result can be wrong: a borrow out of a word is counted as a carry.
\<close>

lemma fast_mod_P256_borrow_lost:
  "mp_val (multiprecision_fast_mod_P256 [0, 0, 0, 0, 0, 0, 0, 0, 0, 0, 0, 0, 0, 0, 1, 0]) \<noteq>
     mp_val [0, 0, 0, 0, 0, 0, 0, 0, 0, 0, 0, 0, 0, 0, 1, 0] mod mp_val curve_p256_p"
proof -
  have w: "fast_mod_P256_words [0, 0, 0, 0, 0, 0, 0, 0, 0, 0, 0, 0, 0, 0, 1, 0] =
      ([0xFFFFFFFF, 0xFFFFFFFE, 0, 0, 1, 2, 3, 0], 0)"
    by (simp add: fast_mod_defs)
  show ?thesis
    by (simp add: multiprecision_fast_mod_P256_def w multiprecision_compare_def curve_p256_p_def)
qed

text \<open>
  The 192-bit reduction folds with \<open>2 ^ 64 + 1\<close>, which is right for the prime of the standard, but
  \<open>curve.p\<close> is set to another number.
\<close>

lemma fast_mod_wrong_modulus:
  "mp_val (multiprecision_fast_mod [0, 0, 0, 0, 0, 0, 1, 0, 0, 0, 0, 0]) = 2 ^ 64 + 1 \<and>
   2 ^ 192 mod mp_val curve_p \<noteq> 2 ^ 64 + 1"
proof -
  have w: "fast_mod_words [0, 0, 0, 0, 0, 0, 1, 0, 0, 0, 0, 0] = ([1, 0, 1, 0, 0, 0], 0)"
    unfolding fast_mod_words_def Let_def by (simp add: plus_word_def next_word_def add_carry_def lt_def)
  show ?thesis
    by (simp add: multiprecision_fast_mod_def w reduce_once_def multiprecision_compare_def curve_p_def)
qed

end
