(* ===== verification/Ecc_Correct.thy ===== *)
theory Ecc_Correct
  imports Ecc Mp_Fast_Correct
begin

text \<open>
  The non-adjacent form computed for a number: its digits, packed four to a byte, represent
  the number, no two neighbours are both nonzero, and their array is long enough. The point
  operations always return.
\<close>

section \<open>The number of significant bits\<close>

lemma dword_bits_loop_ge: "i \<le> dword_bits_loop n i a"
proof (induction n i a rule: dword_bits_loop.induct)
  case (2 n i a)
  then show ?case by (cases "a = 0") auto
qed simp

lemma dword_bits_pos: "a \<noteq> 0 \<Longrightarrow> 0 < multiprecision_dword_bits a"
proof -
  assume "a \<noteq> 0"
  moreover have "dword_bits_loop 32 0 a = dword_bits_loop (Suc 31) 0 a" by simp
  ultimately have "multiprecision_dword_bits a = dword_bits_loop 31 1 (drop_bit 1 a)"
    by (simp only: multiprecision_dword_bits_def dword_bits_loop.simps) simp
  then show ?thesis using dword_bits_loop_ge [of 1 31 "drop_bit 1 a"] by simp
qed

lemma signdwords_zero: "multiprecision_most_signdwords a = 0 \<longleftrightarrow> (\<forall>x \<in> set a. x = 0)"
  by (simp add: multiprecision_most_signdwords_def dropWhile_eq_Nil_conv)

lemma top_word_nonzero:
  assumes "0 < multiprecision_most_signdwords a"
  shows "a ! (multiprecision_most_signdwords a - 1) \<noteq> 0"
proof -
  define d where "d = dropWhile (\<lambda>x. x = 0) (rev a)"
  have d: "d \<noteq> []" "length d = multiprecision_most_signdwords a"
    using assms by (auto simp: d_def multiprecision_most_signdwords_def)
  have "hd d \<noteq> 0" using hd_dropWhile [of "\<lambda>x. x = 0" "rev a"] d(1) by (simp add: d_def)
  moreover have "a = rev d @ rev (takeWhile (\<lambda>x. x = 0) (rev a))"
    unfolding d_def by (metis rev_append rev_rev_ident takeWhile_dropWhile_id)
  then have "a ! (length d - 1) = rev d ! (length d - 1)"
    using d(1) by (metis diff_less length_greater_0_conv length_rev less_numeral_extra(1) nth_append)
  moreover have "rev d ! (length d - 1) = hd d" using d(1) by (simp add: rev_nth hd_conv_nth)
  ultimately show ?thesis using d(2) by simp
qed

lemma mp_val_zero_iff: "mp_val a = 0 \<longleftrightarrow> (\<forall>x \<in> set a. x = 0)"
  by (induction a) (auto simp: unat_eq_0)

lemma signbits_zero: "multiprecision_most_signbits a < 1 \<longleftrightarrow> mp_val a = 0"
proof (cases "multiprecision_most_signdwords a = 0")
  case True
  then show ?thesis using signdwords_zero [of a] by (simp add: multiprecision_most_signbits_def mp_val_zero_iff)
next
  case False
  have "0 < multiprecision_dword_bits (a ! (multiprecision_most_signdwords a - 1))"
    using top_word_nonzero [of a] False by (intro dword_bits_pos) simp
  then show ?thesis
    using False signdwords_zero [of a] by (simp add: multiprecision_most_signbits_def mp_val_zero_iff Let_def)
qed

lemma u32_max: "x + 1 = (0 :: u32) \<longleftrightarrow> unat x = 2 ^ 32 - 1"
proof -
  have "unat (- 1 :: u32) = 2 ^ 32 - 1" by (simp add: unsigned_minus_1_eq_mask mask_eq_exp_minus_1)
  moreover have "x + 1 = 0 \<longleftrightarrow> x = - 1" by (simp add: eq_neg_iff_add_eq_0)
  ultimately show ?thesis by (metis word_unat_eq_iff)
qed

lemma u32_inc: "x + 1 \<noteq> (0 :: u32) \<Longrightarrow> unat (x + 1) = unat x + 1"
  by (simp add: unatSuc add.commute)

section \<open>One digit\<close>

lemma inc_words_Some:
  "mp_val k + 1 < 2 ^ (32 * length k) \<Longrightarrow>
     \<exists>k'. inc_words k = Some k' \<and> length k' = length k \<and> mp_val k' = mp_val k + 1"
proof (induction k)
  case (Cons x xs)
  show ?case
  proof (cases "x + 1 = 0")
    case True
    then have x: "unat x = 2 ^ 32 - 1" by (simp only: u32_max)
    have "2 ^ 32 * (mp_val xs + 1) < 2 ^ 32 * 2 ^ (32 * length xs)"
      using Cons.prems x by (simp add: power_add)
    then have "mp_val xs + 1 < 2 ^ (32 * length xs)" by simp
    from Cons.IH [OF this] True x show ?thesis by auto
  next
    case False
    then show ?thesis by (simp add: u32_inc)
  qed
qed simp

lemma inc_words_None: "mp_val k + 1 = 2 ^ (32 * length k) \<Longrightarrow> inc_words k = None"
proof (induction k)
  case (Cons x xs)
  define B where "B = (2 :: nat) ^ (32 * length xs)"
  have b: "mp_val xs < B" "unat x < 2 ^ 32"
    using mp_val_bound [of xs] u32_bound [of x] by (simp_all add: B_def)
  have e: "unat x + 1 + 2 ^ 32 * mp_val xs = 2 ^ 32 * B"
    using Cons.prems by (simp add: power_add B_def)
  then have v: "mp_val xs + 1 = B" using b by simp
  with e have "unat x = 2 ^ 32 - 1" by simp
  then have "x + 1 = 0" by (simp only: u32_max)
  moreover have "inc_words xs = None" using Cons.IH v by (simp add: B_def)
  ultimately show ?case by simp
qed simp


text \<open>A digit is 0, 1 or -1.\<close>

definition digit_val :: "u32 \<Rightarrow> int" where
  "digit_val s = (if s = 1 then 1 else if s = 3 then - 1 else 0)"

lemma naf_sign_cases:
  assumes "k \<noteq> []"
  shows "even (mp_val k) \<Longrightarrow> naf_sign k = 0"
    and "mp_val k mod 4 = 1 \<Longrightarrow> naf_sign k = 1"
    and "mp_val k mod 4 = 3 \<Longrightarrow> naf_sign k = 3"
proof -
  obtain x xs where k: "k = x # xs" using assms by (cases k) auto
  have m: "unat x mod 4 = mp_val k mod 4"
  proof -
    have "mp_val k = unat x + 4 * (2 ^ 30 * mp_val xs)" by (simp add: k)
    then show ?thesis by (simp only: mod_mult_self2)
  qed
  have a3: "unat (x AND 3) = unat x mod 4"
    using unat_and_mask [of x 2] by (simp add: mask_eq_exp_minus_1)
  have ev: "hd k AND 1 = 0 \<longleftrightarrow> even (mp_val k)" using hd_parity [OF assms] by simp
  show "even (mp_val k) \<Longrightarrow> naf_sign k = 0" using ev by (simp add: naf_sign_def)
  have od: "odd (mp_val k)" if "mp_val k mod 4 = 1 \<or> mp_val k mod 4 = 3"
    using that by (metis dvd_mod_iff even_numeral mod2_eq_if numeral_One odd_one odd_numeral dvd_refl
        even_mod_4_div_2 even_even_mod_4_iff)
  show "naf_sign k = 1" if "mp_val k mod 4 = 1"
    using ev od a3 m that by (simp add: naf_sign_def k word_unat_eq_iff)
  show "naf_sign k = 3" if "mp_val k mod 4 = 3"
    using ev od a3 m that by (simp add: naf_sign_def k word_unat_eq_iff)
qed

lemma clear_low_bit:
  fixes x :: u32
  shows "odd (unat x) \<Longrightarrow> unat (x AND 0xFFFFFFFE) = unat x - 1"
proof -
  assume o: "odd (unat x)"
  have e: "x AND 0xFFFFFFFE = push_bit 1 (drop_bit 1 x)"
  proof (rule bit_eqI)
    fix n
    have c: "(0xFFFFFFFE :: u32) = NOT 1" by simp
    show "bit (x AND 0xFFFFFFFE) n \<longleftrightarrow> bit (push_bit 1 (drop_bit 1 x)) n"
      unfolding c by (cases n) (simp_all only: bit_and_iff bit_not_iff bit_1_iff bit_push_bit_iff bit_drop_bit_eq o_apply, auto simp: possible_bit_def dest: bit_imp_le_length)
  qed
  have "unat (push_bit 1 (drop_bit 1 x)) = (2 * (unat x div 2)) mod 2 ^ 32"
    using u32_bound [of x]
    by (simp add: push_bit_eq_mult drop_bit_eq_div unat_word_ariths unat_div_distrib mult.commute)
  moreover have "2 * (unat x div 2) = unat x - 1" using o by (elim oddE) simp
  ultimately show ?thesis using u32_bound [of x] e by simp
qed


lemma mod4_cases: "even n \<or> n mod 4 = 1 \<or> n mod 4 = (3 :: nat)"
  by presburger

text \<open>Taking the digit away leaves an even number, and one divisible by 4 when the digit is not 0.\<close>

lemma naf_subtract_ok:
  assumes "k \<noteq> []" and "mp_val k + 1 < 2 ^ (32 * length k)"
  shows "\<exists>k'. naf_subtract (naf_sign k) k = Some k' \<and> length k' = length k \<and>
    int (mp_val k') = int (mp_val k) - digit_val (naf_sign k) \<and> even (mp_val k') \<and>
    (naf_sign k \<noteq> 0 \<longrightarrow> 4 dvd mp_val k')"
proof -
  consider (e) "even (mp_val k)" | (m1) "mp_val k mod 4 = 1" | (m3) "mp_val k mod 4 = 3"
    using mod4_cases [of "mp_val k"] by blast
  then show ?thesis
  proof cases
    case e
    then show ?thesis using naf_sign_cases(1) [OF assms(1)] by (simp add: naf_subtract_def digit_val_def)
  next
    case m1
    obtain x xs where k: "k = x # xs" using assms(1) by (cases k) auto
    have "odd (mp_val k)" using m1 by presburger
    then have o: "odd (unat x)" by (simp add: k)
    then have v: "mp_val (k[0 := hd k AND 0xFFFFFFFE]) = mp_val k - 1"
      using odd_pos [OF o] by (simp add: k clear_low_bit)
    have "4 dvd mp_val k - 1" "1 \<le> mp_val k" using m1 by presburger+
    moreover from this have "even (mp_val k - 1)" by (metis dvd_trans even_numeral)
    ultimately show ?thesis using naf_sign_cases(2) [OF assms(1) m1] v
      by (simp add: naf_subtract_def digit_val_def of_nat_diff)
  next
    case m3
    obtain k' where k': "inc_words k = Some k'" "length k' = length k" "mp_val k' = mp_val k + 1"
      using inc_words_Some [OF assms(2)] by auto
    have "4 dvd mp_val k + 1" using m3 by presburger
    moreover from this have "even (mp_val k + 1)" by (metis dvd_trans even_numeral)
    ultimately show ?thesis using naf_sign_cases(3) [OF assms(1) m3] k'
      by (simp add: naf_subtract_def digit_val_def)
  qed
qed

section \<open>The packed digits\<close>

lemma bit_3: "bit (3 :: u32) n \<longleftrightarrow> n < 2"
proof -
  have "bit (mask 2 :: u32) n \<longleftrightarrow> n < 2" by (auto simp: bit_mask_iff)
  then show ?thesis by (simp add: mask_eq_exp_minus_1)
qed

lemma bit_digit: "bit (ucast (drop_bit m (b :: u8)) AND 3 :: u32) n \<longleftrightarrow> n < 2 \<and> bit b (m + n)"
  unfolding bit_and_iff bit_3 bit_unsigned_iff bit_drop_bit_eq o_apply possible_bit_def by auto

lemma digit_bits: "s = 0 \<or> s = 1 \<or> s = 3 \<Longrightarrow> bit (s :: u32) n \<Longrightarrow> n < 2"
  by (elim disjE) (simp_all only: bit_3 bit_1_iff bit_0_eq, simp_all)

lemma bit_store: "bit (b OR ucast (push_bit m (s :: u32)) :: u8) t \<longleftrightarrow> bit b t \<or> t < 8 \<and> m \<le> t \<and> bit s (t - m)"
  by (auto simp: bit_or_iff bit_unsigned_iff bit_push_bit_iff possible_bit_def)

lemma naf_digit_set:
  assumes "naf_store naf i s = Some naf'" and s: "s = 0 \<or> s = 1 \<or> s = 3" and z: "naf_digit naf i = Some 0"
  shows "naf_digit naf' i = Some s" and "j \<noteq> i \<Longrightarrow> naf_digit naf' j = naf_digit naf j" and "length naf' = length naf"
proof -
  define b where "b = naf ! (i div 4)"
  define m where "m = i mod 4 * 2"
  have i: "i div 4 < length naf" and naf': "naf' = naf[i div 4 := b OR ucast (push_bit m s)]"
    using assms(1) by (auto simp: naf_store_def b_def m_def aget_eq_Some_iff aset_eq_Some_iff bind_eq_Some_conv)
  have m: "m + 1 < 8" unfolding m_def by presburger
  show "length naf' = length naf" by (simp add: naf')
  have "ucast (drop_bit m b) AND 3 = (0 :: u32)" using z i by (simp add: naf_digit_def b_def m_def)
  then have zb: "\<not> (n < 2 \<and> bit b (m + n))" for n by (metis bit_digit bit_0_eq bot_apply bot_bool_def)
  have "ucast (drop_bit m (b OR ucast (push_bit m s) :: u8)) AND 3 = s"
  proof (rule bit_eqI)
    fix n
    have "bit s n \<Longrightarrow> m + n < 8" using digit_bits [OF s] m by fastforce
    then show "bit (ucast (drop_bit m (b OR ucast (push_bit m s) :: u8)) AND 3 :: u32) n \<longleftrightarrow> bit s n"
      using zb [of n] digit_bits [OF s, of n] unfolding bit_digit bit_store by auto
  qed
  then show "naf_digit naf' i = Some s" using i by (simp add: naf_digit_def naf' m_def)
  show "naf_digit naf' j = naf_digit naf j" if "j \<noteq> i"
  proof (cases "j div 4 = i div 4")
    case True
    then have "j mod 4 \<noteq> i mod 4" using that by (metis div_mult_mod_eq)
    then have d: "\<not> (n < 2 \<and> m \<le> j mod 4 * 2 + n \<and> j mod 4 * 2 + n - m < 2)" for n
      unfolding m_def by linarith
    have "ucast (drop_bit (j mod 4 * 2) (b OR ucast (push_bit m s) :: u8)) AND 3 =
        (ucast (drop_bit (j mod 4 * 2) b) AND 3 :: u32)"
      using d digit_bits [OF s] by (intro bit_eqI) (unfold bit_digit bit_store, blast)
    then show ?thesis using i True by (simp add: naf_digit_def naf' b_def)
  qed (simp add: naf_digit_def naf' aget_def)
qed

section \<open>All digits\<close>

definition naf_at :: "u8 list \<Rightarrow> nat \<Rightarrow> int" where
  "naf_at naf j = (case naf_digit naf j of Some s \<Rightarrow> digit_val s | None \<Rightarrow> 0)"

text \<open>The digits \<open>i\<close> to \<open>N - 1\<close> of \<open>naf\<close> represent \<open>v\<close>, without neighbours that are both nonzero.\<close>

definition naf_of :: "u8 list \<Rightarrow> nat \<Rightarrow> nat \<Rightarrow> nat \<Rightarrow> bool" where
  "naf_of naf i N v \<longleftrightarrow> int v = (\<Sum>j<N - i. naf_at naf (i + j) * 2 ^ j) \<and>
     (\<forall>j. i \<le> j \<and> j + 1 < N \<longrightarrow> naf_at naf j = 0 \<or> naf_at naf (j + 1) = 0) \<and>
     (even v \<and> i < N \<longrightarrow> naf_at naf i = 0)"

definition naf_free :: "u8 list \<Rightarrow> nat \<Rightarrow> bool" where
  "naf_free naf i \<longleftrightarrow> (\<forall>j. i \<le> j \<and> j < 4 * length naf \<longrightarrow> naf_digit naf j = Some 0)"

lemma naf_of_step:
  assumes "naf_of naf (Suc i) N w" and "i < N" and "int v = naf_at naf i + 2 * int w"
    and "naf_at naf i \<noteq> 0 \<longrightarrow> even w" and "even v \<longrightarrow> naf_at naf i = 0"
  shows "naf_of naf i N v"
proof -
  have n: "N - i = Suc (N - Suc i)" using assms(2) by simp
  have "(\<Sum>j<N - i. naf_at naf (i + j) * 2 ^ j) = naf_at naf i + 2 * (\<Sum>j<N - Suc i. naf_at naf (Suc i + j) * 2 ^ j)"
    unfolding n by (simp add: sum.lessThan_Suc_shift sum_distrib_left mult.assoc mult.left_commute del: sum.lessThan_Suc)
  moreover have "naf_at naf j = 0 \<or> naf_at naf (j + 1) = 0" if "i \<le> j" "j + 1 < N" for j
    using assms(1,4) that by (cases "j = i") (auto simp: naf_of_def)
  ultimately show ?thesis using assms by (simp add: naf_of_def)
qed

lemma naf_store_Some:
  assumes "i < 4 * length naf"
  shows "\<exists>naf'. naf_store naf i s = Some naf'"
proof -
  have "i div 4 < length naf" using assms by (simp add: less_mult_imp_div_less mult.commute)
  then show ?thesis by (simp add: naf_store_def)
qed

lemma signbits_zero_eq: "multiprecision_most_signbits a = 0 \<longleftrightarrow> mp_val a = 0"
  using signbits_zero [of a] by simp

lemma naf_loop_zero: "mp_val k = 0 \<Longrightarrow> naf_loop k i naf = Some (naf, i, k)"
  by (subst naf_loop.simps) (simp add: signbits_zero_eq)

lemma naf_of_zero: "naf_of naf i i 0"
  by (simp add: naf_of_def)

lemma naf_at_digit: "naf_digit naf i = Some s \<Longrightarrow> naf_at naf i = digit_val s"
  by (simp add: naf_at_def)

lemma digit_val_zero: "s = 0 \<or> s = 1 \<or> s = 3 \<Longrightarrow> digit_val s = 0 \<longleftrightarrow> s = 0"
  by (auto simp: digit_val_def)

lemma naf_sign_range: "k \<noteq> [] \<Longrightarrow> naf_sign k = 0 \<or> naf_sign k = 1 \<or> naf_sign k = 3"
  using naf_sign_cases [of k] mod4_cases [of "mp_val k"] by blast

text \<open>One round of the loop.\<close>

lemma naf_round:
  assumes "k \<noteq> []" and "0 < mp_val k" and "mp_val k + 1 < 2 ^ (32 * length k)"
    and "i < 4 * length naf" and "naf_free naf i"
  obtains k1 naf1 where "naf_loop k i naf = naf_loop k1 (Suc i) naf1" and "length k1 = length k"
    and "length naf1 = length naf" and "naf_free naf1 (Suc i)" and "\<forall>j < i. naf_digit naf1 j = naf_digit naf j"
    and "int (mp_val k) = naf_at naf1 i + 2 * int (mp_val k1)" and "naf_at naf1 i \<noteq> 0 \<longrightarrow> even (mp_val k1)"
    and "even (mp_val k) \<longrightarrow> naf_at naf1 i = 0" and "\<bar>naf_at naf1 i\<bar> \<le> 1" and "naf_digit naf1 i \<noteq> None"
proof -
  define s where "s = naf_sign k"
  obtain k' where k': "naf_subtract s k = Some k'" "length k' = length k"
      "int (mp_val k') = int (mp_val k) - digit_val s" "even (mp_val k')" "s \<noteq> 0 \<longrightarrow> 4 dvd mp_val k'"
    using naf_subtract_ok [OF assms(1,3)] by (auto simp: s_def)
  obtain naf1 where n1: "naf_store naf i s = Some naf1" using naf_store_Some [OF assms(4)] by blast
  have s3: "s = 0 \<or> s = 1 \<or> s = 3" using naf_sign_range [OF assms(1)] by (simp add: s_def)
  have z: "naf_digit naf i = Some 0" using assms(4,5) by (simp add: naf_free_def)
  note d = naf_digit_set [OF n1 s3 z]
  have at: "naf_at naf1 i = digit_val s" using d(1) by (rule naf_at_digit)
  let ?k1 = "multiprecision_rshift k'"
  have v: "mp_val ?k1 = mp_val k' div 2" "length ?k1 = length k'" using rshift_val [of k'] by simp_all
  show thesis
  proof (rule that [of ?k1 naf1])
    show "naf_loop k i naf = naf_loop ?k1 (Suc i) naf1"
      using assms(2) k'(1) n1 by (subst naf_loop.simps) (simp add: signbits_zero_eq s_def [symmetric] Let_def)
    show "length ?k1 = length k" "length naf1 = length naf" using v k'(2) d(3) by simp_all
    show "naf_free naf1 (Suc i)" using assms(5) d(2,3) by (simp add: naf_free_def)
    show "\<forall>j < i. naf_digit naf1 j = naf_digit naf j" using d(2) by simp
    show "int (mp_val k) = naf_at naf1 i + 2 * int (mp_val ?k1)" using k'(3,4) v(1) at by auto
    show "naf_at naf1 i \<noteq> 0 \<longrightarrow> even (mp_val ?k1)" using k'(5) v(1) digit_val_zero [OF s3] at by auto
    show "even (mp_val k) \<longrightarrow> naf_at naf1 i = 0" using naf_sign_cases(1) [OF assms(1)] at by (simp add: s_def digit_val_def)
    show "\<bar>naf_at naf1 i\<bar> \<le> 1" "naf_digit naf1 i \<noteq> None" using at d(1) by (simp_all add: digit_val_def)
  qed
qed

definition naf_result :: "u32 list \<Rightarrow> nat \<Rightarrow> u8 list \<Rightarrow> nat \<Rightarrow> bool" where
  "naf_result k i naf B \<longleftrightarrow> (\<exists>naf' N k'. naf_loop k i naf = Some (naf', N, k') \<and> mp_val k' = 0 \<and>
     length k' = length k \<and> length naf' = length naf \<and> i \<le> N \<and> N \<le> B \<and>
     (\<forall>j < i. naf_digit naf' j = naf_digit naf j) \<and> (\<forall>j < N. i \<le> j \<longrightarrow> naf_digit naf' j \<noteq> None) \<and>
     naf_of naf' i N (mp_val k))"

lemma naf_result_zero: "mp_val k = 0 \<Longrightarrow> i \<le> B \<Longrightarrow> naf_result k i naf B"
  using naf_loop_zero [of k i naf] naf_of_zero [of naf i] by (auto simp: naf_result_def)

lemma naf_result_round:
  assumes "k \<noteq> []" and "0 < mp_val k" and "mp_val k + 1 < 2 ^ (32 * length k)"
    and "i < 4 * length naf" and "naf_free naf i"
    and tail: "\<And>k1 naf1. length k1 = length k \<Longrightarrow> length naf1 = length naf \<Longrightarrow> naf_free naf1 (Suc i) \<Longrightarrow>
      2 * mp_val k1 \<le> mp_val k + 1 \<Longrightarrow> (mp_val k = 1 \<Longrightarrow> mp_val k1 = 0) \<Longrightarrow> naf_result k1 (Suc i) naf1 B"
  shows "naf_result k i naf B"
proof -
  obtain k1 naf1 where r: "naf_loop k i naf = naf_loop k1 (Suc i) naf1" "length k1 = length k"
      "length naf1 = length naf" "naf_free naf1 (Suc i)" "\<forall>j < i. naf_digit naf1 j = naf_digit naf j"
      "int (mp_val k) = naf_at naf1 i + 2 * int (mp_val k1)" "naf_at naf1 i \<noteq> 0 \<longrightarrow> even (mp_val k1)"
      "even (mp_val k) \<longrightarrow> naf_at naf1 i = 0" "\<bar>naf_at naf1 i\<bar> \<le> 1" "naf_digit naf1 i \<noteq> None"
    using naf_round [OF assms(1-5)] by metis
  have "2 * mp_val k1 \<le> mp_val k + 1" using r(6,9) by linarith
  moreover have "mp_val k1 = 0" if "mp_val k = 1"
  proof -
    have "naf_at naf1 i \<noteq> 0" using r(6) that by presburger
    then have "even (mp_val k1)" "mp_val k1 \<le> 1" using r(6,7,9) that by linarith+
    then show ?thesis by presburger
  qed
  ultimately have "naf_result k1 (Suc i) naf1 B" using r(2-4) by (intro tail) simp_all
  then obtain naf' N k' where t: "naf_loop k1 (Suc i) naf1 = Some (naf', N, k')" "mp_val k' = 0"
      "length k' = length k1" "length naf' = length naf1" "Suc i \<le> N" "N \<le> B"
      "\<forall>j < Suc i. naf_digit naf' j = naf_digit naf1 j" "\<forall>j < N. Suc i \<le> j \<longrightarrow> naf_digit naf' j \<noteq> None"
      "naf_of naf' (Suc i) N (mp_val k1)"
    unfolding naf_result_def by blast
  have e: "naf_digit naf' i = naf_digit naf1 i" using t(7) by simp
  then have at: "naf_at naf' i = naf_at naf1 i" by (simp add: naf_at_def)
  have "naf_of naf' i N (mp_val k)"
    using t(5) r(6-8) at by (intro naf_of_step [OF t(9)]) simp_all
  moreover have "\<forall>j < N. i \<le> j \<longrightarrow> naf_digit naf' j \<noteq> None"
    using t(8) r(10) e by (metis Suc_leI le_neq_implies_less)
  moreover have "\<forall>j < i. naf_digit naf' j = naf_digit naf j" using t(7) r(5) by simp
  ultimately show ?thesis unfolding naf_result_def using r(1-3) t(1-6) by auto
qed

lemma naf_loop_ok:
  assumes "k \<noteq> []" and "mp_val k + 1 < 2 ^ (32 * length k)" and "mp_val k \<le> 2 ^ b"
    and "i + b < 4 * length naf" and "naf_free naf i"
  shows "naf_result k i naf (i + b + 1)"
  using assms
proof (induction b arbitrary: k i naf)
  case 0
  show ?case
  proof (cases "mp_val k = 0")
    case False
    then have one: "mp_val k = 1" using "0.prems"(3) by simp
    show ?thesis
    proof (rule naf_result_round [OF "0.prems"(1) _ "0.prems"(2) _ "0.prems"(5)])
      show "0 < mp_val k" "i < 4 * length naf" using one "0.prems"(4) by simp_all
      show "naf_result k1 (Suc i) naf1 (i + 0 + 1)" if "mp_val k = 1 \<Longrightarrow> mp_val k1 = 0" for k1 :: "u32 list" and naf1
        using that [OF one] by (intro naf_result_zero) simp_all
    qed
  qed (simp add: naf_result_zero)
next
  case (Suc b)
  show ?case
  proof (cases "mp_val k = 0")
    case False
    show ?thesis
    proof (rule naf_result_round [OF Suc.prems(1) _ Suc.prems(2) _ Suc.prems(5)])
      fix k1 naf1
      assume k1: "length k1 = length k" "length naf1 = length naf" "naf_free naf1 (Suc i)" "2 * mp_val k1 \<le> mp_val k + 1"
      have "k1 \<noteq> []" using k1(1) Suc.prems(1) by auto
      moreover have "mp_val k1 + 1 < 2 ^ (32 * length k1)" using k1(1,4) Suc.prems(2) False by simp
      moreover have "mp_val k1 \<le> 2 ^ b" using k1(4) Suc.prems(3) by simp
      ultimately have "naf_result k1 (Suc i) naf1 (Suc i + b + 1)"
        using Suc.prems(4) k1 by (intro Suc.IH) simp_all
      then show "naf_result k1 (Suc i) naf1 (i + Suc b + 1)" by simp
    qed (use False Suc.prems(4) in simp_all)
  qed (simp add: naf_result_zero)
qed

section \<open>Every operation returns\<close>

text \<open>The code returns, with a result that satisfies \<open>P\<close>.\<close>

definition gives :: "('a \<Rightarrow> bool) \<Rightarrow> 'a option \<Rightarrow> bool" where
  "gives P m \<longleftrightarrow> (\<exists>x. m = Some x \<and> P x)"

lemma gives_Some: "P x \<Longrightarrow> gives P (Some x)"
  by (simp add: gives_def)

lemma gives_bind: "gives P m \<Longrightarrow> (\<And>x. P x \<Longrightarrow> gives Q (f x)) \<Longrightarrow> gives Q (m \<bind> f)"
  by (auto simp: gives_def)

lemma gives_if: "(b \<Longrightarrow> gives P m) \<Longrightarrow> (\<not> b \<Longrightarrow> gives P m') \<Longrightarrow> gives P (if b then m else m')"
  by simp

definition key_length :: "nat \<Rightarrow> bool" where
  "key_length n \<longleftrightarrow> n = KEY_LENGTH_DWORDS_P192 \<or> n = KEY_LENGTH_DWORDS_P256"

definition number :: "nat \<Rightarrow> u32 list \<Rightarrow> bool" where
  "number n a \<longleftrightarrow> length a = n"

lemma modp_gives: "key_length n \<Longrightarrow> gives (number n) (modp_of n)"
  by (auto simp: key_length_def gives_def number_def modp_of_def curve_p_def curve_p256_p_def
      KEY_LENGTH_DWORDS_P192_def KEY_LENGTH_DWORDS_P256_def)

lemma length_add: "length a = length b \<Longrightarrow> length (fst (multiprecision_add a b)) = length a"
  using add_val(1) [of a b] by (metis prod.collapse)

lemma length_sub: "length a = length b \<Longrightarrow> length (fst (multiprecision_sub a b)) = length a"
  using sub_val(1) [of a b] by (metis prod.collapse)

lemma length_lshift: "length (fst (multiprecision_lshift a)) = length a"
  using lshift_val(1) [of a] by (metis prod.collapse)

lemma length_reduce_once: "length (fst r) = length p \<Longrightarrow> length (reduce_once p r) = length p"
  by (auto simp: reduce_once_def length_sub split: prod.splits)

lemma number_reduce_once: "number n p \<Longrightarrow> number n (fst r) \<Longrightarrow> number n (reduce_once p r)"
  by (simp add: number_def length_reduce_once)

lemma add_mod_gives: "key_length n \<Longrightarrow> number n a \<Longrightarrow> number n b \<Longrightarrow> gives (number n) (multiprecision_add_mod a b n)"
  unfolding multiprecision_add_mod_def
  by (intro gives_bind [OF modp_gives] gives_Some number_reduce_once) (simp_all add: number_def length_add)

lemma lshift_mod_gives: "key_length n \<Longrightarrow> number n a \<Longrightarrow> gives (number n) (multiprecision_lshift_mod a n)"
  unfolding multiprecision_lshift_mod_def
  by (intro gives_bind [OF modp_gives] gives_Some number_reduce_once) (simp_all add: number_def length_lshift)

lemma number_sub_mod: "number n p \<Longrightarrow> number n a \<Longrightarrow> number n b \<Longrightarrow> number n (sub_mod p a b)"
  using length_sub [of a b] length_add [of "fst (multiprecision_sub a b)" p]
  by (auto simp: number_def sub_mod_def split: prod.splits)

lemma sub_mod_gives: "key_length n \<Longrightarrow> number n a \<Longrightarrow> number n b \<Longrightarrow> gives (number n) (multiprecision_sub_mod a b n)"
  unfolding multiprecision_sub_mod_def
  by (intro gives_bind [OF modp_gives] gives_Some number_sub_mod)

lemma number_funpow: "(\<And>x. number n x \<Longrightarrow> number n (f x)) \<Longrightarrow> number n c \<Longrightarrow> number n ((f ^^ m) c)"
  by (induction m) simp_all

lemma number_fast_mod_P256: "number 8 (multiprecision_fast_mod_P256 a)"
proof -
  obtain c U where w: "fast_mod_P256_words a = (c, U)" by force
  then have c: "number 8 c" by (auto simp: fast_mod_P256_words_def number_def Let_def split: prod.splits)
  have p: "number 8 x \<Longrightarrow> number 8 (fst (multiprecision_sub x curve_p256_p))"
      "number 8 x \<Longrightarrow> number 8 (fst (multiprecision_add x curve_p256_p))" for x
    by (simp_all add: number_def length_sub length_add len_p256)
  have "number 8 (if U AND 0x80000000 \<noteq> 0
                then ((\<lambda>x. fst (multiprecision_add x curve_p256_p)) ^^ unat (0 - U)) c
                else ((\<lambda>x. fst (multiprecision_sub x curve_p256_p)) ^^ unat U) c)"
    using p c by (auto intro!: number_funpow)
  then show ?thesis
    unfolding multiprecision_fast_mod_P256_def w prod.case Let_def by (simp add: p)
qed

lemma number_fast_mod: "number 6 (multiprecision_fast_mod a)"
proof -
  have "number 6 (fst (fast_mod_words a))" by (simp add: fast_mod_words_def number_def Let_def split: prod.splits)
  moreover have "number 6 curve_p" by (simp add: number_def curve_p_def)
  ultimately show ?thesis by (simp add: multiprecision_fast_mod_def number_reduce_once)
qed

lemma mult_mod_gives: "key_length n \<Longrightarrow> gives (number n) (multiprecision_mersenns_mult_mod a b n)"
  by (auto simp: key_length_def gives_def multiprecision_mersenns_mult_mod_def KEY_LENGTH_DWORDS_P192_def
      KEY_LENGTH_DWORDS_P256_def number_fast_mod number_fast_mod_P256 Let_def)

lemma squa_mod_gives: "key_length n \<Longrightarrow> gives (number n) (multiprecision_mersenns_squa_mod a n)"
  by (simp add: multiprecision_mersenns_squa_mod_def mult_mod_gives)

lemma inv_mod_gives: "key_length n \<Longrightarrow> number n a \<Longrightarrow> gives (number n) (multiprecision_inv_mod a n)"
  using inv_mod_total [of n _ a] modp_gives [of n] by (auto simp: gives_def number_def)

lemmas arith_gives = add_mod_gives sub_mod_gives lshift_mod_gives mult_mod_gives squa_mod_gives inv_mod_gives

text \<open>Points whose coordinates have the length of the key.\<close>

definition point :: "nat \<Rightarrow> Point \<Rightarrow> bool" where
  "point n p \<longleftrightarrow> number n (pt_x p) \<and> number n (pt_y p) \<and> number n (pt_z p)"

lemma point_simps [simp]:
  "point n \<lparr>pt_x = x, pt_y = y, pt_z = z\<rparr> \<longleftrightarrow> number n x \<and> number n y \<and> number n z"
  "point n (p\<lparr>pt_z := z\<rparr>) \<longleftrightarrow> number n (pt_x p) \<and> number n (pt_y p) \<and> number n z"
  "number n (multiprecision_init n)"
  by (simp_all add: point_def number_def multiprecision_init_def)

lemma double_gives:
  assumes "key_length n" and "point n q" and "point n p"
  shows "gives (point n) (ECC_Double q p n)"
  unfolding ECC_Double_def
  by (rule gives_if gives_Some gives_bind arith_gives | assumption | (use assms in \<open>simp add: point_def\<close>))+

lemma add_gives:
  assumes "key_length n" and "point n r" and "point n p" and "point n q"
  shows "gives (\<lambda>(r', p'). point n r' \<and> point n p') (ECC_Add r p q n)"
  unfolding ECC_Add_def
  by (rule gives_if gives_Some gives_bind arith_gives double_gives | assumption | (use assms in \<open>simp add: point_def\<close>))+

section \<open>The properties\<close>

lemma key_length_pos: "key_length n \<Longrightarrow> 0 < n \<and> n \<le> 8"
  by (auto simp: key_length_def KEY_LENGTH_DWORDS_P192_def KEY_LENGTH_DWORDS_P256_def)

lemma naf_free_init: "naf_free (replicate m 0) 0"
  by (auto simp: naf_free_def naf_digit_def less_mult_imp_div_less mult.commute)

lemma naf_result_init:
  assumes "k \<noteq> []" and "length k \<le> 8" and "mp_val k + 1 < 2 ^ (32 * length k)"
  shows "naf_result k 0 (replicate NAF_BYTES 0) 257"
proof -
  have "mp_val k < 2 ^ (32 * length k)" by (rule mp_val_bound)
  also have "\<dots> \<le> 2 ^ 256" using assms(2) by (intro power_increasing) simp_all
  finally show ?thesis
    using naf_loop_ok [OF assms(1,3), of 256 0 "replicate NAF_BYTES 0"] naf_free_init
    by (simp add: NAF_BYTES_def)
qed

text \<open>
  A number of all ones is incremented beyond its last word.
\<close>

lemma naf_overrun:
  assumes "k \<noteq> []" and "mp_val k + 1 = 2 ^ (32 * length k)"
  shows "ECC_NAF naf k = None"
proof -
  obtain n where n: "32 * length k = Suc (Suc n)" using assms(1) by (cases k) auto
  have "mp_val k + 1 = 4 * 2 ^ n" using assms(2) by (simp add: n)
  then have "mp_val k mod 4 = 3" "mp_val k \<noteq> 0" by presburger+
  then show ?thesis
    using naf_sign_cases(3) [OF assms(1)] inc_words_None [OF assms(2)]
    unfolding ECC_NAF_def by (subst naf_loop.simps) (simp add: signbits_zero_eq naf_subtract_def)
qed

text \<open>
  C29. For every number of one to eight words, \<open>ECC_NAF\<close> returns at most 257 digits 0, 1 and -1 that
  represent it, of which no two neighbours are both nonzero; they fit the array, and the number
  itself is used up. The one exception is the number whose bits are all ones: the increment leaves
  its last word, and there is no result.
\<close>

theorem naf_represents:
  assumes "k \<noteq> []" and "length k \<le> 8"
  shows "if mp_val k + 1 = 2 ^ (32 * length k) then ECC_NAF (replicate NAF_BYTES 0) k = None
   else \<exists>naf N k'. ECC_NAF (replicate NAF_BYTES 0) k = Some (naf, N, k') \<and> N \<le> 257 \<and> mp_val k' = 0 \<and>
     int (mp_val k) = (\<Sum>j<N. naf_at naf j * 2 ^ j) \<and>
     (\<forall>j. j + 1 < N \<longrightarrow> naf_at naf j = 0 \<or> naf_at naf (j + 1) = 0)"
proof (cases "mp_val k + 1 = 2 ^ (32 * length k)")
  case True
  then show ?thesis using naf_overrun [OF assms(1)] by simp
next
  case False
  then have "mp_val k + 1 < 2 ^ (32 * length k)" using mp_val_bound [of k] by linarith
  with False naf_result_init [OF assms] show ?thesis by (auto simp: naf_result_def naf_of_def ECC_NAF_def)
qed

theorem naf_represents_witness:
  "\<exists>naf N k'. ECC_NAF (replicate NAF_BYTES 0) [7, 0, 0, 0, 0, 0, 0, 0] = Some (naf, N, k') \<and>
     (7 :: int) = (\<Sum>j<N. naf_at naf j * 2 ^ j)"
  using naf_represents [of "[7, 0, 0, 0, 0, 0, 0, 0]"] by auto

lemma point_mult_loop_gives:
  assumes "key_length n" and "point n p" and "point n m" and "\<forall>j < i. naf_digit naf j \<noteq> None"
  shows "point n q \<Longrightarrow> gives (point n) (point_mult_loop i naf q p m n)"
  using assms(4)
proof (induction i arbitrary: q)
  case 0
  then show ?case by (simp add: gives_Some)
next
  case (Suc i)
  obtain s where s: "naf_digit naf i = Some s" using Suc.prems(2) by auto
  have add: "gives (point n) (ECC_Add q1 q1 b n \<bind> (\<lambda>(r, _). Some r))" if "point n q1" "point n b" for q1 b
    using add_gives [OF assms(1) that(1,1,2)] by (auto simp: gives_def)
  have digit: "gives (point n) (if s = 1 then ECC_Add q1 q1 p n \<bind> (\<lambda>(r, _). Some r)
      else if s = 3 then ECC_Add q1 q1 m n \<bind> (\<lambda>(r, _). Some r) else Some q1)" if "point n q1" for q1
    using add assms(2,3) that by (intro gives_if gives_Some)
  show ?case
    unfolding point_mult_loop.simps s bind.bind_lunit
    by (rule gives_bind [OF double_gives [OF assms(1) Suc.prems(1,1)]], rule gives_bind [OF digit], assumption,
        rule Suc.IH, assumption) (use Suc.prems(2) in simp)
qed

lemma point_mult_gives:
  assumes key: "key_length n" and "number n (pt_x p0)" and "number n (pt_y p0)" and "number n k"
    and "mp_val k + 1 < 2 ^ (32 * n)"
  shows "gives (\<lambda>(q, p, k'). point n q \<and> point n p \<and> mp_val k' = 0) (ECC_PointMult_Bin_NAF p0 k n)"
proof -
  have k: "k \<noteq> []" "length k \<le> 8" "mp_val k + 1 < 2 ^ (32 * length k)"
    using key_length_pos [OF key] assms(4,5) by (auto simp: number_def)
  obtain naf N k' where naf: "naf_loop k 0 (replicate NAF_BYTES 0) = Some (naf, N, k')" "mp_val k' = 0"
      "\<forall>j < N. naf_digit naf j \<noteq> None"
    using naf_result_init [OF k] unfolding naf_result_def by blast
  define one where "one = (multiprecision_init n)[0 := 1]"
  define p where "p = p0\<lparr>pt_z := one\<rparr>"
  define modp where "modp = (if n = KEY_LENGTH_DWORDS_P256 then curve_p256_p else curve_p)"
  define m where "m = \<lparr>pt_x = pt_x p, pt_y = fst (multiprecision_sub modp (pt_y p)), pt_z = one\<rparr>"
  have one: "number n one" by (simp add: one_def number_def multiprecision_init_def)
  then have p: "point n p" using assms(2,3) by (simp add: p_def)
  have "number n modp"
    using key by (auto simp: key_length_def modp_def number_def curve_p_def curve_p256_p_def
        KEY_LENGTH_DWORDS_P192_def KEY_LENGTH_DWORDS_P256_def)
  then have "number n (fst (multiprecision_sub modp (pt_y p)))"
    using assms(3) by (simp add: number_def length_sub p_def)
  then have m: "point n m" using p one by (simp add: m_def point_def)
  have z: "point n (p_256_init_point n)" by (simp add: p_256_init_point_def)
  have "ECC_PointMult_Bin_NAF p0 k n = (do {
        q \<leftarrow> point_mult_loop N naf (p_256_init_point n) p m n;
        w \<leftarrow> multiprecision_inv_mod (pt_z q) n;
        z \<leftarrow> multiprecision_mersenns_squa_mod w n;
        x \<leftarrow> multiprecision_mersenns_mult_mod (pt_x q) z n;
        z \<leftarrow> multiprecision_mersenns_mult_mod z w n;
        y \<leftarrow> multiprecision_mersenns_mult_mod (pt_y q) z n;
        Some (\<lparr>pt_x = x, pt_y = y, pt_z = z\<rparr>, p, k') })"
    unfolding ECC_PointMult_Bin_NAF_def ECC_NAF_def Let_def naf(1)
    by (simp add: one_def p_def m_def modp_def)
  then show ?thesis
    using point_mult_loop_gives [OF key p m naf(3) z] naf(2) p key
    by (auto simp: point_def intro!: gives_bind gives_Some arith_gives)
qed

text \<open>
  C33. Multiplying a point by a number returns, for both key lengths and every number that is not all ones: the digits fit
  their array, the inversion ends, and the result has coordinates of the length of the key.
\<close>

theorem point_mult_returns:
  assumes "key_length n" and "length (pt_x p) = n" and "length (pt_y p) = n" and "length k = n"
    and "mp_val k + 1 < 2 ^ (32 * n)"
  shows "\<exists>q p' k'. ECC_PointMult_Bin_NAF p k n = Some (q, p', k') \<and> point n q \<and> point n p' \<and> mp_val k' = 0"
  using point_mult_gives [of n p k] assms by (auto simp: gives_def number_def)

theorem point_mult_returns_witness:
  "\<exists>q p' k'. ECC_PointMult_Bin_NAF (p_256_init_point 8) [5, 0, 0, 0, 0, 0, 0, 0] 8 = Some (q, p', k') \<and> point 8 q"
  using point_mult_returns [of 8 "p_256_init_point 8" "[5, 0, 0, 0, 0, 0, 0, 0]"]
  by (auto simp: key_length_def KEY_LENGTH_DWORDS_P256_def p_256_init_point_def multiprecision_init_def)

end
