(* ===== verification/Keys_Correct.thy ===== *)
theory Keys_Correct
  imports Keys Ecc_Correct
begin

text \<open>
  Byte order and hexadecimal text, the bound of the private keys, the composition of the key
  operations with the point multiplication, and the base points of the two curves.
\<close>

section \<open>Byte order\<close>

lemma swap_bytes_nth:
  "i < length src \<Longrightarrow> k < length src \<Longrightarrow>
     swap_bytes i src ! k = (if k = i \<or> k = length src - 1 - i then src ! (length src - 1 - k) else src ! k)"
  by (auto simp: swap_bytes_def Let_def nth_list_update)

lemma swap_loop:
  "2 * m \<le> length src \<Longrightarrow>
     length (fold swap_bytes [0..<m] src) = length src \<and>
     (\<forall>k < length src. fold swap_bytes [0..<m] src ! k =
        (if k < m \<or> length src - m \<le> k then src ! (length src - 1 - k) else src ! k))"
proof (induction m)
  case (Suc m)
  define a where "a = fold swap_bytes [0..<m] src"
  have a: "length a = length src"
      "\<And>k. k < length src \<Longrightarrow> a ! k = (if k < m \<or> length src - m \<le> k then src ! (length src - 1 - k) else src ! k)"
    using Suc by (simp_all add: a_def)
  have m: "m < length a" using Suc.prems a(1) by simp
  have "swap_bytes m a ! k = (if k < Suc m \<or> length src - Suc m \<le> k then src ! (length src - 1 - k) else src ! k)"
    if k: "k < length src" for k
    using swap_bytes_nth [OF m, of k] k a Suc.prems by auto
  moreover have "length (swap_bytes m a) = length src"
    using a(1) by (simp add: swap_bytes_def Let_def)
  ultimately show ?case by (simp add: a_def)
qed simp

lemma big2nd_rev: "big2nd src = rev src"
proof (rule nth_equalityI)
  have l: "2 * (length src div 2) \<le> length src" by simp
  note s = swap_loop [OF l]
  show "length (big2nd src) = length (rev src)" using s by (simp add: big2nd_def)
  fix k assume "k < length (big2nd src)"
  then have k: "k < length src" using s by (simp add: big2nd_def)
  have "big2nd src ! k = (if k < length src div 2 \<or> length src - length src div 2 \<le> k
      then src ! (length src - 1 - k) else src ! k)"
    using s k by (simp add: big2nd_def)
  moreover have "length src - 1 - k = k" if "\<not> (k < length src div 2 \<or> length src - length src div 2 \<le> k)"
    using that k by presburger
  ultimately show "big2nd src ! k = rev src ! k" using k by (simp add: rev_nth)
qed

section \<open>Hexadecimal text\<close>

lemma hex_digits: "\<forall>n \<in> set [0..<16]. unat (char2byte (hex_table ! n)) = n"
  by code_simp

lemma hex_digit: "n < 16 \<Longrightarrow> char2byte (hex_table ! n) = of_nat n"
proof -
  assume "n < 16"
  then have "unat (char2byte (hex_table ! n)) = n" using hex_digits by simp
  then have "char2byte (hex_table ! n) = of_nat n" by (metis of_nat_unat ucast_id)
  then show ?thesis .
qed

lemma nibble_bound: "unat (x AND 0xf :: u8) < 16"
proof -
  have "unat (x AND 0xf) = unat x mod 16"
    using unat_and_mask [of x 4] by (simp add: mask_eq_exp_minus_1)
  then show ?thesis by simp
qed

lemma nibbles: "push_bit 4 (drop_bit 4 b AND 0xf) OR (b AND 0xf) = (b :: u8)"
proof (rule bit_word_eqI)
  fix n assume "n < LENGTH(8)"
  then have "n \<in> set [0..<8]" by simp
  moreover have m: "(0xf :: u8) = mask 4" by (simp add: mask_eq_exp_minus_1)
  ultimately show "bit (push_bit 4 (drop_bit 4 b AND 0xf) OR (b AND 0xf)) n = bit b n"
    unfolding m by (auto simp: bit_or_iff bit_and_iff bit_push_bit_iff bit_drop_bit_eq bit_mask_iff)
qed

lemma char2bytes_hex: "char2bytes (length bs) (concat (map byte2hex bs)) = Some bs"
proof (induction bs)
  case (Cons b bs)
  have "byte2hex b @ concat (map byte2hex bs) =
      hex_table ! unat (drop_bit 4 b AND 0xf) # hex_table ! unat (b AND 0xf) # concat (map byte2hex bs)"
    by (simp add: byte2hex_def)
  moreover have "push_bit 4 (char2byte (hex_table ! unat (drop_bit 4 b AND 0xf))) OR
      char2byte (hex_table ! unat (b AND 0xf)) = b"
    by (simp only: hex_digit [OF nibble_bound] of_nat_unat ucast_id nibbles)
  ultimately show ?case using Cons by simp
qed simp

section \<open>Values of byte strings\<close>

text \<open>The value of a byte string, most significant byte first.\<close>

definition be_val :: "u8 list \<Rightarrow> nat" where
  "be_val bs = foldl (\<lambda>n b. 256 * n + unat b) 0 bs"

lemma be_val_foldl: "foldl (\<lambda>n b. 256 * n + unat b) m bs = m * 256 ^ length bs + be_val bs"
  unfolding be_val_def by (induction bs rule: rev_induct) simp_all

lemma be_val_simps [simp]:
  "be_val [] = 0" "be_val (b # bs) = unat b * 256 ^ length bs + be_val bs"
  "be_val (bs @ [b]) = 256 * be_val bs + unat b"
  using be_val_foldl [of "unat b" bs] by (simp_all add: be_val_def)

lemma u8_bound: "unat (b :: u8) < 256"
  using unsigned_less [of b] by simp

lemma be_val_bound: "be_val bs < 256 ^ length bs"
proof (induction bs)
  case (Cons b bs)
  have "be_val (b # bs) < (unat b + 1) * 256 ^ length bs" using Cons by simp
  also have "\<dots> \<le> 256 * 256 ^ length bs" using u8_bound [of b] by (intro mult_right_mono) simp_all
  finally show ?case by simp
qed simp

lemma word_of_bytes:
  "unat (ucast b0 OR push_bit 8 (ucast b1) OR push_bit 16 (ucast b2) OR push_bit 24 (ucast b3) :: u32) =
     unat (b0 :: u8) + 256 * (unat (b1 :: u8) + 256 * (unat (b2 :: u8) + 256 * unat (b3 :: u8)))"
proof -
  have u: "unat (ucast b :: u32) = unat b" for b :: u8
    using u8_bound [of b] by (simp add: unsigned_ucast_eq take_bit_nat_eq_self)
  have p: "unat (push_bit m (ucast b) :: u32) = push_bit m (unat b)" if "m \<le> 24" for m and b :: u8
  proof -
    have "push_bit m (unat b) < 2 ^ m * 256" using u8_bound [of b] by (simp add: push_bit_eq_mult)
    also have "\<dots> \<le> 2 ^ 24 * 256" using that by (intro mult_right_mono power_increasing) simp_all
    finally show ?thesis by (simp add: unsigned_push_bit_eq u take_bit_nat_eq_self)
  qed
  have o: "x OR push_bit m y = x + push_bit m y" if "x < 2 ^ m" for x y m :: nat
    using that by (intro or_push_bit)
  have b: "unat b0 < 2 ^ 8" "unat b1 < 256" "unat b2 < 256" using u8_bound by simp_all
  have s1: "unat b0 + push_bit 8 (unat b1) < 2 ^ 16" using b by (simp add: push_bit_eq_mult)
  have s2: "unat b0 + push_bit 8 (unat b1) + push_bit 16 (unat b2) < 2 ^ 24"
    using b by (simp add: push_bit_eq_mult)
  have "unat (ucast b0 OR push_bit 8 (ucast b1) OR push_bit 16 (ucast b2) OR push_bit 24 (ucast b3) :: u32) =
      ((unat b0 OR push_bit 8 (unat b1)) OR push_bit 16 (unat b2)) OR push_bit 24 (unat b3)"
    by (simp add: unsigned_or_eq u p or.assoc)
  also have "\<dots> = unat b0 + push_bit 8 (unat b1) + push_bit 16 (unat b2) + push_bit 24 (unat b3)"
    by (simp only: o [OF b(1)] o [OF s1] o [OF s2])
  finally show ?thesis by (simp add: push_bit_eq_mult)
qed

lemma be_val_append: "be_val (as @ bs) = be_val as * 256 ^ length bs + be_val bs"
  by (induction as) (simp_all add: power_add algebra_simps)

lemma mp_val_le_words: "length bs mod 4 = 0 \<Longrightarrow> mp_val (le_words bs) = be_val (rev bs)"
proof (induction bs rule: le_words.induct)
  case (1 b0 b1 b2 b3 bs)
  then show ?case by (simp add: word_of_bytes be_val_append)
qed (auto split: nat.splits)

lemma length_le_words: "length (le_words bs) = length bs div 4"
  by (induction bs rule: le_words.induct) simp_all

lemma length_le_bytes: "length (le_bytes ws) = 4 * length ws"
  by (induction ws) (simp_all add: le_bytes_def)

section \<open>Private keys\<close>

lemma clamp_key_length: "clamp_key ks ms = (ks', e) \<Longrightarrow> length ks' = length ks"
  by (induction ks ms arbitrary: ks' rule: clamp_key.induct) (auto split: if_splits prod.splits)

lemma clamp_key_less:
  "clamp_key ks ms = (ks', False) \<Longrightarrow> length ks = length ms \<Longrightarrow> be_val ks' < be_val ms"
proof (induction ks ms arbitrary: ks' rule: clamp_key.induct)
  case (1 k ks m ms)
  show ?case
  proof (cases "k < m")
    case True
    then have k: "unat k + 1 \<le> unat m" by (simp add: word_less_nat_alt)
    have "be_val (k # ks) < (unat k + 1) * 256 ^ length ks" using be_val_bound [of ks] by simp
    also have "\<dots> \<le> unat m * 256 ^ length ks" using k by (intro mult_right_mono) simp_all
    finally show ?thesis using 1(2,3) True by (auto simp: trans_less_add1)
  next
    case False
    then obtain ks1 where "clamp_key ks ms = (ks1, False)" "ks' = m # ks1"
      using 1(2) by (auto split: prod.splits)
    then show ?thesis using 1 False clamp_key_length [of ks ms] by simp
  qed
qed auto

lemma generate_key_less:
  assumes "generate_private_key ms reads key = Some key'" and "length key = length ms"
    and "\<And>rd k. rd \<in> set reads \<Longrightarrow> length (rd k) = length k"
  shows "length key' = length ms \<and> be_val key' < be_val ms"
  using assms
proof (induction ms reads key rule: generate_private_key.induct)
  case (2 ms rd reads key)
  obtain k1 e where k1: "clamp_key (rd key) ms = (k1, e)" by force
  have l: "length (rd key) = length ms" using 2 by simp
  show ?case
  proof (cases e)
    case True
    then show ?thesis using 2 k1 clamp_key_length [OF k1] l by simp
  next
    case False
    then have "key' = k1" using 2(2) k1 by simp
    then show ?thesis using clamp_key_less [of "rd key" ms k1] clamp_key_length [OF k1] k1 l False by simp
  qed
qed simp

text \<open>The loop is left at the first read with a byte below its bound.\<close>

lemma clamp_key_ends: "snd (clamp_key ks ms) \<longleftrightarrow> (\<forall>(k, m) \<in> set (zip ks ms). m \<le> k)"
  by (induction ks ms rule: clamp_key.induct) (auto split: prod.splits simp: not_less)

section \<open>The properties\<close>

text \<open>
  The text of a dump is read back to the same bytes, in the order of the bytes and in reverse order.
\<close>

theorem hex_text_roundtrip:
  "char2bytes (length bs) (dump_hex bs) = Some bs \<and> char2bytes_bg (length bs) (dump_hex_bg bs) = Some bs"
  using char2bytes_hex [of bs] char2bytes_hex [of "rev bs"]
  by (simp add: dump_hex_def dump_hex_bg_def char2bytes_bg_def big2nd_rev)

text \<open>The reads fill the array, they do not change its length.\<close>

definition fills :: "(u8 list \<Rightarrow> u8 list) \<Rightarrow> bool" where
  "fills rd \<longleftrightarrow> (\<forall>k. length (rd k) = length k)"

lemma key_bound:
  assumes "generate_private_key ms reads key = Some key'" and "length key = length ms" and "list_all fills reads"
  shows "length key' = length ms \<and> be_val key' < be_val ms"
  using generate_key_less [OF assms(1,2)] assms(3) by (simp add: list_all_iff fills_def)

text \<open>
  Whatever the random device delivers, the private keys of both lengths are below their maximum.
\<close>

theorem private_keys_below_maximum:
  assumes "list_all fills reads" and "length key = 32" and "length key2 = 24"
  shows "(algo_p256_generate_private_key reads key = Some key' \<longrightarrow> length key' = 32 \<and> be_val key' < be_val max_p256_secret_key) \<and>
         (algo_p192_generate_private_key reads key2 = Some key' \<longrightarrow> length key' = 24 \<and> be_val key' < be_val max_p192_secret_key)"
  using key_bound [OF _ _ assms(1), of max_p256_secret_key key] key_bound [OF _ _ assms(1), of max_p192_secret_key key2] assms(2,3)
  by (simp add: algo_p256_generate_private_key_def algo_p192_generate_private_key_def max_p256_secret_key_def
      max_p192_secret_key_def del: be_val_simps)

theorem private_keys_below_maximum_witness:
  "\<exists>key'. algo_p256_generate_private_key [\<lambda>k. replicate (length k) 255, \<lambda>k. replicate (length k) 9] (replicate 32 0) = Some key' \<and>
     be_val key' < be_val max_p256_secret_key"
proof -
  let ?r = "[\<lambda>k. replicate (length k) 255, \<lambda>k. replicate (length k) (9 :: u8)]"
  have "algo_p256_generate_private_key ?r (replicate 32 0) = Some (replicate 32 9)" by code_simp
  then show ?thesis
    using private_keys_below_maximum [of ?r "replicate 32 0" "replicate 24 0" "replicate 32 9"] by (simp add: fills_def)
qed

text \<open>
  The loop does not reject a key above the maximum: it lowers its leading bytes. A first byte above
  the bound is replaced by the bound, which is so for 242 of its 256 values.
\<close>

lemma first_byte_lowered:
  "clamp_key (k # ks) (m # ms) = (ks', e) \<Longrightarrow> m \<le> k \<Longrightarrow> hd ks' = m"
  by (auto split: if_splits prod.splits)

lemma be_val_max_p256: "be_val max_p256_secret_key + 1 < 2 ^ 256"
  by (simp add: max_p256_secret_key_def)

lemma P256_mult_gives:
  assumes "number 8 (pt_x p)" and "number 8 (pt_y p)" and "length key = 32" and "be_val key < be_val max_p256_secret_key"
  shows "gives (\<lambda>(q, p, k'). point 8 q \<and> point 8 p \<and> mp_val k' = 0)
    (ECC_PointMult_Bin_NAF p (le_words (big2nd key)) KEY_LENGTH_DWORDS_P256)"
proof -
  have "mp_val (le_words (big2nd key)) + 1 < 2 ^ 256"
    using assms(3,4) be_val_max_p256 by (simp add: big2nd_rev mp_val_le_words)
  then show ?thesis
    using point_mult_gives [of 8 p "le_words (big2nd key)"] assms(1-3)
    by (simp add: number_def length_le_words big2nd_rev key_length_def KEY_LENGTH_DWORDS_P256_def)
qed

lemma key_exchange_gives:
  assumes "be_val key < be_val max_p256_secret_key" and "length key = 32"
  shows "number 8 (pt_x G) \<Longrightarrow> number 8 (pt_y G) \<Longrightarrow>
      gives (\<lambda>((x, y), _). length x = 32 \<and> length y = 32) (algo_p256_generate_public_key G key)"
    and "length px = 32 \<Longrightarrow> length py = 32 \<Longrightarrow> gives (\<lambda>k. length k = 32) (algo_p256_generate_dhkey key px py)"
proof -
  show "gives (\<lambda>((x, y), _). length x = 32 \<and> length y = 32) (algo_p256_generate_public_key G key)"
    if "number 8 (pt_x G)" "number 8 (pt_y G)"
    unfolding algo_p256_generate_public_key_def
    by (rule gives_bind [OF P256_mult_gives [OF that assms(2,1)]])
      (auto simp: gives_def big2nd_rev length_le_bytes point_def number_def)
  define peer where "peer = \<lparr>pt_x = le_words (big2nd px), pt_y = le_words (big2nd py),
      pt_z = multiprecision_init KEY_LENGTH_DWORDS_P256\<rparr>"
  assume "length px = 32" "length py = 32"
  then have p: "number 8 (pt_x peer)" "number 8 (pt_y peer)"
    by (simp_all add: peer_def number_def length_le_words big2nd_rev)
  show "gives (\<lambda>k. length k = 32) (algo_p256_generate_dhkey key px py)"
    unfolding algo_p256_generate_dhkey_def Let_def peer_def [symmetric]
    by (rule gives_bind [OF P256_mult_gives [OF p assms(2,1)]])
      (auto simp: gives_def big2nd_rev length_le_bytes point_def number_def)
qed

text \<open>
  C16. A pairing does not fail in the arithmetic: with any private key that the generator delivers, the
  public key and the shared key with any peer are computed, and have 32 bytes.
\<close>

theorem pairing_returns:
  assumes "algo_p256_generate_private_key reads k0 = Some key" and "list_all fills reads" and "length k0 = 32"
    and "length (pt_x G) = 8" and "length (pt_y G) = 8" and "length px = 32" and "length py = 32"
  shows "\<exists>x y G' dh. algo_p256_generate_public_key G key = Some ((x, y), G') \<and> length x = 32 \<and> length y = 32 \<and>
     algo_p256_generate_dhkey key px py = Some dh \<and> length dh = 32"
proof -
  have l: "length max_p256_secret_key = 32" by (simp add: max_p256_secret_key_def)
  have k: "be_val key < be_val max_p256_secret_key" "length key = 32"
    using key_bound [of max_p256_secret_key reads k0 key] assms(1-3) l
    by (simp_all add: algo_p256_generate_private_key_def)
  show ?thesis
    using key_exchange_gives(1) [OF k, of G] key_exchange_gives(2) [OF k assms(6,7)] assms(4,5)
    by (auto simp: gives_def number_def)
qed

theorem pairing_returns_witness:
  "\<exists>x y G' dh. algo_p256_generate_public_key (p_256_init_point 8) (replicate 32 9) = Some ((x, y), G') \<and>
     algo_p256_generate_dhkey (replicate 32 9) (replicate 32 1) (replicate 32 2) = Some dh \<and> length dh = 32"
proof -
  have k: "algo_p256_generate_private_key [\<lambda>k. replicate (length k) 9] (replicate 32 0) = Some (replicate 32 9)"
    by code_simp
  show ?thesis
    using pairing_returns [OF k, of "p_256_init_point 8" "replicate 32 1" "replicate 32 2"]
    by (auto simp: fills_def p_256_init_point_def multiprecision_init_def)
qed

text \<open>The equation of a curve at its base point, with the first \<open>n\<close> words of each number.\<close>

definition base_on_curve :: "nat \<Rightarrow> elliptic_curve_t \<Rightarrow> bool" where
  "base_on_curve n ec =
     (let v = (\<lambda>a. int (mp_val (take n a))); x = v (pt_x (ec_G ec)); y = v (pt_y (ec_G ec)); p = v (ec_p ec)
      in y * y mod p = (x * x * x - 3 * x + v (ec_b ec)) mod p)"

lemma curve_equation:
  fixes p x y b :: int
  assumes "x * x * x - 3 * x + b - y * y = p * k + r" and "0 \<le> r" and "r < p"
  shows "y * y mod p = (x * x * x - 3 * x + b) mod p \<longleftrightarrow> r = 0"
proof -
  have "y * y mod p = (x * x * x - 3 * x + b) mod p \<longleftrightarrow> p dvd x * x * x - 3 * x + b - y * y"
    by (metis mod_eq_dvd_iff)
  also have "\<dots> \<longleftrightarrow> p dvd r" unfolding assms(1) by (simp add: dvd_add_right_iff)
  also have "\<dots> \<longleftrightarrow> r = 0"
    using assms(2,3) zdvd_not_zless [of r p] by (cases "r = 0") simp_all
  finally show ?thesis .
qed

lemma base_P256: "base_on_curve 8 (snd (p_256_init_curve KEY_LENGTH_DWORDS_P256 (c, d)))"
proof -
  let ?ec = "snd (p_256_init_curve KEY_LENGTH_DWORDS_P256 (c, d))"
  have x: "int (mp_val (take 8 (pt_x (ec_G ?ec)))) = 48439561293906451759052585252797914202762949526041747995844080717082404635286"
    unfolding p_256_init_curve_def set_words_def curve_p_def curve_p256_p_def
    KEY_LENGTH_DWORDS_P192_def KEY_LENGTH_DWORDS_P256_def by simp
  have y: "int (mp_val (take 8 (pt_y (ec_G ?ec)))) = 36134250956749795798585127919587881956611106672985015071877198253568414405109"
    unfolding p_256_init_curve_def set_words_def curve_p_def curve_p256_p_def
    KEY_LENGTH_DWORDS_P192_def KEY_LENGTH_DWORDS_P256_def by simp
  have p: "int (mp_val (take 8 (ec_p ?ec))) = 115792089210356248762697446949407573530086143415290314195533631308867097853951"
    unfolding p_256_init_curve_def set_words_def curve_p_def curve_p256_p_def
    KEY_LENGTH_DWORDS_P192_def KEY_LENGTH_DWORDS_P256_def by simp
  have b: "int (mp_val (take 8 (ec_b ?ec))) = 41058363725152142129326129780047268409114441015993725554835256314039467401291"
    unfolding p_256_init_curve_def set_words_def curve_p_def curve_p256_p_def
    KEY_LENGTH_DWORDS_P192_def KEY_LENGTH_DWORDS_P256_def by simp
  show ?thesis
    unfolding base_on_curve_def Let_def x y p b
    by (subst curve_equation [where r = 0 and k = "981570988164258562257936101525215858910690391106138407341175333813841188485201771743408849884010754226965632845910189239885256093057339116530079505515608"])
      (simp_all only: arith_simps rel_simps simp_thms numeral_neq_zero mult_numeral_1_right add_0_right order.refl)
qed

lemma base_P192: "\<not> base_on_curve 6 (fst (p_256_init_curve KEY_LENGTH_DWORDS_P192 (c, d)))"
proof -
  let ?ec = "fst (p_256_init_curve KEY_LENGTH_DWORDS_P192 (c, d))"
  have x: "int (mp_val (take 6 (pt_x (ec_G ?ec)))) = 602046282375688656758213480587526111916698976636884684818"
    unfolding p_256_init_curve_def set_words_def curve_p_def curve_p256_p_def
    KEY_LENGTH_DWORDS_P192_def KEY_LENGTH_DWORDS_P256_def by simp
  have y: "int (mp_val (take 6 (pt_y (ec_G ?ec)))) = 174050332293622031404857552277718464406883514069823342609"
    unfolding p_256_init_curve_def set_words_def curve_p_def curve_p256_p_def
    KEY_LENGTH_DWORDS_P192_def KEY_LENGTH_DWORDS_P256_def by simp
  have p: "int (mp_val (take 6 (ec_p ?ec))) = 6277101733925179126845168872004148209363711369833414131711"
    unfolding p_256_init_curve_def set_words_def curve_p_def curve_p256_p_def
    KEY_LENGTH_DWORDS_P192_def KEY_LENGTH_DWORDS_P256_def by simp
  have b: "int (mp_val (take 6 (ec_b ?ec))) = 2455155546008943817740293915197451784769108058161191238065"
    unfolding p_256_init_curve_def set_words_def curve_p_def curve_p256_p_def
    KEY_LENGTH_DWORDS_P192_def KEY_LENGTH_DWORDS_P256_def by simp
  show ?thesis
    unfolding base_on_curve_def Let_def x y p b
    by (subst curve_equation [where r = 4748599856672982947893576937746498233660795236086978652464 and k = "34764058298357144537194680056912223043778822898096960952386093179870034868480643256472814789859403791287256635918"])
      (simp_all only: arith_simps rel_simps simp_thms numeral_neq_zero mult_numeral_1_right add_0_right order.refl)
qed

text \<open>
  The base point set for 256 bits is a point of its curve; the one for 192 bits is not, whatever the
  variables held before.
\<close>

theorem base_points:
  "base_on_curve 8 (snd (p_256_init_curve KEY_LENGTH_DWORDS_P256 cs)) \<and>
   \<not> base_on_curve 6 (fst (p_256_init_curve KEY_LENGTH_DWORDS_P192 cs))"
  by (cases cs) (simp only: base_P256 base_P192 simp_thms)

end
