(* ===== verification/Bt_Sitm.thy ===== *)
theory Bt_Sitm
  imports Prelude
begin

text \<open>
  The splitter of the Bluetooth tty driver, BT/tty-sdio/sitm.c: bytes written to the tty are
  collected in a fifo and cut into the packets of the host controller interface, which are
  passed to the bus. A frame given to the callback is a list of bytes, and the callback's
  result, which the code ignores, is left out.
\<close>

section \<open>The state of the parser\<close>

definition PREAMBLE_BUFFER_SIZE :: nat where "PREAMBLE_BUFFER_SIZE = 5"
definition HCI_HAL_SERIAL_BUFFER_SIZE :: nat where "HCI_HAL_SERIAL_BUFFER_SIZE = 1026"
definition BYTE_ALIGNMENT :: nat where "BYTE_ALIGNMENT = 4"

datatype receive_state_t = BRAND_NEW | PREAMBLE | BODY | IGNORE | FINISHED

definition DATA_TYPE_COMMAND :: u8 where "DATA_TYPE_COMMAND = 1"
definition DATA_TYPE_ACL :: u8 where "DATA_TYPE_ACL = 2"
definition DATA_TYPE_SCO :: u8 where "DATA_TYPE_SCO = 3"
definition DATA_TYPE_EVENT :: u8 where "DATA_TYPE_EVENT = 4"

text \<open>The kfifo has a list for its contents and its number of bytes, a power of two that the kernel chooses.\<close>

record packet_receive_data_t =
  rd_state :: receive_state_t
  bytes_remaining :: u16
  rd_type :: u8
  rd_preamble :: "u8 list"
  rd_index :: u16
  fifo_size :: nat
  fifo :: "u8 list"
  rd_buffer :: "u8 list"

definition preamble_sizes :: "u16 list" where
  "preamble_sizes = [3, 4, 3, 2]"

definition PACKET_TYPE_TO_INDEX :: "u8 \<Rightarrow> nat" where
  "PACKET_TYPE_TO_INDEX t = unat (t - 1)"

definition RETRIEVE_ACL_LENGTH :: "u8 list \<Rightarrow> u16" where
  "RETRIEVE_ACL_LENGTH p = push_bit 8 (ucast (p ! 4)) OR ucast (p ! 3)"

text \<open>\<open>mem\<close> is the allocated structure, \<open>None\<close> when there is no memory; the code clears it before any test.\<close>

definition sitm_init :: "packet_receive_data_t option \<Rightarrow> nat \<Rightarrow> packet_receive_data_t option option" where
  "sitm_init mem fsize =
     (case mem of None \<Rightarrow> None
      | Some rd \<Rightarrow> Some (Some \<lparr>rd_state = BRAND_NEW, bytes_remaining = 0, rd_type = 0,
          rd_preamble = replicate PREAMBLE_BUFFER_SIZE 0, rd_index = 0, fifo_size = fsize, fifo = [],
          rd_buffer = replicate (HCI_HAL_SERIAL_BUFFER_SIZE + BYTE_ALIGNMENT) 0\<rparr>))"

text \<open>The global \<open>rd\<close> and the return value.\<close>

definition sitm_cleanup :: "packet_receive_data_t option \<Rightarrow> packet_receive_data_t option \<times> int" where
  "sitm_cleanup rd = (case rd of None \<Rightarrow> (None, - 1) | Some _ \<Rightarrow> (None, 0))"

section \<open>Taking bytes\<close>

definition data_ready :: "nat \<Rightarrow> packet_receive_data_t \<Rightarrow> u8 list \<times> packet_receive_data_t" where
  "data_ready n rd = (take n (fifo rd), rd\<lparr>fifo := drop n (fifo rd)\<rparr>)"

text \<open>The case \<open>PREAMBLE\<close>; a header of known length, then the length of the body from its last bytes.\<close>

definition preamble_byte :: "u8 \<Rightarrow> packet_receive_data_t \<Rightarrow> packet_receive_data_t option" where
  "preamble_byte byte rd = do {
     p \<leftarrow> aset (rd_preamble rd) (unat (rd_index rd)) byte;
     let rd = rd\<lparr>rd_preamble := p, rd_index := rd_index rd + 1, bytes_remaining := bytes_remaining rd - 1\<rparr>;
     if bytes_remaining rd = 0 then do {
       let remaining = (if rd_type rd = DATA_TYPE_ACL then RETRIEVE_ACL_LENGTH p else ucast byte);
       header \<leftarrow> read_bytes p 0 (unat (rd_index rd));
       b \<leftarrow> memcpy_at (rd_buffer rd) 0 header;
       Some (rd\<lparr>bytes_remaining := remaining, rd_buffer := b,
                rd_state := if remaining > 0 then BODY else FINISHED\<rparr>) }
     else Some rd }"

definition new_byte :: "u8 \<Rightarrow> packet_receive_data_t \<Rightarrow> packet_receive_data_t option" where
  "new_byte byte rd =
     (if byte > DATA_TYPE_EVENT \<or> byte < DATA_TYPE_COMMAND then Some rd
      else do {
        n \<leftarrow> aget preamble_sizes (PACKET_TYPE_TO_INDEX byte);
        preamble_byte byte (rd\<lparr>rd_type := byte, bytes_remaining := n + 1,
          rd_preamble := replicate PREAMBLE_BUFFER_SIZE 0, rd_index := 0, rd_state := PREAMBLE\<rparr>) })"

definition body_byte :: "u8 \<Rightarrow> packet_receive_data_t \<Rightarrow> packet_receive_data_t option" where
  "body_byte byte rd = do {
     b \<leftarrow> aset (rd_buffer rd) (unat (rd_index rd)) byte;
     let rd = rd\<lparr>rd_buffer := b, rd_index := rd_index rd + 1, bytes_remaining := bytes_remaining rd - 1\<rparr>;
     let (bs, rd) = data_ready (unat (bytes_remaining rd)) rd;
     b \<leftarrow> memcpy_at (rd_buffer rd) (unat (rd_index rd)) bs;
     let bytes_read = (of_nat (length bs) :: u16);
     let rd = rd\<lparr>rd_buffer := b, rd_index := rd_index rd + bytes_read,
                 bytes_remaining := bytes_remaining rd - bytes_read\<rparr>;
     Some (rd\<lparr>rd_state := if bytes_remaining rd = 0 then FINISHED else rd_state rd\<rparr>) }"

text \<open>The result also tells whether the function returns.\<close>

definition ignore_byte :: "packet_receive_data_t \<Rightarrow> packet_receive_data_t \<times> bool" where
  "ignore_byte rd =
     (let rd = rd\<lparr>bytes_remaining := bytes_remaining rd - 1\<rparr> in
      if bytes_remaining rd = 0 then (rd\<lparr>rd_state := BRAND_NEW\<rparr>, True) else (rd, False))"

definition parse_switch :: "u8 \<Rightarrow> packet_receive_data_t \<Rightarrow> (packet_receive_data_t \<times> bool) option" where
  "parse_switch byte rd =
     (case rd_state rd of
        BRAND_NEW \<Rightarrow> map_option (\<lambda>rd. (rd, False)) (new_byte byte rd)
      | PREAMBLE \<Rightarrow> map_option (\<lambda>rd. (rd, False)) (preamble_byte byte rd)
      | BODY \<Rightarrow> map_option (\<lambda>rd. (rd, False)) (body_byte byte rd)
      | IGNORE \<Rightarrow> Some (ignore_byte rd)
      | FINISHED \<Rightarrow> Some (rd, False))"

text \<open>Zero bytes behind a command or data packet, at least one and up to a multiple of four.\<close>

fun pad_tail :: "nat \<Rightarrow> packet_receive_data_t \<Rightarrow> packet_receive_data_t option" where
  "pad_tail 0 rd = Some rd"
| "pad_tail (Suc n) rd = do {
     b \<leftarrow> aset (rd_buffer rd) (unat (rd_index rd)) 0;
     pad_tail n (rd\<lparr>rd_buffer := b, rd_index := rd_index rd + 1\<rparr>) }"

text \<open>The frame passed to \<open>frame_complete\<close>, if there is one.\<close>

definition finish_frame :: "packet_receive_data_t \<Rightarrow> (packet_receive_data_t \<times> u8 list list) option" where
  "finish_frame rd =
     (if rd_state rd = FINISHED then do {
        rd \<leftarrow> (if rd_type rd = DATA_TYPE_COMMAND \<or> rd_type rd = DATA_TYPE_ACL
               then pad_tail (BYTE_ALIGNMENT - (unat (rd_index rd) + BYTE_ALIGNMENT) mod BYTE_ALIGNMENT) rd
               else Some rd);
        frame \<leftarrow> read_bytes (rd_buffer rd) 0 (unat (rd_index rd));
        Some (rd\<lparr>rd_state := BRAND_NEW\<rparr>, [frame]) }
      else Some (rd, []))"

definition parse_byte :: "packet_receive_data_t \<Rightarrow> (packet_receive_data_t \<times> u8 list list \<times> bool) option" where
  "parse_byte rd = (case data_ready 1 rd of
       ([byte], rd) \<Rightarrow> do {
         (rd, ret) \<leftarrow> parse_switch byte rd;
         if ret then Some (rd, [], False)
         else do { (rd, fs) \<leftarrow> finish_frame rd; Some (rd, fs, True) } }
     | (_, rd) \<Rightarrow> Some (rd, [], False))"

partial_function (option) parse_frame :: "packet_receive_data_t \<Rightarrow> (packet_receive_data_t \<times> u8 list list) option" where
  "parse_frame rd = do {
     (rd, fs, more) \<leftarrow> parse_byte rd;
     if more then do { (rd, gs) \<leftarrow> parse_frame rd; Some (rd, fs @ gs) }
     else Some (rd, fs) }"

text \<open>The new state, the return value and the frames that are passed on.\<close>

definition sitm_write ::
  "packet_receive_data_t option \<Rightarrow> u8 list \<Rightarrow> (packet_receive_data_t option \<times> nat \<times> u8 list list) option" where
  "sitm_write rd buf =
     (case rd of None \<Rightarrow> Some (None, length buf, [])
      | Some rd \<Rightarrow>
         (let avail = fifo_size rd - length (fifo rd) in
          if avail = 0 then Some (Some rd, 0, [])
          else do {
            let n = (if avail < length buf then avail else length buf);
            (rd, fs) \<leftarrow> parse_frame (rd\<lparr>fifo := fifo rd @ take n buf\<rparr>);
            Some (Some rd, n, fs) }))"

end
