(* ===== verification/Bt_Hci.thy ===== *)
theory Bt_Hci
  imports Bt_Sitm
begin

text \<open>
  The host side of the Bluetooth tty driver, BT/tty-sdio/hci.c and the callers in tty.c and
  sdio.c: the packets received from the chip, the commands of the kernel itself, and the table
  of devices that may wake the host. A read behind the received bytes is a fault. Memory for
  the payloads is taken as available.
\<close>

section \<open>State\<close>

definition BD_ADDR_LEN :: nat where "BD_ADDR_LEN = 6"
definition WOBLE_DEVICES_SIZE :: nat where "WOBLE_DEVICES_SIZE = 10"
definition HCI_CMD_MAX_LEN :: nat where "HCI_CMD_MAX_LEN = 258"

definition HCI_CMD :: u8 where "HCI_CMD = 1"
definition HCI_ACL :: u8 where "HCI_ACL = 2"
definition HCI_EVT :: u8 where "HCI_EVT = 4"
definition BT_HCI_EVT_CMD_COMPLETE :: u8 where "BT_HCI_EVT_CMD_COMPLETE = 0x0e"
definition BT_HCI_EVT_CMD_STATUS :: u8 where "BT_HCI_EVT_CMD_STATUS = 0x0f"

record woble_dev_t =
  in_use :: u8
  wd_type :: u8
  handler :: u16
  bd_addr :: "u8 list"

text \<open>The global variables of the file; \<open>hci_wait\<close> is the count of the semaphore \<open>hci_cmd.wait\<close>.\<close>

record hci_globals =
  hci_opcode :: u16
  hci_wait :: nat
  own_public_addr :: "u8 list"
  own_addr :: "u8 list"
  woble_devices :: "woble_dev_t list"
  need_indicate_cp2_woble :: bool

definition empty_woble_dev :: woble_dev_t where
  "empty_woble_dev = \<lparr>in_use = 0, wd_type = 0, handler = 0, bd_addr = replicate BD_ADDR_LEN 0\<rparr>"

definition clear_woble_devices :: "hci_globals \<Rightarrow> hci_globals" where
  "clear_woble_devices g = g\<lparr>woble_devices := replicate WOBLE_DEVICES_SIZE empty_woble_dev\<rparr>"

definition hci_init :: "hci_globals \<Rightarrow> hci_globals" where
  "hci_init g = (clear_woble_devices (g\<lparr>hci_opcode := 0\<rparr>))\<lparr>hci_wait := 0\<rparr>"

definition hci_destroy :: "hci_globals \<Rightarrow> hci_globals" where
  "hci_destroy g = g\<lparr>hci_opcode := 0, hci_wait := 0\<rparr>"

section \<open>Received packets\<close>

definition STREAM_TO_UINT16 :: "u8 list \<Rightarrow> nat \<Rightarrow> u16 option" where
  "STREAM_TO_UINT16 p i = do { lo \<leftarrow> aget p i; hi \<leftarrow> aget p (i + 1); Some (ucast lo + push_bit 8 (ucast hi)) }"

text \<open>\<open>buf\<close> is what was received, the event starts at \<open>off\<close>. The flag tells that the event answers the command of the kernel.\<close>

definition recv_kernel_event :: "hci_globals \<Rightarrow> u8 list \<Rightarrow> nat \<Rightarrow> u8 \<Rightarrow> (hci_globals \<times> bool) option" where
  "recv_kernel_event g buf off pack_enum = do {
     (opcode, status, p) \<leftarrow>
       (if pack_enum = BT_HCI_EVT_CMD_STATUS
        then do { opcode \<leftarrow> STREAM_TO_UINT16 buf (off + 5); status \<leftarrow> aget buf (off + 3); Some (opcode, status, off + 7) }
        else do { opcode \<leftarrow> STREAM_TO_UINT16 buf (off + 4); status \<leftarrow> aget buf (off + 6); Some (opcode, status, off + 7) });
     let (g, ret) = (if hci_opcode g = opcode then (g\<lparr>hci_wait := hci_wait g + 1\<rparr>, True) else (g, False));
     if opcode = 0x1009 then do { a \<leftarrow> read_bytes buf p BD_ADDR_LEN; Some (g\<lparr>own_public_addr := a\<rparr>, ret) }
     else Some (g, ret) }"

text \<open>
  The loop over the packets of a buffer from the offset \<open>off\<close>, with the packets given to \<open>upper_cb\<close>. A
  packet that is longer than what is left is only reported, and read nevertheless.
\<close>

function recv_loop :: "hci_globals \<Rightarrow> u8 list \<Rightarrow> nat \<Rightarrow> (hci_globals \<times> u8 list list) option" where
  "recv_loop g buf off = do {
     t \<leftarrow> aget buf off;
     if t = HCI_EVT then do {
       len \<leftarrow> aget buf (off + 2);
       e \<leftarrow> aget buf (off + 1);
       (g, ret) \<leftarrow> (if e = BT_HCI_EVT_CMD_COMPLETE \<or> e = BT_HCI_EVT_CMD_STATUS then recv_kernel_event g buf off e else Some (g, False));
       up \<leftarrow> (if ret then Some [] else map_option (\<lambda>p. [p]) (read_bytes buf off (unat len + 3)));
       if off + (unat len + 3) = length buf then Some (g, up)
       else do { (g, ups) \<leftarrow> recv_loop g buf (off + (unat len + 3)); Some (g, up @ ups) } }
     else if t = HCI_ACL then do {
       hb \<leftarrow> aget buf (off + 4);
       lb \<leftarrow> aget buf (off + 3);
       let len = unat (push_bit 8 (ucast hb :: u32) OR ucast lb) + 5;
       p \<leftarrow> read_bytes buf off len;
       if off + len = length buf then Some (g, [p])
       else do { (g, ups) \<leftarrow> recv_loop g buf (off + len); Some (g, p # ups) } }
     else Some (g, []) }"
  by pat_completeness auto
termination
  by (relation "measure (\<lambda>(g, buf, off). length buf - off)") (auto simp: aget_eq_Some_iff)

declare recv_loop.simps [simp del]

text \<open>The return value is always the number of bytes.\<close>

definition rx_data_recv :: "hci_globals \<Rightarrow> u8 list \<Rightarrow> (hci_globals \<times> u8 list list) option" where
  "rx_data_recv g buf = recv_loop g buf 0"

section \<open>Commands\<close>

definition UINT16_TO_STREAM :: "u16 \<Rightarrow> u8 list" where
  "UINT16_TO_STREAM x = [ucast x, ucast (drop_bit 8 x)]"

definition BDADDR_TO_STREAM :: "u8 list \<Rightarrow> u8 list" where
  "BDADDR_TO_STREAM a = rev (take BD_ADDR_LEN a)"

text \<open>
  The bytes written to the bus: the command in an array of zeros, up to the next multiple of four. The
  length byte of a payload is the low byte of its length.
\<close>

definition hci_cmd_bytes :: "u16 \<Rightarrow> u8 list option \<Rightarrow> u8 list option" where
  "hci_cmd_bytes opcode py =
     (let cmd = HCI_CMD # UINT16_TO_STREAM opcode @
            (case py of None \<Rightarrow> [0] | Some d \<Rightarrow> of_nat (length d) # d) in do {
      msg_req \<leftarrow> memcpy_at (replicate (HCI_CMD_MAX_LEN + BYTE_ALIGNMENT) 0) 0 cmd;
      read_bytes msg_req 0 (length cmd + BYTE_ALIGNMENT - length cmd mod BYTE_ALIGNMENT) })"

text \<open>The function up to the wait, and from the wait on.\<close>

definition hci_cmd_start :: "hci_globals \<Rightarrow> u16 \<Rightarrow> u8 list option \<Rightarrow> (hci_globals \<times> u8 list) option" where
  "hci_cmd_start g opcode py = do { bs \<leftarrow> hci_cmd_bytes opcode py; Some (g\<lparr>hci_opcode := opcode\<rparr>, bs) }"

definition hci_cmd_finish :: "hci_globals \<Rightarrow> hci_globals option" where
  "hci_cmd_finish g = (if hci_wait g = 0 then None else Some (g\<lparr>hci_wait := hci_wait g - 1, hci_opcode := 0\<rparr>))"

section \<open>Devices that may wake the host\<close>

definition matches :: "u8 \<Rightarrow> u8 list \<Rightarrow> woble_dev_t \<Rightarrow> bool" where
  "matches ty addr d \<longleftrightarrow> in_use d \<noteq> 0 \<and> take BD_ADDR_LEN addr = bd_addr d \<and> wd_type d = ty"

definition del_woble_devices :: "u8 \<Rightarrow> u8 list \<Rightarrow> hci_globals \<Rightarrow> hci_globals" where
  "del_woble_devices ty addr g =
     g\<lparr>woble_devices := map (\<lambda>d. if matches ty addr d then empty_woble_dev else d) (woble_devices g)\<rparr>"

text \<open>The first element with a property is replaced; \<open>None\<close> when there is none.\<close>

fun replace_first :: "('a \<Rightarrow> bool) \<Rightarrow> 'a \<Rightarrow> 'a list \<Rightarrow> 'a list option" where
  "replace_first P y [] = None"
| "replace_first P y (x # xs) = (if P x then Some (y # xs) else map_option (\<lambda>ys. x # ys) (replace_first P y xs))"

definition update_woble_devices :: "u8 \<Rightarrow> u16 \<Rightarrow> u8 list \<Rightarrow> hci_globals \<Rightarrow> hci_globals \<times> int" where
  "update_woble_devices ty h addr g =
     (let dev = \<lparr>in_use = 1, wd_type = ty, handler = h, bd_addr = take BD_ADDR_LEN addr\<rparr> in
      case replace_first (matches ty addr) dev (woble_devices g) of
        Some ds \<Rightarrow> (g\<lparr>woble_devices := ds\<rparr>, 0)
      | None \<Rightarrow> (case replace_first (\<lambda>d. in_use d = 0) dev (woble_devices g) of
            Some ds \<Rightarrow> (g\<lparr>woble_devices := ds\<rparr>, 0)
          | None \<Rightarrow> (g, - 1)))"

definition set_random_address :: "u8 list \<Rightarrow> hci_globals \<Rightarrow> hci_globals" where
  "set_random_address addr g = g\<lparr>own_addr := take BD_ADDR_LEN addr\<rparr>"

text \<open>The file \<open>woble_set\<close> of the device; \<open>buf\<close> is the page that the kernel passes.\<close>

definition woble_set_store :: "u8 list \<Rightarrow> hci_globals \<Rightarrow> hci_globals option" where
  "woble_set_store buf g = do {
     opcode \<leftarrow> aget buf 0;
     if opcode = 0 then Some (clear_woble_devices g)
     else if opcode = 1 then do { a \<leftarrow> read_bytes buf 1 BD_ADDR_LEN; Some (set_random_address a g) }
     else if opcode = 2 then do {
       ty \<leftarrow> aget buf 1; h \<leftarrow> STREAM_TO_UINT16 buf 2; a \<leftarrow> read_bytes buf 4 BD_ADDR_LEN;
       Some (fst (update_woble_devices ty h a g)) }
     else if opcode = 3 then do { ty \<leftarrow> aget buf 1; a \<leftarrow> read_bytes buf 2 BD_ADDR_LEN; Some (del_woble_devices ty a g) }
     else if opcode = 4 then Some (g\<lparr>need_indicate_cp2_woble := True\<rparr>)
     else if opcode = 5 then Some (g\<lparr>need_indicate_cp2_woble := False\<rparr>)
     else Some g }"

section \<open>Command sequences\<close>

text \<open>The commands a function sends, one after the other: operation code and payload.\<close>

definition BT_HCI_OP_RESET :: u16 where "BT_HCI_OP_RESET = 0x0c03"
definition BT_HCI_OP_ENABLE :: u16 where "BT_HCI_OP_ENABLE = 0xfca1"
definition BT_HCI_OP_WOBLE :: u16 where "BT_HCI_OP_WOBLE = 0xfd08"
definition BT_HCI_OP_SET_SLEEPMODE :: u16 where "BT_HCI_OP_SET_SLEEPMODE = 0xfd09"
definition BT_HCI_OP_ADD_WAKEUPLIST :: u16 where "BT_HCI_OP_ADD_WAKEUPLIST = 0xfd0a"
definition BT_HCI_OP_SET_STARTSLEEP :: u16 where "BT_HCI_OP_SET_STARTSLEEP = 0xfd0d"
definition BT_HCI_OP_LE_SET_EX_SCAN_PARAMETERS :: u16 where "BT_HCI_OP_LE_SET_EX_SCAN_PARAMETERS = 0x2041"
definition BT_HCI_OP_LE_SET_EX_SCAN_ENABLE :: u16 where "BT_HCI_OP_LE_SET_EX_SCAN_ENABLE = 0x2042"
definition UNISOC_WOBLE_UUID :: u16 where "UNISOC_WOBLE_UUID = 0xfd01"

text \<open>
  The loop over the devices: the payload so far, in an allocation of \<open>WOBLE_PAYLOAD\<close> bytes, with the number of
  devices in byte 6, and the commands that disconnect a device with a connection handle.
\<close>

definition WOBLE_PAYLOAD :: nat where "WOBLE_PAYLOAD = 100"

fun woble_loop :: "woble_dev_t list \<Rightarrow> u8 list \<Rightarrow> ((u16 \<times> u8 list) list \<times> u8 list) option" where
  "woble_loop [] payload = Some ([], payload)"
| "woble_loop (d # ds) payload =
     (if in_use d \<noteq> 0 then do {
        let disc = (if handler d \<noteq> 0 \<and> handler d \<noteq> 0xffff then [(0x0406, UINT16_TO_STREAM (handler d) @ [0x13])] else []);
        let payload = payload @ wd_type d # BDADDR_TO_STREAM (bd_addr d);
        if WOBLE_PAYLOAD < length payload then None
        else do {
          num \<leftarrow> aget payload BD_ADDR_LEN;
          (cmds, payload) \<leftarrow> woble_loop ds (payload[BD_ADDR_LEN := num + 1]);
          Some (disc @ cmds, payload) } }
      else woble_loop ds payload)"

definition hci_woble_enable :: "hci_globals \<Rightarrow> (u16 \<times> u8 list option) list option" where
  "hci_woble_enable g = do {
     (cmds, payload) \<leftarrow> woble_loop (woble_devices g) (BDADDR_TO_STREAM (own_addr g) @ [0]);
     Some ([(BT_HCI_OP_ENABLE, Some [0, 0, 1]), (BT_HCI_OP_RESET, None)] @
           map (\<lambda>(op, d). (op, Some d)) cmds @ [(BT_HCI_OP_WOBLE, Some payload)]) }"

text \<open>\<open>s_woble_config_cust\<close> has the timeout 0 and asks for no notification.\<close>

definition hci_set_ap_sleep_mode :: "bool \<Rightarrow> u16 \<times> u8 list option" where
  "hci_set_ap_sleep_mode is_resume =
     (BT_HCI_OP_SET_SLEEPMODE, Some ([if is_resume then 0 else 1, 0] @ UINT16_TO_STREAM 0 @ [0, 0]))"

definition hci_set_scan_parameters :: "u16 \<times> u8 list option" where
  "hci_set_scan_parameters = (BT_HCI_OP_LE_SET_EX_SCAN_PARAMETERS, Some [0, 0, 1, 1, 0x40, 0x1f, 0x40, 0x1f])"

definition hci_set_scan_enable :: "u8 \<Rightarrow> u16 \<times> u8 list option" where
  "hci_set_scan_enable enable = (BT_HCI_OP_LE_SET_EX_SCAN_ENABLE, Some [enable, 0, 0, 0, 0, 0])"

text \<open>\<open>WOBLE_TYPE\<close> is a string of the build; for another value than these two the length of the payload is not set.\<close>

definition hci_add_device_to_wakeup_list :: "string \<Rightarrow> hci_globals \<Rightarrow> (u16 \<times> u8 list option) option" where
  "hci_add_device_to_wakeup_list WOBLE_TYPE g =
     (let address = replicate 6 0xff in
      if WOBLE_TYPE = ''chuangwei'' then
        Some (BT_HCI_OP_ADD_WAKEUPLIST, Some (0xFF # address @ UINT16_TO_STREAM 0x10 @ [1, 2] @
          [1, 0xff, 0, 0, 0, 0, 3, 3, 0, 1] @ [1, 0xff, 4, 0, 0, 0, 6] @ take BD_ADDR_LEN (own_public_addr g)))
      else if WOBLE_TYPE = ''public'' then
        Some (BT_HCI_OP_ADD_WAKEUPLIST, Some (0xFF # address @ UINT16_TO_STREAM 8 @ [1] @
          [5, 0x16, ucast (UNISOC_WOBLE_UUID AND 0xff), ucast (drop_bit 8 UNISOC_WOBLE_UUID AND 0xff), 0, 1]))
      else None)"

definition hci_set_ap_start_sleep :: "u16 \<times> u8 list option" where
  "hci_set_ap_start_sleep = (BT_HCI_OP_SET_STARTSLEEP, None)"

text \<open>The power notification of the bus; \<open>powered\<close> is the bit of Bluetooth in the power state. The second list goes to \<open>recv\<close>.\<close>

definition bt_tx_powerchange ::
  "string \<Rightarrow> bool \<Rightarrow> bool \<Rightarrow> hci_globals \<Rightarrow> ((u16 \<times> u8 list option) list \<times> u8 list list) option" where
  "bt_tx_powerchange WOBLE_TYPE powered is_resume g =
     (if WOBLE_TYPE \<noteq> ''disable'' \<and> powered then
        (if \<not> is_resume then do {
           wake \<leftarrow> hci_add_device_to_wakeup_list WOBLE_TYPE g;
           Some ([hci_set_ap_sleep_mode False, hci_set_scan_parameters, hci_set_scan_enable 1, wake, hci_set_ap_start_sleep], []) }
         else Some ([hci_set_ap_sleep_mode True], [[4, 0x10, 1, 0]]))
      else Some ([], []))"

end
