(* ===== verification/Bt_Sitm_Correct.thy ===== *)
theory Bt_Sitm_Correct
  imports Bt_Sitm
begin

text \<open>
  The splitter of the tty driver refines the cutting of a byte stream into packets, however
  the stream is divided into writes.
\<close>

section \<open>The packets of a byte stream\<close>

text \<open>The specification does not know of states, buffers or writes: it cuts a stream of bytes into packets.\<close>

definition valid_type :: "u8 \<Rightarrow> bool" where
  "valid_type t \<longleftrightarrow> t = DATA_TYPE_COMMAND \<or> t = DATA_TYPE_ACL \<or> t = DATA_TYPE_SCO \<or> t = DATA_TYPE_EVENT"

definition header_len :: "u8 \<Rightarrow> nat" where
  "header_len t = (if t = DATA_TYPE_ACL then 5 else if t = DATA_TYPE_EVENT then 3 else 4)"

definition packet_len :: "u8 list \<Rightarrow> nat" where
  "packet_len s = header_len (hd s) +
     (if hd s = DATA_TYPE_ACL then unat (s ! 3) + 256 * unat (s ! 4) else unat (s ! (header_len (hd s) - 1)))"

definition MAX_PACKET :: nat where "MAX_PACKET = 1027"

definition padded :: "u8 list \<Rightarrow> u8 list" where
  "padded f = (if hd f = DATA_TYPE_COMMAND \<or> hd f = DATA_TYPE_ACL then f @ replicate (4 - length f mod 4) 0 else f)"

text \<open>
  The packets and what is left of the stream; bytes that start no packet are skipped. There is no
  result for a stream with a packet that the buffer cannot hold.
\<close>

function hci_packets :: "u8 list \<Rightarrow> (u8 list list \<times> u8 list) option" where
  "hci_packets s =
     (if s = [] then Some ([], [])
      else if \<not> valid_type (hd s) then hci_packets (tl s)
      else if length s < header_len (hd s) then Some ([], s)
      else if MAX_PACKET < packet_len s then None
      else if length s < packet_len s then Some ([], s)
      else do { (fs, r) \<leftarrow> hci_packets (drop (packet_len s) s); Some (padded (take (packet_len s) s) # fs, r) })"
  by pat_completeness auto
termination
  by (relation "measure length") (auto simp: packet_len_def header_len_def)

declare hci_packets.simps [simp del]

lemma hci_packets_Nil [simp]: "hci_packets [] = Some ([], [])"
  by (simp add: hci_packets.simps)

lemma header_len_bounds: "3 \<le> header_len t \<and> header_len t \<le> 5"
  by (simp add: header_len_def)

lemma packet_len_append:
  assumes "header_len (hd h) \<le> length h"
  shows "packet_len (h @ f) = packet_len h"
  using assms header_len_bounds [of "hd h"]
  by (cases h) (auto simp: packet_len_def nth_append header_len_def)

lemma packet_len_ge: "header_len (hd s) \<le> packet_len s"
  by (simp add: packet_len_def)

lemma packets_skip: "\<not> valid_type b \<Longrightarrow> hci_packets (b # f) = hci_packets f"
  by (subst hci_packets.simps) simp

lemma packets_short: "valid_type (hd p) \<Longrightarrow> length p < header_len (hd p) \<Longrightarrow> hci_packets p = Some ([], p)"
  by (subst hci_packets.simps) simp

lemma packets_partial:
  "valid_type (hd p) \<Longrightarrow> length p < packet_len p \<Longrightarrow> packet_len p \<le> MAX_PACKET \<Longrightarrow> hci_packets p = Some ([], p)"
  by (subst hci_packets.simps) simp

lemma packets_big:
  assumes "valid_type (hd h)" and "header_len (hd h) \<le> length h" and "MAX_PACKET < packet_len h"
  shows "hci_packets (h @ f) = None"
proof -
  have "h \<noteq> []" using assms(2) header_len_bounds [of "hd h"] by auto
  then show ?thesis using assms by (subst hci_packets.simps) (simp add: packet_len_append)
qed

lemma packets_full:
  assumes "valid_type (hd h)" and "header_len (hd h) \<le> length h" and "packet_len h = length h" and "length h \<le> MAX_PACKET"
  shows "hci_packets (h @ f) = map_option (\<lambda>(gs, r). (padded h # gs, r)) (hci_packets f)"
proof -
  have h: "h \<noteq> []" using assms(2) header_len_bounds [of "hd h"] by auto
  show ?thesis
    using h assms by (subst hci_packets.simps) (simp add: packet_len_append map_option_case split: option.split)
qed

text \<open>A stream can be cut anywhere.\<close>

lemma packets_append:
  "hci_packets (a @ b) = do { (fs, r) \<leftarrow> hci_packets a; (gs, r') \<leftarrow> hci_packets (r @ b); Some (fs @ gs, r') }"
proof (induction a rule: hci_packets.induct)
  case (1 s)
  consider "s = []" | "s \<noteq> []" "\<not> valid_type (hd s)" | "s \<noteq> []" "valid_type (hd s)" "length s < header_len (hd s)"
    | "s \<noteq> []" "valid_type (hd s)" "header_len (hd s) \<le> length s" "MAX_PACKET < packet_len s"
    | "s \<noteq> []" "valid_type (hd s)" "header_len (hd s) \<le> length s" "packet_len s \<le> MAX_PACKET" "length s < packet_len s"
    | "s \<noteq> []" "valid_type (hd s)" "header_len (hd s) \<le> length s" "packet_len s \<le> MAX_PACKET" "packet_len s \<le> length s"
    by linarith
  then show ?case
  proof cases
    case 2
    then show ?thesis using 1(1) [OF 2] by (cases s) (simp_all add: packets_skip)
  next
    case 3
    then show ?thesis by (simp add: packets_short)
  next
    case 4
    then show ?thesis using packets_big [of s b] packets_big [of s "[]"] by simp
  next
    case 5
    then show ?thesis by (simp add: packets_partial)
  next
    case 6
    define h where "h = take (packet_len s) s"
    have s: "s = h @ drop (packet_len s) s" by (simp add: h_def)
    have l: "length h = packet_len s" "hd h = hd s" using 6 packet_len_ge [of s] header_len_bounds [of "hd s"]
      by (auto simp: h_def)
    have "packet_len h = length h" using packet_len_append [of h "drop (packet_len s) s"] s l packet_len_ge [of s] by simp
    then have f: "hci_packets (h @ x) = map_option (\<lambda>(gs, r). (padded h # gs, r)) (hci_packets x)" for x
      using l 6 packet_len_ge [of s] by (intro packets_full) simp_all
    have IH: "hci_packets (drop (packet_len s) s @ b) = do {
        (fs, r) \<leftarrow> hci_packets (drop (packet_len s) s); (gs, r') \<leftarrow> hci_packets (r @ b); Some (fs @ gs, r') }"
      using 1(2) 6 by simp
    have "hci_packets (s @ b) = hci_packets (h @ (drop (packet_len s) s @ b))" using s by (metis append.assoc)
    moreover have "hci_packets s = hci_packets (h @ drop (packet_len s) s)" using s by simp
    ultimately show ?thesis
      unfolding f IH by (cases "hci_packets (drop (packet_len s) s)") (auto simp: map_option_case split: option.splits Option.bind_splits)
  qed simp
qed


section \<open>The state stands for the bytes of an unfinished packet\<close>

definition pend :: "packet_receive_data_t \<Rightarrow> u8 list" where
  "pend rd = (case rd_state rd of
       PREAMBLE \<Rightarrow> take (unat (rd_index rd)) (rd_preamble rd)
     | BODY \<Rightarrow> take (unat (rd_index rd)) (rd_buffer rd)
     | _ \<Rightarrow> [])"

definition buffers :: "packet_receive_data_t \<Rightarrow> bool" where
  "buffers rd \<longleftrightarrow> length (rd_preamble rd) = 5 \<and> length (rd_buffer rd) = 1030"

definition in_header :: "packet_receive_data_t \<Rightarrow> bool" where
  "in_header rd \<longleftrightarrow> valid_type (rd_type rd) \<and> 0 < unat (bytes_remaining rd) \<and>
     unat (rd_index rd) + unat (bytes_remaining rd) = header_len (rd_type rd)"

definition in_body :: "packet_receive_data_t \<Rightarrow> bool" where
  "in_body rd \<longleftrightarrow> valid_type (rd_type rd) \<and> hd (pend rd) = rd_type rd \<and> header_len (rd_type rd) \<le> unat (rd_index rd) \<and>
     0 < unat (bytes_remaining rd) \<and> packet_len (pend rd) = unat (rd_index rd) + unat (bytes_remaining rd) \<and>
     packet_len (pend rd) \<le> MAX_PACKET"

definition sitm_ok :: "packet_receive_data_t \<Rightarrow> bool" where
  "sitm_ok rd \<longleftrightarrow> buffers rd \<and> (case rd_state rd of
       BRAND_NEW \<Rightarrow> True
     | PREAMBLE \<Rightarrow> in_header rd \<and> 0 < unat (rd_index rd) \<and> hd (pend rd) = rd_type rd
     | BODY \<Rightarrow> in_body rd
     | _ \<Rightarrow> False)"

lemma length_take_buffer: "n \<le> length xs \<Longrightarrow> length (take n xs) = n"
  by simp

lemma pend_packets: "sitm_ok rd \<Longrightarrow> hci_packets (pend rd) = Some ([], pend rd)"
proof -
  assume ok: "sitm_ok rd"
  consider "rd_state rd = BRAND_NEW" | "rd_state rd = PREAMBLE" | "rd_state rd = BODY"
    using ok by (auto simp: sitm_ok_def split: receive_state_t.splits)
  then show ?thesis
  proof cases
    case 2
    then have h: "in_header rd" "hd (pend rd) = rd_type rd" "length (pend rd) \<le> unat (rd_index rd)"
      using ok by (auto simp: sitm_ok_def pend_def)
    then have "length (pend rd) < header_len (rd_type rd)" by (simp add: in_header_def)
    then show ?thesis using h by (intro packets_short) (simp_all add: in_header_def)
  next
    case 3
    then have h: "in_body rd" "length (pend rd) \<le> unat (rd_index rd)"
      using ok by (auto simp: sitm_ok_def pend_def)
    then show ?thesis by (intro packets_partial) (auto simp: in_body_def)
  qed (simp add: pend_def)
qed

section \<open>Padding\<close>

lemma pad_tail_Some:
  assumes "unat (rd_index rd) + n \<le> length (rd_buffer rd)" and "length (rd_buffer rd) < 65536"
  shows "\<exists>rd'. pad_tail n rd = Some rd' \<and> rd_state rd' = rd_state rd \<and> rd_preamble rd' = rd_preamble rd \<and>
     fifo rd' = fifo rd \<and> fifo_size rd' = fifo_size rd \<and> length (rd_buffer rd') = length (rd_buffer rd) \<and>
     unat (rd_index rd') = unat (rd_index rd) + n \<and>
     take (unat (rd_index rd) + n) (rd_buffer rd') = take (unat (rd_index rd)) (rd_buffer rd) @ replicate n 0"
  using assms
proof (induction n arbitrary: rd)
  case (Suc n)
  let ?b = "(rd_buffer rd)[unat (rd_index rd) := 0]"
  let ?rd = "rd\<lparr>rd_buffer := ?b, rd_index := rd_index rd + 1\<rparr>"
  have i: "unat (rd_index ?rd) = unat (rd_index rd) + 1"
    using Suc.prems by (simp add: unat_word_ariths)
  obtain rd' where rd': "pad_tail n ?rd = Some rd'" "rd_state rd' = rd_state rd" "rd_preamble rd' = rd_preamble rd"
      "fifo rd' = fifo rd" "fifo_size rd' = fifo_size rd" "length (rd_buffer rd') = length (rd_buffer rd)"
      "unat (rd_index rd') = unat (rd_index rd) + 1 + n"
      "take (unat (rd_index rd) + 1 + n) (rd_buffer rd') = take (unat (rd_index rd) + 1) ?b @ replicate n 0"
    using Suc.IH [of ?rd] Suc.prems unfolding i by auto
  have "take (unat (rd_index rd) + 1) ?b = take (unat (rd_index rd)) (rd_buffer rd) @ [0]"
    using Suc.prems(1) by (simp add: take_Suc_conv_app_nth)
  moreover have "pad_tail (Suc n) rd = pad_tail n ?rd" using Suc.prems(1) by simp
  ultimately show ?case using rd' by simp
qed simp

text \<open>A finished packet of at most \<open>MAX_PACKET\<close> bytes is passed on with its padding.\<close>

lemma finish_frame_Some:
  assumes "rd_state rd = FINISHED" and "buffers rd" and "take (unat (rd_index rd)) (rd_buffer rd) = h"
    and "unat (rd_index rd) = length h" and "hd h = rd_type rd" and "length h \<le> MAX_PACKET"
  shows "\<exists>rd'. finish_frame rd = Some (rd', [padded h]) \<and> rd_state rd' = BRAND_NEW \<and> buffers rd' \<and>
     fifo rd' = fifo rd \<and> fifo_size rd' = fifo_size rd"
proof (cases "rd_type rd = DATA_TYPE_COMMAND \<or> rd_type rd = DATA_TYPE_ACL")
  case True
  let ?n = "4 - length h mod 4"
  have n: "unat (rd_index rd) + ?n \<le> length (rd_buffer rd)"
  proof -
    have "length h + (4 - length h mod 4) \<le> 1030" using assms(6) unfolding MAX_PACKET_def by presburger
    then show ?thesis using assms(2,4) by (simp add: buffers_def)
  qed
  obtain rd' where rd': "pad_tail ?n rd = Some rd'" "rd_preamble rd' = rd_preamble rd"
      "fifo rd' = fifo rd" "fifo_size rd' = fifo_size rd" "length (rd_buffer rd') = length (rd_buffer rd)"
      "unat (rd_index rd') = length h + ?n" "take (length h + ?n) (rd_buffer rd') = h @ replicate ?n 0"
    using pad_tail_Some [OF n] assms(2-4) by (auto simp: buffers_def)
  then show ?thesis
    using assms True n by (simp add: finish_frame_def BYTE_ALIGNMENT_def read_bytes_def padded_def buffers_def)
next
  case False
  then show ?thesis
    using assms by (auto simp: finish_frame_def read_bytes_def padded_def buffers_def MAX_PACKET_def)
qed


section \<open>One byte\<close>

lemma unat_dec: "0 < unat (x :: u16) \<Longrightarrow> unat (x - 1) = unat x - 1"
  by (rule unat_minus_one) auto

lemma unat_inc_small: "unat (x :: u16) < 65535 \<Longrightarrow> unat (x + 1) = unat x + 1"
  by (simp add: unat_word_ariths)

lemma acl_length: "unat (RETRIEVE_ACL_LENGTH p) = unat (p ! 3) + 256 * unat (p ! 4)"
proof -
  have b: "unat (x :: u8) < 256" for x using unsigned_less [of x] by simp
  have u: "unat (ucast x :: u16) = unat x" for x :: u8
    using b [of x] by (simp add: unsigned_ucast_eq take_bit_nat_eq_self)
  have s: "unat (push_bit m (ucast x) :: u16) = push_bit m (unat x)" if "m \<le> 8" for m and x :: u8
  proof -
    have "push_bit m (unat x) < 2 ^ m * 256" using b [of x] by (simp add: push_bit_eq_mult)
    also have "\<dots> \<le> 2 ^ 8 * 256" using that by (intro mult_right_mono power_increasing) simp_all
    finally show ?thesis by (simp add: unsigned_push_bit_eq u take_bit_nat_eq_self)
  qed
  have "unat (RETRIEVE_ACL_LENGTH p) = unat (p ! 3) OR push_bit 8 (unat (p ! 4))"
    unfolding RETRIEVE_ACL_LENGTH_def unsigned_or_eq by (simp only: s order.refl u or.commute)
  also have "\<dots> = unat (p ! 3) + push_bit 8 (unat (p ! 4))"
    using b [of "p ! 3"] by (intro or_push_bit) simp
  finally show ?thesis by (simp add: push_bit_eq_mult)
qed

text \<open>
  A step reads from a state and leads to another; \<open>packs\<close> says that it passes on the packets of
  the bytes that it consumes.
\<close>

definition packs :: "packet_receive_data_t \<Rightarrow> u8 list \<Rightarrow> u8 list list \<Rightarrow> packet_receive_data_t \<Rightarrow> bool" where
  "packs rd bs fs rd' \<longleftrightarrow> sitm_ok rd' \<and> fifo_size rd' = fifo_size rd \<and> length (fifo rd') < length bs \<and>
     hci_packets (pend rd @ bs) = map_option (\<lambda>(gs, r). (fs @ gs, r)) (hci_packets (pend rd' @ fifo rd'))"

text \<open>After the step of the state machine: a packet is unfinished, or it is complete.\<close>

definition advanced :: "packet_receive_data_t \<Rightarrow> u8 list \<Rightarrow> packet_receive_data_t \<Rightarrow> bool" where
  "advanced rd bs rd' \<longleftrightarrow> buffers rd' \<and> fifo_size rd' = fifo_size rd \<and> length (fifo rd') < length bs \<and>
     (if rd_state rd' = FINISHED
      then (\<exists>h. pend rd @ bs = h @ fifo rd' \<and> take (unat (rd_index rd')) (rd_buffer rd') = h \<and>
              unat (rd_index rd') = length h \<and> hd h = rd_type rd' \<and> valid_type (hd h) \<and>
              header_len (hd h) \<le> length h \<and> packet_len h = length h \<and> length h \<le> MAX_PACKET)
      else sitm_ok rd' \<and> hci_packets (pend rd @ bs) = hci_packets (pend rd' @ fifo rd'))"

lemma advanced_finish:
  assumes "advanced rd bs rd1"
  shows "\<exists>rd' fs. finish_frame rd1 = Some (rd', fs) \<and> packs rd bs fs rd'"
proof (cases "rd_state rd1 = FINISHED")
  case True
  then obtain h where h: "pend rd @ bs = h @ fifo rd1" "take (unat (rd_index rd1)) (rd_buffer rd1) = h"
      "unat (rd_index rd1) = length h" "hd h = rd_type rd1" "valid_type (hd h)"
      "header_len (hd h) \<le> length h" "packet_len h = length h" "length h \<le> MAX_PACKET"
      and b: "buffers rd1" "fifo_size rd1 = fifo_size rd" "length (fifo rd1) < length bs"
    using assms unfolding advanced_def if_P [OF True] by blast
  obtain rd' where rd': "finish_frame rd1 = Some (rd', [padded h])" "rd_state rd' = BRAND_NEW" "buffers rd'"
      "fifo rd' = fifo rd1" "fifo_size rd' = fifo_size rd1"
    using finish_frame_Some [OF True b(1) h(2,3,4,8)] by blast
  have "hci_packets (pend rd @ bs) = map_option (\<lambda>(gs, r). ([padded h] @ gs, r)) (hci_packets (pend rd' @ fifo rd'))"
    using packets_full [OF h(5,6,7,8), of "fifo rd1"] h(1) rd'(2,4) by (simp add: pend_def)
  then show ?thesis using rd' b by (auto simp: packs_def sitm_ok_def)
next
  case False
  then have "finish_frame rd1 = Some (rd1, [])" by (simp add: finish_frame_def)
  then show ?thesis using assms False by (auto simp: advanced_def packs_def option.map_id)
qed


text \<open>The length of a packet is known from its complete header.\<close>

lemma header_packet_len:
  assumes "length h = header_len t" and "hd h = t" and "last h = byte" and "take (length h) P = h" and "length P = 5"
  shows "packet_len h = length h + unat (if t = DATA_TYPE_ACL then RETRIEVE_ACL_LENGTH P else ucast byte)"
proof (cases "t = DATA_TYPE_ACL")
  case True
  then have "h = P" using assms(1,4,5) by (simp add: header_len_def)
  then show ?thesis using True assms(1,2) by (simp add: packet_len_def acl_length header_len_def)
next
  case False
  have "h \<noteq> []" using assms(1) header_len_bounds [of t] by auto
  then have "h ! (header_len t - 1) = byte" using assms(1,3) by (simp add: last_conv_nth)
  moreover have "unat (ucast byte :: u16) = unat byte" by simp
  ultimately show ?thesis using False assms(1,2) by (simp add: packet_len_def)
qed

lemma preamble_byte_advances:
  assumes buf: "buffers rd" and st: "rd_state rd = PREAMBLE" and hdr: "in_header rd"
    and h0: "hd (pend rd @ [byte]) = rd_type rd" and fit: "hci_packets (pend rd @ byte # fifo rd) \<noteq> None"
  shows "\<exists>rd'. preamble_byte byte rd = Some rd' \<and> advanced rd (byte # fifo rd) rd'"
proof -
  define i where "i = unat (rd_index rd)"
  define P where "P = (rd_preamble rd)[i := byte]"
  define h where "h = pend rd @ [byte]"
  define rd1 where "rd1 = rd\<lparr>rd_preamble := P, rd_index := rd_index rd + 1, bytes_remaining := bytes_remaining rd - 1\<rparr>"
  have i: "i + unat (bytes_remaining rd) = header_len (rd_type rd)" "0 < unat (bytes_remaining rd)" "valid_type (rd_type rd)"
    using hdr by (simp_all add: in_header_def i_def)
  then have i5: "i < 5" using header_len_bounds [of "rd_type rd"] by simp
  have len: "length h = i + 1" "pend rd = take i (rd_preamble rd)"
    using buf st i5 by (simp_all add: h_def pend_def i_def buffers_def)
  have tk: "take (i + 1) P = h" "length P = 5"
    using buf i5 len(2) by (simp_all add: P_def h_def buffers_def take_Suc_conv_app_nth)
  have idx: "unat (rd_index rd1) = i + 1" using i5 by (simp add: rd1_def i_def unat_inc_small)
  have rem: "unat (bytes_remaining rd1) = unat (bytes_remaining rd) - 1"
    using i(2) by (simp add: rd1_def unat_dec)
  have fs: "rd_state rd1 = PREAMBLE" "rd_type rd1 = rd_type rd" "fifo rd1 = fifo rd" "fifo_size rd1 = fifo_size rd"
      "rd_preamble rd1 = P" "rd_buffer rd1 = rd_buffer rd" using st by (simp_all add: rd1_def)
  have hh: "hd h = rd_type rd" "pend rd @ byte # fifo rd = h @ fifo rd" using h0 by (simp_all add: h_def)
  have step: "preamble_byte byte rd = (if bytes_remaining rd1 = 0 then do {
       let remaining = (if rd_type rd1 = DATA_TYPE_ACL then RETRIEVE_ACL_LENGTH P else ucast byte);
       header \<leftarrow> read_bytes P 0 (unat (rd_index rd1));
       b \<leftarrow> memcpy_at (rd_buffer rd1) 0 header;
       Some (rd1\<lparr>bytes_remaining := remaining, rd_buffer := b,
                 rd_state := if remaining > 0 then BODY else FINISHED\<rparr>) }
     else Some rd1)"
    using i5 buf by (simp add: preamble_byte_def buffers_def i_def P_def rd1_def Let_def)
  show ?thesis
  proof (cases "bytes_remaining rd1 = 0")
    case False
    have pend1: "pend rd1 = h" using fs idx tk(1) by (simp add: pend_def)
    have "0 < unat (bytes_remaining rd1)" using False by (simp add: unat_gt_0)
    then have "sitm_ok rd1"
      using i rem idx fs tk(2) buf pend1 hh(1) by (simp add: sitm_ok_def in_header_def buffers_def)
    moreover have "buffers rd1" using fs tk(2) buf by (simp add: buffers_def)
    moreover have "hci_packets (pend rd @ byte # fifo rd) = hci_packets (pend rd1 @ fifo rd1)"
      by (simp only: hh(2) pend1 fs)
    ultimately have "advanced rd (byte # fifo rd) rd1" using fs by (simp add: advanced_def)
    then show ?thesis using step False by simp
  next
    case True
    then have full: "i + 1 = header_len (rd_type rd)" using rem i(1,2) by simp
    define R where "R = (if rd_type rd = DATA_TYPE_ACL then RETRIEVE_ACL_LENGTH P else ucast byte)"
    define B where "B = h @ drop (length h) (rd_buffer rd)"
    define rd2 where "rd2 = rd1\<lparr>bytes_remaining := R, rd_buffer := B, rd_state := if R > 0 then BODY else FINISHED\<rparr>"
    have R: "packet_len h = length h + unat R"
      unfolding R_def by (rule header_packet_len) (use len(1) full tk hh(1) in \<open>simp_all add: h_def\<close>)
    have big: "packet_len h \<le> MAX_PACKET"
      using packets_big [of h "fifo rd"] fit hh i(3) full len(1) by force
    have B: "length B = 1030" "take (length h) B = h" using buf len(1) i5 by (simp_all add: B_def buffers_def)
    have read: "read_bytes P 0 (unat (rd_index rd1)) = Some h"
      unfolding idx read_bytes_def using tk i5 by simp
    have copy: "memcpy_at (rd_buffer rd1) 0 h = Some B"
      using len(1) i5 buf fs by (simp add: memcpy_at_def B_def buffers_def)
    have s2: "preamble_byte byte rd = Some rd2"
      unfolding step using True read copy fs by (simp add: rd2_def R_def Let_def)
    have fs2: "rd_type rd2 = rd_type rd" "fifo rd2 = fifo rd" "fifo_size rd2 = fifo_size rd" "rd_preamble rd2 = P"
        "rd_buffer rd2 = B" "bytes_remaining rd2 = R" "unat (rd_index rd2) = length h"
      using fs idx len(1) by (simp_all add: rd2_def)
    have b2: "buffers rd2" using fs2 tk(2) B by (simp add: buffers_def)
    have "advanced rd (byte # fifo rd) rd2"
    proof (cases "R = 0")
      case True
      then have "rd_state rd2 = FINISHED" by (simp add: rd2_def)
      moreover have "packet_len h = length h" using True R by simp
      ultimately show ?thesis
        using b2 fs2 hh B(2) i(3) full len(1) big by (simp add: advanced_def)
    next
      case False
      then have st2: "rd_state rd2 = BODY" and r0: "0 < unat R" by (simp_all add: rd2_def unat_gt_0 word_gt_0)
      then have pend2: "pend rd2 = h" using fs2 B(2) by (simp add: pend_def)
      have "sitm_ok rd2"
        using b2 st2 pend2 fs2 hh(1) i(3) full len(1) R r0 big by (simp add: sitm_ok_def in_body_def)
      moreover have "hci_packets (pend rd @ byte # fifo rd) = hci_packets (pend rd2 @ fifo rd2)"
        by (simp only: hh(2) pend2 fs2)
      ultimately show ?thesis using b2 st2 fs2 by (simp add: advanced_def)
    qed
    then show ?thesis using s2 by blast
  qed
qed


lemma body_byte_advances:
  assumes ok: "sitm_ok rd" and st: "rd_state rd = BODY"
  shows "\<exists>rd'. body_byte byte rd = Some rd' \<and> advanced rd (byte # fifo rd) rd'"
proof -
  define i where "i = unat (rd_index rd)"
  define r where "r = unat (bytes_remaining rd)"
  define p where "p = pend rd"
  have buf: "length (rd_buffer rd) = 1030" "length (rd_preamble rd) = 5" and p: "p = take i (rd_buffer rd)"
    and body: "valid_type (rd_type rd)" "hd p = rd_type rd" "header_len (rd_type rd) \<le> i" "0 < r"
      "packet_len p = i + r" "i + r \<le> 1027"
    using ok st by (auto simp: sitm_ok_def in_body_def buffers_def pend_def p_def i_def r_def MAX_PACKET_def)
  have len: "length p = i" using p buf body by simp
  define bs where "bs = take (r - 1) (fifo rd)"
  define m where "m = length bs"
  define B where "B = p @ byte # bs @ drop (i + 1 + m) (rd_buffer rd)"
  have m: "m \<le> r - 1" "m = min (length (fifo rd)) (r - 1)" by (simp_all add: m_def bs_def)
  have B: "length B = 1030" "take (i + 1 + m) B = p @ byte # bs" using len m body buf by (simp_all add: B_def m_def)
  define I where "I = rd_index rd + 1 + of_nat m"
  define R where "R = bytes_remaining rd - 1 - of_nat m"
  have I1: "unat (rd_index rd + 1) = i + 1" using body by (simp add: i_def unat_inc_small)
  have um: "unat (of_nat m :: u16) = m" using m body by (simp add: unsigned_of_nat take_bit_nat_eq_self)
  have I: "unat I = i + 1 + m"
    unfolding I_def using I1 um m body by (subst unat_add_lem [THEN iffD1]) simp_all
  have R1: "unat (bytes_remaining rd - 1) = r - 1" using body by (simp add: r_def unat_dec)
  have R: "unat R = r - 1 - m" unfolding R_def using R1 um m by (simp add: unat_sub word_le_nat_alt)
  define rd2 where "rd2 = rd\<lparr>rd_buffer := B, rd_index := I, bytes_remaining := R, fifo := drop (r - 1) (fifo rd),
      rd_state := if R = 0 then FINISHED else BODY\<rparr>"
  have "memcpy_at ((rd_buffer rd)[i := byte]) (i + 1) bs = Some B"
    using body buf m len p by (simp add: memcpy_at_def B_def m_def take_Suc_conv_app_nth)
  then have step: "body_byte byte rd = Some rd2"
    using body buf st I1 R1 by (simp add: body_byte_def data_ready_def Let_def rd2_def bs_def m_def I_def R_def i_def)
  have fs2: "rd_type rd2 = rd_type rd" "rd_buffer rd2 = B" "unat (rd_index rd2) = i + 1 + m" "unat (bytes_remaining rd2) = r - 1 - m"
      "fifo rd2 = drop (r - 1) (fifo rd)" "fifo_size rd2 = fifo_size rd" "buffers rd2"
    using I R B buf by (simp_all add: rd2_def buffers_def)
  define h where "h = p @ byte # bs"
  have h: "length h = i + 1 + m" "hd h = rd_type rd" "packet_len h = i + r" "pend rd @ byte # fifo rd = h @ fifo rd2"
    using len body packet_len_append [of p "byte # bs"] header_len_bounds [of "rd_type rd"] fs2(5)
    by (auto simp: h_def m_def p_def [symmetric] hd_append bs_def)
  have "advanced rd (byte # fifo rd) rd2"
  proof (cases "R = 0")
    case True
    then have "rd_state rd2 = FINISHED" "i + r = length h" using R m(1) body(4) h(1) by (simp_all add: rd2_def)
    then show ?thesis
      using fs2 h B(2) body by (simp add: advanced_def MAX_PACKET_def h_def [symmetric])
  next
    case False
    then have st2: "rd_state rd2 = BODY" and r0: "0 < unat R" by (simp_all add: rd2_def unat_gt_0)
    then have pend2: "pend rd2 = h" using fs2 B(2) by (simp add: pend_def h_def)
    have "sitm_ok rd2"
      using fs2 st2 pend2 h body r0 R by (simp add: sitm_ok_def in_body_def MAX_PACKET_def)
    moreover have "hci_packets (pend rd @ byte # fifo rd) = hci_packets (pend rd2 @ fifo rd2)"
      by (simp only: h(4) pend2)
    ultimately show ?thesis using fs2 st2 by (simp add: advanced_def)
  qed
  then show ?thesis using step by blast
qed

lemma valid_type_range: "valid_type b \<longleftrightarrow> \<not> (b > DATA_TYPE_EVENT \<or> b < DATA_TYPE_COMMAND)"
proof -
  have "valid_type b \<longleftrightarrow> unat b = 1 \<or> unat b = 2 \<or> unat b = 3 \<or> unat b = 4"
    by (simp add: valid_type_def DATA_TYPE_COMMAND_def DATA_TYPE_ACL_def DATA_TYPE_SCO_def DATA_TYPE_EVENT_def word_unat_eq_iff)
  also have "\<dots> \<longleftrightarrow> \<not> (unat b > 4 \<or> unat b < 1)" by linarith
  also have "\<dots> \<longleftrightarrow> \<not> (b > DATA_TYPE_EVENT \<or> b < DATA_TYPE_COMMAND)"
    by (simp add: DATA_TYPE_COMMAND_def DATA_TYPE_EVENT_def word_less_nat_alt)
  finally show ?thesis .
qed

lemma preamble_size:
  "valid_type b \<Longrightarrow> \<exists>n. aget preamble_sizes (PACKET_TYPE_TO_INDEX b) = Some n \<and> unat (n + 1) = header_len b"
  by (auto simp: valid_type_def preamble_sizes_def PACKET_TYPE_TO_INDEX_def header_len_def DATA_TYPE_COMMAND_def
      DATA_TYPE_ACL_def DATA_TYPE_SCO_def DATA_TYPE_EVENT_def)

lemma advanced_start:
  assumes "pend rd0 = pend rd" and "fifo_size rd0 = fifo_size rd"
  shows "advanced rd0 bs = advanced rd bs"
  by (rule ext) (simp only: advanced_def assms)

lemma fifo_update [simp]:
  "pend (rd\<lparr>fifo := f\<rparr>) = pend rd" "buffers (rd\<lparr>fifo := f\<rparr>) = buffers rd" "sitm_ok (rd\<lparr>fifo := f\<rparr>) = sitm_ok rd"
proof -
  show p: "pend (rd\<lparr>fifo := f\<rparr>) = pend rd" by (cases "rd_state rd") (simp_all add: pend_def)
  show b: "buffers (rd\<lparr>fifo := f\<rparr>) = buffers rd" by (simp add: buffers_def)
  show "sitm_ok (rd\<lparr>fifo := f\<rparr>) = sitm_ok rd"
    by (cases "rd_state rd") (simp_all add: sitm_ok_def p b in_header_def in_body_def)
qed

lemma new_byte_advances:
  assumes buf: "buffers rd" and st: "rd_state rd = BRAND_NEW" and fit: "hci_packets (byte # fifo rd) \<noteq> None"
  shows "\<exists>rd'. new_byte byte rd = Some rd' \<and> advanced rd (byte # fifo rd) rd'"
proof (cases "valid_type byte")
  case True
  obtain n where n: "aget preamble_sizes (PACKET_TYPE_TO_INDEX byte) = Some n" "unat (n + 1) = header_len byte"
    using preamble_size [OF True] by blast
  define rd0 where "rd0 = rd\<lparr>rd_type := byte, bytes_remaining := n + 1, rd_preamble := replicate PREAMBLE_BUFFER_SIZE 0,
      rd_index := 0, rd_state := PREAMBLE\<rparr>"
  have "new_byte byte rd = preamble_byte byte rd0"
    using True n by (simp add: new_byte_def valid_type_range rd0_def)
  moreover have p: "pend rd0 = []" "pend rd = []" using st by (simp_all add: pend_def rd0_def)
  have "\<exists>rd'. preamble_byte byte rd0 = Some rd' \<and> advanced rd0 (byte # fifo rd0) rd'"
  proof (rule preamble_byte_advances)
    show "buffers rd0" using buf by (simp add: buffers_def rd0_def PREAMBLE_BUFFER_SIZE_def)
    show "rd_state rd0 = PREAMBLE" "hd (pend rd0 @ [byte]) = rd_type rd0" using p by (simp_all add: rd0_def)
    show "in_header rd0" using True n header_len_bounds [of byte] by (simp add: in_header_def rd0_def)
    show "hci_packets (pend rd0 @ byte # fifo rd0) \<noteq> None" using fit p by (simp add: rd0_def)
  qed
  moreover have "advanced rd0 bs = advanced rd bs" for bs
    using p by (intro advanced_start) (simp_all add: rd0_def)
  moreover have "fifo rd0 = fifo rd" by (simp add: rd0_def)
  ultimately show ?thesis by (simp only:)
next
  case False
  then have "new_byte byte rd = Some rd" by (simp add: new_byte_def valid_type_range)
  then show ?thesis
    using False buf st by (simp add: advanced_def sitm_ok_def pend_def packets_skip)
qed

section \<open>The loop\<close>

lemma parse_byte_packs:
  assumes ok: "sitm_ok rd" and f: "fifo rd = byte # f" and fit: "hci_packets (pend rd @ fifo rd) \<noteq> None"
  shows "\<exists>rd' fs. parse_byte rd = Some (rd', fs, True) \<and> packs rd (fifo rd) fs rd'"
proof -
  define rd0 where "rd0 = rd\<lparr>fifo := f\<rparr>"
  have r0: "data_ready 1 rd = ([byte], rd0)" "byte # fifo rd0 = fifo rd" "pend rd0 = pend rd" "sitm_ok rd0"
      "rd_state rd0 = rd_state rd" "buffers rd0"
    using ok f by (simp_all add: data_ready_def rd0_def) (simp add: sitm_ok_def)
  have fit0: "hci_packets (pend rd0 @ byte # fifo rd0) \<noteq> None" using fit r0 by simp
  have "\<exists>rd1. parse_switch byte rd0 = Some (rd1, False) \<and> advanced rd0 (byte # fifo rd0) rd1"
  proof (cases "rd_state rd0")
    case BRAND_NEW
    then have "hci_packets (byte # fifo rd0) \<noteq> None" using fit0 by (simp add: pend_def)
    then show ?thesis using new_byte_advances [OF r0(6) BRAND_NEW] BRAND_NEW by (auto simp: parse_switch_def)
  next
    case PREAMBLE
    have "in_header rd0" "hd (pend rd0 @ [byte]) = rd_type rd0"
      using r0(4) PREAMBLE by (auto simp: sitm_ok_def hd_append pend_def buffers_def)
    then show ?thesis
      using preamble_byte_advances [OF r0(6) PREAMBLE _ _ fit0] PREAMBLE by (auto simp: parse_switch_def)
  next
    case BODY
    then show ?thesis using body_byte_advances [OF r0(4) BODY] by (auto simp: parse_switch_def)
  qed (use r0(4) in \<open>simp_all add: sitm_ok_def\<close>)
  then obtain rd1 where rd1: "parse_switch byte rd0 = Some (rd1, False)" "advanced rd0 (byte # fifo rd0) rd1" by blast
  obtain rd' fs where "finish_frame rd1 = Some (rd', fs)" "packs rd0 (byte # fifo rd0) fs rd'"
    using advanced_finish [OF rd1(2)] by blast
  moreover have "packs rd0 bs fs rd' = packs rd bs fs rd'" for bs by (simp add: packs_def r0(3) rd0_def)
  ultimately show ?thesis using rd1(1) r0(1,2) by (auto simp: parse_byte_def)
qed

lemma parse_frame_packs:
  assumes "sitm_ok rd" and "hci_packets (pend rd @ fifo rd) \<noteq> None"
  shows "\<exists>rd' fs. parse_frame rd = Some (rd', fs) \<and> sitm_ok rd' \<and> fifo rd' = [] \<and> fifo_size rd' = fifo_size rd \<and>
     hci_packets (pend rd @ fifo rd) = Some (fs, pend rd')"
  using assms
proof (induction "length (fifo rd)" arbitrary: rd rule: less_induct)
  case less
  show ?case
  proof (cases "fifo rd")
    case Nil
    then have "parse_byte rd = Some (rd, [], False)" by (simp add: parse_byte_def data_ready_def)
    then have "parse_frame rd = Some (rd, [])" by (subst parse_frame.simps) simp
    then show ?thesis using less.prems Nil pend_packets [of rd] by simp
  next
    case (Cons byte f)
    obtain rd1 fs where s: "parse_byte rd = Some (rd1, fs, True)" "packs rd (fifo rd) fs rd1"
      using parse_byte_packs [OF less.prems(1) Cons less.prems(2)] by blast
    then have p: "length (fifo rd1) < length (fifo rd)" "sitm_ok rd1" "fifo_size rd1 = fifo_size rd"
        "hci_packets (pend rd @ fifo rd) = map_option (\<lambda>(gs, r). (fs @ gs, r)) (hci_packets (pend rd1 @ fifo rd1))"
      by (simp_all add: packs_def)
    then have "hci_packets (pend rd1 @ fifo rd1) \<noteq> None" using less.prems(2) by auto
    from less.hyps [OF p(1) p(2) this] obtain rd' gs where r: "parse_frame rd1 = Some (rd', gs)" "sitm_ok rd'" "fifo rd' = []"
        "fifo_size rd' = fifo_size rd1" "hci_packets (pend rd1 @ fifo rd1) = Some (gs, pend rd')" by blast
    have "parse_frame rd = Some (rd', fs @ gs)" using s r by (subst parse_frame.simps) simp
    then show ?thesis using r p by simp
  qed
qed

section \<open>Writes\<close>

text \<open>Between two writes the fifo is empty.\<close>

definition idle :: "packet_receive_data_t \<Rightarrow> bool" where
  "idle rd \<longleftrightarrow> sitm_ok rd \<and> fifo rd = [] \<and> 0 < fifo_size rd"

lemma idle_init: "0 < n \<Longrightarrow> sitm_init (Some m) n = Some (Some rd) \<Longrightarrow> idle rd \<and> pend rd = [] \<and> fifo_size rd = n"
  by (auto simp: sitm_init_def idle_def sitm_ok_def buffers_def pend_def PREAMBLE_BUFFER_SIZE_def
      HCI_HAL_SERIAL_BUFFER_SIZE_def BYTE_ALIGNMENT_def)

lemma sitm_write_packs:
  assumes "idle rd" and "hci_packets (pend rd @ take (fifo_size rd) buf) = Some (fs, r)"
  shows "\<exists>rd'. sitm_write (Some rd) buf = Some (Some rd', min (fifo_size rd) (length buf), fs) \<and>
     idle rd' \<and> fifo_size rd' = fifo_size rd \<and> pend rd' = r"
proof -
  define n where "n = (if fifo_size rd < length buf then fifo_size rd else length buf)"
  have n: "n = min (fifo_size rd) (length buf)" "take n buf = take (fifo_size rd) buf" by (simp_all add: n_def)
  define rd0 where "rd0 = rd\<lparr>fifo := take n buf\<rparr>"
  have r0: "sitm_ok rd0" "pend rd0 = pend rd" "fifo rd0 = take (fifo_size rd) buf" "fifo_size rd0 = fifo_size rd"
    using assms(1) n by (simp_all add: idle_def rd0_def)
  obtain rd' where "parse_frame rd0 = Some (rd', fs)" "sitm_ok rd'" "fifo rd' = []" "fifo_size rd' = fifo_size rd" "pend rd' = r"
    using parse_frame_packs [of rd0] r0 assms(2) by auto
  then show ?thesis
    using assms(1) n(1) by (simp add: sitm_write_def idle_def rd0_def n_def Let_def)
qed

text \<open>A sequence of writes, with the packets of all of them.\<close>

fun sitm_writes :: "packet_receive_data_t option \<Rightarrow> u8 list list \<Rightarrow> (packet_receive_data_t option \<times> u8 list list) option" where
  "sitm_writes rd [] = Some (rd, [])"
| "sitm_writes rd (c # cs) = do {
     (rd, _, fs) \<leftarrow> sitm_write rd c;
     (rd, gs) \<leftarrow> sitm_writes rd cs;
     Some (rd, fs @ gs) }"

lemma sitm_writes_packs:
  "idle rd \<Longrightarrow> \<forall>c \<in> set cs. length c \<le> fifo_size rd \<Longrightarrow> hci_packets (pend rd @ concat cs) = Some (fs, r) \<Longrightarrow>
     \<exists>rd'. sitm_writes (Some rd) cs = Some (Some rd', fs) \<and> idle rd' \<and> pend rd' = r"
proof (induction cs arbitrary: rd fs)
  case Nil
  then show ?case using pend_packets [of rd] by (simp add: idle_def)
next
  case (Cons c cs)
  have "hci_packets ((pend rd @ c) @ concat cs) = Some (fs, r)" using Cons.prems(3) by simp
  then obtain fs1 r1 gs where c: "hci_packets (pend rd @ c) = Some (fs1, r1)"
      "hci_packets (r1 @ concat cs) = Some (gs, r)" "fs = fs1 @ gs"
    unfolding packets_append [of "pend rd @ c" "concat cs"] by (auto simp: Option.bind_eq_Some_conv)
  obtain rd1 where w: "sitm_write (Some rd) c = Some (Some rd1, length c, fs1)" "idle rd1" "fifo_size rd1 = fifo_size rd" "pend rd1 = r1"
    using sitm_write_packs [of rd c fs1 r1] Cons.prems(1,2) c(1) by auto
  obtain rd' where "sitm_writes (Some rd1) cs = Some (Some rd', gs)" "idle rd'" "pend rd' = r"
    using Cons.IH [of rd1 gs] Cons.prems(2) w c(2) by auto
  then show ?case using w c(3) by auto
qed


section \<open>The properties\<close>

text \<open>
  C15. After the start, however a stream of bytes is divided into writes that fit the fifo, the packets
  that are passed on are those of the stream, padded, in order, and the state stands for the bytes of
  the unfinished one; no buffer is overrun as long as every packet has at most \<open>MAX_PACKET\<close> bytes.
\<close>

theorem sitm_refines_packets:
  assumes "sitm_init (Some m) n = Some (Some rd)" and "0 < n" and "list_all (\<lambda>c. length c \<le> n) chunks"
    and "hci_packets (concat chunks) = Some (fs, r)"
  shows "\<exists>rd'. sitm_writes (Some rd) chunks = Some (Some rd', fs) \<and> pend rd' = r"
  using sitm_writes_packs [of rd chunks fs r] idle_init [OF assms(2,1)] assms(3,4) by (auto simp: list_all_iff)

definition sitm_started :: packet_receive_data_t where
  "sitm_started = \<lparr>rd_state = BRAND_NEW, bytes_remaining = 0, rd_type = 0,
          rd_preamble = replicate 5 0, rd_index = 0, fifo_size = 2048, fifo = [], rd_buffer = replicate 1030 0\<rparr>"

theorem sitm_refines_packets_witness:
  "\<exists>rd'. sitm_writes (Some sitm_started) [[0, 1, 3], [12, 2, 7, 7, 2, 1], [0, 2, 0, 9]] =
     Some (Some rd', [[1, 3, 12, 2, 7, 7, 0, 0]]) \<and> pend rd' = [2, 1, 0, 2, 0, 9]"
proof (rule sitm_refines_packets [of undefined 2048])
  show "sitm_init (Some undefined) 2048 = Some (Some sitm_started)"
    by (simp add: sitm_init_def sitm_started_def PREAMBLE_BUFFER_SIZE_def HCI_HAL_SERIAL_BUFFER_SIZE_def BYTE_ALIGNMENT_def)
  show "hci_packets (concat [[0, 1, 3], [12, 2, 7, 7, 2, 1], [0, 2, 0, 9]]) =
      Some ([[1, 3, 12, 2, 7, 7, 0, 0]], [2, 1, 0, 2, 0, 9])"
    by code_simp
qed simp_all

text \<open>
  The fifo is empty between writes: a write takes as many bytes as the fifo holds and says how many
  it took, and the next one finds the fifo empty again.
\<close>

theorem sitm_write_accepts:
  assumes "idle rd" and "hci_packets (pend rd @ take (fifo_size rd) buf) \<noteq> None"
  shows "\<exists>rd' fs. sitm_write (Some rd) buf = Some (Some rd', min (fifo_size rd) (length buf), fs) \<and> idle rd' \<and>
     hci_packets (pend rd @ take (fifo_size rd) buf) = Some (fs, pend rd')"
proof -
  obtain fs r where p: "hci_packets (pend rd @ take (fifo_size rd) buf) = Some (fs, r)" using assms(2) by force
  show ?thesis using sitm_write_packs [OF assms(1) p] p by auto
qed

theorem sitm_write_accepts_witness:
  "\<exists>rd' fs. sitm_write (Some sitm_started) [4, 0x0e, 1] = Some (Some rd', 3, fs) \<and> idle rd'"
proof -
  have i: "idle sitm_started" "pend sitm_started = []" "fifo_size sitm_started = 2048"
    by (simp_all add: idle_def sitm_started_def sitm_ok_def buffers_def pend_def)
  have "hci_packets [4, 0x0e, 1] = Some ([], [4, 0x0e, 1])"
    by code_simp
  then show ?thesis using sitm_write_accepts [OF i(1), of "[4, 0x0e, 1]"] i(2,3) by auto
qed

text \<open>
  A data packet with 1023 bytes of payload, whose length the header announces, runs over the buffer when it is padded;
  the size of the buffer is not compared with the length in the header.
\<close>


lemma parse_frame_step:
  "parse_byte rd = Some (rd1, [], True) \<Longrightarrow> parse_frame rd = parse_frame rd1"
  by (subst parse_frame.simps) (cases "parse_frame rd1"; auto)

definition long_header :: "u8 list \<Rightarrow> packet_receive_data_t" where
  "long_header f = \<lparr>rd_state = BODY, bytes_remaining = 1023, rd_type = 2, rd_preamble = [2, 0, 0, 0xFF, 3], rd_index = 5,
     fifo_size = 2048, fifo = f, rd_buffer = [2, 0, 0, 0xFF, 3, 0] @ replicate 1024 0\<rparr>"

lemmas sitm_defs = parse_byte_def data_ready_def parse_switch_def new_byte_def preamble_byte_def finish_frame_def
  DATA_TYPE_COMMAND_def DATA_TYPE_ACL_def DATA_TYPE_SCO_def DATA_TYPE_EVENT_def preamble_sizes_def PACKET_TYPE_TO_INDEX_def
  PREAMBLE_BUFFER_SIZE_def RETRIEVE_ACL_LENGTH_def read_bytes_def memcpy_at_def

lemma long_header_read:
  "parse_frame (sitm_started\<lparr>fifo := [2, 0, 0, 0xFF, 3] @ f\<rparr>) = parse_frame (long_header f)"
proof -
  have z: "replicate 5 (0 :: u8) = [0, 0, 0, 0, 0]" by (simp add: numeral_eq_Suc)
  have "replicate (Suc 1024) (0 :: u8) = 0 # replicate 1024 0" by (rule replicate_Suc)
  then have repl: "replicate 1025 (0 :: u8) = 0 # replicate 1024 0" by simp
  let ?s = "\<lambda>st r t p i f b. \<lparr>rd_state = st, bytes_remaining = r, rd_type = t, rd_preamble = p, rd_index = i,
     fifo_size = 2048, fifo = f, rd_buffer = b\<rparr>"
  have "parse_byte (sitm_started\<lparr>fifo := [2, 0, 0, 0xFF, 3] @ f\<rparr>) =
      Some (?s PREAMBLE 4 2 [2, 0, 0, 0, 0] 1 ([0, 0, 0xFF, 3] @ f) (replicate 1030 0), [], True)"
    by (simp add: sitm_started_def sitm_defs z)
  moreover have "parse_byte (?s PREAMBLE 4 2 [2, 0, 0, 0, 0] 1 ([0, 0, 0xFF, 3] @ f) (replicate 1030 0)) =
      Some (?s PREAMBLE 3 2 [2, 0, 0, 0, 0] 2 ([0, 0xFF, 3] @ f) (replicate 1030 0), [], True)"
    by (simp add: sitm_defs)
  moreover have "parse_byte (?s PREAMBLE 3 2 [2, 0, 0, 0, 0] 2 ([0, 0xFF, 3] @ f) (replicate 1030 0)) =
      Some (?s PREAMBLE 2 2 [2, 0, 0, 0, 0] 3 ([0xFF, 3] @ f) (replicate 1030 0), [], True)"
    by (simp add: sitm_defs)
  moreover have "parse_byte (?s PREAMBLE 2 2 [2, 0, 0, 0, 0] 3 ([0xFF, 3] @ f) (replicate 1030 0)) =
      Some (?s PREAMBLE 1 2 [2, 0, 0, 0xFF, 0] 4 ([3] @ f) (replicate 1030 0), [], True)"
    by (simp add: sitm_defs)
  moreover have "parse_byte (?s PREAMBLE 1 2 [2, 0, 0, 0xFF, 0] 4 ([3] @ f) (replicate 1030 0)) =
      Some (long_header f, [], True)"
    using repl by (simp add: sitm_defs long_header_def)
  ultimately show ?thesis by (simp only: parse_frame_step)
qed

lemma pad_tail_None:
  "length (rd_buffer rd) < unat (rd_index rd) + n \<Longrightarrow> unat (rd_index rd) + n < 65536 \<Longrightarrow> unat (rd_index rd) \<le> length (rd_buffer rd) \<Longrightarrow>
     pad_tail n rd = None"
proof (induction n arbitrary: rd)
  case (Suc n)
  show ?case
  proof (cases "unat (rd_index rd) < length (rd_buffer rd)")
    case True
    have "unat (rd_index rd + 1) = unat (rd_index rd) + 1" using Suc.prems by (intro unat_inc_small) simp
    then show ?thesis using Suc.prems True by (simp add: Suc.IH)
  qed (simp add: aset_def)
qed simp

lemma long_body_faults:
  assumes "length bs = 1023"
  shows "parse_byte (long_header bs) = None"
proof -
  obtain b cs where bs: "bs = b # cs" "length cs = 1022" using assms by (cases bs) auto
  let ?rd = "(long_header cs)\<lparr>rd_state := FINISHED, bytes_remaining := 0, rd_index := 1028, fifo := [],
      rd_buffer := [2, 0, 0, 0xFF, 3, b] @ cs @ replicate 2 0\<rparr>"
  have copy: "memcpy_at ([2, 0, 0, 0xFF, 3, b] @ replicate 1024 0) 6 cs = Some ([2, 0, 0, 0xFF, 3, b] @ cs @ replicate 2 0)"
    using bs(2) unfolding memcpy_at_def by simp
  have "body_byte b (long_header cs) = Some ?rd"
    using bs(2) copy by (simp add: body_byte_def long_header_def data_ready_def)
  moreover have "finish_frame ?rd = None"
    using bs(2) by (simp add: finish_frame_def long_header_def DATA_TYPE_ACL_def BYTE_ALIGNMENT_def pad_tail_None)
  moreover have "data_ready 1 (long_header bs) = ([b], long_header cs)"
    using bs(1) by (simp add: data_ready_def long_header_def)
  ultimately show ?thesis by (simp add: parse_byte_def parse_switch_def long_header_def)
qed

text \<open>
  A data packet with 1023 bytes of payload, written at once, runs over the buffer when it is padded:
  the length in the header is never compared with the size of the buffer.
\<close>

theorem long_packet_overruns:
  assumes "length bs = 1023"
  shows "sitm_write (Some sitm_started) ([2, 0, 0, 0xFF, 3] @ bs) = None"
proof -
  have "parse_frame (sitm_started\<lparr>fifo := [2, 0, 0, 0xFF, 3] @ bs\<rparr>) = None"
    unfolding long_header_read by (subst parse_frame.simps) (simp add: long_body_faults [OF assms])
  then show ?thesis
    using assms by (simp add: sitm_write_def sitm_started_def)
qed

theorem long_packet_overruns_witness: "sitm_write (Some sitm_started) ([2, 0, 0, 0xFF, 3] @ replicate 1023 0) = None"
  by (rule long_packet_overruns) simp

end
