(* ===== verification/Bt_Hci_Correct.thy ===== *)
theory Bt_Hci_Correct
  imports Bt_Hci Bt_Sitm_Correct
begin

text \<open>
  The packets of the chip are separated and the answers to the kernel's own commands kept
  back, the commands of the kernel have the form the splitter gives to others, and the table
  of wake devices is a finite map.
\<close>

section \<open>Received packets\<close>

text \<open>A whole packet of the chip: an event, long enough for the fields that are read of it, or data.\<close>

definition event_opcode :: "u8 list \<Rightarrow> u16" where
  "event_opcode p = (if p ! 1 = BT_HCI_EVT_CMD_STATUS then ucast (p ! 5) + push_bit 8 (ucast (p ! 6))
     else ucast (p ! 4) + push_bit 8 (ucast (p ! 5)))"

definition command_event :: "u8 list \<Rightarrow> bool" where
  "command_event p \<longleftrightarrow> p ! 0 = HCI_EVT \<and> (p ! 1 = BT_HCI_EVT_CMD_COMPLETE \<or> p ! 1 = BT_HCI_EVT_CMD_STATUS)"

definition chip_packet :: "u8 list \<Rightarrow> bool" where
  "chip_packet p \<longleftrightarrow>
     (3 \<le> length p \<and> p ! 0 = HCI_EVT \<and> length p = unat (p ! 2) + 3 \<and>
        (command_event p \<longrightarrow> 7 \<le> length p \<and> (event_opcode p = 0x1009 \<longrightarrow> 13 \<le> length p))) \<or>
     (5 \<le> length p \<and> p ! 0 = HCI_ACL \<and> length p = unat (push_bit 8 (ucast (p ! 4) :: u32) OR ucast (p ! 3)) + 5)"

text \<open>The event answers the command that waits.\<close>

definition answers :: "u16 \<Rightarrow> u8 list \<Rightarrow> bool" where
  "answers opcode p \<longleftrightarrow> command_event p \<and> event_opcode p = opcode"

lemma recv_event:
  assumes "command_event p" and "chip_packet p" and "pre @ p @ post = buf" and "off = length pre"
  shows "\<exists>g'. recv_kernel_event g buf off (p ! 1) = Some (g', answers (hci_opcode g) p) \<and>
     hci_opcode g' = hci_opcode g \<and> hci_wait g' = hci_wait g + (if answers (hci_opcode g) p then 1 else 0)"
proof -
  have l: "7 \<le> length p" "event_opcode p = 0x1009 \<Longrightarrow> 13 \<le> length p"
    using assms(1,2) by (auto simp: chip_packet_def command_event_def HCI_EVT_def HCI_ACL_def)
  have get: "aget buf (off + i) = Some (p ! i)" if "i < length p" for i
    using assms(3,4) that by (auto simp: aget_eq_Some_iff nth_append)
  have u16: "STREAM_TO_UINT16 buf (off + i) = Some (ucast (p ! i) + push_bit 8 (ucast (p ! (i + 1))))" if "i + 1 < length p" for i
    using get [of i] get [of "i + 1"] that by (simp add: STREAM_TO_UINT16_def add.assoc)
  have op: "(if p ! 1 = BT_HCI_EVT_CMD_STATUS then STREAM_TO_UINT16 buf (off + 5) else STREAM_TO_UINT16 buf (off + 4)) = Some (event_opcode p)"
    using l(1) u16 [of 4] u16 [of 5] by (simp add: event_opcode_def)
  have rd: "event_opcode p = 0x1009 \<Longrightarrow> \<exists>a. read_bytes buf (off + 7) BD_ADDR_LEN = Some a"
    using l(2) assms(3,4) by (auto simp: read_bytes_def BD_ADDR_LEN_def)
  show ?thesis
    using op rd l(1) get [of 3] get [of 6] assms(1)
    by (auto simp: recv_kernel_event_def answers_def Let_def split: if_splits)
qed

lemma recv_packet:
  assumes "chip_packet p" and "pre @ p @ post = buf"
  shows "\<exists>g'. recv_loop g buf (length pre) =
       (let up = (if answers (hci_opcode g) p then [] else [p]) in
        if post = [] then Some (g', up)
        else do { (g, ups) \<leftarrow> recv_loop g' buf (length (pre @ p)); Some (g, up @ ups) }) \<and>
     hci_opcode g' = hci_opcode g \<and> hci_wait g' = hci_wait g + (if answers (hci_opcode g) p then 1 else 0)"
proof -
  have get: "aget buf (length pre + i) = Some (p ! i)" if "i < length p" for i
    using assms(2) that by (auto simp: aget_eq_Some_iff nth_append)
  have read: "read_bytes buf (length pre) (length p) = Some p" using assms(2) by (auto simp: read_bytes_def)
  have last: "length pre + length p = length buf \<longleftrightarrow> post = []" using assms(2) by auto
  consider (evt) "3 \<le> length p" "p ! 0 = HCI_EVT" "unat (p ! 2) + 3 = length p"
    | (acl) "5 \<le> length p" "p ! 0 = HCI_ACL" "unat (push_bit 8 (ucast (p ! 4) :: u32) OR ucast (p ! 3)) + 5 = length p"
    using assms(1) by (auto simp: chip_packet_def)
  then show ?thesis
  proof cases
    case evt
    have g: "aget buf (length pre) = Some HCI_EVT" "aget buf (length pre + 2) = Some (p ! 2)" "aget buf (length pre + 1) = Some (p ! 1)"
      using get [of 0] get [of 1] get [of 2] evt by (auto simp: length_greater_0_conv [symmetric] simp del: length_greater_0_conv)
    obtain g' where g': "(if p ! 1 = BT_HCI_EVT_CMD_COMPLETE \<or> p ! 1 = BT_HCI_EVT_CMD_STATUS
          then recv_kernel_event g buf (length pre) (p ! 1) else Some (g, False)) = Some (g', answers (hci_opcode g) p)"
        "hci_opcode g' = hci_opcode g" "hci_wait g' = hci_wait g + (if answers (hci_opcode g) p then 1 else 0)"
      using recv_event [of p pre post buf "length pre" g] assms evt(2)
      by (cases "command_event p") (auto simp: command_event_def answers_def)
    have "recv_loop g buf (length pre) = do {
        up \<leftarrow> (if answers (hci_opcode g) p then Some [] else Some [p]);
        if post = [] then Some (g', up) else do { (g, ups) \<leftarrow> recv_loop g' buf (length pre + length p); Some (g, up @ ups) } }"
      by (subst recv_loop.simps)
        (simp only: g g'(1) evt(3) read last bind.bind_lunit if_True HOL.refl prod.case option.map)
    then show ?thesis using g'(2,3) by (cases "answers (hci_opcode g) p") (auto simp: Let_def)
  next
    case acl
    have g: "aget buf (length pre) = Some HCI_ACL" "aget buf (length pre + 4) = Some (p ! 4)" "aget buf (length pre + 3) = Some (p ! 3)"
      using get [of 0] get [of 3] get [of 4] acl by (auto simp: length_greater_0_conv [symmetric] simp del: length_greater_0_conv)
    have n: "\<not> answers (hci_opcode g) p" "HCI_ACL \<noteq> HCI_EVT" using acl(2) by (auto simp: answers_def command_event_def HCI_ACL_def HCI_EVT_def)
    show ?thesis
      by (rule exI [of _ g], subst recv_loop.simps)
        (use g n acl(3) read last in \<open>simp add: Let_def\<close>)
  qed
qed

lemma recv_packets:
  "ps \<noteq> [] \<Longrightarrow> \<forall>p \<in> set ps. chip_packet p \<Longrightarrow> pre @ concat ps = buf \<Longrightarrow>
     \<exists>g'. recv_loop g buf (length pre) = Some (g', filter (\<lambda>p. \<not> answers (hci_opcode g) p) ps) \<and>
       hci_opcode g' = hci_opcode g \<and> hci_wait g' = hci_wait g + length (filter (answers (hci_opcode g)) ps)"
proof (induction ps arbitrary: pre g)
  case (Cons p ps)
  have p: "chip_packet p" "pre @ p @ concat ps = buf" using Cons.prems by auto
  have np: "chip_packet q \<Longrightarrow> q \<noteq> []" for q by (auto simp: chip_packet_def)
  obtain g1 where g1: "recv_loop g buf (length pre) =
       (let up = (if answers (hci_opcode g) p then [] else [p]) in
        if concat ps = [] then Some (g1, up)
        else do { (g, ups) \<leftarrow> recv_loop g1 buf (length (pre @ p)); Some (g, up @ ups) })"
      "hci_opcode g1 = hci_opcode g" "hci_wait g1 = hci_wait g + (if answers (hci_opcode g) p then 1 else 0)"
    using recv_packet [OF p, of g] by blast
  show ?case
  proof (cases ps)
    case Nil
    then show ?thesis using g1 by (simp add: Let_def)
  next
    case (Cons q qs)
    then have c: "ps \<noteq> []" "concat ps \<noteq> []" using Cons.prems(2) np [of q] by auto
    obtain g2 where "recv_loop g1 buf (length (pre @ p)) = Some (g2, filter (\<lambda>p. \<not> answers (hci_opcode g1) p) ps)"
        "hci_opcode g2 = hci_opcode g1" "hci_wait g2 = hci_wait g1 + length (filter (answers (hci_opcode g1)) ps)"
      using Cons.IH [of "pre @ p" g1] c(1) Cons.prems(2) p(2) by auto
    then show ?thesis using g1 c(2) by (auto simp: Let_def)
  qed
qed simp

text \<open>
  C20. A buffer of whole packets is separated into them; those that answer the command of the kernel are kept
  back and counted, the others go to the stack in order.
\<close>

theorem rx_separates_packets:
  assumes "ps \<noteq> []" and "list_all chip_packet ps"
  shows "\<exists>g'. rx_data_recv g (concat ps) = Some (g', filter (\<lambda>p. \<not> answers (hci_opcode g) p) ps) \<and>
     hci_opcode g' = hci_opcode g \<and> hci_wait g' = hci_wait g + length (filter (answers (hci_opcode g)) ps)"
  using recv_packets [OF assms(1), of "[]" "concat ps" g] assms(2) by (simp add: rx_data_recv_def list_all_iff)

definition ex_globals :: hci_globals where
  "ex_globals = \<lparr>hci_opcode = 0, hci_wait = 0, own_public_addr = replicate 6 0, own_addr = replicate 6 0,
     woble_devices = replicate 10 empty_woble_dev, need_indicate_cp2_woble = False\<rparr>"

theorem rx_separates_packets_witness:
  "\<exists>g'. rx_data_recv (ex_globals\<lparr>hci_opcode := 0x0c03\<rparr>) (concat [[4, 0x0e, 4, 1, 3, 0x0c, 0], [2, 0, 0, 1, 0, 9]]) =
     Some (g', [[2, 0, 0, 1, 0, 9]]) \<and> hci_wait g' = 1"
proof -
  let ?ps = "[[4, 0x0e, 4, 1, 3, 0x0c, 0], [2, 0, 0, 1, 0, 9]] :: u8 list list"
  have "list_all chip_packet ?ps" "answers 0x0c03 (hd ?ps)" "\<not> answers 0x0c03 (?ps ! 1)" by code_simp+
  then show ?thesis
    using rx_separates_packets [of ?ps "ex_globals\<lparr>hci_opcode := 0x0c03\<rparr>"] by (auto simp: ex_globals_def)
qed

text \<open>
  While no command waits, its operation code is 0, and so is the code in an event that only updates the
  number of commands the chip takes: this event is kept from the stack and raises the semaphore, so
  that the next command of the kernel does not wait for its answer.
\<close>

theorem nop_event_releases_next_command:
  assumes "chip_packet p" and "\<not> command_event p" and "hci_opcode g = 0" and "hci_wait g = 0"
  shows "\<exists>g' g'' bs. rx_data_recv g ([4, 0x0f, 4, 0, 1, 0, 0] @ p) = Some (g', [p]) \<and>
     hci_cmd_start g' BT_HCI_OP_RESET None = Some (g'', bs) \<and> hci_cmd_finish g'' \<noteq> None"
proof -
  define nop where "nop = ([4, 0x0f, 4, 0, 1, 0, 0] :: u8 list)"
  have n: "chip_packet nop" "answers 0 nop" unfolding nop_def by code_simp+
  obtain bs where bs: "hci_cmd_bytes BT_HCI_OP_RESET None = Some bs"
    by (simp add: hci_cmd_bytes_def memcpy_at_def read_bytes_def UINT16_TO_STREAM_def BYTE_ALIGNMENT_def HCI_CMD_MAX_LEN_def)
  have p: "\<not> answers 0 p" using assms(2) by (simp add: answers_def)
  obtain g' where g': "rx_data_recv g (nop @ p) = Some (g', [p])" "hci_wait g' = 1"
    using recv_packets [of "[nop, p]" "[]" "nop @ p" g] n p assms(1,3,4) by (auto simp: rx_data_recv_def)
  have "hci_cmd_finish (g'\<lparr>hci_opcode := BT_HCI_OP_RESET\<rparr>) \<noteq> None" using g'(2) by (simp add: hci_cmd_finish_def)
  then show ?thesis using g'(1) bs unfolding hci_cmd_start_def nop_def by auto
qed

theorem nop_event_releases_next_command_witness:
  "\<exists>g' g'' bs. rx_data_recv ex_globals ([4, 0x0f, 4, 0, 1, 0, 0] @ [4, 0x10, 1, 0]) = Some (g', [[4, 0x10, 1, 0]]) \<and>
     hci_cmd_start g' BT_HCI_OP_RESET None = Some (g'', bs) \<and> hci_cmd_finish g'' \<noteq> None"
proof (rule nop_event_releases_next_command)
  show "chip_packet [4, 0x10, 1, 0]" "\<not> command_event [4, 0x10, 1, 0]" by code_simp+
qed (simp_all add: ex_globals_def)

section \<open>Commands\<close>

lemma memcpy_zeros: "length c \<le> n \<Longrightarrow> memcpy_at (replicate n 0) 0 c = Some (c @ replicate (n - length c) 0)"
  by (simp add: memcpy_at_def)

lemma read_padded:
  "length c + 4 - length c mod 4 \<le> n \<Longrightarrow>
     read_bytes (c @ replicate (n - length c) 0) 0 (length c + 4 - length c mod 4) = Some (c @ replicate (4 - length c mod 4) 0)"
  by (simp add: read_bytes_def min_def)

definition hci_command :: "u16 \<Rightarrow> u8 list \<Rightarrow> u8 list" where
  "hci_command opcode d = 1 # UINT16_TO_STREAM opcode @ of_nat (length d) # d"

lemma cmd_bytes_padded:
  assumes "length d \<le> 255"
  shows "hci_cmd_bytes opcode (Some d) = Some (padded (hci_command opcode d))"
proof -
  define c where "c = hci_command opcode d"
  have l: "length c = length d + 4" by (simp add: c_def hci_command_def UINT16_TO_STREAM_def)
  have n: "length c + 4 - length c mod 4 \<le> 262"
    using assms l mod_less_divisor [of 4 "length c"] by presburger
  have "length c \<le> 262" using assms l by simp
  have "padded c = c @ replicate (4 - length c mod 4) 0"
    by (simp add: padded_def c_def hci_command_def DATA_TYPE_COMMAND_def)
  then show ?thesis
    using memcpy_zeros [OF \<open>length c \<le> 262\<close>] read_padded [OF n]
    by (simp add: hci_cmd_bytes_def c_def [unfolded hci_command_def, symmetric] hci_command_def HCI_CMD_def HCI_CMD_MAX_LEN_def BYTE_ALIGNMENT_def)
qed

lemma command_packets:
  assumes "length d \<le> 255"
  shows "hci_packets (hci_command opcode d) = Some ([padded (hci_command opcode d)], [])"
proof -
  define c where "c = hci_command opcode d"
  have c: "hd c = 1" "length c = length d + 4" "c ! 3 = of_nat (length d)"
    by (simp_all add: c_def hci_command_def UINT16_TO_STREAM_def)
  have u: "unat (of_nat (length d) :: u8) = length d" using assms by (simp add: unsigned_of_nat take_bit_nat_eq_self)
  have p: "header_len (hd c) = 4" "valid_type (hd c)" "packet_len c = length c"
    using c u by (simp_all add: header_len_def packet_len_def valid_type_def DATA_TYPE_ACL_def DATA_TYPE_EVENT_def DATA_TYPE_COMMAND_def)
  show ?thesis
    using packets_full [of c "[]"] p c assms by (simp add: c_def MAX_PACKET_def)
qed

text \<open>
  A command that the driver sends itself is on the bus exactly as if the same packet had been written
  to the tty: header, length, payload and padding agree, for every payload that a command can have.
\<close>

theorem own_commands_as_written:
  assumes "length d \<le> 255" and "idle rd" and "pend rd = []" and "length (hci_command opcode d) \<le> fifo_size rd"
  shows "\<exists>bs rd'. hci_cmd_bytes opcode (Some d) = Some bs \<and>
     sitm_write (Some rd) (hci_command opcode d) = Some (Some rd', length (hci_command opcode d), [bs])"
  using sitm_write_packs [OF assms(2), of "hci_command opcode d" "[padded (hci_command opcode d)]" "[]"]
    cmd_bytes_padded [OF assms(1), of opcode] command_packets [OF assms(1), of opcode] assms(3,4)
  by auto

theorem own_commands_as_written_witness:
  "\<exists>bs rd'. hci_cmd_bytes 0xfca1 (Some [0, 0, 1]) = Some bs \<and>
     sitm_write (Some sitm_started) (hci_command 0xfca1 [0, 0, 1]) = Some (Some rd', 7, [bs])"
  using own_commands_as_written [of "[0, 0, 1]" sitm_started "0xfca1"]
  by (auto simp: idle_def sitm_started_def sitm_ok_def buffers_def pend_def hci_command_def UINT16_TO_STREAM_def)

section \<open>The table of wake devices\<close>

definition wake_key :: "woble_dev_t \<Rightarrow> u8 \<times> u8 list" where
  "wake_key d = (wd_type d, bd_addr d)"

definition used :: "woble_dev_t list \<Rightarrow> woble_dev_t list" where
  "used ds = filter (\<lambda>d. in_use d \<noteq> 0) ds"

text \<open>The table stands for a map from type and address to the connection handle.\<close>

definition wake_map :: "woble_dev_t list \<Rightarrow> (u8 \<times> u8 list \<rightharpoonup> u16)" where
  "wake_map ds = map_of (map (\<lambda>d. (wake_key d, handler d)) (used ds))"

definition woble_ok :: "woble_dev_t list \<Rightarrow> bool" where
  "woble_ok ds \<longleftrightarrow> length ds = WOBLE_DEVICES_SIZE \<and> distinct (map wake_key (used ds)) \<and> (\<forall>d \<in> set (used ds). length (bd_addr d) = 6)"

lemma used_simps [simp]:
  "used [] = []" "used (d # ds) = (if in_use d = 0 then used ds else d # used ds)" "used (ds @ es) = used ds @ used es"
  by (simp_all add: used_def)

lemma matches_key: "length addr = 6 \<Longrightarrow> matches ty addr d \<longleftrightarrow> in_use d \<noteq> 0 \<and> wake_key d = (ty, addr)"
  by (auto simp: matches_def wake_key_def BD_ADDR_LEN_def)

lemma replace_first_Some:
  "replace_first P y xs = Some ys \<Longrightarrow> \<exists>us x vs. xs = us @ x # vs \<and> ys = us @ y # vs \<and> P x \<and> (\<forall>u \<in> set us. \<not> P u)"
proof (induction xs arbitrary: ys)
  case (Cons x xs)
  show ?case
  proof (cases "P x")
    case True
    then show ?thesis using Cons.prems by (intro exI [of _ "[]"]) auto
  next
    case False
    then obtain zs where z: "replace_first P y xs = Some zs" "ys = x # zs" using Cons.prems by auto
    obtain us u vs where "xs = us @ u # vs" "zs = us @ y # vs" "P u" "\<forall>u \<in> set us. \<not> P u" using Cons.IH [OF z(1)] by blast
    then show ?thesis using z(2) False by (intro exI [of _ "x # us"]) auto
  qed
qed simp

lemma replace_first_None: "replace_first P y xs = None \<longleftrightarrow> (\<forall>x \<in> set xs. \<not> P x)"
  by (induction xs) auto

lemma wake_map_insert:
  assumes "(ty, a) \<notin> wake_key ` set (used us)"
  shows "wake_map (us @ \<lparr>in_use = 1, wd_type = ty, handler = h, bd_addr = a\<rparr> # vs) = (wake_map (us @ vs)) ((ty, a) \<mapsto> h)"
proof -
  have "map_of (map (\<lambda>d. (wake_key d, handler d)) (used us)) (ty, a) = None"
    using assms by (auto simp: map_of_eq_None_iff)
  then show ?thesis by (auto simp: wake_map_def wake_key_def map_add_def fun_eq_iff split: option.splits)
qed

lemma dom_wake_map: "dom (wake_map ds) = wake_key ` set (used ds)"
  by (simp add: wake_map_def dom_map_of_conv_image_fst image_image)

lemma card_wake_map: "woble_ok ds \<Longrightarrow> card (dom (wake_map ds)) = length (used ds)"
  unfolding dom_wake_map woble_ok_def by (metis distinct_card length_map list.set_map)

lemma used_full: "length (used ds) < length ds \<longleftrightarrow> (\<exists>d \<in> set ds. in_use d = 0)"
  by (induction ds) (auto simp: less_Suc_eq_le le_less used_def)

lemma put_device:
  assumes "ds = us @ x # vs" and n: "(ty, a) \<notin> wake_key ` set (used us)" "(ty, a) \<notin> wake_key ` set (used vs)"
    and ok: "woble_ok ds" and "length a = 6"
  shows "woble_ok (us @ \<lparr>in_use = 1, wd_type = ty, handler = h, bd_addr = a\<rparr> # vs) \<and>
     wake_map (us @ \<lparr>in_use = 1, wd_type = ty, handler = h, bd_addr = a\<rparr> # vs) = (wake_map (us @ vs)) ((ty, a) \<mapsto> h)"
proof -
  have "wake_key \<lparr>in_use = 1, wd_type = ty, handler = h, bd_addr = a\<rparr> = (ty, a)" by (simp add: wake_key_def)
  then show ?thesis
    using assms(1,5) n ok wake_map_insert [OF n(1), of h vs] by (auto simp: woble_ok_def split: if_splits)
qed

text \<open>The table takes a new device as long as it has a free entry, and always one it knows.\<close>

lemma update_refines:
  assumes ok: "woble_ok (woble_devices g)" and a: "length addr = 6"
  shows "\<exists>g' ret. update_woble_devices ty h addr g = (g', ret) \<and> woble_ok (woble_devices g') \<and> own_addr g' = own_addr g \<and>
     (if (ty, addr) \<in> dom (wake_map (woble_devices g)) \<or> card (dom (wake_map (woble_devices g))) < WOBLE_DEVICES_SIZE
      then ret = 0 \<and> wake_map (woble_devices g') = (wake_map (woble_devices g)) ((ty, addr) \<mapsto> h)
      else ret = - 1 \<and> g' = g)"
proof -
  define dev where "dev = \<lparr>in_use = 1, wd_type = ty, handler = h, bd_addr = addr\<rparr>"
  define ds where "ds = woble_devices g"
  have mk: "matches ty addr d \<longleftrightarrow> in_use d \<noteq> 0 \<and> wake_key d = (ty, addr)" for d using a by (rule matches_key)
  have tk: "take BD_ADDR_LEN addr = addr" using a by (simp add: BD_ADDR_LEN_def)
  have upd: "update_woble_devices ty h addr g = (case replace_first (matches ty addr) dev ds of
        Some ds \<Rightarrow> (g\<lparr>woble_devices := ds\<rparr>, 0)
      | None \<Rightarrow> (case replace_first (\<lambda>d. in_use d = 0) dev ds of
            Some ds \<Rightarrow> (g\<lparr>woble_devices := ds\<rparr>, 0) | None \<Rightarrow> (g, - 1)))"
    unfolding update_woble_devices_def tk dev_def ds_def Let_def by (rule refl)
  have put: "woble_ok (us @ dev # vs) \<and> wake_map (us @ dev # vs) = (wake_map (us @ vs)) ((ty, addr) \<mapsto> h)"
    if "ds = us @ x # vs" "(ty, addr) \<notin> wake_key ` set (used us)" "(ty, addr) \<notin> wake_key ` set (used vs)" for us x vs
    using put_device [OF that _ a, of h] ok by (simp add: ds_def dev_def)
  show ?thesis
  proof (cases "replace_first (matches ty addr) dev ds")
    case (Some ys)
    obtain us x vs where s: "ds = us @ x # vs" "ys = us @ dev # vs" "matches ty addr x" "\<forall>u \<in> set us. \<not> matches ty addr u"
      using replace_first_Some [OF Some] by blast
    then have x: "in_use x \<noteq> 0" "wake_key x = (ty, addr)" by (simp_all add: mk)
    then have d: "(ty, addr) \<notin> wake_key ` set (used us)" "(ty, addr) \<notin> wake_key ` set (used vs)"
      using ok s(1) by (auto simp: woble_ok_def ds_def [symmetric] image_iff)
    have "wake_map ds = (wake_map (us @ vs)) ((ty, addr) \<mapsto> handler x)"
      using s(1) x d(1) wake_map_insert [of ty addr us "handler x" vs]
      by (auto simp: wake_map_def wake_key_def)
    then have "wake_map ys = (wake_map ds) ((ty, addr) \<mapsto> h)" "(ty, addr) \<in> dom (wake_map ds)" "woble_ok ys"
      using put [OF s(1) d] s(2) by simp_all
    then show ?thesis using Some upd by (simp add: ds_def)
  next
    case None
    then have n: "(ty, addr) \<notin> dom (wake_map ds)"
      by (auto simp: replace_first_None mk dom_wake_map used_def)
    have c: "card (dom (wake_map ds)) < WOBLE_DEVICES_SIZE \<longleftrightarrow> (\<exists>d \<in> set ds. in_use d = 0)"
      using card_wake_map [OF ok] used_full [of ds] ok by (simp add: ds_def woble_ok_def)
    show ?thesis
    proof (cases "replace_first (\<lambda>d. in_use d = 0) dev ds")
      case (Some ys)
      obtain us x vs where s: "ds = us @ x # vs" "ys = us @ dev # vs" "in_use x = 0"
        using replace_first_Some [OF Some] by blast
      have "wake_map ds = wake_map (us @ vs)" using s by (simp add: wake_map_def)
      moreover have "(ty, addr) \<notin> wake_key ` set (used us)" "(ty, addr) \<notin> wake_key ` set (used vs)"
        using n s(1) by (auto simp: dom_wake_map)
      ultimately have "woble_ok ys" "wake_map ys = (wake_map ds) ((ty, addr) \<mapsto> h)" using put [OF s(1)] s(2) by simp_all
      moreover have "\<exists>d \<in> set ds. in_use d = 0" using s by auto
      ultimately show ?thesis using None Some upd c by (simp add: ds_def)
    next
      case none2: None
      then have "\<not> (\<exists>d \<in> set ds. in_use d = 0)" by (simp add: replace_first_None)
      then show ?thesis using None none2 upd c n ok by (simp add: ds_def)
    qed
  qed
qed

lemma del_refines:
  assumes ok: "woble_ok (woble_devices g)" and a: "length addr = 6"
  shows "woble_ok (woble_devices (del_woble_devices ty addr g)) \<and>
     wake_map (woble_devices (del_woble_devices ty addr g)) = (wake_map (woble_devices g)) ((ty, addr) := None)"
proof -
  define f where "f = (\<lambda>d. if matches ty addr d then empty_woble_dev else d)"
  have mk: "matches ty addr d \<longleftrightarrow> in_use d \<noteq> 0 \<and> wake_key d = (ty, addr)" for d using a by (rule matches_key)
  have u: "used (map f ds) = filter (\<lambda>d. wake_key d \<noteq> (ty, addr)) (used ds)" for ds
    by (induction ds) (auto simp: f_def mk empty_woble_dev_def)
  have m: "map_of (map (\<lambda>d. (wake_key d, handler d)) (filter (\<lambda>d. wake_key d \<noteq> k) ds)) =
      (map_of (map (\<lambda>d. (wake_key d, handler d)) ds)) (k := None)" for ds k
    by (induction ds) auto
  have "woble_ok (map f (woble_devices g))"
    using ok by (auto simp: woble_ok_def u distinct_map_filter)
  then show ?thesis
    by (simp add: del_woble_devices_def f_def [symmetric]) (simp add: wake_map_def u m)
qed


section \<open>The file woble\_set\<close>

text \<open>What a page written to the file means for the map.\<close>

definition store_spec :: "u8 list \<Rightarrow> (u8 \<times> u8 list \<rightharpoonup> u16) \<Rightarrow> (u8 \<times> u8 list \<rightharpoonup> u16)" where
  "store_spec page m =
     (if page ! 0 = 0 then Map.empty
      else if page ! 0 = 2 then
        (let k = (page ! 1, take 6 (drop 4 page)) in
         if k \<in> dom m \<or> card (dom m) < WOBLE_DEVICES_SIZE then m(k \<mapsto> ucast (page ! 2) + push_bit 8 (ucast (page ! 3))) else m)
      else if page ! 0 = 3 then m((page ! 1, take 6 (drop 2 page)) := None)
      else m)"

lemma clear_refines: "woble_ok (woble_devices (clear_woble_devices g)) \<and> wake_map (woble_devices (clear_woble_devices g)) = Map.empty"
  by (simp add: clear_woble_devices_def woble_ok_def wake_map_def used_def empty_woble_dev_def)

lemma store_refines:
  assumes ok: "woble_ok (woble_devices g)" and len: "10 \<le> length page"
  shows "\<exists>g'. woble_set_store page g = Some g' \<and> woble_ok (woble_devices g') \<and>
     wake_map (woble_devices g') = store_spec page (wake_map (woble_devices g))"
proof -
  have rd: "read_bytes page i BD_ADDR_LEN = Some (take 6 (drop i page))" "length (take 6 (drop i page)) = 6" if "i \<le> 4" for i
    using len that by (simp_all add: read_bytes_def BD_ADDR_LEN_def)
  have get: "aget page i = Some (page ! i)" if "i \<le> 4" for i using len that by (simp add: aget_eq_Some_iff)
  have u16: "STREAM_TO_UINT16 page 2 = Some (ucast (page ! 2) + push_bit 8 (ucast (page ! 3)))"
    using get [of 2] get [of 3] by (simp add: STREAM_TO_UINT16_def)
  consider "page ! 0 = 0" | "page ! 0 = 1" | "page ! 0 = 2" | "page ! 0 = 3" | "page ! 0 = 4" | "page ! 0 = 5"
    | "page ! 0 \<notin> {0, 1, 2, 3, 4, 5}" by auto
  then show ?thesis
  proof cases
    case 3
    obtain g' ret where "update_woble_devices (page ! 1) (ucast (page ! 2) + push_bit 8 (ucast (page ! 3))) (take 6 (drop 4 page)) g = (g', ret)"
      and g': "woble_ok (woble_devices g')" "(if (page ! 1, take 6 (drop 4 page)) \<in> dom (wake_map (woble_devices g)) \<or>
        card (dom (wake_map (woble_devices g))) < WOBLE_DEVICES_SIZE
      then ret = 0 \<and> wake_map (woble_devices g') = (wake_map (woble_devices g))
        ((page ! 1, take 6 (drop 4 page)) \<mapsto> ucast (page ! 2) + push_bit 8 (ucast (page ! 3)))
      else ret = - 1 \<and> g' = g)"
      using update_refines [OF ok rd(2) [of 4]] by (metis order.refl)
    then have "woble_set_store page g = Some g'" using 3 get [of 0] get [of 1] u16 rd(1) [of 4] by (simp add: woble_set_store_def)
    then show ?thesis using g' 3 by (auto simp: store_spec_def Let_def split: if_splits)
  next
    case 4
    then show ?thesis
      using del_refines [OF ok rd(2) [of 2], of "page ! 1"] get [of 0] get [of 1] rd(1) [of 2]
      by (simp add: woble_set_store_def store_spec_def)
  qed (use ok get [of 0] rd(1) [of 1] clear_refines in \<open>simp_all add: woble_set_store_def store_spec_def set_random_address_def\<close>)
qed

fun woble_stores :: "u8 list list \<Rightarrow> hci_globals \<Rightarrow> hci_globals option" where
  "woble_stores [] g = Some g"
| "woble_stores (p # ps) g = do { g \<leftarrow> woble_set_store p g; woble_stores ps g }"

lemma stores_refine:
  "woble_ok (woble_devices g) \<Longrightarrow> \<forall>p \<in> set ps. 10 \<le> length p \<Longrightarrow>
     \<exists>g'. woble_stores ps g = Some g' \<and> woble_ok (woble_devices g') \<and>
       wake_map (woble_devices g') = fold store_spec ps (wake_map (woble_devices g))"
proof (induction ps arbitrary: g)
  case (Cons p ps)
  obtain g1 where "woble_set_store p g = Some g1" "woble_ok (woble_devices g1)"
      "wake_map (woble_devices g1) = store_spec p (wake_map (woble_devices g))"
    using store_refines [OF Cons.prems(1), of p] Cons.prems(2) by auto
  then show ?case using Cons.IH [of g1] Cons.prems(2) by auto
qed simp

text \<open>
  C21. From the start of the driver, whatever is written to the file \<open>woble_set\<close>, the table stands for a finite map of at
  most ten devices: a device is added or its handle replaced, removed, or all are cleared, no device is held
  twice, and a device that finds no room changes nothing.
\<close>

theorem wake_table_refines_map:
  assumes "list_all (\<lambda>p. 10 \<le> length p) pages"
  shows "\<exists>g'. woble_stores pages (hci_init g) = Some g' \<and> wake_map (woble_devices g') = fold store_spec pages Map.empty \<and>
     distinct (map wake_key (used (woble_devices g'))) \<and> card (dom (wake_map (woble_devices g'))) \<le> 10"
proof -
  have i: "woble_ok (woble_devices (hci_init g))" "wake_map (woble_devices (hci_init g)) = Map.empty"
    using clear_refines [of "g\<lparr>hci_opcode := 0\<rparr>"] by (simp_all add: hci_init_def)
  obtain g' where g': "woble_stores pages (hci_init g) = Some g'" "woble_ok (woble_devices g')"
      "wake_map (woble_devices g') = fold store_spec pages Map.empty"
    using stores_refine [OF i(1), of pages] assms i(2) by (auto simp: list_all_iff)
  then have "length (used (woble_devices g')) \<le> 10"
    using length_filter_le [of "\<lambda>d. in_use d \<noteq> 0" "woble_devices g'"] by (simp add: woble_ok_def WOBLE_DEVICES_SIZE_def used_def)
  then show ?thesis using g' card_wake_map [OF g'(2)] by (auto simp: woble_ok_def)
qed

theorem wake_table_refines_map_witness:
  "\<exists>g'. woble_stores [[2, 1, 5, 0, 1, 2, 3, 4, 5, 6], [3, 1, 1, 2, 3, 4, 5, 6, 0, 0]] (hci_init ex_globals) = Some g' \<and>
     wake_map (woble_devices g') = Map.empty"
  using wake_table_refines_map [of "[[2, 1, 5, 0, 1, 2, 3, 4, 5, 6], [3, 1, 1, 2, 3, 4, 5, 6, 0, 0]]" ex_globals]
  by (auto simp: store_spec_def Let_def WOBLE_DEVICES_SIZE_def)

section \<open>Enabling wake up\<close>

text \<open>The payload has the address of the host, the number of devices, and type and address of each.\<close>

definition woble_payload :: "u8 list \<Rightarrow> woble_dev_t list \<Rightarrow> u8 list" where
  "woble_payload addr ds = rev addr @ [of_nat (length ds)] @ concat (map (\<lambda>d. wd_type d # rev (bd_addr d)) ds)"

lemma woble_loop_payload:
  assumes "length addr = 6" and "\<forall>d \<in> set (used ds). length (bd_addr d) = 6" and "\<forall>d \<in> set es. length (bd_addr d) = 6"
    and "length es + length (used ds) \<le> 10"
  shows "\<exists>cmds. woble_loop ds (woble_payload addr es) = Some (cmds, woble_payload addr (es @ used ds)) \<and>
     cmds = concat (map (\<lambda>d. if handler d \<noteq> 0 \<and> handler d \<noteq> 0xffff then [(0x0406, UINT16_TO_STREAM (handler d) @ [0x13])] else []) (used ds))"
  using assms
proof (induction ds arbitrary: es)
  case (Cons d ds)
  show ?case
  proof (cases "in_use d = 0")
    case False
    define p where "p = woble_payload addr es @ wd_type d # BDADDR_TO_STREAM (bd_addr d)"
    have d: "length (bd_addr d) = 6" using Cons.prems(2) False by simp
    have c: "length (concat (map (\<lambda>d. wd_type d # rev (bd_addr d)) es)) = 7 * length es"
      using Cons.prems(3) by (induction es) auto
    have b: "BDADDR_TO_STREAM (bd_addr d) = rev (bd_addr d)" using d by (simp add: BDADDR_TO_STREAM_def BD_ADDR_LEN_def)
    have l: "length p \<le> 100" using c d b Cons.prems(1,4) False by (simp add: p_def woble_payload_def)
    have g: "p ! 6 = of_nat (length es)" "6 < length p" using Cons.prems(1) by (simp_all add: p_def woble_payload_def nth_append)
    have u: "p[6 := of_nat (length es) + 1] = woble_payload addr (es @ [d])"
      using Cons.prems(1) b by (simp add: p_def woble_payload_def list_update_append add.commute)
    obtain cmds where IH: "woble_loop ds (woble_payload addr (es @ [d])) = Some (cmds, woble_payload addr ((es @ [d]) @ used ds))"
        "cmds = concat (map (\<lambda>d. if handler d \<noteq> 0 \<and> handler d \<noteq> 0xffff then [(0x0406, UINT16_TO_STREAM (handler d) @ [0x13])] else []) (used ds))"
      using Cons.IH [of "es @ [d]"] Cons.prems d False by auto
    show ?thesis
      using False l g u IH by (simp add: p_def [symmetric] WOBLE_PAYLOAD_def BD_ADDR_LEN_def Let_def)
  qed (use Cons in simp)
qed simp

text \<open>
  Enabling wake up sends for every table that the driver can have a payload that fits its allocation, with
  the right number of devices and each device once; all its commands fit the command buffer.
\<close>

theorem woble_enable_payload:
  assumes "woble_ok (woble_devices g)" and "length (own_addr g) = 6"
  shows "\<exists>cmds. hci_woble_enable g = Some cmds \<and>
     last cmds = (BT_HCI_OP_WOBLE, Some (woble_payload (own_addr g) (used (woble_devices g)))) \<and>
     list_all (\<lambda>(op, d). hci_cmd_bytes op d \<noteq> None) cmds"
proof -
  define ds where "ds = used (woble_devices g)"
  have n: "length ds \<le> 10" "\<forall>d \<in> set ds. length (bd_addr d) = 6"
    using assms(1) length_filter_le [of "\<lambda>d. in_use d \<noteq> 0" "woble_devices g"]
    by (simp_all add: woble_ok_def WOBLE_DEVICES_SIZE_def used_def ds_def)
  define disc where "disc = concat (map (\<lambda>d. if handler d \<noteq> 0 \<and> handler d \<noteq> 0xffff
      then [(0x0406 :: u16, UINT16_TO_STREAM (handler d) @ [0x13])] else []) ds)"
  have "woble_payload (own_addr g) [] = BDADDR_TO_STREAM (own_addr g) @ [0]"
    using assms(2) by (simp add: woble_payload_def BDADDR_TO_STREAM_def BD_ADDR_LEN_def)
  then have loop: "woble_loop (woble_devices g) (BDADDR_TO_STREAM (own_addr g) @ [0]) = Some (disc, woble_payload (own_addr g) ds)"
    using woble_loop_payload [OF assms(2), of "woble_devices g" "[]"] n by (simp add: ds_def disc_def)
  have c: "length (concat (map (\<lambda>d. wd_type d # rev (bd_addr d)) ds)) = 7 * length ds"
    using n(2) by (induction ds) auto
  have "length (woble_payload (own_addr g) ds) \<le> 255" using c n(1) assms(2) by (simp add: woble_payload_def)
  then have p: "hci_cmd_bytes op (Some (woble_payload (own_addr g) ds)) \<noteq> None" for op
    by (simp add: cmd_bytes_padded)
  have s: "list_all (\<lambda>(op, d). hci_cmd_bytes op d \<noteq> None) (map (\<lambda>(op, d). (op, Some d)) disc)"
    unfolding disc_def by (auto simp: list_all_iff cmd_bytes_padded UINT16_TO_STREAM_def split: if_splits)
  have "hci_cmd_bytes BT_HCI_OP_RESET None \<noteq> None" "hci_cmd_bytes BT_HCI_OP_ENABLE (Some [0, 0, 1]) \<noteq> None"
    by (simp_all add: cmd_bytes_padded) (simp add: hci_cmd_bytes_def memcpy_at_def read_bytes_def UINT16_TO_STREAM_def BYTE_ALIGNMENT_def HCI_CMD_MAX_LEN_def)
  then show ?thesis using loop p s by (simp add: hci_woble_enable_def ds_def)
qed

theorem woble_enable_payload_witness:
  "\<exists>cmds. hci_woble_enable ex_globals = Some cmds \<and> last cmds = (BT_HCI_OP_WOBLE, Some (woble_payload (replicate 6 0) []))"
  using woble_enable_payload [of ex_globals]
  by (auto simp: ex_globals_def woble_ok_def WOBLE_DEVICES_SIZE_def used_def empty_woble_dev_def)

end
