(* ===== verification/Lmp.thy ===== *)
theory Lmp
  imports Mp_Val
begin

text \<open>
  The second arithmetic for the 192-bit curve, BT/libbt/src/algorithms/lmp_ecc.c, which makes the
  keys of P-192 pairing. A number has seven 32-bit words, most significant first, the number of its
  words in use and a sign; a product has fourteen. A loop of the code from the last word to the
  first runs over the reversed list.
\<close>

section \<open>Numbers\<close>

record bigHex =
  bh_num :: "u32 list"
  bh_len :: nat
  bh_sign :: bool

definition ELEMENTS_BIG_HEX :: nat where "ELEMENTS_BIG_HEX = 7"
definition HIGHEST_INDEX_BIG_HEX :: nat where "HIGHEST_INDEX_BIG_HEX = 6"

definition bigHexP :: bigHex where
  "bigHexP = \<lparr>bh_num = [0, 0xFFFFFFFF, 0xFFFFFFFF, 0xFFFFFFFF, 0xFFFFFFFE, 0xFFFFFFFF, 0xFFFFFFFF],
     bh_len = 6, bh_sign = False\<rparr>"

definition veryBigHexP :: bigHex where
  "veryBigHexP = \<lparr>bh_num = [0, 0, 0, 0, 0, 0, 0, 0, 0xFFFFFFFF, 0xFFFFFFFF, 0xFFFFFFFF, 0xFFFFFFFE, 0xFFFFFFFF, 0xFFFFFFFF],
     bh_len = 6, bh_sign = False\<rparr>"

definition initBigNumber :: bigHex where
  "initBigNumber = \<lparr>bh_num = replicate ELEMENTS_BIG_HEX 0, bh_len = 0, bh_sign = False\<rparr>"

text \<open>For both sizes: the words from the first that is not zero on.\<close>

definition setBigNumberLength :: "bigHex \<Rightarrow> bigHex" where
  "setBigNumberLength x = x\<lparr>bh_len := length (dropWhile (\<lambda>w. w = 0) (bh_num x))\<rparr>"

definition isbigHexEven :: "bigHex \<Rightarrow> bool" where
  "isbigHexEven x \<longleftrightarrow> bh_num x ! HIGHEST_INDEX_BIG_HEX AND 1 = 0"

definition word_of_u64 :: "u64 \<Rightarrow> u32" where
  "word_of_u64 v = ucast (v AND 0xFFFFFFFF)"

section \<open>Comparison\<close>

fun compare_words :: "bool \<Rightarrow> u32 list \<Rightarrow> u32 list \<Rightarrow> bool" where
  "compare_words eq (a # as) (b # bs) = (if a < b then False else if b < a then True else compare_words eq as bs)"
| "compare_words eq _ _ = eq"

definition compare_by_length :: "bool \<Rightarrow> bigHex \<Rightarrow> bigHex \<Rightarrow> bool" where
  "compare_by_length eq a b = (
     if bh_len b < bh_len a then True
     else if bh_len a < bh_len b then False
     else compare_words eq (drop (length (bh_num a) - bh_len a) (bh_num a)) (drop (length (bh_num b) - bh_len a) (bh_num b)))"

definition isGreaterThan :: "bigHex \<Rightarrow> bigHex \<Rightarrow> bool" where
  "isGreaterThan = compare_by_length False"

definition isGreaterThanOrEqual :: "bigHex \<Rightarrow> bigHex \<Rightarrow> bool" where
  "isGreaterThanOrEqual = compare_by_length True"

definition isVeryBigHexGreaterThanOrEqual :: "bigHex \<Rightarrow> bigHex \<Rightarrow> bool" where
  "isVeryBigHexGreaterThanOrEqual = compare_by_length True"

definition notEqual :: "bigHex \<Rightarrow> bigHex \<Rightarrow> bool" where
  "notEqual a b \<longleftrightarrow> bh_num a \<noteq> bh_num b"

section \<open>Addition and subtraction\<close>

fun lmp_add_loop :: "u32 \<Rightarrow> u32 list \<Rightarrow> u32 list \<Rightarrow> u32 list" where
  "lmp_add_loop carry (a # as) (b # bs) = (
     let tmp = ucast a + ucast b + ucast carry :: u64 in
     word_of_u64 tmp # lmp_add_loop (if tmp AND 0x100000000 \<noteq> 0 then 1 else 0) as bs)"
| "lmp_add_loop carry _ _ = []"

fun lmp_sub_loop :: "u32 \<Rightarrow> u32 list \<Rightarrow> u32 list \<Rightarrow> u32 list" where
  "lmp_sub_loop borrow (a # as) (b # bs) = (
     if (ucast a :: u64) < ucast b + ucast borrow
     then word_of_u64 ((ucast a + 0x100000000) - ucast (b + borrow)) # lmp_sub_loop 1 as bs
     else (a - (b + borrow)) # lmp_sub_loop 0 as bs)"
| "lmp_sub_loop borrow _ _ = []"

definition add_nums :: "u32 list \<Rightarrow> u32 list \<Rightarrow> u32 list" where
  "add_nums a b = rev (lmp_add_loop 0 (rev a) (rev b))"

definition sub_nums :: "u32 list \<Rightarrow> u32 list \<Rightarrow> u32 list" where
  "sub_nums a b = rev (lmp_sub_loop 0 (rev a) (rev b))"

definition AddBigHex :: "bigHex \<Rightarrow> bigHex \<Rightarrow> bigHex \<Rightarrow> bigHex" where
  "AddBigHex a b r = setBigNumberLength (r\<lparr>bh_num := add_nums (bh_num a) (bh_num b)\<rparr>)\<lparr>bh_sign := False\<rparr>"

definition Add2SelfBigHex :: "bigHex \<Rightarrow> bigHex \<Rightarrow> bigHex" where
  "Add2SelfBigHex a b = setBigNumberLength (a\<lparr>bh_num := add_nums (bh_num a) (bh_num b)\<rparr>)"

text \<open>The sign of the result stays what it was.\<close>

definition SubtractBigHex :: "bigHex \<Rightarrow> bigHex \<Rightarrow> bigHex \<Rightarrow> bigHex" where
  "SubtractBigHex a b r = setBigNumberLength (r\<lparr>bh_num := sub_nums (bh_num a) (bh_num b)\<rparr>)"

definition SubtractFromSelfBigHex :: "bigHex \<Rightarrow> bigHex \<Rightarrow> bigHex" where
  "SubtractFromSelfBigHex a b = setBigNumberLength (a\<lparr>bh_num := sub_nums (bh_num a) (bh_num b)\<rparr>)"

definition AddP :: "bigHex \<Rightarrow> bigHex" where
  "AddP a = (SubtractBigHex bigHexP a (initBigNumber))\<lparr>bh_sign := False\<rparr>"

definition AddBigHexModP :: "bigHex \<Rightarrow> bigHex \<Rightarrow> bigHex \<Rightarrow> bigHex" where
  "AddBigHexModP a b r = (
     let r = AddBigHex a b r in
     if \<not> bh_sign r then if isGreaterThanOrEqual r bigHexP then SubtractFromSelfBigHex r bigHexP else r
     else AddP r)"

definition SubtractFromSelfBigHexSign :: "bigHex \<Rightarrow> bigHex \<Rightarrow> bigHex" where
  "SubtractFromSelfBigHexSign a b = (
     if \<not> bh_sign a then
       if \<not> bh_sign b then
         if isGreaterThanOrEqual a b then SubtractFromSelfBigHex a b
         else (SubtractBigHex b a initBigNumber)\<lparr>bh_sign := True\<rparr>
       else Add2SelfBigHex a b
     else if \<not> bh_sign b then Add2SelfBigHex a b
     else if isGreaterThanOrEqual b a then (SubtractBigHex b a initBigNumber)\<lparr>bh_sign := False\<rparr>
     else SubtractFromSelfBigHex a b)"

definition SubtractBigHexMod :: "bigHex \<Rightarrow> bigHex \<Rightarrow> bigHex \<Rightarrow> bigHex" where
  "SubtractBigHexMod a b r = (
     let r =
       (if \<not> bh_sign a then
          if \<not> bh_sign b then
            if isGreaterThanOrEqual a b then (SubtractBigHex a b r)\<lparr>bh_sign := False\<rparr>
            else (SubtractBigHex b a r)\<lparr>bh_sign := True\<rparr>
          else (AddBigHex a b r)\<lparr>bh_sign := False\<rparr>
        else if \<not> bh_sign b then (AddBigHex a b r)\<lparr>bh_sign := True\<rparr>
        else if isGreaterThanOrEqual b a then (SubtractBigHex b a r)\<lparr>bh_sign := False\<rparr>
        else (SubtractBigHex a b r)\<lparr>bh_sign := True\<rparr>) in
     if \<not> bh_sign r then if isGreaterThanOrEqual r bigHexP then SubtractFromSelfBigHex r bigHexP else r
     else AddP r)"

text \<open>The length is not set again when the last word suffices.\<close>

definition SubtractBigHexUint32 :: "bigHex \<Rightarrow> u32 \<Rightarrow> bigHex" where
  "SubtractBigHexUint32 a numB = (
     if numB \<le> bh_num a ! HIGHEST_INDEX_BIG_HEX
     then a\<lparr>bh_num := (bh_num a)[HIGHEST_INDEX_BIG_HEX := bh_num a ! HIGHEST_INDEX_BIG_HEX - numB]\<rparr>
     else SubtractBigHexMod a (initBigNumber\<lparr>bh_len := 1, bh_num := (bh_num initBigNumber)[HIGHEST_INDEX_BIG_HEX := numB]\<rparr>) initBigNumber)"

section \<open>Halving\<close>

fun half_words :: "u32 \<Rightarrow> u32 list \<Rightarrow> u32 list" where
  "half_words rem [] = []"
| "half_words rem (w # ws) = (
     let v = ucast w + ucast rem * 0x100000000 :: u64 in
     ucast (drop_bit 1 v) # half_words (ucast (v - push_bit 1 (drop_bit 1 v))) ws)"

definition divideByTwo :: "bigHex \<Rightarrow> bigHex" where
  "divideByTwo a = setBigNumberLength (a\<lparr>bh_num := half_words 0 (bh_num a)\<rparr>)"

text \<open>Adds the prime and halves; the length is only set after the halving.\<close>

definition AddPdiv2 :: "bigHex \<Rightarrow> bigHex" where
  "AddPdiv2 a = (
     let a = (if \<not> bh_sign a then a\<lparr>bh_num := add_nums (bh_num a) (bh_num bigHexP)\<rparr>
       else if isGreaterThan a bigHexP then a\<lparr>bh_num := sub_nums (bh_num a) (bh_num bigHexP)\<rparr>
       else (SubtractBigHex bigHexP a initBigNumber)\<lparr>bh_sign := False\<rparr>) in
     divideByTwo a)"

section \<open>Reduction\<close>

definition MultiplyByU32ModPInv :: "u32 \<Rightarrow> bigHex \<Rightarrow> bigHex" where
  "MultiplyByU32ModPInv N r = (
     let tempVal = ucast (push_bit 1 N) AND 0x1FFFFFFFE :: u64;
         num = ((bh_num r)[6 := N])[4 := N];
         num = num[3 := ucast (drop_bit 32 tempVal AND 0xF)] in
     r\<lparr>bh_num := num, bh_sign := False, bh_len := if num ! 3 \<noteq> 0 then 4 else 3\<rparr>)"

definition over_P :: "bigHex \<Rightarrow> bool" where
  "over_P x \<longleftrightarrow> \<not> bh_sign x \<and> isGreaterThanOrEqual x bigHexP \<or> bh_sign x"

definition specialModP :: "bigHex \<Rightarrow> bigHex" where
  "specialModP x = (
     if over_P x then
       let x =
         (if bh_len bigHexP < bh_len x then
            let NModPinv = MultiplyByU32ModPInv (bh_num x ! (ELEMENTS_BIG_HEX - bh_len x)) initBigNumber;
                x = x\<lparr>bh_num := (bh_num x)[0 := 0]\<rparr> in
            if \<not> bh_sign x then Add2SelfBigHex x NModPinv else SubtractFromSelfBigHexSign x NModPinv
          else x) in
       if over_P x then if bh_sign x then AddP x else SubtractFromSelfBigHex x bigHexP else x
     else x)"

section \<open>Multiplication\<close>

text \<open>One row: the words of the result from the place of the factor on. The last carry is dropped.\<close>

fun mul_row :: "u32 \<Rightarrow> u32 list \<Rightarrow> u32 list \<Rightarrow> u32 \<Rightarrow> u32 list" where
  "mul_row a (b # bs) (r # rs) mcarry = (
     let v = ucast a * ucast b + ucast r + ucast mcarry :: u64 in
     word_of_u64 v # mul_row a bs rs (ucast (drop_bit 32 v)))"
| "mul_row a _ rs mcarry = rs"

fun mul_rows :: "u32 list \<Rightarrow> u32 list \<Rightarrow> u32 list \<Rightarrow> u32 list" where
  "mul_rows (a # as) bs rs = (case mul_row a bs rs 0 of [] \<Rightarrow> [] | r # rs \<Rightarrow> r # mul_rows as bs rs)"
| "mul_rows [] bs rs = rs"

definition mul_nums :: "u32 list \<Rightarrow> u32 list \<Rightarrow> u32 list" where
  "mul_nums a b = rev (mul_rows (rev a) (rev b) (replicate 14 0))"

definition shift_in :: "bigHex \<Rightarrow> u32 \<Rightarrow> bigHex" where
  "shift_in x w = setBigNumberLength ((specialModP x)\<lparr>bh_num := tl (bh_num (specialModP x)) @ [w]\<rparr>)"

text \<open>
  The words the reduction starts with: the first that is not zero among the first seven, or the eighth, or, when the
  product is not below the prime, the first that is not zero at all. When fewer than seven follow,
  the end of the copy is never written: \<open>None\<close>.
\<close>

definition first_words :: "bigHex \<Rightarrow> nat" where
  "first_words t = (
     let i = length (takeWhile (\<lambda>w. w = 0) (take ELEMENTS_BIG_HEX (bh_num t))) in
     if isVeryBigHexGreaterThanOrEqual t veryBigHexP
     then i + length (takeWhile (\<lambda>w. w = 0) (drop i (bh_num t))) else i)"

definition MultiplyBigHexModP :: "bigHex \<Rightarrow> bigHex \<Rightarrow> bigHex option" where
  "MultiplyBigHexModP a b = (
     let t = setBigNumberLength \<lparr>bh_num = mul_nums (bh_num a) (bh_num b), bh_len = 0, bh_sign = False\<rparr>;
         t = t\<lparr>bh_sign := bh_sign a \<noteq> bh_sign b\<rparr>;
         i = first_words t in
     if i + ELEMENTS_BIG_HEX \<le> length (bh_num t) then
       Some (specialModP (foldl shift_in
         (setBigNumberLength \<lparr>bh_num = take ELEMENTS_BIG_HEX (drop i (bh_num t)), bh_len = 0, bh_sign = bh_sign t\<rparr>)
         (drop (i + ELEMENTS_BIG_HEX) (bh_num t))))
     else None)"

fun mul_word :: "u32 list \<Rightarrow> u32 \<Rightarrow> u32 \<Rightarrow> u32 list" where
  "mul_word [] n mcarry = []"
| "mul_word (a # as) n mcarry = (
     let v = ucast a * ucast n + ucast mcarry :: u64 in
     word_of_u64 v # mul_word as n (ucast (drop_bit 32 v)))"

definition MultiplyBigHexByUint32 :: "bigHex \<Rightarrow> u32 \<Rightarrow> bigHex" where
  "MultiplyBigHexByUint32 a n = (
     let r = setBigNumberLength \<lparr>bh_num = rev (mul_word (rev (bh_num a)) n 0), bh_len = 0, bh_sign = False\<rparr> in
     specialModP (r\<lparr>bh_sign := bh_sign a\<rparr>))"

section \<open>Inversion\<close>

definition halve_with :: "bigHex \<Rightarrow> bigHex" where
  "halve_with A = (if isbigHexEven A then divideByTwo A else AddPdiv2 A)"

partial_function (option) halve_loop :: "bigHex \<Rightarrow> bigHex \<Rightarrow> (bigHex \<times> bigHex) option" where
  "halve_loop u A = (if isbigHexEven u then halve_loop (divideByTwo u) (halve_with A) else Some (u, A))"

partial_function (option) inversion_loop ::
  "bigHex \<Rightarrow> bigHex \<Rightarrow> bigHex \<Rightarrow> bigHex \<Rightarrow> bigHex option" where
  "inversion_loop u v A C = (
     if bh_len u = 0 then Some C else do {
       (u, A) \<leftarrow> halve_loop u A;
       (v, C) \<leftarrow> halve_loop v C;
       if isGreaterThanOrEqual u v
       then inversion_loop (SubtractFromSelfBigHex u v) v (SubtractFromSelfBigHexSign A C) C
       else inversion_loop u (SubtractFromSelfBigHex v u) A (SubtractFromSelfBigHexSign C A) })"

declare halve_loop.simps [simp del] inversion_loop.simps [simp del]

definition bigHexInversion :: "bigHex \<Rightarrow> bigHex option" where
  "bigHexInversion a = do {
     C \<leftarrow> inversion_loop (a\<lparr>bh_sign := False\<rparr>) bigHexP
       (initBigNumber\<lparr>bh_num := (bh_num initBigNumber)[HIGHEST_INDEX_BIG_HEX := 1], bh_len := 1\<rparr>)
       (initBigNumber\<lparr>bh_num := (bh_num initBigNumber)[HIGHEST_INDEX_BIG_HEX := 0], bh_len := 1\<rparr>);
     Some (if \<not> bh_sign C then if isGreaterThan bigHexP C then C else specialModP C else specialModP C) }"

section \<open>Points\<close>

text \<open>Results are written into uninitialised variables, whose content makes no difference.\<close>

record ECC_Point =
  ax :: bigHex
  ay :: bigHex

record ECC_Jacobian_Point =
  jx :: bigHex
  jy :: bigHex
  jz :: bigHex

definition small_num :: "u32 \<Rightarrow> bigHex" where
  "small_num w = \<lparr>bh_num = (replicate ELEMENTS_BIG_HEX 0)[HIGHEST_INDEX_BIG_HEX := w], bh_len = 1, bh_sign = False\<rparr>"

definition LMecc_Jacobian_InfinityPoint :: ECC_Jacobian_Point where
  "LMecc_Jacobian_InfinityPoint = \<lparr>jx = initBigNumber, jy = small_num 1, jz = initBigNumber\<rparr>"

definition GF_Setup_Jacobian_Infinity_Point :: ECC_Jacobian_Point where
  "GF_Setup_Jacobian_Infinity_Point = \<lparr>jx = small_num 0, jy = small_num 1, jz = small_num 0\<rparr>"

definition GF_Affine_To_Jacobian_Point_Copy :: "ECC_Point \<Rightarrow> ECC_Jacobian_Point" where
  "GF_Affine_To_Jacobian_Point_Copy p = \<lparr>jx = ax p, jy = ay p, jz = small_num 1\<rparr>"

definition Is_Infinite :: "ECC_Jacobian_Point \<Rightarrow> bool" where
  "Is_Infinite p \<longleftrightarrow> \<not> notEqual (jx p) (jx LMecc_Jacobian_InfinityPoint) \<and>
     \<not> notEqual (jy p) (jy LMecc_Jacobian_InfinityPoint) \<and> \<not> notEqual (jz p) (jz LMecc_Jacobian_InfinityPoint)"

definition GF_Jacobian_Point_Double :: "ECC_Jacobian_Point \<Rightarrow> ECC_Jacobian_Point option" where
  "GF_Jacobian_Point_Double p = do {
     let X_plus_Z = AddBigHexModP (jx p) (jz p) initBigNumber;
     let X_minus_Z = SubtractBigHexMod (jx p) (jz p) initBigNumber;
     int1 \<leftarrow> MultiplyBigHexModP X_plus_Z X_minus_Z;
     let W = MultiplyBigHexByUint32 int1 3;
     S \<leftarrow> MultiplyBigHexModP (jy p) (jz p);
     int1 \<leftarrow> MultiplyBigHexModP (jy p) S;
     B \<leftarrow> MultiplyBigHexModP (jx p) int1;
     W_sqr \<leftarrow> MultiplyBigHexModP W W;
     let Eight_B = MultiplyBigHexByUint32 B 8;
     let H = SubtractBigHexMod W_sqr Eight_B initBigNumber;
     int1 \<leftarrow> MultiplyBigHexModP H S;
     let x = MultiplyBigHexByUint32 int1 2;
     Y_sqr \<leftarrow> MultiplyBigHexModP (jy p) (jy p);
     S_sqr \<leftarrow> MultiplyBigHexModP S S;
     int1 \<leftarrow> MultiplyBigHexModP Y_sqr S_sqr;
     let int2 = MultiplyBigHexByUint32 int1 8;
     let int3 = MultiplyBigHexByUint32 B 4;
     let int4 = SubtractBigHexMod int3 H initBigNumber;
     int5 \<leftarrow> MultiplyBigHexModP W int4;
     let y = SubtractBigHexMod int5 int2 initBigNumber;
     int1 \<leftarrow> MultiplyBigHexModP S_sqr S;
     let z = MultiplyBigHexByUint32 int1 8;
     Some \<lparr>jx = x, jy = y, jz = z\<rparr> }"

definition add_formula :: "ECC_Jacobian_Point \<Rightarrow> ECC_Jacobian_Point \<Rightarrow>
    bigHex \<Rightarrow> bigHex \<Rightarrow> bigHex \<Rightarrow> bigHex \<Rightarrow> ECC_Jacobian_Point option" where
  "add_formula p q U1 U2 V1 V2 = do {
     let U = SubtractBigHexMod U1 U2 initBigNumber;
     let V = SubtractBigHexMod V1 V2 initBigNumber;
     W \<leftarrow> MultiplyBigHexModP (jz p) (jz q);
     V_sqr \<leftarrow> MultiplyBigHexModP V V;
     V_cube \<leftarrow> MultiplyBigHexModP V_sqr V;
     U_sqr \<leftarrow> MultiplyBigHexModP U U;
     V_sqr_mult_by_V2 \<leftarrow> MultiplyBigHexModP V_sqr V2;
     let twice = MultiplyBigHexByUint32 V_sqr_mult_by_V2 2;
     int3 \<leftarrow> MultiplyBigHexModP U_sqr W;
     let int4 = SubtractBigHexMod int3 V_cube initBigNumber;
     let A = SubtractBigHexMod int4 twice initBigNumber;
     x \<leftarrow> MultiplyBigHexModP V A;
     let int1 = SubtractBigHexMod V_sqr_mult_by_V2 A initBigNumber;
     int2 \<leftarrow> MultiplyBigHexModP U int1;
     int3 \<leftarrow> MultiplyBigHexModP V_cube U2;
     let y = SubtractBigHexMod int2 int3 initBigNumber;
     z \<leftarrow> MultiplyBigHexModP V_cube W;
     Some \<lparr>jx = x, jy = y, jz = z\<rparr> }"

text \<open>No caller looks at the number that is returned, so only the point is.\<close>

definition GF_Jacobian_Point_Addition ::
  "ECC_Jacobian_Point \<Rightarrow> ECC_Jacobian_Point \<Rightarrow> ECC_Jacobian_Point option" where
  "GF_Jacobian_Point_Addition p q = (
     if Is_Infinite p then Some (if Is_Infinite q then LMecc_Jacobian_InfinityPoint else q)
     else if Is_Infinite q then Some p
     else if \<not> notEqual (jx q) (jx p) \<and>
       (notEqual (jy q) (jy p) \<or> bh_len (jy q) \<le> 1 \<and> bh_num (jy q) ! 6 = 0)
     then Some LMecc_Jacobian_InfinityPoint
     else do {
       U1 \<leftarrow> MultiplyBigHexModP (jy q) (jz p);
       U2 \<leftarrow> MultiplyBigHexModP (jy p) (jz q);
       V1 \<leftarrow> MultiplyBigHexModP (jx q) (jz p);
       V2 \<leftarrow> MultiplyBigHexModP (jx p) (jz q);
       if \<not> notEqual V1 V2 then
         if notEqual U1 U2 then Some LMecc_Jacobian_InfinityPoint else GF_Jacobian_Point_Double p
       else add_formula p q U1 U2 V1 V2 })"

definition GF_Point_Jacobian_To_Affine :: "ECC_Jacobian_Point \<Rightarrow> ECC_Point option" where
  "GF_Point_Jacobian_To_Affine p = do {
     zi \<leftarrow> bigHexInversion (jz p);
     x \<leftarrow> MultiplyBigHexModP (jx p) zi;
     y \<leftarrow> MultiplyBigHexModP (jy p) zi;
     Some \<lparr>ax = x, ay = y\<rparr> }"

section \<open>Multiplication of a point\<close>

text \<open>The points Q and R are global variables; a byte is taken per call, the last of the number first.\<close>

fun mul_bits :: "nat \<Rightarrow> nat \<Rightarrow> u8 \<Rightarrow> ECC_Jacobian_Point \<times> ECC_Jacobian_Point \<Rightarrow>
    (ECC_Jacobian_Point \<times> ECC_Jacobian_Point) option" where
  "mul_bits 0 j byte s = Some s"
| "mul_bits (Suc n) j byte (Q, R) = do {
     Q \<leftarrow> (if drop_bit j byte AND 1 \<noteq> 0 then GF_Jacobian_Point_Addition Q R else Some Q);
     R \<leftarrow> GF_Jacobian_Point_Double R;
     mul_bits n (j + 1) byte (Q, R) }"

definition byte_of_word :: "nat \<Rightarrow> u32 \<Rightarrow> u8" where
  "byte_of_word off w = (
     if off = 3 then ucast (w AND 0xFF) else if off = 2 then ucast (drop_bit 8 (w AND 0xFF00))
     else if off = 1 then ucast (drop_bit 16 (w AND 0xFF0000)) else ucast (drop_bit 24 (w AND 0xFF000000)))"

definition ECC_Point_Multiplication_uint8 :: "bigHex \<Rightarrow> nat \<Rightarrow> ECC_Jacobian_Point \<times> ECC_Jacobian_Point \<Rightarrow>
    (ECC_Jacobian_Point \<times> ECC_Jacobian_Point) option" where
  "ECC_Point_Multiplication_uint8 pk word s = do {
     w \<leftarrow> aget (bh_num pk) ((word + 3) div 4 - 1);
     mul_bits 8 0 (byte_of_word ((word - 1) mod 4) w) s }"

fun mul_calls :: "bigHex \<Rightarrow> nat \<Rightarrow> ECC_Jacobian_Point \<times> ECC_Jacobian_Point \<Rightarrow>
    (ECC_Jacobian_Point \<times> ECC_Jacobian_Point) option" where
  "mul_calls pk 0 s = Some s"
| "mul_calls pk (Suc n) s = do { s \<leftarrow> ECC_Point_Multiplication_uint8 pk (Suc n) s; mul_calls pk n s }"

text \<open>The variant with a word per call starts behind the end of the number.\<close>

definition uint32_first_word :: "bigHex \<Rightarrow> u32 option" where
  "uint32_first_word pk = aget (bh_num pk) (ELEMENTS_BIG_HEX * 4 - 1)"

definition ECC_Point_Multiplication :: "bigHex \<Rightarrow> ECC_Point \<Rightarrow> ECC_Point option" where
  "ECC_Point_Multiplication pk p = do {
     (Q, R) \<leftarrow> mul_calls pk (ELEMENTS_BIG_HEX * 4)
       (GF_Setup_Jacobian_Infinity_Point, GF_Affine_To_Jacobian_Point_Copy p);
     GF_Point_Jacobian_To_Affine Q }"

section \<open>Keys\<close>

definition BasePoint_x :: "u8 list" where
  "BasePoint_x = [0x18, 0x8d, 0xa8, 0x0e, 0xb0, 0x30, 0x90, 0xf6, 0x7c, 0xbf, 0x20, 0xeb,
     0x43, 0xa1, 0x88, 0x00, 0xf4, 0xff, 0x0a, 0xfd, 0x82, 0xff, 0x10, 0x12]"

definition BasePoint_y :: "u8 list" where
  "BasePoint_y = [0x07, 0x19, 0x2b, 0x95, 0xff, 0xc8, 0xda, 0x78, 0x63, 0x10, 0x11, 0xed,
     0x6b, 0x24, 0xcd, 0xd5, 0x73, 0xf9, 0x77, 0xa1, 0x1e, 0x79, 0x48, 0x11]"

definition maxSecretKey :: "u8 list" where
  "maxSecretKey = [0x7f, 0xff, 0xff, 0xff, 0xff, 0xff, 0xff, 0xff, 0xff, 0xff, 0xff, 0xff,
     0xcc, 0xef, 0x7c, 0x1b, 0x0a, 0x35, 0xe4, 0xd8, 0xda, 0x69, 0x14, 0x18]"

fun compare_key :: "u8 list \<Rightarrow> u8 list \<Rightarrow> bool" where
  "compare_key (k # ks) (m # ms) = (if m < k then False else if k < m then True else compare_key ks ms)"
| "compare_key _ _ = True"

definition LMecc_isValidSecretKey :: "u8 list \<Rightarrow> bool" where
  "LMecc_isValidSecretKey key = (if list_all (\<lambda>b. b = 0) key then False else compare_key key maxSecretKey)"

fun words_of_key :: "u8 list \<Rightarrow> u32 list" where
  "words_of_key (a # b # c # d # bs) =
     ((push_bit 24 (ucast a) AND 0xFF000000) + (push_bit 16 (ucast b) AND 0x00FF0000) +
      (push_bit 8 (ucast c) AND 0x0000FF00) + (ucast d AND 0x000000FF)) # words_of_key bs"
| "words_of_key _ = []"

definition bigHex_of_key :: "u8 list \<Rightarrow> bigHex" where
  "bigHex_of_key bs = setBigNumberLength \<lparr>bh_num = 0 # words_of_key bs, bh_len = 0, bh_sign = False\<rparr>"

definition bytes_of_word :: "u32 \<Rightarrow> u8 list" where
  "bytes_of_word w = [ucast (drop_bit 24 (w AND 0xFF000000)), ucast (drop_bit 16 (w AND 0xFF0000)),
     ucast (drop_bit 8 (w AND 0xFF00)), ucast (w AND 0xFF)]"

definition LMecc_CB_ECC_Point_Multiplication_Complete :: "ECC_Point \<Rightarrow> u8 list \<times> u8 list" where
  "LMecc_CB_ECC_Point_Multiplication_Complete q =
     (concat (map bytes_of_word (tl (bh_num (ax q)))), concat (map bytes_of_word (tl (bh_num (ay q)))))"

definition LMecc_Generate_ECC_Key :: "u8 list \<Rightarrow> u8 list \<Rightarrow> u8 list \<Rightarrow> (u8 list \<times> u8 list) option" where
  "LMecc_Generate_ECC_Key secret x y = do {
     q \<leftarrow> ECC_Point_Multiplication (bigHex_of_key secret) \<lparr>ax = bigHex_of_key x, ay = bigHex_of_key y\<rparr>;
     Some (LMecc_CB_ECC_Point_Multiplication_Complete q) }"

definition algo_p192_generate_public_key :: "u8 list \<Rightarrow> (u8 list \<times> u8 list) option" where
  "algo_p192_generate_public_key secret = LMecc_Generate_ECC_Key secret BasePoint_x BasePoint_y"

definition algo_p192_generate_dhkey :: "u8 list \<Rightarrow> u8 list \<Rightarrow> u8 list \<Rightarrow> u8 list option" where
  "algo_p192_generate_dhkey secret x y = map_option fst (LMecc_Generate_ECC_Key secret x y)"

end
