(* ===== verification/Lmp_Val.thy ===== *)
theory Lmp_Val
  imports Lmp
begin

text \<open>
  Values of the numbers of lmp_ecc.c: addition, subtraction, halving, comparison and
  multiplication of words are those of natural numbers, with the wrap-around where one
  happens.
\<close>

section \<open>Values\<close>

definition bval :: "u32 list \<Rightarrow> nat" where "bval xs = mp_val (rev xs)"

lemma bval_Nil [simp]: "bval [] = 0" by (simp add: bval_def)

lemma bval_Cons: "bval (x # xs) = unat x * 2 ^ (32 * length xs) + bval xs"
  by (simp add: bval_def mp_val_append algebra_simps)

lemma bval_snoc: "bval (xs @ [x]) = bval xs * 2 ^ 32 + unat x"
  by (simp add: bval_def)

lemma bval_append: "bval (xs @ ys) = bval xs * 2 ^ (32 * length ys) + bval ys"
  by (simp add: bval_def mp_val_append algebra_simps)

lemma bval_bound: "bval xs < 2 ^ (32 * length xs)"
  using mp_val_bound [of "rev xs"] by (simp add: bval_def)

lemma bval_zeros [simp]: "bval (replicate n 0) = 0" by (simp add: bval_def)

lemma bval_inject: "length xs = length ys \<Longrightarrow> bval xs = bval ys \<longleftrightarrow> xs = ys"
  using mp_val_inject [of "rev xs" "rev ys"] by (auto simp: bval_def)

lemma bval_strip: "bval (dropWhile (\<lambda>w. w = 0) xs) = bval xs"
  by (induction xs) (simp_all add: bval_Cons)

lemma bval_lower: "xs \<noteq> [] \<Longrightarrow> hd xs \<noteq> 0 \<Longrightarrow> 2 ^ (32 * (length xs - 1)) \<le> bval xs"
proof (cases xs)
  case (Cons x ys)
  assume "hd xs \<noteq> 0"
  then have "1 \<le> unat x" using Cons by (simp add: Suc_le_eq unat_gt_0)
  then have "1 * 2 ^ (32 * length ys) \<le> unat x * 2 ^ (32 * length ys)" by (rule mult_le_mono1)
  then have "2 ^ (32 * length ys) \<le> bval (x # ys)" unfolding bval_Cons by (simp only: mult_1 trans_le_add1)
  then show ?thesis using Cons by simp
qed simp

lemma unat_word_of_u64: "unat (word_of_u64 v) = unat v mod 2 ^ 32"
proof -
  have m: "v AND 0xFFFFFFFF = take_bit 32 v" by (simp add: take_bit_eq_mask mask_eq_exp_minus_1)
  have "unat (v AND 0xFFFFFFFF) = take_bit 32 (unat v)" unfolding m by (rule unsigned_take_bit_eq)
  then have "unat (v AND 0xFFFFFFFF) = unat v mod 2 ^ 32" by (simp only: take_bit_eq_mod)
  then show ?thesis by (simp add: word_of_u64_def unsigned_ucast_eq take_bit_eq_mod)
qed

lemma u64_u32: "unat (ucast (x :: u32) :: u64) = unat x"
  by (simp add: unat_ucast_up)

lemma u64_add: "unat x + unat y < 2 ^ 64 \<Longrightarrow> unat (x + y :: u64) = unat x + unat y"
  by (simp add: unat_word_ariths)

lemma u64_mult: "unat x * unat y < 2 ^ 64 \<Longrightarrow> unat (x * y :: u64) = unat x * unat y"
  by (simp add: unat_word_ariths)

lemma u64_sum3: "unat (ucast (a :: u32) + ucast (b :: u32) + ucast (c :: u32) :: u64) = unat a + unat b + unat c"
  using u32_bound [of a] u32_bound [of b] u32_bound [of c] by (subst u64_add; subst u64_add; simp add: u64_u32)

lemma bit32_test: "unat v < 2 ^ 33 \<Longrightarrow> (v :: u64) AND 0x100000000 \<noteq> 0 \<longleftrightarrow> 2 ^ 32 \<le> unat v"
proof -
  assume v: "unat v < 2 ^ 33"
  have e: "(0x100000000 :: u64) = 2 ^ 32" by simp
  have "v AND 0x100000000 \<noteq> 0 \<longleftrightarrow> bit v 32" unfolding e by (simp only: and_exp_eq_0_iff_not_bit not_not)
  also have "\<dots> \<longleftrightarrow> odd (unat v div 2 ^ 32)" by (simp add: bit_iff_odd unat_div odd_iff_mod_2_eq_one word_arith_nat_div)
  also have "\<dots> \<longleftrightarrow> 2 ^ 32 \<le> unat v"
  proof (cases "2 ^ 32 \<le> unat v")
    case True
    then have "unat v div 2 ^ 32 = 1" using v by (intro div_nat_eqI) simp_all
    then show ?thesis using True by simp
  qed simp
  finally show ?thesis .
qed


section \<open>Loops over the words\<close>

lemma mod_carry: "0 < B \<Longrightarrow> s mod B + B * ((t + s div B) mod M) = (s + B * t) mod (B * M)" for B s t M :: nat
  by (simp add: mod_mult2_eq add.commute)

lemma lmp_add_loop_val:
  "length as = length bs \<Longrightarrow> c = 0 \<or> c = 1 \<Longrightarrow> length (lmp_add_loop c as bs) = length as \<and>
     mp_val (lmp_add_loop c as bs) = (mp_val as + mp_val bs + unat c) mod 2 ^ (32 * length as)"
proof (induction as bs arbitrary: c rule: list_induct2)
  case (Cons a as b bs)
  define s where "s = unat a + unat b + unat c"
  define tmp :: u64 where "tmp = ucast a + ucast b + ucast c"
  have tmp: "unat tmp = s" by (simp add: tmp_def s_def u64_sum3)
  have s33: "s < 2 ^ 33" using u32_bound [of a] u32_bound [of b] Cons.prems by (auto simp: s_def)
  define c' :: u32 where "c' = (if tmp AND 0x100000000 \<noteq> 0 then 1 else 0)"
  have c': "unat c' = s div 2 ^ 32"
  proof -
    have "s div 2 ^ 32 = (if 2 ^ 32 \<le> s then 1 else 0)" using s33 by (auto intro: div_nat_eqI)
    then show ?thesis using bit32_test [of tmp] s33 unfolding c'_def tmp by simp
  qed
  have "c' = 0 \<or> c' = 1" by (simp add: c'_def)
  note IH = Cons.IH [OF this]
  have e: "lmp_add_loop c (a # as) (b # bs) = word_of_u64 tmp # lmp_add_loop c' as bs"
    by (simp add: tmp_def c'_def Let_def)
  have "mp_val (lmp_add_loop c (a # as) (b # bs)) = s mod 2 ^ 32 + 2 ^ 32 * ((mp_val as + mp_val bs + s div 2 ^ 32) mod 2 ^ (32 * length as))"
    unfolding e using IH by (simp add: unat_word_of_u64 tmp c')
  also have "\<dots> = (s + 2 ^ 32 * (mp_val as + mp_val bs)) mod (2 ^ 32 * 2 ^ (32 * length as))"
    by (rule mod_carry) simp
  finally show ?case using IH unfolding e by (simp add: s_def power_add algebra_simps)
qed simp

lemma mod_borrow:
  fixes s t B M :: int
  assumes "s = r + B * q" "0 \<le> r" "r < B" "0 \<le> M"
  shows "r + B * ((q + t) mod M) = (s + B * t) mod (B * M)"
proof -
  have r: "r = s mod B" "q = s div B"
    using assms by (simp_all add: mod_pos_pos_trivial div_pos_pos_trivial)
  have "0 < B" using assms by linarith
  have "(s + B * t) mod (B * M) = B * ((s + B * t) div B mod M) + (s + B * t) mod B" by (rule zmod_zmult2_eq [OF assms(4)])
  then show ?thesis using \<open>0 < B\<close> r by (simp add: algebra_simps)
qed

lemma lmp_sub_loop_val:
  "length as = length bs \<Longrightarrow> c = 0 \<or> c = 1 \<Longrightarrow> length (lmp_sub_loop c as bs) = length as \<and>
     int (mp_val (lmp_sub_loop c as bs)) = (int (mp_val as) - int (mp_val bs) - int (unat c)) mod 2 ^ (32 * length as)"
proof (induction as bs arbitrary: c rule: list_induct2)
  case (Cons a as b bs)
  define s where "s = int (unat a) - int (unat b) - int (unat c)"
  define lt where "lt \<longleftrightarrow> (ucast a :: u64) < ucast b + ucast c"
  have bd: "unat a < 2 ^ 32" "unat b < 2 ^ 32" "unat c \<le> 1" using u32_bound [of a] u32_bound [of b] Cons.prems by auto
  have "unat (ucast b + ucast c :: u64) = unat b + unat c" using bd by (subst u64_add) (simp_all add: u64_u32)
  then have lt: "lt \<longleftrightarrow> unat a < unat b + unat c" by (simp add: lt_def word_less_nat_alt u64_u32)
  define w where "w = (if lt then word_of_u64 ((ucast a + 0x100000000) - ucast (b + c)) else a - (b + c))"
  define c' :: u32 where "c' = (if lt then 1 else 0)"
  have e: "lmp_sub_loop c (a # as) (b # bs) = w # lmp_sub_loop c' as bs"
    by (simp add: w_def c'_def lt_def)
  have ws: "int (unat w) - 2 ^ 32 * int (unat c') = s"
  proof (cases lt)
    case True
    have p: "unat (ucast a + 0x100000000 :: u64) = unat a + 2 ^ 32" using bd by (subst u64_add) (simp_all add: u64_u32)
    have bc: "unat (b + c) = (unat b + unat c) mod 2 ^ 32" by (rule u32_add)
    have le: "unat (b + c) \<le> unat b + unat c" unfolding bc by simp
    have q: "unat ((ucast a + 0x100000000) - ucast (b + c) :: u64) = unat a + 2 ^ 32 - unat (b + c)"
      using p u32_bound [of "b + c"] by (simp add: unat_sub_if' u64_u32)
    have "(unat a + 2 ^ 32 - unat (b + c)) mod 2 ^ 32 = unat a + 2 ^ 32 - (unat b + unat c)"
    proof (cases "unat b + unat c < 2 ^ 32")
      case True
      then show ?thesis using bc bd lt \<open>lt\<close> by simp
    next
      case False
      then have "unat b + unat c = 2 ^ 32" using bd by simp
      then show ?thesis using bc bd by simp
    qed
    then have "unat w = unat a + 2 ^ 32 - (unat b + unat c)" using True q by (simp add: w_def unat_word_of_u64)
    then show ?thesis using True bd lt by (simp add: c'_def s_def of_nat_diff)
  next
    case False
    have "unat (b + c) = unat b + unat c" using False lt bd by (simp add: u32_add)
    then have "unat (a - (b + c)) = unat a - (unat b + unat c)" using False lt by (simp add: unat_sub_if')
    then show ?thesis using False lt by (simp add: w_def c'_def s_def of_nat_diff)
  qed
  have ws': "s = int (unat w) + 2 ^ 32 * (- int (unat c'))" using ws by linarith
  have "int (unat w) < int (2 ^ 32)" using u32_bound [of w] by (simp only: of_nat_less_iff)
  then have wb: "int (unat w) < 2 ^ 32" by simp
  have "c' = 0 \<or> c' = 1" by (simp add: c'_def)
  note IH = Cons.IH [OF this]
  have "int (mp_val (lmp_sub_loop c (a # as) (b # bs))) =
      int (unat w) + 2 ^ 32 * ((int (mp_val as) - int (mp_val bs) - int (unat c')) mod 2 ^ (32 * length as))"
    unfolding e using IH by simp
  also have "\<dots> = int (unat w) + 2 ^ 32 * ((- int (unat c') + (int (mp_val as) - int (mp_val bs))) mod 2 ^ (32 * length as))"
    by (simp add: algebra_simps)
  also have "\<dots> = (s + 2 ^ 32 * (int (mp_val as) - int (mp_val bs))) mod (2 ^ 32 * 2 ^ (32 * length as))"
    by (rule mod_borrow [OF ws' _ wb]) simp_all
  finally show ?case using IH unfolding e by (simp add: s_def power_add algebra_simps)
qed simp


lemma add_nums_val:
  assumes "length a = length b"
  shows "length (add_nums a b) = length a" "bval (add_nums a b) = (bval a + bval b) mod 2 ^ (32 * length a)"
  using lmp_add_loop_val [of "rev a" "rev b" 0] assms by (simp_all add: add_nums_def bval_def)

lemma sub_nums_val:
  assumes "length a = length b" "bval b \<le> bval a"
  shows "length (sub_nums a b) = length a" "bval (sub_nums a b) = bval a - bval b"
proof -
  have v: "length (sub_nums a b) = length a \<and>
      int (bval (sub_nums a b)) = (int (bval a) - int (bval b)) mod 2 ^ (32 * length a)"
    using lmp_sub_loop_val [of "rev a" "rev b" 0] assms(1) by (simp add: sub_nums_def bval_def)
  then show "length (sub_nums a b) = length a" by simp
  have "int (bval a) < 2 ^ (32 * length a)" using bval_bound [of a] by (simp only: of_nat_less_numeral_power_cancel_iff)
  then have "(int (bval a) - int (bval b)) mod 2 ^ (32 * length a) = int (bval a) - int (bval b)"
    using assms(2) by (intro mod_pos_pos_trivial) linarith+
  then have "int (bval (sub_nums a b)) = int (bval a) - int (bval b)" using v by simp
  then show "bval (sub_nums a b) = bval a - bval b" using assms(2) by linarith
qed

lemma sub_nums_wraps:
  assumes "length a = length b" "bval a < bval b"
  shows "length (sub_nums a b) = length a" "bval (sub_nums a b) = 2 ^ (32 * length a) + bval a - bval b"
proof -
  define M where "M = (2 :: nat) ^ (32 * length a)"
  have v: "length (sub_nums a b) = length a \<and> int (bval (sub_nums a b)) = (int (bval a) - int (bval b)) mod int M"
    using lmp_sub_loop_val [of "rev a" "rev b" 0] assms(1) by (simp add: sub_nums_def bval_def M_def)
  then show "length (sub_nums a b) = length a" by simp
  have "bval b < M" using bval_bound [of b] assms(1) by (simp add: M_def)
  then have d: "int (M + bval a - bval b) = int (bval a) - int (bval b) + int M" "M + bval a - bval b < M"
    using assms(2) by linarith+
  have "(int (bval a) - int (bval b)) mod int M = (int (bval a) - int (bval b) + int M) mod int M" by simp
  also have "\<dots> = int ((M + bval a - bval b) mod M)" unfolding d(1) [symmetric] by (rule of_nat_mod [symmetric])
  also have "\<dots> = int (M + bval a - bval b)" using d(2) by simp
  finally have "int (bval (sub_nums a b)) = int (M + bval a - bval b)" using v by simp
  then show "bval (sub_nums a b) = 2 ^ (32 * length a) + bval a - bval b" unfolding M_def by (simp only: of_nat_eq_iff)
qed

lemma half_words_val:
  "r = 0 \<or> r = 1 \<Longrightarrow> length (half_words r ws) = length ws \<and>
     bval (half_words r ws) = (unat r * 2 ^ (32 * length ws) + bval ws) div 2"
proof (induction ws arbitrary: r)
  case (Cons w ws)
  define v :: u64 where "v = ucast w + ucast r * 0x100000000"
  have r1: "unat r \<le> 1" using Cons.prems by auto
  have "unat (ucast r * 0x100000000 :: u64) = unat r * 2 ^ 32" using r1 by (subst u64_mult) (simp_all add: u64_u32)
  then have v: "unat v = unat w + unat r * 2 ^ 32" unfolding v_def using u32_bound [of w] r1 by (subst u64_add) (simp_all add: u64_u32)
  have h: "unat (drop_bit 1 v) = unat v div 2" by (simp add: drop_bit_eq_div unat_div_distrib)
  have "unat v < 2 ^ 33" using v u32_bound [of w] r1 by simp
  then have h32: "unat v div 2 < 2 ^ 32" by simp
  define hw :: u32 where "hw = ucast (drop_bit 1 v)"
  have w': "unat hw = unat v div 2" unfolding hw_def using h h32 by (simp add: unsigned_ucast_eq take_bit_eq_mod)
  define r' :: u32 where "r' = ucast (v - push_bit 1 (drop_bit 1 v))"
  have "push_bit 1 (drop_bit 1 v) = 2 * drop_bit 1 v" by (simp add: push_bit_eq_mult)
  then have "unat (push_bit 1 (drop_bit 1 v)) = 2 * (unat v div 2)" using h h32 by (simp add: u64_mult)
  then have "unat (v - push_bit 1 (drop_bit 1 v)) = unat v mod 2" by (simp add: unat_sub_if' minus_mult_div_eq_mod)
  then have r': "unat r' = unat v mod 2" by (simp add: r'_def unsigned_ucast_eq take_bit_eq_mod)
  then have "r' = 0 \<or> r' = 1" by (intro u32_bit) simp
  note IH = Cons.IH [OF this]
  have e: "half_words r (w # ws) = hw # half_words r' ws" by (simp add: v_def r'_def hw_def Let_def)
  define X where "X = (2 :: nat) ^ (32 * length ws)"
  have "bval (half_words r (w # ws)) = unat v div 2 * X + (unat v mod 2 * X + bval ws) div 2"
    unfolding e using IH by (simp add: bval_Cons w' r' X_def)
  also have "\<dots> = (2 * (unat v div 2 * X) + (unat v mod 2 * X + bval ws)) div 2" by simp
  also have "2 * (unat v div 2 * X) + (unat v mod 2 * X + bval ws) = (2 * (unat v div 2) + unat v mod 2) * X + bval ws"
    by (simp only: distrib_right mult.assoc add.assoc)
  also have "\<dots> = unat v * X + bval ws" by simp
  finally show ?case using IH unfolding e by (simp add: v X_def bval_Cons power_add algebra_simps)
qed auto

section \<open>Comparison by length\<close>

lemma compare_words_val:
  "length a = length b \<Longrightarrow> compare_words eq a b \<longleftrightarrow> bval b < bval a \<or> eq \<and> bval a = bval b"
proof (induction a b rule: list_induct2)
  case (Cons x a y b)
  have c: "compare_loop (x # a) (y # b) = (if mp_val (rev (y # b)) < mp_val (rev (x # a)) then 1
      else if mp_val (rev (x # a)) < mp_val (rev (y # b)) then - 1 else 0)"
    by (rule compare_loop_val) (simp add: Cons.hyps)
  have c': "compare_loop a b = (if mp_val (rev b) < mp_val (rev a) then 1
      else if mp_val (rev a) < mp_val (rev b) then - 1 else 0)"
    by (rule compare_loop_val) (simp add: Cons.hyps)
  show ?case using c c' Cons.IH unfolding bval_def by (auto split: if_splits)
qed simp

definition numlen :: "u32 list \<Rightarrow> nat" where "numlen xs = length (dropWhile (\<lambda>w. w = 0) xs)"

lemma numlen_bounds: "bval xs < 2 ^ (32 * numlen xs)" "0 < numlen xs \<Longrightarrow> 2 ^ (32 * (numlen xs - 1)) \<le> bval xs" "numlen xs \<le> length xs"
proof -
  show "bval xs < 2 ^ (32 * numlen xs)" using bval_bound [of "dropWhile (\<lambda>w. w = 0) xs"] by (simp add: numlen_def bval_strip)
  show "numlen xs \<le> length xs" by (simp add: numlen_def length_dropWhile_le)
  assume "0 < numlen xs"
  then have "dropWhile (\<lambda>w. w = 0) xs \<noteq> []" by (simp add: numlen_def)
  then show "2 ^ (32 * (numlen xs - 1)) \<le> bval xs"
    using bval_lower [of "dropWhile (\<lambda>w. w = 0) xs"] hd_dropWhile [of "\<lambda>w. w = 0" xs] by (simp add: numlen_def bval_strip)
qed

lemma numlen_less: "numlen xs < numlen ys \<Longrightarrow> bval xs < bval ys"
proof -
  assume l: "numlen xs < numlen ys"
  have "bval xs < 2 ^ (32 * numlen xs)" by (rule numlen_bounds)
  also have "\<dots> \<le> 2 ^ (32 * (numlen ys - 1))" using l by (intro power_increasing) simp_all
  also have "\<dots> \<le> bval ys" using l by (intro numlen_bounds(2)) simp
  finally show ?thesis .
qed

lemma drop_numlen: "drop (length xs - numlen xs) xs = dropWhile (\<lambda>w. w = 0) xs"
  by (induction xs) (auto simp: numlen_def Suc_diff_le length_dropWhile_le)

lemma compare_by_length_val:
  assumes "bh_len a = numlen (bh_num a)" "bh_len b = numlen (bh_num b)"
  shows "compare_by_length eq a b \<longleftrightarrow> bval (bh_num b) < bval (bh_num a) \<or> eq \<and> bval (bh_num a) = bval (bh_num b)"
proof (cases "bh_len a = bh_len b")
  case True
  have d: "drop (length (bh_num a) - bh_len a) (bh_num a) = dropWhile (\<lambda>w. w = 0) (bh_num a)"
    "drop (length (bh_num b) - bh_len a) (bh_num b) = dropWhile (\<lambda>w. w = 0) (bh_num b)"
    using True assms drop_numlen by metis+
  have n: "\<not> bh_len b < bh_len a" "\<not> bh_len a < bh_len b" using True by simp_all
  have "length (dropWhile (\<lambda>w. w = 0) (bh_num a)) = length (dropWhile (\<lambda>w. w = 0) (bh_num b))"
    using True assms by (simp add: numlen_def)
  then show ?thesis unfolding compare_by_length_def d using n by (simp add: compare_words_val bval_strip)
next
  case False
  then show ?thesis using numlen_less [of "bh_num a" "bh_num b"] numlen_less [of "bh_num b" "bh_num a"] assms
    by (auto simp: compare_by_length_def)
qed

section \<open>Products\<close>

lemma u64_muladd:
  "unat (ucast (a :: u32) * ucast (b :: u32) + ucast (r :: u32) + ucast (c :: u32) :: u64) = unat a * unat b + unat r + unat c"
proof -
  have ab: "unat a \<le> 4294967295" "unat b \<le> 4294967295" using u32_bound [of a] u32_bound [of b] by simp_all
  have m: "unat a * unat b \<le> 4294967295 * 4294967295" by (rule mult_le_mono [OF ab])
  have "unat (ucast a * ucast b :: u64) = unat a * unat b" using m by (subst u64_mult) (simp_all add: u64_u32)
  then show ?thesis using m u32_bound [of r] u32_bound [of c] by (subst u64_add; subst u64_add; simp add: u64_u32)
qed

lemma high_word: "unat (ucast (drop_bit 32 v) :: u32) = unat v div 2 ^ 32" for v :: u64
proof -
  have "unat (drop_bit 32 v) = unat v div 2 ^ 32" by (simp add: drop_bit_eq_div unat_div_distrib)
  moreover have "unat v < 2 ^ LENGTH(64)" by (rule unsigned_less)
  then have "unat v div 2 ^ 32 < 2 ^ 32" by (simp add: less_mult_imp_div_less)
  ultimately show ?thesis by (simp add: unsigned_ucast_eq take_bit_eq_mod)
qed

lemma mul_row_val:
  "length bs = length xs \<Longrightarrow> \<exists>row. mul_row a bs (xs @ ys) c = row @ ys \<and> length row = length bs \<and>
     mp_val row = (unat a * mp_val bs + mp_val xs + unat c) mod 2 ^ (32 * length bs)"
proof (induction bs xs arbitrary: c rule: list_induct2)
  case (Cons b bs x xs)
  define s where "s = unat a * unat b + unat x + unat c"
  define v :: u64 where "v = ucast a * ucast b + ucast x + ucast c"
  have v: "unat v = s" by (simp add: v_def s_def u64_muladd)
  define c' :: u32 where "c' = ucast (drop_bit 32 v)"
  have c': "unat c' = s div 2 ^ 32" by (simp only: c'_def high_word v)
  from Cons.IH [of c'] obtain row where r: "mul_row a bs (xs @ ys) c' = row @ ys" "length row = length bs"
    "mp_val row = (unat a * mp_val bs + mp_val xs + unat c') mod 2 ^ (32 * length bs)" by blast
  have e: "mul_row a (b # bs) ((x # xs) @ ys) c = (word_of_u64 v # row) @ ys"
    using r(1) by (simp add: v_def c'_def Let_def)
  have "mp_val (word_of_u64 v # row) = s mod 2 ^ 32 + 2 ^ 32 * ((unat a * mp_val bs + mp_val xs + s div 2 ^ 32) mod 2 ^ (32 * length bs))"
    using r(3) by (simp add: unat_word_of_u64 v c')
  also have "\<dots> = (s + 2 ^ 32 * (unat a * mp_val bs + mp_val xs)) mod (2 ^ 32 * 2 ^ (32 * length bs))"
    by (rule mod_carry) simp
  finally have "mp_val (word_of_u64 v # row) = (unat a * mp_val (b # bs) + mp_val (x # xs) + unat c) mod 2 ^ (32 * length (b # bs))"
    by (simp add: s_def power_add algebra_simps)
  then show ?case using e r(2) by (intro exI [of _ "word_of_u64 v # row"]) simp
qed simp

lemma row_fits:
  fixes a :: u32
  assumes "B < X" "T < X"
  shows "unat a * B + T < 2 ^ 32 * X"
proof -
  have "unat a \<le> 2 ^ 32 - 1" using u32_bound [of a] by simp
  moreover have "B \<le> X - 1" "T \<le> X - 1" using assms by simp_all
  ultimately have "unat a * B + T \<le> (2 ^ 32 - 1) * (X - 1) + (X - 1)" by (intro add_mono mult_le_mono) simp_all
  also have "\<dots> = 2 ^ 32 * (X - 1)" by simp
  also have "\<dots> < 2 ^ 32 * X" using assms by simp
  finally show ?thesis .
qed

lemma mul_rows_val:
  assumes "mp_val bs < 2 ^ (32 * n)" "length bs = Suc n"
  shows "length t = n \<Longrightarrow> length as \<le> m \<Longrightarrow>
     length (mul_rows as bs (t @ replicate m 0)) = n + m \<and>
     mp_val (mul_rows as bs (t @ replicate m 0)) = mp_val as * mp_val bs + mp_val t"
proof (induction as arbitrary: t m)
  case Nil
  then show ?case by (simp add: mp_val_append)
next
  case (Cons a as)
  then obtain m' where m: "m = Suc m'" by (cases m) auto
  have z: "t @ replicate m 0 = (t @ [0]) @ replicate m' 0" by (simp add: m)
  obtain row where r: "mul_row a bs ((t @ [0]) @ replicate m' 0) 0 = row @ replicate m' 0" "length row = length bs"
    "mp_val row = (unat a * mp_val bs + mp_val (t @ [0]) + unat (0 :: u32)) mod 2 ^ (32 * length bs)"
    using mul_row_val [of bs "t @ [0]" a "replicate m' 0" 0] Cons.prems(1) assms(2) by auto
  have t: "mp_val t < 2 ^ (32 * n)" using mp_val_bound [of t] Cons.prems(1) by simp
  have "unat a * mp_val bs + mp_val t < 2 ^ (32 * length bs)"
    using row_fits [OF assms(1) t, of a] assms(2) by (simp add: power_add)
  then have rv: "mp_val row = unat a * mp_val bs + mp_val t" using r(3) by (simp add: mp_val_append)
  obtain h tl' where row: "row = h # tl'" "length tl' = n" using r(2) assms(2) by (cases row) auto
  have e: "mul_rows (a # as) bs (t @ replicate m 0) = h # mul_rows as bs (tl' @ replicate m' 0)"
    unfolding z using r(1) row by simp
  note IH = Cons.IH [OF row(2), of m']
  have "mp_val (mul_rows (a # as) bs (t @ replicate m 0)) = mp_val row + 2 ^ 32 * (mp_val as * mp_val bs)"
    unfolding e using IH Cons.prems(2) m row by (simp add: algebra_simps)
  then show ?case using IH Cons.prems(2) m rv unfolding e by (simp add: algebra_simps)
qed

lemma mul_nums_val:
  assumes "length a = 7" "length b = 7" "bval b < 2 ^ 192"
  shows "length (mul_nums a b) = 14" "bval (mul_nums a b) = bval a * bval b"
proof -
  have e: "replicate 14 (0 :: u32) = replicate 6 0 @ replicate 8 0" by (simp only: replicate_add [symmetric]) simp
  have "length (mul_rows (rev a) (rev b) (replicate 6 0 @ replicate 8 0)) = 6 + 8 \<and>
     mp_val (mul_rows (rev a) (rev b) (replicate 6 0 @ replicate 8 0)) = mp_val (rev a) * mp_val (rev b) + mp_val (replicate 6 0)"
    by (rule mul_rows_val [where n = 6]) (use assms in \<open>simp_all add: bval_def\<close>)
  then show "length (mul_nums a b) = 14" "bval (mul_nums a b) = bval a * bval b"
    unfolding mul_nums_def e bval_def by simp_all
qed

lemma mul_word_val:
  "length (mul_word as n c) = length as \<and> mp_val (mul_word as n c) = (mp_val as * unat n + unat c) mod 2 ^ (32 * length as)"
proof (induction as arbitrary: c)
  case (Cons a as)
  define s where "s = unat a * unat n + unat c"
  define v :: u64 where "v = ucast a * ucast n + ucast c"
  have v: "unat v = s" using u64_muladd [of a n 0 c] by (simp add: v_def s_def)
  define c' :: u32 where "c' = ucast (drop_bit 32 v)"
  have c': "unat c' = s div 2 ^ 32" by (simp only: c'_def high_word v)
  have e: "mul_word (a # as) n c = word_of_u64 v # mul_word as n c'" by (simp add: v_def c'_def Let_def)
  have "mp_val (mul_word (a # as) n c) = s mod 2 ^ 32 + 2 ^ 32 * ((mp_val as * unat n + s div 2 ^ 32) mod 2 ^ (32 * length as))"
    unfolding e using Cons.IH [of c'] by (simp add: unat_word_of_u64 v c')
  also have "\<dots> = (s + 2 ^ 32 * (mp_val as * unat n)) mod (2 ^ 32 * 2 ^ (32 * length as))"
    by (rule mod_carry) simp
  finally show ?case using Cons.IH [of c'] unfolding e by (simp add: s_def power_add algebra_simps)
qed simp

end
