(* ===== verification/Lmp_Field.thy ===== *)
theory Lmp_Field
  imports Lmp_Val
begin

text \<open>
  The numbers of lmp_ecc.c as values with a sign: what addition, subtraction, halving,
  reduction and multiplication modulo the prime of the curve do to them.
\<close>

section \<open>Numbers of the code\<close>

definition p192 :: nat where "p192 = 2 ^ 192 - 2 ^ 64 - 1"

abbreviation V :: "bigHex \<Rightarrow> nat" where "V x \<equiv> bval (bh_num x)"

definition wf_num :: "nat \<Rightarrow> bigHex \<Rightarrow> bool" where
  "wf_num n x \<longleftrightarrow> length (bh_num x) = n \<and> bh_len x = numlen (bh_num x)"

definition sval :: "bigHex \<Rightarrow> int" where
  "sval x = (if bh_sign x then - int (V x) else int (V x))"

lemma wf_num_D: "wf_num n x \<Longrightarrow> length (bh_num x) = n" "wf_num n x \<Longrightarrow> bh_len x = numlen (bh_num x)"
  by (simp_all add: wf_num_def)

lemma V_bound: "wf_num 7 x \<Longrightarrow> V x < 2 ^ 224"
  using bval_bound [of "bh_num x"] by (simp add: wf_num_def)

lemma set_length [simp]:
  "bh_num (setBigNumberLength x) = bh_num x" "bh_sign (setBigNumberLength x) = bh_sign x"
  "bh_len (setBigNumberLength x) = numlen (bh_num x)"
  by (simp_all add: setBigNumberLength_def numlen_def)

lemma wf_set_length [simp]: "wf_num n (setBigNumberLength x) \<longleftrightarrow> length (bh_num x) = n"
  by (simp add: wf_num_def)

lemma wf_sign [simp]: "wf_num n (x\<lparr>bh_sign := s\<rparr>) \<longleftrightarrow> wf_num n x"
  by (simp add: wf_num_def)

lemma P_facts [simp]: "wf_num 7 bigHexP" "V bigHexP = p192" "\<not> bh_sign bigHexP" "bh_len bigHexP = 6"
    "length (bh_num bigHexP) = 7"
  by (simp_all add: wf_num_def bigHexP_def numlen_def bval_Cons p192_def)

lemma VP_facts [simp]: "wf_num 14 veryBigHexP" "V veryBigHexP = p192"
  by (simp_all add: wf_num_def veryBigHexP_def numlen_def bval_Cons p192_def)

lemma init_facts [simp]: "wf_num 7 initBigNumber" "V initBigNumber = 0" "\<not> bh_sign initBigNumber" "length (bh_num initBigNumber) = 7"
  by (simp_all add: wf_num_def initBigNumber_def numlen_def ELEMENTS_BIG_HEX_def)

lemma ge_val: "wf_num n a \<Longrightarrow> wf_num m b \<Longrightarrow> isGreaterThanOrEqual a b \<longleftrightarrow> V b \<le> V a"
  using compare_by_length_val [of a b True] by (auto simp: isGreaterThanOrEqual_def wf_num_def)

lemma gt_val: "wf_num n a \<Longrightarrow> wf_num m b \<Longrightarrow> isGreaterThan a b \<longleftrightarrow> V b < V a"
  using compare_by_length_val [of a b False] by (auto simp: isGreaterThan_def wf_num_def)

lemma very_ge_val: "wf_num n a \<Longrightarrow> wf_num m b \<Longrightarrow> isVeryBigHexGreaterThanOrEqual a b \<longleftrightarrow> V b \<le> V a"
  using compare_by_length_val [of a b True] by (auto simp: isVeryBigHexGreaterThanOrEqual_def wf_num_def)

lemma notEqual_val: "wf_num 7 a \<Longrightarrow> wf_num 7 b \<Longrightarrow> notEqual a b \<longleftrightarrow> V a \<noteq> V b"
  using bval_inject [of "bh_num a" "bh_num b"] by (auto simp: notEqual_def wf_num_def)

lemma odd_last:
  assumes "wf_num 7 x"
  shows "isbigHexEven x \<longleftrightarrow> even (V x)"
proof -
  obtain ys y where x: "bh_num x = ys @ [y]" "length ys = 6"
    using assms by (cases "bh_num x" rule: rev_cases) (auto simp: wf_num_def)
  have "even (unat y) \<longleftrightarrow> \<not> bit (unat y) 0" "even y \<longleftrightarrow> \<not> bit y 0" by (simp_all add: bit_0)
  then have "y AND 1 = 0 \<longleftrightarrow> even (unat y)" by (simp add: and_one_eq even_iff_mod_2_eq_zero [symmetric] bit_unsigned_iff)
  then show ?thesis using x by (simp add: isbigHexEven_def HIGHEST_INDEX_BIG_HEX_def nth_append bval_snoc)
qed

section \<open>Addition and subtraction\<close>

lemma sub_self_val:
  assumes "wf_num 7 a" "wf_num 7 b" "V b \<le> V a"
  shows "wf_num 7 (SubtractFromSelfBigHex a b)" "V (SubtractFromSelfBigHex a b) = V a - V b"
    "bh_sign (SubtractFromSelfBigHex a b) = bh_sign a"
  using sub_nums_val [of "bh_num a" "bh_num b"] assms by (simp_all add: SubtractFromSelfBigHex_def wf_num_D)

lemma hex_sub_val:
  assumes "wf_num 7 a" "wf_num 7 b" "V b \<le> V a"
  shows "wf_num 7 (SubtractBigHex a b r)" "V (SubtractBigHex a b r) = V a - V b" "bh_sign (SubtractBigHex a b r) = bh_sign r"
  using sub_nums_val [of "bh_num a" "bh_num b"] assms by (simp_all add: SubtractBigHex_def wf_num_D)

lemma hex_add_val:
  assumes "wf_num 7 a" "wf_num 7 b" "V a + V b < 2 ^ 224"
  shows "wf_num 7 (AddBigHex a b r)" "V (AddBigHex a b r) = V a + V b" "\<not> bh_sign (AddBigHex a b r)"
  using add_nums_val [of "bh_num a" "bh_num b"] assms by (simp_all add: AddBigHex_def wf_num_D)

lemma add_self_val:
  assumes "wf_num 7 a" "wf_num 7 b" "V a + V b < 2 ^ 224"
  shows "wf_num 7 (Add2SelfBigHex a b)" "V (Add2SelfBigHex a b) = V a + V b" "bh_sign (Add2SelfBigHex a b) = bh_sign a"
  using add_nums_val [of "bh_num a" "bh_num b"] assms by (simp_all add: Add2SelfBigHex_def wf_num_D)

lemma AddP_val:
  assumes "wf_num 7 a"
  shows "wf_num 7 (AddP a)" "\<not> bh_sign (AddP a)" "V a \<le> p192 \<Longrightarrow> V (AddP a) = p192 - V a"
    "p192 < V a \<Longrightarrow> V (AddP a) = 2 ^ 224 + p192 - V a"
proof -
  show "wf_num 7 (AddP a)"
    using assms sub_nums_val [of "bh_num bigHexP" "bh_num a"] sub_nums_wraps [of "bh_num bigHexP" "bh_num a"]
    by (cases "V a \<le> p192") (simp_all add: AddP_def SubtractBigHex_def wf_num_D)
  show "\<not> bh_sign (AddP a)" by (simp add: AddP_def)
  show "V (AddP a) = p192 - V a" if "V a \<le> p192"
    using assms sub_nums_val [of "bh_num bigHexP" "bh_num a"] that by (simp add: AddP_def SubtractBigHex_def wf_num_D)
  show "V (AddP a) = 2 ^ 224 + p192 - V a" if "p192 < V a"
    using assms sub_nums_wraps [of "bh_num bigHexP" "bh_num a"] that by (simp add: AddP_def SubtractBigHex_def wf_num_D)
qed

lemma sub_sign_val:
  assumes "wf_num 7 a" "wf_num 7 b" "V a + V b < 2 ^ 224"
  shows "wf_num 7 (SubtractFromSelfBigHexSign a b)" "sval (SubtractFromSelfBigHexSign a b) = sval a - sval b"
    "V (SubtractFromSelfBigHexSign a b) \<le> V a + V b"
proof -
  note v = ge_val [OF assms(1,2)] ge_val [OF assms(2,1)] sub_self_val [OF assms(1,2)] hex_sub_val [OF assms(2,1)] add_self_val [OF assms]
  have "wf_num 7 (SubtractFromSelfBigHexSign a b) \<and> sval (SubtractFromSelfBigHexSign a b) = sval a - sval b \<and>
    V (SubtractFromSelfBigHexSign a b) \<le> V a + V b"
    by (cases "bh_sign a"; cases "bh_sign b"; cases "V b \<le> V a"; cases "V a \<le> V b")
      (simp_all add: SubtractFromSelfBigHexSign_def sval_def v of_nat_diff)
  then show "wf_num 7 (SubtractFromSelfBigHexSign a b)" "sval (SubtractFromSelfBigHexSign a b) = sval a - sval b"
    "V (SubtractFromSelfBigHexSign a b) \<le> V a + V b" by blast+
qed

section \<open>Halving\<close>

lemma halve_val:
  assumes "wf_num 7 a"
  shows "wf_num 7 (divideByTwo a)" "V (divideByTwo a) = V a div 2" "bh_sign (divideByTwo a) = bh_sign a"
  using half_words_val [of 0 "bh_num a"] assms by (simp_all add: divideByTwo_def wf_num_D)

lemma P_odd [simp]: "odd p192" by (simp add: p192_def)

lemma AddPdiv2_val:
  assumes "wf_num 7 a" "odd (V a)" "V a + p192 < 2 ^ 224"
  shows "wf_num 7 (AddPdiv2 a)" "2 * sval (AddPdiv2 a) = sval a + int p192"
proof -
  have len: "length (bh_num a) = length (bh_num bigHexP)" "length (bh_num bigHexP) = length (bh_num a)" "length (bh_num a) = 7"
    using assms(1) wf_num_D(1) [OF P_facts(1)] by (simp_all add: wf_num_D)
  define b where "b = (if \<not> bh_sign a then a\<lparr>bh_num := add_nums (bh_num a) (bh_num bigHexP)\<rparr>
       else if isGreaterThan a bigHexP then a\<lparr>bh_num := sub_nums (bh_num a) (bh_num bigHexP)\<rparr>
       else (SubtractBigHex bigHexP a initBigNumber)\<lparr>bh_sign := False\<rparr>)"
  have b: "length (bh_num b) = 7 \<and> sval b = sval a + int p192"
  proof (cases "bh_sign a")
    case False
    then show ?thesis using add_nums_val [OF len(1)] len assms(3) by (simp add: b_def sval_def)
  next
    case True
    show ?thesis
    proof (cases "p192 < V a")
      case True
      then show ?thesis using \<open>bh_sign a\<close> sub_nums_val [OF len(1)] len gt_val [OF assms(1) P_facts(1)]
        by (simp add: b_def sval_def of_nat_diff)
    next
      case False
      then show ?thesis using \<open>bh_sign a\<close> hex_sub_val [OF P_facts(1) assms(1), of initBigNumber] gt_val [OF assms(1) P_facts(1)]
        by (simp add: b_def sval_def of_nat_diff wf_num_def)
    qed
  qed
  have ev: "even (V b)"
  proof -
    have "even (sval a + int p192)" using assms(2) by (simp add: sval_def)
    then have "even (sval b)" using b by simp
    then show ?thesis by (simp add: sval_def split: if_splits)
  qed
  have e: "AddPdiv2 a = divideByTwo b" by (simp add: AddPdiv2_def b_def Let_def)
  have h: "length (half_words 0 (bh_num b)) = length (bh_num b)" "bval (half_words 0 (bh_num b)) = V b div 2"
    using half_words_val [of 0 "bh_num b"] by simp_all
  show "wf_num 7 (AddPdiv2 a)" using b h unfolding e by (simp add: divideByTwo_def)
  have "2 * int (V b div 2) = int (V b)" using ev by (metis dvd_mult_div_cancel of_nat_mult of_nat_numeral)
  then have "2 * sval (AddPdiv2 a) = sval b" using h unfolding e by (simp add: divideByTwo_def sval_def)
  then show "2 * sval (AddPdiv2 a) = sval a + int p192" using b by simp
qed


section \<open>Reduction\<close>

lemma pinv_val:
  "length (bh_num (MultiplyByU32ModPInv N initBigNumber)) = 7"
  "V (MultiplyByU32ModPInv N initBigNumber) = unat N * (2 ^ 64 + 1)"
  "\<not> bh_sign (MultiplyByU32ModPInv N initBigNumber)"
proof -
  have z: "drop_bit 32 (ucast (push_bit 1 N) AND 0x1FFFFFFFE :: u64) = 0"
  proof -
    have "unat (ucast (push_bit 1 N) :: u64) < 2 ^ 32" using u32_bound [of "push_bit 1 N"] by (simp only: u64_u32)
    then have "drop_bit 32 (ucast (push_bit 1 N) :: u64) = 0"
      by (simp add: drop_bit_eq_div word_arith_nat_div u64_u32)
    then show ?thesis by (simp only: drop_bit_and) simp
  qed
  have n: "bh_num (MultiplyByU32ModPInv N initBigNumber) = [0, 0, 0, 0, N, 0, N]"
    unfolding MultiplyByU32ModPInv_def Let_def z by (simp add: initBigNumber_def ELEMENTS_BIG_HEX_def numeral_eq_Suc)
  show "length (bh_num (MultiplyByU32ModPInv N initBigNumber)) = 7" by (simp add: n)
  show "V (MultiplyByU32ModPInv N initBigNumber) = unat N * (2 ^ 64 + 1)" unfolding n by (simp add: bval_Cons)
  show "\<not> bh_sign (MultiplyByU32ModPInv N initBigNumber)" by (simp add: MultiplyByU32ModPInv_def)
qed


text \<open>The word above the prime is replaced by what it leaves modulo the prime.\<close>

lemma p192_eq: "2 ^ 192 = p192 + (2 ^ 64 + 1)" "p192 < 2 ^ 192" "2 ^ 64 + 1 < p192" "0 < p192"
  by (simp_all add: p192_def)

lemma split_top:
  assumes "wf_num 7 x"
  obtains N ws where "bh_num x = N # ws" "length ws = 6" "V x = unat N * 2 ^ 192 + bval ws" "bval ws < 2 ^ 192"
    "6 < bh_len x \<longleftrightarrow> N \<noteq> 0" "bh_len x \<le> 7"
proof -
  obtain N ws where x: "bh_num x = N # ws" "length ws = 6"
    using assms by (cases "bh_num x") (auto simp: wf_num_def)
  have "numlen (N # ws) = (if N = 0 then numlen ws else 7)" using x(2) by (simp add: numlen_def)
  moreover have "numlen ws \<le> 6" using numlen_bounds(3) [of ws] x(2) by simp
  ultimately have "6 < bh_len x \<longleftrightarrow> N \<noteq> 0" "bh_len x \<le> 7" using assms x(1) by (simp_all add: wf_num_def)
  then show ?thesis using that [OF x] bval_bound [of ws] x by (simp add: bval_Cons)
qed

lemma fold_top:
  fixes N :: u32
  assumes "r < 2 ^ 192"
  shows "(r + unat N * (2 ^ 64 + 1)) mod p192 = (unat N * 2 ^ 192 + r) mod p192"
    "r + unat N * (2 ^ 64 + 1) < 2 * p192"
proof -
  have "unat N * 2 ^ 192 + r = (r + unat N * (2 ^ 64 + 1)) + unat N * p192"
    unfolding p192_eq(1) by (simp only: algebra_simps)
  then show "(r + unat N * (2 ^ 64 + 1)) mod p192 = (unat N * 2 ^ 192 + r) mod p192" by (simp only: mod_mult_self1)
  have "unat N * (2 ^ 64 + 1) \<le> 2 ^ 32 * (2 ^ 64 + 1)" using u32_bound [of N] by (intro mult_le_mono1) simp
  then show "r + unat N * (2 ^ 64 + 1) < 2 * p192" using assms by (simp add: p192_def)
qed

lemma mod_once: "m < 2 * p192 \<Longrightarrow> m mod p192 = (if p192 \<le> m then m - p192 else m)"
  by (simp add: le_mod_geq)

lemma clear_top:
  assumes "bh_num x = N # ws" "length ws = 6"
  shows "bh_num (x\<lparr>bh_num := (bh_num x)[0 := 0]\<rparr>) = 0 # ws" "V (x\<lparr>bh_num := (bh_num x)[0 := 0]\<rparr>) = bval ws"
  using assms by (simp_all add: bval_Cons)

lemma add_self_len:
  assumes "length (bh_num a) = 7" "length (bh_num b) = 7" "V a + V b < 2 ^ 224"
  shows "wf_num 7 (Add2SelfBigHex a b)" "V (Add2SelfBigHex a b) = V a + V b" "bh_sign (Add2SelfBigHex a b) = bh_sign a"
  using add_nums_val [of "bh_num a" "bh_num b"] assms by (simp_all add: Add2SelfBigHex_def)

lemma special_step:
  assumes "wf_num 7 x"
  defines "y \<equiv> (if bh_len bigHexP < bh_len x then
      let NModPinv = MultiplyByU32ModPInv (bh_num x ! (ELEMENTS_BIG_HEX - bh_len x)) initBigNumber;
          x = x\<lparr>bh_num := (bh_num x)[0 := 0]\<rparr> in
      if \<not> bh_sign x then Add2SelfBigHex x NModPinv else SubtractFromSelfBigHexSign x NModPinv
    else x)"
  shows "wf_num 7 y" "bh_sign y = bh_sign x" "V y mod p192 = V x mod p192" "V y < 2 * p192"
proof -
  obtain N ws where x: "bh_num x = N # ws" "length ws = 6" "V x = unat N * 2 ^ 192 + bval ws" "bval ws < 2 ^ 192"
    "6 < bh_len x \<longleftrightarrow> N \<noteq> 0" "bh_len x \<le> 7" using split_top [OF assms(1)] by blast
  have "wf_num 7 y \<and> bh_sign y = bh_sign x \<and> V y mod p192 = V x mod p192 \<and> V y < 2 * p192"
  proof (cases "6 < bh_len x")
    case False
    then have "y = x" "N = 0" using x(5) by (simp_all add: y_def)
    then show ?thesis using assms(1) x(3,4) by (simp add: p192_def)
  next
    case True
    then have l: "bh_len x = 7" using x(6) by simp
    define x0 where "x0 = x\<lparr>bh_num := (bh_num x)[0 := 0]\<rparr>"
    define M where "M = MultiplyByU32ModPInv N initBigNumber"
    have x0: "length (bh_num x0) = 7" "V x0 = bval ws" "bh_sign x0 = bh_sign x"
      using clear_top [OF x(1,2)] x(1,2) by (simp_all add: x0_def)
    have y: "y = Add2SelfBigHex x0 M"
      unfolding y_def using l x(1) x0(3) by (simp add: Let_def x0_def M_def ELEMENTS_BIG_HEX_def SubtractFromSelfBigHexSign_def pinv_val(3))
    note f = fold_top [OF x(4), of N]
    have s: "V x0 + V M < 2 ^ 224" using f(2) x0(2) pinv_val(2) [of N] by (simp add: M_def p192_def)
    note a = add_self_len [OF x0(1) pinv_val(1) [of N, folded M_def] s]
    show ?thesis using a f x(3) x0 pinv_val(2) [of N] unfolding y by (simp add: M_def)
  qed
  then show "wf_num 7 y" "bh_sign y = bh_sign x" "V y mod p192 = V x mod p192" "V y < 2 * p192" by blast+
qed

lemma over_P_val: "wf_num 7 x \<Longrightarrow> over_P x \<longleftrightarrow> bh_sign x \<or> p192 \<le> V x"
  using ge_val [of 7 x 7 bigHexP] by (auto simp: over_P_def)

lemma special_pos:
  assumes "wf_num 7 x" "\<not> bh_sign x"
  shows "wf_num 7 (specialModP x)" "\<not> bh_sign (specialModP x)" "V (specialModP x) = V x mod p192"
proof -
  note st = special_step [OF assms(1)]
  have "wf_num 7 (specialModP x) \<and> \<not> bh_sign (specialModP x) \<and> V (specialModP x) = V x mod p192"
  proof (cases "p192 \<le> V x")
    case False
    then have "specialModP x = x" using over_P_val [OF assms(1)] assms(2) by (simp add: specialModP_def)
    then show ?thesis using assms False by simp
  next
    case True
    define y where "y = (if bh_len bigHexP < bh_len x then
      let NModPinv = MultiplyByU32ModPInv (bh_num x ! (ELEMENTS_BIG_HEX - bh_len x)) initBigNumber;
          x = x\<lparr>bh_num := (bh_num x)[0 := 0]\<rparr> in
      if \<not> bh_sign x then Add2SelfBigHex x NModPinv else SubtractFromSelfBigHexSign x NModPinv
    else x)"
    note st = special_step [OF assms(1), folded y_def]
    have e: "specialModP x = (if over_P y then if bh_sign y then AddP y else SubtractFromSelfBigHex y bigHexP else y)"
      using over_P_val [OF assms(1)] True by (simp add: specialModP_def y_def Let_def)
    show ?thesis
      using st over_P_val [OF st(1)] sub_self_val [OF st(1) P_facts(1)] assms(2) mod_once [OF st(4)] unfolding e
      by (cases "p192 \<le> V y") simp_all
  qed
  then show "wf_num 7 (specialModP x)" "\<not> bh_sign (specialModP x)" "V (specialModP x) = V x mod p192" by blast+
qed

lemma special_neg:
  assumes "wf_num 7 x" "bh_sign x"
  shows "wf_num 7 (specialModP x)" "\<not> bh_sign (specialModP x)"
    "V (specialModP x) < p192 \<Longrightarrow> (V (specialModP x) + V x) mod p192 = 0"
proof -
  define y where "y = (if bh_len bigHexP < bh_len x then
      let NModPinv = MultiplyByU32ModPInv (bh_num x ! (ELEMENTS_BIG_HEX - bh_len x)) initBigNumber;
          x = x\<lparr>bh_num := (bh_num x)[0 := 0]\<rparr> in
      if \<not> bh_sign x then Add2SelfBigHex x NModPinv else SubtractFromSelfBigHexSign x NModPinv
    else x)"
  note st = special_step [OF assms(1), folded y_def]
  have e: "specialModP x = AddP y"
    using over_P_val [OF assms(1)] over_P_val [OF st(1)] st(2) assms(2) by (simp add: specialModP_def y_def Let_def)
  note a = AddP_val [OF st(1)]
  show "wf_num 7 (specialModP x)" "\<not> bh_sign (specialModP x)" unfolding e by (rule a)+
  assume lt: "V (specialModP x) < p192"
  have "V y \<le> p192"
  proof (rule ccontr)
    assume "\<not> V y \<le> p192"
    then have "V (AddP y) = 2 ^ 224 + p192 - V y" using a(4) by simp
    then show False using lt V_bound [OF st(1)] unfolding e by linarith
  qed
  then have "V (specialModP x) + V y = p192" using a(3) unfolding e by simp
  then have "(V (specialModP x) + V y) mod p192 = 0" by simp
  then show "(V (specialModP x) + V x) mod p192 = 0" using st(3) by (metis mod_add_right_eq)
qed

section \<open>Multiplication modulo the prime\<close>

lemma shift_in_val:
  assumes "wf_num 7 x" "\<not> bh_sign x"
  shows "wf_num 7 (shift_in x w)" "\<not> bh_sign (shift_in x w)" "V (shift_in x w) = V x mod p192 * 2 ^ 32 + unat w"
proof -
  note s = special_pos [OF assms]
  have lt: "V (specialModP x) < 2 ^ 192" using s(3) p192_eq(2) mod_less_divisor [OF p192_eq(4), of "V x"] by linarith
  obtain N ws where n: "bh_num (specialModP x) = N # ws" "length ws = 6" "V (specialModP x) = unat N * 2 ^ 192 + bval ws"
    using split_top [OF s(1)] by metis
  have "N = 0"
  proof (rule ccontr)
    assume "N \<noteq> 0"
    then have "1 \<le> unat N" by (simp add: Suc_le_eq unat_gt_0)
    then have "1 * 2 ^ 192 \<le> unat N * 2 ^ 192" by (rule mult_le_mono1)
    then show False using lt n(3) by linarith
  qed
  then have "bval ws = V x mod p192" using n(3) s(3) by simp
  then show "V (shift_in x w) = V x mod p192 * 2 ^ 32 + unat w" "wf_num 7 (shift_in x w)" "\<not> bh_sign (shift_in x w)"
    using n s(2) by (simp_all add: shift_in_def bval_snoc)
qed

lemma foldl_shift_in_val:
  assumes "wf_num 7 x" "\<not> bh_sign x"
  shows "wf_num 7 (foldl shift_in x ws) \<and> \<not> bh_sign (foldl shift_in x ws) \<and>
    V (foldl shift_in x ws) mod p192 = (V x * 2 ^ (32 * length ws) + bval ws) mod p192"
  using assms
proof (induction ws arbitrary: x)
  case (Cons w ws)
  note s = shift_in_val [OF Cons.prems, of w]
  have "(V (shift_in x w) * 2 ^ (32 * length ws) + bval ws) mod p192 =
      ((V x * 2 ^ 32 + unat w) * 2 ^ (32 * length ws) + bval ws) mod p192"
  proof -
    have "V (shift_in x w) mod p192 = (V x * 2 ^ 32 + unat w) mod p192"
      unfolding s(3) by (simp only: mod_mult_left_eq mod_add_left_eq [symmetric, of "V x mod p192 * 2 ^ 32"] mod_add_left_eq [of "V x * 2 ^ 32"])
    then show ?thesis by (metis mod_add_cong mod_mult_cong)
  qed
  also have "(V x * 2 ^ 32 + unat w) * 2 ^ (32 * length ws) + bval ws = V x * 2 ^ (32 * length (w # ws)) + bval (w # ws)"
    by (simp add: bval_Cons power_add algebra_simps)
  finally show ?case using Cons.IH [OF s(1,2)] by simp
qed simp

lemma takeWhile_numlen: "length (takeWhile (\<lambda>w. w = 0) xs) = length xs - numlen xs"
proof -
  have "length (takeWhile (\<lambda>w. w = 0) xs) + length (dropWhile (\<lambda>w. w = 0) xs) = length xs"
    by (metis length_append takeWhile_dropWhile_id)
  then show ?thesis by (simp add: numlen_def)
qed

lemma takeWhile_take: "takeWhile P (take n xs) = take n (takeWhile P xs)"
  by (induction xs arbitrary: n) (auto simp: take_Cons split: nat.split)

lemma takeWhile_drop: "i \<le> length (takeWhile P xs) \<Longrightarrow> i + length (takeWhile P (drop i xs)) = length (takeWhile P xs)"
proof (induction i arbitrary: xs)
  case (Suc i)
  then show ?case by (cases xs) (auto split: if_splits)
qed simp

lemma first_words_val:
  assumes "wf_num 14 t"
  shows "first_words t = (if p192 \<le> V t then 14 - numlen (bh_num t) else min 7 (14 - numlen (bh_num t)))"
proof -
  define z where "z = length (takeWhile (\<lambda>w. w = 0) (bh_num t))"
  have z: "z = 14 - numlen (bh_num t)" using assms by (simp add: z_def takeWhile_numlen wf_num_def)
  define i where "i = length (takeWhile (\<lambda>w. w = 0) (take ELEMENTS_BIG_HEX (bh_num t)))"
  have i: "i = min 7 z" by (simp add: i_def z_def takeWhile_take ELEMENTS_BIG_HEX_def min.commute)
  have "i + length (takeWhile (\<lambda>w. w = 0) (drop i (bh_num t))) = z"
    unfolding z_def by (rule takeWhile_drop) (use i z_def in simp)
  then show ?thesis using very_ge_val [OF assms VP_facts(1)] i z unfolding first_words_def i_def [symmetric] by simp
qed

lemma product_val:
  assumes "wf_num 7 a" "\<not> bh_sign a" "wf_num 7 b" "\<not> bh_sign b" "V b < 2 ^ 192"
  shows "if p192 \<le> V a * V b \<and> V a * V b < 2 ^ 192 then MultiplyBigHexModP a b = None
    else \<exists>r. MultiplyBigHexModP a b = Some r \<and> wf_num 7 r \<and> \<not> bh_sign r \<and> V r = V a * V b mod p192"
proof -
  note m = mul_nums_val [OF wf_num_D(1) [OF assms(1)] wf_num_D(1) [OF assms(3)] assms(5)]
  define t where "t = (setBigNumberLength \<lparr>bh_num = mul_nums (bh_num a) (bh_num b), bh_len = 0, bh_sign = False\<rparr>)
      \<lparr>bh_sign := bh_sign a \<noteq> bh_sign b\<rparr>"
  have t: "wf_num 14 t" "V t = V a * V b" "\<not> bh_sign t" using m assms by (simp_all add: t_def)
  define i where "i = first_words t"
  have i: "i = (if p192 \<le> V t then 14 - numlen (bh_num t) else min 7 (14 - numlen (bh_num t)))"
    unfolding i_def by (rule first_words_val [OF t(1)])
  define x where "x = setBigNumberLength \<lparr>bh_num = take ELEMENTS_BIG_HEX (drop i (bh_num t)), bh_len = 0, bh_sign = bh_sign t\<rparr>"
  have e: "MultiplyBigHexModP a b = (if i + 7 \<le> 14 then Some (specialModP (foldl shift_in x (drop (i + 7) (bh_num t)))) else None)"
    using t(1) unfolding MultiplyBigHexModP_def Let_def t_def [symmetric] i_def [symmetric] x_def [symmetric]
    by (simp add: ELEMENTS_BIG_HEX_def wf_num_def)
  have big: "7 \<le> numlen (bh_num t) \<longleftrightarrow> 2 ^ 192 \<le> V t"
  proof
    assume "7 \<le> numlen (bh_num t)"
    then have "2 ^ (32 * 6) \<le> (2 :: nat) ^ (32 * (numlen (bh_num t) - 1))" by (intro power_increasing) simp_all
    also have "\<dots> \<le> V t" using \<open>7 \<le> numlen (bh_num t)\<close> by (intro numlen_bounds(2)) simp
    finally show "2 ^ 192 \<le> V t" by simp
  next
    assume b: "2 ^ 192 \<le> V t"
    have "V t < 2 ^ (32 * numlen (bh_num t))" by (rule numlen_bounds(1))
    then have "(2 :: nat) ^ 192 < 2 ^ (32 * numlen (bh_num t))" using b by linarith
    then have "192 < 32 * numlen (bh_num t)" by (rule power_less_imp_less_exp [rotated]) simp
    then show "7 \<le> numlen (bh_num t)" by simp
  qed
  show ?thesis
  proof (cases "p192 \<le> V t \<and> V t < 2 ^ 192")
    case True
    then have "numlen (bh_num t) < 7" using big by (metis leD le_less_linear)
    then have "7 < i" using True i by simp
    then have "MultiplyBigHexModP a b = None" using e by simp
    then show ?thesis using True t(2) by simp
  next
    case False
    have le: "i \<le> 7" using False big i by auto
    have len: "length (bh_num t) = 14" using t(1) by (simp add: wf_num_def)
    have x: "wf_num 7 x" "\<not> bh_sign x" using le len t(3) by (simp_all add: x_def ELEMENTS_BIG_HEX_def)
    have "i \<le> length (takeWhile (\<lambda>w. w = 0) (bh_num t))" using i len by (auto simp: takeWhile_numlen)
    then have zeros: "bval (drop i (bh_num t)) = V t"
    proof -
      have "take i (bh_num t) = take i (takeWhile (\<lambda>w. w = 0) (bh_num t))"
        using \<open>i \<le> length (takeWhile (\<lambda>w. w = 0) (bh_num t))\<close> by (metis takeWhile_dropWhile_id take_append diff_is_0_eq take0 append_Nil2)
      then have "set (take i (bh_num t)) \<subseteq> set (takeWhile (\<lambda>w. w = 0) (bh_num t))" by (metis set_take_subset)
      then have z: "\<forall>w \<in> set (take i (bh_num t)). w = 0" by (auto dest: set_takeWhileD)
      have "take i (bh_num t) = replicate (length (take i (bh_num t))) 0" by (rule replicate_eqI) (use z in auto)
      then have "bval (take i (bh_num t)) = 0" by (metis bval_zeros)
      then show ?thesis using bval_append [of "take i (bh_num t)" "drop i (bh_num t)"] by simp
    qed
    have split: "V x * 2 ^ (32 * length (drop (i + 7) (bh_num t))) + bval (drop (i + 7) (bh_num t)) = V t"
    proof -
      have "drop i (bh_num t) = bh_num x @ drop (i + 7) (bh_num t)"
        using append_take_drop_id [of 7 "drop i (bh_num t)"] by (simp add: x_def ELEMENTS_BIG_HEX_def add.commute)
      then show ?thesis using zeros bval_append by metis
    qed
    note f = foldl_shift_in_val [OF x, of "drop (i + 7) (bh_num t)", unfolded split]
    note s = special_pos [OF conjunct1 [OF f] conjunct1 [OF conjunct2 [OF f]]]
    have "MultiplyBigHexModP a b = Some (specialModP (foldl shift_in x (drop (i + 7) (bh_num t))))" using e le by simp
    moreover have "V (specialModP (foldl shift_in x (drop (i + 7) (bh_num t)))) = V a * V b mod p192"
      using s(3) f t(2) by simp
    ultimately show ?thesis using s(1,2) False t(2) by auto
  qed
qed


text \<open>
  C26. The product modulo the prime is exact for all factors below \<open>2^224\<close> and \<open>2^192\<close>, except when the product lies
  between the prime and \<open>2^192\<close>: then one word too few is copied, and the last is never written.
\<close>

theorem product_modulo_prime:
  assumes "wf_num 7 a" "\<not> bh_sign a" "wf_num 7 b" "\<not> bh_sign b" "V b < 2 ^ 192"
  shows "if p192 \<le> V a * V b \<and> V a * V b < 2 ^ 192 then MultiplyBigHexModP a b = None
    else \<exists>r. MultiplyBigHexModP a b = Some r \<and> wf_num 7 r \<and> \<not> bh_sign r \<and> V r = V a * V b mod p192"
  by (rule product_val [OF assms])

lemma small_num_eq: "small_num w = \<lparr>bh_num = [0, 0, 0, 0, 0, 0, w], bh_len = 1, bh_sign = False\<rparr>"
  by (simp add: small_num_def ELEMENTS_BIG_HEX_def HIGHEST_INDEX_BIG_HEX_def eval_nat_numeral)

lemma small_num_facts [simp]:
  "w \<noteq> 0 \<Longrightarrow> wf_num 7 (small_num w)" "V (small_num w) = unat w" "\<not> bh_sign (small_num w)" "length (bh_num (small_num w)) = 7"
  by (simp_all add: small_num_eq wf_num_def numlen_def bval_Cons)

lemma product_modulo_prime_witness:
  "MultiplyBigHexModP (small_num 3) (small_num 5) \<noteq> None \<and>
   MultiplyBigHexModP \<lparr>bh_num = [0, 0, 0, 0, 1, 0, 0], bh_len = 3, bh_sign = False\<rparr>
     \<lparr>bh_num = [0, 0, 0, 0xFFFFFFFF, 0xFFFFFFFF, 0xFFFFFFFF, 0xFFFFFFFF], bh_len = 4, bh_sign = False\<rparr> = None"
proof
  let ?a = "\<lparr>bh_num = [0, 0, 0, 0, 1, 0, 0], bh_len = 3, bh_sign = False\<rparr>"
  let ?b = "\<lparr>bh_num = [0, 0, 0, 0xFFFFFFFF, 0xFFFFFFFF, 0xFFFFFFFF, 0xFFFFFFFF], bh_len = 4, bh_sign = False\<rparr>"
  have w: "wf_num 7 (small_num 3)" "\<not> bh_sign (small_num 3)" "wf_num 7 (small_num 5)" "\<not> bh_sign (small_num 5)"
    "V (small_num 5) < 2 ^ 192" by simp_all
  have "\<not> p192 \<le> V (small_num 3) * V (small_num 5)" by (simp add: p192_def)
  then show "MultiplyBigHexModP (small_num 3) (small_num 5) \<noteq> None"
    using product_modulo_prime [OF w] by (auto simp del: small_num_facts)
  have v: "wf_num 7 ?a" "\<not> bh_sign ?a" "wf_num 7 ?b" "\<not> bh_sign ?b" "V ?b < 2 ^ 192"
    by (simp_all add: wf_num_def numlen_def bval_Cons)
  have "V ?a = 2 ^ 64" "V ?b = 2 ^ 128 - 1" by (simp_all add: bval_Cons)
  then have "p192 \<le> V ?a * V ?b \<and> V ?a * V ?b < 2 ^ 192" by (simp add: p192_def)
  then show "MultiplyBigHexModP ?a ?b = None" using product_modulo_prime [OF v] by (simp only: if_True)
qed

end
