(* ===== verification/Lmp_Points.thy ===== *)
theory Lmp_Points
  imports Lmp_Field
begin

text \<open>
  The points of lmp_ecc.c: doubling and addition are the same formulas on elements of the field,
  without a result exactly when a product hits the gap of the reduction.
\<close>

section \<open>Elements of the field\<close>

definition repn :: "bigHex \<Rightarrow> nat \<Rightarrow> bool" where
  "repn x n \<longleftrightarrow> wf_num 7 x \<and> \<not> bh_sign x \<and> V x = n \<and> n < p192"

definition fadd :: "nat \<Rightarrow> nat \<Rightarrow> nat" where "fadd a b = (a + b) mod p192"
definition fsub :: "nat \<Rightarrow> nat \<Rightarrow> nat" where "fsub a b = (a + (p192 - b)) mod p192"
definition fmul :: "nat \<Rightarrow> nat \<Rightarrow> nat" where "fmul a b = a * b mod p192"

lemma repD: "repn x n \<Longrightarrow> wf_num 7 x" "repn x n \<Longrightarrow> \<not> bh_sign x" "repn x n \<Longrightarrow> V x = n" "repn x n \<Longrightarrow> n < p192"
  by (simp_all add: repn_def)

lemma mod_p_less [simp]: "m mod p192 < p192"
  by (simp add: p192_eq(4))

lemma rep_mul:
  assumes "repn x a" "repn y b" "MultiplyBigHexModP x y = Some r"
  shows "repn r (fmul a b)"
proof -
  have "V y < 2 ^ 192" using assms(2) p192_eq(2) by (simp add: repn_def)
  then show ?thesis
    using product_val [of x y] assms by (auto simp: repn_def fmul_def split: if_splits)
qed

lemma rep_mul_total:
  assumes "repn x a" "repn y b" "\<not> (p192 \<le> a * b \<and> a * b < 2 ^ 192)"
  shows "\<exists>r. MultiplyBigHexModP x y = Some r \<and> repn r (fmul a b)"
proof -
  have "V y < 2 ^ 192" using assms(2) p192_eq(2) by (simp add: repn_def)
  then show ?thesis
    using product_val [of x y] assms by (auto simp: repn_def fmul_def split: if_splits)
qed

definition fmulo :: "nat \<Rightarrow> nat \<Rightarrow> nat option" where
  "fmulo a b = (if p192 \<le> a * b \<and> a * b < 2 ^ 192 then None else Some (fmul a b))"

lemma rep_mulo:
  assumes "repn x a" "repn y b"
  shows "rel_option repn (MultiplyBigHexModP x y) (fmulo a b)"
proof (cases "p192 \<le> a * b \<and> a * b < 2 ^ 192")
  case True
  moreover have "V y < 2 ^ 192" using assms(2) p192_eq(2) by (simp add: repn_def)
  ultimately show ?thesis using product_val [of x y] assms by (simp add: repn_def fmulo_def)
next
  case False
  then obtain r where "MultiplyBigHexModP x y = Some r" "repn r (fmul a b)" using rep_mul_total [OF assms] by blast
  then show ?thesis using False by (simp add: fmulo_def)
qed

lemma bind_rel:
  assumes "rel_option R m n" "\<And>x y. R x y \<Longrightarrow> rel_option S (f x) (g y)"
  shows "rel_option S (Option.bind m f) (Option.bind n g)"
  using assms by (cases m; cases n) simp_all

lemma rep_mul_small:
  assumes "repn x a"
  shows "repn (MultiplyBigHexByUint32 x n) (fmul a (unat n))"
proof -
  define r where "r = setBigNumberLength \<lparr>bh_num = rev (mul_word (rev (bh_num x)) n 0), bh_len = 0, bh_sign = False\<rparr>"
  have "a * unat n < 2 ^ 192 * 2 ^ 32"
    using repD(4) [OF assms] p192_eq(2) u32_bound [of n] by (intro mult_strict_mono) simp_all
  then have "mp_val (mul_word (rev (bh_num x)) n 0) = a * unat n"
    using mul_word_val [of "rev (bh_num x)" n 0] assms by (simp add: repn_def wf_num_def bval_def)
  then have r: "wf_num 7 (r\<lparr>bh_sign := bh_sign x\<rparr>)" "\<not> bh_sign (r\<lparr>bh_sign := bh_sign x\<rparr>)" "V (r\<lparr>bh_sign := bh_sign x\<rparr>) = a * unat n"
    using mul_word_val [of "rev (bh_num x)" n 0] assms by (simp_all add: r_def repn_def wf_num_D bval_def)
  show ?thesis
    using special_pos [OF r(1,2)] r(3) unfolding MultiplyBigHexByUint32_def r_def [symmetric] Let_def by (simp add: repn_def fmul_def)
qed

lemma reduce_rep:
  assumes "wf_num 7 r" "\<not> bh_sign r" "V r < 2 * p192"
  shows "repn (if isGreaterThanOrEqual r bigHexP then SubtractFromSelfBigHex r bigHexP else r) (V r mod p192)"
proof (cases "p192 \<le> V r")
  case True
  then show ?thesis
    using sub_self_val [OF assms(1) P_facts(1)] ge_val [OF assms(1) P_facts(1)] assms mod_once [OF assms(3)] by (simp add: repn_def)
next
  case False
  then show ?thesis using ge_val [OF assms(1) P_facts(1)] assms by (simp add: repn_def)
qed

lemma rep_add:
  assumes "repn x a" "repn y b"
  shows "repn (AddBigHexModP x y r) (fadd a b)"
proof -
  have "V x + V y < 2 ^ 224" "V x + V y < 2 * p192"
    using repD(3,4) [OF assms(1)] repD(3,4) [OF assms(2)] by (simp_all add: p192_def)
  then show ?thesis
    using hex_add_val [OF repD(1) [OF assms(1)] repD(1) [OF assms(2)], of r] reduce_rep [of "AddBigHex x y r"] repD(3) [OF assms(1)] repD(3) [OF assms(2)]
    by (simp add: AddBigHexModP_def fadd_def Let_def)
qed

lemma rep_sub:
  assumes "repn x a" "repn y b"
  shows "repn (SubtractBigHexMod x y r) (fsub a b)"
proof -
  note d = repD [OF assms(1)] repD [OF assms(2)]
  show ?thesis
  proof (cases "b \<le> a")
    case True
    define t where "t = (SubtractBigHex x y r)\<lparr>bh_sign := False\<rparr>"
    have t: "wf_num 7 t" "\<not> bh_sign t" "V t = a - b"
      using hex_sub_val [OF d(1,5), of r] True d by (simp_all add: t_def)
    have "V t < 2 * p192" using t(3) d(4) by simp
    have "a + (p192 - b) = (a - b) + p192" using True d(8) by simp
    then have "fsub a b = V t mod p192" using t(3) by (simp add: fsub_def)
    moreover have "SubtractBigHexMod x y r = (if isGreaterThanOrEqual t bigHexP then SubtractFromSelfBigHex t bigHexP else t)"
      using True d ge_val [OF d(1,5)] unfolding SubtractBigHexMod_def Let_def t_def by simp
    ultimately show ?thesis using reduce_rep [OF t(1,2) \<open>V t < 2 * p192\<close>] by simp
  next
    case False
    define t where "t = (SubtractBigHex y x r)\<lparr>bh_sign := True\<rparr>"
    have t: "wf_num 7 t" "bh_sign t" "V t = b - a"
      using hex_sub_val [OF d(5,1), of r] False d by (simp_all add: t_def)
    have le: "V t \<le> p192" using t(3) d(8) by simp
    have e: "SubtractBigHexMod x y r = AddP t"
      using False d ge_val [OF d(1,5)] by (simp add: SubtractBigHexMod_def t_def Let_def)
    have "a + (p192 - b) = p192 - (b - a)" "p192 - (b - a) < p192" using False d(8) by simp_all
    then have "fsub a b = p192 - V t" using t(3) by (simp add: fsub_def)
    then show ?thesis using AddP_val [OF t(1)] le False t(3) d unfolding e by (simp add: repn_def)
  qed
qed


section \<open>Points\<close>

type_synonym fpoint = "nat \<times> nat \<times> nat"

definition rep3 :: "ECC_Jacobian_Point \<Rightarrow> fpoint \<Rightarrow> bool" where
  "rep3 p P \<longleftrightarrow> (case P of (x, y, z) \<Rightarrow> repn (jx p) x \<and> repn (jy p) y \<and> repn (jz p) z)"

text \<open>The same steps on the elements of the field.\<close>

definition fdouble :: "fpoint \<Rightarrow> fpoint option" where
  "fdouble P = (case P of (x, y, z) \<Rightarrow> do {
     i \<leftarrow> fmulo (fadd x z) (fsub x z);
     let W = fmul i 3;
     S \<leftarrow> fmulo y z;
     i \<leftarrow> fmulo y S;
     B \<leftarrow> fmulo x i;
     WW \<leftarrow> fmulo W W;
     let H = fsub WW (fmul B 8);
     x' \<leftarrow> fmulo H S;
     yy \<leftarrow> fmulo y y;
     SS \<leftarrow> fmulo S S;
     i \<leftarrow> fmulo yy SS;
     j \<leftarrow> fmulo W (fsub (fmul B 4) H);
     z' \<leftarrow> fmulo SS S;
     Some (fmul x' 2, fsub j (fmul i 8), fmul z' 8) })"

definition fchord :: "nat \<Rightarrow> nat \<Rightarrow> nat \<Rightarrow> nat \<Rightarrow> nat \<Rightarrow> nat \<Rightarrow> fpoint option" where
  "fchord z1 z2 U1 U2 V1 V2 = do {
     let U = fsub U1 U2;
     let V = fsub V1 V2;
     W \<leftarrow> fmulo z1 z2;
     VV \<leftarrow> fmulo V V;
     VVV \<leftarrow> fmulo VV V;
     UU \<leftarrow> fmulo U U;
     VV2 \<leftarrow> fmulo VV V2;
     i \<leftarrow> fmulo UU W;
     let A = fsub (fsub i VVV) (fmul VV2 2);
     x \<leftarrow> fmulo V A;
     j \<leftarrow> fmulo U (fsub VV2 A);
     k \<leftarrow> fmulo VVV U2;
     z \<leftarrow> fmulo VVV W;
     Some (x, fsub j k, z) }"

definition finfinity :: fpoint where "finfinity = (0, 1, 0)"

definition faddition :: "fpoint \<Rightarrow> fpoint \<Rightarrow> fpoint option" where
  "faddition P Q = (case (P, Q) of ((x1, y1, z1), (x2, y2, z2)) \<Rightarrow>
     if P = finfinity then Some Q else if Q = finfinity then Some P
     else if x2 = x1 \<and> (y2 \<noteq> y1 \<or> y2 = 0) then Some finfinity
     else do {
       U1 \<leftarrow> fmulo y2 z1;
       U2 \<leftarrow> fmulo y1 z2;
       V1 \<leftarrow> fmulo x2 z1;
       V2 \<leftarrow> fmulo x1 z2;
       if V1 = V2 then if U1 \<noteq> U2 then Some finfinity else fdouble P
       else fchord z1 z2 U1 U2 V1 V2 })"

lemma rep_zero: "repn initBigNumber 0"
  using p192_eq(4) by (simp add: repn_def)

lemma rep_one: "repn (small_num 1) 1"
  using p192_eq(3) by (simp add: repn_def)

lemma rep_eq: "repn x a \<Longrightarrow> repn y b \<Longrightarrow> notEqual x y \<longleftrightarrow> a \<noteq> b"
  using notEqual_val [of x y] by (simp add: repn_def)

lemmas rep_small = rep_mul_small [where n = 2, simplified] rep_mul_small [where n = 3, simplified]
  rep_mul_small [where n = 4, simplified] rep_mul_small [where n = 8, simplified]

lemmas rep_steps = bind_rel rep_mulo rep_add rep_sub rep_small

lemma rep3_Some: "repn x a \<Longrightarrow> repn y b \<Longrightarrow> repn z c \<Longrightarrow> rel_option rep3 (Some \<lparr>jx = x, jy = y, jz = z\<rparr>) (Some (a, b, c))"
  by (simp add: rep3_def)

lemma double_rel:
  assumes "rep3 p P"
  shows "rel_option rep3 (GF_Jacobian_Point_Double p) (fdouble P)"
proof -
  obtain x y z where P: "P = (x, y, z)" by (cases P) auto
  have r: "repn (jx p) x" "repn (jy p) y" "repn (jz p) z" using assms by (simp_all add: rep3_def P)
  show ?thesis
    unfolding GF_Jacobian_Point_Double_def fdouble_def P Let_def prod.case
    by (rule rep_steps rep3_Some r | assumption)+
qed

lemma chord_rel:
  assumes "repn (jz p) z1" "repn (jz q) z2" "repn U1 u1" "repn U2 u2" "repn V1 v1" "repn V2 v2"
  shows "rel_option rep3 (add_formula p q U1 U2 V1 V2) (fchord z1 z2 u1 u2 v1 v2)"
  unfolding add_formula_def fchord_def Let_def by (rule rep_steps rep3_Some assms | assumption)+

lemma infinity_rep: "rep3 LMecc_Jacobian_InfinityPoint finfinity"
  by (simp add: rep3_def LMecc_Jacobian_InfinityPoint_def finfinity_def rep_zero rep_one [simplified])

lemma Is_Infinite_rep: "rep3 p P \<Longrightarrow> Is_Infinite p \<longleftrightarrow> P = finfinity"
  using infinity_rep rep_eq by (cases P) (auto simp: Is_Infinite_def rep3_def finfinity_def)

lemma y_zero_rep: "repn x n \<Longrightarrow> bh_len x \<le> 1 \<and> bh_num x ! 6 = 0 \<longleftrightarrow> n = 0"
proof -
  assume r: "repn x n"
  obtain ys y where x: "bh_num x = ys @ [y]" "length ys = 6"
    using repD(1) [OF r] by (cases "bh_num x" rule: rev_cases) (auto simp: wf_num_def)
  have len: "bh_len x = numlen (bh_num x)" using repD(1) [OF r] by (simp add: wf_num_def)
  have v: "n = bval ys * 2 ^ 32 + unat y" using repD(3) [OF r] x by (simp add: bval_snoc)
  have y: "bh_num x ! 6 = y" using x by (simp add: nth_append)
  have n0: "bval (bh_num x) = n" by (rule repD(3) [OF r])
  show ?thesis
  proof
    assume a: "bh_len x \<le> 1 \<and> bh_num x ! 6 = 0"
    have "(2 :: nat) ^ (32 * numlen (bh_num x)) \<le> 2 ^ 32" using a len by (intro power_increasing) simp_all
    then have "n < 2 ^ 32" using numlen_bounds(1) [of "bh_num x"] n0 by linarith
    then have "bval ys = 0" using v by (cases "bval ys") simp_all
    then show "n = 0" using v y a by simp
  next
    assume "n = 0"
    then have "\<not> 0 < numlen (bh_num x)" using numlen_bounds(2) [of "bh_num x"] n0 by auto
    then show "bh_len x \<le> 1 \<and> bh_num x ! 6 = 0" using \<open>n = 0\<close> v y len by (simp add: unat_eq_zero)
  qed
qed

lemma addition_rel:
  assumes "rep3 p P" "rep3 q Q"
  shows "rel_option rep3 (GF_Jacobian_Point_Addition p q) (faddition P Q)"
proof -
  obtain x1 y1 z1 x2 y2 z2 where PQ: "P = (x1, y1, z1)" "Q = (x2, y2, z2)" by (cases P; cases Q) auto
  have r: "repn (jx p) x1" "repn (jy p) y1" "repn (jz p) z1" "repn (jx q) x2" "repn (jy q) y2" "repn (jz q) z2"
    using assms by (simp_all add: rep3_def PQ)
  note inf = Is_Infinite_rep [OF assms(1)] Is_Infinite_rep [OF assms(2)]
  show ?thesis
  proof (cases "P = finfinity \<or> Q = finfinity")
    case True
    then show ?thesis using inf assms infinity_rep by (auto simp: GF_Jacobian_Point_Addition_def faddition_def PQ)
  next
    case False
    then have i: "\<not> Is_Infinite p" "\<not> Is_Infinite q" and n: "(x1, y1, z1) \<noteq> finfinity" "(x2, y2, z2) \<noteq> finfinity"
      using inf PQ by simp_all
    have e: "\<not> notEqual (jx q) (jx p) \<and> (notEqual (jy q) (jy p) \<or> bh_len (jy q) \<le> 1 \<and> bh_num (jy q) ! 6 = 0) \<longleftrightarrow>
        x2 = x1 \<and> (y2 \<noteq> y1 \<or> y2 = 0)"
      unfolding rep_eq [OF r(4,1)] rep_eq [OF r(5,2)] y_zero_rep [OF r(5)] by blast
    have last: "rel_option rep3
        (if \<not> notEqual V1 V2 then if notEqual U1 U2 then Some LMecc_Jacobian_InfinityPoint else GF_Jacobian_Point_Double p
         else add_formula p q U1 U2 V1 V2)
        (if v1 = v2 then if u1 \<noteq> u2 then Some finfinity else fdouble (x1, y1, z1) else fchord z1 z2 u1 u2 v1 v2)"
      if v: "repn U1 u1" "repn U2 u2" "repn V1 v1" "repn V2 v2" for U1 u1 U2 u2 V1 v1 V2 v2
      unfolding rep_eq [OF v(1,2)] rep_eq [OF v(3,4)]
      using chord_rel [OF r(3,6) v] double_rel [OF assms(1)] infinity_rep PQ by simp
    show ?thesis
    proof (cases "x2 = x1 \<and> (y2 \<noteq> y1 \<or> y2 = 0)")
      case True
      then show ?thesis
        unfolding GF_Jacobian_Point_Addition_def faddition_def PQ prod.case e using i n infinity_rep by simp
    next
      case gen: False
      show ?thesis
        unfolding GF_Jacobian_Point_Addition_def faddition_def PQ prod.case e if_not_P [OF i(1)] if_not_P [OF i(2)]
          if_not_P [OF n(1)] if_not_P [OF n(2)] if_not_P [OF gen]
        by (rule bind_rel [where R = repn] rep_mulo r last | assumption)+
    qed
  qed
qed

end
