(* ===== verification/Lmp_Curve.thy ===== *)
theory Lmp_Curve
  imports Lmp_Points "HOL-Library.Numeral_Type"
begin

text \<open>
  The formulas of lmp_ecc.c over the field with p192 elements: the sum of two points lies on
  their chord, the double of a point on its tangent.
\<close>

section \<open>The field\<close>

text \<open>The residues modulo the prime, as the library's type with as many elements.\<close>

type_synonym gf = "6277101735386680763835789423207666416083908700390324961279"

definition gf :: "nat \<Rightarrow> gf" where "gf n = of_nat n"

lemma gf_p192: "gf p192 = 0"
proof -
  have "CHAR(gf) = p192" by (simp add: p192_def)
  then show ?thesis using of_nat_CHAR [where 'a = gf] by (simp add: gf_def)
qed

lemma gf_mod: "gf (n mod p192) = gf n"
proof -
  have "gf n = gf (p192 * (n div p192) + n mod p192)" by (simp only: mult_div_mod_eq)
  also have "\<dots> = gf (n mod p192)" using gf_p192 unfolding gf_def of_nat_add of_nat_mult by simp
  finally show ?thesis by simp
qed

lemma gf_fmul: "gf (fmul a b) = gf a * gf b"
  unfolding fmul_def gf_mod by (simp add: gf_def)

lemma gf_fadd: "gf (fadd a b) = gf a + gf b"
  unfolding fadd_def gf_mod by (simp add: gf_def)

lemma gf_fsub: "b < p192 \<Longrightarrow> gf (fsub a b) = gf a - gf b"
  using gf_p192 unfolding fsub_def gf_mod by (simp add: gf_def of_nat_diff less_imp_le)

lemma fmulo_Some: "fmulo a b = Some c \<Longrightarrow> gf c = gf a * gf b"
  by (auto simp: fmulo_def gf_fmul split: if_splits)

lemma less_p192 [simp]: "fmul a b < p192" "fadd a b < p192" "fsub a b < p192"
  by (simp_all add: fmul_def fadd_def fsub_def)

lemma fmulo_less: "fmulo a b = Some c \<Longrightarrow> c < p192"
  by (auto simp: fmulo_def split: if_splits)

lemmas gf_ops = gf_fmul gf_fadd gf_fsub

section \<open>The formulas\<close>

lemma fdouble_gf:
  assumes "fdouble (x, y, z) = Some (X, Y, Z)" "x < p192" "y < p192" "z < p192"
  defines "w \<equiv> 3 * (gf x + gf z) * (gf x - gf z)" and "s \<equiv> gf y * gf z"
  defines "b \<equiv> gf x * (gf y * s)"
  defines "h \<equiv> w * w - 8 * b"
  shows "gf X = 2 * (h * s)" "gf Y = w * (4 * b - h) - 8 * ((gf y * gf y) * (s * s))" "gf Z = 8 * (s * s * s)"
proof -
  obtain i S i2 B WW x' yy SS i4 j z' where
    m: "fmulo (fadd x z) (fsub x z) = Some i" "fmulo y z = Some S" "fmulo y S = Some i2" "fmulo x i2 = Some B"
      "fmulo (fmul i 3) (fmul i 3) = Some WW" "fmulo (fsub WW (fmul B 8)) S = Some x'" "fmulo y y = Some yy"
      "fmulo S S = Some SS" "fmulo yy SS = Some i4"
      "fmulo (fmul i 3) (fsub (fmul B 4) (fsub WW (fmul B 8))) = Some j" "fmulo SS S = Some z'" and
    r: "X = fmul x' 2" "Y = fsub j (fmul i4 8)" "Z = fmul z' 8"
    using assms(1) unfolding fdouble_def prod.case Let_def bind_eq_Some_conv by blast
  have n: "gf 2 = 2" "gf 3 = 3" "gf 4 = 4" "gf 8 = 8" by (simp_all add: gf_def)
  have g: "gf i = (gf x + gf z) * (gf x - gf z)" "gf S = s" "gf i2 = gf y * s" "gf B = b"
    using fmulo_Some [OF m(1)] fmulo_Some [OF m(2)] fmulo_Some [OF m(3)] fmulo_Some [OF m(4)] assms(4)
    by (simp_all add: gf_ops s_def b_def)
  have W: "gf (fmul i 3) = w" by (simp only: gf_fmul g n w_def mult_ac)
  have H: "gf (fsub WW (fmul B 8)) = h" using fmulo_Some [OF m(5)] by (simp add: gf_fsub gf_fmul [of B] W g n h_def)
  show "gf X = 2 * (h * s)" using fmulo_Some [OF m(6)] unfolding r(1) gf_fmul n H g by simp
  show "gf Z = 8 * (s * s * s)" using fmulo_Some [OF m(11)] fmulo_Some [OF m(8)] unfolding r(3) gf_fmul n g by simp
  have "gf i4 = gf y * gf y * (s * s)" using fmulo_Some [OF m(9)] fmulo_Some [OF m(7)] fmulo_Some [OF m(8)] g by simp
  moreover have "gf j = w * (b * 4 - h)" using fmulo_Some [OF m(10)] W by (simp add: gf_fsub H gf_fmul [of B] g n)
  then have "gf j = w * (4 * b - h)" by (simp only: mult.commute [of b 4])
  ultimately show "gf Y = w * (4 * b - h) - 8 * ((gf y * gf y) * (s * s))"
    unfolding r(2) by (simp add: gf_fsub gf_fmul n)
qed

lemma fchord_gf:
  assumes "fchord z1 z2 u1 u2 v1 v2 = Some (X, Y, Z)" "u2 < p192" "v2 < p192"
  defines "u \<equiv> gf u1 - gf u2" and "v \<equiv> gf v1 - gf v2" and "w \<equiv> gf z1 * gf z2"
  defines "a \<equiv> u * u * w - v * v * v - 2 * (v * v * gf v2)"
  shows "gf X = v * a" "gf Y = u * (v * v * gf v2 - a) - v * v * v * gf u2" "gf Z = v * v * v * w"
proof -
  let ?U = "fsub u1 u2" and ?V = "fsub v1 v2"
  obtain W VV VVV UU VV2 i j k where
    m: "fmulo z1 z2 = Some W" "fmulo ?V ?V = Some VV" "fmulo VV ?V = Some VVV" "fmulo ?U ?U = Some UU" "fmulo VV v2 = Some VV2"
      "fmulo UU W = Some i" "fmulo ?V (fsub (fsub i VVV) (fmul VV2 2)) = Some X"
      "fmulo ?U (fsub VV2 (fsub (fsub i VVV) (fmul VV2 2))) = Some j" "fmulo VVV u2 = Some k" "fmulo VVV W = Some Z" and
    r: "Y = fsub j k"
    using assms(1) unfolding fchord_def Let_def bind_eq_Some_conv by blast
  note f = m [THEN fmulo_Some]
  have two: "gf 2 = 2" by (simp add: gf_def)
  have U: "gf ?U = u" "gf ?V = v" using assms(2,3) by (simp_all add: gf_fsub u_def v_def)
  have A: "gf (fsub (fsub i VVV) (fmul VV2 2)) = a"
    using fmulo_less [OF m(3)] by (simp add: gf_fsub gf_fmul f U two a_def w_def)
  show "gf X = v * a" using f(7) U A by simp
  show "gf Z = v * v * v * w" using f U by (simp add: w_def)
  show "gf Y = u * (v * v * gf v2 - a) - v * v * v * gf u2"
    unfolding r using f(8,9) U A by (simp add: gf_fsub fmulo_less [OF m(9)] f(2,3,5))
qed


section \<open>The law of the curve\<close>

text \<open>A point (x, y, z) stands for (a, b) when x = a z and y = b z.\<close>

definition affine :: "fpoint \<Rightarrow> gf \<Rightarrow> gf \<Rightarrow> bool" where
  "affine P a b \<longleftrightarrow> (case P of (x, y, z) \<Rightarrow> gf x = a * gf z \<and> gf y = b * gf z)"

lemma tangent_law:
  assumes "fdouble P = Some (X, Y, Z)" "P = (x, y, z)" "x < p192" "y < p192" "z < p192" "affine P a b" "l * (2 * b) = 3 * a * a - 3"
  shows "gf Z = 8 * (b * gf z * gf z) ^ 3 \<and> affine (X, Y, Z) (l * l - 2 * a) (l * (a - (l * l - 2 * a)) - b)"
proof -
  define s where "s = gf y * gf z"
  define c where "c = l * l - 2 * a"
  have xy: "gf x = a * gf z" "gf y = b * gf z" using assms(2,6) by (simp_all add: affine_def)
  have s: "s = b * gf z * gf z" by (simp add: s_def xy)
  have "3 * (gf x + gf z) * (gf x - gf z) = (3 * a * a - 3) * (gf z * gf z)" unfolding xy by (simp add: algebra_simps)
  also have "\<dots> = 2 * l * s" unfolding s assms(7) [symmetric] by (simp add: algebra_simps)
  finally have w: "3 * (gf x + gf z) * (gf x - gf z) = 2 * l * s" .
  have b: "gf x * (gf y * s) = a * s * s" unfolding xy s by (simp add: algebra_simps)
  have yy: "gf y * gf y = b * s" unfolding xy s by (simp add: algebra_simps)
  have h: "2 * l * s * (2 * l * s) - 8 * (a * s * s) = 4 * c * s * s" unfolding c_def by (simp add: algebra_simps)
  note f = fdouble_gf [OF assms(1) [unfolded assms(2)] assms(3-5), folded s_def, unfolded w b h yy]
  have Z: "gf Z = 8 * s ^ 3" using f(3) by (simp add: power3_eq_cube)
  have X: "gf X = c * gf Z" unfolding f(1) Z by (simp add: power3_eq_cube algebra_simps)
  have Y: "gf Y = (l * (a - c) - b) * gf Z" unfolding f(2) Z by (simp add: power3_eq_cube algebra_simps)
  show ?thesis using X Y Z unfolding affine_def c_def s by simp
qed

lemma chord_law:
  assumes "fchord z1 z2 (fmul y2 z1) (fmul y1 z2) (fmul x2 z1) (fmul x1 z2) = Some (X, Y, Z)"
    and "affine (x1, y1, z1) a1 b1" "affine (x2, y2, z2) a2 b2" "l * (a2 - a1) = b2 - b1"
  shows "gf Z = (a2 - a1) ^ 3 * (gf z1 * gf z2) ^ 4 \<and>
    affine (X, Y, Z) (l * l - a1 - a2) (l * (a1 - (l * l - a1 - a2)) - b1)"
proof -
  define w where "w = gf z1 * gf z2"
  define v where "v = (a2 - a1) * w"
  define c where "c = l * l - a1 - a2"
  have xy: "gf x1 = a1 * gf z1" "gf y1 = b1 * gf z1" "gf x2 = a2 * gf z2" "gf y2 = b2 * gf z2"
    using assms(2,3) by (simp_all add: affine_def)
  have e: "gf (fmul x1 z2) = a1 * w" "gf (fmul y1 z2) = b1 * w"
    by (simp_all add: gf_fmul xy w_def algebra_simps)
  have V: "gf (fmul x2 z1) - a1 * w = v" by (simp add: gf_fmul xy w_def v_def algebra_simps)
  have "gf (fmul y2 z1) - b1 * w = (b2 - b1) * w" by (simp add: gf_fmul xy w_def algebra_simps)
  also have "\<dots> = l * v" unfolding assms(4) [symmetric] v_def by (simp add: algebra_simps)
  finally have U: "gf (fmul y2 z1) - b1 * w = l * v" .
  have "l * v * (l * v) * w - v * v * v - 2 * (v * v * (a1 * w)) = v * v * (l * l * w - v - 2 * (a1 * w))"
    by (simp add: algebra_simps)
  also have "l * l * w - v - 2 * (a1 * w) = c * w" by (simp add: v_def c_def algebra_simps)
  finally have A: "l * v * (l * v) * w - v * v * v - 2 * (v * v * (a1 * w)) = v * v * (c * w)" .
  note f = fchord_gf [OF assms(1) less_p192(1) less_p192(1), folded w_def, unfolded e, unfolded U V, unfolded A]
  have X: "gf X = c * gf Z" unfolding f(1,3) by (simp add: algebra_simps)
  have Y: "gf Y = (l * (a1 - c) - b1) * gf Z" unfolding f(2,3) by (simp add: algebra_simps)
  have Z: "gf Z = (a2 - a1) ^ 3 * w ^ 4" unfolding f(3) v_def by (simp add: power3_eq_cube power4_eq_xxxx algebra_simps)
  show ?thesis using X Y Z unfolding affine_def c_def w_def by simp
qed


section \<open>Addition and doubling\<close>

lemma doubling_is_tangent:
  assumes "rep3 p P" "affine P a b" "l * (2 * b) = 3 * a * a - 3"
  shows "case GF_Jacobian_Point_Double p of None \<Rightarrow> fdouble P = None
    | Some s \<Rightarrow> \<exists>T. rep3 s T \<and> gf (snd (snd T)) = 8 * (b * gf (snd (snd P)) * gf (snd (snd P))) ^ 3 \<and>
        affine T (l * l - 2 * a) (l * (a - (l * l - 2 * a)) - b)"
proof (cases "GF_Jacobian_Point_Double p")
  case None
  then show ?thesis using double_rel [OF assms(1)] by (cases "fdouble P") simp_all
next
  case (Some s)
  then obtain T where T: "fdouble P = Some T" "rep3 s T" using double_rel [OF assms(1)] by (cases "fdouble P") simp_all
  obtain x y z X Y Z where e: "P = (x, y, z)" "T = (X, Y, Z)" by (cases P; cases T) auto
  have "x < p192" "y < p192" "z < p192" using assms(1) by (simp_all add: rep3_def e repn_def)
  then show ?thesis using tangent_law [OF T(1) [unfolded e(2)] e(1) _ _ _ assms(2,3)] Some T(2) e by auto
qed

lemma sum_on_chord:
  assumes "rep3 p (x1, y1, z1)" "rep3 q (x2, y2, z2)" "affine (x1, y1, z1) a1 b1" "affine (x2, y2, z2) a2 b2"
    and "(x1, y1, z1) \<noteq> finfinity" "(x2, y2, z2) \<noteq> finfinity" "x1 \<noteq> x2" "fmul x2 z1 \<noteq> fmul x1 z2" "l * (a2 - a1) = b2 - b1"
  shows "case GF_Jacobian_Point_Addition p q of None \<Rightarrow> faddition (x1, y1, z1) (x2, y2, z2) = None
    | Some s \<Rightarrow> \<exists>T. rep3 s T \<and> gf (snd (snd T)) = (a2 - a1) ^ 3 * (gf z1 * gf z2) ^ 4 \<and>
        affine T (l * l - a1 - a2) (l * (a1 - (l * l - a1 - a2)) - b1)"
proof (cases "GF_Jacobian_Point_Addition p q")
  case None
  then show ?thesis using addition_rel [OF assms(1,2)] by (cases "faddition (x1, y1, z1) (x2, y2, z2)") simp_all
next
  case (Some s)
  then obtain T where T: "faddition (x1, y1, z1) (x2, y2, z2) = Some T" "rep3 s T"
    using addition_rel [OF assms(1,2)] by (cases "faddition (x1, y1, z1) (x2, y2, z2)") simp_all
  obtain X Y Z where e: "T = (X, Y, Z)" by (cases T) auto
  have n: "\<not> (x2 = x1 \<and> (y2 \<noteq> y1 \<or> y2 = 0))" using assms(7) by simp
  obtain U1 U2 V1 V2 where m: "fmulo y2 z1 = Some U1" "fmulo y1 z2 = Some U2" "fmulo x2 z1 = Some V1" "fmulo x1 z2 = Some V2"
    "(if V1 = V2 then if U1 \<noteq> U2 then Some finfinity else fdouble (x1, y1, z1) else fchord z1 z2 U1 U2 V1 V2) = Some T"
    using T(1) unfolding faddition_def prod.case if_not_P [OF assms(5)] if_not_P [OF assms(6)] if_not_P [OF n] bind_eq_Some_conv by blast
  have v: "fmulo a b = Some c \<Longrightarrow> c = fmul a b" for a b c by (simp add: fmulo_def split: if_splits)
  have "fchord z1 z2 (fmul y2 z1) (fmul y1 z2) (fmul x2 z1) (fmul x1 z2) = Some (X, Y, Z)"
    using m(5) v [OF m(1)] v [OF m(2)] v [OF m(3)] v [OF m(4)] assms(8) e by simp
  from chord_law [OF this assms(3,4,9)] show ?thesis using Some T(2) e by auto
qed


definition point_of :: "u32 \<Rightarrow> u32 \<Rightarrow> u32 \<Rightarrow> ECC_Jacobian_Point" where
  "point_of x y z = \<lparr>jx = small_num x, jy = small_num y, jz = small_num z\<rparr>"

lemma point_of_rep:
  assumes "x \<noteq> 0" "y \<noteq> 0" "z \<noteq> 0"
  shows "rep3 (point_of x y z) (unat x, unat y, unat z)"
proof -
  have "unat w < p192" for w :: u32 using u32_bound [of w] by (simp add: p192_def)
  then show ?thesis using assms by (simp add: point_of_def rep3_def repn_def)
qed


text \<open>Two points with the same X coordinate count as opposite, although their places differ when Z does.\<close>

lemma raw_coordinates_compared:
  assumes "rep3 p (x, y1, z1)" "rep3 q (x, y2, z2)" "(x, y1, z1) \<noteq> finfinity" "(x, y2, z2) \<noteq> finfinity" "y1 \<noteq> y2"
  shows "\<exists>s. GF_Jacobian_Point_Addition p q = Some s \<and> rep3 s finfinity"
proof -
  have "faddition (x, y1, z1) (x, y2, z2) = Some finfinity" using assms(3-5) by (simp add: faddition_def)
  then show ?thesis using addition_rel [OF assms(1,2)] by (cases "GF_Jacobian_Point_Addition p q") simp_all
qed

lemma raw_coordinates_witness:
  "\<exists>s. GF_Jacobian_Point_Addition (point_of 2 1 1) (point_of 2 2 2) = Some s \<and> rep3 s finfinity"
proof -
  have "rep3 (point_of 2 1 1) (2, 1, 1)" "rep3 (point_of 2 2 2) (2, 2, 2)"
    using point_of_rep [of 2 1 1] point_of_rep [of 2 2 2] by simp_all
  then show ?thesis by (rule raw_coordinates_compared) (simp_all add: finfinity_def)
qed

end
