(* ===== verification/Lmp_Inverse.thy ===== *)
theory Lmp_Inverse
  imports Lmp_Points
begin

text \<open>
  The inversion modulo the prime: the loops of bigHexInversion end for every number that shares no factor with the
  prime, and give the inverse. Congruence modulo the prime is kept for the two coefficients, and a bound
  on what they have been halved and doubled for keeps them inside the seven words.
\<close>

section \<open>Inversion\<close>

definition cong_p :: "int \<Rightarrow> int \<Rightarrow> bool" where
  "cong_p x y \<longleftrightarrow> int p192 dvd x - y"

lemma cong_p_halve: "cong_p (2 * x) (2 * y) \<Longrightarrow> cong_p x y"
proof -
  assume "cong_p (2 * x) (2 * y)"
  then have "int p192 dvd 2 * (x - y)" by (simp add: cong_p_def algebra_simps)
  moreover have "coprime (int p192) 2" by simp
  ultimately have "int p192 dvd x - y" using coprime_dvd_mult_right_iff by blast
  then show ?thesis by (simp add: cong_p_def)
qed

lemma sval_even: "even (sval x) \<longleftrightarrow> even (V x)"
  by (simp add: sval_def)

lemma sval_bound: "int (V x) = \<bar>sval x\<bar>"
  by (simp add: sval_def)

lemma halve_with_val:
  assumes "wf_num 7 A" "V A + p192 < 2 ^ 224"
  shows "wf_num 7 (halve_with A)" "2 * sval (halve_with A) = sval A \<or> 2 * sval (halve_with A) = sval A + int p192"
proof -
  have "wf_num 7 (halve_with A) \<and> (2 * sval (halve_with A) = sval A \<or> 2 * sval (halve_with A) = sval A + int p192)"
  proof (cases "even (V A)")
    case True
    then have "2 * int (V A div 2) = int (V A)" by (metis dvd_mult_div_cancel of_nat_mult of_nat_numeral)
    then show ?thesis using True odd_last [OF assms(1)] halve_val [OF assms(1)] by (simp add: halve_with_def sval_def)
  next
    case False
    then show ?thesis using odd_last [OF assms(1)] AddPdiv2_val [OF assms(1) _ assms(2)] by (simp add: halve_with_def)
  qed
  then show "wf_num 7 (halve_with A)" "2 * sval (halve_with A) = sval A \<or> 2 * sval (halve_with A) = sval A + int p192" by blast+
qed

lemma k_fits:
  assumes "u * 2 ^ K \<le> 2 ^ 1000" "0 < (u :: nat)" "(m :: nat) \<le> K * p192"
  shows "m + p192 < 2 ^ 224"
proof -
  have "2 ^ K \<le> u * 2 ^ K" using assms(2) by simp
  then have "(2 :: nat) ^ K \<le> 2 ^ 1000" using assms(1) by linarith
  then have "K \<le> 1000" by (rule power_le_imp_le_exp [rotated]) simp
  then have "m \<le> 1000 * p192" using assms(3) mult_le_mono1 order.trans by blast
  then show ?thesis by (simp add: p192_def)
qed

lemma halve_loop_val:
  assumes "wf_num 7 u" "0 < V u" "wf_num 7 A" "V A \<le> K * p192" "V u * 2 ^ K \<le> 2 ^ 1000"
    and "cong_p (a * sval A) (int (V u))"
  shows "\<exists>u' A' k. halve_loop u A = Some (u', A') \<and> wf_num 7 u' \<and> bh_sign u' = bh_sign u \<and> odd (V u') \<and> V u = 2 ^ k * V u' \<and>
    wf_num 7 A' \<and> cong_p (a * sval A') (int (V u')) \<and> (if k = 0 then A' = A else 2 * V A' \<le> (K + k) * p192)"
  using assms
proof (induction "V u" arbitrary: u A K rule: less_induct)
  case less
  show ?case
  proof (cases "even (V u)")
    case False
    then have "halve_loop u A = Some (u, A)" using odd_last [OF less.prems(1)] by (subst halve_loop.simps) simp
    then show ?thesis using less.prems False by (intro exI [of _ u] exI [of _ A] exI [of _ 0]) simp
  next
    case True
    define u1 where "u1 = divideByTwo u"
    define A1 where "A1 = halve_with A"
    have step: "halve_loop u A = halve_loop u1 A1"
      using True odd_last [OF less.prems(1)] by (subst halve_loop.simps) (simp add: u1_def A1_def)
    note h = halve_val [OF less.prems(1), folded u1_def]
    have u1: "V u = 2 * V u1" "0 < V u1" "V u1 < V u" using h(2) True less.prems(2) by (auto elim!: evenE)
    have fit: "V A + p192 < 2 ^ 224" by (rule k_fits [OF less.prems(5,2,4)])
    note w = halve_with_val [OF less.prems(3) fit, folded A1_def]
    have b: "2 * V A1 \<le> (K + 1) * p192"
    proof -
      have "2 * \<bar>sval A1\<bar> \<le> \<bar>sval A\<bar> + int p192" using w(2) by linarith
      then have "2 * V A1 \<le> V A + p192" unfolding sval_bound [symmetric] by linarith
      then show ?thesis using less.prems(4) by (simp add: algebra_simps)
    qed
    have c: "cong_p (a * sval A1) (int (V u1))"
    proof (rule cong_p_halve)
      obtain e where e: "2 * sval A1 = sval A + e * int p192" using w(2) by (metis add_0_right mult_1 mult_zero_left)
      have "a * (2 * sval A1) - int (V u) = (a * sval A - int (V u)) + (a * e) * int p192"
        unfolding e by (simp add: algebra_simps)
      moreover have "int p192 dvd (a * sval A - int (V u)) + (a * e) * int p192"
        using less.prems(6) unfolding cong_p_def by (intro dvd_add dvd_triv_right)
      ultimately have "int p192 dvd a * (2 * sval A1) - int (V u)" by (simp only:)
      then show "cong_p (2 * (a * sval A1)) (2 * int (V u1))" using u1(1) by (simp add: cong_p_def algebra_simps)
    qed
    have "V A1 \<le> (K + 1) * p192" using b by linarith
    moreover have "V u1 * 2 ^ (K + 1) \<le> 2 ^ 1000" using less.prems(5) u1(1) by simp
    ultimately obtain u' A' k where r: "halve_loop u1 A1 = Some (u', A')" "wf_num 7 u'" "bh_sign u' = bh_sign u1" "odd (V u')"
      "V u1 = 2 ^ k * V u'" "wf_num 7 A'" "cong_p (a * sval A') (int (V u'))"
      "if k = 0 then A' = A1 else 2 * V A' \<le> (K + 1 + k) * p192"
      using less.hyps [OF u1(3) h(1) u1(2) w(1) _ _ c, of "K + 1"] by blast
    have "2 * V A' \<le> (K + Suc k) * p192" using r(8) b by (simp split: if_splits)
    then show ?thesis using r step u1(1) h(3) by (intro exI [of _ u'] exI [of _ A'] exI [of _ "Suc k"]) simp
  qed
qed

definition inv_state :: "int \<Rightarrow> nat \<Rightarrow> bigHex \<Rightarrow> bigHex \<Rightarrow> bigHex \<Rightarrow> bigHex \<Rightarrow> bool" where
  "inv_state a m u v A C \<longleftrightarrow> wf_num 7 u \<and> \<not> bh_sign u \<and> wf_num 7 v \<and> \<not> bh_sign v \<and> wf_num 7 A \<and> wf_num 7 C \<and>
     0 < V v \<and> gcd (V u) (V v) = 1 \<and> cong_p (a * sval A) (int (V u)) \<and> cong_p (a * sval C) (int (V v)) \<and>
     (2 * V A \<le> (m + 2) * p192 \<or> even (V u) \<and> V A \<le> (m + 2) * p192) \<and>
     (2 * V C \<le> (m + 2) * p192 \<or> even (V v) \<and> V C \<le> (m + 2) * p192) \<and>
     m \<le> 400 \<and> V u * V v * 2 ^ m \<le> 2 ^ 400"


lemma cong_p_diff: "cong_p (a * x) u \<Longrightarrow> cong_p (a * y) v \<Longrightarrow> cong_p (a * (x - y)) (u - v)"
proof -
  assume "cong_p (a * x) u" "cong_p (a * y) v"
  then have "int p192 dvd (a * x - u) - (a * y - v)" unfolding cong_p_def by (rule dvd_diff)
  then show ?thesis by (simp add: cong_p_def algebra_simps)
qed

lemma m_bound: "x * 2 ^ m \<le> 2 ^ 400 \<Longrightarrow> 0 < (x :: nat) \<Longrightarrow> m \<le> 400"
proof -
  assume "x * 2 ^ m \<le> 2 ^ 400" "0 < x"
  then have "(2 :: nat) ^ m \<le> 2 ^ 400" by (metis One_nat_def Suc_leI dual_order.trans mult_le_mono1 nat_mult_1)
  then show ?thesis by (rule power_le_imp_le_exp [rotated]) simp
qed

text \<open>One round, up to the comparison: both numbers are odd then.\<close>

lemma inv_round:
  assumes "inv_state a m u v A C" "0 < V u"
  shows "\<exists>u' A' v' C' m'. halve_loop u A = Some (u', A') \<and> halve_loop v C = Some (v', C') \<and> inv_state a m' u' v' A' C' \<and>
    odd (V u') \<and> odd (V v') \<and> V u' \<le> V u \<and> V v' \<le> V v \<and> m \<le> m'"
proof -
  note s = assms(1) [unfolded inv_state_def]
  have big: "V u * 2 ^ (m + 2) \<le> 2 ^ 1000" "V v * 2 ^ (m + 2) \<le> 2 ^ 1000"
  proof -
    have "V u * 2 ^ m \<le> V u * V v * 2 ^ m" "V v * 2 ^ m \<le> V u * V v * 2 ^ m" using s assms(2) by simp_all
    then have "V u * 2 ^ m \<le> 2 ^ 400" "V v * 2 ^ m \<le> 2 ^ 400" using s by linarith+
    then have "V u * 2 ^ m * 4 \<le> 2 ^ 400 * 4" "V v * 2 ^ m * 4 \<le> 2 ^ 400 * 4" by simp_all
    moreover have "(2 :: nat) ^ 400 * 4 \<le> 2 ^ 1000" by simp
    moreover have "V u * 2 ^ (m + 2) = V u * 2 ^ m * 4" "V v * 2 ^ (m + 2) = V v * 2 ^ m * 4" by (simp_all add: power_add)
    ultimately show "V u * 2 ^ (m + 2) \<le> 2 ^ 1000" "V v * 2 ^ (m + 2) \<le> 2 ^ 1000" by linarith+
  qed
  have "V A \<le> (m + 2) * p192" "V C \<le> (m + 2) * p192" using s by linarith+
  then obtain u' A' k v' C' l where
    hu: "halve_loop u A = Some (u', A')" "wf_num 7 u'" "bh_sign u' = bh_sign u" "odd (V u')" "V u = 2 ^ k * V u'"
      "wf_num 7 A'" "cong_p (a * sval A') (int (V u'))" "if k = 0 then A' = A else 2 * V A' \<le> (m + 2 + k) * p192" and
    hv: "halve_loop v C = Some (v', C')" "wf_num 7 v'" "bh_sign v' = bh_sign v" "odd (V v')" "V v = 2 ^ l * V v'"
      "wf_num 7 C'" "cong_p (a * sval C') (int (V v'))" "if l = 0 then C' = C else 2 * V C' \<le> (m + 2 + l) * p192"
    using halve_loop_val [OF _ assms(2) _ _ big(1)] halve_loop_val [OF _ _ _ _ big(2)] s by blast
  have pos: "0 < V u'" "0 < V v'" using hu(4) hv(4) by (auto intro: Nat.gr0I)
  have mono: "x \<le> (m + k + l + 2) * p192" if "x \<le> (m + 2 + i) * p192" "i \<le> k + l" for x i
  proof -
    have "(m + 2 + i) * p192 \<le> (m + k + l + 2) * p192" using that(2) by (intro mult_le_mono1) simp
    then show ?thesis using that(1) by (rule order.trans [rotated])
  qed
  have A: "2 * V A' \<le> (m + k + l + 2) * p192"
  proof (cases "k = 0")
    case True
    then have "odd (V u)" "A' = A" using hu(4,5,8) by simp_all
    then have "2 * V A' \<le> (m + 2 + 0) * p192" using s by simp
    then show ?thesis by (rule mono) simp
  next
    case False
    then have "2 * V A' \<le> (m + 2 + k) * p192" using hu(8) by (simp only: if_False)
    then show ?thesis by (rule mono) simp
  qed
  have C: "2 * V C' \<le> (m + k + l + 2) * p192"
  proof (cases "l = 0")
    case True
    then have "odd (V v)" "C' = C" using hv(4,5,8) by simp_all
    then have "2 * V C' \<le> (m + 2 + 0) * p192" using s by simp
    then show ?thesis by (rule mono) simp
  next
    case False
    then have "2 * V C' \<le> (m + 2 + l) * p192" using hv(8) by (simp only: if_False)
    then show ?thesis by (rule mono) simp
  qed
  have pr: "V u' * V v' * 2 ^ (m + k + l) \<le> 2 ^ 400"
    using s hu(5) hv(5) by (simp add: power_add mult_ac)
  have "0 < V u' * V v'" using pos by simp
  then have m': "m + k + l \<le> 400" by (rule m_bound [OF pr])
  have "gcd (V u') (V v') dvd gcd (V u) (V v)" unfolding hu(5) hv(5) by (intro gcd_greatest dvd_mult) simp_all
  then have g: "gcd (V u') (V v') = 1" using s by simp
  have "inv_state a (m + k + l) u' v' A' C'"
    using s hu hv A C pr m' g pos by (simp add: inv_state_def)
  moreover have "V u' \<le> V u" "V v' \<le> V v" using hu(5) hv(5) by simp_all
  ultimately show ?thesis using hu(1,4) hv(1,4)
    by (intro exI [of _ u'] exI [of _ A'] exI [of _ v'] exI [of _ C'] exI [of _ "m + k + l"]) simp
qed


lemma len_zero: "wf_num 7 x \<Longrightarrow> bh_len x = 0 \<longleftrightarrow> V x = 0"
proof -
  assume w: "wf_num 7 x"
  have "0 < (2 :: nat) ^ (32 * (numlen (bh_num x) - 1))" by simp
  then have "0 < numlen (bh_num x) \<Longrightarrow> 0 < V x" using numlen_bounds(2) [of "bh_num x"] by linarith
  moreover have "numlen (bh_num x) = 0 \<Longrightarrow> V x = 0" using numlen_bounds(1) [of "bh_num x"] by simp
  ultimately have "numlen (bh_num x) = 0 \<longleftrightarrow> V x = 0" by fastforce
  then show ?thesis using w by (simp add: wf_num_def)
qed

lemma inv_subtract:
  assumes "inv_state a m u v A C" "odd (V u)" "odd (V v)" "V v \<le> V u"
  shows "inv_state a m (SubtractFromSelfBigHex u v) v (SubtractFromSelfBigHexSign A C) C"
proof -
  note s = assms(1) [unfolded inv_state_def]
  have ac: "2 * V A \<le> (m + 2) * p192" "2 * V C \<le> (m + 2) * p192" using s assms(2,3) by auto
  have "(m + 2) * p192 \<le> 402 * p192" using s by (intro mult_le_mono1) simp
  then have fit: "V A + V C < 2 ^ 224" using ac by (simp add: p192_def)
  note su = sub_self_val [OF _ _ assms(4)]
  note sc = sub_sign_val [OF _ _ fit]
  have g: "gcd (V u - V v) (V v) = 1" using s assms(4) gcd_diff1_nat [of "V v" "V u"] by simp
  have c: "cong_p (a * (sval A - sval C)) (int (V u - V v))"
    using cong_p_diff [of a "sval A" "int (V u)" "sval C" "int (V v)"] s assms(4) by (simp add: of_nat_diff)
  have pr: "(V u - V v) * V v * 2 ^ m \<le> 2 ^ 400"
  proof -
    have "(V u - V v) * V v * 2 ^ m \<le> V u * V v * 2 ^ m" by (intro mult_le_mono1) simp
    then show ?thesis using s by linarith
  qed
  show ?thesis
    using s su sc g c pr ac assms(2,3) unfolding inv_state_def by simp
qed

lemma inv_state_swap:
  "inv_state a m u v A C \<Longrightarrow> 0 < V u \<Longrightarrow> inv_state a m v u C A"
  by (auto simp: inv_state_def gcd.commute mult_ac)

lemma inversion_loop_val:
  assumes "inv_state a m u v A C"
  shows "\<exists>C'. inversion_loop u v A C = Some C' \<and> wf_num 7 C' \<and> cong_p (a * sval C') 1"
  using assms
proof (induction "V u + V v" arbitrary: u v A C m rule: less_induct)
  case less
  note s = less.prems [unfolded inv_state_def]
  show ?case
  proof (cases "V u = 0")
    case True
    then have "V v = 1" using s by simp
    then show ?thesis using True s len_zero by (subst inversion_loop.simps) simp
  next
    case False
    then obtain u1 A1 v1 C1 m1 where r: "halve_loop u A = Some (u1, A1)" "halve_loop v C = Some (v1, C1)"
      "inv_state a m1 u1 v1 A1 C1" "odd (V u1)" "odd (V v1)" "V u1 \<le> V u" "V v1 \<le> V v"
      using inv_round [OF less.prems] by blast
    note s1 = r(3) [unfolded inv_state_def]
    have pos: "0 < V u1" "0 < V v1" using r(4,5) by (auto intro: Nat.gr0I)
    have e: "inversion_loop u v A C = (if isGreaterThanOrEqual u1 v1
       then inversion_loop (SubtractFromSelfBigHex u1 v1) v1 (SubtractFromSelfBigHexSign A1 C1) C1
       else inversion_loop u1 (SubtractFromSelfBigHex v1 u1) A1 (SubtractFromSelfBigHexSign C1 A1))"
      using False r(1,2) s len_zero by (subst inversion_loop.simps) simp
    show ?thesis
    proof (cases "V v1 \<le> V u1")
      case True
      note i = inv_subtract [OF r(3-5) True]
      have "V (SubtractFromSelfBigHex u1 v1) + V v1 < V u + V v"
        using sub_self_val(2) [of u1 v1] s1 True r(6,7) pos by simp
      then show ?thesis using less.hyps [OF _ i] e ge_val [of 7 u1 7 v1] s1 True by simp
    next
      case False
      then have le: "V u1 \<le> V v1" by simp
      have "V u1 < V v1" using False by simp
      note i' = inv_subtract [OF inv_state_swap [OF r(3) pos(1)] r(5,4) le]
      have val: "V (SubtractFromSelfBigHex v1 u1) = V v1 - V u1" using sub_self_val(2) [of v1 u1] s1 le by simp
      have i: "inv_state a m1 u1 (SubtractFromSelfBigHex v1 u1) A1 (SubtractFromSelfBigHexSign C1 A1)"
        by (rule inv_state_swap [OF i']) (use val \<open>V u1 < V v1\<close> in simp)
      have "V u1 + V (SubtractFromSelfBigHex v1 u1) < V u + V v" using val r(6,7) pos le by simp
      then show ?thesis using less.hyps [OF _ i] e ge_val [of 7 u1 7 v1] s1 False by simp
    qed
  qed
qed

section \<open>The inverse\<close>

text \<open>The number zero C starts as has length one instead of none; the first round hides it.\<close>

lemma one_word:
  assumes "wf_num 7 A" "0 < V A"
  shows "\<not> isGreaterThanOrEqual (small_num 0) A"
proof -
  obtain w ws where d: "dropWhile (\<lambda>w. w = 0) (bh_num A) = w # ws"
    using bval_strip [of "bh_num A"] assms(2) by (cases "dropWhile (\<lambda>w. w = 0) (bh_num A)") auto
  then have w: "w \<noteq> 0" using hd_dropWhile [of "\<lambda>w. w = 0" "bh_num A"] by simp
  have len: "bh_len A = Suc (length ws)" using assms(1) d by (simp add: wf_num_def numlen_def)
  show ?thesis
  proof (cases "ws = []")
    case False
    then show ?thesis using len by (simp add: isGreaterThanOrEqual_def compare_by_length_def small_num_eq)
  next
    case True
    have "drop (length (bh_num A) - numlen (bh_num A)) (bh_num A) = [w]" using drop_numlen [of "bh_num A"] d True by simp
    moreover have l: "numlen (bh_num A) = 1" "length (bh_num A) = 7" "bh_len A = 1" using assms(1) len True by (simp_all add: wf_num_def)
    ultimately have "drop 6 (bh_num A) = [w]" by simp
    then show ?thesis
      using l(2,3) w by (simp add: isGreaterThanOrEqual_def compare_by_length_def small_num_eq word_gt_0)
  qed
qed

lemma sub_sign_from_zero:
  assumes "wf_num 7 A" "0 < V A"
  shows "SubtractFromSelfBigHexSign (small_num 0) A = SubtractFromSelfBigHexSign initBigNumber A"
proof -
  have z: "\<not> isGreaterThanOrEqual initBigNumber A" using ge_val [of 7 initBigNumber 7 A] assms by simp
  moreover have "bh_num (small_num 0) = bh_num initBigNumber"
    by (simp add: small_num_eq initBigNumber_def ELEMENTS_BIG_HEX_def eval_nat_numeral)
  ultimately show ?thesis using one_word [OF assms]
    by (simp add: SubtractFromSelfBigHexSign_def SubtractBigHex_def Add2SelfBigHex_def setBigNumberLength_def small_num_eq initBigNumber_def)
qed

lemma first_round:
  assumes "wf_num 7 x" "\<not> bh_sign x" "0 < V x" "V x < p192"
  shows "inversion_loop x bigHexP (small_num 1) (small_num 0) = inversion_loop x bigHexP (small_num 1) initBigNumber"
proof -
  have P: "halve_loop bigHexP C = Some (bigHexP, C)" for C
    using odd_last [OF P_facts(1)] by (subst halve_loop.simps) simp
  have lx: "bh_len x \<noteq> 0" using len_zero [OF assms(1)] assms(3) by simp
  have one: "wf_num 7 (small_num 1)" "V (small_num 1) = 1" "sval (small_num 1) = 1" by (simp_all add: sval_def)
  have "V x * 2 ^ 1 \<le> 2 ^ 1000" using assms(4) by (simp add: p192_def)
  moreover have "V (small_num 1) \<le> 1 * p192" using one(2) p192_eq(4) by simp
  moreover have "cong_p (int (V x) * sval (small_num 1)) (int (V x))" using one(3) by (simp add: cong_p_def)
  ultimately obtain u A k where h: "halve_loop x (small_num 1) = Some (u, A)" "wf_num 7 u" "odd (V u)" "V x = 2 ^ k * V u"
    "wf_num 7 A" "cong_p (int (V x) * sval A) (int (V u))"
    using halve_loop_val [OF assms(1,3) one(1), of 1 "int (V x)"] by blast
  have u: "0 < V u" "V u < p192" using h(3,4) assms(4) by (auto intro: Nat.gr0I order.strict_trans1 [rotated])
  have A: "0 < V A"
  proof (rule Nat.gr0I)
    assume "V A = 0"
    then have "sval A = 0" by (simp add: sval_def)
    then have "int p192 dvd int (V u)" using h(6) by (simp add: cong_p_def)
    then have "p192 dvd V u" by (simp only: int_dvd_int_iff)
    then show False using u by (simp add: nat_dvd_not_less)
  qed
  have "\<not> isGreaterThanOrEqual u bigHexP" using ge_val [OF h(2) P_facts(1)] u by simp
  then show ?thesis using lx h(1) P sub_sign_from_zero [OF h(5) A]
    by (subst (1 2) inversion_loop.simps) simp
qed

lemma one_mod: "int p192 dvd int n - 1 \<Longrightarrow> n mod p192 = 1"
proof -
  assume "int p192 dvd int n - 1"
  then have "int n mod int p192 = 1 mod int p192" by (simp only: mod_eq_dvd_iff)
  then have "int (n mod p192) = int (1 mod p192)" by (simp only: of_nat_mod of_nat_1)
  then have "n mod p192 = 1 mod p192" by (simp only: of_nat_eq_iff)
  then show ?thesis using p192_eq(3) by (simp only: mod_less)
qed

lemma inversion_val:
  assumes "repn x a" "0 < a" "coprime a p192"
  shows "\<exists>r. bigHexInversion x = Some r \<and> wf_num 7 r \<and> \<not> bh_sign r \<and> (V r < p192 \<longrightarrow> a * V r mod p192 = 1)"
proof -
  note x = repD [OF assms(1)]
  have "x\<lparr>bh_sign := False\<rparr> = x" using x(2) by simp
  moreover have "initBigNumber\<lparr>bh_num := (bh_num initBigNumber)[HIGHEST_INDEX_BIG_HEX := w], bh_len := 1\<rparr> = small_num w" for w
    by (simp add: initBigNumber_def small_num_def)
  moreover have "0 < V x" "V x < p192" using assms(2) x by simp_all
  ultimately have start: "inversion_loop (x\<lparr>bh_sign := False\<rparr>) bigHexP
      (initBigNumber\<lparr>bh_num := (bh_num initBigNumber)[HIGHEST_INDEX_BIG_HEX := 1], bh_len := 1\<rparr>)
      (initBigNumber\<lparr>bh_num := (bh_num initBigNumber)[HIGHEST_INDEX_BIG_HEX := 0], bh_len := 1\<rparr>) =
      inversion_loop x bigHexP (small_num 1) initBigNumber"
    using first_round [OF x(1,2)] by (simp only:)
  have "a * p192 \<le> 2 ^ 192 * 2 ^ 192" using x(4) p192_eq(2) by (intro mult_le_mono) simp_all
  then have pr: "a * p192 * 2 ^ 0 \<le> 2 ^ 400" by simp
  have "inv_state (int a) 0 x bigHexP (small_num 1) initBigNumber"
    unfolding inv_state_def using x pr assms(3) p192_eq(3,4) by (simp add: cong_p_def sval_def coprime_iff_gcd_eq_1)
  then obtain C where C: "inversion_loop x bigHexP (small_num 1) initBigNumber = Some C" "wf_num 7 C" "cong_p (int a * sval C) 1"
    using inversion_loop_val by blast
  show ?thesis
  proof (cases "bh_sign C")
    case False
    have r: "bigHexInversion x = Some (if isGreaterThan bigHexP C then C else specialModP C)"
      unfolding bigHexInversion_def start C(1) using False by simp
    have m: "a * V C mod p192 = 1" using C(3) False by (intro one_mod) (simp add: cong_p_def sval_def)
    show ?thesis
    proof (cases "V C < p192")
      case True
      then have "bigHexInversion x = Some C" using r gt_val [OF P_facts(1) C(2)] by simp
      then show ?thesis using C(2) False m by blast
    next
      case gt: False
      then have "bigHexInversion x = Some (specialModP C)" using r gt_val [OF P_facts(1) C(2)] by simp
      then show ?thesis using special_pos [OF C(2) False] m by (simp add: mod_mult_right_eq)
    qed
  next
    case True
    have r: "bigHexInversion x = Some (specialModP C)"
      unfolding bigHexInversion_def start C(1) using True by simp
    note n = special_neg [OF C(2) True]
    have "a * V (specialModP C) mod p192 = 1" if l: "V (specialModP C) < p192"
    proof -
      have "int p192 dvd int (V (specialModP C)) + int (V C)" using n(3) [OF l]
        by (metis dvd_eq_mod_eq_0 int_dvd_int_iff of_nat_add)
      then have "int p192 dvd int a * (int (V (specialModP C)) + int (V C)) + (int a * sval C - 1)"
        using C(3) unfolding cong_p_def by (intro dvd_add [OF dvd_mult])
      then have "int p192 dvd int (a * V (specialModP C)) - 1" using True by (simp add: sval_def algebra_simps)
      then show ?thesis by (rule one_mod)
    qed
    then show ?thesis using r n by blast
  qed
qed


text \<open>
  C25. For a number between 0 and the prime that shares no factor with it, inversion ends, the result
  has the right form and no sign, and whenever it is below the prime it is the inverse.
\<close>

theorem inversion_ends_with_inverse:
  assumes "wf_num 7 x" "\<not> bh_sign x" "0 < V x" "V x < p192" "coprime (V x) p192"
  shows "\<exists>r. bigHexInversion x = Some r \<and> wf_num 7 r \<and> \<not> bh_sign r \<and> (V r < p192 \<longrightarrow> V x * V r mod p192 = 1)"
  using assms by (intro inversion_val) (simp_all add: repn_def)

lemma inversion_ends_with_inverse_witness:
  "\<exists>r. bigHexInversion (small_num 3) = Some r \<and> wf_num 7 r \<and> \<not> bh_sign r \<and> (V r < p192 \<longrightarrow> 3 * V r mod p192 = 1)"
proof -
  have v: "V (small_num 3) = 3" by simp
  have "p192 mod 3 = 2" by (simp add: p192_def)
  then have "gcd p192 3 = gcd 3 (2 :: nat)" by (subst gcd_red_nat) simp
  also have "gcd 3 (2 :: nat) = 1" by (subst gcd_red_nat) simp
  finally have "coprime 3 p192" by (simp only: coprime_iff_gcd_eq_1 gcd.commute [of 3])
  moreover have "wf_num 7 (small_num 3)" "\<not> bh_sign (small_num 3)" "0 < (3 :: nat)" "3 < p192" by (simp_all add: p192_def)
  ultimately show ?thesis using inversion_ends_with_inverse [of "small_num 3"] unfolding v by blast
qed

end
