(* ===== verification/Lmp_Scalar.thy ===== *)
theory Lmp_Scalar
  imports Lmp_Curve Lmp_Inverse
begin

text \<open>
  The multiplication of a point in lmp_ecc.c is double-and-add over the bits of the number,
  lowest first; the key it ends in is the point with its Z coordinate divided out, byte by
  byte.
\<close>

section \<open>The bits of the number\<close>

lemma bit_block: "m < 2 ^ 32 \<Longrightarrow> bit (n * 2 ^ 32 + m) i \<longleftrightarrow> (if i < 32 then bit m i else bit n (i - 32))" for n m :: nat
proof (cases "i < 32")
  case True
  assume "m < 2 ^ 32"
  have "(2 :: nat) ^ 32 = 2 ^ (32 - i) * 2 ^ i" using True by (simp flip: power_add)
  then have "n * 2 ^ 32 + m = (n * 2 ^ (32 - i)) * 2 ^ i + m" by (simp only: mult.assoc)
  moreover have "((n * 2 ^ (32 - i)) * 2 ^ i + m) div 2 ^ i = n * 2 ^ (32 - i) + m div 2 ^ i" by (rule div_mult_self3) simp
  ultimately have d: "(n * 2 ^ 32 + m) div 2 ^ i = n * 2 ^ (32 - i) + m div 2 ^ i" by (simp only:)
  have "even (n * (2 :: nat) ^ (32 - i))" using True by simp
  then show ?thesis using True by (simp only: bit_iff_odd d even_add if_True) simp
next
  case False
  assume m: "m < 2 ^ 32"
  have "(2 :: nat) ^ i = 2 ^ (32 + (i - 32))" using False by simp
  also have "\<dots> = 2 ^ 32 * 2 ^ (i - 32)" by (rule power_add)
  finally have "(2 :: nat) ^ i = 2 ^ 32 * 2 ^ (i - 32)" .
  moreover have "(n * 2 ^ 32 + m) div 2 ^ 32 = n" using m by simp
  ultimately show ?thesis using False by (simp only: bit_iff_odd div_mult2_eq if_False)
qed

lemma bit_bval_snoc: "bit (bval (xs @ [x])) i \<longleftrightarrow> (if i < 32 then bit x i else bit (bval xs) (i - 32))"
  unfolding bval_snoc bit_block [OF u32_bound] by (simp add: bit_unsigned_iff)

lemma bit_bval: "k < length xs \<Longrightarrow> i < 32 \<Longrightarrow> bit (bval xs) (32 * k + i) \<longleftrightarrow> bit (xs ! (length xs - 1 - k)) i"
proof (induction xs arbitrary: k rule: rev_induct)
  case (snoc x xs)
  show ?case
  proof (cases k)
    case 0
    then show ?thesis using snoc.prems by (simp add: bit_bval_snoc)
  next
    case (Suc l)
    then have "bit (bval (xs @ [x])) (32 * k + i) \<longleftrightarrow> bit (bval xs) (32 * l + i)"
      using snoc.prems by (simp add: bit_bval_snoc)
    moreover have "l < length xs" "length xs - Suc l < length xs" using Suc snoc.prems by simp_all
    ultimately show ?thesis using snoc.IH [of l] snoc.prems Suc by (simp add: nth_append)
  qed
qed simp

lemma bit_byte_of_word:
  assumes "off \<le> 3" "j < 8"
  shows "bit (byte_of_word off w) j \<longleftrightarrow> bit w (8 * (3 - off) + j)"
proof -
  consider "off = 0" | "off = 1" | "off = 2" | "off = 3" using assms(1) by linarith
  moreover have "bit (0xFF :: u32) j" "bit (0xFF00 :: u32) (8 + j)" "bit (0xFF0000 :: u32) (16 + j)" "bit (0xFF000000 :: u32) (24 + j)"
  proof -
    have "(0xFF :: u32) = mask 8" "(0xFF00 :: u32) = push_bit 8 (mask 8)" "(0xFF0000 :: u32) = push_bit 16 (mask 8)"
      "(0xFF000000 :: u32) = push_bit 24 (mask 8)" by (simp_all add: mask_eq_exp_minus_1)
    then show "bit (0xFF :: u32) j" "bit (0xFF00 :: u32) (8 + j)" "bit (0xFF0000 :: u32) (16 + j)" "bit (0xFF000000 :: u32) (24 + j)"
      using assms(2) by (simp_all only: bit_push_bit_iff bit_mask_iff) simp_all
  qed
  ultimately show ?thesis
    by cases (use assms(2) in \<open>simp_all add: byte_of_word_def bit_ucast_iff bit_and_iff bit_drop_bit_eq\<close>)
qed


text \<open>Call n treats the byte at place 28 - n, counted from the lowest.\<close>

lemma bit_of_call:
  assumes "length ws = 7" "n < 28" "j < 8"
  shows "bit (byte_of_word (n mod 4) (ws ! (n div 4))) j \<longleftrightarrow> bit (bval ws) (8 * (27 - n) + j)"
proof -
  define k where "k = 6 - n div 4"
  have n: "n = 4 * (n div 4) + n mod 4" "n mod 4 \<le> 3" "n div 4 \<le> 6" using assms(2) by simp_all
  have e: "8 * (27 - n) + j = 32 * k + (8 * (3 - n mod 4) + j)" "8 * (3 - n mod 4) + j < 32"
    using n assms(3) unfolding k_def by linarith+
  have i: "n div 4 = length ws - 1 - k" using n(3) assms(1) by (simp add: k_def)
  have "bit (byte_of_word (n mod 4) (ws ! (n div 4))) j \<longleftrightarrow> bit (ws ! (n div 4)) (8 * (3 - n mod 4) + j)"
    by (rule bit_byte_of_word [OF n(2) assms(3)])
  moreover have "bit (ws ! (length ws - 1 - k)) (8 * (3 - n mod 4) + j) \<longleftrightarrow> bit (bval ws) (8 * (27 - n) + j)"
    unfolding e(1) by (rule bit_bval [symmetric, OF _ e(2)]) (simp add: k_def assms(1))
  ultimately show ?thesis by (simp only: i)
qed

section \<open>Double and add\<close>

fun fscalar :: "bool list \<Rightarrow> fpoint \<times> fpoint \<Rightarrow> (fpoint \<times> fpoint) option" where
  "fscalar [] s = Some s"
| "fscalar (b # bs) (Q, R) = do {
     Q \<leftarrow> (if b then faddition Q R else Some Q);
     R \<leftarrow> fdouble R;
     fscalar bs (Q, R) }"

lemma fscalar_append: "fscalar (xs @ ys) s = Option.bind (fscalar xs s) (fscalar ys)"
proof (induction xs arbitrary: s)
  case (Cons b xs)
  then show ?case by (cases s) (simp add: bind_assoc)
qed simp

text \<open>The point at infinity Q starts as has numbers of length one.\<close>

definition repw :: "ECC_Jacobian_Point \<Rightarrow> fpoint \<Rightarrow> bool" where
  "repw p P \<longleftrightarrow> rep3 p P \<or> p = GF_Setup_Jacobian_Infinity_Point \<and> P = finfinity"

lemma setup_infinite: "Is_Infinite GF_Setup_Jacobian_Infinity_Point"
  by (simp add: Is_Infinite_def GF_Setup_Jacobian_Infinity_Point_def LMecc_Jacobian_InfinityPoint_def notEqual_def
      small_num_eq initBigNumber_def ELEMENTS_BIG_HEX_def eval_nat_numeral)

lemma addition_relw:
  assumes "repw p P" "rep3 q Q"
  shows "rel_option repw (GF_Jacobian_Point_Addition p q) (faddition P Q)"
proof (cases "rep3 p P")
  case True
  show ?thesis by (rule option.rel_mono_strong [OF addition_rel [OF True assms(2)]]) (simp add: repw_def)
next
  case False
  then have "p = GF_Setup_Jacobian_Infinity_Point" "P = finfinity" using assms(1) by (simp_all add: repw_def)
  moreover have "faddition finfinity Q = Some Q" by (cases Q) (simp add: faddition_def finfinity_def)
  ultimately show ?thesis
    using setup_infinite Is_Infinite_rep [OF assms(2)] infinity_rep assms(2) by (simp add: GF_Jacobian_Point_Addition_def repw_def)
qed

lemma mul_bits_rel:
  assumes "repw Q P" "rep3 R S"
  shows "rel_option (rel_prod repw rep3) (mul_bits n j byte (Q, R)) (fscalar (map (bit byte) [j..<j + n]) (P, S))"
  using assms
proof (induction n arbitrary: j Q R P S)
  case (Suc n)
  have l: "[j..<j + Suc n] = j # [Suc j..<Suc j + n]" by (simp add: upt_rec)
  have b: "drop_bit j byte AND 1 \<noteq> 0 \<longleftrightarrow> bit byte j"
    by (simp add: bit_iff_odd_drop_bit and_one_eq odd_iff_mod_2_eq_one)
  have "rel_option repw (if bit byte j then GF_Jacobian_Point_Addition Q R else Some Q) (if bit byte j then faddition P S else Some P)"
    using addition_relw [OF Suc.prems] Suc.prems by simp
  then show ?case
    unfolding mul_bits.simps l list.map fscalar.simps b
    by (rule bind_rel) (rule bind_rel [OF double_rel [OF Suc.prems(2)]], use Suc.IH [of _ _ _ _ "Suc j"] in simp)
qed simp

lemma call_place: "(Suc n + 3) div 4 - 1 = n div 4"
  by linarith

lemma mul_calls_rel:
  assumes "length (bh_num pk) = 7" "n \<le> 28" "repw Q P" "rep3 R S"
  shows "rel_option (rel_prod repw rep3) (mul_calls pk n (Q, R)) (fscalar (map (bit (V pk)) [8 * (28 - n)..<224]) (P, S))"
  using assms(2-)
proof (induction n arbitrary: Q R P S)
  case (Suc n)
  then have n: "n < 28" by simp
  have "n div 4 < 7" using n by linarith
  then have w: "aget (bh_num pk) ((Suc n + 3) div 4 - 1) = Some (bh_num pk ! (n div 4))"
    using assms(1) unfolding call_place by (simp add: aget_def)
  define byte where "byte = byte_of_word (n mod 4) (bh_num pk ! (n div 4))"
  have bits: "map (bit byte) [0..<0 + 8] = map (bit (V pk)) [8 * (27 - n)..<8 * (27 - n) + 8]"
  proof (rule nth_equalityI)
    fix i assume "i < length (map (bit byte) [0..<0 + 8])"
    then show "map (bit byte) [0..<0 + 8] ! i = map (bit (V pk)) [8 * (27 - n)..<8 * (27 - n) + 8] ! i"
      using bit_of_call [OF assms(1) n, of i] by (simp add: byte_def)
  qed simp
  have "[8 * (28 - Suc n)..<224] = [8 * (27 - n)..<8 * (27 - n) + 8] @ [8 * (28 - n)..<224]"
  proof -
    have e: "8 * (27 - n) + 8 = 8 * (28 - n)" "8 * (28 - Suc n) = 8 * (27 - n)" "8 * (28 - n) + 8 * n = 224" using n by simp_all
    have "[8 * (27 - n)..<8 * (28 - n) + 8 * n] = [8 * (27 - n)..<8 * (28 - n)] @ [8 * (28 - n)..<8 * (28 - n) + 8 * n]"
      by (rule upt_add_eq_append) simp
    then show ?thesis unfolding e .
  qed
  then have s: "fscalar (map (bit (V pk)) [8 * (28 - Suc n)..<224]) (P, S) =
      Option.bind (fscalar (map (bit byte) [0..<0 + 8]) (P, S)) (fscalar (map (bit (V pk)) [8 * (28 - n)..<224]))"
    unfolding bits by (simp only: map_append fscalar_append)
  have c: "mul_calls pk (Suc n) (Q, R) = Option.bind (mul_bits 8 0 byte (Q, R)) (mul_calls pk n)"
    using w by (simp add: ECC_Point_Multiplication_uint8_def byte_def)
  show ?case
    unfolding s c by (rule bind_rel [OF mul_bits_rel [OF Suc.prems(2,3)]]) (use Suc.IH n in auto)
qed simp


lemma start_rel: "repn (ax p) x \<Longrightarrow> repn (ay p) y \<Longrightarrow> rep3 (GF_Affine_To_Jacobian_Point_Copy p) (x, y, 1)"
  using rep_one by (simp add: rep3_def GF_Affine_To_Jacobian_Point_Copy_def)

lemma double_and_add_rel:
  assumes "wf_num 7 pk" "repn (ax p) x" "repn (ay p) y"
  shows "rel_option (rel_prod repw rep3)
    (mul_calls pk (ELEMENTS_BIG_HEX * 4) (GF_Setup_Jacobian_Infinity_Point, GF_Affine_To_Jacobian_Point_Copy p))
    (fscalar (map (bit (V pk)) [0..<224]) (finfinity, (x, y, 1)))"
  using mul_calls_rel [of pk 28 GF_Setup_Jacobian_Infinity_Point finfinity] start_rel [OF assms(2,3)] assms(1)
  by (simp add: repw_def wf_num_def ELEMENTS_BIG_HEX_def)

text \<open>
  C28. The calls for the bytes of the number compute, byte by byte from the last one, the double-and-add
  over the bits of its value: results stand for those of the field, and are missing exactly when those are.
\<close>

theorem multiplication_is_double_and_add:
  assumes "wf_num 7 pk" "repn (ax p) x" "repn (ay p) y"
  shows "rel_option (rel_prod repw rep3)
    (mul_calls pk (ELEMENTS_BIG_HEX * 4) (GF_Setup_Jacobian_Infinity_Point, GF_Affine_To_Jacobian_Point_Copy p))
    (fscalar (map (bit (V pk)) [0..<224]) (finfinity, (x, y, 1)))"
  by (rule double_and_add_rel [OF assms])

lemma multiplication_is_double_and_add_witness:
  "rel_option (rel_prod repw rep3)
    (mul_calls (small_num 5) (ELEMENTS_BIG_HEX * 4)
      (GF_Setup_Jacobian_Infinity_Point, GF_Affine_To_Jacobian_Point_Copy \<lparr>ax = small_num 1, ay = small_num 2\<rparr>))
    (fscalar (map (bit (5 :: nat)) [0..<224]) (finfinity, (1, 2, 1)))"
proof -
  have "wf_num 7 (small_num 5)" "V (small_num 5) = 5" "repn (small_num 1) 1" "repn (small_num 2) 2"
    by (simp_all add: repn_def p192_def)
  then show ?thesis
    using multiplication_is_double_and_add [of "small_num 5" "\<lparr>ax = small_num 1, ay = small_num 2\<rparr>" 1 2] by simp
qed

end
