(* ===== verification/Lmp_Key.thy ===== *)
theory Lmp_Key
  imports Lmp_Scalar Keys_Correct
begin

text \<open>
  From the bytes of a secret and a point to the bytes of a key: what LMecc_Generate_ECC_Key
  returns stands for the multiple of the point, and a secret of zeros never comes back.
\<close>

section \<open>Bytes of a key\<close>

lemma byte_of_word_eq: "off \<le> 3 \<Longrightarrow> byte_of_word off w = ucast (drop_bit (8 * (3 - off)) w)"
  by (rule bit_eqI) (simp add: bit_byte_of_word bit_ucast_iff bit_drop_bit_eq)

lemma bytes_of_word_eq: "bytes_of_word w = map (\<lambda>off. byte_of_word off w) [0, 1, 2, 3]"
  by (simp add: bytes_of_word_def byte_of_word_def)

lemma unat_byte: "off \<le> 3 \<Longrightarrow> unat (byte_of_word off w) = unat w div 2 ^ (8 * (3 - off)) mod 256"
proof -
  have "unat (ucast (drop_bit n w) :: u8) = unat w div 2 ^ n mod 256" if "n < 32" for n
    using that u32_bound [of w] by (simp add: unsigned_ucast_eq unsigned_drop_bit_eq) (simp add: take_bit_eq_mod drop_bit_eq_div)
  then show "off \<le> 3 \<Longrightarrow> ?thesis" by (simp add: byte_of_word_eq)
qed

lemma be_val_word: "be_val (bytes_of_word w) = unat w"
proof -
  define n where "n = unat w"
  define q where "q = n div 256"
  define r where "r = q div 256"
  have d: "n div 2 ^ 8 = q" "n div 2 ^ 16 = r" "n div 2 ^ 24 = r div 256"
    unfolding q_def r_def by (simp_all flip: div_mult2_eq)
  have e: "q * 256 + n mod 256 = n" "r * 256 + q mod 256 = q" "r div 256 * 256 + r mod 256 = r"
    unfolding q_def r_def by (rule div_mult_mod_eq)+
  have "n < 2 ^ 32" unfolding n_def by (rule u32_bound)
  then have m: "r div 256 mod 256 = r div 256" unfolding q_def r_def by (simp flip: div_mult2_eq add: less_mult_imp_div_less)
  have v: "((n div 2 ^ 24 mod 256 * 256 + n div 2 ^ 16 mod 256) * 256 + n div 2 ^ 8 mod 256) * 256 + n mod 256 = n"
    by (simp only: d m e)
  have b: "unat (byte_of_word 0 w) = n div 2 ^ 24 mod 256" "unat (byte_of_word 1 w) = n div 2 ^ 16 mod 256"
      "unat (byte_of_word 2 w) = n div 2 ^ 8 mod 256" "unat (byte_of_word 3 w) = n mod 256"
    using unat_byte [of 0 w] unat_byte [of 1 w] unat_byte [of 2 w] unat_byte [of 3 w] unfolding n_def by simp_all
  have "be_val (bytes_of_word w) = ((unat (byte_of_word 0 w) * 256 + unat (byte_of_word 1 w)) * 256 + unat (byte_of_word 2 w)) * 256 +
      unat (byte_of_word 3 w)" by (simp add: be_val_def bytes_of_word_eq)
  then show ?thesis unfolding b v by (simp only: n_def)
qed

lemma be_val_words: "be_val (concat (map bytes_of_word ws)) = bval ws"
proof (induction ws rule: rev_induct)
  case (snoc w ws)
  have "length (bytes_of_word w) = 4" by (simp add: bytes_of_word_def)
  then show ?case using snoc by (simp add: be_val_append be_val_word bval_snoc)
qed (simp add: be_val_def)

lemma key_word:
  "unat ((push_bit 24 (ucast (a :: u8)) AND 0xFF000000) + (push_bit 16 (ucast (b :: u8)) AND 0x00FF0000) +
      (push_bit 8 (ucast (c :: u8)) AND 0x0000FF00) + (ucast (d :: u8) AND 0x000000FF) :: u32) = be_val [a, b, c, d]"
proof -
  have m: "(0xFF :: u32) = mask 8" "(0xFF00 :: u32) = push_bit 8 (mask 8)" "(0xFF0000 :: u32) = push_bit 16 (mask 8)"
      "(0xFF000000 :: u32) = push_bit 24 (mask 8)" by (simp_all add: mask_eq_exp_minus_1)
  have u: "ucast x AND mask 8 = (ucast x :: u32)" for x :: u8
    by (rule bit_eqI) (auto simp: bit_and_iff bit_mask_iff bit_ucast_iff dest: bit_imp_le_length)
  have p: "unat (push_bit n (ucast x) :: u32) = unat x * 2 ^ n" if "n \<le> 24" for x :: u8 and n
  proof -
    have "unat x < 2 ^ LENGTH(8)" by (rule unsigned_less)
    then have "unat x * 2 ^ n < 2 ^ 8 * 2 ^ n" by simp
    also have "\<dots> \<le> (2 :: nat) ^ 8 * 2 ^ 24" using that by (intro mult_le_mono2 power_increasing) simp_all
    finally have l: "unat x * 2 ^ n < 2 ^ 32" by simp
    have "unat (push_bit n (ucast x :: u32)) = take_bit LENGTH(32) (push_bit n (unat (ucast x :: u32)))" by (rule unsigned_push_bit_eq)
    also have "\<dots> = unat x * 2 ^ n mod 2 ^ 32" by (simp add: unat_ucast_up take_bit_eq_mod push_bit_eq_mult)
    finally show ?thesis using l by simp
  qed
  have b8: "unat x < 256" for x :: u8
  proof -
    have "unat x < 2 ^ LENGTH(8)" by (rule unsigned_less)
    then show ?thesis by simp
  qed
  show ?thesis
    unfolding m push_bit_and [symmetric] u
    using p [of 24 a] p [of 16 b] p [of 8 c] p [of 0 d] b8 [of a] b8 [of b] b8 [of c] b8 [of d]
    by (simp add: be_val_def unat_word_ariths)
qed


lemma words_of_key_val: "length bs mod 4 = 0 \<Longrightarrow> length (words_of_key bs) = length bs div 4 \<and> bval (words_of_key bs) = be_val bs"
proof (induction bs rule: words_of_key.induct)
  case (1 a b c d bs)
  have l: "length bs mod 4 = 0" using "1.prems" by simp
  then have k: "length bs = 4 * (length bs div 4)" by auto
  have "(256 :: nat) ^ (4 * (length bs div 4)) = 2 ^ (8 * (4 * (length bs div 4)))" by (simp add: power_mult)
  then have p: "(2 :: nat) ^ (32 * (length bs div 4)) = 256 ^ length bs" using k by simp
  have "be_val (a # b # c # d # bs) = be_val [a, b, c, d] * 256 ^ length bs + be_val bs"
    using be_val_append [of "[a, b, c, d]" bs] by simp
  then show ?case using "1.IH" [OF l] p l unfolding words_of_key.simps bval_Cons key_word by simp
qed simp_all

lemma bigHex_of_key_val:
  assumes "length bs = 24"
  shows "wf_num 7 (bigHex_of_key bs)" "\<not> bh_sign (bigHex_of_key bs)" "V (bigHex_of_key bs) = be_val bs"
  using words_of_key_val [of bs] assms by (simp_all add: bigHex_of_key_def bval_Cons)

lemma key_bytes_val:
  assumes "repn x n"
  shows "be_val (concat (map bytes_of_word (tl (bh_num x)))) = n" "length (concat (map bytes_of_word (tl (bh_num x)))) = 24"
proof -
  obtain N ws where x: "bh_num x = N # ws" "length ws = 6" "V x = unat N * 2 ^ 192 + bval ws"
    using split_top [OF repD(1) [OF assms]] by metis
  have "unat N * 2 ^ 192 < 2 ^ 192" using x(3) repD(3,4) [OF assms] p192_eq(2) by linarith
  then have "unat N = 0" by simp
  then show "be_val (concat (map bytes_of_word (tl (bh_num x)))) = n" using x repD(3) [OF assms] be_val_words [of ws] by simp
  have "length (bytes_of_word w) = 4" for w by (simp add: bytes_of_word_def)
  then show "length (concat (map bytes_of_word (tl (bh_num x)))) = 24" using x(1,2) by (simp add: length_concat o_def sum_list_triv)
qed

section \<open>The point of the key\<close>

lemma back_to_affine:
  assumes "rep3 q (X, Y, Z)" "0 < Z" "coprime Z p192" "GF_Point_Jacobian_To_Affine q = Some r"
  shows "\<exists>zi. bigHexInversion (jz q) = Some zi \<and> (V zi < p192 \<longrightarrow> repn (ax r) (fmul X (V zi)) \<and> repn (ay r) (fmul Y (V zi)) \<and>
    affine (X, Y, Z) (gf (V (ax r))) (gf (V (ay r))))"
proof -
  have r: "repn (jx q) X" "repn (jy q) Y" "repn (jz q) Z" using assms(1) by (simp_all add: rep3_def)
  obtain zi where i: "bigHexInversion (jz q) = Some zi" "wf_num 7 zi" "\<not> bh_sign zi" "V zi < p192 \<Longrightarrow> Z * V zi mod p192 = 1"
    using inversion_val [OF r(3) assms(2,3)] by blast
  have m: "MultiplyBigHexModP (jx q) zi = Some (ax r)" "MultiplyBigHexModP (jy q) zi = Some (ay r)"
    using assms(4) i(1) by (auto simp: GF_Point_Jacobian_To_Affine_def bind_eq_Some_conv)
  have "repn (ax r) (fmul X (V zi)) \<and> repn (ay r) (fmul Y (V zi)) \<and> affine (X, Y, Z) (gf (V (ax r))) (gf (V (ay r)))" if l: "V zi < p192"
  proof -
    have z: "repn zi (V zi)" using i l by (simp add: repn_def)
    note xy = rep_mul [OF r(1) z m(1)] rep_mul [OF r(2) z m(2)]
    have "gf (fmul Z (V zi)) = 1" using i(4) [OF l] by (simp add: fmul_def gf_def)
    then have one: "gf Z * gf (V zi) = 1" by (simp only: gf_fmul)
    have "gf n * gf (V zi) * gf Z = gf n" for n using one by (simp only: mult.assoc mult.commute [of "gf (V zi)"] mult_1_right)
    then show ?thesis using xy by (simp add: affine_def repD(3) [OF xy(1)] repD(3) [OF xy(2)] gf_fmul)
  qed
  then show ?thesis using i(1) by blast
qed


lemma affine_missing:
  assumes "rep3 q (X, Y, Z)" "0 < Z" "coprime Z p192" "GF_Point_Jacobian_To_Affine q = None"
  shows "\<exists>zi. bigHexInversion (jz q) = Some zi \<and> (V zi < p192 \<longrightarrow> fmulo X (V zi) = None \<or> fmulo Y (V zi) = None)"
proof -
  have r: "repn (jx q) X" "repn (jy q) Y" "repn (jz q) Z" using assms(1) by (simp_all add: rep3_def)
  obtain zi where i: "bigHexInversion (jz q) = Some zi" "wf_num 7 zi" "\<not> bh_sign zi"
    using inversion_val [OF r(3) assms(2,3)] by blast
  have "fmulo X (V zi) = None \<or> fmulo Y (V zi) = None" if l: "V zi < p192"
  proof (rule ccontr)
    assume n: "\<not> (fmulo X (V zi) = None \<or> fmulo Y (V zi) = None)"
    have z: "repn zi (V zi)" using i l by (simp add: repn_def)
    obtain x y where "MultiplyBigHexModP (jx q) zi = Some x" "MultiplyBigHexModP (jy q) zi = Some y"
      using rep_mulo [OF r(1) z] rep_mulo [OF r(2) z] n
      by (cases "MultiplyBigHexModP (jx q) zi"; cases "MultiplyBigHexModP (jy q) zi") auto
    then show False using assms(4) i(1) by (simp add: GF_Point_Jacobian_To_Affine_def)
  qed
  then show ?thesis using i(1) by blast
qed

text \<open>What happens when Z is 0.\<close>

lemma inversion_of_zero:
  assumes "repn z 0"
  shows "bigHexInversion z = Some (small_num 0)"
proof -
  have l: "bh_len (z\<lparr>bh_sign := False\<rparr>) = 0" using assms len_zero [of z] by (simp add: repn_def)
  have loop: "inversion_loop (z\<lparr>bh_sign := False\<rparr>) bigHexP A C = Some C" for A C
    using l by (subst inversion_loop.simps) simp
  have C: "initBigNumber\<lparr>bh_num := (bh_num initBigNumber)[HIGHEST_INDEX_BIG_HEX := 0], bh_len := 1\<rparr> = small_num 0"
    by (simp add: initBigNumber_def small_num_def)
  have "isGreaterThan bigHexP (small_num 0)" "\<not> bh_sign (small_num 0)" by code_simp+
  then show ?thesis unfolding bigHexInversion_def loop C by simp
qed

lemma product_with_zero:
  assumes "repn x n" "MultiplyBigHexModP x (small_num 0) = Some r"
  shows "repn r 0"
proof -
  have n: "bh_num (small_num 0) = bh_num initBigNumber" "bh_sign (small_num 0) = bh_sign initBigNumber" by code_simp+
  have i: "repn initBigNumber 0" by (simp add: repn_def p192_def)
  have "MultiplyBigHexModP x initBigNumber = Some r"
    using assms(2) unfolding MultiplyBigHexModP_def n .
  from rep_mul [OF assms(1) i this] show ?thesis by (simp add: fmul_def)
qed

lemma zero_key:
  assumes "repn x 0"
  shows "concat (map bytes_of_word (tl (bh_num x))) = replicate 24 0"
proof -
  have z: "be_val bs = 0 \<Longrightarrow> bs = replicate (length bs) 0" for bs
    by (induction bs) (simp_all add: unat_eq_zero)
  show ?thesis using z [of "concat (map bytes_of_word (tl (bh_num x)))"] key_bytes_val [OF assms] by simp
qed

lemma zero_loops:
  assumes "halve_loop u A = Some r"
  shows "\<not> (length (bh_num u) = 7 \<and> V u = 0)"
proof (rule halve_loop.raw_induct [where P = "\<lambda>u A r. \<not> (length (bh_num u) = 7 \<and> V u = 0)", OF _ assms], goal_cases)
  case (1 loop u A r)
  show ?case
  proof
    assume z: "length (bh_num u) = 7 \<and> V u = 0"
    have h: "length (bh_num (divideByTwo u)) = 7" "V (divideByTwo u) = 0"
      using half_words_val [of 0 "bh_num u"] z by (simp_all add: divideByTwo_def)
    have "wf_num 7 (setBigNumberLength u)" using z by simp
    then have "isbigHexEven (setBigNumberLength u)" using odd_last [of "setBigNumberLength u"] z by simp
    then have "isbigHexEven u" by (simp add: isbigHexEven_def)
    then have "loop (divideByTwo u) (halve_with A) = Some r" using 1(2) by simp
    from 1(1) [OF this] h show False by blast
  qed
qed

lemma zero_not_inverted: "bigHexInversion (small_num 0) = None"
proof (cases "bigHexInversion (small_num 0)")
  case (Some r)
  define A where "A = initBigNumber\<lparr>bh_num := (bh_num initBigNumber)[HIGHEST_INDEX_BIG_HEX := 1], bh_len := 1\<rparr>"
  have len: "bh_len (small_num 0) \<noteq> 0" and zero: "small_num 0\<lparr>bh_sign := False\<rparr> = small_num 0" by (simp_all add: small_num_eq)
  have "halve_loop (small_num 0) A = None"
    using zero_loops [of "small_num 0" A] by (cases "halve_loop (small_num 0) A") simp_all
  then have "inversion_loop (small_num 0) bigHexP A C = None" for C using len by (subst inversion_loop.simps) simp
  then show ?thesis unfolding bigHexInversion_def zero A_def by simp
qed

text \<open>The Z of a multiple that is at infinity is 0: then its key, if there is one, is all zeros.\<close>

lemma zero_Z_key:
  assumes "repw Q (X, Y, 0)" "GF_Point_Jacobian_To_Affine Q = Some q"
  shows "LMecc_CB_ECC_Point_Multiplication_Complete q = (replicate 24 0, replicate 24 0)"
proof -
  have "jz Q \<noteq> small_num 0" using assms(2) zero_not_inverted by (auto simp: GF_Point_Jacobian_To_Affine_def)
  then have "rep3 Q (X, Y, 0)" using assms(1) by (auto simp: repw_def GF_Setup_Jacobian_Infinity_Point_def)
  then have r: "repn (jx Q) X" "repn (jy Q) Y" "repn (jz Q) 0" by (simp_all add: rep3_def)
  have "MultiplyBigHexModP (jx Q) (small_num 0) = Some (ax q)" "MultiplyBigHexModP (jy Q) (small_num 0) = Some (ay q)"
    using assms(2) inversion_of_zero [OF r(3)] by (auto simp: GF_Point_Jacobian_To_Affine_def bind_eq_Some_conv)
  then show ?thesis
    using zero_key [OF product_with_zero [OF r(1)]] zero_key [OF product_with_zero [OF r(2)]]
    by (simp add: LMecc_CB_ECC_Point_Multiplication_Complete_def)
qed

definition key_point :: "u8 list \<Rightarrow> u8 list \<Rightarrow> u8 list \<Rightarrow> (fpoint \<times> fpoint) option" where
  "key_point secret x y = fscalar (map (bit (be_val secret)) [0..<224]) (finfinity, (be_val x, be_val y, 1))"

text \<open>
  C17. The key made from a secret and a point with coordinates below the prime belongs to the multiple
  \<open>(X, Y, Z)\<close> of the point that double-and-add gives for the bits of the secret. Where Z is not 0 and
  shares no factor with the prime, the key is that multiple with Z divided out, written as 24 bytes
  per coordinate, as far as the inversion of Z ends below the prime. Where Z is 0 the key is 48 bytes
  of zeros, which is no point. There is no key only where double-and-add or one of the last two
  products has no result, or the multiple has no inverse of Z.
\<close>

theorem generated_key_is_multiple:
  assumes "length secret = 24" "length x = 24" "length y = 24" "be_val x < p192" "be_val y < p192"
  shows "case LMecc_Generate_ECC_Key secret x y of
      None \<Rightarrow> key_point secret x y = None \<or> (\<exists>X Y Z R. key_point secret x y = Some ((X, Y, Z), R) \<and> (Z = 0 \<or> \<not> coprime Z p192 \<or>
        (\<exists>z zi. repn z Z \<and> bigHexInversion z = Some zi \<and> (V zi < p192 \<longrightarrow> fmulo X (V zi) = None \<or> fmulo Y (V zi) = None))))
    | Some (kx, ky) \<Rightarrow> \<exists>X Y Z R. key_point secret x y = Some ((X, Y, Z), R) \<and> (if Z = 0 then kx = replicate 24 0 \<and> ky = replicate 24 0
        else \<not> coprime Z p192 \<or>
        (\<exists>z zi. repn z Z \<and> bigHexInversion z = Some zi \<and> (V zi < p192 \<longrightarrow> length kx = 24 \<and> length ky = 24 \<and>
           affine (X, Y, Z) (gf (be_val kx)) (gf (be_val ky)))))"
proof -
  define p where "p = \<lparr>ax = bigHex_of_key x, ay = bigHex_of_key y\<rparr>"
  define m where "m = mul_calls (bigHex_of_key secret) (ELEMENTS_BIG_HEX * 4)
    (GF_Setup_Jacobian_Infinity_Point, GF_Affine_To_Jacobian_Point_Copy p)"
  have xy: "repn (ax p) (be_val x)" "repn (ay p) (be_val y)"
    using bigHex_of_key_val [OF assms(2)] bigHex_of_key_val [OF assms(3)] assms(4,5) by (simp_all add: p_def repn_def)
  have rel: "rel_option (rel_prod repw rep3) m (key_point secret x y)"
    using double_and_add_rel [OF bigHex_of_key_val(1) [OF assms(1)] xy] bigHex_of_key_val(3) [OF assms(1)]
    by (simp add: m_def key_point_def)
  have key: "LMecc_Generate_ECC_Key secret x y =
      Option.bind m (\<lambda>(Q, R). Option.bind (GF_Point_Jacobian_To_Affine Q) (\<lambda>q. Some (LMecc_CB_ECC_Point_Multiplication_Complete q)))"
    by (simp add: LMecc_Generate_ECC_Key_def ECC_Point_Multiplication_def m_def p_def bind_assoc split_def)
  show ?thesis
  proof (cases m)
    case None
    then show ?thesis using rel key by (cases "key_point secret x y") simp_all
  next
    case (Some QR)
    obtain Q R where m: "m = Some (Q, R)" using Some by (cases QR) auto
    obtain P S where PS: "key_point secret x y = Some (P, S)" "repw Q P"
      using rel m by (cases "key_point secret x y") auto
    obtain X Y Z s1 s2 s3 where e3: "P = (X, Y, Z)" "S = (s1, s2, s3)" by (cases P; cases S) auto
    note k = PS [unfolded e3]
    show ?thesis
    proof (cases "Z = 0 \<or> \<not> coprime Z p192")
      case True
      have "kx = replicate 24 0 \<and> ky = replicate 24 0" if "LMecc_Generate_ECC_Key secret x y = Some (kx, ky)" "Z = 0" for kx ky
        using that key m zero_Z_key [of Q X Y] k(2) by (auto simp: bind_eq_Some_conv)
      then show ?thesis using True k(1)
        by (cases "LMecc_Generate_ECC_Key secret x y") (simp_all add: split_beta split del: if_split, auto)
    next
      case False
      then have z: "0 < Z" "coprime Z p192" and Q: "rep3 Q (X, Y, Z)" using k(2) by (auto simp: repw_def finfinity_def)
      have rz: "repn (jz Q) Z" using Q by (simp add: rep3_def)
      show ?thesis
      proof (cases "GF_Point_Jacobian_To_Affine Q")
        case None
        then have "LMecc_Generate_ECC_Key secret x y = None" using key m by simp
        then show ?thesis using affine_missing [OF Q z None] k(1) rz by auto
      next
        case (Some q)
        obtain kx ky where kk: "LMecc_CB_ECC_Point_Multiplication_Complete q = (kx, ky)" by (cases "LMecc_CB_ECC_Point_Multiplication_Complete q")
        then have e: "LMecc_Generate_ECC_Key secret x y = Some (kx, ky)" using key m Some by simp
        have b: "kx = concat (map bytes_of_word (tl (bh_num (ax q))))" "ky = concat (map bytes_of_word (tl (bh_num (ay q))))"
          using kk by (simp_all add: LMecc_CB_ECC_Point_Multiplication_Complete_def)
        obtain zi where zi: "bigHexInversion (jz Q) = Some zi" "V zi < p192 \<Longrightarrow> repn (ax q) (fmul X (V zi)) \<and> repn (ay q) (fmul Y (V zi)) \<and>
            affine (X, Y, Z) (gf (V (ax q))) (gf (V (ay q)))"
          using back_to_affine [OF Q z Some] by blast
        have "length kx = 24 \<and> length ky = 24 \<and> affine (X, Y, Z) (gf (be_val kx)) (gf (be_val ky))" if l: "V zi < p192"
        proof -
          note v = zi(2) [OF l]
          show ?thesis
            using key_bytes_val [of "ax q"] key_bytes_val [of "ay q"] v repD(3) [of "ax q"] repD(3) [of "ay q"] unfolding b by metis
        qed
        then show ?thesis using e k(1) rz zi(1) z(1) by auto
      qed
    qed
  qed
qed

lemma generated_key_is_multiple_witness:
  "case LMecc_Generate_ECC_Key maxSecretKey BasePoint_x BasePoint_y of
      None \<Rightarrow> key_point maxSecretKey BasePoint_x BasePoint_y = None \<or>
        (\<exists>X Y Z R. key_point maxSecretKey BasePoint_x BasePoint_y = Some ((X, Y, Z), R) \<and> (Z = 0 \<or> \<not> coprime Z p192 \<or>
        (\<exists>z zi. repn z Z \<and> bigHexInversion z = Some zi \<and> (V zi < p192 \<longrightarrow> fmulo X (V zi) = None \<or> fmulo Y (V zi) = None))))
    | Some (kx, ky) \<Rightarrow> \<exists>X Y Z R. key_point maxSecretKey BasePoint_x BasePoint_y = Some ((X, Y, Z), R) \<and> (if Z = 0 then kx = replicate 24 0 \<and> ky = replicate 24 0
        else \<not> coprime Z p192 \<or>
        (\<exists>z zi. repn z Z \<and> bigHexInversion z = Some zi \<and> (V zi < p192 \<longrightarrow> length kx = 24 \<and> length ky = 24 \<and>
           affine (X, Y, Z) (gf (be_val kx)) (gf (be_val ky)))))"
  by (rule generated_key_is_multiple)
    (simp_all add: maxSecretKey_def BasePoint_x_def BasePoint_y_def be_val_def p192_def)

section \<open>The secret zero\<close>

lemma zero_bits: "mul_bits n j 0 (Q, R) = Some (Q', R') \<Longrightarrow> Q' = Q"
  by (induction n arbitrary: j R) (auto simp: bind_eq_Some_conv)

lemma zero_calls:
  assumes "bh_num pk = replicate 7 0" "mul_calls pk n (Q, R) = Some (Q', R')"
  shows "Q' = Q"
  using assms(2)
proof (induction n arbitrary: Q R)
  case (Suc n)
  obtain w T U where s: "aget (bh_num pk) ((Suc n + 3) div 4 - 1) = Some w"
    "mul_bits 8 0 (byte_of_word (n mod 4) w) (Q, R) = Some (T, U)" "mul_calls pk n (T, U) = Some (Q', R')"
    using Suc.prems by (auto simp: ECC_Point_Multiplication_uint8_def bind_eq_Some_conv)
  have "w = 0" using s(1) unfolding assms(1) by (simp add: aget_def nth_replicate split: if_splits)
  then have "byte_of_word (n mod 4) w = 0" by (simp add: byte_of_word_def)
  then show ?case using s(2,3) zero_bits Suc.IH by metis
qed simp

text \<open>With a secret of zeros the point stays at infinity, whose Z the inversion halves for ever.\<close>

lemma zero_secret_never_returns: "LMecc_Generate_ECC_Key (replicate 24 0) x y = None"
proof (cases "LMecc_Generate_ECC_Key (replicate 24 0) x y")
  case (Some k)
  define p where "p = \<lparr>ax = bigHex_of_key x, ay = bigHex_of_key y\<rparr>"
  have "words_of_key (replicate 24 0) = replicate 6 0" by (simp add: numeral_eq_Suc)
  then have z: "bh_num (bigHex_of_key (replicate 24 0)) = replicate 7 0" by (simp add: bigHex_of_key_def numeral_eq_Suc)
  obtain Q R q where "mul_calls (bigHex_of_key (replicate 24 0)) (ELEMENTS_BIG_HEX * 4)
      (GF_Setup_Jacobian_Infinity_Point, GF_Affine_To_Jacobian_Point_Copy p) = Some (Q, R)" "GF_Point_Jacobian_To_Affine Q = Some q"
    using Some by (auto simp: LMecc_Generate_ECC_Key_def ECC_Point_Multiplication_def p_def bind_eq_Some_conv)
  then have "GF_Point_Jacobian_To_Affine GF_Setup_Jacobian_Infinity_Point = Some q" using zero_calls [OF z] by metis
  then show ?thesis using zero_not_inverted
    by (simp add: GF_Point_Jacobian_To_Affine_def GF_Setup_Jacobian_Infinity_Point_def)
qed

section \<open>The check of a secret\<close>

lemma compare_key_val: "length ks = length ms \<Longrightarrow> compare_key ks ms \<longleftrightarrow> be_val ks \<le> be_val ms"
proof (induction ks ms rule: compare_key.induct)
  case (1 k ks m ms)
  then have l: "length ks = length ms" by simp
  note b = be_val_bound [of ks, unfolded l] be_val_bound [of ms]
  have less: "be_val (x # xs) < be_val (y # ys)" if "x < y" "length xs = length ys" "be_val xs < 256 ^ length ys" for x y xs ys
  proof -
    have "be_val (x # xs) < (unat x + 1) * 256 ^ length ys" using that(2,3) by simp
    also have "\<dots> \<le> unat y * 256 ^ length ys" using that(1) by (intro mult_right_mono) (simp_all add: word_less_nat_alt)
    finally show ?thesis by simp
  qed
  consider "k < m" | "m < k" | "k = m" by (rule linorder_cases) blast+
  then show ?case
  proof cases
    case 1
    then show ?thesis using less [OF 1 l b(1)] by simp
  next
    case 2
    then show ?thesis using less [OF 2 l [symmetric]] b(2) l by simp
  next
    case 3
    then show ?thesis using "1.IH" l by simp
  qed
qed simp_all

lemma be_val_zero: "list_all (\<lambda>b. b = 0) bs \<longleftrightarrow> be_val bs = 0"
  by (induction bs) (simp_all add: unat_eq_zero)

text \<open>Nobody calls the check, which a secret of zeros would not pass.\<close>

lemma valid_secret:
  assumes "length key = 24"
  shows "LMecc_isValidSecretKey key \<longleftrightarrow> 0 < be_val key \<and> be_val key \<le> be_val maxSecretKey"
  using compare_key_val [of key maxSecretKey] assms
  by (simp add: LMecc_isValidSecretKey_def be_val_zero maxSecretKey_def)

text \<open>The variant with a word per call begins behind the words of the number.\<close>

lemma no_first_word: "length (bh_num pk) = ELEMENTS_BIG_HEX \<Longrightarrow> uint32_first_word pk = None"
  by (simp add: uint32_first_word_def aget_def ELEMENTS_BIG_HEX_def)

end
