(* ===== verification/Sdio.thy ===== *)
theory Sdio
  imports Prelude
begin

text \<open>
  The transmit side of the SDIO transport: BSP/sdio/sdiohal_tx.c and the lists of
  BSP/sdio/sdiohal_common.c, without ADMA, for a block size of 512. Bus access is a list of
  results, what is written and handed back to the clients is returned.
\<close>

section \<open>Sizes\<close>

definition SDIO_CHN_TX_NUM :: nat where "SDIO_CHN_TX_NUM = 12"
definition SDIO_CHN_RX_NUM :: nat where "SDIO_CHN_RX_NUM = 14"
definition SDIO_CHANNEL_NUM :: nat where "SDIO_CHANNEL_NUM = SDIO_CHN_TX_NUM + SDIO_CHN_RX_NUM"
definition MAX_CHAIN_NODE_NUM :: nat where "MAX_CHAIN_NODE_NUM = 100"
definition MAX_MBUF_SIZE :: nat where "MAX_MBUF_SIZE = 2 * 1024"
definition SDIOHAL_BLK_SIZE :: nat where "SDIOHAL_BLK_SIZE = 512"
definition MAX_PAC_SIZE :: nat where "MAX_PAC_SIZE = SDIOHAL_BLK_SIZE * 4"
definition SDIO_PUB_HEADER_SIZE :: nat where "SDIO_PUB_HEADER_SIZE = 4"
definition SDIOHAL_TX_SENDBUF_LEN :: nat where "SDIOHAL_TX_SENDBUF_LEN = MAX_CHAIN_NODE_NUM * MAX_MBUF_SIZE"

definition SDIOHAL_ALIGN_4BYTE :: "nat \<Rightarrow> nat" where
  "SDIOHAL_ALIGN_4BYTE a = (a + 3) div 4 * 4"

definition SDIOHAL_ALIGN_BLK :: "nat \<Rightarrow> nat" where
  "SDIOHAL_ALIGN_BLK a = (a + 511) div 512 * 512"

section \<open>The public header\<close>

text \<open>Bit fields of a little endian word of 32 bits, lowest first: 6, 1, 16, 1, 4 and 4 bits.\<close>

record sdio_puh_t =
  puh_pad :: nat
  puh_check_sum :: nat
  puh_len :: nat
  puh_eof :: nat
  puh_subtype :: nat
  puh_type :: nat

definition puh_word :: "sdio_puh_t \<Rightarrow> nat" where
  "puh_word h = puh_pad h + 2 ^ 6 * puh_check_sum h + 2 ^ 7 * puh_len h + 2 ^ 23 * puh_eof h +
     2 ^ 24 * puh_subtype h + 2 ^ 28 * puh_type h"

definition puh_of_word :: "nat \<Rightarrow> sdio_puh_t" where
  "puh_of_word v = \<lparr>puh_pad = v mod 2 ^ 6, puh_check_sum = v div 2 ^ 6 mod 2, puh_len = v div 2 ^ 7 mod 2 ^ 16,
     puh_eof = v div 2 ^ 23 mod 2, puh_subtype = v div 2 ^ 24 mod 2 ^ 4, puh_type = v div 2 ^ 28 mod 2 ^ 4\<rparr>"

definition puh_bytes :: "sdio_puh_t \<Rightarrow> u8 list" where
  "puh_bytes h = (let v = puh_word h in
     [of_nat (v mod 256), of_nat (v div 256 mod 256), of_nat (v div 65536 mod 256), of_nat (v div 16777216 mod 256)])"

definition get_puh :: "u8 list \<Rightarrow> nat \<Rightarrow> sdio_puh_t option" where
  "get_puh buf p = do {
     b0 \<leftarrow> aget buf p; b1 \<leftarrow> aget buf (p + 1); b2 \<leftarrow> aget buf (p + 2); b3 \<leftarrow> aget buf (p + 3);
     Some (puh_of_word (unat b0 + 256 * unat b1 + 65536 * unat b2 + 16777216 * unat b3)) }"

definition put_puh :: "u8 list \<Rightarrow> nat \<Rightarrow> sdio_puh_t \<Rightarrow> u8 list option" where
  "put_puh buf p h = memcpy_at buf p (puh_bytes h)"

text \<open>Type and subtype of a channel; \<open>inout\<close> holds for sending.\<close>

definition sdiohal_channel_to_hwtype :: "bool \<Rightarrow> nat \<Rightarrow> nat \<times> nat" where
  "sdiohal_channel_to_hwtype inout channel = (0, if inout then channel else channel - SDIO_CHN_TX_NUM)"

definition sdiohal_hwtype_to_channel :: "bool \<Rightarrow> nat \<Rightarrow> nat \<Rightarrow> nat" where
  "sdiohal_hwtype_to_channel inout type subtype = (if inout then subtype else subtype + SDIO_CHN_TX_NUM)"

section \<open>Buffers and lists\<close>

text \<open>
  A buffer has room for the header before its \<open>mb_len\<close> bytes of payload. A chain of buffers is a
  list, with its last element as tail; the counts of nodes that the code keeps are fields of their own.
\<close>

record mbuf_t =
  mb_buf :: "u8 list"
  mb_len :: nat

record tx_chan =
  tc_nodes :: "mbuf_t list"
  tc_num :: nat
  tc_type :: nat
  tc_subtype :: nat

record sdio_tx =
  tx_list :: "mbuf_t list"
  tx_node_num :: nat
  tx_mbuf_num :: int
  list_tx :: "tx_chan list"
  send_buf :: "u8 list"
  used_len :: nat

definition sdio_tx_init :: sdio_tx where
  "sdio_tx_init = \<lparr>tx_list = [], tx_node_num = 0, tx_mbuf_num = 0,
     list_tx = replicate SDIO_CHN_TX_NUM \<lparr>tc_nodes = [], tc_num = 0, tc_type = 0, tc_subtype = 0\<rparr>,
     send_buf = replicate SDIOHAL_TX_SENDBUF_LEN 0, used_len = 0\<rparr>"

text \<open>
  The check reads a node for each of the \<open>num\<close> nodes of a chain with \<open>n\<close>; an empty chain is only reported.
  Then the arguments of a push are tested: 0 when they pass.
\<close>

definition sdiohal_mbuf_list_check :: "nat \<Rightarrow> int \<Rightarrow> unit option" where
  "sdiohal_mbuf_list_check n num = (if 0 < n \<and> int n < num then None else Some ())"

definition list_push_check :: "bool \<Rightarrow> bool \<Rightarrow> int \<Rightarrow> nat \<Rightarrow> int \<Rightarrow> int option" where
  "list_push_check flag_init card_dump_flag channel n num =
     (if \<not> flag_init \<or> card_dump_flag then Some (- 19)
      else do {
        _ \<leftarrow> sdiohal_mbuf_list_check n num;
        if channel < 0 \<or> channel \<ge> int SDIO_CHANNEL_NUM \<or> n = 0 \<or> num \<le> 0 then Some (- 22)
        else if int n < num then Some (- 14)
        else Some 0 })"

definition sdiohal_atomic_sub :: "int \<Rightarrow> int \<Rightarrow> int" where
  "sdiohal_atomic_sub n value = (if value = 0 then value else value - n)"

fun sdiohal_tx_fill_puh :: "nat \<Rightarrow> mbuf_t list \<Rightarrow> nat \<Rightarrow> (mbuf_t list \<times> int) option" where
  "sdiohal_tx_fill_puh channel chain 0 = Some (chain, 0)"
| "sdiohal_tx_fill_puh channel [] (Suc n) = Some ([], - 14)"
| "sdiohal_tx_fill_puh channel (m # chain) (Suc n) = do {
     h \<leftarrow> get_puh (mb_buf m) 0;
     let (type, subtype) = sdiohal_channel_to_hwtype True channel;
     buf \<leftarrow> put_puh (mb_buf m) 0 (h\<lparr>puh_type := type mod 2 ^ 4, puh_subtype := subtype mod 2 ^ 4, puh_len := mb_len m mod 2 ^ 16,
       puh_eof := 0, puh_pad := 0\<rparr>);
     (chain, ret) \<leftarrow> sdiohal_tx_fill_puh channel chain n;
     Some (m\<lparr>mb_buf := buf\<rparr> # chain, ret) }"

definition sdiohal_tx_list_enq :: "nat \<Rightarrow> mbuf_t list \<Rightarrow> nat \<Rightarrow> sdio_tx \<Rightarrow> sdio_tx option" where
  "sdiohal_tx_list_enq channel chain num s = do {
     (chain, ret) \<leftarrow> sdiohal_tx_fill_puh channel chain num;
     Some (s\<lparr>tx_list := if tx_mbuf_num s = 0 then chain else tx_list s @ chain,
       tx_node_num := tx_node_num s + num, tx_mbuf_num := tx_mbuf_num s + int num\<rparr>) }"

text \<open>The branch of \<open>sdiohal_list_push\<close> for sending.\<close>

definition sdiohal_list_push_tx ::
  "bool \<Rightarrow> bool \<Rightarrow> bool \<Rightarrow> nat \<Rightarrow> mbuf_t list \<Rightarrow> int \<Rightarrow> sdio_tx \<Rightarrow> (sdio_tx \<times> int) option" where
  "sdiohal_list_push_tx flag_init card_dump_flag flag_resume channel chain num s = do {
     ret \<leftarrow> list_push_check flag_init card_dump_flag (int channel) (length chain) num;
     if ret \<noteq> 0 then Some (s, ret)
     else if \<not> flag_resume then Some (s, - 14)
     else do { s \<leftarrow> sdiohal_tx_list_enq channel chain (nat num) s; Some (s, 0) } }"

text \<open>Takes at most \<open>MAX_CHAIN_NODE_NUM\<close> nodes. With none there the tail is NULL and is written to.\<close>

definition sdiohal_tx_find_data_list :: "sdio_tx \<Rightarrow> (sdio_tx \<times> mbuf_t list \<times> nat) option" where
  "sdiohal_tx_find_data_list s =
     (let num = min (tx_node_num s) MAX_CHAIN_NODE_NUM in
      if num = 0 \<and> tx_list s = [] \<or> length (tx_list s) < num then None
      else let n = max 1 num; left = sdiohal_atomic_sub (int num) (tx_mbuf_num s) in
        Some (s\<lparr>tx_list := if left = 0 then [] else drop n (tx_list s), tx_node_num := tx_node_num s - num,
                tx_mbuf_num := left\<rparr>,
              take n (tx_list s), num))"

section \<open>Back to the clients\<close>

definition tx_chan_append :: "sdio_puh_t \<Rightarrow> mbuf_t \<Rightarrow> tx_chan \<Rightarrow> tx_chan" where
  "tx_chan_append h m c =
     c\<lparr>tc_nodes := if tc_num c = 0 then [m] else tc_nodes c @ [m], tc_type := puh_type h, tc_subtype := puh_subtype h,
       tc_num := tc_num c + 1\<rparr>"

fun sdiohal_tx_pop_assignment :: "mbuf_t list \<Rightarrow> nat \<Rightarrow> tx_chan list \<Rightarrow> (tx_chan list \<times> int) option" where
  "sdiohal_tx_pop_assignment nodes 0 cs = Some (cs, 0)"
| "sdiohal_tx_pop_assignment [] (Suc n) cs = Some (cs, - 14)"
| "sdiohal_tx_pop_assignment (m # nodes) (Suc n) cs = do {
     h \<leftarrow> get_puh (mb_buf m) 0;
     let channel = sdiohal_hwtype_to_channel True (puh_type h) (puh_subtype h);
     if channel \<ge> SDIO_CHN_TX_NUM then sdiohal_tx_pop_assignment nodes n cs
     else do {
       c \<leftarrow> aget cs channel;
       cs \<leftarrow> aset cs channel (tx_chan_append h m c);
       sdiohal_tx_pop_assignment nodes n cs } }"

text \<open>
  The walk over the ring of lists: it starts at the first and ends when the next one would be the first.
  \<open>cb\<close> tells which channels have a \<open>pop_link\<close>; the calls made to them are returned.
\<close>

fun tx_pop_walk :: "(nat \<Rightarrow> bool) \<Rightarrow> tx_chan list \<Rightarrow> tx_chan list \<times> (nat \<times> mbuf_t list \<times> nat) list" where
  "tx_pop_walk cb [] = ([], [])"
| "tx_pop_walk cb [c] = ([c], [])"
| "tx_pop_walk cb (c # d # cs) =
     (let (cs', pops) = tx_pop_walk cb (d # cs); channel = sdiohal_hwtype_to_channel True (tc_type c) (tc_subtype c) in
      if tc_num c = 0 \<or> channel \<ge> SDIO_CHN_TX_NUM then (c # cs', pops)
      else (c\<lparr>tc_num := 0\<rparr> # cs', (if cb channel then [(channel, tc_nodes c, tc_num c)] else []) @ pops))"

definition sdiohal_tx_list_denq ::
  "(nat \<Rightarrow> bool) \<Rightarrow> mbuf_t list \<Rightarrow> nat \<Rightarrow> sdio_tx \<Rightarrow> (sdio_tx \<times> (nat \<times> mbuf_t list \<times> nat) list) option" where
  "sdiohal_tx_list_denq cb nodes num s = do {
     (cs, ret) \<leftarrow> sdiohal_tx_pop_assignment nodes num (list_tx s);
     let (cs, pops) = tx_pop_walk cb cs;
     Some (s\<lparr>list_tx := cs\<rparr>, pops) }"

section \<open>Sending\<close>

definition eof_buf :: "u8 list" where
  "eof_buf = puh_bytes \<lparr>puh_pad = 0, puh_check_sum = 0, puh_len = 0, puh_eof = 1, puh_subtype = 0, puh_type = 0\<rparr>"

definition sdiohal_tx_packer :: "mbuf_t \<Rightarrow> sdio_tx \<Rightarrow> sdio_tx option" where
  "sdiohal_tx_packer m s = do {
     bytes \<leftarrow> read_bytes (mb_buf m) 0 (mb_len m + SDIO_PUB_HEADER_SIZE);
     buf \<leftarrow> memcpy_at (send_buf s) (used_len s) bytes;
     Some (s\<lparr>send_buf := buf, used_len := used_len s + SDIO_PUB_HEADER_SIZE + SDIOHAL_ALIGN_4BYTE (mb_len m)\<rparr>) }"

definition sdiohal_tx_set_eof :: "sdio_tx \<Rightarrow> sdio_tx option" where
  "sdiohal_tx_set_eof s = do {
     buf \<leftarrow> memcpy_at (send_buf s) (used_len s) eof_buf;
     Some (s\<lparr>send_buf := buf, used_len := used_len s + SDIO_PUB_HEADER_SIZE\<rparr>) }"

text \<open>Compiled without retries: 0 whatever the bus said.\<close>

definition sdiohal_send_try :: int where "sdiohal_send_try = 0"

text \<open>The bytes given to the bus, whose result is \<open>bus\<close>, and the result of the function.\<close>

definition sdiohal_send :: "int \<Rightarrow> sdio_tx \<Rightarrow> (u8 list \<times> int) option" where
  "sdiohal_send bus s = do {
     bytes \<leftarrow> read_bytes (send_buf s) 0 (SDIOHAL_ALIGN_BLK (used_len s));
     Some (bytes, if bus \<noteq> 0 then sdiohal_send_try else bus) }"

definition tx_room :: "mbuf_t \<Rightarrow> sdio_tx \<Rightarrow> bool" where
  "tx_room m s \<longleftrightarrow> used_len s + SDIO_PUB_HEADER_SIZE + SDIOHAL_ALIGN_4BYTE (mb_len m) \<le> SDIOHAL_TX_SENDBUF_LEN"

fun tx_send_loop :: "int \<Rightarrow> mbuf_t list \<Rightarrow> sdio_tx \<Rightarrow> (sdio_tx \<times> u8 list list) option" where
  "tx_send_loop bus [] s = Some (s, [])"
| "tx_send_loop bus (m # ms) s =
     (if tx_room m s then do { s \<leftarrow> sdiohal_tx_packer m s; tx_send_loop bus ms s }
      else do {
        s \<leftarrow> sdiohal_tx_set_eof s;
        (bytes, ret) \<leftarrow> sdiohal_send bus s;
        s \<leftarrow> sdiohal_tx_packer m (s\<lparr>used_len := 0\<rparr>);
        (s, ws) \<leftarrow> tx_send_loop bus ms s;
        Some (s, bytes # ws) })"

text \<open>
  \<open>bus\<close> is what the bus returns for the writes, \<open>cb\<close> tells which clients are there. The buffers go back to
  the clients before the last write.
\<close>

definition sdiohal_tx_data_list_send ::
  "int \<Rightarrow> (nat \<Rightarrow> bool) \<Rightarrow> bool \<Rightarrow> mbuf_t list \<Rightarrow> nat \<Rightarrow> sdio_tx \<Rightarrow>
     (sdio_tx \<times> int \<times> u8 list list \<times> (nat \<times> mbuf_t list \<times> nat) list) option" where
  "sdiohal_tx_data_list_send bus cb pop_flag nodes num s =
     (if length nodes < num then None
      else do {
        (s, ws) \<leftarrow> tx_send_loop bus (take num nodes) s;
        s \<leftarrow> sdiohal_tx_set_eof s;
        (s, pops) \<leftarrow> (if pop_flag then sdiohal_tx_list_denq cb nodes num s else Some (s, []));
        (bytes, ret) \<leftarrow> sdiohal_send bus s;
        Some (s\<lparr>used_len := 0\<rparr>, ret, ws @ [bytes], pops) })"

text \<open>One round of the transmit thread, while the list is not empty.\<close>

definition tx_thread_round ::
  "int \<Rightarrow> (nat \<Rightarrow> bool) \<Rightarrow> sdio_tx \<Rightarrow> (sdio_tx \<times> u8 list list \<times> (nat \<times> mbuf_t list \<times> nat) list) option" where
  "tx_thread_round bus cb s =
     (if tx_mbuf_num s = 0 then Some (s, [], [])
      else do {
        (s, nodes, num) \<leftarrow> sdiohal_tx_find_data_list s;
        (s, ret, ws, pops) \<leftarrow> sdiohal_tx_data_list_send bus cb True nodes num s;
        Some (s, ws, pops) })"

end
