(* ===== verification/Sdio_Correct.thy ===== *)
theory Sdio_Correct
  imports Sdio
begin

text \<open>
  The transmit side of the SDIO transport: what is written to the bus is the queued packets in
  order, each buffer ended by its mark, and every client but the last gets its buffers back in
  order.
\<close>

section \<open>The public header\<close>

definition puh_ok :: "sdio_puh_t \<Rightarrow> bool" where
  "puh_ok h \<longleftrightarrow> puh_pad h < 2 ^ 6 \<and> puh_check_sum h < 2 \<and> puh_len h < 2 ^ 16 \<and> puh_eof h < 2 \<and>
     puh_subtype h < 2 ^ 4 \<and> puh_type h < 2 ^ 4"

lemma length_puh_bytes [simp]: "length (puh_bytes h) = 4"
  by (simp add: puh_bytes_def Let_def)

lemma puh_word_fields:
  assumes "puh_ok h"
  shows "puh_of_word (puh_word h) = h" "puh_word h < 2 ^ 32"
proof -
  obtain p c l e u t where h: "h = \<lparr>puh_pad = p, puh_check_sum = c, puh_len = l, puh_eof = e, puh_subtype = u, puh_type = t\<rparr>"
    by (cases h) blast
  from assms have b: "p < 64" "c < 2" "l < 65536" "e < 2" "u < 16" "t < 16" by (simp_all add: puh_ok_def h)
  define v where "v = puh_word h"
  have v: "v = p + 64 * (c + 2 * (l + 65536 * (e + 2 * (u + 16 * t))))" by (simp add: v_def puh_word_def h)
  have g: "(a + m * k) mod m = a \<and> (a + m * k) div m = k" if "a < m" for a m k :: nat
    using that by simp
  have d: "v mod 64 = p" "v div 64 = c + 2 * (l + 65536 * (e + 2 * (u + 16 * t)))"
    unfolding v using g [OF b(1)] by blast+
  have "v div 128 = v div 64 div 2" by (simp add: div_mult2_eq)
  then have d1: "v div 128 = l + 65536 * (e + 2 * (u + 16 * t))" using g [OF b(2)] d(2) by metis
  have "v div 8388608 = v div 128 div 65536" by (simp flip: div_mult2_eq)
  then have d2: "v div 8388608 = e + 2 * (u + 16 * t)" using g [OF b(3)] d1 by metis
  have "v div 16777216 = v div 8388608 div 2" by (simp flip: div_mult2_eq)
  then have d3: "v div 16777216 = u + 16 * t" using g [OF b(4)] d2 by metis
  have "v div 268435456 = v div 16777216 div 16" by (simp flip: div_mult2_eq)
  then have d4: "v div 268435456 = t" using g [OF b(5)] d3 by metis
  have n: "(2 :: nat) ^ 4 = 16" "(2 :: nat) ^ 6 = 64" "(2 :: nat) ^ 7 = 128" "(2 :: nat) ^ 16 = 65536" "(2 :: nat) ^ 23 = 8388608"
    "(2 :: nat) ^ 24 = 16777216" "(2 :: nat) ^ 28 = 268435456" by simp_all
  have "v div 64 mod 2 = c" unfolding d using g [OF b(2)] by blast
  moreover have "v div 128 mod 65536 = l" unfolding d1 using g [OF b(3)] by blast
  moreover have "v div 8388608 mod 2 = e" unfolding d2 using g [OF b(4)] by blast
  moreover have "v div 16777216 mod 16 = u" unfolding d3 using g [OF b(5)] by blast
  moreover have "v div 268435456 mod 16 = t" unfolding d4 using b(6) by simp
  ultimately show "puh_of_word (puh_word h) = h"
    unfolding v_def [symmetric] puh_of_word_def n unfolding h by (simp only: d(1))
  show "puh_word h < 2 ^ 32" unfolding v_def [symmetric] using b by (simp add: v)
qed

lemma get_puh_bytes:
  assumes "puh_ok h" "take 4 (drop p buf) = puh_bytes h"
  shows "get_puh buf p = Some h"
proof -
  have l: "p + 4 \<le> length buf" using arg_cong [OF assms(2), of length] by simp
  define v where "v = puh_word h"
  have b: "buf ! (p + i) = puh_bytes h ! i" if "i < 4" for i
    using arg_cong [OF assms(2), of "\<lambda>xs. xs ! i"] that l by simp
  have u: "unat (of_nat (n mod 256) :: u8) = n mod 256" for n by (simp add: unat_of_nat)
  have w: "v mod 256 + 256 * (v div 256 mod 256) + 65536 * (v div 65536 mod 256) + 16777216 * (v div 16777216 mod 256) = v"
  proof -
    have "v < 16777216 * 256" using puh_word_fields(2) [OF assms(1)] by (simp add: v_def)
    then have "v div 16777216 < 256" by (simp add: less_mult_imp_div_less mult.commute)
    then have "v div 16777216 mod 256 = v div 16777216" by simp
    moreover have "v div 65536 = v div 256 div 256" "v div 16777216 = v div 256 div 256 div 256"
      by (simp_all flip: div_mult2_eq)
    moreover have "k mod 256 + 256 * (k div 256) = k" for k :: nat by simp
    from this [of v] this [of "v div 256"] this [of "v div 256 div 256"]
    have "v mod 256 + 256 * (v div 256 mod 256) + 65536 * (v div 256 div 256 mod 256) + 16777216 * (v div 256 div 256 div 256) = v"
      by linarith
    ultimately show ?thesis by simp
  qed
  have e: "unat (buf ! p) = v mod 256" "unat (buf ! (p + 1)) = v div 256 mod 256"
    "unat (buf ! (p + 2)) = v div 65536 mod 256" "unat (buf ! (p + 3)) = v div 16777216 mod 256"
    using b [of 0] b [of 1] b [of 2] b [of 3] by (simp_all add: puh_bytes_def Let_def v_def [symmetric] unat_of_nat)
  have "get_puh buf p = Some (puh_of_word (unat (buf ! p) + 256 * unat (buf ! (p + 1)) + 65536 * unat (buf ! (p + 2)) +
    16777216 * unat (buf ! (p + 3))))" using l by (simp add: get_puh_def)
  then show ?thesis unfolding e w using puh_word_fields(1) [OF assms(1)] by (simp add: v_def)
qed

lemma get_puh_ok: "get_puh buf p = Some h \<Longrightarrow> puh_ok h \<and> p + 4 \<le> length buf"
  by (auto simp: get_puh_def puh_of_word_def puh_ok_def aget_eq_Some_iff split: bind_splits)

lemma get_puh_total: "p + 4 \<le> length buf \<Longrightarrow> \<exists>h. get_puh buf p = Some h"
  by (simp add: get_puh_def)

section \<open>Frames in a buffer\<close>

text \<open>
  The layout that the other side expects: packets one behind the other, padded to words, with a mark at the
  end. \<open>laid\<close> says where the bytes of the packets are.
\<close>

definition fsize :: "mbuf_t \<Rightarrow> nat" where
  "fsize m = SDIO_PUB_HEADER_SIZE + SDIOHAL_ALIGN_4BYTE (mb_len m)"

definition total_size :: "mbuf_t list \<Rightarrow> nat" where
  "total_size ms = sum_list (map fsize ms)"

definition fits :: "mbuf_t \<Rightarrow> bool" where
  "fits m \<longleftrightarrow> mb_len m + SDIO_PUB_HEADER_SIZE \<le> length (mb_buf m)"

fun laid :: "u8 list \<Rightarrow> nat \<Rightarrow> mbuf_t list \<Rightarrow> bool" where
  "laid buf off [] = True"
| "laid buf off (m # ms) =
     (take (mb_len m + SDIO_PUB_HEADER_SIZE) (drop off buf) = take (mb_len m + SDIO_PUB_HEADER_SIZE) (mb_buf m) \<and>
      laid buf (off + fsize m) ms)"

definition frames_of :: "u8 list \<Rightarrow> mbuf_t list \<Rightarrow> bool" where
  "frames_of w ms \<longleftrightarrow> laid w 0 ms \<and> take SDIO_PUB_HEADER_SIZE (drop (total_size ms) w) = eof_buf"

lemma total_size_simps [simp]:
  "total_size [] = 0" "total_size (m # ms) = fsize m + total_size ms" "total_size (ms @ ns) = total_size ms + total_size ns"
  by (simp_all add: total_size_def)

lemma length_eof_buf [simp]: "length eof_buf = SDIO_PUB_HEADER_SIZE"
  by (simp add: eof_buf_def SDIO_PUB_HEADER_SIZE_def)

lemma fsize_ge: "mb_len m + SDIO_PUB_HEADER_SIZE \<le> fsize m"
  by (simp add: fsize_def SDIOHAL_ALIGN_4BYTE_def)

lemma laid_append: "laid buf off (ms @ ns) \<longleftrightarrow> laid buf off ms \<and> laid buf (off + total_size ms) ns"
  by (induction ms arbitrary: off) (simp_all add: add.assoc)

lemma take_drop_prefix: "take k b = take k b' \<Longrightarrow> off + n \<le> k \<Longrightarrow> take n (drop off b) = take n (drop off b')"
  by (metis add.commute min.absorb1 take_drop take_take)

lemma laid_prefix: "take k b = take k b' \<Longrightarrow> off + total_size ms \<le> k \<Longrightarrow> laid b off ms \<Longrightarrow> laid b' off ms"
proof (induction ms arbitrary: off)
  case (Cons m ms)
  have "take (mb_len m + SDIO_PUB_HEADER_SIZE) (drop off b) = take (mb_len m + SDIO_PUB_HEADER_SIZE) (drop off b')"
    by (rule take_drop_prefix [OF Cons.prems(1)]) (use Cons.prems(2) fsize_ge [of m] in simp)
  with Cons show ?case by (simp add: add.assoc)
qed simp

lemma memcpy_at_bytes:
  assumes "memcpy_at dst off src = Some d"
  shows "take off d = take off dst" "take (length src) (drop off d) = src" "length d = length dst" "off + length src \<le> length dst"
  using assms by (auto simp: memcpy_at_eq_Some_iff)

section \<open>Filling and sending\<close>

definition tx_buf_ok :: "mbuf_t list \<Rightarrow> sdio_tx \<Rightarrow> bool" where
  "tx_buf_ok pre s \<longleftrightarrow> length (send_buf s) = SDIOHAL_TX_SENDBUF_LEN \<and> laid (send_buf s) 0 pre \<and> used_len s = total_size pre"

lemma packer_lays:
  assumes "sdiohal_tx_packer m s = Some s'" "tx_buf_ok pre s"
  shows "tx_buf_ok (pre @ [m]) s'" "\<exists>b. s' = s\<lparr>send_buf := b, used_len := used_len s + fsize m\<rparr>"
proof -
  from assms(1) obtain bytes b where r: "read_bytes (mb_buf m) 0 (mb_len m + SDIO_PUB_HEADER_SIZE) = Some bytes"
    and w: "memcpy_at (send_buf s) (used_len s) bytes = Some b" and s': "s' = s\<lparr>send_buf := b, used_len := used_len s + fsize m\<rparr>"
    by (auto simp: sdiohal_tx_packer_def fsize_def split: bind_splits)
  from r have y: "bytes = take (mb_len m + SDIO_PUB_HEADER_SIZE) (mb_buf m)" "length bytes = mb_len m + SDIO_PUB_HEADER_SIZE"
    by (auto simp: read_bytes_eq_Some_iff)
  note m = memcpy_at_bytes [OF w]
  have "laid b 0 pre" using laid_prefix [OF m(1) [symmetric], of 0 pre] assms(2) by (simp add: tx_buf_ok_def)
  then show "tx_buf_ok (pre @ [m]) s'"
    using m(2,3) assms(2) y unfolding s' tx_buf_ok_def laid_append by simp
  show "\<exists>b. s' = s\<lparr>send_buf := b, used_len := used_len s + fsize m\<rparr>" using s' by blast
qed

lemma align_blk_ge: "a \<le> SDIOHAL_ALIGN_BLK a"
  by (simp add: SDIOHAL_ALIGN_BLK_def)

lemma send_frames:
  assumes "sdiohal_tx_set_eof s = Some s'" "sdiohal_send bus s' = Some (w, ret)" "tx_buf_ok pre s"
  shows "frames_of w pre" "ret = 0" "\<exists>b. s' = s\<lparr>send_buf := b, used_len := used_len s + SDIO_PUB_HEADER_SIZE\<rparr> \<and> length b = SDIOHAL_TX_SENDBUF_LEN"
proof -
  from assms(1) obtain b where w: "memcpy_at (send_buf s) (used_len s) eof_buf = Some b"
    and s': "s' = s\<lparr>send_buf := b, used_len := used_len s + SDIO_PUB_HEADER_SIZE\<rparr>"
    by (auto simp: sdiohal_tx_set_eof_def split: bind_splits)
  note m = memcpy_at_bytes [OF w]
  let ?n = "total_size pre"
  have u: "used_len s = ?n" using assms(3) by (simp add: tx_buf_ok_def)
  from assms(2) s' u have y: "w = take (SDIOHAL_ALIGN_BLK (?n + SDIO_PUB_HEADER_SIZE)) b" and "ret = 0"
    by (auto simp: sdiohal_send_def sdiohal_send_try_def read_bytes_eq_Some_iff split: bind_splits)
  have k: "take (?n + SDIO_PUB_HEADER_SIZE) w = take (?n + SDIO_PUB_HEADER_SIZE) b"
    using align_blk_ge [of "?n + SDIO_PUB_HEADER_SIZE"] by (simp add: y min_def)
  have "laid b 0 pre" using laid_prefix [OF m(1) [symmetric], of 0 pre] assms(3) by (simp add: tx_buf_ok_def)
  then have "laid w 0 pre" by (rule laid_prefix [OF k [symmetric], rotated]) simp
  moreover have "take SDIO_PUB_HEADER_SIZE (drop ?n w) = take SDIO_PUB_HEADER_SIZE (drop ?n b)" by (rule take_drop_prefix [OF k]) simp
  ultimately show "frames_of w pre" using m(2) u by (simp add: frames_of_def)
  show "ret = 0" by fact
  show "\<exists>b. s' = s\<lparr>send_buf := b, used_len := used_len s + SDIO_PUB_HEADER_SIZE\<rparr> \<and> length b = SDIOHAL_TX_SENDBUF_LEN"
    using s' m(3) assms(3) by (auto simp: tx_buf_ok_def)
qed

text \<open>Everything but the buffer stays.\<close>

definition same_lists :: "sdio_tx \<Rightarrow> sdio_tx \<Rightarrow> bool" where
  "same_lists s s' \<longleftrightarrow> tx_list s' = tx_list s \<and> tx_node_num s' = tx_node_num s \<and> tx_mbuf_num s' = tx_mbuf_num s \<and> list_tx s' = list_tx s"

lemma same_lists_trans: "same_lists s s' \<Longrightarrow> same_lists s' s'' \<Longrightarrow> same_lists s s''"
  by (auto simp: same_lists_def)

lemma send_loop_frames:
  assumes "tx_send_loop bus ms s = Some (s', ws)" "tx_buf_ok pre s"
  shows "\<exists>gs last. list_all2 frames_of ws gs \<and> concat gs @ last = pre @ ms \<and> tx_buf_ok last s' \<and> same_lists s s'"
  using assms
proof (induction ms arbitrary: s pre ws)
  case Nil
  then show ?case by (intro exI [of _ "[]"] exI [of _ pre] conjI) (simp_all add: same_lists_def)
next
  case (Cons m ms)
  show ?case
  proof (cases "tx_room m s")
    case True
    with Cons.prems(1) obtain s1 where p: "sdiohal_tx_packer m s = Some s1" and l: "tx_send_loop bus ms s1 = Some (s', ws)"
      by (auto split: bind_splits)
    note q = packer_lays [OF p Cons.prems(2)]
    from Cons.IH [OF l q(1)] obtain gs last where "list_all2 frames_of ws gs" "concat gs @ last = (pre @ [m]) @ ms"
      "tx_buf_ok last s'" "same_lists s1 s'" by blast
    with q(2) show ?thesis by (intro exI [of _ gs] exI [of _ last]) (auto simp: same_lists_def)
  next
    case False
    with Cons.prems(1) obtain s1 w r s2 ws1 where e: "sdiohal_tx_set_eof s = Some s1" and w: "sdiohal_send bus s1 = Some (w, r)"
      and p: "sdiohal_tx_packer m (s1\<lparr>used_len := 0\<rparr>) = Some s2" and l: "tx_send_loop bus ms s2 = Some (s', ws1)" and ws: "ws = w # ws1"
      by (auto split: bind_splits)
    note f = send_frames [OF e w Cons.prems(2)]
    have "tx_buf_ok [] (s1\<lparr>used_len := 0\<rparr>)" using f(3) by (auto simp: tx_buf_ok_def)
    note q = packer_lays [OF p this]
    from Cons.IH [OF l q(1)] obtain gs last where *: "list_all2 frames_of ws1 gs" "concat gs @ last = [m] @ ms"
      "tx_buf_ok last s'" "same_lists s2 s'" by auto
    have "same_lists s s'"
      using f(3) q(2) *(4) by (auto simp: same_lists_def)
    with * f(1) show ?thesis by (intro exI [of _ "pre # gs"] exI [of _ last]) (auto simp: ws)
  qed
qed

lemma send_loop_total:
  assumes "\<forall>m \<in> set ms. fits m" "tx_buf_ok pre s" "total_size (pre @ ms) \<le> SDIOHAL_TX_SENDBUF_LEN"
  shows "\<exists>s'. tx_send_loop bus ms s = Some (s', []) \<and> tx_buf_ok (pre @ ms) s' \<and> same_lists s s'"
  using assms
proof (induction ms arbitrary: s pre)
  case Nil
  then show ?case by (simp add: same_lists_def)
next
  case (Cons m ms)
  have room: "tx_room m s" using Cons.prems by (simp add: tx_room_def tx_buf_ok_def fsize_def)
  have "fits m" "used_len s + fsize m \<le> length (send_buf s)" using Cons.prems by (simp_all add: tx_buf_ok_def)
  then obtain s1 where p: "sdiohal_tx_packer m s = Some s1"
    using fsize_ge [of m] by (auto simp: sdiohal_tx_packer_def read_bytes_def fits_def memcpy_at_def)
  note q = packer_lays [OF p Cons.prems(2)]
  have "total_size ((pre @ [m]) @ ms) \<le> SDIOHAL_TX_SENDBUF_LEN" using Cons.prems(3) by simp
  from Cons.IH [OF _ q(1) this] Cons.prems(1) obtain s' where "tx_send_loop bus ms s1 = Some (s', [])"
    "tx_buf_ok ((pre @ [m]) @ ms) s'" "same_lists s1 s'" by auto
  moreover have "same_lists s s1" using q(2) by (auto simp: same_lists_def)
  ultimately show ?case using room p by (auto intro: same_lists_trans)
qed

section \<open>Buffers on their way back\<close>

definition chan_of :: "mbuf_t \<Rightarrow> nat" where
  "chan_of m = (case get_puh (mb_buf m) 0 of Some h \<Rightarrow> puh_subtype h | None \<Rightarrow> 0)"

definition chan_nodes :: "tx_chan \<Rightarrow> mbuf_t list" where
  "chan_nodes c = (if tc_num c = 0 then [] else tc_nodes c)"

definition chan_ok :: "nat \<Rightarrow> tx_chan \<Rightarrow> bool" where
  "chan_ok i c \<longleftrightarrow> tc_num c = length (chan_nodes c) \<and> (tc_num c \<noteq> 0 \<longrightarrow> tc_subtype c = i)"

definition chans_ok :: "nat \<Rightarrow> tx_chan list \<Rightarrow> bool" where
  "chans_ok k cs \<longleftrightarrow> (\<forall>i < length cs. chan_ok (k + i) (cs ! i))"

definition pops_of :: "nat \<Rightarrow> (nat \<times> mbuf_t list \<times> nat) list \<Rightarrow> mbuf_t list" where
  "pops_of i pops = concat (map (\<lambda>(c, ns, n). if c = i then ns else []) pops)"

lemma pops_of_simps [simp]:
  "pops_of i [] = []" "pops_of i ((c, ns, n) # ps) = (if c = i then ns else []) @ pops_of i ps"
  "pops_of i (ps @ qs) = pops_of i ps @ pops_of i qs"
  by (simp_all add: pops_of_def)

definition sendable :: "mbuf_t \<Rightarrow> bool" where
  "sendable m \<longleftrightarrow> fits m \<and> fsize m < MAX_MBUF_SIZE \<and> chan_of m < SDIO_CHN_TX_NUM"

lemma fits_header: "fits m \<Longrightarrow> \<exists>h. get_puh (mb_buf m) 0 = Some h"
  by (rule get_puh_total) (simp add: fits_def SDIO_PUB_HEADER_SIZE_def)

lemma append_nodes:
  assumes "chan_ok i c" "puh_subtype h = i"
  shows "chan_ok i (tx_chan_append h m c)" "chan_nodes (tx_chan_append h m c) = chan_nodes c @ [m]"
  using assms by (auto simp: chan_ok_def chan_nodes_def tx_chan_append_def)

lemma assignment_nodes:
  assumes "\<forall>m \<in> set nodes. sendable m" "chans_ok 0 cs" "length cs = SDIO_CHN_TX_NUM"
  shows "\<exists>cs'. sdiohal_tx_pop_assignment nodes (length nodes) cs = Some (cs', 0) \<and> chans_ok 0 cs' \<and> length cs' = SDIO_CHN_TX_NUM \<and>
    (\<forall>i < SDIO_CHN_TX_NUM. chan_nodes (cs' ! i) = chan_nodes (cs ! i) @ filter (\<lambda>m. chan_of m = i) nodes)"
  using assms
proof (induction nodes arbitrary: cs)
  case (Cons m nodes)
  then have m: "sendable m" by simp
  then obtain h where h: "get_puh (mb_buf m) 0 = Some h" using fits_header by (auto simp: sendable_def)
  let ?i = "puh_subtype h"
  have i: "chan_of m = ?i" "?i < SDIO_CHN_TX_NUM" "?i < length cs" using m h Cons.prems(3) by (simp_all add: sendable_def chan_of_def)
  let ?cs = "cs[?i := tx_chan_append h m (cs ! ?i)]"
  have "chan_ok ?i (cs ! ?i)" using Cons.prems(2) i(3) by (auto simp: chans_ok_def)
  note a = append_nodes [OF this refl, of m]
  have "chans_ok 0 ?cs" using Cons.prems(2) a(1) i(3) by (simp add: chans_ok_def nth_list_update)
  from Cons.IH [OF _ this] Cons.prems(1,3) obtain cs' where
    "sdiohal_tx_pop_assignment nodes (length nodes) ?cs = Some (cs', 0)" "chans_ok 0 cs'" "length cs' = SDIO_CHN_TX_NUM"
    "\<forall>i < SDIO_CHN_TX_NUM. chan_nodes (cs' ! i) = chan_nodes (?cs ! i) @ filter (\<lambda>m. chan_of m = i) nodes" by auto
  moreover have "sdiohal_tx_pop_assignment (m # nodes) (length (m # nodes)) cs = sdiohal_tx_pop_assignment nodes (length nodes) ?cs"
    using h i by (simp add: sdiohal_hwtype_to_channel_def Let_def)
  moreover have "chan_nodes (?cs ! j) = chan_nodes (cs ! j) @ (if chan_of m = j then [m] else [])" if "j < SDIO_CHN_TX_NUM" for j
    using that a(2) i by (auto simp: nth_list_update)
  ultimately show ?case by (intro exI [of _ cs']) simp
qed simp

lemma chans_ok_Cons: "chans_ok k (c # cs) \<longleftrightarrow> chan_ok k c \<and> chans_ok (Suc k) cs"
  unfolding chans_ok_def by (auto simp: less_Suc_eq_0_disj)

text \<open>The walk empties every list but the last of the ring.\<close>

lemma pop_walk_spec:
  assumes "chans_ok k cs" "k + length cs \<le> SDIO_CHN_TX_NUM" "cs \<noteq> []"
  shows "length (fst (tx_pop_walk cb cs)) = length cs \<and> chans_ok k (fst (tx_pop_walk cb cs)) \<and>
    (\<forall>i < length cs. chan_nodes (fst (tx_pop_walk cb cs) ! i) = (if Suc i = length cs then chan_nodes (cs ! i) else [])) \<and>
    (\<forall>i. pops_of i (snd (tx_pop_walk cb cs)) = (if k \<le> i \<and> i + 1 < k + length cs \<and> cb i then chan_nodes (cs ! (i - k)) else []))"
  using assms
proof (induction cb cs arbitrary: k rule: tx_pop_walk.induct)
  case (2 cb c)
  then show ?case by auto
next
  case (3 cb c d cs)
  obtain cs' pops where w: "tx_pop_walk cb (d # cs) = (cs', pops)" by fastforce
  from 3(2) have c: "chan_ok k c" and "chans_ok (Suc k) (d # cs)" by (simp_all only: chans_ok_Cons)
  from 3(1) [OF this(2)] 3(3) w have IH: "length cs' = Suc (length cs)" "chans_ok (Suc k) cs'"
    "\<forall>i < Suc (length cs). chan_nodes (cs' ! i) = (if i = length cs then chan_nodes ((d # cs) ! i) else [])"
    "\<forall>i. pops_of i pops = (if Suc k \<le> i \<and> i < k + Suc (length cs) \<and> cb i then chan_nodes ((d # cs) ! (i - Suc k)) else [])"
    by auto
  let ?c = "if tc_num c = 0 then c else c\<lparr>tc_num := 0\<rparr>"
  let ?ps = "if tc_num c = 0 \<or> \<not> cb k then [] else [(k, tc_nodes c, tc_num c)]"
  have r: "tx_pop_walk cb (c # d # cs) = (?c # cs', ?ps @ pops)"
    using c 3(3) by (auto simp: w sdiohal_hwtype_to_channel_def chan_ok_def)
  have q: "chan_nodes ?c = []" "chan_ok k ?c" using c by (auto simp: chan_nodes_def chan_ok_def)
  have p: "pops_of i ?ps = (if i = k \<and> cb k then chan_nodes c else [])" for i by (simp add: chan_nodes_def)
  have "chans_ok k (?c # cs')" using q(2) IH(2) unfolding chans_ok_Cons by blast
  moreover have "\<forall>i < length (c # d # cs). chan_nodes ((?c # cs') ! i) = (if Suc i = length (c # d # cs) then chan_nodes ((c # d # cs) ! i) else [])"
  proof (intro allI impI)
    fix i assume "i < length (c # d # cs)"
    then show "chan_nodes ((?c # cs') ! i) = (if Suc i = length (c # d # cs) then chan_nodes ((c # d # cs) ! i) else [])"
      using q(1) IH(3) by (cases i) simp_all
  qed
  moreover have "pops_of i (?ps @ pops) = (if k \<le> i \<and> i + 1 < k + length (c # d # cs) \<and> cb i then chan_nodes ((c # d # cs) ! (i - k)) else [])" for i
  proof (cases "i = k")
    case False
    then have "(c # d # cs) ! (i - k) = (d # cs) ! (i - Suc k)" if "k \<le> i" using that by (simp add: nth_Cons')
    then show ?thesis using p IH(4) False by simp
  qed (simp add: p IH(4))
  ultimately show ?case unfolding r using IH(1) by simp
qed simp

section \<open>Queueing\<close>

text \<open>What a push writes into the header of a buffer for channel \<open>ch\<close>.\<close>

definition stamp :: "nat \<Rightarrow> mbuf_t \<Rightarrow> mbuf_t" where
  "stamp ch m = (case get_puh (mb_buf m) 0 of
     Some h \<Rightarrow> m\<lparr>mb_buf := puh_bytes (h\<lparr>puh_type := 0, puh_subtype := ch, puh_len := mb_len m, puh_eof := 0, puh_pad := 0\<rparr>) @
                 drop SDIO_PUB_HEADER_SIZE (mb_buf m)\<rparr>
   | None \<Rightarrow> m)"

definition pushable :: "mbuf_t \<Rightarrow> bool" where
  "pushable m \<longleftrightarrow> fits m \<and> fsize m < MAX_MBUF_SIZE"

lemma pushable_len: "pushable m \<Longrightarrow> mb_len m < 2 ^ 16"
  using fsize_ge [of m] by (simp add: pushable_def MAX_MBUF_SIZE_def)

lemma stamp_header:
  assumes "pushable m" "ch < SDIO_CHN_TX_NUM"
  obtains h where "get_puh (mb_buf m) 0 = Some h"
    "get_puh (mb_buf (stamp ch m)) 0 = Some (h\<lparr>puh_type := 0, puh_subtype := ch, puh_len := mb_len m, puh_eof := 0, puh_pad := 0\<rparr>)"
    "mb_len (stamp ch m) = mb_len m" "length (mb_buf (stamp ch m)) = length (mb_buf m)"
proof -
  from assms(1) obtain h where h: "get_puh (mb_buf m) 0 = Some h" using fits_header by (auto simp: pushable_def)
  let ?h = "h\<lparr>puh_type := 0, puh_subtype := ch, puh_len := mb_len m, puh_eof := 0, puh_pad := 0\<rparr>"
  have "puh_ok ?h" using get_puh_ok [OF h] pushable_len [OF assms(1)] assms(2) by (simp add: puh_ok_def SDIO_CHN_TX_NUM_def)
  moreover have "take 4 (drop 0 (mb_buf (stamp ch m))) = puh_bytes ?h" by (simp add: stamp_def h)
  ultimately have "get_puh (mb_buf (stamp ch m)) 0 = Some ?h" by (rule get_puh_bytes)
  moreover have "length (mb_buf (stamp ch m)) = length (mb_buf m)" "mb_len (stamp ch m) = mb_len m"
    using get_puh_ok [OF h] by (simp_all add: stamp_def h SDIO_PUB_HEADER_SIZE_def)
  ultimately show ?thesis using that h by blast
qed

lemma stamp_sendable:
  assumes "pushable m" "ch < SDIO_CHN_TX_NUM"
  shows "sendable (stamp ch m)" "chan_of (stamp ch m) = ch"
  by (rule stamp_header [OF assms]; use assms in \<open>simp add: sendable_def pushable_def fits_def fsize_def chan_of_def\<close>)+

lemma fill_stamps:
  assumes "\<forall>m \<in> set chain. pushable m" "ch < SDIO_CHN_TX_NUM"
  shows "sdiohal_tx_fill_puh ch chain (length chain) = Some (map (stamp ch) chain, 0)"
  using assms(1)
proof (induction chain)
  case (Cons m chain)
  then have m: "pushable m" by simp
  obtain h where h: "get_puh (mb_buf m) 0 = Some h" using stamp_header [OF m assms(2)] .
  have "0 + 4 \<le> length (mb_buf m)" using get_puh_ok [OF h] by simp
  then have "put_puh (mb_buf m) 0 (h\<lparr>puh_type := 0, puh_subtype := ch, puh_len := mb_len m, puh_eof := 0, puh_pad := 0\<rparr>) =
    Some (mb_buf (stamp ch m))"
    by (simp add: put_puh_def memcpy_at_def stamp_def h SDIO_PUB_HEADER_SIZE_def)
  moreover have "m\<lparr>mb_buf := mb_buf (stamp ch m)\<rparr> = stamp ch m" by (simp add: stamp_def h)
  ultimately show ?case using Cons h pushable_len [OF m] assms(2)
    by (simp add: sdiohal_channel_to_hwtype_def SDIO_CHN_TX_NUM_def)
qed simp

section \<open>The transmit thread\<close>

text \<open>Clients push chains on the channels for sending, the thread makes its rounds; the result of the bus is any.\<close>

datatype tx_op = Push nat "mbuf_t list" | Round int

fun tx_op_ok :: "tx_op \<Rightarrow> bool" where
  "tx_op_ok (Push ch chain) \<longleftrightarrow> ch < SDIO_CHN_TX_NUM \<and> chain \<noteq> [] \<and> list_all pushable chain"
| "tx_op_ok (Round bus) \<longleftrightarrow> True"

fun tx_step :: "(nat \<Rightarrow> bool) \<Rightarrow> tx_op \<Rightarrow> sdio_tx \<Rightarrow> (sdio_tx \<times> u8 list list \<times> (nat \<times> mbuf_t list \<times> nat) list) option" where
  "tx_step cb (Push ch chain) s =
     do { (s, ret) \<leftarrow> sdiohal_list_push_tx True False True ch chain (int (length chain)) s; Some (s, [], []) }"
| "tx_step cb (Round bus) s = tx_thread_round bus cb s"

fun tx_run :: "(nat \<Rightarrow> bool) \<Rightarrow> tx_op list \<Rightarrow> sdio_tx \<Rightarrow> (sdio_tx \<times> u8 list list \<times> (nat \<times> mbuf_t list \<times> nat) list) option" where
  "tx_run cb [] s = Some (s, [], [])"
| "tx_run cb (x # xs) s = do {
     (s, ws, ps) \<leftarrow> tx_step cb x s; (s, ws', ps') \<leftarrow> tx_run cb xs s; Some (s, ws @ ws', ps @ ps') }"

fun pushed :: "tx_op list \<Rightarrow> mbuf_t list" where
  "pushed [] = []"
| "pushed (Push ch chain # xs) = map (stamp ch) chain @ pushed xs"
| "pushed (Round bus # xs) = pushed xs"

definition tx_inv :: "sdio_tx \<Rightarrow> bool" where
  "tx_inv s \<longleftrightarrow> tx_node_num s = length (tx_list s) \<and> tx_mbuf_num s = int (length (tx_list s)) \<and>
     (\<forall>m \<in> set (tx_list s). sendable m) \<and> tx_buf_ok [] s \<and> length (list_tx s) = SDIO_CHN_TX_NUM \<and> chans_ok 0 (list_tx s) \<and>
     (\<forall>i < SDIO_CHN_TX_NUM - 1. chan_nodes (list_tx s ! i) = [])"

lemma tx_inv_init: "tx_inv sdio_tx_init"
  by (simp add: tx_inv_def sdio_tx_init_def tx_buf_ok_def chans_ok_def chan_ok_def chan_nodes_def)

lemma push_appends:
  assumes "tx_inv s" "tx_op_ok (Push ch chain)"
  shows "\<exists>s'. tx_step cb (Push ch chain) s = Some (s', [], []) \<and> tx_inv s' \<and> tx_list s' = tx_list s @ map (stamp ch) chain \<and>
    list_tx s' = list_tx s"
proof -
  from assms(2) have c: "ch < SDIO_CHN_TX_NUM" "chain \<noteq> []" "\<forall>m \<in> set chain. pushable m" by (simp_all add: list_all_iff)
  let ?s = "s\<lparr>tx_list := tx_list s @ map (stamp ch) chain, tx_node_num := tx_node_num s + length chain,
    tx_mbuf_num := tx_mbuf_num s + int (length chain)\<rparr>"
  have "list_push_check True False (int ch) (length chain) (int (length chain)) = Some 0"
    using c(1,2) by (simp add: list_push_check_def sdiohal_mbuf_list_check_def SDIO_CHANNEL_NUM_def)
  moreover have "sdiohal_tx_list_enq ch chain (length chain) s = Some ?s"
    using assms(1) fill_stamps [OF c(3,1)] by (simp add: sdiohal_tx_list_enq_def tx_inv_def)
  ultimately have "tx_step cb (Push ch chain) s = Some (?s, [], [])" by (simp add: sdiohal_list_push_tx_def)
  moreover have "tx_inv ?s" using assms(1) c stamp_sendable by (auto simp: tx_inv_def tx_buf_ok_def)
  ultimately show ?thesis by (intro exI [of _ ?s]) simp
qed

lemma total_size_bound: "\<forall>m \<in> set ms. sendable m \<Longrightarrow> total_size ms \<le> length ms * (MAX_MBUF_SIZE - 4)"
proof (induction ms)
  case (Cons m ms)
  have "fsize m < MAX_MBUF_SIZE" using Cons.prems by (simp add: sendable_def)
  moreover have "fsize m mod 4 = 0" by (simp add: fsize_def SDIO_PUB_HEADER_SIZE_def SDIOHAL_ALIGN_4BYTE_def)
  ultimately have "fsize m \<le> MAX_MBUF_SIZE - 4" by (simp add: MAX_MBUF_SIZE_def) presburger
  with Cons show ?case by simp
qed simp

text \<open>A list of at most 100 buffers is sent in one write, and handed back.\<close>

lemma data_list_send_one:
  assumes "\<forall>m \<in> set nodes. sendable m" "length nodes \<le> MAX_CHAIN_NODE_NUM" "tx_inv s"
  shows "\<exists>s' w pops. sdiohal_tx_data_list_send bus cb True nodes (length nodes) s = Some (s', 0, [w], pops) \<and>
    frames_of w nodes \<and> tx_inv s' \<and> tx_list s' = tx_list s \<and>
    (\<forall>i < SDIO_CHN_TX_NUM - 1. cb i \<longrightarrow> pops_of i pops = filter (\<lambda>m. chan_of m = i) nodes) \<and> pops_of (SDIO_CHN_TX_NUM - 1) pops = [] \<and>
    chan_nodes (list_tx s' ! (SDIO_CHN_TX_NUM - 1)) =
      chan_nodes (list_tx s ! (SDIO_CHN_TX_NUM - 1)) @ filter (\<lambda>m. chan_of m = SDIO_CHN_TX_NUM - 1) nodes"
proof -
  let ?l = "SDIO_CHN_TX_NUM - 1"
  have L: "?l < SDIO_CHN_TX_NUM" "Suc ?l = SDIO_CHN_TX_NUM" by (simp_all add: SDIO_CHN_TX_NUM_def)
  have "total_size nodes \<le> length nodes * (MAX_MBUF_SIZE - 4)" by (rule total_size_bound [OF assms(1)])
  also have "\<dots> \<le> MAX_CHAIN_NODE_NUM * (MAX_MBUF_SIZE - 4)" using assms(2) by (rule mult_right_mono) simp
  finally have t: "total_size nodes + SDIO_PUB_HEADER_SIZE \<le> SDIOHAL_TX_SENDBUF_LEN"
    by (simp add: MAX_CHAIN_NODE_NUM_def MAX_MBUF_SIZE_def SDIOHAL_TX_SENDBUF_LEN_def SDIO_PUB_HEADER_SIZE_def)
  have b: "tx_buf_ok [] s" and cs: "chans_ok 0 (list_tx s)" "length (list_tx s) = SDIO_CHN_TX_NUM"
    "\<forall>i < ?l. chan_nodes (list_tx s ! i) = []" using assms(3) by (simp_all add: tx_inv_def)
  from send_loop_total [OF _ b, of nodes bus] assms(1) t obtain s1 where l: "tx_send_loop bus nodes s = Some (s1, [])"
    "tx_buf_ok nodes s1" "same_lists s s1" by (auto simp: sendable_def)
  obtain s2 where e: "sdiohal_tx_set_eof s1 = Some s2"
    using l(2) t by (auto simp: sdiohal_tx_set_eof_def tx_buf_ok_def memcpy_at_def)
  from memcpy_at_bytes e l(2) obtain d where s2: "s2 = s1\<lparr>send_buf := d, used_len := total_size nodes + SDIO_PUB_HEADER_SIZE\<rparr>"
    "length d = SDIOHAL_TX_SENDBUF_LEN"
    by (auto simp: sdiohal_tx_set_eof_def tx_buf_ok_def memcpy_at_eq_Some_iff split: bind_splits)
  from assignment_nodes [OF assms(1) cs(1,2)] obtain cs1 where
    a: "sdiohal_tx_pop_assignment nodes (length nodes) (list_tx s) = Some (cs1, 0)" "chans_ok 0 cs1" "length cs1 = SDIO_CHN_TX_NUM"
      "\<forall>i < SDIO_CHN_TX_NUM. chan_nodes (cs1 ! i) = chan_nodes (list_tx s ! i) @ filter (\<lambda>m. chan_of m = i) nodes" by blast
  obtain cs2 pops where w: "tx_pop_walk cb cs1 = (cs2, pops)" by fastforce
  have "cs1 \<noteq> []" using a(3) by (auto simp: SDIO_CHN_TX_NUM_def)
  with pop_walk_spec [OF a(2), of cb] w a(3) have p: "length cs2 = SDIO_CHN_TX_NUM" "chans_ok 0 cs2"
    "\<forall>i < SDIO_CHN_TX_NUM. chan_nodes (cs2 ! i) = (if Suc i = SDIO_CHN_TX_NUM then chan_nodes (cs1 ! i) else [])"
    "\<forall>i. pops_of i pops = (if i + 1 < SDIO_CHN_TX_NUM \<and> cb i then chan_nodes (cs1 ! i) else [])" by auto
  let ?s3 = "s2\<lparr>list_tx := cs2\<rparr>"
  have lt: "list_tx s2 = list_tx s" using l(3) s2(1) by (simp add: same_lists_def)
  have d: "sdiohal_tx_list_denq cb nodes (length nodes) s2 = Some (?s3, pops)" by (simp add: sdiohal_tx_list_denq_def lt a(1) w)
  have "SDIOHAL_ALIGN_BLK (total_size nodes + SDIO_PUB_HEADER_SIZE) \<le> SDIOHAL_TX_SENDBUF_LEN"
  proof -
    have "(total_size nodes + SDIO_PUB_HEADER_SIZE + 511) div 512 \<le> (204800 + 511) div 512"
      using t by (intro div_le_mono) (simp add: SDIOHAL_TX_SENDBUF_LEN_def MAX_CHAIN_NODE_NUM_def MAX_MBUF_SIZE_def)
    then show ?thesis by (simp add: SDIOHAL_ALIGN_BLK_def SDIOHAL_TX_SENDBUF_LEN_def MAX_CHAIN_NODE_NUM_def MAX_MBUF_SIZE_def)
  qed
  then obtain wr where s: "sdiohal_send bus s2 = Some (wr, 0)"
    using s2 by (auto simp: sdiohal_send_def read_bytes_def sdiohal_send_try_def)
  have s3: "sdiohal_send bus ?s3 = sdiohal_send bus s2" by (simp add: sdiohal_send_def)
  have f: "frames_of wr nodes" by (rule send_frames(1) [OF e s l(2)])
  let ?s' = "?s3\<lparr>used_len := 0\<rparr>"
  have "sdiohal_tx_data_list_send bus cb True nodes (length nodes) s = Some (?s', 0, [wr], pops)"
    by (simp add: sdiohal_tx_data_list_send_def l(1) e d s3 s)
  moreover have "tx_inv ?s'"
    using assms(3) p(1,2) p(3) l(3) s2 unfolding tx_inv_def by (auto simp: same_lists_def tx_buf_ok_def)
  moreover have "tx_list ?s' = tx_list s" using l(3) s2(1) by (simp add: same_lists_def)
  moreover have "pops_of i pops = filter (\<lambda>m. chan_of m = i) nodes" if "i < ?l" "cb i" for i
  proof -
    have "Suc i < SDIO_CHN_TX_NUM" using that(1) L by simp
    then show ?thesis using p(4) a(4) cs(3) that by simp
  qed
  moreover have "pops_of ?l pops = []" using p(4) L by simp
  moreover have "chan_nodes (list_tx ?s' ! ?l) = chan_nodes (list_tx s ! ?l) @ filter (\<lambda>m. chan_of m = ?l) nodes"
    using p(3) a(4) L by simp
  ultimately show ?thesis using f by blast
qed


definition handed_back :: "(nat \<Rightarrow> bool) \<Rightarrow> mbuf_t list \<Rightarrow> (nat \<times> mbuf_t list \<times> nat) list \<Rightarrow> bool" where
  "handed_back cb nodes pops \<longleftrightarrow>
     (\<forall>i < SDIO_CHN_TX_NUM - 1. cb i \<longrightarrow> pops_of i pops = filter (\<lambda>m. chan_of m = i) nodes) \<and> pops_of (SDIO_CHN_TX_NUM - 1) pops = []"

lemma round_sends:
  assumes "tx_inv s"
  shows "\<exists>s' ws gs pops. tx_step cb (Round bus) s = Some (s', ws, pops) \<and> tx_inv s' \<and> list_all2 frames_of ws gs \<and>
    concat gs @ tx_list s' = tx_list s \<and> handed_back cb (concat gs) pops \<and>
    chan_nodes (list_tx s' ! (SDIO_CHN_TX_NUM - 1)) =
      chan_nodes (list_tx s ! (SDIO_CHN_TX_NUM - 1)) @ filter (\<lambda>m. chan_of m = SDIO_CHN_TX_NUM - 1) (concat gs)"
proof (cases "tx_list s = []")
  case True
  then have "tx_step cb (Round bus) s = Some (s, [], [])" using assms by (simp add: tx_inv_def tx_thread_round_def)
  then show ?thesis using assms by (intro exI [of _ s] exI [of _ "[]"]) (simp add: handed_back_def)
next
  case False
  define n where "n = min (length (tx_list s)) MAX_CHAIN_NODE_NUM"
  define rest where "rest = drop n (tx_list s)"
  define nodes where "nodes = take n (tx_list s)"
  have n: "0 < n" "n \<le> length (tx_list s)" "n \<le> MAX_CHAIN_NODE_NUM" using False by (simp_all add: n_def MAX_CHAIN_NODE_NUM_def)
  have I: "tx_node_num s = length (tx_list s)" "tx_mbuf_num s = int (length (tx_list s))" using assms by (simp_all add: tx_inv_def)
  let ?s1 = "s\<lparr>tx_list := rest, tx_node_num := length (tx_list s) - n, tx_mbuf_num := int (length (tx_list s)) - int n\<rparr>"
  have "sdiohal_tx_find_data_list s = Some (?s1, nodes, n)"
    using n I False by (auto simp: sdiohal_tx_find_data_list_def Let_def sdiohal_atomic_sub_def rest_def nodes_def n_def [symmetric] max_def)
  moreover have len: "length nodes = n" using n(2) by (simp add: nodes_def)
  moreover have "tx_inv ?s1" using assms n unfolding tx_inv_def rest_def by (auto simp: tx_buf_ok_def of_nat_diff dest: in_set_dropD)
  moreover have "\<forall>m \<in> set nodes. sendable m" using assms unfolding tx_inv_def nodes_def by (auto dest: in_set_takeD)
  ultimately obtain s' w pops where r: "sdiohal_tx_data_list_send bus cb True nodes n ?s1 = Some (s', 0, [w], pops)"
    "frames_of w nodes" "tx_inv s'" "tx_list s' = tx_list ?s1" "handed_back cb nodes pops"
    "chan_nodes (list_tx s' ! (SDIO_CHN_TX_NUM - 1)) =
      chan_nodes (list_tx ?s1 ! (SDIO_CHN_TX_NUM - 1)) @ filter (\<lambda>m. chan_of m = SDIO_CHN_TX_NUM - 1) nodes"
    using data_list_send_one [of nodes ?s1 bus cb] n(3) unfolding handed_back_def by auto
  have "tx_step cb (Round bus) s = Some (s', [w], pops)"
    using \<open>sdiohal_tx_find_data_list s = _\<close> r(1) False I by (simp add: tx_thread_round_def)
  moreover have "nodes @ tx_list s' = tx_list s" unfolding r(4) by (simp add: nodes_def rest_def)
  ultimately show ?thesis using r(2,3,5,6) by (intro exI [of _ s'] exI [of _ "[w]"] exI [of _ "[nodes]"] exI [of _ pops]) simp
qed

lemma handed_back_append: "handed_back cb xs ps \<Longrightarrow> handed_back cb ys qs \<Longrightarrow> handed_back cb (xs @ ys) (ps @ qs)"
  by (auto simp: handed_back_def)

lemma tx_run_spec:
  assumes "tx_inv s" "\<forall>x \<in> set xs. tx_op_ok x"
  shows "\<exists>s' ws gs pops. tx_run cb xs s = Some (s', ws, pops) \<and> tx_inv s' \<and> list_all2 frames_of ws gs \<and>
    concat gs @ tx_list s' = tx_list s @ pushed xs \<and> handed_back cb (concat gs) pops \<and>
    chan_nodes (list_tx s' ! (SDIO_CHN_TX_NUM - 1)) =
      chan_nodes (list_tx s ! (SDIO_CHN_TX_NUM - 1)) @ filter (\<lambda>m. chan_of m = SDIO_CHN_TX_NUM - 1) (concat gs)"
  using assms
proof (induction xs arbitrary: s)
  case Nil
  then show ?case by (intro exI [of _ s] exI [of _ "[]"]) (simp add: handed_back_def)
next
  case (Cons x xs)
  have "\<exists>s1 ws gs pops. tx_step cb x s = Some (s1, ws, pops) \<and> tx_inv s1 \<and> list_all2 frames_of ws gs \<and>
    concat gs @ tx_list s1 = tx_list s @ pushed [x] \<and> handed_back cb (concat gs) pops \<and>
    chan_nodes (list_tx s1 ! (SDIO_CHN_TX_NUM - 1)) =
      chan_nodes (list_tx s ! (SDIO_CHN_TX_NUM - 1)) @ filter (\<lambda>m. chan_of m = SDIO_CHN_TX_NUM - 1) (concat gs)"
  proof (cases x)
    case (Push ch chain)
    with push_appends [of s ch chain cb] Cons.prems obtain s1 where "tx_step cb x s = Some (s1, [], [])" "tx_inv s1"
      "tx_list s1 = tx_list s @ map (stamp ch) chain" "list_tx s1 = list_tx s" by auto
    with Push show ?thesis by (intro exI [of _ s1] exI [of _ "[]"]) (simp add: handed_back_def)
  next
    case (Round bus)
    with round_sends [OF Cons.prems(1), of cb bus] show ?thesis by simp
  qed
  then obtain s1 ws gs pops where 1: "tx_step cb x s = Some (s1, ws, pops)" "tx_inv s1" "list_all2 frames_of ws gs"
    "concat gs @ tx_list s1 = tx_list s @ pushed [x]" "handed_back cb (concat gs) pops"
    "chan_nodes (list_tx s1 ! (SDIO_CHN_TX_NUM - 1)) =
      chan_nodes (list_tx s ! (SDIO_CHN_TX_NUM - 1)) @ filter (\<lambda>m. chan_of m = SDIO_CHN_TX_NUM - 1) (concat gs)" by blast
  from Cons.IH [OF 1(2)] Cons.prems(2) obtain s2 ws2 gs2 pops2 where 2: "tx_run cb xs s1 = Some (s2, ws2, pops2)" "tx_inv s2"
    "list_all2 frames_of ws2 gs2" "concat gs2 @ tx_list s2 = tx_list s1 @ pushed xs" "handed_back cb (concat gs2) pops2"
    "chan_nodes (list_tx s2 ! (SDIO_CHN_TX_NUM - 1)) =
      chan_nodes (list_tx s1 ! (SDIO_CHN_TX_NUM - 1)) @ filter (\<lambda>m. chan_of m = SDIO_CHN_TX_NUM - 1) (concat gs2)" by auto
  have "pushed (x # xs) = pushed [x] @ pushed xs" by (cases x) simp_all
  then have "concat (gs @ gs2) @ tx_list s2 = tx_list s @ pushed (x # xs)" using 1(4) 2(4) by (metis append_assoc concat_append)
  with 1 2 show ?case
    by (intro exI [of _ s2] exI [of _ "ws @ ws2"] exI [of _ "gs @ gs2"] exI [of _ "pops @ pops2"])
      (simp add: list_all2_appendI handed_back_append)
qed

text \<open>
  C6. However pushes and rounds of the transmit thread follow one another, no access leaves a buffer, the
  frames on the bus are the pushed buffers with their headers, in order and each write ended by its mark, what is
  left waits in the queue, and every client of channels 0 to 10 gets exactly its written buffers back in
  order. Those of channel 11 are never handed back: the walk over the ring of lists leaves out the last.
\<close>

theorem sdio_writes_in_order:
  assumes "\<forall>x \<in> set xs. tx_op_ok x"
  shows "\<exists>s ws gs pops. tx_run cb xs sdio_tx_init = Some (s, ws, pops) \<and> list_all2 frames_of ws gs \<and>
    concat gs @ tx_list s = pushed xs \<and> handed_back cb (concat gs) pops \<and>
    chan_nodes (list_tx s ! (SDIO_CHN_TX_NUM - 1)) = filter (\<lambda>m. chan_of m = SDIO_CHN_TX_NUM - 1) (concat gs)"
proof -
  have "tx_list sdio_tx_init = []" "chan_nodes (list_tx sdio_tx_init ! (SDIO_CHN_TX_NUM - 1)) = []"
    by (simp_all add: sdio_tx_init_def chan_nodes_def SDIO_CHN_TX_NUM_def)
  with tx_run_spec [OF tx_inv_init assms, of cb] show ?thesis by fastforce
qed

definition sample_mbuf :: mbuf_t where
  "sample_mbuf = \<lparr>mb_buf = [0, 0, 0, 0, 1, 2, 3], mb_len = 3\<rparr>"

lemma sdio_writes_in_order_witness:
  "\<exists>s ws gs pops. tx_run (\<lambda>_. True) [Push 8 [sample_mbuf], Push 11 [sample_mbuf, sample_mbuf], Round (- 5)] sdio_tx_init = Some (s, ws, pops) \<and>
    list_all2 frames_of ws gs \<and> concat gs @ tx_list s = pushed [Push 8 [sample_mbuf], Push 11 [sample_mbuf, sample_mbuf], Round (- 5)] \<and>
    handed_back (\<lambda>_. True) (concat gs) pops \<and>
    chan_nodes (list_tx s ! (SDIO_CHN_TX_NUM - 1)) = filter (\<lambda>m. chan_of m = SDIO_CHN_TX_NUM - 1) (concat gs)"
proof (rule sdio_writes_in_order)
  have "pushable sample_mbuf" by code_simp
  then show "\<forall>x \<in> set [Push 8 [sample_mbuf], Push 11 [sample_mbuf, sample_mbuf], Round (- 5)]. tx_op_ok x"
    by (simp add: SDIO_CHN_TX_NUM_def)
qed

section \<open>A buffer filled to the last byte\<close>

text \<open>
  The room that is tested for leaves out the mark: packets that fill the buffer exactly make the mark
  run over its end.
\<close>

theorem full_buffer_overruns:
  assumes "\<forall>m \<in> set nodes. fits m" "total_size nodes = SDIOHAL_TX_SENDBUF_LEN" "tx_buf_ok [] s"
  shows "sdiohal_tx_data_list_send bus cb pop_flag nodes (length nodes) s = None"
proof -
  from send_loop_total [OF assms(1,3), of bus] assms(2) obtain s1 where
    l: "tx_send_loop bus nodes s = Some (s1, [])" "tx_buf_ok nodes s1" by auto
  have "sdiohal_tx_set_eof s1 = None"
    using l(2) assms(2) by (simp add: sdiohal_tx_set_eof_def tx_buf_ok_def memcpy_at_def SDIO_PUB_HEADER_SIZE_def)
  with l(1) show ?thesis by (simp add: sdiohal_tx_data_list_send_def)
qed

definition largest_mbuf :: mbuf_t where
  "largest_mbuf = \<lparr>mb_buf = replicate MAX_MBUF_SIZE 0, mb_len = MAX_MBUF_SIZE - SDIO_PUB_HEADER_SIZE\<rparr>"

lemma full_buffer_overruns_witness:
  "sdiohal_tx_data_list_send 0 (\<lambda>_. True) False (replicate MAX_CHAIN_NODE_NUM largest_mbuf) (length (replicate MAX_CHAIN_NODE_NUM largest_mbuf)) sdio_tx_init = None"
proof (rule full_buffer_overruns)
  have f: "fsize largest_mbuf = MAX_MBUF_SIZE"
    by (simp add: fsize_def largest_mbuf_def SDIO_PUB_HEADER_SIZE_def SDIOHAL_ALIGN_4BYTE_def MAX_MBUF_SIZE_def)
  show "total_size (replicate MAX_CHAIN_NODE_NUM largest_mbuf) = SDIOHAL_TX_SENDBUF_LEN"
    by (simp add: total_size_def map_replicate sum_list_replicate f SDIOHAL_TX_SENDBUF_LEN_def)
  show "\<forall>m \<in> set (replicate MAX_CHAIN_NODE_NUM largest_mbuf). fits m"
    by (simp add: fits_def largest_mbuf_def MAX_MBUF_SIZE_def SDIO_PUB_HEADER_SIZE_def)
  show "tx_buf_ok [] sdio_tx_init" by (simp add: tx_buf_ok_def sdio_tx_init_def)
qed

end
