(* ===== verification/Sdio_Rx.thy ===== *)
theory Sdio_Rx
  imports Sdio
begin

text \<open>
  The receive side of the SDIO transport: BSP/sdio/sdiohal_rx.c, the page fragments and the lists of
  BSP/sdio/sdiohal_common.c. Pages are numbers with a reference count; a received packet is a
  place in a page. The page allocator, the bytes of the bus and the clients are parameters.
\<close>

section \<open>State\<close>

record rx_mbuf =
  rx_page :: nat
  rx_off :: nat
  rx_len :: nat

record rx_chan =
  rc_nodes :: "rx_mbuf list"
  rc_type :: nat
  rc_subtype :: nat

text \<open>
  \<open>fr_page\<close> to \<open>pagecnt_bias\<close> are \<open>frag_ctl\<close>, \<open>page_count\<close> the reference counts of the pages, \<open>rx_nodes\<close> the number of
  free nodes in \<open>list_rx_buf\<close>, \<open>adma_rx\<close> the flag \<open>adma_rx_enable\<close>.
\<close>

record sdio_rx =
  flag_init :: bool
  adma_rx :: bool
  fr_page :: "nat option"
  fr_offset :: nat
  fr_size :: nat
  pagecnt_bias :: int
  page_count :: "nat \<Rightarrow> int"
  list_rx :: "rx_chan list"
  rx_nodes :: nat
  rx_packer_cnt :: nat
  dtbs :: nat
  remain_pac_num :: nat

definition SDIOHAL_RX_NODE_NUM :: nat where "SDIOHAL_RX_NODE_NUM = 12 * 1024"
definition SDIOHAL_RX_RECVBUF_LEN :: nat where "SDIOHAL_RX_RECVBUF_LEN = MAX_CHAIN_NODE_NUM * MAX_MBUF_SIZE"

section \<open>How much to read\<close>

definition sdiohal_rx_adapt_set_dtbs :: "nat \<Rightarrow> sdio_rx \<Rightarrow> sdio_rx" where
  "sdiohal_rx_adapt_set_dtbs len s =
     (if len = 0 then s\<lparr>dtbs := MAX_PAC_SIZE\<rparr>
      else let off = len div 1024 + 1; len = SDIOHAL_ALIGN_BLK (len + 8 * off + 64) in
        s\<lparr>dtbs := if len \<ge> SDIOHAL_RX_RECVBUF_LEN then SDIOHAL_RX_RECVBUF_LEN else len\<rparr>)"

definition sdiohal_rx_adapt_set_pac_num :: "nat \<Rightarrow> sdio_rx \<Rightarrow> sdio_rx" where
  "sdiohal_rx_adapt_set_pac_num num s =
     s\<lparr>remain_pac_num := if num = 0 then 1 else if num \<ge> MAX_CHAIN_NODE_NUM then MAX_CHAIN_NODE_NUM else num\<rparr>"

section \<open>Page fragments\<close>

definition put_page :: "nat \<Rightarrow> sdio_rx \<Rightarrow> sdio_rx" where
  "put_page pg s = s\<lparr>page_count := (page_count s)(pg := page_count s pg - 1)\<rparr>"

text \<open>\<open>get_pages\<close> gives for an order the new page, if there is one; smaller orders are tried in turn.\<close>

fun alloc_order :: "(nat \<Rightarrow> nat option) \<Rightarrow> nat \<Rightarrow> (nat \<times> nat) option" where
  "alloc_order get_pages order =
     (case get_pages order of Some pg \<Rightarrow> Some (pg, order)
      | None \<Rightarrow> if order = 0 then None else alloc_order get_pages (order - 1))"

definition pagecnt_max_bias :: "nat \<Rightarrow> nat \<Rightarrow> int" where
  "pagecnt_max_bias page_size max_order = int (page_size * 2 ^ max_order)"

text \<open>The part at the label \<open>refill\<close>; false when it fails.\<close>

definition frag_refill :: "nat \<Rightarrow> nat \<Rightarrow> (nat \<Rightarrow> nat option) \<Rightarrow> nat \<Rightarrow> bool \<Rightarrow> sdio_rx \<Rightarrow> sdio_rx \<times> bool" where
  "frag_refill page_size max_order get_pages fragsz ignore s =
     (case alloc_order get_pages max_order of
        None \<Rightarrow> (s\<lparr>fr_page := None\<rparr>, False)
      | Some (pg, order) \<Rightarrow>
          let s = s\<lparr>fr_page := Some pg, fr_size := page_size * 2 ^ order, page_count := (page_count s)(pg := 1)\<rparr> in
          if fr_size s < fragsz \<and> \<not> ignore then (put_page pg s, False)
          else (s\<lparr>page_count := (page_count s)(pg := page_count s pg + (pagecnt_max_bias page_size max_order - 1)),
                  pagecnt_bias := pagecnt_max_bias page_size max_order, fr_offset := 0\<rparr>, True))"

text \<open>The test whether the page is used up: true when another one is needed.\<close>

definition frag_check :: "nat \<Rightarrow> nat \<Rightarrow> nat \<Rightarrow> nat \<Rightarrow> sdio_rx \<Rightarrow> sdio_rx \<times> bool" where
  "frag_check page_size max_order fragsz pg s =
     (if fr_offset s + fragsz > fr_size s then
        (if page_count s pg \<noteq> pagecnt_bias s then
           let s = s\<lparr>page_count := (page_count s)(pg := page_count s pg - pagecnt_bias s)\<rparr> in
           if page_count s pg \<noteq> 0 then (s, True)
           else (s\<lparr>page_count := (page_count s)(pg := pagecnt_max_bias page_size max_order),
                   pagecnt_bias := pagecnt_max_bias page_size max_order, fr_offset := 0\<rparr>, False)
         else (s\<lparr>page_count := (page_count s)(pg := page_count s pg + (pagecnt_max_bias page_size max_order - pagecnt_bias s)),
                 pagecnt_bias := pagecnt_max_bias page_size max_order, fr_offset := 0\<rparr>, False))
      else (s, False))"

text \<open>The jumps between the two; the result has no place when there is no page.\<close>

partial_function (option) frag_loop ::
  "nat \<Rightarrow> nat \<Rightarrow> (nat \<Rightarrow> nat option) \<Rightarrow> nat \<Rightarrow> bool \<Rightarrow> bool \<Rightarrow> sdio_rx \<Rightarrow> (sdio_rx \<times> nat option) option" where
  "frag_loop page_size max_order get_pages fragsz ignore refill s =
     (case if refill then frag_refill page_size max_order get_pages fragsz ignore s else (s, True) of (s, ok) \<Rightarrow>
      if \<not> ok then Some (s, None)
      else case fr_page s of
        None \<Rightarrow> Some (s, None)
      | Some pg \<Rightarrow> (case frag_check page_size max_order fragsz pg s of (s, again) \<Rightarrow>
          if again then frag_loop page_size max_order get_pages fragsz ignore True s else Some (s, Some pg)))"

text \<open>The place of the fragment and the size it has, with \<open>ignore\<close> for \<open>ignore_alloc_fail\<close>.\<close>

definition sdiohal_alloc_frag ::
  "nat \<Rightarrow> nat \<Rightarrow> (nat \<Rightarrow> nat option) \<Rightarrow> nat \<Rightarrow> bool \<Rightarrow> sdio_rx \<Rightarrow> (sdio_rx \<times> (nat \<times> nat \<times> nat) option) option" where
  "sdiohal_alloc_frag page_size max_order get_pages fragsz ignore s = do {
     (s, page) \<leftarrow> frag_loop page_size max_order get_pages fragsz ignore (fr_page s = None) s;
     case page of
       None \<Rightarrow> Some (s, None)
     | Some pg \<Rightarrow>
         let alloc_size = if ignore \<and> fr_size s < fragsz then fr_size s else fragsz in
         Some (s\<lparr>fr_offset := fr_offset s + alloc_size, pagecnt_bias := if adma_rx s then pagecnt_bias s - 1 else pagecnt_bias s\<rparr>,
               Some (pg, fr_offset s, alloc_size)) }"

section \<open>Lists of received packets\<close>

definition sdiohal_rx_list_free :: "rx_mbuf list \<Rightarrow> sdio_rx \<Rightarrow> sdio_rx" where
  "sdiohal_rx_list_free ms s = (let s = fold (\<lambda>m. put_page (rx_page m)) ms s in s\<lparr>rx_nodes := rx_nodes s + length ms\<rparr>)"

text \<open>NULL before the initialisation and for channels behind the last; \<open>channel\<close> is at least \<open>SDIO_CHN_TX_NUM\<close>.\<close>

definition sdiohal_get_rx_channel_list :: "nat \<Rightarrow> sdio_rx \<Rightarrow> nat option" where
  "sdiohal_get_rx_channel_list channel s =
     (if \<not> flag_init s \<or> channel - SDIO_CHN_TX_NUM \<ge> SDIO_CHN_RX_NUM then None else Some (channel - SDIO_CHN_TX_NUM))"

definition sdiohal_data_list_assignment :: "rx_mbuf \<Rightarrow> sdio_puh_t \<Rightarrow> nat \<Rightarrow> sdio_rx \<Rightarrow> sdio_rx option" where
  "sdiohal_data_list_assignment m h channel s = do {
     i \<leftarrow> sdiohal_get_rx_channel_list channel s;
     c \<leftarrow> aget (list_rx s) i;
     cs \<leftarrow> aset (list_rx s) i (c\<lparr>rc_nodes := rc_nodes c @ [m], rc_type := puh_type h, rc_subtype := puh_subtype h\<rparr>);
     Some (s\<lparr>list_rx := cs\<rparr>) }"

text \<open>Handed to the clients that are there; the others' packets are freed. The last list of the ring is left out.\<close>

fun rx_dispatch_walk ::
  "(nat \<Rightarrow> bool) \<Rightarrow> rx_chan list \<Rightarrow> rx_chan list \<times> (nat \<times> rx_mbuf list) list \<times> rx_mbuf list" where
  "rx_dispatch_walk cb [] = ([], [], [])"
| "rx_dispatch_walk cb [c] = ([c], [], [])"
| "rx_dispatch_walk cb (c # d # cs) =
     (let (cs', pops, freed) = rx_dispatch_walk cb (d # cs);
          channel = sdiohal_hwtype_to_channel False (rc_type c) (rc_subtype c) in
      if rc_nodes c = [] \<or> channel \<ge> SDIO_CHANNEL_NUM then (c # cs', pops, freed)
      else if cb channel then (c\<lparr>rc_nodes := []\<rparr> # cs', (channel, rc_nodes c) # pops, freed)
      else (c\<lparr>rc_nodes := []\<rparr> # cs', pops, rc_nodes c @ freed))"

definition sdiohal_rx_list_dispatch :: "(nat \<Rightarrow> bool) \<Rightarrow> sdio_rx \<Rightarrow> sdio_rx \<times> (nat \<times> rx_mbuf list) list \<times> int" where
  "sdiohal_rx_list_dispatch cb s =
     (if \<not> flag_init s then (s, [], - 19)
      else let (cs, pops, freed) = rx_dispatch_walk cb (list_rx s) in
        (sdiohal_rx_list_free freed (s\<lparr>list_rx := cs\<rparr>), pops, 0))"

section \<open>Separating a buffer\<close>

definition puh_valid :: "sdio_puh_t \<Rightarrow> nat \<Rightarrow> bool" where
  "puh_valid h channel \<longleftrightarrow>
     channel < SDIO_CHANNEL_NUM \<and> puh_len h \<le> MAX_PAC_SIZE - SDIO_PUB_HEADER_SIZE \<and> puh_len h \<noteq> 0"

definition puh_with_sum :: "sdio_puh_t \<Rightarrow> sdio_puh_t" where
  "puh_with_sum h = (if puh_check_sum h \<noteq> 0 then h\<lparr>puh_len := (puh_len h + 2) mod 2 ^ 16\<rparr> else h)"

text \<open>
  \<open>buf\<close> are the bytes of the fragment at \<open>base\<close> of page \<open>pg\<close>, \<open>p\<close> is the place of the header and \<open>n\<close> is \<open>parse_len\<close>. The
  inner result has no value when an access leaves the fragment; a loop that does not end has no result at all.
\<close>

partial_function (option) rx_buf_loop ::
  "nat \<Rightarrow> nat \<Rightarrow> nat \<Rightarrow> u8 list \<Rightarrow> nat \<Rightarrow> nat \<Rightarrow> sdio_rx \<Rightarrow> (u8 list \<times> sdio_rx \<times> int) option option" where
  "rx_buf_loop pg base valid_len buf p n s =
     (if n \<ge> valid_len then Some (Some (buf, s, 0))
      else case get_puh buf p of
        None \<Rightarrow> Some None
      | Some h \<Rightarrow>
          if puh_eof h \<noteq> 0 then Some (Some (buf, s, 0))
          else if puh_type h \<noteq> 15 then
            (let channel = sdiohal_hwtype_to_channel False (puh_type h) (puh_subtype h);
                 n = (n + puh_len h) mod 2 ^ 32; h = puh_with_sum h in
             case put_puh buf p h of
               None \<Rightarrow> Some None
             | Some buf \<Rightarrow>
                 if \<not> puh_valid h channel then rx_buf_loop pg base valid_len buf p n s
                 else if rx_nodes s = 0 then Some (Some (buf, s\<lparr>rx_packer_cnt := rx_packer_cnt s + 1\<rparr>, - 12))
                 else (case sdiohal_data_list_assignment \<lparr>rx_page = pg, rx_off = base + p, rx_len = puh_len h\<rparr> h channel
                             (s\<lparr>rx_packer_cnt := rx_packer_cnt s + 1, rx_nodes := rx_nodes s - 1, pagecnt_bias := pagecnt_bias s - 1\<rparr>) of
                     None \<Rightarrow> Some None
                   | Some s \<Rightarrow> rx_buf_loop pg base valid_len buf (p + SDIO_PUB_HEADER_SIZE + SDIOHAL_ALIGN_4BYTE (puh_len h)) n s))
          else rx_buf_loop pg base valid_len buf (p + SDIO_PUB_HEADER_SIZE + SDIOHAL_ALIGN_4BYTE (puh_len h)) n s)"

definition sdiohal_rx_buf_parser :: "nat \<Rightarrow> nat \<Rightarrow> u8 list \<Rightarrow> nat \<Rightarrow> sdio_rx \<Rightarrow> (u8 list \<times> sdio_rx \<times> int) option option" where
  "sdiohal_rx_buf_parser pg base buf valid_len s = rx_buf_loop pg base valid_len buf 0 0 s"

text \<open>With ADMA every node has its own fragment, given with its bytes.\<close>

fun sdiohal_rx_list_parser :: "(rx_mbuf \<times> u8 list) list \<Rightarrow> sdio_rx \<Rightarrow> sdio_rx option" where
  "sdiohal_rx_list_parser [] s = Some s"
| "sdiohal_rx_list_parser ((m, buf) # ms) s = do {
     h \<leftarrow> get_puh buf 0;
     if puh_eof h = 0 \<and> puh_type h \<noteq> 15 then do {
       let channel = sdiohal_hwtype_to_channel False (puh_type h) (puh_subtype h);
       let h = puh_with_sum h;
       if \<not> puh_valid h channel then sdiohal_rx_list_parser ms (sdiohal_rx_list_free [m] s)
       else do {
         s \<leftarrow> sdiohal_data_list_assignment (m\<lparr>rx_len := MAX_MBUF_SIZE\<rparr>) h channel (s\<lparr>rx_packer_cnt := rx_packer_cnt s + 1\<rparr>);
         sdiohal_rx_list_parser ms s } }
     else sdiohal_rx_list_parser ms (sdiohal_rx_list_free [m] s) }"

section \<open>Rounds of the receive thread\<close>

text \<open>A fragment of \<open>MAX_MBUF_SIZE\<close> for each of \<open>n\<close> nodes; false when one of them fails.\<close>

fun adma_frags :: "nat \<Rightarrow> nat \<Rightarrow> (nat \<Rightarrow> nat option) \<Rightarrow> nat \<Rightarrow> sdio_rx \<Rightarrow> (sdio_rx \<times> rx_mbuf list \<times> bool) option" where
  "adma_frags page_size max_order get_pages 0 s = Some (s, [], True)"
| "adma_frags page_size max_order get_pages (Suc n) s = do {
     (s, place) \<leftarrow> sdiohal_alloc_frag page_size max_order get_pages MAX_MBUF_SIZE False s;
     case place of
       None \<Rightarrow> Some (s, [], False)
     | Some (pg, off, sz) \<Rightarrow> do {
         (s, ms, ok) \<leftarrow> adma_frags page_size max_order get_pages n s;
         Some (s, \<lparr>rx_page = pg, rx_off = off, rx_len = 0\<rparr> # ms, ok) } }"

definition sdiohal_get_rx_mbuf_list ::
  "nat \<Rightarrow> nat \<Rightarrow> (nat \<Rightarrow> nat option) \<Rightarrow> nat \<Rightarrow> sdio_rx \<Rightarrow> (sdio_rx \<times> rx_mbuf list option) option" where
  "sdiohal_get_rx_mbuf_list page_size max_order get_pages num s =
     (if num = 0 \<or> num > rx_nodes s then Some (s, None)
      else do {
        (s, ms, ok) \<leftarrow> adma_frags page_size max_order get_pages num (s\<lparr>rx_nodes := rx_nodes s - num\<rparr>);
        if ok then Some (s, Some ms)
        else (let s = sdiohal_rx_list_free ms s in Some (s\<lparr>rx_nodes := rx_nodes s + (num - length ms)\<rparr>, None)) })"

text \<open>From the label \<open>submit_list\<close> on: the result tells whether to read again.\<close>

definition rx_submit :: "(nat \<Rightarrow> bool) \<Rightarrow> nat \<Rightarrow> sdio_rx \<Rightarrow> sdio_rx \<times> (nat \<times> rx_mbuf list) list \<times> bool" where
  "rx_submit cb rx_dtbs s =
     (let (s, pops, ret) = sdiohal_rx_list_dispatch cb s;
          s = if adma_rx s then sdiohal_rx_adapt_set_pac_num rx_dtbs s else sdiohal_rx_adapt_set_dtbs rx_dtbs s in
      (s, pops, 0 < rx_dtbs))"

definition get_u32 :: "u8 list \<Rightarrow> nat \<Rightarrow> nat option" where
  "get_u32 buf p = do {
     b0 \<leftarrow> aget buf p; b1 \<leftarrow> aget buf (p + 1); b2 \<leftarrow> aget buf (p + 2); b3 \<leftarrow> aget buf (p + 3);
     Some (unat b0 + 256 * unat b1 + 65536 * unat b2 + 16777216 * unat b3) }"

text \<open>
  One reading without ADMA. \<open>bus len\<close> are the bytes that the bus puts into the fragment and its result, \<open>rx_dtbs\<close> is
  the variable of the thread. The layers of the result are those of the parser.
\<close>

definition rx_round ::
  "nat \<Rightarrow> nat \<Rightarrow> (nat \<Rightarrow> nat option) \<Rightarrow> (nat \<Rightarrow> bool) \<Rightarrow> (nat \<Rightarrow> u8 list \<times> int) \<Rightarrow> bool \<Rightarrow> nat \<Rightarrow> sdio_rx \<Rightarrow>
     (sdio_rx \<times> (nat \<times> rx_mbuf list) list \<times> nat \<times> bool) option option" where
  "rx_round page_size max_order get_pages cb bus polling rx_dtbs s = do {
     (s, place) \<leftarrow> sdiohal_alloc_frag page_size max_order get_pages (dtbs s) True s;
     case place of
       None \<Rightarrow> (let (s, pops, again) = rx_submit cb rx_dtbs s in Some (Some (s, pops, rx_dtbs, again)))
     | Some (pg, base, sz) \<Rightarrow>
         let (buf, ret) = bus sz in
         if ret \<noteq> 0 \<and> \<not> polling
         then (let (s, pops, again) = rx_submit cb 0 s in Some (Some (s, pops, 0, again)))
         else (case (get_u32 buf (sz - 4), get_u32 buf (sz - 8)) of
             (Some rx_dtbs, Some valid_len) \<Rightarrow> do {
               r \<leftarrow> sdiohal_rx_buf_parser pg base buf valid_len s;
               case r of
                 None \<Rightarrow> Some None
               | Some (buf, s, ret) \<Rightarrow> (let (s, pops, again) = rx_submit cb rx_dtbs s in Some (Some (s, pops, rx_dtbs, again))) }
           | _ \<Rightarrow> Some None) }"

end
