(* ===== verification/Sdio_Rx_Correct.thy ===== *)
theory Sdio_Rx_Correct
  imports Sdio_Correct Sdio_Rx
begin

text \<open>
  The receive side of the SDIO transport: what the transmit side writes is separated again, no
  packet a client holds lies where the bus writes or in a page that has been given up, and
  where the separation does not end.
\<close>

section \<open>Headers in a buffer\<close>

lemma puh_word_of_word:
  assumes "v < 2 ^ 32"
  shows "puh_word (puh_of_word v) = v"
proof -
  have n: "(2 :: nat) ^ 4 = 16" "(2 :: nat) ^ 6 = 64" "(2 :: nat) ^ 7 = 128" "(2 :: nat) ^ 16 = 65536" "(2 :: nat) ^ 23 = 8388608"
    "(2 :: nat) ^ 24 = 16777216" "(2 :: nat) ^ 28 = 268435456" by simp_all
  have "v div 128 = v div 64 div 2" "v div 8388608 = v div 128 div 65536" "v div 16777216 = v div 8388608 div 2"
    "v div 268435456 = v div 16777216 div 16" by (simp_all flip: div_mult2_eq)
  moreover have "v div 268435456 < 16" using assms by (simp add: less_mult_imp_div_less)
  then have "v div 268435456 mod 16 = v div 268435456" by simp
  moreover have g: "k mod m + m * (k div m) = k" for k m :: nat by simp
  note this [of v 64] this [of "v div 64" 2] this [of "v div 128" 65536] this [of "v div 8388608" 2] this [of "v div 16777216" 16]
  ultimately show ?thesis unfolding puh_word_def puh_of_word_def n sdio_puh_t.simps by linarith
qed

lemma puh_bytes_of_word:
  assumes "v = unat (b0 :: u8) + 256 * unat (b1 :: u8) + 65536 * unat (b2 :: u8) + 16777216 * unat (b3 :: u8)"
  shows "puh_bytes (puh_of_word v) = [b0, b1, b2, b3]"
proof -
  have b: "unat b0 < 256" "unat b1 < 256" "unat b2 < 256" "unat b3 < 256"
    using unsigned_less [of b0] unsigned_less [of b1] unsigned_less [of b2] unsigned_less [of b3] by simp_all
  have v: "v = unat b0 + 256 * (unat b1 + 256 * (unat b2 + 256 * unat b3))" using assms by simp
  have g: "(a + 256 * k) mod 256 = a \<and> (a + 256 * k) div 256 = k" if "a < 256" for a k :: nat using that by simp
  have d: "v mod 256 = unat b0" "v div 256 = unat b1 + 256 * (unat b2 + 256 * unat b3)" unfolding v using g [OF b(1)] by blast+
  have "v div 65536 = v div 256 div 256" by (simp flip: div_mult2_eq)
  then have d2: "v div 65536 = unat b2 + 256 * unat b3" using d(2) g [OF b(2)] by metis
  have "v div 16777216 = v div 65536 div 256" by (simp flip: div_mult2_eq)
  then have d3: "v div 16777216 = unat b3" using d2 g [OF b(3)] by metis
  have m: "v div 256 mod 256 = unat b1" "v div 65536 mod 256 = unat b2" "v div 16777216 mod 256 = unat b3"
  proof -
    show "v div 256 mod 256 = unat b1" unfolding d(2) using g [OF b(2)] by blast
    show "v div 65536 mod 256 = unat b2" unfolding d2 using g [OF b(3)] by blast
    show "v div 16777216 mod 256 = unat b3" unfolding d3 using b(4) by simp
  qed
  have "v < 2 ^ 32" using v b by simp
  from puh_word_of_word [OF this] show ?thesis
    unfolding puh_bytes_def Let_def by (simp only: d(1) m) simp
qed

lemma get_puh_bytes_back:
  assumes "get_puh buf p = Some h"
  shows "puh_bytes h = take 4 (drop p buf)"
proof -
  from assms have l: "p + 3 < length buf"
    and h: "h = puh_of_word (unat (buf ! p) + 256 * unat (buf ! (p + 1)) + 65536 * unat (buf ! (p + 2)) + 16777216 * unat (buf ! (p + 3)))"
    by (auto simp: get_puh_def aget_eq_Some_iff split: bind_splits)
  have "take 4 (drop p buf) = [buf ! p, buf ! (p + 1), buf ! (p + 2), buf ! (p + 3)]"
    using l by (intro nth_equalityI) (auto simp: less_Suc_eq numeral_eq_Suc)
  then show ?thesis unfolding h by (simp only: puh_bytes_of_word [OF refl])
qed

lemma put_puh_back:
  assumes "get_puh buf p = Some h"
  shows "put_puh buf p h = Some buf"
proof -
  have "p + 4 \<le> length buf" using get_puh_ok [OF assms] by simp
  moreover have "take p buf @ take 4 (drop p buf) @ drop (p + 4) buf = buf"
    by (metis append_take_drop_id drop_drop add.commute)
  ultimately show ?thesis unfolding put_puh_def memcpy_at_def get_puh_bytes_back [OF assms] by simp
qed

lemma get_puh_same:
  assumes "take 4 (drop p buf) = take 4 (drop q buf')" "get_puh buf' q = Some h"
  shows "get_puh buf p = Some h"
  by (rule get_puh_bytes) (use get_puh_ok [OF assms(2)] get_puh_bytes_back [OF assms(2)] assms(1) in simp_all)

section \<open>What is written is separated again\<close>

definition wire_ok :: "mbuf_t \<Rightarrow> bool" where
  "wire_ok m \<longleftrightarrow> 0 < mb_len m \<and> mb_len m \<le> MAX_PAC_SIZE - SDIO_PUB_HEADER_SIZE \<and>
     (case get_puh (mb_buf m) 0 of None \<Rightarrow> False | Some h \<Rightarrow> puh_eof h = 0 \<and> puh_type h \<noteq> 15 \<and> puh_check_sum h = 0 \<and>
        puh_len h = mb_len m \<and> puh_subtype h < SDIO_CHN_RX_NUM)"

text \<open>Where the packets of a buffer are.\<close>

fun places :: "nat \<Rightarrow> nat \<Rightarrow> mbuf_t list \<Rightarrow> (nat \<times> rx_mbuf) list" where
  "places pg off [] = []"
| "places pg off (m # ms) = (chan_of m, \<lparr>rx_page = pg, rx_off = off, rx_len = mb_len m\<rparr>) # places pg (off + fsize m) ms"

definition places_for :: "nat \<Rightarrow> (nat \<times> rx_mbuf) list \<Rightarrow> rx_mbuf list" where
  "places_for i ps = map snd (filter (\<lambda>(c, _). c = i) ps)"

lemma places_for_simps [simp]:
  "places_for i [] = []" "places_for i ((c, m) # ps) = (if c = i then [m] else []) @ places_for i ps"
  by (simp_all add: places_for_def)

definition payload_sum :: "mbuf_t list \<Rightarrow> nat" where
  "payload_sum ms = sum_list (map mb_len ms)"

lemma eof_at:
  assumes "take SDIO_PUB_HEADER_SIZE (drop p w) = eof_buf"
  shows "\<exists>h. get_puh w p = Some h \<and> puh_eof h = 1"
proof -
  let ?h = "\<lparr>puh_pad = 0, puh_check_sum = 0, puh_len = 0, puh_eof = 1, puh_subtype = 0, puh_type = 0\<rparr>"
  have "get_puh w p = Some ?h"
    by (rule get_puh_bytes) (use assms in \<open>simp_all add: puh_ok_def eof_buf_def SDIO_PUB_HEADER_SIZE_def\<close>)
  then show ?thesis by simp
qed

lemma rx_loop_separates:
  assumes "laid w off ms" "take SDIO_PUB_HEADER_SIZE (drop (off + total_size ms) w) = eof_buf"
    and "\<forall>m \<in> set ms. wire_ok m" "n + payload_sum ms \<le> valid_len" "valid_len < 2 ^ 32"
    and "flag_init s" "length (list_rx s) = SDIO_CHN_RX_NUM" "length ms \<le> rx_nodes s"
  shows "\<exists>s'. rx_buf_loop pg base valid_len w off n s = Some (Some (w, s', 0)) \<and> length (list_rx s') = SDIO_CHN_RX_NUM \<and>
    (\<forall>i < SDIO_CHN_RX_NUM. rc_nodes (list_rx s' ! i) = rc_nodes (list_rx s ! i) @ places_for i (places pg (base + off) ms))"
  using assms
proof (induction ms arbitrary: off n s)
  case Nil
  from eof_at [of off w] Nil.prems(2) obtain h where "get_puh w off = Some h" "puh_eof h = 1" by auto
  then have "rx_buf_loop pg base valid_len w off n s = Some (Some (w, s, 0))"
    by (subst rx_buf_loop.simps) simp
  then show ?case using Nil.prems(7) by simp
next
  case (Cons m ms)
  from Cons.prems(3) have m: "wire_ok m" by simp
  then obtain h where h: "get_puh (mb_buf m) 0 = Some h" "puh_eof h = 0" "puh_type h \<noteq> 15" "puh_check_sum h = 0"
    "puh_len h = mb_len m" "puh_subtype h < SDIO_CHN_RX_NUM" "0 < mb_len m" "mb_len m \<le> MAX_PAC_SIZE - SDIO_PUB_HEADER_SIZE"
    by (auto simp: wire_ok_def split: option.splits)
  have "take 4 (drop off w) = take 4 (drop 0 (mb_buf m))"
  proof -
    have "take (mb_len m + SDIO_PUB_HEADER_SIZE) (drop off w) = take (mb_len m + SDIO_PUB_HEADER_SIZE) (mb_buf m)"
      using Cons.prems(1) by simp
    from arg_cong [OF this, of "take 4"] show ?thesis by (simp add: SDIO_PUB_HEADER_SIZE_def min_def)
  qed
  then have g: "get_puh w off = Some h" by (rule get_puh_same [OF _ h(1)])
  have v: "puh_valid h (puh_subtype h + SDIO_CHN_TX_NUM)" using h by (simp add: puh_valid_def SDIO_CHANNEL_NUM_def)
  have sum: "puh_with_sum h = h" using h(4) by (simp add: puh_with_sum_def)
  let ?i = "puh_subtype h"
  let ?r = "\<lparr>rx_page = pg, rx_off = base + off, rx_len = mb_len m\<rparr>"
  let ?c = "list_rx s ! ?i"
  let ?s = "s\<lparr>rx_packer_cnt := rx_packer_cnt s + 1, rx_nodes := rx_nodes s - 1, pagecnt_bias := pagecnt_bias s - 1,
    list_rx := (list_rx s)[?i := ?c\<lparr>rc_nodes := rc_nodes ?c @ [?r], rc_type := puh_type h, rc_subtype := puh_subtype h\<rparr>]\<rparr>"
  have a: "sdiohal_data_list_assignment \<lparr>rx_page = pg, rx_off = base + off, rx_len = puh_len h\<rparr> h (puh_subtype h + SDIO_CHN_TX_NUM)
     (s\<lparr>rx_packer_cnt := rx_packer_cnt s + 1, rx_nodes := rx_nodes s - 1, pagecnt_bias := pagecnt_bias s - 1\<rparr>) = Some ?s"
    using Cons.prems(6,7) h(5,6) by (simp add: sdiohal_data_list_assignment_def sdiohal_get_rx_channel_list_def)
  have n: "n < valid_len" "(n + mb_len m) mod 2 ^ 32 = n + mb_len m" "rx_nodes s \<noteq> 0"
    using Cons.prems(4,5,8) h(7) by (simp_all add: payload_sum_def)
  have step: "rx_buf_loop pg base valid_len w off n s = rx_buf_loop pg base valid_len w (off + fsize m) (n + mb_len m) ?s"
    using n v a h(2,3,5) put_puh_back [OF g]
    by (subst rx_buf_loop.simps) (simp add: g sum sdiohal_hwtype_to_channel_def fsize_def Let_def add.assoc)
  have "chan_of m = ?i" by (simp add: chan_of_def h(1))
  have "length ms \<le> rx_nodes ?s" "length (list_rx ?s) = SDIO_CHN_RX_NUM" "flag_init ?s" using Cons.prems(6-8) by simp_all
  with Cons.IH [of "off + fsize m" "n + mb_len m" ?s] Cons.prems obtain s' where
    "rx_buf_loop pg base valid_len w (off + fsize m) (n + mb_len m) ?s = Some (Some (w, s', 0))" "length (list_rx s') = SDIO_CHN_RX_NUM"
    "\<forall>i < SDIO_CHN_RX_NUM. rc_nodes (list_rx s' ! i) = rc_nodes (list_rx ?s ! i) @ places_for i (places pg (base + (off + fsize m)) ms)"
    by (auto simp: payload_sum_def add.assoc)
  then show ?case
    using Cons.prems(7) h(6) \<open>chan_of m = ?i\<close> unfolding step
    by (intro exI [of _ s']) (simp add: nth_list_update add.assoc)
qed

lemma places_hold:
  assumes "laid w off ms"
  shows "list_all2 (\<lambda>m (c, r). c = chan_of m \<and> rx_page r = pg \<and> rx_len r = mb_len m \<and>
    take (mb_len m) (drop (rx_off r - base + SDIO_PUB_HEADER_SIZE) w) = take (mb_len m) (drop SDIO_PUB_HEADER_SIZE (mb_buf m))) ms (places pg (base + off) ms)"
  using assms
proof (induction ms arbitrary: off)
  case (Cons m ms)
  then have "take (mb_len m + SDIO_PUB_HEADER_SIZE) (drop off w) = take (mb_len m + SDIO_PUB_HEADER_SIZE) (mb_buf m)" by simp
  from arg_cong [OF this, of "drop SDIO_PUB_HEADER_SIZE"]
  have "take (mb_len m) (drop (off + SDIO_PUB_HEADER_SIZE) w) = take (mb_len m) (drop SDIO_PUB_HEADER_SIZE (mb_buf m))"
    by (simp add: drop_take add.commute)
  with Cons show ?case by (simp add: add.assoc)
qed simp

text \<open>
  C12. The bytes of one write of at most \<open>MAX_CHAIN_NODE_NUM\<close> packets without check sum (\<open>wire_ok\<close>), when they come
  back on the receive side with enough free nodes, are separated into the packets that were packed: each channel gets its packets in order, with their lengths and payloads, and nothing else.
\<close>

theorem written_packets_separated:
  assumes "\<forall>m \<in> set nodes. sendable m \<and> wire_ok m" "length nodes \<le> MAX_CHAIN_NODE_NUM" "tx_inv s"
    and "flag_init r" "length (list_rx r) = SDIO_CHN_RX_NUM" "length nodes \<le> rx_nodes r"
    and "payload_sum nodes \<le> valid_len" "valid_len < 2 ^ 32"
  shows "\<exists>s' w pops r'. sdiohal_tx_data_list_send bus cb True nodes (length nodes) s = Some (s', 0, [w], pops) \<and>
    sdiohal_rx_buf_parser pg base w valid_len r = Some (Some (w, r', 0)) \<and>
    (\<forall>i < SDIO_CHN_RX_NUM. rc_nodes (list_rx r' ! i) = rc_nodes (list_rx r ! i) @ places_for i (places pg base nodes)) \<and>
    list_all2 (\<lambda>m (c, p). c = chan_of m \<and> rx_page p = pg \<and> rx_len p = mb_len m \<and>
      take (mb_len m) (drop (rx_off p - base + SDIO_PUB_HEADER_SIZE) w) = take (mb_len m) (drop SDIO_PUB_HEADER_SIZE (mb_buf m)))
      nodes (places pg base nodes)"
proof -
  from data_list_send_one [of nodes s bus cb] assms(1-3) obtain s' w pops where
    t: "sdiohal_tx_data_list_send bus cb True nodes (length nodes) s = Some (s', 0, [w], pops)" and f: "frames_of w nodes" by blast
  from f have l: "laid w 0 nodes" "take SDIO_PUB_HEADER_SIZE (drop (0 + total_size nodes) w) = eof_buf" by (simp_all add: frames_of_def)
  from rx_loop_separates [OF l, of 0 valid_len r pg base] assms obtain r' where
    "rx_buf_loop pg base valid_len w 0 0 r = Some (Some (w, r', 0))"
    "\<forall>i < SDIO_CHN_RX_NUM. rc_nodes (list_rx r' ! i) = rc_nodes (list_rx r ! i) @ places_for i (places pg (base + 0) nodes)" by auto
  with t places_hold [OF l(1), of pg base] show ?thesis unfolding sdiohal_rx_buf_parser_def by auto
qed

definition sdio_rx_start :: sdio_rx where
  "sdio_rx_start = \<lparr>flag_init = True, adma_rx = False, fr_page = None, fr_offset = 0, fr_size = 0, pagecnt_bias = 0, page_count = (\<lambda>_. 0),
     list_rx = replicate SDIO_CHN_RX_NUM \<lparr>rc_nodes = [], rc_type = 0, rc_subtype = 0\<rparr>, rx_nodes = SDIOHAL_RX_NODE_NUM,
     rx_packer_cnt = 0, dtbs = MAX_PAC_SIZE, remain_pac_num = 1\<rparr>"

lemma written_packets_separated_witness:
  "\<exists>s' w pops r'. sdiohal_tx_data_list_send 0 (\<lambda>_. True) True [stamp 10 sample_mbuf, stamp 8 sample_mbuf] (length [stamp 10 sample_mbuf, stamp 8 sample_mbuf]) sdio_tx_init = Some (s', 0, [w], pops) \<and>
    sdiohal_rx_buf_parser 1 0 w 6 sdio_rx_start = Some (Some (w, r', 0)) \<and>
    (\<forall>i < SDIO_CHN_RX_NUM. rc_nodes (list_rx r' ! i) = rc_nodes (list_rx sdio_rx_start ! i) @ places_for i (places 1 0 [stamp 10 sample_mbuf, stamp 8 sample_mbuf])) \<and>
    list_all2 (\<lambda>m (c, p). c = chan_of m \<and> rx_page p = 1 \<and> rx_len p = mb_len m \<and>
      take (mb_len m) (drop (rx_off p - 0 + SDIO_PUB_HEADER_SIZE) w) = take (mb_len m) (drop SDIO_PUB_HEADER_SIZE (mb_buf m)))
      [stamp 10 sample_mbuf, stamp 8 sample_mbuf] (places 1 0 [stamp 10 sample_mbuf, stamp 8 sample_mbuf])"
proof (rule written_packets_separated)
  have p: "pushable sample_mbuf" by code_simp
  then have "sendable (stamp 10 sample_mbuf)" "sendable (stamp 8 sample_mbuf)"
    by (rule stamp_sendable(1); simp add: SDIO_CHN_TX_NUM_def)+
  moreover have "get_puh (mb_buf sample_mbuf) 0 = Some \<lparr>puh_pad = 0, puh_check_sum = 0, puh_len = 0, puh_eof = 0, puh_subtype = 0, puh_type = 0\<rparr>"
    by (simp add: get_puh_def puh_of_word_def sample_mbuf_def)
  then have "wire_ok (stamp ch sample_mbuf)" if "ch < SDIO_CHN_TX_NUM" for ch
    using that by - (rule stamp_header [OF p that]; auto simp: wire_ok_def sample_mbuf_def MAX_PAC_SIZE_def SDIOHAL_BLK_SIZE_def
      SDIO_PUB_HEADER_SIZE_def SDIO_CHN_TX_NUM_def SDIO_CHN_RX_NUM_def)
  then have "wire_ok (stamp 10 sample_mbuf)" "wire_ok (stamp 8 sample_mbuf)" by (simp_all add: SDIO_CHN_TX_NUM_def)
  ultimately show "\<forall>m \<in> set [stamp 10 sample_mbuf, stamp 8 sample_mbuf]. sendable m \<and> wire_ok m" by simp
  show "payload_sum [stamp 10 sample_mbuf, stamp 8 sample_mbuf] \<le> 6"
    by (simp add: payload_sum_def stamp_def sample_mbuf_def split: option.split)
qed (simp_all add: tx_inv_init sdio_rx_start_def MAX_CHAIN_NODE_NUM_def SDIOHAL_RX_NODE_NUM_def)

section \<open>A header that stops the loop\<close>

definition stuck :: "u8 list \<Rightarrow> nat \<Rightarrow> bool" where
  "stuck buf p \<longleftrightarrow> (case get_puh buf p of None \<Rightarrow> False |
     Some h \<Rightarrow> puh_eof h = 0 \<and> puh_type h \<noteq> 15 \<and> puh_len h = 0 \<and> puh_check_sum h = 0)"

lemma stuck_loop:
  assumes "rx_buf_loop pg base valid_len buf p n s = Some r"
  shows "\<not> (stuck buf p \<and> n < valid_len \<and> n < 2 ^ 32)"
proof (rule rx_buf_loop.raw_induct [where P = "\<lambda>pg base valid_len buf p n s r. \<not> (stuck buf p \<and> n < valid_len \<and> n < 2 ^ 32)",
      OF _ assms], goal_cases)
  case (1 loop pg base valid_len buf p n s r)
  show ?case
  proof
    assume a: "stuck buf p \<and> n < valid_len \<and> n < 2 ^ 32"
    then obtain h where h: "get_puh buf p = Some h" "puh_eof h = 0" "puh_type h \<noteq> 15" "puh_len h = 0" "puh_check_sum h = 0"
      by (auto simp: stuck_def split: option.splits)
    have "\<not> puh_valid h c" for c using h(4) by (simp add: puh_valid_def)
    then have "loop pg base valid_len buf p n s = Some r"
      using 1(2) a h put_puh_back [OF h(1)] by (simp add: puh_with_sum_def Let_def)
    from 1(1) [OF this] a show False by blast
  qed
qed

text \<open>
  C39. Without a check sum, a header with length 0 that is neither marked as the last one nor of type
  15 is skipped without going on to the next: wherever the separation meets it with bytes left to
  separate, it never returns.
\<close>

theorem zero_length_never_returns:
  assumes "stuck buf p" "n < valid_len" "n < 2 ^ 32"
  shows "rx_buf_loop pg base valid_len buf p n s = None"
  using stuck_loop [of pg base valid_len buf p n s] assms
  by (cases "rx_buf_loop pg base valid_len buf p n s") auto

lemma zero_length_never_returns_witness:
  "sdiohal_rx_buf_parser 1 0 [0, 0, 0, 0, 1, 2, 3, 4] 100 sdio_rx_start = None"
  unfolding sdiohal_rx_buf_parser_def
proof (rule zero_length_never_returns)
  show "stuck [0, 0, 0, 0, 1, 2, 3, 4] 0" by (simp add: stuck_def get_puh_def puh_of_word_def)
qed simp_all

section \<open>Who holds which page\<close>

definition queued :: "sdio_rx \<Rightarrow> rx_mbuf list" where
  "queued s = concat (map rc_nodes (list_rx s))"

definition refs :: "rx_mbuf multiset \<Rightarrow> nat \<Rightarrow> int" where
  "refs M pg = int (count (image_mset rx_page M) pg)"

lemma refs_simps [simp]:
  "refs {#} pg = 0" "refs (add_mset m M) pg = (if rx_page m = pg then 1 else 0) + refs M pg" "refs (M + N) pg = refs M pg + refs N pg"
  by (simp_all add: refs_def)

lemma refs_nonneg: "0 \<le> refs M pg"
  by (simp add: refs_def)

lemma refs_pos: "m \<in># M \<Longrightarrow> 0 < refs M (rx_page m)"
  by (simp add: refs_def)

lemma refs_same_page: "\<forall>m \<in> set ms. rx_page m = pg \<Longrightarrow> refs (mset ms) q = (if q = pg then int (length ms) else 0)"
  by (induction ms) auto

definition same_frag :: "sdio_rx \<Rightarrow> sdio_rx \<Rightarrow> bool" where
  "same_frag s s' \<longleftrightarrow> fr_page s' = fr_page s \<and> fr_offset s' = fr_offset s \<and> fr_size s' = fr_size s \<and> page_count s' = page_count s \<and>
     adma_rx s' = adma_rx s"

lemma same_frag_refl [simp]: "same_frag s s"
  by (simp add: same_frag_def)

text \<open>What the separation of a buffer does: new packets in the lists, each with a reference of its own.\<close>

definition packets_added :: "nat \<Rightarrow> nat \<Rightarrow> nat \<Rightarrow> sdio_rx \<Rightarrow> sdio_rx \<Rightarrow> bool" where
  "packets_added pg len p s s' \<longleftrightarrow> (\<exists>news. mset (queued s') = mset (queued s) + mset news \<and>
     pagecnt_bias s' = pagecnt_bias s - int (length news) \<and> same_frag s s' \<and> (\<forall>m \<in> set news. rx_page m = pg) \<and>
     (news \<noteq> [] \<longrightarrow> 4 * length news + p \<le> len))"

lemma packets_added_refl [simp]: "packets_added pg len p s (s\<lparr>rx_packer_cnt := k\<rparr>)"
  unfolding packets_added_def by (rule exI [of _ "[]"]) (simp add: queued_def same_frag_def)

lemma packets_added_refl' [simp]: "packets_added pg len p s s"
  unfolding packets_added_def by (rule exI [of _ "[]"]) simp

lemma packets_added_mono: "packets_added pg len p' s s' \<Longrightarrow> p \<le> p' \<Longrightarrow> packets_added pg len p s s'"
  unfolding packets_added_def by (elim exE, rule exI) auto

lemma queued_update:
  assumes "i < length (list_rx s)" "rc_nodes c = rc_nodes (list_rx s ! i) @ [m]"
  shows "mset (queued (s\<lparr>list_rx := (list_rx s)[i := c]\<rparr>)) = mset (queued s) + {#m#}"
proof -
  have "map rc_nodes ((list_rx s)[i := c]) = map rc_nodes (take i (list_rx s)) @ (rc_nodes (list_rx s ! i) @ [m]) # map rc_nodes (drop (Suc i) (list_rx s))"
    using assms by (simp add: upd_conv_take_nth_drop)
  moreover have "map rc_nodes (list_rx s) = map rc_nodes (take i (list_rx s)) @ rc_nodes (list_rx s ! i) # map rc_nodes (drop (Suc i) (list_rx s))"
    using assms(1) by (metis id_take_nth_drop list.simps(9) map_append)
  ultimately show ?thesis by (simp add: queued_def)
qed

lemma assignment_queues:
  assumes "sdiohal_data_list_assignment m h channel s = Some s'"
  shows "mset (queued s') = mset (queued s) + {#m#}" "same_frag s s'" "pagecnt_bias s' = pagecnt_bias s"
  using assms by (auto simp: sdiohal_data_list_assignment_def aget_eq_Some_iff aset_eq_Some_iff queued_update same_frag_def split: bind_splits)

lemma queued_frame [simp]:
  "queued (s\<lparr>rx_packer_cnt := a, rx_nodes := b, pagecnt_bias := c\<rparr>) = queued s"
  by (simp add: queued_def)

lemma align_pos: "0 < a \<Longrightarrow> 4 \<le> SDIOHAL_ALIGN_4BYTE a"
  by (simp add: SDIOHAL_ALIGN_4BYTE_def)

lemma packet_added:
  assumes "sdiohal_data_list_assignment m h channel (s\<lparr>rx_packer_cnt := a, rx_nodes := b, pagecnt_bias := pagecnt_bias s - 1\<rparr>) = Some s1"
    and "packets_added pg len (p + 8) s1 s'" "rx_page m = pg" "p + 4 \<le> len"
  shows "packets_added pg len p s s'"
proof -
  note q = assignment_queues [OF assms(1)]
  from assms(2) obtain news where n: "mset (queued s') = mset (queued s1) + mset news" "pagecnt_bias s' = pagecnt_bias s1 - int (length news)"
    "same_frag s1 s'" "\<forall>m \<in> set news. rx_page m = pg" "news \<noteq> [] \<longrightarrow> 4 * length news + (p + 8) \<le> len"
    unfolding packets_added_def by blast
  have "4 * length (m # news) + p \<le> len" using n(5) assms(4) by (cases "news = []") simp_all
  then show ?thesis unfolding packets_added_def
    using n q assms(3) by (intro exI [of _ "m # news"]) (auto simp: same_frag_def)
qed

lemma loop_adds:
  assumes "rx_buf_loop pg base valid_len buf p n s = Some r"
  shows "\<forall>buf' s' ret. r = Some (buf', s', ret) \<longrightarrow> packets_added pg (length buf) p s s'"
proof (rule rx_buf_loop.raw_induct [where P = "\<lambda>pg base valid_len buf p n s r.
      \<forall>buf' s' ret. r = Some (buf', s', ret) \<longrightarrow> packets_added pg (length buf) p s s'", OF _ assms], goal_cases)
  case (1 loop pg base valid_len buf p n s r)
  show ?case
  proof (intro allI impI)
    fix buf' s' ret assume r: "r = Some (buf', s', ret)"
    show "packets_added pg (length buf) p s s'"
    proof (cases "n \<ge> valid_len \<or> get_puh buf p = None")
      case True
      then show ?thesis using 1(2) r by (auto split: if_splits option.splits)
    next
      case False
      then obtain h where h: "get_puh buf p = Some h" by auto
      let ?h = "puh_with_sum h"
      note l = get_puh_ok [OF h, THEN conjunct2]
      consider (eof) "puh_eof h \<noteq> 0" | (skip) "puh_eof h = 0" "puh_type h = 15" | (packet) "puh_eof h = 0" "puh_type h \<noteq> 15" by blast
      then show ?thesis
      proof cases
        case eof
        then show ?thesis using 1(2) r h False by simp
      next
        case skip
        then have "loop pg base valid_len buf (p + SDIO_PUB_HEADER_SIZE + SDIOHAL_ALIGN_4BYTE (puh_len h)) n s = Some r"
          using 1(2) h False by simp
        from 1(1) [OF this] r show ?thesis by (auto intro: packets_added_mono)
      next
        case packet
        obtain b where b: "put_puh buf p ?h = Some b" "length b = length buf"
          using l memcpy_at_total [of p "puh_bytes ?h" buf] by (auto simp: put_puh_def)
        let ?c = "sdiohal_hwtype_to_channel False (puh_type h) (puh_subtype h)"
        let ?n = "(n + puh_len h) mod 2 ^ 32"
        let ?m = "\<lparr>rx_page = pg, rx_off = base + p, rx_len = puh_len ?h\<rparr>"
        let ?s = "s\<lparr>rx_packer_cnt := rx_packer_cnt s + 1, rx_nodes := rx_nodes s - 1, pagecnt_bias := pagecnt_bias s - 1\<rparr>"
        show ?thesis
        proof (cases "puh_valid ?h ?c")
          case False
          then have "loop pg base valid_len b p ?n s = Some r" using 1(2) h packet b \<open>\<not> (valid_len \<le> n \<or> _)\<close> by (simp add: Let_def)
          from 1(1) [OF this] r b(2) show ?thesis by auto
        next
          case valid: True
          show ?thesis
          proof (cases "rx_nodes s = 0 \<or> sdiohal_data_list_assignment ?m ?h ?c ?s = None")
            case True
            then show ?thesis using 1(2) h packet b valid r \<open>\<not> (valid_len \<le> n \<or> _)\<close>
              by (cases "rx_nodes s = 0") (auto simp: Let_def)
          next
            case no: False
            then obtain s1 where a: "sdiohal_data_list_assignment ?m ?h ?c ?s = Some s1" by auto
            have "loop pg base valid_len b (p + SDIO_PUB_HEADER_SIZE + SDIOHAL_ALIGN_4BYTE (puh_len ?h)) ?n s1 = Some r"
              using 1(2) h packet b valid no a \<open>\<not> (valid_len \<le> n \<or> _)\<close> by (simp add: Let_def)
            from 1(1) [OF this] r b(2) have "packets_added pg (length buf) (p + SDIO_PUB_HEADER_SIZE + SDIOHAL_ALIGN_4BYTE (puh_len ?h)) s1 s'" by simp
            then have "packets_added pg (length buf) (p + 8) s1 s'"
              by (rule packets_added_mono) (use align_pos [of "puh_len ?h"] valid in \<open>simp add: SDIO_PUB_HEADER_SIZE_def puh_valid_def\<close>)
            from packet_added [OF a this] l show ?thesis by simp
          qed
        qed
      qed
    qed
  qed
qed

section \<open>The page in use\<close>

text \<open>
  The reference counts are those of the packets that are held, and of the page in use as many more as \<open>pagecnt_bias\<close> says.
  The packets in that page lie below \<open>fr_offset\<close>, but for those in \<open>ov\<close>: the code never compares
  the length in a header with what was read.
\<close>

definition frag_ok :: "(rx_mbuf \<Rightarrow> bool) \<Rightarrow> int \<Rightarrow> sdio_rx \<Rightarrow> rx_mbuf multiset \<Rightarrow> bool" where
  "frag_ok ov mx s M \<longleftrightarrow> (case fr_page s of
     None \<Rightarrow> \<forall>pg. page_count s pg = refs M pg
   | Some c \<Rightarrow> (\<forall>pg. page_count s pg = refs M pg + (if pg = c then pagecnt_bias s else 0)) \<and> 4 * (mx - pagecnt_bias s) \<le> int (fr_offset s) \<and>
       pagecnt_bias s \<le> mx \<and> fr_offset s \<le> fr_size s \<and> int (fr_size s) \<le> mx \<and>
       (\<forall>m \<in># M. rx_page m = c \<longrightarrow> ov m \<or> rx_off m + SDIO_PUB_HEADER_SIZE + rx_len m \<le> fr_offset s))"

lemma frag_okD:
  assumes "frag_ok ov mx s M" "fr_page s = Some c"
  shows "page_count s c = refs M c + pagecnt_bias s" "q \<noteq> c \<Longrightarrow> page_count s q = refs M q"
    "4 * (mx - pagecnt_bias s) \<le> int (fr_offset s)" "pagecnt_bias s \<le> mx" "fr_offset s \<le> fr_size s" "int (fr_size s) \<le> mx"
    "m \<in># M \<Longrightarrow> rx_page m = c \<Longrightarrow> ov m \<or> rx_off m + SDIO_PUB_HEADER_SIZE + rx_len m \<le> fr_offset s"
  using assms by (auto simp: frag_ok_def)

lemma bias_pos: "frag_ok ov mx s M \<Longrightarrow> fr_page s = Some c \<Longrightarrow> 0 < mx \<Longrightarrow> 0 < pagecnt_bias s"
  using frag_okD(3,5,6) [of ov mx s M c] by simp

lemma alloc_order_le: "alloc_order g k = Some (pg, j) \<Longrightarrow> g j = Some pg \<and> j \<le> k"
proof (induction k)
  case 0
  then show ?case by (auto split: option.splits)
next
  case (Suc k)
  then show ?case by (cases "g (Suc k)") (auto simp del: alloc_order.simps simp: alloc_order.simps [of g "Suc k"])
qed

text \<open>After another page has been taken, the test passes.\<close>

definition new_page :: "int \<Rightarrow> nat \<Rightarrow> nat \<Rightarrow> sdio_rx \<Rightarrow> sdio_rx" where
  "new_page mx pg sz s = s\<lparr>fr_page := Some pg, fr_size := sz, page_count := (page_count s)(pg := mx), pagecnt_bias := mx, fr_offset := 0\<rparr>"

lemma loop_refills:
  "frag_loop ps mo g fragsz True True s =
     (case alloc_order g mo of None \<Rightarrow> Some (s\<lparr>fr_page := None\<rparr>, None)
      | Some (pg, j) \<Rightarrow> Some (new_page (pagecnt_max_bias ps mo) pg (ps * 2 ^ j) s, Some pg))"
proof (cases "alloc_order g mo")
  case None
  then show ?thesis by (subst frag_loop.simps) (simp add: frag_refill_def del: alloc_order.simps)
next
  case (Some r)
  obtain pg j where r: "r = (pg, j)" by (cases r)
  let ?mx = "pagecnt_max_bias ps mo"
  have f: "frag_refill ps mo g fragsz True s = (new_page ?mx pg (ps * 2 ^ j) s, True)"
    by (simp add: frag_refill_def Some r new_page_def Let_def del: alloc_order.simps)
  have "frag_check ps mo fragsz pg (new_page ?mx pg (ps * 2 ^ j) s) = (new_page ?mx pg (ps * 2 ^ j) s, False)"
    by (simp add: frag_check_def new_page_def)
  then show ?thesis using Some r by (subst frag_loop.simps) (simp add: f new_page_def del: alloc_order.simps)
qed

lemma new_page_ok:
  assumes "\<forall>pg. page_count s pg = refs M pg" "page_count s pg = 0" "int sz \<le> mx"
  shows "frag_ok ov mx (new_page mx pg sz s) M"
proof -
  have z: "refs M pg = 0" using assms by simp
  then have "m \<in># M \<Longrightarrow> rx_page m \<noteq> pg" for m using refs_pos [of m M] by auto
  with assms z show ?thesis by (simp add: frag_ok_def new_page_def)
qed

text \<open>The place that is given out: inside the page, and above everything that is held there.\<close>

definition place_free :: "(rx_mbuf \<Rightarrow> bool) \<Rightarrow> rx_mbuf multiset \<Rightarrow> nat \<Rightarrow> nat \<Rightarrow> bool" where
  "place_free ov M pg off \<longleftrightarrow> (\<forall>m \<in># M. rx_page m = pg \<longrightarrow> ov m \<or> rx_off m + SDIO_PUB_HEADER_SIZE + rx_len m \<le> off)"

lemma loop_takes:
  assumes "frag_ok ov mx s M" "0 < mx" "mx = pagecnt_max_bias ps mo" "\<forall>j pg. g j = Some pg \<longrightarrow> page_count s pg = 0"
  shows "\<exists>s' place. frag_loop ps mo g fragsz True (fr_page s = None) s = Some (s', place) \<and> frag_ok ov mx s' M \<and>
    queued s' = queued s \<and> adma_rx s' = adma_rx s \<and> fr_page s' = place \<and>
    (place \<noteq> None \<longrightarrow> fr_offset s' + fragsz \<le> fr_size s' \<or> fr_offset s' = 0)"
proof -
  have refill: "\<exists>s' place. frag_loop ps mo g fragsz True True t = Some (s', place) \<and> frag_ok ov mx s' M \<and>
      queued s' = queued t \<and> adma_rx s' = adma_rx t \<and> fr_page s' = place \<and>
      (place \<noteq> None \<longrightarrow> fr_offset s' + fragsz \<le> fr_size s' \<or> fr_offset s' = 0)"
    if t: "\<forall>pg. page_count t pg = refs M pg" "\<forall>j pg. g j = Some pg \<longrightarrow> page_count t pg = 0" for t
  proof (cases "alloc_order g mo")
    case None
    then show ?thesis unfolding loop_refills using t(1) by (simp add: frag_ok_def queued_def del: alloc_order.simps)
  next
    case (Some r)
    obtain pg j where r: "r = (pg, j)" by (cases r)
    from alloc_order_le Some r have j: "g j = Some pg" "j \<le> mo" by auto
    have "ps * 2 ^ j \<le> ps * 2 ^ mo" using j(2) by (intro mult_left_mono power_increasing) simp_all
    then have "int (ps * 2 ^ j) \<le> mx" unfolding assms(3) pagecnt_max_bias_def by (simp only: of_nat_le_iff)
    with new_page_ok [OF t(1)] t(2) j(1) have "frag_ok ov mx (new_page mx pg (ps * 2 ^ j) t) M" by blast
    then show ?thesis unfolding loop_refills using Some r by (simp add: assms(3) new_page_def queued_def del: alloc_order.simps)
  qed
  show ?thesis
  proof (cases "fr_page s")
    case None
    with refill [of s] assms(1,4) show ?thesis by (simp add: frag_ok_def)
  next
    case (Some c)
    note d = frag_okD [OF assms(1) Some]
    have b: "0 < pagecnt_bias s" by (rule bias_pos [OF assms(1) Some assms(2)])
    show ?thesis
    proof (cases "fr_offset s + fragsz > fr_size s")
      case False
      then have "frag_loop ps mo g fragsz True False s = Some (s, Some c)" using Some by (subst frag_loop.simps) (simp add: frag_check_def)
      then show ?thesis using Some assms(1) False by simp
    next
      case over: True
      show ?thesis
      proof (cases "refs M c = 0")
        case True
        let ?s = "s\<lparr>page_count := (page_count s)(c := page_count s c + (mx - pagecnt_bias s)), pagecnt_bias := mx, fr_offset := 0\<rparr>"
        have "frag_check ps mo fragsz c s = (?s, False)" using over True d(1) by (simp add: frag_check_def assms(3))
        then have "frag_loop ps mo g fragsz True False s = Some (?s, Some c)" using Some by (subst frag_loop.simps) simp
        moreover have "m \<in># M \<Longrightarrow> rx_page m \<noteq> c" for m using True refs_pos [of m M] by auto
        then have "frag_ok ov mx ?s M" using d(1,2,6) True Some by (simp add: frag_ok_def)
        ultimately show ?thesis using Some by (simp add: queued_def)
      next
        case False
        let ?s = "s\<lparr>page_count := (page_count s)(c := page_count s c - pagecnt_bias s)\<rparr>"
        have "frag_check ps mo fragsz c s = (?s, True)" using over False d(1) by (simp add: frag_check_def Let_def)
        then have l: "frag_loop ps mo g fragsz True False s = frag_loop ps mo g fragsz True True ?s" using Some by (subst frag_loop.simps) simp
        have "\<forall>pg. page_count ?s pg = refs M pg" using d(1,2) by simp
        moreover have "g j \<noteq> Some c" for j using assms(4) d(1) b refs_nonneg [of M c] by fastforce
        then have "\<forall>j pg. g j = Some pg \<longrightarrow> page_count ?s pg = 0" using assms(4) by auto
        ultimately show ?thesis using refill [of ?s] l Some by (simp add: queued_def)
      qed
    qed
  qed
qed

lemma alloc_takes:
  assumes "frag_ok ov mx s M" "0 < mx" "mx = pagecnt_max_bias ps mo" "\<forall>j pg. g j = Some pg \<longrightarrow> page_count s pg = 0" "\<not> adma_rx s"
  shows "\<exists>s' place. sdiohal_alloc_frag ps mo g fragsz True s = Some (s', place) \<and> frag_ok ov mx s' M \<and> queued s' = queued s \<and> \<not> adma_rx s' \<and>
    (\<forall>pg off sz. place = Some (pg, off, sz) \<longrightarrow> fr_page s' = Some pg \<and> fr_offset s' = off + sz \<and> 4 * (mx - pagecnt_bias s') \<le> int off \<and>
       place_free ov M pg off)"
proof -
  from loop_takes [OF assms(1-4), of fragsz] obtain s1 pl where l: "frag_loop ps mo g fragsz True (fr_page s = None) s = Some (s1, pl)"
    "frag_ok ov mx s1 M" "queued s1 = queued s" "adma_rx s1 = adma_rx s" "fr_page s1 = pl"
    "pl \<noteq> None \<longrightarrow> fr_offset s1 + fragsz \<le> fr_size s1 \<or> fr_offset s1 = 0" by blast
  show ?thesis
  proof (cases pl)
    case None
    then show ?thesis using l assms(5) by (simp add: sdiohal_alloc_frag_def)
  next
    case (Some c)
    let ?sz = "if fr_size s1 < fragsz then fr_size s1 else fragsz"
    let ?s = "s1\<lparr>fr_offset := fr_offset s1 + ?sz\<rparr>"
    have p: "fr_page s1 = Some c" using l(5) Some by simp
    note d = frag_okD [OF l(2) p]
    have r: "sdiohal_alloc_frag ps mo g fragsz True s = Some (?s, Some (c, fr_offset s1, ?sz))"
      using l(1,4) Some assms(5) by (simp add: sdiohal_alloc_frag_def Let_def)
    have "fr_offset s1 + ?sz \<le> fr_size s1" using l(6) Some by auto
    then have "frag_ok ov mx ?s M" using l(2) p d(3) by (auto simp: frag_ok_def)
    moreover have "place_free ov M c (fr_offset s1)" using d(7) by (simp add: place_free_def)
    ultimately show ?thesis using r p d(3) l(3,4) assms(5) by (intro exI [of _ ?s]) (auto simp: queued_def)
  qed
qed

section \<open>Packets come and go\<close>

lemma fold_put_page:
  "fold (\<lambda>m. put_page (rx_page m)) ms s = s\<lparr>page_count := \<lambda>pg. page_count s pg - refs (mset ms) pg\<rparr>"
proof (induction ms arbitrary: s)
  case (Cons m ms)
  have "(\<lambda>pg. page_count (put_page (rx_page m) s) pg - refs (mset ms) pg) = (\<lambda>pg. page_count s pg - refs (mset (m # ms)) pg)"
    by (rule ext) (simp add: put_page_def)
  then show ?case by (simp add: Cons.IH, simp add: put_page_def)
qed simp

lemma free_ok:
  assumes "frag_ok ov mx s (M + mset ms)"
  shows "frag_ok ov mx (sdiohal_rx_list_free ms s) M"
  using assms by (auto simp: sdiohal_rx_list_free_def fold_put_page frag_ok_def split: option.splits)

lemma frag_ok_list_rx: "frag_ok ov mx (s\<lparr>list_rx := cs\<rparr>) M = frag_ok ov mx s M"
  by (cases "fr_page s") (simp_all add: frag_ok_def)

lemma free_frame: "queued (sdiohal_rx_list_free ms s) = queued s" "adma_rx (sdiohal_rx_list_free ms s) = adma_rx s"
  "flag_init (sdiohal_rx_list_free ms s) = flag_init s"
  by (simp_all add: sdiohal_rx_list_free_def fold_put_page queued_def)

lemma dispatch_walk_nodes:
  "rx_dispatch_walk cb cs = (cs', pops, freed) \<Longrightarrow>
     mset (concat (map rc_nodes cs)) = mset (concat (map rc_nodes cs')) + mset (concat (map snd pops)) + mset freed"
proof (induction cb cs arbitrary: cs' pops freed rule: rx_dispatch_walk.induct)
  case (3 cb c d cs)
  obtain cs1 pops1 freed1 where w: "rx_dispatch_walk cb (d # cs) = (cs1, pops1, freed1)" by (cases "rx_dispatch_walk cb (d # cs)")
  from 3(1) [OF w] 3(2) w show ?case by (auto simp: Let_def split: if_splits)
qed auto

lemma dispatch_ok:
  assumes "frag_ok ov mx s (mset (queued s) + held)" "sdiohal_rx_list_dispatch cb s = (s', pops, ret)"
  shows "frag_ok ov mx s' (mset (queued s') + (held + mset (concat (map snd pops))))" "adma_rx s' = adma_rx s"
proof -
  show "frag_ok ov mx s' (mset (queued s') + (held + mset (concat (map snd pops))))"
  proof (cases "flag_init s")
    case False
    then show ?thesis using assms by (auto simp: sdiohal_rx_list_dispatch_def)
  next
    case True
    obtain cs freed where w: "rx_dispatch_walk cb (list_rx s) = (cs, pops, freed)" and s': "s' = sdiohal_rx_list_free freed (s\<lparr>list_rx := cs\<rparr>)"
      using assms(2) True by (auto simp: sdiohal_rx_list_dispatch_def Let_def split: prod.splits)
    have q: "queued s' = concat (map rc_nodes cs)" unfolding s' free_frame by (simp add: queued_def)
    have E: "mset (queued s) + held = mset (queued s') + (held + mset (concat (map snd pops))) + mset freed"
      using dispatch_walk_nodes [OF w] q by (simp add: queued_def)
    have "frag_ok ov mx (s\<lparr>list_rx := cs\<rparr>) (mset (queued s') + (held + mset (concat (map snd pops))) + mset freed)"
      using assms(1) unfolding E frag_ok_list_rx .
    from free_ok [OF this] show ?thesis by (simp add: s')
  qed
  show "adma_rx s' = adma_rx s"
    using assms(2) by (auto simp: sdiohal_rx_list_dispatch_def Let_def free_frame split: if_splits prod.splits)
qed

text \<open>
  The receive thread reads and hands over, the clients give back what they hold. The bus delivers any bytes; the
  packets whose header claims more than was read are in \<open>ov\<close>. New pages are not in use.
\<close>

inductive rx_reach :: "nat \<Rightarrow> nat \<Rightarrow> (rx_mbuf \<Rightarrow> bool) \<Rightarrow> sdio_rx \<Rightarrow> rx_mbuf multiset \<Rightarrow> bool" for ps mo ov where
  start: "fr_page s = None \<Longrightarrow> (\<And>pg. page_count s pg = 0) \<Longrightarrow> queued s = [] \<Longrightarrow> \<not> adma_rx s \<Longrightarrow> rx_reach ps mo ov s {#}"
| read: "rx_reach ps mo ov s held \<Longrightarrow> \<forall>j pg. g j = Some pg \<longrightarrow> page_count s pg = 0 \<Longrightarrow>
    sdiohal_alloc_frag ps mo g fragsz True s = Some (s1, Some (pg, off, sz)) \<Longrightarrow> length buf = sz \<Longrightarrow>
    sdiohal_rx_buf_parser pg off buf valid_len s1 = Some (Some (buf', s2, ret)) \<Longrightarrow>
    \<forall>m \<in> set (queued s2). m \<in> set (queued s1) \<or> ov m \<or> rx_off m + SDIO_PUB_HEADER_SIZE + rx_len m \<le> off + sz \<Longrightarrow>
    rx_reach ps mo ov s2 held"
| no_page: "rx_reach ps mo ov s held \<Longrightarrow> \<forall>j pg. g j = Some pg \<longrightarrow> page_count s pg = 0 \<Longrightarrow>
    sdiohal_alloc_frag ps mo g fragsz True s = Some (s1, None) \<Longrightarrow> rx_reach ps mo ov s1 held"
| dispatch: "rx_reach ps mo ov s held \<Longrightarrow> sdiohal_rx_list_dispatch cb s = (s', pops, ret) \<Longrightarrow>
    rx_reach ps mo ov s' (held + mset (concat (map snd pops)))"
| free: "rx_reach ps mo ov s held \<Longrightarrow> mset ms \<subseteq># held \<Longrightarrow> rx_reach ps mo ov (sdiohal_rx_list_free ms s) (held - mset ms)"

lemma max_bias_pos: "0 < ps \<Longrightarrow> 0 < pagecnt_max_bias ps mo"
  by (simp add: pagecnt_max_bias_def)

lemma rx_reach_ok:
  assumes "rx_reach ps mo ov s held" "0 < ps"
  shows "frag_ok ov (pagecnt_max_bias ps mo) s (mset (queued s) + held) \<and> \<not> adma_rx s"
  using assms(1)
proof induction
  case (start s)
  then show ?case by (simp add: frag_ok_def)
next
  case (read s held g fragsz s1 pg off sz buf valid_len buf' s2 ret)
  let ?mx = "pagecnt_max_bias ps mo" and ?M = "mset (queued s) + held"
  have I: "frag_ok ov ?mx s ?M" "\<not> adma_rx s" using read.IH by simp_all
  from alloc_takes [OF I(1) max_bias_pos [OF assms(2)] refl read.hyps(2) I(2), of fragsz] read.hyps(3)
  have a: "frag_ok ov ?mx s1 ?M" "queued s1 = queued s" "\<not> adma_rx s1" "fr_page s1 = Some pg" "fr_offset s1 = off + sz"
    "4 * (?mx - pagecnt_bias s1) \<le> int off" by auto
  note d = frag_okD [OF a(1,4)]
  from loop_adds [OF read.hyps(5) [unfolded sdiohal_rx_buf_parser_def]] obtain news where
    n: "mset (queued s2) = mset (queued s1) + mset news" "pagecnt_bias s2 = pagecnt_bias s1 - int (length news)"
      "same_frag s1 s2" "\<forall>m \<in> set news. rx_page m = pg" "news \<noteq> [] \<longrightarrow> 4 * length news \<le> length buf"
    unfolding packets_added_def by auto
  have N: "mset (queued s2) + held = ?M + mset news" using n(1) a(2) by simp
  have f: "fr_page s2 = Some pg" "fr_offset s2 = off + sz" "fr_size s2 = fr_size s1" "page_count s2 = page_count s1"
    using n(3) a(4,5) by (simp_all add: same_frag_def)
  have "4 * int (length news) \<le> int sz" using n(5) read.hyps(4) by (cases "news = []") auto
  then have b: "4 * (?mx - pagecnt_bias s2) \<le> int (fr_offset s2)" using a(6) n(2) f(2) by simp
  have c: "page_count s2 q = refs (mset (queued s2) + held) q + (if q = pg then pagecnt_bias s2 else 0)" for q
    unfolding N refs_simps refs_same_page [OF n(4)] f(4) using d(1) d(2) [of q] n(2) by simp
  have p: "ov m \<or> rx_off m + SDIO_PUB_HEADER_SIZE + rx_len m \<le> fr_offset s2" if m: "m \<in># mset (queued s2) + held" "rx_page m = pg" for m
  proof (cases "m \<in># ?M")
    case True
    then show ?thesis using d(7) [OF _ m(2)] a(5) f(2) by simp
  next
    case False
    then have "m \<in> set (queued s2)" "m \<notin> set (queued s1)" using m(1) a(2) by simp_all
    then show ?thesis using read.hyps(6) f(2) by auto
  qed
  have "pagecnt_bias s2 \<le> ?mx" using d(4) n(2) by simp
  with b c p d(5,6) a(5) f have "frag_ok ov ?mx s2 (mset (queued s2) + held)" unfolding frag_ok_def by simp
  then show ?case using n(3) a(3) by (simp add: same_frag_def)
next
  case (no_page s held g fragsz s1)
  have I: "frag_ok ov (pagecnt_max_bias ps mo) s (mset (queued s) + held)" "\<not> adma_rx s" using no_page.IH by simp_all
  from alloc_takes [OF I(1) max_bias_pos [OF assms(2)] refl no_page.hyps(2) I(2), of fragsz] no_page.hyps(3)
  show ?case by auto
next
  case (dispatch s held cb s' pops ret)
  note d = dispatch_ok [OF dispatch.IH [THEN conjunct1] dispatch.hyps(2)]
  show ?case using d(1) dispatch.IH unfolding d(2) by (rule conjI [OF _ conjunct2])
next
  case (free s held ms)
  have "held = (held - mset ms) + mset ms" using free.hyps(2) by simp
  then have E: "mset (queued s) + held = mset (queued s) + (held - mset ms) + mset ms" by (metis add.assoc)
  have "frag_ok ov (pagecnt_max_bias ps mo) s (mset (queued s) + (held - mset ms) + mset ms)"
    using free.IH [THEN conjunct1] unfolding E .
  note f = free_ok [OF this]
  show ?case unfolding free_frame using f free.IH by blast
qed

lemma held_page_counted:
  assumes "frag_ok ov mx s M" "0 < mx" "m \<in># M"
  shows "0 < page_count s (rx_page m)"
proof (cases "fr_page s")
  case None
  then show ?thesis using assms(1) refs_pos [OF assms(3)] by (simp add: frag_ok_def)
next
  case (Some c)
  show ?thesis
    using frag_okD(1,2) [OF assms(1) Some] bias_pos [OF assms(1) Some assms(2)] refs_pos [OF assms(3)]
    by (cases "rx_page m = c") auto
qed

text \<open>
  C7. However reading, handing over and giving back follow one another, the next place for the bus is
  found without an endless loop, the page of each packet that is still queued or held keeps a
  reference, and the place lies above every such packet in its page, but for those whose header
  claimed more bytes than were read (\<open>ov\<close>): the code does not check that, and such a packet can
  reach into the next place (\<open>long_packet_overlaps\<close>).
\<close>

theorem next_place_is_free:
  assumes "rx_reach ps mo ov s held" "0 < ps" "\<forall>j pg. g j = Some pg \<longrightarrow> page_count s pg = 0"
  shows "\<exists>s' place. sdiohal_alloc_frag ps mo g fragsz True s = Some (s', place) \<and>
    (\<forall>pg off sz. place = Some (pg, off, sz) \<longrightarrow> place_free ov (mset (queued s) + held) pg off \<and> off + sz \<le> fr_size s') \<and>
    (\<forall>m \<in># mset (queued s) + held. 0 < page_count s (rx_page m) \<and> 0 < page_count s' (rx_page m))"
proof -
  let ?mx = "pagecnt_max_bias ps mo"
  have I: "frag_ok ov ?mx s (mset (queued s) + held)" "\<not> adma_rx s" using rx_reach_ok [OF assms(1,2)] by simp_all
  from alloc_takes [OF I(1) max_bias_pos [OF assms(2)] refl assms(3) I(2), of fragsz] obtain s' place where
    a: "sdiohal_alloc_frag ps mo g fragsz True s = Some (s', place)" "frag_ok ov ?mx s' (mset (queued s) + held)"
      "\<forall>pg off sz. place = Some (pg, off, sz) \<longrightarrow> fr_page s' = Some pg \<and> fr_offset s' = off + sz \<and> place_free ov (mset (queued s) + held) pg off"
    by blast
  have "off + sz \<le> fr_size s'" if "place = Some (pg, off, sz)" for pg off sz using a(3) that frag_okD(5) [OF a(2)] by auto
  then show ?thesis
    using a held_page_counted [OF I(1) max_bias_pos [OF assms(2)]] held_page_counted [OF a(2) max_bias_pos [OF assms(2)]] by blast
qed

text \<open>One packet read: a header that claims \<open>len\<close> bytes and four bytes behind it.\<close>

definition one_packet :: "nat \<Rightarrow> u8 list" where
  "one_packet len = puh_bytes \<lparr>puh_pad = 0, puh_check_sum = 0, puh_len = len, puh_eof = 0, puh_subtype = 0, puh_type = 0\<rparr> @ [1, 2, 3, 4]"

definition one_read :: "nat \<Rightarrow> sdio_rx" where
  "one_read len = (let s = new_page (pagecnt_max_bias 4096 2) 7 16384 sdio_rx_start in
     s\<lparr>fr_offset := 8, pagecnt_bias := pagecnt_bias s - 1, rx_packer_cnt := 1, rx_nodes := SDIOHAL_RX_NODE_NUM - 1,
       list_rx := (list_rx s)[0 := \<lparr>rc_nodes = [\<lparr>rx_page = 7, rx_off = 0, rx_len = len\<rparr>], rc_type = 0, rc_subtype = 0\<rparr>]\<rparr>)"

lemma alloc_start:
  "sdiohal_alloc_frag 4096 2 (\<lambda>_. Some 7) 8 True sdio_rx_start
     = Some ((new_page (pagecnt_max_bias 4096 2) 7 16384 sdio_rx_start)\<lparr>fr_offset := 8\<rparr>, Some (7, 0, 8))"
  by (simp add: sdiohal_alloc_frag_def sdio_rx_start_def loop_refills new_page_def)

lemma one_packet_parsed:
  assumes "0 < len" "len \<le> 1600"
  shows "sdiohal_rx_buf_parser 7 0 (one_packet len) 1 ((new_page (pagecnt_max_bias 4096 2) 7 16384 sdio_rx_start)\<lparr>fr_offset := 8\<rparr>)
    = Some (Some (one_packet len, one_read len, 0))"
proof -
  let ?h = "\<lparr>puh_pad = 0, puh_check_sum = 0, puh_len = len, puh_eof = 0, puh_subtype = 0, puh_type = 0\<rparr>"
  have g: "get_puh (one_packet len) 0 = Some ?h"
    by (rule get_puh_bytes) (use assms in \<open>simp_all add: one_packet_def puh_ok_def\<close>)
  have p: "put_puh (one_packet len) 0 ?h = Some (one_packet len)" using put_puh_back [OF g] .
  have e: "rx_buf_loop 7 0 1 buf q len s = Some (Some (buf, s, 0))" for buf q s
    using assms(1) by (subst rx_buf_loop.simps) simp
  have v: "puh_valid ?h 12"
    using assms by (simp add: puh_valid_def SDIO_CHANNEL_NUM_def SDIO_CHN_TX_NUM_def SDIO_CHN_RX_NUM_def MAX_PAC_SIZE_def SDIO_PUB_HEADER_SIZE_def SDIOHAL_BLK_SIZE_def)
  show ?thesis unfolding sdiohal_rx_buf_parser_def
    using assms v e
    by (subst rx_buf_loop.simps) (simp add: g p puh_with_sum_def sdiohal_hwtype_to_channel_def Let_def SDIO_CHN_TX_NUM_def new_page_def sdio_rx_start_def SDIOHAL_RX_NODE_NUM_def
      sdiohal_data_list_assignment_def sdiohal_get_rx_channel_list_def SDIO_CHN_RX_NUM_def aget_def aset_def one_read_def)
qed

lemma one_read_queued:
  "queued (one_read len) = [\<lparr>rx_page = 7, rx_off = 0, rx_len = len\<rparr>]"
  by (simp add: one_read_def queued_def new_page_def sdio_rx_start_def SDIO_CHN_RX_NUM_def numeral_eq_Suc)

lemma one_read_reached:
  assumes "0 < len" "len \<le> 1600" "4 < len \<longrightarrow> ov \<lparr>rx_page = 7, rx_off = 0, rx_len = len\<rparr>"
  shows "rx_reach 4096 2 ov (one_read len) {#}"
proof (rule rx_reach.read [OF _ _ alloc_start _ one_packet_parsed [OF assms(1,2)]])
  show "rx_reach 4096 2 ov sdio_rx_start {#}"
    by (rule rx_reach.start) (simp_all add: sdio_rx_start_def queued_def)
  show "\<forall>m \<in> set (queued (one_read len)). m \<in> set (queued ((new_page (pagecnt_max_bias 4096 2) 7 16384 sdio_rx_start)\<lparr>fr_offset := 8\<rparr>)) \<or>
      ov m \<or> rx_off m + SDIO_PUB_HEADER_SIZE + rx_len m \<le> 0 + 8"
    using assms(3) by (auto simp: one_read_queued SDIO_PUB_HEADER_SIZE_def)
qed (simp_all add: sdio_rx_start_def one_packet_def)

text \<open>The place that follows.\<close>

lemma one_read_next: "\<exists>s'. sdiohal_alloc_frag 4096 2 (\<lambda>_. None) 8 True (one_read len) = Some (s', Some (7, 8, 8))"
proof -
  have "frag_loop 4096 2 (\<lambda>_. None) 8 True False (one_read len) = Some (one_read len, Some 7)"
    by (subst frag_loop.simps) (simp add: one_read_def new_page_def frag_check_def)
  then show ?thesis
    by (simp add: sdiohal_alloc_frag_def one_read_def new_page_def)
qed

text \<open>A header that claims more than was read: the place for the next reading lies inside the packet that is still queued.\<close>

lemma long_packet_overlaps:
  "rx_reach 4096 2 (\<lambda>m. rx_len m = 100) (one_read 100) {#} \<and>
   (\<exists>s'. sdiohal_alloc_frag 4096 2 (\<lambda>_. None) 8 True (one_read 100) = Some (s', Some (7, 8, 8))) \<and>
   \<not> place_free (\<lambda>_. False) (mset (queued (one_read 100))) 7 8"
  using one_read_reached [of 100 "\<lambda>m. rx_len m = 100"] one_read_next by (simp add: place_free_def one_read_queued)

lemma next_place_is_free_witness:
  "\<exists>s'. sdiohal_alloc_frag 4096 2 (\<lambda>_. None) 8 True (one_read 4) = Some (s', Some (7, 8, 8)) \<and>
    place_free (\<lambda>_. False) {#\<lparr>rx_page = 7, rx_off = 0, rx_len = 4\<rparr>#} 7 8 \<and> 16 \<le> fr_size s' \<and> 0 < page_count s' 7"
proof -
  have "rx_reach 4096 2 (\<lambda>_. False) (one_read 4) {#}" by (rule one_read_reached) simp_all
  from next_place_is_free [OF this, of "\<lambda>_. None" 8] one_read_next [of 4] show ?thesis
    by (auto simp: one_read_queued)
qed

section \<open>Handing over, and how much to read\<close>

lemma dispatch_walk_last:
  "rx_dispatch_walk cb cs = (cs', pops, freed) \<Longrightarrow> cs \<noteq> [] \<Longrightarrow> length cs' = length cs \<and> last cs' = last cs \<and>
     (\<forall>i < length cs - 1. rc_subtype (cs ! i) < SDIO_CHN_RX_NUM \<longrightarrow> rc_nodes (cs' ! i) = [])"
proof (induction cb cs arbitrary: cs' pops freed rule: rx_dispatch_walk.induct)
  case (3 cb c d cs)
  obtain cs1 pops1 freed1 where w: "rx_dispatch_walk cb (d # cs) = (cs1, pops1, freed1)" by (cases "rx_dispatch_walk cb (d # cs)")
  from 3(1) [OF w] have IH: "length cs1 = Suc (length cs)" "last cs1 = last (d # cs)"
    "\<forall>i < length cs. rc_subtype ((d # cs) ! i) < SDIO_CHN_RX_NUM \<longrightarrow> rc_nodes (cs1 ! i) = []" by simp_all
  from 3(2) w obtain e where e: "cs' = e # cs1" "rc_subtype c < SDIO_CHN_RX_NUM \<longrightarrow> rc_nodes e = []"
    by (auto simp: Let_def sdiohal_hwtype_to_channel_def SDIO_CHANNEL_NUM_def split: if_splits)
  have "rc_nodes (cs' ! i) = []" if "i < Suc (length cs)" "rc_subtype ((c # d # cs) ! i) < SDIO_CHN_RX_NUM" for i
    using that e IH(3) by (cases i) simp_all
  moreover have "cs1 \<noteq> []" using IH(1) by auto
  ultimately show ?case using IH(1,2) e(1) by simp
qed auto

text \<open>The packets of the last channel, 25, are never handed over.\<close>

lemma last_channel_kept:
  assumes "sdiohal_rx_list_dispatch cb s = (s', pops, ret)" "length (list_rx s) = SDIO_CHN_RX_NUM"
  shows "list_rx s' ! (SDIO_CHN_RX_NUM - 1) = list_rx s ! (SDIO_CHN_RX_NUM - 1)"
proof (cases "flag_init s")
  case True
  obtain cs freed where w: "rx_dispatch_walk cb (list_rx s) = (cs, pops, freed)" and s': "s' = sdiohal_rx_list_free freed (s\<lparr>list_rx := cs\<rparr>)"
    using assms(1) True by (auto simp: sdiohal_rx_list_dispatch_def Let_def split: prod.splits)
  have "list_rx s \<noteq> []" using assms(2) by (auto simp: SDIO_CHN_RX_NUM_def)
  with dispatch_walk_last [OF w] assms(2) have "last cs = last (list_rx s)" "length cs = SDIO_CHN_RX_NUM" "cs \<noteq> []" by auto
  with \<open>list_rx s \<noteq> []\<close> assms(2) have "cs ! (SDIO_CHN_RX_NUM - 1) = list_rx s ! (SDIO_CHN_RX_NUM - 1)" by (simp add: last_conv_nth)
  then show ?thesis by (simp add: s' sdiohal_rx_list_free_def fold_put_page)
qed (use assms in \<open>auto simp: sdiohal_rx_list_dispatch_def\<close>)

lemma dtbs_bounds:
  "SDIOHAL_BLK_SIZE dvd dtbs (sdiohal_rx_adapt_set_dtbs len s) \<and> 0 < dtbs (sdiohal_rx_adapt_set_dtbs len s) \<and>
   dtbs (sdiohal_rx_adapt_set_dtbs len s) \<le> SDIOHAL_RX_RECVBUF_LEN"
proof (cases "len = 0")
  case False
  let ?n = "SDIOHAL_ALIGN_BLK (len + 8 * (len div 1024 + 1) + 64)"
  have "512 dvd ?n" "0 < ?n" by (simp_all add: SDIOHAL_ALIGN_BLK_def)
  moreover have "(512 :: nat) dvd 204800" by simp
  ultimately show ?thesis using False
    by (simp add: sdiohal_rx_adapt_set_dtbs_def Let_def SDIOHAL_BLK_SIZE_def SDIOHAL_RX_RECVBUF_LEN_def MAX_CHAIN_NODE_NUM_def MAX_MBUF_SIZE_def)
qed (simp add: sdiohal_rx_adapt_set_dtbs_def MAX_PAC_SIZE_def SDIOHAL_BLK_SIZE_def SDIOHAL_RX_RECVBUF_LEN_def MAX_CHAIN_NODE_NUM_def MAX_MBUF_SIZE_def)

end
