(* ===== verification/Firmware.thy ===== *)
theory Firmware
  imports Prelude
begin

text \<open>
  The firmware of the chip, BSP/platform/wcn_boot.c: which chip it is, where its firmware
  comes from, which part of a container is wanted, and its writing in packets. For the SDIO
  build that tests the chip at run time, with CONFIG_WCN_RESUME_POWER_DOWN not defined and no
  firmware linked in. Results of the kernel, the files and the bus are fields of a record;
  None stands for an access the kernel would oops on.
\<close>

section \<open>What the driver finds outside\<close>

text \<open>
  One attempt to start the chip: results of allocations, register reads, the firmware loader, the
  files at the five paths, the bytes that fresh memory holds, and the results of the bus writes.
\<close>

record attempt =
  at_card :: bool
  at_id_m3e :: "u32 option"
  at_id_m3 :: "u32 option"
  at_kmalloc :: bool
  at_request :: "u8 list option"
  at_vmalloc :: bool
  at_files :: "nat \<Rightarrow> u8 list option"
  at_junk :: "nat \<Rightarrow> u8"
  at_writes :: "nat \<Rightarrow> bool"
  at_run :: bool
  at_sync :: "nat \<Rightarrow> u32 option"

text \<open>
  What outlives an attempt: whether the file system is used, the path tried last, the copy of
  the firmware, \<open>functionmask\<close>, the static \<open>chip_id\<close>, and how often memory was lost or \<open>vfree\<close> got an
  address that is not the start of an allocation.
\<close>

record fw_store =
  is_btwf_in_sysfs :: bool
  fw_path :: nat
  fw_backup :: "u8 list option"
  functionmask :: "u8 list"
  chip_id :: u32
  lost_mem :: nat
  bad_vfree :: nat

text \<open>The structure \<open>marlin_firmware\<close>; \<open>fw_data\<close> is the place of the pointer \<open>data\<close> in its allocation \<open>fw_mem\<close>.\<close>

record marlin_firmware =
  fw_mem :: "u8 list"
  fw_data :: nat
  fw_size :: u64
  is_from_fs :: bool
  is_from_hex :: bool

definition WCN_FW_MAX_PATH_NUM :: nat where "WCN_FW_MAX_PATH_NUM = 5"
definition PACKET_SIZE :: nat where "PACKET_SIZE = 32 * 1024"
definition CP_START_ADDR :: u32 where "CP_START_ADDR = 0x40500000"

section \<open>Which chip it is\<close>

definition WCN_CHIPID_MASK :: u32 where "WCN_CHIPID_MASK = 0xFFFFF000"
definition MARLIN3_AA_CHIPID :: u32 where "MARLIN3_AA_CHIPID = 0x23550000"
definition MARLIN3L_AA_CHIPID :: u32 where "MARLIN3L_AA_CHIPID = 0x2355B000"
definition MARLIN3E_AA_CHIPID :: u32 where "MARLIN3E_AA_CHIPID = 0x56630000"

definition marlin_get_wcn_chipid :: "attempt \<Rightarrow> fw_store \<Rightarrow> fw_store \<times> u32" where
  "marlin_get_wcn_chipid at s = (
     if chip_id s \<noteq> 0 then (s, chip_id s) else
     case at_id_m3e at of None \<Rightarrow> (s, 0)
     | Some v \<Rightarrow>
         if v AND WCN_CHIPID_MASK \<noteq> MARLIN3E_AA_CHIPID then
           case at_id_m3 at of None \<Rightarrow> (s\<lparr>chip_id := v\<rparr>, 0) | Some w \<Rightarrow> (s\<lparr>chip_id := w\<rparr>, w)
         else (s\<lparr>chip_id := v\<rparr>, v))"

datatype wcn_chip_model = WCN_CHIP_INVALID | WCN_CHIP_MARLIN3 | WCN_CHIP_MARLIN3L | WCN_CHIP_MARLIN3E

text \<open>The static variable of the model is written, and so kept, only when it is valid.\<close>

definition wcn_get_chip_model :: "attempt \<Rightarrow> wcn_chip_model \<Rightarrow> fw_store \<Rightarrow> fw_store \<times> wcn_chip_model" where
  "wcn_get_chip_model at cached s = (
     if cached \<noteq> WCN_CHIP_INVALID then (s, cached) else
     let (s, v) = marlin_get_wcn_chipid at s in
     (s, if v = 0 then WCN_CHIP_INVALID
         else if v AND WCN_CHIPID_MASK = MARLIN3_AA_CHIPID then WCN_CHIP_MARLIN3
         else if v AND WCN_CHIPID_MASK = MARLIN3L_AA_CHIPID then WCN_CHIP_MARLIN3L
         else if v AND WCN_CHIPID_MASK = MARLIN3E_AA_CHIPID then WCN_CHIP_MARLIN3E
         else WCN_CHIP_INVALID))"

definition wcn_get_chip_type :: "attempt \<Rightarrow> nat \<Rightarrow> fw_store \<Rightarrow> fw_store \<times> nat" where
  "wcn_get_chip_type at cached s = (
     if cached \<noteq> 0 then (s, cached) else
     let (s, v) = marlin_get_wcn_chipid at s in
     (s, if v = 0 then 0 else unat (v AND 0xF) + 1))"

text \<open>The name of the type is taken from an array of five.\<close>

definition chip_type_str :: "nat \<Rightarrow> string option" where
  "chip_type_str t = aget [''ERRO_'', ''AA_'', ''AB_'', ''AC_'', ''AD_''] t"

section \<open>Containers of images\<close>

definition read_le32 :: "u8 list \<Rightarrow> nat \<Rightarrow> u32 option" where
  "read_le32 mem p = do {
     b0 \<leftarrow> aget mem p; b1 \<leftarrow> aget mem (p + 1); b2 \<leftarrow> aget mem (p + 2); b3 \<leftarrow> aget mem (p + 3);
     Some (ucast b0 OR push_bit 8 (ucast b1) OR push_bit 16 (ucast b2) OR push_bit 24 (ucast b3)) }"

definition IMG_HEAD_MAGIC :: "u8 list" where "IMG_HEAD_MAGIC = [0x57, 0x43, 0x4E, 0x4D]"
definition IMG_HEAD_MAGIC_COMBINE :: "u8 list" where "IMG_HEAD_MAGIC_COMBINE = [0x57, 0x43, 0x4E, 0x45]"

definition bin_magic_is :: "marlin_firmware \<Rightarrow> u8 list \<Rightarrow> bool option" where
  "bin_magic_is f tag = map_option (\<lambda>bs. bs = tag) (read_bytes (fw_mem f) (fw_data f) 4)"

text \<open>The count of images goes through an \<open>int\<close>.\<close>

definition marlin_fw_get_img_count :: "marlin_firmware \<Rightarrow> int option" where
  "marlin_fw_get_img_count f = map_option sint (read_le32 (fw_mem f) (fw_data f + 8))"

text \<open>Entry \<open>i\<close> of either kind of table lies at \<open>12 + 12 * i\<close>: a tag or an address, then two numbers.\<close>

fun find_tag :: "u8 list \<Rightarrow> nat \<Rightarrow> u8 list \<Rightarrow> nat \<Rightarrow> nat \<Rightarrow> nat option option" where
  "find_tag mem base tag i 0 = Some None"
| "find_tag mem base tag i (Suc k) = do {
     t \<leftarrow> read_bytes mem (base + 12 + 12 * i) 4;
     if t = tag then Some (Some (base + 12 + 12 * i)) else find_tag mem base tag (Suc i) k }"

definition marlin_imageinfo_get_from_data :: "u8 list \<Rightarrow> marlin_firmware \<Rightarrow> nat option option" where
  "marlin_imageinfo_get_from_data tag f = do {
     c \<leftarrow> marlin_fw_get_img_count f;
     find_tag (fw_mem f) (fw_data f) tag 0 (nat c) }"

text \<open>The tags that are looked for, in this order.\<close>

definition chip_tags :: "u32 \<Rightarrow> u8 list list" where
  "chip_tags v = (
     if v = MARLIN3_AA_CHIPID then [[0x33, 0x30, 0x41, 0x41]]
     else if v = 0x23550001 then [[0x33, 0x30, 0x41, 0x42]]
     else if v = 0x23550002 \<or> v = 0x23550003 then [[0x33, 0x30, 0x41, 0x43], [0x33, 0x30, 0x41, 0x44]]
     else if v = MARLIN3L_AA_CHIPID then [[0x33, 0x4C, 0x41, 0x41]]
     else if v = 0x2355B001 then [[0x33, 0x4C, 0x41, 0x42]]
     else if v = 0x2355B002 then [[0x33, 0x4C, 0x41, 0x43]]
     else if v = 0x2355B003 then [[0x33, 0x4C, 0x41, 0x44]]
     else if v = MARLIN3E_AA_CHIPID \<or> v = 0x56630001 then [[0x33, 0x45, 0x41, 0x41], [0x33, 0x45, 0x41, 0x42]]
     else if v = 0x56630002 then [[0x33, 0x45, 0x41, 0x43]]
     else if v = 0x56630003 then [[0x33, 0x45, 0x41, 0x44]]
     else [])"

fun first_tag :: "marlin_firmware \<Rightarrow> u8 list list \<Rightarrow> nat option option" where
  "first_tag f [] = Some None"
| "first_tag f (t # ts) = do {
     r \<leftarrow> marlin_imageinfo_get_from_data t f;
     case r of Some p \<Rightarrow> Some (Some p) | None \<Rightarrow> first_tag f ts }"

definition marlin_judge_images :: "u32 \<Rightarrow> marlin_firmware \<Rightarrow> nat option option" where
  "marlin_judge_images v f = first_tag f (chip_tags v)"

section \<open>Getting the firmware\<close>

text \<open>
  The memory of \<open>len\<close> bytes that a file is read into keeps what it held behind the end of the
  file; a size that is 0 or negative as an \<open>int\<close> gets no memory.
\<close>

definition load_firmware_data_path :: "attempt \<Rightarrow> nat \<Rightarrow> nat \<Rightarrow> int \<Rightarrow> u8 list option" where
  "load_firmware_data_path at path offset len = do {
     f \<leftarrow> at_files at path;
     if at_vmalloc at \<and> 0 < len
     then Some (let r = take (nat len) (drop offset f) in r @ map (at_junk at) [length r..<nat len])
     else None }"

function load_fw :: "attempt \<Rightarrow> nat \<Rightarrow> nat \<Rightarrow> nat \<Rightarrow> nat \<times> u8 list option" where
  "load_fw at maxsz path cnt =
     (case load_firmware_data_path at path 0 (int maxsz) of
        Some b \<Rightarrow> (path, Some b)
      | None \<Rightarrow> if cnt + 1 < WCN_FW_MAX_PATH_NUM then load_fw at maxsz (cnt + 1) (cnt + 1) else (path, None))"
  by auto
termination by (relation "measure (\<lambda>(at, maxsz, path, cnt). WCN_FW_MAX_PATH_NUM - cnt)") auto

declare load_fw.simps [simp del]

definition fw_source :: "attempt \<Rightarrow> nat \<Rightarrow> bool \<Rightarrow> fw_store \<Rightarrow> (fw_store \<times> (marlin_firmware + int)) option" where
  "fw_source at maxsz first s = (
     if \<not> at_kmalloc at then Some (s, Inr (- 12))
     else if \<not> is_btwf_in_sysfs s then
       if first then
         case at_request at of
           None \<Rightarrow> Some (s\<lparr>is_btwf_in_sysfs := True, lost_mem := lost_mem s + 1\<rparr>, Inr (- 2))
         | Some f \<Rightarrow>
             if \<not> at_vmalloc at then Some (s\<lparr>fw_backup := None, lost_mem := lost_mem s + 2\<rparr>, Inr (- 1))
             else Some (s\<lparr>fw_backup := Some f\<rparr>,
               Inl \<lparr>fw_mem = f, fw_data = 0, fw_size = of_nat (length f), is_from_fs = True, is_from_hex = False\<rparr>)
       else
         case fw_backup s of
           None \<Rightarrow> None
         | Some f \<Rightarrow> Some (s, Inl \<lparr>fw_mem = f, fw_data = 0, fw_size = of_nat (length f), is_from_fs = False, is_from_hex = True\<rparr>)
     else
       case load_fw at maxsz (fw_path s) 0 of
         (p, None) \<Rightarrow> Some (s\<lparr>fw_path := p\<rparr>, Inr (- 1))
       | (p, Some b) \<Rightarrow> Some (s\<lparr>fw_path := p\<rparr>,
           Inl \<lparr>fw_mem = b, fw_data = 0, fw_size = of_nat maxsz, is_from_fs = False, is_from_hex = False\<rparr>))"

text \<open>The copy that is missing is a NULL pointer, and the next statement reads from it.\<close>

definition fw_take_mask :: "fw_store \<Rightarrow> marlin_firmware \<Rightarrow> (fw_store \<times> marlin_firmware) option" where
  "fw_take_mask s f = do {
     m \<leftarrow> read_bytes (fw_mem f) (fw_data f) 8;
     Some (if m ! 0 = 0 \<and> m ! 1 = 0
           then (s\<lparr>functionmask := m\<rparr>, f\<lparr>fw_data := fw_data f + 8, fw_size := fw_size f - 8\<rparr>)
           else (s\<lparr>functionmask := m[7 := 0]\<rparr>, f)) }"

definition marlin_request_firmware ::
  "attempt \<Rightarrow> nat \<Rightarrow> bool \<Rightarrow> fw_store \<Rightarrow> (fw_store \<times> (marlin_firmware + int)) option" where
  "marlin_request_firmware at maxsz first s = do {
     (s, r) \<leftarrow> fw_source at maxsz first s;
     case r of Inr e \<Rightarrow> Some (s, Inr e)
     | Inl f \<Rightarrow> do { (s, f) \<leftarrow> fw_take_mask s f; Some (s, Inl f) } }"

section \<open>Choosing the image\<close>

text \<open>
  The part that is wanted: where it starts, how long it is, both as the code keeps them. A table
  entry before the first one is the head itself.
\<close>

definition parse_pack :: "nat \<Rightarrow> marlin_firmware \<Rightarrow> (marlin_firmware \<times> u32 \<times> u32) option" where
  "parse_pack p f = do {
     off \<leftarrow> read_le32 (fw_mem f) (p + 4);
     len \<leftarrow> read_le32 (fw_mem f) (p + 8);
     Some (f\<lparr>fw_data := fw_data f + unat off, fw_size := ucast len\<rparr>, off, len) }"

definition parse_combine :: "marlin_firmware \<Rightarrow> (marlin_firmware \<times> u32 \<times> u32) option" where
  "parse_combine f = do {
     c \<leftarrow> marlin_fw_get_img_count f;
     if c < 0 then None else do {
       off \<leftarrow> read_le32 (fw_mem f) (fw_data f + 12 * nat c + 4);
       len \<leftarrow> read_le32 (fw_mem f) (fw_data f + 12 * nat c + 8);
       Some (f\<lparr>fw_size := scast (len + off)\<rparr>, 0, len + off) } }"

text \<open>
  A part that reaches behind what was read is read again from the file. What was read before is
  given to \<open>vfree\<close>, for the copy the address of the structure that describes it.
\<close>

definition parse_reload ::
  "attempt \<Rightarrow> u32 \<Rightarrow> fw_store \<Rightarrow> marlin_firmware \<Rightarrow> u32 \<Rightarrow> u32 \<Rightarrow> fw_store \<times> marlin_firmware \<times> int" where
  "parse_reload at old s f off len = (
     if \<not> is_from_fs f \<and> sint old < sint (off + len) then
       case load_firmware_data_path at (fw_path s) (unat off) (sint len) of
         None \<Rightarrow> (s, f, - 1)
       | Some b \<Rightarrow>
           (if is_from_hex f then s\<lparr>bad_vfree := bad_vfree s + 1, lost_mem := lost_mem s + 1\<rparr> else s,
            f\<lparr>fw_mem := b, fw_data := 0\<rparr>, 0)
     else (s, f, 0))"

definition marlin_firmware_parse_image ::
  "attempt \<Rightarrow> fw_store \<Rightarrow> marlin_firmware \<Rightarrow> (fw_store \<times> marlin_firmware \<times> int) option" where
  "marlin_firmware_parse_image at s f = do {
     pack \<leftarrow> bin_magic_is f IMG_HEAD_MAGIC;
     combine \<leftarrow> bin_magic_is f IMG_HEAD_MAGIC_COMBINE;
     let old = (ucast (fw_size f) :: u32);
     if pack then do {
       let (s, v) = marlin_get_wcn_chipid at s;
       info \<leftarrow> marlin_judge_images v f;
       case info of
         None \<Rightarrow> Some (s, f, - 1)
       | Some p \<Rightarrow> do { (f, off, len) \<leftarrow> parse_pack p f; Some (parse_reload at old s f off len) } }
     else if combine then do { (f, off, len) \<leftarrow> parse_combine f; Some (parse_reload at old s f off len) }
     else Some (parse_reload at old s f 0 0) }"

section \<open>Writing it to the chip\<close>

text \<open>
  What the chip was given: addresses with their bytes, in order. A write is tried once; its result
  is looked up by the number of writes before it.
\<close>

type_synonym written = "(u32 \<times> u8 list) list"

function sprdwcn_bus_direct_write_dispack ::
  "(nat \<Rightarrow> bool) \<Rightarrow> u32 \<Rightarrow> u8 list \<Rightarrow> nat \<Rightarrow> nat \<Rightarrow> nat \<Rightarrow> written \<Rightarrow> (written \<times> bool) option" where
  "sprdwcn_bus_direct_write_dispack res addr mem base buf_size offset tr =
     (if offset < buf_size then
        (let n = min PACKET_SIZE (buf_size - offset) in
         case read_bytes mem (base + offset) n of
           None \<Rightarrow> None
         | Some bs \<Rightarrow>
             if res (length tr)
             then sprdwcn_bus_direct_write_dispack res addr mem base buf_size (offset + n)
                    (tr @ [(addr + of_nat offset, bs)])
             else Some (tr, False))
      else Some (tr, True))"
  by auto
termination
  by (relation "measure (\<lambda>(res, addr, mem, base, buf_size, offset, tr). buf_size - offset)")
    (auto simp: PACKET_SIZE_def)

declare sprdwcn_bus_direct_write_dispack.simps [simp del]

fun write_sections ::
  "(nat \<Rightarrow> bool) \<Rightarrow> marlin_firmware \<Rightarrow> nat \<Rightarrow> nat \<Rightarrow> written \<Rightarrow> (written \<times> bool) option" where
  "write_sections res f i 0 tr = Some (tr, True)"
| "write_sections res f i (Suc k) tr = do {
     addr \<leftarrow> read_le32 (fw_mem f) (fw_data f + 12 + 12 * i);
     off \<leftarrow> read_le32 (fw_mem f) (fw_data f + 12 + 12 * i + 4);
     len \<leftarrow> read_le32 (fw_mem f) (fw_data f + 12 + 12 * i + 8);
     if fw_size f < ucast (len + off) then Some (tr, False) else do {
       (tr, ok) \<leftarrow> sprdwcn_bus_direct_write_dispack res addr (fw_mem f) (fw_data f + unat off) (unat len) 0 tr;
       if ok then write_sections res f (Suc i) k tr else Some (tr, False) } }"

definition marlin_firmware_write :: "(nat \<Rightarrow> bool) \<Rightarrow> marlin_firmware \<Rightarrow> (written \<times> bool) option" where
  "marlin_firmware_write res f = do {
     combine \<leftarrow> bin_magic_is f IMG_HEAD_MAGIC_COMBINE;
     if combine then do { c \<leftarrow> marlin_fw_get_img_count f; write_sections res f 0 (nat c) [] }
     else sprdwcn_bus_direct_write_dispack res CP_START_ADDR (fw_mem f) (fw_data f) (unat (fw_size f)) 0 [] }"

definition marlin_release_firmware :: "marlin_firmware \<Rightarrow> fw_store \<Rightarrow> fw_store" where
  "marlin_release_firmware f s =
     (if \<not> is_from_fs f \<and> \<not> is_from_hex f \<and> fw_data f \<noteq> 0
      then s\<lparr>bad_vfree := bad_vfree s + 1, lost_mem := lost_mem s + 1\<rparr> else s)"

definition btwifi_download_firmware ::
  "attempt \<Rightarrow> nat \<Rightarrow> bool \<Rightarrow> fw_store \<Rightarrow> (fw_store \<times> written \<times> bool) option" where
  "btwifi_download_firmware at maxsz first s = do {
     (s, r) \<leftarrow> marlin_request_firmware at maxsz first s;
     case r of
       Inr e \<Rightarrow> Some (s, [], False)
     | Inl f \<Rightarrow> do {
         (s, f, ret) \<leftarrow> marlin_firmware_parse_image at s f;
         if ret \<noteq> 0 then Some (marlin_release_firmware f s, [], False) else do {
           (tr, ok) \<leftarrow> marlin_firmware_write (at_writes at) f;
           Some (marlin_release_firmware f s, tr, ok) } } }"

end
