(* ===== verification/Chip_Power.thy ===== *)
theory Chip_Power
  imports Firmware
begin

text \<open>
  Switching the chip on and off, BSP/platform/wcn_boot.c with the parts of
  BSP/sdio/sdiohal_main.c it calls: start_marlin, stop_marlin and marlin_set_power with the
  mask of the subsystems that are open. For the AML board with SDIO and the reset pin
  connected, without GNSS, loop check and memory power down; attempts to start are numbered,
  and a function gives what the driver finds at each of them. Regulators and clocks are
  switched by functions that return at once and are left out.
\<close>

section \<open>The device\<close>

definition MARLIN_BLUETOOTH :: nat where "MARLIN_BLUETOOTH = 0"
definition MARLIN_WIFI :: nat where "MARLIN_WIFI = 2"
definition MARLIN_GNSS :: nat where "MARLIN_GNSS = 7"
definition WCN_AUTO :: nat where "WCN_AUTO = 8"
definition MARLIN_ALL :: nat where "MARLIN_ALL = 9"
definition MARLIN_MASK :: u64 where "MARLIN_MASK = 0x27F"
definition GNSS_MASK :: u64 where "GNSS_MASK = 0x080"
definition AUTO_RUN_MASK :: u64 where "AUTO_RUN_MASK = 0x100"
definition SYNC_ALL_FINISHED :: u32 where "SYNC_ALL_FINISHED = 0xF0F0F0FF"

text \<open>
  The part of \<open>struct marlin_device\<close> that the switching of the power uses, with the static counts of
  the two pins and the levels of the pins, the dump state of the bus, whether the bus has found the
  card, how often its receive interrupt is disabled, the number of attempts to start, and the
  firmware the chip runs.
\<close>

record marlin_device =
  power_state :: u64
  no_power_off :: bool
  wifi_need_download_ini_flag :: nat
  first_power_on_flag :: u32
  download_finish_flag :: bool
  flag_reset :: bool
  chip_en_count :: u32
  reset_count :: u32
  wifi_en_pin :: bool
  bt_en_pin :: bool
  carddump :: bool
  fail_count :: int
  bt_wl_wake_host_en :: bool
  card_exist :: bool
  irq_depth :: nat
  tries :: nat
  running :: "written option"
  fw :: fw_store

section \<open>Pins and bus\<close>

definition marlin_chip_en :: "bool \<Rightarrow> bool \<Rightarrow> marlin_device \<Rightarrow> marlin_device" where
  "marlin_chip_en enable reset d = (
     if reset then d\<lparr>wifi_en_pin := True\<rparr>
     else if enable then
       (if chip_en_count d = 0 then d\<lparr>wifi_en_pin := True\<rparr> else d)\<lparr>chip_en_count := chip_en_count d + 1\<rparr>
     else
       let d = d\<lparr>chip_en_count := chip_en_count d - 1\<rparr> in
       if chip_en_count d = 0 then d\<lparr>wifi_en_pin := False\<rparr> else d)"

definition chip_reset_release :: "bool \<Rightarrow> marlin_device \<Rightarrow> marlin_device" where
  "chip_reset_release val d = (
     if val then
       (if reset_count d = 0 then d\<lparr>bt_en_pin := True\<rparr> else d)\<lparr>reset_count := reset_count d + 1\<rparr>
     else d\<lparr>bt_en_pin := False, reset_count := reset_count d - 1\<rparr>)"

text \<open>With an external interrupt and no power sequence; without a card they fail, which no caller looks at.\<close>

definition sdiohal_runtime_get :: "marlin_device \<Rightarrow> marlin_device" where
  "sdiohal_runtime_get d = (if card_exist d then d\<lparr>irq_depth := irq_depth d - 1\<rparr> else d)"

definition sdiohal_runtime_put :: "marlin_device \<Rightarrow> marlin_device" where
  "sdiohal_runtime_put d = (if card_exist d then d\<lparr>irq_depth := irq_depth d + 1\<rparr> else d)"

definition sdiohal_set_carddump_status :: "bool \<Rightarrow> marlin_device \<Rightarrow> marlin_device" where
  "sdiohal_set_carddump_status flag d =
     (if flag then d\<lparr>irq_depth := irq_depth d + 1, carddump := True\<rparr> else d\<lparr>carddump := False\<rparr>)"

text \<open>The first card that is found is probed, which requests the interrupt and disables it.\<close>

definition sdiohal_card_found :: "marlin_device \<Rightarrow> marlin_device" where
  "sdiohal_card_found d = (if card_exist d then d else d\<lparr>card_exist := True, irq_depth := 1, carddump := False\<rparr>)"

section \<open>Switching the chip\<close>

definition chip_power_on :: "attempt \<Rightarrow> marlin_device \<Rightarrow> marlin_device \<times> bool" where
  "chip_power_on a d = (
     let d = marlin_chip_en False True (chip_reset_release True (marlin_chip_en True False d)) in
     if at_card a then (sdiohal_card_found d, True) else (d, False))"

definition chip_power_off :: "marlin_device \<Rightarrow> marlin_device" where
  "chip_power_off d = (chip_reset_release False (marlin_chip_en False False d))
     \<lparr>wifi_need_download_ini_flag := 0, power_state := 0, running := None\<rparr>"

text \<open>The chip is asked at most eleven times whether it has come up.\<close>

function cp_ready_loop :: "(nat \<Rightarrow> u32 option) \<Rightarrow> nat \<Rightarrow> bool" where
  "cp_ready_loop sync i = (
     case sync i of None \<Rightarrow> False
     | Some v \<Rightarrow> if v = SYNC_ALL_FINISHED then True else if 10 < i then False else cp_ready_loop sync (i + 1))"
  by auto
termination by (relation "measure (\<lambda>(sync, i). 12 - i)") auto

declare cp_ready_loop.simps [simp del]

definition check_cp_ready :: "attempt \<Rightarrow> bool" where
  "check_cp_ready a = cp_ready_loop (at_sync a) 1"

text \<open>
  The work that loads the firmware; it holds \<open>download_done\<close> when it completes. The name of the chip
  is only printed, but reading its number may be the first time.
\<close>

definition pre_btwifi_download_sdio :: "attempt \<Rightarrow> nat \<Rightarrow> marlin_device \<Rightarrow> (marlin_device \<times> bool) option" where
  "pre_btwifi_download_sdio a maxsz d = do {
     let s = fst (marlin_get_wcn_chipid a (fw d));
     (s, tr, ok) \<leftarrow> btwifi_download_firmware a maxsz (first_power_on_flag d = 1) s;
     let d = d\<lparr>fw := s\<rparr>;
     if ok \<and> at_run a then
       if check_cp_ready a then Some ((sdiohal_runtime_get d)\<lparr>running := Some tr\<rparr>, True)
       else Some (sdiohal_set_carddump_status True d, False)
     else Some (d, False) }"

definition power_fail :: "marlin_device \<Rightarrow> marlin_device" where
  "power_fail d = (chip_reset_release False (sdiohal_runtime_put d))\<lparr>power_state := 0\<rparr>"

text \<open>
  Switching on from nothing: the same steps the first time and later. The time that is waited is
  taken to be enough for a download that completes.
\<close>

definition power_up :: "(nat \<Rightarrow> attempt) \<Rightarrow> nat \<Rightarrow> nat \<Rightarrow> marlin_device \<Rightarrow> (marlin_device \<times> bool) option" where
  "power_up w maxsz subsys d = (
     let a = w (tries d); (d, card) = chip_power_on a (d\<lparr>tries := tries d + 1\<rparr>) in
     if \<not> card then Some (power_fail d, False) else do {
       (d, done) \<leftarrow> pre_btwifi_download_sdio a maxsz (d\<lparr>power_state := set_bit subsys (power_state d)\<rparr>);
       if done then Some (d\<lparr>download_finish_flag := True\<rparr>, True) else Some (power_fail d, False) })"

definition set_power_off :: "nat \<Rightarrow> marlin_device \<Rightarrow> marlin_device" where
  "set_power_off subsys d = (
     if power_state d = 0 then d else
     let d = (if flag_reset d \<or> subsys = MARLIN_ALL then d\<lparr>power_state := 0\<rparr> else d) in
     if no_power_off d \<and> \<not> flag_reset d then
       if subsys \<noteq> WCN_AUTO then d\<lparr>power_state := unset_bit subsys (set_bit WCN_AUTO (power_state d))\<rparr> else d
     else if \<not> download_finish_flag d then d
     else
       let d = d\<lparr>power_state := unset_bit subsys (power_state d)\<rparr> in
       if power_state d \<noteq> 0 then d
       else (chip_power_off (sdiohal_runtime_put d))\<lparr>download_finish_flag := False, flag_reset := False\<rparr>)"

text \<open>Every time but the first. Without \<open>CONFIG_WCN_GNSS\<close> the two cases with the chip on only set the bit.\<close>

definition set_power_again ::
  "(nat \<Rightarrow> attempt) \<Rightarrow> nat \<Rightarrow> nat \<Rightarrow> marlin_device \<Rightarrow> (marlin_device \<times> int) option" where
  "set_power_again w maxsz subsys d = (
     if subsys = WCN_AUTO then
       Some (if no_power_off d then d\<lparr>power_state := set_bit subsys (power_state d)\<rparr> else d, 0)
     else if power_state d AND AUTO_RUN_MASK \<noteq> 0 \<or> power_state d AND GNSS_MASK \<noteq> 0 then
       Some (d\<lparr>power_state := set_bit subsys (power_state d)\<rparr>, 0)
     else if power_state d AND MARLIN_MASK \<noteq> 0 then
       Some (d\<lparr>power_state := set_bit subsys (power_state d)\<rparr>, 0)
     else do { (d, ok) \<leftarrow> power_up w maxsz subsys d; Some (d, if ok then 0 else - 1) })"

text \<open>
  For GNSS the first time is followed by switching off and on again; the flag is 2 then, and so the
  second call does not take the first branch.
\<close>

definition marlin_set_power ::
  "(nat \<Rightarrow> attempt) \<Rightarrow> nat \<Rightarrow> nat \<Rightarrow> bool \<Rightarrow> marlin_device \<Rightarrow> (marlin_device \<times> int) option" where
  "marlin_set_power w maxsz subsys val d = (
     if \<not> val then Some (set_power_off subsys d, 0) else
     let d = d\<lparr>first_power_on_flag := first_power_on_flag d + 1\<rparr> in
     if first_power_on_flag d = 1 then do {
       (d, ok) \<leftarrow> power_up w maxsz subsys d;
       if \<not> ok then Some (d, - 1) else do {
         let d = d\<lparr>first_power_on_flag := 2\<rparr>;
         if subsys = MARLIN_GNSS then do {
           let d = set_power_off MARLIN_GNSS d;
           (d, ret) \<leftarrow> set_power_again w maxsz MARLIN_GNSS (d\<lparr>first_power_on_flag := first_power_on_flag d + 1\<rparr>);
           Some (d, 0) }
         else Some (d, 0) } }
     else set_power_again w maxsz subsys d)"

section \<open>What the drivers call\<close>

definition start_marlin ::
  "(nat \<Rightarrow> attempt) \<Rightarrow> nat \<Rightarrow> nat \<Rightarrow> marlin_device \<Rightarrow> (marlin_device \<times> int) option" where
  "start_marlin w maxsz subsys d = (
     if carddump d then Some (d, - 1)
     else if fail_count d \<noteq> 0 then Some (d, - 2)
     else marlin_set_power w maxsz subsys True
       (if subsys = MARLIN_WIFI
        then d\<lparr>wifi_need_download_ini_flag := if wifi_need_download_ini_flag d = 0 then 1 else 2\<rparr> else d))"

definition stop_marlin ::
  "(nat \<Rightarrow> attempt) \<Rightarrow> nat \<Rightarrow> nat \<Rightarrow> marlin_device \<Rightarrow> (marlin_device \<times> int) option" where
  "stop_marlin w maxsz subsys d = (
     if carddump d then Some (d, - 1)
     else if fail_count d \<noteq> 0 then Some (d, - 1)
     else marlin_set_power w maxsz subsys False d)"

definition marlin_power_off :: "nat \<Rightarrow> marlin_device \<Rightarrow> marlin_device" where
  "marlin_power_off subsys d = set_power_off subsys (d\<lparr>no_power_off := False\<rparr>)"

definition open_power_ctl :: "marlin_device \<Rightarrow> marlin_device" where
  "open_power_ctl d = d\<lparr>no_power_off := False, power_state := unset_bit WCN_AUTO (power_state d)\<rparr>"

definition marlin_get_power :: "nat \<Rightarrow> marlin_device \<Rightarrow> bool" where
  "marlin_get_power subsys d = (if subsys = MARLIN_ALL then power_state d \<noteq> 0 else bit (power_state d) subsys)"

definition marlin_get_module_status :: "marlin_device \<Rightarrow> bool" where
  "marlin_get_module_status d \<longleftrightarrow> (\<exists>n \<in> {MARLIN_BLUETOOTH, 1, MARLIN_WIFI, 6, MARLIN_GNSS, WCN_AUTO}. bit (power_state d) n)"

definition is_first_power_on :: "marlin_device \<Rightarrow> bool" where
  "is_first_power_on d \<longleftrightarrow> wifi_need_download_ini_flag d = 1"

definition cali_ini_need_download :: "marlin_device \<Rightarrow> bool" where
  "cali_ini_need_download d \<longleftrightarrow> wifi_need_download_ini_flag d = 1"

definition marlin_schedule_download_wq :: "attempt \<Rightarrow> nat \<Rightarrow> marlin_device \<Rightarrow> marlin_device option" where
  "marlin_schedule_download_wq a maxsz d =
     map_option fst (pre_btwifi_download_sdio a maxsz (d\<lparr>wifi_need_download_ini_flag := 0\<rparr>))"

text \<open>The word \<open>rebootmarlin\<close> written to the debug file; the callback is left to its owner.\<close>

definition mdbg_reboot :: "marlin_device \<Rightarrow> marlin_device" where
  "mdbg_reboot d = sdiohal_set_carddump_status False (d\<lparr>flag_reset := True, fail_count := 0\<rparr>)"

definition marlin_remove :: "marlin_device \<Rightarrow> marlin_device" where
  "marlin_remove d = (if power_state d \<noteq> 0 \<and> \<not> no_power_off d then marlin_chip_en False False d else d)"

definition marlin_shutdown :: "marlin_device \<Rightarrow> marlin_device" where
  "marlin_shutdown d = (if power_state d \<noteq> 0 \<and> \<not> no_power_off d \<and> \<not> bt_wl_wake_host_en d
     then marlin_chip_en False False d else d)"

text \<open>After \<open>marlin_probe\<close>, for a board that switches its power (CONFIG_WCN_POWER_UP_DOWN).\<close>

definition marlin_probe :: "bool \<Rightarrow> marlin_device" where
  "marlin_probe wake = \<lparr>power_state = 0, no_power_off = False, wifi_need_download_ini_flag = 0, first_power_on_flag = 0,
     download_finish_flag = False, flag_reset = False, chip_en_count = 0, reset_count = 0, wifi_en_pin = False,
     bt_en_pin = False, carddump = False, fail_count = 0, bt_wl_wake_host_en = wake, card_exist = False, irq_depth = 0,
     tries = 0, running = None,
     fw = \<lparr>is_btwf_in_sysfs = False, fw_path = 0, fw_backup = None, functionmask = replicate 8 0, chip_id = 0,
       lost_mem = 0, bad_vfree = 0\<rparr>\<rparr>"

end
