(* ===== verification/Firmware_Correct.thy ===== *)
theory Firmware_Correct
  imports Firmware
begin

text \<open>
  A container of images that is found by the loader or kept as a copy is written to the chip
  exactly: the part for the chip, cut into packets, at the addresses of its sections. What
  goes wrong when sizes wrap, when a part has to be read again behind a function mask, and
  when the number of the chip cannot be read.
\<close>

section \<open>Memory of the chip\<close>

definition put_block :: "u32 \<Rightarrow> u8 list \<Rightarrow> (u32 \<Rightarrow> u8 option) \<Rightarrow> u32 \<Rightarrow> u8 option" where
  "put_block addr bs m a = (if unat (a - addr) < length bs then Some (bs ! unat (a - addr)) else m a)"

definition chip_mem :: "written \<Rightarrow> u32 \<Rightarrow> u8 option" where
  "chip_mem tr = fold (\<lambda>(addr, bs). put_block addr bs) tr Map.empty"

lemma chip_mem_snoc [simp]: "chip_mem (tr @ [(addr, bs)]) = put_block addr bs (chip_mem tr)"
  by (simp add: chip_mem_def)

lemma chip_mem_Nil [simp]: "chip_mem [] = Map.empty"
  by (simp add: chip_mem_def)

lemma put_block_Nil [simp]: "put_block addr [] m = m"
  by (rule ext) (simp add: put_block_def)

text \<open>Two blocks in a row are one block, as long as the addresses do not run around.\<close>

lemma put_block_append:
  assumes "length bs + length cs < 2 ^ 32"
  shows "put_block (addr + of_nat (length bs)) cs (put_block addr bs m) = put_block addr (bs @ cs) m"
proof
  fix a :: u32
  let ?n = "length bs"
  let ?u = "unat (a - addr)"
  have u: "?u < 2 ^ 32" using unsigned_less [of "a - addr"] by simp
  have d: "a - (addr + of_nat ?n) = (a - addr) - of_nat ?n" by (simp add: algebra_simps)
  have n: "unat (of_nat ?n :: u32) = ?n"
    using assms by (simp add: unsigned_of_nat take_bit_nat_eq_self)
  show "put_block (addr + of_nat ?n) cs (put_block addr bs m) a = put_block addr (bs @ cs) m a"
  proof (cases "?n \<le> ?u")
    case True
    have "unat (a - addr - of_nat ?n) = ?u - ?n"
      using True n by (simp add: unat_sub_if_size)
    then show ?thesis using True unfolding put_block_def d by (simp add: nth_append) linarith
  next
    case False
    have "unat (a - addr - of_nat ?n) = ?u + 2 ^ 32 - ?n"
      using False n by (simp add: unat_sub_if_size word_size)
    then have "\<not> unat (a - addr - of_nat ?n) < length cs" using assms by linarith
    then show ?thesis using False unfolding put_block_def d by (simp add: nth_append)
  qed
qed

section \<open>Packets\<close>

lemma read_bytes_some: "base + n \<le> length mem \<Longrightarrow> read_bytes mem base n = Some (take n (drop base mem))"
  by (simp add: read_bytes_def)

text \<open>
  Cut into packets of at most \<open>PACKET_SIZE\<close>, a block that lies in memory arrives as one, unless a
  write fails.
\<close>

definition packets_fit :: "written \<Rightarrow> bool" where
  "packets_fit tr \<longleftrightarrow> (\<forall>(a, bs) \<in> set tr. 0 < length bs \<and> length bs \<le> PACKET_SIZE)"

lemma packets_fit_simps [simp]:
  "packets_fit []"
  "packets_fit (tr @ [(a, bs)]) \<longleftrightarrow> packets_fit tr \<and> 0 < length bs \<and> length bs \<le> PACKET_SIZE"
  by (auto simp: packets_fit_def)

lemma dispack_writes:
  assumes "base + buf_size \<le> length mem" "offset \<le> buf_size" "buf_size < 2 ^ 32" "packets_fit tr"
  shows "\<exists>tr' ok. sprdwcn_bus_direct_write_dispack res addr mem base buf_size offset tr = Some (tr', ok) \<and>
     packets_fit tr' \<and> ((\<forall>k. res k) \<longrightarrow> ok) \<and>
     (ok \<longrightarrow> chip_mem tr' = put_block (addr + of_nat offset) (take (buf_size - offset) (drop (base + offset) mem)) (chip_mem tr))"
  using assms
proof (induction res addr mem base buf_size offset tr rule: sprdwcn_bus_direct_write_dispack.induct)
  case (1 res addr mem base buf_size offset tr)
  show ?case
  proof (cases "offset < buf_size")
    case False
    then show ?thesis using 1(3,5) by (subst sprdwcn_bus_direct_write_dispack.simps) auto
  next
    case True
    define n where "n = min PACKET_SIZE (buf_size - offset)"
    let ?bs = "take n (drop (base + offset) mem)"
    let ?tr = "tr @ [(addr + of_nat offset, ?bs)]"
    have n: "0 < n" "n \<le> PACKET_SIZE" "offset + n \<le> buf_size"
      using True by (auto simp: n_def PACKET_SIZE_def)
    have len: "length ?bs = n" using n(3) 1(2) by simp
    have rd: "read_bytes mem (base + offset) n = Some ?bs" using n(3) 1(2) by (simp add: read_bytes_some)
    have fit: "packets_fit ?tr" using 1(5) len n by simp
    note unf = sprdwcn_bus_direct_write_dispack.simps [of res addr mem base buf_size offset tr]
    show ?thesis
    proof (cases "res (length tr)")
      case False
      then have "sprdwcn_bus_direct_write_dispack res addr mem base buf_size offset tr = Some (tr, False)"
        using True rd unf by (simp add: n_def Let_def)
      then show ?thesis using False 1(5) by auto
    next
      case res: True
      have step: "sprdwcn_bus_direct_write_dispack res addr mem base buf_size offset tr =
          sprdwcn_bus_direct_write_dispack res addr mem base buf_size (offset + n) ?tr"
        using True rd res unf by (simp add: n_def Let_def)
      obtain tr' ok where IH: "sprdwcn_bus_direct_write_dispack res addr mem base buf_size (offset + n) ?tr = Some (tr', ok)"
        "packets_fit tr'" "(\<forall>k. res k) \<longrightarrow> ok"
        "ok \<longrightarrow> chip_mem tr' = put_block (addr + of_nat (offset + n)) (take (buf_size - (offset + n)) (drop (base + (offset + n)) mem)) (chip_mem ?tr)"
        using 1(1) [OF True _ rd res 1(2) n(3) 1(4) fit] n_def by blast
      let ?cs = "take (buf_size - (offset + n)) (drop (base + (offset + n)) mem)"
      have split: "take (buf_size - offset) (drop (base + offset) mem) = ?bs @ ?cs"
      proof -
        have "buf_size - offset = n + (buf_size - (offset + n))" using n by simp
        then show ?thesis by (simp add: take_add ac_simps)
      qed
      have "put_block (addr + of_nat (offset + n)) ?cs (put_block (addr + of_nat offset) ?bs (chip_mem tr)) =
          put_block (addr + of_nat offset) (?bs @ ?cs) (chip_mem tr)"
      proof -
        have "length ?bs + length ?cs < 2 ^ 32" using len 1(4) n by simp
        then have "put_block (addr + of_nat offset + of_nat (length ?bs)) ?cs (put_block (addr + of_nat offset) ?bs (chip_mem tr)) =
          put_block (addr + of_nat offset) (?bs @ ?cs) (chip_mem tr)" by (rule put_block_append)
        then show ?thesis using len by (simp add: ac_simps)
      qed
      then show ?thesis using IH step unfolding split by simp
    qed
  qed
qed

section \<open>Containers as they are built\<close>

text \<open>A table entry is four bytes (a tag, or an address), an offset and a length.\<close>

type_synonym fw_entry = "u8 list \<times> u32 \<times> u32"

definition put_le32 :: "u32 \<Rightarrow> u8 list" where
  "put_le32 x = [ucast x, ucast (drop_bit 8 x), ucast (drop_bit 16 x), ucast (drop_bit 24 x)]"

definition put_entry :: "fw_entry \<Rightarrow> u8 list" where
  "put_entry e = fst e @ put_le32 (fst (snd e)) @ put_le32 (snd (snd e))"

definition put_container :: "u8 list \<Rightarrow> u32 \<Rightarrow> fw_entry list \<Rightarrow> u8 list \<Rightarrow> u8 list" where
  "put_container magic ver T body =
     magic @ put_le32 ver @ put_le32 (of_nat (length T)) @ concat (map put_entry T) @ body"

text \<open>Bytes that memory holds at a place.\<close>

definition has :: "u8 list \<Rightarrow> nat \<Rightarrow> u8 list \<Rightarrow> bool" where
  "has mem p bs \<longleftrightarrow> read_bytes mem p (length bs) = Some bs"

lemma has_iff: "has mem p bs \<longleftrightarrow> p + length bs \<le> length mem \<and> take (length bs) (drop p mem) = bs"
  unfolding has_def by (auto simp: read_bytes_eq_Some_iff)

lemma has_append: "has mem p (as @ bs) \<longleftrightarrow> has mem p as \<and> has mem (p + length as) bs"
proof
  assume h: "has mem p (as @ bs)"
  then have e: "take (length as + length bs) (drop p mem) = as @ bs" and l: "p + (length as + length bs) \<le> length mem"
    by (simp_all add: has_iff)
  have "take (length as) (drop p mem) = as"
    using arg_cong [OF e, of "take (length as)"] by simp
  moreover have "take (length bs) (drop (p + length as) mem) = bs"
    using arg_cong [OF e, of "drop (length as)"] by (simp add: drop_take add.commute)
  ultimately show "has mem p as \<and> has mem (p + length as) bs" using l by (simp add: has_iff)
next
  assume "has mem p as \<and> has mem (p + length as) bs"
  then show "has mem p (as @ bs)" by (simp add: has_iff take_add add.commute)
qed

lemma has_self: "has (as @ bs @ cs) (length as) bs"
  by (simp add: has_iff)

lemma has_sub: "has mem p xs \<Longrightarrow> q + length bs \<le> length xs \<Longrightarrow> has xs q bs \<Longrightarrow> has mem (p + q) bs"
proof -
  assume h: "has mem p xs" "q + length bs \<le> length xs" "has xs q bs"
  then have "xs = take q xs @ bs @ drop (q + length bs) xs"
    by (metis append_take_drop_id has_iff drop_drop add.commute)
  then have "has mem (p + length (take q xs)) bs" using h(1) by (metis has_append)
  then show ?thesis using h(2) by simp
qed

lemma length_put [simp]: "length (put_le32 x) = 4" by (simp add: put_le32_def)

lemma has_nth: "has mem p bs \<Longrightarrow> i < length bs \<Longrightarrow> aget mem (p + i) = Some (bs ! i)"
  by (auto simp: has_iff aget_eq_Some_iff) (metis nth_take nth_drop add_lessD1 le_add1 le_trans nat_less_le)

lemma le32_join:
  "(ucast (ucast x :: u8) OR push_bit 8 (ucast (ucast (drop_bit 8 x) :: u8)) OR
    push_bit 16 (ucast (ucast (drop_bit 16 x) :: u8)) OR push_bit 24 (ucast (ucast (drop_bit 24 x) :: u8))) = (x :: u32)"
proof (rule bit_word_eqI)
  fix n assume "n < LENGTH(32)"
  then show "bit (ucast (ucast x :: u8) OR push_bit 8 (ucast (ucast (drop_bit 8 x) :: u8)) OR
    push_bit 16 (ucast (ucast (drop_bit 16 x) :: u8)) OR push_bit 24 (ucast (ucast (drop_bit 24 x) :: u8)) :: u32) n = bit x n"
    by (cases "24 \<le> n"; cases "16 \<le> n"; cases "8 \<le> n") (auto simp: bit_or_iff bit_push_bit_iff bit_ucast_iff bit_drop_bit_eq possible_bit_def)
qed

lemma read_put_le32: "has mem p (put_le32 x) \<Longrightarrow> read_le32 mem p = Some x"
proof -
  assume h: "has mem p (put_le32 x)"
  have "aget mem (p + i) = Some (put_le32 x ! i)" if "i < 4" for i
    using has_nth [OF h] that by simp
  note this [of 0] this [of 1] this [of 2] this [of 3]
  then show ?thesis unfolding read_le32_def by (simp add: put_le32_def le32_join)
qed

section \<open>Reading a table\<close>

definition entries_ok :: "fw_entry list \<Rightarrow> bool" where
  "entries_ok T \<longleftrightarrow> length T < 2 ^ 31 \<and> (\<forall>e \<in> set T. length (fst e) = 4)"

lemma length_table: "\<forall>e \<in> set T. length (fst e) = 4 \<Longrightarrow> length (concat (map put_entry T)) = 12 * length T"
  by (induction T) (simp_all add: put_entry_def)

lemma has_table_entry:
  assumes "has mem p (concat (map put_entry T))" "\<forall>e \<in> set T. length (fst e) = 4" "j < length T"
  shows "has mem (p + 12 * j) (put_entry (T ! j))"
proof -
  have T: "T = take j T @ T ! j # drop (Suc j) T" using assms(3) by (simp add: id_take_nth_drop)
  have l: "length (concat (map put_entry (take j T))) = 12 * j"
    using assms(2,3) by (subst length_table) (auto dest: in_set_takeD)
  have "has mem p (concat (map put_entry (take j T)) @ put_entry (T ! j) @ concat (map put_entry (drop (Suc j) T)))"
    using assms(1) by (subst (asm) T) (simp only: map_append concat_append list.map concat.simps)
  then show ?thesis unfolding has_append l by blast
qed

lemma entry_fields:
  assumes "has mem p (put_entry e)" "length (fst e) = 4"
  shows "read_bytes mem p 4 = Some (fst e)" "read_le32 mem (p + 4) = Some (fst (snd e))"
    "read_le32 mem (p + 8) = Some (snd (snd e))"
proof -
  have h: "has mem p (fst e)" "has mem (p + 4) (put_le32 (fst (snd e)))" "has mem (p + 8) (put_le32 (snd (snd e)))"
    using assms unfolding put_entry_def has_append by (simp_all add: ac_simps)
  show "read_bytes mem p 4 = Some (fst e)" using h(1) assms(2) by (simp add: has_def)
  show "read_le32 mem (p + 4) = Some (fst (snd e))" "read_le32 mem (p + 8) = Some (snd (snd e))"
    using h(2,3) by (simp_all add: read_put_le32)
qed

lemma find_tag_table:
  assumes "has mem (base + 12) (concat (map put_entry T))" "\<forall>e \<in> set T. length (fst e) = 4"
  shows "i \<le> length T \<Longrightarrow>
    case find (\<lambda>e. fst e = tag) (drop i T) of
      None \<Rightarrow> find_tag mem base tag i (length T - i) = Some None
    | Some e \<Rightarrow> \<exists>j < length T. T ! j = e \<and> find_tag mem base tag i (length T - i) = Some (Some (base + 12 + 12 * j))"
proof (induction "length T - i" arbitrary: i)
  case 0
  then show ?case by simp
next
  case (Suc k)
  then have i: "i < length T" by simp
  have d: "drop i T = T ! i # drop (Suc i) T" using i by (simp add: Cons_nth_drop_Suc)
  have k: "length T - i = Suc (length T - Suc i)" using i by simp
  have rd: "read_bytes mem (base + 12 + 12 * i) 4 = Some (fst (T ! i))"
    using has_table_entry [OF assms i] assms(2) i by (intro entry_fields(1)) simp_all
  show ?case
  proof (cases "fst (T ! i) = tag")
    case True
    then show ?thesis using rd i unfolding d k by auto
  next
    case False
    then show ?thesis using rd Suc(1) [of "Suc i"] Suc(2) i unfolding d k
      by (simp split: option.splits) auto
  qed
qed

text \<open>The entry for a chip: the first one that carries the first of its tags that occurs.\<close>

fun wanted_entry :: "u8 list list \<Rightarrow> fw_entry list \<Rightarrow> fw_entry option" where
  "wanted_entry [] T = None"
| "wanted_entry (t # ts) T = (case find (\<lambda>e. fst e = t) T of Some e \<Rightarrow> Some e | None \<Rightarrow> wanted_entry ts T)"

lemma sint_of_nat_small: "n < 2 ^ 31 \<Longrightarrow> sint (of_nat n :: u32) = int n"
  using signed_take_bit_int_eq_self_iff [of 31 "int n"] by (simp add: signed_of_nat)

lemma container_parts:
  assumes "has mem p (put_container magic ver T body)" "entries_ok T" "length magic = 4"
  shows "read_bytes mem p 4 = Some magic"
    "map_option sint (read_le32 mem (p + 8)) = Some (int (length T))"
    "has mem (p + 12) (concat (map put_entry T))"
proof -
  have h: "has mem p magic" "has mem (p + 8) (put_le32 (of_nat (length T)))" "has mem (p + 12) (concat (map put_entry T))"
    using assms unfolding put_container_def has_append by (simp_all add: ac_simps)
  show "read_bytes mem p 4 = Some magic" using h(1) assms(3) by (simp add: has_def)
  show "map_option sint (read_le32 mem (p + 8)) = Some (int (length T))"
    using read_put_le32 [OF h(2)] assms(2) by (simp add: entries_ok_def sint_of_nat_small)
  show "has mem (p + 12) (concat (map put_entry T))" by (rule h(3))
qed

lemma first_tag_table:
  assumes "has (fw_mem f) (fw_data f) (put_container magic ver T body)" "entries_ok T" "length magic = 4"
  shows "case wanted_entry ts T of
      None \<Rightarrow> first_tag f ts = Some None
    | Some e \<Rightarrow> \<exists>j < length T. T ! j = e \<and> first_tag f ts = Some (Some (fw_data f + 12 + 12 * j))"
proof (induction ts)
  case (Cons t ts)
  note parts = container_parts [OF assms]
  have c: "marlin_fw_get_img_count f = Some (int (length T))"
    using parts(2) by (simp add: marlin_fw_get_img_count_def)
  have "marlin_imageinfo_get_from_data t f = find_tag (fw_mem f) (fw_data f) t 0 (length T - 0)"
    by (simp add: marlin_imageinfo_get_from_data_def c)
  then have "case find (\<lambda>e. fst e = t) T of
      None \<Rightarrow> marlin_imageinfo_get_from_data t f = Some None
    | Some e \<Rightarrow> \<exists>j < length T. T ! j = e \<and> marlin_imageinfo_get_from_data t f = Some (Some (fw_data f + 12 + 12 * j))"
    using find_tag_table [OF parts(3) conjunct2 [OF assms(2) [unfolded entries_ok_def]] le0, of t]
    by (simp only: drop_0)
  then show ?case using Cons by (auto split: option.splits)
qed simp

section \<open>Images\<close>

text \<open>An image is either one block for the start address, or sections with a place and an address each.\<close>

datatype fw_image = Raw "u8 list" | Sections u32 "(u32 \<times> u32 \<times> u32) list" "u8 list"

fun put_image :: "fw_image \<Rightarrow> u8 list" where
  "put_image (Raw bs) = bs"
| "put_image (Sections ver secs body) =
     put_container IMG_HEAD_MAGIC_COMBINE ver (map (\<lambda>(a, off, len). (put_le32 a, off, len)) secs) body"

definition put_section :: "u8 list \<Rightarrow> u32 \<times> u32 \<times> u32 \<Rightarrow> (u32 \<Rightarrow> u8 option) \<Rightarrow> u32 \<Rightarrow> u8 option" where
  "put_section img s = put_block (fst s) (take (unat (snd (snd s))) (drop (unat (fst (snd s))) img))"

fun image_mem :: "fw_image \<Rightarrow> u32 \<Rightarrow> u8 option" where
  "image_mem (Raw bs) = put_block CP_START_ADDR bs Map.empty"
| "image_mem (Sections ver secs body) = fold (put_section (put_image (Sections ver secs body))) secs Map.empty"

fun image_ok :: "fw_image \<Rightarrow> bool" where
  "image_ok (Raw bs) \<longleftrightarrow> 4 \<le> length bs \<and> length bs < 2 ^ 31 \<and> take 4 bs \<noteq> IMG_HEAD_MAGIC_COMBINE"
| "image_ok (Sections ver secs body) \<longleftrightarrow> length (put_image (Sections ver secs body)) < 2 ^ 31 \<and>
     (\<forall>(a, off, len) \<in> set secs. unat off + unat len \<le> length (put_image (Sections ver secs body)))"

lemma has_slice:
  assumes "has mem p xs" "q + n \<le> length xs"
  shows "take n (drop (p + q) mem) = take n (drop q xs)"
proof -
  have e: "take (length xs) (drop p mem) = xs" using assms(1) by (simp add: has_iff)
  have "take n (drop q (take (length xs) (drop p mem))) = take n (drop (p + q) mem)"
    using assms(2) by (simp add: drop_take min_absorb1 add.commute)
  then show ?thesis unfolding e by simp
qed

lemma length_container:
  "\<forall>e \<in> set T. length (fst e) = 4 \<Longrightarrow> length (put_container magic ver T body) = length magic + 8 + 12 * length T + length body"
  by (simp add: put_container_def length_table)

lemma write_sections_image:
  assumes img: "has (fw_mem f) (fw_data f) (put_image (Sections ver secs body))" "image_ok (Sections ver secs body)"
    and sz: "unat (fw_size f) = length (put_image (Sections ver secs body))"
  shows "i \<le> length secs \<Longrightarrow> packets_fit tr \<Longrightarrow>
    \<exists>tr' ok. write_sections res f i (length secs - i) tr = Some (tr', ok) \<and> packets_fit tr' \<and> ((\<forall>k. res k) \<longrightarrow> ok) \<and>
      (ok \<longrightarrow> chip_mem tr' = fold (put_section (put_image (Sections ver secs body))) (drop i secs) (chip_mem tr))"
proof (induction "length secs - i" arbitrary: i tr)
  case 0
  then show ?case by auto
next
  case (Suc k)
  define I where "I = put_image (Sections ver secs body)"
  define T where "T = map (\<lambda>(a, off, len). (put_le32 a, off, len)) secs"
  have i: "i < length secs" using Suc(2) by simp
  have d: "drop i secs = secs ! i # drop (Suc i) secs" using i by (simp add: Cons_nth_drop_Suc)
  have k: "length secs - i = Suc (length secs - Suc i)" using i by simp
  obtain a off len where s: "secs ! i = (a, off, len)" by (cases "secs ! i")
  have I: "has (fw_mem f) (fw_data f) I" "length I < 2 ^ 31" "unat off + unat len \<le> length I" "unat (fw_size f) = length I"
    using img sz nth_mem [OF i] s by (auto simp: I_def)
  have four: "\<forall>e \<in> set T. length (fst e) = 4" by (auto simp: T_def)
  have T: "has (fw_mem f) (fw_data f + 12) (concat (map put_entry T))"
    using I(1) unfolding I_def put_image.simps put_container_def has_append T_def [symmetric]
    by (simp add: IMG_HEAD_MAGIC_COMBINE_def ac_simps)
  have e: "has (fw_mem f) (fw_data f + 12 + 12 * i) (put_entry (T ! i))" "length (fst (T ! i)) = 4"
    using has_table_entry [OF T four, of i] i four by (simp_all add: T_def)
  have Ti: "T ! i = (put_le32 a, off, len)" using i s by (simp add: T_def)
  have "has (fw_mem f) (fw_data f + 12 + 12 * i) (put_le32 a)"
    using e(1) unfolding put_entry_def has_append Ti by simp
  note fields = read_put_le32 [OF this] entry_fields(2,3) [OF e, unfolded Ti fst_conv snd_conv]
  have "unat (len + off) = unat len + unat off"
    using I(2,3) by (intro unat_add_lem [THEN iffD1]) simp
  then have fits: "\<not> fw_size f < ucast (len + off)"
    using I(3,4) by (simp add: word_less_nat_alt unat_ucast_up)
  have room: "fw_data f + unat off + unat len \<le> length (fw_mem f)" using I(1,3) by (simp add: has_iff)
  obtain tr1 ok1 where w: "sprdwcn_bus_direct_write_dispack res a (fw_mem f) (fw_data f + unat off) (unat len) 0 tr = Some (tr1, ok1)"
    "packets_fit tr1" "(\<forall>k. res k) \<longrightarrow> ok1"
    "ok1 \<longrightarrow> chip_mem tr1 = put_block a (take (unat len) (drop (fw_data f + unat off) (fw_mem f))) (chip_mem tr)"
    using dispack_writes [OF room, of 0 tr res a] Suc(4) unsigned_less [of len] by auto
  have blk: "ok1 \<longrightarrow> chip_mem tr1 = put_section I (secs ! i) (chip_mem tr)"
    using w(4) has_slice [OF I(1,3)] s by (simp add: put_section_def)
  have step: "write_sections res f i (length secs - i) tr =
      (if ok1 then write_sections res f (Suc i) (length secs - Suc i) tr1 else Some (tr1, False))"
    using fields fits w(1) unfolding k by simp
  show ?case
  proof (cases ok1)
    case False
    then show ?thesis using step w(2,3) by auto
  next
    case True
    then show ?thesis using Suc(1) [of "Suc i" tr1] Suc(2) i step w(2) blk unfolding d I_def by simp
  qed
qed

lemma write_image:
  assumes "has (fw_mem f) (fw_data f) (put_image img)" "image_ok img" "unat (fw_size f) = length (put_image img)"
  shows "\<exists>tr ok. marlin_firmware_write res f = Some (tr, ok) \<and> packets_fit tr \<and> ((\<forall>k. res k) \<longrightarrow> ok) \<and>
    (ok \<longrightarrow> chip_mem tr = image_mem img)"
proof (cases img)
  case (Raw bs)
  have h: "has (fw_mem f) (fw_data f) (take 4 bs)"
    using assms(1,2) Raw has_append [of "fw_mem f" "fw_data f" "take 4 bs" "drop 4 bs"] by simp
  then have m: "bin_magic_is f IMG_HEAD_MAGIC_COMBINE = Some False"
    using assms(2) Raw by (simp add: bin_magic_is_def has_def min_absorb2)
  have room: "fw_data f + unat (fw_size f) \<le> length (fw_mem f)" using assms(1,3) by (simp add: has_iff)
  have same: "take (unat (fw_size f)) (drop (fw_data f) (fw_mem f)) = bs"
    using assms(1,3) Raw by (simp add: has_iff)
  show ?thesis
    using dispack_writes [OF room, of 0 "[]" res CP_START_ADDR] m assms(2,3) same Raw
    by (auto simp: marlin_firmware_write_def)
next
  case (Sections ver secs body)
  define T where "T = map (\<lambda>(a, off, len). (put_le32 a, off, len)) secs"
  have lT: "length T = length secs" by (simp add: T_def)
  have four: "\<forall>e \<in> set T. length (fst e) = 4" by (auto simp: T_def)
  have "length secs < 2 ^ 31"
  proof -
    have "length (put_container IMG_HEAD_MAGIC_COMBINE ver T body) < 2 ^ 31" using assms(2) Sections by (simp add: T_def)
    then show ?thesis using length_container [OF four] lT by simp
  qed
  then have ok: "entries_ok T" using four lT by (simp add: entries_ok_def)
  have c: "has (fw_mem f) (fw_data f) (put_container IMG_HEAD_MAGIC_COMBINE ver T body)"
    using assms(1) Sections by (simp add: T_def)
  have l4: "length IMG_HEAD_MAGIC_COMBINE = 4" by (simp add: IMG_HEAD_MAGIC_COMBINE_def)
  note parts = container_parts [OF c ok l4]
  obtain tr ok where w: "write_sections res f 0 (length secs) [] = Some (tr, ok)" "packets_fit tr" "(\<forall>k. res k) \<longrightarrow> ok"
    "ok \<longrightarrow> chip_mem tr = image_mem img"
    using write_sections_image [OF assms(1,2,3) [unfolded Sections], of 0 "[]" res] Sections by auto
  have "marlin_firmware_write res f = Some (tr, ok)"
    using parts(1,2) lT w(1) by (auto simp: marlin_firmware_write_def bin_magic_is_def marlin_fw_get_img_count_def)
  then show ?thesis using w(2-4) by blast
qed

section \<open>From the container to the chip\<close>

definition mask_ok :: "u8 list \<Rightarrow> bool" where
  "mask_ok m \<longleftrightarrow> m = [] \<or> length m = 8 \<and> m ! 0 = 0 \<and> m ! 1 = 0"

lemma take_mask:
  assumes "mask_ok m" "fw_mem f = m @ put_container IMG_HEAD_MAGIC ver T body" "fw_data f = 0"
    "fw_size f = of_nat (length (fw_mem f))"
  shows "\<exists>k. fw_take_mask s f = Some (s\<lparr>functionmask := k\<rparr>,
    f\<lparr>fw_data := length m, fw_size := of_nat (length (put_container IMG_HEAD_MAGIC ver T body))\<rparr>)"
proof (cases "m = []")
  case True
  have rd: "read_bytes (fw_mem f) 0 8 = Some (IMG_HEAD_MAGIC @ put_le32 ver)"
    using assms(2) True by (simp add: read_bytes_def put_container_def IMG_HEAD_MAGIC_def put_le32_def)
  have "f\<lparr>fw_data := 0, fw_size := of_nat (length (fw_mem f))\<rparr> = f" using assms(3,4) by simp
  then show ?thesis using assms(2,3) rd True by (auto simp: fw_take_mask_def IMG_HEAD_MAGIC_def)
next
  case False
  then have m: "length m = 8" "m ! 0 = 0" "m ! 1 = 0" using assms(1) by (auto simp: mask_ok_def)
  then show ?thesis using assms(2-4) by (auto simp: fw_take_mask_def read_bytes_def)
qed

lemma parse_entry:
  assumes "has (fw_mem f) (fw_data f) (put_container IMG_HEAD_MAGIC ver T body)" "entries_ok T"
    and "marlin_get_wcn_chipid at s = (s', v)" "wanted_entry (chip_tags v) T = Some (t, off, len)"
  shows "marlin_firmware_parse_image at s f =
    Some (parse_reload at (ucast (fw_size f)) s' (f\<lparr>fw_data := fw_data f + unat off, fw_size := ucast len\<rparr>) off len)"
proof -
  have l4: "length IMG_HEAD_MAGIC = 4" by (simp add: IMG_HEAD_MAGIC_def)
  note parts = container_parts [OF assms(1,2) l4]
  have four: "\<forall>e \<in> set T. length (fst e) = 4" using assms(2) by (simp add: entries_ok_def)
  obtain j where j: "j < length T" "T ! j = (t, off, len)"
    "marlin_judge_images v f = Some (Some (fw_data f + 12 + 12 * j))"
    using first_tag_table [OF assms(1,2) l4, of "chip_tags v"] assms(4) by (auto simp: marlin_judge_images_def)
  note e = has_table_entry [OF parts(3) four j(1)]
  have f4: "length (fst (T ! j)) = 4" using four j(1) by simp
  note fields = entry_fields(2,3) [OF e f4, unfolded j(2) fst_conv snd_conv]
  have magics: "bin_magic_is f IMG_HEAD_MAGIC = Some True" "bin_magic_is f IMG_HEAD_MAGIC_COMBINE = Some False"
    using parts(1) by (simp_all add: bin_magic_is_def IMG_HEAD_MAGIC_def IMG_HEAD_MAGIC_COMBINE_def)
  have pk: "parse_pack (fw_data f + 12 + 12 * j) f = Some (f\<lparr>fw_data := fw_data f + unat off, fw_size := ucast len\<rparr>, off, len)"
    using fields by (simp add: parse_pack_def)
  show ?thesis using magics assms(3) j(3) pk by (simp add: marlin_firmware_parse_image_def)
qed

lemma sint_sum:
  assumes "unat off + unat len < 2 ^ 31"
  shows "sint (off + len :: u32) = int (unat off + unat len)"
proof -
  have "unat (off + len) = unat off + unat len"
    using assms by (intro unat_add_lem [THEN iffD1]) simp
  moreover have "off + len = of_nat (unat (off + len))" by simp
  ultimately have "off + len = of_nat (unat off + unat len)" by (simp only:)
  then show ?thesis using sint_of_nat_small [OF assms] by (simp only:)
qed

lemma sint_size:
  assumes "n < 2 ^ 31"
  shows "sint (ucast (of_nat n :: u64) :: u32) = int n"
proof -
  have "ucast (of_nat n :: u64) = (of_nat n :: u32)"
    using assms by (intro word_unat_eq_iff [THEN iffD2]) (simp add: unsigned_ucast_eq unsigned_of_nat take_bit_nat_eq_self)
  then show ?thesis using sint_of_nat_small [OF assms] by simp
qed

lemma parse_container:
  assumes "has (fw_mem f) (fw_data f) C" "C = put_container IMG_HEAD_MAGIC ver T body" "entries_ok T" "length C < 2 ^ 31"
    and "fw_size f = of_nat (length C)" "marlin_get_wcn_chipid at s = (s', v)"
    and "wanted_entry (chip_tags v) T = Some (t, off, len)" "unat off + unat len \<le> length C"
  shows "marlin_firmware_parse_image at s f = Some (s', f\<lparr>fw_data := fw_data f + unat off, fw_size := ucast len\<rparr>, 0)"
proof -
  have "\<not> sint (ucast (fw_size f) :: u32) < sint (off + len)"
    using assms(4,5,8) sint_sum [of off len] sint_size [of "length C"] of_nat_mono [OF assms(8), where 'a = int] by simp
  then show ?thesis
    using parse_entry [OF assms(1) [unfolded assms(2)] assms(3,6,7)] by (simp add: parse_reload_def)
qed

definition firmware_at :: "attempt \<Rightarrow> bool \<Rightarrow> fw_store \<Rightarrow> u8 list \<Rightarrow> bool" where
  "firmware_at at first s file \<longleftrightarrow> at_kmalloc at \<and> \<not> is_btwf_in_sysfs s \<and>
     (if first then at_request at = Some file \<and> at_vmalloc at else fw_backup s = Some file)"

lemma source_of_copy:
  assumes "firmware_at at first s file"
  shows "fw_source at maxsz first s = Some (s\<lparr>fw_backup := Some file\<rparr>, Inl \<lparr>fw_mem = file, fw_data = 0,
    fw_size = of_nat (length file), is_from_fs = first, is_from_hex = \<not> first\<rparr>)"
proof (cases first)
  case True
  then show ?thesis using assms by (simp add: firmware_at_def fw_source_def)
next
  case False
  have "s\<lparr>fw_backup := fw_backup s\<rparr> = s" by simp
  then show ?thesis using False assms unfolding firmware_at_def fw_source_def by (simp del: not_None_eq)
qed

lemma chipid_frame:
  "marlin_get_wcn_chipid at (s\<lparr>fw_backup := b, functionmask := k\<rparr>) =
     (let (s', v) = marlin_get_wcn_chipid at s in (s'\<lparr>fw_backup := b, functionmask := k\<rparr>, v))"
  "fw_backup (fst (marlin_get_wcn_chipid at s)) = fw_backup s"
  "is_btwf_in_sysfs (fst (marlin_get_wcn_chipid at s)) = is_btwf_in_sysfs s"
  "bad_vfree (fst (marlin_get_wcn_chipid at s)) = bad_vfree s"
  "lost_mem (fst (marlin_get_wcn_chipid at s)) = lost_mem s"
  by (auto simp: marlin_get_wcn_chipid_def Let_def split: option.splits)

lemma container_download:
  assumes pack: "file = m @ put_container IMG_HEAD_MAGIC ver T body" "mask_ok m" "length file < 2 ^ 31" "entries_ok T"
    and entry: "wanted_entry (chip_tags (snd (marlin_get_wcn_chipid at s))) T = Some (t, off, len)"
    and image: "has (put_container IMG_HEAD_MAGIC ver T body) (unat off) (put_image img)" "unat len = length (put_image img)" "image_ok img"
    and src: "firmware_at at first s file"
  shows "\<exists>s' tr ok. btwifi_download_firmware at maxsz first s = Some (s', tr, ok) \<and> packets_fit tr \<and>
    ((\<forall>k. at_writes at k) \<longrightarrow> ok) \<and> (ok \<longrightarrow> chip_mem tr = image_mem img) \<and>
    fw_backup s' = Some file \<and> \<not> is_btwf_in_sysfs s' \<and> bad_vfree s' = bad_vfree s \<and> lost_mem s' = lost_mem s \<and>
    chip_id s' = chip_id (fst (marlin_get_wcn_chipid at s))"
proof -
  define C where "C = put_container IMG_HEAD_MAGIC ver T body"
  define f0 where "f0 = \<lparr>fw_mem = file, fw_data = 0, fw_size = of_nat (length file), is_from_fs = first, is_from_hex = \<not> first\<rparr>"
  define f1 where "f1 = f0\<lparr>fw_data := length m, fw_size := of_nat (length C)\<rparr>"
  define f2 where "f2 = f1\<lparr>fw_data := length m + unat off, fw_size := ucast len\<rparr>"
  obtain k where k: "fw_take_mask (s\<lparr>fw_backup := Some file\<rparr>) f0 = Some (s\<lparr>fw_backup := Some file, functionmask := k\<rparr>, f1)"
    using take_mask [OF pack(2), of f0 ver T body "s\<lparr>fw_backup := Some file\<rparr>"] pack(1) by (auto simp: f0_def f1_def C_def)
  have req: "marlin_request_firmware at maxsz first s = Some (s\<lparr>fw_backup := Some file, functionmask := k\<rparr>, Inl f1)"
    using source_of_copy [OF src] k by (simp add: marlin_request_firmware_def f0_def)
  have hasC: "has (fw_mem f1) (fw_data f1) C"
    using has_self [of m C "[]"] pack(1) by (simp add: f1_def f0_def C_def)
  have room: "unat off + unat len \<le> length C" using image(1,2) by (simp add: has_iff C_def)
  have lC: "length C < 2 ^ 31" using pack(1,3) by (simp add: C_def)
  obtain s1 where s1: "marlin_get_wcn_chipid at (s\<lparr>fw_backup := Some file, functionmask := k\<rparr>) = (s1, snd (marlin_get_wcn_chipid at s))"
    "s1 = (fst (marlin_get_wcn_chipid at s))\<lparr>fw_backup := Some file, functionmask := k\<rparr>"
    by (simp add: chipid_frame(1) Let_def split_beta)
  have sz1: "fw_size f1 = of_nat (length C)" by (simp add: f1_def)
  have parse: "marlin_firmware_parse_image at (s\<lparr>fw_backup := Some file, functionmask := k\<rparr>) f1 = Some (s1, f2, 0)"
    using parse_container [OF hasC C_def pack(4) lC sz1 s1(1) entry room] by (simp add: f2_def f1_def)
  have "has (fw_mem f2) (fw_data f2) (put_image img)"
    using has_sub [OF hasC _ image(1) [folded C_def]] image(2) room by (simp add: f2_def f1_def)
  moreover have "unat (fw_size f2) = length (put_image img)"
    using image(2) by (simp add: f2_def unat_ucast_up)
  ultimately obtain tr ok where w: "marlin_firmware_write (at_writes at) f2 = Some (tr, ok)" "packets_fit tr"
    "(\<forall>k. at_writes at k) \<longrightarrow> ok" "ok \<longrightarrow> chip_mem tr = image_mem img"
    using write_image [OF _ image(3), of f2 "at_writes at"] by blast
  have rel: "marlin_release_firmware f2 s1 = s1"
    by (simp add: marlin_release_firmware_def f2_def f1_def f0_def)
  have "btwifi_download_firmware at maxsz first s = Some (s1, tr, ok)"
    using req parse w(1) rel by (simp add: btwifi_download_firmware_def)
  moreover have "\<not> is_btwf_in_sysfs s1" using src by (simp add: s1(2) chipid_frame firmware_at_def)
  ultimately show ?thesis using w(2-4) by (simp add: s1(2) chipid_frame)
qed

text \<open>
  C13. A container of images reaches the chip: when the loader finds it, or it is kept from the
  first time, the download never faults, its packets are never larger than \<open>PACKET_SIZE\<close>, it succeeds unless a
  write fails, and then the memory of the chip holds exactly the image for that chip, with each section at its address.
\<close>

theorem container_reaches_chip:
  assumes pack: "file = m @ put_container IMG_HEAD_MAGIC ver T body" "mask_ok m" "length file < 2 ^ 31" "entries_ok T"
    and entry: "wanted_entry (chip_tags (snd (marlin_get_wcn_chipid at s))) T = Some (t, off, len)"
    and image: "has (put_container IMG_HEAD_MAGIC ver T body) (unat off) (put_image img)" "unat len = length (put_image img)" "image_ok img"
    and src: "firmware_at at first s file"
  shows "\<exists>s' tr ok. btwifi_download_firmware at maxsz first s = Some (s', tr, ok) \<and> packets_fit tr \<and>
    ((\<forall>k. at_writes at k) \<longrightarrow> ok) \<and> (ok \<longrightarrow> chip_mem tr = image_mem img) \<and>
    fw_backup s' = Some file \<and> \<not> is_btwf_in_sysfs s' \<and> bad_vfree s' = bad_vfree s \<and> lost_mem s' = lost_mem s"
  using container_download [OF assms, of maxsz] by blast

definition sample_attempt :: attempt where
  "sample_attempt = \<lparr>at_card = True, at_id_m3e = Some 0, at_id_m3 = Some 0x23550000, at_kmalloc = True,
     at_request = None, at_vmalloc = True, at_files = \<lambda>_. None, at_junk = \<lambda>_. 0, at_writes = \<lambda>_. True,
     at_run = True, at_sync = \<lambda>_. Some 0xF0F0F0FF\<rparr>"

definition sample_store :: fw_store where
  "sample_store = \<lparr>is_btwf_in_sysfs = False, fw_path = 0, fw_backup = None, functionmask = replicate 8 0,
     chip_id = 0, lost_mem = 0, bad_vfree = 0\<rparr>"

definition sample_entries :: "fw_entry list" where
  "sample_entries = [([0x33, 0x30, 0x41, 0x42], 0, 0), ([0x33, 0x30, 0x41, 0x41], 36, 28)]"

definition sample_image :: fw_image where
  "sample_image = Sections 0 [(0x40500000, 24, 4)] [1, 2, 3, 4]"

definition sample_file :: "u8 list" where
  "sample_file = replicate 8 0 @ put_container IMG_HEAD_MAGIC 0 sample_entries (put_image sample_image)"

lemma sample_chip: "snd (marlin_get_wcn_chipid (sample_attempt\<lparr>at_request := r\<rparr>) sample_store) = 0x23550000"
  by (simp add: marlin_get_wcn_chipid_def sample_attempt_def sample_store_def WCN_CHIPID_MASK_def MARLIN3E_AA_CHIPID_def)

lemma sample_wanted: "wanted_entry (chip_tags 0x23550000) sample_entries = Some ([0x33, 0x30, 0x41, 0x41], 36, 28)"
  by (simp add: chip_tags_def MARLIN3_AA_CHIPID_def sample_entries_def)

lemma container_reaches_chip_witness:
  "\<exists>s' tr ok. btwifi_download_firmware (sample_attempt\<lparr>at_request := Some sample_file\<rparr>) 0xf0c00 True sample_store = Some (s', tr, ok) \<and>
    ok \<and> chip_mem tr = image_mem sample_image \<and> fw_backup s' = Some sample_file"
proof -
  let ?at = "sample_attempt\<lparr>at_request := Some sample_file\<rparr>"
  have m: "mask_ok (replicate 8 0)" by (simp add: mask_ok_def)
  have l: "length sample_file < 2 ^ 31" "entries_ok sample_entries" "image_ok sample_image"
    "unat (28 :: u32) = length (put_image sample_image)"
    by (simp_all add: sample_file_def sample_entries_def sample_image_def put_container_def put_entry_def put_le32_def
        IMG_HEAD_MAGIC_def IMG_HEAD_MAGIC_COMBINE_def entries_ok_def)
  have e: "wanted_entry (chip_tags (snd (marlin_get_wcn_chipid ?at sample_store))) sample_entries = Some ([0x33, 0x30, 0x41, 0x41], 36, 28)"
    by (simp only: sample_chip sample_wanted)
  have h: "has (put_container IMG_HEAD_MAGIC 0 sample_entries (put_image sample_image)) (unat (36 :: u32)) (put_image sample_image)"
    by (simp add: has_iff put_container_def sample_entries_def put_entry_def put_le32_def IMG_HEAD_MAGIC_def)
  have src: "firmware_at ?at True sample_store sample_file"
    by (simp add: firmware_at_def sample_attempt_def sample_store_def)
  have "\<forall>k. at_writes ?at k" by (simp add: sample_attempt_def)
  then show ?thesis
    using container_reaches_chip [OF sample_file_def m l(1,2) e h l(4,3) src, where maxsz = "0xf0c00"] by blast
qed

section \<open>Sizes that wrap\<close>

lemma unat_add_wrap:
  assumes "2 ^ 32 \<le> unat (x :: u32) + unat y"
  shows "unat (x + y) = unat x + unat y - 2 ^ 32"
proof -
  have "unat x < 2 ^ 32" "unat y < 2 ^ 32" using unsigned_less [of x] unsigned_less [of y] by simp_all
  then have "(unat x + unat y) mod 2 ^ 32 = unat x + unat y - 2 ^ 32"
    using le_mod_geq [OF assms] by simp
  then show ?thesis by (simp add: unat_word_ariths(1))
qed

text \<open>
  Offset and length of a section are added as numbers of 32 bits before they are compared
  with the size of the image: a sum that wraps passes, and the driver reads behind the memory that holds the image.
\<close>

theorem section_sum_wraps:
  assumes "has (fw_mem f) (fw_data f) (put_container IMG_HEAD_MAGIC_COMBINE ver ((put_le32 a, off, len) # T) body)"
    and "entries_ok ((put_le32 a, off, len) # T)"
    and "2 ^ 32 \<le> unat off + unat len" "unat off + unat len \<le> 2 ^ 32 + unat (fw_size f)"
    and "length (fw_mem f) \<le> fw_data f + unat off"
  shows "marlin_firmware_write res f = None"
proof -
  have l4: "length IMG_HEAD_MAGIC_COMBINE = 4" by (simp add: IMG_HEAD_MAGIC_COMBINE_def)
  note parts = container_parts [OF assms(1,2) l4]
  have e: "has (fw_mem f) (fw_data f + 12 + 12 * 0) (put_entry (put_le32 a, off, len))"
    using has_table_entry [OF parts(3), of 0] assms(2) by (simp add: entries_ok_def)
  then have e': "has (fw_mem f) (fw_data f + 12) (put_le32 a)" unfolding put_entry_def has_append by simp
  note fields = read_put_le32 [OF e'] entry_fields(2,3) [OF e [simplified]]
  have "unat (len + off) = unat len + unat off - 2 ^ 32"
    using assms(3) by (intro unat_add_wrap) simp
  then have pass: "\<not> fw_size f < ucast (len + off)"
    using assms(4) by (simp add: word_less_nat_alt unat_ucast_up)
  have "unat off < 2 ^ 32" using unsigned_less [of off] by simp
  then have "0 < unat len" using assms(3) by linarith
  moreover from this have "0 < min PACKET_SIZE (unat len)" by (simp add: PACKET_SIZE_def)
  then have "read_bytes (fw_mem f) (fw_data f + unat off) (min PACKET_SIZE (unat len)) = None"
    using assms(5) by (auto simp only: read_bytes_def split: if_split)
  ultimately have "sprdwcn_bus_direct_write_dispack res a (fw_mem f) (fw_data f + unat off) (unat len) 0 [] = None"
    by (subst sprdwcn_bus_direct_write_dispack.simps) (simp add: Let_def)
  then show ?thesis
    using parts(1,2) fields pass
    by (auto simp: marlin_firmware_write_def bin_magic_is_def marlin_fw_get_img_count_def nat_add_distrib)
qed

lemma section_sum_wraps_witness:
  "marlin_firmware_write (\<lambda>_. True) \<lparr>fw_mem = put_container IMG_HEAD_MAGIC_COMBINE 0 [(put_le32 CP_START_ADDR, 0xFFFFFFF0, 24)] [],
     fw_data = 0, fw_size = 24, is_from_fs = True, is_from_hex = False\<rparr> = None"
  by (rule section_sum_wraps [where ver = 0 and a = CP_START_ADDR and off = "0xFFFFFFF0" and len = 24 and T = "[]" and body = "[]"])
    (simp_all add: has_iff entries_ok_def put_container_def put_entry_def put_le32_def IMG_HEAD_MAGIC_COMBINE_def)

section \<open>Firmware read from a file\<close>

lemma length_load:
  "load_firmware_data_path at path offset n = Some b \<Longrightarrow> length b = nat n"
  by (auto simp: load_firmware_data_path_def Let_def bind_eq_Some_conv split: if_splits)

lemma load_whole:
  assumes "at_files at path = Some file" "at_vmalloc at" "0 < n" "offset + n \<le> length file"
  shows "load_firmware_data_path at path offset (int n) = Some (take n (drop offset file))"
  using assms by (simp add: load_firmware_data_path_def Let_def)

lemma chipid_paths:
  "marlin_get_wcn_chipid at (s\<lparr>fw_path := p, functionmask := k\<rparr>) =
     (let (s', v) = marlin_get_wcn_chipid at s in (s'\<lparr>fw_path := p, functionmask := k\<rparr>, v))"
  by (auto simp: marlin_get_wcn_chipid_def Let_def split: option.splits)

text \<open>What is read first holds the whole table when it is long enough.\<close>

lemma container_prefix:
  assumes "file = m @ put_container magic ver T body" "\<forall>e \<in> set T. length (fst e) = 4" "length magic = 4"
    and "length m + 12 + 12 * length T \<le> n" "length m + 12 + 12 * length T \<le> length file"
    and "take n b = b" "take n file = take n b \<or> (\<exists>junk. b = take n file @ junk)"
  shows "\<exists>body'. b = m @ put_container magic ver T body'"
proof -
  define h where "h = m @ magic @ put_le32 ver @ put_le32 (of_nat (length T)) @ concat (map put_entry T)"
  have lh: "length h = length m + 12 + 12 * length T" using assms(2,3) by (simp add: h_def length_table)
  have f: "file = h @ body" by (simp add: assms(1) h_def put_container_def)
  obtain junk where b: "b = take n file @ junk" using assms(6,7) by auto
  have "b = h @ take (n - length h) body @ junk" using b f assms(4) lh by simp
  then show ?thesis by (auto simp: h_def put_container_def)
qed

text \<open>
  A part that has to be read again is read from its offset in the container, not from its place in the file: behind a function
  mask of eight bytes the chip gets what lies eight bytes before the image, and the download succeeds.
\<close>

theorem reload_starts_early:
  assumes pack: "file = m @ put_container IMG_HEAD_MAGIC ver T body" "length m = 8" "m ! 0 = 0" "m ! 1 = 0"
      "entries_ok T" "length file < 2 ^ 31"
    and first_part: "20 + 12 * length T \<le> maxsz" "maxsz < 8 + unat off + unat len" "8 + unat off + unat len \<le> length file"
    and entry: "wanted_entry (chip_tags (snd (marlin_get_wcn_chipid at s))) T = Some (t, off, len)"
    and raw: "4 \<le> unat len" "take 4 (drop (unat off) file) \<noteq> IMG_HEAD_MAGIC_COMBINE"
    and src: "at_kmalloc at" "at_vmalloc at" "is_btwf_in_sysfs s" "at_files at (fw_path s) = Some file" "\<forall>k. at_writes at k"
  shows "\<exists>s' tr. btwifi_download_firmware at maxsz first s = Some (s', tr, True) \<and>
    chip_mem tr = put_block CP_START_ADDR (take (unat len) (drop (unat off) file)) Map.empty"
proof -
  define b where "b = take maxsz file @ map (at_junk at) [length (take maxsz file)..<maxsz]"
  have four: "\<forall>e \<in> set T. length (fst e) = 4" using pack(5) by (simp add: entries_ok_def)
  have l4: "length IMG_HEAD_MAGIC = 4" by (simp add: IMG_HEAD_MAGIC_def)
  have lb: "length b = maxsz" by (simp add: b_def)
  have "load_firmware_data_path at (fw_path s) 0 (int maxsz) = Some b"
    using src(2,4) first_part(1) by (simp add: load_firmware_data_path_def b_def Let_def)
  then have load: "load_fw at maxsz (fw_path s) 0 = (fw_path s, Some b)" by (subst load_fw.simps) simp
  have lfile: "length m + 12 + 12 * length T \<le> length file"
    using pack(1) length_container [OF four, of IMG_HEAD_MAGIC ver body] l4 by simp
  obtain body' where b: "b = m @ put_container IMG_HEAD_MAGIC ver T body'"
    using container_prefix [OF pack(1) four l4 _ lfile, of maxsz b] first_part(1) pack(2) lb b_def by auto
  define C where "C = put_container IMG_HEAD_MAGIC ver T body'"
  define f0 where "f0 = \<lparr>fw_mem = b, fw_data = 0, fw_size = of_nat maxsz, is_from_fs = False, is_from_hex = False\<rparr>"
  define f1 where "f1 = f0\<lparr>fw_data := length m, fw_size := of_nat (length C)\<rparr>"
  have mok: "mask_ok m" using pack(2-4) by (simp add: mask_ok_def)
  obtain k where k: "fw_take_mask (s\<lparr>fw_path := fw_path s\<rparr>) f0 = Some (s\<lparr>fw_path := fw_path s, functionmask := k\<rparr>, f1)"
    using take_mask [OF mok, of f0 ver T body' "s\<lparr>fw_path := fw_path s\<rparr>"] b lb by (auto simp: f0_def f1_def C_def)
  have req: "marlin_request_firmware at maxsz first s = Some (s\<lparr>fw_path := fw_path s, functionmask := k\<rparr>, Inl f1)"
    using src(1,3) load k by (simp add: marlin_request_firmware_def fw_source_def f0_def)
  have hasC: "has (fw_mem f1) (fw_data f1) C" using has_self [of m C "[]"] b by (simp add: f1_def f0_def C_def)
  obtain s1 where s1: "marlin_get_wcn_chipid at (s\<lparr>fw_path := fw_path s, functionmask := k\<rparr>) = (s1, snd (marlin_get_wcn_chipid at s))"
    "s1 = (fst (marlin_get_wcn_chipid at s))\<lparr>fw_path := fw_path s, functionmask := k\<rparr>"
    using chipid_paths [where at = at and s = s and p = "fw_path s" and k = k] by (auto simp: Let_def split_beta)
  define f2 where "f2 = f1\<lparr>fw_data := fw_data f1 + unat off, fw_size := ucast len\<rparr>"
  define r where "r = take (unat len) (drop (unat off) file)"
  have lC: "length C = maxsz - 8" using b lb pack(2) by (simp add: C_def) 
  have small: "maxsz < 2 ^ 31" "unat off + unat len < 2 ^ 31" "unat len < 2 ^ 31" using first_part(2,3) pack(6) by linarith+
  have "sint (ucast (fw_size f1) :: u32) < sint (off + len)"
  proof -
    have "sint (ucast (fw_size f1) :: u32) = int (length C)"
      using sint_size [of "length C"] small(1) lC by (simp only: f1_def marlin_firmware.simps) simp
    moreover have "length C < unat off + unat len" using lC first_part(1,2) by linarith
    ultimately show ?thesis using sint_sum [OF small(2)] by (simp only: of_nat_less_iff)
  qed
  moreover have "sint len = int (unat len)"
    using sint_of_nat_small [OF small(3)] by simp
  moreover have "load_firmware_data_path at (fw_path s) (unat off) (int (unat len)) = Some r"
    unfolding r_def using src(2,4) raw(1) first_part(3) by (intro load_whole) simp_all
  ultimately have "parse_reload at (ucast (fw_size f1)) s1 f2 off len = (s1, f2\<lparr>fw_mem := r, fw_data := 0\<rparr>, 0)"
    by (simp add: parse_reload_def f2_def f1_def f0_def s1(2))
  then have parse: "marlin_firmware_parse_image at (s\<lparr>fw_path := fw_path s, functionmask := k\<rparr>) f1 =
      Some (s1, f2\<lparr>fw_mem := r, fw_data := 0\<rparr>, 0)"
    using parse_entry [OF hasC [unfolded C_def] pack(5) s1(1) entry] by (simp add: f2_def)
  have lr: "length r = unat len" using first_part(3) by (simp add: r_def)
  have "image_ok (Raw r)" using raw lr small(3) by (simp add: r_def min_absorb1)
  then obtain tr where w: "marlin_firmware_write (at_writes at) (f2\<lparr>fw_mem := r, fw_data := 0\<rparr>) = Some (tr, True)"
    "chip_mem tr = put_block CP_START_ADDR r Map.empty"
    using write_image [of "f2\<lparr>fw_mem := r, fw_data := 0\<rparr>" "Raw r" "at_writes at"] src(5) lr
    by (auto simp: has_iff f2_def unat_ucast_up)
  have "btwifi_download_firmware at maxsz first s = Some (s1, tr, True)"
    using req parse w(1) by (simp add: btwifi_download_firmware_def marlin_release_firmware_def)
  then show ?thesis using w(2) by (simp add: r_def)
qed

definition sample_masked :: "u8 list" where
  "sample_masked = replicate 8 0 @ put_container IMG_HEAD_MAGIC 0 [([0x33, 0x30, 0x41, 0x41], 24, 16)] (map of_nat [1..<17])"

lemma reload_starts_early_witness:
  "\<exists>s' tr. btwifi_download_firmware (sample_attempt\<lparr>at_files := \<lambda>_. Some sample_masked\<rparr>) 40 False
      (sample_store\<lparr>is_btwf_in_sysfs := True\<rparr>) = Some (s', tr, True) \<and>
    chip_mem tr = put_block CP_START_ADDR [24, 0, 0, 0, 16, 0, 0, 0, 1, 2, 3, 4, 5, 6, 7, 8] Map.empty"
proof -
  let ?at = "sample_attempt\<lparr>at_files := \<lambda>_. Some sample_masked\<rparr>"
  let ?s = "sample_store\<lparr>is_btwf_in_sysfs := True\<rparr>"
  let ?T = "[([0x33, 0x30, 0x41, 0x41] :: u8 list, 24 :: u32, 16 :: u32)]"
  have chip: "snd (marlin_get_wcn_chipid ?at ?s) = 0x23550000"
    by (simp add: marlin_get_wcn_chipid_def sample_attempt_def sample_store_def WCN_CHIPID_MASK_def MARLIN3E_AA_CHIPID_def)
  have e: "wanted_entry (chip_tags (snd (marlin_get_wcn_chipid ?at ?s))) ?T = Some ([0x33, 0x30, 0x41, 0x41], 24, 16)"
    unfolding chip by (simp add: chip_tags_def MARLIN3_AA_CHIPID_def)
  have bytes: "take (unat (16 :: u32)) (drop (unat (24 :: u32)) sample_masked) = [24, 0, 0, 0, 16, 0, 0, 0, 1, 2, 3, 4, 5, 6, 7, 8]"
    by (simp add: sample_masked_def put_container_def put_entry_def put_le32_def IMG_HEAD_MAGIC_def upt_rec)
  have "\<exists>s' tr. btwifi_download_firmware ?at 40 False ?s = Some (s', tr, True) \<and>
      chip_mem tr = put_block CP_START_ADDR (take (unat (16 :: u32)) (drop (unat (24 :: u32)) sample_masked)) Map.empty"
  proof (rule reload_starts_early [OF sample_masked_def, where maxsz = 40 and first = False])
    show "wanted_entry (chip_tags (snd (marlin_get_wcn_chipid ?at ?s))) ?T = Some ([0x33, 0x30, 0x41, 0x41], 24, 16)" by (rule e)
  qed (simp_all add: sample_masked_def sample_attempt_def sample_store_def entries_ok_def put_container_def put_entry_def
      put_le32_def IMG_HEAD_MAGIC_def IMG_HEAD_MAGIC_COMBINE_def)
  then show ?thesis unfolding bytes .
qed

section \<open>What else goes wrong\<close>

text \<open>
  When the second register cannot be read, what the first one held is kept as the number of the
  chip for good.
\<close>

lemma failed_read_sticks:
  assumes "chip_id s = 0" "at_id_m3e at = Some v" "v \<noteq> 0" "v AND WCN_CHIPID_MASK \<noteq> MARLIN3E_AA_CHIPID" "at_id_m3 at = None"
  shows "snd (marlin_get_wcn_chipid at s) = 0"
    "marlin_get_wcn_chipid at' (fst (marlin_get_wcn_chipid at s)) = (fst (marlin_get_wcn_chipid at s), v)"
  using assms by (simp_all add: marlin_get_wcn_chipid_def)

text \<open>Only four types have a name.\<close>

lemma fifth_type_has_no_name:
  assumes "chip_id s = 0x23550004"
  shows "chip_type_str (snd (wcn_get_chip_type at 0 s)) = None"
  using assms by (simp add: wcn_get_chip_type_def marlin_get_wcn_chipid_def chip_type_str_def)

text \<open>A part of what was read from a file is not the start of an allocation when it is freed.\<close>

lemma part_freed_wrongly:
  assumes "has (fw_mem f) (fw_data f) C" "C = put_container IMG_HEAD_MAGIC ver T body" "entries_ok T" "length C < 2 ^ 31"
    and "fw_size f = of_nat (length C)" "marlin_get_wcn_chipid at s = (s', v)"
    and "wanted_entry (chip_tags v) T = Some (t, off, len)" "unat off + unat len \<le> length C"
    and "\<not> is_from_fs f" "\<not> is_from_hex f" "0 < unat off"
  shows "\<exists>f'. marlin_firmware_parse_image at s f = Some (s', f', 0) \<and>
    bad_vfree (marlin_release_firmware f' x) = bad_vfree x + 1 \<and> lost_mem (marlin_release_firmware f' x) = lost_mem x + 1"
  using parse_container [OF assms(1-8)] assms(9-11) by (simp add: marlin_release_firmware_def)

text \<open>Once every path has failed, the first one is not tried again.\<close>

lemma first_path_forgotten:
  assumes "\<forall>p > 0. at_files at p = None" "0 < path"
  shows "snd (load_fw at maxsz path cnt) = None"
  using assms
proof (induction at maxsz path cnt rule: load_fw.induct)
  case (1 at maxsz path cnt)
  have n: "load_firmware_data_path at path 0 (int maxsz) = None"
    using 1(2,3) by (simp add: load_firmware_data_path_def)
  then show ?case using 1(1) [OF n _ 1(2)] by (subst load_fw.simps) (simp del: load_fw.simps)
qed

lemma all_paths_fail: "\<forall>p. at_files at p = None \<Longrightarrow> fst (load_fw at maxsz path 0) = 4"
  by (simp add: load_fw.simps load_firmware_data_path_def WCN_FW_MAX_PATH_NUM_def)

end
