(* ===== verification/Chip_Power_Correct.thy ===== *)
theory Chip_Power_Correct
  imports Chip_Power Firmware_Correct
begin

text \<open>
  The chip is on exactly while a subsystem has opened it, over every sequence of commands, as
  long as every start succeeds; each start that fails leaves the pin of the chip and its
  receive interrupt one count off for good. What an open subsystem finds running, and what a
  failed start does to the next one.
\<close>

section \<open>Commands and what they did\<close>

datatype power_cmd = Start nat | Stop nat | PowerOff nat | Reboot

text \<open>A start can be refused, find no card (one that was known before, or not), or get no firmware running (with a dump or not).\<close>

datatype outcome = Refused | Opened | NoCard bool | NoFirmware bool | Done

fun power_step :: "(nat \<Rightarrow> attempt) \<Rightarrow> nat \<Rightarrow> power_cmd \<Rightarrow> marlin_device \<Rightarrow> (marlin_device \<times> outcome) option" where
  "power_step w maxsz (Start s) d = do {
     (d', ret) \<leftarrow> start_marlin w maxsz s d;
     Some (d', if carddump d \<or> fail_count d \<noteq> 0 then Refused else if ret = 0 then Opened
       else if at_card (w (tries d)) then NoFirmware (carddump d') else NoCard (card_exist d)) }"
| "power_step w maxsz (Stop s) d = do {
     (d', ret) \<leftarrow> stop_marlin w maxsz s d;
     Some (d', if carddump d \<or> fail_count d \<noteq> 0 then Refused else Done) }"
| "power_step w maxsz (PowerOff s) d = Some (marlin_power_off s d, Done)"
| "power_step w maxsz Reboot d = Some (mdbg_reboot d, Done)"

fun power_run ::
  "(nat \<Rightarrow> attempt) \<Rightarrow> nat \<Rightarrow> power_cmd list \<Rightarrow> marlin_device \<Rightarrow> (marlin_device \<times> (power_cmd \<times> outcome) list) option" where
  "power_run w maxsz [] d = Some (d, [])"
| "power_run w maxsz (c # cs) d = do {
     (d, r) \<leftarrow> power_step w maxsz c d;
     (d, log) \<leftarrow> power_run w maxsz cs d;
     Some (d, (c, r) # log) }"

section \<open>What it should do\<close>

text \<open>The set of open subsystems, and whether a reset is asked for.\<close>

definition spec_close :: "nat \<Rightarrow> nat set \<times> bool \<Rightarrow> nat set \<times> bool" where
  "spec_close s = (\<lambda>(U, r). if U = {} then (U, r) else (if r \<or> s = MARLIN_ALL then {} else U - {s}, False))"

fun spec_step :: "power_cmd \<times> outcome \<Rightarrow> nat set \<times> bool \<Rightarrow> nat set \<times> bool" where
  "spec_step (c, Refused) (U, r) = (U, r)"
| "spec_step (Start s, Opened) (U, r) = (insert s U, r)"
| "spec_step (Start s, NoCard k) (U, r) = ({}, r)"
| "spec_step (Start s, NoFirmware k) (U, r) = ({}, r)"
| "spec_step (Stop s, Done) (U, r) = spec_close s (U, r)"
| "spec_step (PowerOff s, Done) (U, r) = spec_close s (U, r)"
| "spec_step (Reboot, Done) (U, r) = (U, True)"
| "spec_step _ (U, r) = (U, r)"

fun failed :: "outcome \<Rightarrow> nat" where
  "failed (NoCard k) = 1"
| "failed (NoFirmware k) = 1"
| "failed _ = 0"

fun irqs_lost :: "outcome \<Rightarrow> nat" where
  "irqs_lost (NoCard k) = (if k then 1 else 0)"
| "irqs_lost (NoFirmware dump) = (if dump then 2 else 1)"
| "irqs_lost _ = 0"

fun cmd_ok :: "power_cmd \<Rightarrow> bool" where
  "cmd_ok (Start s) \<longleftrightarrow> s < 10 \<and> s \<noteq> WCN_AUTO \<and> s \<noteq> MARLIN_GNSS"
| "cmd_ok (Stop s) \<longleftrightarrow> s < 10"
| "cmd_ok (PowerOff s) \<longleftrightarrow> s < 10"
| "cmd_ok Reboot \<longleftrightarrow> True"

definition on :: "nat set \<Rightarrow> nat" where "on U = (if U = {} then 0 else 1)"

lemma on_simps [simp]: "on {} = 0" "U \<noteq> {} \<Longrightarrow> on U = 1" "on (insert s U) = 1"
  by (simp_all add: on_def)

text \<open>
  What holds with \<open>U\<close> open, after \<open>k\<close> starts that failed, \<open>i\<close> disabled interrupts that were lost, and \<open>m\<close> commands.
\<close>

record power_ghost =
  g_open :: "nat set"
  g_reset :: bool
  g_fails :: nat
  g_irqs :: nat
  g_cmds :: nat

definition power_core :: "power_ghost \<Rightarrow> marlin_device \<Rightarrow> bool" where
  "power_core g d \<longleftrightarrow>
     (\<forall>n. bit (power_state d) n \<longleftrightarrow> n \<in> g_open g) \<and> g_open g \<subseteq> {..<10} - {WCN_AUTO} \<and>
     \<not> no_power_off d \<and> (download_finish_flag d \<longleftrightarrow> g_open g \<noteq> {}) \<and> flag_reset d = g_reset g \<and>
     chip_en_count d = of_nat (g_fails g + on (g_open g)) \<and> g_fails g \<le> g_cmds g \<and>
     (wifi_en_pin d \<longleftrightarrow> 0 < g_fails g + on (g_open g)) \<and>
     reset_count d = of_nat (on (g_open g)) \<and> (bt_en_pin d \<longleftrightarrow> g_open g \<noteq> {}) \<and>
     (if card_exist d then irq_depth d + on (g_open g) = 1 + g_irqs g
      else irq_depth d = 0 \<and> g_irqs g = 0 \<and> g_open g = {}) \<and>
     (g_open g \<noteq> {} \<longrightarrow> running d \<noteq> None)"

definition power_inv :: "power_ghost \<Rightarrow> marlin_device \<Rightarrow> bool" where
  "power_inv g d \<longleftrightarrow> power_core g d \<and> (g_open g \<noteq> {} \<longrightarrow> 2 \<le> unat (first_power_on_flag d)) \<and>
     unat (first_power_on_flag d) \<le> 3 * g_cmds g"

lemma power_core_frame [simp]:
  "power_core g (d\<lparr>first_power_on_flag := x\<rparr>) = power_core g d"
  "power_core g (d\<lparr>wifi_need_download_ini_flag := y\<rparr>) = power_core g d"
  by (simp_all add: power_core_def)

lemma power_state_zero:
  assumes "power_core g d"
  shows "power_state d = 0 \<longleftrightarrow> g_open g = {}"
proof -
  have b: "bit (power_state d) n \<longleftrightarrow> n \<in> g_open g" for n using assms by (simp add: power_core_def)
  show ?thesis using b by (auto intro: bit_eqI)
qed

section \<open>Switching on from nothing\<close>

lemma pre_download_cases:
  assumes "pre_btwifi_download_sdio a maxsz d = Some (d', fin)"
  obtains (up) s tr where "fin" "d' = (sdiohal_runtime_get (d\<lparr>fw := s\<rparr>))\<lparr>running := Some tr\<rparr>"
    | (quiet) s where "\<not> fin" "d' = d\<lparr>fw := s\<rparr>"
    | (dump) s where "\<not> fin" "d' = sdiohal_set_carddump_status True (d\<lparr>fw := s\<rparr>)"
  using assms by (auto simp: pre_btwifi_download_sdio_def Let_def bind_eq_Some_conv split: if_splits)

lemmas pin_defs = marlin_chip_en_def chip_reset_release_def sdiohal_runtime_get_def sdiohal_runtime_put_def
  sdiohal_set_carddump_status_def sdiohal_card_found_def power_fail_def Let_def

text \<open>The levels and counts after switching on from nothing.\<close>

definition irq_found :: "bool \<Rightarrow> marlin_device \<Rightarrow> nat" where
  "irq_found found d = (if found \<and> \<not> card_exist d then 1 else irq_depth d)"

lemma chip_power_on_eq:
  assumes "reset_count d = 0"
  shows "chip_power_on a d = (let d1 = d\<lparr>chip_en_count := chip_en_count d + 1, wifi_en_pin := True, reset_count := 1, bt_en_pin := True\<rparr> in
    if at_card a then (sdiohal_card_found d1, True) else (d1, False))"
proof -
  have "marlin_chip_en False True (chip_reset_release True (marlin_chip_en True False d)) =
      d\<lparr>chip_en_count := chip_en_count d + 1, wifi_en_pin := True, reset_count := 1, bt_en_pin := True\<rparr>"
    using assms by (cases d) (simp add: marlin_chip_en_def chip_reset_release_def)
  then show ?thesis by (simp add: chip_power_on_def Let_def)
qed

lemma chip_power_on_facts:
  assumes "chip_power_on a d = (d', ok)" "reset_count d = 0" "\<not> carddump d"
  shows "ok = at_card a" "no_power_off d' = no_power_off d" "flag_reset d' = flag_reset d" "fail_count d' = fail_count d"
    "first_power_on_flag d' = first_power_on_flag d" "wifi_need_download_ini_flag d' = wifi_need_download_ini_flag d"
    "tries d' = tries d" "chip_en_count d' = chip_en_count d + 1" "wifi_en_pin d'" "reset_count d' = 1" "bt_en_pin d'"
    "power_state d' = power_state d" "download_finish_flag d' = download_finish_flag d"
    "card_exist d' = (card_exist d \<or> at_card a)" "\<not> carddump d'" "irq_depth d' = irq_found (at_card a) d"
    "fw d' = fw d" "running d' = running d"
proof -
  define d1 where "d1 = d\<lparr>chip_en_count := chip_en_count d + 1, wifi_en_pin := True, reset_count := 1, bt_en_pin := True\<rparr>"
  have e: "ok = at_card a" "d' = (if at_card a then sdiohal_card_found d1 else d1)"
    using assms(1) chip_power_on_eq [OF assms(2), of a] by (auto simp: d1_def Let_def split: if_splits)
  show "ok = at_card a" by (rule e(1))
  show "no_power_off d' = no_power_off d" "flag_reset d' = flag_reset d" "fail_count d' = fail_count d"
    "first_power_on_flag d' = first_power_on_flag d" "wifi_need_download_ini_flag d' = wifi_need_download_ini_flag d"
    "tries d' = tries d" "chip_en_count d' = chip_en_count d + 1" "wifi_en_pin d'" "reset_count d' = 1" "bt_en_pin d'"
    "power_state d' = power_state d" "download_finish_flag d' = download_finish_flag d"
    "card_exist d' = (card_exist d \<or> at_card a)" "\<not> carddump d'" "irq_depth d' = irq_found (at_card a) d"
    "fw d' = fw d" "running d' = running d"
    using assms(3) by (simp_all add: e(2) d1_def sdiohal_card_found_def irq_found_def)
qed

lemma power_up_facts:
  assumes "power_up w maxsz s d = Some (d', ok)" "power_state d = 0" "reset_count d = 0" "\<not> carddump d"
  shows
    "no_power_off d' = no_power_off d \<and> flag_reset d' = flag_reset d \<and> fail_count d' = fail_count d \<and>
       first_power_on_flag d' = first_power_on_flag d \<and>
       wifi_need_download_ini_flag d' = wifi_need_download_ini_flag d \<and> tries d' = tries d + 1"
    "chip_en_count d' = chip_en_count d + 1 \<and> wifi_en_pin d'"
    "reset_count d' = (if ok then 1 else 0) \<and> bt_en_pin d' = ok"
    "power_state d' = (if ok then set_bit s 0 else 0)"
    "download_finish_flag d' = (ok \<or> download_finish_flag d)"
    "ok \<Longrightarrow> running d' \<noteq> None \<and> at_card (w (tries d)) \<and> \<not> carddump d'"
    "card_exist d' = (card_exist d \<or> at_card (w (tries d)))"
    "\<not> at_card (w (tries d)) \<Longrightarrow> \<not> carddump d'"
    "irq_depth d' = (let b = irq_found (at_card (w (tries d))) d in
       if ok then b - 1 else if at_card (w (tries d)) then b + (if carddump d' then 2 else 1)
       else if card_exist d then b + 1 else b)"
proof -
  have "(no_power_off d' = no_power_off d \<and> flag_reset d' = flag_reset d \<and> fail_count d' = fail_count d \<and>
       first_power_on_flag d' = first_power_on_flag d \<and>
       wifi_need_download_ini_flag d' = wifi_need_download_ini_flag d \<and> tries d' = tries d + 1) \<and>
     (chip_en_count d' = chip_en_count d + 1 \<and> wifi_en_pin d') \<and>
     (reset_count d' = (if ok then 1 else 0) \<and> bt_en_pin d' = ok) \<and>
     (power_state d' = (if ok then set_bit s 0 else 0)) \<and>
     (download_finish_flag d' = (ok \<or> download_finish_flag d)) \<and>
     (ok \<longrightarrow> running d' \<noteq> None \<and> at_card (w (tries d)) \<and> \<not> carddump d') \<and>
     (card_exist d' = (card_exist d \<or> at_card (w (tries d)))) \<and>
     (\<not> at_card (w (tries d)) \<longrightarrow> \<not> carddump d') \<and>
     (irq_depth d' = (let b = irq_found (at_card (w (tries d))) d in
       if ok then b - 1 else if at_card (w (tries d)) then b + (if carddump d' then 2 else 1)
       else if card_exist d then b + 1 else b))"
  proof -
    define d1 where "d1 = fst (chip_power_on (w (tries d)) (d\<lparr>tries := tries d + 1\<rparr>))"
    have d1: "chip_power_on (w (tries d)) (d\<lparr>tries := tries d + 1\<rparr>) = (d1, at_card (w (tries d)))"
      by (simp add: d1_def chip_power_on_def Let_def)
    have irq: "irq_found c (d\<lparr>tries := n\<rparr>) = irq_found c d" for c n by (simp add: irq_found_def)
    have pre: "reset_count (d\<lparr>tries := tries d + 1\<rparr>) = 0" "\<not> carddump (d\<lparr>tries := tries d + 1\<rparr>)"
      using assms(3,4) by simp_all
    note f1 = chip_power_on_facts [OF d1 pre, simplified irq, simplified]
    show ?thesis
    proof (cases "at_card (w (tries d))")
      case False
      then have "d' = power_fail d1" "\<not> ok" using assms(1) d1 by (simp_all add: power_up_def Let_def)
      then show ?thesis using f1 False assms(2) by (simp add: pin_defs irq_found_def)
    next
      case card: True
    obtain d2 fin where p: "pre_btwifi_download_sdio (w (tries d)) maxsz (d1\<lparr>power_state := set_bit s (power_state d1)\<rparr>) = Some (d2, fin)"
      and r: "(d', ok) = (if fin then (d2\<lparr>download_finish_flag := True\<rparr>, True) else (power_fail d2, False))"
      using assms(1) d1 card by (auto simp: power_up_def Let_def bind_eq_Some_conv split: if_splits)
    from p show ?thesis
    proof (cases rule: pre_download_cases)
      case (up u tr)
      then show ?thesis using r f1 card assms(2) by (simp add: pin_defs)
    next
      case (quiet u)
      then show ?thesis using r f1 card assms(2) by (simp add: pin_defs)
    next
      case (dump u)
      then show ?thesis using r f1 card assms(2) by (simp add: pin_defs)
    qed
    qed
  qed
  then show
    "no_power_off d' = no_power_off d \<and> flag_reset d' = flag_reset d \<and> fail_count d' = fail_count d \<and>
       first_power_on_flag d' = first_power_on_flag d \<and>
       wifi_need_download_ini_flag d' = wifi_need_download_ini_flag d \<and> tries d' = tries d + 1"
    "chip_en_count d' = chip_en_count d + 1 \<and> wifi_en_pin d'"
    "reset_count d' = (if ok then 1 else 0) \<and> bt_en_pin d' = ok"
    "power_state d' = (if ok then set_bit s 0 else 0)"
    "download_finish_flag d' = (ok \<or> download_finish_flag d)"
    "ok \<Longrightarrow> running d' \<noteq> None \<and> at_card (w (tries d)) \<and> \<not> carddump d'"
    "card_exist d' = (card_exist d \<or> at_card (w (tries d)))"
    "\<not> at_card (w (tries d)) \<Longrightarrow> \<not> carddump d'"
    "irq_depth d' = (let b = irq_found (at_card (w (tries d))) d in
       if ok then b - 1 else if at_card (w (tries d)) then b + (if carddump d' then 2 else 1)
       else if card_exist d then b + 1 else b)"
    by blast+
qed

definition ghost_step :: "power_cmd \<times> outcome \<Rightarrow> power_ghost \<Rightarrow> power_ghost" where
  "ghost_step e g = (let (U, r) = spec_step e (g_open g, g_reset g) in
     \<lparr>g_open = U, g_reset = r, g_fails = g_fails g + failed (snd e), g_irqs = g_irqs g + irqs_lost (snd e), g_cmds = g_cmds g + 1\<rparr>)"

lemma core_more_cmds:
  "power_core g d \<Longrightarrow> power_core (g\<lparr>g_cmds := g_cmds g + 1\<rparr>) d"
  by (simp add: power_core_def)

section \<open>Each operation keeps it\<close>

lemma power_up_core:
  assumes core: "power_core g d" "g_open g = {}" and cmds: "g_cmds g < 2 ^ 30" "s < 10" "s \<noteq> WCN_AUTO" "\<not> carddump d"
    and up: "power_up w maxsz s d = Some (d', ok)"
  shows "power_core (ghost_step (Start s, if ok then Opened else if at_card (w (tries d)) then NoFirmware (carddump d')
    else NoCard (card_exist d)) g) d'"
proof -
  have ps: "power_state d = 0" using power_state_zero [OF core(1)] core(2) by simp
  have d: "reset_count d = 0" "chip_en_count d = of_nat (g_fails g)" "\<not> no_power_off d" "flag_reset d = g_reset g" "\<not> download_finish_flag d"
    "if card_exist d then irq_depth d = 1 + g_irqs g else irq_depth d = 0 \<and> g_irqs g = 0" "g_fails g \<le> g_cmds g"
    using core by (simp_all add: power_core_def split: if_splits)
  note f = power_up_facts [OF up ps d(1) cmds(4)]
  have b: "bit (set_bit s (0 :: u64)) n \<longleftrightarrow> n = s" for n
    using cmds(2) by (auto simp: bit_exp_iff possible_bit_def)
  show ?thesis
  proof (cases ok)
    case True
    have "irq_depth d' + 1 = 1 + g_irqs g"
      using f(6,9) d(6) True by (auto simp: irq_found_def split: if_splits)
    then show ?thesis
      using True f b d cmds core(2) unfolding power_core_def ghost_step_def by (simp add: Let_def add.commute)
  next
    case False
    define r where "r = (if at_card (w (tries d)) then NoFirmware (carddump d') else NoCard (card_exist d))"
    have r: "spec_step (Start s, r) (g_open g, g_reset g) = ({}, g_reset g)" "failed r = 1" by (simp_all add: r_def)
    have "if card_exist d' then irq_depth d' = 1 + (g_irqs g + irqs_lost r) else irq_depth d' = 0 \<and> g_irqs g + irqs_lost r = 0"
      using f(7,8,9) d(6) False by (auto simp: r_def irq_found_def split: if_splits)
    moreover have gs: "ghost_step (Start s, r) g = \<lparr>g_open = {}, g_reset = g_reset g, g_fails = g_fails g + 1,
        g_irqs = g_irqs g + irqs_lost r, g_cmds = g_cmds g + 1\<rparr>"
      by (simp add: ghost_step_def r)
    ultimately have "power_core (ghost_step (Start s, r) g) d'"
      using f(1-5) d(2-5,7) cmds(1) False unfolding power_core_def gs by (simp add: add.commute split: if_splits)
    then show ?thesis using False by (simp only: r_def if_False)
  qed
qed

lemma bits_step:
  assumes "\<forall>n. bit (p :: u64) n \<longleftrightarrow> n \<in> U" "s < 10"
  shows "bit (set_bit s p) n \<longleftrightarrow> n \<in> insert s U" "bit (unset_bit s p) n \<longleftrightarrow> n \<in> U - {s}"
  using assms by (auto simp: bit_set_bit_iff bit_unset_bit_iff possible_bit_def)

text \<open>Closing, from the outside: what is open, the pins, the interrupt.\<close>

lemma set_power_off_core:
  assumes core: "power_core g d" "s < 10" "g_fails g < 2 ^ 30"
  shows "power_core (g\<lparr>g_open := fst (spec_close s (g_open g, g_reset g)), g_reset := snd (spec_close s (g_open g, g_reset g))\<rparr>)
      (set_power_off s d)"
    and "first_power_on_flag (set_power_off s d) = first_power_on_flag d"
    and "fail_count (set_power_off s d) = fail_count d"
    and "carddump (set_power_off s d) = carddump d"
    and "running (set_power_off s d) = running d \<or> g_open (g\<lparr>g_open := fst (spec_close s (g_open g, g_reset g))\<rparr>) = {}"
    and "fw (set_power_off s d) = fw d"
    and "tries (set_power_off s d) = tries d"
proof -
  note z = power_state_zero [OF core(1)]
  have bits: "\<forall>n. bit (power_state d) n \<longleftrightarrow> n \<in> g_open g" using core(1) by (simp add: power_core_def)
  define p where "p = (if flag_reset d \<or> s = MARLIN_ALL then 0 else unset_bit s (power_state d))"
  have pb: "\<forall>n. bit p n \<longleftrightarrow> n \<in> (if g_reset g \<or> s = MARLIN_ALL then {} else g_open g - {s})"
    using bits_step(2) [OF bits core(2)] core(1) by (auto simp: p_def power_core_def)
  have p0: "p = 0 \<longleftrightarrow> (if g_reset g \<or> s = MARLIN_ALL then {} else g_open g - {s}) = {}"
    using pb by (metis bit_eq_iff bit_0_eq bot_apply bot_bool_def equals0D equals0I)
  have off: "set_power_off s d = (if g_open g = {} then d else if p \<noteq> 0 then d\<lparr>power_state := p\<rparr>
      else (chip_power_off (sdiohal_runtime_put (d\<lparr>power_state := 0\<rparr>)))\<lparr>download_finish_flag := False, flag_reset := False\<rparr>)"
    using core(1) z unfolding p_def set_power_off_def by (auto simp: power_core_def Let_def)
  show core': "power_core (g\<lparr>g_open := fst (spec_close s (g_open g, g_reset g)), g_reset := snd (spec_close s (g_open g, g_reset g))\<rparr>)
      (set_power_off s d)"
  proof (cases "g_open g = {}")
    case True
    then have e: "g\<lparr>g_open := {}, g_reset := g_reset g\<rparr> = g" by (cases g) simp
    have sc: "spec_close s (g_open g, g_reset g) = ({}, g_reset g)" using True by (simp add: spec_close_def)
    show ?thesis using core(1) True unfolding sc fst_conv snd_conv e off by simp
  next
    case opn: False
    show ?thesis
    proof (cases "p = 0")
      case True
      have U: "spec_close s (g_open g, g_reset g) = ({}, False)" using p0 True opn by (simp add: spec_close_def)
      have one: "chip_en_count d = of_nat (g_fails g) + 1" "reset_count d = 1" "card_exist d" "irq_depth d = g_irqs g"
        using core(1) opn by (auto simp: power_core_def split: if_splits)
      have cnt: "(of_nat (g_fails g) :: u32) = 0 \<longleftrightarrow> g_fails g = 0"
        using core(3) dvd_imp_le [of "2 ^ 32" "g_fails g"] by (auto simp: word_of_nat_eq_0_iff)
      have wp: "wifi_en_pin d" using core(1) opn by (simp add: power_core_def)
      show ?thesis
        using True opn core(1) one cnt wp unfolding U off
        by (simp add: power_core_def chip_power_off_def pin_defs)
    next
      case False
      have r: "\<not> g_reset g" "s \<noteq> MARLIN_ALL" using p0 False by (auto split: if_splits)
      have U: "spec_close s (g_open g, g_reset g) = (g_open g - {s}, False)" using r opn by (simp add: spec_close_def)
      have ne: "g_open g - {s} \<noteq> {}" using p0 False r by simp
      have on1: "on (g_open g) = 1" "on (g_open g - {s}) = 1" using opn ne by simp_all
      have c: "g_open g \<subseteq> {..<10} - {WCN_AUTO}" "\<not> no_power_off d" "download_finish_flag d" "flag_reset d = g_reset g"
        "chip_en_count d = of_nat (g_fails g + 1)" "g_fails g \<le> g_cmds g" "wifi_en_pin d" "reset_count d = 1" "bt_en_pin d"
        "card_exist d" "irq_depth d + 1 = 1 + g_irqs g" "running d \<noteq> None"
        using core(1) opn on1(1) by (simp_all add: power_core_def split: if_splits)
      have "g_open g - {s} \<subseteq> {..<10} - {WCN_AUTO}" using c(1) by blast
      then show ?thesis
        using False opn pb r ne on1 c unfolding U off by (simp add: power_core_def)
    qed
  qed
  show "first_power_on_flag (set_power_off s d) = first_power_on_flag d"
    "fail_count (set_power_off s d) = fail_count d" "carddump (set_power_off s d) = carddump d"
    "fw (set_power_off s d) = fw d" "tries (set_power_off s d) = tries d"
    unfolding off by (simp_all add: chip_power_off_def pin_defs)
  show "running (set_power_off s d) = running d \<or> g_open (g\<lparr>g_open := fst (spec_close s (g_open g, g_reset g))\<rparr>) = {}"
    using p0 unfolding off by (auto simp: spec_close_def)
qed

lemma mask_bit: "x < 10 \<Longrightarrow> x \<noteq> WCN_AUTO \<Longrightarrow> bit GNSS_MASK x \<or> bit MARLIN_MASK x"
proof -
  assume "x < 10" "x \<noteq> WCN_AUTO"
  then have "x = 0 \<or> x = 1 \<or> x = 2 \<or> x = 3 \<or> x = 4 \<or> x = 5 \<or> x = 6 \<or> x = 7 \<or> x = 9"
    unfolding WCN_AUTO_def by arith
  then show ?thesis by (elim disjE) (simp_all add: GNSS_MASK_def MARLIN_MASK_def)
qed

lemma and_nonzero: "bit (p :: u64) x \<Longrightarrow> bit m x \<Longrightarrow> p AND m \<noteq> 0"
  by (metis bit_and_iff bit_0_eq bot_apply bot_bool_def)

lemma masks_cover:
  assumes "power_core g d" "g_open g \<noteq> {}"
  shows "power_state d AND GNSS_MASK \<noteq> 0 \<or> power_state d AND MARLIN_MASK \<noteq> 0"
proof -
  obtain x where "x \<in> g_open g" "x < 10" "x \<noteq> WCN_AUTO" "bit (power_state d) x"
    using assms by (auto simp: power_core_def)
  then show ?thesis using mask_bit [of x] and_nonzero [of "power_state d" x] by blast
qed

text \<open>A start that does not go the way of the first time, and is not refused.\<close>

lemma set_power_again_core:
  assumes core: "power_core g d" and cmds: "g_cmds g < 2 ^ 30" "s < 10" "s \<noteq> WCN_AUTO" "\<not> carddump d"
    and run: "set_power_again w maxsz s d = Some (d', ret)"
  shows "power_core (ghost_step (Start s, if ret = 0 then Opened else if at_card (w (tries d)) then NoFirmware (carddump d')
      else NoCard (card_exist d)) g) d'"
    and "ret = 0 \<or> g_open g = {}"
    and "first_power_on_flag d' = first_power_on_flag d"
proof -
  have on_case: "power_core (ghost_step (Start s, Opened) g) (d\<lparr>power_state := set_bit s (power_state d)\<rparr>)" if "g_open g \<noteq> {}"
  proof -
    have "\<forall>n. bit (set_bit s (power_state d)) n \<longleftrightarrow> n \<in> insert s (g_open g)"
      using core bits_step(1) [of "power_state d" "g_open g" s] cmds(2) by (simp add: power_core_def)
    moreover have o1: "on (g_open g) = 1" using that by simp
    ultimately show ?thesis using core cmds that by (auto simp: power_core_def ghost_step_def o1)
  qed
  have "power_core (ghost_step (Start s, if ret = 0 then Opened else if at_card (w (tries d)) then NoFirmware (carddump d')
      else NoCard (card_exist d)) g) d' \<and> (ret = 0 \<or> g_open g = {}) \<and> first_power_on_flag d' = first_power_on_flag d"
  proof (cases "g_open g = {}")
    case False
    have "set_power_again w maxsz s d = Some (d\<lparr>power_state := set_bit s (power_state d)\<rparr>, 0)"
      using masks_cover [OF core False] cmds(3) by (auto simp: set_power_again_def)
    then show ?thesis using run on_case [OF False] by simp
  next
    case True
    then have z: "power_state d = 0" using power_state_zero [OF core] by simp
    obtain ok where up: "power_up w maxsz s d = Some (d', ok)" and ret: "ret = (if ok then 0 else - 1)"
      using run z cmds(3) by (auto simp: set_power_again_def bind_eq_Some_conv)
    have rc: "reset_count d = 0" using core True by (simp add: power_core_def)
    show ?thesis
      using power_up_core [OF core True cmds up] power_up_facts(1) [OF up z rc cmds(4)] True ret
      by (cases ok; cases "at_card (w (tries d))") simp_all
  qed
  then show "power_core (ghost_step (Start s, if ret = 0 then Opened else if at_card (w (tries d)) then NoFirmware (carddump d')
      else NoCard (card_exist d)) g) d'" "ret = 0 \<or> g_open g = {}" "first_power_on_flag d' = first_power_on_flag d"
    by blast+
qed

lemma unat_plus_one: "unat (x :: u32) + 1 < 2 ^ 32 \<Longrightarrow> unat (x + 1) = unat x + 1"
  by (subst unat_add_lem [THEN iffD1]) simp_all

lemma start_inv:
  assumes inv: "power_inv g d" and cmds: "g_cmds g < 2 ^ 30" "cmd_ok (Start s)"
    and step: "power_step w maxsz (Start s) d = Some (d', r)"
  shows "power_inv (ghost_step (Start s, r) g) d'"
proof (cases "carddump d \<or> fail_count d \<noteq> 0")
  case True
  then have "d' = d" "r = Refused" using step by (cases "carddump d"; simp add: start_marlin_def)+
  moreover have "ghost_step (Start s, Refused) g = g\<lparr>g_cmds := g_cmds g + 1\<rparr>" by (cases g) (simp add: ghost_step_def)
  ultimately show ?thesis using inv core_more_cmds by (simp add: power_inv_def)
next
  case False
  define d1 where "d1 = (if s = MARLIN_WIFI then d\<lparr>wifi_need_download_ini_flag :=
      if wifi_need_download_ini_flag d = 0 then 1 else 2\<rparr> else d)"
  define d2 where "d2 = d1\<lparr>first_power_on_flag := first_power_on_flag d1 + 1\<rparr>"
  have s: "s < 10" "s \<noteq> WCN_AUTO" "s \<noteq> MARLIN_GNSS" using cmds(2) by simp_all
  have core: "power_core g d2" using inv by (simp add: d2_def d1_def power_inv_def)
  have same: "tries d2 = tries d" "card_exist d2 = card_exist d" "carddump d2 = carddump d" by (simp_all add: d2_def d1_def)
  have nd: "\<not> carddump d2" using False same by simp
  have flag: "first_power_on_flag d2 = first_power_on_flag d + 1" by (simp add: d2_def d1_def)
  have le: "unat (first_power_on_flag d) \<le> 3 * g_cmds g" using inv by (simp add: power_inv_def)
  have uflag: "unat (first_power_on_flag d2) = unat (first_power_on_flag d) + 1"
    unfolding flag using le cmds(1) by (intro unat_plus_one) simp
  obtain ret where m: "marlin_set_power w maxsz s True d1 = Some (d', ret)"
    and r: "r = (if ret = 0 then Opened else if at_card (w (tries d)) then NoFirmware (carddump d') else NoCard (card_exist d))"
    using step False by (auto simp: start_marlin_def d1_def bind_eq_Some_conv split: if_splits)
  have cm: "g_cmds (ghost_step (Start s, r) g) = g_cmds g + 1" by (simp add: ghost_step_def split_beta)
  show ?thesis
  proof (cases "first_power_on_flag d2 = 1")
    case True
    then have U: "g_open g = {}" using inv uflag by (auto simp: power_inv_def)
    obtain ok d3 where up: "power_up w maxsz s d2 = Some (d3, ok)"
      and d': "d' = (if ok then d3\<lparr>first_power_on_flag := 2\<rparr> else d3)" "ret = (if ok then 0 else - 1)"
    proof -
      have e: "marlin_set_power w maxsz s True d1 = Option.bind (power_up w maxsz s d2)
          (\<lambda>(d, ok). if \<not> ok then Some (d, - 1) else do {
             let d = d\<lparr>first_power_on_flag := 2\<rparr>;
             if s = MARLIN_GNSS then do {
               let d = set_power_off MARLIN_GNSS d;
               (d, ret) \<leftarrow> set_power_again w maxsz MARLIN_GNSS (d\<lparr>first_power_on_flag := first_power_on_flag d + 1\<rparr>);
               Some (d, 0) }
             else Some (d, 0) })"
        using True unfolding marlin_set_power_def Let_def d2_def by simp
      then obtain d3 ok where up: "power_up w maxsz s d2 = Some (d3, ok)" using m by (cases "power_up w maxsz s d2") auto
      then show ?thesis using that [OF up] m s(3) unfolding e by (cases ok) (simp_all add: Let_def)
    qed
    have z: "power_state d2 = 0" "reset_count d2 = 0" using power_state_zero [OF core] U core by (simp_all add: power_core_def)
    have f: "first_power_on_flag d3 = 1" using power_up_facts(1) [OF up z nd] True by simp
    have c3: "power_core (ghost_step (Start s, r) g) d'"
      using power_up_core [OF core U cmds(1) s(1,2) nd up] unfolding r d' same by (cases ok; cases "at_card (w (tries d))") simp_all
    have opn: "g_open (ghost_step (Start s, r) g) = (if ok then insert s (g_open g) else {})"
      using r d'(2) by (simp add: ghost_step_def)
    show ?thesis using c3 f d'(1) opn cm unfolding power_inv_def by simp
  next
    case False
    then have again: "set_power_again w maxsz s d2 = Some (d', ret)"
      using m by (simp add: marlin_set_power_def d2_def Let_def)
    note k = set_power_again_core [OF core cmds(1) s(1,2) nd again]
    have two: "2 \<le> unat (first_power_on_flag d2)"
    proof -
      have "first_power_on_flag d \<noteq> 0" using False flag by auto
      then have "unat (first_power_on_flag d) \<noteq> 0" unfolding word_unat_eq_iff by simp
      then show ?thesis using uflag by linarith
    qed
    have "power_core (ghost_step (Start s, r) g) d'" using k(1) unfolding r same .
    then show ?thesis using k(3) two uflag le cm unfolding power_inv_def by simp
  qed
qed

section \<open>Every sequence of commands\<close>

lemma close_inv:
  assumes "power_inv g d" "g_cmds g < 2 ^ 30" "s < 10" "e = (Stop s, Done) \<or> e = (PowerOff s, Done)"
  shows "power_inv (ghost_step e g) (set_power_off s d)"
proof -
  let ?sc = "spec_close s (g_open g, g_reset g)"
  have core: "power_core g d" "g_fails g < 2 ^ 30" using assms(1,2) by (auto simp: power_inv_def power_core_def)
  have gs: "ghost_step e g = (g\<lparr>g_open := fst ?sc, g_reset := snd ?sc\<rparr>)\<lparr>g_cmds := g_cmds (g\<lparr>g_open := fst ?sc, g_reset := snd ?sc\<rparr>) + 1\<rparr>"
    using assms(4) by (cases g) (auto simp: ghost_step_def split_beta)
  note k = set_power_off_core(1,2) [OF core(1) assms(3) core(2)]
  have sub: "fst ?sc \<noteq> {} \<Longrightarrow> g_open g \<noteq> {}" by (auto simp: spec_close_def)
  show ?thesis
    using core_more_cmds [OF k(1)] k(2) assms(1) sub unfolding gs power_inv_def by simp
qed

lemma step_inv:
  assumes "power_inv g d" "g_cmds g < 2 ^ 30" "cmd_ok c" "power_step w maxsz c d = Some (d', r)"
  shows "power_inv (ghost_step (c, r) g) d'"
proof (cases c)
  case (Start s)
  then show ?thesis using start_inv [OF assms(1,2)] assms(3,4) by blast
next
  case (Stop s)
  show ?thesis
  proof (cases "carddump d \<or> fail_count d \<noteq> 0")
    case True
    then have "d' = d" "r = Refused" using assms(4) Stop by (cases "carddump d"; simp add: stop_marlin_def)+
    moreover have "ghost_step (c, Refused) g = g\<lparr>g_cmds := g_cmds g + 1\<rparr>" by (cases g) (simp add: ghost_step_def)
    ultimately show ?thesis using assms(1) core_more_cmds by (simp add: power_inv_def)
  next
    case False
    then have "d' = set_power_off s d" "r = Done"
      using assms(4) Stop by (auto simp: stop_marlin_def marlin_set_power_def split: if_splits)
    then show ?thesis using close_inv [OF assms(1,2)] assms(3) Stop by simp
  qed
next
  case (PowerOff s)
  have "d\<lparr>no_power_off := False\<rparr> = d" using assms(1) by (cases d) (simp add: power_inv_def power_core_def)
  then have "d' = set_power_off s d" "r = Done" using assms(4) PowerOff by (simp_all add: marlin_power_off_def)
  then show ?thesis using close_inv [OF assms(1,2)] assms(3) PowerOff by simp
next
  case Reboot
  have gs: "ghost_step (Reboot, Done) g = g\<lparr>g_reset := True, g_cmds := g_cmds g + 1\<rparr>" by (cases g) (simp add: ghost_step_def)
  have e: "d' = d\<lparr>flag_reset := True, fail_count := 0, carddump := False\<rparr>" "r = Done"
    using assms(4) Reboot by (simp_all add: mdbg_reboot_def sdiohal_set_carddump_status_def)
  have "power_core (g\<lparr>g_reset := True, g_cmds := g_cmds g + 1\<rparr>) (d\<lparr>flag_reset := True, fail_count := 0, carddump := False\<rparr>)"
    using assms(1) by (simp add: power_inv_def power_core_def)
  then show ?thesis using assms(1) unfolding Reboot e gs power_inv_def by simp
qed

lemma run_inv:
  "power_inv g d \<Longrightarrow> g_cmds g + length cs < 2 ^ 30 \<Longrightarrow> \<forall>c \<in> set cs. cmd_ok c \<Longrightarrow> power_run w maxsz cs d = Some (d', log) \<Longrightarrow>
    power_inv (fold ghost_step log g) d'"
proof (induction cs arbitrary: g d log)
  case (Cons c cs)
  obtain d1 r log1 where s: "power_step w maxsz c d = Some (d1, r)" "power_run w maxsz cs d1 = Some (d', log1)" "log = (c, r) # log1"
    using Cons(5) by (auto simp: bind_eq_Some_conv split: prod.splits)
  have "power_inv (ghost_step (c, r) g) d1" using step_inv [OF Cons(2) _ _ s(1)] Cons(3,4) by simp
  moreover have "g_cmds (ghost_step (c, r) g) = g_cmds g + 1" by (simp add: ghost_step_def split_beta)
  ultimately show ?case using Cons(1) [of "ghost_step (c, r) g" d1 log1] Cons(3,4) s by simp
qed simp

definition open_set :: "(power_cmd \<times> outcome) list \<Rightarrow> nat set" where
  "open_set log = fst (fold spec_step log ({}, False))"

definition fails :: "(power_cmd \<times> outcome) list \<Rightarrow> nat" where
  "fails log = sum_list (map (failed \<circ> snd) log)"

definition lost_irqs :: "(power_cmd \<times> outcome) list \<Rightarrow> nat" where
  "lost_irqs log = sum_list (map (irqs_lost \<circ> snd) log)"

lemma fold_ghost:
  "g_open (fold ghost_step log g) = fst (fold spec_step log (g_open g, g_reset g)) \<and>
   g_reset (fold ghost_step log g) = snd (fold spec_step log (g_open g, g_reset g)) \<and>
   g_fails (fold ghost_step log g) = g_fails g + fails log \<and>
   g_irqs (fold ghost_step log g) = g_irqs g + lost_irqs log"
proof (induction log arbitrary: g)
  case (Cons e log)
  have "g_open (ghost_step e g) = fst (spec_step e (g_open g, g_reset g))" "g_reset (ghost_step e g) = snd (spec_step e (g_open g, g_reset g))"
    "g_fails (ghost_step e g) = g_fails g + failed (snd e)" "g_irqs (ghost_step e g) = g_irqs g + irqs_lost (snd e)"
    by (simp_all add: ghost_step_def split_beta)
  then show ?case using Cons [of "ghost_step e g"] by (simp add: fails_def lost_irqs_def)
qed (simp add: fails_def lost_irqs_def)

lemma run_from_probe:
  assumes "power_run w maxsz cs (marlin_probe wake) = Some (d, log)" "\<forall>c \<in> set cs. cmd_ok c" "length cs < 2 ^ 30"
  shows "power_core (fold ghost_step log \<lparr>g_open = {}, g_reset = False, g_fails = 0, g_irqs = 0, g_cmds = 0\<rparr>) d"
    "g_open (fold ghost_step log \<lparr>g_open = {}, g_reset = False, g_fails = 0, g_irqs = 0, g_cmds = 0\<rparr>) = open_set log"
    "g_fails (fold ghost_step log \<lparr>g_open = {}, g_reset = False, g_fails = 0, g_irqs = 0, g_cmds = 0\<rparr>) = fails log"
    "g_irqs (fold ghost_step log \<lparr>g_open = {}, g_reset = False, g_fails = 0, g_irqs = 0, g_cmds = 0\<rparr>) = lost_irqs log"
proof -
  let ?g = "\<lparr>g_open = {}, g_reset = False, g_fails = 0, g_irqs = 0, g_cmds = 0\<rparr>"
  have "power_inv ?g (marlin_probe wake)" by (simp add: power_inv_def power_core_def marlin_probe_def)
  then have "power_inv (fold ghost_step log ?g) d" using run_inv [of ?g "marlin_probe wake" cs w maxsz d log] assms by simp
  then show "power_core (fold ghost_step log ?g) d" by (simp add: power_inv_def)
  show "g_open (fold ghost_step log ?g) = open_set log" "g_fails (fold ghost_step log ?g) = fails log" "g_irqs (fold ghost_step log ?g) = lost_irqs log"
    using fold_ghost [of log ?g] by (simp_all add: open_set_def)
qed

text \<open>
  C9. Over every sequence of commands without starts for GNSS or AUTO (\<open>cmd_ok\<close>) that ran, the mask of the device is the
  set of subsystems that were opened and not closed; the reset pin is high exactly while one is open, and firmware is running then. The enable pin is high while one is open or once a start has failed, and its count is off by the number of such starts.
\<close>

theorem power_follows_commands:
  assumes "power_run w maxsz cs (marlin_probe wake) = Some (d, log)" "\<forall>c \<in> set cs. cmd_ok c" "length cs < 2 ^ 30"
  shows "(\<forall>n. bit (power_state d) n \<longleftrightarrow> n \<in> open_set log) \<and> (bt_en_pin d \<longleftrightarrow> open_set log \<noteq> {}) \<and>
    (wifi_en_pin d \<longleftrightarrow> open_set log \<noteq> {} \<or> 0 < fails log) \<and> (open_set log \<noteq> {} \<longrightarrow> running d \<noteq> None) \<and>
    chip_en_count d = of_nat (fails log + (if open_set log = {} then 0 else 1))"
  using run_from_probe [OF assms] by (auto simp: power_core_def on_def)

text \<open>
  C40. A start that fails is never made good: after it the chip stays enabled whatever is opened and closed, and if
  the card was there, its receive interrupt stays disabled, even while a later start has succeeded.
\<close>

theorem failed_start_is_for_good:
  assumes "power_run w maxsz cs (marlin_probe wake) = Some (d, log)" "\<forall>c \<in> set cs. cmd_ok c" "length cs < 2 ^ 30"
    and "0 < fails log"
  shows "wifi_en_pin d \<and> (0 < lost_irqs log \<longrightarrow> 0 < irq_depth d)"
  using run_from_probe [OF assms(1-3)] assms(4) by (auto simp: power_core_def on_def split: if_splits)

text \<open>A card, but no firmware for it.\<close>

lemma sample_fails:
  "\<exists>d. power_run (\<lambda>_. sample_attempt) 0xf0c00 [Start 2, Stop 2] (marlin_probe True) = Some (d, [(Start 2, NoFirmware False), (Stop 2, Done)])"
  by (simp add: start_marlin_def stop_marlin_def marlin_set_power_def power_up_def chip_power_on_def pin_defs marlin_probe_def
      pre_btwifi_download_sdio_def btwifi_download_firmware_def marlin_request_firmware_def fw_source_def sample_attempt_def
      set_power_off_def
      MARLIN_WIFI_def marlin_get_wcn_chipid_def)

lemma sample_ok: "\<forall>c \<in> set [Start 2, Stop 2]. cmd_ok c" "length [Start 2, Stop 2] < 2 ^ 30"
  by (simp_all add: WCN_AUTO_def MARLIN_GNSS_def)

lemma power_follows_commands_witness:
  "\<exists>d. power_run (\<lambda>_. sample_attempt) 0xf0c00 [Start 2, Stop 2] (marlin_probe True) = Some (d, [(Start 2, NoFirmware False), (Stop 2, Done)]) \<and>
     \<not> bt_en_pin d \<and> wifi_en_pin d \<and> chip_en_count d = 1"
proof -
  obtain d where run: "power_run (\<lambda>_. sample_attempt) 0xf0c00 [Start 2, Stop 2] (marlin_probe True) = Some (d, [(Start 2, NoFirmware False), (Stop 2, Done)])"
    using sample_fails by blast
  have "open_set [(Start 2, NoFirmware False), (Stop 2, Done)] = {}" "fails [(Start 2, NoFirmware False), (Stop 2, Done)] = 1"
    by (simp_all add: open_set_def fails_def spec_close_def)
  then show ?thesis using power_follows_commands [OF run sample_ok] run by auto
qed

lemma failed_start_is_for_good_witness:
  "\<exists>d. power_run (\<lambda>_. sample_attempt) 0xf0c00 [Start 2, Stop 2] (marlin_probe True) = Some (d, [(Start 2, NoFirmware False), (Stop 2, Done)]) \<and>
     wifi_en_pin d \<and> 0 < irq_depth d"
proof -
  obtain d where run: "power_run (\<lambda>_. sample_attempt) 0xf0c00 [Start 2, Stop 2] (marlin_probe True) = Some (d, [(Start 2, NoFirmware False), (Stop 2, Done)])"
    using sample_fails by blast
  have "0 < fails [(Start 2, NoFirmware False), (Stop 2, Done)]" "0 < lost_irqs [(Start 2, NoFirmware False), (Stop 2, Done)]"
    by (simp_all add: fails_def lost_irqs_def)
  then show ?thesis using failed_start_is_for_good [OF run sample_ok] run by blast
qed

end
