(* ===== verification/Chip_Power_Image.thy ===== *)
theory Chip_Power_Image
  imports Chip_Power_Correct
begin

text \<open>
  Switching on and loading put together: what an open subsystem finds in the memory of the chip, that every
  start succeeds when the container, the card and the chip are as they should be, and what one that does not
  leaves behind.
\<close>

section \<open>What an open subsystem finds running\<close>

text \<open>
  A container for the chip, found by the loader at the first attempt, with memory for it whenever it
  is asked for and a chip whose number can be read.
\<close>

definition pack_for :: "u32 \<Rightarrow> fw_image \<Rightarrow> u8 list \<Rightarrow> bool" where
  "pack_for v img file \<longleftrightarrow> (\<exists>m ver T body t off len. file = m @ put_container IMG_HEAD_MAGIC ver T body \<and> mask_ok m \<and>
     length file < 2 ^ 31 \<and> entries_ok T \<and> wanted_entry (chip_tags v) T = Some (t, off, len) \<and>
     has (put_container IMG_HEAD_MAGIC ver T body) (unat off) (put_image img) \<and> unat len = length (put_image img) \<and> image_ok img)"

definition good_world :: "u32 \<Rightarrow> u8 list \<Rightarrow> (nat \<Rightarrow> attempt) \<Rightarrow> bool" where
  "good_world v file w \<longleftrightarrow> v \<noteq> 0 \<and> (\<forall>k. at_kmalloc (w k)) \<and> at_vmalloc (w 0) \<and> at_request (w 0) = Some file \<and>
     (\<forall>k. \<exists>a b. at_id_m3e (w k) = Some a \<and> at_id_m3 (w k) = Some b \<and>
        v = (if a AND WCN_CHIPID_MASK \<noteq> MARLIN3E_AA_CHIPID then b else a))"

definition fw_inv :: "u32 \<Rightarrow> fw_image \<Rightarrow> u8 list \<Rightarrow> marlin_device \<Rightarrow> bool" where
  "fw_inv v img file d \<longleftrightarrow> \<not> is_btwf_in_sysfs (fw d) \<and> (chip_id (fw d) = 0 \<or> chip_id (fw d) = v) \<and>
     (fw_backup (fw d) = None \<or> fw_backup (fw d) = Some file) \<and>
     (case running d of None \<Rightarrow> True | Some tr \<Rightarrow> chip_mem tr = image_mem img)"

lemma chip_number:
  assumes "good_world v file w" "chip_id s = 0 \<or> chip_id s = v"
  shows "snd (marlin_get_wcn_chipid (w k) s) = v" "chip_id (fst (marlin_get_wcn_chipid (w k) s)) = v"
    "fst (marlin_get_wcn_chipid (w k) s) = s\<lparr>chip_id := v\<rparr>"
proof -
  have "v \<noteq> 0" using assms(1) by (simp add: good_world_def)
  moreover obtain a b where "at_id_m3e (w k) = Some a" "at_id_m3 (w k) = Some b"
    "v = (if a AND WCN_CHIPID_MASK \<noteq> MARLIN3E_AA_CHIPID then b else a)"
    using assms(1) unfolding good_world_def by blast
  moreover have "s\<lparr>chip_id := chip_id s\<rparr> = s" by simp
  ultimately show "snd (marlin_get_wcn_chipid (w k) s) = v" "chip_id (fst (marlin_get_wcn_chipid (w k) s)) = v"
    "fst (marlin_get_wcn_chipid (w k) s) = s\<lparr>chip_id := v\<rparr>"
    using assms(2) by (auto simp: marlin_get_wcn_chipid_def)
qed

lemma pre_download_parts:
  assumes "pre_btwifi_download_sdio a maxsz d = Some (d', fin)"
  obtains s tr ok where
    "btwifi_download_firmware a maxsz (first_power_on_flag d = 1) (fst (marlin_get_wcn_chipid a (fw d))) = Some (s, tr, ok)"
    "running d' = (if fin then Some tr else running d)" "fw d' = s" "fin \<longrightarrow> ok"
proof -
  obtain s tr ok where dl:
    "btwifi_download_firmware a maxsz (first_power_on_flag d = 1) (fst (marlin_get_wcn_chipid a (fw d))) = Some (s, tr, ok)"
    using assms unfolding pre_btwifi_download_sdio_def Let_def
    by (cases "btwifi_download_firmware a maxsz (first_power_on_flag d = 1) (fst (marlin_get_wcn_chipid a (fw d)))") auto
  have "running d' = (if fin then Some tr else running d) \<and> fw d' = s \<and> (fin \<longrightarrow> ok)"
    using assms unfolding pre_btwifi_download_sdio_def Let_def dl
    by (auto simp: sdiohal_runtime_get_def sdiohal_set_carddump_status_def split: if_splits)
  then show ?thesis using that [OF dl] by blast
qed

lemma download_image:
  assumes good: "good_world v file w" "pack_for v img file" and inv: "fw_inv v img file d"
    and first: "first_power_on_flag d = 1 \<Longrightarrow> k = 0"
    and run: "pre_btwifi_download_sdio (w k) maxsz d = Some (d', fin)"
  shows "fw_inv v img file d'"
proof -
  define s where "s = fst (marlin_get_wcn_chipid (w k) (fw d))"
  have id: "chip_id (fw d) = 0 \<or> chip_id (fw d) = v" using inv by (simp add: fw_inv_def)
  have s: "s = (fw d)\<lparr>chip_id := v\<rparr>" using chip_number(3) [OF good(1) id] by (simp add: s_def)
  from run obtain s2 tr ok where dl: "btwifi_download_firmware (w k) maxsz (first_power_on_flag d = 1) s = Some (s2, tr, ok)"
    and d': "running d' = (if fin then Some tr else running d)" "fw d' = s2" "fin \<longrightarrow> ok"
    unfolding s_def by (rule pre_download_parts)
  have km: "at_kmalloc (w k)" using good(1) by (simp add: good_world_def)
  have nosys: "\<not> is_btwf_in_sysfs s" using inv s by (simp add: fw_inv_def)
  have copy: "fw_backup s = Some file" if "first_power_on_flag d \<noteq> 1"
  proof (rule ccontr)
    assume "fw_backup s \<noteq> Some file"
    then have "fw_backup s = None" using inv s by (auto simp: fw_inv_def)
    then have "btwifi_download_firmware (w k) maxsz (first_power_on_flag d = 1) s = None"
      using that km nosys by (simp add: btwifi_download_firmware_def marlin_request_firmware_def fw_source_def)
    then show False using dl by simp
  qed
  have src: "firmware_at (w k) (first_power_on_flag d = 1) s file"
    using km nosys copy first good(1) by (auto simp: firmware_at_def good_world_def)
  obtain m ver T body t off len where p: "file = m @ put_container IMG_HEAD_MAGIC ver T body" "mask_ok m"
    "length file < 2 ^ 31" "entries_ok T" "wanted_entry (chip_tags v) T = Some (t, off, len)"
    "has (put_container IMG_HEAD_MAGIC ver T body) (unat off) (put_image img)" "unat len = length (put_image img)" "image_ok img"
    using good(2) unfolding pack_for_def by blast
  have ids: "chip_id s = 0 \<or> chip_id s = v" by (simp add: s)
  have e: "wanted_entry (chip_tags (snd (marlin_get_wcn_chipid (w k) s))) T = Some (t, off, len)"
    using p(5) chip_number(1) [OF good(1) ids] by simp
  note r = container_download [OF p(1-4) e p(6-8) src, of maxsz]
  have "(ok \<longrightarrow> chip_mem tr = image_mem img) \<and> fw_backup s2 = Some file \<and> \<not> is_btwf_in_sysfs s2 \<and> chip_id s2 = v"
    using r dl chip_number(2) [OF good(1) ids] by auto
  then show ?thesis using d' inv by (simp add: fw_inv_def)
qed

lemma fw_inv_fields: "fw d' = fw d \<Longrightarrow> running d' = running d \<or> running d' = None \<Longrightarrow> fw_inv v img file d \<Longrightarrow> fw_inv v img file d'"
  by (auto simp: fw_inv_def)

lemma power_up_image:
  assumes good: "good_world v file w" "pack_for v img file" and inv: "fw_inv v img file d"
    and first: "first_power_on_flag d = 1 \<Longrightarrow> tries d = 0"
    and up: "power_up w maxsz s d = Some (d', ok)" "reset_count d = 0" "\<not> carddump d"
  shows "fw_inv v img file d'"
proof -
  define d0 where "d0 = d\<lparr>tries := tries d + 1\<rparr>"
  obtain d1 c where on: "chip_power_on (w (tries d)) d0 = (d1, c)" by fastforce
  have r0: "reset_count d0 = 0" "\<not> carddump d0" using up(2,3) by (simp_all add: d0_def)
  note f = chip_power_on_facts [OF on r0]
  have i1: "fw_inv v img file d1" using f(17,18) inv by (simp add: fw_inv_def d0_def)
  have fail: "fw_inv v img file (power_fail x)" if "fw_inv v img file x" for x
    using that by (simp add: fw_inv_def power_fail_def chip_reset_release_def sdiohal_runtime_put_def)
  show ?thesis
  proof (cases c)
    case False
    then have "d' = power_fail d1" using up(1) on by (simp add: power_up_def d0_def Let_def)
    then show ?thesis using fail [OF i1] by simp
  next
    case True
    define pre where "pre = pre_btwifi_download_sdio (w (tries d)) maxsz (d1\<lparr>power_state := set_bit s (power_state d1)\<rparr>)"
    have e: "power_up w maxsz s d = Option.bind pre (\<lambda>(d, fin).
        if fin then Some (d\<lparr>download_finish_flag := True\<rparr>, True) else Some (power_fail d, False))"
      using on True by (simp add: power_up_def d0_def Let_def pre_def)
    obtain d2 fin where p: "pre = Some (d2, fin)" using up(1) unfolding e by (cases pre) auto
    have r: "d' = (if fin then d2\<lparr>download_finish_flag := True\<rparr> else power_fail d2)"
      using up(1) unfolding e p by (cases fin) simp_all
    have i1': "fw_inv v img file (d1\<lparr>power_state := set_bit s (power_state d1)\<rparr>)"
      using i1 by (simp add: fw_inv_def)
    have "fw_inv v img file d2"
      by (rule download_image [OF good i1' _ p [unfolded pre_def]]) (use first f(5) in \<open>simp add: d0_def\<close>)
    then show ?thesis using fail r by (cases fin) (simp_all add: fw_inv_def)
  qed
qed

lemma set_power_off_fw:
  "fw (set_power_off s d) = fw d" "running (set_power_off s d) = running d \<or> running (set_power_off s d) = None"
  "first_power_on_flag (set_power_off s d) = first_power_on_flag d" "tries (set_power_off s d) = tries d"
  by (simp_all add: set_power_off_def chip_power_off_def chip_reset_release_def marlin_chip_en_def sdiohal_runtime_put_def Let_def)

lemma set_power_again_image:
  assumes good: "good_world v file w" "pack_for v img file" and inv: "fw_inv v img file d"
    and first: "first_power_on_flag d \<noteq> 1" and core: "power_core g d" "\<not> carddump d"
    and run: "set_power_again w maxsz s d = Some (d', ret)"
  shows "fw_inv v img file d'"
proof (cases "power_state d = 0 \<and> s \<noteq> WCN_AUTO")
  case True
  then obtain ok where up: "power_up w maxsz s d = Some (d', ok)"
    using run by (auto simp: set_power_again_def bind_eq_Some_conv)
  have "reset_count d = 0" using core(1) True power_state_zero [OF core(1)] by (simp add: power_core_def)
  then show ?thesis using power_up_image [OF good inv _ up _ core(2)] first by blast
next
  case False
  have "g_open g = {} \<Longrightarrow> s = WCN_AUTO" using False power_state_zero [OF core(1)] by blast
  then have "d' = d \<or> d' = d\<lparr>power_state := set_bit s (power_state d)\<rparr>"
    using run masks_cover [OF core(1)] by (auto simp: set_power_again_def split: if_splits)
  then show ?thesis using inv by (auto simp: fw_inv_def)
qed


text \<open>Over a run: the image, and that the first start is the first attempt.\<close>

definition image_inv :: "u32 \<Rightarrow> fw_image \<Rightarrow> u8 list \<Rightarrow> marlin_device \<Rightarrow> bool" where
  "image_inv v img file d \<longleftrightarrow> fw_inv v img file d \<and> (first_power_on_flag d = 0 \<longrightarrow> tries d = 0)"

lemma set_power_off_image:
  "image_inv v img file d \<Longrightarrow> image_inv v img file (set_power_off s d)"
  unfolding image_inv_def set_power_off_fw using set_power_off_fw [of s d] by (metis fw_inv_fields)

lemma step_image:
  assumes good: "good_world v file w" "pack_for v img file" and inv: "image_inv v img file d"
    and p: "power_inv g d" "g_cmds g < 2 ^ 30" "cmd_ok c" "power_step w maxsz c d = Some (d', r)"
  shows "image_inv v img file d'"
proof (cases c)
  case (Start s)
  note m = p(4) [unfolded Start]
  show ?thesis
  proof (cases "carddump d \<or> fail_count d \<noteq> 0")
    case True
    then have "d' = d" using m by (cases "carddump d"; simp add: start_marlin_def)+
    then show ?thesis using inv by simp
  next
    case False
    define d1 where "d1 = (if s = MARLIN_WIFI then d\<lparr>wifi_need_download_ini_flag :=
        if wifi_need_download_ini_flag d = 0 then 1 else 2\<rparr> else d)"
    define d2 where "d2 = d1\<lparr>first_power_on_flag := first_power_on_flag d1 + 1\<rparr>"
    have f: "fw d2 = fw d" "running d2 = running d" "tries d2 = tries d" "carddump d2 = carddump d" "first_power_on_flag d2 = first_power_on_flag d + 1"
      by (simp_all add: d2_def d1_def)
    have i2: "fw_inv v img file d2" using inv f by (simp add: image_inv_def fw_inv_def)
    have nz: "first_power_on_flag d2 \<noteq> 0"
    proof -
      have "unat (first_power_on_flag d2) = unat (first_power_on_flag d) + 1"
        unfolding f(5) using p(1,2) by (intro unat_plus_one) (simp add: power_inv_def)
      then show ?thesis by auto
    qed
    have core: "power_core g d2" using p(1) by (simp add: d2_def d1_def power_inv_def)
    have nd: "\<not> carddump d2" using False f by simp
    obtain ret where mm: "marlin_set_power w maxsz s True d1 = Some (d', ret)"
      using m False by (auto simp: start_marlin_def d1_def bind_eq_Some_conv split: if_splits)
    have s: "s < 10" "s \<noteq> WCN_AUTO" "s \<noteq> MARLIN_GNSS" using p(3) Start by simp_all
    show ?thesis
    proof (cases "first_power_on_flag d2 = 1")
      case True
      have zero: "first_power_on_flag d = 0" using True f(5) by simp
      have U: "g_open g = {}" using p(1) zero by (auto simp: power_inv_def)
      have z: "power_state d2 = 0" "reset_count d2 = 0" using power_state_zero [OF core] U core by (simp_all add: power_core_def)
      have e: "marlin_set_power w maxsz s True d1 = Option.bind (power_up w maxsz s d2)
          (\<lambda>(d, ok). if \<not> ok then Some (d, - 1) else Some (d\<lparr>first_power_on_flag := 2\<rparr>, 0))"
        using True s(3) unfolding marlin_set_power_def Let_def d2_def
        by (cases "power_up w maxsz s (d1\<lparr>first_power_on_flag := 1\<rparr>)") (simp_all add: split_beta)
      obtain d3 ok where up: "power_up w maxsz s d2 = Some (d3, ok)" using mm unfolding e by (cases "power_up w maxsz s d2") auto
      have d': "d' = (if ok then d3\<lparr>first_power_on_flag := 2\<rparr> else d3)" using mm unfolding e up by (cases ok) simp_all
      have t0: "tries d2 = 0" using inv zero f(3) by (simp add: image_inv_def)
      have i3: "fw_inv v img file d3" by (rule power_up_image [OF good i2 _ up z(2) nd]) (rule t0)
      have "first_power_on_flag d3 = 1" using power_up_facts(1) [OF up z nd] True by simp
      then show ?thesis using i3 d' by (simp add: image_inv_def fw_inv_def)
    next
      case False
      then have again: "set_power_again w maxsz s d2 = Some (d', ret)" using mm by (simp add: marlin_set_power_def d2_def Let_def)
      have "fw_inv v img file d'" by (rule set_power_again_image [OF good i2 False core nd again])
      moreover have "first_power_on_flag d' = first_power_on_flag d2"
        by (rule set_power_again_core(3) [OF core p(2) s(1,2) nd again])
      ultimately show ?thesis using nz by (simp add: image_inv_def)
    qed
  qed
next
  case (Stop s)
  then have "d' = d \<or> d' = set_power_off s d"
    using p(4) by (cases "carddump d"; cases "fail_count d = 0"; simp add: stop_marlin_def marlin_set_power_def)
  then show ?thesis using inv set_power_off_image by blast
next
  case (PowerOff s)
  have "image_inv v img file (d\<lparr>no_power_off := False\<rparr>)" using inv by (simp add: image_inv_def fw_inv_def)
  moreover have "d' = set_power_off s (d\<lparr>no_power_off := False\<rparr>)" using p(4) PowerOff by (simp add: marlin_power_off_def)
  ultimately show ?thesis using set_power_off_image by simp
next
  case Reboot
  then have "d' = d\<lparr>flag_reset := True, fail_count := 0, carddump := False\<rparr>"
    using p(4) by (simp add: mdbg_reboot_def sdiohal_set_carddump_status_def)
  then show ?thesis using inv by (simp add: image_inv_def fw_inv_def)
qed

lemma run_image:
  assumes good: "good_world v file w" "pack_for v img file"
  shows "image_inv v img file d \<Longrightarrow> power_inv g d \<Longrightarrow> g_cmds g + length cs < 2 ^ 30 \<Longrightarrow> \<forall>c \<in> set cs. cmd_ok c \<Longrightarrow>
    power_run w maxsz cs d = Some (d', log) \<Longrightarrow> image_inv v img file d'"
proof (induction cs arbitrary: g d log)
  case (Cons c cs)
  obtain d1 r log1 where s: "power_step w maxsz c d = Some (d1, r)" "power_run w maxsz cs d1 = Some (d', log1)"
    using Cons(6) by (auto simp: bind_eq_Some_conv split: prod.splits)
  have g: "g_cmds g < 2 ^ 30" "cmd_ok c" using Cons(4,5) by simp_all
  have "power_inv (ghost_step (c, r) g) d1" by (rule step_inv [OF Cons(3) g s(1)])
  moreover have "image_inv v img file d1" by (rule step_image [OF good Cons(2,3) g s(1)])
  moreover have "g_cmds (ghost_step (c, r) g) = g_cmds g + 1" by (simp add: ghost_step_def split_beta)
  ultimately show ?case using Cons(1) [of d1 "ghost_step (c, r) g" log1] Cons(4,5) s by simp
qed simp

text \<open>
  C8. From the container to the running chip: when the first attempt finds a container with an image for the chip, then after
  every sequence of commands that ran, as long as a subsystem is open, the memory of the chip is as the image says, also
  after the chip was switched off and loaded again from the copy.
\<close>

theorem open_means_image:
  assumes "good_world v file w" "pack_for v img file"
    and "power_run w maxsz cs (marlin_probe wake) = Some (d, log)" "\<forall>c \<in> set cs. cmd_ok c" "length cs < 2 ^ 30"
    and "open_set log \<noteq> {}"
  shows "\<exists>tr. running d = Some tr \<and> chip_mem tr = image_mem img"
proof -
  let ?g = "\<lparr>g_open = {}, g_reset = False, g_fails = 0, g_irqs = 0, g_cmds = 0\<rparr>"
  have "power_inv ?g (marlin_probe wake)" by (simp add: power_inv_def power_core_def marlin_probe_def)
  moreover have "image_inv v img file (marlin_probe wake)" by (simp add: image_inv_def fw_inv_def marlin_probe_def)
  ultimately have "image_inv v img file d" using run_image [OF assms(1,2) _ _ _ assms(4,3)] assms(5) by simp
  moreover have "running d \<noteq> None" using run_from_probe [OF assms(3-5)] assms(6) by (simp add: power_core_def)
  ultimately show ?thesis by (auto simp: image_inv_def fw_inv_def)
qed


section \<open>When nothing goes wrong\<close>

definition kind :: "attempt \<Rightarrow> bool" where
  "kind a \<longleftrightarrow> at_card a \<and> (\<forall>j. at_writes a j) \<and> at_run a \<and> check_cp_ready a"

definition live_inv :: "u32 \<Rightarrow> fw_image \<Rightarrow> u8 list \<Rightarrow> marlin_device \<Rightarrow> bool" where
  "live_inv v img file d \<longleftrightarrow> image_inv v img file d \<and> (first_power_on_flag d \<noteq> 0 \<longrightarrow> fw_backup (fw d) = Some file) \<and>
     \<not> carddump d \<and> fail_count d = 0"

lemma download_loads:
  assumes good: "good_world v file w" "pack_for v img file" and inv: "fw_inv v img file d"
    and copy: "first_power_on_flag d = 1 \<and> k = 0 \<or> first_power_on_flag d \<noteq> 1 \<and> fw_backup (fw d) = Some file"
  shows "\<exists>s tr ok. btwifi_download_firmware (w k) maxsz (first_power_on_flag d = 1) (fst (marlin_get_wcn_chipid (w k) (fw d))) = Some (s, tr, ok) \<and>
    ((\<forall>j. at_writes (w k) j) \<longrightarrow> ok) \<and> fw_backup s = Some file"
proof -
  define s where "s = fst (marlin_get_wcn_chipid (w k) (fw d))"
  have id: "chip_id (fw d) = 0 \<or> chip_id (fw d) = v" using inv by (simp add: fw_inv_def)
  have s: "s = (fw d)\<lparr>chip_id := v\<rparr>" using chip_number(3) [OF good(1) id] by (simp add: s_def)
  have src: "firmware_at (w k) (first_power_on_flag d = 1) s file"
    using inv s copy good(1) by (auto simp: firmware_at_def good_world_def fw_inv_def)
  obtain m ver T body t off len where p: "file = m @ put_container IMG_HEAD_MAGIC ver T body" "mask_ok m"
    "length file < 2 ^ 31" "entries_ok T" "wanted_entry (chip_tags v) T = Some (t, off, len)"
    "has (put_container IMG_HEAD_MAGIC ver T body) (unat off) (put_image img)" "unat len = length (put_image img)" "image_ok img"
    using good(2) unfolding pack_for_def by blast
  have ids: "chip_id s = 0 \<or> chip_id s = v" by (simp add: s)
  have e: "wanted_entry (chip_tags (snd (marlin_get_wcn_chipid (w k) s))) T = Some (t, off, len)"
    using p(5) chip_number(1) [OF good(1) ids] by simp
  show ?thesis using container_download [OF p(1-4) e p(6-8) src, of maxsz] unfolding s_def by blast
qed

lemma download_succeeds:
  assumes good: "good_world v file w" "pack_for v img file" "kind (w k)" and inv: "fw_inv v img file d"
    and copy: "first_power_on_flag d = 1 \<and> k = 0 \<or> first_power_on_flag d \<noteq> 1 \<and> fw_backup (fw d) = Some file"
  shows "\<exists>s tr. pre_btwifi_download_sdio (w k) maxsz d = Some ((sdiohal_runtime_get (d\<lparr>fw := s\<rparr>))\<lparr>running := Some tr\<rparr>, True) \<and>
    fw_backup s = Some file"
proof -
  obtain s tr ok where
    r: "btwifi_download_firmware (w k) maxsz (first_power_on_flag d = 1) (fst (marlin_get_wcn_chipid (w k) (fw d))) = Some (s, tr, ok)"
    "(\<forall>j. at_writes (w k) j) \<longrightarrow> ok" "fw_backup s = Some file"
    using download_loads [OF good(1,2) inv copy] by blast
  have "ok" "at_run (w k)" "check_cp_ready (w k)" using r(2) good(3) by (simp_all add: kind_def)
  then have "pre_btwifi_download_sdio (w k) maxsz d = Some ((sdiohal_runtime_get (d\<lparr>fw := s\<rparr>))\<lparr>running := Some tr\<rparr>, True)"
    using r by (simp add: pre_btwifi_download_sdio_def Let_def)
  then show ?thesis using r(3) by blast
qed

lemma power_up_succeeds:
  assumes good: "good_world v file w" "pack_for v img file" "kind (w (tries d))" and inv: "fw_inv v img file d"
    and copy: "first_power_on_flag d = 1 \<and> tries d = 0 \<or> first_power_on_flag d \<noteq> 1 \<and> fw_backup (fw d) = Some file"
    and d: "power_state d = 0" "reset_count d = 0" "\<not> carddump d"
  shows "\<exists>d'. power_up w maxsz s d = Some (d', True) \<and> fw_backup (fw d') = Some file"
proof -
  obtain d1 c where on: "chip_power_on (w (tries d)) (d\<lparr>tries := tries d + 1\<rparr>) = (d1, c)" by fastforce
  have r0: "reset_count (d\<lparr>tries := tries d + 1\<rparr>) = 0" "\<not> carddump (d\<lparr>tries := tries d + 1\<rparr>)" using d by simp_all
  note f = chip_power_on_facts [OF on r0]
  have c: c using f(1) good(3) by (simp add: kind_def)
  define d2 where "d2 = d1\<lparr>power_state := set_bit s (power_state d1)\<rparr>"
  have i2: "fw_inv v img file d2" using inv f(17,18) by (simp add: fw_inv_def d2_def)
  have c2: "first_power_on_flag d2 = 1 \<and> tries d = 0 \<or> first_power_on_flag d2 \<noteq> 1 \<and> fw_backup (fw d2) = Some file"
    using copy f(5,17) by (simp add: d2_def)
  obtain u tr where "pre_btwifi_download_sdio (w (tries d)) maxsz d2 = Some ((sdiohal_runtime_get (d2\<lparr>fw := u\<rparr>))\<lparr>running := Some tr\<rparr>, True)"
    "fw_backup u = Some file"
    using download_succeeds [OF good i2 c2] by blast
  then show ?thesis using on c by (simp add: power_up_def Let_def d2_def sdiohal_runtime_get_def)
qed

lemma set_power_off_kept:
  "fail_count (set_power_off s d) = fail_count d" "carddump (set_power_off s d) = carddump d"
  by (simp_all add: set_power_off_def chip_power_off_def chip_reset_release_def marlin_chip_en_def sdiohal_runtime_put_def Let_def)

lemma set_power_off_live: "live_inv v img file d \<Longrightarrow> live_inv v img file (set_power_off s d)"
  unfolding live_inv_def set_power_off_fw set_power_off_kept using set_power_off_image by blast


lemma set_power_again_on:
  assumes "power_core g d" "g_open g \<noteq> {}" "s \<noteq> WCN_AUTO"
  shows "set_power_again w maxsz s d = Some (d\<lparr>power_state := set_bit s (power_state d)\<rparr>, 0)"
  using masks_cover [OF assms(1,2)] assms(3) by (auto simp: set_power_again_def)

lemma start_live:
  assumes good: "good_world v file w" "pack_for v img file" and kind: "kind (w (tries d))" and inv: "live_inv v img file d"
    and p: "power_inv g d" "g_cmds g < 2 ^ 30" "cmd_ok (Start s)"
  shows "\<exists>d'. power_step w maxsz (Start s) d = Some (d', Opened) \<and> live_inv v img file d'"
proof -
  define d1 where "d1 = (if s = MARLIN_WIFI then d\<lparr>wifi_need_download_ini_flag :=
      if wifi_need_download_ini_flag d = 0 then 1 else 2\<rparr> else d)"
  define d2 where "d2 = d1\<lparr>first_power_on_flag := first_power_on_flag d1 + 1\<rparr>"
  have f: "fw d2 = fw d" "running d2 = running d" "tries d2 = tries d" "carddump d2 = carddump d" "fail_count d2 = fail_count d"
    "first_power_on_flag d2 = first_power_on_flag d + 1"
    by (simp_all add: d2_def d1_def)
  have i2: "fw_inv v img file d2" using inv f by (simp add: live_inv_def image_inv_def fw_inv_def)
  have core: "power_core g d2" using p(1) by (simp add: d2_def d1_def power_inv_def)
  have l: "\<not> carddump d2" "fail_count d2 = 0" using inv f by (simp_all add: live_inv_def)
  have s: "s < 10" "s \<noteq> WCN_AUTO" "s \<noteq> MARLIN_GNSS" using p(3) by simp_all
  have start: "power_step w maxsz (Start s) d = Option.bind (marlin_set_power w maxsz s True d1)
      (\<lambda>(d', ret). Some (d', if ret = 0 then Opened else if at_card (w (tries d)) then NoFirmware (carddump d') else NoCard (card_exist d)))"
    using l f by (simp add: start_marlin_def d1_def)
  have "\<exists>d'. marlin_set_power w maxsz s True d1 = Some (d', 0) \<and> fw_backup (fw d') = Some file \<and> \<not> carddump d' \<and> fail_count d' = 0"
  proof (cases "g_open g = {}")
    case U: True
    have z: "power_state d2 = 0" "reset_count d2 = 0" using power_state_zero [OF core] U core by (simp_all add: power_core_def)
    have cp: "first_power_on_flag d2 = 1 \<and> tries d2 = 0 \<or> first_power_on_flag d2 \<noteq> 1 \<and> fw_backup (fw d2) = Some file"
      using inv f by (auto simp: live_inv_def image_inv_def)
    obtain d3 where up: "power_up w maxsz s d2 = Some (d3, True)" "fw_backup (fw d3) = Some file"
      using power_up_succeeds [OF good _ i2 cp z l(1)] kind f(3) by auto
    note pf = power_up_facts(1,6) [OF up(1) z l(1)]
    show ?thesis
    proof (cases "first_power_on_flag d2 = 1")
      case True
      then have "marlin_set_power w maxsz s True d1 = Some (d3\<lparr>first_power_on_flag := 2\<rparr>, 0)"
        using up(1) s(3) by (simp add: marlin_set_power_def d2_def Let_def)
      then show ?thesis using pf l up(2) by simp
    next
      case False
      have "set_power_again w maxsz s d2 = Some (d3, 0)"
        using up(1) z(1) s(2) by (simp add: set_power_again_def)
      then have "marlin_set_power w maxsz s True d1 = Some (d3, 0)"
        using False by (simp add: marlin_set_power_def d2_def Let_def)
      then show ?thesis using pf l up(2) by simp
    qed
  next
    case False
    have "2 \<le> unat (first_power_on_flag d)" using p(1) False by (simp add: power_inv_def)
    moreover have "unat (first_power_on_flag d2) = unat (first_power_on_flag d) + 1"
      unfolding f(6) using p(1,2) by (intro unat_plus_one) (simp add: power_inv_def)
    ultimately have n1: "first_power_on_flag d2 \<noteq> 1" "first_power_on_flag d \<noteq> 0" by auto
    have "marlin_set_power w maxsz s True d1 = Some (d2\<lparr>power_state := set_bit s (power_state d2)\<rparr>, 0)"
      using set_power_again_on [OF core False s(2)] n1(1) by (simp add: marlin_set_power_def d2_def Let_def)
    moreover have "fw_backup (fw d2) = Some file" using inv n1(2) f(1) by (simp add: live_inv_def)
    ultimately show ?thesis using l by simp
  qed
  then obtain d' where m: "marlin_set_power w maxsz s True d1 = Some (d', 0)" "fw_backup (fw d') = Some file" "\<not> carddump d'" "fail_count d' = 0"
    by blast
  have st: "power_step w maxsz (Start s) d = Some (d', Opened)" using m(1) start by simp
  have "image_inv v img file d'"
    by (rule step_image [OF good _ p st]) (use inv in \<open>simp add: live_inv_def\<close>)
  then show ?thesis using st m(2-4) by (simp add: live_inv_def)
qed

fun hoped :: "power_cmd \<Rightarrow> outcome" where
  "hoped (Start s) = Opened"
| "hoped _ = Done"

lemma close_live:
  assumes inv: "live_inv v img file d" and c: "\<And>s. c \<noteq> Start s"
  shows "\<exists>d'. power_step w maxsz c d = Some (d', hoped c) \<and> live_inv v img file d'"
proof (cases c)
  case (Stop s)
  have "\<not> carddump d" "fail_count d = 0" using inv by (simp_all add: live_inv_def)
  then have "power_step w maxsz c d = Some (set_power_off s d, Done)" using Stop by (simp add: stop_marlin_def marlin_set_power_def)
  then show ?thesis using set_power_off_live [OF inv] Stop by simp
next
  case (PowerOff s)
  have "live_inv v img file (d\<lparr>no_power_off := False\<rparr>)" using inv by (simp add: live_inv_def image_inv_def fw_inv_def)
  moreover have "power_step w maxsz c d = Some (set_power_off s (d\<lparr>no_power_off := False\<rparr>), Done)"
    using PowerOff by (simp add: marlin_power_off_def)
  ultimately show ?thesis using set_power_off_live PowerOff by simp
next
  case Reboot
  have "live_inv v img file (mdbg_reboot d)"
    using inv by (simp add: mdbg_reboot_def sdiohal_set_carddump_status_def live_inv_def image_inv_def fw_inv_def)
  then show ?thesis using Reboot by simp
qed (use c in blast)

lemma run_live:
  assumes good: "good_world v file w" "pack_for v img file" "\<forall>k. kind (w k)"
  shows "live_inv v img file d \<Longrightarrow> power_inv g d \<Longrightarrow> g_cmds g + length cs < 2 ^ 30 \<Longrightarrow> \<forall>c \<in> set cs. cmd_ok c \<Longrightarrow>
    \<exists>d'. power_run w maxsz cs d = Some (d', map (\<lambda>c. (c, hoped c)) cs)"
proof (induction cs arbitrary: g d)
  case (Cons c cs)
  have g: "g_cmds g < 2 ^ 30" "cmd_ok c" using Cons(4,5) by simp_all
  obtain d1 where s: "power_step w maxsz c d = Some (d1, hoped c)" "live_inv v img file d1"
  proof (cases "\<exists>s. c = Start s")
    case True
    then obtain s where "c = Start s" by blast
    then show ?thesis using start_live [OF good(1,2) _ Cons(2,3) g(1)] good(3) g(2) that by fastforce
  next
    case False
    then show ?thesis using close_live [OF Cons(2), of c] that by blast
  qed
  have "power_inv (ghost_step (c, hoped c) g) d1" by (rule step_inv [OF Cons(3) g s(1)])
  moreover have "g_cmds (ghost_step (c, hoped c) g) = g_cmds g + 1" by (simp add: ghost_step_def split_beta)
  ultimately obtain d' where "power_run w maxsz cs d1 = Some (d', map (\<lambda>c. (c, hoped c)) cs)"
    using Cons(1) [OF s(2), of "ghost_step (c, hoped c) g"] Cons(4,5) by auto
  then show ?case using s(1) by simp
qed simp

lemma probe_live: "live_inv v img file (marlin_probe wake)"
  "power_inv \<lparr>g_open = {}, g_reset = False, g_fails = 0, g_irqs = 0, g_cmds = 0\<rparr> (marlin_probe wake)"
  by (simp_all add: live_inv_def image_inv_def fw_inv_def marlin_probe_def power_inv_def power_core_def)

text \<open>
  C30. With a container for the chip, a card that is always found and a chip that always comes up, every
  sequence of commands runs to its end and no start fails.
\<close>

theorem starts_succeed:
  assumes "good_world v file w" "pack_for v img file" "\<forall>k. kind (w k)" "\<forall>c \<in> set cs. cmd_ok c" "length cs < 2 ^ 30"
  shows "\<exists>d log. power_run w maxsz cs (marlin_probe wake) = Some (d, log) \<and> log = map (\<lambda>c. (c, hoped c)) cs"
  using run_live [OF assms(1-3) probe_live, of cs maxsz wake] assms(4,5) by simp

text \<open>The sample container, and a chip that always comes up.\<close>

definition sample_world :: "nat \<Rightarrow> attempt" where
  "sample_world = (\<lambda>_. sample_attempt\<lparr>at_request := Some sample_file\<rparr>)"

lemma sample_good: "good_world 0x23550000 sample_file sample_world" "pack_for 0x23550000 sample_image sample_file" "\<forall>k. kind (sample_world k)"
proof -
  show "good_world 0x23550000 sample_file sample_world"
    by (simp add: good_world_def sample_world_def sample_attempt_def WCN_CHIPID_MASK_def MARLIN3E_AA_CHIPID_def)
  show "\<forall>k. kind (sample_world k)"
    by (simp add: kind_def sample_world_def sample_attempt_def check_cp_ready_def cp_ready_loop.simps SYNC_ALL_FINISHED_def)
  have h: "has (put_container IMG_HEAD_MAGIC 0 sample_entries (put_image sample_image)) (unat (36 :: u32)) (put_image sample_image)"
    by (simp add: has_iff put_container_def sample_entries_def put_entry_def put_le32_def IMG_HEAD_MAGIC_def)
  have l: "mask_ok (replicate 8 0)" "length sample_file < 2 ^ 31" "entries_ok sample_entries" "image_ok sample_image"
    "unat (28 :: u32) = length (put_image sample_image)"
    by (simp_all add: mask_ok_def sample_file_def sample_entries_def sample_image_def put_container_def put_entry_def put_le32_def
        IMG_HEAD_MAGIC_def IMG_HEAD_MAGIC_COMBINE_def entries_ok_def)
  show "pack_for 0x23550000 sample_image sample_file"
    unfolding pack_for_def using sample_file_def l h sample_wanted by blast
qed

lemma starts_succeed_witness:
  "\<exists>d log. power_run sample_world 0xf0c00 [Start 2, Start 0, Stop 2, Stop 0, Start 2] (marlin_probe True) = Some (d, log) \<and>
     log = [(Start 2, Opened), (Start 0, Opened), (Stop 2, Done), (Stop 0, Done), (Start 2, Opened)]"
  using starts_succeed [OF sample_good, of "[Start 2, Start 0, Stop 2, Stop 0, Start 2]" "0xf0c00" True]
  by (simp add: WCN_AUTO_def MARLIN_GNSS_def)

lemma open_means_image_witness:
  "\<exists>d log tr. power_run sample_world 0xf0c00 [Start 2, Stop 2, Start 0] (marlin_probe True) = Some (d, log) \<and>
     running d = Some tr \<and> chip_mem tr = image_mem sample_image"
proof -
  have ok: "\<forall>c \<in> set [Start 2, Stop 2, Start 0]. cmd_ok c" "length [Start 2, Stop 2, Start 0] < 2 ^ 30"
    by (simp_all add: WCN_AUTO_def MARLIN_GNSS_def)
  have "g_cmds \<lparr>g_open = {}, g_reset = False, g_fails = 0, g_irqs = 0, g_cmds = 0\<rparr> + length [Start 2, Stop 2, Start 0] < 2 ^ 30"
    by simp
  then obtain d where run: "power_run sample_world 0xf0c00 [Start 2, Stop 2, Start 0] (marlin_probe True) =
      Some (d, map (\<lambda>c. (c, hoped c)) [Start 2, Stop 2, Start 0])"
    using run_live [OF sample_good probe_live _ ok(1), of "0xf0c00" True] by blast
  have "open_set (map (\<lambda>c. (c, hoped c)) [Start 2, Stop 2, Start 0]) \<noteq> {}"
    by (simp add: open_set_def spec_close_def)
  then show ?thesis using open_means_image [OF sample_good(1,2) run ok] run by blast
qed

section \<open>What a failed start leaves behind\<close>

lemma power_up_ini:
  assumes "power_up w maxsz s d = Some (d', ok)"
  shows "wifi_need_download_ini_flag d' = wifi_need_download_ini_flag d"
proof -
  have on: "wifi_need_download_ini_flag (fst (chip_power_on a x)) = wifi_need_download_ini_flag x" for a x
    by (simp add: chip_power_on_def pin_defs)
  have fl: "wifi_need_download_ini_flag (power_fail x) = wifi_need_download_ini_flag x" for x by (simp add: pin_defs)
  have pre: "wifi_need_download_ini_flag y = wifi_need_download_ini_flag x" if "pre_btwifi_download_sdio a maxsz x = Some (y, f)" for a x y f
    using that by (cases rule: pre_download_cases) (simp_all add: pin_defs)
  obtain d1 c where c: "chip_power_on (w (tries d)) (d\<lparr>tries := tries d + 1\<rparr>) = (d1, c)" by fastforce
  have d1: "wifi_need_download_ini_flag d1 = wifi_need_download_ini_flag d"
    using on [of "w (tries d)" "d\<lparr>tries := tries d + 1\<rparr>"] unfolding c by simp
  show ?thesis
  proof (cases c)
    case False
    then have "d' = power_fail d1" using assms c by (simp add: power_up_def Let_def)
    then show ?thesis using d1 fl by simp
  next
    case True
    define x where "x = d1\<lparr>power_state := set_bit s (power_state d1)\<rparr>"
    obtain d2 f where p: "pre_btwifi_download_sdio (w (tries d)) maxsz x = Some (d2, f)"
      and r: "d' = (if f then d2\<lparr>download_finish_flag := True\<rparr> else power_fail d2)"
      using assms c True by (auto simp: power_up_def Let_def x_def bind_eq_Some_conv split: if_splits)
    then show ?thesis using pre [OF p] d1 fl by (simp add: x_def)
  qed
qed

lemma start_wifi_ini:
  assumes "power_step w maxsz (Start MARLIN_WIFI) d = Some (d', r)" "r \<noteq> Refused"
  shows "wifi_need_download_ini_flag d' = (if wifi_need_download_ini_flag d = 0 then 1 else 2)"
proof -
  define d1 where "d1 = d\<lparr>wifi_need_download_ini_flag := if wifi_need_download_ini_flag d = 0 then 1 else 2\<rparr>"
  define d2 where "d2 = d1\<lparr>first_power_on_flag := first_power_on_flag d1 + 1\<rparr>"
  have n: "MARLIN_WIFI \<noteq> MARLIN_GNSS" "MARLIN_WIFI \<noteq> WCN_AUTO" by (simp_all add: MARLIN_WIFI_def MARLIN_GNSS_def WCN_AUTO_def)
  have live: "\<not> carddump d \<and> fail_count d = 0"
    using assms by (auto simp: start_marlin_def split: if_splits)
  obtain ret where m: "marlin_set_power w maxsz MARLIN_WIFI True d1 = Some (d', ret)"
    using assms(1) live by (auto simp: start_marlin_def d1_def bind_eq_Some_conv)
  show ?thesis
  proof (cases "first_power_on_flag d2 = 1")
    case True
    have e: "marlin_set_power w maxsz MARLIN_WIFI True d1 = Option.bind (power_up w maxsz MARLIN_WIFI d2)
        (\<lambda>(d, ok). if \<not> ok then Some (d, - 1) else Some (d\<lparr>first_power_on_flag := 2\<rparr>, 0))"
      using True n(1) unfolding marlin_set_power_def Let_def d2_def
      by (cases "power_up w maxsz MARLIN_WIFI (d1\<lparr>first_power_on_flag := 1\<rparr>)") (simp_all add: split_beta)
    obtain d3 ok where up: "power_up w maxsz MARLIN_WIFI d2 = Some (d3, ok)"
      using m unfolding e by (cases "power_up w maxsz MARLIN_WIFI d2") auto
    have "d' = (if ok then d3\<lparr>first_power_on_flag := 2\<rparr> else d3)" using m unfolding e up by (cases ok) simp_all
    then show ?thesis using power_up_ini [OF up] by (simp add: d2_def d1_def)
  next
    case False
    then have again: "set_power_again w maxsz MARLIN_WIFI d2 = Some (d', ret)"
      using m by (simp add: marlin_set_power_def d2_def Let_def)
    then have "wifi_need_download_ini_flag d' = wifi_need_download_ini_flag d2"
      using n(2) power_up_ini by (auto simp: set_power_again_def bind_eq_Some_conv split: if_splits)
    then show ?thesis by (simp add: d2_def d1_def)
  qed
qed

lemma power_core_open:
  "power_core g d \<Longrightarrow> (\<forall>n. bit (power_state d) n \<longleftrightarrow> n \<in> g_open g) \<and> (g_open g \<noteq> {} \<longrightarrow> running d \<noteq> None)"
  by (simp add: power_core_def)

text \<open>
  A start of Wi-Fi that fails counts as the one that sends the calibration file: the next one, which loads the
  firmware afresh, says that the file is not needed, though the firmware that runs has never been given it.
\<close>

theorem missed_calibration:
  assumes "power_run w maxsz [Start MARLIN_WIFI, Start MARLIN_WIFI] (marlin_probe wake) = Some (d, [(Start MARLIN_WIFI, r), (Start MARLIN_WIFI, Opened)])"
    and "failed r = 1"
  shows "running d \<noteq> None \<and> power_state d = set_bit MARLIN_WIFI 0 \<and> \<not> cali_ini_need_download d"
proof -
  obtain d1 where s: "power_step w maxsz (Start MARLIN_WIFI) (marlin_probe wake) = Some (d1, r)"
    "power_step w maxsz (Start MARLIN_WIFI) d1 = Some (d, Opened)"
    using assms(1) by (auto simp del: power_step.simps simp: bind_eq_Some_conv)
  have "r \<noteq> Refused" using assms(2) by auto
  note i = start_wifi_ini [OF s(1) this] start_wifi_ini [OF s(2)]
  have ok: "\<forall>c \<in> set [Start MARLIN_WIFI, Start MARLIN_WIFI]. cmd_ok c" "length [Start MARLIN_WIFI, Start MARLIN_WIFI] < 2 ^ 30"
    by (simp_all add: MARLIN_WIFI_def WCN_AUTO_def MARLIN_GNSS_def)
  note core = run_from_probe [OF assms(1) ok]
  have "spec_step (Start MARLIN_WIFI, r) ({}, False) = ({}, False)" using assms(2) by (cases r) auto
  then have U: "open_set [(Start MARLIN_WIFI, r), (Start MARLIN_WIFI, Opened)] = {MARLIN_WIFI}" by (simp add: open_set_def)
  have "\<forall>n. bit (power_state d) n \<longleftrightarrow> n = MARLIN_WIFI" "running d \<noteq> None"
    using power_core_open [OF core(1), unfolded core(2) U] by blast+
  moreover have "bit (set_bit MARLIN_WIFI (0 :: u64)) n \<longleftrightarrow> n = MARLIN_WIFI" for n
    using bits_step(1) [of 0 "{}" MARLIN_WIFI n] by (simp add: MARLIN_WIFI_def)
  ultimately have "power_state d = set_bit MARLIN_WIFI 0" "running d \<noteq> None"
    by (blast intro: bit_eqI)+
  then show ?thesis using i by (simp add: cali_ini_need_download_def)
qed

text \<open>
  When the card is not there at the first start, no copy of the firmware is made; the second start, with the
  card there, takes the copy without asking whether there is one, and the driver stops at the access through its null pointer.
\<close>

theorem second_start_without_copy:
  assumes "\<not> at_card (w 0)" "at_card (w 1)" "at_kmalloc (w 1)" "s \<noteq> WCN_AUTO" "t \<noteq> WCN_AUTO"
  shows "power_run w maxsz [Start s, Start t] (marlin_probe wake) = None"
proof -
  define p where "p = marlin_probe wake"
  define d1 where "d1 = (if s = MARLIN_WIFI then p\<lparr>wifi_need_download_ini_flag := 1\<rparr> else p)\<lparr>first_power_on_flag := 1\<rparr>"
  define d2 where "d2 = power_fail (d1\<lparr>tries := 1, chip_en_count := 1, wifi_en_pin := True, reset_count := 1, bt_en_pin := True\<rparr>)"
  have first: "power_step w maxsz (Start s) p = Some (d2, NoCard False)"
    using assms(1) by (simp add: p_def start_marlin_def marlin_probe_def marlin_set_power_def power_up_def chip_power_on_def
        d2_def d1_def pin_defs)
  have id: "is_btwf_in_sysfs (fst (marlin_get_wcn_chipid a x)) = is_btwf_in_sysfs x" "fw_backup (fst (marlin_get_wcn_chipid a x)) = fw_backup x"
    for a x by (simp_all add: marlin_get_wcn_chipid_def split: option.splits)
  have d2: "fw d2 = fw p" "first_power_on_flag d2 = 1" "tries d2 = 1" "power_state d2 = 0" "\<not> carddump d2" "fail_count d2 = 0"
    by (simp_all add: d2_def d1_def p_def pin_defs marlin_probe_def)
  have dl: "pre_btwifi_download_sdio (w 1) maxsz x = None" if "fw x = fw p" "first_power_on_flag x \<noteq> 1" for x
    using that assms(3) by (simp add: pre_btwifi_download_sdio_def btwifi_download_firmware_def marlin_request_firmware_def
        fw_source_def id p_def marlin_probe_def)
  have up: "power_up w maxsz t x = None" if "fw x = fw p" "first_power_on_flag x = 2" "tries x = 1" for x
  proof -
    define y where "y = fst (chip_power_on (w (tries x)) (x\<lparr>tries := tries x + 1\<rparr>))"
    have "chip_power_on (w (tries x)) (x\<lparr>tries := tries x + 1\<rparr>) = (y, True)" using assms(2) that(3) by (simp add: y_def chip_power_on_def Let_def)
    moreover have "fw y = fw p" "first_power_on_flag y = 2" using that by (simp_all add: y_def chip_power_on_def pin_defs)
    moreover have "pre_btwifi_download_sdio (w (tries x)) maxsz (y\<lparr>power_state := set_bit t (power_state y)\<rparr>) = None"
      using calculation that(3) dl by simp
    ultimately show ?thesis by (simp add: power_up_def)
  qed
  define x where "x = (if t = MARLIN_WIFI then d2\<lparr>wifi_need_download_ini_flag :=
      if wifi_need_download_ini_flag d2 = 0 then 1 else 2\<rparr> else d2)\<lparr>first_power_on_flag := 2\<rparr>"
  have "set_power_again w maxsz t x = None"
    using up [of x] d2 assms(5) by (simp add: set_power_again_def x_def)
  then have "power_step w maxsz (Start t) d2 = None"
    using d2 by (cases "t = MARLIN_WIFI"; cases "wifi_need_download_ini_flag d2 = 0")
      (simp_all add: start_marlin_def marlin_set_power_def x_def)
  then show ?thesis using first by (simp add: p_def del: power_step.simps)
qed


text \<open>The first attempt loads the firmware but the chip does not start; or there is no card, or no firmware.\<close>

definition lazy_world :: "nat \<Rightarrow> attempt" where
  "lazy_world = (\<lambda>k. if k = 0 then (sample_world 0)\<lparr>at_run := False\<rparr> else sample_world k)"

lemma lazy_good: "good_world 0x23550000 sample_file lazy_world"
  using sample_good(1) by (simp add: good_world_def lazy_world_def sample_world_def)

lemma lazy_first:
  "\<exists>d. power_step lazy_world 0xf0c00 (Start MARLIN_WIFI) (marlin_probe True) = Some (d, NoFirmware False) \<and>
     first_power_on_flag d = 1 \<and> tries d = 1 \<and> fw_backup (fw d) = Some sample_file \<and> fail_count d = 0 \<and> \<not> carddump d"
proof -
  define p where "p = (marlin_probe True)\<lparr>wifi_need_download_ini_flag := 1, first_power_on_flag := 1\<rparr>"
  define y where "y = fst (chip_power_on (lazy_world 0) (p\<lparr>tries := tries p + 1\<rparr>))"
  define x where "x = y\<lparr>power_state := set_bit MARLIN_WIFI (power_state y)\<rparr>"
  have y: "chip_power_on (lazy_world (tries p)) (p\<lparr>tries := tries p + 1\<rparr>) = (y, True)"
    by (simp add: y_def p_def chip_power_on_def lazy_world_def sample_world_def sample_attempt_def marlin_probe_def Let_def)
  have x: "tries p = 0" "tries x = 1" "fw x = fw p" "first_power_on_flag x = 1" "fail_count x = 0" "\<not> carddump x"
    by (simp_all add: x_def y_def p_def chip_power_on_def lazy_world_def sample_world_def sample_attempt_def pin_defs marlin_probe_def)
  have inv: "fw_inv 0x23550000 sample_image sample_file x"
    unfolding fw_inv_def x(3) by (simp add: p_def marlin_probe_def x_def y_def chip_power_on_def pin_defs)
  have "first_power_on_flag x = 1 \<and> (0 :: nat) = 0 \<or> first_power_on_flag x \<noteq> 1 \<and> fw_backup (fw x) = Some sample_file"
    using x(4) by simp
  then obtain u tr ok where "btwifi_download_firmware (lazy_world 0) 0xf0c00 (first_power_on_flag x = 1)
      (fst (marlin_get_wcn_chipid (lazy_world 0) (fw x))) = Some (u, tr, ok)" and u: "fw_backup u = Some sample_file"
    using download_loads [OF lazy_good sample_good(2) inv] by blast
  then have pre: "pre_btwifi_download_sdio (lazy_world 0) 0xf0c00 x = Some (x\<lparr>fw := u\<rparr>, False)"
    by (simp add: pre_btwifi_download_sdio_def lazy_world_def)
  have "power_up lazy_world 0xf0c00 MARLIN_WIFI p = Some (power_fail (x\<lparr>fw := u\<rparr>), False)"
    using y x(1) pre by (simp add: power_up_def x_def)
  then have "power_step lazy_world 0xf0c00 (Start MARLIN_WIFI) (marlin_probe True) = Some (power_fail (x\<lparr>fw := u\<rparr>), NoFirmware False)"
    using x(6) by (simp add: start_marlin_def marlin_set_power_def marlin_probe_def p_def pin_defs lazy_world_def sample_world_def sample_attempt_def)
  then show ?thesis using x(2-6) u by (simp add: pin_defs)
qed

lemma missed_calibration_witness:
  "\<exists>d. power_run lazy_world 0xf0c00 [Start MARLIN_WIFI, Start MARLIN_WIFI] (marlin_probe True) =
       Some (d, [(Start MARLIN_WIFI, NoFirmware False), (Start MARLIN_WIFI, Opened)]) \<and> running d \<noteq> None \<and> \<not> cali_ini_need_download d"
proof -
  let ?g = "\<lparr>g_open = {}, g_reset = False, g_fails = 0, g_irqs = 0, g_cmds = 0\<rparr>"
  obtain d1 where s: "power_step lazy_world 0xf0c00 (Start MARLIN_WIFI) (marlin_probe True) = Some (d1, NoFirmware False)"
    "first_power_on_flag d1 = 1" "tries d1 = 1" "fw_backup (fw d1) = Some sample_file" "fail_count d1 = 0" "\<not> carddump d1"
    using lazy_first by blast
  have ok: "cmd_ok (Start MARLIN_WIFI)" by (simp add: MARLIN_WIFI_def WCN_AUTO_def MARLIN_GNSS_def)
  have c: "g_cmds ?g < 2 ^ 30" "g_cmds (ghost_step (Start MARLIN_WIFI, NoFirmware False) ?g) < 2 ^ 30" by (simp_all add: ghost_step_def)
  have inv: "power_inv (ghost_step (Start MARLIN_WIFI, NoFirmware False) ?g) d1"
    by (rule step_inv [OF probe_live(2) c(1) ok s(1)])
  have "image_inv 0x23550000 sample_image sample_file d1"
    by (rule step_image [OF lazy_good sample_good(2) _ probe_live(2) c(1) ok s(1)]) (use probe_live(1) in \<open>simp add: live_inv_def\<close>)
  then have live: "live_inv 0x23550000 sample_image sample_file d1" using s by (simp add: live_inv_def)
  have kind: "kind (lazy_world (tries d1))" using s(3) sample_good(3) by (simp add: lazy_world_def)
  obtain d where d: "power_step lazy_world 0xf0c00 (Start MARLIN_WIFI) d1 = Some (d, Opened)"
    using start_live [OF lazy_good sample_good(2) kind live inv c(2) ok] by blast
  have run: "power_run lazy_world 0xf0c00 [Start MARLIN_WIFI, Start MARLIN_WIFI] (marlin_probe True) =
      Some (d, [(Start MARLIN_WIFI, NoFirmware False), (Start MARLIN_WIFI, Opened)])"
    using s(1) d by (simp del: power_step.simps)
  show ?thesis using missed_calibration [OF run] run by simp
qed

lemma second_start_without_copy_witness:
  "power_run (\<lambda>k. sample_attempt\<lparr>at_card := 0 < k\<rparr>) 0xf0c00 [Start 2, Start 0] (marlin_probe True) = None"
  by (rule second_start_without_copy) (simp_all add: sample_attempt_def WCN_AUTO_def)

text \<open>Nothing that starts the GNSS part looks at how the second switching on ended.\<close>

lemma gnss_first_start_claims_success:
  assumes "first_power_on_flag d = 0" "marlin_set_power w maxsz MARLIN_GNSS True d = Some (d', ret)"
    and "power_up w maxsz MARLIN_GNSS (d\<lparr>first_power_on_flag := 1\<rparr>) = Some (d1, True)"
  shows "ret = 0"
  using assms by (auto simp: marlin_set_power_def Let_def bind_eq_Some_conv)

end
