(* ===== verification/Sleep.thy ===== *)
theory Sleep
  imports Prelude
begin

text \<open>
  The sleep manager, BSP/sleep/slp_mgr.c with slp_sdio.c and the parts of sdio_int.c that
  change its state, for the build that tests the chip at run time
  (CONFIG_CHECK_DRIVER_BY_CHIPID). The functions are cut where another thread can act between
  two accesses. The reads of the status register and of the clock are parameters.
\<close>

section \<open>State\<close>

datatype slp_subsys = PACKER_TX | PACKER_RX | PACKER_DT_TX | PACKER_DT_RX | DT_WRITEL | DT_READL | DT_WRITE
  | DT_READ | WIFI | DOWNLOAD | DBG_TOOL | SUBSYS_MAX

fun subsys_num :: "slp_subsys \<Rightarrow> nat" where
  "subsys_num PACKER_TX = 0"
| "subsys_num PACKER_RX = 1"
| "subsys_num PACKER_DT_TX = 2"
| "subsys_num PACKER_DT_RX = 3"
| "subsys_num DT_WRITEL = 4"
| "subsys_num DT_READL = 5"
| "subsys_num DT_WRITE = 6"
| "subsys_num DT_READ = 7"
| "subsys_num WIFI = 8"
| "subsys_num DOWNLOAD = 9"
| "subsys_num DBG_TOOL = 10"
| "subsys_num SUBSYS_MAX = 11"

datatype cp2_state_t = STAY_SLPING | STAY_AWAKING

text \<open>
  The structure \<open>slp_mgr\<close>; \<open>wakeup_ack\<close> is the count of the completion. \<open>may_sleep\<close> is the register
  \<open>REG_CP_SLP_CTL\<close> of the chip as the host last wrote it.
\<close>

record slp_mgr_t =
  active_module :: u32
  cp2_state :: cp2_state_t
  wakeup_ack :: nat
  may_sleep :: bool

definition BIT :: "nat \<Rightarrow> u32" where
  "BIT n = push_bit n 1"

definition slp_allow_sleep :: "slp_mgr_t \<Rightarrow> slp_mgr_t" where
  "slp_allow_sleep s = s\<lparr>may_sleep := True\<rparr>"

definition ap_wakeup_cp :: "slp_mgr_t \<Rightarrow> slp_mgr_t" where
  "ap_wakeup_cp s = s\<lparr>may_sleep := False\<rparr>"

definition slp_mgr_init :: "slp_mgr_t \<Rightarrow> slp_mgr_t" where
  "slp_mgr_init s = s\<lparr>cp2_state := STAY_AWAKING, wakeup_ack := 0\<rparr>"

definition slp_mgr_deinit :: "slp_mgr_t \<Rightarrow> slp_mgr_t" where
  "slp_mgr_deinit s = s\<lparr>cp2_state := STAY_SLPING, active_module := 0\<rparr>"

definition slp_mgr_reset :: "slp_mgr_t \<Rightarrow> slp_mgr_t" where
  "slp_mgr_reset s = s\<lparr>cp2_state := STAY_AWAKING, wakeup_ack := 0\<rparr>"

section \<open>Requests of a module\<close>

text \<open>
  \<open>slp_mgr_drv_sleep\<close> in two pieces, as another thread can run \<open>slp_mgr_wakeup\<close> between them: up to
  \<open>slp_allow_sleep\<close>, with whether it was called, and the write of the state.
\<close>

definition drv_sleep_request :: "bool \<Rightarrow> slp_subsys \<Rightarrow> bool \<Rightarrow> slp_mgr_t \<Rightarrow> slp_mgr_t \<times> bool" where
  "drv_sleep_request wake_host_en subsys enable s =
     (let s = (if enable then s\<lparr>active_module := active_module s AND NOT (BIT (subsys_num subsys))\<rparr>
               else s\<lparr>active_module := active_module s OR BIT (subsys_num subsys)\<rparr>) in
      if active_module s = 0 \<and> (wake_host_en \<or> subsys_num PACKER_DT_RX < subsys_num subsys)
      then (slp_allow_sleep s, True) else (s, False))"

definition set_sleeping :: "slp_mgr_t \<Rightarrow> slp_mgr_t" where
  "set_sleeping s = s\<lparr>cp2_state := STAY_SLPING\<rparr>"

definition slp_mgr_drv_sleep :: "bool \<Rightarrow> slp_subsys \<Rightarrow> bool \<Rightarrow> slp_mgr_t \<Rightarrow> slp_mgr_t" where
  "slp_mgr_drv_sleep wake_host_en subsys enable s =
     (let (s, allowed) = drv_sleep_request wake_host_en subsys enable s in if allowed then set_sleeping s else s)"

section \<open>Waking the chip\<close>

datatype chip_model = WCN_CHIP_INVALID | WCN_CHIP_MARLIN3 | WCN_CHIP_MARLIN3L | WCN_CHIP_MARLIN3E

definition BTWF_IN_DEEPSLEEP :: u8 where "BTWF_IN_DEEPSLEEP = 0"
definition BTWF_XLT_WAIT :: u8 where "BTWF_XLT_WAIT = 0x1"
definition BTWF_XLTBUF_WAIT :: u8 where "BTWF_XLTBUF_WAIT = 0x2"
definition BTWF_PLL_PWR_WAIT :: u8 where "BTWF_PLL_PWR_WAIT = 0x4"
definition BTWF_XLT_WAIT_M3L :: u8 where "BTWF_XLT_WAIT_M3L = 0x10"

text \<open>A constant that depends on the chip; the status is one byte, of which the default leaves all bits.\<close>

definition reg_value :: "chip_model \<Rightarrow> u8 \<Rightarrow> u8 \<Rightarrow> u8 \<Rightarrow> u8" where
  "reg_value m marlin3reg marlin3lreg marlin3ereg =
     (if m = WCN_CHIP_MARLIN3 then marlin3reg
      else if m = WCN_CHIP_MARLIN3L then marlin3lreg
      else if m = WCN_CHIP_MARLIN3E then marlin3ereg
      else 0xFF)"

definition BTWF_IN_DEEPSLEEP_XLT_ON :: "chip_model \<Rightarrow> u8" where
  "BTWF_IN_DEEPSLEEP_XLT_ON m = reg_value m 0x30 0x30 0x3"

definition SLEEP_STATUS_FLAG :: "chip_model \<Rightarrow> u8" where
  "SLEEP_STATUS_FLAG m = reg_value m 0xF0 0xF0 0x0F"

text \<open>One read of the status: an error of the bus, or the status, and for the newest chip the register \<open>CP_WAKE_STATUS\<close>.\<close>

datatype sts_read = Read_error | Sts u8 u32

definition chip_awake :: "chip_model \<Rightarrow> sts_read \<Rightarrow> bool" where
  "chip_awake m r = (case r of Read_error \<Rightarrow> False
     | Sts sts wake \<Rightarrow>
        (let slp_sts = sts AND SLEEP_STATUS_FLAG m in
         slp_sts \<noteq> BTWF_IN_DEEPSLEEP \<and> slp_sts \<noteq> BTWF_IN_DEEPSLEEP_XLT_ON m \<and>
         ((m = WCN_CHIP_MARLIN3E \<or> m = WCN_CHIP_MARLIN3L) \<and>
            slp_sts \<noteq> BTWF_PLL_PWR_WAIT \<and> slp_sts \<noteq> BTWF_XLT_WAIT \<and> slp_sts \<noteq> BTWF_XLTBUF_WAIT \<or>
          m = WCN_CHIP_MARLIN3) \<and>
         (m = WCN_CHIP_MARLIN3E \<longrightarrow> wake AND BIT 31 = 0)))"

text \<open>One round of the loop: it ends with 0, ends with -1, or goes on with the new \<open>do_dump\<close>.\<close>

datatype round = Done int | Again bool

definition wakeup_round :: "chip_model \<Rightarrow> bool \<Rightarrow> sts_read \<Rightarrow> bool \<Rightarrow> round" where
  "wakeup_round m do_dump r time_after =
     (if chip_awake m r then Done 0
      else if do_dump then Done (- 1)
      else Again time_after)"

text \<open>
  The function on the results of the reads and of \<open>ktime_after\<close>; \<open>None\<close> when it is still waiting.
\<close>

fun wakeup_loop :: "chip_model \<Rightarrow> bool \<Rightarrow> (sts_read \<times> bool) list \<Rightarrow> int option" where
  "wakeup_loop m do_dump [] = None"
| "wakeup_loop m do_dump ((r, late) # rs) =
     (case wakeup_round m do_dump r late of Done ret \<Rightarrow> Some ret | Again d \<Rightarrow> wakeup_loop m d rs)"

definition set_awake :: "slp_mgr_t \<Rightarrow> slp_mgr_t" where
  "set_awake s = s\<lparr>cp2_state := STAY_AWAKING\<rparr>"

definition slp_mgr_wakeup :: "chip_model \<Rightarrow> (sts_read \<times> bool) list \<Rightarrow> slp_mgr_t \<Rightarrow> (slp_mgr_t \<times> int) option" where
  "slp_mgr_wakeup m rs s =
     (if cp2_state s = STAY_SLPING
      then do { ret \<leftarrow> wakeup_loop m False rs; Some (set_awake (ap_wakeup_cp s), ret) }
      else Some (s, 0))"

section \<open>Interrupts and suspend\<close>

text \<open>The chip asks whether it may sleep: up to \<open>slp_allow_sleep\<close>, with whether it was called.\<close>

definition req_slp_request :: "slp_mgr_t \<Rightarrow> slp_mgr_t \<times> bool" where
  "req_slp_request s = (if active_module s = 0 then (slp_allow_sleep s, True) else (s, False))"

definition req_slp_isr :: "slp_mgr_t \<Rightarrow> slp_mgr_t" where
  "req_slp_isr s = (let (s, allowed) = req_slp_request s in if allowed then set_sleeping s else s)"

definition wakeup_ack_isr :: "slp_mgr_t \<Rightarrow> slp_mgr_t" where
  "wakeup_ack_isr s = (if cp2_state s = STAY_SLPING then s\<lparr>wakeup_ack := wakeup_ack s + 1\<rparr> else s)"

text \<open>The part of \<open>sdio_wait_pub_int_done\<close> under the lock, again up to \<open>slp_allow_sleep\<close>.\<close>

definition suspend_request :: "nat \<Rightarrow> bool \<Rightarrow> slp_mgr_t \<Rightarrow> slp_mgr_t \<times> bool" where
  "suspend_request pub_int_num power_notify s =
     (if pub_int_num = 0 then (s, False)
      else if power_notify \<and> cp2_state s = STAY_AWAKING then (slp_allow_sleep s, True) else (s, False))"

definition sdio_wait_pub_int_done :: "nat \<Rightarrow> bool \<Rightarrow> slp_mgr_t \<Rightarrow> slp_mgr_t" where
  "sdio_wait_pub_int_done pub_int_num power_notify s =
     (let (s, allowed) = suspend_request pub_int_num power_notify s in if allowed then set_sleeping s else s)"

section \<open>Interrupt dispatch\<close>

text \<open>\<open>slp_pub_int_RegCb\<close> enters a handler for each bit of the status; \<open>pub_int_handle_thread\<close> calls them in order.\<close>

datatype pub_int_cb = Cb_none | Cb_wakeup_ack | Cb_req_slp | Cb_other

definition PUB_INT_MAX :: nat where "PUB_INT_MAX = 8"
definition WAKEUP_ACK :: nat where "WAKEUP_ACK = 1"
definition REQ_SLP :: nat where "REQ_SLP = 2"

definition sdio_pub_int_RegCb :: "nat \<Rightarrow> nat \<Rightarrow> pub_int_cb \<Rightarrow> pub_int_cb list \<Rightarrow> (pub_int_cb list \<times> int) option" where
  "sdio_pub_int_RegCb pub_int_num bit_num isr cbs =
     (if pub_int_num = 0 then Some (cbs, 0)
      else if isr = Cb_none then Some (cbs, - 1)
      else do { cbs \<leftarrow> aset cbs bit_num isr; Some (cbs, 0) })"

definition slp_pub_int_RegCb :: "nat \<Rightarrow> pub_int_cb list \<Rightarrow> (pub_int_cb list \<times> int) option" where
  "slp_pub_int_RegCb pub_int_num cbs = do {
     (cbs, _) \<leftarrow> sdio_pub_int_RegCb pub_int_num WAKEUP_ACK Cb_wakeup_ack cbs;
     (cbs, _) \<leftarrow> sdio_pub_int_RegCb pub_int_num REQ_SLP Cb_req_slp cbs;
     Some (cbs, 0) }"

text \<open>\<open>other\<close> stands for the handlers that other files register.\<close>

definition run_cb :: "(slp_mgr_t \<Rightarrow> slp_mgr_t) \<Rightarrow> pub_int_cb \<Rightarrow> slp_mgr_t \<Rightarrow> slp_mgr_t" where
  "run_cb other cb s = (case cb of Cb_none \<Rightarrow> s | Cb_wakeup_ack \<Rightarrow> wakeup_ack_isr s | Cb_req_slp \<Rightarrow> req_slp_isr s | Cb_other \<Rightarrow> other s)"

definition pub_int_dispatch :: "(slp_mgr_t \<Rightarrow> slp_mgr_t) \<Rightarrow> pub_int_cb list \<Rightarrow> u8 option \<Rightarrow> slp_mgr_t \<Rightarrow> slp_mgr_t option" where
  "pub_int_dispatch other cbs sts s =
     (case sts of None \<Rightarrow> Some s
      | Some reg \<Rightarrow>
         (if length cbs < PUB_INT_MAX then None
          else Some (fold (\<lambda>n s. if bit reg n then run_cb other (cbs ! n) s else s) [0..<PUB_INT_MAX] s)))"

end
