(* ===== verification/Sleep_Correct.thy ===== *)
theory Sleep_Correct
  imports Sleep
begin

text \<open>
  The calls of the sleep manager in any interleaving: what a claim of the chip guarantees to
  the module that makes it, and what a wake up without a claim, a failure and a suspend do to
  the state. Waking up returns.
\<close>

section \<open>Bits of the modules\<close>

lemma subsys_num_inject: "subsys_num t = subsys_num u \<longleftrightarrow> t = u"
  by (cases t; cases u) simp_all

lemma subsys_num_bound: "subsys_num t < 12"
  by (cases t) simp_all

lemma bit_BIT: "n < 32 \<Longrightarrow> bit (BIT n) m \<longleftrightarrow> m = n"
  unfolding BIT_def bit_push_bit_iff bit_1_iff by (auto simp: possible_bit_def)

lemma bit_module [simp]:
  "bit (a OR BIT (subsys_num t)) (subsys_num u) \<longleftrightarrow> bit a (subsys_num u) \<or> u = t"
  "bit (a AND NOT (BIT (subsys_num t))) (subsys_num u) \<longleftrightarrow> bit a (subsys_num u) \<and> u \<noteq> t"
  using subsys_num_bound [of t] subsys_num_bound [of u]
  by (auto simp: bit_or_iff bit_and_iff bit_not_iff bit_BIT subsys_num_inject possible_bit_def)

lemma module_nonzero: "bit a (subsys_num t) \<Longrightarrow> a \<noteq> (0 :: u32)"
  by auto

lemma claim_request:
  "drv_sleep_request we t False s = (s\<lparr>active_module := active_module s OR BIT (subsys_num t)\<rparr>, False)"
proof -
  have "active_module s OR BIT (subsys_num t) \<noteq> 0" by (rule module_nonzero [of _ t]) simp
  then show ?thesis by (simp add: drv_sleep_request_def Let_def)
qed

section \<open>Calls and interrupts\<close>

text \<open>
  What can happen to the sleep manager between power-on and power-off, in any order and from
  any thread. With the macros of sdiohal.h that switch the sleep of the bus layer off, the calls are those
  of the debug tool (\<open>mdbg_proc_write\<close>: claim, wake up and release each on its own), of suspend (release as
  \<open>SUBSYS_MAX\<close>, then \<open>sdio_wait_pub_int_done\<close>) and of resume (wake up without a claim). \<open>drv_busy\<close> holds
  while \<open>drv_slp_lock\<close> is held between \<open>slp_allow_sleep\<close> and the write of the state, \<open>polling\<close> is
  the \<open>do_dump\<close> of the thread that waits for the chip under \<open>wakeup_lock\<close>.
\<close>

datatype slp_event =
    Request slp_subsys bool
  | Ask_sleep
  | Suspend
  | Write_sleeping
  | Wake
  | Poll
  | Woken int
  | Ack

record sleep_sys =
  mgr :: slp_mgr_t
  drv_busy :: bool
  polling :: "bool option"

inductive slp_step :: "bool \<Rightarrow> chip_model \<Rightarrow> sleep_sys \<Rightarrow> slp_event \<Rightarrow> sleep_sys \<Rightarrow> bool" for we m where
  request: "\<not> drv_busy y \<Longrightarrow> drv_sleep_request we t enable (mgr y) = (s, allowed) \<Longrightarrow>
    slp_step we m y (Request t enable) (y\<lparr>mgr := s, drv_busy := allowed\<rparr>)"
| ask: "\<not> drv_busy y \<Longrightarrow> req_slp_request (mgr y) = (s, allowed) \<Longrightarrow>
    slp_step we m y Ask_sleep (y\<lparr>mgr := s, drv_busy := allowed\<rparr>)"
| suspend: "\<not> drv_busy y \<Longrightarrow> suspend_request n power_notify (mgr y) = (s, allowed) \<Longrightarrow>
    slp_step we m y Suspend (y\<lparr>mgr := s, drv_busy := allowed\<rparr>)"
| sleeping: "drv_busy y \<Longrightarrow> slp_step we m y Write_sleeping (y\<lparr>mgr := set_sleeping (mgr y), drv_busy := False\<rparr>)"
| wake_quick: "polling y = None \<Longrightarrow> cp2_state (mgr y) = STAY_AWAKING \<Longrightarrow> slp_step we m y (Woken 0) y"
| wake_start: "polling y = None \<Longrightarrow> cp2_state (mgr y) = STAY_SLPING \<Longrightarrow>
    slp_step we m y Wake (y\<lparr>mgr := ap_wakeup_cp (mgr y), polling := Some False\<rparr>)"
| wake_again: "polling y = Some d \<Longrightarrow> wakeup_round m d r late = Again d' \<Longrightarrow>
    slp_step we m y Poll (y\<lparr>polling := Some d'\<rparr>)"
| wake_done: "polling y = Some d \<Longrightarrow> wakeup_round m d r late = Done ret \<Longrightarrow>
    slp_step we m y (Woken ret) (y\<lparr>mgr := set_awake (mgr y), polling := None\<rparr>)"
| ack: "slp_step we m y Ack (y\<lparr>mgr := wakeup_ack_isr (mgr y)\<rparr>)"

inductive_cases slp_claimE: "slp_step we m y (Request t False) y'"

inductive slp_run :: "bool \<Rightarrow> chip_model \<Rightarrow> sleep_sys \<Rightarrow> slp_event list \<Rightarrow> sleep_sys \<Rightarrow> bool" for we m where
  stop: "slp_run we m y [] y"
| go: "slp_step we m y e y' \<Longrightarrow> slp_run we m y' es y'' \<Longrightarrow> slp_run we m y (e # es) y''"

text \<open>
  The module \<open>t\<close> claims the chip, nobody is about to let it sleep, and a chip that counts as awake or is being
  woken has not been allowed to sleep.
\<close>

definition held_awake :: "slp_subsys \<Rightarrow> sleep_sys \<Rightarrow> bool" where
  "held_awake t y \<longleftrightarrow> bit (active_module (mgr y)) (subsys_num t) \<and> \<not> drv_busy y \<and>
     (cp2_state (mgr y) = STAY_AWAKING \<or> polling y \<noteq> None \<longrightarrow> \<not> may_sleep (mgr y))"

text \<open>What would end the claim: its release, and suspend, which does not look at the claims.\<close>

fun ends_claim :: "slp_subsys \<Rightarrow> slp_event \<Rightarrow> bool" where
  "ends_claim t (Request u enable) \<longleftrightarrow> u = t \<and> enable"
| "ends_claim t Suspend \<longleftrightarrow> True"
| "ends_claim t e \<longleftrightarrow> False"

lemma other_request:
  assumes "bit (active_module s) (subsys_num t)" and "\<not> (u = t \<and> enable)" and "drv_sleep_request we u enable s = (s', allowed)"
  shows "\<not> allowed \<and> bit (active_module s') (subsys_num t) \<and> cp2_state s' = cp2_state s \<and> may_sleep s' = may_sleep s"
proof (cases enable)
  case True
  then have b: "bit (active_module s AND NOT (BIT (subsys_num u))) (subsys_num t)" using assms(1,2) by auto
  with module_nonzero [OF b] True assms(3) show ?thesis by (auto simp: drv_sleep_request_def Let_def)
next
  case False
  with assms(1,3) show ?thesis by (auto simp: claim_request)
qed

lemma held_awake_step:
  "slp_step we m y e y' \<Longrightarrow> held_awake t y \<Longrightarrow> \<not> ends_claim t e \<Longrightarrow>
     held_awake t y' \<and> (cp2_state (mgr y) = STAY_AWAKING \<or> (\<exists>ret. e = Woken ret) \<longrightarrow> cp2_state (mgr y') = STAY_AWAKING)"
proof (induction rule: slp_step.induct)
  case (request y u enable s allowed)
  then show ?case using other_request [of "mgr y" t u enable we s allowed] by (auto simp: held_awake_def)
next
  case (ask y s allowed)
  then have "active_module (mgr y) \<noteq> 0" using module_nonzero by (auto simp: held_awake_def)
  with ask show ?case by (auto simp: held_awake_def req_slp_request_def)
qed (auto simp: held_awake_def ap_wakeup_cp_def set_awake_def wakeup_ack_isr_def)

lemma held_awake_run:
  "slp_run we m y es y' \<Longrightarrow> held_awake t y \<Longrightarrow> \<forall>e \<in> set es. \<not> ends_claim t e \<Longrightarrow>
     held_awake t y' \<and> (cp2_state (mgr y) = STAY_AWAKING \<or> (\<exists>ret. Woken ret \<in> set es) \<longrightarrow> cp2_state (mgr y') = STAY_AWAKING)"
proof (induction rule: slp_run.induct)
  case (go y e y' es y'')
  then have e: "held_awake t y'" "cp2_state (mgr y) = STAY_AWAKING \<or> (\<exists>ret. e = Woken ret) \<longrightarrow> cp2_state (mgr y') = STAY_AWAKING"
    using held_awake_step [OF go.hyps(1)] by auto
  with go.IH go.prems(2) show ?case by auto
qed simp

section \<open>Waking up\<close>

lemma wakeup_loop_late: "wakeup_loop m True (x # rs) \<noteq> None"
  by (cases x) (simp add: wakeup_round_def)

lemma wakeup_loop_ends:
  "i + 1 < length rs \<Longrightarrow> snd (rs ! i) \<Longrightarrow> wakeup_loop m d rs \<noteq> None"
proof (induction i arbitrary: rs d)
  case 0
  then obtain r x rs' where "rs = (r, True) # x # rs'" by (cases rs; cases "tl rs") auto
  then show ?case using wakeup_loop_late [of m x rs'] by (auto simp: wakeup_round_def)
next
  case (Suc i)
  then obtain r late rs' where rs: "rs = (r, late) # rs'" by (cases rs) auto
  then have "wakeup_loop m d' rs' \<noteq> None" for d' using Suc.IH [of rs' d'] Suc.prems by simp
  then show ?case using rs by (auto simp: wakeup_round_def)
qed

section \<open>The properties\<close>

text \<open>
  C11. A module that claims the chip while nobody is about to let it sleep, and while a chip that counts as
  awake or is being woken has not been allowed to sleep, keeps it awake: whatever claims, releases of
  others, wake ups and interrupts follow in whatever order, until it releases its claim or the system
  suspends, the claim stands, and from the first wake up that has returned on the state is awake and
  the host has not allowed the chip to sleep.
\<close>

theorem claimed_chip_stays_awake:
  assumes "slp_step we m y (Request t False) y1" and "cp2_state (mgr y) = STAY_AWAKING \<or> polling y \<noteq> None \<longrightarrow> \<not> may_sleep (mgr y)"
    and "slp_run we m y1 es y2" and "\<forall>e \<in> set es. \<not> ends_claim t e"
  shows "bit (active_module (mgr y2)) (subsys_num t) \<and>
    ((\<exists>ret. Woken ret \<in> set es) \<or> cp2_state (mgr y) = STAY_AWAKING \<longrightarrow> cp2_state (mgr y2) = STAY_AWAKING \<and> \<not> may_sleep (mgr y2))"
proof -
  have y1: "held_awake t y1" "cp2_state (mgr y1) = cp2_state (mgr y)"
    using assms(1) assms(2) by (auto elim!: slp_claimE simp: claim_request held_awake_def)
  then show ?thesis using held_awake_run [OF assms(3) y1(1) assms(4)] by (auto simp: held_awake_def)
qed

definition slp_start :: slp_mgr_t where
  "slp_start = \<lparr>active_module = 0, cp2_state = STAY_SLPING, wakeup_ack = 0, may_sleep = False\<rparr>"

definition asleep :: sleep_sys where
  "asleep = \<lparr>mgr = slp_allow_sleep slp_start, drv_busy = False, polling = None\<rparr>"

text \<open>The debug tool claims the sleeping chip and wakes it; the request of the chip to sleep is refused.\<close>

theorem claimed_chip_stays_awake_witness:
  "\<exists>y2. slp_run True WCN_CHIP_MARLIN3 asleep [Request DBG_TOOL False, Wake, Ask_sleep, Woken 0, Request WIFI True] y2 \<and>
     cp2_state (mgr y2) = STAY_AWAKING \<and> \<not> may_sleep (mgr y2)"
proof -
  let ?step = "slp_step True WCN_CHIP_MARLIN3"
  define y1 where "y1 = asleep\<lparr>mgr := (mgr asleep)\<lparr>active_module := active_module (mgr asleep) OR BIT (subsys_num DBG_TOOL)\<rparr>, drv_busy := False\<rparr>"
  define y2 where "y2 = y1\<lparr>mgr := ap_wakeup_cp (mgr y1), polling := Some False\<rparr>"
  define y3 where "y3 = y2\<lparr>mgr := mgr y2, drv_busy := False\<rparr>"
  define y4 where "y4 = y3\<lparr>mgr := set_awake (mgr y3), polling := None\<rparr>"
  have a: "?step asleep (Request DBG_TOOL False) y1"
    unfolding y1_def by (rule slp_step.request) (simp_all add: asleep_def claim_request)
  have b: "?step y1 Wake y2"
    unfolding y2_def by (rule slp_step.wake_start) (simp_all add: y1_def asleep_def slp_start_def slp_allow_sleep_def)
  have c: "?step y2 Ask_sleep y3"
    unfolding y3_def by (rule slp_step.ask)
      (simp_all add: req_slp_request_def y2_def y1_def asleep_def slp_start_def slp_allow_sleep_def ap_wakeup_cp_def BIT_def)
  have d: "?step y3 (Woken 0) y4"
    unfolding y4_def by (rule slp_step.wake_done [of _ False _ "Sts 0xF0 0" False])
      (simp_all add: y3_def y2_def wakeup_round_def chip_awake_def SLEEP_STATUS_FLAG_def reg_value_def
        BTWF_IN_DEEPSLEEP_def BTWF_IN_DEEPSLEEP_XLT_ON_def)
  obtain s al where "drv_sleep_request True WIFI True (mgr y4) = (s, al)" by fastforce
  then have e: "?step y4 (Request WIFI True) (y4\<lparr>mgr := s, drv_busy := al\<rparr>)"
    by (intro slp_step.request) (simp_all add: y4_def y3_def)
  note run = slp_run.go [OF b slp_run.go [OF c slp_run.go [OF d slp_run.go [OF e slp_run.stop]]]]
  have "\<not> (cp2_state (mgr asleep) = STAY_AWAKING \<or> polling asleep \<noteq> None)" by (simp add: asleep_def slp_start_def slp_allow_sleep_def)
  with claimed_chip_stays_awake [OF a _ run] slp_run.go [OF a run] show ?thesis by auto
qed

text \<open>
  C37. \<open>slp_mgr_wakeup\<close> does not wait for ever: once the clock has passed the end of the waiting time it
  reads the status one more time and returns.
\<close>

theorem wakeup_returns:
  assumes "i + 1 < length rs" and "snd (rs ! i)"
  shows "\<exists>s' ret. slp_mgr_wakeup m rs s = Some (s', ret) \<and> (ret = 0 \<or> ret = - 1) \<and> cp2_state s' = STAY_AWAKING"
proof (cases "cp2_state s")
  case STAY_SLPING
  obtain ret where r: "wakeup_loop m False rs = Some ret" using wakeup_loop_ends [OF assms, of m False] by blast
  have "wakeup_loop m d rs = Some ret \<Longrightarrow> ret = 0 \<or> ret = - 1" for d rs
    by (induction m d rs rule: wakeup_loop.induct) (auto simp: wakeup_round_def split: if_splits)
  then show ?thesis using r STAY_SLPING by (auto simp: slp_mgr_wakeup_def set_awake_def)
qed (simp add: slp_mgr_wakeup_def)

theorem wakeup_returns_witness:
  "\<exists>s' ret. slp_mgr_wakeup WCN_CHIP_MARLIN3 [(Sts 0 0, True), (Sts 0xF0 0, True)] slp_start = Some (s', ret) \<and> (ret = 0 \<or> ret = - 1)"
  using wakeup_returns [of 0 "[(Sts 0 0, True), (Sts 0xF0 0, True)]" WCN_CHIP_MARLIN3 slp_start] by auto

text \<open>
  A wake up that fails is reported once: it leaves the state at awake, so the next call returns
  success without looking at the chip, which still sleeps.
\<close>

theorem failed_wakeup_reported_once:
  assumes "cp2_state s = STAY_SLPING" and "wakeup_loop m False rs = Some (- 1)"
  shows "\<exists>s'. slp_mgr_wakeup m rs s = Some (s', - 1) \<and> slp_mgr_wakeup m rs' s' = Some (s', 0)"
  using assms by (simp add: slp_mgr_wakeup_def set_awake_def ap_wakeup_cp_def)

theorem failed_wakeup_reported_once_witness:
  "\<exists>s'. slp_mgr_wakeup WCN_CHIP_MARLIN3 [(Read_error, True), (Read_error, True)] slp_start = Some (s', - 1) \<and>
     slp_mgr_wakeup WCN_CHIP_MARLIN3 [] s' = Some (s', 0)"
  by (rule failed_wakeup_reported_once) (simp_all add: slp_start_def wakeup_round_def chip_awake_def)

text \<open>
  A wake up by a module that has not claimed the chip, as the resume function does it, can cross the
  request of the chip to sleep: the state is then awake although the chip may sleep, and the next
  module to claim the chip does not wake it.
\<close>

lemma unclaimed_wakeup_race:
  assumes "active_module s = 0" and "cp2_state s = STAY_SLPING"
  shows "\<exists>y. slp_run we WCN_CHIP_MARLIN3 \<lparr>mgr = s, drv_busy = False, polling = None\<rparr>
      [Wake, Ask_sleep, Write_sleeping, Woken 0, Request t False, Woken 0] y \<and> may_sleep (mgr y)"
proof -
  let ?s1 = "ap_wakeup_cp s"
  let ?s2 = "slp_allow_sleep ?s1"
  let ?s3 = "set_awake (set_sleeping ?s2)"
  let ?s4 = "?s3\<lparr>active_module := active_module ?s3 OR BIT (subsys_num t)\<rparr>"
  let ?step = "slp_step we WCN_CHIP_MARLIN3" and ?y = "\<lambda>s b p. \<lparr>mgr = s, drv_busy = b, polling = p\<rparr>"
  have "?step (?y s False None) Wake (?y ?s1 False (Some False))"
    using slp_step.wake_start [of "?y s False None" we WCN_CHIP_MARLIN3] assms(2) by simp
  moreover have "?step (?y ?s1 False (Some False)) Ask_sleep (?y ?s2 True (Some False))"
    using slp_step.ask [of "?y ?s1 False (Some False)" ?s2 True we WCN_CHIP_MARLIN3] assms(1)
    by (simp add: req_slp_request_def ap_wakeup_cp_def)
  moreover have "?step (?y ?s2 True (Some False)) Write_sleeping (?y (set_sleeping ?s2) False (Some False))"
    using slp_step.sleeping [of "?y ?s2 True (Some False)" we WCN_CHIP_MARLIN3] by simp
  moreover have "?step (?y (set_sleeping ?s2) False (Some False)) (Woken 0) (?y ?s3 False None)"
    using slp_step.wake_done [of "?y (set_sleeping ?s2) False (Some False)" False WCN_CHIP_MARLIN3 "Sts 0xF0 0" False 0 we]
    by (simp add: wakeup_round_def chip_awake_def SLEEP_STATUS_FLAG_def reg_value_def BTWF_IN_DEEPSLEEP_def BTWF_IN_DEEPSLEEP_XLT_ON_def)
  moreover have "?step (?y ?s3 False None) (Request t False) (?y ?s4 False None)"
    using slp_step.request [of "?y ?s3 False None" we t False ?s4 False WCN_CHIP_MARLIN3] by (simp add: claim_request)
  moreover have "?step (?y ?s4 False None) (Woken 0) (?y ?s4 False None)"
    by (rule slp_step.wake_quick) (simp_all add: set_awake_def)
  moreover have "may_sleep ?s4" by (simp add: slp_allow_sleep_def set_sleeping_def set_awake_def)
  ultimately show ?thesis by (metis slp_run.go slp_run.stop sleep_sys.select_convs(1))
qed

text \<open>The suspend function lets the chip sleep without a look at the modules that use it.\<close>

lemma suspend_ignores_modules:
  "0 < n \<Longrightarrow> cp2_state s = STAY_AWAKING \<Longrightarrow>
     may_sleep (sdio_wait_pub_int_done n True s) \<and> cp2_state (sdio_wait_pub_int_done n True s) = STAY_SLPING \<and>
     active_module (sdio_wait_pub_int_done n True s) = active_module s"
  by (simp add: sdio_wait_pub_int_done_def suspend_request_def slp_allow_sleep_def set_sleeping_def)

text \<open>
  The waiting states of the chip are compared with values of the low nibble, which the mask of the
  MARLIN3L clears: such a chip is taken for awake while it waits for its oscillator.
\<close>

lemma m3l_waiting_taken_for_awake: "chip_awake WCN_CHIP_MARLIN3L (Sts BTWF_XLT_WAIT_M3L w)"
  by (simp add: chip_awake_def BTWF_XLT_WAIT_M3L_def SLEEP_STATUS_FLAG_def BTWF_IN_DEEPSLEEP_def BTWF_IN_DEEPSLEEP_XLT_ON_def
      reg_value_def BTWF_PLL_PWR_WAIT_def BTWF_XLT_WAIT_def BTWF_XLTBUF_WAIT_def)

section \<open>Interrupts\<close>

text \<open>The two handlers are entered, and an interrupt with both bits runs the acknowledgement before the request.\<close>

lemma dispatch_both:
  assumes "0 < n" and "length cbs = 8" and "slp_pub_int_RegCb n cbs = Some (cbs', r)"
    and "\<forall>i. i \<noteq> 1 \<longrightarrow> i \<noteq> 2 \<longrightarrow> \<not> bit reg i"
  shows "pub_int_dispatch other cbs' (Some reg) s =
    Some ((if bit reg 2 then req_slp_isr else id) ((if bit reg 1 then wakeup_ack_isr else id) s))"
proof -
  have c: "cbs' = cbs[1 := Cb_wakeup_ack, 2 := Cb_req_slp]"
    using assms(1-3) by (auto simp: slp_pub_int_RegCb_def sdio_pub_int_RegCb_def WAKEUP_ACK_def REQ_SLP_def)
  have u: "[0..<PUB_INT_MAX] = [0, 1, 2, 3, 4, 5, 6, 7]" by (simp add: PUB_INT_MAX_def upt_rec)
  show ?thesis
    using assms(2,4) unfolding pub_int_dispatch_def u by (simp add: c run_cb_def PUB_INT_MAX_def)
qed

end
