(* ===== verification/Ring.thy ===== *)
theory Ring
  imports Prelude
begin

text \<open>
  The ring buffer of the log device, BSP/platform/bufring.c. mdbg_ring_destroy frees the ring,
  mdbg_ring_print writes to the log. Each operation is one step, so what is shown is of operations
  one after the other. The code guarantees that only in part: mdbg_ring_read holds the lock of
  the ring, mdbg_ring_write takes none, and what a read and a write do at the same time is
  not modelled.
\<close>

section \<open>The ring\<close>

definition MDBG_RING_MIN_SIZE :: int where "MDBG_RING_MIN_SIZE = 1024 * 4"
definition MDBG_ERR_BAD_PARAM :: int where "MDBG_ERR_BAD_PARAM = 3"
definition EFAULT :: int where "EFAULT = 14"

datatype ring_dir = MDBG_RING_R | MDBG_RING_W

text \<open>
  A ring and a buffer are shorter than \<open>2 ^ 31\<close> bytes (the driver allocates 64 KiB), so that the
  conversions between \<open>long\<close>, \<open>int\<close> and \<open>unsigned int\<close> are exact. The pointers \<open>rp\<close>, \<open>wp\<close> and \<open>end\<close> are offsets into \<open>pbuff\<close>; comparing the pointers is comparing the
  offsets. A buffer argument is the list of its bytes and is never NULL.
\<close>

record mdbg_ring_t =
  ring_size :: int
  pbuff :: "u8 list"
  rp :: int
  wp :: int
  p_order_flag :: bool

definition mdbg_ring_end :: "mdbg_ring_t \<Rightarrow> int" where
  "mdbg_ring_end ring = ring_size ring - 1"

definition MDBG_RING_REMAIN :: "int \<Rightarrow> int \<Rightarrow> int \<Rightarrow> int" where
  "MDBG_RING_REMAIN r w sz = (if r \<le> w then sz - w + r else r - w)"

definition mdbg_ring_free_space :: "mdbg_ring_t \<Rightarrow> int" where
  "mdbg_ring_free_space ring = MDBG_RING_REMAIN (rp ring) (wp ring) (ring_size ring)"

definition mdbg_ring_readable_len :: "mdbg_ring_t \<Rightarrow> int" where
  "mdbg_ring_readable_len ring = ring_size ring - mdbg_ring_free_space ring"

definition mdbg_ring_will_full :: "mdbg_ring_t \<Rightarrow> int \<Rightarrow> bool" where
  "mdbg_ring_will_full ring len \<longleftrightarrow> mdbg_ring_free_space ring < len"

definition mdbg_ring_over_loop :: "mdbg_ring_t \<Rightarrow> int \<Rightarrow> ring_dir \<Rightarrow> bool \<times> mdbg_ring_t" where
  "mdbg_ring_over_loop ring len rw =
     (if rw = MDBG_RING_R then
        if mdbg_ring_end ring < rp ring + len then (True, ring\<lparr>p_order_flag := False\<rparr>) else (False, ring)
      else if mdbg_ring_end ring < wp ring + len then (True, ring\<lparr>p_order_flag := True\<rparr>)
      else (False, ring))"

definition mdbg_ring_clear :: "mdbg_ring_t \<Rightarrow> mdbg_ring_t" where
  "mdbg_ring_clear ring = ring\<lparr>rp := wp ring\<rparr>"

definition mdbg_ring_reset :: "mdbg_ring_t \<Rightarrow> mdbg_ring_t" where
  "mdbg_ring_reset ring = ring\<lparr>wp := 0, rp := 0\<rparr>"

section \<open>Allocation\<close>

text \<open>
  The three results of \<open>kmalloc\<close>: the structure, whose uninitialised contents are unknown, the
  buffer and the lock. The result has the ring, if there is one, and whether the pointers freed on
  the error path were valid: \<open>pbuff\<close> is assigned before it is tested, \<open>plock\<close> is not.
\<close>

definition mdbg_ring_alloc :: "bool \<Rightarrow> bool \<Rightarrow> bool \<Rightarrow> int \<Rightarrow> mdbg_ring_t option option" where
  "mdbg_ring_alloc ring_mem buff_mem lock_mem sz =
     (if sz < MDBG_RING_MIN_SIZE \<or> \<not> ring_mem then Some None
      else if \<not> buff_mem then None
      else if \<not> lock_mem then Some None
      else Some (Some \<lparr>ring_size = sz, pbuff = replicate (nat sz) 0, rp = 0, wp = 0, p_order_flag = False\<rparr>))"

section \<open>Reading and writing\<close>

text \<open>
  A buffer is in the kernel or in user memory. Copying from user memory gives the bytes that
  arrive and whether all could be read; copying to user memory can fail. For a kernel
  buffer the parameters are \<open>\<lambda>bs. (bs, True)\<close> and \<open>\<lambda>_. True\<close>.
\<close>

definition copy_in :: "(u8 list \<Rightarrow> u8 list \<times> bool) \<Rightarrow> u8 list \<Rightarrow> int \<Rightarrow> u8 list \<Rightarrow> (u8 list \<times> bool) option" where
  "copy_in from_buf dst off bs = do {
     d \<leftarrow> memcpy_at dst (nat off) (fst (from_buf bs)); Some (d, snd (from_buf bs)) }"

definition mdbg_ring_read ::
  "(u8 list \<Rightarrow> bool) \<Rightarrow> mdbg_ring_t \<Rightarrow> int \<Rightarrow> (int \<times> u8 list \<times> mdbg_ring_t) option" where
  "mdbg_ring_read to_buf ring len =
     (if len = 0 then Some (- MDBG_ERR_BAD_PARAM, [], ring)
      else
        let cont_len = mdbg_ring_readable_len ring;
            read_len = (if len \<le> cont_len then len else cont_len)
        in if read_len = 0 \<or> cont_len = 0 then Some (0, [], ring)
           else if read_len < 0 then None
           else case mdbg_ring_over_loop ring read_len MDBG_RING_R of
             (True, ring1) \<Rightarrow>
               (let len1 = mdbg_ring_end ring1 - rp ring1 + 1; len2 = read_len - len1 in do {
                  b1 \<leftarrow> read_bytes (pbuff ring1) (nat (rp ring1)) (nat len1);
                  b2 \<leftarrow> read_bytes (pbuff ring1) 0 (nat len2);
                  Some (if to_buf b1 \<and> to_buf b2 then (read_len, b1 @ b2, ring1\<lparr>rp := len2\<rparr>)
                        else (- EFAULT, [], ring1)) })
           | (False, ring1) \<Rightarrow> do {
                  b \<leftarrow> read_bytes (pbuff ring1) (nat (rp ring1)) (nat read_len);
                  Some (if to_buf b then (read_len, b, ring1\<lparr>rp := rp ring1 + read_len\<rparr>)
                        else (- EFAULT, [], ring1)) })"

text \<open>\<open>open_count\<close> is the number of readers that have the log device open.\<close>

definition mdbg_ring_write ::
  "(u8 list \<Rightarrow> u8 list \<times> bool) \<Rightarrow> int \<Rightarrow> mdbg_ring_t \<Rightarrow> u8 list \<Rightarrow> (int \<times> mdbg_ring_t) option" where
  "mdbg_ring_write from_buf open_count ring buf =
     (let len = int (length buf) in
      if len = 0 then Some (- MDBG_ERR_BAD_PARAM, ring)
      else if mdbg_ring_free_space ring - 1 < len \<and> open_count \<noteq> 0 then Some (len, ring)
      else case mdbg_ring_over_loop ring len MDBG_RING_W of
        (True, ring1) \<Rightarrow>
          (let len1 = mdbg_ring_end ring1 - wp ring1 + 1; len2 = (len - len1) mod ring_size ring1 in do {
             b1 \<leftarrow> read_bytes buf 0 (nat len1);
             b2 \<leftarrow> read_bytes buf (nat len1) (nat len2);
             (d1, ok1) \<leftarrow> copy_in from_buf (pbuff ring1) (wp ring1) b1;
             (d2, ok2) \<leftarrow> copy_in from_buf d1 0 b2;
             Some (if ok1 \<and> ok2 then (len, ring1\<lparr>pbuff := d2, wp := len2\<rparr>)
                   else (- EFAULT, ring1\<lparr>pbuff := d2\<rparr>)) })
      | (False, ring1) \<Rightarrow> do {
             (d, ok) \<leftarrow> copy_in from_buf (pbuff ring1) (wp ring1) buf;
             Some (if ok then (len, ring1\<lparr>pbuff := d, wp := wp ring1 + len\<rparr>)
                   else (- EFAULT, ring1\<lparr>pbuff := d\<rparr>)) })"

text \<open>
  While \<open>mdbg_ring_write_timeout\<close> sleeps a reader may take bytes: \<open>env\<close> gives the ring after each
  sleep of 20 ms, of which there are at most \<open>timeout div 20\<close>.
\<close>

fun wait_for_space :: "(mdbg_ring_t \<Rightarrow> mdbg_ring_t) list \<Rightarrow> int \<Rightarrow> mdbg_ring_t \<Rightarrow> mdbg_ring_t" where
  "wait_for_space [] len ring = ring"
| "wait_for_space (sleep # env) len ring =
     (if mdbg_ring_free_space ring - 1 < len then wait_for_space env len (sleep ring) else ring)"

definition mdbg_ring_write_timeout ::
  "(u8 list \<Rightarrow> u8 list \<times> bool) \<Rightarrow> int \<Rightarrow> (nat \<Rightarrow> mdbg_ring_t \<Rightarrow> mdbg_ring_t) \<Rightarrow> mdbg_ring_t \<Rightarrow> u8 list
   \<Rightarrow> nat \<Rightarrow> (int \<times> mdbg_ring_t) option" where
  "mdbg_ring_write_timeout from_buf open_count sleep ring buf timeout =
     (let cnt = timeout div 20 in
      mdbg_ring_write from_buf open_count (wait_for_space (map sleep [0..<cnt]) (int (length buf)) ring) buf)"

text \<open>The result is the offset of the reserved bytes, or NULL.\<close>

definition mdbg_ring_write_ext :: "mdbg_ring_t \<Rightarrow> int \<Rightarrow> int option \<times> mdbg_ring_t" where
  "mdbg_ring_write_ext ring len =
     (if len = 0 then (None, ring)
      else let (over, ring1) = mdbg_ring_over_loop ring len MDBG_RING_R in
        if over \<or> mdbg_ring_will_full ring1 len then (None, ring1)
        else (Some (wp ring1), ring1\<lparr>wp := wp ring1 + len\<rparr>))"

end
