(* ===== verification/Ring_Correct.thy ===== *)
theory Ring_Correct
  imports Ring Stage
begin

text \<open>
  The ring buffer implements a bounded queue of bytes: what is written is read in the same
  order, nothing is lost while the log device is open except what does not fit, and no access
  leaves the buffer. Positions are read cyclically; a write changes the cyclic range it covers
  and nothing else.
\<close>

section \<open>Cyclic reading\<close>

definition cyc :: "'a list \<Rightarrow> nat \<Rightarrow> nat \<Rightarrow> nat \<Rightarrow> 'a list" where
  "cyc buf S R n = map (\<lambda>i. buf ! ((R + i) mod S)) [0..<n]"

lemma length_cyc [simp]: "length (cyc buf S R n) = n"
  by (simp add: cyc_def)

lemma nth_cyc [simp]: "i < n \<Longrightarrow> cyc buf S R n ! i = buf ! ((R + i) mod S)"
  by (simp add: cyc_def)

lemma cyc_append: "cyc buf S R (n + m) = cyc buf S R n @ cyc buf S ((R + n) mod S) m"
proof (rule nth_equalityI)
  fix i
  assume "i < length (cyc buf S R (n + m))"
  then have i: "i < n + m" by simp
  have "((R + n) mod S + (i - n)) mod S = (R + i) mod S" if "n \<le> i"
    using that mod_add_left_eq [of "R + n" S "i - n"] by simp
  with i show "cyc buf S R (n + m) ! i = (cyc buf S R n @ cyc buf S ((R + n) mod S) m) ! i"
    by (cases "i < n") (auto simp: nth_append)
qed simp

lemma take_cyc: "n \<le> k \<Longrightarrow> take n (cyc buf S R k) = cyc buf S R n"
  by (rule nth_equalityI) auto

lemma drop_cyc: "n \<le> k \<Longrightarrow> drop n (cyc buf S R k) = cyc buf S ((R + n) mod S) (k - n)"
  by (rule nth_equalityI) (auto simp: mod_add_left_eq add.assoc)

lemma cyc_straight: "R + n \<le> S \<Longrightarrow> length buf = S \<Longrightarrow> cyc buf S R n = take n (drop R buf)"
  by (rule nth_equalityI) auto

lemma cyc_wrap:
  assumes "R < S" and "S \<le> R + n" and "n \<le> S" and "length buf = S"
  shows "cyc buf S R n = take (S - R) (drop R buf) @ take (R + n - S) buf"
proof -
  have "cyc buf S R n = cyc buf S R (S - R) @ cyc buf S 0 (R + n - S)"
    using cyc_append [of buf S R "S - R" "R + n - S"] assms by simp
  then show ?thesis using assms by (simp add: cyc_straight)
qed

text \<open>\<open>buf'\<close> is \<open>buf\<close> with \<open>bs\<close> written cyclically from \<open>W\<close> on.\<close>

definition written :: "'a list \<Rightarrow> nat \<Rightarrow> nat \<Rightarrow> 'a list \<Rightarrow> 'a list \<Rightarrow> bool" where
  "written buf S W bs buf' \<longleftrightarrow> length buf' = S \<and>
     (\<forall>i < length bs. buf' ! ((W + i) mod S) = bs ! i) \<and>
     (\<forall>i. length bs \<le> i \<and> i < S \<longrightarrow> buf' ! ((W + i) mod S) = buf ! ((W + i) mod S))"

lemma written_straight:
  assumes "W + length bs \<le> S" and "length buf = S" and "W < S"
  shows "written buf S W bs (take W buf @ bs @ drop (W + length bs) buf)"
proof -
  have "(take W buf @ bs @ drop (W + length bs) buf) ! ((W + i) mod S) = buf ! ((W + i) mod S)"
    if "length bs \<le> i" "i < S" for i
  proof (cases "W + i < S")
    case True
    then show ?thesis using assms that by (simp add: nth_append)
  next
    case False
    then have "(W + i) mod S = W + i - S" "W + i - S < W" using assms that by (simp_all add: mod_if)
    then show ?thesis using assms by (simp add: nth_append)
  qed
  then show ?thesis using assms by (simp add: written_def nth_append)
qed

lemma written_wrap:
  assumes "length buf = S" and "W < S" and "length b1 = S - W" and "length b2 \<le> W"
  shows "written buf S W (b1 @ b2) (b2 @ drop (length b2) (take W buf @ b1))"
proof -
  let ?d = "b2 @ drop (length b2) (take W buf @ b1)"
  have "?d ! ((W + i) mod S) = (b1 @ b2) ! i" if "i < length (b1 @ b2)" for i
  proof (cases "W + i < S")
    case True
    then have "i < length b1" "length b2 \<le> W + i" "\<not> W + i - length b2 < W - length b2"
      "W + i - length b2 - (W - length b2) = i" using assms by linarith+
    with True assms show ?thesis by (simp add: nth_append)
  next
    case False
    then have "(W + i) mod S = W + i - S" using assms that by (simp add: mod_if)
    moreover have "W + i - S < length b2" "\<not> i < length b1" "i - length b1 = W + i - S"
      using assms that False unfolding length_append by linarith+
    ultimately show ?thesis by (simp add: nth_append)
  qed
  moreover have "?d ! ((W + i) mod S) = buf ! ((W + i) mod S)" if "length (b1 @ b2) \<le> i" "i < S" for i
  proof -
    have "S \<le> W + i" "length b2 \<le> W + i - S" "W + i - S < W" "W + i - (S + length b2) < W - length b2" using assms that unfolding length_append by linarith+
    moreover from this have "(W + i) mod S = W + i - S" using assms that by (simp add: mod_if)
    ultimately show ?thesis using assms by (simp add: nth_append)
  qed
  ultimately show ?thesis using assms by (simp add: written_def)
qed

text \<open>What a reader sees after a write: the old bytes and the new ones, or their last bytes.\<close>

lemma cyc_written_new:
  assumes "written buf S W bs buf'" and "length bs \<le> S"
  shows "cyc buf' S W (length bs) = bs"
  using assms by (intro nth_equalityI) (auto simp: written_def)

lemma cyc_written_old:
  assumes "written buf S W bs buf'" and "(R + k) mod S = W" and "k + length bs \<le> S" and "0 < S"
  shows "cyc buf' S R k = cyc buf S R k"
proof (rule nth_equalityI)
  fix i
  assume "i < length (cyc buf' S R k)"
  then have i: "i < k" by simp
  define j where "j = S - k + i"
  have j: "length bs \<le> j" "j < S" using i assms(3) by (simp_all add: j_def)
  have "(W + j) mod S = (R + k + j) mod S" using assms(2) by (metis mod_add_left_eq)
  also have "R + k + j = R + i + S" using i assms(3) by (simp add: j_def)
  finally have "(W + j) mod S = (R + i) mod S" by simp
  with assms(1) j i show "cyc buf' S R k ! i = cyc buf S R k ! i" by (auto simp: written_def)
qed simp

lemma cyc_written:
  assumes "written buf S W bs buf'" and "(R + k) mod S = W" and "length bs \<le> S" and "k < S"
  shows "cyc buf' S R ((k + length bs) mod S) =
    (let s = cyc buf S R k @ bs in drop (length s - length s mod S) s)"
proof (cases "k + length bs < S")
  case True
  then have "cyc buf' S R (k + length bs) = cyc buf S R k @ bs"
    using cyc_append [of buf' S R k "length bs"] cyc_written_old [OF assms(1,2)]
      cyc_written_new [OF assms(1,3)] assms(2) by simp
  with True show ?thesis by (simp add: Let_def)
next
  case False
  define m where "m = k + length bs - S"
  have m: "(k + length bs) mod S = m" "m \<le> length bs" using False assms(3,4) by (simp_all add: m_def mod_if)
  have "(W + (length bs - m)) mod S = (R + k + (length bs - m)) mod S"
    using assms(2) by (metis mod_add_left_eq)
  also have "R + k + (length bs - m) = R + S" using False assms(3,4) by (simp add: m_def)
  finally have "(W + (length bs - m)) mod S = R mod S" by simp
  then have "cyc buf' S R m = cyc buf' S ((W + (length bs - m)) mod S) m"
    by (simp add: cyc_def mod_add_left_eq)
  also have "\<dots> = drop (length bs - m) (cyc buf' S W (length bs))"
    using drop_cyc [of "length bs - m" "length bs" buf' S W] m(2) by simp
  also have "\<dots> = drop (length bs - m) bs" using cyc_written_new [OF assms(1,3)] by simp
  also have "\<dots> = drop (k + length bs - m) (cyc buf S R k @ bs)"
    using False assms(4) by (simp add: m_def)
  finally show ?thesis by (simp add: Let_def m(1))
qed


section \<open>The ring as a queue of bytes\<close>

definition ring_ok :: "mdbg_ring_t \<Rightarrow> bool" where
  "ring_ok r \<longleftrightarrow> 0 < ring_size r \<and> ring_size r < 2 ^ 31 \<and> int (length (pbuff r)) = ring_size r \<and>
     0 \<le> rp r \<and> rp r < ring_size r \<and> 0 \<le> wp r \<and> wp r < ring_size r"

text \<open>The bytes a reader has not taken yet.\<close>

definition content :: "mdbg_ring_t \<Rightarrow> u8 list" where
  "content r = cyc (pbuff r) (length (pbuff r)) (nat (rp r)) (nat (mdbg_ring_readable_len r))"

lemma ring_ok_parts:
  assumes "ring_ok r"
  obtains S R W where "ring_size r = int S" "rp r = int R" "wp r = int W" "length (pbuff r) = S"
    "R < S" "W < S" "0 < S"
proof -
  from assms show thesis
    by (intro that [of "length (pbuff r)" "nat (rp r)" "nat (wp r)"]) (auto simp: ring_ok_def)
qed

lemma readable_nat:
  assumes "ring_size r = int S" "rp r = int R" "wp r = int W" "R < S" "W < S"
  shows "mdbg_ring_readable_len r = int ((W + S - R) mod S)"
    and "(R + (W + S - R) mod S) mod S = W"
proof -
  show "mdbg_ring_readable_len r = int ((W + S - R) mod S)"
    using assms
    by (auto simp: mdbg_ring_readable_len_def mdbg_ring_free_space_def MDBG_RING_REMAIN_def mod_if)
  show "(R + (W + S - R) mod S) mod S = W"
    using assms by (simp add: mod_add_right_eq)
qed

lemma content_length: "ring_ok r \<Longrightarrow> int (length (content r)) = mdbg_ring_readable_len r"
  by (erule ring_ok_parts) (simp add: content_def readable_nat)

lemma content_short: "ring_ok r \<Longrightarrow> int (length (content r)) < ring_size r"
  by (erule ring_ok_parts) (simp add: content_def readable_nat)

lemma free_space: "ring_ok r \<Longrightarrow> mdbg_ring_free_space r = ring_size r - int (length (content r))"
  by (simp add: content_length mdbg_ring_readable_len_def)

lemma copy_in_Some:
  assumes "nat off + length (fst (f bs)) \<le> length dst"
  shows "copy_in f dst off bs =
    Some (take (nat off) dst @ fst (f bs) @ drop (nat off + length (fst (f bs))) dst, snd (f bs))"
  using assms by (simp add: copy_in_def memcpy_at_def)

definition copies :: "(u8 list \<Rightarrow> u8 list \<times> bool) \<Rightarrow> bool" where
  "copies f \<longleftrightarrow> (\<forall>bs. length (fst (f bs)) = length bs \<and> (snd (f bs) \<longrightarrow> fst (f bs) = bs))"

lemma mod_wrap: "S \<le> x \<Longrightarrow> x < 2 * S \<Longrightarrow> x mod S = x - (S :: nat)"
  by (simp add: mod_if [of x])

lemma cyclic_distance:
  assumes "n \<le> k" and "k < S" and "R < S" and "(R + k) mod S = W"
  shows "(W + S - (R + n) mod S) mod S = k - (n :: nat)"
proof -
  have d: "(if R + k < S then R + k else R + k - S) = W" using assms mod_wrap [of S "R + k"] by (cases "R + k < S") auto
  have e: "(R + n) mod S = (if R + n < S then R + n else R + n - S)"
    using assms mod_wrap [of S "R + n"] by (cases "R + n < S") auto
  consider "W + S - (R + n) mod S = k - n" | "W + S - (R + n) mod S = S + (k - n)"
    using d e assms by (auto split: if_splits)
  then show ?thesis
  proof cases
    case 2
    then have "(W + S - (R + n) mod S) mod S = (k - n) mod S" by (simp only: mod_add_self1)
    with assms show ?thesis by simp
  qed (use assms in simp)
qed

lemma ring_move_rp:
  assumes "ring_ok r" and "n \<le> length (content r)"
  shows "ring_ok (r\<lparr>rp := (rp r + int n) mod ring_size r, p_order_flag := b\<rparr>)"
    and "content (r\<lparr>rp := (rp r + int n) mod ring_size r, p_order_flag := b\<rparr>) = drop n (content r)"
proof -
  obtain S R W where p: "ring_size r = int S" "rp r = int R" "wp r = int W" "length (pbuff r) = S"
    "R < S" "W < S" "0 < S"
    using ring_ok_parts [OF assms(1)] .
  let ?r = "r\<lparr>rp := (rp r + int n) mod ring_size r, p_order_flag := b\<rparr>"
  have R': "rp ?r = int ((R + n) mod S)" using p by (simp add: zmod_int)
  show "ring_ok ?r" using assms(1) p by (simp add: ring_ok_def)
  define k where "k = (W + S - R) mod S"
  have c: "content r = cyc (pbuff r) S R k" using p by (simp add: content_def readable_nat k_def)
  then have n: "n \<le> k" using assms(2) by simp
  have k: "(R + k) mod S = W" "k < S" using readable_nat(2) [OF p(1-3,5,6)] p(7) by (simp_all add: k_def)
  have "(W + S - (R + n) mod S) mod S = k - n"
    using n k(2) p(5) k(1) by (rule cyclic_distance)
  then have "content ?r = cyc (pbuff r) S ((R + n) mod S) (k - n)"
    using readable_nat(1) [of ?r S "(R + n) mod S" W] p R' by (simp add: content_def)
  then show "content ?r = drop n (content r)" using c n by (simp add: drop_cyc)
qed


text \<open>A read takes the oldest bytes, or fails and takes nothing.\<close>

definition taken :: "mdbg_ring_t \<Rightarrow> nat \<Rightarrow> mdbg_ring_t \<Rightarrow> bool" where
  "taken r n r' \<longleftrightarrow> ring_ok r' \<and> content r' = drop n (content r) \<and> pbuff r' = pbuff r \<and> ring_size r' = ring_size r"

lemma taken_move:
  "ring_ok r \<Longrightarrow> n \<le> length (content r) \<Longrightarrow>
     taken r n (r\<lparr>rp := (rp r + int n) mod ring_size r, p_order_flag := b\<rparr>)"
  using ring_move_rp [of r n b] by (simp add: taken_def)

lemma ring_flag: "ring_ok (r\<lparr>p_order_flag := b\<rparr>) = ring_ok r" "content (r\<lparr>p_order_flag := b\<rparr>) = content r"
  by (simp_all add: ring_ok_def content_def mdbg_ring_readable_len_def mdbg_ring_free_space_def)

lemma read_spec:
  assumes "ring_ok r" and "0 < L"
  defines "n \<equiv> min L (length (content r))"
  shows "(\<exists>r'. mdbg_ring_read to_buf r (int L) = Some (int n, take n (content r), r') \<and> taken r n r') \<or>
     (\<exists>r'. mdbg_ring_read to_buf r (int L) = Some (- EFAULT, [], r') \<and> taken r 0 r' \<and> (\<exists>b. \<not> to_buf b))"
proof -
  obtain S R W where p: "ring_size r = int S" "rp r = int R" "wp r = int W" "length (pbuff r) = S"
    "R < S" "W < S" "0 < S"
    using ring_ok_parts [OF assms(1)] .
  define k where "k = (W + S - R) mod S"
  have len: "mdbg_ring_readable_len r = int k" unfolding k_def by (rule readable_nat(1)) (use p in simp_all)
  have c: "content r = cyc (pbuff r) S R k" using p len by (simp add: content_def)
  have k: "k < S" using p(7) by (simp add: k_def)
  have n: "n = min L k" "n \<le> k" by (simp_all add: n_def c)
  have rl: "(if int L \<le> int k then int L else int k) = int n" using n by simp
  show ?thesis
  proof (cases "n = 0")
    case True
    then have "k = 0" using n assms(2) by simp
    then show ?thesis using assms(1,2) True by (simp add: mdbg_ring_read_def len taken_def)
  next
    case False
    then have k0: "0 < k" "0 < n" using n by simp_all
    show ?thesis
    proof (cases "R + n < S")
      case True
      have e: "take n (drop R (pbuff r)) = take n (content r)"
        using True p(4) n(2) by (simp add: c take_cyc cyc_straight)
      have b: "read_bytes (pbuff r) R n = Some (take n (content r))"
        using True p(4) e by (simp add: read_bytes_def)
      have m: "(rp r + int n) mod ring_size r = rp r + int n" using True p(1,2) by simp
      have o: "mdbg_ring_over_loop r (int n) MDBG_RING_R = (False, r)"
        using True p(1,2) by (simp add: mdbg_ring_over_loop_def mdbg_ring_end_def)
      have move: "r\<lparr>rp := rp r + int n\<rparr> = r\<lparr>rp := (rp r + int n) mod ring_size r, p_order_flag := p_order_flag r\<rparr>"
        unfolding m by simp
      have "taken r n (r\<lparr>rp := rp r + int n\<rparr>)"
        by (subst move, rule taken_move [OF assms(1)]) (use n(2) c in simp)
      moreover have "taken r 0 r" using assms(1) by (simp add: taken_def)
      moreover have "mdbg_ring_read to_buf r (int L) =
          Some (if to_buf (take n (content r)) then (int n, take n (content r), r\<lparr>rp := rp r + int n\<rparr>) else (- EFAULT, [], r))"
        unfolding mdbg_ring_read_def Let_def len rl o using assms(2) k0 b p(2) by simp
      ultimately show ?thesis by (cases "to_buf (take n (content r))") auto
    next
      case False
      define b1 where "b1 = take (S - R) (drop R (pbuff r))"
      define b2 where "b2 = take (R + n - S) (pbuff r)"
      have nS: "n \<le> S" "R + n - S \<le> S" using n(2) k p(5) by simp_all
      have e: "b1 @ b2 = take n (content r)"
        using False p(4,5) n(2) nS by (simp add: b1_def b2_def c take_cyc cyc_wrap)
      have r1: "read_bytes (pbuff r) R (S - R) = Some b1" "read_bytes (pbuff r) 0 (R + n - S) = Some b2"
        using p(4,5) nS by (simp_all add: read_bytes_def b1_def b2_def)
      define r1 where "r1 = r\<lparr>p_order_flag := False\<rparr>"
      have o: "mdbg_ring_over_loop r (int n) MDBG_RING_R = (True, r1)"
        using False p(1,2) by (simp add: mdbg_ring_over_loop_def mdbg_ring_end_def r1_def)
      have l: "mdbg_ring_end r1 - rp r1 + 1 = int (S - R)" "int n - int (S - R) = int (R + n - S)"
        using False p(1,2,5) by (simp_all add: r1_def mdbg_ring_end_def of_nat_diff)
      have "(rp r + int n) mod ring_size r = int ((R + n) mod S)" using p(1,2) by (simp add: zmod_int)
      also have "(R + n) mod S = R + n - S" using False n(2) k p(5) by (intro mod_wrap) simp_all
      finally have move: "r1\<lparr>rp := int (R + n - S)\<rparr> =
          r\<lparr>rp := (rp r + int n) mod ring_size r, p_order_flag := False\<rparr>"
        by (simp add: r1_def)
      have "taken r n (r1\<lparr>rp := int (R + n - S)\<rparr>)"
        by (subst move, rule taken_move [OF assms(1)]) (use n(2) c in simp)
      moreover have "taken r 0 r1" using assms(1) by (simp add: taken_def r1_def ring_flag)
      moreover have "pbuff r1 = pbuff r" "rp r1 = int R" using p(2) by (simp_all add: r1_def)
      moreover from this have "mdbg_ring_read to_buf r (int L) =
          Some (if to_buf b1 \<and> to_buf b2 then (int n, b1 @ b2, r1\<lparr>rp := int (R + n - S)\<rparr>) else (- EFAULT, [], r1))"
        unfolding mdbg_ring_read_def Let_def len rl o prod.case bool.case l using assms(2) k0 r1 by simp
      ultimately show ?thesis unfolding e by (cases "to_buf b1 \<and> to_buf b2") auto
    qed
  qed
qed

text \<open>What is left to read after \<open>s\<close> went through a ring of \<open>S\<close> bytes with nobody reading.\<close>

definition lap :: "nat \<Rightarrow> 'a list \<Rightarrow> 'a list" where
  "lap S s = drop (length s - length s mod S) s"

lemma lap_short: "length s < S \<Longrightarrow> lap S s = s"
  by (simp add: lap_def)

lemma ring_written:
  fixes b :: bool
  assumes "ring_ok r" and "written (pbuff r) (length (pbuff r)) (nat (wp r)) bs d"
    and "length bs \<le> length (pbuff r)"
  defines "r' \<equiv> r\<lparr>pbuff := d, wp := (wp r + int (length bs)) mod ring_size r, p_order_flag := b\<rparr>"
  shows "ring_ok r'" and "content r' = lap (length (pbuff r)) (content r @ bs)"
proof -
  obtain S R W where p: "ring_size r = int S" "rp r = int R" "wp r = int W" "length (pbuff r) = S"
    "R < S" "W < S" "0 < S"
    using ring_ok_parts [OF assms(1)] .
  define k where "k = (W + S - R) mod S"
  have c: "content r = cyc (pbuff r) S R k" using p by (simp add: content_def readable_nat k_def)
  have k: "(R + k) mod S = W" "k < S" using readable_nat(2) [OF p(1-3,5,6)] p(7) by (simp_all add: k_def)
  define W' where "W' = (W + length bs) mod S"
  have wr: "written (pbuff r) S W bs d" using assms(2) p(3,4) by simp
  then have d: "length d = S" by (simp add: written_def)
  have w': "wp r' = int W'" "W' < S" using p by (simp_all add: r'_def W'_def zmod_int)
  show "ring_ok r'" using assms(1) p d by (simp add: r'_def ring_ok_def)
  have "(R + (k + length bs) mod S) mod S = ((R + k) mod S + length bs) mod S"
    by (simp add: mod_add_right_eq mod_add_left_eq add.assoc)
  then have m: "(R + (k + length bs) mod S) mod S = W'" using k(1) by (simp add: W'_def)
  have "(W' + S - (R + 0) mod S) mod S = (k + length bs) mod S - 0"
    by (rule cyclic_distance) (use p m in simp_all)
  then have "mdbg_ring_readable_len r' = int ((k + length bs) mod S)"
    using readable_nat(1) [of r' S R W'] w' p by (simp add: r'_def)
  then have "content r' = cyc d S R ((k + length bs) mod S)" using d p by (simp add: content_def r'_def)
  also have "\<dots> = lap S (content r @ bs)"
    using cyc_written [OF wr k(1)] k(2) assms(3) p(4) by (simp add: c lap_def Let_def)
  finally show "content r' = lap (length (pbuff r)) (content r @ bs)" using p(4) by simp
qed

lemma ring_clobbered:
  fixes b :: bool
  assumes "ring_ok r" and "written (pbuff r) (length (pbuff r)) (nat (wp r)) bs d"
  defines "r' \<equiv> r\<lparr>pbuff := d, p_order_flag := b\<rparr>"
  shows "ring_ok r'" and "length (content r) + length bs \<le> length (pbuff r) \<Longrightarrow> content r' = content r"
proof -
  obtain S R W where p: "ring_size r = int S" "rp r = int R" "wp r = int W" "length (pbuff r) = S"
    "R < S" "W < S" "0 < S"
    using ring_ok_parts [OF assms(1)] .
  define k where "k = (W + S - R) mod S"
  have len: "mdbg_ring_readable_len r = int k" unfolding k_def by (rule readable_nat(1)) (use p in simp_all)
  have c: "content r = cyc (pbuff r) S R k" using p len by (simp add: content_def)
  have k: "(R + k) mod S = W" using readable_nat(2) [OF p(1-3,5,6)] by (simp add: k_def)
  have wr: "written (pbuff r) S W bs d" using assms(2) p(3,4) by simp
  then have d: "length d = S" by (simp add: written_def)
  show "ring_ok r'" using assms(1) p d by (simp add: r'_def ring_ok_def)
  have "mdbg_ring_readable_len r' = mdbg_ring_readable_len r"
    by (simp add: r'_def mdbg_ring_readable_len_def mdbg_ring_free_space_def)
  then have "content r' = cyc d S R k" using len p d by (simp add: content_def r'_def)
  then show "content r' = content r" if "length (content r) + length bs \<le> length (pbuff r)"
    using cyc_written_old [OF wr k] that p(4,7) by (simp add: c)
qed

text \<open>The bytes that arrive, and the buffer afterwards.\<close>

lemma write_straight:
  assumes "copies f" and "W + length bs \<le> length buf" and "W < length buf"
  shows "\<exists>d. copy_in f buf (int W) bs = Some (d, snd (f bs)) \<and> written buf (length buf) W (fst (f bs)) d"
proof -
  have l: "length (fst (f bs)) = length bs" using assms(1) by (simp add: copies_def)
  then show ?thesis
    using written_straight [of W "fst (f bs)" "length buf" buf] assms(2,3) by (simp add: copy_in_Some)
qed

lemma write_wrapped:
  assumes "copies f" and "W < length buf" and "length b1 = length buf - W" and "length b2 \<le> W"
  shows "\<exists>d1 d2. copy_in f buf (int W) b1 = Some (d1, snd (f b1)) \<and> copy_in f d1 0 b2 = Some (d2, snd (f b2)) \<and>
     written buf (length buf) W (fst (f b1) @ fst (f b2)) d2"
proof -
  have l: "length (fst (f b1)) = length b1" "length (fst (f b2)) = length b2" using assms(1) by (simp_all add: copies_def)
  have "copy_in f buf (int W) b1 = Some (take W buf @ fst (f b1), snd (f b1))"
    using l assms(2,3) by (simp add: copy_in_Some)
  moreover have "copy_in f (take W buf @ fst (f b1)) 0 b2 =
      Some (fst (f b2) @ drop (length (fst (f b2))) (take W buf @ fst (f b1)), snd (f b2))"
    using l assms(2-4) by (simp add: copy_in_Some del: drop_append)
  ultimately show ?thesis
    using written_wrap [of buf "length buf" W "fst (f b1)" "fst (f b2)"] l assms(2-4) by auto
qed

text \<open>
  The three outcomes of a write: the whole buffer is dropped because it does not fit and the device is open,
  it is stored, or it could not be read from user memory.
\<close>

definition fits :: "mdbg_ring_t \<Rightarrow> u8 list \<Rightarrow> bool" where
  "fits r buf \<longleftrightarrow> length (content r) + length buf < length (pbuff r)"

definition stored :: "mdbg_ring_t \<Rightarrow> u8 list \<Rightarrow> mdbg_ring_t \<Rightarrow> bool" where
  "stored r buf r' \<longleftrightarrow> ring_ok r' \<and> content r' = lap (length (pbuff r)) (content r @ buf) \<and> ring_size r' = ring_size r"

definition write_failed :: "mdbg_ring_t \<Rightarrow> u8 list \<Rightarrow> mdbg_ring_t \<Rightarrow> bool" where
  "write_failed r buf r' \<longleftrightarrow> ring_ok r' \<and> (fits r buf \<longrightarrow> content r' = content r) \<and> ring_size r' = ring_size r"

lemma fits_free: "ring_ok r \<Longrightarrow> mdbg_ring_free_space r - 1 < int (length buf) \<longleftrightarrow> \<not> fits r buf"
  by (auto simp: free_space fits_def ring_ok_def)

lemma write_outcome:
  fixes b :: bool
  assumes ok: "ring_ok r" and d: "written (pbuff r) (length (pbuff r)) (nat (wp r)) bs d"
    and bs: "length bs = length buf" "good \<Longrightarrow> bs = buf" "\<not> good \<Longrightarrow> \<exists>b. \<not> snd (f b)"
    and n: "length buf \<le> length (pbuff r)"
    and v: "w = Some (if good then (int (length buf), r\<lparr>pbuff := d, wp := (wp r + int (length buf)) mod ring_size r, p_order_flag := b\<rparr>)
               else (- EFAULT, r\<lparr>pbuff := d, p_order_flag := b\<rparr>))"
  shows "(\<exists>r'. w = Some (int (length buf), r') \<and> stored r buf r') \<or>
     (\<exists>r'. w = Some (- EFAULT, r') \<and> write_failed r buf r' \<and> (\<exists>b. \<not> snd (f b)))"
proof (cases good)
  case True
  have "stored r buf (r\<lparr>pbuff := d, wp := (wp r + int (length buf)) mod ring_size r, p_order_flag := b\<rparr>)"
    using ring_written [OF ok d, of b] bs(1) bs(2) [OF True] n by (simp add: stored_def)
  with v True show ?thesis by auto
next
  case False
  have "write_failed r buf (r\<lparr>pbuff := d, p_order_flag := b\<rparr>)"
    using ring_clobbered [OF ok d, of b] bs(1) by (simp add: write_failed_def fits_def)
  with v bs(3) [OF False] False show ?thesis by auto
qed

lemma write_spec:
  assumes ok: "ring_ok r" and "buf \<noteq> []" and f: "copies f" and n: "length buf \<le> length (pbuff r)"
    and go: "fits r buf \<or> open_count = 0"
  shows "(\<exists>r'. mdbg_ring_write f open_count r buf = Some (int (length buf), r') \<and> stored r buf r') \<or>
     (\<exists>r'. mdbg_ring_write f open_count r buf = Some (- EFAULT, r') \<and> write_failed r buf r' \<and> (\<exists>b. \<not> snd (f b)))"
proof -
  obtain S R W where p: "ring_size r = int S" "rp r = int R" "wp r = int W" "length (pbuff r) = S"
    "R < S" "W < S" "0 < S"
    using ring_ok_parts [OF ok] .
  have go': "\<not> (mdbg_ring_free_space r - 1 < int (length buf) \<and> open_count \<noteq> 0)"
    using go fits_free [OF ok] by blast
  have ff: "length (fst (f bs)) = length bs" "snd (f bs) \<Longrightarrow> fst (f bs) = bs" for bs
    using f by (simp_all add: copies_def)
  have w': "(wp r + int (length buf)) mod ring_size r = int ((W + length buf) mod S)" using p by (simp add: zmod_int)
  show ?thesis
  proof (cases "W + length buf < S")
    case True
    then obtain d where d: "copy_in f (pbuff r) (int W) buf = Some (d, snd (f buf))"
        "written (pbuff r) S W (fst (f buf)) d"
      using write_straight [OF f, of W buf "pbuff r"] p(4) by auto
    have o: "mdbg_ring_over_loop r (int (length buf)) MDBG_RING_W = (False, r)"
      using True p(1,3) by (simp add: mdbg_ring_over_loop_def mdbg_ring_end_def)
    have "mdbg_ring_write f open_count r buf =
        Some (if snd (f buf) then (int (length buf), r\<lparr>pbuff := d, wp := wp r + int (length buf)\<rparr>)
              else (- EFAULT, r\<lparr>pbuff := d\<rparr>))"
      unfolding mdbg_ring_write_def Let_def if_not_P [OF go'] o using assms(2) d(1) p(3) by simp
    then show ?thesis
      using True p w' d ff n
      by (intro write_outcome [OF ok, of "fst (f buf)" d _ "snd (f buf)" _ _ "p_order_flag r"]) auto
  next
    case False
    define b1 where "b1 = take (S - W) buf"
    define b2 where "b2 = take (W + length buf - S) (drop (S - W) buf)"
    have len: "length b1 = S - W" "length b2 = W + length buf - S" "length b2 \<le> W" "b1 @ b2 = buf"
      using False p n by (simp_all add: b1_def b2_def)
    obtain d1 d2 where d: "copy_in f (pbuff r) (int W) b1 = Some (d1, snd (f b1))"
        "copy_in f d1 0 b2 = Some (d2, snd (f b2))"
        "written (pbuff r) S W (fst (f b1) @ fst (f b2)) d2"
      using write_wrapped [OF f, of W "pbuff r" b1 b2] p len by auto
    define r1 where "r1 = r\<lparr>p_order_flag := True\<rparr>"
    have o: "mdbg_ring_over_loop r (int (length buf)) MDBG_RING_W = (True, r1)"
      using False p(1,3) by (simp add: mdbg_ring_over_loop_def mdbg_ring_end_def r1_def)
    have mod: "(W + length buf) mod S = W + length buf - S" using False p n by (intro mod_wrap) simp_all
    have l1: "mdbg_ring_end r1 - wp r1 + 1 = int (S - W)" using p by (simp add: r1_def mdbg_ring_end_def of_nat_diff)
    have l2: "(int (length buf) - int (S - W)) mod ring_size r1 = int (W + length buf - S)"
    proof -
      have "int (length buf) - int (S - W) = int (W + length buf - S)" using False p by (simp add: of_nat_diff)
      moreover have "W + length buf - S < S" using False p n by simp
      ultimately show ?thesis using p(1) by (simp add: r1_def zmod_int [symmetric] del: of_nat_diff)
    qed
    have rb: "read_bytes buf 0 (S - W) = Some b1" "read_bytes buf (S - W) (W + length buf - S) = Some b2"
      using False p by (simp_all add: read_bytes_def b1_def b2_def)
    have r2: "r1\<lparr>pbuff := d2, wp := int (W + length buf - S)\<rparr> =
        r\<lparr>pbuff := d2, wp := (wp r + int (length buf)) mod ring_size r, p_order_flag := True\<rparr>"
        "r1\<lparr>pbuff := d2\<rparr> = r\<lparr>pbuff := d2, p_order_flag := True\<rparr>"
      unfolding w' mod by (simp_all add: r1_def)
    have v: "mdbg_ring_write f open_count r buf =
        Some (if snd (f b1) \<and> snd (f b2) then (int (length buf), r1\<lparr>pbuff := d2, wp := int (W + length buf - S)\<rparr>)
              else (- EFAULT, r1\<lparr>pbuff := d2\<rparr>))"
      unfolding mdbg_ring_write_def Let_def if_not_P [OF go'] o prod.case bool.case l1 l2
      using assms(2) d p(3) rb by (simp add: r1_def)
    have v': "mdbg_ring_write f open_count r buf =
        Some (if snd (f b1) \<and> snd (f b2)
          then (int (length buf), r\<lparr>pbuff := d2, wp := (wp r + int (length buf)) mod ring_size r, p_order_flag := True\<rparr>)
          else (- EFAULT, r\<lparr>pbuff := d2, p_order_flag := True\<rparr>))"
      by (subst r2(1) [symmetric], subst r2(2) [symmetric]) (rule v)
    show ?thesis
    proof (rule write_outcome [OF ok _ _ _ _ n v'])
      show "written (pbuff r) (length (pbuff r)) (nat (wp r)) (fst (f b1) @ fst (f b2)) d2"
        using d(3) p(3,4) by simp
      show "length (fst (f b1) @ fst (f b2)) = length buf" using ff(1) len(4) by (metis length_append)
      show "fst (f b1) @ fst (f b2) = buf" if "snd (f b1) \<and> snd (f b2)" using that ff(2) len(4) by simp
      show "\<exists>b. \<not> snd (f b)" if "\<not> (snd (f b1) \<and> snd (f b2))" using that by blast
    qed
  qed
qed

section \<open>Runs of the ring and of a queue\<close>

text \<open>Operations of the log device and the firmware's writes, on kernel buffers.\<close>

datatype ring_op = Get nat | Put int "u8 list" | Clear | Reset

fun ring_step :: "mdbg_ring_t \<Rightarrow> ring_op \<Rightarrow> ((int \<times> u8 list) \<times> mdbg_ring_t) option" where
  "ring_step r (Get n) = do { (ret, bs, r') \<leftarrow> mdbg_ring_read (\<lambda>_. True) r (int n); Some ((ret, bs), r') }"
| "ring_step r (Put open_count bs) = do {
     (ret, r') \<leftarrow> mdbg_ring_write (\<lambda>b. (b, True)) open_count r bs; Some ((ret, []), r') }"
| "ring_step r Clear = Some ((0, []), mdbg_ring_clear r)"
| "ring_step r Reset = Some ((0, []), mdbg_ring_reset r)"

text \<open>
  What the ring does in every case. A write that does not fit is dropped while the device is open.
  While it is closed the write pointer runs over the read pointer, and of the \<open>n\<close> bytes held and
  written only the last \<open>n mod S\<close> are left: not the oldest bytes alone give way, and nothing at all
  is left when \<open>n\<close> is the size of the ring (\<open>closed_write_empties\<close>).
\<close>

fun lapping_spec :: "nat \<Rightarrow> u8 list \<Rightarrow> ring_op \<Rightarrow> (int \<times> u8 list) \<times> u8 list" where
  "lapping_spec S q (Get n) =
     (if n = 0 then ((- MDBG_ERR_BAD_PARAM, []), q)
      else ((int (min n (length q)), take n q), drop n q))"
| "lapping_spec S q (Put open_count bs) =
     (if bs = [] then ((- MDBG_ERR_BAD_PARAM, []), q)
      else if length q + length bs < S then ((int (length bs), []), q @ bs)
      else if open_count \<noteq> 0 then ((int (length bs), []), q)
      else ((int (length bs), []), lap S (q @ bs)))"
| "lapping_spec S q Clear = ((0, []), [])"
| "lapping_spec S q Reset = ((0, []), [])"

fun ring_op_ok :: "nat \<Rightarrow> ring_op \<Rightarrow> bool" where
  "ring_op_ok S (Put open_count bs) \<longleftrightarrow> open_count = 0 \<longrightarrow> length bs \<le> S"
| "ring_op_ok S _ \<longleftrightarrow> True"

definition ring_of_size :: "nat \<Rightarrow> mdbg_ring_t \<Rightarrow> bool" where
  "ring_of_size S r \<longleftrightarrow> ring_ok r \<and> length (pbuff r) = S"

lemma ring_of_size_eq: "ring_of_size S r \<Longrightarrow> ring_ok r' \<Longrightarrow> ring_size r' = ring_size r \<Longrightarrow> ring_of_size S r'"
  by (auto simp: ring_of_size_def ring_ok_def)

lemma get_simulates:
  assumes "ring_of_size S r"
  shows "\<exists>ret r'. ring_step r (Get n) = Some (ret, r') \<and> ring_of_size S r' \<and> lapping_spec S (content r) (Get n) = (ret, content r')"
proof (cases "n = 0")
  case True
  then show ?thesis using assms by (simp add: mdbg_ring_read_def)
next
  case False
  let ?n = "min n (length (content r))"
  obtain r' where r': "mdbg_ring_read (\<lambda>_. True) r (int n) = Some (int ?n, take ?n (content r), r')" "taken r ?n r'"
    using read_spec [of r n "\<lambda>_. True"] assms False by (auto simp: ring_of_size_def)
  have "take ?n (content r) = take n (content r)" "drop ?n (content r) = drop n (content r)"
    by (simp_all add: min_def)
  then show ?thesis using r' assms False ring_of_size_eq [OF assms, of r'] by (auto simp: taken_def)
qed

lemma put_simulates:
  assumes "ring_of_size S r" and "ring_op_ok S (Put open_count bs)"
  shows "\<exists>ret r'. ring_step r (Put open_count bs) = Some (ret, r') \<and> ring_of_size S r' \<and>
    lapping_spec S (content r) (Put open_count bs) = (ret, content r')"
proof -
  have ok: "ring_ok r" and S: "length (pbuff r) = S" using assms(1) by (simp_all add: ring_of_size_def)
  consider "bs = []" | "bs \<noteq> []" "\<not> fits r bs" "open_count \<noteq> 0" | "bs \<noteq> []" "fits r bs \<or> open_count = 0" by blast
  then show ?thesis
  proof cases
    case 1
    then show ?thesis using assms(1) by (simp add: mdbg_ring_write_def)
  next
    case 2
    then have "mdbg_ring_write (\<lambda>b. (b, True)) open_count r bs = Some (int (length bs), r)"
      using fits_free [OF ok, of bs] by (simp add: mdbg_ring_write_def Let_def)
    then show ?thesis using 2 assms(1) S by (simp add: fits_def)
  next
    case 3
    have "length bs \<le> length (pbuff r)" using 3 assms(2) S by (auto simp: fits_def)
    from write_spec [OF ok 3(1) _ this 3(2), of "\<lambda>b. (b, True)"] obtain r'
      where r': "mdbg_ring_write (\<lambda>b. (b, True)) open_count r bs = Some (int (length bs), r')" "stored r bs r'"
      by (auto simp: copies_def)
    then have "content r' = (if length (content r) + length bs < S then content r @ bs else lap S (content r @ bs))"
      using S by (simp add: stored_def lap_short)
    with r' 3 S show ?thesis using ring_of_size_eq [OF assms(1), of r'] by (auto simp: stored_def fits_def)
  qed
qed

lemma clear_ok: "ring_of_size S r \<Longrightarrow> ring_of_size S (mdbg_ring_clear r) \<and> content (mdbg_ring_clear r) = []"
  by (simp add: ring_of_size_def ring_ok_def mdbg_ring_clear_def content_def mdbg_ring_readable_len_def
      mdbg_ring_free_space_def MDBG_RING_REMAIN_def cyc_def)

lemma reset_ok: "ring_of_size S r \<Longrightarrow> ring_of_size S (mdbg_ring_reset r) \<and> content (mdbg_ring_reset r) = []"
  by (simp add: ring_of_size_def ring_ok_def mdbg_ring_reset_def content_def mdbg_ring_readable_len_def
      mdbg_ring_free_space_def MDBG_RING_REMAIN_def cyc_def)

interpretation ring_queue: implements ring_step "ring_of_size S" "ring_op_ok S" content "lapping_spec S" for S
proof unfold_locales
  fix r e
  assume "ring_of_size S r" "ring_op_ok S e"
  then show "\<exists>ret r'. ring_step r e = Some (ret, r') \<and> ring_of_size S r' \<and> lapping_spec S (content r) e = (ret, content r')"
    using get_simulates put_simulates clear_ok reset_ok by (cases e) auto
qed

lemma alloc_ok:
  assumes "mdbg_ring_alloc a b c sz = Some (Some r)" and "sz < 2 ^ 31"
  shows "ring_of_size (nat sz) r" and "content r = []"
  using assms
  by (auto simp: mdbg_ring_alloc_def MDBG_RING_MIN_SIZE_def ring_of_size_def ring_ok_def content_def
      mdbg_ring_readable_len_def mdbg_ring_free_space_def MDBG_RING_REMAIN_def cyc_def split: if_splits)

lemma closed_write_empties:
  assumes "ring_of_size S r" and "bs \<noteq> []" and "length bs \<le> S" and "length (content r) + length bs = S"
  shows "\<exists>ret r'. ring_step r (Put 0 bs) = Some (ret, r') \<and> content r' = []"
  using put_simulates [OF assms(1), of 0 bs] assms by (force simp: lap_def)

text \<open>
  The specification: a queue of bytes with room for one byte less than the ring has; a write that
  does not fit is dropped whole.
\<close>

fun queue_spec :: "nat \<Rightarrow> u8 list \<Rightarrow> ring_op \<Rightarrow> (int \<times> u8 list) \<times> u8 list" where
  "queue_spec S q (Get n) =
     (if n = 0 then ((- MDBG_ERR_BAD_PARAM, []), q)
      else ((int (min n (length q)), take n q), drop n q))"
| "queue_spec S q (Put open_count bs) =
     (if bs = [] then ((- MDBG_ERR_BAD_PARAM, []), q)
      else ((int (length bs), []), if length q + length bs < S then q @ bs else q))"
| "queue_spec S q Clear = ((0, []), [])"
| "queue_spec S q Reset = ((0, []), [])"

text \<open>What is written while the device is closed fits into the queue at that moment.\<close>

fun closed_writes_fit :: "nat \<Rightarrow> u8 list \<Rightarrow> ring_op list \<Rightarrow> bool" where
  "closed_writes_fit S q [] \<longleftrightarrow> True"
| "closed_writes_fit S q (e # es) \<longleftrightarrow>
     (case e of Put open_count bs \<Rightarrow> open_count = 0 \<longrightarrow> length q + length bs < S | _ \<Rightarrow> True)
     \<and> closed_writes_fit S (snd (queue_spec S q e)) es"

lemma closed_writes_fit_ok:
  "closed_writes_fit S q ops \<Longrightarrow> (\<forall>e \<in> set ops. ring_op_ok S e) \<and> run_spec (lapping_spec S) q ops = run_spec (queue_spec S) q ops"
proof (induction ops arbitrary: q)
  case (Cons e es)
  have e: "ring_op_ok S e" "lapping_spec S q e = queue_spec S q e" using Cons.prems by (cases e; auto)+
  with Cons.IH [of "snd (queue_spec S q e)"] Cons.prems show ?case by (simp add: split_beta Let_def)
qed simp

text \<open>
  C14. A ring that was allocated behaves as a bounded queue of bytes over every sequence of reads, writes and
  resets in which the writes made while the log device is closed fit: no access leaves the buffer, every
  call returns what the queue returns, and the bytes left are those of the queue.
\<close>

theorem ring_refines_queue:
  assumes "mdbg_ring_alloc a b c sz = Some (Some r)" and "sz < 2 ^ 31"
    and "closed_writes_fit (nat sz) [] ops"
  shows "\<exists>outs r'. run_out ring_step r ops = Some (outs, r') \<and>
    run_spec (queue_spec (nat sz)) [] ops = (outs, content r')"
  using ring_queue.run_simulates [OF alloc_ok(1) [OF assms(1,2)]] closed_writes_fit_ok [OF assms(3)]
    alloc_ok(2) [OF assms(1,2)] by fastforce

theorem ring_refines_queue_witness:
  "\<exists>r outs r'. mdbg_ring_alloc True True True 4096 = Some (Some r) \<and>
     run_out ring_step r [Put 1 [7, 8, 9], Get 2, Put 0 [1], Get 5] = Some (outs, r') \<and>
     outs = [(3, []), (2, [7, 8]), (1, []), (2, [9, 1])]"
proof -
  obtain r where r: "mdbg_ring_alloc True True True 4096 = Some (Some r)"
    by (simp add: mdbg_ring_alloc_def MDBG_RING_MIN_SIZE_def)
  from ring_refines_queue [OF this, of "[Put 1 [7, 8, 9], Get 2, Put 0 [1], Get 5]"] r show ?thesis
    by (auto simp: Let_def)
qed

text \<open>
  \<open>mdbg_ring_write_ext\<close> tests the read pointer for the end of the buffer and then moves the write pointer:
  the bytes it reserves can lie behind the buffer.
\<close>

lemma write_ext_overruns:
  "\<exists>r p r'. ring_ok r \<and> mdbg_ring_write_ext r 150 = (Some p, r') \<and> ring_size r < p + 150"
proof -
  let ?r = "\<lparr>ring_size = 4096, pbuff = replicate 4096 0, rp = 100, wp = 4000, p_order_flag = False\<rparr>"
  have "ring_ok ?r" by (simp add: ring_ok_def)
  moreover have "mdbg_ring_write_ext ?r 150 = (Some 4000, ?r\<lparr>wp := 4150\<rparr>)"
    by (simp add: mdbg_ring_write_ext_def mdbg_ring_over_loop_def mdbg_ring_end_def mdbg_ring_will_full_def
        mdbg_ring_free_space_def MDBG_RING_REMAIN_def)
  ultimately show ?thesis by force
qed

end
