(* ===== verification/Spec2Isabelle.thy ===== *)
theory Spec2Isabelle
  imports
    Rx_Path
    Tcp_Ack_Correct
    Qos_Correct
    Msg_List_Correct
    Tx_Credit_Correct
    Tx_Split_Correct
    Cmd_Correct
    Keys_Correct
    Bt_Hci_Correct
    Lmp_Key
    Sdio_Rx_Correct
    Chip_Power_Image
    Sleep_Correct
    Ring_Correct
begin

text \<open>
  Verification of the UWE5631 Wi-Fi and Bluetooth driver.

  \<^bold>\<open>The program.\<close> The Wi-Fi driver under \<open>WIFI/\<close> receives data buffers from the firmware, puts the
  MPDUs of a block-ack session in order (\<open>reorder.c\<close>), joins fragments (\<open>defrag.c\<close>) and hands the
  MSDUs to the network stack (\<open>rx_msg.c\<close>). On the way out a packet is classified (\<open>qos.c\<close>), may be
  dropped as a redundant TCP ACK (\<open>tcp_ack.c\<close>), takes a message buffer from a pool (\<open>msg.c\<close>), waits in
  the queue of its category and peer, and is given to the bus as far as the firmware has granted
  credits (\<open>tx_msg.c\<close>). The Bluetooth tty driver under \<open>BT/tty-sdio\<close> cuts what the stack writes into
  packets, separates what the chip sends, and has commands of its own; the library under \<open>BT/libbt\<close>
  computes pairing keys with two arithmetics of its own (\<open>src/algorithms\<close>). Under \<open>BSP/\<close> are the SDIO
  transport, which packs the buffers of all modules into transfers and separates what comes back; the boot code,
  which loads the firmware and switches the chip; the log ring buffer of the chip's messages; and the sleep
  manager, by which a module keeps the chip awake (the bus layer's own calls are switched off by macros).

  \<^bold>\<open>Conventions.\<close> \<open>Prelude\<close> names the integer types and has array accesses \<open>aget\<close> and \<open>aset\<close> that are
  \<open>None\<close> out of bounds; the same option marks every other access the code must not make, so that
  \<open>None\<close> is a fault and \<open>Some\<close> a return. Error codes are the numbers the code returns. A structure
  of the code is a record with the fields the modelled functions use, a linked list of buffers a
  list, a queue counter the integer of the code. Operations under one lock are one step.

  \<^bold>\<open>Receive side.\<close> \<open>Seqno\<close> models the receive descriptor and the sequence numbers of
  \<open>WIFI/rx_msg.h\<close>. \<open>Reorder\<close> models one block-ack session of \<open>WIFI/reorder.c\<close>;
  \<open>Reorder_Conserve\<close>, \<open>Reorder_Window\<close> and \<open>Reorder_Session\<close> prove conservation of buffers, the
  window refinement and the invariant. \<open>Reorder_Entry\<close> models the table of sessions and the
  events of the firmware, \<open>Reorder_Table\<close> and \<open>Reorder_Ops\<close> its soundness; \<open>Reorder_Correct\<close> states
  the properties. \<open>Stage\<close> has the interfaces \<open>safe_machine\<close> (a step function that never faults from
  an invariant) and \<open>packet_stage\<close> (which also loses no buffer); the reorder stage is an
  instance of the second and the QoS state of the first. \<open>Defrag\<close> and \<open>Defrag_Correct\<close> treat
  \<open>WIFI/defrag.c\<close>, \<open>Rx_Path\<close> the composition in \<open>sprdwl_rx_process\<close>: both stages together
  never fault and keep every buffer, but for one kind of fragment that a node fresh from \<open>kzalloc\<close> takes for its own.

  \<^bold>\<open>TCP ACK filter.\<close> \<open>Tcp_Ack\<close> models the parser of \<open>WIFI/tcp_ack.c\<close>, byte by byte, its table of
  connections, the handler, the timer and the setup string. \<open>Tcp_Ack_Correct\<close> proves the round trip
  of built and parsed ACKs, the invariant of the table, that every message is sent, held or
  dropped exactly once, and where the code is wrong.

  \<^bold>\<open>QoS.\<close> \<open>Qos\<close> models \<open>WIFI/qos.c\<close>: priorities, the QoS map, the table of traffic
  streams, admitted and used air time, the three timers, and the commands of \<open>WIFI/cmdevt.c\<close> that
  change them. The clock and the period of a second in ticks are parameters. \<open>Qos_Correct\<close> proves
  that every history keeps a category available exactly while its time lasts, that the
  downgrade loop gives the highest admissible category unless an exhausted one lies above it, what the default map does to
  each packet, and the findings.

  \<^bold>\<open>Transmit side.\<close> \<open>Msg_List\<close> models \<open>WIFI/msg.c\<close>; its list is used by threads without a common lock,
  so the steps of allocation, release and teardown interleave in the relation \<open>msg_step\<close>.
  \<open>Msg_List_Correct\<close> proves by rule induction that teardown releases every buffer once. \<open>Tx_Credit\<close> models
  the credits of \<open>WIFI/tx_msg.c\<close>: colours, reservation, the return of a transmission, the credit
  event. \<open>Tx_Credit_Correct\<close> states them as an account (locale \<open>credit_account\<close>) and proves that no
  more is sent than was granted, as long as the credits fit an \<open>int\<close>. \<open>Tx_Split\<close> models the choice
  of packets among categories and peers and the moves between the lists, \<open>Tx_Split_Correct\<close>
  proves that the choice uses every credit, keeps the order of each queue and loses nothing.

  \<^bold>\<open>Firmware commands.\<close> \<open>Cmd\<close> models the command in flight of \<open>WIFI/cmdevt.c\<close>: the count of threads inside,
  setting and sending a command, the wait, and the matching of responses. What other threads do is a list of
  steps before the command is set and one until the wait ends. \<open>Cmd_Correct\<close> proves that a caller only gets the
  first response to its own command, and what goes wrong with short and with late responses.

  \<^bold>\<open>Multiple precision arithmetic.\<close> \<open>Mp\<close> models \<open>p_256_multprecision.c\<close> on lists of 32-bit words, \<open>Mp_Val\<close>
  gives the value of such a list and the carry lemmas, \<open>Mp_Correct\<close> proves the modular operations, the
  product and the inversion, with its termination. \<open>Mp_Fast\<close> models the two fast reductions,
  \<open>Mp_Fast_Correct\<close> proves the one for 256 bits exact under the conditions that keep its carries
  right, and shows wrong results outside them.

  \<^bold>\<open>Pairing keys.\<close> \<open>Ecc\<close> models the points of \<open>p_256_ecc_pp.c\<close>: doubling, addition, the non-adjacent form and
  the multiplication. \<open>Ecc_Correct\<close> proves that the digits represent the number and that every operation
  returns. \<open>Keys\<close> models the curve constants, byte order, hexadecimal text and the key operations of
  \<open>algo_api.c\<close>; \<open>Keys_Correct\<close> composes them: a generated key never makes the multiplication fail.

  \<^bold>\<open>Bluetooth tty driver.\<close> \<open>Bt_Sitm\<close> models the splitter \<open>sitm.c\<close>, with its state, fifo and buffers;
  \<open>Bt_Sitm_Correct\<close> proves that it refines the cutting of a byte stream into packets for every division into
  writes, as long as the packets fit its buffer. \<open>Bt_Hci\<close> models \<open>hci.c\<close>: received packets, the kernel's own commands, the table of
  wake devices; \<open>Bt_Hci_Correct\<close> proves what reaches the stack, that own commands look as written ones, and
  that the table is a finite map.

  \<^bold>\<open>Second arithmetic.\<close> \<open>Lmp\<close> models \<open>lmp_ecc.c\<close>, which makes the keys for 192 bits on numbers with sign and length.
  \<open>Lmp_Val\<close> gives the values of its word loops, \<open>Lmp_Field\<close> proves the reduction and the product modulo the prime, with
  the gap in which an unwritten word is read, \<open>Lmp_Inverse\<close> that the inversion of a number
  coprime to the prime ends, and with the inverse where the result is below the prime. \<open>Lmp_Points\<close>
  relates doubling and addition to the same formulas on residues, both without a result in the same cases, and
  \<open>Lmp_Curve\<close> shows that these are the chord and the tangent. \<open>Lmp_Scalar\<close> proves the multiplication to be
  double-and-add over the bits, \<open>Lmp_Key\<close> follows the bytes of a key through it.

  \<^bold>\<open>Platform.\<close> \<open>Ring\<close> models \<open>platform/bufring.c\<close>, \<open>Ring_Correct\<close> proves it a bounded queue of bytes as
  long as what is written with the log closed fits. \<open>Sleep\<close> models \<open>sleep/slp_mgr.c\<close> with its interrupt handlers.
  \<open>Sleep_Correct\<close> runs the calls of the driver and the interrupts in any interleaving in the relation \<open>slp_step\<close>, proves by rule
  induction what a claim guarantees, and shows the race that resume's wake up without a claim can lose.

  \<^bold>\<open>SDIO transport.\<close> \<open>Sdio\<close> models the transmit side of \<open>platform/sdio\<close>: the queues of the channels, the headers, the
  packing of buffers into one transfer, for normal DMA with blocks of 512 bytes. \<open>Sdio_Correct\<close> proves that the bus
  gets what was pushed, in order. \<open>Sdio_Rx\<close> models the receive side: the page pieces the data is read into, the separation, the
  channels and the return of buffers. \<open>Sdio_Rx_Correct\<close> proves that a piece is not used again before it is given back,
  as far as packets end within what was read, and that what one side packs the other separates.

  \<^bold>\<open>Firmware and power.\<close> \<open>Firmware\<close> models the download in \<open>platform/wcn_boot.c\<close>: the number and the type of the chip, the
  source of the image, the containers, the writing in packets. \<open>Firmware_Correct\<close> proves the round trip from
  container to memory. \<open>Chip_Power\<close> models opening and closing of the subsystems and the pins, on the board
  with SDIO and a reset pin; \<open>Chip_Power_Correct\<close> proves how the power follows the commands, failed starts included, \<open>Chip_Power_Image\<close> that an open
  subsystem has its image loaded, and what a failed start leaves behind.

  \<^bold>\<open>Loops.\<close> A loop whose end is not evident is a \<open>partial_function (option)\<close> and is proved to return:
  \<open>grow_index_size\<close>, \<open>even_loop\<close>, \<open>inv_loop\<close>, \<open>naf_loop\<close>, \<open>parse_frame\<close>, \<open>frag_loop\<close>, and, for numbers with an inverse,
  \<open>halve_loop\<close> and \<open>inversion_loop\<close>. Two are shown to run forever on some inputs: \<open>rx_buf_loop\<close> on a header of length zero and
  \<open>halve_loop\<close> on zero. The other loops are recursive on the list or the counter they run over, or \<open>function\<close>s with
  a measure. A loop that waits for a device runs over the list of what it reads. No fuel is used.

  \<^bold>\<open>Not modelled.\<close> The single commands and events of \<open>cmdevt.c\<close>, \<open>cfg80211.c\<close> and \<open>vendor.c\<close>, apart from
  those that change a modelled state: they marshal data for the firmware and the kernel. The
  transmit thread and the checksum helpers of \<open>tx_msg.c\<close>. Device registration and the access to the bus itself, ADMA
  transfers, regulators and clocks, the calibration data and GNSS, the loop check, memory power down, and a download that
  completes after the wait for it has ended. Memory allocation by the kernel is a parameter, a function or a flag.
  Statistics and log output are left out.
\<close>

end
